(* ===== verification/Prelude.thy ===== *)
theory Prelude
  imports Main "HOL-Library.Word" "HOL-Library.Char_ord" "HOL-Library.List_Lexorder"
begin

text \<open>
  What every component of the development shares: the error values of
  \<^verbatim>\<open>sparrow-model/src/error.rs\<close>, the result type with its bind, Rust's fixed-width
  integers (checked, saturating and wrapping operations on \<open>int\<close> and \<open>nat\<close> with the
  width written out), little-endian byte strings, and the interface every binary codec of
  the repository is proved against.
\<close>

named_theorems result_simps "unfolding rules of the result monad"
named_theorems mach_defs "definitions of the machine-integer operations"

section \<open>Errors and results\<close>

datatype error_code =
    InvalidArgument
  | InvalidSchema
  | TypeMismatch
  | BoundExceeded
  | ResourceExhausted
  | FeatureUnavailable
  | UnsupportedRestore
  | UnsupportedDelivery
  | CodecViolation
  | MaxRecordSize
  | JobFailed
  | Cancelled
  | PolicyDenied
  | SecretMissing
  | IntegerOverflow
  | Internal

text \<open>
  \<open>SparrowError\<close> carries a stable code and a retry hint; the message text and the
  key/value context are diagnostics nothing in the modelled code branches on, so they are
  left out of the record.
\<close>

record sparrow_error =
  err_code :: error_code
  err_retryable :: bool

definition default_retryable :: "error_code \<Rightarrow> bool" where
  "default_retryable c \<longleftrightarrow> c = ResourceExhausted"

definition new_error :: "error_code \<Rightarrow> sparrow_error" where
  "new_error c = \<lparr>err_code = c, err_retryable = default_retryable c\<rparr>"

definition with_retryable :: "bool \<Rightarrow> sparrow_error \<Rightarrow> sparrow_error" where
  "with_retryable b e = e\<lparr>err_retryable := b\<rparr>"

type_synonym 'a result = "sparrow_error + 'a"

abbreviation Ok :: "'a \<Rightarrow> 'a result" where
  "Ok x \<equiv> Inr x"

abbreviation Err :: "error_code \<Rightarrow> 'a result" where
  "Err c \<equiv> Inl (new_error c)"

lemma new_error_sel [simp]:
  "err_code (new_error c) = c" "err_retryable (new_error c) \<longleftrightarrow> c = ResourceExhausted"
  by (simp_all add: new_error_def default_retryable_def)

lemma new_error_inject [simp]: "new_error a = new_error b \<longleftrightarrow> a = b"
  by (auto simp: new_error_def)

lemma with_retryable_sel [simp]:
  "err_code (with_retryable b e) = err_code e" "err_retryable (with_retryable b e) = b"
  by (simp_all add: with_retryable_def)

text \<open>The \<open>?\<close> operator: stop at the first error.\<close>

definition rbind :: "'e + 'a \<Rightarrow> ('a \<Rightarrow> 'e + 'b) \<Rightarrow> 'e + 'b" where
  "rbind m f = (case m of Inl e \<Rightarrow> Inl e | Inr x \<Rightarrow> f x)"

lemma rbind_simps [simp, result_simps]:
  "rbind (Inl e) f = Inl e" "rbind (Inr x) f = f x"
  by (simp_all add: rbind_def)

lemma rbind_Inr_iff:
  "rbind m f = Inr y \<longleftrightarrow> (\<exists>x. m = Inr x \<and> f x = Inr y)"
  by (cases m) simp_all

lemma rbind_Inl_iff:
  "rbind m f = Inl e \<longleftrightarrow> m = Inl e \<or> (\<exists>x. m = Inr x \<and> f x = Inl e)"
  by (cases m) simp_all

lemma rbind_split:
  "P (rbind m f) \<longleftrightarrow> (\<forall>e. m = Inl e \<longrightarrow> P (Inl e)) \<and> (\<forall>x. m = Inr x \<longrightarrow> P (f x))"
  by (cases m) simp_all

lemma rbind_cong [fundef_cong]:
  "m = m' \<Longrightarrow> (\<And>x. m' = Inr x \<Longrightarrow> f x = f' x) \<Longrightarrow> rbind m f = rbind m' f'"
  by (cases m') simp_all

text \<open>\<open>ok_or\<close>, and \<open>collect::<Result<Vec<_>>>\<close>: left to right, first error wins.\<close>

definition ok_or :: "error_code \<Rightarrow> 'a option \<Rightarrow> 'a result" where
  "ok_or c x = (case x of None \<Rightarrow> Err c | Some v \<Rightarrow> Inr v)"

lemma ok_or_simps [simp, result_simps]:
  "ok_or c None = Err c" "ok_or c (Some v) = Inr v"
  by (simp_all add: ok_or_def)

lemma ok_or_Inr_iff [simp]: "ok_or c x = Inr v \<longleftrightarrow> x = Some v"
  by (cases x) simp_all

fun map_result :: "('a \<Rightarrow> 'e + 'b) \<Rightarrow> 'a list \<Rightarrow> 'e + 'b list" where
  "map_result f [] = Inr []"
| "map_result f (x # xs) = rbind (f x) (\<lambda>y. rbind (map_result f xs) (\<lambda>ys. Inr (y # ys)))"

lemma map_result_cong [fundef_cong]:
  "xs = ys \<Longrightarrow> (\<And>x. x \<in> set ys \<Longrightarrow> f x = g x) \<Longrightarrow> map_result f xs = map_result g ys"
  by (induction ys arbitrary: xs) auto

lemma map_result_Inr_length: "map_result f xs = Inr ys \<Longrightarrow> length ys = length xs"
  by (induction xs arbitrary: ys) (auto simp: rbind_Inr_iff)

lemma map_result_Inr_nth:
  "map_result f xs = Inr ys \<Longrightarrow> i < length xs \<Longrightarrow> f (xs ! i) = Inr (ys ! i)"
  by (induction xs arbitrary: ys i) (auto simp: rbind_Inr_iff nth_Cons split: nat.splits)

lemma map_result_all_Inr:
  "(\<And>x. x \<in> set xs \<Longrightarrow> f x = Inr (g x)) \<Longrightarrow> map_result f xs = Inr (map g xs)"
  by (induction xs) auto

section \<open>Machine integers\<close>

text \<open>
  An \<open>i64\<close> is an \<open>int\<close> within \<open>is_i64\<close>, a \<open>u64\<close> or \<open>usize\<close> (64-bit targets)
  a \<open>nat\<close> within \<open>is_u64\<close>. Every operation of the source that can leave the range is
  written with the rule the source names: checked, saturating or wrapping.
\<close>

abbreviation i64_min :: int where "i64_min \<equiv> - 9223372036854775808"
abbreviation i64_max :: int where "i64_max \<equiv> 9223372036854775807"
abbreviation u64_max :: nat where "u64_max \<equiv> 18446744073709551615"
abbreviation u32_max :: nat where "u32_max \<equiv> 4294967295"

definition is_i64 :: "int \<Rightarrow> bool" where
  [mach_defs]: "is_i64 x \<longleftrightarrow> i64_min \<le> x \<and> x \<le> i64_max"

definition is_u64 :: "nat \<Rightarrow> bool" where
  [mach_defs]: "is_u64 x \<longleftrightarrow> x \<le> u64_max"

definition checked_i64 :: "int \<Rightarrow> int option" where
  [mach_defs]: "checked_i64 x = (if is_i64 x then Some x else None)"

definition checked_u64 :: "int \<Rightarrow> nat option" where
  [mach_defs]: "checked_u64 x = (if 0 \<le> x \<and> x \<le> int u64_max then Some (nat x) else None)"

definition sat_i64 :: "int \<Rightarrow> int" where
  [mach_defs]: "sat_i64 x = (if x < i64_min then i64_min else if x > i64_max then i64_max else x)"

definition sat_u64 :: "nat \<Rightarrow> nat" where
  [mach_defs]: "sat_u64 x = (if x > u64_max then u64_max else x)"

definition i64_as_u64 :: "int \<Rightarrow> nat" where
  [mach_defs]: "i64_as_u64 x = nat (x mod 18446744073709551616)"

definition u64_as_i64 :: "nat \<Rightarrow> int" where
  [mach_defs]: "u64_as_i64 x =
     (let y = int (x mod 18446744073709551616)
      in if y \<le> i64_max then y else y - 18446744073709551616)"

text \<open>Atomic \<open>fetch_add\<close> and \<open>fetch_sub\<close>, and \<open>+=\<close> in a release build, wrap.\<close>

abbreviation wadd :: "nat \<Rightarrow> nat \<Rightarrow> nat" where
  "wadd a b \<equiv> (a + b) mod 18446744073709551616"

definition wsub :: "nat \<Rightarrow> nat \<Rightarrow> nat" where
  "wsub a b = nat ((int a - int b) mod 18446744073709551616)"

text \<open>Rust's \<open>/\<close> on integers truncates towards zero.\<close>

definition trunc_div :: "int \<Rightarrow> int \<Rightarrow> int" where
  [mach_defs]: "trunc_div a b = sgn a * sgn b * (\<bar>a\<bar> div \<bar>b\<bar>)"

lemma sat_i64_is_i64 [simp, intro]: "is_i64 (sat_i64 x)"
  by (simp add: mach_defs)

lemma sat_i64_id [simp]: "is_i64 x \<Longrightarrow> sat_i64 x = x"
  by (simp add: mach_defs)

lemma sat_i64_mono: "x \<le> y \<Longrightarrow> sat_i64 x \<le> sat_i64 y"
  by (simp add: mach_defs)

lemma sat_u64_is_u64 [simp, intro]: "is_u64 (sat_u64 x)"
  by (simp add: mach_defs)

lemma sat_u64_id [simp]: "is_u64 x \<Longrightarrow> sat_u64 x = x"
  by (simp add: mach_defs)

lemma sat_u64_mono: "x \<le> y \<Longrightarrow> sat_u64 x \<le> sat_u64 y"
  by (simp add: mach_defs)

lemma wsub_le: "b \<le> a \<Longrightarrow> a \<le> u64_max \<Longrightarrow> wsub a b = a - b"
  by (simp add: wsub_def of_nat_diff)

lemma checked_i64_Some_iff [simp]: "checked_i64 x = Some y \<longleftrightarrow> y = x \<and> is_i64 x"
  by (auto simp: checked_i64_def)

lemma checked_u64_Some_iff [simp]:
  "checked_u64 x = Some y \<longleftrightarrow> 0 \<le> x \<and> x \<le> int u64_max \<and> y = nat x"
  by (auto simp: checked_u64_def)

lemma is_u64_i64_as_u64 [simp]: "is_u64 (i64_as_u64 x)"
proof -
  have "x mod 18446744073709551616 < 18446744073709551616" by simp
  then show ?thesis by (simp add: is_u64_def i64_as_u64_def)
qed

lemma is_i64_u64_as_i64 [simp]: "is_i64 (u64_as_i64 x)"
proof -
  have "x mod 18446744073709551616 < 18446744073709551616" by simp
  then have "int (x mod 18446744073709551616) < 18446744073709551616"
    by (metis of_nat_less_numeral_iff)
  then show ?thesis by (auto simp: is_i64_def u64_as_i64_def Let_def)
qed

lemma u64_as_i64_as_u64 [simp]:
  assumes "is_i64 x" shows "u64_as_i64 (i64_as_u64 x) = x"
proof (cases "0 \<le> x")
  case True
  with assms have "x mod 18446744073709551616 = x"
    by (simp add: is_i64_def)
  with True assms show ?thesis
    by (simp add: i64_as_u64_def u64_as_i64_def is_i64_def nat_mod_distrib)
next
  case False
  have "x mod 18446744073709551616 = (x + 18446744073709551616) mod 18446744073709551616"
    by simp
  also have "\<dots> = x + 18446744073709551616"
    using False assms by (intro mod_pos_pos_trivial) (auto simp: is_i64_def)
  finally have m: "x mod 18446744073709551616 = x + 18446744073709551616" .
  then have "int (nat (x mod 18446744073709551616) mod 18446744073709551616)
      = x + 18446744073709551616"
    using False assms by (simp add: is_i64_def zmod_int)
  with False assms show ?thesis
    unfolding i64_as_u64_def u64_as_i64_def Let_def by (simp add: is_i64_def)
qed

section \<open>Bytes and little-endian integers\<close>

type_synonym u8 = "8 word"
type_synonym bytes = "u8 list"

fun le_bytes :: "nat \<Rightarrow> nat \<Rightarrow> bytes" where
  "le_bytes 0 x = []"
| "le_bytes (Suc n) x = word_of_nat x # le_bytes n (x div 256)"

fun from_le_bytes :: "bytes \<Rightarrow> nat" where
  "from_le_bytes [] = 0"
| "from_le_bytes (b # bs) = unat b + 256 * from_le_bytes bs"

lemma length_le_bytes [simp]: "length (le_bytes n x) = n"
  by (induction n arbitrary: x) simp_all

lemma unat_word8_of_nat: "unat (word_of_nat x :: u8) = x mod 256"
  by (simp add: unat_of_nat)

lemma from_le_bytes_le_bytes: "x < 256 ^ n \<Longrightarrow> from_le_bytes (le_bytes n x) = x"
proof (induction n arbitrary: x)
  case 0
  then show ?case by simp
next
  case (Suc n)
  then have "x div 256 < 256 ^ n"
    by (simp add: less_mult_imp_div_less mult.commute)
  with Suc.IH show ?case by (simp add: unat_word8_of_nat)
qed

lemma from_le_bytes_bound: "from_le_bytes bs < 256 ^ length bs"
proof (induction bs)
  case (Cons b bs)
  have "unat b < 256" using unsigned_less [of b] by simp
  with Cons show ?case by simp
qed simp

lemma le_bytes_inject: "x < 256 ^ n \<Longrightarrow> y < 256 ^ n \<Longrightarrow> le_bytes n x = le_bytes n y \<longleftrightarrow> x = y"
  by (metis from_le_bytes_le_bytes)

definition u64_le :: "nat \<Rightarrow> bytes" where
  "u64_le x = le_bytes 8 x"

definition i64_le :: "int \<Rightarrow> bytes" where
  "i64_le x = le_bytes 8 (i64_as_u64 x)"

definition u32_le :: "nat \<Rightarrow> bytes" where
  "u32_le x = le_bytes 4 (x mod 4294967296)"

lemma length_le [simp]:
  "length (u64_le x) = 8" "length (i64_le y) = 8" "length (u32_le x) = 4"
  by (simp_all add: u64_le_def i64_le_def u32_le_def)

lemma from_le_u64 [simp]: "is_u64 x \<Longrightarrow> from_le_bytes (u64_le x) = x"
  unfolding u64_le_def by (rule from_le_bytes_le_bytes) (simp add: is_u64_def)

lemma from_le_i64 [simp]: "is_i64 x \<Longrightarrow> u64_as_i64 (from_le_bytes (i64_le x)) = x"
  using is_u64_i64_as_u64 [of x] from_le_u64 [of "i64_as_u64 x"]
  by (simp add: i64_le_def u64_le_def)

lemma from_le_u32 [simp]: "x \<le> u32_max \<Longrightarrow> from_le_bytes (u32_le x) = x"
  unfolding u32_le_def by (simp add: from_le_bytes_le_bytes)

text \<open>\<open>split_at\<close> guarded by a length check, as every decoder of the source does it.\<close>

definition take_bytes :: "nat \<Rightarrow> bytes \<Rightarrow> (bytes \<times> bytes) result" where
  "take_bytes n src =
     (if length src < n then Err CodecViolation else Inr (take n src, drop n src))"

lemma take_bytes_append [simp]: "length xs = n \<Longrightarrow> take_bytes n (xs @ rest) = Inr (xs, rest)"
  by (simp add: take_bytes_def)

section \<open>The codec interface\<close>

text \<open>
  A codec writes a value as a byte string and reads one value off the front of a byte
  string. The single law, on the values the writer accepts, gives injectivity,
  prefix-freedom and the round trip of sequences.
\<close>

fun decode_many :: "(bytes \<Rightarrow> ('a \<times> bytes) result) \<Rightarrow> nat \<Rightarrow> bytes \<Rightarrow> ('a list \<times> bytes) result" where
  "decode_many dec 0 src = Inr ([], src)"
| "decode_many dec (Suc n) src =
     rbind (dec src) (\<lambda>(x, rest). rbind (decode_many dec n rest) (\<lambda>(xs, rest'). Inr (x # xs, rest')))"

locale codec =
  fixes enc :: "'a \<Rightarrow> bytes"
    and dec :: "bytes \<Rightarrow> ('a \<times> bytes) result"
    and valid :: "'a \<Rightarrow> bool"
  assumes dec_enc: "valid x \<Longrightarrow> dec (enc x @ rest) = Inr (x, rest)"
begin

lemma enc_prefix_free:
  assumes "valid x" "valid y" "enc x @ r = enc y @ s"
  shows "x = y \<and> r = s"
proof -
  have "Inr (x, r) = (Inr (y, s) :: ('a \<times> bytes) result)"
    using dec_enc [OF assms(1), of r] dec_enc [OF assms(2), of s]
    by (simp only: assms(3))
  then show ?thesis by simp
qed

lemma enc_inject: "valid x \<Longrightarrow> valid y \<Longrightarrow> enc x = enc y \<longleftrightarrow> x = y"
  using enc_prefix_free [of x y "[]" "[]"] by auto

lemma decode_many_concat:
  "list_all valid xs \<Longrightarrow>
     decode_many dec (length xs) (concat (map enc xs) @ rest) = Inr (xs, rest)"
  by (induction xs) (simp_all add: dec_enc)

lemma concat_enc_inject:
  assumes "list_all valid xs" "list_all valid ys" "length xs = length ys"
    and "concat (map enc xs) = concat (map enc ys)"
  shows "xs = ys"
  using decode_many_concat [OF assms(1), of "[]"] decode_many_concat [OF assms(2), of "[]"]
  by (simp only: assms(3,4)) simp

end

definition decode_u64 :: "bytes \<Rightarrow> (nat \<times> bytes) result" where
  "decode_u64 src = rbind (take_bytes 8 src) (\<lambda>(b, rest). Inr (from_le_bytes b, rest))"

definition decode_i64 :: "bytes \<Rightarrow> (int \<times> bytes) result" where
  "decode_i64 src = rbind (take_bytes 8 src) (\<lambda>(b, rest). Inr (u64_as_i64 (from_le_bytes b), rest))"

interpretation u64_codec: codec u64_le decode_u64 is_u64
  by unfold_locales (simp add: decode_u64_def)

interpretation i64_codec: codec i64_le decode_i64 is_i64
  by unfold_locales (simp add: decode_i64_def)

end
