(* ===== verification/Float64.thy ===== *)
theory Float64
  imports Prelude
begin

text \<open>
  Rust's \<open>f64\<close>: IEEE 754 binary64 with round-to-nearest, ties to even, as far as the
  repository uses it (classification, comparison, \<open>+\<close>, \<open>-\<close>, \<open>*\<close>, \<open>/\<close>,
  \<open>sqrt\<close>, conversions). A value is its 64 bits. Every finite value is an integer
  multiple of \<open>2^-1074\<close>, so arithmetic is exact integer arithmetic in that unit followed
  by one rounding. Rust leaves the payload of a computed NaN open; the model returns the
  quiet NaN \<open>f64::NAN\<close>.
\<close>

datatype f64 = F64 (to_bits: "64 word")

datatype ordering = Less | Equal | Greater

definition cmp :: "'a::linorder \<Rightarrow> 'a \<Rightarrow> ordering" where
  "cmp a b = (if a < b then Less else if a = b then Equal else Greater)"

lemma cmp_eq_iff [simp]:
  "cmp a b = Less \<longleftrightarrow> a < b" "cmp a b = Equal \<longleftrightarrow> a = b" "cmp a b = Greater \<longleftrightarrow> b < a"
  by (auto simp: cmp_def)

section \<open>Fields and classification\<close>

abbreviation p52 :: nat where "p52 \<equiv> 4503599627370496"
abbreviation p63 :: nat where "p63 \<equiv> 9223372036854775808"
abbreviation inf_bits :: nat where "inf_bits \<equiv> 9218868437227405312"

definition f_sign :: "f64 \<Rightarrow> bool" where
  "f_sign x \<longleftrightarrow> p63 \<le> unat (to_bits x)"

definition f_low :: "f64 \<Rightarrow> nat" where
  "f_low x = unat (to_bits x) mod p63"

definition is_nan :: "f64 \<Rightarrow> bool" where
  "is_nan x \<longleftrightarrow> f_low x > inf_bits"

definition is_infinite :: "f64 \<Rightarrow> bool" where
  "is_infinite x \<longleftrightarrow> f_low x = inf_bits"

definition is_finite :: "f64 \<Rightarrow> bool" where
  "is_finite x \<longleftrightarrow> f_low x < inf_bits"

definition mag_bits :: "nat \<Rightarrow> nat" where
  "mag_bits n = (let e = n div p52; f = n mod p52 in if e = 0 then f else (p52 + f) * 2 ^ (e - 1))"

definition f_mag :: "f64 \<Rightarrow> nat" where
  "f_mag x = mag_bits (f_low x)"

definition f_val :: "f64 \<Rightarrow> int" where
  "f_val x = (if f_sign x then - int (f_mag x) else int (f_mag x))"

definition f_zero :: f64 where "f_zero = F64 0"
definition f_one :: f64 where "f_one = F64 4607182418800017408"
definition f_nan :: f64 where "f_nan = F64 9221120237041090560"

definition partial_cmp :: "f64 \<Rightarrow> f64 \<Rightarrow> ordering option" where
  "partial_cmp a b = (if is_nan a \<or> is_nan b then None else Some (cmp (f_val a) (f_val b)))"

definition f_eq :: "f64 \<Rightarrow> f64 \<Rightarrow> bool" where
  "f_eq a b \<longleftrightarrow> partial_cmp a b = Some Equal"

definition f_lt :: "f64 \<Rightarrow> f64 \<Rightarrow> bool" where
  "f_lt a b \<longleftrightarrow> partial_cmp a b = Some Less"

definition f_le :: "f64 \<Rightarrow> f64 \<Rightarrow> bool" where
  "f_le a b \<longleftrightarrow> f_lt a b \<or> f_eq a b"

lemma mag_bits_Suc: "mag_bits n < mag_bits (Suc n)"
proof (cases "Suc (n mod p52) = p52")
  case True
  then have d: "Suc n div p52 = Suc (n div p52)" and m: "Suc n mod p52 = 0"
    by (simp_all add: div_Suc mod_Suc)
  show ?thesis
  proof (cases "n div p52 = 0")
    case True
    with d m \<open>Suc (n mod p52) = p52\<close> show ?thesis by (simp add: mag_bits_def)
  next
    case False
    then obtain e where e: "n div p52 = Suc e" by (cases "n div p52") auto
    from True have "n mod p52 = p52 - 1" by simp
    then have "mag_bits n = (p52 + (p52 - 1)) * 2 ^ e"
      by (simp add: mag_bits_def e)
    also have "\<dots> < (p52 + p52) * 2 ^ e" by simp
    also have "\<dots> = mag_bits (Suc n)"
      using d m e by (simp add: mag_bits_def)
    finally show ?thesis .
  qed
next
  case False
  then have d: "Suc n div p52 = n div p52" and m: "Suc n mod p52 = Suc (n mod p52)"
    by (simp_all add: div_Suc mod_Suc)
  then show ?thesis by (simp add: mag_bits_def Let_def)
qed

lemma mag_bits_less_iff [simp]: "mag_bits m < mag_bits n \<longleftrightarrow> m < n"
proof -
  have mono: "m < n \<Longrightarrow> mag_bits m < mag_bits n" for m n
    by (rule lift_Suc_mono_less [where f = mag_bits, OF mag_bits_Suc])
  show ?thesis
    using mono [of m n] mono [of n m] by (metis not_less_iff_gr_or_eq order_less_asym)
qed

lemma mag_bits_eq_iff [simp]: "mag_bits m = mag_bits n \<longleftrightarrow> m = n"
  by (metis mag_bits_less_iff less_irrefl linorder_neqE_nat)

lemma mag_bits_0 [simp]: "mag_bits 0 = 0"
  by (simp add: mag_bits_def)

lemma unat_to_bits_bound: "unat (to_bits x) < 18446744073709551616"
  using unsigned_less [of "to_bits x"] by simp

lemma to_bits_split: "unat (to_bits x) = f_low x + (if f_sign x then p63 else 0)"
  using unat_to_bits_bound [of x]
  by (cases "f_sign x") (auto simp: f_low_def f_sign_def mod_if)

lemma f64_eq_iff: "x = y \<longleftrightarrow> f_low x = f_low y \<and> f_sign x = f_sign y"
proof
  assume "f_low x = f_low y \<and> f_sign x = f_sign y"
  then have "unat (to_bits x) = unat (to_bits y)" by (simp add: to_bits_split)
  then show "x = y" by (metis f64.expand unsigned_word_eqI)
qed simp

lemma f_val_eq_iff:
  "f_val x = f_val y \<longleftrightarrow> x = y \<or> f_low x = 0 \<and> f_low y = 0"
proof -
  have pos: "0 < f_mag x \<longleftrightarrow> 0 < f_low x" for x
    using mag_bits_less_iff [of 0 "f_low x"] by (simp add: f_mag_def del: mag_bits_less_iff)
  have eq: "f_mag x = f_mag y \<longleftrightarrow> f_low x = f_low y" by (simp add: f_mag_def)
  show ?thesis
    using pos [of x] pos [of y] eq
    by (cases "f_sign x"; cases "f_sign y") (auto simp: f_val_def f64_eq_iff)
qed

lemma f_eq_iff:
  "f_eq x y \<longleftrightarrow> \<not> is_nan x \<and> \<not> is_nan y \<and> (x = y \<or> f_low x = 0 \<and> f_low y = 0)"
  by (auto simp: f_eq_def partial_cmp_def f_val_eq_iff)

lemma f_zero_sel [simp]:
  "f_low f_zero = 0" "f_sign f_zero = False" "is_nan f_zero = False" "f_val f_zero = 0"
  by (simp_all add: f_zero_def f_low_def f_sign_def is_nan_def f_val_def f_mag_def)

lemma is_nan_f_nan [simp]: "is_nan f_nan"
  by (simp add: f_nan_def is_nan_def f_low_def)

lemma f_nan_low [simp]: "f_low f_nan = 9221120237041090560"
  by (simp add: f_nan_def f_low_def)

lemma f_nan_neq_zero [simp]: "f_nan \<noteq> f_zero" "f_zero \<noteq> f_nan"
  by (simp_all add: f64_eq_iff)

lemma f_eq_zero_iff: "f_eq x f_zero \<longleftrightarrow> f_low x = 0"
  by (auto simp: f_eq_iff is_nan_def)

lemma f_class_cases:
  "is_nan x \<or> is_infinite x \<or> is_finite x"
  by (auto simp: is_nan_def is_infinite_def is_finite_def)

lemma partial_cmp_swap:
  "partial_cmp b a =
     map_option (\<lambda>ord. case ord of Less \<Rightarrow> Greater | Equal \<Rightarrow> Equal | Greater \<Rightarrow> Less) (partial_cmp a b)"
  by (auto simp: partial_cmp_def cmp_def)

section \<open>Rounding\<close>

fun nbits :: "nat \<Rightarrow> nat" where
  "nbits n = (if n = 0 then 0 else Suc (nbits (n div 2)))"

declare nbits.simps [simp del]

definition round_half_even :: "nat \<Rightarrow> nat \<Rightarrow> nat" where
  "round_half_even num den =
     (let q = num div den; r = num mod den
      in if den < 2 * r \<or> (den = 2 * r \<and> odd q) then Suc q else q)"

text \<open>
  \<open>round_bits num den\<close> is the magnitude bit pattern nearest to \<open>num / den\<close> units. With
  \<open>k\<close> the number of bits beyond 53, the significand is rounded at \<open>2^k\<close>; a carry out of
  it lands in the exponent field, and everything from the infinity pattern on is infinity.
\<close>

definition round_bits :: "nat \<Rightarrow> nat \<Rightarrow> nat" where
  "round_bits num den =
     (let k = nbits (num div den) - 53
      in min inf_bits (k * p52 + round_half_even num (den * 2 ^ k)))"

definition mk_f64 :: "bool \<Rightarrow> nat \<Rightarrow> f64" where
  "mk_f64 s n = F64 (word_of_nat (n + (if s then p63 else 0)))"

lemma unat_mk_f64: "n < p63 \<Longrightarrow> unat (to_bits (mk_f64 s n)) = n + (if s then p63 else 0)"
  unfolding mk_f64_def f64.sel by (subst unat_of_nat) simp

lemma f_low_mk [simp]: "n < p63 \<Longrightarrow> f_low (mk_f64 s n) = n"
  by (simp add: f_low_def unat_mk_f64)

lemma f_sign_mk [simp]: "n < p63 \<Longrightarrow> f_sign (mk_f64 s n) = s"
  by (simp add: f_sign_def unat_mk_f64)

lemma mk_f64_fields [simp]: "mk_f64 (f_sign x) (f_low x) = x"
proof -
  have "f_low x < p63" by (simp add: f_low_def)
  then show ?thesis by (simp add: f64_eq_iff)
qed

lemma nbits_bounds: "0 < n \<Longrightarrow> 2 ^ (nbits n - 1) \<le> n \<and> n < 2 ^ nbits n"
proof (induction n rule: nbits.induct)
  case (1 n)
  show ?case
  proof (cases "n div 2 = 0")
    case True
    with "1.prems" have "n = 1" by simp
    then show ?thesis by (simp add: nbits.simps [of "Suc 0"] nbits.simps [of 0])
  next
    case False
    then have IH: "2 ^ (nbits (n div 2) - 1) \<le> n div 2 \<and> n div 2 < 2 ^ nbits (n div 2)"
      using "1.IH" "1.prems" by simp
    have nz: "nbits (n div 2) = Suc (nbits (n div 2) - 1)"
      using False by (simp add: nbits.simps [of "n div 2"])
    have "nbits n = Suc (nbits (n div 2))"
      using "1.prems" by (simp add: nbits.simps [of n])
    moreover have "2 ^ nbits (n div 2) \<le> n"
    proof -
      have "2 ^ nbits (n div 2) = 2 * (2::nat) ^ (nbits (n div 2) - 1)"
        by (subst nz) simp
      also have "\<dots> \<le> 2 * (n div 2)" using IH by simp
      finally show ?thesis by simp
    qed
    moreover have "n < 2 ^ Suc (nbits (n div 2))"
    proof -
      have "Suc (n div 2) \<le> 2 ^ nbits (n div 2)" using IH by simp
      then have "2 * Suc (n div 2) \<le> 2 ^ Suc (nbits (n div 2))" by simp
      moreover have "n < 2 * Suc (n div 2)" by simp
      ultimately show ?thesis by (rule less_le_trans [rotated])
    qed
    ultimately show ?thesis by simp
  qed
qed

lemma nbits_unique: "2 ^ k \<le> n \<Longrightarrow> n < 2 ^ Suc k \<Longrightarrow> nbits n = Suc k"
proof -
  assume lo: "2 ^ k \<le> n" and hi: "n < 2 ^ Suc k"
  then have pos: "0 < n" by (metis gr0I not_le zero_less_numeral zero_less_power)
  have "(2::nat) ^ k < 2 ^ nbits n"
    using nbits_bounds [OF pos] lo by (meson le_less_trans)
  then have "k < nbits n" by (rule power_less_imp_less_exp [rotated]) simp
  moreover have "(2::nat) ^ (nbits n - 1) < 2 ^ Suc k"
    using nbits_bounds [OF pos] hi by (meson le_less_trans)
  then have "nbits n - 1 < Suc k" by (rule power_less_imp_less_exp [rotated]) simp
  ultimately show ?thesis by simp
qed

text \<open>Rounding an already representable magnitude returns its own bits.\<close>

lemma round_bits_exact:
  assumes "n < inf_bits"
  shows "round_bits (mag_bits n) 1 = n"
proof (cases "n div p52 \<le> 1")
  case True
  have mg: "mag_bits n = n"
  proof (cases "n div p52 = 0")
    case True then show ?thesis by (simp add: mag_bits_def)
  next
    case False
    with True have one: "n div p52 = 1" by simp
    have "n = p52 * (n div p52) + n mod p52" by (rule mult_div_mod_eq [symmetric])
    with one show ?thesis by (simp add: mag_bits_def)
  qed
  have "n < 2 * p52" using True by linarith
  then have "nbits n \<le> 53"
  proof (cases "n = 0")
    case False
    then have "2 ^ (nbits n - 1) \<le> n" using nbits_bounds by blast
    with \<open>n < 2 * p52\<close> have "2 ^ (nbits n - 1) < (2::nat) ^ 53" by simp
    then have "nbits n - 1 < 53" by (rule power_less_imp_less_exp [rotated]) simp
    then show ?thesis by simp
  qed (simp add: nbits.simps)
  with mg assms show ?thesis by (simp add: round_bits_def round_half_even_def)
next
  case False
  then obtain e where e: "n div p52 = Suc (Suc e)"
    by (auto simp: not_le dest!: less_imp_Suc_add)
  let ?s = "p52 + n mod p52"
  have mg: "mag_bits n = ?s * 2 ^ Suc e" by (simp add: mag_bits_def e)
  have "nbits (mag_bits n) = Suc (52 + Suc e)"
  proof (rule nbits_unique)
    show "2 ^ (52 + Suc e) \<le> mag_bits n" by (simp add: mg power_add)
    have "?s < 2 * p52" by simp
    then show "mag_bits n < 2 ^ Suc (52 + Suc e)" by (simp add: mg power_add)
  qed
  then have k: "nbits (mag_bits n) - 53 = Suc e" by simp
  have "n = p52 * (n div p52) + n mod p52" by (rule mult_div_mod_eq [symmetric])
  then have "Suc e * p52 + ?s = n" using e by simp
  moreover have "round_half_even (mag_bits n) (1 * 2 ^ Suc e) = ?s"
    unfolding mg by (simp add: round_half_even_def)
  ultimately show ?thesis
    unfolding round_bits_def div_by_1 k Let_def using assms by simp
qed

lemma round_bits_le_inf: "round_bits num den \<le> inf_bits"
  by (simp add: round_bits_def Let_def)

section \<open>Arithmetic\<close>

abbreviation unit_inv :: nat where "unit_inv \<equiv> 2 ^ 1074"

definition f_neg :: "f64 \<Rightarrow> f64" where
  "f_neg x = mk_f64 (\<not> f_sign x) (f_low x)"

definition f_abs :: "f64 \<Rightarrow> f64" where
  "f_abs x = mk_f64 False (f_low x)"

definition f_add :: "f64 \<Rightarrow> f64 \<Rightarrow> f64" where
  "f_add a b =
     (if is_nan a \<or> is_nan b then f_nan
      else if is_infinite a then (if is_infinite b \<and> f_sign a \<noteq> f_sign b then f_nan else a)
      else if is_infinite b then b
      else let v = f_val a + f_val b
           in if v = 0 then mk_f64 (f_sign a \<and> f_sign b) 0
              else mk_f64 (v < 0) (round_bits (nat \<bar>v\<bar>) 1))"

definition f_sub :: "f64 \<Rightarrow> f64 \<Rightarrow> f64" where
  "f_sub a b = f_add a (f_neg b)"

definition f_mul :: "f64 \<Rightarrow> f64 \<Rightarrow> f64" where
  "f_mul a b =
     (let s = (f_sign a \<noteq> f_sign b)
      in if is_nan a \<or> is_nan b then f_nan
         else if is_infinite a \<or> is_infinite b
              then (if f_low a = 0 \<or> f_low b = 0 then f_nan else mk_f64 s inf_bits)
         else mk_f64 s (round_bits (f_mag a * f_mag b) unit_inv))"

definition f_div :: "f64 \<Rightarrow> f64 \<Rightarrow> f64" where
  "f_div a b =
     (let s = (f_sign a \<noteq> f_sign b)
      in if is_nan a \<or> is_nan b then f_nan
         else if is_infinite a then (if is_infinite b then f_nan else mk_f64 s inf_bits)
         else if is_infinite b then mk_f64 s 0
         else if f_low b = 0 then (if f_low a = 0 then f_nan else mk_f64 s inf_bits)
         else mk_f64 s (round_bits (f_mag a * unit_inv) (f_mag b)))"

definition f_max :: "f64 \<Rightarrow> f64 \<Rightarrow> f64" where
  "f_max a b = (if is_nan a then b else if is_nan b then a else if f_lt a b then b else a)"

fun isqrt :: "nat \<Rightarrow> nat" where
  "isqrt n =
     (if n < 2 then n
      else let s = 2 * isqrt (n div 4) in if (Suc s)\<^sup>2 \<le> n then Suc s else s)"

declare isqrt.simps [simp del]

text \<open>
  The square root of \<open>m\<close> units is \<open>sqrt (m * 2^1074)\<close> units; its integer part has far
  more than 53 bits, so one sticky bit below it decides the rounding.
\<close>

definition f_sqrt :: "f64 \<Rightarrow> f64" where
  "f_sqrt a =
     (if is_nan a then f_nan
      else if f_low a = 0 then a
      else if f_sign a then f_nan
      else if is_infinite a then a
      else let m = f_mag a * unit_inv; r = isqrt m
           in mk_f64 False (round_bits (2 * r + (if r\<^sup>2 = m then 0 else 1)) 2))"

text \<open>\<open>as f64\<close> from an integer, and the saturating \<open>as i64\<close>.\<close>

definition f_of_int :: "int \<Rightarrow> f64" where
  "f_of_int v = mk_f64 (v < 0) (round_bits (nat \<bar>v\<bar> * unit_inv) 1)"

definition f_to_i64 :: "f64 \<Rightarrow> int" where
  "f_to_i64 x =
     (if is_nan x then 0
      else if is_infinite x then (if f_sign x then i64_min else i64_max)
      else let t = int (f_mag x div unit_inv) in sat_i64 (if f_sign x then - t else t))"

lemma is_i64_f_to_i64 [simp]: "is_i64 (f_to_i64 x)"
  by (simp add: f_to_i64_def Let_def) (simp add: is_i64_def)

lemma f_of_int_not_nan [simp]: "\<not> is_nan (f_of_int v)"
proof -
  have "round_bits (nat \<bar>v\<bar> * unit_inv) 1 \<le> inf_bits" by (rule round_bits_le_inf)
  then show ?thesis by (simp add: f_of_int_def is_nan_def del: power_numeral)
qed

end
