(* ===== verification/Scalar_Value.thy ===== *)
theory Scalar_Value
  imports Float64
begin

text \<open>
  Values and types: \<^verbatim>\<open>sparrow-model/src/types.rs\<close> (data types, fields, schemas) and
  \<^verbatim>\<open>sparrow-model/src/scalar.rs\<close> (scalars, dynamic values, the structural key encoding
  and the reversible value encoding of checkpoint snapshots). A Rust \<open>str\<close> is the
  \<open>string\<close> of its UTF-8 bytes, so \<open>length\<close> is \<open>str::len\<close> and the library's order
  on \<open>string\<close> is Rust's.
\<close>

section \<open>Text\<close>

definition str_bytes :: "string \<Rightarrow> bytes" where
  "str_bytes s = map (\<lambda>c. word_of_nat (of_char c)) s"

definition bytes_str :: "bytes \<Rightarrow> string" where
  "bytes_str bs = map (\<lambda>b. char_of (unat b)) bs"

definition utf8_cont :: "u8 \<Rightarrow> bool" where
  "utf8_cont b \<longleftrightarrow> 0x80 \<le> b \<and> b \<le> 0xBF"

text \<open>\<open>std::str::from_utf8\<close>: the well-formed byte sequences of the Unicode standard.\<close>

fun valid_utf8 :: "bytes \<Rightarrow> bool" where
  "valid_utf8 [] = True"
| "valid_utf8 (a # xs) =
     (if a < 0x80 then valid_utf8 xs
      else case xs of
        [] \<Rightarrow> False
      | b # xs2 \<Rightarrow>
          if 0xC2 \<le> a \<and> a \<le> 0xDF then utf8_cont b \<and> valid_utf8 xs2
          else (case xs2 of
              [] \<Rightarrow> False
            | c # xs3 \<Rightarrow>
                if 0xE0 \<le> a \<and> a \<le> 0xEF then
                  (if a = 0xE0 then 0xA0 \<le> b \<and> b \<le> 0xBF
                   else if a = 0xED then 0x80 \<le> b \<and> b \<le> 0x9F else utf8_cont b)
                  \<and> utf8_cont c \<and> valid_utf8 xs3
                else (case xs3 of
                    [] \<Rightarrow> False
                  | d # xs4 \<Rightarrow>
                      0xF0 \<le> a \<and> a \<le> 0xF4
                      \<and> (if a = 0xF0 then 0x90 \<le> b \<and> b \<le> 0xBF
                          else if a = 0xF4 then 0x80 \<le> b \<and> b \<le> 0x8F else utf8_cont b)
                      \<and> utf8_cont c \<and> utf8_cont d \<and> valid_utf8 xs4)))"

definition is_str :: "string \<Rightarrow> bool" where
  "is_str s \<longleftrightarrow> valid_utf8 (str_bytes s)"

lemma length_str_bytes [simp]: "length (str_bytes s) = length s"
  by (simp add: str_bytes_def)

lemma of_char_less_256 [simp]: "(of_char c :: nat) < 256"
  by (metis nat_of_char_less_256)

lemma bytes_str_str_bytes [simp]: "bytes_str (str_bytes s) = s"
  by (simp add: str_bytes_def bytes_str_def unat_word8_of_nat comp_def)

lemma str_bytes_inject [simp]: "str_bytes s = str_bytes t \<longleftrightarrow> s = t"
  by (metis bytes_str_str_bytes)

text \<open>\<open>str::parse::<i64>\<close> and \<open>str::parse::<u64>\<close>.\<close>

definition digit_value :: "char \<Rightarrow> nat option" where
  "digit_value c =
     (let n = (of_char c :: nat) in if 48 \<le> n \<and> n \<le> 57 then Some (n - 48) else None)"

fun parse_digits :: "nat \<Rightarrow> string \<Rightarrow> nat option" where
  "parse_digits acc [] = Some acc"
| "parse_digits acc (c # cs) =
     (case digit_value c of None \<Rightarrow> None | Some d \<Rightarrow> parse_digits (10 * acc + d) cs)"

definition parse_unsigned :: "string \<Rightarrow> nat option" where
  "parse_unsigned cs = (if cs = [] then None else parse_digits 0 cs)"

definition parse_i64 :: "string \<Rightarrow> int option" where
  "parse_i64 s =
     (case s of
        [] \<Rightarrow> None
      | c # cs \<Rightarrow>
          if c = CHR ''-''
          then Option.bind (parse_unsigned cs) (\<lambda>n. checked_i64 (- int n))
          else Option.bind (parse_unsigned (if c = CHR ''+'' then cs else s))
                 (\<lambda>n. checked_i64 (int n)))"

definition parse_u64 :: "string \<Rightarrow> nat option" where
  "parse_u64 s =
     (case s of
        [] \<Rightarrow> None
      | c # cs \<Rightarrow>
          Option.bind (parse_unsigned (if c = CHR ''+'' then cs else s))
            (\<lambda>n. checked_u64 (int n)))"

text \<open>\<open>to_string\<close> of integers.\<close>

definition digit_char :: "nat \<Rightarrow> char" where
  "digit_char d = char_of (48 + d)"

fun show_nat :: "nat \<Rightarrow> string" where
  "show_nat n = (if n < 10 then [digit_char n] else show_nat (n div 10) @ [digit_char (n mod 10)])"

declare show_nat.simps [simp del]

definition show_int :: "int \<Rightarrow> string" where
  "show_int x = (if x < 0 then CHR ''-'' # show_nat (nat (- x)) else show_nat (nat x))"

lemma digit_value_char [simp]: "d < 10 \<Longrightarrow> digit_value (digit_char d) = Some d"
  by (simp add: digit_value_def digit_char_def Let_def)

lemma parse_digits_append:
  "parse_digits acc (xs @ ys) = Option.bind (parse_digits acc xs) (\<lambda>a. parse_digits a ys)"
  by (induction xs arbitrary: acc) (auto split: option.splits)

lemma parse_digits_show: "parse_digits 0 (show_nat n) = Some n"
proof (induction n rule: show_nat.induct)
  case (1 n)
  show ?case
  proof (cases "n < 10")
    case True
    then show ?thesis by (simp add: show_nat.simps [of n])
  next
    case False
    with "1.IH" show ?thesis
      by (simp add: show_nat.simps [of n] parse_digits_append)
  qed
qed

lemma show_nat_not_Nil [simp]: "show_nat n \<noteq> []"
  by (subst show_nat.simps) simp

lemma show_nat_digits: "c \<in> set (show_nat n) \<Longrightarrow> c \<noteq> CHR ''-'' \<and> c \<noteq> CHR ''+''"
proof (induction n rule: show_nat.induct)
  case (1 n)
  have d: "digit_char k \<noteq> CHR ''-'' \<and> digit_char k \<noteq> CHR ''+''" if "k < 10" for k
  proof -
    have "digit_value (CHR ''-'') = None" "digit_value (CHR ''+'') = None"
      by (simp_all add: digit_value_def)
    with digit_value_char [OF that] show ?thesis by auto
  qed
  from 1 d show ?case
    by (cases "n < 10") (auto simp: show_nat.simps [of n])
qed

lemma parse_unsigned_show [simp]: "parse_unsigned (show_nat n) = Some n"
  by (simp add: parse_unsigned_def parse_digits_show)

lemma parse_show_int: "is_i64 x \<Longrightarrow> parse_i64 (show_int x) = Some x"
proof (cases "x < 0")
  case True
  assume "is_i64 x"
  with True show ?thesis by (simp add: parse_i64_def show_int_def checked_i64_def)
next
  case False
  assume i: "is_i64 x"
  obtain c cs where c: "show_nat (nat x) = c # cs" by (cases "show_nat (nat x)") auto
  then have "c \<noteq> CHR ''-''" "c \<noteq> CHR ''+''" using show_nat_digits [of c "nat x"] by auto
  with c False i show ?thesis
    using parse_unsigned_show [of "nat x"]
    by (simp add: parse_i64_def show_int_def checked_i64_def)
qed

section \<open>Data types and schemas\<close>

datatype data_type =
    TNull
  | TBool
  | TInt64
  | TUInt64
  | TFloat64
  | TUtf8
  | TBytes
  | TTimestampMicrosUTC
  | TDynamic
  | TArray data_type
  | TStruct "field list"
  | TMap data_type data_type
and field =
    Field (field_id: nat) (field_name: string) (field_type: data_type) (field_nullable: bool)

record schema =
  schema_id :: nat
  schema_fields :: "field list"

definition is_nested :: "data_type \<Rightarrow> bool" where
  "is_nested t = (case t of TArray _ \<Rightarrow> True | TStruct _ \<Rightarrow> True | TMap _ _ \<Rightarrow> True | _ \<Rightarrow> False)"

definition is_numeric_type :: "data_type \<Rightarrow> bool" where
  "is_numeric_type t = (case t of TInt64 \<Rightarrow> True | TUInt64 \<Rightarrow> True | TFloat64 \<Rightarrow> True | _ \<Rightarrow> False)"

text \<open>The validation loop with its two \<open>HashSet\<close>s.\<close>

fun validate_fields :: "string set \<Rightarrow> nat set \<Rightarrow> field list \<Rightarrow> unit result" where
  "validate_fields names ids [] = Ok ()"
| "validate_fields names ids (f # fs) =
     (if field_name f = [] then Err InvalidSchema
      else if field_name f \<in> names then Err InvalidSchema
      else if field_id f \<in> ids then Err InvalidSchema
      else validate_fields (insert (field_name f) names) (insert (field_id f) ids) fs)"

definition schema_validate :: "schema \<Rightarrow> unit result" where
  "schema_validate s = validate_fields {} {} (schema_fields s)"

definition schema_new :: "nat \<Rightarrow> field list \<Rightarrow> schema result" where
  "schema_new i fs =
     (let s = \<lparr>schema_id = i, schema_fields = fs\<rparr>
      in rbind (schema_validate s) (\<lambda>_. Ok s))"

fun position :: "('a \<Rightarrow> bool) \<Rightarrow> 'a list \<Rightarrow> nat option" where
  "position p [] = None"
| "position p (x # xs) = (if p x then Some 0 else map_option Suc (position p xs))"

definition field_by_name :: "schema \<Rightarrow> string \<Rightarrow> field option" where
  "field_by_name s n = List.find (\<lambda>f. field_name f = n) (schema_fields s)"

definition field_index :: "schema \<Rightarrow> nat \<Rightarrow> nat option" where
  "field_index s i = position (\<lambda>f. field_id f = i) (schema_fields s)"

definition index_of_name :: "schema \<Rightarrow> string \<Rightarrow> nat option" where
  "index_of_name s n = position (\<lambda>f. field_name f = n) (schema_fields s)"

lemma position_Some_iff:
  "position p xs = Some i \<longleftrightarrow> i < length xs \<and> p (xs ! i) \<and> (\<forall>j < i. \<not> p (xs ! j))"
proof (induction xs arbitrary: i)
  case Nil
  then show ?case by simp
next
  case (Cons x xs)
  show ?case
    by (cases i) (auto simp: Cons.IH less_Suc_eq_0_disj)
qed

lemma position_None_iff: "position p xs = None \<longleftrightarrow> (\<forall>x \<in> set xs. \<not> p x)"
  by (induction xs) auto

lemma find_position: "List.find p xs = map_option ((!) xs) (position p xs)"
  by (induction xs) (auto simp: option.map_comp comp_def)

lemma validate_fields_Inr_iff:
  "validate_fields names ids fs = Ok () \<longleftrightarrow>
     (\<forall>f \<in> set fs. field_name f \<noteq> []) \<and>
     distinct (map field_name fs) \<and> distinct (map field_id fs) \<and>
     field_name ` set fs \<inter> names = {} \<and> field_id ` set fs \<inter> ids = {}"
  by (induction fs arbitrary: names ids) auto

section \<open>Scalars and dynamic values\<close>

datatype dynamic_value =
    DNull
  | DBool bool
  | DInt64 int
  | DUInt64 nat
  | DFloat64 f64
  | DUtf8 string
  | DBytes bytes
  | DArray "dynamic_value list"
  | DObject "(string \<times> dynamic_value) list"

datatype scalar =
    SNull
  | SBool bool
  | SInt64 int
  | SUInt64 nat
  | SFloat64 f64
  | SUtf8 string
  | SBytes bytes
  | STimestampMicrosUTC int
  | SDynamic dynamic_value

type_synonym row = "scalar list"

definition as_event_time_micros :: "scalar \<Rightarrow> int option" where
  "as_event_time_micros s =
     (case s of
        SInt64 v \<Rightarrow> Some v
      | STimestampMicrosUTC v \<Rightarrow> Some v
      | SUInt64 v \<Rightarrow> if int v \<le> i64_max then Some (int v) else None
      | _ \<Rightarrow> None)"

fun scalar_type :: "scalar \<Rightarrow> data_type" where
  "scalar_type SNull = TNull"
| "scalar_type (SBool _) = TBool"
| "scalar_type (SInt64 _) = TInt64"
| "scalar_type (SUInt64 _) = TUInt64"
| "scalar_type (SFloat64 _) = TFloat64"
| "scalar_type (SUtf8 _) = TUtf8"
| "scalar_type (SBytes _) = TBytes"
| "scalar_type (STimestampMicrosUTC _) = TTimestampMicrosUTC"
| "scalar_type (SDynamic _) = TDynamic"

definition is_null :: "scalar \<Rightarrow> bool" where
  "is_null s \<longleftrightarrow> s = SNull \<or> s = SDynamic DNull"

definition scalar_is_nan :: "scalar \<Rightarrow> bool" where
  "scalar_is_nan s =
     (case s of SFloat64 v \<Rightarrow> is_nan v | SDynamic (DFloat64 v) \<Rightarrow> is_nan v | _ \<Rightarrow> False)"

definition scalar_as_f64 :: "scalar \<Rightarrow> f64 option" where
  "scalar_as_f64 s =
     (case s of
        SInt64 v \<Rightarrow> Some (f_of_int v)
      | SUInt64 v \<Rightarrow> Some (f_of_int (int v))
      | SFloat64 v \<Rightarrow> Some v
      | SBool v \<Rightarrow> Some (if v then f_one else f_zero)
      | _ \<Rightarrow> None)"

definition dyn_as_f64 :: "dynamic_value \<Rightarrow> f64 option" where
  "dyn_as_f64 d =
     (case d of
        DInt64 v \<Rightarrow> Some (f_of_int v)
      | DUInt64 v \<Rightarrow> Some (f_of_int (int v))
      | DFloat64 v \<Rightarrow> Some v
      | DBool v \<Rightarrow> Some (if v then f_one else f_zero)
      | _ \<Rightarrow> None)"

definition unique_object_keys :: "(string \<times> dynamic_value) list \<Rightarrow> bool" where
  "unique_object_keys vs \<longleftrightarrow> distinct (map fst vs)"

function dyn_matches_type :: "dynamic_value \<Rightarrow> data_type \<Rightarrow> nat \<Rightarrow> bool" where
  "dyn_matches_type v ty depth =
     (if depth > 64 then False
      else if v = DNull \<or> ty = TDynamic then True
      else case (v, ty) of
          (DBool _, TBool) \<Rightarrow> True
        | (DInt64 _, TInt64) \<Rightarrow> True
        | (DInt64 _, TTimestampMicrosUTC) \<Rightarrow> True
        | (DUInt64 _, TUInt64) \<Rightarrow> True
        | (DFloat64 _, TFloat64) \<Rightarrow> True
        | (DUtf8 _, TUtf8) \<Rightarrow> True
        | (DBytes _, TBytes) \<Rightarrow> True
        | (DArray vs, TArray inner) \<Rightarrow> list_all (\<lambda>w. dyn_matches_type w inner (Suc depth)) vs
        | (DObject vs, TStruct fs) \<Rightarrow>
            unique_object_keys vs \<and> length vs = length fs \<and>
            list_all (\<lambda>f. case List.find (\<lambda>kv. fst kv = field_name f) vs of
                None \<Rightarrow> False
              | Some kv \<Rightarrow> (field_nullable f \<or> snd kv \<noteq> DNull)
                  \<and> dyn_matches_type (snd kv) (field_type f) (Suc depth)) fs
        | (DObject vs, TMap key val) \<Rightarrow>
            unique_object_keys vs \<and>
            list_all (\<lambda>kv.
              (case key of
                 TUtf8 \<Rightarrow> True
               | TDynamic \<Rightarrow> True
               | TInt64 \<Rightarrow> parse_i64 (fst kv) \<noteq> None
               | TUInt64 \<Rightarrow> parse_u64 (fst kv) \<noteq> None
               | _ \<Rightarrow> False)
              \<and> dyn_matches_type (snd kv) val (Suc depth)) vs
        | _ \<Rightarrow> False)"
  by pat_completeness auto
termination
  by (relation "measure (\<lambda>(_, _, d). 65 - d)") auto

declare dyn_matches_type.simps [simp del]

definition matches_type :: "scalar \<Rightarrow> data_type \<Rightarrow> bool" where
  "matches_type s ty =
     (if ty = TDynamic \<or> scalar_type s = ty then True
      else case s of SDynamic v \<Rightarrow> is_nested ty \<and> dyn_matches_type v ty 0 | _ \<Rightarrow> False)"

text \<open>\<open>#[derive(PartialEq)]\<close>: structural, with IEEE equality at the floats.\<close>

fun dyn_peq :: "dynamic_value \<Rightarrow> dynamic_value \<Rightarrow> bool"
  and dyns_peq :: "dynamic_value list \<Rightarrow> dynamic_value list \<Rightarrow> bool"
  and pairs_peq :: "(string \<times> dynamic_value) list \<Rightarrow> (string \<times> dynamic_value) list \<Rightarrow> bool" where
  "dyn_peq (DFloat64 a) (DFloat64 b) = f_eq a b"
| "dyn_peq (DArray xs) (DArray ys) = dyns_peq xs ys"
| "dyn_peq (DObject xs) (DObject ys) = pairs_peq xs ys"
| "dyn_peq a b = (a = b)"
| "dyns_peq [] [] = True"
| "dyns_peq (x # xs) (y # ys) = (dyn_peq x y \<and> dyns_peq xs ys)"
| "dyns_peq _ _ = False"
| "pairs_peq [] [] = True"
| "pairs_peq ((k, x) # xs) ((l, y) # ys) = (k = l \<and> dyn_peq x y \<and> pairs_peq xs ys)"
| "pairs_peq _ _ = False"

fun scalar_peq :: "scalar \<Rightarrow> scalar \<Rightarrow> bool" where
  "scalar_peq (SFloat64 a) (SFloat64 b) = f_eq a b"
| "scalar_peq (SDynamic a) (SDynamic b) = dyn_peq a b"
| "scalar_peq a b = (a = b)"

text \<open>Object construction: duplicate keys overwrite in place and fail closed.\<close>

fun object_put :: "(string \<times> dynamic_value) list \<Rightarrow> string \<Rightarrow> dynamic_value
    \<Rightarrow> (string \<times> dynamic_value) list" where
  "object_put [] k v = [(k, v)]"
| "object_put ((k', v') # ps) k v = (if k' = k then (k', v) # ps else (k', v') # object_put ps k v)"

fun object_fold :: "(string \<times> dynamic_value) list \<Rightarrow> bool \<Rightarrow> (string \<times> dynamic_value) list
    \<Rightarrow> (string \<times> dynamic_value) list \<times> bool" where
  "object_fold pairs dup [] = (pairs, dup)"
| "object_fold pairs dup ((k, v) # fs) =
     object_fold (object_put pairs k v) (dup \<or> k \<in> fst ` set pairs) fs"

definition try_object :: "(string \<times> dynamic_value) list \<Rightarrow> (sparrow_error \<times> dynamic_value) + dynamic_value" where
  "try_object fs =
     (let (pairs, dup) = object_fold [] False fs
      in if dup then Inl (new_error InvalidArgument, DObject pairs) else Inr (DObject pairs))"

definition dyn_object :: "(string \<times> dynamic_value) list \<Rightarrow> dynamic_value" where
  "dyn_object fs = (case try_object fs of Inr v \<Rightarrow> v | Inl (_, last_wins) \<Rightarrow> last_wins)"

definition dyn_get :: "dynamic_value \<Rightarrow> string \<Rightarrow> dynamic_value option" where
  "dyn_get d key =
     (case d of DObject ps \<Rightarrow> map_option snd (List.find (\<lambda>kv. fst kv = key) ps) | _ \<Rightarrow> None)"

fun dyn_tracked_bytes :: "dynamic_value \<Rightarrow> nat" where
  "dyn_tracked_bytes (DUtf8 s) = 8 + length s"
| "dyn_tracked_bytes (DBytes b) = 8 + length b"
| "dyn_tracked_bytes (DArray xs) = 8 + sum_list (map dyn_tracked_bytes xs)"
| "dyn_tracked_bytes (DObject ps) = 8 + sum_list (map (\<lambda>(k, v). length k + dyn_tracked_bytes v) ps)"
| "dyn_tracked_bytes _ = 8"

definition tracked_bytes :: "scalar \<Rightarrow> nat" where
  "tracked_bytes s =
     (case s of
        SUtf8 t \<Rightarrow> 16 + length t
      | SBytes b \<Rightarrow> 16 + length b
      | SDynamic d \<Rightarrow> 16 + dyn_tracked_bytes d
      | _ \<Rightarrow> 16)"

text \<open>
  Resident sizes use \<open>std::mem::size_of\<close>, a fact of the compiler's layout: the three
  sizes are parameters.
\<close>

record layout =
  size_of_scalar :: nat
  size_of_dynamic :: nat
  size_of_pair :: nat

fun dyn_resident_heap :: "layout \<Rightarrow> dynamic_value \<Rightarrow> nat" where
  "dyn_resident_heap L (DUtf8 s) = sat_u64 (length s + 48)"
| "dyn_resident_heap L (DBytes b) = sat_u64 (length b + 48)"
| "dyn_resident_heap L (DArray xs) =
     foldl (\<lambda>n h. sat_u64 (n + h)) (sat_u64 (48 + sat_u64 (length xs * size_of_dynamic L)))
       (map (dyn_resident_heap L) xs)"
| "dyn_resident_heap L (DObject ps) =
     foldl (\<lambda>n (l, h). sat_u64 (sat_u64 (sat_u64 (n + l) + 48) + h))
       (sat_u64 (48 + sat_u64 (length ps * size_of_pair L)))
       (map (\<lambda>(k, v). (length k, dyn_resident_heap L v)) ps)"
| "dyn_resident_heap L _ = 0"

definition resident_heap_bytes :: "layout \<Rightarrow> scalar \<Rightarrow> nat" where
  "resident_heap_bytes L s =
     (case s of
        SUtf8 v \<Rightarrow> sat_u64 (length v + 48)
      | SBytes v \<Rightarrow> sat_u64 (length v + 48)
      | SDynamic v \<Rightarrow> dyn_resident_heap L v
      | _ \<Rightarrow> 0)"

definition resident_bytes :: "layout \<Rightarrow> scalar \<Rightarrow> nat" where
  "resident_bytes L s = sat_u64 (size_of_scalar L + resident_heap_bytes L s)"

end
