(* ===== verification/Scalar_Codec.thy ===== *)
theory Scalar_Codec
  imports Scalar_Value
begin

text \<open>
  The two byte encodings of \<^verbatim>\<open>sparrow-model/src/scalar.rs\<close>: the structural key
  encoding, which identifies values up to signed zero, NaN payload and object key order,
  and the reversible value encoding of checkpoint snapshots with its decoder and its
  validating skipper.
\<close>

section \<open>Key encoding\<close>

definition f64_le :: "f64 \<Rightarrow> bytes" where
  "f64_le v = u64_le (unat (to_bits v))"

definition canon_f64 :: "f64 \<Rightarrow> f64" where
  "canon_f64 v = (if f_eq v f_zero then f_zero else if is_nan v then f_nan else v)"

definition key_utf8 :: "string \<Rightarrow> bytes" where
  "key_utf8 s = 5 # u32_le (length s) @ str_bytes s"

definition key_bytes :: "bytes \<Rightarrow> bytes" where
  "key_bytes b = 6 # u32_le (length b) @ b"

function dyn_encode_key :: "dynamic_value \<Rightarrow> bytes" where
  "dyn_encode_key DNull = [0]"
| "dyn_encode_key (DBool v) = [1, if v then 1 else 0]"
| "dyn_encode_key (DInt64 v) = 2 # i64_le v"
| "dyn_encode_key (DUInt64 v) = 3 # u64_le v"
| "dyn_encode_key (DFloat64 v) = 4 # f64_le (canon_f64 v)"
| "dyn_encode_key (DUtf8 s) = key_utf8 s"
| "dyn_encode_key (DBytes b) = key_bytes b"
| "dyn_encode_key (DArray vs) = 9 # u64_le (length vs) @ concat (map dyn_encode_key vs)"
| "dyn_encode_key (DObject vs) =
     10 # u64_le (length vs)
        @ concat (map (\<lambda>(k, v). key_utf8 k @ dyn_encode_key v) (sort_key fst vs))"
  by pat_completeness auto
termination
  by (relation "measure size") (auto simp: less_Suc_eq_le intro: size_list_estimation' trans_le_add2)

fun encode_key :: "scalar \<Rightarrow> bytes" where
  "encode_key SNull = [0]"
| "encode_key (SBool v) = [1, if v then 1 else 0]"
| "encode_key (SInt64 v) = 2 # i64_le v"
| "encode_key (SUInt64 v) = 3 # u64_le v"
| "encode_key (SFloat64 v) = 4 # f64_le (canon_f64 v)"
| "encode_key (SUtf8 s) = key_utf8 s"
| "encode_key (SBytes b) = key_bytes b"
| "encode_key (STimestampMicrosUTC v) = 7 # i64_le v"
| "encode_key (SDynamic d) = 8 # dyn_encode_key d"

section \<open>Value encoding\<close>

definition encoded_value_len :: "scalar \<Rightarrow> nat result" where
  "encoded_value_len s =
     (case s of
        SNull \<Rightarrow> Ok 1
      | SBool _ \<Rightarrow> Ok 2
      | SUtf8 v \<Rightarrow> Ok (sat_u64 (5 + length v))
      | SBytes v \<Rightarrow> Ok (sat_u64 (5 + length v))
      | SDynamic _ \<Rightarrow> Err FeatureUnavailable
      | _ \<Rightarrow> Ok 9)"

definition encode_value :: "scalar \<Rightarrow> bytes result" where
  "encode_value s =
     (case s of
        SDynamic _ \<Rightarrow> Err FeatureUnavailable
      | SFloat64 v \<Rightarrow> Ok (4 # f64_le v)
      | _ \<Rightarrow> Ok (encode_key s))"

definition decode_value :: "bytes \<Rightarrow> (scalar \<times> bytes) result" where
  "decode_value src =
     (case src of
        [] \<Rightarrow> Err CodecViolation
      | tag # rest \<Rightarrow>
          if tag = 0 then Ok (SNull, rest)
          else if tag = 1 then
            rbind (take_bytes 1 rest) (\<lambda>(b, rest'). Ok (SBool (hd b \<noteq> 0), rest'))
          else if tag = 2 then
            rbind (take_bytes 8 rest) (\<lambda>(b, rest'). Ok (SInt64 (u64_as_i64 (from_le_bytes b)), rest'))
          else if tag = 3 then
            rbind (take_bytes 8 rest) (\<lambda>(b, rest'). Ok (SUInt64 (from_le_bytes b), rest'))
          else if tag = 4 then
            rbind (take_bytes 8 rest)
              (\<lambda>(b, rest'). Ok (SFloat64 (F64 (word_of_nat (from_le_bytes b))), rest'))
          else if tag = 5 then
            rbind (take_bytes 4 rest) (\<lambda>(l, rest').
              rbind (take_bytes (from_le_bytes l) rest') (\<lambda>(b, rest'').
                if valid_utf8 b then Ok (SUtf8 (bytes_str b), rest'') else Err CodecViolation))
          else if tag = 6 then
            rbind (take_bytes 4 rest) (\<lambda>(l, rest').
              rbind (take_bytes (from_le_bytes l) rest') (\<lambda>(b, rest''). Ok (SBytes b, rest'')))
          else if tag = 7 then
            rbind (take_bytes 8 rest)
              (\<lambda>(b, rest'). Ok (STimestampMicrosUTC (u64_as_i64 (from_le_bytes b)), rest'))
          else if tag = 8 then Err FeatureUnavailable
          else Err CodecViolation)"

definition skip_encoded_value :: "bytes \<Rightarrow> bytes result" where
  "skip_encoded_value src =
     (case src of
        [] \<Rightarrow> Err CodecViolation
      | tag # tail \<Rightarrow>
          rbind
            (if tag = 0 then Ok (0, False, tail)
             else if tag = 1 then Ok (1, False, tail)
             else if tag = 2 \<or> tag = 3 \<or> tag = 4 \<or> tag = 7 then Ok (8, False, tail)
             else if tag = 5 \<or> tag = 6 then
               (if length tail < 4 then Err CodecViolation
                else Ok (from_le_bytes (take 4 tail), tag = 5, drop 4 tail))
             else Err CodecViolation)
            (\<lambda>(size, utf8, rest).
               if length rest < size then Err CodecViolation
               else if utf8 \<and> \<not> valid_utf8 (take size rest) then Err CodecViolation
               else Ok (drop size rest)))"

section \<open>Well-formed values\<close>

text \<open>
  What the Rust types guarantee (\<open>i64\<close>, \<open>u64\<close> and \<open>str\<close>), and that a payload's
  length fits the 32-bit length prefix, which the encoder writes with \<open>as u32\<close>.
\<close>

fun value_ok :: "scalar \<Rightarrow> bool" where
  "value_ok (SInt64 v) = is_i64 v"
| "value_ok (SUInt64 v) = is_u64 v"
| "value_ok (STimestampMicrosUTC v) = is_i64 v"
| "value_ok (SUtf8 s) = (is_str s \<and> length s \<le> u32_max)"
| "value_ok (SBytes b) = (length b \<le> u32_max)"
| "value_ok (SDynamic _) = False"
| "value_ok _ = True"

definition value_bytes :: "scalar \<Rightarrow> bytes" where
  "value_bytes s = (case encode_value s of Inr b \<Rightarrow> b | Inl _ \<Rightarrow> [])"

fun dyn_key_ok :: "dynamic_value \<Rightarrow> bool" where
  "dyn_key_ok (DInt64 v) = is_i64 v"
| "dyn_key_ok (DUInt64 v) = is_u64 v"
| "dyn_key_ok (DUtf8 s) = (length s \<le> u32_max)"
| "dyn_key_ok (DBytes b) = (length b \<le> u32_max)"
| "dyn_key_ok (DArray vs) = (is_u64 (length vs) \<and> list_all dyn_key_ok vs)"
| "dyn_key_ok (DObject vs) =
     (is_u64 (length vs) \<and> list_all (\<lambda>(k, v). length k \<le> u32_max \<and> dyn_key_ok v) vs)"
| "dyn_key_ok _ = True"

fun key_ok :: "scalar \<Rightarrow> bool" where
  "key_ok (SDynamic d) = dyn_key_ok d"
| "key_ok (SInt64 v) = is_i64 v"
| "key_ok (SUInt64 v) = is_u64 v"
| "key_ok (STimestampMicrosUTC v) = is_i64 v"
| "key_ok (SUtf8 s) = (length s \<le> u32_max)"
| "key_ok (SBytes b) = (length b \<le> u32_max)"
| "key_ok _ = True"

text \<open>The value a key stands for.\<close>

fun canon_dyn :: "dynamic_value \<Rightarrow> dynamic_value" where
  "canon_dyn (DFloat64 v) = DFloat64 (canon_f64 v)"
| "canon_dyn (DArray vs) = DArray (map canon_dyn vs)"
| "canon_dyn (DObject vs) = DObject (sort_key fst (map (\<lambda>(k, v). (k, canon_dyn v)) vs))"
| "canon_dyn v = v"

definition canon :: "scalar \<Rightarrow> scalar" where
  "canon s = (case s of SFloat64 v \<Rightarrow> SFloat64 (canon_f64 v) | SDynamic d \<Rightarrow> SDynamic (canon_dyn d) | _ \<Rightarrow> s)"

section \<open>The value codec\<close>

lemma of_nat_unat_to_bits [simp]: "F64 (word_of_nat (unat (to_bits v))) = v"
  by (cases v) simp

lemma is_u64_to_bits [simp]: "is_u64 (unat (to_bits v))"
  using unat_to_bits_bound [of v] by (simp add: is_u64_def)

lemma length_f64_le [simp]: "length (f64_le v) = 8"
  by (simp add: f64_le_def)

lemma from_le_f64 [simp]: "from_le_bytes (f64_le v) = unat (to_bits v)"
  by (simp add: f64_le_def)

lemma decode_value_bytes:
  assumes "value_ok s"
  shows "decode_value (value_bytes s @ rest) = Ok (s, rest)"
  using assms
  by (cases s)
    (auto simp: value_bytes_def encode_value_def decode_value_def key_utf8_def key_bytes_def is_str_def
      take_bytes_def [of 1] take_bytes_def [of "Suc 0"])

lemma encode_value_ok: "value_ok s \<Longrightarrow> encode_value s = Ok (value_bytes s)"
  by (cases s) (auto simp: value_bytes_def encode_value_def)

interpretation scalar_codec: codec value_bytes decode_value value_ok
  by unfold_locales (rule decode_value_bytes)

lemma rbind_take_bytes:
  "rbind (take_bytes n src) f = (if length src < n then Err CodecViolation else f (take n src, drop n src))"
  by (simp add: take_bytes_def)

lemma skip_iff_decode:
  "skip_encoded_value src = Ok rest \<longleftrightarrow> (\<exists>v. decode_value src = Ok (v, rest))"
proof (cases src)
  case Nil
  then show ?thesis by (simp add: skip_encoded_value_def decode_value_def)
next
  case (Cons tag tail)
  consider "tag = 0" | "tag = 1" | "tag = 2" | "tag = 3" | "tag = 4" | "tag = 5" | "tag = 6" | "tag = 7"
    | "tag \<notin> {0, 1, 2, 3, 4, 5, 6, 7}" by blast
  then show ?thesis
    by cases (auto simp: Cons skip_encoded_value_def decode_value_def rbind_take_bytes)
qed

lemma encoded_value_len_exact:
  assumes "encode_value s = Ok bs" "is_u64 (length bs)"
  shows "encoded_value_len s = Ok (length bs)"
  using assms by (cases s)
    (auto simp: encode_value_def encoded_value_len_def key_utf8_def key_bytes_def)

section \<open>The key encoding identifies values up to their canonical form\<close>

fun raw_key :: "dynamic_value \<Rightarrow> bytes" where
  "raw_key (DFloat64 v) = 4 # f64_le v"
| "raw_key (DArray vs) = 9 # u64_le (length vs) @ concat (map raw_key vs)"
| "raw_key (DObject vs) =
     10 # u64_le (length vs) @ concat (map (\<lambda>(k, v). key_utf8 k @ raw_key v) vs)"
| "raw_key v = dyn_encode_key v"

lemma insort_key_map_pair:
  "insort_key fst (k, f v) (map (\<lambda>(k, v). (k, f v)) ps) = map (\<lambda>(k, v). (k, f v)) (insort_key fst (k, v) ps)"
  by (induction ps) auto

lemma sort_key_map_pair:
  "sort_key fst (map (\<lambda>(k, v). (k, f v)) ps) = map (\<lambda>(k, v). (k, f v)) (sort_key fst ps)"
  by (induction ps) (auto simp: insort_key_map_pair)

lemma dyn_encode_key_canon: "dyn_encode_key v = raw_key (canon_dyn v)"
proof (induction v rule: dyn_encode_key.induct)
  case (8 vs)
  then have "map dyn_encode_key vs = map (\<lambda>v. raw_key (canon_dyn v)) vs" by simp
  then show ?case by (simp only: dyn_encode_key.simps canon_dyn.simps raw_key.simps) (simp add: comp_def)
next
  case (9 vs)
  then have "map (\<lambda>(k, v). key_utf8 k @ dyn_encode_key v) (sort_key fst vs)
      = map (\<lambda>(k, v). key_utf8 k @ raw_key (canon_dyn v)) (sort_key fst vs)"
    by (intro map_cong refl) (auto simp: split_beta)
  moreover have "length (sort_key fst (map (\<lambda>(k, v). (k, canon_dyn v)) vs)) = length vs"
    by (simp add: length_sort)
  moreover have "map (\<lambda>(k, v). key_utf8 k @ raw_key v) (sort_key fst (map (\<lambda>(k, v). (k, canon_dyn v)) vs))
      = map (\<lambda>(k, v). key_utf8 k @ raw_key (canon_dyn v)) (sort_key fst vs)"
    unfolding sort_key_map_pair by (simp add: comp_def split_beta)
  ultimately show ?case
    by (simp only: dyn_encode_key.simps canon_dyn.simps raw_key.simps)
qed simp_all

lemma le_inject [simp]:
  "is_i64 x \<Longrightarrow> is_i64 y \<Longrightarrow> i64_le x = i64_le y \<longleftrightarrow> x = y"
  "is_u64 m \<Longrightarrow> is_u64 n \<Longrightarrow> u64_le m = u64_le n \<longleftrightarrow> m = n"
  "j \<le> u32_max \<Longrightarrow> k \<le> u32_max \<Longrightarrow> u32_le j = u32_le k \<longleftrightarrow> j = k"
  by (metis from_le_i64, metis from_le_u64, metis from_le_u32)

lemma f64_le_inject [simp]: "f64_le x = f64_le y \<longleftrightarrow> x = y"
  by (metis from_le_f64 of_nat_unat_to_bits)

lemma key_utf8_append_inject:
  assumes "length a \<le> u32_max" "length b \<le> u32_max"
  shows "key_utf8 a @ r = key_utf8 b @ s \<longleftrightarrow> a = b \<and> r = s"
  using assms by (auto simp: key_utf8_def)

lemma key_bytes_append_inject:
  assumes "length a \<le> u32_max" "length b \<le> u32_max"
  shows "key_bytes a @ r = key_bytes b @ s \<longleftrightarrow> a = b \<and> r = s"
  using assms by (auto simp: key_bytes_def)

text \<open>Sequences of prefix-free encodings of equal length are prefix-free.\<close>

lemma concat_prefix_free:
  assumes "\<And>x y r s. x \<in> set xs \<Longrightarrow> y \<in> set ys \<Longrightarrow> e x @ r = e y @ s \<Longrightarrow> x = y \<and> r = s"
    and "length xs = length ys" "concat (map e xs) @ r = concat (map e ys) @ s"
  shows "xs = ys \<and> r = s"
  using assms
proof (induction xs ys arbitrary: r s rule: list_induct2')
  case (4 x xs y ys)
  from "4.prems"(3) have "e x @ concat (map e xs) @ r = e y @ concat (map e ys) @ s" by simp
  then have xy: "x = y" and rest: "concat (map e xs) @ r = concat (map e ys) @ s"
    using "4.prems"(1) by (meson list.set_intros(1))+
  moreover have "xs = ys \<and> r = s"
    using "4.prems"(1,2) rest by (intro "4.IH") auto
  ultimately show ?case by simp
qed simp_all

lemma raw_key_prefix_free:
  "dyn_key_ok a \<Longrightarrow> dyn_key_ok b \<Longrightarrow> raw_key a @ r = raw_key b @ s \<Longrightarrow> a = b \<and> r = s"
proof (induction a arbitrary: b r s)
  case (DArray vs)
  then show ?case
  proof (cases b)
    case (DArray ws)
    with DArray.prems have len: "length vs = length ws"
      and eq: "concat (map raw_key vs) @ r = concat (map raw_key ws) @ s"
      by simp_all
    have "vs = ws \<and> r = s"
    proof (rule concat_prefix_free [OF _ len eq])
      fix x y r s assume "x \<in> set vs" "y \<in> set ws" "raw_key x @ r = raw_key y @ s"
      then show "x = y \<and> r = s"
        using DArray.IH DArray.prems(1,2) \<open>b = DArray ws\<close> by (auto simp: list_all_iff)
    qed
    with DArray show ?thesis by simp
  qed (simp_all add: key_utf8_def key_bytes_def)
next
  case (DObject vs)
  then show ?case
  proof (cases b)
    case (DObject ws)
    let ?e = "\<lambda>(k, v). key_utf8 k @ raw_key v"
    from DObject DObject.prems have len: "length vs = length ws"
      and eq: "concat (map ?e vs) @ r = concat (map ?e ws) @ s"
      by simp_all
    have "vs = ws \<and> r = s"
    proof (rule concat_prefix_free [OF _ len eq])
      fix x y r s assume x: "x \<in> set vs" and y: "y \<in> set ws" and e: "?e x @ r = ?e y @ s"
      obtain k v l w where kv: "x = (k, v)" "y = (l, w)" by (cases x, cases y) auto
      have ok: "length k \<le> u32_max" "dyn_key_ok v" "length l \<le> u32_max" "dyn_key_ok w"
        using DObject.prems(1,2) DObject x y kv by (auto simp: list_all_iff)
      with e kv have "k = l" and "raw_key v @ r = raw_key w @ s"
        by (auto simp: key_utf8_append_inject)
      moreover have "v \<in> Basic_BNFs.snds (k, v)" by (simp add: snds.simps)
      ultimately show "x = y \<and> r = s"
        using DObject.IH [of "(k, v)" v w r s] x kv ok by auto
    qed
    with DObject show ?thesis by simp
  qed (simp_all add: key_utf8_def key_bytes_def)
next
  case (DUtf8 t)
  then show ?case by (cases b) (auto simp: key_utf8_def key_bytes_def)
next
  case (DBytes t)
  then show ?case by (cases b) (auto simp: key_utf8_def key_bytes_def)
qed (case_tac b; auto simp: key_utf8_def key_bytes_def split: if_splits)+

lemma dyn_key_ok_canon: "dyn_key_ok v \<Longrightarrow> dyn_key_ok (canon_dyn v)"
  by (induction v rule: canon_dyn.induct) (auto simp: list_all_iff)

lemma key_prefix_free:
  assumes "key_ok a" "key_ok b" "encode_key a @ r = encode_key b @ s"
  shows "canon a = canon b \<and> r = s"
proof (cases a)
  case (SDynamic d)
  show ?thesis
  proof (cases b)
    case (SDynamic e)
    with \<open>a = SDynamic d\<close> assms show ?thesis
      using raw_key_prefix_free [of "canon_dyn d" "canon_dyn e" r s]
      by (auto simp: canon_def dyn_encode_key_canon intro: dyn_key_ok_canon)
  qed (use \<open>a = SDynamic d\<close> assms in \<open>auto simp: key_utf8_def key_bytes_def\<close>)
next
  case (SUtf8 t)
  with assms show ?thesis by (cases b) (auto simp: canon_def key_utf8_def key_bytes_def)
next
  case (SBytes t)
  with assms show ?thesis by (cases b) (auto simp: canon_def key_utf8_def key_bytes_def)
qed (use assms in \<open>(cases b; auto simp: canon_def key_utf8_def key_bytes_def split: if_splits)+\<close>)

lemma encode_key_canon: "canon a = canon b \<Longrightarrow> encode_key a = encode_key b"
  by (cases a; cases b) (auto simp: canon_def dyn_encode_key_canon)

lemma canon_float_iff:
  "canon (SFloat64 x) = canon (SFloat64 y) \<longleftrightarrow> f_eq x y \<or> is_nan x \<and> is_nan y"
proof -
  have z: "f_low x = 0 \<Longrightarrow> \<not> is_nan x" for x by (simp add: is_nan_def)
  have "canon_f64 x = canon_f64 y \<longleftrightarrow> f_eq x y \<or> is_nan x \<and> is_nan y"
    using z [of x] z [of y] by (auto simp: canon_f64_def f_eq_iff)
  then show ?thesis by (simp add: canon_def)
qed

lemma length_bytes_str [simp]: "length (bytes_str b) = length b"
  by (simp add: bytes_str_def)

lemma str_bytes_bytes_str [simp]: "str_bytes (bytes_str b) = b"
proof -
  have "unat x < 256" for x :: u8 using unsigned_less [of x] by simp
  then have "unat x mod 256 = unat x" for x :: u8 by simp
  then show ?thesis by (simp add: str_bytes_def bytes_str_def comp_def)
qed

lemma from_le_bytes_is_u64: "length b = 8 \<Longrightarrow> is_u64 (from_le_bytes b)"
  using from_le_bytes_bound [of b] by (simp add: is_u64_def)

lemma from_le_bytes_is_u32: "length b = 4 \<Longrightarrow> from_le_bytes b \<le> u32_max"
  using from_le_bytes_bound [of b] by simp

lemma decode_value_drop:
  assumes "decode_value (tag # tail) = Ok (v, rest)"
  shows "value_ok v \<and> (\<exists>n. rest = drop n tail)"
proof -
  consider "tag = 0" | "tag = 1" | "tag = 2" | "tag = 3" | "tag = 4" | "tag = 5" | "tag = 6" | "tag = 7"
    | "tag \<notin> {0, 1, 2, 3, 4, 5, 6, 7}" by blast
  then show ?thesis
    using assms
    by cases (auto simp: decode_value_def rbind_take_bytes is_str_def from_le_bytes_is_u64
        from_le_bytes_is_u32 add.commute intro: exI [of _ 0] split: if_splits)
qed

section \<open>Properties\<close>

text \<open>
  C38: Every scalar that a snapshot can carry (well-formed, not Dynamic) is encoded, its
  announced length is the length written, and decoding the bytes followed by anything gives
  back exactly that scalar, float bits included, and exactly the rest.
\<close>

theorem value_roundtrip:
  assumes "value_ok s"
  shows "\<exists>bs. encode_value s = Ok bs \<and> encoded_value_len s = Ok (length bs)
    \<and> decode_value (bs @ rest) = Ok (s, rest)"
proof -
  have e: "encode_value s = Ok (value_bytes s)" using assms by (rule encode_value_ok)
  have "is_u64 (length (value_bytes s))"
    using assms by (cases s) (auto simp: value_bytes_def encode_value_def key_utf8_def key_bytes_def is_u64_def)
  with e have "encoded_value_len s = Ok (length (value_bytes s))" by (rule encoded_value_len_exact)
  with e scalar_codec.dec_enc [OF assms] show ?thesis by blast
qed

theorem value_roundtrip_witness:
  "\<exists>bs. encode_value (SFloat64 (F64 0x8000000000000000)) = Ok bs
    \<and> encoded_value_len (SFloat64 (F64 0x8000000000000000)) = Ok (length bs)
    \<and> decode_value (bs @ [7, 7]) = Ok (SFloat64 (F64 0x8000000000000000), [7, 7])"
  by (rule value_roundtrip) simp

text \<open>
  The allocation-free skipper accepts exactly the inputs the decoder accepts and stops
  at the same byte.
\<close>

theorem skip_matches_decode:
  "skip_encoded_value src = Ok rest \<longleftrightarrow> (\<exists>v. decode_value src = Ok (v, rest))"
  by (rule skip_iff_decode)

text \<open>
  Whatever bytes are decoded, a decoded scalar is well-formed (its integers in range,
  its text valid UTF-8, never Dynamic) and the decoder only moves forward: it consumes a
  non-empty prefix of the input.
\<close>

theorem decode_value_wf:
  assumes "decode_value src = Ok (v, rest)"
  shows "value_ok v \<and> (\<exists>used. used \<noteq> [] \<and> src = used @ rest)"
proof (cases src)
  case (Cons tag tail)
  with decode_value_drop [OF assms [unfolded Cons]] obtain n where "value_ok v" "rest = drop n tail" by blast
  moreover have "src = (tag # take n tail) @ drop n tail" using Cons by simp
  ultimately show ?thesis by blast
qed (use assms in \<open>simp add: decode_value_def\<close>)

theorem decode_value_wf_witness:
  "value_ok (SUtf8 ''ab'') \<and> (\<exists>used. used \<noteq> [] \<and> [5, 2, 0, 0, 0, 97, 98, 9 :: u8] = used @ [9])"
  by (rule decode_value_wf) code_simp

text \<open>
  C36: Two well-formed scalars have the same structural key exactly when they are the same
  value up to signed zero, NaN payload and the order of object keys; for floats that is IEEE
  equality or both NaN. Keys are prefix free: two byte strings that start with keys are equal
  exactly when the keys stand for the same value and the rests are equal, so concatenated keys
  never run into each other.
\<close>

theorem encode_key_iff_canon:
  assumes "key_ok a" "key_ok b"
  shows "(encode_key a = encode_key b \<longleftrightarrow> canon a = canon b)
    \<and> (encode_key a @ r = encode_key b @ s \<longleftrightarrow> canon a = canon b \<and> r = s)
    \<and> (canon (SFloat64 x) = canon (SFloat64 y) \<longleftrightarrow> f_eq x y \<or> is_nan x \<and> is_nan y)"
proof -
  have split: "encode_key a @ r = encode_key b @ s \<longleftrightarrow> canon a = canon b \<and> r = s" for r s
    using key_prefix_free [OF assms, of r s] encode_key_canon [of a b] by metis
  show ?thesis using split [of "[]" "[]"] split [of r s] canon_float_iff [of x y] by simp
qed

theorem encode_key_iff_canon_witness:
  "(encode_key (SInt64 3) = encode_key (SUInt64 3) \<longleftrightarrow> canon (SInt64 3) = canon (SUInt64 3))
    \<and> (encode_key (SInt64 3) @ [0xff, 7] = encode_key (SUInt64 3) @ [0xff] \<longleftrightarrow> canon (SInt64 3) = canon (SUInt64 3) \<and> [0xff, 7] = [0xff :: u8])
    \<and> (canon (SFloat64 (F64 0)) = canon (SFloat64 (F64 0x8000000000000000)) \<longleftrightarrow>
        f_eq (F64 0) (F64 0x8000000000000000) \<or> is_nan (F64 0) \<and> is_nan (F64 0x8000000000000000))"
  by (rule encode_key_iff_canon) (simp_all add: is_i64_def is_u64_def)

end
