(* ===== verification/Window_Kind.thy ===== *)
theory Window_Kind
  imports Scalar_Value
begin

text \<open>
  Window and aggregate vocabulary: \<^verbatim>\<open>sparrow-model/src/window.rs\<close> with the watermark
  constants of \<^verbatim>\<open>sparrow-model/src/watermark.rs\<close>. Window assignment is arithmetic on
  \<open>i64\<close> micros with saturation; tumbling assignment is shown to partition time and
  hopping assignment to return exactly the windows that cover a timestamp.
\<close>

datatype time_domain = ProcessingTime | EventTime

datatype window_kind =
    TumblingProcessingTime (size_micros: int)
  | Count (count_size: nat)
  | TumblingEventTime (size_micros: int)
  | HoppingEventTime (size_micros: int) (slide_micros: int)
  | HoppingProcessingTime (size_micros: int) (slide_micros: int)
  | SlidingCount (count_size: nat) (count_step: nat)
  | SlidingProcessingTime (size_micros: int) (delay_micros: int)
  | SlidingEventTime (size_micros: int) (delay_micros: int)
  | SessionProcessingTime (gap_micros: int) (max_duration_micros: int)
  | SessionEventTime (gap_micros: int) (max_duration_micros: int)

definition is_buffered :: "window_kind \<Rightarrow> bool" where
  "is_buffered w =
     (case w of
        SlidingCount _ _ \<Rightarrow> True
      | SlidingProcessingTime _ _ \<Rightarrow> True
      | SlidingEventTime _ _ \<Rightarrow> True
      | SessionProcessingTime _ _ \<Rightarrow> True
      | SessionEventTime _ _ \<Rightarrow> True
      | _ \<Rightarrow> False)"

definition is_new_window :: "window_kind \<Rightarrow> bool" where
  "is_new_window w \<longleftrightarrow> is_buffered w \<or> (case w of HoppingProcessingTime _ _ \<Rightarrow> True | _ \<Rightarrow> False)"

definition is_count :: "window_kind \<Rightarrow> bool" where
  "is_count w = (case w of Count _ \<Rightarrow> True | SlidingCount _ _ \<Rightarrow> True | _ \<Rightarrow> False)"

definition window_hopping_et :: "int \<Rightarrow> int \<Rightarrow> window_kind result" where
  "window_hopping_et sz slide =
     (if sz \<le> 0 \<or> slide \<le> 0 then Err InvalidArgument
      else if slide > sz then Err InvalidArgument
      else Ok (HoppingEventTime sz slide))"

definition window_hopping_pt :: "int \<Rightarrow> int \<Rightarrow> window_kind result" where
  "window_hopping_pt sz slide =
     rbind (window_hopping_et sz slide) (\<lambda>_. Ok (HoppingProcessingTime sz slide))"

definition window_sliding_count :: "nat \<Rightarrow> nat \<Rightarrow> window_kind result" where
  "window_sliding_count sz step =
     (if sz = 0 \<or> step = 0 \<or> step > sz \<or> int sz > i64_max then Err InvalidArgument
      else Ok (SlidingCount sz step))"

definition window_sliding :: "int \<Rightarrow> int \<Rightarrow> bool \<Rightarrow> window_kind result" where
  "window_sliding sz delay event_time =
     (if sz \<le> 0 \<or> delay < 0 \<or> checked_i64 (sz + delay) = None then Err InvalidArgument
      else Ok (if event_time then SlidingEventTime sz delay else SlidingProcessingTime sz delay))"

definition window_session :: "int \<Rightarrow> int \<Rightarrow> bool \<Rightarrow> window_kind result" where
  "window_session gap max_duration event_time =
     (if gap \<le> 0 \<or> max_duration \<le> 0 then Err InvalidArgument
      else Ok (if event_time then SessionEventTime gap max_duration
               else SessionProcessingTime gap max_duration))"

definition window_tumbling_pt :: "int \<Rightarrow> window_kind result" where
  "window_tumbling_pt sz =
     (if sz \<le> 0 then Err InvalidArgument else Ok (TumblingProcessingTime sz))"

definition window_count :: "nat \<Rightarrow> window_kind result" where
  "window_count sz = (if sz = 0 then Err InvalidArgument else Ok (Count sz))"

definition window_tumbling_et :: "int \<Rightarrow> window_kind result" where
  "window_tumbling_et sz =
     (if sz \<le> 0 then Err InvalidArgument else Ok (TumblingEventTime sz))"

definition window_time_domain :: "window_kind \<Rightarrow> time_domain" where
  "window_time_domain w =
     (case w of
        TumblingProcessingTime _ \<Rightarrow> ProcessingTime
      | Count _ \<Rightarrow> ProcessingTime
      | HoppingProcessingTime _ _ \<Rightarrow> ProcessingTime
      | SlidingCount _ _ \<Rightarrow> ProcessingTime
      | SlidingProcessingTime _ _ \<Rightarrow> ProcessingTime
      | SessionProcessingTime _ _ \<Rightarrow> ProcessingTime
      | TumblingEventTime _ \<Rightarrow> EventTime
      | HoppingEventTime _ _ \<Rightarrow> EventTime
      | SlidingEventTime _ _ \<Rightarrow> EventTime
      | SessionEventTime _ _ \<Rightarrow> EventTime)"

definition uses_processing_time_timer :: "window_kind \<Rightarrow> bool" where
  "uses_processing_time_timer w =
     (case w of
        TumblingProcessingTime _ \<Rightarrow> True
      | HoppingProcessingTime _ _ \<Rightarrow> True
      | SlidingProcessingTime _ _ \<Rightarrow> True
      | SessionProcessingTime _ _ \<Rightarrow> True
      | _ \<Rightarrow> False)"

definition uses_event_time :: "window_kind \<Rightarrow> bool" where
  "uses_event_time w =
     (case w of
        TumblingEventTime _ \<Rightarrow> True
      | HoppingEventTime _ _ \<Rightarrow> True
      | SlidingEventTime _ _ \<Rightarrow> True
      | SessionEventTime _ _ \<Rightarrow> True
      | _ \<Rightarrow> False)"

section \<open>Assignment\<close>

text \<open>\<open>div_euclid\<close> by a positive divisor is the library's \<open>div\<close>.\<close>

definition assign_tumble :: "int \<Rightarrow> int \<Rightarrow> (int \<times> int) result" where
  "assign_tumble now sz =
     (if sz \<le> 0 then Err InvalidArgument
      else let start = sat_i64 ((now div sz) * sz) in Ok (start, sat_i64 (start + sz)))"

definition hop_overlap :: "int \<Rightarrow> int \<Rightarrow> nat result" where
  "hop_overlap sz slide =
     (if sz \<le> 0 \<or> slide \<le> 0 then Err InvalidArgument
      else let q = sz div slide; r = sz mod slide; n = (if r = 0 then q else q + 1)
           in if n \<le> 0 \<or> n > int u32_max then Err BoundExceeded else Ok (nat n))"

abbreviation default_max_hop_overlap :: nat where "default_max_hop_overlap \<equiv> 8"

definition check_hop_overlap_bound :: "int \<Rightarrow> int \<Rightarrow> nat \<Rightarrow> nat result" where
  "check_hop_overlap_bound sz slide max_overlap =
     rbind (hop_overlap sz slide) (\<lambda>n.
       let cap = (if max_overlap = 0 then default_max_hop_overlap else max_overlap)
       in if n > cap then Err BoundExceeded else Ok n)"

text \<open>
  The \<open>while\<close> loop of \<open>assign_hop\<close>. Its caller has checked \<open>0 < slide\<close>, so the next
  start never exceeds the current one and the source's exit test \<open>next == start\<close> is
  \<open>\<not> next < start\<close>, the form in which the loop's termination is evident.
\<close>

function hop_loop :: "int \<Rightarrow> int \<Rightarrow> int \<Rightarrow> nat \<Rightarrow> int \<Rightarrow> (int \<times> int) list \<Rightarrow> (int \<times> int) list result" where
  "hop_loop ts sz slide max_overlap start out =
     (if start > sat_i64 (ts - sz) then
        let out' = (if ts \<ge> start \<and> ts < sat_i64 (start + sz)
                    then out @ [(start, sat_i64 (start + sz))] else out);
            nxt = sat_i64 (start - slide)
        in if \<not> nxt < start then Ok out'
           else if length out' > max_overlap then Err BoundExceeded
           else hop_loop ts sz slide max_overlap nxt out'
      else Ok out)"
  by pat_completeness auto
termination
  by (relation "measure (\<lambda>(ts, sz, slide, m, start, out). nat (start - sat_i64 (ts - sz)))") auto

declare hop_loop.simps [simp del]

definition assign_hop :: "int \<Rightarrow> int \<Rightarrow> int \<Rightarrow> nat \<Rightarrow> (int \<times> int) list result" where
  "assign_hop ts sz slide max_overlap =
     rbind (hop_overlap sz slide) (\<lambda>overlap.
       if overlap > max_overlap then Err BoundExceeded
       else let last = sat_i64 ((ts div slide) * slide)
            in rbind (hop_loop ts sz slide max_overlap last []) (\<lambda>out.
                 Ok (if ts \<ge> last \<and> ts < sat_i64 (last + sz) \<and> \<not> (\<exists>w \<in> set out. fst w = last)
                     then (last, sat_i64 (last + sz)) # out else out)))"

section \<open>Aggregate functions\<close>

datatype agg_fn = AggCount | AggSum | AggAvg | AggMin | AggMax | AggFirst | AggLast | AggVarPop | AggVarSamp | AggStddevPop | AggStddevSamp

definition agg_is_extended :: "agg_fn \<Rightarrow> bool" where
  "agg_is_extended f =
     (case f of
        AggFirst \<Rightarrow> True | AggLast \<Rightarrow> True | AggVarPop \<Rightarrow> True | AggVarSamp \<Rightarrow> True
      | AggStddevPop \<Rightarrow> True | AggStddevSamp \<Rightarrow> True | _ \<Rightarrow> False)"

definition to_ascii_lowercase :: "string \<Rightarrow> string" where
  "to_ascii_lowercase = map (\<lambda>c.
     let n = (of_char c :: nat) in if 65 \<le> n \<and> n \<le> 90 then char_of (n + 32) else c)"

definition to_ascii_uppercase :: "string \<Rightarrow> string" where
  "to_ascii_uppercase = map (\<lambda>c.
     let n = (of_char c :: nat) in if 97 \<le> n \<and> n \<le> 122 then char_of (n - 32) else c)"

definition agg_parse :: "string \<Rightarrow> agg_fn result" where
  "agg_parse name =
     (let s = to_ascii_lowercase name in
      if s = ''count'' then Ok AggCount
      else if s = ''sum'' then Ok AggSum
      else if s = ''avg'' \<or> s = ''average'' \<or> s = ''mean'' then Ok AggAvg
      else if s = ''min'' then Ok AggMin
      else if s = ''max'' then Ok AggMax
      else if s = ''first'' then Ok AggFirst
      else if s = ''last'' then Ok AggLast
      else if s = ''var_pop'' then Ok AggVarPop
      else if s = ''var_samp'' then Ok AggVarSamp
      else if s = ''stddev_pop'' then Ok AggStddevPop
      else if s = ''stddev_samp'' then Ok AggStddevSamp
      else Err FeatureUnavailable)"

definition agg_as_str :: "agg_fn \<Rightarrow> string" where
  "agg_as_str f =
     (case f of
        AggCount \<Rightarrow> ''count'' | AggSum \<Rightarrow> ''sum'' | AggAvg \<Rightarrow> ''avg'' | AggMin \<Rightarrow> ''min'' | AggMax \<Rightarrow> ''max''
      | AggFirst \<Rightarrow> ''first'' | AggLast \<Rightarrow> ''last'' | AggVarPop \<Rightarrow> ''var_pop'' | AggVarSamp \<Rightarrow> ''var_samp''
      | AggStddevPop \<Rightarrow> ''stddev_pop'' | AggStddevSamp \<Rightarrow> ''stddev_samp'')"

lemma agg_parse_as_str: "agg_parse (agg_as_str f) = Ok f"
  by (cases f) (simp_all add: agg_parse_def agg_as_str_def to_ascii_lowercase_def)

section \<open>Lemmas on assignment\<close>

lemma floor_mult_bounds:
  assumes "0 < (d::int)"
  shows "(x div d) * d \<le> x" "x < (x div d) * d + d"
proof -
  have "x = (x div d) * d + x mod d" by simp
  moreover have "0 \<le> x mod d" "x mod d < d" using assms by simp_all
  ultimately show "(x div d) * d \<le> x" "x < (x div d) * d + d" by linarith+
qed

lemma div_eq_iff_interval:
  assumes "0 < (d::int)"
  shows "x div d = q \<longleftrightarrow> q * d \<le> x \<and> x < q * d + d"
proof
  assume "q * d \<le> x \<and> x < q * d + d"
  then have "x = d * q + (x - q * d)" "0 \<le> x - q * d" "x - q * d < d" by (simp_all add: mult.commute)
  then show "x div d = q" by (rule int_div_pos_eq)
next
  assume "x div d = q"
  then show "q * d \<le> x \<and> x < q * d + d" using floor_mult_bounds [OF assms, of x] by simp
qed

text \<open>Specification of the loop: the starts above \<open>ts - sz\<close>, going down by \<open>slide\<close>.\<close>

function hop_starts :: "int \<Rightarrow> int \<Rightarrow> int \<Rightarrow> int list" where
  "hop_starts bound slide start =
     (if 0 < slide \<and> bound < start then start # hop_starts bound slide (start - slide) else [])"
  by pat_completeness auto
termination
  by (relation "measure (\<lambda>(b, d, s). nat (s - b))") auto

declare hop_starts.simps [simp del]

lemma set_hop_starts:
  assumes "0 < slide"
  shows "set (hop_starts bound slide start) = {s. bound < s \<and> s \<le> start \<and> slide dvd start - s}"
  using assms
proof (induction bound slide start rule: hop_starts.induct)
  case (1 bound slide start)
  show ?case
  proof (cases "0 < slide \<and> bound < start")
    case True
    have "s \<le> start - slide \<and> slide dvd start - slide - s \<longleftrightarrow> s < start \<and> slide dvd start - s" for s
    proof -
      have "slide dvd start - slide - s \<longleftrightarrow> slide dvd start - s"
        using dvd_diff_right_iff [of slide slide "start - s"] dvd_add_right_iff [of slide slide "start - slide - s"]
        by (simp add: algebra_simps)
      moreover have "slide dvd start - s \<Longrightarrow> s < start \<Longrightarrow> s \<le> start - slide"
        using True zdvd_imp_le [of slide "start - s"] by simp
      ultimately show ?thesis using True by auto
    qed
    moreover have "set (hop_starts bound slide start)
        = insert start {s. bound < s \<and> s \<le> start - slide \<and> slide dvd start - slide - s}"
      using True "1.IH" by (simp add: hop_starts.simps [of bound slide start])
    ultimately show ?thesis using True by auto
  next
    case False
    then show ?thesis
      using "1.prems" by (auto simp: hop_starts.simps [of bound slide start])
  qed
qed

lemma length_hop_starts:
  assumes "0 < slide" "bound < start"
  shows "int (length (hop_starts bound slide start)) = (start - bound - 1) div slide + 1"
  using assms
proof (induction bound slide start rule: hop_starts.induct)
  case (1 bound slide start)
  then have un: "hop_starts bound slide start = start # hop_starts bound slide (start - slide)"
    by (simp add: hop_starts.simps [of bound slide start])
  show ?case
  proof (cases "bound < start - slide")
    case True
    then have "int (length (hop_starts bound slide (start - slide))) = (start - slide - bound - 1) div slide + 1"
      using "1.IH" "1.prems" by simp
    also have "\<dots> = (start - bound - 1) div slide"
    proof -
      have "(start - bound - 1) div slide = (start - slide - bound - 1 + 1 * slide) div slide"
        by (rule arg_cong [where f = "\<lambda>x. x div slide"]) simp
      also have "\<dots> = 1 + (start - slide - bound - 1) div slide"
        using "1.prems" by (intro div_mult_self1) simp
      finally show ?thesis by simp
    qed
    finally show ?thesis by (simp add: un)
  next
    case False
    then have "hop_starts bound slide (start - slide) = []"
      by (simp add: hop_starts.simps [of bound slide "start - slide"])
    moreover have "(start - bound - 1) div slide = 0"
      using False "1.prems" by (intro div_pos_pos_trivial) auto
    ultimately show ?thesis by (simp add: un)
  qed
qed

lemma hop_overlap_ceil:
  assumes "0 < sz" "0 < slide" "hop_overlap sz slide = Ok n"
  shows "int n = (sz - 1) div slide + 1"
proof -
  let ?q = "sz div slide" and ?r = "sz mod slide"
  have r: "0 \<le> ?r" "?r < slide" using assms by simp_all
  have "(sz - 1) div slide = (?r - 1 + ?q * slide) div slide"
    by (rule arg_cong [where f = "\<lambda>x. x div slide"]) simp
  also have "\<dots> = ?q + (?r - 1) div slide"
    using assms by (intro div_mult_self1) simp
  also have "\<dots> = (if ?r = 0 then ?q - 1 else ?q)"
    using assms r by (auto simp: div_eq_minus1 intro!: div_pos_pos_trivial)
  finally have "(sz - 1) div slide + 1 = (if ?r = 0 then ?q else ?q + 1)" by simp
  with assms show ?thesis by (auto simp: hop_overlap_def Let_def split: if_splits)
qed

lemma hop_starts_below: "start \<le> bound \<Longrightarrow> hop_starts bound slide start = []"
  by (simp add: hop_starts.simps [of bound slide start])

lemma hop_starts_sat:
  assumes "is_i64 bound" "x \<le> i64_max"
  shows "hop_starts bound slide (sat_i64 x) = hop_starts bound slide x"
proof (cases "is_i64 x")
  case False
  with assms have "x < i64_min" "sat_i64 x = i64_min" by (auto simp: mach_defs)
  with assms show ?thesis by (simp add: hop_starts_below is_i64_def)
qed simp

lemma hop_loop_eq:
  assumes "0 < slide" "is_i64 (ts - sz)" "is_i64 (ts + sz)" "0 < sz" "is_i64 start" "start \<le> ts"
    and "length out + length (hop_starts (ts - sz) slide start) \<le> max_overlap"
  shows "hop_loop ts sz slide max_overlap start out
    = Ok (out @ map (\<lambda>s. (s, s + sz)) (hop_starts (ts - sz) slide start))"
  using assms
proof (induction ts sz slide max_overlap start out rule: hop_loop.induct)
  case (1 ts sz slide max_overlap start out)
  let ?b = "ts - sz" and ?out = "out @ [(start, start + sz)]" and ?nxt = "sat_i64 (start - slide)"
  have b: "sat_i64 ?b = ?b" using "1.prems" by simp
  show ?case
  proof (cases "start > ?b")
    case False
    then show ?thesis
      by (simp add: hop_loop.simps [of ts sz slide max_overlap start out] b hop_starts_below)
  next
    case True
    have e: "sat_i64 (start + sz) = start + sz"
      using "1.prems" True by (intro sat_i64_id) (auto simp: is_i64_def)
    have un: "hop_starts ?b slide start = start # hop_starts ?b slide (start - slide)"
      using True "1.prems" by (simp add: hop_starts.simps [of ?b slide start])
    have nx: "hop_starts ?b slide ?nxt = hop_starts ?b slide (start - slide)"
      using "1.prems" by (intro hop_starts_sat) (auto simp: is_i64_def)
    have step: "hop_loop ts sz slide max_overlap start out =
        (if \<not> ?nxt < start then Ok ?out
         else if length ?out > max_overlap then Err BoundExceeded
         else hop_loop ts sz slide max_overlap ?nxt ?out)"
      using True "1.prems"(6) by (simp add: hop_loop.simps [of ts sz slide max_overlap start out] b e Let_def)
    have len: "length ?out + length (hop_starts ?b slide ?nxt) \<le> max_overlap"
      using "1.prems"(7) by (simp add: un nx)
    show ?thesis
    proof (cases "?nxt < start")
      case True
      have "hop_loop ts sz slide max_overlap ?nxt ?out
          = Ok (?out @ map (\<lambda>s. (s, s + sz)) (hop_starts ?b slide ?nxt))"
      proof (rule "1.IH")
        show "sat_i64 (ts - sz) < start" using \<open>start > ?b\<close> b by simp
        show "?out = (if start \<le> ts \<and> ts < sat_i64 (start + sz)
            then out @ [(start, sat_i64 (start + sz))] else out)"
          using \<open>start > ?b\<close> "1.prems"(6) e by simp
        show "\<not> \<not> ?nxt < start" using True by simp
        show "\<not> max_overlap < length ?out" using len by simp
      qed (use "1.prems" True len in auto)
      with step len True show ?thesis by (simp add: un nx)
    next
      case False
      then have "start - slide < i64_min" using "1.prems"(1,5)
        by (auto simp: mach_defs split: if_splits)
      then have "hop_starts ?b slide (start - slide) = []"
        using "1.prems"(2) by (intro hop_starts_below) (simp add: is_i64_def)
      with step False show ?thesis by (simp add: un)
    qed
  qed
qed

lemma hop_starts_sorted:
  "sorted_wrt (>) (hop_starts bound slide start) \<and> (\<forall>s \<in> set (hop_starts bound slide start). s \<le> start)"
proof (induction bound slide start rule: hop_starts.induct)
  case (1 bound slide start)
  then show ?case by (fastforce simp: hop_starts.simps [of bound slide start])
qed

lemma dvd_le_floor:
  assumes "0 < (d::int)" "d dvd s"
  shows "s \<le> x \<longleftrightarrow> s \<le> (x div d) * d"
proof
  assume "s \<le> x"
  then have "(s div d) * d \<le> (x div d) * d"
    using assms(1) by (intro mult_right_mono zdiv_mono1) simp_all
  then show "s \<le> (x div d) * d" using assms(2) by simp
qed (use floor_mult_bounds [OF assms(1), of x] in simp)

lemma set_hop_starts_aligned:
  assumes "0 < slide"
  shows "set (hop_starts (ts - sz) slide ((ts div slide) * slide))
    = {s. slide dvd s \<and> s \<le> ts \<and> ts < s + sz}"
proof -
  have "slide dvd (ts div slide) * slide - s \<longleftrightarrow> slide dvd s" for s
    by (metis dvd_diff_right_iff dvd_triv_right)
  moreover have "ts - sz < s \<longleftrightarrow> ts < s + sz" for s by linarith
  ultimately show ?thesis
    unfolding set_hop_starts [OF assms] using dvd_le_floor [OF assms] by blast
qed

lemma length_hop_starts_le:
  assumes "0 < sz" "0 < slide" "hop_overlap sz slide = Ok n"
  shows "length (hop_starts (ts - sz) slide ((ts div slide) * slide)) \<le> n"
proof (cases "ts - sz < (ts div slide) * slide")
  case True
  let ?last = "(ts div slide) * slide"
  have "?last \<le> ts" using floor_mult_bounds [OF assms(2)] by simp
  then have "(?last - (ts - sz) - 1) div slide + 1 \<le> (sz - 1) div slide + 1"
    using assms(2) by (simp add: zdiv_mono1)
  with length_hop_starts [OF assms(2) True] hop_overlap_ceil [OF assms]
  show ?thesis by linarith
qed (simp add: hop_starts_below)

lemma assign_hop_eq:
  assumes "0 < sz" "0 < slide" "0 \<le> ts" "ts + sz \<le> i64_max"
    and ov: "hop_overlap sz slide = Ok n" "n \<le> max_overlap"
  shows "assign_hop ts sz slide max_overlap
    = Ok (map (\<lambda>s. (s, s + sz)) (hop_starts (ts - sz) slide ((ts div slide) * slide)))"
    (is "_ = Ok ?ws")
proof -
  let ?last = "(ts div slide) * slide"
  have lo: "?last \<le> ts" using floor_mult_bounds [OF assms(2)] by simp
  have "0 \<le> ?last" using assms(2,3) by (simp add: pos_imp_zdiv_nonneg_iff)
  then have li: "is_i64 ?last" using lo assms by (simp add: is_i64_def)
  have bounds: "is_i64 (ts - sz)" "is_i64 (ts + sz)" using assms by (auto simp: is_i64_def)
  have loop: "hop_loop ts sz slide max_overlap ?last [] = Ok ?ws"
    using hop_loop_eq [OF assms(2) bounds assms(1) li lo, of "[]" max_overlap]
      length_hop_starts_le [OF assms(1,2) ov(1), of ts] ov(2) by simp
  have fin: "ts < sat_i64 (?last + sz) \<Longrightarrow> \<exists>w \<in> set ?ws. fst w = ?last"
  proof -
    assume "ts < sat_i64 (?last + sz)"
    then have "ts < ?last + sz" using assms lo by (auto simp: mach_defs split: if_splits)
    then have "?last \<in> set (hop_starts (ts - sz) slide ?last)"
      using set_hop_starts_aligned [OF assms(2)] lo by simp
    then show ?thesis by force
  qed
  have sl: "sat_i64 ?last = ?last" using li by simp
  show ?thesis
    unfolding assign_hop_def ov(1) rbind_simps Let_def sl loop using ov(2) fin by auto
qed

section \<open>Properties\<close>

text \<open>
  C31: For an event time \<open>ts\<close> and a hop that passes the overlap cap, \<open>assign_hop\<close> never
  fails and returns exactly the hopping windows \<open>[s, s + size)\<close>, \<open>s\<close> a multiple of the
  slide, that contain \<open>ts\<close>, newest first, at most \<open>ceil(size/slide)\<close> of them.
\<close>

theorem assign_hop_exact:
  assumes "0 < sz" "0 < slide" "0 \<le> ts" "ts + sz \<le> i64_max"
    and "hop_overlap sz slide = Ok n" "n \<le> max_overlap"
  shows "\<exists>ws. assign_hop ts sz slide max_overlap = Ok ws
    \<and> set ws = {(s, s + sz) | s. slide dvd s \<and> s \<le> ts \<and> ts < s + sz}
    \<and> sorted_wrt (\<lambda>v w. fst w < fst v) ws \<and> length ws \<le> n"
proof -
  let ?ss = "hop_starts (ts - sz) slide ((ts div slide) * slide)"
  have "set (map (\<lambda>s. (s, s + sz)) ?ss) = {(s, s + sz) | s. slide dvd s \<and> s \<le> ts \<and> ts < s + sz}"
    using set_hop_starts_aligned [OF assms(2)] by auto
  moreover have "sorted_wrt (\<lambda>v w. fst w < fst v) (map (\<lambda>s. (s, s + sz)) ?ss)"
    using hop_starts_sorted by (simp add: sorted_wrt_map)
  ultimately show ?thesis
    using assign_hop_eq [OF assms] length_hop_starts_le [OF assms(1,2,5), of ts] by auto
qed

theorem assign_hop_exact_witness:
  "\<exists>ws. assign_hop 8 10 5 8 = Ok ws
    \<and> set ws = {(s, s + 10) | s. 5 dvd s \<and> s \<le> 8 \<and> 8 < s + 10}
    \<and> sorted_wrt (\<lambda>v w. fst w < fst v) ws \<and> length ws \<le> 2"
  by (rule assign_hop_exact) (simp_all add: hop_overlap_def)

text \<open>
  Tumbling windows partition time: the window of a timestamp is aligned, has the
  requested size and contains the timestamp, and a second timestamp gets the same window
  exactly when it lies in it. The same window is what hopping assignment returns when the
  slide equals the size.
\<close>

theorem assign_tumble_partition:
  assumes "0 < sz" "0 \<le> now" "now + sz \<le> i64_max" "0 \<le> t" "t + sz \<le> i64_max"
    and "0 < max_overlap"
  shows "\<exists>s. assign_tumble now sz = Ok (s, s + sz) \<and> sz dvd s \<and> s \<le> now \<and> now < s + sz
    \<and> (assign_tumble t sz = Ok (s, s + sz) \<longleftrightarrow> s \<le> t \<and> t < s + sz)
    \<and> assign_hop now sz sz max_overlap = Ok [(s, s + sz)]"
proof -
  let ?s = "(now div sz) * sz"
  have tumble: "assign_tumble x sz = Ok ((x div sz) * sz, (x div sz) * sz + sz)"
    if "0 \<le> x" "x + sz \<le> i64_max" for x
  proof -
    have "0 \<le> (x div sz) * sz" using that assms(1) by (simp add: pos_imp_zdiv_nonneg_iff)
    moreover have "(x div sz) * sz \<le> x" using floor_mult_bounds [OF assms(1)] by auto
    ultimately have "is_i64 ((x div sz) * sz)" "is_i64 ((x div sz) * sz + sz)"
      using that assms(1) by (auto simp: is_i64_def)
    then show ?thesis using assms(1) by (simp add: assign_tumble_def Let_def)
  qed
  have uniq: "t div sz = now div sz \<longleftrightarrow> ?s \<le> t \<and> t < ?s + sz"
    using floor_mult_bounds [OF assms(1), of t] div_eq_iff_interval [OF assms(1)] by blast
  have ov: "hop_overlap sz sz = Ok 1" using assms(1) by (simp add: hop_overlap_def)
  have "?s \<in> set (hop_starts (now - sz) sz ?s)"
    using floor_mult_bounds [OF assms(1), of now] unfolding set_hop_starts_aligned [OF assms(1)] by auto
  with length_hop_starts_le [OF assms(1,1) ov, of now] have "hop_starts (now - sz) sz ?s = [?s]"
    by (cases "hop_starts (now - sz) sz ?s") auto
  with assign_hop_eq [OF assms(1,1,2,3) ov, of max_overlap] assms(6)
  have "assign_hop now sz sz max_overlap = Ok [(?s, ?s + sz)]" by simp
  with uniq tumble [of now] tumble [of t] floor_mult_bounds [OF assms(1), of now] assms
  show ?thesis by (intro exI [of _ ?s]) auto
qed

theorem assign_tumble_partition_witness:
  "\<exists>s. assign_tumble 1250000 1000000 = Ok (s, s + 1000000) \<and> 1000000 dvd s \<and> s \<le> 1250000
    \<and> 1250000 < s + 1000000
    \<and> (assign_tumble 1999999 1000000 = Ok (s, s + 1000000) \<longleftrightarrow> s \<le> 1999999 \<and> 1999999 < s + 1000000)
    \<and> assign_hop 1250000 1000000 1000000 8 = Ok [(s, s + 1000000)]"
  by (rule assign_tumble_partition) simp_all

text \<open>
  Over the whole \<open>i64\<close> range, with saturation, a tumbling window still covers its
  timestamp (only the timestamp \<open>i64::MAX\<close> itself can sit on the closed end), and both
  bounds are representable.
\<close>

theorem assign_tumble_saturating:
  assumes "0 < sz" "is_i64 sz" "is_i64 now"
  shows "\<exists>s e. assign_tumble now sz = Ok (s, e) \<and> is_i64 s \<and> is_i64 e \<and> s \<le> now
    \<and> (now < e \<or> now = i64_max \<and> e = i64_max)"
proof -
  let ?s = "(now div sz) * sz"
  have b: "?s \<le> now" "now < ?s + sz" using floor_mult_bounds [OF assms(1)] by auto
  have "sat_i64 ?s \<le> now" using b assms(3) by (auto simp: mach_defs)
  moreover have "now < sat_i64 (sat_i64 ?s + sz) \<or> now = i64_max \<and> sat_i64 (sat_i64 ?s + sz) = i64_max"
    using b assms by (auto simp: mach_defs)
  ultimately show ?thesis using assms(1) by (auto simp: assign_tumble_def Let_def)
qed

theorem assign_tumble_saturating_witness:
  "\<exists>s e. assign_tumble i64_min 1000 = Ok (s, e) \<and> is_i64 s \<and> is_i64 e \<and> s \<le> i64_min
    \<and> (i64_min < e \<or> i64_min = i64_max \<and> e = i64_max)"
  by (rule assign_tumble_saturating) (simp_all add: is_i64_def)

end
