(* ===== verification/Containers.thy ===== *)
theory Containers
  imports Prelude
begin

text \<open>
  The standard-library containers the runtime uses. A \<open>BTreeMap\<close> is an association list
  sorted by key, a \<open>HashMap\<close> an association list in insertion order (Rust leaves its
  iteration order open; nothing modelled depends on it), a \<open>BinaryHeap<Reverse<_>>\<close> an
  ascending list. The maps are used through the interface \<open>finite_map\<close>.
\<close>

section \<open>The map interface\<close>

locale finite_map =
  fixes get :: "'m \<Rightarrow> 'k \<Rightarrow> 'v option"
    and put :: "'k \<Rightarrow> 'v \<Rightarrow> 'm \<Rightarrow> 'm"
    and del :: "'k \<Rightarrow> 'm \<Rightarrow> 'm"
    and len :: "'m \<Rightarrow> nat"
    and invar :: "'m \<Rightarrow> bool"
  assumes get_put: "invar m \<Longrightarrow> get (put k v m) = (get m)(k \<mapsto> v)"
    and get_del: "invar m \<Longrightarrow> get (del k m) = (get m)(k := None)"
    and invar_put: "invar m \<Longrightarrow> invar (put k v m)"
    and invar_del: "invar m \<Longrightarrow> invar (del k m)"
    and finite_dom: "invar m \<Longrightarrow> finite (dom (get m))"
    and len_card: "invar m \<Longrightarrow> len m = card (dom (get m))"
begin

lemma len_put:
  assumes "invar m"
  shows "len (put k v m) = (if get m k = None then Suc (len m) else len m)"
proof -
  have "len (put k v m) = card (insert k (dom (get m)))"
    using assms by (simp add: len_card invar_put get_put)
  then show ?thesis
    using assms by (auto simp: card_insert_if finite_dom len_card domIff)
qed

lemma len_del:
  assumes "invar m"
  shows "len (del k m) = (if get m k = None then len m else len m - 1)"
proof -
  have "dom ((get m)(k := None)) = dom (get m) - {k}" by auto
  then have "len (del k m) = card (dom (get m) - {k})"
    using assms by (simp add: len_card invar_del get_del)
  then show ?thesis
    using assms by (auto simp: card_Diff_singleton_if finite_dom len_card domIff)
qed

lemma len_0_iff: "invar m \<Longrightarrow> len m = 0 \<longleftrightarrow> get m = Map.empty"
  using finite_dom len_card by auto

end

section \<open>Hash maps\<close>

type_synonym ('k, 'v) hmap = "('k \<times> 'v) list"

fun hm_put :: "'k \<Rightarrow> 'v \<Rightarrow> ('k, 'v) hmap \<Rightarrow> ('k, 'v) hmap" where
  "hm_put k v [] = [(k, v)]"
| "hm_put k v ((k', v') # m) = (if k' = k then (k', v) # m else (k', v') # hm_put k v m)"

definition hm_del :: "'k \<Rightarrow> ('k, 'v) hmap \<Rightarrow> ('k, 'v) hmap" where
  "hm_del k m = filter (\<lambda>kv. fst kv \<noteq> k) m"

definition hm_inv :: "('k, 'v) hmap \<Rightarrow> bool" where
  "hm_inv m \<longleftrightarrow> distinct (map fst m)"

lemma map_of_hm_put [simp]: "map_of (hm_put k v m) = (map_of m)(k \<mapsto> v)"
  by (induction m) auto

lemma keys_hm_put: "fst ` set (hm_put k v m) = insert k (fst ` set m)"
  by (simp flip: dom_map_of_conv_image_fst)

lemma map_of_hm_del [simp]: "map_of (hm_del k m) = (map_of m)(k := None)"
  by (induction m) (auto simp: hm_del_def)

lemma hm_inv_Nil [simp]: "hm_inv []"
  by (simp add: hm_inv_def)

lemma hm_inv_put: "hm_inv m \<Longrightarrow> hm_inv (hm_put k v m)"
  by (induction m) (auto simp: hm_inv_def keys_hm_put split: if_splits)

lemma hm_inv_del: "hm_inv m \<Longrightarrow> hm_inv (hm_del k m)"
  by (simp add: hm_inv_def hm_del_def distinct_map_filter)

lemma hm_len_card: "hm_inv m \<Longrightarrow> length m = card (dom (map_of m))"
  by (metis dom_map_of_conv_image_fst distinct_card hm_inv_def length_map list.set_map)

interpretation hm: finite_map map_of hm_put hm_del length hm_inv
  by unfold_locales (simp_all add: hm_inv_put hm_inv_del finite_dom_map_of hm_len_card)

text \<open>Totals over the values of a map.\<close>

definition hm_sum :: "('v \<Rightarrow> nat) \<Rightarrow> ('k, 'v) hmap \<Rightarrow> nat" where
  "hm_sum f m = sum_list (map (\<lambda>kv. f (snd kv)) m)"

lemma hm_sum_put:
  "hm_sum f (hm_put k v m) + (case map_of m k of None \<Rightarrow> 0 | Some x \<Rightarrow> f x) = hm_sum f m + f v"
  by (induction m) (auto simp: hm_sum_def split: option.splits)

lemma hm_sum_del:
  "hm_inv m \<Longrightarrow> hm_sum f (hm_del k m) + (case map_of m k of None \<Rightarrow> 0 | Some x \<Rightarrow> f x) = hm_sum f m"
proof (induction m)
  case (Cons kv m)
  have "k \<notin> fst ` set m \<Longrightarrow> filter (\<lambda>kv. fst kv \<noteq> k) m = m" by (auto simp: filter_id_conv)
  with Cons show ?case by (auto simp: hm_sum_def hm_del_def hm_inv_def split: option.splits)
qed (simp add: hm_sum_def hm_del_def)

lemma hm_sum_mem: "map_of m k = Some x \<Longrightarrow> f x \<le> hm_sum f m"
  by (induction m) (auto simp: hm_sum_def split: if_splits intro: trans_le_add2)

lemma set_hm_put: "kv \<in> set (hm_put k v m) \<Longrightarrow> kv = (k, v) \<or> kv \<in> set m"
  by (induction m) (auto split: if_splits)

lemma set_hm_del: "set (hm_del k m) \<subseteq> set m"
  by (auto simp: hm_del_def)

section \<open>Ordered maps\<close>

type_synonym ('k, 'v) btmap = "('k \<times> 'v) list"

fun bt_put :: "'k::linorder \<Rightarrow> 'v \<Rightarrow> ('k, 'v) btmap \<Rightarrow> ('k, 'v) btmap" where
  "bt_put k v [] = [(k, v)]"
| "bt_put k v ((k', v') # m) =
     (if k < k' then (k, v) # (k', v') # m
      else if k = k' then (k, v) # m
      else (k', v') # bt_put k v m)"

definition bt_inv :: "('k::linorder, 'v) btmap \<Rightarrow> bool" where
  "bt_inv m \<longleftrightarrow> sorted_wrt (<) (map fst m)"

lemma map_of_bt_put [simp]: "map_of (bt_put k v m) = (map_of m)(k \<mapsto> v)"
  by (induction m) auto

lemma keys_bt_put: "fst ` set (bt_put k v m) = insert k (fst ` set m)"
  by (simp flip: dom_map_of_conv_image_fst)

lemma bt_inv_Nil [simp]: "bt_inv []"
  by (simp add: bt_inv_def)

lemma bt_inv_put: "bt_inv m \<Longrightarrow> bt_inv (bt_put k v m)"
proof (induction m)
  case (Cons kv m)
  have "set (map fst (bt_put k v m)) = insert k (set (map fst m))" for m :: "('a, 'b) btmap"
    using keys_bt_put [of k v m] by simp
  with Cons show ?case by (cases kv) (auto simp: bt_inv_def)
qed (simp add: bt_inv_def)

lemma bt_inv_del: "bt_inv m \<Longrightarrow> bt_inv (hm_del k m)"
  by (simp add: bt_inv_def hm_del_def sorted_wrt_filter sorted_wrt_map)

lemma bt_inv_hm_inv: "bt_inv m \<Longrightarrow> hm_inv m"
  by (simp add: bt_inv_def hm_inv_def strict_sorted_iff)

lemma bt_sum_fresh: "k \<notin> fst ` set m \<Longrightarrow> hm_sum f (bt_put k v m) = f v + hm_sum f m"
  by (induction m) (auto simp: hm_sum_def)

lemma set_bt_put: "kv \<in> set (bt_put k v m) \<Longrightarrow> kv = (k, v) \<or> kv \<in> set m"
  by (induction m) (auto split: if_splits)

interpretation bt: finite_map map_of "bt_put :: 'k::linorder \<Rightarrow> 'v \<Rightarrow> _" hm_del length bt_inv
  by unfold_locales
    (simp_all add: bt_inv_put bt_inv_del finite_dom_map_of hm_len_card bt_inv_hm_inv)

section \<open>Priority queues\<close>

text \<open>
  \<open>BinaryHeap<Reverse<T>>\<close>: push, peek and pop of the least element. \<open>insort\<close> is the
  library's insertion into an ascending list.
\<close>

locale min_heap =
  fixes push :: "'a::linorder \<Rightarrow> 'h \<Rightarrow> 'h"
    and peek :: "'h \<Rightarrow> 'a option"
    and pop :: "'h \<Rightarrow> 'h"
    and elems :: "'h \<Rightarrow> 'a list"
    and invar :: "'h \<Rightarrow> bool"
  assumes elems_push: "invar h \<Longrightarrow> set (elems (push x h)) = insert x (set (elems h))"
    and length_push: "invar h \<Longrightarrow> length (elems (push x h)) = Suc (length (elems h))"
    and peek_None: "invar h \<Longrightarrow> peek h = None \<longleftrightarrow> elems h = []"
    and peek_Some: "invar h \<Longrightarrow> peek h = Some x \<Longrightarrow> elems h = x # elems (pop h)"
    and peek_least: "invar h \<Longrightarrow> peek h = Some x \<Longrightarrow> y \<in> set (elems h) \<Longrightarrow> x \<le> y"
    and invar_push: "invar h \<Longrightarrow> invar (push x h)"
    and invar_pop: "invar h \<Longrightarrow> invar (pop h)"
begin

lemma peek_mem: "invar h \<Longrightarrow> peek h = Some x \<Longrightarrow> x \<in> set (elems h)"
  using peek_Some by fastforce

lemma length_pop: "invar h \<Longrightarrow> peek h = Some x \<Longrightarrow> length (elems (pop h)) < length (elems h)"
  using peek_Some by fastforce

lemma exists_le_peek:
  "invar h \<Longrightarrow> y \<in> set (elems h) \<Longrightarrow> \<exists>x. peek h = Some x \<and> x \<le> y"
  using peek_None peek_least by (metis empty_iff list.set(1) option.exhaust)

end

definition heap_peek :: "'a list \<Rightarrow> 'a option" where
  "heap_peek h = (case h of [] \<Rightarrow> None | x # _ \<Rightarrow> Some x)"

interpretation heap: min_heap insort heap_peek tl "\<lambda>h. h" "sorted :: 'a::linorder list \<Rightarrow> bool"
proof unfold_locales
  fix h :: "'a list" and x y
  assume "sorted h"
  then show "set (insort x h) = insert x (set h)" by (simp add: set_insort_key)
  show "length (insort x h) = Suc (length h)" by simp
  show "heap_peek h = None \<longleftrightarrow> h = []" by (simp add: heap_peek_def split: list.splits)
  show "heap_peek h = Some x \<Longrightarrow> h = x # tl h" by (simp add: heap_peek_def split: list.splits)
  show "heap_peek h = Some x \<Longrightarrow> y \<in> set h \<Longrightarrow> x \<le> y"
    using \<open>sorted h\<close> by (auto simp: heap_peek_def split: list.splits)
  show "sorted (insort x h)" using \<open>sorted h\<close> by (rule sorted_insort [THEN iffD2])
  show "sorted (tl h)" using \<open>sorted h\<close> by (rule sorted_tl)
qed

end
