(* ===== verification/Watermark.thy ===== *)
theory Watermark
  imports Containers Scalar_Value
begin

text \<open>
  Event-time watermarks: \<^verbatim>\<open>sparrow-model/src/watermark.rs\<close> (bindings, holdback) and
  \<^verbatim>\<open>sparrow-runtime/src/watermark.rs\<close> (the per-input hub and the output holdback).
  Mutating methods return the new state with their result; an early return by error leaves
  the caller with the error only.
\<close>

section \<open>Vocabulary\<close>

datatype input_activity = Active | Idle

record watermark =
  wm_input :: nat
  wm_timestamp :: int

definition watermark_new :: "nat \<Rightarrow> int \<Rightarrow> watermark result" where
  "watermark_new input ts =
     (if ts < 0 then Err InvalidArgument else Ok \<lparr>wm_input = input, wm_timestamp = ts\<rparr>)"

record event_time_binding =
  et_field :: string
  out_of_orderness_micros :: int
  max_future_skew_micros :: "int option"

definition binding_validate :: "event_time_binding \<Rightarrow> unit result" where
  "binding_validate b =
     (if et_field b = [] then Err InvalidArgument
      else if out_of_orderness_micros b < 0 then Err InvalidArgument
      else case max_future_skew_micros b of
          Some skew \<Rightarrow> if skew < 0 then Err InvalidArgument else Ok ()
        | None \<Rightarrow> Ok ())"

definition holdback_wm_out :: "int \<Rightarrow> int \<Rightarrow> int result" where
  "holdback_wm_out wm_in lateness =
     (if lateness < 0 then Err InvalidArgument else Ok (max (sat_i64 (wm_in - lateness)) 0))"

section \<open>The hub\<close>

record input_state =
  activity :: input_activity
  input_wm :: "int option"
  max_event_time :: "int option"

definition input_state_new :: input_state where
  "input_state_new = \<lparr>activity = Active, input_wm = None, max_event_time = None\<rparr>"

record watermark_hub =
  inputs :: "(nat, input_state) btmap"
  last_effective :: "int option"
  max_inputs :: nat
  binding :: "event_time_binding option"

definition hub_with_capacity :: "nat \<Rightarrow> watermark_hub" where
  "hub_with_capacity n = \<lparr>inputs = [], last_effective = None, max_inputs = max n 1, binding = None\<rparr>"

definition hub_new :: watermark_hub where
  "hub_new = hub_with_capacity 16"

definition with_binding :: "event_time_binding \<Rightarrow> watermark_hub \<Rightarrow> watermark_hub result" where
  "with_binding b h = rbind (binding_validate b) (\<lambda>_. Ok (h\<lparr>binding := Some b\<rparr>))"

definition register :: "nat \<Rightarrow> watermark_hub \<Rightarrow> watermark_hub result" where
  "register i h =
     (if map_of (inputs h) i \<noteq> None then Ok h
      else if length (inputs h) mod 65536 \<ge> max_inputs h then Err BoundExceeded
      else Ok (h\<lparr>inputs := bt_put i input_state_new (inputs h)\<rparr>))"

definition all_idle :: "watermark_hub \<Rightarrow> bool" where
  "all_idle h \<longleftrightarrow> inputs h \<noteq> [] \<and> list_all (\<lambda>(_, s). activity s = Idle) (inputs h)"

definition any_active_uninitialized :: "watermark_hub \<Rightarrow> bool" where
  "any_active_uninitialized h \<longleftrightarrow>
     list_ex (\<lambda>(_, s). activity s = Active \<and> input_wm s = None) (inputs h)"

fun min_active :: "int option \<Rightarrow> (nat, input_state) btmap \<Rightarrow> int option" where
  "min_active acc [] = acc"
| "min_active acc ((_, s) # m) =
     (if activity s \<noteq> Active then min_active acc m
      else case input_wm s of
          None \<Rightarrow> None
        | Some w \<Rightarrow> min_active (Some (case acc of None \<Rightarrow> w | Some a \<Rightarrow> min a w)) m)"

definition effective :: "watermark_hub \<Rightarrow> int option" where
  "effective h =
     (if inputs h = [] then None
      else if all_idle h then None
      else if any_active_uninitialized h then None
      else min_active None (inputs h))"

definition progress :: "watermark_hub \<Rightarrow> int option" where
  "progress h =
     (case effective h of
        None \<Rightarrow> None
      | Some eff \<Rightarrow>
          (case last_effective h of
             Some prev \<Rightarrow> if eff < prev then Some prev else Some eff
           | None \<Rightarrow> Some eff))"

definition commit_progress :: "watermark_hub \<Rightarrow> (watermark_hub \<times> int option) result" where
  "commit_progress h =
     (case progress h of
        None \<Rightarrow> Ok (h, None)
      | Some next \<Rightarrow>
          (case last_effective h of
             Some prev \<Rightarrow>
               if next < prev then Err Internal
               else if next = prev then Ok (h, Some prev)
               else Ok (h\<lparr>last_effective := Some next\<rparr>, Some next)
           | None \<Rightarrow> Ok (h\<lparr>last_effective := Some next\<rparr>, Some next)))"

text \<open>\<open>get_mut\<close> on a registered input.\<close>

definition update_input :: "nat \<Rightarrow> (input_state \<Rightarrow> input_state) \<Rightarrow> watermark_hub \<Rightarrow> watermark_hub" where
  "update_input i f h =
     (case map_of (inputs h) i of
        None \<Rightarrow> h
      | Some s \<Rightarrow> h\<lparr>inputs := bt_put i (f s) (inputs h)\<rparr>)"

definition mark_idle :: "nat \<Rightarrow> watermark_hub \<Rightarrow> (watermark_hub \<times> int option) result" where
  "mark_idle i h =
     rbind (register i h) (\<lambda>h1. commit_progress (update_input i (\<lambda>s. s\<lparr>activity := Idle\<rparr>) h1))"

definition mark_active :: "nat \<Rightarrow> watermark_hub \<Rightarrow> (watermark_hub \<times> int option) result" where
  "mark_active i h =
     rbind (register i h) (\<lambda>h1. commit_progress (update_input i (\<lambda>s. s\<lparr>activity := Active\<rparr>) h1))"

definition raise_wm :: "int \<Rightarrow> input_state \<Rightarrow> input_state" where
  "raise_wm w s =
     (case input_wm s of
        Some prev \<Rightarrow> if w < prev then s else s\<lparr>input_wm := Some w\<rparr>
      | None \<Rightarrow> s\<lparr>input_wm := Some w\<rparr>)"

definition set_watermark :: "nat \<Rightarrow> int \<Rightarrow> watermark_hub \<Rightarrow> (watermark_hub \<times> int option) result" where
  "set_watermark i w h =
     (if w < 0 then Err InvalidArgument
      else rbind (register i h) (\<lambda>h1. commit_progress (update_input i (raise_wm w) h1)))"

definition see_event :: "int \<Rightarrow> input_state \<Rightarrow> input_state" where
  "see_event t s =
     s\<lparr>activity := Active,
       max_event_time := Some (case max_event_time s of None \<Rightarrow> t | Some m \<Rightarrow> max m t)\<rparr>"

definition observe_event ::
    "nat \<Rightarrow> int \<Rightarrow> int \<Rightarrow> watermark_hub \<Rightarrow> (watermark_hub \<times> int option) result" where
  "observe_event i t now h =
     (if t < 0 then Err InvalidArgument
      else case binding h of
        Some b \<Rightarrow>
          if (case max_future_skew_micros b of Some skew \<Rightarrow> t > sat_i64 (now + skew) | None \<Rightarrow> False)
          then Ok (h, None)
          else rbind (register i h) (\<lambda>h1.
            let h2 = update_input i (see_event t) h1;
                max_et = (case map_of (inputs h2) i of
                    Some s \<Rightarrow> (case max_event_time s of Some m \<Rightarrow> m | None \<Rightarrow> t) | None \<Rightarrow> t)
            in set_watermark i (max (sat_i64 (max_et - out_of_orderness_micros b)) 0) h2)
      | None \<Rightarrow>
          rbind (register i h) (\<lambda>h1. set_watermark i t (update_input i (see_event t) h1)))"

definition hub_snapshot :: "watermark_hub \<Rightarrow> watermark" where
  "hub_snapshot h =
     \<lparr>wm_input = 0, wm_timestamp = (case last_effective h of None \<Rightarrow> 0 | Some w \<Rightarrow> w)\<rparr>"

definition hub_input_state :: "nat \<Rightarrow> watermark_hub \<Rightarrow> (input_activity \<times> int option \<times> int option) option" where
  "hub_input_state i h =
     map_option (\<lambda>s. (activity s, input_wm s, max_event_time s)) (map_of (inputs h) i)"

definition restore_input :: "nat \<Rightarrow> input_activity \<Rightarrow> int option \<Rightarrow> int option \<Rightarrow> int option
    \<Rightarrow> watermark_hub \<Rightarrow> watermark_hub result" where
  "restore_input i act w max_et lst h =
     rbind (register i h) (\<lambda>h1.
       Ok ((update_input i (\<lambda>s. s\<lparr>activity := act, input_wm := w, max_event_time := max_et\<rparr>) h1)
             \<lparr>last_effective := lst\<rparr>))"

definition restore_effective :: "int option \<Rightarrow> watermark_hub \<Rightarrow> watermark_hub" where
  "restore_effective lst h = h\<lparr>last_effective := lst\<rparr>"

section \<open>Output holdback\<close>

record output_holdback =
  lateness_micros :: int
  hb_wm_in :: "int option"
  hb_wm_out :: "int option"

definition holdback_new :: "int \<Rightarrow> output_holdback result" where
  "holdback_new l =
     (if l < 0 then Err InvalidArgument
      else Ok \<lparr>lateness_micros = l, hb_wm_in = None, hb_wm_out = None\<rparr>)"

definition on_wm_in :: "int \<Rightarrow> output_holdback \<Rightarrow> (output_holdback \<times> int option) result" where
  "on_wm_in w h =
     (if (case hb_wm_in h of Some prev \<Rightarrow> w < prev | None \<Rightarrow> False) then Ok (h, hb_wm_out h)
      else rbind (holdback_wm_out w (lateness_micros h)) (\<lambda>proposed.
        let h1 = h\<lparr>hb_wm_in := Some w\<rparr>
        in case hb_wm_out h of
             Some out \<Rightarrow> if proposed < out then Ok (h1, Some out) else Ok (h1, Some proposed)
           | None \<Rightarrow> Ok (h1, Some proposed)))"

definition advance_out :: "int \<Rightarrow> output_holdback \<Rightarrow> output_holdback result" where
  "advance_out w h =
     rbind (case hb_wm_in h of
              None \<Rightarrow> Ok ()
            | Some inp \<Rightarrow> rbind (holdback_wm_out inp (lateness_micros h)) (\<lambda>cap.
                if w > cap then Err InvalidArgument else Ok ()))
       (\<lambda>_. if (case hb_wm_out h of Some prev \<Rightarrow> w < prev | None \<Rightarrow> False) then Err InvalidArgument
             else Ok (h\<lparr>hb_wm_out := Some w\<rparr>))"

definition holdback_restore :: "int option \<Rightarrow> int option \<Rightarrow> output_holdback \<Rightarrow> output_holdback" where
  "holdback_restore i out h = h\<lparr>hb_wm_in := i, hb_wm_out := out\<rparr>"

section \<open>The hub as a state machine\<close>

datatype hub_op =
    Register nat
  | MarkIdle nat
  | MarkActive nat
  | SetWatermark nat int
  | ObserveEvent nat int int

fun hub_apply :: "hub_op \<Rightarrow> watermark_hub \<Rightarrow> (watermark_hub \<times> int option) result" where
  "hub_apply (Register i) h = rbind (register i h) (\<lambda>h1. Ok (h1, None))"
| "hub_apply (MarkIdle i) h = mark_idle i h"
| "hub_apply (MarkActive i) h = mark_active i h"
| "hub_apply (SetWatermark i w) h = set_watermark i w h"
| "hub_apply (ObserveEvent i t now) h = observe_event i t now h"

inductive hub_step :: "watermark_hub \<Rightarrow> int option \<Rightarrow> watermark_hub \<Rightarrow> bool" where
  hub_op: "hub_apply op h = Ok (h', r) \<Longrightarrow> hub_step h r h'"

inductive hub_run :: "watermark_hub \<Rightarrow> int list \<Rightarrow> watermark_hub \<Rightarrow> bool" where
  hub_done: "hub_run h [] h"
| hub_silent: "hub_step h None h1 \<Longrightarrow> hub_run h1 ws h2 \<Longrightarrow> hub_run h ws h2"
| hub_emit: "hub_step h (Some w) h1 \<Longrightarrow> hub_run h1 ws h2 \<Longrightarrow> hub_run h (w # ws) h2"

inductive_cases hub_stepE: "hub_step h r h'"

text \<open>What a hub keeps: distinct inputs within the cap and non-negative watermarks.\<close>

definition hub_inv :: "watermark_hub \<Rightarrow> bool" where
  "hub_inv h \<longleftrightarrow>
     bt_inv (inputs h) \<and> length (inputs h) \<le> max_inputs h \<and> max_inputs h \<le> 65535 \<and>
     (\<forall>s \<in> ran (map_of (inputs h)). \<forall>w. input_wm s = Some w \<longrightarrow> 0 \<le> w) \<and>
     (\<forall>w. last_effective h = Some w \<longrightarrow> 0 \<le> w)"

text \<open>One hub is ahead of another: no watermark, per input or effective, is lower.\<close>

definition opt_le :: "int option \<Rightarrow> int option \<Rightarrow> bool" where
  "opt_le a b \<longleftrightarrow> (case a of None \<Rightarrow> True | Some x \<Rightarrow> (case b of None \<Rightarrow> False | Some y \<Rightarrow> x \<le> y))"

definition hub_le :: "watermark_hub \<Rightarrow> watermark_hub \<Rightarrow> bool" where
  "hub_le h h' \<longleftrightarrow>
     opt_le (last_effective h) (last_effective h') \<and>
     (\<forall>i s. map_of (inputs h) i = Some s \<longrightarrow>
        (\<exists>s'. map_of (inputs h') i = Some s' \<and> opt_le (input_wm s) (input_wm s')
           \<and> opt_le (max_event_time s) (max_event_time s')))"

section \<open>Lemmas on the hub\<close>

lemma opt_le_refl [simp]: "opt_le a a"
  by (simp add: opt_le_def split: option.splits)

lemma opt_le_trans: "opt_le a b \<Longrightarrow> opt_le b c \<Longrightarrow> opt_le a c"
  by (auto simp: opt_le_def split: option.splits)

lemma opt_le_simps [simp]:
  "opt_le None b" "opt_le (Some x) None = False" "opt_le (Some x) (Some y) \<longleftrightarrow> x \<le> y"
  by (simp_all add: opt_le_def)

lemma hub_le_refl: "hub_le h h"
  by (simp add: hub_le_def)

lemma hub_le_trans: "hub_le a b \<Longrightarrow> hub_le b c \<Longrightarrow> hub_le a c"
  unfolding hub_le_def by (meson opt_le_trans)

text \<open>The minimum loop returns the least watermark of the active inputs.\<close>

lemma min_active_le_acc: "min_active (Some a) m = Some w \<Longrightarrow> w \<le> a"
proof (induction m arbitrary: a)
  case (Cons p m)
  then show ?case by (cases p) (fastforce split: if_splits option.splits)
qed simp

lemma min_active_lower:
  "min_active acc m = Some w \<Longrightarrow> (i, s) \<in> set m \<Longrightarrow> activity s = Active \<Longrightarrow>
     \<exists>v. input_wm s = Some v \<and> w \<le> v"
proof (induction acc m rule: min_active.induct)
  case (2 acc j u m)
  show ?case
  proof (cases "activity u = Active")
    case True
    with "2.prems" obtain v where v: "input_wm u = Some v"
      "min_active (Some (case acc of None \<Rightarrow> v | Some a \<Rightarrow> min a v)) m = Some w"
      by (auto split: option.splits)
    have "w \<le> v" using min_active_le_acc [OF v(2)] by (auto split: option.splits)
    then show ?thesis using "2.IH"(2) [of v] "2.prems" True v by auto
  next
    case False
    with "2.prems" "2.IH"(1) show ?thesis by auto
  qed
qed auto

lemma min_active_attained:
  "min_active acc m = Some w \<Longrightarrow>
     acc = Some w \<or> (\<exists>(i, s) \<in> set m. activity s = Active \<and> input_wm s = Some w)"
proof (induction acc m rule: min_active.induct)
  case (2 acc i s m)
  then show ?case by (fastforce simp: min_def split: if_splits option.splits)
qed simp

lemma min_active_defined:
  "\<forall>(i, s) \<in> set m. activity s = Active \<longrightarrow> input_wm s \<noteq> None \<Longrightarrow>
     acc \<noteq> None \<or> (\<exists>(i, s) \<in> set m. activity s = Active) \<Longrightarrow> \<exists>w. min_active acc m = Some w"
  by (induction acc m rule: min_active.induct) (auto split: option.splits)

lemma progress_ge: "progress h = Some n \<Longrightarrow> opt_le (last_effective h) (Some n)"
  by (auto simp: progress_def split: option.splits if_splits)

lemma commit_progress_eq:
  "commit_progress h =
     Ok (case progress h of None \<Rightarrow> (h, None) | Some n \<Rightarrow> (h\<lparr>last_effective := Some n\<rparr>, Some n))"
  using progress_ge [of h]
  by (auto simp: commit_progress_def split: option.splits)

lemma register_map_of:
  "register i h = Ok h' \<Longrightarrow>
     map_of (inputs h') = (case map_of (inputs h) i of
         Some _ \<Rightarrow> map_of (inputs h) | None \<Rightarrow> (map_of (inputs h))(i \<mapsto> input_state_new))
     \<and> last_effective h' = last_effective h \<and> binding h' = binding h \<and> max_inputs h' = max_inputs h"
  by (auto simp: register_def split: if_splits option.splits)

lemma register_registered: "register i h = Ok h' \<Longrightarrow> \<exists>s. map_of (inputs h') i = Some s"
  by (auto simp: register_def split: if_splits)

lemma update_input_sel [simp]:
  "last_effective (update_input i f h) = last_effective h"
  "binding (update_input i f h) = binding h"
  "max_inputs (update_input i f h) = max_inputs h"
  by (simp_all add: update_input_def split: option.splits)

lemma map_of_update_input:
  "map_of (inputs (update_input i f h)) =
     (case map_of (inputs h) i of
        None \<Rightarrow> map_of (inputs h) | Some s \<Rightarrow> (map_of (inputs h))(i \<mapsto> f s))"
  by (simp add: update_input_def split: option.splits)

section \<open>Every operation moves forward\<close>

lemma register_le: "register i h = Ok h' \<Longrightarrow> hub_le h h'"
  by (auto simp: hub_le_def dest!: register_map_of split: option.splits if_splits)

lemma update_input_le:
  assumes "\<And>s. opt_le (input_wm s) (input_wm (f s)) \<and> opt_le (max_event_time s) (max_event_time (f s))"
  shows "hub_le h (update_input i f h)"
  using assms by (auto simp: hub_le_def map_of_update_input split: option.splits)

lemma commit_progress_le: "commit_progress h = Ok (h', r) \<Longrightarrow> hub_le h h'"
  using progress_ge [of h]
  by (auto simp: commit_progress_eq hub_le_def split: option.splits)

lemma commit_progress_emits:
  "commit_progress h = Ok (h', Some w) \<Longrightarrow> last_effective h' = Some w"
  by (auto simp: commit_progress_eq split: option.splits)

lemma raise_wm_le: "opt_le (input_wm s) (input_wm (raise_wm w s))"
  by (auto simp: raise_wm_def split: option.splits)

lemma raise_wm_max_et [simp]: "max_event_time (raise_wm w s) = max_event_time s"
  by (auto simp: raise_wm_def split: option.splits)

lemma see_event_le:
  "input_wm (see_event t s) = input_wm s" "opt_le (max_event_time s) (max_event_time (see_event t s))"
  by (auto simp: see_event_def split: option.splits)

text \<open>Register, update one input by a function that raises, publish: the shape of three operations.\<close>

definition raises :: "(input_state \<Rightarrow> input_state) \<Rightarrow> bool" where
  "raises f \<longleftrightarrow> (\<forall>s. opt_le (input_wm s) (input_wm (f s)) \<and>
     opt_le (max_event_time s) (max_event_time (f s)))"

lemma raises_intros [simp]:
  "raises (\<lambda>s. s\<lparr>activity := a\<rparr>)" "raises (raise_wm w)" "raises (see_event t)"
  by (simp_all add: raises_def raise_wm_le see_event_le)

lemma publish_le:
  assumes "register i h = Ok h1" "commit_progress (update_input i f h1) = Ok (h', r)" "raises f"
  shows "hub_le h h'"
proof -
  have "hub_le h1 (update_input i f h1)" using assms(3) by (intro update_input_le) (simp add: raises_def)
  then show ?thesis
    using register_le [OF assms(1)] commit_progress_le [OF assms(2)] by (blast intro: hub_le_trans)
qed

lemma set_watermark_le: "set_watermark i w h = Ok (h', r) \<Longrightarrow> hub_le h h'"
  by (auto simp: set_watermark_def rbind_Inr_iff split: if_splits intro: publish_le)

lemma see_then_set_le:
  assumes "register i h = Ok h1" "set_watermark i w (update_input i (see_event t) h1) = Ok (h', r)"
  shows "hub_le h h'"
proof -
  have "hub_le h1 (update_input i (see_event t) h1)" by (rule update_input_le) (simp add: see_event_le)
  then show ?thesis
    using register_le [OF assms(1)] set_watermark_le [OF assms(2)] by (blast intro: hub_le_trans)
qed

lemma observe_event_le: "observe_event i t now h = Ok (h', r) \<Longrightarrow> hub_le h h'"
  unfolding observe_event_def
  by (auto simp: rbind_Inr_iff Let_def hub_le_refl split: if_splits option.splits
      dest!: see_then_set_le)

lemma hub_apply_le: "hub_apply op h = Ok (h', r) \<Longrightarrow> hub_le h h'"
proof (cases op)
  case (Register i)
  assume "hub_apply op h = Ok (h', r)"
  with Register show ?thesis by (auto simp: rbind_Inr_iff intro: register_le)
next
  case (SetWatermark i w)
  assume "hub_apply op h = Ok (h', r)"
  with SetWatermark show ?thesis by (auto intro: set_watermark_le)
next
  case (ObserveEvent i t now)
  assume "hub_apply op h = Ok (h', r)"
  with ObserveEvent show ?thesis by (auto intro: observe_event_le)
qed (auto simp: mark_idle_def mark_active_def rbind_Inr_iff intro: publish_le)

lemma hub_apply_emits: "hub_apply op h = Ok (h', Some w) \<Longrightarrow> last_effective h' = Some w"
  by (cases op)
    (auto simp: rbind_Inr_iff mark_idle_def mark_active_def set_watermark_def observe_event_def Let_def
      split: if_splits option.splits dest: commit_progress_emits)

section \<open>The invariant\<close>

definition wm_nonneg :: "input_state \<Rightarrow> bool" where
  "wm_nonneg s \<longleftrightarrow> (\<forall>w. input_wm s = Some w \<longrightarrow> 0 \<le> w)"

lemma hub_inv_update:
  assumes "hub_inv h" "\<And>s. wm_nonneg s \<Longrightarrow> wm_nonneg (f s)"
  shows "hub_inv (update_input i f h)"
proof (cases "map_of (inputs h) i")
  case (Some s)
  have m: "inputs (update_input i f h) = bt_put i (f s) (inputs h)"
    by (simp add: update_input_def Some)
  have "length (bt_put i (f s) (inputs h)) = length (inputs h)"
    using assms(1) Some by (simp add: bt.len_put hub_inv_def)
  moreover have "s \<in> ran (map_of (inputs h))" using Some by (rule ranI)
  ultimately show ?thesis
    using assms Some unfolding hub_inv_def m wm_nonneg_def
    by (auto simp: bt_inv_put ran_def split: if_splits)
qed (use assms(1) in \<open>simp add: update_input_def\<close>)

lemma register_inv:
  assumes "hub_inv h" "register i h = Ok h'"
  shows "hub_inv h'"
proof (cases "map_of (inputs h) i")
  case None
  from assms None have h': "h' = h\<lparr>inputs := bt_put i input_state_new (inputs h)\<rparr>"
    and len: "length (inputs h) < max_inputs h"
    by (auto simp: register_def hub_inv_def split: if_splits)
  have "ran (map_of (bt_put i input_state_new (inputs h)))
      = insert input_state_new (ran (map_of (inputs h)))"
    using None by simp
  with assms(1) len None show ?thesis
    unfolding h' hub_inv_def by (simp add: bt_inv_put bt.len_put input_state_new_def)
qed (use assms in \<open>simp add: register_def\<close>)

lemma effective_nonneg:
  assumes "hub_inv h" "effective h = Some w"
  shows "0 \<le> w"
proof -
  from assms(2) have "min_active None (inputs h) = Some w"
    by (auto simp: effective_def split: if_splits)
  from min_active_attained [OF this] obtain i s where "(i, s) \<in> set (inputs h)" "input_wm s = Some w"
    by auto
  moreover have "distinct (map fst (inputs h))"
    using assms(1) bt_inv_hm_inv by (auto simp: hub_inv_def hm_inv_def)
  ultimately have "s \<in> ran (map_of (inputs h))" by (auto simp: ran_def)
  with assms(1) \<open>input_wm s = Some w\<close> show ?thesis by (auto simp: hub_inv_def)
qed

lemma commit_progress_inv:
  assumes "hub_inv h" "commit_progress h = Ok (h', r)"
  shows "hub_inv h'"
proof (cases "progress h")
  case (Some n)
  then have "0 \<le> n"
    using effective_nonneg [OF assms(1)] assms(1)
    by (auto simp: progress_def hub_inv_def split: option.splits if_splits)
  with assms Some show ?thesis by (auto simp: commit_progress_eq hub_inv_def)
qed (use assms in \<open>simp add: commit_progress_eq\<close>)

lemma publish_inv:
  assumes "hub_inv h" "register i h = Ok h1" "commit_progress (update_input i f h1) = Ok (h', r)"
    and "\<And>s. wm_nonneg s \<Longrightarrow> wm_nonneg (f s)"
  shows "hub_inv h'"
  by (rule commit_progress_inv [OF hub_inv_update [OF register_inv [OF assms(1,2)]] assms(3)])
    (rule assms(4))

lemma raise_wm_nonneg: "0 \<le> w \<Longrightarrow> wm_nonneg s \<Longrightarrow> wm_nonneg (raise_wm w s)"
  by (auto simp: raise_wm_def wm_nonneg_def split: option.splits)

lemma set_watermark_inv:
  assumes "hub_inv h" "set_watermark i w h = Ok (h', r)"
  shows "hub_inv h'"
proof -
  from assms(2) obtain h1 where "0 \<le> w" "register i h = Ok h1"
      "commit_progress (update_input i (raise_wm w) h1) = Ok (h', r)"
    by (auto simp: set_watermark_def rbind_Inr_iff split: if_splits)
  with assms(1) show ?thesis by (blast intro: publish_inv raise_wm_nonneg)
qed

lemma observe_event_inv:
  assumes "hub_inv h" "observe_event i t now h = Ok (h', r)"
  shows "hub_inv h'"
proof -
  from assms(2) consider "h' = h"
    | h1 w where "register i h = Ok h1" "set_watermark i w (update_input i (see_event t) h1) = Ok (h', r)"
    by (auto simp: observe_event_def rbind_Inr_iff Let_def split: if_splits option.splits)
  then show ?thesis
  proof cases
    case 2
    have "hub_inv (update_input i (see_event t) h1)"
      by (rule hub_inv_update [OF register_inv [OF assms(1) 2(1)]]) (simp add: wm_nonneg_def see_event_le)
    then show ?thesis using 2(2) by (rule set_watermark_inv)
  qed (simp add: assms(1))
qed

lemma hub_apply_inv:
  assumes "hub_inv h" "hub_apply op h = Ok (h', r)"
  shows "hub_inv h'"
proof (cases op)
  case (Register i)
  with assms show ?thesis by (auto simp: rbind_Inr_iff intro: register_inv)
next
  case (SetWatermark i w)
  with assms show ?thesis by (auto intro: set_watermark_inv)
next
  case (ObserveEvent i t now)
  with assms show ?thesis by (auto intro: observe_event_inv)
next
  case (MarkIdle i)
  then obtain h1 where "register i h = Ok h1"
      "commit_progress (update_input i (\<lambda>s. s\<lparr>activity := Idle\<rparr>) h1) = Ok (h', r)"
    using assms(2) by (auto simp: mark_idle_def rbind_Inr_iff)
  from publish_inv [OF assms(1) this] show ?thesis by (simp add: wm_nonneg_def)
next
  case (MarkActive i)
  then obtain h1 where "register i h = Ok h1"
      "commit_progress (update_input i (\<lambda>s. s\<lparr>activity := Active\<rparr>) h1) = Ok (h', r)"
    using assms(2) by (auto simp: mark_active_def rbind_Inr_iff)
  from publish_inv [OF assms(1) this] show ?thesis by (simp add: wm_nonneg_def)
qed


section \<open>Properties of the hub\<close>

text \<open>
  C30: Along every run of hub operations, the watermarks handed to the operator are
  non-decreasing, none is below the effective watermark the run started from or above the one
  it ends with, no per-input watermark or maximum event time is lowered, and the hub invariant
  is kept.
\<close>

theorem hub_run_monotone:
  assumes "hub_run h ws h'" "hub_inv h"
  shows "sorted ws \<and> hub_le h h' \<and> hub_inv h' \<and>
    (\<forall>w. w \<in> set ws \<longrightarrow> opt_le (last_effective h) (Some w) \<and> opt_le (Some w) (last_effective h'))"
  using assms
proof (induction rule: hub_run.induct)
  case (hub_done h)
  then show ?case by (simp add: hub_le_refl)
next
  case (hub_silent h h1 ws h2)
  from hub_silent(1) have le: "hub_le h h1" and inv: "hub_inv h1"
    using hub_silent(4) by (auto elim!: hub_stepE intro: hub_apply_le hub_apply_inv)
  have "opt_le (last_effective h) (last_effective h1)" using le by (simp add: hub_le_def)
  with hub_silent(3) [OF inv] le show ?case by (blast intro: hub_le_trans opt_le_trans)
next
  case (hub_emit h w h1 ws h2)
  from hub_emit(1) have le: "hub_le h h1" and inv: "hub_inv h1" and e: "last_effective h1 = Some w"
    using hub_emit(4) by (auto elim!: hub_stepE intro: hub_apply_le hub_apply_inv hub_apply_emits)
  note ih = hub_emit(3) [OF inv]
  have "opt_le (last_effective h) (Some w)" using le e by (simp add: hub_le_def)
  moreover have "opt_le (Some w) (last_effective h2)" using ih e by (simp add: hub_le_def)
  moreover have "sorted (w # ws)" using ih e by simp
  ultimately show ?case using ih le e by (auto intro: hub_le_trans opt_le_trans)
qed

definition demo_hub :: watermark_hub where
  "demo_hub = hub_new"

definition demo_ops :: "hub_op list" where
  "demo_ops = [Register 1, Register 2, SetWatermark 1 10, SetWatermark 2 7, MarkIdle 2, MarkActive 2]"

fun hub_exec :: "hub_op list \<Rightarrow> watermark_hub \<Rightarrow> (int list \<times> watermark_hub) option" where
  "hub_exec [] h = Some ([], h)"
| "hub_exec (op # ops) h =
     (case hub_apply op h of
        Inl _ \<Rightarrow> None
      | Inr (h1, r) \<Rightarrow> (case hub_exec ops h1 of
            None \<Rightarrow> None
          | Some (ws, h2) \<Rightarrow> Some ((case r of None \<Rightarrow> ws | Some w \<Rightarrow> w # ws), h2)))"

lemma hub_exec_run: "hub_exec ops h = Some (ws, h') \<Longrightarrow> hub_run h ws h'"
proof (induction ops arbitrary: h ws)
  case (Cons op ops)
  then obtain h1 r ws1 where st: "hub_apply op h = Ok (h1, r)" and ex: "hub_exec ops h1 = Some (ws1, h')"
    and ws: "ws = (case r of None \<Rightarrow> ws1 | Some w \<Rightarrow> w # ws1)"
    by (auto split: sum.splits option.splits)
  from hub_op [OF st] Cons.IH [OF ex] show ?case
    unfolding ws by (cases r) (auto intro: hub_run.intros)
qed (simp add: hub_done)

lemma demo_hub_run:
  "\<exists>h'. hub_exec demo_ops demo_hub = Some ([7, 10, 10], h') \<and> hub_inv demo_hub"
  by (simp add: demo_ops_def demo_hub_def hub_new_def hub_with_capacity_def hub_inv_def
      mark_idle_def mark_active_def set_watermark_def register_def update_input_def
      commit_progress_def progress_def effective_def all_idle_def any_active_uninitialized_def
      raise_wm_def input_state_new_def)

theorem hub_run_monotone_witness:
  "\<exists>h'. hub_run demo_hub [7, 10, 10] h' \<and> hub_le demo_hub h' \<and> hub_inv h' \<and> opt_le (Some 7) (last_effective h')"
proof -
  obtain h' where "hub_exec demo_ops demo_hub = Some ([7, 10, 10], h')" and inv: "hub_inv demo_hub"
    using demo_hub_run by blast
  then have run: "hub_run demo_hub [7, 10, 10] h'" by (blast intro: hub_exec_run)
  from hub_run_monotone [OF this inv] run show ?thesis by auto
qed

text \<open>The watermarks of the active inputs, and the minimum loop in terms of them.\<close>

definition active_wms :: "watermark_hub \<Rightarrow> int option set" where
  "active_wms h = {input_wm s | i s. map_of (inputs h) i = Some s \<and> activity s = Active}"

lemma active_wms_set:
  assumes "hub_inv h"
  shows "active_wms h = {input_wm s | i s. (i, s) \<in> set (inputs h) \<and> activity s = Active}"
proof -
  have "distinct (map fst (inputs h))"
    using assms bt_inv_hm_inv by (auto simp: hub_inv_def hm_inv_def)
  then show ?thesis by (simp add: active_wms_def)
qed

lemma all_idle_iff: "hub_inv h \<Longrightarrow> inputs h = [] \<or> all_idle h \<longleftrightarrow> active_wms h = {}"
  by (auto simp: all_idle_def active_wms_set list_all_iff) (metis input_activity.exhaust)+

lemma any_active_uninitialized_iff:
  "hub_inv h \<Longrightarrow> any_active_uninitialized h \<longleftrightarrow> None \<in> active_wms h"
  by (force simp: any_active_uninitialized_def active_wms_set list_ex_iff)

lemma min_active_least:
  assumes inv: "hub_inv h" and m: "min_active None (inputs h) = Some w"
  shows "Some w \<in> active_wms h \<and> (\<forall>v. Some v \<in> active_wms h \<longrightarrow> w \<le> v)"
proof -
  from min_active_attained [OF m] have "Some w \<in> active_wms h"
    unfolding active_wms_set [OF inv] by force
  moreover have "w \<le> v" if "Some v \<in> active_wms h" for v
    using that min_active_lower [OF m] unfolding active_wms_set [OF inv] by fastforce
  ultimately show ?thesis by blast
qed

lemma min_active_ex:
  assumes inv: "hub_inv h" and "active_wms h \<noteq> {}" "None \<notin> active_wms h"
  shows "\<exists>w. min_active None (inputs h) = Some w"
proof (rule min_active_defined)
  have "input_wm s \<noteq> None" if "(i, s) \<in> set (inputs h)" "activity s = Active" for i s
  proof
    assume n: "input_wm s = None"
    have "input_wm s \<in> active_wms h" unfolding active_wms_set [OF inv] using that by blast
    with n assms(3) show False by simp
  qed
  then show "\<forall>(i, s)\<in>set (inputs h). activity s = Active \<longrightarrow> input_wm s \<noteq> None" by blast
  show "(None :: int option) \<noteq> None \<or> (\<exists>(i, s)\<in>set (inputs h). activity s = Active)"
    using assms(2) unfolding active_wms_set [OF inv] by auto
qed

text \<open>
  The effective watermark is the minimum over the active inputs: it exists exactly when
  some input is active and every active input has a watermark, and then it is the least of
  those; idle inputs never hold it back.
\<close>

theorem effective_is_min:
  assumes inv: "hub_inv h"
  shows "effective h = Some w \<longleftrightarrow>
    active_wms h \<noteq> {} \<and> None \<notin> active_wms h \<and> Some w \<in> active_wms h \<and>
    (\<forall>v. Some v \<in> active_wms h \<longrightarrow> w \<le> v)"
proof (cases "active_wms h = {} \<or> None \<in> active_wms h")
  case True
  then show ?thesis
    using all_idle_iff [OF inv] any_active_uninitialized_iff [OF inv] by (auto simp: effective_def)
next
  case False
  with min_active_ex [OF inv] obtain w' where w': "min_active None (inputs h) = Some w'" by blast
  have "effective h = Some w'"
    using False all_idle_iff [OF inv] any_active_uninitialized_iff [OF inv] w' by (simp add: effective_def)
  with min_active_least [OF inv w'] False show ?thesis by (auto intro: order_antisym)
qed

definition mixed_hub :: watermark_hub where
  "mixed_hub = (hub_with_capacity 2)\<lparr>inputs :=
     [(1, \<lparr>activity = Active, input_wm = Some 9, max_event_time = None\<rparr>),
      (2, \<lparr>activity = Idle, input_wm = Some 3, max_event_time = None\<rparr>)]\<rparr>"

theorem effective_is_min_witness:
  "hub_inv mixed_hub \<and> effective mixed_hub = Some 9 \<and> None \<notin> active_wms mixed_hub \<and>
   Some 9 \<in> active_wms mixed_hub"
proof -
  have inv: "hub_inv mixed_hub"
    by (simp add: hub_inv_def mixed_hub_def hub_with_capacity_def bt_inv_def)
  have "effective mixed_hub = Some 9"
    by (simp add: effective_def mixed_hub_def all_idle_def any_active_uninitialized_def hub_with_capacity_def)
  with effective_is_min [OF inv, of 9] inv show ?thesis by blast
qed

section \<open>Watermarks generated from events\<close>

definition lagged :: "event_time_binding \<Rightarrow> int \<Rightarrow> int" where
  "lagged b m = max (sat_i64 (m - out_of_orderness_micros b)) 0"

definition lags :: "event_time_binding \<Rightarrow> input_state \<Rightarrow> bool" where
  "lags b s \<longleftrightarrow> input_wm s = map_option (lagged b) (max_event_time s)"

definition hub_lags :: "event_time_binding \<Rightarrow> watermark_hub \<Rightarrow> bool" where
  "hub_lags b h \<longleftrightarrow> binding h = Some b \<and> (\<forall>i s. map_of (inputs h) i = Some s \<longrightarrow> lags b s)"

fun is_set_watermark :: "hub_op \<Rightarrow> bool" where
  "is_set_watermark (SetWatermark i w) = True"
| "is_set_watermark _ = False"

lemma lagged_mono: "m \<le> m' \<Longrightarrow> lagged b m \<le> lagged b m'"
  unfolding lagged_def using sat_i64_mono [of "m - out_of_orderness_micros b" "m' - out_of_orderness_micros b"]
  by simp

lemma register_lags: "hub_lags b h \<Longrightarrow> register i h = Ok h' \<Longrightarrow> hub_lags b h'"
  by (auto simp: hub_lags_def lags_def input_state_new_def dest!: register_map_of split: option.splits if_splits)

lemma update_lags:
  assumes "hub_lags b h" "\<And>s. lags b s \<Longrightarrow> lags b (f s)"
  shows "hub_lags b (update_input i f h)"
  using assms by (auto simp: hub_lags_def map_of_update_input split: option.splits if_splits)

lemma commit_lags: "hub_lags b h \<Longrightarrow> commit_progress h = Ok (h', r) \<Longrightarrow> hub_lags b h'"
  by (auto simp: commit_progress_eq hub_lags_def split: option.splits)

lemma activity_lags: "lags b s \<Longrightarrow> lags b (s\<lparr>activity := a\<rparr>)"
  by (simp add: lags_def)

lemma publish_lags:
  assumes "hub_lags b h" "register i h = Ok h1" "commit_progress (update_input i (\<lambda>s. s\<lparr>activity := a\<rparr>) h1) = Ok (h', r)"
  shows "hub_lags b h'"
  by (rule commit_lags [OF update_lags [OF register_lags [OF assms(1,2)]] assms(3)]) (rule activity_lags)

lemma register_known: "map_of (inputs h) i = Some s \<Longrightarrow> register i h = Ok h"
  by (simp add: register_def)

text \<open>Seeing an event and raising the input watermark to its lag, on one input.\<close>

lemma raise_see_lags:
  assumes "lags b s"
  shows "lags b (raise_wm (lagged b (case max_event_time s of None \<Rightarrow> t | Some m \<Rightarrow> max m t)) (see_event t s))"
proof (cases "max_event_time s")
  case (Some m)
  have "lagged b m \<le> lagged b (max m t)" by (rule lagged_mono) simp
  with Some assms show ?thesis by (simp add: lags_def raise_wm_def see_event_def)
qed (use assms in \<open>simp add: lags_def raise_wm_def see_event_def\<close>)

lemma observe_event_lags:
  assumes "hub_lags b h" "observe_event i t now h = Ok (h', r)"
  shows "hub_lags b h'"
proof (cases "h' = h")
  case False
  let ?met = "\<lambda>s. case max_event_time s of None \<Rightarrow> t | Some m \<Rightarrow> max m t"
  have b: "binding h = Some b" using assms(1) by (simp add: hub_lags_def)
  from assms(2) False b obtain h1 where reg: "register i h = Ok h1" and
    body: "(let h2 = update_input i (see_event t) h1;
        max_et = (case map_of (inputs h2) i of
            Some s \<Rightarrow> (case max_event_time s of Some m \<Rightarrow> m | None \<Rightarrow> t) | None \<Rightarrow> t)
      in set_watermark i (max (sat_i64 (max_et - out_of_orderness_micros b)) 0) h2) = Ok (h', r)"
    by (auto simp: observe_event_def rbind_Inr_iff split: if_splits option.splits)
  from register_registered [OF reg] obtain s where s: "map_of (inputs h1) i = Some s" ..
  let ?h2 = "update_input i (see_event t) h1"
  have s2: "map_of (inputs ?h2) i = Some (see_event t s)" by (simp add: map_of_update_input s)
  have "set_watermark i (lagged b (?met s)) ?h2 = Ok (h', r)"
    using body unfolding Let_def s2 by (simp add: lagged_def see_event_def)
  then have c: "commit_progress (update_input i (raise_wm (lagged b (?met s))) ?h2) = Ok (h', r)"
    by (simp add: set_watermark_def register_known [OF s2] split: if_splits)
  have "lags b s" using register_lags [OF assms(1) reg] s by (simp add: hub_lags_def)
  then have "lags b (raise_wm (lagged b (?met s)) (see_event t s))" by (rule raise_see_lags)
  then have "hub_lags b (update_input i (raise_wm (lagged b (?met s))) ?h2)"
    using register_lags [OF assms(1) reg] s
    by (auto simp: hub_lags_def map_of_update_input split: if_splits)
  with c show ?thesis by (rule commit_lags [rotated])
qed (simp add: assms(1))

lemma hub_apply_lags:
  assumes "hub_lags b h" "hub_apply op h = Ok (h', r)" "\<not> is_set_watermark op"
  shows "hub_lags b h'"
  using assms by (cases op)
    (auto simp: rbind_Inr_iff mark_idle_def mark_active_def intro: register_lags observe_event_lags publish_lags)

lemma hub_exec_lags:
  "hub_lags b h \<Longrightarrow> hub_exec ops h = Some (ws, h') \<Longrightarrow> list_all (\<lambda>op. \<not> is_set_watermark op) ops \<Longrightarrow>
     hub_lags b h'"
proof (induction ops arbitrary: h ws)
  case (Cons op ops)
  then obtain h1 r ws1 where "hub_apply op h = Ok (h1, r)" "hub_exec ops h1 = Some (ws1, h')"
    by (auto split: sum.splits option.splits)
  with Cons show ?case by (auto intro: hub_apply_lags)
qed simp

text \<open>
  When a hub with an event-time binding is driven by events only, every input's watermark
  is exactly its maximum event time less the configured out-of-orderness (saturated, never
  below zero), so an event at most that far behind the newest one is never behind the watermark.
\<close>

theorem observed_watermark_lags:
  assumes "with_binding b (hub_with_capacity n) = Ok h" "hub_exec ops h = Some (ws, h')"
    and "list_all (\<lambda>op. \<not> is_set_watermark op) ops" "map_of (inputs h') i = Some s"
  shows "input_wm s = map_option (lagged b) (max_event_time s) \<and>
    (\<forall>m t w. max_event_time s = Some m \<longrightarrow> input_wm s = Some w \<longrightarrow> is_i64 m \<longrightarrow> 0 \<le> m \<longrightarrow> 0 \<le> t \<longrightarrow>
       is_i64 (out_of_orderness_micros b) \<longrightarrow> m - out_of_orderness_micros b \<le> t \<longrightarrow> w \<le> t)"
proof -
  have "hub_lags b h" using assms(1) by (auto simp: with_binding_def rbind_Inr_iff hub_lags_def hub_with_capacity_def)
  from hub_exec_lags [OF this assms(2,3)] assms(4) have "lags b s" by (simp add: hub_lags_def)
  then show ?thesis by (auto simp: lags_def lagged_def mach_defs)
qed

definition demo_binding :: event_time_binding where
  "demo_binding = \<lparr>et_field = ''ts'', out_of_orderness_micros = 5, max_future_skew_micros = Some 100\<rparr>"

theorem observed_watermark_lags_witness:
  "\<exists>h h' s. with_binding demo_binding (hub_with_capacity 4) = Ok h \<and>
     hub_exec [ObserveEvent 1 20 0, ObserveEvent 1 17 0, ObserveEvent 1 900 0] h = Some ([15, 15], h') \<and>
     map_of (inputs h') 1 = Some s \<and> max_event_time s = Some 20 \<and> input_wm s = Some 15"
proof -
  let ?h = "(hub_with_capacity 4)\<lparr>binding := Some demo_binding\<rparr>"
  let ?s = "\<lparr>activity = Active, input_wm = Some 15, max_event_time = Some 20\<rparr>"
  have b: "with_binding demo_binding (hub_with_capacity 4) = Ok ?h"
    by (simp add: with_binding_def binding_validate_def demo_binding_def)
  have e: "hub_exec [ObserveEvent 1 20 0, ObserveEvent 1 17 0, ObserveEvent 1 900 0] ?h
      = Some ([15, 15], ?h\<lparr>inputs := [(1, ?s)], last_effective := Some 15\<rparr>)"
    by (simp add: observe_event_def hub_with_capacity_def demo_binding_def set_watermark_def register_def
        update_input_def commit_progress_def progress_def effective_def all_idle_def
        any_active_uninitialized_def raise_wm_def see_event_def input_state_new_def mach_defs Let_def)
  from observed_watermark_lags [OF b e, of 1 ?s] b e show ?thesis by auto
qed

section \<open>Which calls fail\<close>

fun op_input :: "hub_op \<Rightarrow> nat" where
  "op_input (Register i) = i"
| "op_input (MarkIdle i) = i"
| "op_input (MarkActive i) = i"
| "op_input (SetWatermark i w) = i"
| "op_input (ObserveEvent i t now) = i"

fun op_timestamp :: "hub_op \<Rightarrow> int option" where
  "op_timestamp (SetWatermark i w) = Some w"
| "op_timestamp (ObserveEvent i t now) = Some t"
| "op_timestamp _ = None"

fun dropped_as_future :: "hub_op \<Rightarrow> watermark_hub \<Rightarrow> bool" where
  "dropped_as_future (ObserveEvent i t now) h =
     (case binding h of
        Some b \<Rightarrow> (case max_future_skew_micros b of Some skew \<Rightarrow> t > sat_i64 (now + skew) | None \<Rightarrow> False)
      | None \<Rightarrow> False)"
| "dropped_as_future _ h = False"

lemma commit_progress_total: "commit_progress h \<noteq> Inl e"
  by (simp add: commit_progress_eq)

lemma set_watermark_registered:
  assumes "register i h = Ok h1" "0 \<le> w"
  shows "set_watermark i w (update_input i f h1) \<noteq> Inl e"
proof -
  from register_registered [OF assms(1)] obtain s where "map_of (inputs h1) i = Some s" ..
  then have "register i (update_input i f h1) = Ok (update_input i f h1)"
    by (intro register_known [of _ _ "f s"]) (simp add: map_of_update_input)
  with assms(2) show ?thesis by (simp add: set_watermark_def commit_progress_total)
qed

lemma observe_event_Inl_iff:
  assumes "0 \<le> t"
  shows "observe_event i t now h = Inl e \<longleftrightarrow>
    \<not> dropped_as_future (ObserveEvent i t now) h \<and> register i h = Inl e"
proof -
  have body: "rbind (register i h) (\<lambda>h1. set_watermark i (g h1) (update_input i (see_event t) h1)) = Inl e
      \<longleftrightarrow> register i h = Inl e" if "\<And>h1. 0 \<le> g h1" for g
    using that by (auto simp: rbind_Inl_iff set_watermark_registered)
  show ?thesis
    using assms unfolding observe_event_def Let_def
    by (cases "binding h") (simp_all add: body)
qed

text \<open>
  C39: A hub operation fails in two ways only: a negative timestamp is an invalid argument, and
  a new input beyond the cap exceeds the bound, unless the event is dropped as too far in the
  future first. The internal error of a regressing watermark is unreachable.
\<close>

theorem hub_apply_errors:
  assumes "hub_inv h"
  shows "hub_apply op h = Inl e \<longleftrightarrow>
    (if \<exists>t. op_timestamp op = Some t \<and> t < 0 then e = new_error InvalidArgument
     else e = new_error BoundExceeded \<and> \<not> dropped_as_future op h \<and>
       map_of (inputs h) (op_input op) = None \<and> length (inputs h) = max_inputs h)"
proof -
  have reg: "register i h = Inl e \<longleftrightarrow>
      e = new_error BoundExceeded \<and> map_of (inputs h) i = None \<and> length (inputs h) = max_inputs h" for i
    using assms by (auto simp: register_def hub_inv_def)
  have obs: "t < 0 \<Longrightarrow> observe_event i t now h = Err InvalidArgument" for i t now
    by (simp add: observe_event_def)
  show ?thesis
    by (cases op) (auto simp: rbind_Inl_iff mark_idle_def mark_active_def set_watermark_def commit_progress_total
        reg obs observe_event_Inl_iff not_less)
qed

theorem hub_apply_errors_witness:
  "hub_apply (Register 3) mixed_hub = Err BoundExceeded \<and> hub_apply (SetWatermark 1 (- 1)) mixed_hub = Err InvalidArgument"
proof -
  have inv: "hub_inv mixed_hub"
    by (simp add: hub_inv_def mixed_hub_def hub_with_capacity_def bt_inv_def)
  have m: "map_of (inputs mixed_hub) 3 = None" "length (inputs mixed_hub) = max_inputs mixed_hub"
    by (simp_all add: mixed_hub_def hub_with_capacity_def)
  show ?thesis
    using hub_apply_errors [OF inv, of "Register 3" "new_error BoundExceeded"]
      hub_apply_errors [OF inv, of "SetWatermark 1 (- 1)" "new_error InvalidArgument"] m by simp
qed

section \<open>The output holdback\<close>

text \<open>
  The output watermark trails the input one by the lateness. An operator calls \<open>on_wm_in\<close> and,
  once the results below the proposal are out, \<open>advance_out\<close> with it.
\<close>

definition holdback_inv :: "output_holdback \<Rightarrow> bool" where
  "holdback_inv h \<longleftrightarrow> 0 \<le> lateness_micros h \<and>
     (\<forall>out. hb_wm_out h = Some out \<longrightarrow>
        (\<exists>inp. hb_wm_in h = Some inp \<and> out \<le> max (sat_i64 (inp - lateness_micros h)) 0))"

definition holdback_step :: "int \<Rightarrow> output_holdback \<Rightarrow> output_holdback result" where
  "holdback_step w h =
     rbind (on_wm_in w h) (\<lambda>(h1, p). case p of None \<Rightarrow> Ok h1 | Some out \<Rightarrow> advance_out out h1)"

fun holdback_steps :: "int list \<Rightarrow> output_holdback \<Rightarrow> output_holdback result" where
  "holdback_steps [] h = Ok h"
| "holdback_steps (w # ws) h = rbind (holdback_step w h) (holdback_steps ws)"

lemma holdback_cap_mono:
  "a \<le> b \<Longrightarrow> max (sat_i64 (a - l)) 0 \<le> max (sat_i64 (b - l)) 0"
  using sat_i64_mono [of "a - l" "b - l"] by simp

lemma holdback_step_ok:
  assumes "holdback_inv h"
  shows "\<exists>h'. holdback_step w h = Ok h' \<and> holdback_inv h' \<and> lateness_micros h' = lateness_micros h \<and>
    opt_le (hb_wm_out h) (hb_wm_out h') \<and> opt_le (hb_wm_in h) (hb_wm_in h') \<and>
    hb_wm_in h' = Some (case hb_wm_in h of None \<Rightarrow> w | Some v \<Rightarrow> max v w)"
proof (cases "hb_wm_in h")
  case None
  with assms show ?thesis
    by (auto simp: holdback_step_def on_wm_in_def advance_out_def holdback_wm_out_def holdback_inv_def
        split: option.splits)
next
  case (Some v)
  have "v \<le> w \<Longrightarrow> max (sat_i64 (v - lateness_micros h)) 0 \<le> max (sat_i64 (w - lateness_micros h)) 0"
    by (rule holdback_cap_mono)
  with assms Some show ?thesis
    by (cases "hb_wm_out h"; cases "w < v")
      (auto simp: holdback_step_def on_wm_in_def advance_out_def holdback_wm_out_def holdback_inv_def
        max_def split: if_splits)
qed

lemma holdback_steps_ok:
  "holdback_inv h \<Longrightarrow> \<exists>h'. holdback_steps ws h = Ok h' \<and> holdback_inv h' \<and>
     lateness_micros h' = lateness_micros h \<and> opt_le (hb_wm_out h) (hb_wm_out h') \<and>
     (ws \<noteq> [] \<or> hb_wm_in h \<noteq> None \<longrightarrow> hb_wm_in h' = Some (fold max ws (case hb_wm_in h of None \<Rightarrow> hd ws | Some v \<Rightarrow> v)))"
proof (induction ws arbitrary: h)
  case (Cons w ws)
  from holdback_step_ok [OF Cons.prems, of w] obtain h1 where h1: "holdback_step w h = Ok h1" "holdback_inv h1"
    "lateness_micros h1 = lateness_micros h" "opt_le (hb_wm_out h) (hb_wm_out h1)"
    "hb_wm_in h1 = Some (case hb_wm_in h of None \<Rightarrow> w | Some v \<Rightarrow> max v w)" by blast
  from Cons.IH [OF h1(2)] h1 show ?case
    by (auto simp: max.commute split: option.splits intro: opt_le_trans)
qed auto

text \<open>
  An operator that answers every input watermark by advancing its output to the proposed
  value is never refused; the output only moves forward and stays at or below the greatest
  input watermark less the lateness (never below zero).
\<close>

theorem holdback_never_stuck:
  assumes "holdback_new l = Ok h" "ws \<noteq> []"
  shows "\<exists>h'. holdback_steps ws h = Ok h' \<and> hb_wm_in h' = Some (Max (set ws)) \<and>
    (\<forall>out. hb_wm_out h' = Some out \<longrightarrow> out \<le> max (sat_i64 (Max (set ws) - l)) 0) \<and>
    (\<forall>more h2. holdback_steps more h' = Ok h2 \<longrightarrow> opt_le (hb_wm_out h') (hb_wm_out h2))"
proof -
  from assms(1) have inv: "holdback_inv h" and h: "lateness_micros h = l" "hb_wm_in h = None"
    by (auto simp: holdback_new_def holdback_inv_def split: if_splits)
  from holdback_steps_ok [OF inv, of ws] assms(2) h obtain h' where h': "holdback_steps ws h = Ok h'"
    "holdback_inv h'" "lateness_micros h' = l" "hb_wm_in h' = Some (fold max ws (hd ws))" by auto
  have "fold max ws (hd ws) = Max (set ws)"
    using assms(2) by (cases ws) (simp_all add: Max.set_eq_fold [simplified])
  moreover have "opt_le (hb_wm_out h') (hb_wm_out h2)" if "holdback_steps more h' = Ok h2" for more h2
    using holdback_steps_ok [OF h'(2), of more] that by auto
  ultimately show ?thesis using h' by (auto simp: holdback_inv_def)
qed

theorem holdback_never_stuck_witness:
  "\<exists>h h'. holdback_new 10 = Ok h \<and> holdback_steps [5, 30, 20] h = Ok h' \<and> hb_wm_in h' = Some (Max {5, 30, 20 :: int})"
proof -
  obtain h where h: "holdback_new 10 = Ok h" by (simp add: holdback_new_def)
  from holdback_never_stuck [OF h, of "[5, 30, 20]"] h show ?thesis by auto
qed

end
