(* ===== verification/Memory.thy ===== *)
theory Memory
  imports Containers
begin

text \<open>
  Tracked memory: the credit vocabulary of \<^verbatim>\<open>sparrow-model/src/resource.rs\<close> and the
  owner tree and leases of \<^verbatim>\<open>sparrow-model/src/memory.rs\<close>. The immutable fields of an
  owner (budget, parent) are a datatype, its atomic counters a record in a store indexed by
  the owner's identity; an allocation carries its parent lease as the code does. Every
  operation runs under the owner's lock, so it is one atomic step; dropping a handle takes no
  lock but only subtracts.
\<close>

section \<open>Credits and budgets\<close>

datatype credit_kind = Reservation | Retention | Queue

fun credit_as_str :: "credit_kind \<Rightarrow> string" where
  "credit_as_str Reservation = ''reservation''"
| "credit_as_str Retention = ''retention''"
| "credit_as_str Queue = ''queue''"

record resource_budget =
  reservation_bytes :: nat
  retention_bytes :: nat
  queue_bytes :: nat
  max_rows :: nat
  work_units :: nat
  max_state_keys :: nat
  max_timers :: nat

definition budget_compact :: resource_budget where
  "budget_compact = \<lparr>reservation_bytes = 4 * 1024 * 1024, retention_bytes = 4 * 1024 * 1024,
     queue_bytes = 2 * 1024 * 1024, max_rows = 256, work_units = 50000,
     max_state_keys = 1024, max_timers = 2048\<rparr>"

definition budget_performance :: resource_budget where
  "budget_performance = \<lparr>reservation_bytes = 64 * 1024 * 1024, retention_bytes = 64 * 1024 * 1024,
     queue_bytes = 32 * 1024 * 1024, max_rows = 4096, work_units = 2000000,
     max_state_keys = 16384, max_timers = 32768\<rparr>"

fun cap :: "resource_budget \<Rightarrow> credit_kind \<Rightarrow> nat" where
  "cap b Reservation = reservation_bytes b"
| "cap b Retention = retention_bytes b"
| "cap b Queue = queue_bytes b"

section \<open>Owners, leases and their counters\<close>

datatype memory_owner =
  MemoryOwner (owner_id: nat) (owner_budget: resource_budget) (owner_parent: "memory_owner option")

record counters =
  c_next_id :: nat
  c_reservation :: nat
  c_retention :: nat
  c_queue :: nat
  c_physical :: nat
  c_peak_physical :: nat
  c_live_handles :: nat
  c_peak_builder :: nat
  c_accounting_errors :: nat

definition counters_new :: counters where
  "counters_new = \<lparr>c_next_id = 1, c_reservation = 0, c_retention = 0, c_queue = 0, c_physical = 0,
     c_peak_physical = 0, c_live_handles = 0, c_peak_builder = 0, c_accounting_errors = 0\<rparr>"

datatype memory_lease =
  MemoryLease (lease_owner: memory_owner) (lease_alloc: alloc_inner)
and alloc_inner =
  AllocInner (alloc_id: nat) (alloc_bytes: nat) (alloc_kind: credit_kind) (alloc_handles: nat)
    (parent_lease: "memory_lease option")

type_synonym store = "nat \<Rightarrow> counters"

fun ledger :: "credit_kind \<Rightarrow> counters \<Rightarrow> nat" where
  "ledger Reservation c = c_reservation c"
| "ledger Retention c = c_retention c"
| "ledger Queue c = c_queue c"

fun ledger_update :: "credit_kind \<Rightarrow> (nat \<Rightarrow> nat) \<Rightarrow> counters \<Rightarrow> counters" where
  "ledger_update Reservation f c = c_reservation_update f c"
| "ledger_update Retention f c = c_retention_update f c"
| "ledger_update Queue f c = c_queue_update f c"

text \<open>An owner and its ancestors, each charged by every lease.\<close>

fun lineage :: "memory_owner \<Rightarrow> memory_owner list" where
  "lineage (MemoryOwner i b p) =
     MemoryOwner i b p # (case p of None \<Rightarrow> [] | Some q \<Rightarrow> lineage q)"

definition chain :: "memory_owner \<Rightarrow> nat list" where
  "chain ow = map owner_id (lineage ow)"

text \<open>Drawing and refunding bytes on one owner.\<close>

definition draw :: "credit_kind \<Rightarrow> nat \<Rightarrow> counters \<Rightarrow> counters" where
  "draw k n c =
     (let c1 = ledger_update k (\<lambda>u. wadd u n) c;
          phys = wadd (c_physical c1) n
      in c1\<lparr>c_physical := phys, c_peak_physical := max (c_peak_physical c1) phys\<rparr>)"

definition refund :: "credit_kind \<Rightarrow> nat \<Rightarrow> counters \<Rightarrow> counters" where
  "refund k n c = (ledger_update k (\<lambda>u. wsub u n) c)\<lparr>c_physical := wsub (c_physical c) n\<rparr>"

definition ensure_headroom :: "credit_kind \<Rightarrow> nat \<Rightarrow> memory_owner \<Rightarrow> store \<Rightarrow> unit result" where
  "ensure_headroom k n ow st =
     (if n = 0 then Ok ()
      else if sat_u64 (ledger k (st (owner_id ow)) + n) > cap (owner_budget ow) k
        then Inl (with_retryable True (new_error ResourceExhausted))
      else Ok ())"

definition note_builder_peak :: "nat \<Rightarrow> memory_owner \<Rightarrow> store \<Rightarrow> store" where
  "note_builder_peak n ow st =
     st(owner_id ow := (st (owner_id ow))\<lparr>c_peak_builder := max (c_peak_builder (st (owner_id ow))) n\<rparr>)"

definition new_handle :: "counters \<Rightarrow> counters" where
  "new_handle c = c\<lparr>c_live_handles := wadd (c_live_handles c) 1, c_next_id := wadd (c_next_id c) 1\<rparr>"

definition own_acquire ::
    "credit_kind \<Rightarrow> nat \<Rightarrow> memory_owner \<Rightarrow> memory_lease option \<Rightarrow> store \<Rightarrow> store \<times> memory_lease" where
  "own_acquire k n ow pl st =
     (let i = owner_id ow; c = st i
      in (st(i := new_handle (draw k n c)), MemoryLease ow (AllocInner (c_next_id c) n k 1 pl)))"

fun acquire :: "credit_kind \<Rightarrow> nat \<Rightarrow> memory_owner \<Rightarrow> store \<Rightarrow> (store \<times> memory_lease) result" where
  "acquire k n (MemoryOwner i b p) st =
     (if n = 0 then Err InvalidArgument
      else if sat_u64 (ledger k (st i) + n) > cap b k
        then Inl (with_retryable True (new_error ResourceExhausted))
      else case p of
          None \<Rightarrow> Ok (own_acquire k n (MemoryOwner i b p) None st)
        | Some ow \<Rightarrow> rbind (acquire k n ow st)
            (\<lambda>(st1, pl). Ok (own_acquire k n (MemoryOwner i b p) (Some pl) st1)))"

fun share :: "memory_lease \<Rightarrow> store \<Rightarrow> store \<times> memory_lease" where
  "share (MemoryLease ow (AllocInner ident n k h pl)) st =
     (let i = owner_id ow
      in (st(i := (st i)\<lparr>c_live_handles := wadd (c_live_handles (st i)) 1\<rparr>),
          MemoryLease ow (AllocInner ident n k (wadd h 1) pl)))"

text \<open>\<open>Arc::get_mut\<close> succeeds on an allocation with a single handle.\<close>

fun grow_to :: "nat \<Rightarrow> memory_lease \<Rightarrow> store \<Rightarrow> (store \<times> memory_lease) result" where
  "grow_to n (MemoryLease ow (AllocInner ident old k h pl)) st =
     (if n \<le> old then Ok (st, MemoryLease ow (AllocInner ident old k h pl))
      else if h \<noteq> 1 then Err Internal
      else if sat_u64 (ledger k (st (owner_id ow)) + (n - old)) > cap (owner_budget ow) k
        then Inl (with_retryable True (new_error ResourceExhausted))
      else rbind (case pl of
            None \<Rightarrow> Ok (st, None)
          | Some l \<Rightarrow> rbind (grow_to n l st) (\<lambda>(st1, l1). Ok (st1, Some l1)))
        (\<lambda>(st1, pl1). Ok (st1(owner_id ow := draw k (n - old) (st1 (owner_id ow))),
           MemoryLease ow (AllocInner ident n k h pl1))))"

fun shrink_to :: "nat \<Rightarrow> memory_lease \<Rightarrow> store \<Rightarrow> (store \<times> memory_lease) result" where
  "shrink_to n (MemoryLease ow (AllocInner ident old k h pl)) st =
     (if old \<le> n then Ok (st, MemoryLease ow (AllocInner ident old k h pl))
      else if h \<noteq> 1 then Err Internal
      else rbind (case pl of
            None \<Rightarrow> Ok (st, None)
          | Some l \<Rightarrow> rbind (shrink_to n l st) (\<lambda>(st1, l1). Ok (st1, Some l1)))
        (\<lambda>(st1, pl1). Ok (st1(owner_id ow := refund k (old - n) (st1 (owner_id ow))),
           MemoryLease ow (AllocInner ident n k h pl1))))"

definition detach :: "credit_kind \<Rightarrow> memory_lease \<Rightarrow> store \<Rightarrow> (store \<times> memory_lease) result" where
  "detach k l st = acquire k (alloc_bytes (lease_alloc l)) (lease_owner l) st"

text \<open>
  Dropping a handle; with the last one the allocation goes, and with it the parent lease.
  The result is the allocation that stays alive, if any.
\<close>

fun drop_lease :: "memory_lease \<Rightarrow> store \<Rightarrow> store \<times> memory_lease option" where
  "drop_lease (MemoryLease ow (AllocInner ident n k h pl)) st =
     (let i = owner_id ow;
          st1 = st(i := (st i)\<lparr>c_live_handles := wsub (c_live_handles (st i)) 1\<rparr>)
      in if h = 1 then
           (let st2 = st1(i := refund k n (st1 i))
            in (case pl of None \<Rightarrow> st2 | Some l \<Rightarrow> fst (drop_lease l st2), None))
         else (st1, Some (MemoryLease ow (AllocInner ident n k (wsub h 1) pl))))"

fun record_accounting_error :: "memory_owner \<Rightarrow> store \<Rightarrow> store" where
  "record_accounting_error (MemoryOwner i b p) st =
     (let st1 = st(i := (st i)\<lparr>c_accounting_errors := wadd (c_accounting_errors (st i)) 1\<rparr>)
      in case p of None \<Rightarrow> st1 | Some ow \<Rightarrow> record_accounting_error ow st1)"

text \<open>\<open>None\<close> is the panic.\<close>

definition replace_accounted_bytes ::
    "nat \<Rightarrow> nat \<Rightarrow> nat \<Rightarrow> memory_owner \<Rightarrow> store \<Rightarrow> store \<times> nat option" where
  "replace_accounted_bytes tot old nw ow st =
     (case Option.bind (if old \<le> tot then Some (tot - old) else None)
             (\<lambda>m. if m + nw \<le> u64_max then Some (m + nw) else None) of
        Some v \<Rightarrow> (st, Some v)
      | None \<Rightarrow> (record_accounting_error ow st, None))"

section \<open>The owner tree as a state machine\<close>

record mem =
  mem_owners :: "memory_owner list"
  mem_store :: store
  mem_live :: "memory_lease list"

definition owner_new :: "resource_budget \<Rightarrow> memory_owner option \<Rightarrow> mem \<Rightarrow> mem" where
  "owner_new b p m =
     (let i = length (mem_owners m)
      in m\<lparr>mem_owners := mem_owners m @ [MemoryOwner i b p], mem_store := (mem_store m)(i := counters_new)\<rparr>)"

definition mem_empty :: mem where
  "mem_empty = \<lparr>mem_owners = [], mem_store = (\<lambda>_. counters_new), mem_live = []\<rparr>"

text \<open>
  Budgets whose caps cannot be reached by wrapping (both profiles qualify). \<open>Arc::clone\<close>
  aborts before a handle count overflows, which is the guard of sharing.
\<close>

definition budget_ok :: "resource_budget \<Rightarrow> bool" where
  "budget_ok b \<longleftrightarrow> reservation_bytes b + retention_bytes b + queue_bytes b < u64_max"

inductive mem_step :: "mem \<Rightarrow> mem \<Rightarrow> bool" where
  m_new: "budget_ok b \<Longrightarrow> mem_step m (owner_new b None m)"
| m_child: "budget_ok b \<Longrightarrow> p \<in> set (mem_owners m) \<Longrightarrow> mem_step m (owner_new b (Some p) m)"
| m_acquire: "ow \<in> set (mem_owners m) \<Longrightarrow> acquire k n ow (mem_store m) = Ok (st, l) \<Longrightarrow>
    mem_step m (m\<lparr>mem_store := st, mem_live := mem_live m @ [l]\<rparr>)"
| m_share: "mem_live m = xs @ l # ys \<Longrightarrow> alloc_handles (lease_alloc l) < u64_max \<Longrightarrow>
    share l (mem_store m) = (st, l') \<Longrightarrow>
    mem_step m (m\<lparr>mem_store := st, mem_live := xs @ l' # ys\<rparr>)"
| m_grow: "mem_live m = xs @ l # ys \<Longrightarrow> grow_to n l (mem_store m) = Ok (st, l') \<Longrightarrow>
    mem_step m (m\<lparr>mem_store := st, mem_live := xs @ l' # ys\<rparr>)"
| m_shrink: "mem_live m = xs @ l # ys \<Longrightarrow> shrink_to n l (mem_store m) = Ok (st, l') \<Longrightarrow>
    mem_step m (m\<lparr>mem_store := st, mem_live := xs @ l' # ys\<rparr>)"
| m_detach: "l \<in> set (mem_live m) \<Longrightarrow> detach k l (mem_store m) = Ok (st, l') \<Longrightarrow>
    mem_step m (m\<lparr>mem_store := st, mem_live := mem_live m @ [l']\<rparr>)"
| m_drop: "mem_live m = xs @ l # ys \<Longrightarrow> drop_lease l (mem_store m) = (st, r) \<Longrightarrow>
    mem_step m (m\<lparr>mem_store := st, mem_live := xs @ (case r of None \<Rightarrow> [] | Some l' \<Rightarrow> [l']) @ ys\<rparr>)"

section \<open>The invariant\<close>

fun wf_owner :: "memory_owner \<Rightarrow> bool" where
  "wf_owner (MemoryOwner i b p) \<longleftrightarrow> budget_ok b \<and>
     (case p of None \<Rightarrow> True | Some q \<Rightarrow> owner_id q < i \<and> wf_owner q)"

text \<open>A lease mirrors the owner chain: one charge of the same kind and size on every ancestor.\<close>

fun lease_ok :: "memory_lease \<Rightarrow> bool" where
  "lease_ok (MemoryLease ow (AllocInner ident n k h pl)) \<longleftrightarrow> 0 < h \<and> h \<le> u64_max \<and>
     (case pl of
        None \<Rightarrow> owner_parent ow = None
      | Some l \<Rightarrow> owner_parent ow = Some (lease_owner l) \<and> alloc_bytes (lease_alloc l) = n \<and>
          alloc_kind (lease_alloc l) = k \<and> alloc_handles (lease_alloc l) = 1 \<and> lease_ok l)"

definition charges :: "nat \<Rightarrow> memory_lease \<Rightarrow> credit_kind \<Rightarrow> nat" where
  "charges i l k =
     (if k = alloc_kind (lease_alloc l) \<and> i \<in> set (chain (lease_owner l))
      then alloc_bytes (lease_alloc l) else 0)"

definition charged :: "nat \<Rightarrow> memory_lease list \<Rightarrow> credit_kind \<Rightarrow> nat" where
  "charged i ls k = sum_list (map (\<lambda>l. charges i l k) ls)"

definition holds :: "nat \<Rightarrow> memory_lease \<Rightarrow> nat" where
  "holds i l =
     (if i = owner_id (lease_owner l) then alloc_handles (lease_alloc l)
      else if i \<in> set (chain (lease_owner l)) then 1 else 0)"

definition held :: "nat \<Rightarrow> memory_lease list \<Rightarrow> nat" where
  "held i ls = sum_list (map (holds i) ls)"

definition acct_ok :: "resource_budget \<Rightarrow> (credit_kind \<Rightarrow> nat) \<Rightarrow> nat \<Rightarrow> counters \<Rightarrow> bool" where
  "acct_ok b u h c \<longleftrightarrow>
     (\<forall>k. ledger k c = u k \<and> u k \<le> cap b k) \<and>
     c_physical c = u Reservation + u Retention + u Queue \<and>
     c_physical c \<le> c_peak_physical c \<and>
     c_live_handles c = h mod 18446744073709551616"

definition owners_ok :: "memory_owner list \<Rightarrow> bool" where
  "owners_ok os \<longleftrightarrow> (\<forall>i < length os. owner_id (os ! i) = i) \<and>
     (\<forall>ow \<in> set os. wf_owner ow \<and> set (lineage ow) \<subseteq> set os)"

definition mem_inv :: "mem \<Rightarrow> bool" where
  "mem_inv m \<longleftrightarrow> owners_ok (mem_owners m) \<and>
     (\<forall>l \<in> set (mem_live m). lease_ok l \<and> lease_owner l \<in> set (mem_owners m)) \<and>
     (\<forall>ow \<in> set (mem_owners m). acct_ok (owner_budget ow) (charged (owner_id ow) (mem_live m))
        (held (owner_id ow) (mem_live m)) (mem_store m (owner_id ow)))"

section \<open>Counter lemmas\<close>

lemma wsub_mod: "0 < a \<Longrightarrow> wsub (a mod 18446744073709551616) 1 = (a - 1) mod 18446744073709551616"
proof -
  assume a: "0 < a"
  have "(int (a mod 18446744073709551616) - 1) mod 18446744073709551616 = (int a - 1) mod 18446744073709551616"
    by (simp add: zmod_int mod_diff_left_eq)
  also have "\<dots> = int ((a - 1) mod 18446744073709551616)" using a by (simp add: zmod_int of_nat_diff)
  finally show ?thesis by (simp add: wsub_def)
qed

lemma ledger_ledger_update [simp]:
  "ledger k (ledger_update k' f c) = (if k = k' then f (ledger k c) else ledger k c)"
  by (cases k; cases k') simp_all

lemma ledger_update_sel [simp]:
  "c_physical (ledger_update k f c) = c_physical c"
  "c_peak_physical (ledger_update k f c) = c_peak_physical c"
  "c_live_handles (ledger_update k f c) = c_live_handles c"
  by (cases k; simp)+

lemma ledger_frame [simp]:
  "ledger k (c\<lparr>c_physical := x\<rparr>) = ledger k c" "ledger k (c\<lparr>c_peak_physical := x\<rparr>) = ledger k c"
  "ledger k (c\<lparr>c_live_handles := x\<rparr>) = ledger k c" "ledger k (c\<lparr>c_next_id := x\<rparr>) = ledger k c"
  by (cases k; simp)+

lemma cap_sum: "cap b k \<le> reservation_bytes b + retention_bytes b + queue_bytes b"
  by (cases k) simp_all

lemma acct_total: "acct_ok b u h c \<Longrightarrow> budget_ok b \<Longrightarrow> u Reservation + u Retention + u Queue < u64_max"
  unfolding acct_ok_def budget_ok_def
  by (metis add_mono cap.simps le_less_trans)

lemma acct_draw:
  assumes a: "acct_ok b u h c" and b: "budget_ok b" and fit: "sat_u64 (ledger k c + n) \<le> cap b k"
  shows "acct_ok b (u(k := u k + n)) h (draw k n c)"
proof -
  have led: "ledger k c = u k" using a by (simp add: acct_ok_def)
  have "cap b k < u64_max" using cap_sum [of b k] b by (simp add: budget_ok_def)
  with fit have le: "u k + n \<le> cap b k" and lt: "u k + n < u64_max" by (auto simp: led sat_u64_def split: if_splits)
  let ?u = "u(k := u k + n)"
  have caps: "?u k' \<le> cap b k'" for k' using a le by (simp add: acct_ok_def)
  have sum: "?u Reservation + ?u Retention + ?u Queue = u Reservation + u Retention + u Queue + n"
    by (cases k) simp_all
  have "?u Reservation + ?u Retention + ?u Queue < u64_max"
    using caps [of Reservation] caps [of Retention] caps [of Queue] b by (simp add: budget_ok_def)
  then have nw: "(c_physical c + n) mod 18446744073709551616 = ?u Reservation + ?u Retention + ?u Queue"
    using a sum by (simp add: acct_ok_def)
  show ?thesis
    using a lt caps nw unfolding acct_ok_def draw_def Let_def
    by (auto simp: max_def)
qed

lemma acct_refund:
  assumes a: "acct_ok b u h c" and b: "budget_ok b" and n: "n \<le> u k"
  shows "acct_ok b (u(k := u k - n)) h (refund k n c)"
proof -
  let ?u = "u(k := u k - n)"
  have tot: "u Reservation + u Retention + u Queue < u64_max" by (rule acct_total [OF a b])
  have uk: "u k \<le> u Reservation + u Retention + u Queue" by (cases k) simp_all
  have led_c: "ledger k' c = u k'" and cap: "u k' \<le> cap b k'" for k' using a by (simp_all add: acct_ok_def)
  have ph: "c_physical c = u Reservation + u Retention + u Queue" using a by (simp add: acct_ok_def)
  have sub: "wsub (c_physical c) n = c_physical c - n" "wsub (u k) n = u k - n"
    using tot uk n by (simp_all add: ph wsub_le)
  have "(u Reservation + u Retention + u Queue) - n = ?u Reservation + ?u Retention + ?u Queue"
    using n by (cases k) simp_all
  moreover have rp: "c_physical (refund k n c) = c_physical c - n" by (simp add: refund_def sub)
  ultimately have p: "c_physical (refund k n c) = ?u Reservation + ?u Retention + ?u Queue"
    by (simp only: ph)
  have l: "ledger k' (refund k n c) = ?u k'" for k' by (simp add: refund_def led_c sub)
  have c: "?u k' \<le> cap b k'" for k' using cap [of k'] by auto
  have q: "c_physical (refund k n c) \<le> c_peak_physical (refund k n c)"
  proof -
    have "c_physical c \<le> c_peak_physical c" using a by (simp add: acct_ok_def)
    then have "c_physical c - n \<le> c_peak_physical c" by (rule le_trans [OF diff_le_self])
    then show ?thesis unfolding rp by (simp add: refund_def)
  qed
  have h: "c_live_handles (refund k n c) = h mod 18446744073709551616"
    using a by (simp add: refund_def acct_ok_def)
  show ?thesis unfolding acct_ok_def using p l c q h by blast
qed

lemma acct_new_handle: "acct_ok b u h c \<Longrightarrow> acct_ok b u (Suc h) (new_handle c)"
  by (simp add: acct_ok_def new_handle_def mod_Suc_eq)

lemma acct_handle_add: "acct_ok b u h c \<Longrightarrow>
    acct_ok b u (Suc h) (c\<lparr>c_live_handles := wadd (c_live_handles c) 1\<rparr>)"
  by (simp add: acct_ok_def mod_Suc_eq)

lemma acct_handle_sub: "acct_ok b u (Suc h) c \<Longrightarrow>
    acct_ok b u h (c\<lparr>c_live_handles := wsub (c_live_handles c) 1\<rparr>)"
  using wsub_mod [of "Suc h"] by (simp add: acct_ok_def)

lemma acct_new: "acct_ok b (\<lambda>k. 0) 0 counters_new"
proof -
  have "ledger k counters_new = 0" for k by (cases k) (simp_all add: counters_new_def)
  then show ?thesis by (simp add: acct_ok_def counters_new_def)
qed

section \<open>What each operation does to the store\<close>

lemma chain_simp [simp]:
  "chain (MemoryOwner i b p) = i # (case p of None \<Rightarrow> [] | Some q \<Rightarrow> chain q)"
  by (simp add: chain_def split: option.splits)

lemma owner_in_chain [simp]: "owner_id ow \<in> set (chain ow)"
  by (cases ow) simp

lemma self_lineage [simp]: "ow \<in> set (lineage ow)"
  by (cases ow) simp

lemma chain_le: "wf_owner ow \<Longrightarrow> j \<in> set (chain ow) \<Longrightarrow> j \<le> owner_id ow"
proof (induction ow)
  case (MemoryOwner i b p)
  show ?case
  proof (cases p)
    case (Some q)
    with MemoryOwner.prems have "j = i \<or> j \<in> set (chain q)" "owner_id q < i" "wf_owner q" by auto
    with MemoryOwner.IH [of q] Some show ?thesis by auto
  qed (use MemoryOwner.prems in simp)
qed

lemma parent_chain: "wf_owner (MemoryOwner i b (Some q)) \<Longrightarrow> i \<notin> set (chain q)"
  using chain_le [of q i] by auto

definition fits :: "credit_kind \<Rightarrow> nat \<Rightarrow> store \<Rightarrow> memory_owner \<Rightarrow> bool" where
  "fits k n st q \<longleftrightarrow> sat_u64 (ledger k (st (owner_id q)) + n) \<le> cap (owner_budget q) k"

lemma lineage_ids: "wf_owner ow \<Longrightarrow> q \<in> set (lineage ow) \<Longrightarrow> owner_id q \<in> set (chain ow)"
  by (simp add: chain_def)

lemma acquire_spec:
  assumes "wf_owner ow" "acquire k n ow st = Ok (st', l)"
  shows "st' = (\<lambda>j. if j \<in> set (chain ow) then new_handle (draw k n (st j)) else st j) \<and>
    lease_ok l \<and> lease_owner l = ow \<and> alloc_bytes (lease_alloc l) = n \<and> alloc_kind (lease_alloc l) = k \<and>
    alloc_handles (lease_alloc l) = 1 \<and> (\<forall>q \<in> set (lineage ow). fits k n st q)"
  using assms
proof (induction ow arbitrary: st' l)
  case (MemoryOwner i b p)
  show ?case
  proof (cases p)
    case None
    with MemoryOwner.prems show ?thesis
      by (auto simp: own_acquire_def Let_def fits_def fun_eq_iff split: if_splits)
  next
    case (Some q)
    with MemoryOwner.prems obtain st1 pl where q: "acquire k n q st = Ok (st1, pl)"
      and own: "(st', l) = own_acquire k n (MemoryOwner i b p) (Some pl) st1"
      and room: "sat_u64 (ledger k (st i) + n) \<le> cap b k" and wf: "wf_owner q"
      by (auto simp: rbind_Inr_iff split: if_splits)
    note ih = MemoryOwner.IH [of q, OF _ wf q]
    have "i \<notin> set (chain q)" using MemoryOwner.prems(1) Some parent_chain by simp
    with ih own room Some show ?thesis
      by (auto simp: own_acquire_def Let_def fits_def fun_eq_iff)
  qed
qed

lemma lease_ok_chain:
  "lease_ok (MemoryLease ow (AllocInner ident n k h (Some l))) \<Longrightarrow> wf_owner ow \<Longrightarrow>
     set (chain ow) = insert (owner_id ow) (set (chain (lease_owner l))) \<and> wf_owner (lease_owner l) \<and>
     owner_id ow \<notin> set (chain (lease_owner l)) \<and> lineage ow = ow # lineage (lease_owner l)"
  using parent_chain by (cases ow) auto

lemma lease_ok_chain_None:
  "lease_ok (MemoryLease ow (AllocInner ident n k h None)) \<Longrightarrow>
     chain ow = [owner_id ow] \<and> lineage ow = [ow]"
  by (cases ow) auto

lemma grow_spec:
  assumes "lease_ok l" "wf_owner (lease_owner l)" "grow_to n l st = Ok (st', l')"
    and "alloc_bytes (lease_alloc l) < n"
  shows "st' = (\<lambda>j. if j \<in> set (chain (lease_owner l))
      then draw (alloc_kind (lease_alloc l)) (n - alloc_bytes (lease_alloc l)) (st j) else st j) \<and>
    lease_ok l' \<and> lease_owner l' = lease_owner l \<and> alloc_bytes (lease_alloc l') = n \<and>
    alloc_kind (lease_alloc l') = alloc_kind (lease_alloc l) \<and> alloc_handles (lease_alloc l) = 1 \<and>
    alloc_handles (lease_alloc l') = 1 \<and>
    (\<forall>q \<in> set (lineage (lease_owner l)).
       fits (alloc_kind (lease_alloc l)) (n - alloc_bytes (lease_alloc l)) st q)"
  using assms
proof (induction n l st arbitrary: st' l' rule: grow_to.induct)
  case (1 n ow ident old k h pl st)
  then have h: "h = 1" and room: "sat_u64 (ledger k (st (owner_id ow)) + (n - old)) \<le> cap (owner_budget ow) k"
    by (auto split: if_splits)
  show ?case
  proof (cases pl)
    case None
    with 1 h room lease_ok_chain_None [of ow ident old k h] show ?thesis
      by (auto simp: fits_def)
  next
    case (Some q)
    with "1.prems" h room obtain st1 l1 where g: "grow_to n q st = Ok (st1, l1)"
      and st': "st' = st1(owner_id ow := draw k (n - old) (st1 (owner_id ow)))"
      and l': "l' = MemoryLease ow (AllocInner ident n k h (Some l1))"
      by (auto simp: rbind_Inr_iff split: if_splits)
    have q: "lease_ok q" "alloc_bytes (lease_alloc q) = old" "alloc_kind (lease_alloc q) = k"
      "owner_parent ow = Some (lease_owner q)"
      using "1.prems"(1) Some by auto
    note ch = lease_ok_chain [of ow ident old k h q, OF "1.prems"(1) [unfolded Some]]
    have wf: "wf_owner ow" using "1.prems"(2) by simp
    have ih: "st1 = (\<lambda>j. if j \<in> set (chain (lease_owner q)) then draw k (n - old) (st j) else st j) \<and>
        lease_ok l1 \<and> lease_owner l1 = lease_owner q \<and> alloc_bytes (lease_alloc l1) = n \<and>
        alloc_kind (lease_alloc l1) = k \<and> alloc_handles (lease_alloc l1) = 1 \<and>
        (\<forall>u \<in> set (lineage (lease_owner q)). fits k (n - old) st u)"
      using "1.IH" [OF _ _ _ Some q(1) _ g] ch [OF wf] h room "1.prems"(4) by (simp add: q cong: if_cong)
    from ih ch [OF wf] st' l' h room q show ?thesis by (auto simp: fits_def fun_eq_iff)
  qed
qed

lemma shrink_spec:
  assumes "lease_ok l" "wf_owner (lease_owner l)" "shrink_to n l st = Ok (st', l')"
    and "n < alloc_bytes (lease_alloc l)"
  shows "st' = (\<lambda>j. if j \<in> set (chain (lease_owner l))
      then refund (alloc_kind (lease_alloc l)) (alloc_bytes (lease_alloc l) - n) (st j) else st j) \<and>
    lease_ok l' \<and> lease_owner l' = lease_owner l \<and> alloc_bytes (lease_alloc l') = n \<and>
    alloc_kind (lease_alloc l') = alloc_kind (lease_alloc l) \<and> alloc_handles (lease_alloc l) = 1 \<and>
    alloc_handles (lease_alloc l') = 1"
  using assms
proof (induction n l st arbitrary: st' l' rule: shrink_to.induct)
  case (1 n ow ident old k h pl st)
  then have h: "h = 1" by (auto split: if_splits)
  show ?case
  proof (cases pl)
    case None
    with 1 h lease_ok_chain_None [of ow ident old k h] show ?thesis by auto
  next
    case (Some q)
    with "1.prems" h obtain st1 l1 where g: "shrink_to n q st = Ok (st1, l1)"
      and st': "st' = st1(owner_id ow := refund k (old - n) (st1 (owner_id ow)))"
      and l': "l' = MemoryLease ow (AllocInner ident n k h (Some l1))"
      by (auto simp: rbind_Inr_iff split: if_splits)
    have q: "lease_ok q" "alloc_bytes (lease_alloc q) = old" "alloc_kind (lease_alloc q) = k"
      "owner_parent ow = Some (lease_owner q)"
      using "1.prems"(1) Some by auto
    note ch = lease_ok_chain [of ow ident old k h q, OF "1.prems"(1) [unfolded Some]]
    have wf: "wf_owner ow" using "1.prems"(2) by simp
    have ih: "st1 = (\<lambda>j. if j \<in> set (chain (lease_owner q)) then refund k (old - n) (st j) else st j) \<and>
        lease_ok l1 \<and> lease_owner l1 = lease_owner q \<and> alloc_bytes (lease_alloc l1) = n \<and>
        alloc_kind (lease_alloc l1) = k \<and> alloc_handles (lease_alloc l1) = 1"
      using "1.IH" [OF _ _ Some q(1) _ g] ch [OF wf] h "1.prems"(4) by (simp add: q cong: if_cong)
    from ih ch [OF wf] st' l' h q show ?thesis by (auto simp: fun_eq_iff)
  qed
qed

definition release_handle :: "counters \<Rightarrow> counters" where
  "release_handle c = c\<lparr>c_live_handles := wsub (c_live_handles c) 1\<rparr>"

lemma drop_last_spec:
  assumes "lease_ok l" "wf_owner (lease_owner l)" "alloc_handles (lease_alloc l) = 1"
  shows "drop_lease l st = (\<lambda>j. if j \<in> set (chain (lease_owner l))
      then refund (alloc_kind (lease_alloc l)) (alloc_bytes (lease_alloc l)) (release_handle (st j))
      else st j, None)"
  using assms
proof (induction l st rule: drop_lease.induct)
  case (1 ow ident n k h pl st)
  then have h: "h = 1" by simp
  let ?c = "refund k n (release_handle (st (owner_id ow)))"
  have step: "drop_lease (MemoryLease ow (AllocInner ident n k h pl)) st =
      (case pl of None \<Rightarrow> st(owner_id ow := ?c) | Some l \<Rightarrow> fst (drop_lease l (st(owner_id ow := ?c))), None)"
    by (cases pl) (simp_all add: h Let_def release_handle_def)
  show ?case
  proof (cases pl)
    case None
    have "chain ow = [owner_id ow]" using lease_ok_chain_None "1.prems"(1) None by blast
    then show ?thesis unfolding step by (simp add: None fun_eq_iff)
  next
    case (Some q)
    have q: "lease_ok q" "alloc_bytes (lease_alloc q) = n" "alloc_kind (lease_alloc q) = k"
      "alloc_handles (lease_alloc q) = 1"
      using "1.prems"(1) Some by auto
    have wf: "wf_owner ow" using "1.prems"(2) by simp
    note ch = lease_ok_chain [of ow ident n k h q, OF "1.prems"(1) [unfolded Some] wf]
    let ?h = "(st (owner_id ow))\<lparr>c_live_handles := wsub (c_live_handles (st (owner_id ow))) 1\<rparr>"
    have eq: "(st(owner_id ow := ?h))(owner_id ow := refund k n ((st(owner_id ow := ?h)) (owner_id ow)))
        = st(owner_id ow := ?c)"
      by (simp add: release_handle_def)
    have "wf_owner (lease_owner q)" using ch by simp
    from "1.IH" [OF refl refl h refl Some q(1) this q(4), unfolded eq q(2,3)]
    have "drop_lease q (st(owner_id ow := ?c)) = (\<lambda>j. if j \<in> set (chain (lease_owner q))
        then refund k n (release_handle ((st(owner_id ow := ?c)) j)) else (st(owner_id ow := ?c)) j, None)" .
    with ch show ?thesis unfolding step by (auto simp: Some fun_eq_iff)
  qed
qed

section \<open>Every step keeps the invariant\<close>

lemma charged_add:
  "charged i (xs @ l # ys) = (charged i (xs @ ys))(alloc_kind (lease_alloc l) :=
     charged i (xs @ ys) (alloc_kind (lease_alloc l)) +
     (if i \<in> set (chain (lease_owner l)) then alloc_bytes (lease_alloc l) else 0))"
  by (auto simp: charged_def charges_def fun_eq_iff)

lemma held_add: "held i (xs @ l # ys) = held i (xs @ ys) + holds i l"
  by (simp add: held_def)

lemma held_one:
  assumes "alloc_handles (lease_alloc l) = 1"
  shows "held i (xs @ l # ys) = (if i \<in> set (chain (lease_owner l)) then Suc (held i (xs @ ys)) else held i (xs @ ys))"
  using assms owner_in_chain [of "lease_owner l"] by (auto simp: held_add holds_def)

lemma chain_lineage:
  assumes "owners_ok os" "lo \<in> set os" "ow \<in> set os" "owner_id ow \<in> set (chain lo)"
  shows "ow \<in> set (lineage lo)"
proof -
  from assms(4) obtain q where q: "q \<in> set (lineage lo)" "owner_id q = owner_id ow"
    by (auto simp: chain_def)
  then have "q \<in> set os" using assms(1,2) by (auto simp: owners_ok_def)
  with q(2) assms(1,3) have "q = ow" unfolding owners_ok_def by (metis in_set_conv_nth)
  with q(1) show ?thesis by simp
qed

definition accounted :: "mem \<Rightarrow> memory_owner \<Rightarrow> bool" where
  "accounted m ow \<longleftrightarrow> acct_ok (owner_budget ow) (charged (owner_id ow) (mem_live m))
     (held (owner_id ow) (mem_live m)) (mem_store m (owner_id ow))"

lemma wf_owner_budget: "wf_owner ow \<Longrightarrow> budget_ok (owner_budget ow)"
  by (cases ow) simp

lemma mem_invD:
  assumes "mem_inv m"
  shows "owners_ok (mem_owners m)" "ow \<in> set (mem_owners m) \<Longrightarrow> wf_owner ow"
    "ow \<in> set (mem_owners m) \<Longrightarrow> budget_ok (owner_budget ow)"
    "l \<in> set (mem_live m) \<Longrightarrow> lease_ok l" "l \<in> set (mem_live m) \<Longrightarrow> lease_owner l \<in> set (mem_owners m)"
    "ow \<in> set (mem_owners m) \<Longrightarrow> accounted m ow"
proof -
  show "owners_ok (mem_owners m)" using assms by (simp add: mem_inv_def)
  show wf: "wf_owner ow" if "ow \<in> set (mem_owners m)" for ow
    using assms that by (simp add: mem_inv_def owners_ok_def)
  show "ow \<in> set (mem_owners m) \<Longrightarrow> budget_ok (owner_budget ow)" using wf wf_owner_budget by blast
qed (use assms in \<open>auto simp: mem_inv_def accounted_def\<close>)

lemma mem_inv_update:
  assumes "mem_inv m" "mem_owners m' = mem_owners m"
    and "\<And>l. l \<in> set (mem_live m') \<Longrightarrow> lease_ok l \<and> lease_owner l \<in> set (mem_owners m)"
    and "\<And>ow. ow \<in> set (mem_owners m) \<Longrightarrow> accounted m ow \<Longrightarrow> budget_ok (owner_budget ow) \<Longrightarrow> accounted m' ow"
  shows "mem_inv m'"
  using assms mem_invD [OF assms(1)] unfolding mem_inv_def accounted_def by auto

lemma acquire_inv:
  assumes inv: "mem_inv m" and lo: "lo \<in> set (mem_owners m)" and acq: "acquire k n lo (mem_store m) = Ok (st, l)"
  shows "mem_inv (m\<lparr>mem_store := st, mem_live := mem_live m @ [l]\<rparr>)"
proof (rule mem_inv_update [OF inv])
  note sp = acquire_spec [OF mem_invD(2) [OF inv lo] acq]
  fix ow assume ow: "ow \<in> set (mem_owners m)" "accounted m ow" "budget_ok (owner_budget ow)"
  show "accounted (m\<lparr>mem_store := st, mem_live := mem_live m @ [l]\<rparr>) ow"
  proof (cases "owner_id ow \<in> set (chain lo)")
    case True
    have "fits k n (mem_store m) ow" using chain_lineage [OF mem_invD(1) [OF inv] lo ow(1) True] sp by blast
    with ow have "acct_ok (owner_budget ow) ((charged (owner_id ow) (mem_live m))(k := charged (owner_id ow) (mem_live m) k + n))
        (Suc (held (owner_id ow) (mem_live m))) (new_handle (draw k n (mem_store m (owner_id ow))))"
      unfolding accounted_def fits_def by (intro acct_new_handle acct_draw) auto
    with True sp show ?thesis
      by (simp add: accounted_def charged_add [of _ _ _ "[]", simplified] held_one [of _ _ _ "[]", simplified])
  next
    case False
    with ow(2) sp show ?thesis
      by (simp add: accounted_def charged_add [of _ _ _ "[]", simplified] held_one [of _ _ _ "[]", simplified])
  qed
qed (use acquire_spec [OF mem_invD(2) [OF inv lo] acq] lo mem_invD(4,5) [OF inv] in auto)

lemma resize_accounted:
  assumes l: "alloc_bytes (lease_alloc l) = old" "alloc_kind (lease_alloc l) = k" "alloc_handles (lease_alloc l) = 1"
    and l': "alloc_bytes (lease_alloc l') = n" "alloc_kind (lease_alloc l') = k" "alloc_handles (lease_alloc l') = 1"
      "lease_owner l' = lease_owner l"
    and live: "mem_live m = xs @ l # ys"
    and up: "i \<in> set (chain (lease_owner l)) \<Longrightarrow> acct_ok b (charged i (mem_live m)) h (mem_store m i) \<Longrightarrow>
      acct_ok b ((charged i (mem_live m))(k := charged i (mem_live m) k + n - old)) h (st i)"
    and keep: "i \<notin> set (chain (lease_owner l)) \<Longrightarrow> st i = mem_store m i"
    and acc: "acct_ok b (charged i (mem_live m)) (held i (mem_live m)) (mem_store m i)" and h: "h = held i (mem_live m)"
  shows "acct_ok b (charged i (xs @ l' # ys)) (held i (xs @ l' # ys)) (st i)"
proof -
  have held: "held i (xs @ l' # ys) = h" unfolding h live using l l' by (simp add: held_one)
  show ?thesis
  proof (cases "i \<in> set (chain (lease_owner l))")
    case True
    with up acc h live have "acct_ok b ((charged i (mem_live m))(k := charged i (mem_live m) k + n - old)) h (st i)" by simp
    moreover have "(charged i (mem_live m))(k := charged i (mem_live m) k + n - old) = charged i (xs @ l' # ys)"
      unfolding live using True l l' by (simp add: charged_add fun_eq_iff)
    ultimately show ?thesis by (simp add: held)
  next
    case False
    with keep acc h live l l' show ?thesis by (simp add: held) (simp add: charged_add)
  qed
qed

lemma grow_inv:
  assumes inv: "mem_inv m" and live: "mem_live m = xs @ l # ys" and g: "grow_to n l (mem_store m) = Ok (st, l')"
  shows "mem_inv (m\<lparr>mem_store := st, mem_live := xs @ l' # ys\<rparr>)"
proof (cases "n \<le> alloc_bytes (lease_alloc l)")
  case True
  with g have "st = mem_store m" "l' = l" by (cases l; cases "lease_alloc l"; simp)+
  then have "m\<lparr>mem_store := st, mem_live := xs @ l' # ys\<rparr> = m" using live by (cases m) simp
  with inv show ?thesis by simp
next
  case False
  have lo: "lease_ok l" "lease_owner l \<in> set (mem_owners m)" using mem_invD(4,5) [OF inv] live by auto
  note sp = grow_spec [OF lo(1) mem_invD(2) [OF inv lo(2)] g] 
  have lt: "alloc_bytes (lease_alloc l) < n" using False by simp
  show ?thesis
  proof (rule mem_inv_update [OF inv])
    fix ow assume ow: "ow \<in> set (mem_owners m)" "accounted m ow" "budget_ok (owner_budget ow)"
    have fit: "fits (alloc_kind (lease_alloc l)) (n - alloc_bytes (lease_alloc l)) (mem_store m) ow"
      if "owner_id ow \<in> set (chain (lease_owner l))"
      using chain_lineage [OF mem_invD(1) [OF inv] lo(2) ow(1) that] sp [OF lt] by blast
    have "acct_ok (owner_budget ow) (charged (owner_id ow) (xs @ l' # ys)) (held (owner_id ow) (xs @ l' # ys)) (st (owner_id ow))"
    proof (rule resize_accounted [where m = m and l = l, OF refl refl _ _ _ _ _ live])
      assume "owner_id ow \<in> set (chain (lease_owner l))"
        and a: "acct_ok (owner_budget ow) (charged (owner_id ow) (mem_live m)) (held (owner_id ow) (mem_live m)) (mem_store m (owner_id ow))"
      with acct_draw [OF a ow(3), of "alloc_kind (lease_alloc l)" "n - alloc_bytes (lease_alloc l)"] fit sp [OF lt] lt
      show "acct_ok (owner_budget ow) ((charged (owner_id ow) (mem_live m))(alloc_kind (lease_alloc l) :=
          charged (owner_id ow) (mem_live m) (alloc_kind (lease_alloc l)) + n - alloc_bytes (lease_alloc l)))
          (held (owner_id ow) (mem_live m)) (st (owner_id ow))"
        by (simp add: fits_def)
    qed (use sp [OF lt] ow(2) in \<open>simp_all add: accounted_def\<close>)
    then show "accounted (m\<lparr>mem_store := st, mem_live := xs @ l' # ys\<rparr>) ow" by (simp add: accounted_def)
  qed (use sp [OF lt] live mem_invD(4,5) [OF inv] in auto)
qed

lemma shrink_inv:
  assumes inv: "mem_inv m" and live: "mem_live m = xs @ l # ys" and g: "shrink_to n l (mem_store m) = Ok (st, l')"
  shows "mem_inv (m\<lparr>mem_store := st, mem_live := xs @ l' # ys\<rparr>)"
proof (cases "alloc_bytes (lease_alloc l) \<le> n")
  case True
  with g have "st = mem_store m" "l' = l" by (cases l; cases "lease_alloc l"; simp)+
  then have "m\<lparr>mem_store := st, mem_live := xs @ l' # ys\<rparr> = m" using live by (cases m) simp
  with inv show ?thesis by simp
next
  case False
  have lo: "lease_ok l" "lease_owner l \<in> set (mem_owners m)" using mem_invD(4,5) [OF inv] live by auto
  have lt: "n < alloc_bytes (lease_alloc l)" using False by simp
  note sp = shrink_spec [OF lo(1) mem_invD(2) [OF inv lo(2)] g lt]
  let ?k = "alloc_kind (lease_alloc l)" and ?old = "alloc_bytes (lease_alloc l)"
  show ?thesis
  proof (rule mem_inv_update [OF inv])
    fix ow assume ow: "ow \<in> set (mem_owners m)" "accounted m ow" "budget_ok (owner_budget ow)"
    let ?i = "owner_id ow"
    have "acct_ok (owner_budget ow) (charged ?i (xs @ l' # ys)) (held ?i (xs @ l' # ys)) (st ?i)"
    proof (rule resize_accounted [where m = m and l = l, OF refl refl _ _ _ _ _ live])
      assume c: "?i \<in> set (chain (lease_owner l))"
        and a: "acct_ok (owner_budget ow) (charged ?i (mem_live m)) (held ?i (mem_live m)) (mem_store m ?i)"
      have "?old \<le> charged ?i (mem_live m) ?k" using c by (simp add: live charged_add)
      with acct_refund [OF a ow(3), of "?old - n" ?k] c sp lt
      show "acct_ok (owner_budget ow) ((charged ?i (mem_live m))(?k := charged ?i (mem_live m) ?k + n - ?old))
          (held ?i (mem_live m)) (st ?i)"
        by (simp add: Nat.diff_diff_right)
    qed (use sp ow(2) in \<open>simp_all add: accounted_def\<close>)
    then show "accounted (m\<lparr>mem_store := st, mem_live := xs @ l' # ys\<rparr>) ow" by (simp add: accounted_def)
  qed (use sp live mem_invD(4,5) [OF inv] in auto)
qed

lemma share_inv:
  assumes inv: "mem_inv m" and live: "mem_live m = xs @ l # ys"
    and lt: "alloc_handles (lease_alloc l) < u64_max" and sh: "share l (mem_store m) = (st, l')"
  shows "mem_inv (m\<lparr>mem_store := st, mem_live := xs @ l' # ys\<rparr>)"
proof -
  obtain lo ident n k h pl where l: "l = MemoryLease lo (AllocInner ident n k h pl)"
    by (metis alloc_inner.exhaust memory_lease.exhaust)
  have l': "l' = MemoryLease lo (AllocInner ident n k (Suc h) pl)"
    and st: "st = (mem_store m)(owner_id lo := (mem_store m (owner_id lo))\<lparr>c_live_handles := wadd (c_live_handles (mem_store m (owner_id lo))) 1\<rparr>)"
    using sh lt by (auto simp: l Let_def)
  show ?thesis
  proof (rule mem_inv_update [OF inv])
    fix ow assume ow: "ow \<in> set (mem_owners m)" "accounted m ow" "budget_ok (owner_budget ow)"
    have ch: "charged i (xs @ l' # ys) = charged i (mem_live m)" for i
      unfolding live by (simp add: l l' charged_add)
    have hd: "held i (xs @ l' # ys) = (if i = owner_id lo then Suc (held i (mem_live m)) else held i (mem_live m))" for i
      unfolding live by (simp add: l l' held_add holds_def)
    show "accounted (m\<lparr>mem_store := st, mem_live := xs @ l' # ys\<rparr>) ow"
      using ow(2) acct_handle_add [OF ow(2) [unfolded accounted_def]]
      by (auto simp: accounted_def ch hd st)
  next
    have lo: "lo \<in> set (mem_owners m)" using mem_invD(5) [OF inv, of l] by (simp add: live l)
    have "lease_ok l" using mem_invD(4) [OF inv, of l] by (simp add: live)
    then have "lease_ok l'" using lt by (cases pl) (simp_all add: l l')
    then show "lease_ok q \<and> lease_owner q \<in> set (mem_owners m)"
      if "q \<in> set (mem_live (m\<lparr>mem_store := st, mem_live := xs @ l' # ys\<rparr>))" for q
      using that mem_invD(4,5) [OF inv] lo by (auto simp: live l')
  qed simp
qed

lemma drop_last_accounted:
  assumes live: "mem_live m = xs @ l # ys" and h1: "alloc_handles (lease_alloc l) = 1"
    and b: "budget_ok (owner_budget ow)" and acc: "accounted m ow"
  shows "acct_ok (owner_budget ow) (charged (owner_id ow) (xs @ ys)) (held (owner_id ow) (xs @ ys))
    (if owner_id ow \<in> set (chain (lease_owner l))
     then refund (alloc_kind (lease_alloc l)) (alloc_bytes (lease_alloc l)) (release_handle (mem_store m (owner_id ow)))
     else mem_store m (owner_id ow))"
proof (cases "owner_id ow \<in> set (chain (lease_owner l))")
  case c: True
  let ?i = "owner_id ow" and ?k = "alloc_kind (lease_alloc l)" and ?n = "alloc_bytes (lease_alloc l)"
  let ?u = "charged ?i (mem_live m)"
  have u: "?u = (charged ?i (xs @ ys))(?k := charged ?i (xs @ ys) ?k + ?n)"
    unfolding live using c by (simp add: charged_add)
  have a: "acct_ok (owner_budget ow) ?u (Suc (held ?i (xs @ ys))) (mem_store m ?i)"
    using acc c held_one [OF h1] unfolding accounted_def live by simp
  have "acct_ok (owner_budget ow) (?u(?k := ?u ?k - ?n)) (held ?i (xs @ ys)) (refund ?k ?n (release_handle (mem_store m ?i)))"
    by (rule acct_refund [OF acct_handle_sub [OF a, folded release_handle_def] b]) (simp add: u)
  then show ?thesis using c by (simp add: u)
qed (use acc held_one [OF h1] in \<open>simp add: accounted_def live charged_add\<close>)

lemma drop_inv:
  assumes inv: "mem_inv m" and live: "mem_live m = xs @ l # ys" and dr: "drop_lease l (mem_store m) = (st, r)"
  shows "mem_inv (m\<lparr>mem_store := st, mem_live := xs @ (case r of None \<Rightarrow> [] | Some l' \<Rightarrow> [l']) @ ys\<rparr>)"
proof (rule mem_inv_update [OF inv])
  have lo: "lease_ok l" "lease_owner l \<in> set (mem_owners m)" using mem_invD(4,5) [OF inv] live by auto
  have wf: "wf_owner (lease_owner l)" using mem_invD(2) [OF inv lo(2)] .
  obtain lw ident n k h pl where l: "l = MemoryLease lw (AllocInner ident n k h pl)"
    by (metis alloc_inner.exhaust memory_lease.exhaust)
  have pos: "0 < h" "h \<le> u64_max" using lo(1) by (simp_all add: l)
  have sel: "lease_owner l = lw" "alloc_bytes (lease_alloc l) = n" "alloc_kind (lease_alloc l) = k"
    "alloc_handles (lease_alloc l) = h" by (simp_all add: l)
  define l1 where "l1 = MemoryLease lw (AllocInner ident n k (h - 1) pl)"
  have many: "st = (mem_store m)(owner_id lw := release_handle (mem_store m (owner_id lw)))" "r = Some l1" if "h \<noteq> 1"
    using dr that pos by (auto simp: l l1_def Let_def release_handle_def wsub_le)
  have one: "st = (\<lambda>j. if j \<in> set (chain lw) then refund k n (release_handle (mem_store m j)) else mem_store m j)"
    "r = None" if "h = 1"
    using dr drop_last_spec [OF lo(1) wf, unfolded sel, OF that, of "mem_store m"] by simp_all
  fix ow assume ow: "ow \<in> set (mem_owners m)" "accounted m ow" "budget_ok (owner_budget ow)"
  let ?i = "owner_id ow"
  show "accounted (m\<lparr>mem_store := st, mem_live := xs @ (case r of None \<Rightarrow> [] | Some l' \<Rightarrow> [l']) @ ys\<rparr>) ow"
  proof (cases "h = 1")
    case True
    have "acct_ok (owner_budget ow) (charged ?i (xs @ ys)) (held ?i (xs @ ys)) (st ?i)"
      using drop_last_accounted [OF live _ ow(3,2), unfolded sel, OF True] one(1) [OF True] by simp
    then show ?thesis using one [OF True] by (simp add: accounted_def)
  next
    case False
    have c: "charged i (xs @ l1 # ys) = charged i (mem_live m)" for i
      unfolding live by (simp add: l l1_def charged_add)
    have hd: "held i (mem_live m) = (if i = owner_id lw then Suc (held i (xs @ l1 # ys)) else held i (xs @ l1 # ys))" for i
      unfolding live using pos by (simp add: l l1_def held_add holds_def)
    show ?thesis
      using ow(2) acct_handle_sub many [OF False] by (auto simp: accounted_def c hd release_handle_def)
  qed
next
  have lo: "lease_ok l" using mem_invD(4) [OF inv] live by simp
  then have "r = Some l' \<Longrightarrow> lease_ok l' \<and> lease_owner l' = lease_owner l" for l'
    using dr by (cases l rule: lease_ok.cases) (auto simp: Let_def wsub_le split: if_splits option.splits)
  then show "lease_ok q \<and> lease_owner q \<in> set (mem_owners m)"
    if "q \<in> set (mem_live (m\<lparr>mem_store := st, mem_live := xs @ (case r of None \<Rightarrow> [] | Some l' \<Rightarrow> [l']) @ ys\<rparr>))" for q
    using that mem_invD(4,5) [OF inv] by (auto simp: live split: option.splits)
qed simp

lemma owner_new_inv:
  assumes inv: "mem_inv m" and b: "budget_ok b" and p: "\<And>q. p = Some q \<Longrightarrow> q \<in> set (mem_owners m)"
  shows "mem_inv (owner_new b p m)"
proof -
  let ?i = "length (mem_owners m)" and ?ow = "MemoryOwner (length (mem_owners m)) b p"
  have small: "owner_id ow < ?i" if "ow \<in> set (mem_owners m)" for ow
    using mem_invD(1) [OF inv] that unfolding owners_ok_def by (metis in_set_conv_nth)
  have fresh: "charges ?i l k = 0" "holds ?i l = 0" if "l \<in> set (mem_live m)" for l k
  proof -
    have "lease_owner l \<in> set (mem_owners m)" using mem_invD(5) [OF inv that] .
    then have "?i \<notin> set (chain (lease_owner l))"
      using chain_le [OF mem_invD(2) [OF inv], of "lease_owner l" ?i] small by fastforce
    then show "charges ?i l k = 0" "holds ?i l = 0"
      using owner_in_chain [of "lease_owner l"] by (auto simp: charges_def holds_def)
  qed
  have "charged ?i (mem_live m) = (\<lambda>k. 0)" "held ?i (mem_live m) = 0"
    using fresh by (auto simp: charged_def held_def fun_eq_iff)
  then have new: "acct_ok b (charged ?i (mem_live m)) (held ?i (mem_live m)) counters_new" by (simp add: acct_new)
  have "wf_owner ?ow" "set (lineage ?ow) \<subseteq> insert ?ow (set (mem_owners m))"
    using b p mem_invD(1,2) [OF inv] small by (auto simp: owners_ok_def split: option.splits)
  with mem_invD(1) [OF inv] have os: "owners_ok (mem_owners m @ [?ow])"
    by (auto simp: owners_ok_def nth_append less_Suc_eq)
  have old: "acct_ok (owner_budget ow) (charged (owner_id ow) (mem_live m)) (held (owner_id ow) (mem_live m))
      (mem_store m (owner_id ow)) \<and> owner_id ow \<noteq> ?i" if "ow \<in> set (mem_owners m)" for ow
    using mem_invD(6) [OF inv that] small [OF that] by (simp add: accounted_def)
  show ?thesis
    using os new old mem_invD(4,5) [OF inv] by (auto simp: mem_inv_def owner_new_def Let_def)
qed

lemma mem_step_inv:
  assumes "mem_step m m'" "mem_inv m"
  shows "mem_inv m'"
  using assms
proof (induction rule: mem_step.induct)
  case (m_detach l m k st l')
  then show ?case by (auto simp: detach_def intro: acquire_inv mem_invD(5))
qed (blast intro: owner_new_inv acquire_inv share_inv grow_inv shrink_inv drop_inv)+

lemma mem_reach_inv: "mem_step\<^sup>*\<^sup>* mem_empty m \<Longrightarrow> mem_inv m"
proof (induction rule: rtranclp_induct)
  case base
  show ?case by (simp add: mem_inv_def mem_empty_def owners_ok_def)
qed (rule mem_step_inv)

lemma charged_parent_le: "owner_parent ow = Some p \<Longrightarrow> charged (owner_id ow) ls k \<le> charged (owner_id p) ls k"
  if "\<And>l. l \<in> set ls \<Longrightarrow> owner_id ow \<in> set (chain (lease_owner l)) \<Longrightarrow> owner_id p \<in> set (chain (lease_owner l))"
  using that unfolding charged_def charges_def
  by (intro sum_list_mono) auto

lemma lineage_parent: "ow \<in> set (lineage lo) \<Longrightarrow> owner_parent ow = Some p \<Longrightarrow> p \<in> set (lineage lo)"
proof (induction lo)
  case (MemoryOwner i b q)
  then show ?case by (cases q) auto
qed

text \<open>One owner's ledger across an acquisition and the drop of a last handle.\<close>

lemma acquire_ledger:
  assumes "wf_owner ow" "acquire k n ow st = Ok (st', l)"
  shows "ledger k (st' (owner_id ow)) = ledger k (st (owner_id ow)) + n \<and>
    ledger k (st (owner_id ow)) + n \<le> cap (owner_budget ow) k \<and>
    (\<forall>k'. k' \<noteq> k \<longrightarrow> ledger k' (st' (owner_id ow)) = ledger k' (st (owner_id ow)))"
proof -
  note sp = acquire_spec [OF assms]
  have "fits k n st ow" using sp self_lineage by blast
  moreover have "cap (owner_budget ow) k < u64_max"
    using wf_owner_budget [OF assms(1)] cap_sum [of "owner_budget ow" k] by (simp add: budget_ok_def)
  ultimately have "ledger k (st (owner_id ow)) + n \<le> cap (owner_budget ow) k"
    "ledger k (st (owner_id ow)) + n < u64_max"
    by (auto simp: fits_def sat_u64_def split: if_splits)
  then show ?thesis using sp by (simp add: draw_def new_handle_def Let_def)
qed

lemma drop_ledger:
  assumes "lease_ok l" "wf_owner (lease_owner l)" "alloc_handles (lease_alloc l) = 1"
    and "alloc_bytes (lease_alloc l) \<le> ledger (alloc_kind (lease_alloc l)) (st (owner_id (lease_owner l)))"
    and "ledger (alloc_kind (lease_alloc l)) (st (owner_id (lease_owner l))) \<le> u64_max"
  shows "ledger (alloc_kind (lease_alloc l)) (fst (drop_lease l st) (owner_id (lease_owner l))) =
    ledger (alloc_kind (lease_alloc l)) (st (owner_id (lease_owner l))) - alloc_bytes (lease_alloc l)"
  using assms by (simp add: drop_last_spec refund_def release_handle_def wsub_le)

text \<open>
  The owner and every ancestor have \<open>n\<close> bytes of headroom. A request is granted exactly then, and
  what it draws is taken from the room that is left.
\<close>

definition room :: "credit_kind \<Rightarrow> nat \<Rightarrow> memory_owner \<Rightarrow> store \<Rightarrow> bool" where
  "room k n ow st \<longleftrightarrow> list_all (\<lambda>q. ensure_headroom k n q st = Ok ()) (lineage ow)"

lemma room_fits: "0 < n \<Longrightarrow> room k n ow st \<longleftrightarrow> list_all (fits k n st) (lineage ow)"
  by (auto simp: room_def ensure_headroom_def fits_def not_less list_all_iff)

lemma room_none [simp]: "room k 0 ow st"
  by (simp add: room_def ensure_headroom_def list_all_iff)

lemma acquire_room:
  assumes "0 < n"
  shows "case acquire k n ow st of Inr _ \<Rightarrow> room k n ow st
    | Inl e \<Rightarrow> \<not> room k n ow st \<and> e = with_retryable True (new_error ResourceExhausted)"
proof (induction ow)
  case (MemoryOwner i b p)
  show ?case
  proof (cases p)
    case None
    with assms show ?thesis by (auto simp: room_fits fits_def not_less)
  next
    case (Some q)
    with MemoryOwner.IH [of q] assms show ?thesis
      by (cases "acquire k n q st") (auto simp: room_fits fits_def not_less)
  qed
qed

lemma lineage_wf: "wf_owner ow \<Longrightarrow> q \<in> set (lineage ow) \<Longrightarrow> wf_owner q"
  by (induction ow) (auto split: option.splits)

lemma fits_ledger:
  assumes "wf_owner q"
  shows "fits k n st q \<longleftrightarrow> ledger k (st (owner_id q)) + n \<le> cap (owner_budget q) k"
proof -
  have "cap (owner_budget q) k < u64_max"
    using wf_owner_budget [OF assms] cap_sum [of "owner_budget q" k] by (simp add: budget_ok_def)
  then show ?thesis by (auto simp: fits_def sat_u64_def)
qed

lemma room_acquired:
  assumes wf: "wf_owner ow" and acq: "acquire k n ow st = Ok (st', l)" and n: "0 < n"
  shows "room k m ow st' \<longleftrightarrow> room k (n + m) ow st"
proof (cases "m = 0")
  case True
  then show ?thesis using acquire_room [OF n, of k ow st] acq by simp
next
  case False
  note sp = acquire_spec [OF wf acq]
  have "fits k m st' q \<longleftrightarrow> fits k (n + m) st q" if q: "q \<in> set (lineage ow)" for q
  proof -
    note wq = lineage_wf [OF wf q]
    have "fits k n st q" using sp q by blast
    moreover have "cap (owner_budget q) k < u64_max"
      using wf_owner_budget [OF wq] cap_sum [of "owner_budget q" k] by (simp add: budget_ok_def)
    ultimately have "ledger k (st' (owner_id q)) = ledger k (st (owner_id q)) + n"
      using sp lineage_ids [OF wf q] by (simp add: fits_ledger [OF wq] draw_def new_handle_def Let_def)
    then show ?thesis by (simp add: fits_ledger [OF wq] add.assoc)
  qed
  then show ?thesis using False n by (simp add: room_fits list_all_iff)
qed

section \<open>Properties\<close>

text \<open>
  C28: In every state the owner tree can reach by creating owners, acquiring, sharing, growing,
  shrinking, detaching and dropping leases, each owner's ledger of each kind is exactly the sum
  of the live allocations charged to it, never above its cap and never above its parent's
  ledger; the physical counter is the sum of the three ledgers and within its recorded peak;
  and with no live allocation every ledger is zero.
\<close>

theorem memory_conserved:
  assumes "mem_step\<^sup>*\<^sup>* mem_empty m" "ow \<in> set (mem_owners m)"
  shows "ledger k (mem_store m (owner_id ow)) = charged (owner_id ow) (mem_live m) k \<and>
    ledger k (mem_store m (owner_id ow)) \<le> cap (owner_budget ow) k \<and>
    (\<forall>p. owner_parent ow = Some p \<longrightarrow> ledger k (mem_store m (owner_id ow)) \<le> ledger k (mem_store m (owner_id p))) \<and>
    c_physical (mem_store m (owner_id ow)) = (\<Sum>k\<leftarrow>[Reservation, Retention, Queue]. charged (owner_id ow) (mem_live m) k) \<and>
    c_physical (mem_store m (owner_id ow)) \<le> c_peak_physical (mem_store m (owner_id ow)) \<and>
    (mem_live m = [] \<longrightarrow> ledger k (mem_store m (owner_id ow)) = 0)"
proof -
  have inv: "mem_inv m" by (rule mem_reach_inv [OF assms(1)])
  have acct: "acct_ok (owner_budget q) (charged (owner_id q) (mem_live m)) (held (owner_id q) (mem_live m))
      (mem_store m (owner_id q))" if "q \<in> set (mem_owners m)" for q
    using mem_invD(6) [OF inv that] by (simp add: accounted_def)
  have parent: "ledger k (mem_store m (owner_id ow)) \<le> ledger k (mem_store m (owner_id p))"
    if p: "owner_parent ow = Some p" for p
  proof -
    have "p \<in> set (lineage ow)" using p by (cases ow) (auto split: option.splits)
    then have "p \<in> set (mem_owners m)" using mem_invD(1) [OF inv] assms(2) by (auto simp: owners_ok_def)
    moreover have "charged (owner_id ow) (mem_live m) k \<le> charged (owner_id p) (mem_live m) k"
    proof (rule charged_parent_le [OF _ p])
      fix l assume "l \<in> set (mem_live m)" "owner_id ow \<in> set (chain (lease_owner l))"
      then show "owner_id p \<in> set (chain (lease_owner l))"
        using chain_lineage [OF mem_invD(1) [OF inv] _ assms(2)] mem_invD(5) [OF inv] lineage_parent [OF _ p]
        by (auto simp: chain_def)
    qed
    ultimately show ?thesis using acct [OF assms(2)] acct [of p] by (simp add: acct_ok_def)
  qed
  show ?thesis
    using acct [OF assms(2)] parent by (auto simp: acct_ok_def charged_def)
qed

definition demo_owner :: memory_owner where
  "demo_owner = MemoryOwner 1 (budget_compact\<lparr>queue_bytes := 100\<rparr>) (Some (MemoryOwner 0 budget_compact None))"

lemma demo_mem_reach:
  "\<exists>m. mem_step\<^sup>*\<^sup>* mem_empty m \<and> demo_owner \<in> set (mem_owners m) \<and> length (mem_live m) = 1 \<and>
     ledger Queue (mem_store m (owner_id demo_owner)) = 60"
proof -
  let ?m1 = "owner_new budget_compact None mem_empty"
  let ?m2 = "owner_new (budget_compact\<lparr>queue_bytes := 100\<rparr>) (Some (MemoryOwner 0 budget_compact None)) ?m1"
  have "mem_step mem_empty ?m1" by (rule m_new) (simp add: budget_ok_def budget_compact_def)
  moreover have "mem_step ?m1 ?m2"
    by (rule m_child) (simp_all add: budget_ok_def budget_compact_def owner_new_def mem_empty_def)
  moreover have "\<exists>st l. acquire Queue 60 demo_owner (mem_store ?m2) = Ok (st, l) \<and>
      ledger Queue (st (owner_id demo_owner)) = 60"
    by (simp add: demo_owner_def owner_new_def mem_empty_def counters_new_def budget_compact_def
        own_acquire_def Let_def draw_def new_handle_def sat_u64_def)
  then obtain st l where a: "acquire Queue 60 demo_owner (mem_store ?m2) = Ok (st, l)"
      "ledger Queue (st (owner_id demo_owner)) = 60" by blast
  then have "mem_step ?m2 (?m2\<lparr>mem_store := st, mem_live := mem_live ?m2 @ [l]\<rparr>)"
    by (intro m_acquire [OF _ a(1)]) (simp add: demo_owner_def owner_new_def mem_empty_def)
  ultimately have "mem_step\<^sup>*\<^sup>* mem_empty (?m2\<lparr>mem_store := st, mem_live := mem_live ?m2 @ [l]\<rparr>)"
    by (meson rtranclp.rtrancl_into_rtrancl rtranclp.rtrancl_refl)
  then show ?thesis using a(2)
    by (intro exI [of _ "?m2\<lparr>mem_store := st, mem_live := mem_live ?m2 @ [l]\<rparr>"])
      (simp add: demo_owner_def owner_new_def mem_empty_def)
qed

theorem memory_conserved_witness:
  "\<exists>m. mem_step\<^sup>*\<^sup>* mem_empty m \<and> length (mem_live m) = 1 \<and>
     charged (owner_id demo_owner) (mem_live m) Queue = 60 \<and> 60 \<le> cap (owner_budget demo_owner) Queue"
proof -
  obtain m where m: "mem_step\<^sup>*\<^sup>* mem_empty m" "demo_owner \<in> set (mem_owners m)" "length (mem_live m) = 1"
    "ledger Queue (mem_store m (owner_id demo_owner)) = 60"
    using demo_mem_reach by blast
  from memory_conserved [OF m(1,2), of Queue] m show ?thesis by auto
qed

text \<open>
  A non-empty acquisition succeeds exactly when the owner and every ancestor have the
  headroom; otherwise the caller gets a retryable resource-exhausted error. A zero-byte request
  is an invalid argument.
\<close>

theorem acquire_iff_headroom:
  "((\<exists>st' l. acquire k n ow st = Ok (st', l)) =
      (0 < n \<and> (\<forall>q. q \<in> set (lineage ow) \<longrightarrow> ensure_headroom k n q st = Ok ()))) \<and>
   (acquire k n ow st = Inl e \<longrightarrow>
      err_code e = (if n = 0 then InvalidArgument else ResourceExhausted) \<and> err_retryable e = (0 < n))"
proof (induction ow)
  case (MemoryOwner i b p)
  show ?case
  proof (cases p)
    case (Some q)
    with MemoryOwner.IH [of q] show ?thesis
      by (cases "acquire k n q st") (auto simp: ensure_headroom_def not_less)
  qed (auto simp: ensure_headroom_def not_less)
qed

theorem acquire_iff_headroom_witness:
  "acquire Queue 60 demo_owner (\<lambda>_. counters_new\<lparr>c_queue := 50\<rparr>)
     = Inl (with_retryable True (new_error ResourceExhausted)) \<and>
   (\<exists>q. q \<in> set (lineage demo_owner) \<and> ensure_headroom Queue 60 q (\<lambda>_. counters_new\<lparr>c_queue := 50\<rparr>) \<noteq> Ok ())"
proof -
  let ?st = "\<lambda>_. counters_new\<lparr>c_queue := 50\<rparr>"
  have a: "acquire Queue 60 demo_owner ?st = Inl (with_retryable True (new_error ResourceExhausted))"
    by (simp add: demo_owner_def counters_new_def budget_compact_def sat_u64_def)
  with acquire_iff_headroom [of Queue 60 demo_owner ?st "with_retryable True (new_error ResourceExhausted)"]
  show ?thesis by auto
qed

text \<open>
  Replacing accounted bytes returns the exact new total, or panics, exactly when the old
  amount is not contained in the total or the sum overflows; a panic is counted once on the
  owner and once on every ancestor and on nobody else.
\<close>

theorem replace_accounted_exact:
  assumes "wf_owner ow"
  shows "replace_accounted_bytes tot old nw ow st =
    (if old \<le> tot \<and> tot - old + nw \<le> u64_max then (st, Some (tot - old + nw))
     else (\<lambda>j. if j \<in> set (chain ow)
           then (st j)\<lparr>c_accounting_errors := wadd (c_accounting_errors (st j)) 1\<rparr> else st j, None))"
proof -
  have "record_accounting_error ow st = (\<lambda>j. if j \<in> set (chain ow)
      then (st j)\<lparr>c_accounting_errors := wadd (c_accounting_errors (st j)) 1\<rparr> else st j)"
    using assms
  proof (induction ow arbitrary: st)
    case (MemoryOwner i b p)
    show ?case
    proof (cases p)
      case (Some q)
      have "i \<notin> set (chain q)" using MemoryOwner.prems Some parent_chain by simp
      with MemoryOwner Some show ?thesis by (auto simp: Let_def fun_eq_iff)
    qed (auto simp: Let_def fun_eq_iff)
  qed
  then show ?thesis by (simp add: replace_accounted_bytes_def)
qed

theorem replace_accounted_exact_witness:
  "snd (replace_accounted_bytes 10 4 2 demo_owner (\<lambda>_. counters_new)) = Some 8 \<and>
   c_accounting_errors (fst (replace_accounted_bytes 0 1 0 demo_owner (\<lambda>_. counters_new)) 0) = 1"
proof -
  have wf: "wf_owner demo_owner" by (simp add: demo_owner_def budget_ok_def budget_compact_def)
  show ?thesis
    unfolding replace_accounted_exact [OF wf] by (simp add: demo_owner_def counters_new_def)
qed

end
