(* ===== verification/Work_Budget.thy ===== *)
theory Work_Budget
  imports Memory
begin

text \<open>
  The per-poll work quantum of \<^verbatim>\<open>sparrow-model/src/budget.rs\<close> and the in-flight counter of
  \<^verbatim>\<open>sparrow-model/src/inflight.rs\<close>. Both are shared atomics. \<open>consume\<close> is modelled twice: as
  the atomic specification a single caller sees, and as the compare-exchange loop of the code,
  one atomic access per step, so that callers may interleave.
\<close>

section \<open>The quantum\<close>

record work_budget =
  remaining :: nat
  quantum :: nat
  lifetime_left :: nat

definition work_new :: "nat \<Rightarrow> work_budget" where
  "work_new q = \<lparr>remaining = q, quantum = q, lifetime_left = u64_max\<rparr>"

definition with_lifetime_cap :: "nat \<Rightarrow> work_budget \<Rightarrow> work_budget" where
  "with_lifetime_cap c b = b\<lparr>lifetime_left := c\<rparr>"

definition would_exhaust :: "nat \<Rightarrow> work_budget \<Rightarrow> bool" where
  "would_exhaust units b \<longleftrightarrow> units > 0 \<and> remaining b < units"

definition begin_quantum :: "work_budget \<Rightarrow> work_budget" where
  "begin_quantum b = b\<lparr>remaining := quantum b\<rparr>"

definition exhausted :: "bool \<Rightarrow> unit result" where
  "exhausted retry = Inl (with_retryable retry (new_error ResourceExhausted))"

definition consume :: "nat \<Rightarrow> work_budget \<Rightarrow> work_budget \<times> unit result" where
  "consume units b =
     (if units = 0 then (b, Ok ())
      else if lifetime_left b \<noteq> u64_max \<and> lifetime_left b < units then (b, exhausted False)
      else if remaining b < units then (b, exhausted True)
      else (b\<lparr>remaining := remaining b - units,
              lifetime_left := (if lifetime_left b \<noteq> u64_max then lifetime_left b - units else u64_max)\<rparr>,
            Ok ()))"

section \<open>The loop of \<open>consume\<close>, one atomic access per step\<close>

datatype consume_pc =
    LoadLife
  | LoadLeft nat
  | Swap nat nat
  | DebitLife
  | Finished "unit result"

record consumer =
  c_units :: nat
  c_pc :: consume_pc

definition consume_call :: "nat \<Rightarrow> consumer" where
  "consume_call units = \<lparr>c_units = units, c_pc = (if units = 0 then Finished (Ok ()) else LoadLife)\<rparr>"

definition thread_step :: "work_budget \<Rightarrow> consumer \<Rightarrow> work_budget \<times> consumer" where
  "thread_step b t =
     (case c_pc t of
        LoadLife \<Rightarrow>
          if lifetime_left b \<noteq> u64_max \<and> lifetime_left b < c_units t
          then (b, t\<lparr>c_pc := Finished (exhausted False)\<rparr>)
          else (b, t\<lparr>c_pc := LoadLeft (lifetime_left b)\<rparr>)
      | LoadLeft life \<Rightarrow>
          if remaining b < c_units t then (b, t\<lparr>c_pc := Finished (exhausted True)\<rparr>)
          else (b, t\<lparr>c_pc := Swap life (remaining b)\<rparr>)
      | Swap life left \<Rightarrow>
          if remaining b = left
          then (b\<lparr>remaining := left - c_units t\<rparr>,
                t\<lparr>c_pc := (if life \<noteq> u64_max then DebitLife else Finished (Ok ()))\<rparr>)
          else (b, t\<lparr>c_pc := LoadLife\<rparr>)
      | DebitLife \<Rightarrow>
          (b\<lparr>lifetime_left := wsub (lifetime_left b) (c_units t)\<rparr>, t\<lparr>c_pc := Finished (Ok ())\<rparr>)
      | Finished r \<Rightarrow> (b, t))"

inductive interleave :: "work_budget \<times> consumer list \<Rightarrow> work_budget \<times> consumer list \<Rightarrow> bool" where
  "i < length ts \<Longrightarrow> thread_step b (ts ! i) = (b', t') \<Longrightarrow> interleave (b, ts) (b', ts[i := t'])"

inductive_cases interleaveE: "interleave (b, ts) s"

text \<open>Units a caller has taken off the quantum.\<close>

definition taken :: "consumer \<Rightarrow> nat" where
  "taken t = (if c_pc t = DebitLife \<or> c_pc t = Finished (Ok ()) then c_units t else 0)"

definition swap_ok :: "consumer \<Rightarrow> bool" where
  "swap_ok t \<longleftrightarrow> (\<forall>life left. c_pc t = Swap life left \<longrightarrow> c_units t \<le> left)"

lemma exhausted_not_Ok [simp]: "exhausted r \<noteq> Ok ()"
  by (simp add: exhausted_def)

lemma thread_step_taken:
  assumes "swap_ok t" "thread_step b t = (b', t')"
  shows "remaining b' + taken t' = remaining b + taken t \<and> swap_ok t' \<and> c_units t' = c_units t"
  using assms by (auto simp: thread_step_def taken_def swap_ok_def split: consume_pc.splits if_splits)

lemma sum_list_update_nat:
  fixes f :: "'a \<Rightarrow> nat"
  assumes "i < length ts"
  shows "sum_list (map f (ts[i := t])) + f (ts ! i) = sum_list (map f ts) + f t"
proof -
  have ts: "ts = take i ts @ ts ! i # drop (Suc i) ts" using assms by (rule id_take_nth_drop)
  have "sum_list (map f ts) = sum_list (map f (take i ts)) + f (ts ! i) + sum_list (map f (drop (Suc i) ts))"
    by (subst ts) simp
  then show ?thesis using assms by (simp add: upd_conv_take_nth_drop)
qed

definition interleave_inv :: "nat \<Rightarrow> work_budget \<times> consumer list \<Rightarrow> bool" where
  "interleave_inv q s \<longleftrightarrow> remaining (fst s) + sum_list (map taken (snd s)) = q \<and> list_all swap_ok (snd s)"

lemma interleave_inv_step:
  assumes "interleave s s'" "interleave_inv q s"
  shows "interleave_inv q s'"
  using assms
proof (induction rule: interleave.induct)
  case (1 i ts b b' t')
  then have "swap_ok (ts ! i)" by (simp add: interleave_inv_def list_all_length)
  note st = thread_step_taken [OF this 1(2)]
  have "list_all swap_ok (ts[i := t'])"
    using 1 st by (auto simp: interleave_inv_def list_all_iff dest: set_update_subset_insert [THEN subsetD])
  with 1 st sum_list_update_nat [OF 1(1), of taken t'] show ?case by (simp add: interleave_inv_def)
qed

lemma interleave_inv_steps: "interleave\<^sup>*\<^sup>* s s' \<Longrightarrow> interleave_inv q s \<Longrightarrow> interleave_inv q s'"
  by (induction rule: rtranclp_induct) (auto intro: interleave_inv_step)

lemma taken_call: "taken (consume_call u) = 0" "swap_ok (consume_call u)"
  by (simp_all add: taken_def swap_ok_def consume_call_def)

section \<open>Properties of the quantum\<close>

text \<open>
  C37: However concurrent calls of \<open>consume\<close> interleave within one quantum, the units of the calls
  that have succeeded plus what remains never exceed the quantum they started from.
\<close>

theorem quantum_never_overspent:
  assumes "interleave\<^sup>*\<^sup>* (b, map consume_call us) (b', ts)"
  shows "remaining b' + sum_list (map c_units (filter (\<lambda>t. c_pc t = Finished (Ok ())) ts)) \<le> remaining b"
proof -
  have "interleave_inv (remaining b) (b, map consume_call us)"
    by (auto simp: interleave_inv_def comp_def taken_call list_all_iff)
  from interleave_inv_steps [OF assms this] have r: "remaining b' + sum_list (map taken ts) = remaining b"
    by (simp add: interleave_inv_def)
  have "sum_list (map c_units (filter (\<lambda>t. c_pc t = Finished (Ok ())) ts)) \<le> sum_list (map taken ts)"
    by (induction ts) (auto simp: taken_def)
  with r show ?thesis by simp
qed

fun schedule_run :: "nat list \<Rightarrow> work_budget \<times> consumer list \<Rightarrow> work_budget \<times> consumer list" where
  "schedule_run [] s = s"
| "schedule_run (i # is) (b, ts) =
     (if i < length ts then (case thread_step b (ts ! i) of (b', t') \<Rightarrow> schedule_run is (b', ts[i := t']))
      else schedule_run is (b, ts))"

lemma schedule_run_interleave: "interleave\<^sup>*\<^sup>* s (schedule_run is s)"
proof (induction "is" s rule: schedule_run.induct)
  case (2 i "is" b ts)
  obtain b' t' where st: "thread_step b (ts ! i) = (b', t')" by fastforce
  show ?case
  proof (cases "i < length ts")
    case True
    with st "2.IH"(1) [OF True st [symmetric]] show ?thesis
      by (auto intro: converse_rtranclp_into_rtranclp interleave.intros)
  qed (use "2.IH"(2) in simp)
qed simp

theorem quantum_never_overspent_witness:
  "\<exists>b' ts. interleave\<^sup>*\<^sup>* (work_new 5, map consume_call [3, 2]) (b', ts) \<and>
     map c_pc ts = [Finished (Ok ()), Finished (Ok ())] \<and> remaining b' + 5 \<le> 5"
proof -
  let ?s = "schedule_run [0, 1, 0, 1, 0, 1, 1, 1, 1] (work_new 5, map consume_call [3, 2])"
  have s: "?s = (\<lparr>remaining = 0, quantum = 5, lifetime_left = u64_max\<rparr>,
      [\<lparr>c_units = 3, c_pc = Finished (Ok ())\<rparr>, \<lparr>c_units = 2, c_pc = Finished (Ok ())\<rparr>])"
    by (simp add: work_new_def consume_call_def thread_step_def)
  have run: "interleave\<^sup>*\<^sup>* (work_new 5, map consume_call [3, 2]) ?s" by (rule schedule_run_interleave)
  from quantum_never_overspent [OF run [unfolded s]] run [unfolded s] show ?thesis
    by (intro exI conjI) (assumption, simp_all add: work_new_def)
qed

text \<open>
  A caller that is not interrupted leaves its loop after at most four atomic steps, with the
  state and the result of the atomic specification: enough units on both counters are debited
  exactly, a short lifetime is a final error, a short quantum a retryable one.
\<close>

theorem consume_loop_refines:
  assumes "is_u64 (lifetime_left b)"
  shows "schedule_run [0, 0, 0, 0] (b, [consume_call units]) =
    (fst (consume units b), [\<lparr>c_units = units, c_pc = Finished (snd (consume units b))\<rparr>])"
  using assms
  by (auto simp: consume_call_def thread_step_def consume_def wsub_le is_u64_def)

theorem consume_loop_refines_witness:
  "schedule_run [0, 0, 0, 0] (with_lifetime_cap 4 (work_new 10), [consume_call 3]) =
     (\<lparr>remaining = 7, quantum = 10, lifetime_left = 1\<rparr>, [\<lparr>c_units = 3, c_pc = Finished (Ok ())\<rparr>])"
proof -
  have "is_u64 (lifetime_left (with_lifetime_cap 4 (work_new 10)))"
    by (simp add: with_lifetime_cap_def work_new_def is_u64_def)
  from consume_loop_refines [OF this, of 3] show ?thesis
    by (simp add: consume_def with_lifetime_cap_def work_new_def)
qed

text \<open>
  The lifetime cap is not protected against interleaving: the lifetime is read before the
  quantum is swapped and debited afterwards, so two calls of 3 units can both succeed under a
  lifetime of 4, and the lifetime counter wraps to almost \<open>2 ^ 64\<close>.
\<close>

theorem lifetime_cap_race:
  "\<exists>b' ts. interleave\<^sup>*\<^sup>* (with_lifetime_cap 4 (work_new 10), map consume_call [3, 3]) (b', ts) \<and>
     map c_pc ts = [Finished (Ok ()), Finished (Ok ())] \<and> lifetime_left b' = 18446744073709551614"
proof -
  let ?s = "schedule_run [1, 0, 0, 0, 0, 1, 1, 1] (with_lifetime_cap 4 (work_new 10), map consume_call [3, 3])"
  have s: "?s = (\<lparr>remaining = 4, quantum = 10, lifetime_left = 18446744073709551614\<rparr>,
      [\<lparr>c_units = 3, c_pc = Finished (Ok ())\<rparr>, \<lparr>c_units = 3, c_pc = Finished (Ok ())\<rparr>])"
    by (simp add: work_new_def with_lifetime_cap_def consume_call_def thread_step_def wsub_def)
  have "interleave\<^sup>*\<^sup>* (with_lifetime_cap 4 (work_new 10), map consume_call [3, 3]) ?s"
    by (rule schedule_run_interleave)
  then show ?thesis unfolding s by (intro exI conjI) (assumption, simp_all)
qed

section \<open>In-flight batches\<close>

record inflight =
  sent :: nat
  acked :: nat
  failed :: nat
  marked_failed :: nat
  flush_requested :: bool
  flush_through :: nat

definition inflight_new :: inflight where
  "inflight_new = \<lparr>sent = 0, acked = 0, failed = 0, marked_failed = 0, flush_requested = False, flush_through = 0\<rparr>"

definition request_flush :: "inflight \<Rightarrow> inflight" where
  "request_flush c = c\<lparr>flush_through := max (flush_through c) (sent c), flush_requested := True\<rparr>"

text \<open>One poll of \<open>flush_requested\<close>: ready, taking the request, or pending.\<close>

definition poll_flush :: "inflight \<Rightarrow> inflight \<times> bool" where
  "poll_flush c = (c\<lparr>flush_requested := False\<rparr>, flush_requested c)"

definition enqueue :: "inflight \<Rightarrow> inflight" where
  "enqueue c = c\<lparr>sent := wadd (sent c) 1\<rparr>"

definition ack :: "inflight \<Rightarrow> inflight" where
  "ack c = c\<lparr>acked := wadd (acked c) 1\<rparr>"

definition fail_batch :: "inflight \<Rightarrow> inflight" where
  "fail_batch c = c\<lparr>failed := wadd (failed c) 1\<rparr>"

definition drops_since_mark :: "inflight \<Rightarrow> nat" where
  "drops_since_mark c = failed c - marked_failed c"

definition mark :: "inflight \<Rightarrow> inflight" where
  "mark c = c\<lparr>marked_failed := failed c\<rparr>"

definition pending :: "inflight \<Rightarrow> nat" where
  "pending c = sent c - sat_u64 (acked c + failed c)"

datatype inflight_op = Enqueue | Ack | Fail | Mark | RequestFlush | PollFlush

fun inflight_apply :: "inflight_op \<Rightarrow> inflight \<Rightarrow> inflight" where
  "inflight_apply Enqueue c = enqueue c"
| "inflight_apply Ack c = ack c"
| "inflight_apply Fail c = fail_batch c"
| "inflight_apply Mark c = mark c"
| "inflight_apply RequestFlush c = request_flush c"
| "inflight_apply PollFlush c = fst (poll_flush c)"

text \<open>The sink resolves each batch once: never more receipts than batches handed over.\<close>

fun resolves_once :: "nat \<Rightarrow> inflight_op list \<Rightarrow> bool" where
  "resolves_once n [] = True"
| "resolves_once n (Enqueue # ops) = resolves_once (Suc n) ops"
| "resolves_once n (Ack # ops) = (n > 0 \<and> resolves_once (n - 1) ops)"
| "resolves_once n (Fail # ops) = (n > 0 \<and> resolves_once (n - 1) ops)"
| "resolves_once n (op # ops) = resolves_once n ops"

definition occurs :: "inflight_op \<Rightarrow> inflight_op list \<Rightarrow> nat" where
  "occurs op ops = length (filter (\<lambda>o'. o' = op) ops)"

lemma occurs_simps [simp]:
  "occurs op [] = 0" "occurs op (o' # ops) = (if o' = op then Suc (occurs op ops) else occurs op ops)"
  by (simp_all add: occurs_def)

lemma occurs_append [simp]: "occurs op (xs @ ys) = occurs op xs + occurs op ys"
  by (simp add: occurs_def)

lemma occurs_le: "occurs op ops \<le> length ops"
  by (simp add: occurs_def)

lemma inflight_counts:
  "sent c + length ops \<le> u64_max \<Longrightarrow> acked c + length ops \<le> u64_max \<Longrightarrow> failed c + length ops \<le> u64_max \<Longrightarrow>
     sent (fold inflight_apply ops c) = sent c + occurs Enqueue ops \<and>
     acked (fold inflight_apply ops c) = acked c + occurs Ack ops \<and>
     failed (fold inflight_apply ops c) = failed c + occurs Fail ops"
proof (induction ops arbitrary: c)
  case (Cons op ops)
  then show ?case
    by (cases op) (auto simp: enqueue_def ack_def fail_batch_def mark_def request_flush_def poll_flush_def)
qed simp

lemma resolves_once_le: "resolves_once n ops \<Longrightarrow> occurs Ack ops + occurs Fail ops \<le> n + occurs Enqueue ops"
  by (induction n ops rule: resolves_once.induct) auto

lemma marked_after:
  "Mark \<notin> set ops \<Longrightarrow> marked_failed (fold inflight_apply ops c) = marked_failed c"
proof (induction ops arbitrary: c)
  case (Cons op ops)
  then show ?case
    by (cases op) (auto simp: enqueue_def ack_def fail_batch_def mark_def request_flush_def poll_flush_def)
qed simp

text \<open>
  When every batch is resolved at most once, \<open>pending\<close> is exactly the number of batches handed
  to the sink and not yet acknowledged or failed, so zero means all are resolved; and after a
  mark, \<open>drops_since_mark\<close> is exactly the number of failures since that mark.
\<close>

theorem inflight_exact:
  assumes "resolves_once 0 (ops @ Mark # since)" "Mark \<notin> set since" "length ops + length since < u64_max"
  shows "pending (fold inflight_apply (ops @ Mark # since) inflight_new)
      = occurs Enqueue (ops @ since) - (occurs Ack (ops @ since) + occurs Fail (ops @ since)) \<and>
    occurs Ack (ops @ since) + occurs Fail (ops @ since) \<le> occurs Enqueue (ops @ since) \<and>
    drops_since_mark (fold inflight_apply (ops @ Mark # since) inflight_new) = occurs Fail since"
proof -
  let ?all = "ops @ Mark # since"
  let ?c = "fold inflight_apply ?all inflight_new"
  have len: "length ?all \<le> u64_max" using assms(3) by simp
  have cnt: "sent ?c = occurs Enqueue ?all \<and> acked ?c = occurs Ack ?all \<and> failed ?c = occurs Fail ?all"
    using inflight_counts [of inflight_new ?all] len by (simp add: inflight_new_def)
  have le: "occurs Ack ?all + occurs Fail ?all \<le> occurs Enqueue ?all"
    using resolves_once_le [OF assms(1)] by simp
  have "occurs Enqueue ?all \<le> u64_max" using occurs_le [of Enqueue ?all] len by simp
  with cnt le have pend: "pending ?c = occurs Enqueue ?all - (occurs Ack ?all + occurs Fail ?all)"
    by (simp add: pending_def is_u64_def)
  have "marked_failed ?c = failed (fold inflight_apply ops inflight_new)"
    using marked_after [OF assms(2)] by (simp add: mark_def)
  also have "\<dots> = occurs Fail ops"
    using inflight_counts [of inflight_new ops] len by (simp add: inflight_new_def)
  finally have "drops_since_mark ?c = occurs Fail since" using cnt by (simp add: drops_since_mark_def)
  with pend le show ?thesis by simp
qed

theorem inflight_exact_witness:
  "pending (fold inflight_apply [Enqueue, Enqueue, Enqueue, Fail, Mark, Fail] inflight_new) = 1 \<and>
   drops_since_mark (fold inflight_apply [Enqueue, Enqueue, Enqueue, Fail, Mark, Fail] inflight_new) = 1"
  using inflight_exact [of "[Enqueue, Enqueue, Enqueue, Fail]" "[Fail]"] by simp

end
