(* ===== verification/Timer_Heap.thy ===== *)
theory Timer_Heap
  imports Containers "HOL-Library.Product_Lexorder"
begin

text \<open>
  The bounded timer heap of \<^verbatim>\<open>sparrow-runtime/src/timer.rs\<close>: a priority queue with tombstones.
  Cancelling and replacing a timer leave its heap entry behind; an entry fires only if its
  generation and deadline are still current. The development shows that the tombstones are
  invisible: the component implements a finite map from timer to deadline.
\<close>

section \<open>State and operations\<close>

record timer_id =
  t_operator :: nat
  t_namespace :: nat

definition timer_window :: "nat \<Rightarrow> int \<Rightarrow> timer_id" where
  "timer_window op window_end = \<lparr>t_operator = op, t_namespace = i64_as_u64 window_end\<rparr>"

type_synonym heap_entry = "int \<times> nat \<times> nat"

record bounded_timers =
  bt_operator :: nat
  bt_max :: nat
  gens :: "(timer_id, nat) hmap"
  deadlines :: "(timer_id, int) hmap"
  theap :: "heap_entry list"
  cancelled :: nat

definition timers_new :: "nat \<Rightarrow> nat \<Rightarrow> bounded_timers result" where
  "timers_new op mx =
     (if mx = 0 then Err InvalidArgument
      else Ok \<lparr>bt_operator = op, bt_max = mx, gens = [], deadlines = [], theap = [], cancelled = 0\<rparr>)"

definition live :: "bounded_timers \<Rightarrow> nat" where
  "live t = length (gens t)"

definition heap_len :: "bounded_timers \<Rightarrow> nat" where
  "heap_len t = length (theap t)"

definition peek_deadline :: "bounded_timers \<Rightarrow> int option" where
  "peek_deadline t = map_option fst (heap_peek (theap t))"

definition compact_if_needed :: "bounded_timers \<Rightarrow> bounded_timers" where
  "compact_if_needed t =
     (if heap_len t \<le> sat_u64 (bt_max t * 2) then t
      else t\<lparr>theap := fold (\<lambda>(i, g) fresh.
               case map_of (deadlines t) i of
                 Some at \<Rightarrow> insort (at, g, t_namespace i) fresh
               | None \<Rightarrow> fresh) (gens t) []\<rparr>)"

definition schedule :: "timer_id \<Rightarrow> int \<Rightarrow> bounded_timers \<Rightarrow> (bounded_timers \<times> nat) result" where
  "schedule i fire_at t =
     (if t_operator i \<noteq> bt_operator t then Err Internal
      else
        let replacing = map_of (gens t) i \<noteq> None
        in if \<not> replacing \<and> length (gens t) \<ge> bt_max t
           then Inl (with_retryable False (new_error ResourceExhausted))
           else
             let gen = sat_u64 ((case map_of (gens t) i of None \<Rightarrow> 0 | Some g \<Rightarrow> g) + 1)
             in Ok (compact_if_needed (t\<lparr>
                  cancelled := (if replacing then wadd (cancelled t) 1 else cancelled t),
                  gens := hm_put i gen (gens t),
                  deadlines := hm_put i fire_at (deadlines t),
                  theap := insort (fire_at, gen, t_namespace i) (theap t)\<rparr>), gen))"

definition cancel :: "timer_id \<Rightarrow> bounded_timers \<Rightarrow> bounded_timers" where
  "cancel i t =
     (if map_of (gens t) i \<noteq> None
      then t\<lparr>gens := hm_del i (gens t), deadlines := hm_del i (deadlines t),
             cancelled := wadd (cancelled t) 1\<rparr>
      else t)"

definition cancel_all :: "bounded_timers \<Rightarrow> bounded_timers" where
  "cancel_all t = t\<lparr>cancelled := wadd (cancelled t) (length (gens t)), gens := [], deadlines := [], theap := []\<rparr>"

fun pop_loop :: "int \<Rightarrow> heap_entry list \<Rightarrow> bounded_timers \<Rightarrow> bounded_timers \<times> timer_id option" where
  "pop_loop now [] t = (t\<lparr>theap := []\<rparr>, None)"
| "pop_loop now ((at, gen, ns) # rest) t =
     (if at > now then (t\<lparr>theap := (at, gen, ns) # rest\<rparr>, None)
      else let i = \<lparr>t_operator = bt_operator t, t_namespace = ns\<rparr>
           in if map_of (gens t) i = Some gen \<and> map_of (deadlines t) i = Some at
              then (t\<lparr>theap := rest, gens := hm_del i (gens t), deadlines := hm_del i (deadlines t)\<rparr>, Some i)
              else pop_loop now rest t)"

definition pop_due :: "int \<Rightarrow> bounded_timers \<Rightarrow> bounded_timers \<times> timer_id option" where
  "pop_due now t = pop_loop now (theap t) t"

lemma pop_loop_shrinks: "pop_loop now h t = (t', Some i) \<Longrightarrow> length (theap t') < length h"
  by (induction now h t rule: pop_loop.induct) (auto simp: Let_def split: if_splits)

function fire_due :: "int \<Rightarrow> bounded_timers \<Rightarrow> bounded_timers \<times> timer_id list" where
  "fire_due now t =
     (case pop_due now t of
        (t1, None) \<Rightarrow> (t1, [])
      | (t1, Some i) \<Rightarrow> (let (t2, out) = fire_due now t1 in (t2, i # out)))"
  by pat_completeness auto
termination
  by (relation "measure (\<lambda>(now, t). length (theap t))") (auto simp: pop_due_def dest: pop_loop_shrinks [OF sym])

declare fire_due.simps [simp del]

section \<open>The abstract timer table\<close>

definition pending_at :: "bounded_timers \<Rightarrow> timer_id \<Rightarrow> int option" where
  "pending_at t = map_of (deadlines t)"

definition in_heap :: "bounded_timers \<Rightarrow> heap_entry list \<Rightarrow> bool" where
  "in_heap t h \<longleftrightarrow> (\<forall>i g at. map_of (gens t) i = Some g \<longrightarrow> map_of (deadlines t) i = Some at \<longrightarrow>
     (at, g, t_namespace i) \<in> set h)"

definition table_ok :: "bounded_timers \<Rightarrow> bool" where
  "table_ok t \<longleftrightarrow> hm_inv (gens t) \<and> hm_inv (deadlines t) \<and>
     dom (map_of (gens t)) = dom (map_of (deadlines t)) \<and>
     (\<forall>i \<in> dom (map_of (gens t)). t_operator i = bt_operator t) \<and>
     length (gens t) \<le> bt_max t"

definition timers_inv :: "bounded_timers \<Rightarrow> bool" where
  "timers_inv t \<longleftrightarrow> table_ok t \<and> sorted (theap t) \<and> in_heap t (theap t) \<and>
     length (theap t) \<le> sat_u64 (bt_max t * 2)"

lemma pending_live: "table_ok t \<Longrightarrow> pending_at t i = None \<longleftrightarrow> map_of (gens t) i = None"
  unfolding table_ok_def pending_at_def by (metis domIff)

lemma pending_at_theap [simp]: "pending_at (t\<lparr>theap := h\<rparr>) = pending_at t"
  by (simp add: pending_at_def)

lemma table_ok_theap [simp]: "table_ok (t\<lparr>theap := h\<rparr>) = table_ok t"
  by (simp add: table_ok_def)

lemma in_heap_theap [simp]: "in_heap (t\<lparr>theap := h\<rparr>) h' = in_heap t h'"
  by (simp add: in_heap_def)

lemma in_heap_pending:
  "table_ok t \<Longrightarrow> in_heap t h \<Longrightarrow> pending_at t i = Some at \<Longrightarrow> \<exists>g. map_of (gens t) i = Some g \<and> (at, g, t_namespace i) \<in> set h"
  unfolding table_ok_def in_heap_def pending_at_def by (metis domD domI)

definition remove_timer :: "timer_id \<Rightarrow> bounded_timers \<Rightarrow> bounded_timers" where
  "remove_timer i t = t\<lparr>gens := hm_del i (gens t), deadlines := hm_del i (deadlines t)\<rparr>"

lemma remove_timer_ok:
  assumes "table_ok t" "map_of (gens t) i = Some g"
  shows "table_ok (remove_timer i t)" "length (gens (remove_timer i t)) = length (gens t) - 1"
    "pending_at (remove_timer i t) = (pending_at t)(i := None)"
proof -
  have hm: "hm_inv (gens t)" using assms(1) by (simp add: table_ok_def)
  show len: "length (gens (remove_timer i t)) = length (gens t) - 1"
    using hm.len_del [OF hm, of i] assms(2) by (simp add: remove_timer_def)
  have "dom ((map_of (gens t))(i := None)) = dom ((map_of (deadlines t))(i := None))"
    using assms(1) by (auto simp: table_ok_def)
  with assms(1) len show "table_ok (remove_timer i t)"
    unfolding table_ok_def by (auto simp: remove_timer_def hm_inv_del)
  show "pending_at (remove_timer i t) = (pending_at t)(i := None)"
    by (simp add: pending_at_def remove_timer_def)
qed

lemma in_heap_remove: "in_heap t h \<Longrightarrow> in_heap (remove_timer i t) h"
  by (auto simp: in_heap_def remove_timer_def)

section \<open>Popping one due timer\<close>

lemma timer_id_eq: "t_operator i = op \<Longrightarrow> t_namespace i = ns \<Longrightarrow> i = \<lparr>t_operator = op, t_namespace = ns\<rparr>"
  by (cases i) simp

text \<open>An entry at the head that is not current can be dropped; the current one goes with its timer.\<close>

lemma in_heap_skip:
  assumes ok: "table_ok t" and heap: "in_heap t ((at, g, ns) # rest)"
    and stale: "\<not> (map_of (gens t) \<lparr>t_operator = bt_operator t, t_namespace = ns\<rparr> = Some g \<and>
      map_of (deadlines t) \<lparr>t_operator = bt_operator t, t_namespace = ns\<rparr> = Some at)"
  shows "in_heap t rest"
  unfolding in_heap_def
proof (intro allI impI)
  fix i g' at' assume l: "map_of (gens t) i = Some g'" "map_of (deadlines t) i = Some at'"
  then have "t_operator i = bt_operator t" using ok by (auto simp: table_ok_def)
  then have "t_namespace i = ns \<Longrightarrow> i = \<lparr>t_operator = bt_operator t, t_namespace = ns\<rparr>"
    by (rule timer_id_eq)
  then have "(at', g', t_namespace i) \<noteq> (at, g, ns)" using l stale by auto
  moreover have "(at', g', t_namespace i) \<in> set ((at, g, ns) # rest)"
    using heap l unfolding in_heap_def by blast
  ultimately show "(at', g', t_namespace i) \<in> set rest" by auto
qed

lemma in_heap_fire:
  assumes ok: "table_ok t" and heap: "in_heap t ((at, g, ns) # rest)"
    and i: "i = \<lparr>t_operator = bt_operator t, t_namespace = ns\<rparr>"
  shows "in_heap (remove_timer i t) rest"
  unfolding in_heap_def
proof (intro allI impI)
  fix j g' at' assume l: "map_of (gens (remove_timer i t)) j = Some g'" "map_of (deadlines (remove_timer i t)) j = Some at'"
  then have j: "j \<noteq> i" and l': "map_of (gens t) j = Some g'" "map_of (deadlines t) j = Some at'"
    by (auto simp: remove_timer_def split: if_splits)
  have "t_operator j = bt_operator t" using ok l' by (auto simp: table_ok_def)
  then have "t_namespace j = ns \<Longrightarrow> j = i" unfolding i by (rule timer_id_eq)
  with j have "t_namespace j \<noteq> ns" by blast
  moreover have "(at', g', t_namespace j) \<in> set ((at, g, ns) # rest)"
    using heap l' unfolding in_heap_def by blast
  ultimately show "(at', g', t_namespace j) \<in> set rest" by simp
qed

lemma pop_loop_spec:
  assumes "table_ok t" "in_heap t h" "sorted h" "pop_loop now h t = (t', r)"
  shows "\<exists>h'. sorted h' \<and> length h' \<le> length h \<and>
    (case r of
       None \<Rightarrow> t' = t\<lparr>theap := h'\<rparr> \<and> in_heap t h' \<and> (\<forall>i at. pending_at t i = Some at \<longrightarrow> now < at)
     | Some i \<Rightarrow> t' = (remove_timer i t)\<lparr>theap := h'\<rparr> \<and> in_heap (remove_timer i t) h' \<and>
         (\<exists>g at. map_of (gens t) i = Some g \<and> pending_at t i = Some at \<and> at \<le> now \<and>
            (\<forall>j at'. pending_at t j = Some at' \<longrightarrow> at \<le> at')))"
  using assms
proof (induction now h t rule: pop_loop.induct)
  case (1 now t)
  then have "pending_at t i = None" for i using in_heap_pending [of t "[]" i] by (cases "pending_at t i") auto
  with 1 show ?case by auto
next
  case (2 now at g ns rest t)
  let ?i = "\<lparr>t_operator = bt_operator t, t_namespace = ns\<rparr>"
  have least: "at \<le> at'" if "pending_at t j = Some at'" for j at'
  proof -
    from in_heap_pending [OF "2.prems"(1,2) that] obtain g' where
      "(at', g', t_namespace j) \<in> set ((at, g, ns) # rest)" by blast
    then have "(at, g, ns) \<le> (at', g', t_namespace j)"
      by (intro heap.peek_least [OF "2.prems"(3)]) (simp_all only: heap_peek_def list.case)
    then show ?thesis by auto
  qed
  consider (later) "at > now" | (fire) "at \<le> now" "map_of (gens t) ?i = Some g" "map_of (deadlines t) ?i = Some at"
    | (stale) "at \<le> now" "\<not> (map_of (gens t) ?i = Some g \<and> map_of (deadlines t) ?i = Some at)" by fastforce
  then show ?case
  proof cases
    case later
    with "2.prems" least show ?thesis by (intro exI [of _ "(at, g, ns) # rest"]) fastforce
  next
    case fire
    with "2.prems"(4) have "t' = (remove_timer ?i t)\<lparr>theap := rest\<rparr>" "r = Some ?i"
      by (auto simp: remove_timer_def Let_def)
    with fire "2.prems"(3) least in_heap_fire [OF "2.prems"(1,2) refl] show ?thesis
      by (intro exI [of _ rest]) (auto simp: pending_at_def)
  next
    case stale
    with "2.prems"(4) have "pop_loop now rest t = (t', r)" by (auto simp: Let_def)
    with "2.IH" [OF _ refl _ "2.prems"(1) in_heap_skip [OF "2.prems"(1,2) stale(2)]] stale "2.prems"(3)
    obtain h' where "sorted h' \<and> length h' \<le> length rest \<and> (case r of
       None \<Rightarrow> t' = t\<lparr>theap := h'\<rparr> \<and> in_heap t h' \<and> (\<forall>i at. pending_at t i = Some at \<longrightarrow> now < at)
     | Some i \<Rightarrow> t' = (remove_timer i t)\<lparr>theap := h'\<rparr> \<and> in_heap (remove_timer i t) h' \<and>
         (\<exists>g at. map_of (gens t) i = Some g \<and> pending_at t i = Some at \<and> at \<le> now \<and>
            (\<forall>j at'. pending_at t j = Some at' \<longrightarrow> at \<le> at')))" by auto
    then show ?thesis by (intro exI [of _ h']) auto
  qed
qed

lemma pop_due_None:
  assumes "timers_inv t" "pop_due now t = (t', None)"
  shows "timers_inv t' \<and> pending_at t' = pending_at t \<and> (\<forall>i at. pending_at t i = Some at \<longrightarrow> now < at)"
proof -
  have ok: "table_ok t" "in_heap t (theap t)" "sorted (theap t)" using assms(1) by (auto simp: timers_inv_def)
  from pop_loop_spec [OF ok assms(2) [unfolded pop_due_def]] assms(1) show ?thesis
    by (auto simp: timers_inv_def)
qed

lemma pop_due_Some:
  assumes "timers_inv t" "pop_due now t = (t', Some i)"
  shows "timers_inv t' \<and> pending_at t' = (pending_at t)(i := None) \<and>
    (\<exists>at. pending_at t i = Some at \<and> at \<le> now \<and> (\<forall>j at'. pending_at t j = Some at' \<longrightarrow> at \<le> at'))"
proof -
  have ok: "table_ok t" "in_heap t (theap t)" "sorted (theap t)" using assms(1) by (auto simp: timers_inv_def)
  from pop_loop_spec [OF ok assms(2) [unfolded pop_due_def]] obtain h' g at where
    t': "t' = (remove_timer i t)\<lparr>theap := h'\<rparr>" "sorted h'" "length h' \<le> length (theap t)"
      "in_heap (remove_timer i t) h'" and g: "map_of (gens t) i = Some g" and
    p: "pending_at t i = Some at" "at \<le> now" "\<forall>j at'. pending_at t j = Some at' \<longrightarrow> at \<le> at'"
    by auto
  have "bt_max (remove_timer i t) = bt_max t" by (simp add: remove_timer_def)
  with t' remove_timer_ok [OF ok(1) g] assms(1) p show ?thesis by (auto simp: timers_inv_def)
qed

section \<open>Firing, scheduling and cancelling\<close>

lemma fire_due_spec:
  assumes "timers_inv t" "fire_due now t = (t', out)"
  shows "timers_inv t' \<and> distinct out \<and> set out = {i. \<exists>at. pending_at t i = Some at \<and> at \<le> now} \<and>
    sorted (map (\<lambda>i. the (pending_at t i)) out) \<and>
    pending_at t' = (\<lambda>i. if i \<in> set out then None else pending_at t i)"
  using assms
proof (induction now t arbitrary: out rule: fire_due.induct)
  case (1 now t)
  obtain t1 r where pop: "pop_due now t = (t1, r)" by fastforce
  show ?case
  proof (cases r)
    case None
    with pop "1.prems"(2) have "t' = t1" "out = []" by (auto simp: fire_due.simps [of now t])
    with pop_due_None [OF "1.prems"(1), of now t1] pop None show ?thesis by force
  next
    case (Some i)
    with pop "1.prems"(2) obtain rest where rec: "fire_due now t1 = (t', rest)" and out: "out = i # rest"
      by (auto simp: fire_due.simps [of now t] split: prod.splits)
    from pop_due_Some [OF "1.prems"(1)] pop Some obtain at where inv: "timers_inv t1"
      and p1: "pending_at t1 = (pending_at t)(i := None)" and i: "pending_at t i = Some at" "at \<le> now"
      and least: "\<And>j at'. pending_at t j = Some at' \<Longrightarrow> at \<le> at'" by blast
    from "1.IH" [OF pop [symmetric] Some inv rec]
    have inv': "timers_inv t'" and d: "distinct rest" and s: "set rest = {j. \<exists>at. pending_at t1 j = Some at \<and> at \<le> now}"
      and srt: "sorted (map (\<lambda>j. the (pending_at t1 j)) rest)"
      and p': "pending_at t' = (\<lambda>j. if j \<in> set rest then None else pending_at t1 j)" by auto
    have ni: "i \<notin> set rest" using s p1 by auto
    have "map (\<lambda>j. the (pending_at t1 j)) rest = map (\<lambda>j. the (pending_at t j)) rest"
      using ni p1 by (auto intro!: map_cong)
    with srt have srt': "sorted (map (\<lambda>j. the (pending_at t j)) rest)" by (simp only:)
    moreover have "at \<le> the (pending_at t j)" if "j \<in> set rest" for j
      using that s p1 least by (fastforce split: if_splits)
    ultimately have "sorted (map (\<lambda>j. the (pending_at t j)) out)" using i(1) by (simp add: out)
    moreover have "set out = {j. \<exists>at. pending_at t j = Some at \<and> at \<le> now}"
      using s p1 i by (auto simp: out split: if_splits)
    ultimately show ?thesis using inv' d ni p' p1 by (auto simp: out fun_eq_iff)
  qed
qed

definition fresh_entries :: "bounded_timers \<Rightarrow> (timer_id \<times> nat) list \<Rightarrow> heap_entry list \<Rightarrow> heap_entry list" where
  "fresh_entries t gs h = fold (\<lambda>(i, g) fresh.
     case map_of (deadlines t) i of Some at \<Rightarrow> insort (at, g, t_namespace i) fresh | None \<Rightarrow> fresh) gs h"

lemma fresh_entries_spec:
  "sorted h \<Longrightarrow> sorted (fresh_entries t gs h) \<and> length (fresh_entries t gs h) \<le> length gs + length h \<and>
     set (fresh_entries t gs h) = set h \<union>
       {(at, g, t_namespace i) | i g at. (i, g) \<in> set gs \<and> map_of (deadlines t) i = Some at}"
proof (induction gs arbitrary: h)
  case (Cons x gs)
  obtain i g where x: "x = (i, g)" by fastforce
  let ?h = "case map_of (deadlines t) i of Some at \<Rightarrow> insort (at, g, t_namespace i) h | None \<Rightarrow> h"
  have step: "fresh_entries t (x # gs) h = fresh_entries t gs ?h" by (simp add: fresh_entries_def x)
  have "sorted ?h" using Cons.prems by (auto simp: sorted_insort split: option.splits)
  note ih = Cons.IH [OF this]
  have "set (fresh_entries t (x # gs) h) = set h \<union>
      {(at, g, t_namespace i) | i g at. (i, g) \<in> set (x # gs) \<and> map_of (deadlines t) i = Some at}"
    using ih unfolding step by (cases "map_of (deadlines t) i") (auto simp: set_insort_key x)
  moreover have "length (fresh_entries t (x # gs) h) \<le> length (x # gs) + length h"
    using ih unfolding step by (cases "map_of (deadlines t) i") simp_all
  ultimately show ?case using ih unfolding step by blast
qed (simp add: fresh_entries_def)

lemma compact_spec:
  assumes "table_ok t" "sorted (theap t)" "in_heap t (theap t)" "is_u64 (bt_max t)"
  shows "\<exists>h. compact_if_needed t = t\<lparr>theap := h\<rparr> \<and> sorted h \<and> in_heap t h \<and> length h \<le> sat_u64 (bt_max t * 2)"
proof (cases "heap_len t \<le> sat_u64 (bt_max t * 2)")
  case True
  then show ?thesis using assms by (intro exI [of _ "theap t"]) (simp add: compact_if_needed_def heap_len_def)
next
  case False
  let ?h = "fresh_entries t (gens t) []"
  have eq: "compact_if_needed t = t\<lparr>theap := ?h\<rparr>" using False by (simp add: compact_if_needed_def fresh_entries_def)
  have sp: "sorted ?h" "length ?h \<le> length (gens t)"
    "set ?h = {(at, g, t_namespace i) | i g at. (i, g) \<in> set (gens t) \<and> map_of (deadlines t) i = Some at}"
    using fresh_entries_spec [of "[]" t "gens t"] by auto
  have "length ?h \<le> sat_u64 (bt_max t * 2)"
    using sp(2) assms(1,4) by (auto simp: table_ok_def sat_u64_def is_u64_def)
  moreover have "in_heap t ?h" unfolding in_heap_def sp(3) by (auto dest: map_of_SomeD)
  ultimately show ?thesis using eq sp(1) by blast
qed

lemma schedule_ok:
  assumes inv: "timers_inv t" and u: "is_u64 (bt_max t)" and op: "t_operator i = bt_operator t"
    and room: "map_of (gens t) i \<noteq> None \<or> length (gens t) < bt_max t"
  shows "\<exists>t' g. schedule i at t = Ok (t', g) \<and> timers_inv t' \<and> pending_at t' = (pending_at t)(i \<mapsto> at) \<and>
    bt_operator t' = bt_operator t \<and> bt_max t' = bt_max t"
proof -
  define g where "g = sat_u64 ((case map_of (gens t) i of None \<Rightarrow> 0 | Some g \<Rightarrow> g) + 1)"
  define t1 where "t1 = t\<lparr>cancelled := (if map_of (gens t) i \<noteq> None then wadd (cancelled t) 1 else cancelled t),
    gens := hm_put i g (gens t), deadlines := hm_put i at (deadlines t),
    theap := insort (at, g, t_namespace i) (theap t)\<rparr>"
  have sch: "schedule i at t = Ok (compact_if_needed t1, g)"
    using op room by (auto simp: schedule_def Let_def g_def t1_def)
  have hm: "hm_inv (gens t)" "hm_inv (deadlines t)" and ok: "table_ok t"
    using inv by (auto simp: timers_inv_def table_ok_def)
  have "length (gens t1) \<le> bt_max t"
    using hm.len_put [OF hm(1), of i g] room ok by (auto simp: t1_def table_ok_def split: if_splits)
  then have ok1: "table_ok t1"
    using ok op unfolding table_ok_def by (auto simp: t1_def hm_inv_put)
  have "in_heap t1 (theap t1)"
    using inv by (auto simp: timers_inv_def in_heap_def t1_def set_insort_key split: if_splits)
  moreover have "sorted (theap t1)" using inv by (simp add: timers_inv_def t1_def sorted_insort)
  ultimately obtain h where h: "compact_if_needed t1 = t1\<lparr>theap := h\<rparr>" "sorted h" "in_heap t1 h"
    "length h \<le> sat_u64 (bt_max t1 * 2)"
    using compact_spec [OF ok1] u by (auto simp: t1_def)
  have "timers_inv (compact_if_needed t1)" using h ok1 by (simp add: timers_inv_def)
  moreover have "pending_at (compact_if_needed t1) = (pending_at t)(i \<mapsto> at)"
    using h by (simp add: pending_at_def t1_def)
  ultimately show ?thesis using sch h by (auto simp: t1_def)
qed

lemma schedule_operator: "schedule i at t = Ok (t', g) \<Longrightarrow> bt_operator t' = bt_operator t"
  by (auto simp: schedule_def Let_def compact_if_needed_def split: if_splits)

lemma cancel_spec:
  assumes inv: "timers_inv t"
  shows "timers_inv (cancel i t) \<and> pending_at (cancel i t) = (pending_at t)(i := None)"
proof (cases "map_of (gens t) i")
  case None
  then have "pending_at t i = None" using pending_live inv by (simp add: timers_inv_def)
  with None inv show ?thesis by (auto simp: cancel_def)
next
  case (Some g)
  let ?t = "remove_timer i t"
  have c: "cancel i t = ?t\<lparr>cancelled := wadd (cancelled t) 1\<rparr>" by (simp add: cancel_def Some remove_timer_def)
  have ok: "table_ok t" using inv by (simp add: timers_inv_def)
  have "in_heap ?t (theap t)" using inv in_heap_remove by (simp add: timers_inv_def)
  with remove_timer_ok [OF ok Some] inv show ?thesis
    unfolding c by (simp add: timers_inv_def table_ok_def in_heap_def pending_at_def remove_timer_def)
qed

lemma cancel_all_spec: "timers_inv t \<Longrightarrow> timers_inv (cancel_all t) \<and> pending_at (cancel_all t) = Map.empty"
  by (simp add: cancel_all_def timers_inv_def table_ok_def in_heap_def pending_at_def)

section \<open>The timer table as an interface\<close>

text \<open>
  What an operator with timers relies on: scheduling, cancelling and firing act on the table of
  pending deadlines, whatever the heap holds.
\<close>

locale timer_table =
  fixes pending :: "'t \<Rightarrow> timer_id \<Rightarrow> int option"
    and sched :: "timer_id \<Rightarrow> int \<Rightarrow> 't \<Rightarrow> ('t \<times> nat) result"
    and unsched :: "timer_id \<Rightarrow> 't \<Rightarrow> 't"
    and fire :: "int \<Rightarrow> 't \<Rightarrow> 't \<times> timer_id list"
    and invar :: "'t \<Rightarrow> bool"
  assumes sched_pending: "invar t \<Longrightarrow> sched i at t = Ok (t', g) \<Longrightarrow> invar t' \<and> pending t' = (pending t)(i \<mapsto> at)"
    and unsched_pending: "invar t \<Longrightarrow> invar (unsched i t) \<and> pending (unsched i t) = (pending t)(i := None)"
    and fire_pending: "invar t \<Longrightarrow> fire now t = (t', out) \<Longrightarrow> invar t' \<and> distinct out \<and>
      set out = {i. \<exists>at. pending t i = Some at \<and> at \<le> now} \<and>
      pending t' = (\<lambda>i. if i \<in> set out then None else pending t i)"
begin

lemma fire_leaves_later:
  assumes "invar t" "fire now t = (t', out)" "pending t' i = Some at"
  shows "now < at"
  using fire_pending [OF assms(1,2)] assms(3) by (auto split: if_splits)

lemma fire_again_empty:
  assumes "invar t" "fire now t = (t', out)" "fire now' t' = (t'', out')" "now' \<le> now"
  shows "out' = []"
proof -
  have "invar t'" using fire_pending [OF assms(1,2)] by blast
  then have s: "set out' = {i. \<exists>at. pending t' i = Some at \<and> at \<le> now'}"
    using fire_pending [OF _ assms(3)] by blast
  have "i \<notin> set out'" for i
  proof
    assume "i \<in> set out'"
    then obtain at where "pending t' i = Some at" "at \<le> now'" unfolding s by blast
    with fire_leaves_later [OF assms(1,2)] assms(4) show False by fastforce
  qed
  then show ?thesis by (cases out') auto
qed

lemma sched_then_fire:
  assumes "invar t" "sched i at t = Ok (t1, g)" "fire now t1 = (t2, out)"
  shows "i \<in> set out \<longleftrightarrow> at \<le> now"
  using sched_pending [OF assms(1,2)] fire_pending [OF _ assms(3)] by auto

end

lemma schedule_Inr_room:
  "schedule i at t = Ok r \<Longrightarrow>
     t_operator i = bt_operator t \<and> (map_of (gens t) i \<noteq> None \<or> length (gens t) < bt_max t)"
  by (auto simp: schedule_def Let_def split: if_splits)

lemma schedule_spec:
  assumes "timers_inv t \<and> is_u64 (bt_max t)" "schedule i at t = Ok (t', g)"
  shows "(timers_inv t' \<and> is_u64 (bt_max t')) \<and> pending_at t' = (pending_at t)(i \<mapsto> at)"
proof -
  note room = schedule_Inr_room [OF assms(2)]
  obtain u g' where "schedule i at t = Ok (u, g')" "timers_inv u" "pending_at u = (pending_at t)(i \<mapsto> at)"
      "bt_max u = bt_max t"
    using schedule_ok [of t i at] assms(1) room by blast
  with assms show ?thesis by simp
qed

lemma pop_loop_max: "pop_loop now h t = (t', r) \<Longrightarrow> bt_max t' = bt_max t \<and> bt_operator t' = bt_operator t"
  by (induction now h t rule: pop_loop.induct) (auto simp: Let_def split: if_splits)

lemma fire_due_max: "fire_due now t = (t', out) \<Longrightarrow> bt_max t' = bt_max t \<and> bt_operator t' = bt_operator t"
proof (induction now t arbitrary: out rule: fire_due.induct)
  case (1 now t)
  obtain t1 r where pop: "pop_due now t = (t1, r)" by fastforce
  then have m: "bt_max t1 = bt_max t \<and> bt_operator t1 = bt_operator t" using pop_loop_max by (simp add: pop_due_def)
  show ?case
  proof (cases r)
    case None
    with 1 pop m show ?thesis by (simp add: fire_due.simps [of now t])
  next
    case (Some i)
    with "1.prems" pop obtain rest where "fire_due now t1 = (t', rest)"
      by (auto simp: fire_due.simps [of now t] split: prod.splits)
    with "1.IH" [OF pop [symmetric] Some] m show ?thesis by simp
  qed
qed

interpretation timers: timer_table pending_at schedule cancel fire_due "\<lambda>t. timers_inv t \<and> is_u64 (bt_max t)"
proof unfold_locales
  fix t t' :: bounded_timers and i at g now out
  assume inv: "timers_inv t \<and> is_u64 (bt_max t)"
  show "schedule i at t = Ok (t', g) \<Longrightarrow> (timers_inv t' \<and> is_u64 (bt_max t')) \<and> pending_at t' = (pending_at t)(i \<mapsto> at)"
    by (rule schedule_spec [OF inv])
  have "bt_max (cancel i t) = bt_max t" by (simp add: cancel_def)
  then show "(timers_inv (cancel i t) \<and> is_u64 (bt_max (cancel i t))) \<and> pending_at (cancel i t) = (pending_at t)(i := None)"
    using cancel_spec inv by simp
  show "fire_due now t = (t', out) \<Longrightarrow> (timers_inv t' \<and> is_u64 (bt_max t')) \<and> distinct out \<and>
      set out = {i. \<exists>at. pending_at t i = Some at \<and> at \<le> now} \<and>
      pending_at t' = (\<lambda>i. if i \<in> set out then None else pending_at t i)"
    using fire_due_spec [of t now t' out] fire_due_max [of now t t' out] inv by auto
qed

section \<open>Properties\<close>

text \<open>
  C29: Firing at a time returns every timer whose current deadline has come, each exactly once and
  in deadline order, whatever stale entries the heap holds; those timers are gone, every other
  timer keeps its deadline, and firing again up to that time returns nothing.
\<close>

theorem fire_due_exact:
  assumes inv: "timers_inv t" "is_u64 (bt_max t)" and fire: "fire_due now t = (t', out)"
  shows "set out = {i. \<exists>at. pending_at t i = Some at \<and> at \<le> now} \<and> distinct out \<and>
    sorted (map (\<lambda>i. the (pending_at t i)) out) \<and>
    pending_at t' = (\<lambda>i. if i \<in> set out then None else pending_at t i) \<and> timers_inv t' \<and>
    (\<forall>now'. now' \<le> now \<longrightarrow> snd (fire_due now' t') = [])"
proof -
  have "snd (fire_due now' t') = []" if "now' \<le> now" for now'
    using timers.fire_again_empty [OF _ fire _ that] inv by (metis prod.collapse)
  then show ?thesis using fire_due_spec [OF inv(1) fire] by simp
qed

definition demo_timers :: bounded_timers where
  "demo_timers = \<lparr>bt_operator = 3, bt_max = 8,
     gens = [(\<lparr>t_operator = 3, t_namespace = 7\<rparr>, 2)], deadlines = [(\<lparr>t_operator = 3, t_namespace = 7\<rparr>, 2000)],
     theap = [(1000, 1, 7), (2000, 2, 7)], cancelled = 1\<rparr>"

lemma demo_timers_inv: "timers_inv demo_timers \<and> is_u64 (bt_max demo_timers)"
  by (auto simp: timers_inv_def table_ok_def hm_inv_def in_heap_def demo_timers_def mach_defs split: if_splits)

theorem fire_due_exact_witness:
  "\<exists>t1 t2. fire_due 1000 demo_timers = (t1, []) \<and>
     fire_due 2000 demo_timers = (t2, [\<lparr>t_operator = 3, t_namespace = 7\<rparr>]) \<and>
     pending_at t2 \<lparr>t_operator = 3, t_namespace = 7\<rparr> = None \<and> timers_inv t2"
proof -
  have inv: "timers_inv demo_timers" "is_u64 (bt_max demo_timers)" using demo_timers_inv by simp_all
  let ?i = "\<lparr>t_operator = 3, t_namespace = 7\<rparr>"
  have "pop_due 1000 demo_timers = (demo_timers\<lparr>theap := [(2000, 2, 7)]\<rparr>, None)"
    by (simp add: pop_due_def demo_timers_def Let_def)
  then have 1: "fire_due 1000 demo_timers = (demo_timers\<lparr>theap := [(2000, 2, 7)]\<rparr>, [])"
    by (subst fire_due.simps) simp
  have "pop_due 2000 demo_timers = (demo_timers\<lparr>theap := [], gens := [], deadlines := []\<rparr>, Some ?i)"
    by (simp add: pop_due_def demo_timers_def Let_def hm_del_def)
  moreover have "fire_due 2000 (demo_timers\<lparr>theap := [], gens := [], deadlines := []\<rparr>)
      = (demo_timers\<lparr>theap := [], gens := [], deadlines := []\<rparr>, [])"
    by (subst fire_due.simps) (simp add: pop_due_def)
  ultimately have 2: "fire_due 2000 demo_timers = (demo_timers\<lparr>theap := [], gens := [], deadlines := []\<rparr>, [?i])"
    by (subst fire_due.simps) simp
  from fire_due_exact [OF inv 2] 1 2 show ?thesis by auto
qed

text \<open>
  Scheduling fails in two cases only: a timer of another operator is an internal error, and a
  new timer beyond the quota exhausts the resource (not retryable). Otherwise it sets the
  timer's deadline, replacing the previous one, touches no other timer and keeps the invariant,
  in particular the bound of twice the quota on the heap, tombstones included.
\<close>

theorem schedule_refines:
  assumes "timers_inv t" "is_u64 (bt_max t)"
  shows "if t_operator i \<noteq> bt_operator t then schedule i at t = Err Internal
    else if pending_at t i = None \<and> live t = bt_max t
      then schedule i at t = Inl (with_retryable False (new_error ResourceExhausted))
    else \<exists>t' g. schedule i at t = Ok (t', g) \<and> pending_at t' = (pending_at t)(i \<mapsto> at) \<and>
      timers_inv t' \<and> heap_len t' \<le> 2 * bt_max t"
proof -
  have ok: "table_ok t" "length (gens t) \<le> bt_max t" using assms(1) by (simp_all add: timers_inv_def table_ok_def)
  have pl: "pending_at t i = None \<longleftrightarrow> map_of (gens t) i = None" by (rule pending_live [OF ok(1)])
  consider (op) "t_operator i \<noteq> bt_operator t"
    | (full) "t_operator i = bt_operator t" "map_of (gens t) i = None" "length (gens t) = bt_max t"
    | (room) "t_operator i = bt_operator t" "map_of (gens t) i \<noteq> None \<or> length (gens t) < bt_max t"
    using ok(2) by fastforce
  then show ?thesis
  proof cases
    case room
    from schedule_ok [OF assms room, of at] obtain t' g where
      t': "schedule i at t = Ok (t', g)" "timers_inv t'" "pending_at t' = (pending_at t)(i \<mapsto> at)" "bt_max t' = bt_max t"
      by blast
    have "sat_u64 (bt_max t * 2) \<le> 2 * bt_max t" by (simp add: sat_u64_def)
    then have "heap_len t' \<le> 2 * bt_max t" using t'(2,4) by (simp add: timers_inv_def heap_len_def)
    with t' room pl show ?thesis by (auto simp: live_def)
  qed (simp_all add: schedule_def pl live_def)
qed

theorem schedule_refines_witness:
  "(\<exists>t' g. schedule \<lparr>t_operator = 3, t_namespace = 7\<rparr> 500 demo_timers = Ok (t', g) \<and>
      pending_at t' \<lparr>t_operator = 3, t_namespace = 7\<rparr> = Some 500 \<and> heap_len t' \<le> 16) \<and>
   schedule \<lparr>t_operator = 4, t_namespace = 7\<rparr> 500 demo_timers = Err Internal"
proof -
  have inv: "timers_inv demo_timers" "is_u64 (bt_max demo_timers)" using demo_timers_inv by simp_all
  have d: "bt_operator demo_timers = 3" "bt_max demo_timers = 8" "live demo_timers = 1"
    by (simp_all add: demo_timers_def live_def)
  from schedule_refines [OF inv, of "\<lparr>t_operator = 3, t_namespace = 7\<rparr>" 500]
    schedule_refines [OF inv, of "\<lparr>t_operator = 4, t_namespace = 7\<rparr>" 500] d
  show ?thesis by auto
qed

end
