(* ===== verification/Aggregate.thy ===== *)
theory Aggregate
  imports Scalar_Codec Window_Kind
begin

text \<open>
  The incremental aggregates of \<^verbatim>\<open>sparrow-runtime/src/aggregate.rs\<close>: construction, update,
  result, and the two snapshot codecs (codec 1 for the classic accumulators, codec 3 which adds
  FIRST, LAST and the moments). An update returns the accumulator together with its result,
  because the code assigns some fields before a later check fails. An encoder returns the bytes
  it appends; what it leaves in the caller's buffer on an error is not read.
\<close>

section \<open>Accumulators\<close>

datatype extended_acc =
    ExtValue bool "scalar option"
  | ExtMoment bool bool nat f64 f64

datatype accumulator =
    AccExtended extended_acc
  | AccCount nat nat bool
  | AccSumI64 int nat
  | AccSumU64 nat nat
  | AccSumF64 f64 nat
  | AccAvg f64 nat bool
  | AccMin "scalar option"
  | AccMax "scalar option"

definition overflow :: "'a result" where
  "overflow = Err IntegerOverflow"

definition moment_input :: "scalar \<Rightarrow> f64 option" where
  "moment_input s =
     (case s of
        SInt64 v \<Rightarrow> Some (f_of_int v)
      | SUInt64 v \<Rightarrow> Some (f_of_int (int v))
      | SFloat64 v \<Rightarrow> if is_finite v then Some v else None
      | _ \<Rightarrow> None)"

definition ext_update :: "scalar \<Rightarrow> extended_acc \<Rightarrow> extended_acc \<times> unit result" where
  "ext_update input a =
     (if is_null input then (a, Ok ())
      else case a of
        ExtValue fst_mode value \<Rightarrow>
          (ExtValue fst_mode (if \<not> fst_mode \<or> value = None then Some input else value), Ok ())
      | ExtMoment sample sqr n mean m2 \<Rightarrow>
          (case moment_input input of
             None \<Rightarrow> (a, Err TypeMismatch)
           | Some x \<Rightarrow>
               if n + 1 > u64_max then (a, overflow)
               else
                 let count = n + 1;
                     delta = f_sub x mean;
                     next_mean = f_add mean (f_div delta (f_of_int (int count)));
                     next_m2 = f_add m2 (f_mul delta (f_sub x next_mean))
                 in if \<not> is_finite next_mean \<or> \<not> is_finite next_m2 then (a, overflow)
                    else (ExtMoment sample sqr count next_mean next_m2, Ok ())))"

definition ext_finish :: "extended_acc \<Rightarrow> scalar" where
  "ext_finish a =
     (case a of
        ExtValue _ value \<Rightarrow> (case value of None \<Rightarrow> SNull | Some v \<Rightarrow> v)
      | ExtMoment sample sqr n mean m2 \<Rightarrow>
          (let s = (if sample then 1 else 0)
           in if n \<le> s then SNull
              else let variance = f_max (f_div m2 (f_of_int (int (n - s)))) f_zero
                   in SFloat64 (if sqr then f_sqrt variance else variance)))"

text \<open>\<open>cmp_ord\<close>: the comparison MIN and MAX use.\<close>

definition cmp_ord :: "scalar \<Rightarrow> scalar \<Rightarrow> ordering option result" where
  "cmp_ord a b =
     (case (a, b) of
        (SInt64 x, SInt64 y) \<Rightarrow> Ok (Some (cmp x y))
      | (SUInt64 x, SUInt64 y) \<Rightarrow> Ok (Some (cmp x y))
      | (SInt64 x, SUInt64 y) \<Rightarrow> if x \<ge> 0 then Ok (Some (cmp (nat x) y)) else Err TypeMismatch
      | (SUInt64 x, SInt64 y) \<Rightarrow> if y \<ge> 0 then Ok (Some (cmp x (nat y))) else Err TypeMismatch
      | (STimestampMicrosUTC x, STimestampMicrosUTC y) \<Rightarrow> Ok (Some (cmp x y))
      | (STimestampMicrosUTC x, SInt64 y) \<Rightarrow> Ok (Some (cmp x y))
      | (SInt64 x, STimestampMicrosUTC y) \<Rightarrow> Ok (Some (cmp x y))
      | (SFloat64 x, SFloat64 y) \<Rightarrow> Ok (partial_cmp x y)
      | (SUtf8 x, SUtf8 y) \<Rightarrow> Ok (Some (cmp x y))
      | (SBytes x, SBytes y) \<Rightarrow> Ok (Some (cmp x y))
      | (SBool x, SBool y) \<Rightarrow> Ok (Some (cmp x y))
      | _ \<Rightarrow> Err TypeMismatch)"

definition acc_new :: "agg_fn \<Rightarrow> data_type \<Rightarrow> bool \<Rightarrow> accumulator result" where
  "acc_new func ty count_star =
     (if func \<in> {AggVarPop, AggVarSamp, AggStddevPop, AggStddevSamp} \<and>
         ty \<notin> {TInt64, TUInt64, TFloat64, TNull} then Err TypeMismatch
      else case func of
        AggFirst \<Rightarrow> Ok (AccExtended (ExtValue True None))
      | AggLast \<Rightarrow> Ok (AccExtended (ExtValue False None))
      | AggVarPop \<Rightarrow> Ok (AccExtended (ExtMoment False False 0 f_zero f_zero))
      | AggVarSamp \<Rightarrow> Ok (AccExtended (ExtMoment True False 0 f_zero f_zero))
      | AggStddevPop \<Rightarrow> Ok (AccExtended (ExtMoment False True 0 f_zero f_zero))
      | AggStddevSamp \<Rightarrow> Ok (AccExtended (ExtMoment True True 0 f_zero f_zero))
      | AggCount \<Rightarrow> Ok (AccCount 0 0 count_star)
      | AggSum \<Rightarrow>
          if ty = TInt64 \<or> ty = TNull then Ok (AccSumI64 0 0)
          else if ty = TUInt64 then Ok (AccSumU64 0 0)
          else if ty = TFloat64 then Ok (AccSumF64 f_zero 0)
          else Err TypeMismatch
      | AggAvg \<Rightarrow> Ok (AccAvg f_zero 0 (ty = TFloat64))
      | AggMin \<Rightarrow> Ok (AccMin None)
      | AggMax \<Rightarrow> Ok (AccMax None))"

definition acc_base_bytes :: nat where "acc_base_bytes = 48"
definition ext_acc_base_bytes :: nat where "ext_acc_base_bytes = 128"

definition acc_tracked_bytes :: "layout \<Rightarrow> accumulator \<Rightarrow> nat" where
  "acc_tracked_bytes L a =
     (case a of
        AccExtended (ExtValue _ (Some v)) \<Rightarrow> ext_acc_base_bytes + resident_bytes L v
      | AccExtended _ \<Rightarrow> ext_acc_base_bytes
      | AccMin (Some v) \<Rightarrow> acc_base_bytes + resident_bytes L v
      | AccMax (Some v) \<Rightarrow> acc_base_bytes + resident_bytes L v
      | _ \<Rightarrow> acc_base_bytes)"

text \<open>Keep the smaller or the greater of a value and the current extreme.\<close>

definition keep_extreme :: "ordering \<Rightarrow> scalar \<Rightarrow> scalar option \<Rightarrow> scalar option \<times> unit result" where
  "keep_extreme wanted value v =
     (if is_null value \<or> scalar_is_nan value then (v, Ok ())
      else case v of
        None \<Rightarrow> (Some value, Ok ())
      | Some cur \<Rightarrow>
          if scalar_is_nan cur then (Some value, Ok ())
          else case cmp_ord value cur of
              Inl e \<Rightarrow> (v, Inl e)
            | Inr r \<Rightarrow> if r = Some wanted then (Some value, Ok ()) else (v, Ok ()))"

definition count_update :: "scalar \<Rightarrow> nat \<Rightarrow> nat \<Rightarrow> bool \<Rightarrow> accumulator \<times> unit result" where
  "count_update value rows non_null star =
     (if rows + 1 > u64_max then (AccCount rows non_null star, overflow)
      else if is_null value then (AccCount (rows + 1) non_null star, Ok ())
      else if non_null + 1 > u64_max then (AccCount (rows + 1) non_null star, overflow)
      else (AccCount (rows + 1) (non_null + 1) star, Ok ()))"

definition sum_i64_update :: "scalar \<Rightarrow> int \<Rightarrow> nat \<Rightarrow> accumulator \<times> unit result" where
  "sum_i64_update value s n =
     (if is_null value then (AccSumI64 s n, Ok ())
      else case (case value of
            SInt64 v \<Rightarrow> Some v
          | SUInt64 v \<Rightarrow> if int v \<le> i64_max then Some (int v) else None
          | _ \<Rightarrow> None) of
        None \<Rightarrow> (AccSumI64 s n, Err TypeMismatch)
      | Some v \<Rightarrow>
          if \<not> is_i64 (s + v) then (AccSumI64 s n, overflow)
          else if n + 1 > u64_max then (AccSumI64 (s + v) n, overflow)
          else (AccSumI64 (s + v) (n + 1), Ok ()))"

definition sum_u64_update :: "scalar \<Rightarrow> nat \<Rightarrow> nat \<Rightarrow> accumulator \<times> unit result" where
  "sum_u64_update value s n =
     (if is_null value then (AccSumU64 s n, Ok ())
      else case (case value of
            SUInt64 v \<Rightarrow> Some v
          | SInt64 v \<Rightarrow> if v \<ge> 0 then Some (nat v) else None
          | _ \<Rightarrow> None) of
        None \<Rightarrow> (AccSumU64 s n, Err TypeMismatch)
      | Some v \<Rightarrow>
          if s + v > u64_max then (AccSumU64 s n, overflow)
          else if n + 1 > u64_max then (AccSumU64 (s + v) n, overflow)
          else (AccSumU64 (s + v) (n + 1), Ok ()))"

definition sum_f64_update :: "scalar \<Rightarrow> f64 \<Rightarrow> nat \<Rightarrow> accumulator \<times> unit result" where
  "sum_f64_update value s n =
     (if is_null value then (AccSumF64 s n, Ok ())
      else case scalar_as_f64 value of
        None \<Rightarrow> (AccSumF64 s n, Err TypeMismatch)
      | Some v \<Rightarrow> (AccSumF64 (f_add s v) (wadd n 1), Ok ()))"

definition is_float :: "scalar \<Rightarrow> bool" where
  "is_float s = (case s of SFloat64 _ \<Rightarrow> True | _ \<Rightarrow> False)"

definition avg_update :: "scalar \<Rightarrow> f64 \<Rightarrow> nat \<Rightarrow> bool \<Rightarrow> accumulator \<times> unit result" where
  "avg_update value s n saw =
     (if is_null value then (AccAvg s n saw, Ok ())
      else let saw1 = (saw \<or> is_float value)
           in case scalar_as_f64 value of
                None \<Rightarrow> (AccAvg s n saw1, Err TypeMismatch)
              | Some v \<Rightarrow>
                  if n + 1 > u64_max then (AccAvg (f_add s v) n saw1, overflow)
                  else (AccAvg (f_add s v) (n + 1) saw1, Ok ()))"

fun acc_update :: "scalar \<Rightarrow> accumulator \<Rightarrow> accumulator \<times> unit result" where
  "acc_update value (AccExtended e) = (case ext_update value e of (e1, r) \<Rightarrow> (AccExtended e1, r))"
| "acc_update value (AccCount rows non_null star) = count_update value rows non_null star"
| "acc_update value (AccSumI64 s n) = sum_i64_update value s n"
| "acc_update value (AccSumU64 s n) = sum_u64_update value s n"
| "acc_update value (AccSumF64 s n) = sum_f64_update value s n"
| "acc_update value (AccAvg s n saw) = avg_update value s n saw"
| "acc_update value (AccMin v) = (case keep_extreme Less value v of (v1, r) \<Rightarrow> (AccMin v1, r))"
| "acc_update value (AccMax v) = (case keep_extreme Greater value v of (v1, r) \<Rightarrow> (AccMax v1, r))"

fun acc_finish :: "accumulator \<Rightarrow> scalar" where
  "acc_finish (AccExtended e) = ext_finish e"
| "acc_finish (AccCount rows non_null star) = SInt64 (u64_as_i64 (if star then rows else non_null))"
| "acc_finish (AccSumI64 s n) = (if n = 0 then SNull else SInt64 s)"
| "acc_finish (AccSumU64 s n) = (if n = 0 then SNull else SUInt64 s)"
| "acc_finish (AccSumF64 s n) = (if n = 0 then SNull else SFloat64 s)"
| "acc_finish (AccAvg s n saw) = (if n = 0 then SNull else SFloat64 (f_div s (f_of_int (int n))))"
| "acc_finish (AccMin v) = (case v of None \<Rightarrow> SNull | Some x \<Rightarrow> x)"
| "acc_finish (AccMax v) = (case v of None \<Rightarrow> SNull | Some x \<Rightarrow> x)"

section \<open>Snapshot codecs\<close>

datatype acc_codec = CodecWindow | CodecWindowExt

definition moment_encoded_bytes :: nat where "moment_encoded_bytes = 26"

definition codec1_extended :: "'a result" where
  "codec1_extended = Err UnsupportedRestore"

definition encoded_scalar_resident :: "layout \<Rightarrow> bytes \<Rightarrow> nat" where
  "encoded_scalar_resident L enc =
     (let heap = (case enc of
            tag # _ \<Rightarrow> if tag = 5 \<or> tag = 6 then sat_u64 ((length enc - 5) + 48) else 0
          | [] \<Rightarrow> 0)
      in sat_u64 (size_of_scalar L + heap))"

definition check_value_scalar :: "bytes \<Rightarrow> nat result" where
  "check_value_scalar src =
     (case src of
        [] \<Rightarrow> Err CodecViolation
      | tag # tl1 \<Rightarrow>
          if tag = 1 \<and> (case tl1 of [] \<Rightarrow> True | b # _ \<Rightarrow> b \<noteq> 0 \<and> b \<noteq> 1) then Err CodecViolation
          else if 1 \<le> tag \<and> tag \<le> 7
            then rbind (skip_encoded_value src) (\<lambda>rest. Ok (length src - length rest))
          else Err CodecViolation)"

definition check_moment :: "nat \<Rightarrow> f64 \<Rightarrow> f64 \<Rightarrow> unit result" where
  "check_moment n mean m2 =
     (let valid = (if n = 0 then to_bits mean = 0 \<and> to_bits m2 = 0
                   else is_finite mean \<and> is_finite m2 \<and> f_le f_zero m2 \<and> (n \<noteq> 1 \<or> to_bits m2 = 0))
      in if valid then Ok () else Err CodecViolation)"

definition is_dynamic :: "scalar \<Rightarrow> bool" where
  "is_dynamic s = (case s of SDynamic _ \<Rightarrow> True | _ \<Rightarrow> False)"

definition ext_encoded_len :: "extended_acc \<Rightarrow> nat result" where
  "ext_encoded_len a =
     (case a of
        ExtValue _ None \<Rightarrow> Ok 3
      | ExtValue _ (Some v) \<Rightarrow>
          if is_null v \<or> is_dynamic v then Err UnsupportedRestore
          else rbind (encoded_value_len v) (\<lambda>n. Ok (3 + n))
      | ExtMoment _ _ _ _ _ \<Rightarrow> Ok moment_encoded_bytes)"

definition is_text :: "scalar \<Rightarrow> bool" where
  "is_text s = (case s of SUtf8 _ \<Rightarrow> True | SBytes _ \<Rightarrow> True | _ \<Rightarrow> False)"

definition ext_encode :: "extended_acc \<Rightarrow> bytes result" where
  "ext_encode a =
     (case a of
        ExtValue fst_mode None \<Rightarrow> Ok [8, if fst_mode then 0 else 1, 0]
      | ExtValue fst_mode (Some v) \<Rightarrow>
          if is_null v \<or> is_dynamic v then Err UnsupportedRestore
          else
            rbind (if is_text v
                   then rbind (encoded_value_len v) (\<lambda>n. if n - 5 > u32_max then Err BoundExceeded else Ok ())
                   else Ok ()) (\<lambda>_.
            rbind (encode_value v) (\<lambda>b.
            rbind (check_value_scalar b) (\<lambda>_. Ok ([8, if fst_mode then 0 else 1, 1] @ b))))
      | ExtMoment sample sqr n mean m2 \<Rightarrow>
          rbind (check_moment n mean m2) (\<lambda>_.
            Ok ([9, (if sample then 1 else 0) + (if sqr then 2 else 0)] @ u64_le n @ f64_le mean @ f64_le m2)))"

definition f64_of_le :: "bytes \<Rightarrow> f64" where
  "f64_of_le b = F64 (word_of_nat (from_le_bytes b))"

definition ext_skip :: "layout \<Rightarrow> bytes \<Rightarrow> (nat \<times> bytes) result" where
  "ext_skip L src =
     (case src of
        [] \<Rightarrow> Err CodecViolation
      | tag # _ \<Rightarrow>
          if tag = 8 then
            (if length src < 3 then Err CodecViolation
             else if src ! 1 > 1 then Err CodecViolation
             else if src ! 2 = 0 then Ok (ext_acc_base_bytes, drop 3 src)
             else if src ! 2 = 1 then
               rbind (check_value_scalar (drop 3 src)) (\<lambda>len.
                 Ok (sat_u64 (ext_acc_base_bytes + encoded_scalar_resident L (take len (drop 3 src))),
                     drop (3 + len) src))
             else Err CodecViolation)
          else if tag = 9 then
            (if length src < moment_encoded_bytes then Err CodecViolation
             else if src ! 1 > 3 then Err CodecViolation
             else rbind (check_moment (from_le_bytes (take 8 (drop 2 src)))
                          (f64_of_le (take 8 (drop 10 src))) (f64_of_le (take 8 (drop 18 src))))
                    (\<lambda>_. Ok (ext_acc_base_bytes, drop moment_encoded_bytes src)))
          else Err CodecViolation)"

definition ext_decode :: "layout \<Rightarrow> bytes \<Rightarrow> (extended_acc \<times> bytes) result" where
  "ext_decode L src =
     rbind (ext_skip L src) (\<lambda>(_, cursor).
       if src ! 0 = 8 then
         rbind (if src ! 2 = 1
                then rbind (decode_value (drop 3 src)) (\<lambda>(v, _). Ok (Some v))
                else Ok None)
           (\<lambda>value. Ok (ExtValue (src ! 1 = 0) value, cursor))
       else Ok (ExtMoment (odd (unat (src ! 1))) (odd (unat (src ! 1) div 2))
              (from_le_bytes (take 8 (drop 2 src))) (f64_of_le (take 8 (drop 10 src)))
              (f64_of_le (take 8 (drop 18 src))), cursor))"

definition encode_opt_scalar :: "scalar option \<Rightarrow> bytes result" where
  "encode_opt_scalar v = (case v of None \<Rightarrow> Ok [0] | Some s \<Rightarrow> rbind (encode_value s) (\<lambda>b. Ok (1 # b)))"

definition byte_of_bool :: "bool \<Rightarrow> u8" where
  "byte_of_bool b = (if b then 1 else 0)"

definition encode_codec :: "acc_codec \<Rightarrow> accumulator \<Rightarrow> bytes result" where
  "encode_codec c a =
     (case a of
        AccExtended e \<Rightarrow> if c \<noteq> CodecWindowExt then codec1_extended else ext_encode e
      | AccCount rows non_null star \<Rightarrow> Ok ([1] @ u64_le rows @ u64_le non_null @ [byte_of_bool star])
      | AccSumI64 s n \<Rightarrow> Ok ([2] @ i64_le s @ u64_le n)
      | AccSumU64 s n \<Rightarrow> Ok ([3] @ u64_le s @ u64_le n)
      | AccSumF64 s n \<Rightarrow> Ok ([4] @ f64_le s @ u64_le n)
      | AccAvg s n saw \<Rightarrow> Ok ([5] @ f64_le s @ u64_le n @ [byte_of_bool saw])
      | AccMin v \<Rightarrow> rbind (encode_opt_scalar v) (\<lambda>b. Ok (6 # b))
      | AccMax v \<Rightarrow> rbind (encode_opt_scalar v) (\<lambda>b. Ok (7 # b)))"

definition opt_encoded_len :: "scalar option \<Rightarrow> nat result" where
  "opt_encoded_len v =
     (case v of None \<Rightarrow> Ok 2 | Some s \<Rightarrow> rbind (encoded_value_len s) (\<lambda>n. Ok (2 + n)))"

definition encoded_len_codec :: "acc_codec \<Rightarrow> accumulator \<Rightarrow> nat result" where
  "encoded_len_codec c a =
     (case a of
        AccExtended e \<Rightarrow> if c \<noteq> CodecWindowExt then codec1_extended else ext_encoded_len e
      | AccCount _ _ _ \<Rightarrow> Ok 18
      | AccAvg _ _ _ \<Rightarrow> Ok 18
      | AccMin v \<Rightarrow> opt_encoded_len v
      | AccMax v \<Rightarrow> opt_encoded_len v
      | _ \<Rightarrow> Ok 17)"

definition skip_encoded_codec :: "layout \<Rightarrow> acc_codec \<Rightarrow> bytes \<Rightarrow> (nat \<times> bytes) result" where
  "skip_encoded_codec L c src =
     (case src of
        [] \<Rightarrow> Err CodecViolation
      | tag # tl1 \<Rightarrow>
          if tag = 8 \<or> tag = 9 then (if c \<noteq> CodecWindowExt then codec1_extended else ext_skip L src)
          else if tag = 6 \<or> tag = 7 then
            (case tl1 of
               [] \<Rightarrow> Err CodecViolation
             | opt # tl2 \<Rightarrow>
                 if opt = 0 then Ok (acc_base_bytes, tl2)
                 else if opt = 1 then
                   rbind (skip_encoded_value tl2) (\<lambda>rest.
                     Ok (sat_u64 (acc_base_bytes +
                           encoded_scalar_resident L (take (length tl2 - length rest) tl2)), rest))
                 else Err CodecViolation)
          else if 1 \<le> tag \<and> tag \<le> 5 then
            (let sz = (if tag = 1 \<or> tag = 5 then 17 else 16)
             in if length tl1 < sz then Err CodecViolation else Ok (acc_base_bytes, drop sz tl1))
          else Err CodecViolation)"

definition take_u8 :: "bytes \<Rightarrow> (u8 \<times> bytes) result" where
  "take_u8 src = (case src of [] \<Rightarrow> Err CodecViolation | b # rest \<Rightarrow> Ok (b, rest))"

definition take_f64 :: "bytes \<Rightarrow> (f64 \<times> bytes) result" where
  "take_f64 src = rbind (decode_u64 src) (\<lambda>(b, rest). Ok (F64 (word_of_nat b), rest))"

definition decode_opt_scalar :: "bytes \<Rightarrow> (scalar option \<times> bytes) result" where
  "decode_opt_scalar src =
     rbind (take_u8 src) (\<lambda>(b, rest).
       if b = 0 then Ok (None, rest)
       else if b = 1 then rbind (decode_value rest) (\<lambda>(v, rest'). Ok (Some v, rest'))
       else Err CodecViolation)"

definition decode_codec :: "layout \<Rightarrow> acc_codec \<Rightarrow> bytes \<Rightarrow> (accumulator \<times> bytes) result" where
  "decode_codec L c src =
     (case src of
        [] \<Rightarrow> Err CodecViolation
      | tag # r0 \<Rightarrow>
          if tag = 8 \<or> tag = 9 then
            (if c \<noteq> CodecWindowExt then codec1_extended
             else rbind (ext_decode L src) (\<lambda>(e, rest). Ok (AccExtended e, rest)))
          else if tag = 1 then
            rbind (decode_u64 r0) (\<lambda>(rows, r1). rbind (decode_u64 r1) (\<lambda>(nn, r2).
              rbind (take_u8 r2) (\<lambda>(s, r3). Ok (AccCount rows nn (s \<noteq> 0), r3))))
          else if tag = 2 then
            rbind (decode_i64 r0) (\<lambda>(s, r1). rbind (decode_u64 r1) (\<lambda>(n, r2). Ok (AccSumI64 s n, r2)))
          else if tag = 3 then
            rbind (decode_u64 r0) (\<lambda>(s, r1). rbind (decode_u64 r1) (\<lambda>(n, r2). Ok (AccSumU64 s n, r2)))
          else if tag = 4 then
            rbind (take_f64 r0) (\<lambda>(s, r1). rbind (decode_u64 r1) (\<lambda>(n, r2). Ok (AccSumF64 s n, r2)))
          else if tag = 5 then
            rbind (take_f64 r0) (\<lambda>(s, r1). rbind (decode_u64 r1) (\<lambda>(n, r2).
              rbind (take_u8 r2) (\<lambda>(b, r3). Ok (AccAvg s n (b \<noteq> 0), r3))))
          else if tag = 6 then rbind (decode_opt_scalar r0) (\<lambda>(v, r1). Ok (AccMin v, r1))
          else if tag = 7 then rbind (decode_opt_scalar r0) (\<lambda>(v, r1). Ok (AccMax v, r1))
          else Err CodecViolation)"

text \<open>The participant's check of a restored extended accumulator against the live aggregate.\<close>

definition check_restore :: "agg_fn \<Rightarrow> data_type \<Rightarrow> nat option \<Rightarrow> extended_acc \<Rightarrow> unit result" where
  "check_restore func input count a =
     (case a of
        ExtValue fst_mode value \<Rightarrow>
          if func \<notin> {AggFirst, AggLast} \<or> fst_mode \<noteq> (func = AggFirst) then Err UnsupportedRestore
          else if (case value of None \<Rightarrow> False | Some v \<Rightarrow> is_null v \<or> \<not> matches_type v input) then Err UnsupportedRestore
          else if value \<noteq> None \<and> count = Some 0 then Err UnsupportedRestore
          else Ok ()
      | ExtMoment sample sqr n _ _ \<Rightarrow>
          (case (case func of
               AggVarPop \<Rightarrow> Some (False, False) | AggVarSamp \<Rightarrow> Some (True, False)
             | AggStddevPop \<Rightarrow> Some (False, True) | AggStddevSamp \<Rightarrow> Some (True, True) | _ \<Rightarrow> None) of
             None \<Rightarrow> Err UnsupportedRestore
           | Some expected \<Rightarrow>
               if (sample, sqr) \<noteq> expected then Err UnsupportedRestore
               else if (case count of Some rows \<Rightarrow> n > rows | None \<Rightarrow> False) then Err UnsupportedRestore
               else Ok ()))"

section \<open>The codecs agree\<close>

fun ext_ok :: "extended_acc \<Rightarrow> bool" where
  "ext_ok (ExtValue _ v) = (case v of None \<Rightarrow> True | Some s \<Rightarrow> value_ok s \<and> \<not> is_null s)"
| "ext_ok (ExtMoment _ _ n mean m2) = (is_u64 n \<and> check_moment n mean m2 = Ok ())"

fun acc_ok :: "accumulator \<Rightarrow> bool" where
  "acc_ok (AccExtended e) = ext_ok e"
| "acc_ok (AccCount rows non_null _) = (is_u64 rows \<and> is_u64 non_null)"
| "acc_ok (AccSumI64 s n) = (is_i64 s \<and> is_u64 n)"
| "acc_ok (AccSumU64 s n) = (is_u64 s \<and> is_u64 n)"
| "acc_ok (AccSumF64 s n) = is_u64 n"
| "acc_ok (AccAvg s n _) = is_u64 n"
| "acc_ok (AccMin v) = (case v of None \<Rightarrow> True | Some s \<Rightarrow> value_ok s)"
| "acc_ok (AccMax v) = (case v of None \<Rightarrow> True | Some s \<Rightarrow> value_ok s)"

lemma decode_int_simps [simp]:
  "is_u64 n \<Longrightarrow> decode_u64 (u64_le n @ rest) = Ok (n, rest)"
  "is_i64 s \<Longrightarrow> decode_i64 (i64_le s @ rest) = Ok (s, rest)"
  "take_f64 (f64_le v @ rest) = Ok (v, rest)"
  "take_u8 (b # rest) = Ok (b, rest)"
  by (simp_all add: u64_codec.dec_enc i64_codec.dec_enc take_f64_def decode_u64_def take_u8_def)

lemma value_ok_not_dynamic: "value_ok s \<Longrightarrow> \<not> is_dynamic s"
  by (cases s) (simp_all add: is_dynamic_def)

lemma encoded_value_len_ok: "value_ok s \<Longrightarrow> encoded_value_len s = Ok (length (value_bytes s))"
  by (cases s) (auto simp: encoded_value_len_def value_bytes_def encode_value_def key_utf8_def key_bytes_def is_u64_def)

lemma skip_value_bytes: "value_ok s \<Longrightarrow> skip_encoded_value (value_bytes s @ rest) = Ok rest"
  using decode_value_bytes skip_iff_decode by blast

lemma check_value_bytes:
  assumes "value_ok s" "\<not> is_null s"
  shows "check_value_scalar (value_bytes s @ rest) = Ok (length (value_bytes s))"
  using assms skip_value_bytes [OF assms(1), of rest]
  by (cases s) (auto simp: check_value_scalar_def value_bytes_def encode_value_def key_utf8_def key_bytes_def is_null_def)

lemma decode_resident:
  assumes "decode_value src = Ok (v, rest)"
  shows "encoded_scalar_resident L (take (length src - length rest) src) = resident_bytes L v"
proof (cases src)
  case (Cons tag tail)
  consider "tag = 0" | "tag = 1" | "tag = 2" | "tag = 3" | "tag = 4" | "tag = 5" | "tag = 6" | "tag = 7"
    | "tag \<notin> {0, 1, 2, 3, 4, 5, 6, 7}" by blast
  then show ?thesis
    using assms
    by cases (auto simp: Cons decode_value_def rbind_take_bytes encoded_scalar_resident_def resident_bytes_def
        resident_heap_bytes_def take_Cons' Let_def split: if_splits)
qed (use assms in \<open>simp add: decode_value_def\<close>)

lemma decode_suffix:
  assumes "decode_value src = Ok (v, rest)"
  shows "length rest < length src \<and> rest = drop (length src - length rest) src"
proof (cases src)
  case (Cons tag tail)
  with decode_value_drop [OF assms [unfolded Cons]] obtain n where n: "rest = drop n tail" by blast
  then have "rest = drop (length tail - length rest) tail" by (cases "n \<le> length tail") simp_all
  then show ?thesis using n by (simp add: Cons Suc_diff_le)
qed (use assms in \<open>simp add: decode_value_def\<close>)

lemma check_value_scalar_decode:
  assumes "check_value_scalar src = Ok n"
  shows "\<exists>v rest. decode_value src = Ok (v, rest) \<and> n = length src - length rest \<and> drop n src = rest"
proof -
  from assms obtain rest where r: "skip_encoded_value src = Ok rest" "n = length src - length rest"
    by (auto simp: check_value_scalar_def rbind_Inr_iff split: list.splits if_splits)
  then obtain v where v: "decode_value src = Ok (v, rest)" using skip_iff_decode by blast
  then show ?thesis using r decode_suffix [OF v] by simp
qed

section \<open>Encode, decode and skip\<close>

lemma ext_decode_encode:
  assumes "ext_ok e"
  shows "\<exists>b. ext_encode e = Ok b \<and> ext_encoded_len e = Ok (length b) \<and> b \<noteq> [] \<and> (hd b = 8 \<or> hd b = 9) \<and>
    ext_decode L (b @ rest) = Ok (e, rest)"
proof (cases e)
  case (ExtValue m v)
  show ?thesis
  proof (cases v)
    case None
    then show ?thesis by (simp add: ExtValue ext_encode_def ext_encoded_len_def ext_decode_def ext_skip_def numeral_3_eq_3)
  next
    case (Some s)
    then have s: "value_ok s" "\<not> is_null s" "\<not> is_dynamic s"
      using assms by (simp_all add: ExtValue value_ok_not_dynamic)
    have chk: "check_value_scalar (value_bytes s) = Ok (length (value_bytes s))"
      using check_value_bytes [OF s(1,2), of "[]"] by simp
    have len: "is_text s \<Longrightarrow> length (value_bytes s) - 5 \<le> u32_max"
      using s(1) by (cases s) (auto simp: is_text_def value_bytes_def encode_value_def key_utf8_def key_bytes_def)
    have enc: "ext_encode e = Ok ([8, if m then 0 else 1, 1] @ value_bytes s)"
      using s chk len by (auto simp: ExtValue Some ext_encode_def encode_value_ok encoded_value_len_ok)
    have elen: "ext_encoded_len e = Ok (3 + length (value_bytes s))"
      using s by (simp add: ExtValue Some ext_encoded_len_def encoded_value_len_ok)
    have "ext_decode L (([8, if m then 0 else 1, 1] @ value_bytes s) @ rest) = Ok (e, rest)"
      using check_value_bytes [OF s(1,2), of rest] decode_value_bytes [OF s(1), of rest]
      by (simp add: ext_decode_def ext_skip_def ExtValue Some numeral_3_eq_3)
    with enc elen show ?thesis by auto
  qed
next
  case (ExtMoment a b n mean m2)
  let ?flags = "(if a then 1 else 0) + (if b then 2 else 0) :: u8"
  let ?b = "[9, ?flags] @ u64_le n @ f64_le mean @ f64_le m2"
  have parts: "take 8 (drop 2 (?b @ rest)) = u64_le n" "take 8 (drop 10 (?b @ rest)) = f64_le mean"
    "take 8 (drop 18 (?b @ rest)) = f64_le m2" "drop 26 (?b @ rest) = rest" "(?b @ rest) ! 1 = ?flags" "(?b @ rest) ! 0 = 9"
    by (simp_all add: numeral_2_eq_2)
  have ok: "is_u64 n" "check_moment n mean m2 = Ok ()" using assms by (simp_all add: ExtMoment)
  have fl: "?flags \<le> 3" "odd (unat ?flags) = a" "odd (unat ?flags div 2) = b" by (cases a; cases b; simp)+
  have skip: "ext_skip L (?b @ rest) = Ok (ext_acc_base_bytes, rest)"
    using fl(1) ok unfolding ext_skip_def moment_encoded_bytes_def parts f64_of_le_def by (simp add: not_less)
  have "ext_decode L (?b @ rest) = Ok (e, rest)"
    using fl ok unfolding ext_decode_def skip parts f64_of_le_def by (simp add: ExtMoment)
  moreover have "ext_encode e = Ok ?b" "ext_encoded_len e = Ok (length ?b)"
    using ok by (simp_all add: ExtMoment ext_encode_def ext_encoded_len_def moment_encoded_bytes_def)
  ultimately show ?thesis by (intro exI [of _ ?b]) simp
qed

lemma opt_scalar_roundtrip:
  assumes "case v of None \<Rightarrow> True | Some s \<Rightarrow> value_ok s"
  shows "\<exists>b. encode_opt_scalar v = Ok b \<and> opt_encoded_len v = Ok (Suc (length b)) \<and> decode_opt_scalar (b @ rest) = Ok (v, rest)"
  using assms
  by (cases v) (auto simp: encode_opt_scalar_def decode_opt_scalar_def opt_encoded_len_def encode_value_ok
      encoded_value_len_ok decode_value_bytes)

definition acc_bytes :: "accumulator \<Rightarrow> bytes" where
  "acc_bytes a = (case encode_codec CodecWindowExt a of Inr b \<Rightarrow> b | Inl _ \<Rightarrow> [])"

lemma acc_roundtrip:
  assumes "acc_ok a"
  shows "\<exists>b. encode_codec CodecWindowExt a = Ok b \<and> encoded_len_codec CodecWindowExt a = Ok (length b) \<and>
    decode_codec L CodecWindowExt (b @ rest) = Ok (a, rest)"
proof (cases a)
  case (AccExtended e)
  with assms obtain b where b: "ext_encode e = Ok b" "ext_encoded_len e = Ok (length b)" "b \<noteq> []"
      "hd b = 8 \<or> hd b = 9" "ext_decode L (b @ rest) = Ok (e, rest)"
    using ext_decode_encode [of e L rest] by auto
  then show ?thesis
    by (cases b) (auto simp: AccExtended encode_codec_def encoded_len_codec_def decode_codec_def)
next
  case (AccMin v)
  with assms opt_scalar_roundtrip [of v rest] show ?thesis
    by (auto simp: encode_codec_def encoded_len_codec_def decode_codec_def)
next
  case (AccMax v)
  with assms opt_scalar_roundtrip [of v rest] show ?thesis
    by (auto simp: encode_codec_def encoded_len_codec_def decode_codec_def)
qed (use assms in \<open>auto simp: encode_codec_def encoded_len_codec_def decode_codec_def byte_of_bool_def\<close>)

interpretation acc_wire: codec acc_bytes "decode_codec L CodecWindowExt" acc_ok for L
proof unfold_locales
  fix x :: accumulator and rest
  assume "acc_ok x"
  from acc_roundtrip [OF this, of L rest] show "decode_codec L CodecWindowExt (acc_bytes x @ rest) = Ok (x, rest)"
    by (auto simp: acc_bytes_def)
qed

lemma resident_le:
  assumes "decode_value src = Ok (v, rest)"
  shows "resident_bytes L v \<le> size_of_scalar L + length src + 48"
proof -
  have "encoded_scalar_resident L (take (length src - length rest) src) \<le> size_of_scalar L + length src + 48"
    by (auto simp: encoded_scalar_resident_def Let_def sat_u64_def split: list.splits)
  then show ?thesis using decode_resident [OF assms] by simp
qed

lemma ext_skip_value:
  assumes "size_of_scalar L + length src + 176 \<le> u64_max" "check_value_scalar (drop 3 src) = Ok len"
  shows "\<exists>v r. decode_value (drop 3 src) = Ok (v, r) \<and> drop (3 + len) src = r \<and>
    sat_u64 (ext_acc_base_bytes + encoded_scalar_resident L (take len (drop 3 src))) = ext_acc_base_bytes + resident_bytes L v"
proof -
  from check_value_scalar_decode [OF assms(2)] obtain v r where
    d: "decode_value (drop 3 src) = Ok (v, r)" "len = length (drop 3 src) - length r" "drop len (drop 3 src) = r" by blast
  have "ext_acc_base_bytes + resident_bytes L v \<le> u64_max"
    using resident_le [OF d(1), of L] assms(1) by (simp add: ext_acc_base_bytes_def)
  then have "sat_u64 (ext_acc_base_bytes + resident_bytes L v) = ext_acc_base_bytes + resident_bytes L v"
    by (simp add: is_u64_def)
  with decode_resident [OF d(1), of L] d show ?thesis by (auto simp: add.commute)
qed

lemma ext_skip_decode:
  assumes "size_of_scalar L + length src + 176 \<le> u64_max" "ext_skip L src = Ok (n, rest)"
  shows "\<exists>e. ext_decode L src = Ok (e, rest) \<and> n = acc_tracked_bytes L (AccExtended e)"
proof -
  obtain tag tl1 where src: "src = tag # tl1" using assms(2) by (cases src) (simp_all add: ext_skip_def)
  consider (none) "tag = 8" "src ! 2 = 0" "n = ext_acc_base_bytes"
    | (payload) len where "tag = 8" "src ! 2 = 1" "check_value_scalar (drop 3 src) = Ok len" "rest = drop (3 + len) src"
        "n = sat_u64 (ext_acc_base_bytes + encoded_scalar_resident L (take len (drop 3 src)))"
    | (moment) "tag = 9" "n = ext_acc_base_bytes"
    using assms(2) unfolding ext_skip_def src by (auto simp: rbind_Inr_iff split: if_splits)
  then show ?thesis
  proof cases
    case payload
    from ext_skip_value [OF assms(1) payload(3)] obtain v r where
      v: "decode_value (drop 3 src) = Ok (v, r)" "drop (3 + len) src = r" "n = ext_acc_base_bytes + resident_bytes L v"
      using payload(5) by auto
    have "ext_decode L src = Ok (ExtValue (src ! 1 = 0) (Some v), rest)"
      using assms(2) v(1) payload(1,2) by (simp add: ext_decode_def src)
    then show ?thesis using v(3) by (auto simp: acc_tracked_bytes_def)
  qed (use assms(2) in \<open>auto simp: ext_decode_def src acc_tracked_bytes_def\<close>)
qed

lemma ext_decode_skip: "ext_decode L src = Ok (e, rest) \<Longrightarrow> \<exists>n. ext_skip L src = Ok (n, rest)"
  by (auto simp: ext_decode_def rbind_Inr_iff split: if_splits)

lemma opt_skip_decode:
  assumes "size_of_scalar L + length src + 176 \<le> u64_max" "skip_encoded_value src = Ok rest"
  shows "\<exists>v. decode_value src = Ok (v, rest) \<and>
    sat_u64 (acc_base_bytes + encoded_scalar_resident L (take (length src - length rest) src)) = acc_base_bytes + resident_bytes L v"
proof -
  obtain v where v: "decode_value src = Ok (v, rest)" using assms(2) skip_iff_decode by blast
  have "acc_base_bytes + resident_bytes L v \<le> u64_max"
    using resident_le [OF v, of L] assms(1) by (simp add: acc_base_bytes_def)
  then show ?thesis using v decode_resident [OF v, of L] by (simp add: is_u64_def)
qed

lemma fixed_decoders:
  "decode_u64 src = (if length src < 8 then Err CodecViolation else Ok (from_le_bytes (take 8 src), drop 8 src))"
  "decode_i64 src = (if length src < 8 then Err CodecViolation else Ok (u64_as_i64 (from_le_bytes (take 8 src)), drop 8 src))"
  "take_f64 src = (if length src < 8 then Err CodecViolation else Ok (F64 (word_of_nat (from_le_bytes (take 8 src))), drop 8 src))"
  "take_u8 src = (if length src < 1 then Err CodecViolation else Ok (hd src, drop 1 src))"
  by (simp_all add: decode_u64_def decode_i64_def take_f64_def take_u8_def take_bytes_def drop_Suc split: list.splits)

lemma skip_fixed:
  assumes "tag \<in> {1, 2, 3, 4, 5}"
  shows "skip_encoded_codec L c (tag # tl1) = Ok (n, rest) \<longleftrightarrow>
    (\<exists>a. decode_codec L c (tag # tl1) = Ok (a, rest) \<and> n = acc_tracked_bytes L a)"
proof -
  consider "tag = 1" | "tag = 2" | "tag = 3" | "tag = 4" | "tag = 5" using assms by blast
  then show ?thesis
    by cases (auto simp: skip_encoded_codec_def decode_codec_def fixed_decoders acc_tracked_bytes_def rbind_Inr_iff
        Let_def split: if_splits)
qed

lemma skip_opt:
  assumes "size_of_scalar L + length tl1 + 176 \<le> u64_max" "tag = 6 \<or> tag = 7"
  shows "skip_encoded_codec L c (tag # tl1) = Ok (n, rest) \<longleftrightarrow>
    (\<exists>a. decode_codec L c (tag # tl1) = Ok (a, rest) \<and> n = acc_tracked_bytes L a)"
proof (cases tl1)
  case Nil
  then show ?thesis using assms(2) by (auto simp: skip_encoded_codec_def decode_codec_def decode_opt_scalar_def take_u8_def)
next
  case (Cons opt tl2)
  have len: "size_of_scalar L + length tl2 + 176 \<le> u64_max" using assms(1) Cons by simp
  show ?thesis
  proof (cases "opt = 1")
    case True
    have "skip_encoded_codec L c (tag # tl1) = Ok (n, rest) \<longleftrightarrow>
        (\<exists>v. decode_value tl2 = Ok (v, rest) \<and> n = acc_base_bytes + resident_bytes L v)"
    proof (cases "skip_encoded_value tl2 = Ok rest")
      case skip: True
      from opt_skip_decode [OF len skip] show ?thesis
        using assms(2) True Cons skip by (auto simp: skip_encoded_codec_def)
    next
      case skip: False
      then have "\<nexists>v. decode_value tl2 = Ok (v, rest)" using skip_iff_decode by blast
      then show ?thesis using assms(2) True Cons skip by (auto simp: skip_encoded_codec_def rbind_Inr_iff)
    qed
    moreover have "(\<exists>a. decode_codec L c (tag # tl1) = Ok (a, rest) \<and> n = acc_tracked_bytes L a) \<longleftrightarrow>
        (\<exists>v. decode_value tl2 = Ok (v, rest) \<and> n = acc_base_bytes + resident_bytes L v)"
      using assms(2) True Cons
      by (auto simp: decode_codec_def decode_opt_scalar_def take_u8_def acc_tracked_bytes_def rbind_Inr_iff)
    ultimately show ?thesis by blast
  next
    case False
    then show ?thesis using assms(2) Cons
      by (auto simp: skip_encoded_codec_def decode_codec_def decode_opt_scalar_def take_u8_def acc_tracked_bytes_def)
  qed
qed

section \<open>Properties of the codecs\<close>

text \<open>
  Every well-formed accumulator survives a snapshot: the announced length is the length
  written, and decoding the bytes followed by anything gives back exactly the accumulator and
  exactly the rest.
\<close>

theorem accumulator_roundtrip:
  assumes "acc_ok a"
  shows "\<exists>b. encode_codec CodecWindowExt a = Ok b \<and> encoded_len_codec CodecWindowExt a = Ok (length b) \<and>
    decode_codec L CodecWindowExt (b @ rest) = Ok (a, rest)"
  using acc_roundtrip [OF assms] .

theorem accumulator_roundtrip_witness:
  "\<exists>b. encode_codec CodecWindowExt (AccExtended (ExtValue True (Some (SInt64 (- 5))))) = Ok b \<and>
     encoded_len_codec CodecWindowExt (AccExtended (ExtValue True (Some (SInt64 (- 5))))) = Ok (length b) \<and>
     decode_codec \<lparr>size_of_scalar = 24, size_of_dynamic = 24, size_of_pair = 40\<rparr> CodecWindowExt (b @ [1])
       = Ok (AccExtended (ExtValue True (Some (SInt64 (- 5)))), [1])"
  by (rule accumulator_roundtrip) (simp add: is_i64_def is_null_def)

text \<open>
  Skipping an encoded accumulator accepts exactly the inputs the decoder accepts, stops at
  the same byte and returns exactly the bytes the decoded accumulator would be billed for, so
  credit can be reserved before any state is built.
\<close>

theorem skip_bills_exactly:
  assumes "size_of_scalar L + length src + 176 \<le> u64_max"
  shows "skip_encoded_codec L c src = Ok (n, rest) \<longleftrightarrow>
    (\<exists>a. decode_codec L c src = Ok (a, rest) \<and> n = acc_tracked_bytes L a)"
proof (cases src)
  case (Cons tag tl1)
  consider (fixed) "tag \<in> {1, 2, 3, 4, 5}" | (opt) "tag = 6 \<or> tag = 7" | (ext) "tag = 8 \<or> tag = 9"
    | (bad) "tag \<notin> {1, 2, 3, 4, 5, 6, 7, 8, 9}" by blast
  then show ?thesis
  proof cases
    case fixed
    then show ?thesis unfolding Cons by (rule skip_fixed)
  next
    case opt
    show ?thesis unfolding Cons by (rule skip_opt [OF _ opt]) (use assms Cons in simp)
  next
    case ext
    then show ?thesis
      using ext_skip_decode [OF assms, of n rest] ext_decode_skip [of L src _ rest] ext_skip_decode [OF assms, of _ rest]
      by (cases c) (fastforce simp: Cons skip_encoded_codec_def decode_codec_def codec1_extended_def rbind_Inr_iff)+
  next
    case bad
    then have "\<not> (1 \<le> tag \<and> tag \<le> 5)"
    proof -
      have "tag \<in> {0, 1, 2, 3, 4, 5}" if "tag \<le> 5"
        using that unfolding word_le_nat_alt by (simp, unat_arith)
      with bad show ?thesis by auto
    qed
    with bad show ?thesis by (auto simp: Cons skip_encoded_codec_def decode_codec_def)
  qed
qed (simp add: skip_encoded_codec_def decode_codec_def)

theorem skip_bills_exactly_witness:
  "skip_encoded_codec \<lparr>size_of_scalar = 24, size_of_dynamic = 24, size_of_pair = 40\<rparr> CodecWindow
     [6, 1, 6, 2, 0, 0, 0, 9, 9, 4] = Ok (48 + 24 + 50, [4]) \<and>
   (\<exists>a. decode_codec \<lparr>size_of_scalar = 24, size_of_dynamic = 24, size_of_pair = 40\<rparr> CodecWindow
      [6, 1, 6, 2, 0, 0, 0, 9, 9, 4] = Ok (a, [4]))"
proof -
  let ?L = "\<lparr>size_of_scalar = 24, size_of_dynamic = 24, size_of_pair = 40\<rparr>"
  let ?src = "[6, 1, 6, 2, 0, 0, 0, 9, 9, 4] :: bytes"
  have "skip_encoded_codec ?L CodecWindow ?src = Ok (48 + 24 + 50, [4])"
    by (simp add: skip_encoded_codec_def skip_encoded_value_def encoded_scalar_resident_def acc_base_bytes_def sat_u64_def)
  moreover from this have "\<exists>a. decode_codec ?L CodecWindow ?src = Ok (a, [4])"
    using skip_bills_exactly [of ?L ?src CodecWindow "48 + 24 + 50" "[4]"] by auto
  ultimately show ?thesis by blast
qed

section \<open>Running an aggregate over a sequence\<close>

fun acc_run :: "accumulator \<Rightarrow> scalar list \<Rightarrow> accumulator result" where
  "acc_run a [] = Ok a"
| "acc_run a (x # xs) = (case acc_update x a of (a1, r) \<Rightarrow> rbind r (\<lambda>_. acc_run a1 xs))"

definition non_nulls :: "scalar list \<Rightarrow> scalar list" where
  "non_nulls xs = filter (\<lambda>x. \<not> is_null x) xs"

lemma non_nulls_simps [simp]:
  "non_nulls [] = []" "non_nulls (x # xs) = (if is_null x then non_nulls xs else x # non_nulls xs)"
  by (simp_all add: non_nulls_def)

definition int_input :: "scalar \<Rightarrow> int option" where
  "int_input x =
     (case x of SInt64 v \<Rightarrow> Some v | SUInt64 v \<Rightarrow> if int v \<le> i64_max then Some (int v) else None | _ \<Rightarrow> None)"

fun prefixes_fit :: "int \<Rightarrow> int list \<Rightarrow> bool" where
  "prefixes_fit s [] = True"
| "prefixes_fit s (v # vs) = (is_i64 (s + v) \<and> prefixes_fit (s + v) vs)"

lemma prefixes_fit_iff:
  "is_i64 s \<Longrightarrow> prefixes_fit s vs \<longleftrightarrow> (\<forall>k \<le> length vs. is_i64 (s + sum_list (take k vs)))"
proof (induction vs arbitrary: s)
  case (Cons v vs)
  have "(\<forall>k \<le> length (v # vs). is_i64 (s + sum_list (take k (v # vs)))) \<longleftrightarrow>
      is_i64 s \<and> (\<forall>k \<le> length vs. is_i64 (s + v + sum_list (take k vs)))"
    by (auto simp: take_Cons' add.assoc)
  also have "\<dots> \<longleftrightarrow> is_i64 (s + v) \<and> (\<forall>k \<le> length vs. is_i64 (s + v + sum_list (take k vs)))"
    using Cons.prems by (metis add.right_neutral le0 sum_list.Nil take_0)
  finally show ?case using Cons.IH [of "s + v"] by auto
qed simp

definition ints :: "scalar list \<Rightarrow> int list" where
  "ints xs = map (\<lambda>x. the (int_input x)) (non_nulls xs)"

lemma sum_i64_run:
  assumes "list_all (\<lambda>x. int_input x \<noteq> None) (non_nulls xs)" "n + length xs \<le> u64_max"
  shows "acc_run (AccSumI64 s n) xs =
    (if prefixes_fit s (ints xs) then Ok (AccSumI64 (s + sum_list (ints xs)) (n + length (ints xs))) else overflow)"
  using assms
proof (induction xs arbitrary: s n)
  case (Cons x xs)
  show ?case
  proof (cases "is_null x")
    case True
    then show ?thesis using Cons by (simp add: sum_i64_update_def ints_def)
  next
    case False
    with Cons.prems obtain v where v: "int_input x = Some v" by auto
    then have upd: "acc_update x (AccSumI64 s n) =
        (if \<not> is_i64 (s + v) then (AccSumI64 s n, overflow) else (AccSumI64 (s + v) (n + 1), Ok ()))"
      using False Cons.prems(2) by (simp add: sum_i64_update_def int_input_def)
    have "ints (x # xs) = v # ints xs" using False v by (simp add: ints_def)
    with Cons.IH [where s = "s + v" and n = "n + 1"] Cons.prems False upd show ?thesis
      by (simp add: overflow_def add.assoc)
  qed
qed (simp add: ints_def)

lemma count_run:
  "rows + length xs \<le> u64_max \<Longrightarrow> nn \<le> rows \<Longrightarrow>
     acc_run (AccCount rows nn star) xs = Ok (AccCount (rows + length xs) (nn + length (non_nulls xs)) star)"
proof (induction xs arbitrary: rows nn)
  case (Cons x xs)
  then show ?case
    using Cons.IH [of "Suc rows" nn] Cons.IH [of "Suc rows" "Suc nn"] by (simp add: count_update_def)
qed simp

lemma ext_value_run:
  "acc_run (AccExtended (ExtValue m v)) xs = Ok (AccExtended (ExtValue m
     (if non_nulls xs = [] then v else if m \<and> v \<noteq> None then v
      else Some (if m then hd (non_nulls xs) else last (non_nulls xs)))))"
  by (induction xs arbitrary: v) (auto simp: ext_update_def)

section \<open>The order of MIN and MAX\<close>

text \<open>
  On non-NaN values of one scalar type \<open>cmp_ord\<close> is a total order comparison.
\<close>

definition comparable :: "data_type \<Rightarrow> scalar \<Rightarrow> bool" where
  "comparable ty x \<longleftrightarrow> scalar_type x = ty \<and> ty \<noteq> TDynamic \<and> ty \<noteq> TNull \<and> \<not> scalar_is_nan x"

lemma cmp_ord_total:
  "comparable ty x \<Longrightarrow> comparable ty y \<Longrightarrow> \<exists>r. cmp_ord x y = Ok (Some r)"
  by (cases x; cases y) (auto simp: comparable_def cmp_ord_def scalar_is_nan_def partial_cmp_def)

lemma cmp_ord_refl: "comparable ty x \<Longrightarrow> cmp_ord x x = Ok (Some Equal)"
  by (cases x) (auto simp: comparable_def cmp_ord_def scalar_is_nan_def partial_cmp_def)

lemma cmp_ord_asym:
  assumes "comparable ty x" "comparable ty y" "w \<noteq> Equal" "cmp_ord x y = Ok (Some w)"
  shows "cmp_ord y x \<noteq> Ok (Some w)"
  using assms
  by (cases w; cases x; cases y) (auto simp: comparable_def cmp_ord_def scalar_is_nan_def partial_cmp_def)

lemma not_beaten_trans:
  assumes "comparable ty x" "comparable ty y" "comparable ty z" "w \<noteq> Equal"
    and "cmp_ord x y \<noteq> Ok (Some w)" "cmp_ord y z \<noteq> Ok (Some w)"
  shows "cmp_ord x z \<noteq> Ok (Some w)"
  using assms
  by (cases w; cases x; cases y; cases z) (auto simp: comparable_def cmp_ord_def scalar_is_nan_def partial_cmp_def)

text \<open>The extreme kept over a sequence: one of its values, which no other value beats.\<close>

fun extreme_run :: "ordering \<Rightarrow> scalar option \<Rightarrow> scalar list \<Rightarrow> scalar option result" where
  "extreme_run w v [] = Ok v"
| "extreme_run w v (x # xs) = (case keep_extreme w x v of (v1, r) \<Rightarrow> rbind r (\<lambda>_. extreme_run w v1 xs))"

lemma min_max_run:
  "acc_run (AccMin v) xs = rbind (extreme_run Less v xs) (\<lambda>r. Ok (AccMin r))"
  "acc_run (AccMax v) xs = rbind (extreme_run Greater v xs) (\<lambda>r. Ok (AccMax r))"
  by (induction xs arbitrary: v) (auto split: prod.splits rbind_split)

definition candidates :: "scalar list \<Rightarrow> scalar list" where
  "candidates xs = filter (\<lambda>x. \<not> is_null x \<and> \<not> scalar_is_nan x) xs"

definition unbeaten :: "ordering \<Rightarrow> data_type \<Rightarrow> scalar list \<Rightarrow> scalar option \<Rightarrow> bool" where
  "unbeaten w ty cs r \<longleftrightarrow>
     (case r of
        None \<Rightarrow> cs = []
      | Some m \<Rightarrow> comparable ty m \<and> m \<in> set cs \<and> (\<forall>x \<in> set cs. cmp_ord x m \<noteq> Ok (Some w)))"

definition opt_list :: "'a option \<Rightarrow> 'a list" where
  "opt_list v = (case v of None \<Rightarrow> [] | Some x \<Rightarrow> [x])"

lemma unbeaten_push:
  assumes w: "w \<noteq> Equal" and cx: "comparable ty x" and cv: "\<And>m. v = Some m \<Longrightarrow> comparable ty m"
    and v1: "v1 = (case v of None \<Rightarrow> x | Some cur \<Rightarrow> if cmp_ord x cur = Ok (Some w) then x else cur)"
    and r: "unbeaten w ty (v1 # cs) r"
  shows "unbeaten w ty (opt_list v @ x # cs) r"
proof -
  from r obtain m where m: "r = Some m" "comparable ty m" "m \<in> set (v1 # cs)" "\<forall>y \<in> set (v1 # cs). cmp_ord y m \<noteq> Ok (Some w)"
    by (auto simp: unbeaten_def split: option.splits)
  have c1: "comparable ty v1" using cx cv by (auto simp: v1 split: option.splits)
  have nb: "cmp_ord y m \<noteq> Ok (Some w)" if "comparable ty y" "cmp_ord y v1 \<noteq> Ok (Some w)" for y
    using not_beaten_trans [OF that(1) c1 m(2) w that(2)] m(4) by simp
  have "cmp_ord x v1 \<noteq> Ok (Some w)" using cmp_ord_refl [OF cx] w by (auto simp: v1 split: option.splits)
  moreover have "cmp_ord cur v1 \<noteq> Ok (Some w)" if "v = Some cur" for cur
    using that cmp_ord_refl [OF cv [OF that]] cmp_ord_asym [OF cx cv [OF that] w] w by (auto simp: v1)
  moreover have "v1 \<in> set (opt_list v @ [x])" by (auto simp: v1 opt_list_def split: option.splits)
  ultimately show ?thesis
    using m nb cx cv by (auto simp: unbeaten_def opt_list_def split: option.splits)
qed

lemma extreme_run_spec:
  assumes "w \<noteq> Equal" "list_all (\<lambda>x. is_null x \<or> scalar_type x = ty) xs" "ty \<noteq> TDynamic" "ty \<noteq> TNull"
    and "\<And>m. v = Some m \<Longrightarrow> comparable ty m"
  shows "\<exists>r. extreme_run w v xs = Ok r \<and> unbeaten w ty (opt_list v @ candidates xs) r"
  using assms
proof (induction xs arbitrary: v)
  case Nil
  then show ?case using cmp_ord_refl by (cases v) (auto simp: candidates_def unbeaten_def opt_list_def)
next
  case (Cons x xs)
  show ?case
  proof (cases "is_null x \<or> scalar_is_nan x")
    case True
    then have "keep_extreme w x v = (v, Ok ())" "candidates (x # xs) = candidates xs"
      by (auto simp: keep_extreme_def candidates_def)
    with Cons.IH [of v] Cons.prems show ?thesis by simp
  next
    case False
    then have cx: "comparable ty x" and nx: "candidates (x # xs) = x # candidates xs"
      using Cons.prems by (simp_all add: comparable_def candidates_def)
    define v1 where "v1 = (case v of None \<Rightarrow> x | Some cur \<Rightarrow> if cmp_ord x cur = Ok (Some w) then x else cur)"
    have keep: "keep_extreme w x v = (Some v1, Ok ())"
    proof (cases v)
      case (Some cur)
      have c: "comparable ty cur" using Cons.prems(5) Some by simp
      then have "\<not> scalar_is_nan cur" by (simp add: comparable_def)
      with cmp_ord_total [OF cx c] show ?thesis using False Some by (auto simp: keep_extreme_def v1_def)
    qed (use False in \<open>simp add: keep_extreme_def v1_def\<close>)
    have c1: "comparable ty v1" using cx Cons.prems(5) by (auto simp: v1_def split: option.splits)
    from Cons.IH [of "Some v1"] Cons.prems c1 obtain r where
      r: "extreme_run w (Some v1) xs = Ok r" "unbeaten w ty (v1 # candidates xs) r"
      by (auto simp: opt_list_def)
    have "unbeaten w ty (opt_list v @ x # candidates xs) r"
      by (rule unbeaten_push [OF Cons.prems(1) cx Cons.prems(5) v1_def r(2)])
    then show ?thesis using keep nx r(1) by simp
  qed
qed

section \<open>Properties of the aggregates\<close>

text \<open>
  Integer SUM is exact or fails: over any sequence of 64-bit integers and NULLs it succeeds
  exactly when every partial sum of the non-NULL values fits 64 bits, its result is then the
  mathematical sum (NULL if there was no value), and otherwise it reports integer overflow;
  it never wraps.
\<close>

theorem sum_i64_exact:
  assumes "list_all (\<lambda>x. int_input x \<noteq> None) (non_nulls xs)" "length xs \<le> u64_max"
    and "acc_new AggSum TInt64 star = Ok a"
  shows "if \<forall>k \<le> length (ints xs). is_i64 (sum_list (take k (ints xs)))
    then \<exists>b. acc_run a xs = Ok b \<and> acc_finish b = (if ints xs = [] then SNull else SInt64 (sum_list (ints xs)))
    else acc_run a xs = Err IntegerOverflow"
proof -
  have a: "a = AccSumI64 0 0" using assms(3) by (simp add: acc_new_def)
  have "prefixes_fit 0 (ints xs) \<longleftrightarrow> (\<forall>k \<le> length (ints xs). is_i64 (sum_list (take k (ints xs))))"
    using prefixes_fit_iff [of 0 "ints xs"] by (simp add: is_i64_def)
  with sum_i64_run [of xs 0 0] assms show ?thesis by (auto simp: a overflow_def)
qed

theorem sum_i64_exact_witness:
  "acc_run (AccSumI64 0 0) [SInt64 9223372036854775807, SNull, SInt64 1] = Err IntegerOverflow \<and>
   (\<exists>b. acc_run (AccSumI64 0 0) [SInt64 9223372036854775807, SNull, SInt64 (- 1)] = Ok b \<and>
      acc_finish b = SInt64 9223372036854775806)"
proof -
  have new: "acc_new AggSum TInt64 False = Ok (AccSumI64 0 0)" by (simp add: acc_new_def)
  let ?xs = "[SInt64 9223372036854775807, SNull, SInt64 1]" and ?ys = "[SInt64 9223372036854775807, SNull, SInt64 (- 1)]"
  have x: "ints ?xs = [9223372036854775807, 1]" "ints ?ys = [9223372036854775807, - 1]"
    by (simp_all add: ints_def int_input_def is_null_def)
  have "\<not> (\<forall>k \<le> length (ints ?xs). is_i64 (sum_list (take k (ints ?xs))))"
    unfolding x by (intro notI) (drule spec [of _ 2], simp add: is_i64_def)
  moreover have "\<forall>k \<le> length (ints ?ys). is_i64 (sum_list (take k (ints ?ys)))"
    unfolding x by (auto simp: is_i64_def take_Cons')
  moreover have ok: "list_all (\<lambda>x. int_input x \<noteq> None) (non_nulls ?xs)" "list_all (\<lambda>x. int_input x \<noteq> None) (non_nulls ?ys)"
    "length ?xs \<le> u64_max" "length ?ys \<le> u64_max"
    by (simp_all add: int_input_def is_null_def)
  ultimately have "acc_run (AccSumI64 0 0) ?xs = Err IntegerOverflow"
    "\<exists>b. acc_run (AccSumI64 0 0) ?ys = Ok b \<and>
       acc_finish b = (if ints ?ys = [] then SNull else SInt64 (sum_list (ints ?ys)))"
    using sum_i64_exact [OF ok(1,3) new] sum_i64_exact [OF ok(2,4) new] by (simp_all only: if_True if_False)
  then show ?thesis unfolding x by simp
qed

text \<open>
  MIN and MAX of a column of one scalar type ignore NULL and NaN, never fail, return NULL
  exactly when nothing is left, and otherwise return one of the values that no other value is
  below (for MIN) or above (for MAX).
\<close>

theorem min_max_exact:
  assumes "list_all (\<lambda>x. is_null x \<or> scalar_type x = ty) xs" "ty \<noteq> TDynamic" "ty \<noteq> TNull"
  shows "\<exists>lo hi. acc_run (AccMin None) xs = Ok (AccMin lo) \<and> acc_run (AccMax None) xs = Ok (AccMax hi) \<and>
    unbeaten Less ty (candidates xs) lo \<and> unbeaten Greater ty (candidates xs) hi"
  using extreme_run_spec [of Less ty xs None] extreme_run_spec [of Greater ty xs None] assms
  by (auto simp: min_max_run opt_list_def)

theorem min_max_exact_witness:
  "\<exists>lo hi. acc_run (AccMin None) [SUtf8 ''b'', SNull, SUtf8 ''a''] = Ok (AccMin lo) \<and>
     acc_run (AccMax None) [SUtf8 ''b'', SNull, SUtf8 ''a''] = Ok (AccMax hi) \<and>
     unbeaten Less TUtf8 (candidates [SUtf8 ''b'', SNull, SUtf8 ''a'']) lo \<and>
     unbeaten Greater TUtf8 (candidates [SUtf8 ''b'', SNull, SUtf8 ''a'']) hi"
  by (rule min_max_exact) (simp_all add: is_null_def)

text \<open>
  COUNT(*) is the number of rows and COUNT of a column the number of its non-NULL values;
  FIRST and LAST are the first and last non-NULL value in arrival order, and NULL if there is none.
\<close>

theorem count_first_last_exact:
  assumes "int (length xs) \<le> i64_max"
  shows "(\<exists>a. acc_run (AccCount 0 0 True) xs = Ok a \<and> acc_finish a = SInt64 (int (length xs))) \<and>
    (\<exists>a. acc_run (AccCount 0 0 False) xs = Ok a \<and> acc_finish a = SInt64 (int (length (non_nulls xs)))) \<and>
    (\<exists>a. acc_run (AccExtended (ExtValue True None)) xs = Ok a \<and>
       acc_finish a = (if non_nulls xs = [] then SNull else hd (non_nulls xs))) \<and>
    (\<exists>a. acc_run (AccExtended (ExtValue False None)) xs = Ok a \<and>
       acc_finish a = (if non_nulls xs = [] then SNull else last (non_nulls xs)))"
proof -
  have le: "length (non_nulls xs) \<le> length xs" by (simp add: non_nulls_def)
  have as: "u64_as_i64 n = int n" if "int n \<le> i64_max" for n
    using that by (simp add: u64_as_i64_def Let_def)
  show ?thesis
    using count_run [of 0 xs 0] assms le as [of "length xs"] as [of "length (non_nulls xs)"]
    by (simp add: ext_value_run ext_finish_def)
qed

theorem count_first_last_exact_witness:
  "\<exists>a. acc_run (AccCount 0 0 False) [SNull, SBool True] = Ok a \<and> acc_finish a = SInt64 1"
proof -
  have n: "non_nulls [SNull, SBool True] = [SBool True]" by (simp add: is_null_def)
  from count_first_last_exact [of "[SNull, SBool True]"] show ?thesis unfolding n by simp
qed

lemma moment_run:
  assumes "acc_run (AccExtended (ExtMoment s q n mean m2)) xs = Ok b" "is_finite mean" "is_finite m2"
  shows "\<exists>mean' m2'. b = AccExtended (ExtMoment s q (n + length (non_nulls xs)) mean' m2') \<and>
    is_finite mean' \<and> is_finite m2'"
  using assms
proof (induction xs arbitrary: n mean m2)
  case (Cons x xs)
  obtain e r where u: "ext_update x (ExtMoment s q n mean m2) = (e, r)" by fastforce
  show ?case
  proof (cases "is_null x")
    case True
    with Cons show ?thesis by (simp add: ext_update_def)
  next
    case False
    with u Cons.prems obtain mean1 m21 where "e = ExtMoment s q (Suc n) mean1 m21" "is_finite mean1" "is_finite m21" "r = Ok ()"
      by (auto simp: ext_update_def overflow_def Let_def split: option.splits if_splits)
    with u Cons.IH [of "Suc n" mean1 m21] Cons.prems False show ?thesis by simp
  qed
qed auto

text \<open>
  A variance or standard deviation that does not fail counts exactly the non-NULL inputs,
  keeps its moments finite, and is NULL exactly when there are too few of them (none for the
  population forms, at most one for the sample forms).
\<close>

theorem moment_defined:
  assumes "acc_new f ty star = Ok (AccExtended (ExtMoment sample sqr 0 f_zero f_zero))"
    and "acc_run (AccExtended (ExtMoment sample sqr 0 f_zero f_zero)) xs = Ok b"
  shows "acc_finish b = SNull \<longleftrightarrow> length (non_nulls xs) \<le> (if f = AggVarSamp \<or> f = AggStddevSamp then 1 else 0)"
proof -
  have "sample \<longleftrightarrow> f = AggVarSamp \<or> f = AggStddevSamp"
    using assms(1) by (cases f) (auto simp: acc_new_def split: if_splits)
  moreover have "is_finite f_zero" by (simp add: is_finite_def f_low_def f_zero_def)
  ultimately show ?thesis
    using moment_run [OF assms(2)] by (auto simp: ext_finish_def Let_def split: if_splits)
qed

theorem moment_defined_witness:
  "acc_new AggVarSamp TInt64 False = Ok (AccExtended (ExtMoment True False 0 f_zero f_zero)) \<and>
   acc_run (AccExtended (ExtMoment True False 0 f_zero f_zero)) [SNull]
     = Ok (AccExtended (ExtMoment True False 0 f_zero f_zero)) \<and>
   acc_finish (AccExtended (ExtMoment True False 0 f_zero f_zero)) = SNull"
proof -
  have n: "acc_new AggVarSamp TInt64 False = Ok (AccExtended (ExtMoment True False 0 f_zero f_zero))"
    by (simp add: acc_new_def)
  have r: "acc_run (AccExtended (ExtMoment True False 0 f_zero f_zero)) [SNull]
      = Ok (AccExtended (ExtMoment True False 0 f_zero f_zero))"
    by (simp add: ext_update_def is_null_def)
  from moment_defined [OF n r] n r show ?thesis by (simp add: is_null_def)
qed

end
