(* ===== verification/Keyed_State.thy ===== *)
theory Keyed_State
  imports Memory Scalar_Codec
begin

text \<open>
  Task-owned keyed state of \<^verbatim>\<open>sparrow-runtime/src/state.rs\<close>: structural keys and the bounded map
  whose entries hold retention leases. Every operation passes the counter store of the memory
  owners along. An operation returns \<open>None\<close> where the code panics (a broken byte ledger), and
  the state together with its result otherwise, because a callback may change an entry and
  still fail. Vector capacities are allocator policy: a key carries the capacities it was built
  with.
\<close>

section \<open>Keys\<close>

record state_key =
  sk_operator :: nat
  sk_slot :: nat
  sk_key :: "scalar list"
  sk_encoded :: bytes
  sk_key_capacity :: nat
  sk_encoded_capacity :: nat
  sk_index_lease :: "memory_lease option"

definition key_encoding :: "scalar list \<Rightarrow> bytes" where
  "key_encoding key = concat (map (\<lambda>s. encode_key s @ [0xff]) key)"

definition state_key_new :: "nat \<times> nat \<Rightarrow> nat \<Rightarrow> nat \<Rightarrow> scalar list \<Rightarrow> state_key" where
  "state_key_new caps op slot key =
     \<lparr>sk_operator = op, sk_slot = slot, sk_key = key, sk_encoded = key_encoding key,
      sk_key_capacity = fst caps, sk_encoded_capacity = snd caps, sk_index_lease = None\<rparr>"

text \<open>\<open>PartialEq\<close> and \<open>Hash\<close> look at operator, slot and encoding: the identity of a key in a map.\<close>

type_synonym key_id = "nat \<times> nat \<times> bytes"

definition key_id :: "state_key \<Rightarrow> key_id" where
  "key_id k = (sk_operator k, sk_slot k, sk_encoded k)"

text \<open>\<open>Clone\<close>: a cloned vector has the capacity of its length.\<close>

definition clone_key :: "state_key \<Rightarrow> state_key" where
  "clone_key k = k\<lparr>sk_key_capacity := length (sk_key k), sk_encoded_capacity := length (sk_encoded k)\<rparr>"

record key_layout = layout +
  size_of_state_key :: nat

definition key_tracked_bytes :: "key_layout \<Rightarrow> state_key \<Rightarrow> nat" where
  "key_tracked_bytes L k =
     foldl (\<lambda>n v. sat_u64 (n + resident_bytes (layout.truncate L) v))
       (sat_u64 (sat_u64 (sat_u64 (size_of_state_key L + 128) + sk_encoded_capacity k)
          + sat_u64 ((sk_key_capacity k - length (sk_key k)) * size_of_scalar L)))
       (sk_key k)"

definition indexed :: "key_layout \<Rightarrow> state_key \<Rightarrow> memory_owner \<Rightarrow> store \<Rightarrow> (store \<times> state_key) result" where
  "indexed L k ow st =
     (let n = sat_u64 (sat_u64 (key_tracked_bytes L k + length (sk_encoded k)) + 128)
      in rbind (acquire Retention n ow st) (\<lambda>(st1, lease).
           Ok (st1, (clone_key k)\<lparr>sk_index_lease := Some lease\<rparr>)))"

definition index_bytes :: "state_key \<Rightarrow> nat" where
  "index_bytes k = (case sk_index_lease k of None \<Rightarrow> 0 | Some l \<Rightarrow> alloc_bytes (lease_alloc l))"

section \<open>The bounded map\<close>

record 'v entry =
  e_key :: state_key
  e_value :: 'v
  e_key_bytes :: nat
  e_lease :: memory_lease

record 'v memory_state =
  ms_owner :: memory_owner
  ms_operator :: nat
  ms_slot :: nat
  ms_max_keys :: nat
  ms_entries :: "(key_id, 'v entry) hmap"
  ms_retained :: nat

definition lease_bytes :: "memory_lease \<Rightarrow> nat" where
  "lease_bytes l = alloc_bytes (lease_alloc l)"

definition ms_new :: "memory_owner \<Rightarrow> nat \<Rightarrow> nat \<Rightarrow> nat \<Rightarrow> 'v memory_state result" where
  "ms_new ow op slot mx =
     (if mx = 0 then Err InvalidArgument
      else Ok \<lparr>ms_owner = ow, ms_operator = op, ms_slot = slot,
               ms_max_keys = min mx (max_state_keys (owner_budget ow)), ms_entries = [], ms_retained = 0\<rparr>)"

definition ms_len :: "'v memory_state \<Rightarrow> nat" where
  "ms_len s = length (ms_entries s)"

definition ms_get :: "state_key \<Rightarrow> 'v memory_state \<Rightarrow> 'v option" where
  "ms_get k s = map_option e_value (map_of (ms_entries s) (key_id k))"

text \<open>\<open>get_mut\<close> with the change the caller makes through the reference as an argument.\<close>

definition ms_get_mut :: "state_key \<Rightarrow> ('v \<Rightarrow> 'v) \<Rightarrow> 'v memory_state \<Rightarrow> 'v memory_state" where
  "ms_get_mut k f s =
     (case map_of (ms_entries s) (key_id k) of
        None \<Rightarrow> s
      | Some e \<Rightarrow> s\<lparr>ms_entries := hm_put (key_id k) (e\<lparr>e_value := f (e_value e)\<rparr>) (ms_entries s)\<rparr>)"

definition ms_put :: "key_layout \<Rightarrow> state_key \<Rightarrow> 'v \<Rightarrow> nat \<Rightarrow> 'v memory_state \<Rightarrow> store \<Rightarrow>
    (store \<times> 'v memory_state \<times> unit result) option" where
  "ms_put L k v vbytes s st =
     (if sk_operator k \<noteq> ms_operator s \<or> sk_slot k \<noteq> ms_slot s then Some (st, s, Err Internal)
      else
        let old = map_of (ms_entries s) (key_id k)
        in if old = None \<and> length (ms_entries s) \<ge> ms_max_keys s
           then Some (st, s, Inl (with_retryable False (new_error ResourceExhausted)))
           else
             let resident = (case old of None \<Rightarrow> k | Some e \<Rightarrow> e_key e);
                 kbytes = key_tracked_bytes L resident;
                 n = max (sat_u64 (kbytes + vbytes)) 1
             in case acquire Retention n (ms_owner s) st of
                  Inl e \<Rightarrow> Some (st, s, Inl e)
                | Inr (st1, lease) \<Rightarrow>
                    (case replace_accounted_bytes (ms_retained s)
                            (case old of None \<Rightarrow> 0 | Some e \<Rightarrow> lease_bytes (e_lease e)) n (ms_owner s) st1 of
                       (_, None) \<Rightarrow> None
                     | (st2, Some tot) \<Rightarrow>
                         Some (case old of None \<Rightarrow> st2 | Some e \<Rightarrow> fst (drop_lease (e_lease e) st2),
                           s\<lparr>ms_entries := hm_put (key_id k)
                                \<lparr>e_key = resident, e_value = v, e_key_bytes = kbytes, e_lease = lease\<rparr> (ms_entries s),
                             ms_retained := tot\<rparr>, Ok ())))"

definition ms_remove :: "state_key \<Rightarrow> 'v memory_state \<Rightarrow> store \<Rightarrow> (store \<times> 'v memory_state \<times> 'v option) option" where
  "ms_remove k s st =
     (case map_of (ms_entries s) (key_id k) of
        None \<Rightarrow> Some (st, s, None)
      | Some e \<Rightarrow>
          (case replace_accounted_bytes (ms_retained s) (lease_bytes (e_lease e)) 0 (ms_owner s) st of
             (_, None) \<Rightarrow> None
           | (st1, Some tot) \<Rightarrow>
               Some (fst (drop_lease (e_lease e) st1),
                 s\<lparr>ms_entries := hm_del (key_id k) (ms_entries s), ms_retained := tot\<rparr>, Some (e_value e))))"

text \<open>
  The production update: the callback changes the value and resizes the entry's lease; the
  ledger follows whatever it did, also when it fails.
\<close>

type_synonym 'v accounted_update = "'v \<Rightarrow> memory_lease \<Rightarrow> nat \<Rightarrow> store \<Rightarrow> store \<times> 'v \<times> memory_lease \<times> unit result"

definition ms_update_accounted :: "state_key \<Rightarrow> 'v accounted_update \<Rightarrow> 'v memory_state \<Rightarrow> store \<Rightarrow>
    (store \<times> 'v memory_state \<times> unit result) option" where
  "ms_update_accounted k f s st =
     (case map_of (ms_entries s) (key_id k) of
        None \<Rightarrow> Some (st, s, Ok ())
      | Some e \<Rightarrow>
          (case f (e_value e) (e_lease e) (e_key_bytes e) st of
             (st1, v1, lease1, r) \<Rightarrow>
               (case replace_accounted_bytes (ms_retained s) (lease_bytes (e_lease e)) (lease_bytes lease1) (ms_owner s) st1 of
                  (_, None) \<Rightarrow> None
                | (st2, Some tot) \<Rightarrow>
                    Some (st2, s\<lparr>ms_entries := hm_put (key_id k) (e\<lparr>e_value := v1, e_lease := lease1\<rparr>) (ms_entries s),
                      ms_retained := tot\<rparr>, r))))"

text \<open>\<open>retain\<close>: entries the predicate refuses are dropped, each with its credit.\<close>

fun retain_loop :: "(state_key \<Rightarrow> 'v \<Rightarrow> bool) \<Rightarrow> memory_owner \<Rightarrow> (key_id \<times> 'v entry) list \<Rightarrow> nat \<Rightarrow> store \<Rightarrow>
    (store \<times> nat \<times> (key_id \<times> 'v entry) list) option" where
  "retain_loop pr ow [] tot st = Some (st, tot, [])"
| "retain_loop pr ow ((i, e) # es) tot st =
     (if pr (e_key e) (e_value e)
      then map_option (\<lambda>(st', tot', es'). (st', tot', (i, e) # es')) (retain_loop pr ow es tot st)
      else case replace_accounted_bytes tot (lease_bytes (e_lease e)) 0 ow st of
          (_, None) \<Rightarrow> None
        | (st1, Some tot1) \<Rightarrow> retain_loop pr ow es tot1 (fst (drop_lease (e_lease e) st1)))"

definition ms_retain :: "(state_key \<Rightarrow> 'v \<Rightarrow> bool) \<Rightarrow> 'v memory_state \<Rightarrow> store \<Rightarrow> (store \<times> 'v memory_state) option" where
  "ms_retain pr s st =
     map_option (\<lambda>(st', tot, es). (st', s\<lparr>ms_entries := es, ms_retained := tot\<rparr>))
       (retain_loop pr (ms_owner s) (ms_entries s) (ms_retained s) st)"

definition ms_clear :: "'v memory_state \<Rightarrow> store \<Rightarrow> store \<times> 'v memory_state" where
  "ms_clear s st =
     (fold (\<lambda>(_, e) st. fst (drop_lease (e_lease e) st)) (ms_entries s) st,
      s\<lparr>ms_entries := [], ms_retained := 0\<rparr>)"

section \<open>Keys are values up to their canonical form\<close>

lemma key_encoding_iff:
  assumes "list_all key_ok xs" "list_all key_ok ys"
  shows "key_encoding xs = key_encoding ys \<longleftrightarrow> map canon xs = map canon ys"
proof
  assume "key_encoding xs = key_encoding ys"
  with assms show "map canon xs = map canon ys"
  proof (induction xs arbitrary: ys)
    case Nil
    then show ?case by (cases ys) (simp_all add: key_encoding_def)
  next
    case (Cons x xs)
    then obtain y ys' where ys: "ys = y # ys'" by (cases ys) (simp_all add: key_encoding_def)
    have "encode_key x @ (0xff # key_encoding xs) = encode_key y @ (0xff # key_encoding ys')"
      using Cons.prems(3) ys by (simp add: key_encoding_def)
    with Cons.prems ys have "canon x = canon y" "key_encoding xs = key_encoding ys'"
      using key_prefix_free [of x y] by fastforce+
    with Cons ys show ?case by simp
  qed
next
  assume c: "map canon xs = map canon ys"
  then have "map encode_key xs = map encode_key ys"
    by (induction xs ys rule: list_induct2') (auto dest: encode_key_canon)
  then have "map (\<lambda>b. b @ [0xff]) (map encode_key xs) = map (\<lambda>b. b @ [0xff]) (map encode_key ys)" by simp
  then show "key_encoding xs = key_encoding ys" by (simp add: key_encoding_def comp_def)
qed

section \<open>The byte ledger invariant\<close>

text \<open>
  \<open>extra\<close> stands for other bytes the same task retains at the same owner (an index beside the
  map). The owner's retention ledger covers both; that is what the memory model guarantees of
  live leases.
\<close>

definition entry_ok :: "'v memory_state \<Rightarrow> key_id \<Rightarrow> 'v entry \<Rightarrow> bool" where
  "entry_ok s i e \<longleftrightarrow> i = key_id (e_key e) \<and> sk_operator (e_key e) = ms_operator s \<and> sk_slot (e_key e) = ms_slot s \<and>
     lease_ok (e_lease e) \<and> lease_owner (e_lease e) = ms_owner s \<and>
     alloc_kind (lease_alloc (e_lease e)) = Retention \<and> alloc_handles (lease_alloc (e_lease e)) = 1"

abbreviation held_bytes :: "'v memory_state \<Rightarrow> nat" where
  "held_bytes s \<equiv> hm_sum (\<lambda>e. lease_bytes (e_lease e)) (ms_entries s)"

definition retention :: "memory_owner \<Rightarrow> store \<Rightarrow> nat" where
  "retention ow st = ledger Retention (st (owner_id ow))"

definition ms_inv :: "nat \<Rightarrow> 'v memory_state \<Rightarrow> store \<Rightarrow> bool" where
  "ms_inv extra s st \<longleftrightarrow> wf_owner (ms_owner s) \<and> hm_inv (ms_entries s) \<and>
     length (ms_entries s) \<le> ms_max_keys s \<and> (\<forall>(i, e) \<in> set (ms_entries s). entry_ok s i e) \<and>
     ms_retained s = held_bytes s \<and> ms_retained s + extra \<le> retention (ms_owner s) st \<and>
     retention (ms_owner s) st \<le> cap (owner_budget (ms_owner s)) Retention"

lemma ms_inv_small: "ms_inv extra s st \<Longrightarrow> retention (ms_owner s) st < u64_max"
  using wf_owner_budget [of "ms_owner s"] cap_sum [of "owner_budget (ms_owner s)" Retention]
  by (simp add: ms_inv_def budget_ok_def)

lemma ms_inv_entry:
  assumes "ms_inv extra s st" "map_of (ms_entries s) i = Some e"
  shows "entry_ok s i e" "lease_bytes (e_lease e) \<le> ms_retained s"
  using assms map_of_SomeD [OF assms(2)] hm_sum_mem [OF assms(2), of "\<lambda>e. lease_bytes (e_lease e)"]
  by (auto simp: ms_inv_def)

lemma entry_drop:
  assumes "entry_ok s i e" "wf_owner (ms_owner s)" "lease_bytes (e_lease e) \<le> retention (ms_owner s) st"
    and "retention (ms_owner s) st \<le> u64_max"
  shows "retention (ms_owner s) (fst (drop_lease (e_lease e) st)) = retention (ms_owner s) st - lease_bytes (e_lease e)"
  using drop_ledger [of "e_lease e" st] assms by (simp add: entry_ok_def lease_bytes_def retention_def)

lemma replace_ok:
  "old \<le> tot \<Longrightarrow> tot - old + nw \<le> u64_max \<Longrightarrow> replace_accounted_bytes tot old nw ow st = (st, Some (tot - old + nw))"
  by (simp add: replace_accounted_bytes_def)

lemma replace_same: "replace_accounted_bytes tot old nw ow st = (st', Some v) \<Longrightarrow> st' = st"
  by (auto simp: replace_accounted_bytes_def split: option.splits)

lemma entry_ok_cong [simp]:
  "entry_ok (s\<lparr>ms_entries := es\<rparr>) = entry_ok s" "entry_ok (s\<lparr>ms_retained := n\<rparr>) = entry_ok s"
  by (simp_all add: entry_ok_def fun_eq_iff)

lemma ms_remove_spec:
  assumes inv: "ms_inv extra s st"
  shows "\<exists>st' s'. ms_remove k s st = Some (st', s', ms_get k s) \<and> ms_inv extra s' st' \<and>
    map_of (ms_entries s') = (map_of (ms_entries s))(key_id k := None) \<and>
    ms_owner s' = ms_owner s \<and> ms_operator s' = ms_operator s \<and> ms_slot s' = ms_slot s \<and> ms_max_keys s' = ms_max_keys s \<and>
    retention (ms_owner s) st' = retention (ms_owner s) st - (ms_retained s - ms_retained s')"
proof (cases "map_of (ms_entries s) (key_id k)")
  case None
  then have "(map_of (ms_entries s))(key_id k := None) = map_of (ms_entries s)" by auto
  with None inv show ?thesis by (simp add: ms_remove_def ms_get_def)
next
  case (Some e)
  note e = ms_inv_entry [OF inv Some]
  have small: "retention (ms_owner s) st < u64_max" using ms_inv_small [OF inv] .
  have cover: "ms_retained s + extra \<le> retention (ms_owner s) st" "wf_owner (ms_owner s)"
    using inv by (simp_all add: ms_inv_def)
  define s' where "s' = s\<lparr>ms_entries := hm_del (key_id k) (ms_entries s), ms_retained := ms_retained s - lease_bytes (e_lease e)\<rparr>"
  let ?st = "fst (drop_lease (e_lease e) st)"
  have run: "ms_remove k s st = Some (?st, s', ms_get k s)"
    using e(2) cover small by (simp add: ms_remove_def Some ms_get_def replace_ok s'_def)
  have ret: "retention (ms_owner s) ?st = retention (ms_owner s) st - lease_bytes (e_lease e)"
    using entry_drop [OF e(1) cover(2)] e(2) cover small by simp
  have hm: "hm_inv (ms_entries s)" using inv by (simp add: ms_inv_def)
  have "held_bytes s' + lease_bytes (e_lease e) = held_bytes s"
    using hm_sum_del [OF hm, of "\<lambda>e. lease_bytes (e_lease e)" "key_id k"] by (simp add: Some s'_def)
  moreover have "length (ms_entries s') \<le> ms_max_keys s"
    using hm.len_del [OF hm, of "key_id k"] inv by (auto simp: s'_def ms_inv_def)
  ultimately have "ms_inv extra s' ?st"
    using inv ret e(2) cover set_hm_del [of "key_id k" "ms_entries s"]
    by (auto simp: ms_inv_def s'_def hm_inv_del)
  moreover have "ms_retained s - ms_retained s' = lease_bytes (e_lease e)" using e(2) by (simp add: s'_def)
  ultimately show ?thesis
    using run ret by (intro exI [of _ ?st] exI [of _ s']) (simp add: s'_def)
qed

lemma ms_inv_put:
  assumes inv: "ms_inv extra s st" and fit: "old = None \<longrightarrow> length (ms_entries s) < ms_max_keys s"
    and old: "old = map_of (ms_entries s) (key_id k)" and e: "entry_ok s (key_id k) e"
    and ret: "retention (ms_owner s) st' + (case old of None \<Rightarrow> 0 | Some o' \<Rightarrow> lease_bytes (e_lease o'))
      = retention (ms_owner s) st + lease_bytes (e_lease e)"
      "retention (ms_owner s) st' \<le> cap (owner_budget (ms_owner s)) Retention"
    and tot: "tot = ms_retained s - (case old of None \<Rightarrow> 0 | Some o' \<Rightarrow> lease_bytes (e_lease o')) + lease_bytes (e_lease e)"
  shows "ms_inv extra (s\<lparr>ms_entries := hm_put (key_id k) e (ms_entries s), ms_retained := tot\<rparr>) st'"
proof -
  have hm: "hm_inv (ms_entries s)" and rt: "ms_retained s = held_bytes s" using inv by (simp_all add: ms_inv_def)
  let ?o = "case old of None \<Rightarrow> 0 | Some o' \<Rightarrow> lease_bytes (e_lease o')"
  let ?m = "hm_put (key_id k) e (ms_entries s)"
  have le: "?o \<le> ms_retained s" using ms_inv_entry(2) [OF inv] old by (auto split: option.splits)
  have "hm_sum (\<lambda>e. lease_bytes (e_lease e)) ?m + ?o = held_bytes s + lease_bytes (e_lease e)"
    using hm_sum_put [of "\<lambda>e. lease_bytes (e_lease e)" "key_id k" e "ms_entries s"] old by simp
  then have sum: "hm_sum (\<lambda>e. lease_bytes (e_lease e)) ?m = tot" using le rt tot by simp
  have len: "length ?m \<le> ms_max_keys s"
    using hm.len_put [OF hm, of "key_id k" e] fit old inv by (auto simp: ms_inv_def)
  have "\<forall>(i, x) \<in> set ?m. entry_ok s i x"
    using inv e by (auto simp: ms_inv_def dest!: set_hm_put)
  moreover have "ms_retained s + extra \<le> retention (ms_owner s) st" using inv by (simp add: ms_inv_def)
  then have "tot + extra \<le> retention (ms_owner s) st'" using ret(1) le tot by linarith
  ultimately show ?thesis using inv sum len ret(2) by (simp add: ms_inv_def hm_inv_put hm)
qed

text \<open>The second half of \<open>put\<close>: the credit is there, the entry replaces the old one.\<close>

definition put_admitted :: "'v entry option \<Rightarrow> state_key \<Rightarrow> 'v entry \<Rightarrow> 'v memory_state \<Rightarrow> store \<Rightarrow>
    (store \<times> 'v memory_state \<times> unit result) option" where
  "put_admitted old k e s st1 =
     (case replace_accounted_bytes (ms_retained s) (case old of None \<Rightarrow> 0 | Some o' \<Rightarrow> lease_bytes (e_lease o'))
             (lease_bytes (e_lease e)) (ms_owner s) st1 of
        (_, None) \<Rightarrow> None
      | (st2, Some tot) \<Rightarrow> Some (case old of None \<Rightarrow> st2 | Some o' \<Rightarrow> fst (drop_lease (e_lease o') st2),
          s\<lparr>ms_entries := hm_put (key_id k) e (ms_entries s), ms_retained := tot\<rparr>, Ok ()))"

lemma put_admitted_spec:
  assumes inv: "ms_inv extra s st" and old: "old = map_of (ms_entries s) (key_id k)"
    and fit: "old = None \<longrightarrow> length (ms_entries s) < ms_max_keys s" and e_ok: "entry_ok s (key_id k) e"
    and st1: "retention (ms_owner s) st1 = retention (ms_owner s) st + lease_bytes (e_lease e)"
      "retention (ms_owner s) st1 \<le> cap (owner_budget (ms_owner s)) Retention"
  shows "\<exists>st' tot. put_admitted old k e s st1 = Some (st', s\<lparr>ms_entries := hm_put (key_id k) e (ms_entries s), ms_retained := tot\<rparr>, Ok ()) \<and>
    ms_inv extra (s\<lparr>ms_entries := hm_put (key_id k) e (ms_entries s), ms_retained := tot\<rparr>) st' \<and>
    retention (ms_owner s) st' + ms_retained s = retention (ms_owner s) st + tot"
proof -
  have wf: "wf_owner (ms_owner s)" and cover: "ms_retained s + extra \<le> retention (ms_owner s) st"
    using inv by (simp_all add: ms_inv_def)
  let ?n = "lease_bytes (e_lease e)" and ?o = "case old of None \<Rightarrow> 0 | Some e \<Rightarrow> lease_bytes (e_lease e)"
  let ?st = "case old of None \<Rightarrow> st1 | Some e \<Rightarrow> fst (drop_lease (e_lease e) st1)"
  have o_le: "?o \<le> ms_retained s" using ms_inv_entry(2) [OF inv] old by (auto split: option.splits)
  have small: "retention (ms_owner s) st1 < u64_max"
    using st1(2) wf_owner_budget [OF wf] cap_sum [of "owner_budget (ms_owner s)" Retention] by (simp add: budget_ok_def)
  have "replace_accounted_bytes (ms_retained s) ?o ?n (ms_owner s) st1 = (st1, Some (ms_retained s - ?o + ?n))"
    using o_le cover st1 small by (intro replace_ok) simp_all
  then have run: "put_admitted old k e s st1 = Some (?st, s\<lparr>ms_entries := hm_put (key_id k) e (ms_entries s),
      ms_retained := ms_retained s - ?o + ?n\<rparr>, Ok ())"
    by (simp add: put_admitted_def)
  have ret: "retention (ms_owner s) ?st + ?o = retention (ms_owner s) st + ?n"
  proof (cases old)
    case (Some e)
    have "retention (ms_owner s) (fst (drop_lease (e_lease e) st1)) = retention (ms_owner s) st1 - lease_bytes (e_lease e)"
      using entry_drop [OF ms_inv_entry(1) [OF inv old [unfolded Some, symmetric]] wf] o_le cover st1 small Some by simp
    then show ?thesis using Some st1 o_le cover by simp
  qed (simp add: st1)
  then have "retention (ms_owner s) ?st \<le> cap (owner_budget (ms_owner s)) Retention" using st1 by simp
  with ms_inv_put [OF inv fit old e_ok ret] run ret o_le show ?thesis by auto
qed

lemma ms_put_admitted:
  assumes "sk_operator k = ms_operator s" "sk_slot k = ms_slot s"
    and "map_of (ms_entries s) (key_id k) = None \<longrightarrow> length (ms_entries s) < ms_max_keys s"
  shows "\<exists>n resident. resident = (case map_of (ms_entries s) (key_id k) of None \<Rightarrow> k | Some e \<Rightarrow> e_key e) \<and>
    n = max (sat_u64 (key_tracked_bytes L resident + vb)) 1 \<and>
    (wf_owner (ms_owner s) \<longrightarrow> ms_put L k v vb s st = (case acquire Retention n (ms_owner s) st of
      Inl e \<Rightarrow> Some (st, s, Inl e)
    | Inr (st1, l) \<Rightarrow> put_admitted (map_of (ms_entries s) (key_id k)) k
        \<lparr>e_key = resident, e_value = v, e_key_bytes = key_tracked_bytes L resident, e_lease = l\<rparr> s st1))"
proof -
  define old where "old = map_of (ms_entries s) (key_id k)"
  define resident where "resident = (case old of None \<Rightarrow> k | Some e \<Rightarrow> e_key e)"
  define n where "n = max (sat_u64 (key_tracked_bytes L resident + vb)) 1"
  note defs = old_def [symmetric] resident_def [symmetric] n_def [symmetric]
  have room: "(old = None \<and> ms_max_keys s \<le> length (ms_entries s)) = False"
    using assms(3) by (auto simp: defs)
  have lb: "wf_owner (ms_owner s) \<Longrightarrow> acquire Retention n (ms_owner s) st = Ok (st1, l) \<Longrightarrow> lease_bytes l = n" for st1 l
    using acquire_spec [of "ms_owner s" Retention n st st1 l] by (simp add: lease_bytes_def)
  have "wf_owner (ms_owner s) \<longrightarrow> ms_put L k v vb s st = (case acquire Retention n (ms_owner s) st of
      Inl e \<Rightarrow> Some (st, s, Inl e)
    | Inr (st1, l) \<Rightarrow> put_admitted old k
        \<lparr>e_key = resident, e_value = v, e_key_bytes = key_tracked_bytes L resident, e_lease = l\<rparr> s st1)"
    unfolding ms_put_def Let_def defs assms(1,2) put_admitted_def
    by (auto simp only: room simp_thms if_False lb entry.simps split: sum.split prod.split)
  then show ?thesis using defs by blast
qed

lemma ms_put_spec:
  assumes inv: "ms_inv extra s st"
  shows "\<exists>st' s' r. ms_put L k v vb s st = Some (st', s', r) \<and> ms_inv extra s' st' \<and>
    ms_owner s' = ms_owner s \<and> ms_operator s' = ms_operator s \<and> ms_slot s' = ms_slot s \<and> ms_max_keys s' = ms_max_keys s \<and>
    (case r of Inl e \<Rightarrow> st' = st \<and> s' = s
     | Inr _ \<Rightarrow> sk_operator k = ms_operator s \<and> sk_slot k = ms_slot s \<and>
         (\<exists>e. map_of (ms_entries s') = (map_of (ms_entries s))(key_id k \<mapsto> e) \<and> e_value e = v) \<and>
         retention (ms_owner s) st' + ms_retained s = retention (ms_owner s) st + ms_retained s')"
proof (cases "\<exists>e. ms_put L k v vb s st = Some (st, s, Inl e)")
  case True
  then show ?thesis using inv by auto
next
  case False
  define old where "old = map_of (ms_entries s) (key_id k)"
  have op: "sk_operator k = ms_operator s" "sk_slot k = ms_slot s" using False
    by (cases "sk_operator k = ms_operator s"; cases "sk_slot k = ms_slot s"; simp add: ms_put_def)+
  have fit: "old = None \<longrightarrow> length (ms_entries s) < ms_max_keys s"
    using False op by (cases "ms_max_keys s \<le> length (ms_entries s)"; cases old) (simp_all add: ms_put_def Let_def old_def [symmetric])
  have wf: "wf_owner (ms_owner s)" using inv by (simp add: ms_inv_def)
  obtain n resident where res: "resident = (case old of None \<Rightarrow> k | Some e \<Rightarrow> e_key e)" and
    body: "ms_put L k v vb s st = (case acquire Retention n (ms_owner s) st of
        Inl e \<Rightarrow> Some (st, s, Inl e)
      | Inr (st1, l) \<Rightarrow> put_admitted old k
          \<lparr>e_key = resident, e_value = v, e_key_bytes = key_tracked_bytes L resident, e_lease = l\<rparr> s st1)"
    using ms_put_admitted [OF op fit [unfolded old_def], of L vb v st] wf unfolding old_def by blast
  obtain st1 l where acq: "acquire Retention n (ms_owner s) st = Ok (st1, l)"
    using False by (cases "acquire Retention n (ms_owner s) st") (auto simp: body)
  note led = acquire_ledger [OF wf acq] and sp = acquire_spec [OF wf acq]
  let ?e = "\<lparr>e_key = resident, e_value = v, e_key_bytes = key_tracked_bytes L resident, e_lease = l\<rparr>"
  have e_ok: "entry_ok s (key_id k) ?e"
    using sp op ms_inv_entry(1) [OF inv] old_def by (auto simp: entry_ok_def res split: option.splits)
  have "retention (ms_owner s) st1 = retention (ms_owner s) st + lease_bytes (e_lease ?e)"
    "retention (ms_owner s) st1 \<le> cap (owner_budget (ms_owner s)) Retention"
    using led sp by (auto simp: retention_def lease_bytes_def)
  from put_admitted_spec [OF inv old_def fit e_ok this] obtain st' tot where
    "put_admitted old k ?e s st1 = Some (st', s\<lparr>ms_entries := hm_put (key_id k) ?e (ms_entries s), ms_retained := tot\<rparr>, Ok ())"
    "ms_inv extra (s\<lparr>ms_entries := hm_put (key_id k) ?e (ms_entries s), ms_retained := tot\<rparr>) st'"
    "retention (ms_owner s) st' + ms_retained s = retention (ms_owner s) st + tot" by blast
  then show ?thesis using op acq by (auto simp: body)
qed

abbreviation lease_sum :: "(key_id \<times> 'v entry) list \<Rightarrow> nat" where
  "lease_sum es \<equiv> hm_sum (\<lambda>e. lease_bytes (e_lease e)) es"

lemma lease_sum_simps [simp]:
  "lease_sum [] = 0" "lease_sum ((i, e) # es) = lease_bytes (e_lease e) + lease_sum es"
  by (simp_all add: hm_sum_def)

lemma retain_loop_spec:
  assumes "wf_owner (ms_owner s)" "\<forall>(i, e) \<in> set es. entry_ok s i e" "lease_sum es \<le> tot"
    and "tot \<le> retention (ms_owner s) st" "retention (ms_owner s) st \<le> u64_max"
  shows "\<exists>st' tot'. retain_loop pr (ms_owner s) es tot st = Some (st', tot', filter (\<lambda>(i, e). pr (e_key e) (e_value e)) es) \<and>
    tot' + lease_sum (filter (\<lambda>(i, e). \<not> pr (e_key e) (e_value e)) es) = tot \<and>
    retention (ms_owner s) st' + lease_sum (filter (\<lambda>(i, e). \<not> pr (e_key e) (e_value e)) es) = retention (ms_owner s) st"
  using assms
proof (induction es arbitrary: tot st)
  case (Cons ie es)
  obtain i e where ie: "ie = (i, e)" by fastforce
  show ?case
  proof (cases "pr (e_key e) (e_value e)")
    case True
    have "lease_sum es \<le> tot" using Cons.prems(3) ie by simp
    with Cons.IH [of tot st] Cons.prems ie True show ?thesis by fastforce
  next
    case False
    have le: "lease_bytes (e_lease e) \<le> tot" "lease_sum es \<le> tot - lease_bytes (e_lease e)" using Cons.prems(3) ie by simp_all
    let ?st = "fst (drop_lease (e_lease e) st)"
    have rep: "replace_accounted_bytes tot (lease_bytes (e_lease e)) 0 (ms_owner s) st = (st, Some (tot - lease_bytes (e_lease e)))"
      using replace_ok [of "lease_bytes (e_lease e)" tot 0] le Cons.prems by simp
    have "entry_ok s i e" using Cons.prems(2) ie by simp
    from entry_drop [OF this Cons.prems(1), of st] le Cons.prems
    have ret: "retention (ms_owner s) ?st = retention (ms_owner s) st - lease_bytes (e_lease e)" by simp
    have "\<exists>st' tot'. retain_loop pr (ms_owner s) es (tot - lease_bytes (e_lease e)) ?st
          = Some (st', tot', filter (\<lambda>(i, e). pr (e_key e) (e_value e)) es) \<and>
        tot' + lease_sum (filter (\<lambda>(i, e). \<not> pr (e_key e) (e_value e)) es) = tot - lease_bytes (e_lease e) \<and>
        retention (ms_owner s) st' + lease_sum (filter (\<lambda>(i, e). \<not> pr (e_key e) (e_value e)) es) = retention (ms_owner s) ?st"
      using Cons.prems ie le ret by (intro Cons.IH) auto
    with False ie rep ret le Cons.prems show ?thesis by auto
  qed
qed simp

lemma lease_sum_partition: "lease_sum (filter pr es) + lease_sum (filter (\<lambda>x. \<not> pr x) es) = lease_sum es"
  by (induction es) (auto simp: hm_sum_def)

lemma ms_retain_spec:
  assumes inv: "ms_inv extra s st"
  shows "\<exists>st' s'. ms_retain pr s st = Some (st', s') \<and> ms_inv extra s' st' \<and>
    ms_entries s' = filter (\<lambda>(i, e). pr (e_key e) (e_value e)) (ms_entries s) \<and>
    ms_owner s' = ms_owner s \<and> ms_operator s' = ms_operator s \<and> ms_slot s' = ms_slot s \<and> ms_max_keys s' = ms_max_keys s"
proof -
  let ?keep = "filter (\<lambda>(i, e). pr (e_key e) (e_value e)) (ms_entries s)"
  let ?gone = "filter (\<lambda>(i, e). \<not> pr (e_key e) (e_value e)) (ms_entries s)"
  have i: "wf_owner (ms_owner s)" "\<forall>(i, e) \<in> set (ms_entries s). entry_ok s i e" "lease_sum (ms_entries s) = ms_retained s"
    "ms_retained s + extra \<le> retention (ms_owner s) st" "hm_inv (ms_entries s)" "length (ms_entries s) \<le> ms_max_keys s"
    "retention (ms_owner s) st \<le> cap (owner_budget (ms_owner s)) Retention"
    using inv by (simp_all add: ms_inv_def)
  obtain st' tot' where run: "retain_loop pr (ms_owner s) (ms_entries s) (ms_retained s) st = Some (st', tot', ?keep)"
    and tot: "tot' + lease_sum ?gone = ms_retained s"
    and ret: "retention (ms_owner s) st' + lease_sum ?gone = retention (ms_owner s) st"
    using retain_loop_spec [OF i(1,2), of "ms_retained s" st pr] i ms_inv_small [OF inv] by auto
  have gone: "?gone = filter (\<lambda>x. \<not> (case x of (i, e) \<Rightarrow> pr (e_key e) (e_value e))) (ms_entries s)"
    by (intro filter_cong) auto
  have "lease_sum ?keep = tot'"
    using lease_sum_partition [of "\<lambda>(i, e). pr (e_key e) (e_value e)" "ms_entries s"] tot i(3) unfolding gone by simp
  moreover have "hm_inv ?keep" using i(5) by (simp add: hm_inv_def distinct_map_filter)
  moreover have "length ?keep \<le> ms_max_keys s" using length_filter_le i(6) by (rule le_trans)
  ultimately have "ms_inv extra (s\<lparr>ms_entries := ?keep, ms_retained := tot'\<rparr>) st'"
    using i tot ret by (auto simp: ms_inv_def)
  with run show ?thesis by (simp add: ms_retain_def)
qed

lemma ms_clear_spec:
  assumes inv: "ms_inv extra s st" and "ms_clear s st = (st', s')"
  shows "ms_inv extra s' st' \<and> ms_entries s' = [] \<and> ms_retained s' = 0 \<and>
    retention (ms_owner s) st' + ms_retained s = retention (ms_owner s) st"
proof -
  have i: "wf_owner (ms_owner s)" "\<forall>(i, e) \<in> set (ms_entries s). entry_ok s i e" "lease_sum (ms_entries s) = ms_retained s"
    "ms_retained s + extra \<le> retention (ms_owner s) st" "retention (ms_owner s) st \<le> cap (owner_budget (ms_owner s)) Retention"
    using inv by (simp_all add: ms_inv_def)
  have drops: "\<forall>(i, e) \<in> set es. entry_ok s i e \<Longrightarrow> lease_sum es \<le> retention (ms_owner s) st0 \<Longrightarrow> retention (ms_owner s) st0 \<le> u64_max \<Longrightarrow>
      retention (ms_owner s) (fold (\<lambda>(_, e) st. fst (drop_lease (e_lease e) st)) es st0) + lease_sum es = retention (ms_owner s) st0" for es st0
  proof (induction es arbitrary: st0)
    case (Cons ie es)
    obtain i e where ie: "ie = (i, e)" by fastforce
    have "retention (ms_owner s) (fst (drop_lease (e_lease e) st0)) = retention (ms_owner s) st0 - lease_bytes (e_lease e)"
      using entry_drop [of s i e st0] Cons.prems ie i(1) by simp
    moreover from this have "retention (ms_owner s) (fold (\<lambda>(_, e) st. fst (drop_lease (e_lease e) st)) es
        (fst (drop_lease (e_lease e) st0))) + lease_sum es = retention (ms_owner s) (fst (drop_lease (e_lease e) st0))"
      using Cons.prems ie by (intro Cons.IH) simp_all
    ultimately show ?case using Cons.prems ie by simp
  qed simp
  have "retention (ms_owner s) st' + ms_retained s = retention (ms_owner s) st"
    using drops [OF i(2), of st] assms(2) i ms_inv_small [OF inv] by (auto simp: ms_clear_def)
  moreover have "s' = s\<lparr>ms_entries := [], ms_retained := 0\<rparr>" using assms(2) by (simp add: ms_clear_def)
  ultimately show ?thesis using i by (auto simp: ms_inv_def)
qed

section \<open>Properties\<close>

text \<open>
  Two state keys of one operator and slot are the same key exactly when their values are the
  same column by column, up to signed zero, NaN payload and the order of object keys; keys
  with a different number of columns never coincide.
\<close>

theorem state_key_identity:
  assumes "list_all key_ok xs" "list_all key_ok ys"
  shows "key_id (state_key_new c1 op slot xs) = key_id (state_key_new c2 op' slot' ys) \<longleftrightarrow>
    op = op' \<and> slot = slot' \<and> map canon xs = map canon ys"
  using key_encoding_iff [OF assms] by (simp add: key_id_def state_key_new_def)

theorem state_key_identity_witness:
  "key_id (state_key_new (1, 16) 2 1 [SInt64 3]) = key_id (state_key_new (4, 32) 2 1 [SUInt64 3]) \<longleftrightarrow>
     2 = (2::nat) \<and> 1 = (1::nat) \<and> map canon [SInt64 3] = map canon [SUInt64 3]"
  by (rule state_key_identity) (simp_all add: is_i64_def is_u64_def)

text \<open>What an entry of the map costs: the key that stays resident and the value, one byte at least.\<close>

definition put_bytes :: "key_layout \<Rightarrow> state_key \<Rightarrow> nat \<Rightarrow> nat" where
  "put_bytes L k vbytes = max (sat_u64 (key_tracked_bytes L k + vbytes)) 1"

lemma ms_put_result:
  assumes "ms_put L k v vb s st = Some (st', s', r)"
  shows "r = (if sk_operator k \<noteq> ms_operator s \<or> sk_slot k \<noteq> ms_slot s then Err Internal
     else if ms_get k s = None \<and> ms_max_keys s \<le> ms_len s then Inl (with_retryable False (new_error ResourceExhausted))
     else if room Retention (put_bytes L (case map_of (ms_entries s) (key_id k) of None \<Rightarrow> k | Some e \<Rightarrow> e_key e) vb) (ms_owner s) st then Ok ()
     else Inl (with_retryable True (new_error ResourceExhausted)))"
proof -
  let ?n = "put_bytes L (case map_of (ms_entries s) (key_id k) of None \<Rightarrow> k | Some e \<Rightarrow> e_key e) vb"
  have "0 < ?n" by (simp add: put_bytes_def)
  note granted = acquire_room [OF this, of Retention "ms_owner s" st]
  show ?thesis
    using assms granted unfolding ms_put_def Let_def ms_get_def ms_len_def put_bytes_def
    by (cases "map_of (ms_entries s) (key_id k)") (auto split: if_splits sum.splits option.splits prod.splits)
qed

lemma ms_put_new:
  assumes inv: "ms_inv extra s st" and new: "ms_get k s = None" and op: "sk_operator k = ms_operator s" "sk_slot k = ms_slot s"
    and put: "ms_put L k v vb s st = Some (st', s', r)"
  shows "r = Ok () \<longleftrightarrow> ms_len s < ms_max_keys s \<and> room Retention (put_bytes L k vb) (ms_owner s) st"
    "r = Ok () \<Longrightarrow> ms_len s' = Suc (ms_len s) \<and> ms_max_keys s' = ms_max_keys s \<and>
       hm_sum (\<lambda>e. f (e_key e)) (ms_entries s') = hm_sum (\<lambda>e. f (e_key e)) (ms_entries s) + f k \<and>
       (\<forall>m. room Retention m (ms_owner s) st' = room Retention (put_bytes L k vb + m) (ms_owner s) st)"
proof -
  have none: "map_of (ms_entries s) (key_id k) = None" using new by (simp add: ms_get_def)
  show "r = Ok () \<longleftrightarrow> ms_len s < ms_max_keys s \<and> room Retention (put_bytes L k vb) (ms_owner s) st"
    using ms_put_result [OF put] op new none by (auto split: if_splits)
  assume ok: "r = Ok ()"
  have pos: "0 < put_bytes L k vb" by (simp add: put_bytes_def)
  let ?x = "\<lambda>l. \<lparr>e_key = k, e_value = v, e_key_bytes = key_tracked_bytes L k, e_lease = l\<rparr>"
  obtain st1 l where acq: "acquire Retention (put_bytes L k vb) (ms_owner s) st = Ok (st1, l)" and st: "st' = st1"
    and s': "ms_entries s' = hm_put (key_id k) (?x l) (ms_entries s)" "ms_max_keys s' = ms_max_keys s"
    using put ok op none unfolding ms_put_def Let_def put_bytes_def
    by (auto split: if_splits sum.splits option.splits prod.splits dest!: replace_same)
  have "length (ms_entries s') = Suc (length (ms_entries s))"
    using hm.len_put [of "ms_entries s" "key_id k" "?x l"] none inv s' by (simp add: ms_inv_def)
  moreover have "hm_sum (\<lambda>e. f (e_key e)) (ms_entries s') = hm_sum (\<lambda>e. f (e_key e)) (ms_entries s) + f k"
    using hm_sum_put [of "\<lambda>e. f (e_key e)" "key_id k" "?x l" "ms_entries s"] none s' by simp
  moreover have "wf_owner (ms_owner s)" using inv by (simp add: ms_inv_def)
  ultimately show "ms_len s' = Suc (ms_len s) \<and> ms_max_keys s' = ms_max_keys s \<and>
       hm_sum (\<lambda>e. f (e_key e)) (ms_entries s') = hm_sum (\<lambda>e. f (e_key e)) (ms_entries s) + f k \<and>
       (\<forall>m. room Retention m (ms_owner s) st' = room Retention (put_bytes L k vb + m) (ms_owner s) st)"
    using s'(2) room_acquired [OF _ acq pos] by (simp add: ms_len_def st)
qed

text \<open>
  C35: Under the ledger invariant, \<open>put\<close> never panics, and its result is decided by the state: an
  internal error for a key of another operator or slot; a refusal that is not retryable for a new
  key when the map is full; a retryable refusal exactly when the owner or one of its ancestors has
  no room for the tracked bytes of the resident key and the value; success in every other case. A
  failed \<open>put\<close> changes nothing; a successful one binds the key to the value, leaves every other
  key alone, and keeps the invariant.
\<close>

theorem state_put_refines:
  assumes inv: "ms_inv extra s st"
  shows "\<exists>st' s' r. ms_put L k v vb s st = Some (st', s', r) \<and> ms_inv extra s' st' \<and>
    r = (if sk_operator k \<noteq> ms_operator s \<or> sk_slot k \<noteq> ms_slot s then Err Internal
      else if ms_get k s = None \<and> ms_len s = ms_max_keys s then Inl (with_retryable False (new_error ResourceExhausted))
      else if room Retention (put_bytes L (case map_of (ms_entries s) (key_id k) of None \<Rightarrow> k | Some e \<Rightarrow> e_key e) vb) (ms_owner s) st then Ok ()
      else Inl (with_retryable True (new_error ResourceExhausted))) \<and>
    (case r of Inl e \<Rightarrow> st' = st \<and> s' = s
     | Inr _ \<Rightarrow> (\<forall>k'. ms_get k' s' = (if key_id k' = key_id k then Some v else ms_get k' s)))"
proof -
  obtain st' s' r where run: "ms_put L k v vb s st = Some (st', s', r)" and inv': "ms_inv extra s' st'"
    and post: "case r of Inl e \<Rightarrow> st' = st \<and> s' = s
      | Inr _ \<Rightarrow> sk_operator k = ms_operator s \<and> sk_slot k = ms_slot s \<and>
         (\<exists>e. map_of (ms_entries s') = (map_of (ms_entries s))(key_id k \<mapsto> e) \<and> e_value e = v) \<and>
         retention (ms_owner s) st' + ms_retained s = retention (ms_owner s) st + ms_retained s'"
    using ms_put_spec [OF inv, of L k v vb] by blast
  have "(ms_max_keys s \<le> ms_len s) = (ms_len s = ms_max_keys s)" using inv by (auto simp: ms_inv_def ms_len_def)
  note res = ms_put_result [OF run, unfolded this]
  have "case r of Inl e \<Rightarrow> st' = st \<and> s' = s
     | Inr _ \<Rightarrow> (\<forall>k'. ms_get k' s' = (if key_id k' = key_id k then Some v else ms_get k' s))"
    using post by (auto simp: ms_get_def split: sum.splits)
  with run inv' res show ?thesis by blast
qed

definition demo_state :: "nat memory_state" where
  "demo_state = \<lparr>ms_owner = demo_owner, ms_operator = 1, ms_slot = 1, ms_max_keys = 4, ms_entries = [], ms_retained = 0\<rparr>"

lemma demo_state_inv: "ms_inv 0 demo_state (\<lambda>_. counters_new)"
  by (simp add: ms_inv_def demo_state_def demo_owner_def budget_ok_def budget_compact_def hm_sum_def retention_def counters_new_def)

theorem state_put_refines_witness:
  "\<exists>st' s'. ms_put \<lparr>size_of_scalar = 24, size_of_dynamic = 24, size_of_pair = 40, size_of_state_key = 80\<rparr>
     (state_key_new (1, 16) 1 1 [SInt64 3]) 7 16 demo_state (\<lambda>_. counters_new) = Some (st', s', Ok ()) \<and>
     ms_get (state_key_new (1, 16) 1 1 [SInt64 3]) s' = Some 7"
proof -
  let ?L = "\<lparr>size_of_scalar = 24, size_of_dynamic = 24, size_of_pair = 40, size_of_state_key = 80\<rparr>"
    and ?k = "state_key_new (1, 16) 1 1 [SInt64 3]"
  have k: "sk_operator ?k = ms_operator demo_state" "sk_slot ?k = ms_slot demo_state" "ms_get ?k demo_state = None"
    "ms_len demo_state \<noteq> ms_max_keys demo_state" "map_of (ms_entries demo_state) (key_id ?k) = None"
    by (simp_all add: state_key_new_def demo_state_def ms_get_def ms_len_def)
  have "room Retention (put_bytes ?L ?k 16) (ms_owner demo_state) (\<lambda>_. counters_new)"
    by (simp add: room_def ensure_headroom_def put_bytes_def key_tracked_bytes_def state_key_new_def demo_state_def demo_owner_def counters_new_def
        budget_compact_def layout.defs sat_u64_def resident_bytes_def resident_heap_bytes_def)
  with k state_put_refines [OF demo_state_inv, of ?L ?k 7 16] show ?thesis by auto
qed

datatype 'v ms_op =
    Put state_key 'v nat
  | Remove state_key
  | Retain "state_key \<Rightarrow> 'v \<Rightarrow> bool"
  | GetMut state_key "'v \<Rightarrow> 'v"
  | Clear

fun ms_apply :: "key_layout \<Rightarrow> 'v ms_op \<Rightarrow> 'v memory_state \<times> store \<Rightarrow> ('v memory_state \<times> store) option" where
  "ms_apply L (Put k v vb) (s, st) = map_option (\<lambda>(st', s', _). (s', st')) (ms_put L k v vb s st)"
| "ms_apply L (Remove k) (s, st) = map_option (\<lambda>(st', s', _). (s', st')) (ms_remove k s st)"
| "ms_apply L (Retain pr) (s, st) = map_option (\<lambda>(st', s'). (s', st')) (ms_retain pr s st)"
| "ms_apply L (GetMut k f) (s, st) = Some (ms_get_mut k f s, st)"
| "ms_apply L Clear (s, st) = (case ms_clear s st of (st', s') \<Rightarrow> Some (s', st'))"

fun ms_exec :: "key_layout \<Rightarrow> 'v ms_op list \<Rightarrow> 'v memory_state \<times> store \<Rightarrow> ('v memory_state \<times> store) option" where
  "ms_exec L [] c = Some c"
| "ms_exec L (op # ops) c = Option.bind (ms_apply L op c) (ms_exec L ops)"

lemma ms_get_mut_spec:
  assumes "ms_inv extra s st"
  shows "ms_inv extra (ms_get_mut k f s) st" "ms_owner (ms_get_mut k f s) = ms_owner s"
    "ms_get k' (ms_get_mut k f s) = (if key_id k' = key_id k then map_option f (ms_get k' s) else ms_get k' s)"
proof -
  show "ms_owner (ms_get_mut k f s) = ms_owner s"
    "ms_get k' (ms_get_mut k f s) = (if key_id k' = key_id k then map_option f (ms_get k' s) else ms_get k' s)"
    by (auto simp: ms_get_mut_def ms_get_def split: option.splits)
  show "ms_inv extra (ms_get_mut k f s) st"
  proof (cases "map_of (ms_entries s) (key_id k)")
    case (Some e)
    let ?es = "hm_put (key_id k) (e\<lparr>e_value := f (e_value e)\<rparr>) (ms_entries s)"
    have "hm_sum (\<lambda>e. lease_bytes (e_lease e)) ?es = held_bytes s"
      using hm_sum_put [of "\<lambda>e. lease_bytes (e_lease e)" "key_id k" "e\<lparr>e_value := f (e_value e)\<rparr>" "ms_entries s"] Some by simp
    moreover have "\<forall>(i, x) \<in> set ?es. entry_ok s i x"
      using assms ms_inv_entry(1) [OF assms Some] by (auto simp: ms_inv_def entry_ok_def dest!: set_hm_put)
    moreover have "length ?es = length (ms_entries s)"
      using hm.len_put [of "ms_entries s" "key_id k"] Some assms by (auto simp: ms_inv_def)
    ultimately show ?thesis
      using assms hm_inv_put by (auto simp: ms_inv_def ms_get_mut_def Some entry_ok_def)
  qed (simp add: ms_get_mut_def assms)
qed

lemma ms_apply_inv:
  assumes "ms_inv 0 s st"
  shows "\<exists>s' st'. ms_apply L op (s, st) = Some (s', st') \<and> ms_inv 0 s' st' \<and> ms_owner s' = ms_owner s"
proof (cases op)
  case (Put k v vb)
  then show ?thesis using ms_put_spec [OF assms, of L k v vb] by auto
next
  case (Remove k)
  then show ?thesis using ms_remove_spec [OF assms, of k] by auto
next
  case (Retain pr)
  then show ?thesis using ms_retain_spec [OF assms, of pr] by auto
next
  case (GetMut k f)
  then show ?thesis using ms_get_mut_spec [OF assms, where k = k and f = f] by simp
next
  case Clear
  obtain st' s' where c: "ms_clear s st = (st', s')" by fastforce
  then have "ms_owner s' = ms_owner s" by (auto simp: ms_clear_def)
  then show ?thesis using ms_clear_spec [OF assms c] Clear c by simp
qed

lemma ms_exec_inv:
  "ms_inv 0 s st \<Longrightarrow> \<exists>s' st'. ms_exec L ops (s, st) = Some (s', st') \<and> ms_inv 0 s' st' \<and> ms_owner s' = ms_owner s"
proof (induction ops arbitrary: s st)
  case (Cons op ops)
  from ms_apply_inv [OF Cons.prems, of L op] obtain s1 st1 where
    a: "ms_apply L op (s, st) = Some (s1, st1)" "ms_inv 0 s1 st1" "ms_owner s1 = ms_owner s" by blast
  from Cons.IH [OF a(2)] a show ?case by auto
qed simp

text \<open>
  From any state whose leases the owner's ledger covers, no sequence of puts, removals,
  in-place changes, retains and clears ever panics on its byte accounting; the cached total stays exactly the sum
  of the leases of the live entries, within the owner's retention cap, and the number of keys
  stays within the quota.
\<close>

theorem state_ledger_exact:
  assumes "ms_inv 0 s st"
  shows "\<exists>s' st'. ms_exec L ops (s, st) = Some (s', st') \<and> ms_retained s' = held_bytes s' \<and>
    ms_retained s' \<le> cap (owner_budget (ms_owner s)) Retention \<and> ms_len s' \<le> ms_max_keys s'"
proof -
  obtain s' st' where "ms_exec L ops (s, st) = Some (s', st')" "ms_inv 0 s' st'" "ms_owner s' = ms_owner s"
    using ms_exec_inv [OF assms, of L ops] by blast
  then show ?thesis by (auto simp: ms_inv_def ms_len_def)
qed

theorem state_ledger_exact_witness:
  "\<exists>s' st'. ms_exec \<lparr>size_of_scalar = 24, size_of_dynamic = 24, size_of_pair = 40, size_of_state_key = 80\<rparr>
       [Put (state_key_new (1, 16) 1 1 [SInt64 3]) 7 16, Clear] (demo_state, \<lambda>_. counters_new) = Some (s', st') \<and>
     ms_retained s' = held_bytes s' \<and> ms_retained s' \<le> cap (owner_budget (ms_owner demo_state)) Retention \<and>
     ms_len s' \<le> ms_max_keys s'"
  by (rule state_ledger_exact [OF demo_state_inv])

end
