(* ===== verification/Time_Index.thy ===== *)
theory Time_Index
  imports Keyed_State "HOL-Library.Product_Lexorder"
begin

text \<open>
  The ordered index operators keep beside their keyed state, from a time and an encoded key to the
  key: the expiry index of \<^verbatim>\<open>sparrow-runtime/src/dedup.rs\<close> and the index of closable windows of
  \<^verbatim>\<open>sparrow-runtime/src/window.rs\<close>. Every indexed key holds a retention lease of its own, and the
  operator caches the sum of their bytes. \<open>None\<close> is the panic on a broken byte ledger.
\<close>

section \<open>Operations\<close>

type_synonym time_index = "(int \<times> bytes, state_key) btmap"

definition drop_index :: "state_key \<Rightarrow> store \<Rightarrow> store" where
  "drop_index k st = (case sk_index_lease k of None \<Rightarrow> st | Some l \<Rightarrow> fst (drop_lease l st))"

definition index_insert :: "key_layout \<Rightarrow> memory_owner \<Rightarrow> int \<Rightarrow> state_key \<Rightarrow> time_index \<times> nat \<Rightarrow> store \<Rightarrow>
    (store \<times> (time_index \<times> nat) \<times> unit result) option" where
  "index_insert L ow t sk ix st =
     (case indexed L sk ow st of
        Inl e \<Rightarrow> Some (st, ix, Inl e)
      | Inr (st1, sk1) \<Rightarrow>
          (let k = (t, sk_encoded sk); old = map_of (fst ix) k
           in case replace_accounted_bytes (snd ix) (case old of None \<Rightarrow> 0 | Some o' \<Rightarrow> index_bytes o') (index_bytes sk1) ow st1 of
                (_, None) \<Rightarrow> None
              | (st2, Some tot) \<Rightarrow>
                  Some (case old of None \<Rightarrow> st2 | Some o' \<Rightarrow> drop_index o' st2, (bt_put k sk1 (fst ix), tot), Ok ())))"

definition index_remove :: "memory_owner \<Rightarrow> int \<Rightarrow> state_key \<Rightarrow> time_index \<times> nat \<Rightarrow> store \<Rightarrow>
    (store \<times> (time_index \<times> nat)) option" where
  "index_remove ow t sk ix st =
     (let k = (t, sk_encoded sk)
      in case map_of (fst ix) k of
           None \<Rightarrow> Some (st, ix)
         | Some old \<Rightarrow>
             (case replace_accounted_bytes (snd ix) (index_bytes old) 0 ow st of
                (_, None) \<Rightarrow> None
              | (st1, Some tot) \<Rightarrow> Some (drop_index old st1, (hm_del k (fst ix), tot))))"

section \<open>The index agrees with the state\<close>

text \<open>
  \<open>due\<close> is the time of an entry. Every index entry points at a live entry of that time; the index
  is complete when every entry is indexed.
\<close>

definition index_ok :: "nat \<Rightarrow> memory_owner \<Rightarrow> nat \<Rightarrow> (int \<times> bytes) \<times> state_key \<Rightarrow> bool" where
  "index_ok slot ow op x \<longleftrightarrow> key_id (snd x) = (op, slot, snd (fst x)) \<and>
     (\<exists>l. sk_index_lease (snd x) = Some l \<and> lease_ok l \<and> lease_owner l = ow \<and>
        alloc_kind (lease_alloc l) = Retention \<and> alloc_handles (lease_alloc l) = 1)"

definition index_points :: "('v \<Rightarrow> int) \<Rightarrow> nat \<Rightarrow> nat \<Rightarrow> time_index \<Rightarrow> 'v memory_state \<Rightarrow> bool" where
  "index_points due slot op es s \<longleftrightarrow> (\<forall>t enc. (t, enc) \<in> fst ` set es \<longrightarrow>
     (\<exists>e. map_of (ms_entries s) (op, slot, enc) = Some e \<and> t = due (e_value e)))"

definition index_covers :: "('v \<Rightarrow> int) \<Rightarrow> nat \<Rightarrow> nat \<Rightarrow> time_index \<Rightarrow> 'v memory_state \<Rightarrow> bool" where
  "index_covers due slot op es s \<longleftrightarrow> (\<forall>enc e. map_of (ms_entries s) (op, slot, enc) = Some e \<longrightarrow>
     (due (e_value e), enc) \<in> fst ` set es)"

definition index_matches :: "('v \<Rightarrow> int) \<Rightarrow> nat \<Rightarrow> nat \<Rightarrow> time_index \<Rightarrow> 'v memory_state \<Rightarrow> bool" where
  "index_matches due slot op es s \<longleftrightarrow> (\<forall>t enc. (t, enc) \<in> fst ` set es \<longleftrightarrow>
     (\<exists>e. map_of (ms_entries s) (op, slot, enc) = Some e \<and> t = due (e_value e)))"

lemma index_matches_iff: "index_matches due slot op es s \<longleftrightarrow> index_points due slot op es s \<and> index_covers due slot op es s"
  unfolding index_matches_def index_points_def index_covers_def by blast

definition index_inv :: "('v \<Rightarrow> int) \<Rightarrow> nat \<Rightarrow> nat \<Rightarrow> memory_owner \<Rightarrow> time_index \<times> nat \<Rightarrow> 'v memory_state \<Rightarrow> store \<Rightarrow> bool" where
  "index_inv due slot op ow ix s st \<longleftrightarrow> bt_inv (fst ix) \<and> list_all (index_ok slot ow op) (fst ix) \<and>
     index_points due slot op (fst ix) s \<and> hm_sum index_bytes (fst ix) = snd ix \<and> ms_inv (snd ix) s st \<and>
     ms_owner s = ow \<and> ms_operator s = op \<and> ms_slot s = slot"

section \<open>The bytes of the index\<close>

lemma ms_inv_extra:
  "ms_inv extra s st \<Longrightarrow> ms_retained s + extra' \<le> retention (ms_owner s) st' \<Longrightarrow>
     retention (ms_owner s) st' \<le> cap (owner_budget (ms_owner s)) Retention \<Longrightarrow> ms_inv extra' s st'"
  by (simp add: ms_inv_def)

lemma drop_index_retention:
  assumes "index_ok slot ow op x" "wf_owner ow" "index_bytes (snd x) \<le> retention ow st" "retention ow st \<le> u64_max"
  shows "retention ow (drop_index (snd x) st) = retention ow st - index_bytes (snd x)"
proof -
  from assms(1) obtain l where l: "sk_index_lease (snd x) = Some l" "lease_ok l" "lease_owner l = ow"
      "alloc_kind (lease_alloc l) = Retention" "alloc_handles (lease_alloc l) = 1"
    by (auto simp: index_ok_def)
  then show ?thesis
    using drop_ledger [of l st] assms by (simp add: drop_index_def index_bytes_def retention_def)
qed

lemma clone_key_id [simp]: "key_id (clone_key k) = key_id k"
  by (simp add: key_id_def clone_key_def)

lemma indexed_spec:
  assumes "wf_owner ow" "indexed L sk ow st = Ok (st1, sk1)"
  shows "index_ok (sk_slot sk) ow (sk_operator sk) ((t, sk_encoded sk), sk1)"
    "key_id sk1 = key_id sk" "sk_key sk1 = sk_key sk" "retention ow st1 = retention ow st + index_bytes sk1"
    "retention ow st1 \<le> cap (owner_budget ow) Retention"
proof -
  obtain n l where a: "acquire Retention n ow st = Ok (st1, l)" and sk1: "sk1 = (clone_key sk)\<lparr>sk_index_lease := Some l\<rparr>"
    using assms(2) by (auto simp: indexed_def Let_def rbind_Inr_iff)
  note sp = acquire_spec [OF assms(1) a] and led = acquire_ledger [OF assms(1) a]
  show kid: "key_id sk1 = key_id sk" "sk_key sk1 = sk_key sk" by (simp_all add: sk1 key_id_def clone_key_def)
  show "index_ok (sk_slot sk) ow (sk_operator sk) ((t, sk_encoded sk), sk1)"
    using sp by (auto simp: index_ok_def kid) (simp_all add: sk1 key_id_def)
  show "retention ow st1 = retention ow st + index_bytes sk1" "retention ow st1 \<le> cap (owner_budget ow) Retention"
    using sp led by (auto simp: retention_def sk1 index_bytes_def)
qed

lemma index_invD:
  assumes "index_inv due slot op ow ix s st"
  shows "wf_owner ow" "ms_retained s + snd ix \<le> retention ow st" "retention ow st \<le> cap (owner_budget ow) Retention"
    "retention ow st < u64_max"
  using assms ms_inv_small [of "snd ix" s st] by (auto simp: index_inv_def ms_inv_def)

lemma index_ok_mem: "list_all (index_ok slot ow op) es \<Longrightarrow> map_of es k = Some sk \<Longrightarrow> index_ok slot ow op (k, sk)"
  by (auto simp: list_all_iff dest!: map_of_SomeD)

text \<open>Take an entry out of the index; the state may have lost it before.\<close>

lemma index_remove_bytes:
  assumes bt: "bt_inv (fst ix)" and ok: "list_all (index_ok slot ow op) (fst ix)" and sum: "hm_sum index_bytes (fst ix) = snd ix"
    and ms: "ms_inv (snd ix) s st" "ms_owner s = ow"
  shows "\<exists>st' ix'. index_remove ow t sk ix st = Some (st', ix') \<and> fst ix' = hm_del (t, sk_encoded sk) (fst ix) \<and>
    list_all (index_ok slot ow op) (fst ix') \<and> hm_sum index_bytes (fst ix') = snd ix' \<and> ms_inv (snd ix') s st'"
proof (cases "map_of (fst ix) (t, sk_encoded sk)")
  case None
  then have "hm_del (t, sk_encoded sk) (fst ix) = fst ix" by (force simp: hm_del_def map_of_eq_None_iff filter_id_conv)
  with None ok sum ms show ?thesis by (simp add: index_remove_def)
next
  case (Some old)
  let ?k = "(t, sk_encoded sk)"
  have le: "index_bytes old \<le> snd ix" using hm_sum_mem [OF Some, of index_bytes] sum by simp
  have cover: "ms_retained s + snd ix \<le> retention ow st" "retention ow st \<le> cap (owner_budget ow) Retention"
    "retention ow st < u64_max" "wf_owner ow" using ms ms_inv_small [OF ms(1)] by (auto simp: ms_inv_def)
  have rep: "replace_accounted_bytes (snd ix) (index_bytes old) 0 ow st = (st, Some (snd ix - index_bytes old))"
    using replace_ok [of "index_bytes old" "snd ix" 0 ow st] le cover by simp
  have ret: "retention ow (drop_index old st) = retention ow st - index_bytes old"
    using drop_index_retention [OF index_ok_mem [OF ok Some] cover(4), of st] le cover by simp
  have "hm_sum index_bytes (hm_del ?k (fst ix)) = snd ix - index_bytes old"
    using hm_sum_del [of "fst ix" index_bytes ?k] bt_inv_hm_inv [OF bt] Some sum by simp
  moreover have "ms_inv (snd ix - index_bytes old) s (drop_index old st)"
    using ms(2) cover ret le by (intro ms_inv_extra [OF ms(1)]) simp_all
  moreover have "list_all (index_ok slot ow op) (hm_del ?k (fst ix))"
    using ok set_hm_del [of ?k "fst ix"] by (auto simp: list_all_iff)
  ultimately show ?thesis using Some rep by (simp add: index_remove_def)
qed

lemma index_points_remove:
  assumes im: "index_points due slot op es s" and e: "map_of (ms_entries s) (op, slot, enc) = Some e"
    and s2: "map_of (ms_entries s2) = (map_of (ms_entries s))((op, slot, enc) := None)"
  shows "index_points due slot op (hm_del (due (e_value e), enc) es) s2"
  unfolding index_points_def
proof (intro allI impI)
  fix t enc' assume a: "(t, enc') \<in> fst ` set (hm_del (due (e_value e), enc) es)"
  then have mem: "(t, enc') \<in> fst ` set es" and ne: "(t, enc') \<noteq> (due (e_value e), enc)" by (auto simp: hm_del_def)
  from mem im obtain x where x: "map_of (ms_entries s) (op, slot, enc') = Some x" "t = due (e_value x)"
    unfolding index_points_def by blast
  with ne e have "enc' \<noteq> enc" by auto
  with x show "\<exists>e. map_of (ms_entries s2) (op, slot, enc') = Some e \<and> t = due (e_value e)" by (simp add: s2)
qed

lemma index_covers_remove:
  assumes "index_covers due slot op es s" "map_of (ms_entries s2) = (map_of (ms_entries s))((op, slot, enc) := None)"
  shows "index_covers due slot op (hm_del (t, enc) es) s2"
  using assms unfolding index_covers_def by (force simp: hm_del_def split: if_splits)

lemma index_points_absent:
  assumes "index_points due slot op es s" "map_of (ms_entries s) (op, slot, enc) = None"
  shows "(t, enc) \<notin> fst ` set es"
  using assms unfolding index_points_def by fastforce

text \<open>Removing an entry from the state and then from the index.\<close>

lemma index_take:
  assumes inv: "index_inv due slot op ow ix s st" and sk: "key_id sk = (op, slot, sk_encoded sk)" and v: "ms_get sk s = Some v"
  shows "\<exists>st1 s1 st2 ix2. ms_remove sk s st = Some (st1, s1, Some v) \<and>
    index_remove ow (due v) sk ix st1 = Some (st2, ix2) \<and> index_inv due slot op ow ix2 s1 st2 \<and>
    fst ix2 = hm_del (due v, sk_encoded sk) (fst ix) \<and>
    map_of (ms_entries s1) = (map_of (ms_entries s))((op, slot, sk_encoded sk) := None) \<and> ms_max_keys s1 = ms_max_keys s"
proof -
  have i: "bt_inv (fst ix)" "list_all (index_ok slot ow op) (fst ix)" "index_points due slot op (fst ix) s"
    "hm_sum index_bytes (fst ix) = snd ix" "ms_inv (snd ix) s st" "ms_owner s = ow" "ms_operator s = op" "ms_slot s = slot"
    using inv by (simp_all add: index_inv_def)
  from ms_remove_spec [OF i(5), of sk] obtain st1 s1 where rm: "ms_remove sk s st = Some (st1, s1, ms_get sk s)"
    and s1: "ms_inv (snd ix) s1 st1" "map_of (ms_entries s1) = (map_of (ms_entries s))(key_id sk := None)"
      "ms_owner s1 = ow" "ms_operator s1 = op" "ms_slot s1 = slot" "ms_max_keys s1 = ms_max_keys s"
    using i by auto
  from index_remove_bytes [OF i(1,2,4) s1(1,3), of "due v" sk] obtain st2 ix2 where
    ir: "index_remove ow (due v) sk ix st1 = Some (st2, ix2)" and
    ix2: "fst ix2 = hm_del (due v, sk_encoded sk) (fst ix)" "list_all (index_ok slot ow op) (fst ix2)"
      "hm_sum index_bytes (fst ix2) = snd ix2" "ms_inv (snd ix2) s1 st2" by blast
  obtain e where e: "map_of (ms_entries s) (op, slot, sk_encoded sk) = Some e" "e_value e = v"
    using v sk by (auto simp: ms_get_def)
  have m1: "map_of (ms_entries s1) = (map_of (ms_entries s))((op, slot, sk_encoded sk) := None)" using s1(2) sk by simp
  have "index_points due slot op (fst ix2) s1"
    using index_points_remove [OF i(3) e(1) m1] e(2) by (simp add: ix2(1))
  moreover have "bt_inv (fst ix2)" using bt_inv_del [OF i(1)] by (simp add: ix2(1))
  ultimately have "index_inv due slot op ow ix2 s1 st2" using ix2 s1 by (simp add: index_inv_def)
  with rm ir ix2(1) m1 v s1(6) show ?thesis by (intro exI [of _ st1] exI [of _ s1] exI [of _ st2] exI [of _ ix2]) simp
qed

text \<open>Adding an entry to the state and then to the index.\<close>

lemma index_points_put:
  assumes im: "index_points due slot op es s" and fresh: "map_of (ms_entries s) (op, slot, enc) = None"
    and s1: "map_of (ms_entries s1) = (map_of (ms_entries s))((op, slot, enc) \<mapsto> e)"
  shows "index_points due slot op es s1" "index_points due slot op (bt_put (due (e_value e), enc) sk es) s1"
proof -
  show p: "index_points due slot op es s1"
    using im fresh unfolding index_points_def s1 by (metis fun_upd_apply option.distinct(1))
  then show "index_points due slot op (bt_put (due (e_value e), enc) sk es) s1"
    unfolding index_points_def keys_bt_put by (auto simp: s1)
qed

lemma index_covers_put:
  assumes "index_covers due slot op es s" "map_of (ms_entries s1) = (map_of (ms_entries s))((op, slot, enc) \<mapsto> e)"
  shows "index_covers due slot op (bt_put (due (e_value e), enc) sk es) s1"
  using assms unfolding index_covers_def keys_bt_put by simp

lemma index_insert_bytes:
  assumes ok: "list_all (index_ok slot ow op) (fst ix)" and sum: "hm_sum index_bytes (fst ix) = snd ix"
    and ms: "ms_inv (snd ix) s st" "ms_owner s = ow" and sk: "sk_operator sk = op" "sk_slot sk = slot"
    and new: "(t, sk_encoded sk) \<notin> fst ` set (fst ix)"
  shows "(\<exists>e. index_insert L ow t sk ix st = Some (st, ix, Inl e)) \<or>
    (\<exists>st' ix' sk1. index_insert L ow t sk ix st = Some (st', ix', Ok ()) \<and> fst ix' = bt_put (t, sk_encoded sk) sk1 (fst ix) \<and>
       key_id sk1 = key_id sk \<and> sk_key sk1 = sk_key sk \<and> list_all (index_ok slot ow op) (fst ix') \<and> hm_sum index_bytes (fst ix') = snd ix' \<and> ms_inv (snd ix') s st')"
proof (cases "indexed L sk ow st")
  case (Inl e)
  then show ?thesis by (simp add: index_insert_def)
next
  case (Inr x)
  obtain st2 sk1 where x: "x = (st2, sk1)" by fastforce
  have wf: "wf_owner ow" and cover: "ms_retained s + snd ix \<le> retention ow st" using ms by (auto simp: ms_inv_def)
  note isp = indexed_spec [OF wf Inr [unfolded x]]
  let ?k = "(t, sk_encoded sk)"
  have old: "map_of (fst ix) ?k = None" using new by (simp add: map_of_eq_None_iff)
  have small: "retention ow st2 < u64_max"
    using isp(5) wf_owner_budget [OF wf] cap_sum [of "owner_budget ow" Retention] by (simp add: budget_ok_def)
  have rep: "replace_accounted_bytes (snd ix) 0 (index_bytes sk1) ow st2 = (st2, Some (snd ix + index_bytes sk1))"
    using replace_ok [of 0 "snd ix" "index_bytes sk1" ow st2] isp(4) cover small by simp
  have "ms_inv (snd ix + index_bytes sk1) s st2"
    using cover isp(4,5) ms(2) by (intro ms_inv_extra [OF ms(1)]) simp_all
  moreover have "list_all (index_ok slot ow op) (bt_put ?k sk1 (fst ix))"
    using ok isp(1) [of t] sk by (auto simp: list_all_iff dest!: set_bt_put)
  moreover have "hm_sum index_bytes (bt_put ?k sk1 (fst ix)) = snd ix + index_bytes sk1"
    using bt_sum_fresh [OF new] sum by simp
  ultimately show ?thesis using Inr x old rep isp(2,3) by (auto simp: index_insert_def)
qed

lemma index_add:
  assumes inv: "index_inv due slot op ow ix s st" and sk: "sk_operator sk = op" "sk_slot sk = slot"
    and fresh: "map_of (ms_entries s) (op, slot, sk_encoded sk) = None"
    and s1: "ms_inv (snd ix) s1 st1" "map_of (ms_entries s1) = (map_of (ms_entries s))((op, slot, sk_encoded sk) \<mapsto> e)"
      "ms_owner s1 = ow" "ms_operator s1 = op" "ms_slot s1 = slot"
  shows "(\<exists>x. index_insert L ow (due (e_value e)) sk ix st1 = Some (st1, ix, Inl x) \<and> index_inv due slot op ow ix s1 st1) \<or>
    (\<exists>st2 ix2 sk1. index_insert L ow (due (e_value e)) sk ix st1 = Some (st2, ix2, Ok ()) \<and>
       index_inv due slot op ow ix2 s1 st2 \<and> fst ix2 = bt_put (due (e_value e), sk_encoded sk) sk1 (fst ix) \<and>
       key_id sk1 = key_id sk \<and> sk_key sk1 = sk_key sk)"
proof -
  have i: "bt_inv (fst ix)" "list_all (index_ok slot ow op) (fst ix)" "index_points due slot op (fst ix) s"
    "hm_sum index_bytes (fst ix) = snd ix" using inv by (simp_all add: index_inv_def)
  have new: "(due (e_value e), sk_encoded sk) \<notin> fst ` set (fst ix)" by (rule index_points_absent [OF i(3) fresh])
  note pts = index_points_put [OF i(3) fresh s1(2)]
  from index_insert_bytes [OF i(2,4) s1(1,3) sk new, of L] show ?thesis
  proof (elim disjE exE conjE)
    fix x assume "index_insert L ow (due (e_value e)) sk ix st1 = Some (st1, ix, Inl x)"
    moreover have "index_inv due slot op ow ix s1 st1" using i pts(1) s1 by (simp add: index_inv_def)
    ultimately show ?thesis by blast
  next
    fix st' ix' sk1
    assume r: "index_insert L ow (due (e_value e)) sk ix st1 = Some (st', ix', Ok ())"
      "fst ix' = bt_put (due (e_value e), sk_encoded sk) sk1 (fst ix)" "key_id sk1 = key_id sk" "sk_key sk1 = sk_key sk" "list_all (index_ok slot ow op) (fst ix')"
      "hm_sum index_bytes (fst ix') = snd ix'" "ms_inv (snd ix') s1 st'"
    then have "index_inv due slot op ow ix' s1 st'" using bt_inv_put [OF i(1)] pts(2) s1 by (simp add: index_inv_def)
    with r show ?thesis by blast
  qed
qed

text \<open>The only errors: the key quota, or the retention credit of the owner.\<close>

definition refusal :: "memory_owner \<Rightarrow> sparrow_error \<Rightarrow> bool" where
  "refusal ow e \<longleftrightarrow> e = with_retryable False (new_error ResourceExhausted) \<or> (\<exists>n st. acquire Retention n ow st = Inl e)"

lemma ms_put_refusal:
  assumes "ms_put L k v vb s st = Some (st', s', Inl e)" "sk_operator k = ms_operator s" "sk_slot k = ms_slot s"
  shows "refusal (ms_owner s) e"
  using assms unfolding ms_put_def Let_def refusal_def by (auto split: if_splits sum.splits option.splits prod.splits)

lemma index_insert_refusal:
  assumes "index_insert L ow t sk ix st = Some (st', ix', Inl e)"
  shows "refusal ow e"
proof (cases "indexed L sk ow st")
  case (Inl x)
  moreover from this assms have "e = x" by (simp add: index_insert_def)
  ultimately show ?thesis
    by (cases "acquire Retention (sat_u64 (sat_u64 (key_tracked_bytes L sk + length (sk_encoded sk)) + 128)) ow st")
      (auto simp: indexed_def Let_def refusal_def)
next
  case (Inr x)
  with assms show ?thesis by (auto simp: index_insert_def Let_def split: prod.splits option.splits)
qed

text \<open>The first entries of the index are the earliest.\<close>

lemma index_later:
  assumes "bt_inv (((t, enc), sk) # es)" "(t', enc') \<in> fst ` set (((t, enc), sk) # es)"
  shows "t \<le> t'"
  using assms by (auto simp: bt_inv_def less_prod_def)

end
