(* ===== verification/Dedup.thy ===== *)
theory Dedup
  imports Time_Index
begin

text \<open>
  The processing-time deduplication operator of \<^verbatim>\<open>sparrow-runtime/src/dedup.rs\<close> over the keyed
  state: a key seen within its TTL is dropped, and an ordered expiry index removes keys whose
  time has come without scanning the map. \<open>None\<close> is a panic, as in the keyed state; the
  capacities of a freshly built key are the parameter \<open>caps\<close>.
\<close>

section \<open>Configuration\<close>

record dedup_spec =
  dd_keys :: "string list"
  dd_ttl :: int
  dd_max_keys :: nat

definition dedup_validate :: "dedup_spec \<Rightarrow> unit result" where
  "dedup_validate sp =
     (if dd_keys sp = [] then Err InvalidArgument
      else if dd_ttl sp \<le> 0 then Err InvalidArgument
      else if dd_max_keys sp = 0 then Err BoundExceeded
      else Ok ())"

definition reject_unbounded_dedup :: "int option \<Rightarrow> nat option \<Rightarrow> dedup_spec result" where
  "reject_unbounded_dedup ttl mx =
     rbind (ok_or InvalidArgument ttl) (\<lambda>t.
     rbind (ok_or BoundExceeded mx) (\<lambda>m.
       let sp = \<lparr>dd_keys = [''id''], dd_ttl = t, dd_max_keys = m\<rparr>
       in rbind (dedup_validate sp) (\<lambda>_. Ok sp)))"

definition resolve_keys :: "schema \<Rightarrow> string list \<Rightarrow> nat list result" where
  "resolve_keys sc ks = map_result (\<lambda>k. ok_or InvalidArgument (index_of_name sc k)) ks"

section \<open>The operator\<close>

record dedup =
  d_operator :: nat
  d_spec :: dedup_spec
  d_key_idx :: "nat list"
  d_state :: "int memory_state"
  d_owner :: memory_owner
  d_expiry :: time_index
  d_probes :: nat
  d_expiry_bytes :: nat

abbreviation dedup_slot :: nat where "dedup_slot \<equiv> 2"

definition dedup_new :: "nat \<Rightarrow> dedup_spec \<Rightarrow> schema \<Rightarrow> memory_owner \<Rightarrow> dedup result" where
  "dedup_new op sp input ow =
     rbind (dedup_validate sp) (\<lambda>_.
     rbind (resolve_keys input (dd_keys sp)) (\<lambda>idx.
     rbind (ms_new ow op dedup_slot (dd_max_keys sp)) (\<lambda>s.
       Ok \<lparr>d_operator = op, d_spec = sp, d_key_idx = idx, d_state = s, d_owner = ow, d_expiry = [],
           d_probes = 0, d_expiry_bytes = 0\<rparr>)))"

definition expire_at :: "dedup_spec \<Rightarrow> int \<Rightarrow> int" where
  "expire_at sp last_seen = sat_i64 (last_seen + dd_ttl sp)"

definition index_expiry :: "key_layout \<Rightarrow> int \<Rightarrow> state_key \<Rightarrow> dedup \<Rightarrow> store \<Rightarrow>
    (store \<times> dedup \<times> unit result) option" where
  "index_expiry L last_seen sk d st =
     map_option (\<lambda>(st', ix, r). (st', d\<lparr>d_expiry := fst ix, d_expiry_bytes := snd ix\<rparr>, r))
       (index_insert L (d_owner d) (expire_at (d_spec d) last_seen) sk (d_expiry d, d_expiry_bytes d) st)"

definition unindex_expiry :: "int \<Rightarrow> state_key \<Rightarrow> dedup \<Rightarrow> store \<Rightarrow> (store \<times> dedup) option" where
  "unindex_expiry last_seen sk d st =
     map_option (\<lambda>(st', ix). (st', d\<lparr>d_expiry := fst ix, d_expiry_bytes := snd ix\<rparr>))
       (index_remove (d_owner d) (expire_at (d_spec d) last_seen) sk (d_expiry d, d_expiry_bytes d) st)"

fun expire_loop :: "int \<Rightarrow> memory_owner \<Rightarrow> ((int \<times> bytes) \<times> state_key) list \<Rightarrow> int memory_state \<Rightarrow> nat \<Rightarrow> nat \<Rightarrow> store \<Rightarrow>
    (store \<times> int memory_state \<times> nat \<times> nat \<times> ((int \<times> bytes) \<times> state_key) list) option" where
  "expire_loop now ow [] s ebytes probes st = Some (st, s, ebytes, probes, [])"
| "expire_loop now ow (((t, enc), sk) # es) s ebytes probes st =
     (let probes1 = sat_u64 (probes + 1)
      in if t > now then Some (st, s, ebytes, probes1, ((t, enc), sk) # es)
         else case replace_accounted_bytes ebytes (index_bytes sk) 0 ow st of
             (_, None) \<Rightarrow> None
           | (st1, Some tot) \<Rightarrow>
               (case ms_remove sk s st1 of
                  None \<Rightarrow> None
                | Some (st2, s2, _) \<Rightarrow> expire_loop now ow es s2 tot probes1 (drop_index sk st2)))"

definition expire :: "int \<Rightarrow> dedup \<Rightarrow> store \<Rightarrow> (store \<times> dedup) option" where
  "expire now d st =
     map_option (\<lambda>(st', s, ebytes, probes, es).
         (st', d\<lparr>d_state := s, d_expiry := es, d_expiry_bytes := ebytes, d_probes := probes\<rparr>))
       (expire_loop now (d_owner d) (d_expiry d) (d_state d) (d_expiry_bytes d) 0 st)"

text \<open>The tail of \<open>admit\<close>: record the key as seen now and index its expiry.\<close>

definition record_seen :: "key_layout \<Rightarrow> state_key \<Rightarrow> int \<Rightarrow> dedup \<Rightarrow> store \<Rightarrow> (store \<times> dedup \<times> bool result) option" where
  "record_seen L sk now d st =
     (case ms_put L (clone_key sk) now 16 (d_state d) st of
        None \<Rightarrow> None
      | Some (st1, s1, Inl e) \<Rightarrow> Some (st1, d\<lparr>d_state := s1\<rparr>, Inl e)
      | Some (st1, s1, Inr _) \<Rightarrow>
          (case index_expiry L now sk (d\<lparr>d_state := s1\<rparr>) st1 of
             None \<Rightarrow> None
           | Some (st2, d2, Inl e) \<Rightarrow> Some (st2, d2, Inl e)
           | Some (st2, d2, Inr _) \<Rightarrow> Some (st2, d2, Ok True)))"

definition admit :: "key_layout \<Rightarrow> (scalar list \<Rightarrow> nat \<times> nat) \<Rightarrow> row \<Rightarrow> int \<Rightarrow> dedup \<Rightarrow> store \<Rightarrow>
    (store \<times> dedup \<times> bool result) option" where
  "admit L caps r now d st =
     (if list_ex (\<lambda>i. length r \<le> i) (d_key_idx d) then None
      else
        let key = map (\<lambda>i. r ! i) (d_key_idx d);
            sk = state_key_new (caps key) (d_operator d) dedup_slot key
        in case ms_get sk (d_state d) of
             None \<Rightarrow> record_seen L sk now d st
           | Some last_seen \<Rightarrow>
               if sat_i64 (now - last_seen) < dd_ttl (d_spec d) then Some (st, d, Ok False)
               else case unindex_expiry last_seen sk d st of
                   None \<Rightarrow> None
                 | Some (st1, d1) \<Rightarrow>
                     (case ms_remove sk (d_state d1) st1 of
                        None \<Rightarrow> None
                      | Some (st2, s2, _) \<Rightarrow> record_seen L sk now (d1\<lparr>d_state := s2\<rparr>) st2))"

fun admit_rows :: "key_layout \<Rightarrow> (scalar list \<Rightarrow> nat \<times> nat) \<Rightarrow> int \<Rightarrow> row list \<Rightarrow> dedup \<Rightarrow> store \<Rightarrow>
    (store \<times> dedup \<times> row list result) option" where
  "admit_rows L caps now [] d st = Some (st, d, Ok [])"
| "admit_rows L caps now (r # rs) d st =
     (case admit L caps r now d st of
        None \<Rightarrow> None
      | Some (st1, d1, Inl e) \<Rightarrow> Some (st1, d1, Inl e)
      | Some (st1, d1, Inr keep) \<Rightarrow>
          map_option (\<lambda>(st2, d2, res). (st2, d2, rbind res (\<lambda>ks. Ok (if keep then r # ks else ks))))
            (admit_rows L caps now rs d1 st1))"

definition dedup_on_batch :: "key_layout \<Rightarrow> (scalar list \<Rightarrow> nat \<times> nat) \<Rightarrow> row list \<Rightarrow> int \<Rightarrow> dedup \<Rightarrow> store \<Rightarrow>
    (store \<times> dedup \<times> row list result) option" where
  "dedup_on_batch L caps rows now d st =
     (case expire now d st of None \<Rightarrow> None | Some (st1, d1) \<Rightarrow> admit_rows L caps now rows d1 st1)"

definition dedup_cleanup :: "dedup \<Rightarrow> store \<Rightarrow> store \<times> dedup" where
  "dedup_cleanup d st =
     (case ms_clear (d_state d) st of (st1, s1) \<Rightarrow>
        (fold (\<lambda>(_, k) st. drop_index k st) (d_expiry d) st1,
         d\<lparr>d_state := s1, d_expiry := [], d_expiry_bytes := 0, d_probes := 0\<rparr>))"

section \<open>The index agrees with the state\<close>

definition expiry_inv :: "dedup_spec \<Rightarrow> nat \<Rightarrow> memory_owner \<Rightarrow> ((int \<times> bytes) \<times> state_key) list \<Rightarrow> int memory_state \<Rightarrow> nat \<Rightarrow> store \<Rightarrow> bool" where
  "expiry_inv sp op ow es s ebytes st \<longleftrightarrow> bt_inv es \<and> list_all (index_ok dedup_slot ow op) es \<and> index_matches (expire_at sp) dedup_slot op es s \<and>
     hm_sum index_bytes es = ebytes \<and> ms_inv ebytes s st \<and> ms_owner s = ow \<and> ms_operator s = op \<and> ms_slot s = dedup_slot"

definition dedup_inv :: "dedup \<Rightarrow> store \<Rightarrow> bool" where
  "dedup_inv d st \<longleftrightarrow> 0 < dd_ttl (d_spec d) \<and> is_i64 (dd_ttl (d_spec d)) \<and>
     expiry_inv (d_spec d) (d_operator d) (d_owner d) (d_expiry d) (d_state d) (d_expiry_bytes d) st"

definition seen_at :: "dedup \<Rightarrow> bytes \<Rightarrow> int option" where
  "seen_at d enc = map_option e_value (map_of (ms_entries (d_state d)) (d_operator d, dedup_slot, enc))"

section \<open>Expiring\<close>

lemma index_matches_remove:
  assumes bt: "bt_inv (((t, enc), sk) # es)" and im: "index_matches (expire_at sp) dedup_slot op (((t, enc), sk) # es) s"
    and s2: "map_of (ms_entries s2) = (map_of (ms_entries s))((op, dedup_slot, enc) := None)"
  shows "index_matches (expire_at sp) dedup_slot op es s2"
  unfolding index_matches_def
proof (intro allI)
  fix t' enc'
  have ne: "(t, enc) \<notin> fst ` set es" using bt_inv_hm_inv [OF bt] by (simp add: hm_inv_def)
  note m = im [unfolded index_matches_def, rule_format]
  show "(t', enc') \<in> fst ` set es \<longleftrightarrow>
      (\<exists>e. map_of (ms_entries s2) (op, dedup_slot, enc') = Some e \<and> t' = expire_at sp (e_value e))"
  proof (cases "enc' = enc")
    case True
    have "(t', enc) \<notin> fst ` set es"
    proof
      assume a: "(t', enc) \<in> fst ` set es"
      then have "t' = t" using m [of t' enc] m [of t enc] by auto
      with a ne show False by simp
    qed
    with True show ?thesis by (simp add: s2)
  next
    case False
    then show ?thesis using m [of t' enc'] by (auto simp: s2)
  qed
qed

lemma expire_step:
  assumes inv: "expiry_inv sp op ow (((t, enc), sk) # es) s ebytes st"
  shows "\<exists>st2 s2 r. replace_accounted_bytes ebytes (index_bytes sk) 0 ow st = (st, Some (ebytes - index_bytes sk)) \<and>
    ms_remove sk s st = Some (st2, s2, r) \<and>
    expiry_inv sp op ow es s2 (ebytes - index_bytes sk) (drop_index sk st2) \<and>
    map_of (ms_entries s2) = (map_of (ms_entries s))((op, dedup_slot, enc) := None)"
proof -
  from inv have bt: "bt_inv (((t, enc), sk) # es)" and ok: "index_ok dedup_slot ow op ((t, enc), sk)" "list_all (index_ok dedup_slot ow op) es"
    and im: "index_matches (expire_at sp) dedup_slot op (((t, enc), sk) # es) s" and sum: "index_bytes sk + hm_sum index_bytes es = ebytes"
    and ms: "ms_inv ebytes s st" and ow: "ms_owner s = ow" "ms_operator s = op" "ms_slot s = dedup_slot"
    by (simp_all add: expiry_inv_def hm_sum_def)
  have kid: "key_id sk = (op, dedup_slot, enc)" using ok(1) by (simp add: index_ok_def)
  have small: "retention ow st < u64_max" and cover: "ms_retained s + ebytes \<le> retention ow st" and wf: "wf_owner ow"
    and capb: "retention ow st \<le> cap (owner_budget ow) Retention"
    using ms_inv_small [OF ms] ms ow by (simp_all add: ms_inv_def)
  have rep: "replace_accounted_bytes ebytes (index_bytes sk) 0 ow st = (st, Some (ebytes - index_bytes sk))"
    using replace_ok [of "index_bytes sk" ebytes 0 ow st] sum cover small by simp
  from ms_remove_spec [OF ms, of sk] obtain st2 s2 r where rm: "ms_remove sk s st = Some (st2, s2, r)"
    and s2: "ms_inv ebytes s2 st2" "map_of (ms_entries s2) = (map_of (ms_entries s))(key_id sk := None)"
      "ms_owner s2 = ow" "ms_operator s2 = op" "ms_slot s2 = dedup_slot"
    using ow by auto
  have cover2: "ms_retained s2 + ebytes \<le> retention ow st2" "retention ow st2 \<le> cap (owner_budget ow) Retention"
    "retention ow st2 < u64_max"
    using s2(1,3) ms_inv_small [OF s2(1)] by (simp_all add: ms_inv_def)
  have "retention ow (drop_index sk st2) = retention ow st2 - index_bytes sk"
    using drop_index_retention [OF ok(1) wf, of st2] cover2 sum by simp
  then have ms2: "ms_inv (ebytes - index_bytes sk) s2 (drop_index sk st2)"
    using s2(1,3) cover2 sum by (intro ms_inv_extra [OF s2(1)]) simp_all
  have "index_matches (expire_at sp) dedup_slot op es s2" by (rule index_matches_remove [OF bt im]) (simp add: s2(2) kid)
  moreover have "bt_inv es" using bt by (simp add: bt_inv_def)
  ultimately have "expiry_inv sp op ow es s2 (ebytes - index_bytes sk) (drop_index sk st2)"
    using ok(2) ms2 s2 sum by (auto simp: expiry_inv_def)
  with rep rm s2(2) kid show ?thesis by simp
qed

definition unexpired :: "dedup_spec \<Rightarrow> int \<Rightarrow> nat \<Rightarrow> int memory_state \<Rightarrow> bytes \<Rightarrow> int entry option" where
  "unexpired sp now op s enc =
     (case map_of (ms_entries s) (op, dedup_slot, enc) of
        None \<Rightarrow> None
      | Some e \<Rightarrow> if expire_at sp (e_value e) \<le> now then None else Some e)"

lemma expire_loop_spec:
  assumes "expiry_inv sp op ow es s ebytes st"
  shows "\<exists>st' s' ebytes' probes' es'. expire_loop now ow es s ebytes probes st = Some (st', s', ebytes', probes', es') \<and>
    expiry_inv sp op ow es' s' ebytes' st' \<and> (\<forall>enc. map_of (ms_entries s') (op, dedup_slot, enc) = unexpired sp now op s enc)"
  using assms
proof (induction es arbitrary: s ebytes probes st)
  case Nil
  then have "map_of (ms_entries s) (op, dedup_slot, enc) = None" for enc
    by (cases "map_of (ms_entries s) (op, dedup_slot, enc)") (auto simp: expiry_inv_def index_matches_def)
  with Nil show ?case by (simp add: unexpired_def)
next
  case (Cons x es)
  obtain t enc sk where x: "x = ((t, enc), sk)" by (metis prod.exhaust)
  show ?case
  proof (cases "t > now")
    case True
    have srt: "sorted_wrt (<) (map fst (x # es))" and im: "index_matches (expire_at sp) dedup_slot op (x # es) s"
      using Cons.prems by (simp_all add: expiry_inv_def bt_inv_def)
    have later: "now < t'" if "(t', enc') \<in> fst ` set (x # es)" for t' enc'
    proof -
      have "(t', enc') = (t, enc) \<or> (t, enc) < (t', enc')" using that srt by (auto simp: x)
      then show ?thesis using True by (auto simp: less_prod_def)
    qed
    have "unexpired sp now op s enc' = map_of (ms_entries s) (op, dedup_slot, enc')" for enc'
      using im later unfolding index_matches_def unexpired_def by (fastforce split: option.splits)
    with True Cons.prems x show ?thesis by simp
  next
    case False
    from expire_step [OF Cons.prems [unfolded x]] obtain st2 s2 r where
      step: "replace_accounted_bytes ebytes (index_bytes sk) 0 ow st = (st, Some (ebytes - index_bytes sk))"
        "ms_remove sk s st = Some (st2, s2, r)" and
      inv2: "expiry_inv sp op ow es s2 (ebytes - index_bytes sk) (drop_index sk st2)" and
      e2: "map_of (ms_entries s2) = (map_of (ms_entries s))((op, dedup_slot, enc) := None)" by blast
    have "index_matches (expire_at sp) dedup_slot op (x # es) s" using Cons.prems by (simp add: expiry_inv_def)
    then have "\<exists>e. map_of (ms_entries s) (op, dedup_slot, enc) = Some e \<and> t = expire_at sp (e_value e)"
      unfolding index_matches_def x by auto
    then have "unexpired sp now op s2 enc' = unexpired sp now op s enc'" for enc'
      using False by (auto simp: unexpired_def e2)
    with Cons.IH [OF inv2, of "sat_u64 (probes + 1)"] False step x show ?thesis by simp
  qed
qed

lemma expire_spec:
  assumes "dedup_inv d st"
  shows "\<exists>st' d'. expire now d st = Some (st', d') \<and> dedup_inv d' st' \<and> d_spec d' = d_spec d \<and>
    d_operator d' = d_operator d \<and> d_key_idx d' = d_key_idx d \<and> d_owner d' = d_owner d \<and>
    seen_at d' = (\<lambda>enc. case seen_at d enc of None \<Rightarrow> None
       | Some ls \<Rightarrow> if expire_at (d_spec d) ls \<le> now then None else Some ls)"
proof -
  have inv: "expiry_inv (d_spec d) (d_operator d) (d_owner d) (d_expiry d) (d_state d) (d_expiry_bytes d) st"
    using assms by (simp add: dedup_inv_def)
  from expire_loop_spec [OF inv, of now 0] obtain st' s' eb pr es where
    run: "expire_loop now (d_owner d) (d_expiry d) (d_state d) (d_expiry_bytes d) 0 st = Some (st', s', eb, pr, es)" and
    inv': "expiry_inv (d_spec d) (d_operator d) (d_owner d) es s' eb st'" and
    m: "\<forall>enc. map_of (ms_entries s') (d_operator d, dedup_slot, enc) = unexpired (d_spec d) now (d_operator d) (d_state d) enc"
    by blast
  have "seen_at (d\<lparr>d_state := s', d_expiry := es, d_expiry_bytes := eb, d_probes := pr\<rparr>)
      = (\<lambda>enc. case seen_at d enc of None \<Rightarrow> None | Some ls \<Rightarrow> if expire_at (d_spec d) ls \<le> now then None else Some ls)"
    by (auto simp: seen_at_def m unexpired_def fun_eq_iff split: option.splits)
  with run inv' assms show ?thesis by (simp add: expire_def dedup_inv_def)
qed

section \<open>Admitting\<close>

lemma expiry_inv_iff: "expiry_inv sp op ow es s b st \<longleftrightarrow>
   index_inv (expire_at sp) dedup_slot op ow (es, b) s st \<and> index_covers (expire_at sp) dedup_slot op es s"
  by (auto simp: expiry_inv_def index_inv_def index_matches_iff)

lemma index_expiry_spec:
  assumes inv: "expiry_inv sp op ow es s ebytes st" and fresh: "map_of (ms_entries s) (op, dedup_slot, enc) = None"
    and s1: "ms_inv ebytes s1 st1" "map_of (ms_entries s1) = (map_of (ms_entries s))((op, dedup_slot, enc) \<mapsto> e)"
      "e_value e = now" "ms_owner s1 = ow" "ms_operator s1 = op" "ms_slot s1 = dedup_slot"
    and sk: "sk_operator sk = op" "sk_slot sk = dedup_slot" "sk_encoded sk = enc"
    and d: "d_spec d = sp" "d_operator d = op" "d_owner d = ow" "d_expiry d = es" "d_expiry_bytes d = ebytes" "d_state d = s1"
  shows "\<exists>st' d' r. index_expiry L now sk d st1 = Some (st', d', r) \<and>
    (r = Ok () \<longrightarrow> d_state d' = s1 \<and> d' = d\<lparr>d_expiry := d_expiry d', d_expiry_bytes := d_expiry_bytes d'\<rparr> \<and>
       expiry_inv sp op ow (d_expiry d') s1 (d_expiry_bytes d') st')"
proof -
  have ii: "index_inv (expire_at sp) dedup_slot op ow (es, ebytes) s st" and co: "index_covers (expire_at sp) dedup_slot op es s"
    using inv by (simp_all add: expiry_inv_iff)
  have s1': "ms_inv (snd (es, ebytes)) s1 st1" "map_of (ms_entries s1) = (map_of (ms_entries s))((op, dedup_slot, sk_encoded sk) \<mapsto> e)"
    "map_of (ms_entries s) (op, dedup_slot, sk_encoded sk) = None" using s1 sk fresh by simp_all
  from index_add [OF ii sk(1,2) s1'(3,1,2) s1(4-6), of L]
  show ?thesis
  proof (elim disjE exE conjE)
    fix x assume "index_insert L ow (expire_at sp (e_value e)) sk (es, ebytes) st1 = Some (st1, (es, ebytes), Inl x)"
    then show ?thesis using d s1(3) by (simp add: index_expiry_def)
  next
    fix st2 ix2 sk1 assume r: "index_insert L ow (expire_at sp (e_value e)) sk (es, ebytes) st1 = Some (st2, ix2, Ok ())"
      "index_inv (expire_at sp) dedup_slot op ow ix2 s1 st2"
      "fst ix2 = bt_put (expire_at sp (e_value e), sk_encoded sk) sk1 (fst (es, ebytes))"
    have "index_covers (expire_at sp) dedup_slot op (fst ix2) s1"
      using index_covers_put [OF co s1(2), of sk1] r(3) sk by simp
    then have "expiry_inv sp op ow (fst ix2) s1 (snd ix2) st2" using r(2) by (simp add: expiry_inv_iff)
    then show ?thesis using r d s1(3) by (simp add: index_expiry_def)
  qed
qed

lemma index_expiry_refusal: "index_expiry L now sk d st = Some (st', d', Inl e) \<Longrightarrow> refusal (d_owner d) e"
  by (auto simp: index_expiry_def intro: index_insert_refusal)

lemma record_seen_spec:
  assumes inv: "dedup_inv d st" and fresh: "seen_at d enc = None"
    and sk: "sk_operator sk = d_operator d" "sk_slot sk = dedup_slot" "sk_encoded sk = enc"
  shows "\<exists>st' d' r. record_seen L sk now d st = Some (st', d', r) \<and>
    (case r of Inl e \<Rightarrow> refusal (d_owner d) e
     | Inr b \<Rightarrow> b \<and> dedup_inv d' st' \<and> d_spec d' = d_spec d \<and> d_operator d' = d_operator d \<and>
         d_key_idx d' = d_key_idx d \<and> d_owner d' = d_owner d \<and> seen_at d' = (seen_at d)(enc \<mapsto> now))"
proof -
  let ?s = "d_state d" and ?op = "d_operator d" and ?sp = "d_spec d" and ?ow = "d_owner d"
  have ex: "expiry_inv ?sp ?op ?ow (d_expiry d) ?s (d_expiry_bytes d) st" using inv by (simp add: dedup_inv_def)
  then have ms: "ms_inv (d_expiry_bytes d) ?s st" "ms_owner ?s = ?ow" "ms_operator ?s = ?op" "ms_slot ?s = dedup_slot"
    by (simp_all add: expiry_inv_def)
  have kid: "key_id (clone_key sk) = (?op, dedup_slot, enc)" using sk by (simp add: key_id_def clone_key_def)
  have nf: "map_of (ms_entries ?s) (?op, dedup_slot, enc) = None" using fresh by (simp add: seen_at_def)
  from ms_put_spec [OF ms(1), of L "clone_key sk" now 16] obtain st1 s1 r1 where
    put: "ms_put L (clone_key sk) now 16 ?s st = Some (st1, s1, r1)" and
    s1: "ms_inv (d_expiry_bytes d) s1 st1" "ms_owner s1 = ?ow" "ms_operator s1 = ?op" "ms_slot s1 = dedup_slot" and
    post1: "case r1 of Inl e \<Rightarrow> st1 = st \<and> s1 = ?s
     | Inr _ \<Rightarrow> sk_operator (clone_key sk) = ms_operator ?s \<and> sk_slot (clone_key sk) = ms_slot ?s \<and>
         (\<exists>e. map_of (ms_entries s1) = (map_of (ms_entries ?s))(key_id (clone_key sk) \<mapsto> e) \<and> e_value e = now) \<and>
         retention (ms_owner ?s) st1 + ms_retained ?s = retention (ms_owner ?s) st + ms_retained s1"
    unfolding ms(2-4) by blast
  have e: "\<exists>e. map_of (ms_entries s1) = (map_of (ms_entries ?s))((?op, dedup_slot, enc) \<mapsto> e) \<and> e_value e = now"
    if "r1 = Ok ()" using post1 that kid by simp
  show ?thesis
  proof (cases r1)
    case (Inl x)
    have "sk_operator (clone_key sk) = ms_operator ?s" "sk_slot (clone_key sk) = ms_slot ?s"
      using ms(3,4) sk by (simp_all add: clone_key_def)
    from ms_put_refusal [OF put [unfolded Inl] this] show ?thesis using put Inl ms(2) by (simp add: record_seen_def)
  next
    case (Inr u)
    with e obtain x where x: "map_of (ms_entries s1) = (map_of (ms_entries ?s))((?op, dedup_slot, enc) \<mapsto> x)" "e_value x = now" by auto
    from index_expiry_spec [OF ex nf s1(1) x s1(2-4) sk, of "d\<lparr>d_state := s1\<rparr>" L] obtain st' d' r where
      ix: "index_expiry L now sk (d\<lparr>d_state := s1\<rparr>) st1 = Some (st', d', r)" and
      post: "r = Ok () \<Longrightarrow> d_state d' = s1 \<and>
        d' = d\<lparr>d_state := s1, d_expiry := d_expiry d', d_expiry_bytes := d_expiry_bytes d'\<rparr> \<and>
        expiry_inv ?sp ?op ?ow (d_expiry d') s1 (d_expiry_bytes d') st'" by auto
    show ?thesis
    proof (cases r)
      case (Inl y)
      then show ?thesis using put Inr ix index_expiry_refusal [OF ix [unfolded Inl]] by (simp add: record_seen_def)
    next
      case ok: (Inr y)
      define es eb where "es = d_expiry d'" and "eb = d_expiry_bytes d'"
      have d': "d' = d\<lparr>d_state := s1, d_expiry := es, d_expiry_bytes := eb\<rparr>" "expiry_inv ?sp ?op ?ow es s1 eb st'"
        using post ok by (simp_all add: es_def eb_def)
      have "dedup_inv d' st'" using d' inv by (simp add: dedup_inv_def)
      moreover have "seen_at d' = (seen_at d)(enc \<mapsto> now)" using x by (auto simp: d' seen_at_def fun_eq_iff)
      ultimately show ?thesis using put Inr ix ok d' by (simp add: record_seen_def)
    qed
  qed
qed

definition row_key :: "dedup \<Rightarrow> row \<Rightarrow> bytes" where
  "row_key d r = key_encoding (map (\<lambda>i. r ! i) (d_key_idx d))"

definition all_within :: "dedup \<Rightarrow> int \<Rightarrow> bool" where
  "all_within d now \<longleftrightarrow> (\<forall>enc ls. seen_at d enc = Some ls \<longrightarrow> sat_i64 (now - ls) < dd_ttl (d_spec d))"

lemma admit_spec:
  assumes inv: "dedup_inv d st" and wide: "list_all (\<lambda>i. i < length r) (d_key_idx d)" and fresh: "all_within d now"
  shows "\<exists>st' d' res. admit L caps r now d st = Some (st', d', res) \<and>
    (case res of Inl e \<Rightarrow> seen_at d (row_key d r) = None \<and> refusal (d_owner d) e
     | Inr b \<Rightarrow> (b \<longleftrightarrow> seen_at d (row_key d r) = None) \<and> dedup_inv d' st' \<and> d_spec d' = d_spec d \<and>
         d_operator d' = d_operator d \<and> d_key_idx d' = d_key_idx d \<and> d_owner d' = d_owner d \<and> all_within d' now \<and>
         seen_at d' = (if b then (seen_at d)(row_key d r \<mapsto> now) else seen_at d))"
proof -
  let ?key = "map (\<lambda>i. r ! i) (d_key_idx d)"
  let ?sk = "state_key_new (caps ?key) (d_operator d) dedup_slot ?key"
  have sk: "sk_operator ?sk = d_operator d" "sk_slot ?sk = dedup_slot" "sk_encoded ?sk = row_key d r"
    by (simp_all add: state_key_new_def row_key_def)
  have get: "ms_get ?sk (d_state d) = seen_at d (row_key d r)"
    by (simp add: ms_get_def seen_at_def key_id_def sk)
  have in_range: "\<not> list_ex (\<lambda>i. length r \<le> i) (d_key_idx d)" using wide by (auto simp: list_ex_iff list_all_iff)
  show ?thesis
  proof (cases "seen_at d (row_key d r)")
    case (Some ls)
    then have "sat_i64 (now - ls) < dd_ttl (d_spec d)" using fresh by (simp add: all_within_def)
    with Some get in_range inv fresh show ?thesis by (simp add: admit_def Let_def)
  next
    case None
    from record_seen_spec [OF inv None sk, of L now] obtain st' d' res where
      run: "record_seen L ?sk now d st = Some (st', d', res)" and
      post: "case res of Inl e \<Rightarrow> refusal (d_owner d) e
        | Inr b \<Rightarrow> b \<and> dedup_inv d' st' \<and> d_spec d' = d_spec d \<and> d_operator d' = d_operator d \<and>
            d_key_idx d' = d_key_idx d \<and> d_owner d' = d_owner d \<and> seen_at d' = (seen_at d)(row_key d r \<mapsto> now)" by blast
    have "sat_i64 0 = 0" "0 < dd_ttl (d_spec d)" using inv by (simp_all add: sat_i64_def dedup_inv_def)
    with fresh have "seen_at d' = (seen_at d)(row_key d r \<mapsto> now) \<Longrightarrow> d_spec d' = d_spec d \<Longrightarrow> all_within d' now"
      by (auto simp: all_within_def split: if_splits)
    with run post None get in_range show ?thesis by (auto simp: admit_def Let_def split: sum.splits)
  qed
qed

section \<open>Properties\<close>

text \<open>The rows whose key has not been seen, each key once.\<close>

fun keep_first :: "('r \<Rightarrow> 'k) \<Rightarrow> ('k \<Rightarrow> bool) \<Rightarrow> 'r list \<Rightarrow> 'r list" where
  "keep_first f seen [] = []"
| "keep_first f seen (r # rs) =
     (if seen (f r) then keep_first f seen rs else r # keep_first f (\<lambda>k. seen k \<or> k = f r) rs)"

lemma admit_rows_spec:
  assumes "dedup_inv d st" "list_all (\<lambda>r. list_all (\<lambda>i. i < length r) (d_key_idx d)) rows" "all_within d now"
  shows "\<exists>st' d' res. admit_rows L caps now rows d st = Some (st', d', res) \<and>
    (\<forall>e. res = Inl e \<longrightarrow> refusal (d_owner d) e \<and> (\<exists>r \<in> set rows. seen_at d (row_key d r) = None)) \<and>
    (\<forall>kept. res = Ok kept \<longrightarrow> kept = keep_first (row_key d) (\<lambda>k. seen_at d k \<noteq> None) rows \<and> dedup_inv d' st' \<and>
       seen_at d' = (\<lambda>k. if seen_at d k = None \<and> k \<in> row_key d ` set rows then Some now else seen_at d k))"
  using assms
proof (induction rows arbitrary: d st)
  case (Cons r rows)
  have wide: "list_all (\<lambda>i. i < length r) (d_key_idx d)" using Cons.prems(2) by simp
  from admit_spec [OF Cons.prems(1) wide Cons.prems(3), of L caps] obtain st1 d1 res where
    run: "admit L caps r now d st = Some (st1, d1, res)" and
    post: "case res of Inl e \<Rightarrow> seen_at d (row_key d r) = None \<and> refusal (d_owner d) e
     | Inr b \<Rightarrow> (b \<longleftrightarrow> seen_at d (row_key d r) = None) \<and> dedup_inv d1 st1 \<and> d_spec d1 = d_spec d \<and>
         d_operator d1 = d_operator d \<and> d_key_idx d1 = d_key_idx d \<and> d_owner d1 = d_owner d \<and> all_within d1 now \<and>
         seen_at d1 = (if b then (seen_at d)(row_key d r \<mapsto> now) else seen_at d)" by blast
  show ?case
  proof (cases res)
    case (Inl e)
    then show ?thesis using run post by simp
  next
    case (Inr b)
    with post have p: "b \<longleftrightarrow> seen_at d (row_key d r) = None" "dedup_inv d1 st1" "all_within d1 now" "row_key d1 = row_key d"
      "seen_at d1 = (if b then (seen_at d)(row_key d r \<mapsto> now) else seen_at d)" "d_key_idx d1 = d_key_idx d" "d_owner d1 = d_owner d"
      by (auto simp: row_key_def fun_eq_iff)
    have "list_all (\<lambda>r. list_all (\<lambda>i. i < length r) (d_key_idx d1)) rows" using Cons.prems(2) p(6) by simp
    from Cons.IH [OF p(2) this p(3)] obtain st2 d2 res2 where
      rec: "admit_rows L caps now rows d1 st1 = Some (st2, d2, res2)" and
      err: "\<And>e. res2 = Inl e \<Longrightarrow> refusal (d_owner d) e \<and> (\<exists>r \<in> set rows. seen_at d1 (row_key d r) = None)" and
      ih: "\<And>kept. res2 = Ok kept \<Longrightarrow> kept = keep_first (row_key d) (\<lambda>k. seen_at d1 k \<noteq> None) rows \<and> dedup_inv d2 st2 \<and>
        seen_at d2 = (\<lambda>k. if seen_at d1 k = None \<and> k \<in> row_key d ` set rows then Some now else seen_at d1 k)"
      using p(4,7) by auto
    have mono: "seen_at d k = None" if "seen_at d1 k = None" for k using that p(5) by (cases b) (auto split: if_splits)
    have seen1: "(\<lambda>k. seen_at d1 k \<noteq> None) = (\<lambda>k. seen_at d k \<noteq> None \<or> k = row_key d r)" if b
      using p(5) that by auto
    have "seen_at d2 = (\<lambda>k. if seen_at d k = None \<and> k \<in> row_key d ` set (r # rows) then Some now else seen_at d k)"
      if "res2 = Ok kept" for kept
      using ih [OF that] p(1,5) by (cases b) (auto simp: fun_eq_iff)
    moreover have "(if b then r # kept else kept) = keep_first (row_key d) (\<lambda>k. seen_at d k \<noteq> None) (r # rows)"
      if "res2 = Ok kept" for kept
    proof (cases b)
      case True
      then show ?thesis using ih [OF that] p(1) seen1 by simp
    next
      case False
      then have "seen_at d1 = seen_at d" "seen_at d (row_key d r) \<noteq> None" using p(1,5) by (metis, blast)
      then show ?thesis using ih [OF that] False by auto
    qed
    moreover have "admit_rows L caps now (r # rows) d st =
        Some (st2, d2, rbind res2 (\<lambda>ks. Ok (if b then r # ks else ks)))"
      using run rec Inr by simp
    moreover have "\<And>kept. res2 = Ok kept \<Longrightarrow> dedup_inv d2 st2" using ih by blast
    moreover have "\<And>e. res2 = Inl e \<Longrightarrow> refusal (d_owner d) e \<and> (\<exists>x \<in> set (r # rows). seen_at d (row_key d x) = None)"
      using err mono by auto
    ultimately show ?thesis by (cases res2) (simp_all del: admit_rows.simps keep_first.simps)
  qed
qed simp

lemma unexpired_within:
  assumes "is_i64 now" "is_i64 ls" "is_i64 ttl" "0 < ttl" "now < sat_i64 (ls + ttl)"
  shows "sat_i64 (now - ls) < ttl"
  using assms by (auto simp: mach_defs split: if_splits)

text \<open>
  C34: On every batch the operator either reports that it is out of quota or credit, which
  it can only do when some row of the batch has a key not seen within the TTL, or returns exactly the rows whose key was not seen within the TTL, each key once and in arrival order,
  and remembers exactly the keys of the batch as seen now beside the unexpired ones. It never
  panics, and the expiry index, the byte ledgers and the state stay consistent.
\<close>

theorem dedup_exact:
  assumes inv: "dedup_inv d st" and now: "is_i64 now"
    and i64: "\<And>enc ls. seen_at d enc = Some ls \<Longrightarrow> is_i64 ls"
    and wide: "list_all (\<lambda>r. list_all (\<lambda>i. i < length r) (d_key_idx d)) rows"
  shows "\<exists>st' d' res. dedup_on_batch L caps rows now d st = Some (st', d', res) \<and>
    (\<forall>e. res = Inl e \<longrightarrow> refusal (d_owner d) e \<and>
       (\<exists>r \<in> set rows. \<not> (\<exists>ls. seen_at d (row_key d r) = Some ls \<and> now < expire_at (d_spec d) ls))) \<and>
    (\<forall>kept. res = Ok kept \<longrightarrow>
       kept = keep_first (row_key d) (\<lambda>k. \<exists>ls. seen_at d k = Some ls \<and> now < expire_at (d_spec d) ls) rows \<and>
       (\<forall>k. seen_at d' k =
          (case seen_at d k of
             Some ls \<Rightarrow> if now < expire_at (d_spec d) ls then Some ls
                       else if k \<in> row_key d ` set rows then Some now else None
           | None \<Rightarrow> if k \<in> row_key d ` set rows then Some now else None)) \<and>
       dedup_inv d' st')"
proof -
  from expire_spec [OF inv, of now] obtain st1 d1 where ex: "expire now d st = Some (st1, d1)" and
    d1: "dedup_inv d1 st1" "d_spec d1 = d_spec d" "d_key_idx d1 = d_key_idx d" "d_owner d1 = d_owner d" and
    seen1: "seen_at d1 = (\<lambda>enc. case seen_at d enc of None \<Rightarrow> None
       | Some ls \<Rightarrow> if expire_at (d_spec d) ls \<le> now then None else Some ls)" by blast
  have rk: "row_key d1 = row_key d" by (simp add: row_key_def d1(3) fun_eq_iff)
  have live: "(\<lambda>k. seen_at d1 k \<noteq> None) = (\<lambda>k. \<exists>ls. seen_at d k = Some ls \<and> now < expire_at (d_spec d) ls)"
    by (auto simp: seen1 fun_eq_iff not_le split: option.splits)
  have ttl: "is_i64 (dd_ttl (d_spec d))" "0 < dd_ttl (d_spec d)" using inv by (simp_all add: dedup_inv_def)
  have "all_within d1 now"
    unfolding all_within_def d1(2)
  proof (intro allI impI)
    fix enc ls assume "seen_at d1 enc = Some ls"
    then have "seen_at d enc = Some ls" "now < sat_i64 (ls + dd_ttl (d_spec d))"
      by (auto simp: seen1 expire_at_def split: option.splits if_splits)
    then show "sat_i64 (now - ls) < dd_ttl (d_spec d)" using unexpired_within [OF now i64 ttl] by blast
  qed
  with admit_rows_spec [OF d1(1), of rows now L caps] wide d1(3) obtain st' d' res where
    run: "admit_rows L caps now rows d1 st1 = Some (st', d', res)" and
    err: "\<And>e. res = Inl e \<Longrightarrow> refusal (d_owner d) e \<and> (\<exists>r \<in> set rows. seen_at d1 (row_key d r) = None)" and
    post: "\<And>kept. res = Ok kept \<Longrightarrow> kept = keep_first (row_key d) (\<lambda>k. seen_at d1 k \<noteq> None) rows \<and> dedup_inv d' st' \<and>
       seen_at d' = (\<lambda>k. if seen_at d1 k = None \<and> k \<in> row_key d ` set rows then Some now else seen_at d1 k)"
    by (auto simp: rk d1(4))
  have "refusal (d_owner d) e \<and> (\<exists>r \<in> set rows. \<not> (\<exists>ls. seen_at d (row_key d r) = Some ls \<and> now < expire_at (d_spec d) ls))"
    if "res = Inl e" for e
    using err [OF that] fun_cong [OF live] by metis
  moreover have "seen_at d' k = (case seen_at d k of
      Some ls \<Rightarrow> if now < expire_at (d_spec d) ls then Some ls else if k \<in> row_key d ` set rows then Some now else None
    | None \<Rightarrow> if k \<in> row_key d ` set rows then Some now else None)" if "res = Ok kept" for k kept
    using post [OF that] by (auto simp: seen1 not_le split: option.splits)
  ultimately show ?thesis using ex run post live by (auto simp: dedup_on_batch_def)
qed

definition demo_dedup :: dedup where
  "demo_dedup = \<lparr>d_operator = 2, d_spec = \<lparr>dd_keys = [''id''], dd_ttl = 100, dd_max_keys = 4\<rparr>, d_key_idx = [0],
     d_state = \<lparr>ms_owner = demo_owner, ms_operator = 2, ms_slot = 2, ms_max_keys = 4, ms_entries = [], ms_retained = 0\<rparr>,
     d_owner = demo_owner, d_expiry = [], d_probes = 0, d_expiry_bytes = 0\<rparr>"

theorem dedup_exact_witness:
  "\<exists>st' d' res. dedup_on_batch \<lparr>size_of_scalar = 24, size_of_dynamic = 24, size_of_pair = 40, size_of_state_key = 80\<rparr>
     (\<lambda>_. (1, 16)) [[SInt64 1], [SInt64 2], [SInt64 1]] 0 demo_dedup (\<lambda>_. counters_new) = Some (st', d', res)"
proof -
  have inv: "dedup_inv demo_dedup (\<lambda>_. counters_new)"
    by (simp add: dedup_inv_def expiry_inv_def index_matches_def demo_dedup_def ms_inv_def demo_owner_def budget_ok_def
        budget_compact_def hm_sum_def retention_def counters_new_def is_i64_def)
  have seen: "\<And>enc ls. seen_at demo_dedup enc = Some ls \<Longrightarrow> is_i64 ls" by (simp add: seen_at_def demo_dedup_def)
  have wide: "list_all (\<lambda>r. list_all (\<lambda>i. i < length r) (d_key_idx demo_dedup)) [[SInt64 1], [SInt64 2], [SInt64 1]]"
    by (simp add: demo_dedup_def)
  have now: "is_i64 0" by (simp add: is_i64_def)
  show ?thesis
    using dedup_exact [OF inv now _ wide, where L = "\<lparr>size_of_scalar = 24, size_of_dynamic = 24, size_of_pair = 40, size_of_state_key = 80\<rparr>" and caps = "\<lambda>_. (1, 16)"] seen
    by blast
qed

end
