(* ===== verification/Scalar_Ops.thy ===== *)
theory Scalar_Ops
  imports Scalar_Value
begin

text \<open>
  The scalar kernels of the expression evaluator, \<^verbatim>\<open>sparrow-expr/src/lib.rs\<close>: checked integer
  arithmetic, comparison, equality, three-valued logic and casts, and the function registry of
  \<^verbatim>\<open>sparrow-expr/src/semantics.rs\<close> with its arity check.
\<close>

section \<open>Parsing floats\<close>

text \<open>
  \<open>str::parse::<f64>\<close>: an optional sign, then \<open>inf\<close>, \<open>infinity\<close> or \<open>nan\<close> in any case, or a
  decimal number with an optional exponent, correctly rounded.
\<close>

definition is_digit :: "char \<Rightarrow> bool" where
  "is_digit c \<longleftrightarrow> digit_value c \<noteq> None"

definition ascii_lower :: "char \<Rightarrow> char" where
  "ascii_lower c = (let n = (of_char c :: nat) in if 65 \<le> n \<and> n \<le> 90 then char_of (n + 32) else c)"

definition ascii_upper :: "char \<Rightarrow> char" where
  "ascii_upper c = (let n = (of_char c :: nat) in if 97 \<le> n \<and> n \<le> 122 then char_of (n - 32) else c)"

definition to_ascii_lowercase :: "string \<Rightarrow> string" where
  "to_ascii_lowercase s = map ascii_lower s"

definition to_ascii_uppercase :: "string \<Rightarrow> string" where
  "to_ascii_uppercase s = map ascii_upper s"

definition eq_ignore_ascii_case :: "string \<Rightarrow> string \<Rightarrow> bool" where
  "eq_ignore_ascii_case a b \<longleftrightarrow> to_ascii_lowercase a = to_ascii_lowercase b"

definition split_sign :: "string \<Rightarrow> bool \<times> string" where
  "split_sign s =
     (case s of
        [] \<Rightarrow> (False, [])
      | c # cs \<Rightarrow> if c = CHR ''-'' then (True, cs) else if c = CHR ''+'' then (False, cs) else (False, s))"

definition parse_exponent :: "string \<Rightarrow> int option" where
  "parse_exponent s =
     (case s of
        [] \<Rightarrow> Some 0
      | c # cs \<Rightarrow>
          if ascii_lower c = CHR ''e''
          then case split_sign cs of (neg, ds) \<Rightarrow>
            map_option (\<lambda>n. if neg then - int n else int n) (parse_unsigned ds)
          else None)"

definition decimal_f64 :: "bool \<Rightarrow> nat \<Rightarrow> int \<Rightarrow> f64" where
  "decimal_f64 neg m e =
     mk_f64 neg (if 0 \<le> e then round_bits (m * 10 ^ nat e * unit_inv) 1
                 else round_bits (m * unit_inv) (10 ^ nat (- e)))"

definition parse_number :: "bool \<Rightarrow> string \<Rightarrow> f64 option" where
  "parse_number neg s =
     (let ip = takeWhile is_digit s; r = dropWhile is_digit s;
          (fp, r2) = (case r of
              [] \<Rightarrow> ([], [])
            | c # cs \<Rightarrow> if c = CHR ''.'' then (takeWhile is_digit cs, dropWhile is_digit cs) else ([], r))
      in if ip @ fp = [] then None
         else case (parse_unsigned (ip @ fp), parse_exponent r2) of
             (Some m, Some e) \<Rightarrow> Some (decimal_f64 neg m (e - int (length fp)))
           | _ \<Rightarrow> None)"

definition parse_f64 :: "string \<Rightarrow> f64 option" where
  "parse_f64 s =
     (case split_sign s of (neg, body) \<Rightarrow>
        let low = to_ascii_lowercase body
        in if low = ''inf'' \<or> low = ''infinity'' then Some (mk_f64 neg inf_bits)
           else if low = ''nan'' then Some (mk_f64 neg (f_low f_nan))
           else parse_number neg body)"

section \<open>Operators\<close>

datatype binary_op = BAdd | BSub | BMul | BDiv | BEq | BNotEq | BLt | BLte | BGt | BGte | BAnd | BOr

definition eval_int_arith :: "binary_op \<Rightarrow> int \<Rightarrow> int \<Rightarrow> scalar result" where
  "eval_int_arith op l r =
     (if op = BDiv \<and> r = 0 then Ok SNull
      else case (case op of
            BAdd \<Rightarrow> checked_i64 (l + r)
          | BSub \<Rightarrow> checked_i64 (l - r)
          | BMul \<Rightarrow> checked_i64 (l * r)
          | BDiv \<Rightarrow> checked_i64 (trunc_div l r)
          | _ \<Rightarrow> None) of
        None \<Rightarrow> Err IntegerOverflow
      | Some v \<Rightarrow> Ok (SInt64 v))"

definition eval_uint_arith :: "binary_op \<Rightarrow> nat \<Rightarrow> nat \<Rightarrow> scalar result" where
  "eval_uint_arith op l r =
     (if op = BDiv \<and> r = 0 then Ok SNull
      else case (case op of
            BAdd \<Rightarrow> checked_u64 (int l + int r)
          | BSub \<Rightarrow> checked_u64 (int l - int r)
          | BMul \<Rightarrow> checked_u64 (int l * int r)
          | BDiv \<Rightarrow> checked_u64 (int (l div r))
          | _ \<Rightarrow> None) of
        None \<Rightarrow> Err IntegerOverflow
      | Some v \<Rightarrow> Ok (SUInt64 v))"

definition is_f64 :: "scalar \<Rightarrow> bool" where
  "is_f64 s = (case s of SFloat64 _ \<Rightarrow> True | _ \<Rightarrow> False)"

definition is_dyn :: "scalar \<Rightarrow> bool" where
  "is_dyn s = (case s of SDynamic _ \<Rightarrow> True | _ \<Rightarrow> False)"

definition eval_float_arith :: "binary_op \<Rightarrow> scalar \<Rightarrow> scalar \<Rightarrow> scalar result" where
  "eval_float_arith op left right =
     rbind (ok_or TypeMismatch (scalar_as_f64 left)) (\<lambda>l.
     rbind (ok_or TypeMismatch (scalar_as_f64 right)) (\<lambda>r.
       if \<not> is_f64 left \<and> \<not> is_f64 right then Err TypeMismatch
       else case op of
           BAdd \<Rightarrow> Ok (SFloat64 (f_add l r))
         | BSub \<Rightarrow> Ok (SFloat64 (f_sub l r))
         | BMul \<Rightarrow> Ok (SFloat64 (f_mul l r))
         | _ \<Rightarrow> if f_eq r f_zero then Ok SNull else Ok (SFloat64 (f_div l r))))"

definition eval_arith :: "binary_op \<Rightarrow> scalar \<Rightarrow> scalar \<Rightarrow> scalar result" where
  "eval_arith op left right =
     (if is_dyn left \<or> is_dyn right then Err TypeMismatch
      else case (left, right) of
          (SInt64 l, SInt64 r) \<Rightarrow> eval_int_arith op l r
        | (SUInt64 l, SUInt64 r) \<Rightarrow> eval_uint_arith op l r
        | (SInt64 l, SUInt64 r) \<Rightarrow>
            if int r \<le> i64_max then eval_int_arith op l (int r) else eval_float_arith op left right
        | (SUInt64 l, SInt64 r) \<Rightarrow>
            if int l \<le> i64_max then eval_int_arith op (int l) r else eval_float_arith op left right
        | _ \<Rightarrow> eval_float_arith op left right)"

definition logic_arg :: "scalar \<Rightarrow> bool option result" where
  "logic_arg s = (case s of SBool v \<Rightarrow> Ok (Some v) | SNull \<Rightarrow> Ok None | _ \<Rightarrow> Err TypeMismatch)"

definition eval_logic :: "binary_op \<Rightarrow> scalar \<Rightarrow> scalar \<Rightarrow> scalar result" where
  "eval_logic op left right =
     rbind (logic_arg left) (\<lambda>lb. rbind (logic_arg right) (\<lambda>rb.
       Ok (if op = BAnd \<and> (lb = Some False \<or> rb = Some False) then SBool False
           else if op = BAnd \<and> lb = Some True \<and> rb = Some True then SBool True
           else if op = BOr \<and> (lb = Some True \<or> rb = Some True) then SBool True
           else if op = BOr \<and> lb = Some False \<and> rb = Some False then SBool False
           else SNull)))"

definition cmp_ord_op :: "binary_op \<Rightarrow> ordering \<Rightarrow> bool result" where
  "cmp_ord_op op ord =
     (case op of
        BLt \<Rightarrow> Ok (ord = Less)
      | BLte \<Rightarrow> Ok (ord \<noteq> Greater)
      | BGt \<Rightarrow> Ok (ord = Greater)
      | BGte \<Rightarrow> Ok (ord \<noteq> Less)
      | _ \<Rightarrow> Err Internal)"

definition cmp_scalars :: "scalar \<Rightarrow> scalar \<Rightarrow> ordering option result" where
  "cmp_scalars left right =
     (let other =
        (case (scalar_as_f64 left, scalar_as_f64 right) of
           (Some a, Some b) \<Rightarrow> if is_f64 left \<or> is_f64 right then Ok (partial_cmp a b) else Err TypeMismatch
         | _ \<Rightarrow> Err TypeMismatch)
      in case (left, right) of
          (SInt64 a, SInt64 b) \<Rightarrow> Ok (Some (cmp a b))
        | (SUInt64 a, SUInt64 b) \<Rightarrow> Ok (Some (cmp a b))
        | (SInt64 a, SUInt64 b) \<Rightarrow> if 0 \<le> a then Ok (Some (cmp (nat a) b)) else other
        | (SUInt64 a, SInt64 b) \<Rightarrow> if 0 \<le> b then Ok (Some (cmp a (nat b))) else other
        | (STimestampMicrosUTC a, STimestampMicrosUTC b) \<Rightarrow> Ok (Some (cmp a b))
        | (STimestampMicrosUTC a, SInt64 b) \<Rightarrow> Ok (Some (cmp a b))
        | (SInt64 a, STimestampMicrosUTC b) \<Rightarrow> Ok (Some (cmp a b))
        | (SFloat64 a, SFloat64 b) \<Rightarrow> Ok (partial_cmp a b)
        | (SUtf8 a, SUtf8 b) \<Rightarrow> Ok (Some (cmp a b))
        | _ \<Rightarrow> other)"

definition scalars_eq :: "scalar \<Rightarrow> scalar \<Rightarrow> bool" where
  "scalars_eq left right =
     (case (left, right) of
        (SInt64 a, SInt64 b) \<Rightarrow> a = b
      | (SUInt64 a, SUInt64 b) \<Rightarrow> a = b
      | (SInt64 a, SUInt64 b) \<Rightarrow> 0 \<le> a \<and> nat a = b
      | (SUInt64 a, SInt64 b) \<Rightarrow> 0 \<le> b \<and> a = nat b
      | (SFloat64 a, SFloat64 b) \<Rightarrow> f_eq a b
      | _ \<Rightarrow> scalar_peq left right)"

definition eval_binary :: "binary_op \<Rightarrow> scalar \<Rightarrow> scalar \<Rightarrow> scalar result" where
  "eval_binary op left right =
     (if op \<in> {BAnd, BOr} then eval_logic op left right
      else if is_null left \<or> is_null right then Ok SNull
      else if op \<in> {BAdd, BSub, BMul, BDiv} then eval_arith op left right
      else if op = BEq then Ok (SBool (scalars_eq left right))
      else if op = BNotEq then Ok (SBool (\<not> scalars_eq left right))
      else rbind (cmp_scalars left right) (\<lambda>c.
        case c of
          Some ord \<Rightarrow> rbind (cmp_ord_op op ord) (\<lambda>b. Ok (SBool b))
        | None \<Rightarrow> Ok (SBool False)))"

section \<open>Casts\<close>

definition dynamic_from_scalar :: "scalar \<Rightarrow> dynamic_value" where
  "dynamic_from_scalar s =
     (case s of
        SNull \<Rightarrow> DNull
      | SBool v \<Rightarrow> DBool v
      | SInt64 v \<Rightarrow> DInt64 v
      | SUInt64 v \<Rightarrow> DUInt64 v
      | SFloat64 v \<Rightarrow> DFloat64 v
      | SUtf8 v \<Rightarrow> DUtf8 v
      | SBytes v \<Rightarrow> DBytes v
      | STimestampMicrosUTC v \<Rightarrow> DInt64 v
      | SDynamic d \<Rightarrow> d)"

definition cast_fail :: "bool \<Rightarrow> scalar result" where
  "cast_fail try_cast = (if try_cast then Ok SNull else Err TypeMismatch)"

definition cast :: "scalar \<Rightarrow> data_type \<Rightarrow> bool \<Rightarrow> scalar result" where
  "cast v t try_cast =
     (if is_null v then Ok SNull
      else case (v, t) of
          (SInt64 x, TInt64) \<Rightarrow> Ok (SInt64 x)
        | (SInt64 x, TUInt64) \<Rightarrow> if 0 \<le> x then Ok (SUInt64 (nat x)) else cast_fail try_cast
        | (SInt64 x, TFloat64) \<Rightarrow> Ok (SFloat64 (f_of_int x))
        | (SInt64 x, TUtf8) \<Rightarrow> Ok (SUtf8 (show_int x))
        | (SUInt64 x, TUInt64) \<Rightarrow> Ok (SUInt64 x)
        | (SUInt64 x, TInt64) \<Rightarrow> if int x \<le> i64_max then Ok (SInt64 (int x)) else cast_fail try_cast
        | (SUInt64 x, TFloat64) \<Rightarrow> Ok (SFloat64 (f_of_int (int x)))
        | (SFloat64 x, TFloat64) \<Rightarrow> Ok (SFloat64 x)
        | (SFloat64 x, TInt64) \<Rightarrow> Ok (SInt64 (f_to_i64 x))
        | (SUtf8 s, TUtf8) \<Rightarrow> Ok (SUtf8 s)
        | (SUtf8 s, TInt64) \<Rightarrow>
            (case parse_i64 s of Some x \<Rightarrow> Ok (SInt64 x) | None \<Rightarrow> cast_fail try_cast)
        | (SUtf8 s, TFloat64) \<Rightarrow>
            (case parse_f64 s of Some x \<Rightarrow> Ok (SFloat64 x) | None \<Rightarrow> cast_fail try_cast)
        | (SBool b, TBool) \<Rightarrow> Ok (SBool b)
        | (SDynamic (DInt64 x), TInt64) \<Rightarrow> Ok (SInt64 x)
        | (SDynamic (DFloat64 x), TFloat64) \<Rightarrow> Ok (SFloat64 x)
        | (SDynamic (DUtf8 s), TUtf8) \<Rightarrow> Ok (SUtf8 s)
        | (SDynamic d, TFloat64) \<Rightarrow>
            (case dyn_as_f64 d of Some x \<Rightarrow> Ok (SFloat64 x) | None \<Rightarrow> cast_fail try_cast)
        | (_, TDynamic) \<Rightarrow> Ok (SDynamic (dynamic_from_scalar v))
        | _ \<Rightarrow> cast_fail try_cast)"

section \<open>The function registry\<close>

record function_semantics =
  fn_name :: string
  fn_min_args :: nat
  fn_max_args :: "nat option"

definition bounded_fn :: "string \<Rightarrow> nat \<Rightarrow> nat \<Rightarrow> function_semantics" where
  "bounded_fn n lo hi = \<lparr>fn_name = n, fn_min_args = lo, fn_max_args = Some hi\<rparr>"

definition fn_registry :: "function_semantics list" where
  "fn_registry =
    [bounded_fn ''array_length'' 1 1, bounded_fn ''array_get'' 2 2, bounded_fn ''array_contains'' 2 2,
     bounded_fn ''array_append'' 2 2, bounded_fn ''array_slice'' 3 3, bounded_fn ''array_concat'' 2 2,
     bounded_fn ''array_join'' 2 2, bounded_fn ''object_keys'' 1 1, bounded_fn ''object_values'' 1 1,
     bounded_fn ''object_get'' 2 2, bounded_fn ''object_has_key'' 2 2, bounded_fn ''object_remove'' 2 2,
     bounded_fn ''object_set'' 3 3, bounded_fn ''split'' 2 2, bounded_fn ''base64_encode'' 1 1,
     bounded_fn ''base64_decode'' 1 1, bounded_fn ''hex_encode'' 1 1, bounded_fn ''hex_decode'' 1 1,
     bounded_fn ''sha256'' 1 1, bounded_fn ''concat'' 2 16, bounded_fn ''substring'' 3 3,
     bounded_fn ''replace'' 3 3, bounded_fn ''contains'' 2 2, bounded_fn ''starts_with'' 2 2,
     bounded_fn ''ends_with'' 2 2, bounded_fn ''trim'' 1 1, bounded_fn ''round'' 1 1,
     bounded_fn ''floor'' 1 1, bounded_fn ''ceil'' 1 1, bounded_fn ''to_int64'' 1 1,
     bounded_fn ''to_float64'' 1 1, bounded_fn ''to_string'' 1 1, bounded_fn ''json_get'' 2 2,
     bounded_fn ''json_object'' 2 16, bounded_fn ''json_stringify'' 1 1, bounded_fn ''parse_timestamp'' 1 1,
     bounded_fn ''format_timestamp'' 1 1, bounded_fn ''abs'' 1 1, bounded_fn ''lower'' 1 1,
     bounded_fn ''upper'' 1 1, bounded_fn ''length'' 1 1, bounded_fn ''char_length'' 1 1,
     \<lparr>fn_name = ''coalesce'', fn_min_args = 1, fn_max_args = None\<rparr>, bounded_fn ''nullif'' 2 2,
     \<lparr>fn_name = ''greatest'', fn_min_args = 1, fn_max_args = None\<rparr>,
     \<lparr>fn_name = ''least'', fn_min_args = 1, fn_max_args = None\<rparr>]"

definition find_function :: "string \<Rightarrow> function_semantics option" where
  "find_function name = List.find (\<lambda>f. eq_ignore_ascii_case (fn_name f) name) fn_registry"

definition check_call_arity :: "string \<Rightarrow> nat \<Rightarrow> unit result" where
  "check_call_arity name argc =
     rbind (ok_or FeatureUnavailable (find_function name)) (\<lambda>f.
       if argc < fn_min_args f \<or> (case fn_max_args f of None \<Rightarrow> False | Some m \<Rightarrow> m < argc)
       then Err InvalidArgument else Ok ())"

section \<open>Arithmetic\<close>

fun int_value :: "scalar \<Rightarrow> int option" where
  "int_value (SInt64 x) = Some x"
| "int_value (SUInt64 n) = Some (int n)"
| "int_value _ = None"

fun in_range :: "scalar \<Rightarrow> bool" where
  "in_range (SInt64 x) = is_i64 x"
| "in_range (SUInt64 n) = is_u64 n"
| "in_range (STimestampMicrosUTC x) = is_i64 x"
| "in_range _ = True"

definition exact :: "binary_op \<Rightarrow> int \<Rightarrow> int \<Rightarrow> int option" where
  "exact op x y =
     (case op of
        BAdd \<Rightarrow> Some (x + y)
      | BSub \<Rightarrow> Some (x - y)
      | BMul \<Rightarrow> Some (x * y)
      | BDiv \<Rightarrow> if y = 0 then None else Some (trunc_div x y)
      | _ \<Rightarrow> None)"

lemma trunc_div_nat: "trunc_div (int a) (int b) = int (a div b)"
  by (cases "a = 0"; cases "b = 0") (simp_all add: trunc_div_def zdiv_int)

lemma eval_int_arith_exact:
  "op \<in> {BAdd, BSub, BMul, BDiv} \<Longrightarrow> eval_int_arith op x y =
     (case exact op x y of
        None \<Rightarrow> Ok SNull
      | Some v \<Rightarrow> if is_i64 v then Ok (SInt64 v) else Err IntegerOverflow)"
  by (auto simp: eval_int_arith_def exact_def checked_i64_def)

lemma eval_uint_arith_exact:
  "op \<in> {BAdd, BSub, BMul, BDiv} \<Longrightarrow> eval_uint_arith op x y =
     (case exact op (int x) (int y) of
        None \<Rightarrow> Ok SNull
      | Some v \<Rightarrow> if 0 \<le> v \<and> v \<le> int u64_max then Ok (SUInt64 (nat v)) else Err IntegerOverflow)"
  by (auto simp: eval_uint_arith_def exact_def checked_u64_def trunc_div_nat simp del: of_nat_add of_nat_mult of_nat_diff)

text \<open>
  C40: Integer arithmetic is exact: on two signed or two unsigned operands, and on mixed operands
  that fit \<open>i64\<close>, the result is the mathematical one (division truncates, division by zero is
  NULL) or an overflow error when it does not fit the result type; mixed operands beyond
  \<open>i64\<close> are a type error and never pass through a float.
\<close>

theorem int_arith_exact:
  assumes op: "op \<in> {BAdd, BSub, BMul, BDiv}" and l: "int_value l = Some x" and r: "int_value r = Some y"
    and rng: "in_range l" "in_range r"
  shows "eval_binary op l r =
    (if scalar_type l = TUInt64 \<and> scalar_type r = TUInt64 then
       (case exact op x y of
          None \<Rightarrow> Ok SNull
        | Some v \<Rightarrow> if 0 \<le> v \<and> v \<le> int u64_max then Ok (SUInt64 (nat v)) else Err IntegerOverflow)
     else if x \<le> i64_max \<and> y \<le> i64_max then
       (case exact op x y of
          None \<Rightarrow> Ok SNull
        | Some v \<Rightarrow> if is_i64 v then Ok (SInt64 v) else Err IntegerOverflow)
     else Err TypeMismatch)"
proof -
  have bin: "eval_binary op l r = eval_arith op l r"
    using op l r by (cases l; cases r) (auto simp: eval_binary_def is_null_def)
  have fl: "eval_float_arith op (SInt64 a) (SUInt64 b) = Err TypeMismatch"
    "eval_float_arith op (SUInt64 b) (SInt64 a) = Err TypeMismatch" for a b
    by (simp_all add: eval_float_arith_def scalar_as_f64_def is_f64_def)
  show ?thesis
    unfolding bin using l r rng op
    by (cases l; cases r)
      (simp_all add: eval_arith_def is_dyn_def eval_int_arith_exact eval_uint_arith_exact fl is_i64_def del: insert_iff)
qed

theorem int_arith_exact_witness:
  "eval_binary BDiv (SInt64 (- 7)) (SUInt64 2) = Ok (SInt64 (- 3)) \<and>
   eval_binary BMul (SUInt64 u64_max) (SUInt64 2) = Err IntegerOverflow"
  using int_arith_exact [of BDiv "SInt64 (- 7)" "- 7" "SUInt64 2" 2]
    int_arith_exact [of BMul "SUInt64 u64_max" "int u64_max" "SUInt64 2" 2]
  by (simp add: exact_def trunc_div_def is_i64_def is_u64_def)

section \<open>Comparison\<close>

definition ordered_pair :: "scalar \<Rightarrow> scalar \<Rightarrow> bool" where
  "ordered_pair l r =
     (case (l, r) of
        (SInt64 _, SInt64 _) \<Rightarrow> True
      | (SUInt64 _, SUInt64 _) \<Rightarrow> True
      | (SInt64 a, SUInt64 _) \<Rightarrow> 0 \<le> a
      | (SUInt64 _, SInt64 b) \<Rightarrow> 0 \<le> b
      | (STimestampMicrosUTC _, STimestampMicrosUTC _) \<Rightarrow> True
      | (SFloat64 a, SFloat64 b) \<Rightarrow> \<not> is_nan a \<and> \<not> is_nan b
      | (SUtf8 _, SUtf8 _) \<Rightarrow> True
      | _ \<Rightarrow> False)"

lemma cmp_scalars_ordered:
  assumes "ordered_pair l r"
  obtains ord where "cmp_scalars l r = Ok (Some ord)" "scalars_eq l r \<longleftrightarrow> ord = Equal" "\<not> is_null l" "\<not> is_null r"
  using assms
  by (cases l; cases r)
    (auto simp: ordered_pair_def cmp_scalars_def scalars_eq_def is_null_def f_eq_def partial_cmp_def)

text \<open>
  On operands of one kind (two signed or two unsigned integers, a signed integer that is not
  negative and an unsigned one, timestamps, text, floats other than NaN) the six comparison
  operators agree: exactly one of less, equal and greater holds and the others follow from it.
\<close>

theorem compare_coherent:
  assumes "ordered_pair l r"
  shows "\<exists>ord. eval_binary BLt l r = Ok (SBool (ord = Less)) \<and> eval_binary BEq l r = Ok (SBool (ord = Equal)) \<and>
    eval_binary BGt l r = Ok (SBool (ord = Greater)) \<and> eval_binary BLte l r = Ok (SBool (ord \<noteq> Greater)) \<and>
    eval_binary BGte l r = Ok (SBool (ord \<noteq> Less)) \<and> eval_binary BNotEq l r = Ok (SBool (ord \<noteq> Equal))"
proof -
  obtain ord where "cmp_scalars l r = Ok (Some ord)" "scalars_eq l r \<longleftrightarrow> ord = Equal" "\<not> is_null l" "\<not> is_null r"
    using cmp_scalars_ordered [OF assms] by blast
  then show ?thesis by (intro exI [of _ ord]) (simp add: eval_binary_def cmp_ord_op_def)
qed

theorem compare_coherent_witness:
  "\<exists>ord. eval_binary BLt (SUInt64 3) (SInt64 5) = Ok (SBool (ord = Less)) \<and>
     eval_binary BEq (SUInt64 3) (SInt64 5) = Ok (SBool (ord = Equal)) \<and>
     eval_binary BGt (SUInt64 3) (SInt64 5) = Ok (SBool (ord = Greater))"
  using compare_coherent [of "SUInt64 3" "SInt64 5"] by (auto simp: ordered_pair_def)

text \<open>
  Across kinds the operators disagree: a float is at most and at least the integer it was converted
  from and yet not equal to it, likewise a timestamp and an integer, and ordering a negative
  integer against an unsigned one is a type error although their equality is decided.
\<close>

lemma mixed_comparison_incoherent:
  "\<not> is_nan (f_of_int i) \<Longrightarrow> eval_binary BLte (SFloat64 (f_of_int i)) (SInt64 i) = Ok (SBool True) \<and>
     eval_binary BGte (SFloat64 (f_of_int i)) (SInt64 i) = Ok (SBool True) \<and> eval_binary BEq (SFloat64 (f_of_int i)) (SInt64 i) = Ok (SBool False)"
  "eval_binary BLte (STimestampMicrosUTC t) (SInt64 t) = Ok (SBool True) \<and> eval_binary BGte (STimestampMicrosUTC t) (SInt64 t) = Ok (SBool True) \<and>
     eval_binary BEq (STimestampMicrosUTC t) (SInt64 t) = Ok (SBool False)"
  "n < 0 \<Longrightarrow> eval_binary BLt (SInt64 n) (SUInt64 m) = Err TypeMismatch \<and> eval_binary BEq (SInt64 n) (SUInt64 m) = Ok (SBool False)"
proof -
  note d = eval_binary_def is_null_def cmp_scalars_def scalars_eq_def scalar_as_f64_def is_f64_def cmp_ord_op_def
  show "eval_binary BLte (SFloat64 (f_of_int i)) (SInt64 i) = Ok (SBool True) \<and>
     eval_binary BGte (SFloat64 (f_of_int i)) (SInt64 i) = Ok (SBool True) \<and> eval_binary BEq (SFloat64 (f_of_int i)) (SInt64 i) = Ok (SBool False)"
    if "\<not> is_nan (f_of_int i)"
    using that by (simp add: d partial_cmp_def)
  show "eval_binary BLte (STimestampMicrosUTC t) (SInt64 t) = Ok (SBool True) \<and> eval_binary BGte (STimestampMicrosUTC t) (SInt64 t) = Ok (SBool True) \<and>
     eval_binary BEq (STimestampMicrosUTC t) (SInt64 t) = Ok (SBool False)" by (simp add: d)
  show "eval_binary BLt (SInt64 n) (SUInt64 m) = Err TypeMismatch \<and> eval_binary BEq (SInt64 n) (SUInt64 m) = Ok (SBool False)" if "n < 0"
    using that by (simp add: d)
qed

section \<open>Logic\<close>

text \<open>False, unknown and true as \<open>0\<close>, \<open>1\<close> and \<open>2\<close>.\<close>

fun tri :: "scalar \<Rightarrow> nat option" where
  "tri (SBool b) = Some (if b then 2 else 0)"
| "tri SNull = Some 1"
| "tri _ = None"

definition of_tri :: "nat \<Rightarrow> scalar" where
  "of_tri n = (if n = 0 then SBool False else if n = 1 then SNull else SBool True)"

text \<open>
  AND and OR are the minimum and the maximum of Kleene's three-valued logic.
\<close>

theorem kleene_logic:
  assumes "tri l = Some a" "tri r = Some b"
  shows "eval_binary BAnd l r = Ok (of_tri (min a b)) \<and> eval_binary BOr l r = Ok (of_tri (max a b))"
  using assms
  by (cases l; cases r) (auto simp: eval_binary_def eval_logic_def logic_arg_def of_tri_def split: if_splits)

theorem kleene_logic_witness:
  "eval_binary BAnd SNull (SBool False) = Ok (SBool False) \<and> eval_binary BOr SNull (SBool False) = Ok SNull"
  using kleene_logic [of SNull 1 "SBool False" 0] by (simp add: of_tri_def)

section \<open>Casting\<close>

lemma cast_try: "cast v t True = (case cast v t False of Inl e \<Rightarrow> Ok SNull | Inr w \<Rightarrow> Ok w)"
  by (cases v; cases t) (auto simp: cast_def cast_fail_def is_null_def split: option.splits dynamic_value.splits)

lemma cast_strict:
  "case cast v t False of
     Inl e \<Rightarrow> \<not> is_null v \<and> e = new_error TypeMismatch
   | Inr w \<Rightarrow> if is_null v then w = SNull else scalar_type w = t"
  by (cases v; cases t) (auto simp: cast_def cast_fail_def is_null_def split: option.splits dynamic_value.splits)

text \<open>
  CAST keeps NULL, otherwise returns a value of exactly the target type or a type error;
  TRY_CAST never fails, returns what CAST returns when CAST succeeds and NULL when it fails.
\<close>

theorem cast_total:
  "case cast v t False of
     Inl e \<Rightarrow> e = new_error TypeMismatch \<and> cast v t True = Ok SNull
   | Inr w \<Rightarrow> cast v t True = Ok w \<and> (if is_null v then w = SNull else scalar_type w = t)"
  using cast_strict [of v t] by (simp add: cast_try split: sum.splits)

lemma cast_text_roundtrip:
  "is_i64 x \<Longrightarrow> rbind (cast (SInt64 x) TUtf8 b) (\<lambda>s. cast s TInt64 b) = Ok (SInt64 x)"
  by (simp add: cast_def is_null_def parse_show_int)

end
