(* ===== verification/Collection_Fns.thy ===== *)
theory Collection_Fns
  imports Scalar_Ops "HOL-Library.Sublist"
begin

text \<open>
  The bounded collection and encoding functions of \<^verbatim>\<open>sparrow-expr/src/collection.rs\<close>. What the
  functions take from other crates is a field of the record \<open>host\<close>: base64, SHA-256, the JSON
  codec of \<^verbatim>\<open>sparrow-formats\<close>, RFC 3339 timestamps, the decimal text of a float, and the
  plugin engines; \<open>h_layout\<close> holds the sizes of the Rust types.
\<close>

text \<open>A resolved plugin function: its identity and its declared signature.\<close>

record plugin_fn =
  pf_id :: nat
  pf_inputs :: "data_type list"
  pf_output :: data_type

record host =
  h_layout :: layout
  h_b64_encode :: "bytes \<Rightarrow> string"
  h_b64_decode :: "string \<Rightarrow> bytes option"
  h_sha256 :: "bytes \<Rightarrow> bytes"
  h_show_f64 :: "f64 \<Rightarrow> string"
  h_json_decode :: "string \<Rightarrow> dynamic_value result"
  h_json_encode :: "scalar \<Rightarrow> string result"
  h_parse_rfc3339 :: "string \<Rightarrow> (int \<times> nat \<times> int) option"
  h_format_rfc3339 :: "int \<Rightarrow> (int \<times> string) option"
  h_invoke :: "plugin_fn \<Rightarrow> scalar list \<Rightarrow> scalar result"

section \<open>Substrings\<close>

text \<open>The text before and after the first occurrence of a pattern.\<close>

fun cut :: "string \<Rightarrow> string \<Rightarrow> (string \<times> string) option" where
  "cut pat [] = (if pat = [] then Some ([], []) else None)"
| "cut pat (c # cs) =
     (if prefix pat (c # cs) then Some ([], drop (length pat) (c # cs))
      else map_option (\<lambda>(a, b). (c # a, b)) (cut pat cs))"

lemma cut_Some: "cut pat s = Some (a, b) \<Longrightarrow> s = a @ pat @ b"
  by (induction s arbitrary: a) (auto simp: prefix_def split: if_splits)

text \<open>\<open>str::split\<close> by a non-empty pattern: leftmost, non-overlapping.\<close>

function split_str :: "string \<Rightarrow> string \<Rightarrow> string list" where
  "split_str pat s =
     (if pat = [] then [s]
      else case cut pat s of None \<Rightarrow> [s] | Some (a, b) \<Rightarrow> a # split_str pat b)"
  by pat_completeness auto
termination
  by (relation "measure (\<lambda>(_, s). length s)") (auto dest!: cut_Some)

declare split_str.simps [simp del]

fun intercalate :: "string \<Rightarrow> string list \<Rightarrow> string" where
  "intercalate sep [] = []"
| "intercalate sep [x] = x"
| "intercalate sep (x # y # xs) = x @ sep @ intercalate sep (y # xs)"

lemma split_str_not_Nil [simp]: "split_str pat s \<noteq> []"
  by (subst split_str.simps) (auto split: option.splits)

lemma intercalate_split: "intercalate pat (split_str pat s) = s"
proof (induction pat s rule: split_str.induct)
  case (1 pat s)
  show ?case
  proof (cases "pat = [] \<or> cut pat s = None")
    case True
    then show ?thesis by (subst split_str.simps) auto
  next
    case False
    then obtain a b where ab: "cut pat s = Some (a, b)" and pat: "pat \<noteq> []" by auto
    obtain x xs where x: "split_str pat b = x # xs" by (cases "split_str pat b") auto
    have "intercalate pat (split_str pat b) = b" using "1.IH" [OF pat ab] by simp
    with ab pat x cut_Some [OF ab] show ?thesis by (subst split_str.simps) simp
  qed
qed

section \<open>Signatures\<close>

definition max_bytes :: nat where "max_bytes = 65536"
definition max_items :: nat where "max_items = 1024"

definition collection_names :: "string list" where
  "collection_names =
     [''array_length'', ''array_get'', ''array_contains'', ''array_append'', ''array_slice'', ''array_concat'',
      ''array_join'', ''object_keys'', ''object_values'', ''object_get'', ''object_has_key'', ''object_remove'',
      ''object_set'', ''split'', ''base64_encode'', ''base64_decode'', ''hex_encode'', ''hex_decode'', ''sha256'']"

definition collection_contains :: "string \<Rightarrow> bool" where
  "collection_contains name \<longleftrightarrow> name \<in> set collection_names"

definition array_type :: "data_type \<Rightarrow> bool" where
  "array_type t = (case t of TArray _ \<Rightarrow> True | TDynamic \<Rightarrow> True | TNull \<Rightarrow> True | _ \<Rightarrow> False)"

definition object_type :: "data_type \<Rightarrow> bool" where
  "object_type t = (case t of TMap _ _ \<Rightarrow> True | TStruct _ \<Rightarrow> True | TDynamic \<Rightarrow> True | TNull \<Rightarrow> True | _ \<Rightarrow> False)"

definition text_type :: "data_type \<Rightarrow> bool" where
  "text_type t \<longleftrightarrow> t = TUtf8 \<or> t = TNull"

definition integer_type :: "data_type \<Rightarrow> bool" where
  "integer_type t \<longleftrightarrow> t = TInt64 \<or> t = TNull"

definition collection_rule :: "string \<Rightarrow> data_type list \<Rightarrow> (bool \<times> data_type) result" where
  "collection_rule name t =
     (if name = ''array_length'' then Ok (array_type (t ! 0), TInt64)
      else if name = ''array_get'' then Ok (array_type (t ! 0) \<and> integer_type (t ! 1), TDynamic)
      else if name = ''array_contains'' then Ok (array_type (t ! 0), TBool)
      else if name = ''array_append'' then Ok (array_type (t ! 0), TDynamic)
      else if name = ''array_slice'' then
        Ok (array_type (t ! 0) \<and> integer_type (t ! 1) \<and> integer_type (t ! 2), TDynamic)
      else if name = ''array_concat'' then Ok (array_type (t ! 0) \<and> array_type (t ! 1), TDynamic)
      else if name = ''array_join'' then Ok (array_type (t ! 0) \<and> text_type (t ! 1), TUtf8)
      else if name = ''object_keys'' \<or> name = ''object_values'' then Ok (object_type (t ! 0), TDynamic)
      else if name = ''object_get'' \<or> name = ''object_remove'' \<or> name = ''object_set'' then
        Ok (object_type (t ! 0) \<and> text_type (t ! 1), TDynamic)
      else if name = ''object_has_key'' then Ok (object_type (t ! 0) \<and> text_type (t ! 1), TBool)
      else if name = ''split'' then Ok (text_type (t ! 0) \<and> text_type (t ! 1), TDynamic)
      else if name = ''base64_decode'' \<or> name = ''hex_decode'' then Ok (text_type (t ! 0), TBytes)
      else if name = ''base64_encode'' \<or> name = ''hex_encode'' \<or> name = ''sha256'' then
        Ok (t ! 0 \<in> {TUtf8, TBytes, TNull}, TUtf8)
      else Err InvalidArgument)"

definition collection_signature :: "string \<Rightarrow> data_type list \<Rightarrow> data_type result" where
  "collection_signature name t =
     rbind (check_call_arity name (length t)) (\<lambda>_.
     rbind (collection_rule name t) (\<lambda>(ok, out). if ok then Ok out else Err TypeMismatch))"

section \<open>Arguments and results\<close>

definition arg_array :: "scalar \<Rightarrow> dynamic_value list result" where
  "arg_array v =
     (case v of
        SDynamic (DArray xs) \<Rightarrow> if length xs \<le> max_items then Ok xs else Err BoundExceeded
      | _ \<Rightarrow> Err InvalidArgument)"

definition arg_object :: "scalar \<Rightarrow> (string \<times> dynamic_value) list result" where
  "arg_object v =
     (case v of
        SDynamic (DObject ps) \<Rightarrow> if length ps \<le> max_items then Ok ps else Err BoundExceeded
      | _ \<Rightarrow> Err InvalidArgument)"

definition arg_text :: "scalar \<Rightarrow> string result" where
  "arg_text v = (case v of SUtf8 s \<Rightarrow> Ok s | _ \<Rightarrow> Err InvalidArgument)"

definition arg_bytes :: "scalar \<Rightarrow> bytes result" where
  "arg_bytes v = (case v of SUtf8 s \<Rightarrow> Ok (str_bytes s) | SBytes b \<Rightarrow> Ok b | _ \<Rightarrow> Err InvalidArgument)"

definition arg_index :: "scalar \<Rightarrow> nat result" where
  "arg_index v = (case v of SInt64 n \<Rightarrow> if 0 \<le> n then Ok (nat n) else Err InvalidArgument | _ \<Rightarrow> Err InvalidArgument)"

definition item_value :: "dynamic_value option \<Rightarrow> scalar" where
  "item_value v = (case v of None \<Rightarrow> SNull | Some d \<Rightarrow> if d = DNull then SNull else SDynamic d)"

definition collection_result :: "layout \<Rightarrow> dynamic_value \<Rightarrow> scalar result" where
  "collection_result L d = (if resident_bytes L (SDynamic d) > max_bytes then Err BoundExceeded else Ok (SDynamic d))"

definition make_array :: "layout \<Rightarrow> dynamic_value list \<Rightarrow> scalar result" where
  "make_array L xs = (if length xs > max_items then Err BoundExceeded else collection_result L (DArray xs))"

definition bounded_text :: "string \<Rightarrow> scalar result" where
  "bounded_text s = (if length s > max_bytes then Err BoundExceeded else Ok (SUtf8 s))"

section \<open>The functions\<close>

definition hex_digit :: "nat \<Rightarrow> char" where
  "hex_digit n = char_of (if n < 10 then 48 + n else 87 + n)"

definition hex :: "bytes \<Rightarrow> string" where
  "hex bs = concat (map (\<lambda>b. [hex_digit (unat b div 16), hex_digit (unat b mod 16)]) bs)"

definition nibble :: "char \<Rightarrow> nat result" where
  "nibble c =
     (let n = (of_char c :: nat)
      in if 48 \<le> n \<and> n \<le> 57 then Ok (n - 48)
         else if 97 \<le> n \<and> n \<le> 102 then Ok (n - 97 + 10)
         else if 65 \<le> n \<and> n \<le> 70 then Ok (n - 65 + 10)
         else Err InvalidArgument)"

fun unhex :: "string \<Rightarrow> bytes result" where
  "unhex (a # b # cs) =
     rbind (nibble a) (\<lambda>h. rbind (nibble b) (\<lambda>l. rbind (unhex cs) (\<lambda>bs. Ok (word_of_nat (h * 16 + l) # bs))))"
| "unhex _ = Ok []"

fun join_loop :: "string \<Rightarrow> bool \<Rightarrow> string \<Rightarrow> dynamic_value list \<Rightarrow> scalar result" where
  "join_loop sep first acc [] = bounded_text acc"
| "join_loop sep first acc (v # vs) =
     (case v of
        DNull \<Rightarrow> Ok SNull
      | DUtf8 t \<Rightarrow>
          let extra = sat_u64 (length t + (if first then 0 else length sep))
          in if sat_u64 (length acc + extra) > max_bytes then Err BoundExceeded
             else join_loop sep False (acc @ (if first then [] else sep) @ t) vs
      | _ \<Rightarrow> Err InvalidArgument)"

fun split_loop :: "nat \<Rightarrow> nat \<Rightarrow> string list \<Rightarrow> string list result" where
  "split_loop n resident [] = Ok []"
| "split_loop n resident (p # ps) =
     (let r = sat_u64 (resident + (length p + 96))
      in if n \<ge> max_items \<or> r > max_bytes then Err BoundExceeded
         else rbind (split_loop (Suc n) r ps) (\<lambda>qs. Ok (p # qs)))"

definition arg_null :: "scalar \<Rightarrow> bool" where
  "arg_null v \<longleftrightarrow> v = SNull \<or> v = SDynamic DNull"

definition collection_size :: "layout \<Rightarrow> scalar \<Rightarrow> nat" where
  "collection_size L v = (case v of SUtf8 s \<Rightarrow> length s | SBytes b \<Rightarrow> length b | _ \<Rightarrow> resident_bytes L v)"

definition object_update :: "string \<Rightarrow> dynamic_value \<Rightarrow> (string \<times> dynamic_value) list \<Rightarrow>
    (string \<times> dynamic_value) list result" where
  "object_update key v ps =
     (case position (\<lambda>(k, _). k = key) ps of
        Some i \<Rightarrow> Ok (ps[i := (fst (ps ! i), v)])
      | None \<Rightarrow> if length ps = max_items then Err BoundExceeded else Ok (ps @ [(key, v)]))"

definition object_without :: "string \<Rightarrow> (string \<times> dynamic_value) list \<Rightarrow> (string \<times> dynamic_value) list" where
  "object_without key ps =
     (case position (\<lambda>(k, _). k = key) ps of Some i \<Rightarrow> take i ps @ drop (Suc i) ps | None \<Rightarrow> ps)"

definition eval_array_fn :: "layout \<Rightarrow> string \<Rightarrow> scalar list \<Rightarrow> scalar result" where
  "eval_array_fn L name args =
     (if name = ''array_length'' then rbind (arg_array (args ! 0)) (\<lambda>a. Ok (SInt64 (int (length a))))
      else if name = ''array_get'' then
        rbind (arg_array (args ! 0)) (\<lambda>a. rbind (arg_index (args ! 1)) (\<lambda>i.
          Ok (item_value (if i < length a then Some (a ! i) else None))))
      else if name = ''array_contains'' then
        rbind (arg_array (args ! 0)) (\<lambda>a. Ok (SBool (list_ex (\<lambda>x. dyn_peq x (dynamic_from_scalar (args ! 1))) a)))
      else if name = ''array_append'' then
        rbind (arg_array (args ! 0)) (\<lambda>a.
          if length a = max_items then Err BoundExceeded else make_array L (a @ [dynamic_from_scalar (args ! 1)]))
      else if name = ''array_slice'' then
        rbind (arg_array (args ! 0)) (\<lambda>a. rbind (arg_index (args ! 1)) (\<lambda>i. rbind (arg_index (args ! 2)) (\<lambda>n.
          let start = min i (length a); stop = min (sat_u64 (start + n)) (length a)
          in make_array L (take (stop - start) (drop start a)))))
      else if name = ''array_concat'' then
        rbind (arg_array (args ! 0)) (\<lambda>a. rbind (arg_array (args ! 1)) (\<lambda>b.
          if length a + length b > max_items then Err BoundExceeded else make_array L (a @ b)))
      else
        rbind (arg_array (args ! 0)) (\<lambda>a. rbind (arg_text (args ! 1)) (\<lambda>sep. join_loop sep True [] a)))"

definition eval_object_fn :: "layout \<Rightarrow> string \<Rightarrow> scalar list \<Rightarrow> scalar result" where
  "eval_object_fn L name args =
     (if name = ''object_keys'' then
        rbind (arg_object (args ! 0)) (\<lambda>ps. make_array L (map (\<lambda>(k, _). DUtf8 k) ps))
      else if name = ''object_values'' then
        rbind (arg_object (args ! 0)) (\<lambda>ps. make_array L (map snd ps))
      else if name = ''object_get'' then
        rbind (arg_text (args ! 1)) (\<lambda>key. rbind (arg_object (args ! 0)) (\<lambda>ps.
          Ok (item_value (map_option snd (List.find (\<lambda>(k, _). k = key) ps)))))
      else if name = ''object_has_key'' then
        rbind (arg_text (args ! 1)) (\<lambda>key. rbind (arg_object (args ! 0)) (\<lambda>ps.
          Ok (SBool (list_ex (\<lambda>(k, _). k = key) ps))))
      else
        rbind (arg_text (args ! 1)) (\<lambda>key. rbind (arg_object (args ! 0)) (\<lambda>ps.
          if name = ''object_remove'' then collection_result L (DObject (object_without key ps))
          else rbind (object_update key (dynamic_from_scalar (args ! 2)) ps) (\<lambda>qs. collection_result L (DObject qs)))))"

definition eval_text_fn :: "host \<Rightarrow> string \<Rightarrow> scalar list \<Rightarrow> scalar result" where
  "eval_text_fn H name args =
     (if name = ''split'' then
        rbind (arg_text (args ! 1)) (\<lambda>sep.
          if sep = [] then Err InvalidArgument
          else rbind (arg_text (args ! 0)) (\<lambda>s.
            rbind (split_loop 0 128 (split_str sep s)) (\<lambda>ps. make_array (h_layout H) (map DUtf8 ps))))
      else if name = ''base64_encode'' then
        rbind (arg_bytes (args ! 0)) (\<lambda>b.
          if ((length b + 2) div 3) * 4 > max_bytes then Err BoundExceeded else bounded_text (h_b64_encode H b))
      else if name = ''base64_decode'' then
        rbind (arg_text (args ! 0)) (\<lambda>s. rbind (ok_or InvalidArgument (h_b64_decode H s)) (\<lambda>b. Ok (SBytes b)))
      else if name = ''hex_encode'' then
        rbind (arg_bytes (args ! 0)) (\<lambda>b.
          if length b > max_bytes div 2 then Err BoundExceeded else bounded_text (hex b))
      else if name = ''hex_decode'' then
        rbind (arg_text (args ! 0)) (\<lambda>s.
          if odd (length s) then Err InvalidArgument else rbind (unhex s) (\<lambda>b. Ok (SBytes b)))
      else if name = ''sha256'' then rbind (arg_bytes (args ! 0)) (\<lambda>b. bounded_text (hex (h_sha256 H b)))
      else Err InvalidArgument)"

definition null_prefix :: "string \<Rightarrow> nat \<Rightarrow> nat" where
  "null_prefix name argc = (if name = ''array_append'' then 1 else if name = ''object_set'' then 2 else argc)"

definition array_names :: "string set" where
  "array_names = {''array_length'', ''array_get'', ''array_contains'', ''array_append'', ''array_slice'',
     ''array_concat'', ''array_join''}"

definition object_names :: "string set" where
  "object_names = {''object_keys'', ''object_values'', ''object_get'', ''object_has_key'', ''object_remove'', ''object_set''}"

definition collection_eval :: "host \<Rightarrow> string \<Rightarrow> scalar list \<Rightarrow> scalar result" where
  "collection_eval H name args =
     rbind (check_call_arity name (length args)) (\<lambda>_.
       if list_ex (\<lambda>a. collection_size (h_layout H) a > max_bytes) args then Err BoundExceeded
       else rbind (collection_signature name (map scalar_type args)) (\<lambda>_.
         if list_ex arg_null (take (null_prefix name (length args)) args) then Ok SNull
         else if name \<in> array_names then eval_array_fn (h_layout H) name args
         else if name \<in> object_names then eval_object_fn (h_layout H) name args
         else eval_text_fn H name args))"

section \<open>Calls that reach their function\<close>

lemma arity_facts:
  "check_call_arity ''hex_encode'' (Suc 0) = Ok ()" "check_call_arity ''hex_decode'' (Suc 0) = Ok ()"
  "check_call_arity ''split'' (Suc (Suc 0)) = Ok ()" "check_call_arity ''array_join'' (Suc (Suc 0)) = Ok ()"
  "check_call_arity ''object_set'' (Suc (Suc (Suc 0))) = Ok ()" "check_call_arity ''object_get'' (Suc (Suc 0)) = Ok ()"
  by code_simp+

lemmas call_defs = collection_eval_def collection_signature_def collection_rule_def null_prefix_def
  array_names_def object_names_def arg_null_def collection_size_def arg_text_def arg_bytes_def

text \<open>A host for concrete runs.\<close>

definition demo_host :: host where
  "demo_host = \<lparr>h_layout = \<lparr>size_of_scalar = 24, size_of_dynamic = 24, size_of_pair = 40\<rparr>,
     h_b64_encode = (\<lambda>_. []), h_b64_decode = (\<lambda>_. None), h_sha256 = (\<lambda>_. []), h_show_f64 = (\<lambda>_. []),
     h_json_decode = (\<lambda>_. Err CodecViolation), h_json_encode = (\<lambda>_. Err CodecViolation),
     h_parse_rfc3339 = (\<lambda>_. None), h_format_rfc3339 = (\<lambda>_. None), h_invoke = (\<lambda>_ _. Ok SNull)\<rparr>"

section \<open>Hexadecimal\<close>

lemma nibble_hex_digit [simp]: "n < 16 \<Longrightarrow> nibble (hex_digit n) = Ok n"
  by (auto simp: nibble_def hex_digit_def Let_def)

lemma unhex_hex: "unhex (hex bs) = Ok bs"
proof (induction bs)
  case (Cons b bs)
  have lt: "unat b < 256" using unsigned_less [of b] by simp
  have "unat b div 16 < 16" "unat b mod 16 < 16" using lt by simp_all
  moreover have "word_of_nat (unat b div 16 * 16 + unat b mod 16) = b" by (simp only: div_mult_mod_eq unsigned_of_nat word_unat_eq_iff of_nat_unat ucast_id)
  then have "word_of_nat (unat b div 16) * 16 + word_of_nat (unat b mod 16) = b"
    by (simp only: of_nat_add of_nat_mult of_nat_numeral)
  ultimately show ?case using Cons by (simp add: hex_def)
qed (simp add: hex_def)

lemma length_hex [simp]: "length (hex bs) = 2 * length bs"
  by (induction bs) (simp_all add: hex_def)

text \<open>
  Decoding the hexadecimal text of a byte string of up to 32 KiB gives the byte string back,
  and encoding never exceeds the output bound.
\<close>

theorem hex_roundtrip:
  assumes "2 * length b \<le> max_bytes"
  shows "collection_eval H ''hex_encode'' [SBytes b] = Ok (SUtf8 (hex b)) \<and>
    collection_eval H ''hex_decode'' [SUtf8 (hex b)] = Ok (SBytes b)"
  using assms
  by (simp add: call_defs arity_facts text_type_def eval_text_fn_def bounded_text_def unhex_hex)

theorem hex_roundtrip_witness:
  "collection_eval demo_host ''hex_encode'' [SBytes [0, 255]] = Ok (SUtf8 ''00ff'') \<and>
   collection_eval demo_host ''hex_decode'' [SUtf8 ''00ff''] = Ok (SBytes [0, 255])"
proof -
  have "hex [0, 255] = ''00ff''" by code_simp
  then show ?thesis using hex_roundtrip [of "[0, 255]" demo_host] by (simp add: max_bytes_def)
qed

section \<open>Splitting and joining\<close>

fun joined :: "string \<Rightarrow> bool \<Rightarrow> string list \<Rightarrow> string" where
  "joined sep first [] = []"
| "joined sep first (p # ps) = (if first then [] else sep) @ p @ joined sep False ps"

lemma intercalate_Cons: "intercalate sep (p # ps) = p @ joined sep False ps"
  by (induction ps arbitrary: p) auto

lemma joined_intercalate: "joined sep True ps = intercalate sep ps"
  by (cases ps) (simp_all add: intercalate_Cons)

lemma join_loop_joined:
  "length acc + length (joined sep first ps) \<le> max_bytes \<Longrightarrow>
     join_loop sep first acc (map DUtf8 ps) = Ok (SUtf8 (acc @ joined sep first ps))"
  by (induction ps arbitrary: first acc) (auto simp: bounded_text_def Let_def sat_u64_def max_bytes_def)

lemma split_loop_Ok: "split_loop n r ps = Ok qs \<Longrightarrow> qs = ps \<and> n + length ps \<le> max n max_items"
  by (induction ps arbitrary: n r qs) (fastforce simp: Let_def rbind_Inr_iff split: if_splits)+

text \<open>
  Joining the parts of a split text with the same separator gives the text back, and never
  fails: whatever the split accepted is within the bounds of the join.
\<close>

theorem split_join:
  assumes "collection_eval H ''split'' [SUtf8 s, SUtf8 sep] = Ok v"
  shows "collection_eval H ''array_join'' [v, SUtf8 sep] = Ok (SUtf8 s)"
proof -
  have sep: "sep \<noteq> []" and len: "length s \<le> max_bytes" "length sep \<le> max_bytes"
    and run: "rbind (split_loop 0 128 (split_str sep s)) (\<lambda>ps. make_array (h_layout H) (map DUtf8 ps)) = Ok v"
    using assms by (auto simp: call_defs arity_facts text_type_def eval_text_fn_def rbind_Inr_iff split: if_splits)
  then obtain ps where ps: "split_loop 0 128 (split_str sep s) = Ok ps" "make_array (h_layout H) (map DUtf8 ps) = Ok v"
    by (auto simp: rbind_Inr_iff)
  have eq: "ps = split_str sep s" using split_loop_Ok [OF ps(1)] by simp
  have v: "v = SDynamic (DArray (map DUtf8 ps))" "length ps \<le> max_items" "resident_bytes (h_layout H) v \<le> max_bytes"
    using ps(2) by (auto simp: make_array_def collection_result_def split: if_splits)
  have "joined sep True ps = s" by (simp add: joined_intercalate eq intercalate_split)
  then have "join_loop sep True [] (map DUtf8 ps) = Ok (SUtf8 s)"
    using join_loop_joined [of "[]" sep True ps] len by simp
  then show ?thesis
    using v len by (simp add: call_defs arity_facts array_type_def text_type_def eval_array_fn_def arg_array_def)
qed

theorem split_join_witness:
  "collection_eval demo_host ''array_join'' [SDynamic (DArray [DUtf8 ''a'', DUtf8 []]), SUtf8 '',''] = Ok (SUtf8 ''a,'')"
proof (rule split_join)
  show "collection_eval demo_host ''split'' [SUtf8 ''a,'', SUtf8 '',''] = Ok (SDynamic (DArray [DUtf8 ''a'', DUtf8 []]))"
    by (simp add: call_defs arity_facts text_type_def eval_text_fn_def split_str.simps [of "'',''"] demo_host_def max_bytes_def
        max_items_def make_array_def collection_result_def resident_bytes_def resident_heap_bytes_def sat_u64_def)
qed

section \<open>Objects\<close>

lemma find_update:
  assumes "object_update key v ps = Ok qs"
  shows "map_option snd (List.find (\<lambda>(k, _). k = key') qs) =
    (if key' = key then Some v else map_option snd (List.find (\<lambda>(k, _). k = key') ps))"
proof (cases "position (\<lambda>(k, _). k = key) ps")
  case None
  then have "List.find (\<lambda>(k, _). k = key) ps = None" by (simp add: find_position)
  moreover have "List.find P (xs @ [x]) = (case List.find P xs of None \<Rightarrow> if P x then Some x else None | r \<Rightarrow> r)"
    for P xs and x :: "string \<times> dynamic_value" by (induction xs) auto
  ultimately show ?thesis using None assms by (auto simp: object_update_def split: if_splits option.splits)
next
  case (Some i)
  then have i: "i < length ps" "fst (ps ! i) = key" "\<forall>j < i. fst (ps ! j) \<noteq> key"
    by (auto simp: position_Some_iff split_beta)
  have qs: "qs = ps[i := (key, v)]" using assms Some i(2) by (simp add: object_update_def)
  show ?thesis
    unfolding qs using i
  proof (induction ps arbitrary: i)
    case (Cons p ps)
    show ?case
    proof (cases i)
      case 0
      then show ?thesis using Cons.prems by (cases p) auto
    next
      case (Suc j)
      have "fst p \<noteq> key" using Cons.prems(3) Suc by auto
      moreover have "\<forall>n < j. fst (ps ! n) \<noteq> key" using Cons.prems(3) Suc by auto
      ultimately show ?thesis using Cons.IH [of j] Cons.prems Suc by (cases p) auto
    qed
  qed simp
qed

lemma object_get_eval:
  assumes "length ps \<le> max_items" "resident_bytes (h_layout H) (SDynamic (DObject ps)) \<le> max_bytes" "length key \<le> max_bytes"
  shows "collection_eval H ''object_get'' [SDynamic (DObject ps), SUtf8 key] =
    Ok (item_value (map_option snd (List.find (\<lambda>(k, _). k = key) ps)))"
  using assms by (simp add: call_defs arity_facts object_type_def text_type_def eval_object_fn_def arg_object_def)

text \<open>
  After \<open>object_set\<close> succeeds, \<open>object_get\<close> succeeds on the result for every key: the new
  value (NULL for a null value) under the key that was set, and what the old object held under
  every other key.
\<close>

theorem object_set_get:
  assumes set: "collection_eval H ''object_set'' [SDynamic (DObject ps), SUtf8 key, x] = Ok w"
    and items: "length ps < max_items" and key': "length key' \<le> max_bytes"
  shows "collection_eval H ''object_get'' [w, SUtf8 key'] =
    Ok (item_value (if key' = key then Some (dynamic_from_scalar x) else map_option snd (List.find (\<lambda>(k, _). k = key') ps)))"
proof -
  have "rbind (object_update key (dynamic_from_scalar x) ps) (\<lambda>qs. collection_result (h_layout H) (DObject qs)) = Ok w"
    using set items
    by (auto simp: call_defs arity_facts object_type_def text_type_def eval_object_fn_def arg_object_def split: if_splits)
  then obtain qs where qs: "object_update key (dynamic_from_scalar x) ps = Ok qs" and
    w: "w = SDynamic (DObject qs)" "resident_bytes (h_layout H) w \<le> max_bytes"
    by (auto simp: rbind_Inr_iff collection_result_def split: if_splits)
  have "length qs \<le> max_items" using qs items by (auto simp: object_update_def split: option.splits if_splits)
  then show ?thesis using object_get_eval [of qs H key'] w key' find_update [OF qs, of key'] by simp
qed

theorem object_set_get_witness:
  "collection_eval demo_host ''object_get'' [SDynamic (DObject [(''b'', DInt64 1), (''a'', DBool True)]), SUtf8 ''b''] =
     Ok (SDynamic (DInt64 1))"
proof -
  have "collection_eval demo_host ''object_set'' [SDynamic (DObject [(''b'', DInt64 1)]), SUtf8 ''a'', SBool True]
      = Ok (SDynamic (DObject [(''b'', DInt64 1), (''a'', DBool True)]))"
    by (simp add: call_defs arity_facts text_type_def object_type_def eval_object_fn_def arg_object_def object_update_def
        demo_host_def max_bytes_def max_items_def dynamic_from_scalar_def collection_result_def resident_bytes_def
        resident_heap_bytes_def sat_u64_def)
  from object_set_get [OF this, of "''b''"] show ?thesis by (simp add: max_items_def max_bytes_def item_value_def)
qed

end
