(* ===== verification/Builtin_Fns.thy ===== *)
theory Builtin_Fns
  imports Collection_Fns
begin

text \<open>
  The additive builtins of \<^verbatim>\<open>sparrow-expr/src/builtin.rs\<close>: text, rounding, strict conversions,
  JSON access and timestamps, with their signatures. Text is the UTF-8 byte string; functions
  that count characters work on its \<open>chars\<close>.
\<close>

section \<open>Characters\<close>

definition utf8_width :: "char \<Rightarrow> nat" where
  "utf8_width c =
     (let n = (of_char c :: nat) in if n < 128 then 1 else if n < 224 then 2 else if n < 240 then 3 else 4)"

lemma utf8_width_pos [simp]: "0 < utf8_width c"
  by (simp add: utf8_width_def Let_def)

function chars :: "string \<Rightarrow> string list" where
  "chars [] = []"
| "chars (c # cs) = take (utf8_width c) (c # cs) # chars (drop (utf8_width c) (c # cs))"
  by pat_completeness auto
termination
  by (relation "measure length") (simp_all add: diff_less del: diff_less_Suc less_Suc_eq_le)

declare chars.simps(2) [simp del]

lemma concat_chars [simp]: "concat (chars s) = s"
  by (induction s rule: chars.induct) (simp_all add: chars.simps(2))

text \<open>\<open>char::is_whitespace\<close> on the encoded character.\<close>

definition is_whitespace :: "string \<Rightarrow> bool" where
  "is_whitespace ch =
     (case map (of_char :: char \<Rightarrow> nat) ch of
        [a] \<Rightarrow> 9 \<le> a \<and> a \<le> 13 \<or> a = 32
      | [a, b] \<Rightarrow> a = 194 \<and> (b = 133 \<or> b = 160)
      | [a, b, c] \<Rightarrow>
          a = 225 \<and> b = 154 \<and> c = 128 \<or>
          a = 226 \<and> b = 128 \<and> (128 \<le> c \<and> c \<le> 138 \<or> c = 168 \<or> c = 169 \<or> c = 175) \<or>
          a = 226 \<and> b = 129 \<and> c = 159 \<or>
          a = 227 \<and> b = 128 \<and> c = 128
      | _ \<Rightarrow> False)"

definition trim :: "string \<Rightarrow> string" where
  "trim s = concat (rev (dropWhile is_whitespace (rev (dropWhile is_whitespace (chars s)))))"

section \<open>Signatures\<close>

definition builtin_names :: "string list" where
  "builtin_names =
     [''concat'', ''substring'', ''replace'', ''contains'', ''starts_with'', ''ends_with'', ''trim'', ''round'',
      ''floor'', ''ceil'', ''to_int64'', ''to_float64'', ''to_string'', ''json_get'', ''json_object'',
      ''json_stringify'', ''parse_timestamp'', ''format_timestamp'']"

definition builtin_contains :: "string \<Rightarrow> bool" where
  "builtin_contains name \<longleftrightarrow> collection_contains name \<or> name \<in> set builtin_names"

definition numeric_arg :: "data_type \<Rightarrow> bool" where
  "numeric_arg t \<longleftrightarrow> t \<in> {TInt64, TUInt64, TFloat64, TNull}"

fun evens :: "'a list \<Rightarrow> 'a list" where
  "evens (x # y # zs) = x # evens zs"
| "evens [x] = [x]"
| "evens [] = []"

definition builtin_rule :: "string \<Rightarrow> data_type list \<Rightarrow> (bool \<times> data_type) result" where
  "builtin_rule name t =
     (if name = ''concat'' \<or> name = ''replace'' then Ok (list_all text_type t, TUtf8)
      else if name = ''substring'' then Ok (text_type (t ! 0) \<and> list_all integer_type (tl t), TUtf8)
      else if name = ''contains'' \<or> name = ''starts_with'' \<or> name = ''ends_with'' then Ok (list_all text_type t, TBool)
      else if name = ''trim'' then Ok (text_type (t ! 0), TUtf8)
      else if name = ''round'' \<or> name = ''floor'' \<or> name = ''ceil'' then
        Ok (numeric_arg (t ! 0), if t ! 0 = TNull then TFloat64 else t ! 0)
      else if name = ''to_int64'' \<or> name = ''to_float64'' then
        Ok (numeric_arg (t ! 0) \<or> t ! 0 \<in> {TUtf8, TDynamic, TTimestampMicrosUTC},
            if name = ''to_int64'' then TInt64 else TFloat64)
      else if name = ''to_string'' then
        Ok (numeric_arg (t ! 0) \<or> t ! 0 \<in> {TUtf8, TBool, TTimestampMicrosUTC, TDynamic}, TUtf8)
      else if name = ''json_get'' then Ok (list_all text_type t, TDynamic)
      else if name = ''json_object'' then Ok (even (length t) \<and> list_all text_type (evens t), TDynamic)
      else if name = ''json_stringify'' then Ok (True, TUtf8)
      else if name = ''parse_timestamp'' then Ok (text_type (t ! 0), TTimestampMicrosUTC)
      else if name = ''format_timestamp'' then Ok (t ! 0 \<in> {TInt64, TTimestampMicrosUTC, TNull}, TUtf8)
      else Err InvalidArgument)"

definition builtin_signature :: "string \<Rightarrow> data_type list \<Rightarrow> data_type result" where
  "builtin_signature name t =
     (if collection_contains name then collection_signature name t
      else rbind (check_call_arity name (length t)) (\<lambda>_.
        rbind (builtin_rule name t) (\<lambda>(ok, out). if ok then Ok out else Err TypeMismatch)))"

section \<open>The functions\<close>

definition bi_text :: "scalar \<Rightarrow> string result" where
  "bi_text v = (case v of SUtf8 s \<Rightarrow> Ok s | _ \<Rightarrow> Err TypeMismatch)"

definition bi_integer :: "scalar \<Rightarrow> int result" where
  "bi_integer v = (case v of SInt64 n \<Rightarrow> Ok n | _ \<Rightarrow> Err TypeMismatch)"

definition unwrap_scalar :: "scalar \<Rightarrow> scalar" where
  "unwrap_scalar v =
     (case v of
        SDynamic DNull \<Rightarrow> SNull
      | SDynamic (DBool b) \<Rightarrow> SBool b
      | SDynamic (DInt64 x) \<Rightarrow> SInt64 x
      | SDynamic (DUInt64 x) \<Rightarrow> SUInt64 x
      | SDynamic (DFloat64 x) \<Rightarrow> SFloat64 x
      | SDynamic (DUtf8 s) \<Rightarrow> SUtf8 s
      | _ \<Rightarrow> v)"

fun concat_loop :: "nat \<Rightarrow> scalar list \<Rightarrow> string result" where
  "concat_loop n [] = Ok []"
| "concat_loop n (a # as) =
     rbind (bi_text a) (\<lambda>s.
       if n + length s > max_bytes then Err BoundExceeded
       else rbind (concat_loop (n + length s) as) (\<lambda>r. Ok (s @ r)))"

definition fn_concat :: "scalar list \<Rightarrow> scalar result" where
  "fn_concat args = rbind (concat_loop 0 args) bounded_text"

definition fn_substring :: "scalar list \<Rightarrow> scalar result" where
  "fn_substring args =
     rbind (bi_text (args ! 0)) (\<lambda>s. rbind (bi_integer (args ! 1)) (\<lambda>start. rbind (bi_integer (args ! 2)) (\<lambda>len.
       if start < 1 \<or> len < 0 then Err InvalidArgument
       else bounded_text (concat (take (nat (min len (int max_bytes)))
              (drop (nat (min (start - 1) (int max_bytes))) (chars s)))))))"

definition fn_replace :: "scalar list \<Rightarrow> scalar result" where
  "fn_replace args =
     rbind (bi_text (args ! 0)) (\<lambda>s. rbind (bi_text (args ! 1)) (\<lambda>pat. rbind (bi_text (args ! 2)) (\<lambda>to.
       if pat = [] then Err InvalidArgument
       else let count = length (split_str pat s) - 1
            in if (length s - count * length pat) + count * length to > max_bytes then Err BoundExceeded
               else bounded_text (intercalate to (split_str pat s)))))"

definition fn_search :: "string \<Rightarrow> scalar list \<Rightarrow> scalar result" where
  "fn_search name args =
     rbind (bi_text (args ! 0)) (\<lambda>s. rbind (bi_text (args ! 1)) (\<lambda>needle.
       Ok (SBool (if name = ''contains'' then cut needle s \<noteq> None
                  else if name = ''starts_with'' then prefix needle s
                  else suffix needle s))))"

text \<open>Rounding a finite float to an integral float keeps its sign, also at zero.\<close>

definition f_integral :: "bool \<Rightarrow> nat \<Rightarrow> f64" where
  "f_integral neg n = mk_f64 neg (round_bits (n * unit_inv) 1)"

definition f_round :: "f64 \<Rightarrow> f64" where
  "f_round x = f_integral (f_sign x) ((2 * f_mag x + unit_inv) div (2 * unit_inv))"

definition f_floor :: "f64 \<Rightarrow> f64" where
  "f_floor x = f_integral (f_sign x)
     (if f_sign x then (f_mag x + unit_inv - 1) div unit_inv else f_mag x div unit_inv)"

definition f_ceil :: "f64 \<Rightarrow> f64" where
  "f_ceil x = f_integral (f_sign x)
     (if f_sign x then f_mag x div unit_inv else (f_mag x + unit_inv - 1) div unit_inv)"

definition fn_round :: "string \<Rightarrow> scalar list \<Rightarrow> scalar result" where
  "fn_round name args =
     (case args ! 0 of
        SFloat64 v \<Rightarrow>
          if is_finite v then
            Ok (SFloat64 (if name = ''round'' then f_round v else if name = ''floor'' then f_floor v else f_ceil v))
          else Err InvalidArgument
      | other \<Rightarrow> Ok other)"

definition fn_to_int64 :: "scalar list \<Rightarrow> scalar result" where
  "fn_to_int64 args =
     (case unwrap_scalar (args ! 0) of
        SNull \<Rightarrow> Ok SNull
      | SInt64 v \<Rightarrow> Ok (SInt64 v)
      | STimestampMicrosUTC v \<Rightarrow> Ok (SInt64 v)
      | SUInt64 v \<Rightarrow> if int v \<le> i64_max then Ok (SInt64 (int v)) else Err InvalidArgument
      | SFloat64 v \<Rightarrow>
          if is_finite v \<and> f_le (f_of_int i64_min) v \<and> f_lt v (f_of_int 9223372036854775808)
          then Ok (SInt64 (f_to_i64 v)) else Err TypeMismatch
      | SUtf8 s \<Rightarrow> (case parse_i64 s of Some v \<Rightarrow> Ok (SInt64 v) | None \<Rightarrow> Err InvalidArgument)
      | _ \<Rightarrow> Err TypeMismatch)"

definition finite_float :: "f64 \<Rightarrow> scalar result" where
  "finite_float n = (if is_finite n then Ok (SFloat64 n) else Err InvalidArgument)"

definition fn_to_float64 :: "scalar list \<Rightarrow> scalar result" where
  "fn_to_float64 args =
     (case unwrap_scalar (args ! 0) of
        SNull \<Rightarrow> Ok SNull
      | SInt64 v \<Rightarrow> finite_float (f_of_int v)
      | STimestampMicrosUTC v \<Rightarrow> finite_float (f_of_int v)
      | SUInt64 v \<Rightarrow> finite_float (f_of_int (int v))
      | SFloat64 v \<Rightarrow> finite_float v
      | SUtf8 s \<Rightarrow> (case parse_f64 s of Some v \<Rightarrow> finite_float v | None \<Rightarrow> Err InvalidArgument)
      | _ \<Rightarrow> Err TypeMismatch)"

definition fn_to_string :: "host \<Rightarrow> scalar list \<Rightarrow> scalar result" where
  "fn_to_string H args =
     (case unwrap_scalar (args ! 0) of
        SNull \<Rightarrow> Ok SNull
      | SUtf8 s \<Rightarrow> Ok (SUtf8 s)
      | SBool b \<Rightarrow> bounded_text (if b then ''true'' else ''false'')
      | SInt64 v \<Rightarrow> bounded_text (show_int v)
      | STimestampMicrosUTC v \<Rightarrow> bounded_text (show_int v)
      | SUInt64 v \<Rightarrow> bounded_text (show_nat v)
      | SFloat64 v \<Rightarrow> if is_finite v then bounded_text (h_show_f64 H v) else Err TypeMismatch
      | _ \<Rightarrow> Err TypeMismatch)"

fun unescape :: "string \<Rightarrow> string result" where
  "unescape [] = Ok []"
| "unescape (c # cs) =
     (if c = CHR ''~''
      then case cs of
          d # ds \<Rightarrow>
            if d = CHR ''0'' then rbind (unescape ds) (\<lambda>k. Ok (CHR ''~'' # k))
            else if d = CHR ''1'' then rbind (unescape ds) (\<lambda>k. Ok (CHR ''/'' # k))
            else Err InvalidArgument
        | [] \<Rightarrow> Err InvalidArgument
      else rbind (unescape cs) (\<lambda>k. Ok (c # k)))"

fun pointer_walk :: "dynamic_value \<Rightarrow> string list \<Rightarrow> dynamic_value option result" where
  "pointer_walk d [] = Ok (Some d)"
| "pointer_walk d (key # keys) =
     (case d of
        DObject _ \<Rightarrow> (case dyn_get d key of Some v \<Rightarrow> pointer_walk v keys | None \<Rightarrow> Ok None)
      | DArray items \<Rightarrow>
          if key = [] \<or> \<not> list_all is_digit key \<or> (length key > 1 \<and> hd key = CHR ''0'') then Err InvalidArgument
          else (case parse_u64 key of
              Some i \<Rightarrow> if i < length items then pointer_walk (items ! i) keys else Ok None
            | None \<Rightarrow> Ok None)
      | _ \<Rightarrow> Ok None)"

definition json_get :: "host \<Rightarrow> string \<Rightarrow> string \<Rightarrow> scalar result" where
  "json_get H s pointer =
     (if length pointer > 1024 \<or> (pointer \<noteq> [] \<and> hd pointer \<noteq> CHR ''/'') then Err InvalidArgument
      else rbind (if pointer = [] then Ok [] else map_result unescape (split_str ''/'' (tl pointer))) (\<lambda>keys.
        rbind (h_json_decode H s) (\<lambda>root.
        rbind (pointer_walk root keys) (\<lambda>v.
          case v of
            None \<Rightarrow> Ok SNull
          | Some d \<Rightarrow>
              if d = DNull then Ok SNull
              else if resident_bytes (h_layout H) (SDynamic d) > max_bytes then Err BoundExceeded
              else Ok (SDynamic d)))))"

fun object_pairs :: "layout \<Rightarrow> nat \<Rightarrow> scalar list \<Rightarrow> (string \<times> dynamic_value) list result" where
  "object_pairs L n (k # v # rest) =
     rbind (bi_text k) (\<lambda>key.
       let n' = sat_u64 (n + (length key + resident_bytes L v + 128))
       in if n' > max_bytes then Err BoundExceeded
          else rbind (object_pairs L n' rest) (\<lambda>ps. Ok ((key, dynamic_from_scalar v) # ps)))"
| "object_pairs L n _ = Ok []"

definition fn_json_object :: "layout \<Rightarrow> scalar list \<Rightarrow> scalar result" where
  "fn_json_object L args =
     (if list_ex is_null (evens args) then Ok SNull
      else rbind (object_pairs L 0 args) (\<lambda>ps.
        case try_object ps of Inl (e, _) \<Rightarrow> Inl e | Inr d \<Rightarrow> Ok (SDynamic d)))"

text \<open>The part after the first dot, as \<open>split_once\<close> gives it.\<close>

definition fraction_too_fine :: "string \<Rightarrow> bool" where
  "fraction_too_fine s =
     (case cut ''.'' s of
        None \<Rightarrow> False
      | Some (_, fraction) \<Rightarrow> list_ex (\<lambda>c. c \<noteq> CHR ''0'') (drop 6 (takeWhile is_digit fraction)))"

definition fn_parse_timestamp :: "host \<Rightarrow> scalar list \<Rightarrow> scalar result" where
  "fn_parse_timestamp H args =
     rbind (bi_text (args ! 0)) (\<lambda>s.
       if length s > 64 \<or> suffix ''-00:00'' s then Err InvalidArgument
       else if fraction_too_fine s then Err InvalidArgument
       else case h_parse_rfc3339 H s of
           None \<Rightarrow> Err InvalidArgument
         | Some (year, nanos, micros) \<Rightarrow>
             if \<not> (1 \<le> year \<and> year \<le> 9999) \<or> nanos \<ge> 1000000000 then Err InvalidArgument
             else Ok (STimestampMicrosUTC micros))"

definition fn_format_timestamp :: "host \<Rightarrow> scalar list \<Rightarrow> scalar result" where
  "fn_format_timestamp H args =
     rbind (case args ! 0 of SInt64 v \<Rightarrow> Ok v | STimestampMicrosUTC v \<Rightarrow> Ok v | _ \<Rightarrow> Err TypeMismatch) (\<lambda>n.
       case h_format_rfc3339 H n of
         Some (year, s) \<Rightarrow> if 1 \<le> year \<and> year \<le> 9999 then bounded_text s else Err InvalidArgument
       | None \<Rightarrow> Err InvalidArgument)"

definition builtin_size :: "layout \<Rightarrow> scalar \<Rightarrow> nat" where
  "builtin_size L v =
     (case v of SUtf8 s \<Rightarrow> length s | SBytes b \<Rightarrow> length b | SDynamic _ \<Rightarrow> resident_bytes L v | _ \<Rightarrow> 0)"

definition builtin_body :: "host \<Rightarrow> string \<Rightarrow> scalar list \<Rightarrow> scalar result" where
  "builtin_body H name args =
     (if name = ''concat'' then fn_concat args
      else if name = ''substring'' then fn_substring args
      else if name = ''replace'' then fn_replace args
      else if name = ''contains'' \<or> name = ''starts_with'' \<or> name = ''ends_with'' then fn_search name args
      else if name = ''trim'' then rbind (bi_text (args ! 0)) (\<lambda>s. bounded_text (trim s))
      else if name = ''round'' \<or> name = ''floor'' \<or> name = ''ceil'' then fn_round name args
      else if name = ''to_int64'' then fn_to_int64 args
      else if name = ''to_float64'' then fn_to_float64 args
      else if name = ''to_string'' then fn_to_string H args
      else if name = ''json_get'' then
        rbind (bi_text (args ! 0)) (\<lambda>s. rbind (bi_text (args ! 1)) (\<lambda>p. json_get H s p))
      else if name = ''parse_timestamp'' then fn_parse_timestamp H args
      else if name = ''format_timestamp'' then fn_format_timestamp H args
      else Err InvalidArgument)"

definition builtin_eval :: "host \<Rightarrow> string \<Rightarrow> scalar list \<Rightarrow> scalar result" where
  "builtin_eval H name args =
     (if collection_contains name then collection_eval H name args
      else rbind (check_call_arity name (length args)) (\<lambda>_.
        if list_ex (\<lambda>a. builtin_size (h_layout H) a > max_bytes) args then Err BoundExceeded
        else rbind (builtin_signature name (map scalar_type args)) (\<lambda>_.
          if name = ''json_stringify'' then rbind (h_json_encode H (args ! 0)) bounded_text
          else if name = ''json_object'' then fn_json_object (h_layout H) args
          else if list_ex is_null args then Ok SNull
          else builtin_body H name args)))"

end
