(* ===== verification/Expr_Eval.thy ===== *)
theory Expr_Eval
  imports Builtin_Fns
begin

text \<open>
  Expressions: the tree shared by SQL and the graph API, binding of column names to indices
  (\<^verbatim>\<open>sparrow-expr/src/bind.rs\<close>), evaluation, inference of types and nullability
  (\<^verbatim>\<open>infer.rs\<close>), and the filter kernel with its fast path (\<^verbatim>\<open>kernels.rs\<close>).
\<close>

section \<open>Syntax\<close>

datatype expr =
    EPlugin plugin_fn "expr list"
  | EColumn string
  | ELiteral scalar
  | ECast expr data_type
  | ETryCast expr data_type
  | EBinary binary_op expr expr
  | EIsNull expr
  | EIsNotNull expr
  | ENot expr
  | ECall string "expr list"
  | EDynamicGet expr string

datatype bound_expr =
    BPlugin plugin_fn "bound_expr list"
  | BColumn nat
  | BLiteral scalar
  | BCast bound_expr data_type
  | BTryCast bound_expr data_type
  | BBinary binary_op bound_expr bound_expr
  | BIsNull bound_expr
  | BIsNotNull bound_expr
  | BNot bound_expr
  | BCall string "bound_expr list"
  | BDynamicGet bound_expr string

section \<open>Function calls\<close>

fun extreme_loop :: "bool \<Rightarrow> scalar option \<Rightarrow> scalar list \<Rightarrow> scalar option result" where
  "extreme_loop greatest acc [] = Ok acc"
| "extreme_loop greatest acc (v # vs) =
     (if is_null v \<or> scalar_is_nan v then extreme_loop greatest acc vs
      else case acc of
          None \<Rightarrow> extreme_loop greatest (Some v) vs
        | Some prev \<Rightarrow>
            rbind (cmp_scalars prev v) (\<lambda>c.
              extreme_loop greatest
                (Some (case c of
                    None \<Rightarrow> prev
                  | Some ord \<Rightarrow>
                      if greatest then (if ord = Less then v else prev)
                      else if ord = Greater then v else prev)) vs))"

definition call_abs :: "scalar list \<Rightarrow> scalar result" where
  "call_abs vals =
     (case vals of
        [] \<Rightarrow> Err InvalidArgument
      | SInt64 v # _ \<Rightarrow> (case checked_i64 \<bar>v\<bar> of Some a \<Rightarrow> Ok (SInt64 a) | None \<Rightarrow> Err IntegerOverflow)
      | SFloat64 v # _ \<Rightarrow> Ok (SFloat64 (f_abs v))
      | SNull # _ \<Rightarrow> Ok SNull
      | _ \<Rightarrow> Err TypeMismatch)"

definition call_text :: "(string \<Rightarrow> scalar) \<Rightarrow> scalar list \<Rightarrow> scalar result" where
  "call_text f vals =
     (case vals of
        SUtf8 s # _ \<Rightarrow> Ok (f s)
      | SNull # _ \<Rightarrow> Ok SNull
      | _ \<Rightarrow> Err TypeMismatch)"

definition call_coalesce :: "scalar list \<Rightarrow> scalar result" where
  "call_coalesce vals =
     (if vals = [] then Err InvalidArgument
      else Ok (case List.find (\<lambda>v. \<not> is_null v) vals of None \<Rightarrow> SNull | Some v \<Rightarrow> v))"

definition call_nullif :: "scalar list \<Rightarrow> scalar result" where
  "call_nullif vals =
     (if length vals \<noteq> 2 then Err InvalidArgument
      else if scalars_eq (vals ! 0) (vals ! 1) then Ok SNull else Ok (vals ! 0))"

definition call_extreme :: "bool \<Rightarrow> scalar list \<Rightarrow> scalar result" where
  "call_extreme greatest vals =
     (if vals = [] then Err InvalidArgument
      else rbind (extreme_loop greatest None vals) (\<lambda>acc. Ok (case acc of None \<Rightarrow> SNull | Some v \<Rightarrow> v)))"

definition eval_call_values :: "host \<Rightarrow> string \<Rightarrow> scalar list \<Rightarrow> scalar result" where
  "eval_call_values H name vals =
     (if builtin_contains name then builtin_eval H name vals
      else if name = ''abs'' then call_abs vals
      else if name = ''lower'' then call_text (\<lambda>s. SUtf8 (to_ascii_lowercase s)) vals
      else if name = ''upper'' then call_text (\<lambda>s. SUtf8 (to_ascii_uppercase s)) vals
      else if name = ''length'' \<or> name = ''char_length'' then
        call_text (\<lambda>s. SInt64 (int (length (chars s)))) vals
      else if name = ''coalesce'' then call_coalesce vals
      else if name = ''nullif'' then call_nullif vals
      else if name = ''greatest'' \<or> name = ''least'' then call_extreme (name = ''greatest'') vals
      else Err FeatureUnavailable)"

section \<open>Type inference\<close>

definition plugin_signature :: "plugin_fn \<Rightarrow> data_type list \<Rightarrow> data_type result" where
  "plugin_signature p ts =
     (if length ts \<noteq> length (pf_inputs p) \<or> list_ex (\<lambda>(t, e). t \<noteq> TNull \<and> t \<noteq> e) (zip ts (pf_inputs p))
      then Err TypeMismatch else Ok (pf_output p))"

definition infer_numeric :: "data_type \<Rightarrow> bool" where
  "infer_numeric t \<longleftrightarrow> t \<in> {TInt64, TUInt64, TFloat64, TTimestampMicrosUTC}"

definition infer_intish :: "data_type \<Rightarrow> bool" where
  "infer_intish t \<longleftrightarrow> t \<in> {TInt64, TUInt64, TTimestampMicrosUTC}"

definition binary_type :: "binary_op \<Rightarrow> data_type \<Rightarrow> data_type \<Rightarrow> data_type result" where
  "binary_type op lt rt =
     (if op \<in> {BEq, BNotEq, BLt, BLte, BGt, BGte, BAnd, BOr} then Ok TBool
      else if lt = TDynamic \<or> rt = TDynamic then Err TypeMismatch
      else if lt = TFloat64 \<or> rt = TFloat64 then
        (if infer_numeric lt \<and> infer_numeric rt then Ok TFloat64 else Err TypeMismatch)
      else if lt = TUInt64 \<and> rt = TUInt64 then Ok TUInt64
      else if infer_intish lt \<and> infer_intish rt then Ok TInt64
      else Err TypeMismatch)"

definition unary_calls :: "string set" where
  "unary_calls = {''abs'', ''lower'', ''upper'', ''length'', ''char_length''}"

text \<open>The result type of a call outside the additive builtins, from its argument types.\<close>

definition call_type :: "string \<Rightarrow> data_type list \<Rightarrow> data_type result" where
  "call_type name ts =
     (if name = ''abs'' \<or> name = ''coalesce'' then Ok (ts ! 0)
      else if name = ''lower'' \<or> name = ''upper'' then Ok TUtf8
      else if name = ''length'' \<or> name = ''char_length'' then Ok TInt64
      else if name = ''nullif'' then (if length ts \<noteq> 2 then Err InvalidArgument else Ok (ts ! 0))
      else if name = ''greatest'' \<or> name = ''least'' then (if ts = [] then Err InvalidArgument else Ok (ts ! 0))
      else Err FeatureUnavailable)"

fun infer_type :: "schema \<Rightarrow> expr \<Rightarrow> data_type result" where
  "infer_type sc (EPlugin p args) = rbind (map_result (infer_type sc) args) (plugin_signature p)"
| "infer_type sc (EColumn name) =
     (case field_by_name sc name of None \<Rightarrow> Err InvalidArgument | Some f \<Rightarrow> Ok (field_type f))"
| "infer_type sc (ELiteral s) = Ok (scalar_type s)"
| "infer_type sc (ECast e t) = rbind (infer_type sc e) (\<lambda>_. Ok t)"
| "infer_type sc (ETryCast e t) = rbind (infer_type sc e) (\<lambda>_. Ok t)"
| "infer_type sc (EIsNull e) = Ok TBool"
| "infer_type sc (EIsNotNull e) = Ok TBool"
| "infer_type sc (ENot e) = Ok TBool"
| "infer_type sc (EBinary op l r) =
     rbind (infer_type sc l) (\<lambda>lt. rbind (infer_type sc r) (\<lambda>rt. binary_type op lt rt))"
| "infer_type sc (ECall name args) =
     (let n = to_ascii_lowercase name
      in if builtin_contains n then
           rbind (check_call_arity n (length args)) (\<lambda>_.
             rbind (map_result (infer_type sc) args) (\<lambda>ts. builtin_signature n ts))
         else if n \<in> unary_calls \<and> length args \<noteq> 1 then Err InvalidArgument
         else if n = ''coalesce'' \<and> args = [] then Err InvalidArgument
         else rbind (map_result (infer_type sc) args) (\<lambda>ts. call_type n ts))"
| "infer_type sc (EDynamicGet e key) =
     rbind (infer_type sc e) (\<lambda>t. if t \<noteq> TDynamic \<and> t \<noteq> TNull then Err TypeMismatch else Ok TDynamic)"

section \<open>Nullability\<close>

fun any_result :: "('a \<Rightarrow> bool result) \<Rightarrow> 'a list \<Rightarrow> bool result" where
  "any_result f [] = Ok False"
| "any_result f (x # xs) = rbind (f x) (\<lambda>b. rbind (any_result f xs) (\<lambda>c. Ok (b \<or> c)))"

fun all_result :: "('a \<Rightarrow> bool result) \<Rightarrow> 'a list \<Rightarrow> bool result" where
  "all_result f [] = Ok True"
| "all_result f (x # xs) = rbind (f x) (\<lambda>b. if b then all_result f xs else Ok False)"

lemma any_result_cong [fundef_cong]:
  "xs = ys \<Longrightarrow> (\<And>x. x \<in> set ys \<Longrightarrow> f x = g x) \<Longrightarrow> any_result f xs = any_result g ys"
  by (induction ys arbitrary: xs) auto

lemma all_result_cong [fundef_cong]:
  "xs = ys \<Longrightarrow> (\<And>x. x \<in> set ys \<Longrightarrow> f x = g x) \<Longrightarrow> all_result f xs = all_result g ys"
  by (induction ys arbitrary: xs) (auto intro!: rbind_cong)

fun infer_nullable :: "schema \<Rightarrow> expr \<Rightarrow> bool result" where
  "infer_nullable sc (EPlugin p args) = Ok True"
| "infer_nullable sc (EColumn name) =
     (case field_by_name sc name of None \<Rightarrow> Err InvalidArgument | Some f \<Rightarrow> Ok (field_nullable f))"
| "infer_nullable sc (ELiteral s) = Ok (is_null s)"
| "infer_nullable sc (ECast e t) = infer_nullable sc e"
| "infer_nullable sc (ETryCast e t) = Ok True"
| "infer_nullable sc (EIsNull e) = Ok False"
| "infer_nullable sc (EIsNotNull e) = Ok False"
| "infer_nullable sc (ENot e) = infer_nullable sc e"
| "infer_nullable sc (EBinary op l r) =
     rbind (infer_nullable sc l) (\<lambda>b. if b then Ok True else infer_nullable sc r)"
| "infer_nullable sc (ECall name args) =
     (let n = to_ascii_lowercase name
      in if collection_contains n then Ok True
         else if n = ''json_get'' then Ok True
         else if n = ''json_stringify'' then Ok False
         else if n = ''to_int64'' \<or> n = ''to_float64'' \<or> n = ''to_string'' then
           (if list_ex (\<lambda>a. infer_type sc a = Ok TDynamic) args then Ok True
            else any_result (infer_nullable sc) args)
         else if builtin_contains n then any_result (infer_nullable sc) args
         else if n = ''nullif'' then Ok True
         else if n = ''coalesce'' then (if args = [] then Err InvalidArgument else all_result (infer_nullable sc) args)
         else if n = ''greatest'' \<or> n = ''least'' then any_result (infer_nullable sc) args
         else (case args of [] \<Rightarrow> Ok True | a # _ \<Rightarrow> infer_nullable sc a))"
| "infer_nullable sc (EDynamicGet e key) = Ok True"

section \<open>Binding and evaluation\<close>

fun bind :: "schema \<Rightarrow> expr \<Rightarrow> bound_expr result" where
  "bind sc (EPlugin p args) =
     rbind (rbind (map_result (infer_type sc) args) (plugin_signature p)) (\<lambda>_.
       rbind (map_result (bind sc) args) (\<lambda>bs. Ok (BPlugin p bs)))"
| "bind sc (EColumn name) =
     (case index_of_name sc name of None \<Rightarrow> Err InvalidArgument | Some i \<Rightarrow> Ok (BColumn i))"
| "bind sc (ELiteral s) = Ok (BLiteral s)"
| "bind sc (ECast e t) = rbind (bind sc e) (\<lambda>b. Ok (BCast b t))"
| "bind sc (ETryCast e t) = rbind (bind sc e) (\<lambda>b. Ok (BTryCast b t))"
| "bind sc (EBinary op l r) = rbind (bind sc l) (\<lambda>bl. rbind (bind sc r) (\<lambda>br. Ok (BBinary op bl br)))"
| "bind sc (EIsNull e) = rbind (bind sc e) (\<lambda>b. Ok (BIsNull b))"
| "bind sc (EIsNotNull e) = rbind (bind sc e) (\<lambda>b. Ok (BIsNotNull b))"
| "bind sc (ENot e) = rbind (bind sc e) (\<lambda>b. Ok (BNot b))"
| "bind sc (ECall name args) =
     (let n = to_ascii_lowercase name
      in rbind (check_call_arity n (length args)) (\<lambda>_.
         rbind (if builtin_contains n
                then rbind (map_result (infer_type sc) args) (\<lambda>ts. rbind (builtin_signature n ts) (\<lambda>_. Ok ()))
                else Ok ()) (\<lambda>_.
         rbind (map_result (bind sc) args) (\<lambda>bs. Ok (BCall n bs)))))"
| "bind sc (EDynamicGet e key) = rbind (bind sc e) (\<lambda>b. Ok (BDynamicGet b key))"

definition eval_not :: "scalar \<Rightarrow> scalar result" where
  "eval_not v = (case v of SBool b \<Rightarrow> Ok (SBool (\<not> b)) | SNull \<Rightarrow> Ok SNull | _ \<Rightarrow> Err TypeMismatch)"

definition dynamic_extract :: "string \<Rightarrow> scalar \<Rightarrow> scalar result" where
  "dynamic_extract key v =
     (case v of
        SDynamic d \<Rightarrow>
          Ok (case dyn_get d key of
              None \<Rightarrow> SNull
            | Some x \<Rightarrow>
                (case x of
                   DNull \<Rightarrow> SNull
                 | DBool b \<Rightarrow> SBool b
                 | DInt64 n \<Rightarrow> SInt64 n
                 | DUInt64 n \<Rightarrow> SUInt64 n
                 | DFloat64 f \<Rightarrow> SFloat64 f
                 | DUtf8 s \<Rightarrow> SUtf8 s
                 | DBytes b \<Rightarrow> SBytes b
                 | other \<Rightarrow> SDynamic other))
      | SNull \<Rightarrow> Ok SNull
      | _ \<Rightarrow> Err TypeMismatch)"

fun eval_bound :: "host \<Rightarrow> row \<Rightarrow> bound_expr \<Rightarrow> scalar result" where
  "eval_bound H row (BPlugin p args) = rbind (map_result (eval_bound H row) args) (h_invoke H p)"
| "eval_bound H row (BColumn i) = (if i < length row then Ok (row ! i) else Err Internal)"
| "eval_bound H row (BLiteral s) = Ok s"
| "eval_bound H row (BCast e t) = rbind (eval_bound H row e) (\<lambda>v. cast v t False)"
| "eval_bound H row (BTryCast e t) = rbind (eval_bound H row e) (\<lambda>v. cast v t True)"
| "eval_bound H row (BBinary op l r) =
     rbind (eval_bound H row l) (\<lambda>lv. rbind (eval_bound H row r) (\<lambda>rv. eval_binary op lv rv))"
| "eval_bound H row (BIsNull e) = rbind (eval_bound H row e) (\<lambda>v. Ok (SBool (is_null v)))"
| "eval_bound H row (BIsNotNull e) = rbind (eval_bound H row e) (\<lambda>v. Ok (SBool (\<not> is_null v)))"
| "eval_bound H row (BNot e) = rbind (eval_bound H row e) eval_not"
| "eval_bound H row (BCall name args) = rbind (map_result (eval_bound H row) args) (eval_call_values H name)"
| "eval_bound H row (BDynamicGet e key) = rbind (eval_bound H row e) (dynamic_extract key)"

definition eval :: "host \<Rightarrow> schema \<Rightarrow> expr \<Rightarrow> row \<Rightarrow> scalar result" where
  "eval H sc e row = rbind (bind sc e) (\<lambda>b. eval_bound H row b)"

section \<open>The filter kernel\<close>

record simple_pred =
  sp_column :: string
  sp_op :: binary_op
  sp_thr :: f64

definition flip_op :: "binary_op \<Rightarrow> binary_op" where
  "flip_op op = (case op of BGt \<Rightarrow> BLt | BGte \<Rightarrow> BLte | BLt \<Rightarrow> BGt | BLte \<Rightarrow> BGte | _ \<Rightarrow> op)"

definition from_expr :: "expr \<Rightarrow> simple_pred option" where
  "from_expr e =
     (case e of
        EBinary op (EColumn name) (ELiteral lit) \<Rightarrow>
          if op \<in> {BGt, BGte, BLt, BLte, BEq, BNotEq}
          then map_option (\<lambda>t. \<lparr>sp_column = name, sp_op = op, sp_thr = t\<rparr>) (scalar_as_f64 lit) else None
      | EBinary op (ELiteral lit) (EColumn name) \<Rightarrow>
          if op \<in> {BGt, BGte, BLt, BLte, BEq, BNotEq}
          then map_option (\<lambda>t. \<lparr>sp_column = name, sp_op = flip_op op, sp_thr = t\<rparr>) (scalar_as_f64 lit) else None
      | _ \<Rightarrow> None)"

definition cmp_f64 :: "binary_op \<Rightarrow> f64 \<Rightarrow> f64 \<Rightarrow> bool" where
  "cmp_f64 op l r =
     (case op of
        BGt \<Rightarrow> f_lt r l
      | BGte \<Rightarrow> f_le r l
      | BLt \<Rightarrow> f_lt l r
      | BLte \<Rightarrow> f_le l r
      | BEq \<Rightarrow> f_eq l r
      | BNotEq \<Rightarrow> \<not> f_eq l r
      | _ \<Rightarrow> False)"

definition filter_bool :: "scalar \<Rightarrow> bool result" where
  "filter_bool v = (case v of SBool b \<Rightarrow> Ok b | SNull \<Rightarrow> Ok False | _ \<Rightarrow> Err TypeMismatch)"

definition mask_row :: "host \<Rightarrow> bound_expr \<Rightarrow> row \<Rightarrow> bool result" where
  "mask_row H b row = rbind (eval_bound H row b) filter_bool"

definition fast_row :: "host \<Rightarrow> bound_expr \<Rightarrow> simple_pred \<Rightarrow> nat \<Rightarrow> row \<Rightarrow> bool result" where
  "fast_row H b sp i row =
     (if i < length row then
        (case row ! i of
           SFloat64 v \<Rightarrow> Ok (cmp_f64 (sp_op sp) v (sp_thr sp))
         | SInt64 _ \<Rightarrow> mask_row H b row
         | SUInt64 _ \<Rightarrow> mask_row H b row
         | SNull \<Rightarrow> Ok False
         | _ \<Rightarrow> Err TypeMismatch)
      else Ok False)"

definition filter_mask :: "host \<Rightarrow> expr \<Rightarrow> schema \<Rightarrow> row list \<Rightarrow> bool list result" where
  "filter_mask H pred sc rows =
     rbind (bind sc pred) (\<lambda>b.
       case from_expr pred of
         None \<Rightarrow> map_result (mask_row H b) rows
       | Some sp \<Rightarrow>
           if sp_op sp \<in> {BEq, BNotEq} then map_result (mask_row H b) rows
           else case index_of_name sc (sp_column sp) of
               None \<Rightarrow> map_result (mask_row H b) rows
             | Some i \<Rightarrow>
                 if i < length (schema_fields sc) \<and> field_type (schema_fields sc ! i) \<in> {TFloat64, TInt64, TUInt64}
                 then map_result (fast_row H b sp i) rows
                 else map_result (mask_row H b) rows)"

section \<open>Rows that conform to a schema\<close>

definition cell_ok :: "field \<Rightarrow> scalar \<Rightarrow> bool" where
  "cell_ok f v \<longleftrightarrow> (if v = SNull then field_nullable f else matches_type v (field_type f))"

definition conforms :: "schema \<Rightarrow> row \<Rightarrow> bool" where
  "conforms sc row \<longleftrightarrow> list_all2 cell_ok (schema_fields sc) row"

lemma conforms_cell:
  assumes "conforms sc row" "index_of_name sc name = Some i"
  shows "i < length row" "i < length (schema_fields sc)" "cell_ok (schema_fields sc ! i) (row ! i)"
    "field_by_name sc name = Some (schema_fields sc ! i)"
  using assms
  by (auto simp: conforms_def index_of_name_def position_Some_iff field_by_name_def find_position
      dest: list_all2_lengthD list_all2_nthD)

section \<open>Binding\<close>

text \<open>Evaluation that looks every column up by name on every row.\<close>

fun eval_named :: "host \<Rightarrow> schema \<Rightarrow> row \<Rightarrow> expr \<Rightarrow> scalar result" where
  "eval_named H sc row (EPlugin p args) = rbind (map_result (eval_named H sc row) args) (h_invoke H p)"
| "eval_named H sc row (EColumn name) =
     (case index_of_name sc name of
        Some i \<Rightarrow> if i < length row then Ok (row ! i) else Err Internal
      | None \<Rightarrow> Err InvalidArgument)"
| "eval_named H sc row (ELiteral s) = Ok s"
| "eval_named H sc row (ECast e t) = rbind (eval_named H sc row e) (\<lambda>v. cast v t False)"
| "eval_named H sc row (ETryCast e t) = rbind (eval_named H sc row e) (\<lambda>v. cast v t True)"
| "eval_named H sc row (EBinary op l r) =
     rbind (eval_named H sc row l) (\<lambda>lv. rbind (eval_named H sc row r) (\<lambda>rv. eval_binary op lv rv))"
| "eval_named H sc row (EIsNull e) = rbind (eval_named H sc row e) (\<lambda>v. Ok (SBool (is_null v)))"
| "eval_named H sc row (EIsNotNull e) = rbind (eval_named H sc row e) (\<lambda>v. Ok (SBool (\<not> is_null v)))"
| "eval_named H sc row (ENot e) = rbind (eval_named H sc row e) eval_not"
| "eval_named H sc row (ECall name args) =
     rbind (map_result (eval_named H sc row) args) (eval_call_values H (to_ascii_lowercase name))"
| "eval_named H sc row (EDynamicGet e key) = rbind (eval_named H sc row e) (dynamic_extract key)"

lemma map_result_bind:
  assumes "map_result f xs = Ok ys" "\<And>x y. x \<in> set xs \<Longrightarrow> f x = Ok y \<Longrightarrow> g y = h x"
  shows "map_result g ys = map_result h xs"
  using assms
proof (induction xs arbitrary: ys)
  case (Cons x xs)
  then obtain y zs where y: "f x = Ok y" "map_result f xs = Ok zs" "ys = y # zs" by (auto simp: rbind_Inr_iff)
  have "map_result g zs = map_result h xs" using Cons.IH [OF y(2)] Cons.prems(2) by simp
  moreover have "g y = h x" using Cons.prems(2) y(1) by simp
  ultimately show ?case by (simp add: y(3))
qed simp

lemma bind_eval: "bind sc e = Ok b \<Longrightarrow> eval_bound H row b = eval_named H sc row e"
proof (induction e arbitrary: b)
  case (EPlugin p args)
  then obtain bs where bs: "map_result (bind sc) args = Ok bs" "b = BPlugin p bs" by (auto simp: rbind_Inr_iff)
  have "map_result (eval_bound H row) bs = map_result (eval_named H sc row) args"
    by (rule map_result_bind [OF bs(1)]) (use EPlugin.IH in blast)
  with bs show ?case by simp
next
  case (ECall name args)
  then obtain bs where bs: "map_result (bind sc) args = Ok bs" "b = BCall (to_ascii_lowercase name) bs"
    by (auto simp: rbind_Inr_iff Let_def)
  have "map_result (eval_bound H row) bs = map_result (eval_named H sc row) args"
    by (rule map_result_bind [OF bs(1)]) (use ECall.IH in blast)
  with bs show ?case by simp
qed (auto simp: rbind_Inr_iff split: option.splits)

text \<open>
  Evaluating a bound expression by column index gives, on every row and for every result or
  error, what evaluating the original expression by column name gives.
\<close>

theorem bind_preserves_semantics:
  assumes "bind sc e = Ok b"
  shows "eval_bound H row b = eval_named H sc row e \<and> eval H sc e row = eval_named H sc row e"
  using bind_eval [OF assms] assms by (simp add: eval_def)

definition demo_schema :: schema where
  "demo_schema = \<lparr>schema_id = 1, schema_fields = [Field 1 ''temp'' TFloat64 True, Field 2 ''n'' TInt64 False]\<rparr>"

theorem bind_preserves_semantics_witness:
  "eval_bound demo_host [SNull, SInt64 4] (BIsNull (BColumn 1)) =
     eval_named demo_host demo_schema [SNull, SInt64 4] (EIsNull (EColumn ''n''))"
proof -
  have "bind demo_schema (EIsNull (EColumn ''n'')) = Ok (BIsNull (BColumn 1))"
    by (simp add: demo_schema_def index_of_name_def)
  from bind_preserves_semantics [OF this, of demo_host "[SNull, SInt64 4]"] show ?thesis by simp
qed

section \<open>The filter kernel agrees with the evaluator\<close>

lemma ord_neq_iff: "ord \<noteq> Greater \<longleftrightarrow> ord = Less \<or> ord = Equal" "ord \<noteq> Less \<longleftrightarrow> ord = Equal \<or> ord = Greater"
  by (cases ord; simp)+

lemma cmp_float_left:
  assumes "op \<in> {BGt, BGte, BLt, BLte}" "scalar_as_f64 lit = Some t"
  shows "eval_binary op (SFloat64 v) lit = Ok (SBool (cmp_f64 op v t))"
proof -
  have nn: "\<not> is_null lit" using assms(2) by (auto simp: is_null_def scalar_as_f64_def)
  have c: "cmp_scalars (SFloat64 v) lit = Ok (partial_cmp v t)"
    using assms(2) by (cases lit) (auto simp: cmp_scalars_def scalar_as_f64_def is_f64_def)
  show ?thesis
    using assms(1) nn
    by (cases "partial_cmp v t")
      (auto simp: eval_binary_def is_null_def c cmp_f64_def cmp_ord_op_def f_lt_def f_le_def f_eq_def
        partial_cmp_swap [of t v] ord_neq_iff split: ordering.splits)
qed

lemma cmp_float_right:
  assumes "op \<in> {BGt, BGte, BLt, BLte}" "scalar_as_f64 lit = Some t"
  shows "eval_binary op lit (SFloat64 v) = Ok (SBool (cmp_f64 (flip_op op) v t))"
proof -
  have nn: "\<not> is_null lit" using assms(2) by (auto simp: is_null_def scalar_as_f64_def)
  have c: "cmp_scalars lit (SFloat64 v) = Ok (partial_cmp t v)"
    using assms(2) by (cases lit) (auto simp: cmp_scalars_def scalar_as_f64_def is_f64_def)
  show ?thesis
    using assms(1) nn
    by (cases "partial_cmp t v")
      (auto simp: eval_binary_def is_null_def c cmp_f64_def flip_op_def cmp_ord_op_def f_lt_def f_le_def f_eq_def
        partial_cmp_swap [of v t] ord_neq_iff split: ordering.splits)
qed

lemma from_expr_cases:
  assumes "from_expr pred = Some sp"
  obtains (left) lit where "pred = EBinary (sp_op sp) (EColumn (sp_column sp)) (ELiteral lit)" "scalar_as_f64 lit = Some (sp_thr sp)"
    "sp_op sp \<in> {BGt, BGte, BLt, BLte, BEq, BNotEq}"
  | (right) lit op where "pred = EBinary op (ELiteral lit) (EColumn (sp_column sp))" "sp_op sp = flip_op op"
    "scalar_as_f64 lit = Some (sp_thr sp)" "op \<in> {BGt, BGte, BLt, BLte, BEq, BNotEq}"
  using assms that by (auto simp: from_expr_def split: expr.splits if_splits)

lemma fast_row_agrees:
  assumes sp: "from_expr pred = Some sp" and op: "sp_op sp \<notin> {BEq, BNotEq}"
    and idx: "index_of_name sc (sp_column sp) = Some i" and b: "bind sc pred = Ok b"
    and num: "field_type (schema_fields sc ! i) \<in> {TFloat64, TInt64, TUInt64}" and row: "conforms sc row"
  shows "fast_row H b sp i row = mask_row H b row"
proof -
  note cell = conforms_cell [OF row idx]
  have ty: "row ! i = SNull \<or> scalar_type (row ! i) \<in> {TFloat64, TInt64, TUInt64}"
    using cell(3) num by (auto simp: cell_ok_def matches_type_def is_nested_def split: if_splits scalar.splits)
  have col: "eval_named H sc row (EColumn (sp_column sp)) = Ok (row ! i)" using idx cell(1) by simp
  have null: "eval_binary x l SNull = Ok SNull" "eval_binary x SNull l = Ok SNull" if "x \<in> {BGt, BGte, BLt, BLte}" for x l
    using that by (auto simp: eval_binary_def is_null_def)
  from sp have "fast_row H b sp i row = rbind (eval_named H sc row pred) filter_bool"
  proof (cases rule: from_expr_cases)
    case (left lit)
    then have "sp_op sp \<in> {BGt, BGte, BLt, BLte}" using op by auto
    with left cell(1) ty col show ?thesis
      by (cases "row ! i") (simp_all add: fast_row_def mask_row_def bind_eval [OF b] cmp_float_left null filter_bool_def)
  next
    case (right lit op')
    then have "op' \<in> {BGt, BGte, BLt, BLte}" using op by (auto simp: flip_op_def)
    with right cell(1) ty col show ?thesis
      by (cases "row ! i") (simp_all add: fast_row_def mask_row_def bind_eval [OF b] cmp_float_right null filter_bool_def)
  qed
  then show ?thesis by (simp add: mask_row_def bind_eval [OF b])
qed

text \<open>
  C33: On rows that conform to the schema the filter kernel, fast path included, keeps exactly
  the rows on which the evaluator yields true, drops those on which it yields false or NULL,
  and fails with the evaluator's first error.
\<close>

theorem filter_mask_rowwise:
  assumes b: "bind sc pred = Ok b" and rows: "list_all (conforms sc) rows"
  shows "filter_mask H pred sc rows = map_result (\<lambda>row. rbind (eval H sc pred row) filter_bool) rows"
proof -
  have slow: "map_result (mask_row H b) rows = map_result (\<lambda>row. rbind (eval H sc pred row) filter_bool) rows"
    by (simp add: mask_row_def [abs_def] eval_def b)
  have fast: "map_result (fast_row H b sp i) rows = map_result (mask_row H b) rows"
    if "from_expr pred = Some sp" "sp_op sp \<notin> {BEq, BNotEq}" "index_of_name sc (sp_column sp) = Some i"
      "field_type (schema_fields sc ! i) \<in> {TFloat64, TInt64, TUInt64}" for sp i
    using fast_row_agrees [OF that(1-3) b that(4)] rows by (intro map_result_cong) (auto simp: list_all_iff)
  show ?thesis
    by (auto simp: filter_mask_def b fast slow simp del: insert_iff split: option.splits)
qed

theorem filter_mask_rowwise_witness:
  "filter_mask demo_host (EBinary BGt (EColumn ''temp'') (ELiteral (SFloat64 f_zero))) demo_schema [[SFloat64 f_one, SInt64 1], [SNull, SInt64 2]] =
     map_result (\<lambda>row. rbind (eval demo_host demo_schema (EBinary BGt (EColumn ''temp'') (ELiteral (SFloat64 f_zero))) row) filter_bool)
       [[SFloat64 f_one, SInt64 1], [SNull, SInt64 2]]"
proof (rule filter_mask_rowwise)
  show "bind demo_schema (EBinary BGt (EColumn ''temp'') (ELiteral (SFloat64 f_zero))) =
      Ok (BBinary BGt (BColumn 0) (BLiteral (SFloat64 f_zero)))"
    by (simp add: demo_schema_def index_of_name_def)
  show "list_all (conforms demo_schema) [[SFloat64 f_one, SInt64 1], [SNull, SInt64 2]]"
    by (simp add: conforms_def demo_schema_def cell_ok_def matches_type_def)
qed

end
