(* ===== verification/Expr_Types.thy ===== *)
theory Expr_Types
  imports Expr_Eval
begin

text \<open>
  What inference promises of evaluation: the inferred type of \<^verbatim>\<open>infer_type\<close> is the type of every
  value the evaluator returns, and an expression inferred as non-nullable does not evaluate to
  NULL, with the exact exceptions the code has.
\<close>

section \<open>Values of a type\<close>

definition has_type :: "scalar \<Rightarrow> data_type \<Rightarrow> bool" where
  "has_type v t \<longleftrightarrow> v = SNull \<or> matches_type v t"

lemma has_type_exact [intro]: "scalar_type v = t \<Longrightarrow> has_type v t"
  by (simp add: has_type_def matches_type_def)

lemma has_type_Null [simp]: "has_type SNull t"
  by (simp add: has_type_def)

lemma has_type_Dynamic [simp]: "has_type v TDynamic"
  by (simp add: has_type_def matches_type_def)

lemma has_type_flat: "\<not> is_dyn v \<Longrightarrow> has_type v t \<longleftrightarrow> v = SNull \<or> t = TDynamic \<or> scalar_type v = t"
  by (cases v) (auto simp: has_type_def matches_type_def is_dyn_def)

lemma has_type_base:
  "t \<in> {TNull, TBool, TInt64, TUInt64, TFloat64, TUtf8, TBytes, TTimestampMicrosUTC} \<Longrightarrow>
     has_type v t \<longleftrightarrow> v = SNull \<or> scalar_type v = t"
  by (cases v) (auto simp: has_type_def matches_type_def is_nested_def)

lemma has_type_TNull [simp]: "has_type v TNull \<longleftrightarrow> v = SNull"
  using has_type_base [of TNull v] by (cases v) auto

lemma map_result_list_all2:
  assumes "map_result f xs = Ok ys" "map_result g xs = Ok zs"
    and "\<And>x y z. x \<in> set xs \<Longrightarrow> f x = Ok y \<Longrightarrow> g x = Ok z \<Longrightarrow> P y z"
  shows "list_all2 P ys zs"
  using assms
proof (induction xs arbitrary: ys zs)
  case (Cons x xs)
  then obtain y ys' z zs' where yz: "f x = Ok y" "map_result f xs = Ok ys'" "ys = y # ys'" "g x = Ok z" "map_result g xs = Ok zs'" "zs = z # zs'"
    by (auto simp: rbind_Inr_iff)
  have "list_all2 P ys' zs'" by (rule Cons.IH [OF yz(2,5)]) (rule Cons.prems(3), auto)
  moreover have "P y z" using Cons.prems(3) [of x y z] yz by simp
  ultimately show ?case by (simp add: yz)
qed simp

section \<open>Operators\<close>

lemma eval_arith_type:
  assumes "eval_arith op l r = Ok v" "op \<in> {BAdd, BSub, BMul, BDiv}" "l \<noteq> SNull" "r \<noteq> SNull"
    and "scalar_type l = lt" "scalar_type r = rt" "binary_type op lt rt = Ok t"
  shows "v = SNull \<or> scalar_type v = t"
proof -
  have i: "eval_int_arith op a b = Ok v \<Longrightarrow> v = SNull \<or> scalar_type v = TInt64" for a b
    by (auto simp: eval_int_arith_def split: if_splits option.splits)
  have u: "eval_uint_arith op a b = Ok v \<Longrightarrow> v = SNull \<or> scalar_type v = TUInt64" for a b
    by (auto simp: eval_uint_arith_def split: if_splits option.splits)
  have f: "eval_float_arith op l r = Ok v \<Longrightarrow> v = SNull \<or> scalar_type v = TFloat64"
    by (auto simp: eval_float_arith_def rbind_Inr_iff split: if_splits binary_op.splits)
  have isf: "eval_float_arith op l r = Ok v \<Longrightarrow> is_f64 l \<or> is_f64 r"
    by (auto simp: eval_float_arith_def rbind_Inr_iff split: if_splits)
  show ?thesis
    using assms i u f isf
    by (cases l; cases r) (auto simp: eval_arith_def binary_type_def infer_numeric_def infer_intish_def is_dyn_def is_f64_def
        split: if_splits)
qed

lemma eval_logic_type: "eval_logic op l r = Ok v \<Longrightarrow> v = SNull \<or> scalar_type v = TBool"
  by (auto simp: eval_logic_def rbind_Inr_iff split: if_splits)

lemma eval_binary_type:
  assumes "eval_binary op l r = Ok v" "has_type l lt" "has_type r rt" "binary_type op lt rt = Ok t"
  shows "has_type v t"
proof (cases "op \<in> {BAdd, BSub, BMul, BDiv}")
  case True
  show ?thesis
  proof (cases "is_null l \<or> is_null r")
    case False
    have base: "lt \<in> {TInt64, TUInt64, TFloat64, TTimestampMicrosUTC}" "rt \<in> {TInt64, TUInt64, TFloat64, TTimestampMicrosUTC}"
      using assms(4) True by (auto simp: binary_type_def infer_numeric_def infer_intish_def split: if_splits)
    have "l \<noteq> SNull" "r \<noteq> SNull" using False by (auto simp: is_null_def)
    then have "scalar_type l = lt" "scalar_type r = rt" using has_type_base [of lt l] has_type_base [of rt r] assms(2,3) base by auto
    moreover have "eval_arith op l r = Ok v" using assms(1) True False by (auto simp: eval_binary_def)
    ultimately show ?thesis using eval_arith_type [OF _ True] assms(4) \<open>l \<noteq> SNull\<close> \<open>r \<noteq> SNull\<close> by fastforce
  qed (use assms(1) True in \<open>auto simp: eval_binary_def\<close>)
next
  case False
  then have t: "t = TBool" using assms(4) by (cases op) (auto simp: binary_type_def)
  have "v = SNull \<or> scalar_type v = TBool"
    using assms(1) False eval_logic_type [of op l r v]
    by (auto simp: eval_binary_def rbind_Inr_iff split: if_splits option.splits)
  then show ?thesis using t by auto
qed

lemma cast_type: "cast v t b = Ok w \<Longrightarrow> has_type w t"
  using cast_strict [of v t] by (cases b; cases "cast v t False") (auto simp: cast_try split: if_splits)

lemma eval_not_type: "eval_not v = Ok w \<Longrightarrow> has_type w TBool"
  by (auto simp: eval_not_def split: scalar.splits)

section \<open>Calls\<close>

lemma bounded_text_type: "bounded_text s = Ok v \<Longrightarrow> scalar_type v = TUtf8"
  by (auto simp: bounded_text_def split: if_splits)

lemma make_array_type: "make_array L xs = Ok v \<Longrightarrow> scalar_type v = TDynamic"
  "collection_result L d = Ok v \<Longrightarrow> scalar_type v = TDynamic"
  by (auto simp: make_array_def collection_result_def split: if_splits)

lemma join_loop_type: "join_loop sep b acc vs = Ok v \<Longrightarrow> v = SNull \<or> scalar_type v = TUtf8"
  by (induction vs arbitrary: b acc) (auto simp: Let_def dest: bounded_text_type split: dynamic_value.splits if_splits)

lemma item_value_type: "item_value x = SNull \<or> scalar_type (item_value x) = TDynamic"
  by (auto simp: item_value_def split: option.splits)

lemmas result_types = bounded_text_type make_array_type join_loop_type

lemma array_fn_type:
  assumes "eval_array_fn L name args = Ok v" "name \<in> array_names" "collection_rule name ts = Ok (ok, t)"
  shows "v = SNull \<or> scalar_type v = t"
  using assms item_value_type
  by (auto simp: eval_array_fn_def array_names_def collection_rule_def rbind_Inr_iff Let_def dest!: result_types split: if_splits)

lemma object_fn_type:
  assumes "eval_object_fn L name args = Ok v" "name \<in> object_names" "collection_rule name ts = Ok (ok, t)"
  shows "v = SNull \<or> scalar_type v = t"
  using assms item_value_type
  by (auto simp: eval_object_fn_def object_names_def collection_rule_def rbind_Inr_iff dest!: result_types split: if_splits)

lemma text_fn_type:
  assumes "eval_text_fn H name args = Ok v" "collection_rule name ts = Ok (ok, t)"
  shows "v = SNull \<or> scalar_type v = t"
  using assms
  by (auto simp: eval_text_fn_def collection_rule_def rbind_Inr_iff dest!: result_types split: if_splits)

lemma collection_type:
  assumes "collection_eval H name args = Ok v" "collection_signature name ts = Ok t"
  shows "has_type v t"
proof -
  from assms(2) obtain ok where rule: "collection_rule name ts = Ok (ok, t)"
    by (auto simp: collection_signature_def rbind_Inr_iff split: if_splits)
  have "rbind (collection_signature name (map scalar_type args)) (\<lambda>_.
      if list_ex arg_null (take (null_prefix name (length args)) args) then Ok SNull
      else if name \<in> array_names then eval_array_fn (h_layout H) name args
      else if name \<in> object_names then eval_object_fn (h_layout H) name args
      else eval_text_fn H name args) = Ok v"
    using assms(1) unfolding collection_eval_def
    by (cases "check_call_arity name (length args)") (auto simp only: rbind_simps sum.distinct split: if_split_asm)
  then consider "v = SNull" | "name \<in> array_names" "eval_array_fn (h_layout H) name args = Ok v"
    | "name \<in> object_names" "eval_object_fn (h_layout H) name args = Ok v" | "eval_text_fn H name args = Ok v"
    unfolding rbind_Inr_iff by (metis Inr_inject)
  then have "v = SNull \<or> scalar_type v = t"
    by cases (blast dest: array_fn_type [OF _ _ rule] object_fn_type [OF _ _ rule] text_fn_type [OF _ rule])+
  then show ?thesis by auto
qed

lemma finite_float_type: "finite_float x = Ok v \<Longrightarrow> scalar_type v = TFloat64"
  by (auto simp: finite_float_def split: if_splits)

lemma to_number_type:
  "fn_to_int64 args = Ok v \<Longrightarrow> v = SNull \<or> scalar_type v = TInt64"
  "fn_to_float64 args = Ok v \<Longrightarrow> v = SNull \<or> scalar_type v = TFloat64"
  "fn_to_string H args = Ok v \<Longrightarrow> v = SNull \<or> scalar_type v = TUtf8"
  by (cases "unwrap_scalar (args ! 0)"; auto simp: fn_to_int64_def fn_to_float64_def fn_to_string_def
      dest: finite_float_type bounded_text_type split: if_splits option.splits)+

lemma text_builtin_type:
  "fn_concat args = Ok v \<Longrightarrow> scalar_type v = TUtf8"
  "fn_substring args = Ok v \<Longrightarrow> scalar_type v = TUtf8"
  "fn_replace args = Ok v \<Longrightarrow> scalar_type v = TUtf8"
  "fn_search name args = Ok v \<Longrightarrow> scalar_type v = TBool"
  "fn_parse_timestamp H args = Ok v \<Longrightarrow> scalar_type v = TTimestampMicrosUTC"
  "fn_format_timestamp H args = Ok v \<Longrightarrow> scalar_type v = TUtf8"
  by (auto simp: fn_concat_def fn_substring_def fn_replace_def fn_search_def fn_parse_timestamp_def fn_format_timestamp_def
      rbind_Inr_iff Let_def dest!: bounded_text_type split: if_splits option.splits prod.splits)

lemma json_get_type:
  assumes "json_get H s p = Ok v"
  shows "v = SNull \<or> scalar_type v = TDynamic"
proof -
  obtain x where x: "(case x of None \<Rightarrow> Ok SNull
      | Some d \<Rightarrow> if d = DNull then Ok SNull
          else if resident_bytes (h_layout H) (SDynamic d) > max_bytes then Err BoundExceeded else Ok (SDynamic d)) = Ok v"
    using assms unfolding json_get_def by (simp only: rbind_Inr_iff split: if_split_asm) blast+
  then show ?thesis by (cases x) (auto split: if_split_asm)
qed

lemma json_object_type:
  assumes "fn_json_object L args = Ok v"
  shows "v = SNull \<or> scalar_type v = TDynamic"
proof (cases "list_ex is_null (evens args)")
  case False
  with assms obtain ps where "(case try_object ps of Inl (e, _) \<Rightarrow> Inl e | Inr d \<Rightarrow> Ok (SDynamic d)) = Ok v"
    unfolding fn_json_object_def by (simp only: if_False rbind_Inr_iff) blast
  then show ?thesis by (cases "try_object ps") auto
qed (use assms in \<open>simp add: fn_json_object_def\<close>)

lemma fn_round_type:
  assumes "fn_round name args = Ok v" "has_type (args ! 0) t" "numeric_arg t"
  shows "has_type v (if t = TNull then TFloat64 else t)"
  using assms has_type_base [of t "args ! 0"]
  by (auto simp: fn_round_def numeric_arg_def split: scalar.splits if_splits)

lemma builtin_body_type:
  assumes "builtin_body H name args = Ok v" "builtin_rule name ts = Ok (True, t)" "has_type (args ! 0) (ts ! 0)"
  shows "has_type v t"
proof (cases "name \<in> {''round'', ''floor'', ''ceil''}")
  case True
  then have "fn_round name args = Ok v" "numeric_arg (ts ! 0)" "t = (if ts ! 0 = TNull then TFloat64 else ts ! 0)"
    using assms(1,2) by (auto simp: builtin_body_def builtin_rule_def)
  with fn_round_type assms(3) show ?thesis by blast
next
  case False
  have "v = SNull \<or> scalar_type v = t"
    using False assms(1,2)
    by (auto simp: builtin_body_def builtin_rule_def rbind_Inr_iff
        dest!: to_number_type text_builtin_type json_get_type bounded_text_type split: if_splits)
  then show ?thesis by auto
qed

lemma builtin_eval_cases:
  assumes "builtin_eval H name args = Ok v" "\<not> collection_contains name"
  obtains "name = ''json_stringify''" "rbind (h_json_encode H (args ! 0)) bounded_text = Ok v"
  | "name = ''json_object''" "fn_json_object (h_layout H) args = Ok v"
  | "name \<notin> {''json_stringify'', ''json_object''}" "list_ex is_null args" "v = SNull"
  | "name \<notin> {''json_stringify'', ''json_object''}" "\<not> list_ex is_null args" "builtin_body H name args = Ok v"
proof -
  have "rbind (builtin_signature name (map scalar_type args)) (\<lambda>_.
      if name = ''json_stringify'' then rbind (h_json_encode H (args ! 0)) bounded_text
      else if name = ''json_object'' then fn_json_object (h_layout H) args
      else if list_ex is_null args then Ok SNull
      else builtin_body H name args) = Ok v"
    using assms unfolding builtin_eval_def
    by (cases "check_call_arity name (length args)") (auto simp only: rbind_simps sum.distinct split: if_split_asm)
  then have run: "(if name = ''json_stringify'' then rbind (h_json_encode H (args ! 0)) bounded_text
      else if name = ''json_object'' then fn_json_object (h_layout H) args
      else if list_ex is_null args then Ok SNull else builtin_body H name args) = Ok v"
    by (cases "builtin_signature name (map scalar_type args)") (simp_all only: rbind_simps sum.distinct)
  show ?thesis
  proof (cases "name = ''json_stringify'' \<or> name = ''json_object''")
    case True
    then show ?thesis using run that(1,2) by auto
  next
    case False
    then show ?thesis using run that(3,4) by (cases "list_ex is_null args") auto
  qed
qed

lemma builtin_type:
  assumes "builtin_eval H name args = Ok v" "builtin_signature name ts = Ok t" "has_type (args ! 0) (ts ! 0)"
  shows "has_type v t"
proof (cases "collection_contains name")
  case True
  then show ?thesis using assms collection_type by (simp add: builtin_eval_def builtin_signature_def)
next
  case False
  have rule: "builtin_rule name ts = Ok (True, t)"
    using assms(2) False by (auto simp: builtin_signature_def rbind_Inr_iff split: if_splits)
  from assms(1) False show ?thesis
  proof (cases rule: builtin_eval_cases)
    case 1
    then show ?thesis using rule by (auto simp: builtin_rule_def rbind_Inr_iff dest!: bounded_text_type)
  next
    case 2
    then show ?thesis using rule json_object_type by (auto simp: builtin_rule_def)
  next
    case 4
    then show ?thesis using builtin_body_type [OF _ rule assms(3)] by blast
  qed simp
qed

lemma extreme_loop_mem:
  "extreme_loop g acc vs = Ok (Some v) \<Longrightarrow> v \<in> set vs \<or> acc = Some v"
proof (induction vs arbitrary: acc)
  case (Cons x vs)
  show ?case
  proof (cases "is_null x \<or> scalar_is_nan x")
    case True
    then show ?thesis using Cons.IH Cons.prems by auto
  next
    case False
    show ?thesis
    proof (cases acc)
      case None
      then show ?thesis using Cons.IH [of "Some x"] Cons.prems False by auto
    next
      case (Some prev)
      let ?pick = "\<lambda>c. case c of None \<Rightarrow> prev
        | Some ord \<Rightarrow> if g then (if ord = Less then x else prev) else if ord = Greater then x else prev"
      obtain c where "extreme_loop g (Some (?pick c)) vs = Ok (Some v)"
        using Cons.prems False Some by (auto simp: rbind_Inr_iff)
      moreover have "?pick c = x \<or> ?pick c = prev" by (auto split: option.split)
      ultimately show ?thesis using Cons.IH [of "Some (?pick c)"] Some by auto
    qed
  qed
qed simp

text \<open>The functions that return one of several arguments are typed by the first of them.\<close>

definition mixing_calls :: "string set" where
  "mixing_calls = {''coalesce'', ''greatest'', ''least''}"

definition one_type :: "data_type list \<Rightarrow> bool" where
  "one_type ts \<longleftrightarrow> ts \<noteq> [] \<and> (hd ts = TDynamic \<or> list_all (\<lambda>t. t = hd ts \<or> t = TNull) ts)"

lemma one_type_mem:
  assumes "one_type ts" "list_all2 has_type vals ts" "v \<in> set vals"
  shows "has_type v (ts ! 0)"
proof (cases "hd ts = TDynamic")
  case False
  from assms(2,3) obtain i where i: "i < length ts" "v = vals ! i" "has_type v (ts ! i)"
    by (metis in_set_conv_nth list_all2_conv_all_nth)
  then have t: "ts ! i \<in> set ts" by simp
  with False assms(1) have "ts ! i = hd ts \<or> ts ! i = TNull" by (auto simp: one_type_def list_all_iff)
  with i assms(1) show ?thesis by (auto simp: one_type_def hd_conv_nth)
qed (use assms(1) in \<open>simp add: one_type_def hd_conv_nth\<close>)

lemma call_abs_type: "call_abs vals = Ok v \<Longrightarrow> has_type (vals ! 0) t \<Longrightarrow> has_type v t"
  by (cases vals; cases "hd vals") (auto simp: call_abs_def has_type_flat is_dyn_def split: option.splits)

lemma call_text_type:
  assumes "call_text f vals = Ok v" "\<And>s. scalar_type (f s) = t"
  shows "has_type v t"
  using assms(1) has_type_exact [OF assms(2)] by (cases vals; cases "hd vals") (auto simp: call_text_def)

lemma call_type_sound:
  assumes "eval_call_values H name vals = Ok v" "\<not> builtin_contains name" "call_type name ts = Ok t"
    and vals: "list_all2 has_type vals ts" and one: "name \<in> mixing_calls \<Longrightarrow> one_type ts"
  shows "has_type v t"
proof -
  have len: "length vals = length ts" using vals by (rule list_all2_lengthD)
  have first: "has_type (vals ! 0) (ts ! 0)" if "vals \<noteq> []" using vals that by (auto simp: list_all2_conv_all_nth)
  have "name \<in> {''abs'', ''lower'', ''upper'', ''length'', ''char_length'', ''coalesce'', ''nullif'', ''greatest'', ''least''}"
    using assms(3) by (rule contrapos_pp) (simp add: call_type_def)
  then consider "name = ''abs''" | "name \<in> {''lower'', ''upper'', ''length'', ''char_length''}" | "name = ''coalesce''"
    | "name = ''nullif''" | "name = ''greatest'' \<or> name = ''least''"
    by (elim insertE emptyE) simp_all
  then show ?thesis
  proof cases
    case 1
    then have "call_abs vals = Ok v" "t = ts ! 0" using assms(1-3) by (simp_all add: eval_call_values_def call_type_def)
    moreover from this have "vals \<noteq> []" by (auto simp: call_abs_def)
    ultimately show ?thesis using first call_abs_type by blast
  next
    case 2
    then obtain f where "call_text f vals = Ok v" "\<And>s. scalar_type (f s) = t"
      using assms(1-3) by (auto simp: eval_call_values_def call_type_def)
    then show ?thesis by (rule call_text_type)
  next
    case 3
    then have r: "call_coalesce vals = Ok v" "t = ts ! 0" using assms(1-3) by (simp_all add: eval_call_values_def call_type_def)
    then have "v = SNull \<or> v \<in> set vals"
      by (auto simp: call_coalesce_def find_Some_iff split: if_splits option.splits)
    with r one_type_mem [OF one vals] 3 show ?thesis by (auto simp: mixing_calls_def)
  next
    case 4
    then have "call_nullif vals = Ok v" "t = ts ! 0" "length ts = 2"
      using assms(1-3) by (auto simp: eval_call_values_def call_type_def split: if_splits)
    moreover from this len have "vals \<noteq> []" by auto
    ultimately show ?thesis using first by (auto simp: call_nullif_def split: if_splits)
  next
    case 5
    then have r: "call_extreme (name = ''greatest'') vals = Ok v" "t = ts ! 0"
      using assms(1-3) by (auto simp: eval_call_values_def call_type_def split: if_splits)
    then have "v = SNull \<or> v \<in> set vals"
      by (auto simp: call_extreme_def rbind_Inr_iff split: if_splits option.splits dest: extreme_loop_mem)
    with r one_type_mem [OF one vals] 5 show ?thesis by (auto simp: mixing_calls_def)
  qed
qed

section \<open>Type soundness\<close>

fun homogeneous :: "schema \<Rightarrow> expr \<Rightarrow> bool" where
  "homogeneous sc (EPlugin p args) = list_all (homogeneous sc) args"
| "homogeneous sc (EColumn name) = True"
| "homogeneous sc (ELiteral s) = True"
| "homogeneous sc (ECast e t) = homogeneous sc e"
| "homogeneous sc (ETryCast e t) = homogeneous sc e"
| "homogeneous sc (EBinary op l r) = (homogeneous sc l \<and> homogeneous sc r)"
| "homogeneous sc (EIsNull e) = homogeneous sc e"
| "homogeneous sc (EIsNotNull e) = homogeneous sc e"
| "homogeneous sc (ENot e) = homogeneous sc e"
| "homogeneous sc (ECall name args) =
     (list_all (homogeneous sc) args \<and>
      (to_ascii_lowercase name \<in> mixing_calls \<longrightarrow>
         (case map_result (infer_type sc) args of Inl _ \<Rightarrow> True | Inr ts \<Rightarrow> one_type ts)))"
| "homogeneous sc (EDynamicGet e key) = homogeneous sc e"

lemma column_type:
  assumes "conforms sc row" "infer_type sc (EColumn name) = Ok t" "eval_named H sc row (EColumn name) = Ok v"
  shows "has_type v t"
proof -
  obtain i where i: "index_of_name sc name = Some i" "v = row ! i" using assms(3) by (auto split: option.splits if_splits)
  note cell = conforms_cell [OF assms(1) i(1)]
  then have "t = field_type (schema_fields sc ! i)" using assms(2) by simp
  with cell(3) i(2) show ?thesis by (auto simp: cell_ok_def has_type_def split: if_splits)
qed

lemma args_type:
  assumes "map_result (eval_named H sc row) args = Ok vals" "map_result (infer_type sc) args = Ok ts"
    and "\<And>a t v. a \<in> set args \<Longrightarrow> infer_type sc a = Ok t \<Longrightarrow> eval_named H sc row a = Ok v \<Longrightarrow> has_type v t"
  shows "list_all2 has_type vals ts"
  by (rule map_result_list_all2 [OF assms(1,2)]) (rule assms(3))

lemma arity_positive: "check_call_arity n 0 \<noteq> Ok ()"
proof
  assume "check_call_arity n 0 = Ok ()"
  then obtain f where f: "find_function n = Some f" "\<not> 0 < fn_min_args f"
    by (auto simp: check_call_arity_def rbind_Inr_iff split: if_splits)
  then have "f \<in> set fn_registry" by (auto simp: find_function_def find_Some_iff)
  moreover have "list_all (\<lambda>f. 0 < fn_min_args f) fn_registry" by code_simp
  ultimately show False using f(2) by (auto simp: list_all_iff)
qed

lemma call_sound:
  assumes run: "eval_call_values H n vals = Ok v" and ty: "infer_type sc (ECall name args) = Ok t" and n: "n = to_ascii_lowercase name"
    and vals: "map_result (eval_named H sc row) args = Ok vals"
    and IH: "\<And>a t v. a \<in> set args \<Longrightarrow> infer_type sc a = Ok t \<Longrightarrow> eval_named H sc row a = Ok v \<Longrightarrow> has_type v t"
    and hom: "homogeneous sc (ECall name args)"
  shows "has_type v t"
proof (cases "builtin_contains n")
  case True
  then obtain ts where ts: "map_result (infer_type sc) args = Ok ts" "builtin_signature n ts = Ok t" "check_call_arity n (length args) = Ok ()"
    using ty n by (auto simp: Let_def rbind_Inr_iff)
  have tys: "list_all2 has_type vals ts" by (rule args_type [OF vals ts(1) IH])
  have "args \<noteq> []" using ts(3) arity_positive [of n] by auto
  then have "0 < length vals" using map_result_Inr_length [OF vals] by simp
  then have "has_type (vals ! 0) (ts ! 0)" using tys by (rule list_all2_nthD [rotated])
  moreover have "builtin_eval H n vals = Ok v" using run True by (simp add: eval_call_values_def)
  ultimately show ?thesis using builtin_type ts(2) by blast
next
  case False
  then obtain ts where ts: "map_result (infer_type sc) args = Ok ts" "call_type n ts = Ok t"
    using ty n by (auto simp: Let_def rbind_Inr_iff split: if_splits)
  have "n \<in> mixing_calls \<Longrightarrow> one_type ts" using hom ts(1) n by simp
  moreover have "list_all2 has_type vals ts" by (rule args_type [OF vals ts(1) IH])
  ultimately show ?thesis using call_type_sound [OF run False ts(2)] by blast
qed

lemma infer_type_eval:
  assumes host: "\<And>p vs v. h_invoke H p vs = Ok v \<Longrightarrow> has_type v (pf_output p)" and row: "conforms sc row"
  shows "homogeneous sc e \<Longrightarrow> infer_type sc e = Ok t \<Longrightarrow> eval_named H sc row e = Ok v \<Longrightarrow> has_type v t"
proof (induction e arbitrary: t v)
  case (EPlugin p args)
  then show ?case using host by (auto simp: rbind_Inr_iff plugin_signature_def split: if_splits)
next
  case (EColumn name)
  then show ?case using column_type [OF row] by blast
next
  case (ECast e t')
  then show ?case by (auto simp: rbind_Inr_iff intro: cast_type)
next
  case (ETryCast e t')
  then show ?case by (auto simp: rbind_Inr_iff intro: cast_type)
next
  case (EBinary op l r)
  then obtain lt rt lv rv where lr: "infer_type sc l = Ok lt" "infer_type sc r = Ok rt" "binary_type op lt rt = Ok t"
    "eval_named H sc row l = Ok lv" "eval_named H sc row r = Ok rv" "eval_binary op lv rv = Ok v"
    by (auto simp: rbind_Inr_iff)
  have "has_type lv lt" "has_type rv rt" using EBinary.IH(1) [OF _ lr(1,4)] EBinary.IH(2) [OF _ lr(2,5)] EBinary.prems(1) by simp_all
  with lr show ?case by (blast intro: eval_binary_type)
next
  case (ENot e)
  then show ?case by (auto simp: rbind_Inr_iff intro: eval_not_type)
next
  case (ECall name args)
  then obtain vals where vals: "map_result (eval_named H sc row) args = Ok vals"
    "eval_call_values H (to_ascii_lowercase name) vals = Ok v" by (auto simp: rbind_Inr_iff)
  have IH: "has_type v t" if "a \<in> set args" "infer_type sc a = Ok t" "eval_named H sc row a = Ok v" for a t v
    using ECall.IH [OF that(1) _ that(2,3)] ECall.prems(1) that(1) by (simp add: list_all_iff)
  show ?case by (rule call_sound [OF vals(2) ECall.prems(2) refl vals(1) IH ECall.prems(1)])
qed (auto simp: rbind_Inr_iff split: if_splits)

lemma eval_eval_named: "eval H sc e row = Ok v \<Longrightarrow> eval_named H sc row e = Ok v"
  using bind_eval by (fastforce simp: eval_def rbind_Inr_iff)

text \<open>
  C32: Type inference is sound: on a row that conforms to the schema, if an expression has an
  inferred type and evaluates to a value, the value is NULL or of that type. The one condition
  beyond plugins keeping their declared output type is that the arguments of \<open>coalesce\<close>,
  \<open>greatest\<close> and \<open>least\<close> have one type, which the inference itself does not check.
\<close>

theorem infer_type_sound:
  assumes "\<And>p vs v. h_invoke H p vs = Ok v \<Longrightarrow> has_type v (pf_output p)" "conforms sc row"
    and "homogeneous sc e" "infer_type sc e = Ok t" "eval H sc e row = Ok v"
  shows "v = SNull \<or> matches_type v t"
  using infer_type_eval [OF assms(1,2,3,4) eval_eval_named [OF assms(5)]] by (simp add: has_type_def)

theorem infer_type_sound_witness:
  "infer_type demo_schema (EBinary BMul (EColumn ''n'') (ELiteral (SInt64 3))) = Ok TInt64 \<and>
   eval demo_host demo_schema (EBinary BMul (EColumn ''n'') (ELiteral (SInt64 3))) [SNull, SInt64 4] = Ok (SInt64 12) \<and>
   (SInt64 12 = SNull \<or> matches_type (SInt64 12) TInt64)"
proof -
  let ?e = "EBinary BMul (EColumn ''n'') (ELiteral (SInt64 3))" and ?row = "[SNull, SInt64 4]"
  have t: "infer_type demo_schema ?e = Ok TInt64"
    by (simp add: demo_schema_def field_by_name_def binary_type_def infer_intish_def)
  have v: "eval demo_host demo_schema ?e ?row = Ok (SInt64 12)"
    by (simp add: eval_def demo_schema_def index_of_name_def eval_binary_def is_null_def eval_arith_def is_dyn_def
        eval_int_arith_def checked_i64_def is_i64_def)
  have "conforms demo_schema ?row" by (simp add: conforms_def demo_schema_def cell_ok_def matches_type_def)
  moreover have "h_invoke demo_host p vs = Ok v \<Longrightarrow> has_type v (pf_output p)" for p vs v by (simp add: demo_host_def)
  ultimately show ?thesis using infer_type_sound [of demo_host demo_schema ?row ?e TInt64 "SInt64 12"] t v by simp
qed

lemma coalesce_type_unsound:
  "\<exists>e row b. bind demo_schema e = Ok b \<and> conforms demo_schema row \<and> infer_type demo_schema e = Ok TFloat64 \<and>
     eval demo_host demo_schema e row = Ok (SUtf8 ''x'')"
proof (intro exI conjI)
  let ?e = "ECall ''coalesce'' [EColumn ''temp'', ELiteral (SUtf8 ''x'')]"
  have c: "to_ascii_lowercase ''coalesce'' = ''coalesce''" "\<not> builtin_contains ''coalesce''"
    "check_call_arity ''coalesce'' (Suc (Suc 0)) = Ok ()" "''coalesce'' \<notin> unary_calls" by code_simp+
  show b: "bind demo_schema ?e = Ok (BCall ''coalesce'' [BColumn 0, BLiteral (SUtf8 ''x'')])"
    by (simp add: c demo_schema_def index_of_name_def)
  show "conforms demo_schema [SNull, SInt64 1]" by (simp add: conforms_def demo_schema_def cell_ok_def matches_type_def)
  show "infer_type demo_schema ?e = Ok TFloat64"
    by (simp add: c demo_schema_def field_by_name_def call_type_def)
  show "eval demo_host demo_schema ?e [SNull, SInt64 1] = Ok (SUtf8 ''x'')"
    unfolding eval_def b by (simp add: eval_call_values_def c call_coalesce_def is_null_def)
qed

section \<open>Nullability\<close>

text \<open>Expressions without division, \<open>greatest\<close> and \<open>least\<close>.\<close>

fun null_safe :: "expr \<Rightarrow> bool" where
  "null_safe (EPlugin p args) = list_all null_safe args"
| "null_safe (EColumn name) = True"
| "null_safe (ELiteral s) = True"
| "null_safe (ECast e t) = null_safe e"
| "null_safe (ETryCast e t) = null_safe e"
| "null_safe (EBinary op l r) = (op \<noteq> BDiv \<and> null_safe l \<and> null_safe r)"
| "null_safe (EIsNull e) = null_safe e"
| "null_safe (EIsNotNull e) = null_safe e"
| "null_safe (ENot e) = null_safe e"
| "null_safe (ECall name args) = (to_ascii_lowercase name \<notin> {''greatest'', ''least''} \<and> list_all null_safe args)"
| "null_safe (EDynamicGet e key) = null_safe e"

lemma is_null_simps [simp]:
  "is_null SNull" "\<not> is_null (SBool b)" "\<not> is_null (SInt64 x)" "\<not> is_null (SUInt64 n)" "\<not> is_null (SFloat64 f)"
  "\<not> is_null (SUtf8 s)" "\<not> is_null (SBytes bs)" "\<not> is_null (STimestampMicrosUTC x)" "is_null (SDynamic d) \<longleftrightarrow> d = DNull"
  by (simp_all add: is_null_def)

lemma not_null_type: "scalar_type v \<notin> {TNull, TDynamic} \<Longrightarrow> \<not> is_null v"
  by (cases v) auto

lemma arith_not_null:
  "eval_int_arith op x y = Ok v \<Longrightarrow> op \<noteq> BDiv \<Longrightarrow> \<not> is_null v"
  "eval_uint_arith op m n = Ok v \<Longrightarrow> op \<noteq> BDiv \<Longrightarrow> \<not> is_null v"
  "eval_float_arith op l r = Ok v \<Longrightarrow> op \<in> {BAdd, BSub, BMul} \<Longrightarrow> \<not> is_null v"
  by (auto simp: eval_int_arith_def eval_uint_arith_def eval_float_arith_def rbind_Inr_iff split: if_splits option.splits)

lemma eval_arith_not_null:
  assumes "eval_arith op l r = Ok v" "op \<in> {BAdd, BSub, BMul}"
  shows "\<not> is_null v"
proof -
  have "op \<noteq> BDiv" using assms(2) by auto
  with assms arith_not_null show ?thesis
    by (cases l; cases r) (auto simp: eval_arith_def simp del: insert_iff split: if_split_asm)
qed

lemma eval_binary_not_null:
  assumes "eval_binary op l r = Ok v" "op \<noteq> BDiv" "\<not> is_null l" "\<not> is_null r"
  shows "\<not> is_null v"
proof (cases "op \<in> {BAnd, BOr}")
  case True
  then show ?thesis using assms by (cases l; cases r) (auto simp: eval_binary_def eval_logic_def logic_arg_def split: if_splits)
next
  case False
  then show ?thesis
    using assms eval_arith_not_null [of op l r v]
    by (auto simp: eval_binary_def rbind_Inr_iff split: if_splits option.splits)
qed

lemma cast_not_null: "cast v t False = Ok w \<Longrightarrow> \<not> is_null v \<Longrightarrow> \<not> is_null w"
  by (cases v; cases t) (auto simp: cast_def cast_fail_def dynamic_from_scalar_def split: option.splits dynamic_value.splits if_splits)

lemma eval_not_not_null: "eval_not v = Ok w \<Longrightarrow> \<not> is_null v \<Longrightarrow> \<not> is_null w"
  by (cases v) (auto simp: eval_not_def)

lemma unwrap_not_null: "\<not> is_null v \<Longrightarrow> unwrap_scalar v \<noteq> SNull"
  by (cases v) (auto simp: unwrap_scalar_def split: dynamic_value.splits)

lemma to_number_not_null:
  "fn_to_int64 args = Ok v \<Longrightarrow> \<not> is_null (args ! 0) \<Longrightarrow> \<not> is_null v"
  "fn_to_float64 args = Ok v \<Longrightarrow> \<not> is_null (args ! 0) \<Longrightarrow> \<not> is_null v"
  "fn_to_string H args = Ok v \<Longrightarrow> \<not> is_null (args ! 0) \<Longrightarrow> \<not> is_null v"
  using unwrap_not_null [of "args ! 0"]
  by (cases "unwrap_scalar (args ! 0)"; auto simp: fn_to_int64_def fn_to_float64_def fn_to_string_def finite_float_def
      bounded_text_def split: if_splits option.splits)+

lemma fn_round_not_null: "fn_round name args = Ok v \<Longrightarrow> \<not> is_null (args ! 0) \<Longrightarrow> \<not> is_null v"
  by (cases "args ! 0") (auto simp: fn_round_def split: if_splits)

lemma builtin_body_not_null:
  assumes "builtin_body H name args = Ok v" "\<not> is_null (args ! 0)" "name \<noteq> ''json_get''"
  shows "\<not> is_null v"
proof (cases "name \<in> {''round'', ''floor'', ''ceil'', ''to_int64'', ''to_float64'', ''to_string''}")
  case True
  then have "fn_round name args = Ok v \<or> fn_to_int64 args = Ok v \<or> fn_to_float64 args = Ok v \<or> fn_to_string H args = Ok v"
    using assms(1) by (elim insertE emptyE) (simp_all add: builtin_body_def)
  then show ?thesis using fn_round_not_null to_number_not_null assms(2) by blast
next
  case False
  have "name \<in> {''concat'', ''substring'', ''replace'', ''contains'', ''starts_with'', ''ends_with'', ''trim'',
      ''parse_timestamp'', ''format_timestamp''}"
    using assms(1) by (rule contrapos_pp) (use False assms(3) in \<open>simp add: builtin_body_def\<close>)
  then have "scalar_type v \<in> {TUtf8, TBool, TTimestampMicrosUTC}"
    using assms(1) text_builtin_type
    by (elim insertE emptyE) (force simp: builtin_body_def rbind_Inr_iff dest: bounded_text_type)+
  then have "scalar_type v \<notin> {TNull, TDynamic}" by auto
  then show ?thesis by (rule not_null_type)
qed

lemma json_object_not_null:
  assumes "fn_json_object L args = Ok v" "\<not> list_ex is_null args"
  shows "\<not> is_null v"
proof -
  have "set (evens args) \<subseteq> set args" by (induction args rule: evens.induct) auto
  then have "\<not> list_ex is_null (evens args)" using assms(2) by (auto simp: list_ex_iff)
  with assms(1) obtain ps where "(case try_object ps of Inl (e, _) \<Rightarrow> Inl e | Inr d \<Rightarrow> Ok (SDynamic d)) = Ok v"
    unfolding fn_json_object_def by (simp only: if_False rbind_Inr_iff) blast
  then show ?thesis by (auto simp: try_object_def Let_def split: sum.splits prod.splits if_splits)
qed

lemma builtin_not_null:
  assumes "builtin_eval H name args = Ok v" "\<not> collection_contains name" "name \<noteq> ''json_get''" "args \<noteq> []"
    and "name = ''json_stringify'' \<or> \<not> list_ex is_null args"
  shows "\<not> is_null v"
  using assms(1,2)
proof (cases rule: builtin_eval_cases)
  case 1
  then have "scalar_type v = TUtf8" by (auto simp: rbind_Inr_iff dest!: bounded_text_type)
  then show ?thesis using not_null_type by simp
next
  case 2
  then show ?thesis using json_object_not_null assms(5) by auto
next
  case 4
  then have "\<not> is_null (args ! 0)" using assms(4) by (auto simp: list_ex_iff)
  then show ?thesis using builtin_body_not_null 4(3) assms(3) by blast
qed (use assms(5) in auto)

lemma any_result_False: "any_result f xs = Ok False \<Longrightarrow> x \<in> set xs \<Longrightarrow> f x = Ok False"
  by (induction xs) (auto simp: rbind_Inr_iff)

lemma all_result_False: "all_result f xs = Ok False \<Longrightarrow> \<exists>x \<in> set xs. f x = Ok False"
  by (induction xs) (auto simp: rbind_Inr_iff split: if_splits)

lemma map_result_mem:
  assumes "map_result f xs = Ok ys"
  shows "x \<in> set xs \<Longrightarrow> \<exists>y \<in> set ys. f x = Ok y" "y \<in> set ys \<Longrightarrow> \<exists>x \<in> set xs. f x = Ok y"
  using map_result_Inr_length [OF assms] map_result_Inr_nth [OF assms] by (metis in_set_conv_nth)+

lemma collection_json_disjoint:
  "\<not> collection_contains ''json_get''" "\<not> collection_contains ''json_stringify''"
  "builtin_contains ''json_get''" "builtin_contains ''json_stringify''"
  "builtin_contains ''to_int64''" "builtin_contains ''to_float64''" "builtin_contains ''to_string''"
  by code_simp+

lemma builtin_call_not_null:
  assumes run: "builtin_eval H n vals = Ok v" and b: "builtin_contains n" and n: "n = to_ascii_lowercase name"
    and nul: "infer_nullable sc (ECall name args) = Ok False" and vals: "map_result (eval_named H sc row) args = Ok vals"
    and args: "args \<noteq> []"
    and IH: "\<And>a v. a \<in> set args \<Longrightarrow> infer_nullable sc a = Ok False \<Longrightarrow> eval_named H sc row a = Ok v \<Longrightarrow> \<not> is_null v"
  shows "\<not> is_null v"
proof (rule builtin_not_null [OF run])
  show "\<not> collection_contains n" "n \<noteq> ''json_get''"
    using nul n by (auto simp: Let_def split: if_splits)
  show "vals \<noteq> []" using map_result_Inr_length [OF vals] args by auto
  show "n = ''json_stringify'' \<or> \<not> list_ex is_null vals"
  proof (rule disjCI)
    assume "\<not> \<not> list_ex is_null vals"
    then obtain y where y: "y \<in> set vals" "is_null y" by (auto simp: list_ex_iff)
    from map_result_mem(2) [OF vals y(1)] obtain a where a: "a \<in> set args" "eval_named H sc row a = Ok y" by blast
    have "infer_nullable sc a \<noteq> Ok False" using IH [OF a(1) _ a(2)] y(2) by blast
    then have "any_result (infer_nullable sc) args \<noteq> Ok False" using any_result_False [OF _ a(1)] by blast
    then show "n = ''json_stringify''"
      using nul n b by (auto simp: Let_def split: if_splits)
  qed
qed

lemma call_abs_not_null: "call_abs (y # ys) = Ok v \<Longrightarrow> \<not> is_null y \<Longrightarrow> \<not> is_null v"
  by (cases y) (auto simp: call_abs_def split: option.splits)

lemma call_text_not_null: "call_text f (y # ys) = Ok v \<Longrightarrow> \<not> is_null y \<Longrightarrow> (\<And>s. \<not> is_null (f s)) \<Longrightarrow> \<not> is_null v"
  by (cases y) (auto simp: call_text_def)

lemma legacy_call_not_null:
  assumes run: "eval_call_values H n vals = Ok v" and b: "\<not> builtin_contains n" and n: "n = to_ascii_lowercase name"
    and nul: "infer_nullable sc (ECall name args) = Ok False" and vals: "map_result (eval_named H sc row) args = Ok vals"
    and safe: "n \<notin> {''greatest'', ''least''}"
    and IH: "\<And>a v. a \<in> set args \<Longrightarrow> infer_nullable sc a = Ok False \<Longrightarrow> eval_named H sc row a = Ok v \<Longrightarrow> \<not> is_null v"
  shows "\<not> is_null v"
proof -
  have other: "n \<notin> {''json_get'', ''json_stringify'', ''to_int64'', ''to_float64'', ''to_string''}" "\<not> collection_contains n"
    using b collection_json_disjoint by (auto simp: builtin_contains_def)
  then have nul': "if n = ''nullif'' then False else if n = ''coalesce'' then all_result (infer_nullable sc) args = Ok False
      else args \<noteq> [] \<and> infer_nullable sc (hd args) = Ok False"
    using nul b safe n by (auto simp: Let_def split: if_splits list.splits)
  show ?thesis
  proof (cases "n = ''coalesce''")
    case True
    then obtain a where "a \<in> set args" "infer_nullable sc a = Ok False" using nul' all_result_False by auto
    then obtain y where y: "y \<in> set vals" "\<not> is_null y" using map_result_mem(1) [OF vals] IH by blast
    then obtain z where z: "List.find (\<lambda>v. \<not> is_null v) vals = Some z" by (cases "List.find (\<lambda>v. \<not> is_null v) vals") (auto simp: find_None_iff)
    moreover have "call_coalesce vals = Ok v" using run b True by (simp add: eval_call_values_def)
    moreover have "\<not> is_null z" using z by (auto simp: find_Some_iff)
    ultimately show ?thesis by (auto simp: call_coalesce_def split: if_splits)
  next
    case False
    then have a: "n \<noteq> ''nullif''" "args \<noteq> []" "infer_nullable sc (hd args) = Ok False" using nul' by (auto split: if_splits)
    then obtain y ys where y: "vals = y # ys" "eval_named H sc row (hd args) = Ok y"
      using vals by (cases args) (auto simp: rbind_Inr_iff)
    then have "\<not> is_null y" using IH [OF hd_in_set [OF a(2)] a(3)] by blast
    moreover have "n \<in> {''abs'', ''lower'', ''upper'', ''length'', ''char_length''}"
      using run by (rule contrapos_pp) (use b False a(1) safe in \<open>simp add: eval_call_values_def\<close>)
    ultimately show ?thesis
      using run b y(1) by (elim insertE emptyE) (simp_all add: eval_call_values_def call_abs_not_null call_text_not_null)
  qed
qed

lemma infer_nullable_eval:
  assumes row: "conforms sc row" and cells: "\<And>i. i < length row \<Longrightarrow> row ! i \<noteq> SDynamic DNull"
  shows "null_safe e \<Longrightarrow> infer_nullable sc e = Ok False \<Longrightarrow> eval H sc e row = Ok v \<Longrightarrow> \<not> is_null v"
proof -
  have named: "null_safe e \<Longrightarrow> bind sc e = Ok b \<Longrightarrow> infer_nullable sc e = Ok False \<Longrightarrow> eval_named H sc row e = Ok v \<Longrightarrow> \<not> is_null v"
    for b
  proof (induction e arbitrary: b v)
    case (EColumn name)
    then obtain i where i: "index_of_name sc name = Some i" "v = row ! i" by (auto split: option.splits if_splits)
    from conforms_cell [OF row i(1)] EColumn.prems(3) cells [of i] i(2) show ?case
      by (auto simp: cell_ok_def is_null_def split: if_splits)
  next
    case (ECast e t)
    then show ?case by (auto simp: rbind_Inr_iff dest: cast_not_null)
  next
    case (EBinary op l r)
    then obtain lv rv bl br where lr: "bind sc l = Ok bl" "infer_nullable sc l = Ok False" "eval_named H sc row l = Ok lv"
        "bind sc r = Ok br" "infer_nullable sc r = Ok False" "eval_named H sc row r = Ok rv" "eval_binary op lv rv = Ok v"
      by (auto simp: rbind_Inr_iff split: if_splits)
    have "\<not> is_null lv" "\<not> is_null rv" "op \<noteq> BDiv"
      using EBinary.IH(1) [OF _ lr(1-3)] EBinary.IH(2) [OF _ lr(4-6)] EBinary.prems(1) by simp_all
    then show ?case using eval_binary_not_null [OF lr(7)] by blast
  next
    case (ENot e)
    then show ?case by (auto simp: rbind_Inr_iff dest: eval_not_not_null)
  next
    case (ECall name args)
    let ?n = "to_ascii_lowercase name"
    obtain vals bs where vals: "map_result (eval_named H sc row) args = Ok vals" "eval_call_values H ?n vals = Ok v"
      "check_call_arity ?n (length args) = Ok ()" "map_result (bind sc) args = Ok bs"
      using ECall.prems by (auto simp: rbind_Inr_iff Let_def)
    have IH: "\<not> is_null y" if "a \<in> set args" "infer_nullable sc a = Ok False" "eval_named H sc row a = Ok y" for a y
      using ECall.IH [OF that(1) _ _ that(2,3)] ECall.prems(1) map_result_mem(1) [OF vals(4) that(1)] that(1)
      by (auto simp: list_all_iff)
    have ne: "args \<noteq> []" using vals(3) arity_positive [of ?n] by auto
    show ?case
    proof (cases "builtin_contains ?n")
      case True
      then have "builtin_eval H ?n vals = Ok v" using vals(2) by (simp add: eval_call_values_def)
      then show ?thesis by (rule builtin_call_not_null [OF _ True refl ECall.prems(3) vals(1) ne IH])
    next
      case False
      have "?n \<notin> {''greatest'', ''least''}" using ECall.prems(1) by simp
      then show ?thesis by (rule legacy_call_not_null [OF vals(2) False refl ECall.prems(3) vals(1) _ IH])
    qed
  qed (auto simp: rbind_Inr_iff)
  show "null_safe e \<Longrightarrow> infer_nullable sc e = Ok False \<Longrightarrow> eval H sc e row = Ok v \<Longrightarrow> \<not> is_null v"
    using named eval_eval_named by (fastforce simp: eval_def rbind_Inr_iff)
qed

text \<open>
  Nullability inference is sound on expressions without division, \<open>greatest\<close> and \<open>least\<close>: on a
  conforming row with no JSON null in a cell, an expression inferred as non-nullable does not
  evaluate to NULL.
\<close>

theorem infer_nullable_sound:
  assumes "conforms sc row" "\<And>i. i < length row \<Longrightarrow> row ! i \<noteq> SDynamic DNull"
    and "null_safe e" "infer_nullable sc e = Ok False" "eval H sc e row = Ok v"
  shows "\<not> is_null v"
  by (rule infer_nullable_eval [OF assms])

theorem infer_nullable_sound_witness:
  "infer_nullable demo_schema (EBinary BMul (EColumn ''n'') (ELiteral (SInt64 3))) = Ok False \<and> \<not> is_null (SInt64 12)"
proof -
  let ?e = "EBinary BMul (EColumn ''n'') (ELiteral (SInt64 3))" and ?row = "[SNull, SInt64 4]"
  have t: "infer_nullable demo_schema ?e = Ok False" by (simp add: demo_schema_def field_by_name_def)
  have v: "eval demo_host demo_schema ?e ?row = Ok (SInt64 12)"
    by (simp add: eval_def demo_schema_def index_of_name_def eval_binary_def eval_arith_def is_dyn_def
        eval_int_arith_def checked_i64_def is_i64_def)
  have "conforms demo_schema ?row" by (simp add: conforms_def demo_schema_def cell_ok_def matches_type_def)
  moreover have "i < length ?row \<Longrightarrow> ?row ! i \<noteq> SDynamic DNull" for i by (auto simp: nth_Cons split: nat.splits)
  ultimately show ?thesis using infer_nullable_sound [of demo_schema ?row ?e demo_host "SInt64 12"] t v by simp
qed

text \<open>
  The exceptions are real, and \<open>bind\<close> accepts both: \<open>coalesce\<close> of a nullable float column and a
  text is inferred as a float and evaluates to the text; the quotient of a non-nullable column
  by zero is inferred as non-nullable and evaluates to NULL.
\<close>

theorem inference_exceptions:
  "(\<exists>e row b. bind demo_schema e = Ok b \<and> conforms demo_schema row \<and> infer_type demo_schema e = Ok TFloat64 \<and>
     eval demo_host demo_schema e row = Ok (SUtf8 ''x'')) \<and>
   infer_nullable demo_schema (EBinary BDiv (EColumn ''n'') (ELiteral (SInt64 0))) = Ok False \<and>
   conforms demo_schema [SNull, SInt64 4] \<and>
   eval demo_host demo_schema (EBinary BDiv (EColumn ''n'') (ELiteral (SInt64 0))) [SNull, SInt64 4] = Ok SNull"
  using coalesce_type_unsound
  by (simp add: demo_schema_def field_by_name_def eval_def index_of_name_def eval_binary_def eval_arith_def is_dyn_def
      eval_int_arith_def conforms_def cell_ok_def matches_type_def)

end
