(* ===== verification/Row_Batch.thy ===== *)
theory Row_Batch
  imports Memory Scalar_Value
begin

text \<open>
  Rows, batches and the bounded builder of \<^verbatim>\<open>sparrow-model/src/batch.rs\<close>, the origin span of
  \<^verbatim>\<open>observation.rs\<close> and the output identities of \<^verbatim>\<open>output.rs\<close>. A batch holds the lease its rows
  are billed to; a handle shared between batches is the same allocation with a higher handle
  count. The capacity of a row's vector is allocator policy and an argument.
\<close>

section \<open>Rows\<close>

record row_layout = layout +
  size_of_row :: nat

definition row_resident_bytes :: "row_layout \<Rightarrow> nat \<Rightarrow> row \<Rightarrow> nat" where
  "row_resident_bytes L capacity r =
     foldl (\<lambda>n v. sat_u64 (n + resident_heap_bytes (layout.truncate L) v))
       (sat_u64 (sat_u64 (size_of_row L + sat_u64 (capacity * size_of_scalar L)) + 32)) r"

definition row_tracked_bytes :: "row \<Rightarrow> nat" where
  "row_tracked_bytes r = sum_list (map tracked_bytes r) + 8"

text \<open>\<open>detach_copy\<close> copies the payload; the copy is the same value.\<close>

definition row_detach_copy :: "row \<Rightarrow> row" where
  "row_detach_copy r = map (\<lambda>v. v) r"

section \<open>Output identities\<close>

record output_sequence =
  os_epoch :: bytes
  os_first :: nat

definition output_new :: "bytes \<Rightarrow> nat \<Rightarrow> output_sequence result" where
  "output_new epoch first =
     (if epoch = replicate 16 0 \<or> first = 0 then Err InvalidArgument
      else Ok \<lparr>os_epoch = epoch, os_first = first\<rparr>)"

definition output_advance :: "output_sequence \<Rightarrow> nat \<Rightarrow> output_sequence result" where
  "output_advance s rows =
     rbind (ok_or IntegerOverflow (checked_u64 (int (os_first s) + int rows))) (\<lambda>first. output_new (os_epoch s) first)"

definition hex_digit :: "nat \<Rightarrow> u8" where
  "hex_digit n = word_of_nat (if n < 10 then 48 + n else 87 + n)"

definition id_ascii :: "output_sequence \<Rightarrow> nat \<Rightarrow> bytes result" where
  "id_ascii s offset =
     rbind (output_advance s offset) (\<lambda>t.
       Ok (concat (map (\<lambda>b. [hex_digit (unat b div 16), hex_digit (unat b mod 16)])
             (os_epoch s @ rev (u64_le (os_first t))))))"

section \<open>Batches\<close>

record origin_span =
  or_first :: "nat option"
  or_last :: "nat option"
  or_unknown :: bool

definition origin_missing :: origin_span where
  "origin_missing = \<lparr>or_first = None, or_last = None, or_unknown = True\<rparr>"

definition origin_merge :: "origin_span \<Rightarrow> origin_span \<Rightarrow> origin_span" where
  "origin_merge o1 o2 =
     \<lparr>or_first = (case or_first o2 of None \<Rightarrow> or_first o1
        | Some t \<Rightarrow> Some (case or_first o1 of None \<Rightarrow> t | Some v \<Rightarrow> min v t)),
      or_last = (case or_last o2 of None \<Rightarrow> or_last o1
        | Some t \<Rightarrow> Some (case or_last o1 of None \<Rightarrow> t | Some v \<Rightarrow> max v t)),
      or_unknown = (or_unknown o1 \<or> or_unknown o2)\<rparr>"

record row_batch =
  rb_schema :: schema
  rb_rows :: "row list"
  rb_lease :: memory_lease
  rb_origin :: origin_span
  rb_output :: "output_sequence option"
  rb_source :: "nat option"

definition with_output_sequence :: "output_sequence \<Rightarrow> row_batch \<Rightarrow> row_batch result" where
  "with_output_sequence s b =
     rbind (output_advance s (length (rb_rows b))) (\<lambda>_. Ok (b\<lparr>rb_output := Some s\<rparr>))"

definition batch_share :: "row_batch \<Rightarrow> store \<Rightarrow> store \<times> row_batch" where
  "batch_share b st = (case share (rb_lease b) st of (st1, l) \<Rightarrow> (st1, b\<lparr>rb_lease := l\<rparr>))"

definition try_identity_projection :: "schema \<Rightarrow> memory_owner \<Rightarrow> row_batch \<Rightarrow> store \<Rightarrow> (store \<times> row_batch) option" where
  "try_identity_projection output ow b st =
     (if lease_owner (rb_lease b) \<noteq> ow \<or> alloc_kind (lease_alloc (rb_lease b)) \<noteq> Reservation \<or>
         length (rb_rows b) > max_rows (owner_budget ow) \<or>
         length (schema_fields (rb_schema b)) \<noteq> length (schema_fields output)
      then None
      else if list_ex (\<lambda>(i, t). field_type i \<noteq> field_type t \<or> (field_nullable i \<and> \<not> field_nullable t))
                (zip (schema_fields (rb_schema b)) (schema_fields output))
      then None
      else case share (rb_lease b) st of (st1, l) \<Rightarrow>
        Some (st1, b\<lparr>rb_schema := output, rb_lease := l, rb_output := None, rb_source := None\<rparr>))"

definition batch_detach :: "row_layout \<Rightarrow> (row \<Rightarrow> nat) \<Rightarrow> credit_kind \<Rightarrow> row_batch \<Rightarrow> store \<Rightarrow> (store \<times> row_batch) result" where
  "batch_detach L capacity k b st =
     (let resident = foldl (\<lambda>n r. sat_u64 (n + row_resident_bytes L (capacity r) r)) 64 (rb_rows b)
      in rbind (acquire k (max (sat_u64 (resident * 2)) (alloc_bytes (lease_alloc (rb_lease b)))) (lease_owner (rb_lease b)) st)
           (\<lambda>(st1, l). Ok (st1, b\<lparr>rb_rows := map row_detach_copy (rb_rows b), rb_lease := l\<rparr>)))"

section \<open>The builder\<close>

record batch_builder =
  bb_schema :: schema
  bb_owner :: memory_owner
  bb_kind :: credit_kind
  bb_max_rows :: nat
  bb_max_bytes :: nat
  bb_rows :: "row list"
  bb_current :: nat
  bb_lease :: "memory_lease option"

definition builder_new :: "schema \<Rightarrow> memory_owner \<Rightarrow> credit_kind \<Rightarrow> nat \<Rightarrow> nat \<Rightarrow> batch_builder result" where
  "builder_new sc ow k mrows mbytes =
     (if mrows = 0 \<or> mbytes = 0 then Err InvalidArgument
      else if mbytes > cap (owner_budget ow) k then Err InvalidArgument
      else Ok \<lparr>bb_schema = sc, bb_owner = ow, bb_kind = k, bb_max_rows = mrows, bb_max_bytes = mbytes,
               bb_rows = [], bb_current = 0, bb_lease = None\<rparr>)"

fun check_cells :: "(scalar \<times> field) list \<Rightarrow> unit result" where
  "check_cells [] = Ok ()"
| "check_cells ((v, f) # cs) =
     (if is_null v \<and> \<not> field_nullable f then Err TypeMismatch
      else if \<not> is_null v \<and> \<not> matches_type v (field_type f) then Err TypeMismatch
      else check_cells cs)"

definition push_accounted :: "row \<Rightarrow> nat \<Rightarrow> batch_builder \<Rightarrow> store \<Rightarrow> store \<times> batch_builder \<times> unit result" where
  "push_accounted r minimum b st =
     (if length r \<noteq> length (schema_fields (bb_schema b)) then (st, b, Err InvalidSchema)
      else case check_cells (zip r (schema_fields (bb_schema b))) of
        Inl e \<Rightarrow> (st, b, Inl e)
      | Inr _ \<Rightarrow>
          if length (bb_rows b) \<ge> bb_max_rows b then (st, b, Err BoundExceeded)
          else
            let next = sat_u64 (bb_current b + max (row_tracked_bytes r) minimum);
                st1 = note_builder_peak next (bb_owner b) st
            in if next > bb_max_bytes b then (st1, b, Err BoundExceeded)
               else case (case bb_lease b of
                       Some l \<Rightarrow> grow_to (max next 1) l st1
                     | None \<Rightarrow> acquire (bb_kind b) (max next 1) (bb_owner b) st1) of
                   Inl e \<Rightarrow> (st1, b, Inl e)
                 | Inr (st2, l) \<Rightarrow>
                     (st2, b\<lparr>bb_lease := Some l, bb_current := next, bb_rows := bb_rows b @ [r]\<rparr>, Ok ()))"

definition builder_push :: "row \<Rightarrow> batch_builder \<Rightarrow> store \<Rightarrow> store \<times> batch_builder \<times> unit result" where
  "builder_push r b st = push_accounted r 0 b st"

definition builder_finish :: "batch_builder \<Rightarrow> store \<Rightarrow> (store \<times> row_batch) result" where
  "builder_finish b st =
     rbind (case bb_lease b of
          Some l \<Rightarrow> Ok (st, l)
        | None \<Rightarrow> acquire (bb_kind b) (max (bb_current b) 1) (bb_owner b) st)
       (\<lambda>(st1, l). Ok (st1, \<lparr>rb_schema = bb_schema b, rb_rows = bb_rows b, rb_lease = l, rb_origin = origin_missing,
          rb_output = None, rb_source = None\<rparr>))"

text \<open>An unfinished builder that goes out of scope drops its lease.\<close>

definition builder_drop :: "batch_builder \<Rightarrow> store \<Rightarrow> store" where
  "builder_drop b st = (case bb_lease b of None \<Rightarrow> st | Some l \<Rightarrow> fst (drop_lease l st))"

section \<open>What a builder guarantees\<close>

definition row_conforms :: "schema \<Rightarrow> row \<Rightarrow> bool" where
  "row_conforms sc r \<longleftrightarrow> list_all2 (\<lambda>v f. if is_null v then field_nullable f else matches_type v (field_type f)) r (schema_fields sc)"

lemma check_cells_iff:
  "check_cells cs = Inr u \<longleftrightarrow>
     list_all (\<lambda>(v, f). if is_null v then field_nullable f else matches_type v (field_type f)) cs"
  by (induction cs rule: check_cells.induct) auto

lemma row_conforms_check:
  "row_conforms sc r \<longleftrightarrow> length r = length (schema_fields sc) \<and> check_cells (zip r (schema_fields sc)) = Inr ()"
  by (auto simp: row_conforms_def check_cells_iff list_all2_iff list_all_iff)

lemma ledger_note_peak [simp]: "ledger k (note_builder_peak n ow st i) = ledger k (st i)"
  by (cases k) (simp_all add: note_builder_peak_def)

lemma grow_ledger:
  assumes "lease_ok l" "wf_owner (lease_owner l)" "grow_to n l st = Ok (st', l')" "alloc_bytes (lease_alloc l) < n"
  shows "ledger (alloc_kind (lease_alloc l)) (st' (owner_id (lease_owner l))) =
    ledger (alloc_kind (lease_alloc l)) (st (owner_id (lease_owner l))) + (n - alloc_bytes (lease_alloc l))"
proof -
  let ?k = "alloc_kind (lease_alloc l)" and ?ow = "lease_owner l"
  note sp = grow_spec [OF assms]
  have "fits ?k (n - alloc_bytes (lease_alloc l)) st ?ow" using sp self_lineage by blast
  moreover have "cap (owner_budget ?ow) ?k < u64_max"
    using wf_owner_budget [OF assms(2)] cap_sum [of "owner_budget ?ow" ?k] by (simp add: budget_ok_def)
  ultimately have "ledger ?k (st (owner_id ?ow)) + (n - alloc_bytes (lease_alloc l)) < u64_max"
    by (auto simp: fits_def sat_u64_def split: if_splits)
  then show ?thesis using sp by (simp add: draw_def Let_def)
qed

text \<open>The lease of a builder is the only thing it has charged since its creation at \<open>base\<close>.\<close>

definition builder_inv :: "nat \<Rightarrow> batch_builder \<Rightarrow> store \<Rightarrow> bool" where
  "builder_inv base b st \<longleftrightarrow> wf_owner (bb_owner b) \<and> bb_max_bytes b \<le> cap (owner_budget (bb_owner b)) (bb_kind b) \<and>
     length (bb_rows b) \<le> bb_max_rows b \<and> list_all (row_conforms (bb_schema b)) (bb_rows b) \<and>
     sum_list (map row_tracked_bytes (bb_rows b)) \<le> bb_current b \<and> bb_current b \<le> bb_max_bytes b \<and>
     (case bb_lease b of
        None \<Rightarrow> bb_rows b = [] \<and> bb_current b = 0 \<and> ledger (bb_kind b) (st (owner_id (bb_owner b))) = base
      | Some l \<Rightarrow> lease_ok l \<and> lease_owner l = bb_owner b \<and> alloc_kind (lease_alloc l) = bb_kind b \<and>
          alloc_handles (lease_alloc l) = 1 \<and> alloc_bytes (lease_alloc l) = bb_current b \<and>
          ledger (bb_kind b) (st (owner_id (bb_owner b))) = base + bb_current b)"

lemma row_tracked_pos: "8 \<le> row_tracked_bytes r"
  by (simp add: row_tracked_bytes_def)

lemma push_cases:
  obtains (refused) e st1 where "push_accounted r m b st = (st1, b, Inl e)" "\<And>i k. ledger k (st1 i) = ledger k (st i)"
  | (accepted) nx st1 st2 l where "push_accounted r m b st =
        (st2, b\<lparr>bb_lease := Some l, bb_current := nx, bb_rows := bb_rows b @ [r]\<rparr>, Ok ())"
      "nx = sat_u64 (bb_current b + max (row_tracked_bytes r) m)" "nx \<le> bb_max_bytes b" "st1 = note_builder_peak nx (bb_owner b) st"
      "(case bb_lease b of Some l0 \<Rightarrow> grow_to (max nx 1) l0 st1 | None \<Rightarrow> acquire (bb_kind b) (max nx 1) (bb_owner b) st1) = Ok (st2, l)"
      "row_conforms (bb_schema b) r" "length (bb_rows b) < bb_max_rows b"
proof -
  define nx where "nx = sat_u64 (bb_current b + max (row_tracked_bytes r) m)"
  define lr where "lr = (case bb_lease b of Some l0 \<Rightarrow> grow_to (max nx 1) l0 (note_builder_peak nx (bb_owner b) st)
    | None \<Rightarrow> acquire (bb_kind b) (max nx 1) (bb_owner b) (note_builder_peak nx (bb_owner b) st))"
  note d = push_accounted_def [of r m b st, folded nx_def, unfolded Let_def, folded lr_def]
  show thesis
  proof (cases "row_conforms (bb_schema b) r \<and> length (bb_rows b) < bb_max_rows b \<and> nx \<le> bb_max_bytes b")
    case False
    then have "\<exists>e st1. push_accounted r m b st = (st1, b, Inl e) \<and> (\<forall>i k. ledger k (st1 i) = ledger k (st i))"
      by (auto simp: row_conforms_check d split: sum.splits)
    with refused show thesis by blast
  next
    case True
    show thesis
    proof (cases lr)
      case (Inl e)
      with True have "push_accounted r m b st = (note_builder_peak nx (bb_owner b) st, b, Inl e)"
        by (auto simp: row_conforms_check d)
      with refused show thesis by simp
    next
      case (Inr x)
      with True have "push_accounted r m b st =
          (fst x, b\<lparr>bb_lease := Some (snd x), bb_current := nx, bb_rows := bb_rows b @ [r]\<rparr>, Ok ())"
        by (auto simp: row_conforms_check d split: prod.splits)
      with True Inr show thesis by (intro accepted [OF _ nx_def _ refl]) (auto simp: lr_def)
    qed
  qed
qed

lemma push_inv:
  assumes inv: "builder_inv base b st" and push: "push_accounted r m b st = (st', b', res)"
  shows "builder_inv base b' st' \<and> bb_owner b' = bb_owner b \<and> bb_kind b' = bb_kind b \<and> bb_schema b' = bb_schema b \<and>
    bb_max_rows b' = bb_max_rows b \<and> bb_max_bytes b' = bb_max_bytes b \<and>
    bb_rows b' = (if res = Ok () then bb_rows b @ [r] else bb_rows b)"
proof (cases rule: push_cases [of r m b st])
  case (refused e st1)
  with inv push show ?thesis by (auto simp: builder_inv_def split: option.splits)
next
  case (accepted nx st1 st2 l)
  have b': "st' = st2" "b' = b\<lparr>bb_lease := Some l, bb_current := nx, bb_rows := bb_rows b @ [r]\<rparr>" "res = Ok ()"
    using accepted(1) push by auto
  have wf: "wf_owner (bb_owner b)" using inv by (simp add: builder_inv_def)
  have capb: "cap (owner_budget (bb_owner b)) (bb_kind b) < u64_max"
    using wf_owner_budget [OF wf] cap_sum [of "owner_budget (bb_owner b)" "bb_kind b"] by (simp add: budget_ok_def)
  then have nx: "nx = bb_current b + max (row_tracked_bytes r) m" "bb_current b < nx" "1 \<le> nx"
    using accepted(2,3) inv row_tracked_pos [of r] by (auto simp: builder_inv_def sat_u64_def split: if_splits)
  have "lease_ok l \<and> lease_owner l = bb_owner b \<and> alloc_kind (lease_alloc l) = bb_kind b \<and>
      alloc_handles (lease_alloc l) = 1 \<and> alloc_bytes (lease_alloc l) = nx \<and>
      ledger (bb_kind b) (st2 (owner_id (bb_owner b))) = base + nx"
  proof (cases "bb_lease b")
    case None
    with accepted(5) nx(3) have a: "acquire (bb_kind b) nx (bb_owner b) st1 = Ok (st2, l)" by (simp add: max_def)
    show ?thesis using acquire_spec [OF wf a] acquire_ledger [OF wf a] None inv accepted(4)
      by (simp add: builder_inv_def)
  next
    case (Some l0)
    with accepted(5) nx(3) have g: "grow_to nx l0 st1 = Ok (st2, l)" by (simp add: max_def)
    have l0: "lease_ok l0" "lease_owner l0 = bb_owner b" "alloc_kind (lease_alloc l0) = bb_kind b"
      "alloc_bytes (lease_alloc l0) = bb_current b" "ledger (bb_kind b) (st (owner_id (bb_owner b))) = base + bb_current b"
      using inv Some by (simp_all add: builder_inv_def)
    have "wf_owner (lease_owner l0)" "alloc_bytes (lease_alloc l0) < nx" using l0 wf nx by simp_all
    with grow_spec [OF l0(1) _ g] grow_ledger [OF l0(1) _ g] l0 nx accepted(4) show ?thesis by simp
  qed
  with b' accepted inv nx show ?thesis by (auto simp: builder_inv_def)
qed

lemma builder_new_inv:
  "builder_new sc ow k mr mb = Ok b \<Longrightarrow> wf_owner ow \<Longrightarrow> builder_inv (ledger k (st (owner_id ow))) b st"
  by (auto simp: builder_new_def builder_inv_def split: if_splits)

text \<open>Rows offered one after the other; an offer that is refused leaves the rows as they were.\<close>

fun push_all :: "(row \<times> nat) list \<Rightarrow> batch_builder \<Rightarrow> store \<Rightarrow> store \<times> batch_builder \<times> row list" where
  "push_all [] b st = (st, b, [])"
| "push_all ((r, m) # rs) b st =
     (case push_accounted r m b st of
        (st1, b1, res) \<Rightarrow> case push_all rs b1 st1 of (st2, b2, taken) \<Rightarrow>
          (st2, b2, if res = Ok () then r # taken else taken))"

lemma push_all_inv:
  "builder_inv base b st \<Longrightarrow> push_all rs b st = (st', b', taken) \<Longrightarrow>
     builder_inv base b' st' \<and> bb_owner b' = bb_owner b \<and> bb_kind b' = bb_kind b \<and> bb_schema b' = bb_schema b \<and>
     bb_max_rows b' = bb_max_rows b \<and> bb_max_bytes b' = bb_max_bytes b \<and> bb_rows b' = bb_rows b @ taken"
proof (induction rs arbitrary: b st st' b' taken)
  case (Cons rm rs)
  obtain r m where rm: "rm = (r, m)" by force
  obtain st1 b1 res where p: "push_accounted r m b st = (st1, b1, res)" by (metis prod_cases3)
  obtain st2 b2 t2 where q: "push_all rs b1 st1 = (st2, b2, t2)" by (metis prod_cases3)
  note p' = push_inv [OF Cons.prems(1) p]
  note q' = Cons.IH [OF conjunct1 [OF p'] q]
  have "st' = st2" "b' = b2" "taken = (if res = Ok () then r # t2 else t2)"
    using Cons.prems(2) p q rm by auto
  with p' q' show ?case by (cases "res = Ok ()") simp_all
qed simp

section \<open>Properties\<close>

text \<open>
  A batch comes out of a builder with exactly the rows that were accepted, in order, each
  conforming to the schema, within the row and byte bounds; and what the owner has been
  charged since the builder was created is exactly the lease the batch carries.
\<close>

theorem builder_exact:
  assumes "wf_owner ow" "builder_new sc ow k mr mb = Ok b" "push_all rs b st = (st1, b1, taken)"
    and "builder_finish b1 st1 = Ok (st2, batch)"
  shows "rb_rows batch = taken \<and> list_all (row_conforms sc) taken \<and> length taken \<le> mr \<and>
    sum_list (map row_tracked_bytes taken) \<le> alloc_bytes (lease_alloc (rb_lease batch)) \<and>
    alloc_bytes (lease_alloc (rb_lease batch)) \<le> mb \<and> lease_owner (rb_lease batch) = ow \<and>
    ledger k (st2 (owner_id ow)) = ledger k (st (owner_id ow)) + alloc_bytes (lease_alloc (rb_lease batch))"
proof -
  have b: "bb_owner b = ow" "bb_kind b = k" "bb_schema b = sc" "bb_max_rows b = mr" "bb_max_bytes b = mb" "bb_rows b = []" "0 < mb"
    using assms(2) by (auto simp: builder_new_def split: if_splits)
  note inv = push_all_inv [OF builder_new_inv [OF assms(2,1), of st] assms(3)]
  show ?thesis
  proof (cases "bb_lease b1")
    case None
    then obtain l where a: "acquire k 1 ow st1 = Ok (st2, l)" and batch: "rb_rows batch = bb_rows b1" "rb_lease batch = l"
      using assms(4) inv b by (auto simp: builder_finish_def builder_inv_def rbind_Inr_iff)
    with None inv b acquire_spec [OF assms(1) a] acquire_ledger [OF assms(1) a] show ?thesis by (auto simp: builder_inv_def)
  next
    case (Some l)
    with assms(4) inv b show ?thesis by (auto simp: builder_finish_def builder_inv_def)
  qed
qed

definition demo_schema_int :: schema where
  "demo_schema_int = \<lparr>schema_id = 1, schema_fields = [Field 1 ''id'' TInt64 False]\<rparr>"

definition demo_builder :: batch_builder where
  "demo_builder = \<lparr>bb_schema = demo_schema_int, bb_owner = demo_owner, bb_kind = Reservation, bb_max_rows = 2, bb_max_bytes = 64,
     bb_rows = [], bb_current = 0, bb_lease = None\<rparr>"

lemma demo_owner_wf: "wf_owner demo_owner"
  by (simp add: demo_owner_def budget_ok_def budget_compact_def)

theorem builder_exact_witness:
  "\<exists>st1 b1 taken st2 batch. wf_owner demo_owner \<and>
     builder_new demo_schema_int demo_owner Reservation 2 64 = Ok demo_builder \<and>
     push_all [([SInt64 7], 0), ([SNull], 0), ([SInt64 8], 30)] demo_builder (\<lambda>_. counters_new) = (st1, b1, taken) \<and>
     builder_finish b1 st1 = Ok (st2, batch) \<and> rb_rows batch = taken \<and> list_all (row_conforms demo_schema_int) taken \<and>
     length taken \<le> 2 \<and> sum_list (map row_tracked_bytes taken) \<le> alloc_bytes (lease_alloc (rb_lease batch)) \<and>
     alloc_bytes (lease_alloc (rb_lease batch)) \<le> 64 \<and> lease_owner (rb_lease batch) = demo_owner \<and>
     ledger Reservation (st2 (owner_id demo_owner)) = alloc_bytes (lease_alloc (rb_lease batch))"
proof -
  have new: "builder_new demo_schema_int demo_owner Reservation 2 64 = Ok demo_builder"
    by (simp add: builder_new_def demo_builder_def demo_owner_def budget_compact_def)
  obtain st1 b1 taken where push: "push_all [([SInt64 7], 0), ([SNull], 0), ([SInt64 8], 30)] demo_builder (\<lambda>_. counters_new) = (st1, b1, taken)"
    by (metis prod_cases3)
  then have "bb_lease b1 \<noteq> None"
    by (simp add: push_accounted_def demo_builder_def demo_schema_int_def Let_def is_null_def matches_type_def row_tracked_bytes_def
        tracked_bytes_def sat_u64_def note_builder_peak_def demo_owner_def counters_new_def budget_compact_def own_acquire_def
        draw_def new_handle_def) auto
  then obtain st2 batch where fin: "builder_finish b1 st1 = Ok (st2, batch)"
    by (auto simp: builder_finish_def)
  have "ledger Reservation ((\<lambda>_. counters_new) (owner_id demo_owner)) = 0" by (simp add: counters_new_def)
  with builder_exact [OF demo_owner_wf new push fin] demo_owner_wf new push fin show ?thesis
    by (metis add_0)
qed

section \<open>Output identities do not depend on batch boundaries\<close>

lemma output_advance_Inr: "output_advance s n = Inr t \<longleftrightarrow>
   os_first s + n \<le> u64_max \<and> os_epoch s \<noteq> replicate 16 0 \<and> 0 < os_first s + n \<and> t = \<lparr>os_epoch = os_epoch s, os_first = os_first s + n\<rparr>"
proof -
  have "nat (int (os_first s) + int n) = os_first s + n" "(int (os_first s) + int n \<le> int u64_max) = (os_first s + n \<le> u64_max)"
    by linarith+
  then show ?thesis by (auto simp: output_advance_def output_new_def rbind_Inr_iff)
qed

lemma hex_digit_inject: "m < 16 \<Longrightarrow> n < 16 \<Longrightarrow> hex_digit m = hex_digit n \<Longrightarrow> m = n"
proof -
  assume mn: "m < 16" "n < 16" and eq: "hex_digit m = hex_digit n"
  have u: "unat (hex_digit k) = (if k < 10 then 48 + k else 87 + k)" if "k < 16" for k
    using that by (simp add: hex_digit_def unat_of_nat)
  from eq have "unat (hex_digit m) = unat (hex_digit n)" by simp
  with u [OF mn(1)] u [OF mn(2)] mn show "m = n" by (auto split: if_splits)
qed

lemma hex_pair_inject:
  "hex_digit (unat (a :: u8) div 16) = hex_digit (unat b div 16) \<Longrightarrow> hex_digit (unat a mod 16) = hex_digit (unat b mod 16) \<Longrightarrow> a = b"
proof -
  assume d: "hex_digit (unat a div 16) = hex_digit (unat b div 16)" and m: "hex_digit (unat a mod 16) = hex_digit (unat b mod 16)"
  have "unat a < 256" "unat b < 256" using unsigned_less [of a] unsigned_less [of b] by simp_all
  then have "unat a div 16 = unat b div 16" "unat a mod 16 = unat b mod 16"
    by (intro hex_digit_inject [OF _ _ d] hex_digit_inject [OF _ _ m]; simp)+
  then have "unat a = unat b" by (metis div_mult_mod_eq)
  then show "a = b" by (simp add: word_unat_eq_iff)
qed

lemma hex_text_inject:
  "length (xs :: bytes) = length ys \<Longrightarrow>
   concat (map (\<lambda>b. [hex_digit (unat b div 16), hex_digit (unat b mod 16)]) xs) =
     concat (map (\<lambda>b. [hex_digit (unat b div 16), hex_digit (unat b mod 16)]) ys) \<longleftrightarrow> xs = ys"
  by (induction xs ys rule: list_induct2) (auto intro: hex_pair_inject)

text \<open>
  Output identities name rows, not batches: the identity of a row is the same whether it is
  counted from the start of the sequence or from the batch that carries it, and two rows of
  any two sequences have the same 48-byte identity only if they have the same epoch and
  ordinal.
\<close>

theorem output_identity:
  assumes "os_epoch s \<noteq> replicate 16 0" "0 < os_first s" "length (os_epoch s) = 16" "length (os_epoch s') = 16"
  shows "rbind (output_advance s n) (\<lambda>t. id_ascii t i) = id_ascii s (n + i) \<and>
    (id_ascii s i = Ok a \<and> id_ascii s' j = Ok a \<longrightarrow> os_epoch s = os_epoch s' \<and> os_first s + i = os_first s' + j)"
proof
  show "rbind (output_advance s n) (\<lambda>t. id_ascii t i) = id_ascii s (n + i)"
  proof (cases "output_advance s n")
    case (Inr t)
    then have t: "t = \<lparr>os_epoch = os_epoch s, os_first = os_first s + n\<rparr>" by (simp add: output_advance_Inr)
    then have "output_advance t i = output_advance s (n + i)" by (simp add: output_advance_def ac_simps)
    with Inr t show ?thesis by (simp add: id_ascii_def)
  next
    case (Inl e)
    then have "e = new_error IntegerOverflow" "\<not> int (os_first s) + int n \<le> int u64_max"
      using assms(1,2) by (auto simp: output_advance_def output_new_def checked_u64_def split: if_splits)
    then have "output_advance s (n + i) = Inl e"
      by (auto simp: output_advance_def checked_u64_def)
    with Inl show ?thesis by (simp add: id_ascii_def)
  qed
  show "id_ascii s i = Ok a \<and> id_ascii s' j = Ok a \<longrightarrow> os_epoch s = os_epoch s' \<and> os_first s + i = os_first s' + j"
  proof (intro impI, elim conjE)
    assume "id_ascii s i = Ok a" "id_ascii s' j = Ok a"
    then have fits: "os_first s + i \<le> u64_max" "os_first s' + j \<le> u64_max"
      and "os_epoch s @ rev (u64_le (os_first s + i)) = os_epoch s' @ rev (u64_le (os_first s' + j))"
      using assms(3,4) by (auto simp: id_ascii_def rbind_Inr_iff output_advance_Inr hex_text_inject simp flip: map_append concat_append)
    then have "os_epoch s = os_epoch s'" "u64_le (os_first s + i) = u64_le (os_first s' + j)"
      using assms(3,4) by auto
    then show "os_epoch s = os_epoch s' \<and> os_first s + i = os_first s' + j"
      using fits by (simp add: u64_codec.enc_inject is_u64_def)
  qed
qed

theorem output_identity_witness:
  "rbind (output_advance \<lparr>os_epoch = replicate 16 7, os_first = 1\<rparr> 3) (\<lambda>t. id_ascii t 4) =
     id_ascii \<lparr>os_epoch = replicate 16 7, os_first = 1\<rparr> 7 \<and> replicate 16 (7::u8) \<noteq> replicate 16 0"
proof -
  have "os_epoch \<lparr>os_epoch = replicate 16 (7::u8), os_first = 1\<rparr> \<noteq> replicate 16 0"
    "0 < os_first \<lparr>os_epoch = replicate 16 (7::u8), os_first = 1\<rparr>"
    "length (os_epoch \<lparr>os_epoch = replicate 16 (7::u8), os_first = 1\<rparr>) = 16" by simp_all
  from output_identity [OF this(1,2,3,3), of 3 4] show ?thesis by simp
qed

end
