(* ===== verification/Alarm.thy ===== *)
theory Alarm
  imports Prelude
begin

text \<open>
  The alarm lifecycle of \<^verbatim>\<open>sparrow-runtime/src/alarm.rs\<close>: a pure transition machine over one
  key's phase, its condition timer and its deferred notification. Times are \<open>i64\<close>
  microseconds and every sum is checked; an episode is a \<open>u64\<close> that may not wrap.
\<close>

section \<open>Policy, phases and events\<close>

record alarm_policy =
  activate_micros :: int
  resolve_micros :: int
  cooldown_micros :: int
  notification_max_age_micros :: int

definition alarm_add :: "int \<Rightarrow> int \<Rightarrow> int result" where
  "alarm_add at duration = ok_or CodecViolation (checked_i64 (at + duration))"

definition policy_validate :: "alarm_policy \<Rightarrow> unit result" where
  "policy_validate p =
     (if activate_micros p < 0 \<or> resolve_micros p < 0 \<or> cooldown_micros p < 0 \<or> notification_max_age_micros p \<le> 0
      then Err CodecViolation else Ok ())"

datatype phase = Normal | Pending | Active | Recovering

fun phase_tag :: "phase \<Rightarrow> nat" where
  "phase_tag Normal = 0"
| "phase_tag Pending = 1"
| "phase_tag Active = 2"
| "phase_tag Recovering = 3"

definition phase_from_tag :: "nat \<Rightarrow> phase result" where
  "phase_from_tag t =
     (if t = 0 then Ok Normal else if t = 1 then Ok Pending else if t = 2 then Ok Active
      else if t = 3 then Ok Recovering else Err CodecViolation)"

fun phase_name :: "phase \<Rightarrow> string" where
  "phase_name Normal = ''normal''"
| "phase_name Pending = ''pending''"
| "phase_name Active = ''active''"
| "phase_name Recovering = ''recovering''"

datatype event_kind = Activate | Resolve | Notify

fun event_kind_name :: "event_kind \<Rightarrow> string" where
  "event_kind_name Activate = ''activate''"
| "event_kind_name Resolve = ''resolve''"
| "event_kind_name Notify = ''notify''"

record alarm_event =
  ev_kind :: event_kind
  ev_phase :: phase
  ev_episode :: nat
  ev_notify :: bool
  ev_at :: int

record alarm_state =
  a_phase :: phase
  a_since :: int
  a_deadline :: "int option"
  a_episode :: nat
  a_not_before :: int
  a_notification_since :: "int option"

record alarm_effects =
  fx_event :: "alarm_event option"
  fx_expired :: bool
  fx_cancelled :: bool

definition no_effects :: alarm_effects where
  "no_effects = \<lparr>fx_event = None, fx_expired = False, fx_cancelled = False\<rparr>"

section \<open>Operations\<close>

definition alarm_new :: "int \<Rightarrow> alarm_state result" where
  "alarm_new now =
     (if now < 0 then Err CodecViolation
      else Ok \<lparr>a_phase = Normal, a_since = now, a_deadline = None, a_episode = 0, a_not_before = 0,
               a_notification_since = None\<rparr>)"

definition notification_deadline :: "alarm_policy \<Rightarrow> alarm_state \<Rightarrow> int option result" where
  "notification_deadline p s =
     (case a_notification_since s of
        None \<Rightarrow> Ok None
      | Some since \<Rightarrow> rbind (alarm_add since (notification_max_age_micros p)) (\<lambda>t. Ok (Some (min (a_not_before s) t))))"

text \<open>\<open>min\<close> of the chained iterators: the least deadline present.\<close>

fun min_option :: "int option \<Rightarrow> int option \<Rightarrow> int option" where
  "min_option None y = y"
| "min_option (Some x) None = Some x"
| "min_option (Some x) (Some y) = Some (min x y)"

definition alarm_next_deadline :: "alarm_policy \<Rightarrow> alarm_state \<Rightarrow> int option result" where
  "alarm_next_deadline p s = rbind (notification_deadline p s) (\<lambda>n. Ok (min_option (a_deadline s) n))"

definition overdue :: "int option \<Rightarrow> int \<Rightarrow> bool" where
  "overdue d now = (case d of None \<Rightarrow> False | Some t \<Rightarrow> t \<le> now)"

definition expected_deadline :: "alarm_policy \<Rightarrow> bool \<Rightarrow> bool \<Rightarrow> alarm_state \<Rightarrow> int option result" where
  "expected_deadline p enter clear s =
     (case a_phase s of
        Pending \<Rightarrow> if enter \<and> \<not> clear \<and> activate_micros p > 0
          then rbind (alarm_add (a_since s) (activate_micros p)) (\<lambda>t. Ok (Some t)) else Err CodecViolation
      | Recovering \<Rightarrow> if clear \<and> \<not> enter \<and> a_episode s > 0 \<and> resolve_micros p > 0
          then rbind (alarm_add (a_since s) (resolve_micros p)) (\<lambda>t. Ok (Some t)) else Err CodecViolation
      | Normal \<Rightarrow> if \<not> enter then Ok None else Err CodecViolation
      | Active \<Rightarrow> if \<not> clear \<and> a_episode s > 0 then Ok None else Err CodecViolation)"

definition validate_conditions :: "alarm_policy \<Rightarrow> bool \<Rightarrow> bool \<Rightarrow> alarm_state \<Rightarrow> unit result" where
  "validate_conditions p enter clear s =
     rbind (policy_validate p) (\<lambda>_.
       if (enter \<and> clear) \<or> a_since s < 0 \<or> a_not_before s < 0 \<or>
          (a_episode s = 0 \<and> (a_not_before s \<noteq> 0 \<or> a_notification_since s \<noteq> None))
       then Err CodecViolation
       else rbind (expected_deadline p enter clear s) (\<lambda>expected.
         if a_deadline s \<noteq> expected then Err CodecViolation
         else case a_notification_since s of
             None \<Rightarrow> Ok ()
           | Some since \<Rightarrow>
               if a_phase s \<notin> {Active, Recovering} \<or> a_episode s = 0 \<or> since < 0 \<or> a_not_before s \<le> since
               then Err CodecViolation else Ok ()))"

definition alarm_validate :: "alarm_policy \<Rightarrow> int \<Rightarrow> bool \<Rightarrow> bool \<Rightarrow> alarm_state \<Rightarrow> unit result" where
  "alarm_validate p now enter clear s =
     rbind (validate_conditions p enter clear s) (\<lambda>_.
       if now < 0 \<or> a_since s < 0 \<or> a_since s > now \<or> a_not_before s < 0 \<or> (enter \<and> clear) \<or>
          a_not_before s > sat_i64 (now + cooldown_micros p) \<or>
          (a_episode s = 0 \<and> (a_not_before s \<noteq> 0 \<or> a_notification_since s \<noteq> None))
       then Err CodecViolation
       else rbind (alarm_next_deadline p s) (\<lambda>d.
         if overdue d now \<or> (case a_notification_since s of None \<Rightarrow> False | Some t \<Rightarrow> t > now)
         then Err CodecViolation else Ok ()))"

definition alarm_event_of :: "alarm_state \<Rightarrow> event_kind \<Rightarrow> bool \<Rightarrow> int \<Rightarrow> alarm_event" where
  "alarm_event_of s kind notify now =
     \<lparr>ev_kind = kind, ev_phase = a_phase s, ev_episode = a_episode s, ev_notify = notify, ev_at = now\<rparr>"

definition alarm_activate :: "alarm_policy \<Rightarrow> int \<Rightarrow> alarm_state \<Rightarrow> (alarm_state \<times> alarm_effects) result" where
  "alarm_activate p now s =
     rbind (ok_or CodecViolation (checked_u64 (int (a_episode s) + 1))) (\<lambda>ep.
       let s1 = s\<lparr>a_episode := ep, a_phase := Active, a_since := now, a_deadline := None\<rparr>;
           notify = (now \<ge> a_not_before s1)
       in rbind
            (if notify
             then rbind (alarm_add now (cooldown_micros p)) (\<lambda>t. Ok (s1\<lparr>a_not_before := t, a_notification_since := None\<rparr>))
             else rbind (alarm_add now (notification_max_age_micros p)) (\<lambda>_. Ok (s1\<lparr>a_notification_since := Some now\<rparr>)))
            (\<lambda>s2. Ok (s2, no_effects\<lparr>fx_event := Some (alarm_event_of s2 Activate notify now)\<rparr>)))"

definition alarm_resolve :: "alarm_policy \<Rightarrow> int \<Rightarrow> alarm_state \<Rightarrow> (alarm_state \<times> alarm_effects) result" where
  "alarm_resolve p now s =
     (let cancelled = (a_notification_since s \<noteq> None);
          s1 = s\<lparr>a_notification_since := None, a_phase := Normal, a_since := now, a_deadline := None\<rparr>
      in rbind (alarm_add now (cooldown_micros p)) (\<lambda>t.
           let s2 = s1\<lparr>a_not_before := t\<rparr>
           in Ok (s2, no_effects\<lparr>fx_event := Some (alarm_event_of s2 Resolve True now), fx_cancelled := cancelled\<rparr>)))"

definition enter_phase :: "phase \<Rightarrow> int \<Rightarrow> int option \<Rightarrow> alarm_state \<Rightarrow> alarm_state \<times> alarm_effects" where
  "enter_phase ph now d s = (s\<lparr>a_phase := ph, a_since := now, a_deadline := d\<rparr>, no_effects)"

definition alarm_observe ::
    "alarm_policy \<Rightarrow> int \<Rightarrow> bool \<Rightarrow> bool \<Rightarrow> alarm_state \<Rightarrow> (alarm_state \<times> alarm_effects) result" where
  "alarm_observe p now enter clear s =
     rbind (policy_validate p) (\<lambda>_.
       if now < 0 \<or> now < a_since s \<or> (enter \<and> clear) then Err CodecViolation
       else rbind (alarm_next_deadline p s) (\<lambda>d.
         if overdue d now then Err CodecViolation
         else case (a_phase s, enter, clear) of
             (Normal, True, False) \<Rightarrow>
               if activate_micros p = 0 then alarm_activate p now s
               else rbind (alarm_add now (activate_micros p)) (\<lambda>t. Ok (enter_phase Pending now (Some t) s))
           | (Pending, False, _) \<Rightarrow> Ok (enter_phase Normal now None s)
           | (Active, False, True) \<Rightarrow>
               if resolve_micros p = 0 then alarm_resolve p now s
               else rbind (alarm_add now (resolve_micros p)) (\<lambda>t. Ok (enter_phase Recovering now (Some t) s))
           | (Recovering, _, False) \<Rightarrow> Ok (enter_phase Active now None s)
           | _ \<Rightarrow> Ok (s, no_effects)))"

definition alarm_due :: "alarm_policy \<Rightarrow> int \<Rightarrow> alarm_state \<Rightarrow> (alarm_state \<times> alarm_effects) result" where
  "alarm_due p now s =
     rbind (policy_validate p) (\<lambda>_.
       if now < 0 \<or> now < a_since s then Err CodecViolation
       else rbind (alarm_next_deadline p s) (\<lambda>d.
         if \<not> overdue d now then Ok (s, no_effects)
         else if a_deadline s = d then
           (case a_phase s of
              Pending \<Rightarrow> alarm_activate p now s
            | Recovering \<Rightarrow> alarm_resolve p now s
            | _ \<Rightarrow> Err CodecViolation)
         else rbind (ok_or CodecViolation (a_notification_since s)) (\<lambda>since.
           let s1 = s\<lparr>a_notification_since := None\<rparr>
           in rbind (alarm_add since (notification_max_age_micros p)) (\<lambda>limit.
                if limit \<le> now then Ok (s1, no_effects\<lparr>fx_expired := True\<rparr>)
                else rbind (alarm_add now (cooldown_micros p)) (\<lambda>t.
                  let s2 = s1\<lparr>a_not_before := t\<rparr>
                  in Ok (s2, no_effects\<lparr>fx_event := Some (alarm_event_of s2 Notify True now)\<rparr>))))))"

section \<open>Reachable states\<close>

text \<open>
  The life of one key: its first row creates and observes the state, then rows are observed
  and timers fall due at times that never decrease. \<open>e\<close> and \<open>c\<close> are the conditions of the
  last row observed.
\<close>

inductive alarm_reach :: "alarm_policy \<Rightarrow> int \<Rightarrow> bool \<Rightarrow> bool \<Rightarrow> alarm_state \<Rightarrow> bool" for p where
  ar_first: "alarm_new now = Ok s0 \<Longrightarrow> alarm_observe p now e c s0 = Ok (s, fx) \<Longrightarrow> alarm_reach p now e c s"
| ar_observe: "alarm_reach p t e c s \<Longrightarrow> t \<le> now \<Longrightarrow> alarm_observe p now e' c' s = Ok (s', fx) \<Longrightarrow>
    alarm_reach p now e' c' s'"
| ar_due: "alarm_reach p t e c s \<Longrightarrow> t \<le> now \<Longrightarrow> alarm_due p now s = Ok (s', fx) \<Longrightarrow> alarm_reach p now e c s'"

text \<open>Everything a cut checks but the overdue timers.\<close>

definition alarm_ok :: "alarm_policy \<Rightarrow> int \<Rightarrow> bool \<Rightarrow> bool \<Rightarrow> alarm_state \<Rightarrow> bool" where
  "alarm_ok p t e c s \<longleftrightarrow> validate_conditions p e c s = Ok () \<and> 0 \<le> t \<and> a_since s \<le> t \<and>
     a_not_before s \<le> t + cooldown_micros p \<and> a_not_before s \<le> i64_max \<and>
     (case a_notification_since s of None \<Rightarrow> True | Some n \<Rightarrow> n \<le> t \<and> n + notification_max_age_micros p \<le> i64_max)"

lemma alarm_add_Inr [simp]: "alarm_add a b = Inr t \<longleftrightarrow> t = a + b \<and> is_i64 (a + b)"
  by (simp add: alarm_add_def)

lemma policy_validate_Inr [simp]: "policy_validate p = Inr u \<longleftrightarrow>
   0 \<le> activate_micros p \<and> 0 \<le> resolve_micros p \<and> 0 \<le> cooldown_micros p \<and> 0 < notification_max_age_micros p"
  by (auto simp: policy_validate_def)

lemma overdue_simps [simp]: "overdue None now = False" "overdue (Some t) now = (t \<le> now)"
  by (simp_all add: overdue_def)

lemma min_option_None [simp]: "min_option x None = x"
  by (cases x) simp_all

lemma overdue_min [simp]: "overdue (min_option a b) now \<longleftrightarrow> overdue a now \<or> overdue b now"
  by (cases a; cases b) auto

lemma notification_deadline_Inr: "notification_deadline p s = Inr d \<longleftrightarrow>
    (case a_notification_since s of None \<Rightarrow> d = None
     | Some n \<Rightarrow> is_i64 (n + notification_max_age_micros p) \<and> d = Some (min (a_not_before s) (n + notification_max_age_micros p)))"
  by (auto simp: notification_deadline_def rbind_Inr_iff split: option.splits)

lemma next_deadline_Inr: "alarm_next_deadline p s = Inr d \<longleftrightarrow>
    (\<exists>n. notification_deadline p s = Inr n \<and> d = min_option (a_deadline s) n)"
  by (auto simp: alarm_next_deadline_def rbind_Inr_iff)

lemma expected_deadline_Inr: "expected_deadline p e c s = Inr d \<longleftrightarrow>
    (case a_phase s of
       Pending \<Rightarrow> e \<and> \<not> c \<and> 0 < activate_micros p \<and> is_i64 (a_since s + activate_micros p) \<and> d = Some (a_since s + activate_micros p)
     | Recovering \<Rightarrow> c \<and> \<not> e \<and> 0 < a_episode s \<and> 0 < resolve_micros p \<and> is_i64 (a_since s + resolve_micros p) \<and>
         d = Some (a_since s + resolve_micros p)
     | Normal \<Rightarrow> \<not> e \<and> d = None
     | Active \<Rightarrow> \<not> c \<and> 0 < a_episode s \<and> d = None)"
  by (auto simp: expected_deadline_def rbind_Inr_iff split: phase.splits)

lemma validate_conditions_Inr: "validate_conditions p e c s = Inr u \<longleftrightarrow>
    0 \<le> activate_micros p \<and> 0 \<le> resolve_micros p \<and> 0 \<le> cooldown_micros p \<and> 0 < notification_max_age_micros p \<and>
    \<not> (e \<and> c) \<and> 0 \<le> a_since s \<and> 0 \<le> a_not_before s \<and>
    (a_episode s = 0 \<longrightarrow> a_not_before s = 0 \<and> a_notification_since s = None) \<and>
    expected_deadline p e c s = Inr (a_deadline s) \<and>
    (case a_notification_since s of None \<Rightarrow> True
     | Some n \<Rightarrow> a_phase s \<in> {Active, Recovering} \<and> 0 < a_episode s \<and> 0 \<le> n \<and> n < a_not_before s)"
  by (auto simp: validate_conditions_def rbind_Inr_iff split: option.splits)

lemma alarm_activate_Inr: "alarm_activate p now s = Inr (s', fx) \<longleftrightarrow> a_episode s < u64_max \<and>
    (if a_not_before s \<le> now
     then is_i64 (now + cooldown_micros p) \<and>
       s' = s\<lparr>a_episode := Suc (a_episode s), a_phase := Active, a_since := now, a_deadline := None,
              a_not_before := now + cooldown_micros p, a_notification_since := None\<rparr>
     else is_i64 (now + notification_max_age_micros p) \<and>
       s' = s\<lparr>a_episode := Suc (a_episode s), a_phase := Active, a_since := now, a_deadline := None,
              a_notification_since := Some now\<rparr>) \<and>
    fx = no_effects\<lparr>fx_event := Some (alarm_event_of s' Activate (a_not_before s \<le> now) now)\<rparr>"
proof -
  have "nat (int (a_episode s) + 1) = Suc (a_episode s)" "(int (a_episode s) + 1 \<le> int u64_max) = (a_episode s < u64_max)"
    by linarith+
  then show ?thesis by (auto simp: alarm_activate_def rbind_Inr_iff Let_def)
qed

lemma alarm_resolve_Inr: "alarm_resolve p now s = Inr (s', fx) \<longleftrightarrow> is_i64 (now + cooldown_micros p) \<and>
    s' = s\<lparr>a_notification_since := None, a_phase := Normal, a_since := now, a_deadline := None,
           a_not_before := now + cooldown_micros p\<rparr> \<and>
    fx = no_effects\<lparr>fx_event := Some (alarm_event_of s' Resolve True now), fx_cancelled := a_notification_since s \<noteq> None\<rparr>"
  by (auto simp: alarm_resolve_def rbind_Inr_iff Let_def)

text \<open>What a successful row and a successful timer call do, outcome by outcome.\<close>

lemma alarm_observe_elim:
  assumes "alarm_observe p now e c s = Inr (s', fx)"
  obtains d where "policy_validate p = Inr ()" "0 \<le> now" "a_since s \<le> now" "\<not> (e \<and> c)"
      "alarm_next_deadline p s = Inr d" "\<not> overdue d now"
    and "a_phase s = Normal \<and> e \<and> activate_micros p = 0 \<and> alarm_activate p now s = Inr (s', fx) \<or>
     a_phase s = Normal \<and> e \<and> activate_micros p \<noteq> 0 \<and> is_i64 (now + activate_micros p) \<and>
       (s', fx) = enter_phase Pending now (Some (now + activate_micros p)) s \<or>
     a_phase s = Pending \<and> \<not> e \<and> (s', fx) = enter_phase Normal now None s \<or>
     a_phase s = Active \<and> c \<and> resolve_micros p = 0 \<and> alarm_resolve p now s = Inr (s', fx) \<or>
     a_phase s = Active \<and> c \<and> resolve_micros p \<noteq> 0 \<and> is_i64 (now + resolve_micros p) \<and>
       (s', fx) = enter_phase Recovering now (Some (now + resolve_micros p)) s \<or>
     a_phase s = Recovering \<and> \<not> c \<and> (s', fx) = enter_phase Active now None s \<or>
     s' = s \<and> fx = no_effects \<and> (a_phase s = Normal \<longrightarrow> \<not> e) \<and> (a_phase s = Pending \<longrightarrow> e) \<and>
       (a_phase s = Active \<longrightarrow> \<not> c) \<and> (a_phase s = Recovering \<longrightarrow> c)"
proof -
  from assms obtain d where g: "policy_validate p = Inr ()" "0 \<le> now" "a_since s \<le> now" "\<not> (e \<and> c)"
      "alarm_next_deadline p s = Inr d" "\<not> overdue d now"
    by (auto simp: alarm_observe_def rbind_Inr_iff split: if_splits)
  show thesis
    using assms g
    by (intro that [OF g], cases "a_phase s"; cases e; cases c)
      (auto simp: alarm_observe_def rbind_Inr_iff split: if_splits)
qed

lemma alarm_due_elim:
  assumes "alarm_due p now s = Inr (s', fx)"
  obtains d where "policy_validate p = Inr ()" "0 \<le> now" "a_since s \<le> now" "alarm_next_deadline p s = Inr d"
    and "\<not> overdue d now \<and> s' = s \<and> fx = no_effects \<or>
     overdue d now \<and> a_deadline s = d \<and> a_phase s = Pending \<and> alarm_activate p now s = Inr (s', fx) \<or>
     overdue d now \<and> a_deadline s = d \<and> a_phase s = Recovering \<and> alarm_resolve p now s = Inr (s', fx) \<or>
     (\<exists>since. a_notification_since s = Some since \<and> overdue d now \<and> a_deadline s \<noteq> d \<and>
       (since + notification_max_age_micros p \<le> now \<and> s' = s\<lparr>a_notification_since := None\<rparr> \<and>
          fx = no_effects\<lparr>fx_expired := True\<rparr> \<or>
        now < since + notification_max_age_micros p \<and> is_i64 (now + cooldown_micros p) \<and>
          s' = s\<lparr>a_notification_since := None, a_not_before := now + cooldown_micros p\<rparr> \<and>
          fx = no_effects\<lparr>fx_event := Some (alarm_event_of s' Notify True now)\<rparr>))"
proof -
  from assms obtain d where g: "policy_validate p = Inr ()" "0 \<le> now" "a_since s \<le> now" "alarm_next_deadline p s = Inr d"
    by (auto simp: alarm_due_def rbind_Inr_iff split: if_splits)
  show thesis
    using assms g
    by (intro that [OF g], cases "a_phase s")
      (auto simp: alarm_due_def rbind_Inr_iff Let_def split: if_splits)
qed

lemma activate_ok:
  assumes "alarm_activate p now s = Inr (s', fx)" "policy_validate p = Inr ()" "0 \<le> now" "e" "\<not> c"
    "0 \<le> a_not_before s" "a_not_before s \<le> t + cooldown_micros p" "t \<le> now" "a_not_before s \<le> i64_max"
  shows "alarm_ok p now e c s'"
proof -
  have "\<not> a_not_before s \<le> now \<Longrightarrow> a_episode s = 0 \<Longrightarrow> a_not_before s \<noteq> 0" using assms by simp
  with assms show ?thesis
    by (auto simp: alarm_activate_Inr alarm_ok_def validate_conditions_Inr expected_deadline_Inr is_i64_def split: if_splits)
qed

lemma resolve_ok:
  assumes "alarm_resolve p now s = Inr (s', fx)" "policy_validate p = Inr ()" "0 \<le> now" "\<not> e" "0 < a_episode s"
  shows "alarm_ok p now e c s'"
  using assms by (auto simp: alarm_resolve_Inr alarm_ok_def validate_conditions_Inr expected_deadline_Inr is_i64_def)

lemma alarm_ok_observe:
  assumes "alarm_ok p t e c s" "t \<le> now" "alarm_observe p now e' c' s = Inr (s', fx)"
  shows "alarm_ok p now e' c' s'"
  using assms(3)
proof (rule alarm_observe_elim, elim disjE conjE)
  note ok = assms(1,2) [unfolded alarm_ok_def validate_conditions_Inr expected_deadline_Inr]
  show "alarm_ok p now e' c' s'" if "alarm_activate p now s = Inr (s', fx)" "policy_validate p = Inr ()" "0 \<le> now" "e'" "\<not> (e' \<and> c')"
    using that ok by (intro activate_ok [where t = t]) auto
  show "alarm_ok p now e' c' s'" if "alarm_resolve p now s = Inr (s', fx)" "policy_validate p = Inr ()" "0 \<le> now" "c'" "\<not> (e' \<and> c')"
    "a_phase s = Active"
    using that ok by (intro resolve_ok) auto
qed (use assms(1,2) in \<open>auto simp: alarm_ok_def validate_conditions_Inr expected_deadline_Inr enter_phase_def
      split: option.splits phase.splits\<close>)

lemma alarm_ok_due:
  assumes "alarm_ok p t e c s" "t \<le> now" "alarm_due p now s = Inr (s', fx)"
  shows "alarm_ok p now e c s'"
  using assms(3)
proof (rule alarm_due_elim, elim disjE exE conjE)
  note ok = assms(1,2) [unfolded alarm_ok_def validate_conditions_Inr expected_deadline_Inr]
  show "alarm_ok p now e c s'" if "alarm_activate p now s = Inr (s', fx)" "policy_validate p = Inr ()" "0 \<le> now" "a_phase s = Pending"
    using that ok by (intro activate_ok [where t = t]) auto
  show "alarm_ok p now e c s'" if "alarm_resolve p now s = Inr (s', fx)" "policy_validate p = Inr ()" "0 \<le> now" "a_phase s = Recovering"
    using that ok by (intro resolve_ok) auto
qed (use assms(1,2) in \<open>auto simp: alarm_ok_def validate_conditions_Inr expected_deadline_Inr is_i64_def
      split: option.splits phase.splits\<close>)

lemma alarm_reach_ok: "alarm_reach p t e c s \<Longrightarrow> alarm_ok p t e c s"
proof (induction rule: alarm_reach.induct)
  case (ar_first now s0 e c s fx)
  from ar_first(2) have "policy_validate p = Inr ()" "0 \<le> now" by (auto elim: alarm_observe_elim)
  with ar_first(1) have "alarm_ok p now False False s0"
    by (auto simp: alarm_new_def alarm_ok_def validate_conditions_Inr expected_deadline_Inr)
  with ar_first(2) show ?case by (blast intro: alarm_ok_observe)
qed (blast intro: alarm_ok_observe alarm_ok_due)+

lemma alarm_ok_deadline: "alarm_ok p t e c s \<Longrightarrow> \<exists>d. alarm_next_deadline p s = Inr d"
  by (auto simp: alarm_ok_def validate_conditions_Inr next_deadline_Inr notification_deadline_Inr is_i64_def
      split: option.splits)

lemma alarm_ok_validate:
  assumes "alarm_ok p t e c s" "alarm_next_deadline p s = Inr d"
  shows "alarm_validate p t e c s = (if overdue d t then Err CodecViolation else Ok ())"
proof -
  have v: "validate_conditions p e c s = Inr ()" using assms(1) by (simp add: alarm_ok_def)
  have "0 \<le> t" "0 \<le> a_since s" "a_since s \<le> t" "0 \<le> a_not_before s" "\<not> (e \<and> c)"
    "a_not_before s \<le> sat_i64 (t + cooldown_micros p)"
    "a_episode s = 0 \<longrightarrow> a_not_before s = 0 \<and> a_notification_since s = None"
    "(case a_notification_since s of None \<Rightarrow> False | Some n \<Rightarrow> t < n) = False"
    using assms(1) by (auto simp: alarm_ok_def validate_conditions_Inr sat_i64_def split: option.splits)
  with v assms(2) show ?thesis by (auto simp: alarm_validate_def)
qed

lemma alarm_due_total:
  assumes ok: "alarm_ok p t e c s" and t: "t \<le> now"
    and fits: "now + cooldown_micros p \<le> i64_max" "now + notification_max_age_micros p \<le> i64_max" "a_episode s < u64_max"
  shows "\<exists>s' fx. alarm_due p now s = Inr (s', fx)"
proof -
  from alarm_ok_deadline [OF ok] obtain d where d: "alarm_next_deadline p s = Inr d" ..
  have g: "policy_validate p = Inr ()" "0 \<le> now" "a_since s \<le> now" "0 \<le> cooldown_micros p" "0 < notification_max_age_micros p"
    using ok t by (auto simp: alarm_ok_def validate_conditions_Inr)
  have act: "\<exists>s' fx. alarm_activate p now s = Inr (s', fx)" and res: "\<exists>s' fx. alarm_resolve p now s = Inr (s', fx)"
    using fits g unfolding alarm_activate_Inr alarm_resolve_Inr by (auto simp: is_i64_def)
  have ph: "a_deadline s = d \<Longrightarrow> overdue d now \<Longrightarrow> a_phase s \<in> {Pending, Recovering}"
    using ok by (auto simp: alarm_ok_def validate_conditions_Inr expected_deadline_Inr split: phase.splits)
  have notif: "\<exists>n. a_notification_since s = Some n \<and> n + notification_max_age_micros p \<le> i64_max \<and> 0 \<le> n"
    if "a_deadline s \<noteq> d"
    using that d ok by (auto simp: alarm_ok_def validate_conditions_Inr next_deadline_Inr notification_deadline_Inr
        split: option.splits)
  show ?thesis
  proof (cases "overdue d now \<and> a_deadline s = d")
    case True
    then show ?thesis using act res ph g d by (auto simp: alarm_due_def policy_validate_def)
  next
    case False
    then show ?thesis using notif g d fits
      by (auto simp: alarm_due_def policy_validate_def alarm_add_def checked_i64_def is_i64_def Let_def)
  qed
qed

lemma activate_not_due:
  assumes "alarm_activate p now s = Inr (s', fx)" "0 < notification_max_age_micros p" "alarm_next_deadline p s' = Inr d"
  shows "\<not> overdue d now"
  using assms by (auto simp: alarm_activate_Inr next_deadline_Inr notification_deadline_Inr split: if_splits)

lemma resolve_not_due:
  assumes "alarm_resolve p now s = Inr (s', fx)" "alarm_next_deadline p s' = Inr d"
  shows "\<not> overdue d now"
  using assms by (auto simp: alarm_resolve_Inr next_deadline_Inr notification_deadline_Inr)

text \<open>A timer call leaves work due only when it has settled a notification.\<close>

lemma due_progress:
  assumes "alarm_due p now s = Inr (s', fx)" "alarm_next_deadline p s' = Inr d'"
  shows "\<not> overdue d' now \<or> (a_notification_since s \<noteq> None \<and> a_notification_since s' = None)"
  using assms(1)
proof (rule alarm_due_elim, elim disjE exE conjE)
  assume "policy_validate p = Inr ()" "alarm_activate p now s = Inr (s', fx)"
  then show ?thesis using activate_not_due [OF _ _ assms(2)] by simp
next
  assume "alarm_resolve p now s = Inr (s', fx)"
  then show ?thesis using resolve_not_due [OF _ assms(2)] by simp
qed (use assms(2) in auto)

lemma due_due_drained:
  assumes "alarm_due p now s = Inr (s1, fx1)" "alarm_due p now s1 = Inr (s2, fx2)" "alarm_next_deadline p s2 = Inr d"
  shows "\<not> overdue d now"
proof -
  from assms(2) obtain d1 where d1: "alarm_next_deadline p s1 = Inr d1" by (auto elim: alarm_due_elim)
  show ?thesis
  proof (cases "overdue d1 now")
    case False
    then have "s2 = s1" using assms(2) d1 by (auto elim!: alarm_due_elim)
    with False d1 assms(3) show ?thesis by simp
  next
    case True
    then have "a_notification_since s1 = None" using due_progress [OF assms(1) d1] by simp
    then show ?thesis using due_progress [OF assms(2,3)] by simp
  qed
qed

lemma due_episode:
  assumes "alarm_due p now s = Inr (s', fx)" "alarm_next_deadline p s' = Inr d" "overdue d now"
  shows "a_episode s' = a_episode s"
  using assms(1)
proof (rule alarm_due_elim, elim disjE exE conjE)
  assume "policy_validate p = Inr ()" "alarm_activate p now s = Inr (s', fx)"
  then show ?thesis using activate_not_due [OF _ _ assms(2)] assms(3) by simp
next
  assume "alarm_resolve p now s = Inr (s', fx)"
  then show ?thesis using resolve_not_due [OF _ assms(2)] assms(3) by simp
qed auto

lemma due_idle:
  assumes "alarm_ok p t e c s" "t \<le> now" "alarm_next_deadline p s = Inr d" "\<not> overdue d now"
  shows "alarm_due p now s = Inr (s, no_effects)"
  using assms by (auto simp: alarm_due_def alarm_ok_def validate_conditions_Inr policy_validate_def)

section \<open>Properties\<close>

text \<open>
  Every state a key can reach has a representable next deadline, and a checkpoint cut at
  the time of its last step accepts it with its retained conditions exactly when no timer is
  overdue: \<open>observe\<close> and \<open>due\<close> never build a state that a restore would refuse.
\<close>

theorem alarm_cut_valid:
  assumes "alarm_reach p t e c s"
  shows "\<exists>d. alarm_next_deadline p s = Ok d \<and>
    alarm_validate p t e c s = (if overdue d t then Err CodecViolation else Ok ())"
  using alarm_reach_ok [OF assms] alarm_ok_deadline alarm_ok_validate by blast

definition demo_policy :: alarm_policy where
  "demo_policy = \<lparr>activate_micros = 10, resolve_micros = 5, cooldown_micros = 100, notification_max_age_micros = 50\<rparr>"

definition demo_pending :: alarm_state where
  "demo_pending = \<lparr>a_phase = Pending, a_since = 3, a_deadline = Some 13, a_episode = 0, a_not_before = 0,
     a_notification_since = None\<rparr>"

lemmas alarm_eval = alarm_observe_def alarm_due_def alarm_activate_def alarm_resolve_def enter_phase_def
  alarm_next_deadline_def notification_deadline_def alarm_add_def checked_i64_def is_i64_def policy_validate_def
  overdue_def no_effects_def alarm_event_of_def alarm_validate_def validate_conditions_def expected_deadline_def
  sat_i64_def alarm_new_def demo_policy_def demo_pending_def

lemma demo_pending_reach: "alarm_reach demo_policy 3 True False demo_pending"
proof (rule ar_first)
  show "alarm_new 3 = Ok \<lparr>a_phase = Normal, a_since = 3, a_deadline = None, a_episode = 0, a_not_before = 0,
      a_notification_since = None\<rparr>"
    by (simp add: alarm_new_def)
  show "alarm_observe demo_policy 3 True False \<lparr>a_phase = Normal, a_since = 3, a_deadline = None, a_episode = 0,
      a_not_before = 0, a_notification_since = None\<rparr> = Ok (demo_pending, no_effects)"
    by (simp add: alarm_eval)
qed

theorem alarm_cut_valid_witness:
  "alarm_reach demo_policy 3 True False demo_pending \<and>
   (\<exists>d. alarm_next_deadline demo_policy demo_pending = Ok d \<and>
     alarm_validate demo_policy 3 True False demo_pending = (if overdue d 3 then Err CodecViolation else Ok ()))"
  using alarm_cut_valid [OF demo_pending_reach] demo_pending_reach by blast

text \<open>
  Draining is bounded: while the clock and the episode counter leave room, two timer
  calls at a time settle everything that is due to a reachable key, so that the following
  cut validates and a third call does nothing.
\<close>

theorem alarm_drains:
  assumes reach: "alarm_reach p t e c s" and t: "t \<le> now"
    and fits: "now + cooldown_micros p \<le> i64_max" "now + notification_max_age_micros p \<le> i64_max" "a_episode s < u64_max"
  shows "\<exists>s1 fx1 s2 fx2. alarm_due p now s = Ok (s1, fx1) \<and> alarm_due p now s1 = Ok (s2, fx2) \<and>
    alarm_due p now s2 = Ok (s2, no_effects) \<and> alarm_validate p now e c s2 = Ok ()"
proof -
  note ok = alarm_reach_ok [OF reach]
  from alarm_due_total [OF ok t fits] obtain s1 fx1 where s1: "alarm_due p now s = Inr (s1, fx1)" by blast
  note ok1 = alarm_ok_due [OF ok t s1]
  from alarm_ok_deadline [OF ok1] obtain d1 where d1: "alarm_next_deadline p s1 = Inr d1" ..
  have "\<exists>s2 fx2. alarm_due p now s1 = Inr (s2, fx2)"
  proof (cases "overdue d1 now")
    case True
    then show ?thesis
      using alarm_due_total [OF ok1 order_refl fits(1,2)] due_episode [OF s1 d1] fits(3) by simp
  qed (use due_idle [OF ok1 order_refl d1] in blast)
  then obtain s2 fx2 where s2: "alarm_due p now s1 = Inr (s2, fx2)" by blast
  note ok2 = alarm_ok_due [OF ok1 order_refl s2]
  from alarm_ok_deadline [OF ok2] obtain d2 where d2: "alarm_next_deadline p s2 = Inr d2" ..
  have nd: "\<not> overdue d2 now" using due_due_drained [OF s1 s2 d2] .
  with s1 s2 due_idle [OF ok2 order_refl d2] alarm_ok_validate [OF ok2 d2] show ?thesis by auto
qed

theorem alarm_drains_witness:
  "alarm_reach demo_policy 3 True False demo_pending \<and> (3::int) \<le> 20 \<and>
   20 + cooldown_micros demo_policy \<le> i64_max \<and> 20 + notification_max_age_micros demo_policy \<le> i64_max \<and>
   a_episode demo_pending < u64_max \<and>
   (\<exists>s1 fx1 s2 fx2. alarm_due demo_policy 20 demo_pending = Ok (s1, fx1) \<and> alarm_due demo_policy 20 s1 = Ok (s2, fx2) \<and>
     alarm_due demo_policy 20 s2 = Ok (s2, no_effects) \<and> alarm_validate demo_policy 20 True False s2 = Ok ())"
proof -
  have "(3::int) \<le> 20" "20 + cooldown_micros demo_policy \<le> i64_max" "20 + notification_max_age_micros demo_policy \<le> i64_max"
    "a_episode demo_pending < u64_max"
    by (simp_all add: demo_policy_def demo_pending_def)
  with alarm_drains [OF demo_pending_reach this] demo_pending_reach show ?thesis by blast
qed

section \<open>The lifecycle as an abstract specification\<close>

text \<open>
  What a subscriber is promised about the events of a key: episodes are numbered without
  gaps and raised and resolved in turn; a raise notifies exactly when the cooldown is over,
  a resolve always; a deferred notification comes at most once per episode, after the
  cooldown and before its age limit, and never after the resolve.
\<close>

record alarm_spec =
  sp_raised :: "(int \<times> bool) option"
  sp_episode :: nat
  sp_quiet_until :: int

definition spec_init :: alarm_spec where
  "spec_init = \<lparr>sp_raised = None, sp_episode = 0, sp_quiet_until = 0\<rparr>"

definition spec_event :: "alarm_policy \<Rightarrow> alarm_event \<Rightarrow> alarm_spec \<Rightarrow> alarm_spec option" where
  "spec_event p ev \<sigma> =
     (case ev_kind ev of
        Activate \<Rightarrow>
          if sp_raised \<sigma> = None \<and> ev_episode ev = Suc (sp_episode \<sigma>) \<and> ev_notify ev = (sp_quiet_until \<sigma> \<le> ev_at ev)
          then Some \<lparr>sp_raised = Some (ev_at ev, ev_notify ev), sp_episode = ev_episode ev,
            sp_quiet_until = if ev_notify ev then ev_at ev + cooldown_micros p else sp_quiet_until \<sigma>\<rparr>
          else None
      | Resolve \<Rightarrow>
          if sp_raised \<sigma> \<noteq> None \<and> ev_episode ev = sp_episode \<sigma> \<and> ev_notify ev
          then Some (\<sigma>\<lparr>sp_raised := None, sp_quiet_until := ev_at ev + cooldown_micros p\<rparr>) else None
      | Notify \<Rightarrow>
          (case sp_raised \<sigma> of
             Some (raised_at, False) \<Rightarrow>
               if ev_episode ev = sp_episode \<sigma> \<and> ev_notify ev \<and> sp_quiet_until \<sigma> \<le> ev_at ev \<and>
                  ev_at ev < raised_at + notification_max_age_micros p
               then Some (\<sigma>\<lparr>sp_raised := Some (raised_at, True), sp_quiet_until := ev_at ev + cooldown_micros p\<rparr>)
               else None
           | _ \<Rightarrow> None))"

fun spec_run :: "alarm_policy \<Rightarrow> alarm_event list \<Rightarrow> alarm_spec \<Rightarrow> alarm_spec option" where
  "spec_run p [] \<sigma> = Some \<sigma>"
| "spec_run p (ev # evs) \<sigma> = Option.bind (spec_event p ev \<sigma>) (spec_run p evs)"

text \<open>Calls in any order and at any times; a call that fails leaves the committed state.\<close>

datatype alarm_op = OpObserve int bool bool | OpDue int

fun alarm_apply :: "alarm_policy \<Rightarrow> alarm_op \<Rightarrow> alarm_state \<Rightarrow> (alarm_state \<times> alarm_effects) result" where
  "alarm_apply p (OpObserve now e c) s = alarm_observe p now e c s"
| "alarm_apply p (OpDue now) s = alarm_due p now s"

fun alarm_run :: "alarm_policy \<Rightarrow> alarm_op list \<Rightarrow> alarm_state \<Rightarrow> alarm_event list" where
  "alarm_run p [] s = []"
| "alarm_run p (op # ops) s =
     (case alarm_apply p op s of
        Inl _ \<Rightarrow> alarm_run p ops s
      | Inr (s', fx) \<Rightarrow> (case fx_event fx of None \<Rightarrow> alarm_run p ops s' | Some ev \<Rightarrow> ev # alarm_run p ops s'))"

definition alarm_sim :: "alarm_state \<Rightarrow> alarm_spec \<Rightarrow> bool" where
  "alarm_sim s \<sigma> \<longleftrightarrow> a_episode s = sp_episode \<sigma> \<and> a_not_before s = sp_quiet_until \<sigma> \<and>
     (a_phase s \<in> {Active, Recovering} \<longleftrightarrow> sp_raised \<sigma> \<noteq> None) \<and>
     (\<forall>n. a_notification_since s = Some n \<longrightarrow> sp_raised \<sigma> \<noteq> None \<longrightarrow> sp_raised \<sigma> = Some (n, False)) \<and>
     (a_phase s \<in> {Normal, Pending} \<longrightarrow> a_notification_since s = None)"

definition fx_accepted :: "alarm_policy \<Rightarrow> alarm_effects \<Rightarrow> alarm_state \<Rightarrow> alarm_spec \<Rightarrow> bool" where
  "fx_accepted p fx s' \<sigma> \<longleftrightarrow>
     (case fx_event fx of None \<Rightarrow> alarm_sim s' \<sigma> | Some ev \<Rightarrow> \<exists>\<sigma>'. spec_event p ev \<sigma> = Some \<sigma>' \<and> alarm_sim s' \<sigma>')"

lemma activate_sim:
  "alarm_activate p now s = Inr (s', fx) \<Longrightarrow> alarm_sim s \<sigma> \<Longrightarrow> a_phase s \<in> {Normal, Pending} \<Longrightarrow> fx_accepted p fx s' \<sigma>"
  by (auto simp: alarm_activate_Inr alarm_sim_def fx_accepted_def spec_event_def alarm_event_of_def split: if_splits)

lemma resolve_sim:
  "alarm_resolve p now s = Inr (s', fx) \<Longrightarrow> alarm_sim s \<sigma> \<Longrightarrow> a_phase s \<in> {Active, Recovering} \<Longrightarrow> fx_accepted p fx s' \<sigma>"
  by (auto simp: alarm_resolve_Inr alarm_sim_def fx_accepted_def spec_event_def alarm_event_of_def)

lemma observe_sim:
  assumes "alarm_observe p now e c s = Inr (s', fx)" "alarm_sim s \<sigma>"
  shows "fx_accepted p fx s' \<sigma>"
  using assms(1)
proof (rule alarm_observe_elim, elim disjE conjE)
  show "fx_accepted p fx s' \<sigma>" if "alarm_activate p now s = Inr (s', fx)" "a_phase s = Normal"
    using activate_sim [OF that(1) assms(2)] that(2) by simp
  show "fx_accepted p fx s' \<sigma>" if "alarm_resolve p now s = Inr (s', fx)" "a_phase s = Active"
    using resolve_sim [OF that(1) assms(2)] that(2) by simp
qed (use assms(2) in \<open>auto simp: alarm_sim_def fx_accepted_def enter_phase_def no_effects_def\<close>)

lemma notify_sim:
  assumes "alarm_sim s \<sigma>" "a_notification_since s = Some since" "alarm_next_deadline p s = Inr d" "overdue d now"
    "a_deadline s \<noteq> d" "now < since + notification_max_age_micros p"
  shows "fx_accepted p (no_effects\<lparr>fx_event := Some (alarm_event_of (s\<lparr>a_notification_since := None,
      a_not_before := now + cooldown_micros p\<rparr>) Notify True now)\<rparr>)
    (s\<lparr>a_notification_since := None, a_not_before := now + cooldown_micros p\<rparr>) \<sigma>"
proof -
  have "a_not_before s \<le> now"
    using assms(2-6) by (cases "a_deadline s") (auto simp: next_deadline_Inr notification_deadline_Inr min_def split: if_splits)
  moreover have "sp_raised \<sigma> = Some (since, False)"
    using assms(1,2) by (cases "a_phase s") (auto simp: alarm_sim_def)
  ultimately show ?thesis
    using assms(1,6) by (auto simp: fx_accepted_def spec_event_def alarm_event_of_def alarm_sim_def no_effects_def)
qed

lemma due_sim:
  assumes "alarm_due p now s = Inr (s', fx)" "alarm_sim s \<sigma>"
  shows "fx_accepted p fx s' \<sigma>"
  using assms(1)
proof (rule alarm_due_elim, elim disjE exE conjE)
  show "fx_accepted p fx s' \<sigma>" if "alarm_activate p now s = Inr (s', fx)" "a_phase s = Pending"
    using activate_sim [OF that(1) assms(2)] that(2) by simp
  show "fx_accepted p fx s' \<sigma>" if "alarm_resolve p now s = Inr (s', fx)" "a_phase s = Recovering"
    using resolve_sim [OF that(1) assms(2)] that(2) by simp
  fix d since
  assume *: "alarm_next_deadline p s = Inr d" "a_notification_since s = Some since" "overdue d now" "a_deadline s \<noteq> d"
    "now < since + notification_max_age_micros p"
    and s': "s' = s\<lparr>a_notification_since := None, a_not_before := now + cooldown_micros p\<rparr>"
      "fx = no_effects\<lparr>fx_event := Some (alarm_event_of s' Notify True now)\<rparr>"
  show "fx_accepted p fx s' \<sigma>" unfolding s' by (rule notify_sim [OF assms(2) *(2,1,3,4,5)])
qed (use assms(2) in \<open>auto simp: alarm_sim_def fx_accepted_def no_effects_def\<close>)

lemma apply_sim:
  "alarm_apply p op s = Inr (s', fx) \<Longrightarrow> alarm_sim s \<sigma> \<Longrightarrow> fx_accepted p fx s' \<sigma>"
  by (cases op) (auto intro: observe_sim due_sim)

lemma run_accepted: "alarm_sim s \<sigma> \<Longrightarrow> \<exists>\<sigma>'. spec_run p (alarm_run p ops s) \<sigma> = Some \<sigma>'"
proof (induction ops arbitrary: s \<sigma>)
  case (Cons op ops)
  show ?case
  proof (cases "alarm_apply p op s")
    case (Inl _)
    with Cons show ?thesis by simp
  next
    case (Inr r)
    obtain s' fx where r: "r = (s', fx)" by force
    have "fx_accepted p fx s' \<sigma>" using apply_sim Inr r Cons.prems by simp
    with Inr r Cons.IH show ?thesis by (auto simp: fx_accepted_def split: option.splits)
  qed
qed simp

text \<open>
  C24: The events of a key, whatever rows and timer calls arrive and in whatever order, are a
  behaviour of the abstract lifecycle: alternating gap-free episodes, cooldown respected by
  every raise and deferred notification, no late and no duplicate notification.
\<close>

theorem alarm_events_refine:
  assumes "alarm_new t = Ok s"
  shows "\<exists>\<sigma>. spec_run p (alarm_run p ops s) spec_init = Some \<sigma>"
proof (rule run_accepted)
  show "alarm_sim s spec_init" using assms by (auto simp: alarm_new_def alarm_sim_def spec_init_def split: if_splits)
qed

definition demo_normal :: alarm_state where
  "demo_normal = \<lparr>a_phase = Normal, a_since = 0, a_deadline = None, a_episode = 0, a_not_before = 0,
     a_notification_since = None\<rparr>"

theorem alarm_events_refine_witness:
  "alarm_new 0 = Ok demo_normal \<and>
   length (alarm_run demo_policy [OpObserve 1 True False, OpDue 11, OpObserve 12 False True, OpDue 17] demo_normal) = 2 \<and>
   (\<exists>\<sigma>. spec_run demo_policy
      (alarm_run demo_policy [OpObserve 1 True False, OpDue 11, OpObserve 12 False True, OpDue 17] demo_normal) spec_init = Some \<sigma>)"
proof (intro conjI)
  show new: "alarm_new 0 = Ok demo_normal" by (simp add: alarm_new_def demo_normal_def)
  show "length (alarm_run demo_policy [OpObserve 1 True False, OpDue 11, OpObserve 12 False True, OpDue 17] demo_normal) = 2"
    by (simp add: alarm_eval demo_normal_def checked_u64_def)
  show "\<exists>\<sigma>. spec_run demo_policy
      (alarm_run demo_policy [OpObserve 1 True False, OpDue 11, OpObserve 12 False True, OpDue 17] demo_normal) spec_init = Some \<sigma>"
    by (rule alarm_events_refine [OF new])
qed

end
