(* ===== verification/Iot_Filter.thy ===== *)
theory Iot_Filter
  imports Builtin_Fns
begin

text \<open>
  The decisions of the IoT value operators: the specifications of
  \<^verbatim>\<open>sparrow-plan/src/stateful.rs\<close> (deadband, hysteresis) and the comparison kernels and
  \<open>decide\<close> of \<^verbatim>\<open>sparrow-runtime/src/iot.rs\<close>. Thresholds are \<open>f64\<close>, inputs 64-bit integers or
  \<open>f64\<close>, intermediate values \<open>u128\<close>; the theorems compare them as exact numbers, in the unit
  \<open>2^-1074\<close> of \<open>f_val\<close>.
\<close>

section \<open>Specifications\<close>

datatype invalid_value_policy = PolicyError | PolicyIgnore
datatype deadband_mode = Absolute | Relative
datatype deadband_baseline = LastInput | LastOutput
datatype hysteresis_direction = High | Low

record deadband_spec =
  db_mode :: deadband_mode
  db_baseline :: deadband_baseline
  db_threshold :: f64

record hysteresis_spec =
  hy_direction :: hysteresis_direction
  hy_enter :: f64
  hy_exit :: f64

definition hysteresis_validate :: "hysteresis_spec \<Rightarrow> unit result" where
  "hysteresis_validate h =
     (let separated = (case hy_direction h of High \<Rightarrow> f_lt (hy_exit h) (hy_enter h) | Low \<Rightarrow> f_lt (hy_enter h) (hy_exit h))
      in if \<not> is_finite (hy_enter h) \<or> \<not> is_finite (hy_exit h) \<or> \<not> separated then Err InvalidArgument else Ok ())"

definition deadband_validate :: "deadband_spec \<Rightarrow> unit result" where
  "deadband_validate d =
     (if \<not> is_finite (db_threshold d) \<or> f_lt (db_threshold d) f_zero then Err InvalidArgument else Ok ())"

section \<open>Comparison kernels\<close>

abbreviation u128_max :: nat where "u128_max \<equiv> 340282366920938463463374607431768211455"

text \<open>The saturating \<open>as u128\<close> and \<open>as i128\<close> of a float, and the bounds \<open>MAX as f64\<close> and \<open>MIN as f64\<close>.\<close>

definition f_to_u128 :: "f64 \<Rightarrow> nat" where
  "f_to_u128 x =
     (if is_nan x \<or> f_sign x then 0 else if is_infinite x then u128_max else min u128_max (f_mag x div unit_inv))"

abbreviation i128_min :: int where "i128_min \<equiv> - 170141183460469231731687303715884105728"
abbreviation i128_max :: int where "i128_max \<equiv> 170141183460469231731687303715884105727"

definition f_to_i128 :: "f64 \<Rightarrow> int" where
  "f_to_i128 x =
     (if is_nan x then 0
      else if is_infinite x then (if f_sign x then i128_min else i128_max)
      else let t = int (f_mag x div unit_inv); v = if f_sign x then - t else t in max i128_min (min i128_max v))"

definition i128_max_f64 :: f64 where "i128_max_f64 = f_of_int i128_max"
definition i128_min_f64 :: f64 where "i128_min_f64 = f_of_int i128_min"
definition u128_max_f64 :: f64 where "u128_max_f64 = f_of_int (int u128_max)"

definition compare_threshold :: "scalar \<Rightarrow> f64 \<Rightarrow> ordering result" where
  "compare_threshold v t =
     (let int_cmp = (\<lambda>integer.
        if f_le i128_max_f64 t then Ok Less
        else if f_le t i128_min_f64 then Ok Greater
        else let fl = f_floor t; order = cmp integer (f_to_i128 fl)
             in Ok (if order = Equal \<and> \<not> f_eq t fl then Less else order))
      in case v of
           SInt64 x \<Rightarrow> int_cmp x
         | SUInt64 x \<Rightarrow> int_cmp (int x)
         | SFloat64 x \<Rightarrow> ok_or CodecViolation (partial_cmp x t)
         | _ \<Rightarrow> Err CodecViolation)"

definition i64_abs :: "int \<Rightarrow> nat" where "i64_abs v = nat \<bar>v\<bar>"

definition i64_delta :: "int \<Rightarrow> int \<Rightarrow> nat" where "i64_delta a b = nat \<bar>a - b\<bar>"

definition integer_threshold_exceeds :: "nat \<Rightarrow> f64 \<Rightarrow> bool" where
  "integer_threshold_exceeds delta t =
     (if delta = 0 then False
      else if f_le u128_max_f64 t then False
      else f_to_u128 (f_floor t) < delta)"

definition integer_abs_exceeds_i64 :: "int \<Rightarrow> int \<Rightarrow> f64 \<Rightarrow> bool" where
  "integer_abs_exceeds_i64 a b t = integer_threshold_exceeds (i64_delta a b) t"

definition checked_value_shift :: "nat \<Rightarrow> nat \<Rightarrow> nat option" where
  "checked_value_shift v shift =
     (if v = 0 then Some 0
      else if shift \<ge> 128 \<or> v > u128_max div 2 ^ shift then None
      else Some (v * 2 ^ shift))"

definition integer_relative_exceeds :: "nat \<Rightarrow> nat \<Rightarrow> f64 \<Rightarrow> bool" where
  "integer_relative_exceeds delta baseline t =
     (if delta = 0 then False
      else if baseline = 0 then True
      else if f_eq t f_zero then True
      else
        let bits = unat (to_bits t);
            exponent_bits = bits div p52 mod 2048;
            fraction = bits mod p52;
            (mantissa, exponent) =
              (if exponent_bits = 0 then (fraction, - 1074) else (p52 + fraction, int exponent_bits - 1023 - 52))
        in if exponent \<ge> 0 then
             (case Option.bind (if baseline * mantissa \<le> u128_max then Some (baseline * mantissa) else None)
                     (\<lambda>v. checked_value_shift v (nat exponent)) of
                None \<Rightarrow> False
              | Some rhs \<Rightarrow> rhs < delta)
           else
             let rhs = min u128_max (baseline * mantissa)
             in (case checked_value_shift delta (nat (- exponent)) of
                   Some lhs \<Rightarrow> rhs < lhs
                 | None \<Rightarrow> True))"

definition float_deadband :: "f64 \<Rightarrow> f64 \<Rightarrow> deadband_mode \<Rightarrow> f64 \<Rightarrow> bool" where
  "float_deadband a b mode t =
     (let delta = f_abs (f_sub a b)
      in if f_eq delta f_zero then False
         else case mode of
             Absolute \<Rightarrow> f_lt t delta
           | Relative \<Rightarrow>
               if f_eq a f_zero then True
               else if is_infinite delta then
                 (let scale = f_max (f_abs a) (f_abs b)
                  in f_lt (f_mul t (f_div (f_abs a) scale)) (f_abs (f_sub (f_div a scale) (f_div b scale))))
               else f_lt t (f_div delta (f_abs a)))"

definition deadband_exceeds :: "scalar \<Rightarrow> scalar \<Rightarrow> deadband_mode \<Rightarrow> f64 \<Rightarrow> bool result" where
  "deadband_exceeds previous current mode t =
     (if \<not> is_finite t \<or> f_lt t f_zero then Err InvalidArgument
      else case (previous, current) of
          (SInt64 a, SInt64 b) \<Rightarrow>
            Ok (case mode of
                  Absolute \<Rightarrow> integer_abs_exceeds_i64 a b t
                | Relative \<Rightarrow> integer_relative_exceeds (i64_delta a b) (i64_abs a) t)
        | (SUInt64 a, SUInt64 b) \<Rightarrow>
            let delta = (if a < b then b - a else a - b)
            in Ok (case mode of
                     Absolute \<Rightarrow> integer_threshold_exceeds delta t
                   | Relative \<Rightarrow> integer_relative_exceeds delta a t)
        | (SFloat64 a, SFloat64 b) \<Rightarrow> Ok (float_deadband a b mode t)
        | _ \<Rightarrow> Err TypeMismatch)"

section \<open>The decision on a row\<close>

text \<open>
  The timing variants belong to operators of their own; resampling configurations and the JSON
  values of a silence registry are not looked at here and are the parameters \<open>'r\<close> and \<open>'j\<close>.
\<close>

datatype silence_clock = ClockPaused | ClockLive

datatype ('r, 'j) iot_timing =
    TimingResample 'r
  | TimingAlarm int int int int
  | TimingHoldFor int
  | TimingDebounce int int bool bool bool
  | TimingSilence int int "'j list list" silence_clock

record ('r, 'j) iot_spec =
  io_keys :: "string list"
  io_fields :: "string list"
  io_emit_first :: bool
  io_ttl :: int
  io_max_keys :: nat
  io_invalid :: invalid_value_policy
  io_deadband :: "deadband_spec option"
  io_hysteresis :: "hysteresis_spec option"
  io_timing :: "('r, 'j) iot_timing option"

fun iot_value_type :: "data_type \<Rightarrow> bool" where
  "iot_value_type TBool = True"
| "iot_value_type TInt64 = True"
| "iot_value_type TUInt64 = True"
| "iot_value_type TFloat64 = True"
| "iot_value_type TUtf8 = True"
| "iot_value_type TBytes = True"
| "iot_value_type TTimestampMicrosUTC = True"
| "iot_value_type _ = False"

record stored_iot =
  si_values :: "scalar list"
  si_last_seen :: int

text \<open>\<open>None\<close> is an index panic; the binder admits only single-field deadbands and hysteresis.\<close>

definition nth_opt :: "'a list \<Rightarrow> nat \<Rightarrow> 'a option" where
  "nth_opt xs i = (if i < length xs then Some (xs ! i) else None)"

definition decide_hysteresis :: "hysteresis_spec \<Rightarrow> bool \<Rightarrow> stored_iot option \<Rightarrow> scalar list \<Rightarrow> (bool \<times> scalar list) result option" where
  "decide_hysteresis h emit_first previous current =
     (let active = (case previous of
          None \<Rightarrow> Ok False
        | Some p \<Rightarrow> (case si_values p of [SBool b] \<Rightarrow> Ok b | _ \<Rightarrow> Err CodecViolation))
      in case active of
           Inl e \<Rightarrow> Some (Inl e)
         | Inr active \<Rightarrow>
             map_option (\<lambda>v.
               rbind (compare_threshold v (if active then hy_exit h else hy_enter h)) (\<lambda>c.
                 let crossed = (case (hy_direction h, active) of
                         (High, False) \<Rightarrow> c \<noteq> Less
                       | (Low, True) \<Rightarrow> c \<noteq> Less
                       | _ \<Rightarrow> c \<noteq> Greater);
                     next = (if crossed then \<not> active else active);
                     emit = (if previous = None then emit_first else next \<noteq> active)
                 in Ok (emit, [SBool next])))
               (nth_opt current 0))"

definition decide_deadband :: "deadband_spec \<Rightarrow> stored_iot \<Rightarrow> scalar list \<Rightarrow> (bool \<times> scalar list) result option" where
  "decide_deadband d p current =
     Option.bind (nth_opt (si_values p) 0) (\<lambda>old. map_option (\<lambda>new.
       rbind (deadband_exceeds old new (db_mode d) (db_threshold d)) (\<lambda>changed.
         Ok (changed, case db_baseline d of
               LastInput \<Rightarrow> current
             | LastOutput \<Rightarrow> if changed then current else si_values p)))
       (nth_opt current 0))"

definition iot_decide :: "('r, 'j) iot_spec \<Rightarrow> stored_iot option \<Rightarrow> scalar list \<Rightarrow> (bool \<times> scalar list) result option" where
  "iot_decide sp previous current =
     (case io_hysteresis sp of
        Some h \<Rightarrow> decide_hysteresis h (io_emit_first sp) previous current
      | None \<Rightarrow>
          (case previous of
             None \<Rightarrow> Some (Ok (io_emit_first sp, current))
           | Some p \<Rightarrow>
               (case io_deadband sp of
                  Some d \<Rightarrow> decide_deadband d p current
                | None \<Rightarrow> Some (Ok (list_ex (\<lambda>(old, new). \<not> scalar_peq old new) (zip (si_values p) current), current)))))"

section \<open>The kernels are exact\<close>

text \<open>An integer of at most 53 significant bits is a float, and rounding finds it.\<close>

lemma nbits_mult_pow: "0 < k \<Longrightarrow> nbits (k * 2 ^ j) = nbits k + j"
proof -
  assume k: "0 < k"
  have b: "2 ^ (nbits k - 1) \<le> k" "k < 2 ^ nbits k" using nbits_bounds [OF k] by simp_all
  have "nbits k \<noteq> 0" using k b(2) by (intro notI) simp
  then have b3: "nbits k = Suc (nbits k - 1)" by simp
  have "k < 2 * 2 ^ (nbits k - 1)" using b(2) by (subst (asm) b3) simp
  with b have "2 ^ (nbits k - 1 + j) \<le> k * 2 ^ j" "k * 2 ^ j < 2 ^ Suc (nbits k - 1 + j)"
    by (simp_all add: power_add)
  then have "nbits (k * 2 ^ j) = Suc (nbits k - 1 + j)" by (rule nbits_unique)
  with b3 show ?thesis by simp
qed

lemma nbits_le: "k < 2 ^ n \<Longrightarrow> nbits k \<le> n"
proof (cases "k = 0")
  case False
  assume "k < 2 ^ n"
  with False nbits_bounds [of k] have "(2::nat) ^ (nbits k - 1) < 2 ^ n" by (meson gr0I le_less_trans)
  then have "nbits k - 1 < n" by (rule power_less_imp_less_exp [rotated]) simp
  then show ?thesis by simp
qed (simp add: nbits.simps)

lemma mag_round_exact:
  assumes "k < 2 ^ 53" "k * 2 ^ j < mag_bits inf_bits"
  shows "mag_bits (round_bits (k * 2 ^ j) 1) = k * 2 ^ j \<and> round_bits (k * 2 ^ j) 1 < inf_bits"
proof -
  define v where "v = k * 2 ^ j"
  define K where "K = nbits v - 53"
  define s where "s = v div 2 ^ K"
  have sv: "s * 2 ^ K = v" and s: "K = 0 \<and> s < 2 * p52 \<or> p52 \<le> s \<and> s < 2 * p52"
  proof -
    have "K \<le> j" if "k \<noteq> 0"
      using nbits_mult_pow [of k j] nbits_le [OF assms(1)] that by (simp add: K_def v_def)
    then have "2 ^ K dvd v" by (cases "k = 0") (auto simp: v_def intro: dvd_mult le_imp_power_dvd)
    then show sv: "s * 2 ^ K = v" by (simp add: s_def)
    show "K = 0 \<and> s < 2 * p52 \<or> p52 \<le> s \<and> s < 2 * p52"
    proof (cases "K = 0")
      case True
      then have "nbits v \<le> 53" by (simp add: K_def)
      then have "(2::nat) ^ nbits v \<le> 2 ^ 53" by (rule power_increasing) simp
      then have "v < 2 ^ 53" using nbits_bounds [of v] by (cases "v = 0") auto
      with True sv show ?thesis by simp
    next
      case False
      then have nb: "nbits v = K + 53" and "0 < v" by (auto simp: K_def nbits.simps [of 0] intro: gr0I)
      then have "2 ^ (52 + K) \<le> v" "v < 2 ^ (53 + K)" using nbits_bounds [of v] by (simp_all add: add.commute)
      then have "2 ^ 52 * 2 ^ K \<le> s * 2 ^ K" "s * 2 ^ K < 2 ^ 53 * 2 ^ K" unfolding sv by (simp_all add: power_add)
      then show ?thesis by simp
    qed
  qed
  have r: "round_half_even v (1 * 2 ^ K) = s"
    using sv [symmetric] by (simp add: round_half_even_def)
  have m: "mag_bits (K * p52 + s) = v"
  proof (cases "p52 \<le> s")
    case True
    then obtain f where f: "s = p52 + f" by (metis le_Suc_ex)
    with s have "f < p52" by auto
    then have "(K * p52 + s) div p52 = Suc K" "(K * p52 + s) mod p52 = f" by (simp_all add: f)
    with sv f show ?thesis by (simp add: mag_bits_def)
  next
    case False
    with s sv show ?thesis by (auto simp: mag_bits_def)
  qed
  then have "K * p52 + s < inf_bits" using assms(2) by (metis mag_bits_less_iff v_def)
  with r m show ?thesis by (simp add: round_bits_def K_def v_def [symmetric])
qed

lemma mag_bits_parts: "\<exists>s e. mag_bits n = s * 2 ^ e \<and> s < 2 ^ 53"
proof (cases "n div p52 = 0")
  case True
  then have "mag_bits n = (n mod p52) * 2 ^ 0" by (simp add: mag_bits_def)
  moreover have "n mod p52 < p52" by simp
  then have "n mod p52 < 2 ^ 53" by simp
  ultimately show ?thesis by blast
next
  case False
  then have "mag_bits n = (p52 + n mod p52) * 2 ^ (n div p52 - 1)" by (simp add: mag_bits_def)
  moreover have "n mod p52 < p52" by simp
  then have "p52 + n mod p52 < 2 ^ 53" by simp
  ultimately show ?thesis by blast
qed

lemma floor_parts:
  fixes s :: nat
  assumes "s < 2 ^ 53"
  shows "\<exists>k j. k < 2 ^ 53 \<and> (s * 2 ^ e div 2 ^ u) * 2 ^ u = k * 2 ^ j \<and> (k * 2 ^ j = s * 2 ^ e \<or> j = u)"
    and "\<exists>k j. k < 2 ^ 53 \<and> ((s * 2 ^ e + 2 ^ u - 1) div 2 ^ u) * 2 ^ u = k * 2 ^ j \<and> (k * 2 ^ j = s * 2 ^ e \<or> j = u)"
proof -
  have up: "0 < (2::nat) ^ u" by simp
  show "\<exists>k j. k < 2 ^ 53 \<and> (s * 2 ^ e div 2 ^ u) * 2 ^ u = k * 2 ^ j \<and> (k * 2 ^ j = s * 2 ^ e \<or> j = u)"
  proof (cases "u \<le> e")
    case True
    then have "2 ^ u dvd s * 2 ^ e" by (simp add: dvd_mult le_imp_power_dvd)
    then have "(s * 2 ^ e div 2 ^ u) * 2 ^ u = s * 2 ^ e" by simp
    with assms show ?thesis by blast
  next
    case False
    then have "s * 2 ^ e \<le> s * 2 ^ u" by (simp add: power_increasing)
    then have "s * 2 ^ e div 2 ^ u \<le> s" using up by (metis div_le_mono nonzero_mult_div_cancel_right less_numeral_extra(3))
    with assms show ?thesis by (metis le_less_trans)
  qed
  show "\<exists>k j. k < 2 ^ 53 \<and> ((s * 2 ^ e + 2 ^ u - 1) div 2 ^ u) * 2 ^ u = k * 2 ^ j \<and> (k * 2 ^ j = s * 2 ^ e \<or> j = u)"
  proof (cases "u \<le> e")
    case True
    then have "2 ^ u dvd s * 2 ^ e" by (simp add: dvd_mult le_imp_power_dvd)
    then obtain a where a: "s * 2 ^ e = 2 ^ u * a" ..
    obtain w where w: "(2::nat) ^ u = Suc w" using up gr0_implies_Suc by blast
    have "Suc w * a + Suc w - 1 = w + Suc w * a" by simp
    then have "(2 ^ u * a + 2 ^ u - 1) div 2 ^ u = (w + Suc w * a) div Suc w" unfolding w by (simp only:)
    also have "\<dots> = a + w div Suc w" by (rule div_mult_self2) simp
    finally have "(2 ^ u * a + 2 ^ u - 1) div 2 ^ u = a" by simp
    with a assms show ?thesis by (metis mult.commute)
  next
    case False
    then have "(2::nat) ^ Suc e \<le> 2 ^ u" by (intro power_increasing) auto
    then have "2 * (s * 2 ^ e) \<le> s * 2 ^ u" using mult_le_mono2 [of "2 ^ Suc e" "2 ^ u" s] by simp
    also have "\<dots> < 2 ^ 53 * 2 ^ u" using assms by simp
    finally have "s * 2 ^ e + 2 ^ u - 1 < 2 ^ 53 * 2 ^ u" by simp
    then have "(s * 2 ^ e + 2 ^ u - 1) div 2 ^ u < 2 ^ 53" by (simp add: less_mult_imp_div_less)
    then show ?thesis by blast
  qed
qed

lemma big_enough: "(2::nat) ^ 53 * 2 ^ 1074 \<le> mag_bits inf_bits"
proof -
  have "mag_bits inf_bits = p52 * 2 ^ 2046" by (simp add: mag_bits_def del: power_numeral)
  also have "p52 = (2::nat) ^ 52" by simp
  finally have "mag_bits inf_bits = 2 ^ 2098" by (simp only: power_add [symmetric]) simp
  moreover have "(2::nat) ^ 53 * 2 ^ 1074 = 2 ^ 1127" by (simp only: power_add [symmetric]) simp
  moreover have "(2::nat) ^ 1127 \<le> 2 ^ 2098" by (rule power_increasing) simp_all
  ultimately show ?thesis by (simp only:)
qed

lemma mk_exact:
  assumes "k < 2 ^ 53" "v = k * 2 ^ j" "v < mag_bits inf_bits"
  shows "f_mag (mk_f64 neg (round_bits v 1)) = v \<and> f_sign (mk_f64 neg (round_bits v 1)) = neg \<and>
    is_finite (mk_f64 neg (round_bits v 1))"
  using mag_round_exact [OF assms(1), of j] assms(2,3) by (simp add: f_mag_def is_finite_def)

lemma integral_exact:
  assumes "k < 2 ^ 53" "n * unit_inv = k * 2 ^ j" "k * 2 ^ j = mag_bits low \<or> j = 1074" "low < inf_bits"
  shows "f_mag (f_integral neg n) = n * unit_inv \<and> f_sign (f_integral neg n) = neg \<and> is_finite (f_integral neg n)"
  unfolding f_integral_def
proof (rule mk_exact [OF assms(1,2)])
  have "k * 2 ^ j < mag_bits inf_bits"
  proof (cases "j = 1074")
    case True
    have pos: "0 < (2::nat) ^ 1074" by (rule zero_less_power) (rule zero_less_numeral)
    show ?thesis unfolding True
      by (rule less_le_trans [OF mult_strict_right_mono [OF assms(1) pos] big_enough])
  next
    case False
    with assms(3,4) show ?thesis by simp
  qed
  then show "n * unit_inv < mag_bits inf_bits" by (simp only: assms(2))
qed

lemma floor_exact:
  assumes "is_finite t"
  shows "is_finite (f_floor t) \<and> f_sign (f_floor t) = f_sign t \<and>
    f_mag (f_floor t) = (if f_sign t then (f_mag t + unit_inv - 1) div unit_inv else f_mag t div unit_inv) * unit_inv"
proof -
  obtain s e where se: "f_mag t = s * 2 ^ e" "s < 2 ^ 53" unfolding f_mag_def using mag_bits_parts by blast
  have low: "f_low t < inf_bits" using assms by (simp add: is_finite_def)
  note fp = floor_parts [OF se(2), of e 1074, folded se(1)]
  show ?thesis
  proof (cases "f_sign t")
    case True
    obtain k j where kj: "k < 2 ^ 53" "((f_mag t + unit_inv - 1) div unit_inv) * unit_inv = k * 2 ^ j"
        "k * 2 ^ j = mag_bits (f_low t) \<or> j = 1074"
      using fp(2) unfolding f_mag_def by blast
    show ?thesis using integral_exact [OF kj low, of "f_sign t"] unfolding f_floor_def if_P [OF True] by blast
  next
    case False
    obtain k j where kj: "k < 2 ^ 53" "(f_mag t div unit_inv) * unit_inv = k * 2 ^ j" "k * 2 ^ j = mag_bits (f_low t) \<or> j = 1074"
      using fp(1) unfolding f_mag_def by blast
    show ?thesis using integral_exact [OF kj low, of "f_sign t"] unfolding f_floor_def if_not_P [OF False] by blast
  qed
qed

lemma neg_div_ceil: "0 < (u::nat) \<Longrightarrow> (- int m) div int u = - int ((m + u - 1) div u)"
proof -
  assume u: "0 < u"
  let ?q = "(m + u - 1) div u"
  have "?q * u \<le> m + u - 1" by (rule div_times_less_eq_dividend)
  moreover have "m + u - 1 < u + ?q * u" by (rule dividend_less_div_times [OF u])
  ultimately have "?q * u < m + u" "m \<le> ?q * u" using u by linarith+
  then have "int (?q * u) < int m + int u" "int m \<le> int (?q * u)" by linarith+
  then have "int ?q * int u - int m < int u" "0 \<le> int ?q * int u - int m" by simp_all
  then show ?thesis by (intro int_div_pos_eq [where r = "int ?q * int u - int m"]) simp_all
qed

lemma unit_inv_pos: "0 < unit_inv"
  by (rule zero_less_power) (rule zero_less_numeral)

lemma f_val_floor:
  assumes "is_finite t"
  shows "is_finite (f_floor t) \<and> f_val (f_floor t) = f_val t div int unit_inv * int unit_inv"
proof -
  define U where "U = unit_inv"
  have U: "0 < U" unfolding U_def by (rule unit_inv_pos)
  note fe = floor_exact [OF assms, folded U_def]
  show ?thesis
    unfolding U_def [symmetric]
    using fe neg_div_ceil [OF U, of "f_mag t"] by (simp add: f_val_def zdiv_int)
qed

lemma f_to_i128_integral:
  assumes "is_finite x" "f_val x = q * int unit_inv" "i128_min \<le> q" "q \<le> i128_max"
  shows "f_to_i128 x = q"
proof -
  define U where "U = unit_inv"
  have U: "0 < int U" unfolding U_def of_nat_0_less_iff by (rule unit_inv_pos)
  have v: "f_val x = q * int U" using assms(2) by (simp only: U_def)
  have nn: "\<not> is_nan x" "\<not> is_infinite x" using assms(1) by (auto simp: is_finite_def is_nan_def is_infinite_def)
  have "(if f_sign x then - int (f_mag x div U) else int (f_mag x div U)) = q"
  proof (cases "f_sign x")
    case True
    then have "int (f_mag x) = (- q) * int U" using v by (simp add: f_val_def)
    then have "int (f_mag x div U) = (- q) * int U div int U" by (simp only: zdiv_int)
    then have "int (f_mag x div U) = - q" using U by (simp only: nonzero_mult_div_cancel_right)
    with True show ?thesis by simp
  next
    case False
    then have "int (f_mag x) = q * int U" using v by (simp add: f_val_def)
    then have "int (f_mag x div U) = q" using U by (simp add: zdiv_int)
    with False show ?thesis by simp
  qed
  with nn assms(3,4) show ?thesis unfolding f_to_i128_def U_def [symmetric] Let_def by simp
qed

lemma round_all_ones:
  assumes "55 \<le> b" "b + j \<le> 2000"
  shows "mag_bits (round_bits ((2 ^ b - 1) * 2 ^ j) 1) = 2 ^ (b + j) \<and> round_bits ((2 ^ b - 1) * 2 ^ j) 1 < inf_bits"
proof -
  define c where "c = b - 53"
  define K where "K = c + j"
  have b: "b = 53 + c" "2 \<le> c" using assms(1) by (simp_all add: c_def)
  have c4: "(4::nat) \<le> 2 ^ c" using power_increasing [OF b(2), of "2::nat"] by simp
  have ones: "(2::nat) ^ b - 1 = (2 ^ 53 - 1) * 2 ^ c + (2 ^ c - 1)"
    using c4 by (simp add: b(1) power_add diff_mult_distrib)
  let ?v = "(2 ^ b - 1) * 2 ^ j :: nat"
  have v: "?v = (2 ^ 53 - 1) * 2 ^ K + (2 ^ c - 1) * 2 ^ j"
    unfolding K_def by (simp only: ones add_mult_distrib power_add mult.assoc)
  have lt: "(2 ^ c - 1) * 2 ^ j < (2::nat) ^ K" using c4 by (simp add: K_def power_add)
  have "nbits ?v = Suc (b - 1 + j)"
  proof (rule nbits_unique)
    have "(2::nat) ^ b = 2 * 2 ^ (b - 1)" using assms(1) by (simp flip: power_Suc)
    moreover have "1 \<le> (2::nat) ^ (b - 1)" by simp
    ultimately have "(2::nat) ^ (b - 1) \<le> 2 ^ b - 1" by linarith
    then show "2 ^ (b - 1 + j) \<le> ?v" by (simp add: power_add)
    show "?v < 2 ^ Suc (b - 1 + j)" using assms(1) by (simp add: power_add flip: power_Suc)
  qed
  then have K: "nbits (?v div 1) - 53 = K" by (simp add: b(1) K_def)
  have "round_half_even ?v (1 * 2 ^ K) = 2 ^ 53"
  proof -
    have d: "?v div 2 ^ K = 2 ^ 53 - 1" and m: "?v mod 2 ^ K = (2 ^ c - 1) * 2 ^ j"
      using v lt by (simp_all only: div_mult_self3 mod_mult_self3) simp_all
    have "(2::nat) ^ c < 2 * (2 ^ c - 1)" using c4 by linarith
    then have "2 ^ c * 2 ^ j < 2 * (2 ^ c - 1) * (2::nat) ^ j" by (simp only: mult_less_cancel2) simp
    then have "(2::nat) ^ K < 2 * ((2 ^ c - 1) * 2 ^ j)" by (simp add: K_def power_add mult.assoc)
    with d m show ?thesis by (simp add: round_half_even_def)
  qed
  moreover have "K * p52 + 2 ^ 53 < inf_bits" using assms(2) by (simp add: K_def c_def)
  ultimately have r: "round_bits ?v 1 = Suc (Suc K) * p52" unfolding round_bits_def K Let_def by simp
  have "mag_bits (Suc (Suc K) * p52) = p52 * 2 ^ Suc K" by (simp add: mag_bits_def)
  also have "\<dots> = 2 ^ (b + j)" by (simp add: b(1) K_def power_add)
  finally show ?thesis unfolding r using assms(2) by (simp add: K_def c_def)
qed

lemma f_cmp_iff:
  "f_le a b \<longleftrightarrow> \<not> is_nan a \<and> \<not> is_nan b \<and> f_val a \<le> f_val b"
  "f_lt a b \<longleftrightarrow> \<not> is_nan a \<and> \<not> is_nan b \<and> f_val a < f_val b"
  "f_eq a b \<longleftrightarrow> \<not> is_nan a \<and> \<not> is_nan b \<and> f_val a = f_val b"
  by (auto simp: f_le_def f_lt_def f_eq_def partial_cmp_def)

lemma finite_not_nan: "is_finite x \<Longrightarrow> \<not> is_nan x"
  by (simp add: is_finite_def is_nan_def)

lemma ones_f64:
  assumes "55 \<le> b" "b + 1074 \<le> 2000" "v = 2 ^ b - 1"
  shows "f_val (f_of_int v) = 2 ^ b * int unit_inv"
proof -
  have "0 \<le> v" using assms(3) by simp
  have "nat v = 2 ^ b - 1" unfolding assms(3) by (simp add: nat_diff_distrib nat_power_eq)
  then have n: "nat \<bar>v\<bar> * unit_inv = (2 ^ b - 1) * 2 ^ 1074" using \<open>0 \<le> v\<close> by (simp only: abs_of_nonneg)
  have "f_val (f_of_int v) = int (2 ^ (b + 1074))"
    using round_all_ones [OF assms(1,2)] \<open>0 \<le> v\<close> unfolding f_of_int_def n
    by (simp add: f_val_def f_mag_def del: power_numeral)
  then show ?thesis by (simp only: power_add of_nat_mult of_nat_power of_nat_numeral)
qed

lemma bound_vals:
  "f_val i128_max_f64 = 2 ^ 127 * int unit_inv" "f_val u128_max_f64 = 2 ^ 128 * int unit_inv"
  "f_val i128_min_f64 = - (2 ^ 127) * int unit_inv"
proof -
  show "f_val i128_max_f64 = 2 ^ 127 * int unit_inv" unfolding i128_max_f64_def by (rule ones_f64) simp_all
  show "f_val u128_max_f64 = 2 ^ 128 * int unit_inv" unfolding u128_max_f64_def by (rule ones_f64) simp_all
  have "(2::nat) ^ 127 * unit_inv = 1 * 2 ^ 1201" by (simp only: power_add [symmetric]) simp
  moreover have "(2::nat) ^ 127 * unit_inv < mag_bits inf_bits"
  proof -
    have "(2::nat) ^ 127 * unit_inv < 2 ^ 2098" by (simp only: power_add [symmetric]) (rule power_strict_increasing, simp_all)
    moreover have "mag_bits inf_bits = p52 * 2 ^ 2046" by (simp add: mag_bits_def del: power_numeral)
    then have "mag_bits inf_bits = 2 ^ 52 * 2 ^ 2046" by simp
    ultimately show ?thesis by (simp only: power_add [symmetric]) simp
  qed
  ultimately have m: "f_mag (mk_f64 True (round_bits (2 ^ 127 * unit_inv) 1)) = 2 ^ 127 * unit_inv"
    "f_sign (mk_f64 True (round_bits (2 ^ 127 * unit_inv) 1)) = True"
    using mk_exact [of 1 "2 ^ 127 * unit_inv" 1201 True] by simp_all
  have e: "i128_min_f64 = mk_f64 True (round_bits (2 ^ 127 * unit_inv) 1)"
    by (simp add: i128_min_f64_def f_of_int_def)
  have "f_val i128_min_f64 = - int (2 ^ 127 * unit_inv)" unfolding f_val_def e m if_True ..
  then show "f_val i128_min_f64 = - (2 ^ 127) * int unit_inv" by (simp only: of_nat_mult of_nat_power of_nat_numeral mult_minus_left)
qed

lemma cmp_scaled:
  assumes U: "0 < (u::int)"
  shows "cmp (x * u) v = (if x = v div u \<and> v \<noteq> v div u * u then Less else cmp x (v div u))"
proof -
  have r: "v = v div u * u + v mod u" "0 \<le> v mod u" "v mod u < u" using U by simp_all
  have lt: "x < v div u \<Longrightarrow> x * u < v"
    using r U mult_strict_right_mono [of x "v div u" u] by linarith
  have gt: "v < x * u" if "v div u < x"
  proof -
    have "(v div u + 1) * u \<le> x * u" using that U by (intro mult_right_mono) auto
    moreover have "(v div u + 1) * u = v div u * u + u" by (simp add: distrib_right)
    ultimately show ?thesis using r by linarith
  qed
  have "v div u * u \<le> v" using r(1,2) by linarith
  then have eq: "x = v div u \<Longrightarrow> x * u < v \<or> x * u = v" by auto
  show ?thesis
  proof (cases x "v div u" rule: linorder_cases)
    case less
    with lt show ?thesis by (simp add: cmp_def)
  next
    case equal
    with eq show ?thesis by (auto simp: cmp_def)
  next
    case greater
    with gt show ?thesis by (simp add: cmp_def)
  qed
qed

lemma compare_threshold_int:
  assumes fin: "is_finite t" and x: "i128_min < x" "x < i128_max"
  shows "(if f_le i128_max_f64 t then Ok Less else if f_le t i128_min_f64 then Ok Greater
     else let fl = f_floor t; order = cmp x (f_to_i128 fl)
          in Ok (if order = Equal \<and> \<not> f_eq t fl then Less else order)) = (Ok (cmp (x * int unit_inv) (f_val t)) :: ordering result)"
proof -
  define U where "U = int unit_inv"
  define V where "V = f_val t"
  have U: "0 < U" unfolding U_def of_nat_0_less_iff by (rule unit_inv_pos)
  note fv = f_val_floor [OF fin, folded U_def V_def] and bv = bound_vals [folded U_def]
  have nan: "\<not> is_nan i128_max_f64" "\<not> is_nan i128_min_f64" "\<not> is_nan t" "\<not> is_nan (f_floor t)"
    using fin fv by (simp_all add: i128_max_f64_def i128_min_f64_def finite_not_nan)
  have hi: "f_le i128_max_f64 t \<longleftrightarrow> 2 ^ 127 * U \<le> V" and lo: "f_le t i128_min_f64 \<longleftrightarrow> V \<le> - (2 ^ 127) * U"
    and eq: "f_eq t (f_floor t) \<longleftrightarrow> V = V div U * U"
    using nan bv fv by (simp_all add: f_cmp_iff V_def)
  have xU: "x * U < 2 ^ 127 * U" "- (2 ^ 127) * U < x * U" using x U by (simp_all only: mult_less_cancel_right_pos) simp_all
  consider "2 ^ 127 * U \<le> V" | "V \<le> - (2 ^ 127) * U" | "V < 2 ^ 127 * U" "- (2 ^ 127) * U < V" by linarith
  then show ?thesis
  proof cases
    case 1
    with hi xU show ?thesis unfolding U_def [symmetric] V_def [symmetric] by (simp add: cmp_def)
  next
    case 2
    moreover have "\<not> 2 ^ 127 * U \<le> V" using 2 U by simp
    ultimately show ?thesis using hi lo xU unfolding U_def [symmetric] V_def [symmetric] by (simp add: cmp_def)
  next
    case 3
    have "V div U * U \<le> V" using U pos_mod_sign [OF U, of V] div_mult_mod_eq [of V U] by linarith
    with 3(1) have "V div U * U < 2 ^ 127 * U" by linarith
    then have "V div U < 2 ^ 127" using U by (simp only: mult_less_cancel_right_pos)
    moreover have "V < (V div U + 1) * U"
      using pos_mod_bound [OF U, of V] div_mult_mod_eq [of V U] by (simp only: distrib_right mult_1)
    then have "- (2 ^ 127) * U < (V div U + 1) * U" using 3(2) by linarith
    then have "- (2 ^ 127) < V div U + 1" using U by (simp only: mult_less_cancel_right_pos)
    then have "- (2 ^ 127) \<le> V div U" by simp
    ultimately have "f_to_i128 (f_floor t) = V div U"
      using fv by (intro f_to_i128_integral [folded U_def]) simp_all
    then show ?thesis using 3 hi lo eq cmp_scaled [OF U, of x V]
      unfolding U_def [symmetric] V_def [symmetric] by (simp add: Let_def)
  qed
qed

lemma f_to_u128_integral:
  assumes "is_finite x" "\<not> f_sign x" "f_mag x = q * unit_inv" "q \<le> u128_max"
  shows "f_to_u128 x = q"
proof -
  have nn: "\<not> is_nan x" "\<not> is_infinite x" using assms(1) by (auto simp: is_finite_def is_nan_def is_infinite_def)
  have "f_mag x div unit_inv = q" unfolding assms(3) using unit_inv_pos by (simp only: nonzero_mult_div_cancel_right)
  with nn assms(2,4) show ?thesis unfolding f_to_u128_def by simp
qed

lemma nonneg_val:
  assumes "is_finite t" "\<not> f_lt t f_zero"
  shows "f_val t = int (f_mag t)" and "f_sign t \<Longrightarrow> f_mag t = 0"
proof -
  have "0 \<le> f_val t" using assms by (simp add: f_cmp_iff finite_not_nan)
  then show "f_val t = int (f_mag t)" "f_sign t \<Longrightarrow> f_mag t = 0" by (auto simp: f_val_def split: if_splits)
qed

lemma integer_threshold_exact:
  assumes fin: "is_finite t" and nonneg: "\<not> f_lt t f_zero" and d: "delta < 2 ^ 128"
  shows "integer_threshold_exceeds delta t \<longleftrightarrow> f_val t < int delta * int unit_inv"
proof -
  define U where "U = unit_inv"
  define M where "M = f_mag t"
  have U: "0 < U" unfolding U_def by (rule unit_inv_pos)
  note V = nonneg_val [OF fin nonneg, folded M_def] and fe = floor_exact [OF fin, folded U_def M_def]
  have big: "f_le u128_max_f64 t \<longleftrightarrow> 2 ^ 128 * U \<le> M"
  proof -
    have "f_le u128_max_f64 t \<longleftrightarrow> 2 ^ 128 * int U \<le> int M"
      using fin bound_vals(2) [folded U_def] V(1) by (simp add: f_cmp_iff finite_not_nan u128_max_f64_def)
    also have "\<dots> \<longleftrightarrow> int (2 ^ 128 * U) \<le> int M" by simp
    finally show ?thesis by (simp only: of_nat_le_iff)
  qed
  have main: "f_val t < int delta * int U \<longleftrightarrow> M < delta * U" unfolding V(1) by (simp flip: of_nat_mult)
  show ?thesis
  proof (cases "2 ^ 128 * U \<le> M")
    case True
    have "delta * U < 2 ^ 128 * U" by (rule mult_strict_right_mono [OF d U])
    with True have "\<not> M < delta * U" by linarith
    with True big main show ?thesis unfolding U_def [symmetric] by (auto simp: integer_threshold_exceeds_def)
  next
    case False
    have q: "M div U \<le> u128_max" using False by (simp add: less_mult_imp_div_less less_Suc_eq_le [symmetric])
    have "f_to_u128 (f_floor t) = M div U"
    proof (cases "f_sign t")
      case True
      then show ?thesis using fe V(2) by (simp add: f_to_u128_def)
    next
      case False
      then show ?thesis using fe q by (intro f_to_u128_integral [folded U_def]) simp_all
    qed
    then show ?thesis using False big main U unfolding U_def [symmetric]
      by (auto simp: integer_threshold_exceeds_def div_less_iff_less_mult)
  qed
qed

lemma checked_value_shift_spec:
  "checked_value_shift v n = (if v * 2 ^ n \<le> u128_max then Some (v * 2 ^ n) else None)"
proof -
  have "v * 2 ^ n \<le> u128_max \<longleftrightarrow> v \<le> u128_max div 2 ^ n" by (simp add: less_eq_div_iff_mult_less_eq)
  moreover have "\<not> v * 2 ^ n \<le> u128_max" if "0 < v" "128 \<le> n"
  proof -
    have "(2::nat) ^ 128 \<le> 2 ^ n" using that(2) by (intro power_increasing) auto
    also have "\<dots> \<le> v * 2 ^ n" using that(1) by simp
    finally show ?thesis by simp
  qed
  ultimately show ?thesis by (auto simp: checked_value_shift_def)
qed

text \<open>A non-zero finite float is its mantissa times a power of two; \<open>exponent\<close> is relative to one.\<close>

lemma mantissa_exponent:
  fixes t :: f64
  defines "eb \<equiv> unat (to_bits t) div p52 mod 2048" and "fr \<equiv> unat (to_bits t) mod p52"
  assumes "is_finite t" "\<not> f_sign t"
  shows "f_mag t = (if eb = 0 then fr else (p52 + fr) * 2 ^ (eb - 1))" and "fr < p52"
proof -
  have b: "unat (to_bits t) = f_low t" using assms(4) by (simp add: to_bits_split)
  have "f_low t < 2048 * p52" using assms(3) by (simp add: is_finite_def)
  then have "f_low t div p52 < 2048" by (simp add: less_mult_imp_div_less)
  then have "eb = f_low t div p52" by (simp add: eb_def b)
  moreover have "fr = f_low t mod p52" by (simp add: fr_def b)
  ultimately show "f_mag t = (if eb = 0 then fr else (p52 + fr) * 2 ^ (eb - 1))" by (simp add: f_mag_def mag_bits_def Let_def)
  show "fr < p52" by (simp add: fr_def)
qed

text \<open>The comparison of \<open>integer_relative_exceeds\<close> with the exponents written out.\<close>

lemma relative_shift:
  assumes m: "m < 2 ^ 53" and d: "delta \<le> 2 ^ 64" and b: "0 < baseline" "baseline \<le> 2 ^ 64" and m0: "0 < m"
  shows "(case Option.bind (if baseline * m \<le> u128_max then Some (baseline * m) else None) (\<lambda>v. checked_value_shift v n) of
       None \<Rightarrow> False | Some rhs \<Rightarrow> rhs < delta) \<longleftrightarrow> baseline * (m * 2 ^ n) < delta"
    and "0 < delta \<Longrightarrow> (case checked_value_shift delta n of Some lhs \<Rightarrow> min u128_max (baseline * m) < lhs | None \<Rightarrow> True) \<longleftrightarrow>
       baseline * m < delta * 2 ^ n"
proof -
  have "baseline * m \<le> 2 ^ 64 * 2 ^ 53" using m b by (intro mult_le_mono) simp_all
  then have bm: "baseline * m \<le> u128_max" by simp
  have small: "delta \<le> u128_max" using d by simp
  show "(case Option.bind (if baseline * m \<le> u128_max then Some (baseline * m) else None) (\<lambda>v. checked_value_shift v n) of
       None \<Rightarrow> False | Some rhs \<Rightarrow> rhs < delta) \<longleftrightarrow> baseline * (m * 2 ^ n) < delta"
    using bm small by (auto simp: checked_value_shift_spec mult.assoc)
  show "0 < delta \<Longrightarrow> (case checked_value_shift delta n of Some lhs \<Rightarrow> min u128_max (baseline * m) < lhs | None \<Rightarrow> True) \<longleftrightarrow>
       baseline * m < delta * 2 ^ n"
    using bm by (auto simp: checked_value_shift_spec)
qed

lemma scale_cancel:
  fixes a :: nat
  assumes "i + k = j"
  shows "a * 2 ^ i < d * 2 ^ j \<longleftrightarrow> a < d * 2 ^ k" and "a * 2 ^ j < d * 2 ^ i \<longleftrightarrow> a * 2 ^ k < d"
proof -
  have "d * 2 ^ j = (d * 2 ^ k) * 2 ^ i" "a * 2 ^ j = (a * 2 ^ k) * 2 ^ i"
    using assms by (simp_all add: power_add [symmetric] mult.assoc add.commute)
  then show "a * 2 ^ i < d * 2 ^ j \<longleftrightarrow> a < d * 2 ^ k" "a * 2 ^ j < d * 2 ^ i \<longleftrightarrow> a * 2 ^ k < d"
    by (simp_all only: mult_less_cancel2 zero_less_power zero_less_numeral simp_thms)
qed

lemma integer_relative_exact:
  assumes fin: "is_finite t" and nonneg: "\<not> f_lt t f_zero" and d: "delta \<le> 2 ^ 64" and b: "baseline \<le> 2 ^ 64"
  shows "integer_relative_exceeds delta baseline t \<longleftrightarrow> int baseline * f_val t < int delta * int unit_inv"
proof -
  note V = nonneg_val [OF fin nonneg]
  have main: "int baseline * f_val t < int delta * int unit_inv \<longleftrightarrow> baseline * f_mag t < delta * 2 ^ 1074"
    unfolding V(1) of_nat_mult [symmetric] of_nat_less_iff ..
  have zero: "f_eq t f_zero \<longleftrightarrow> f_mag t = 0" using fin V(1) by (simp add: f_cmp_iff finite_not_nan)
  have up: "0 < (2::nat) ^ 1074" by (rule zero_less_power) (rule zero_less_numeral)
  show ?thesis
  proof (cases "delta = 0 \<or> baseline = 0 \<or> f_mag t = 0")
    case True
    then show ?thesis unfolding main using zero up by (auto simp: integer_relative_exceeds_def simp del: power_numeral)
  next
    case False
    then have pos: "0 < delta" "0 < baseline" "0 < f_mag t" "\<not> f_sign t" "\<not> f_eq t f_zero" using V(2) zero by auto
    define eb where "eb = unat (to_bits t) div p52 mod 2048"
    define fr where "fr = unat (to_bits t) mod p52"
    note me = mantissa_exponent [OF fin pos(4), folded eb_def fr_def]
    note unfold_rel = integer_relative_exceeds_def [of delta baseline t, unfolded Let_def, folded eb_def fr_def]
    show ?thesis
    proof (cases "eb = 0")
      case True
      have "fr < 2 ^ 53" using me(2) by simp
      with True have "integer_relative_exceeds delta baseline t \<longleftrightarrow> baseline * fr < delta * 2 ^ 1074"
        using pos me relative_shift(2) [OF _ d pos(2) b _ pos(1), of fr 1074]
        by (simp add: unfold_rel del: power_numeral)
      with main me True show ?thesis by simp
    next
      case False
      let ?m = "p52 + fr"
      have m: "?m < 2 ^ 53" "0 < ?m" using me(2) by simp_all
      have mag: "f_mag t = ?m * 2 ^ (eb - 1)" using me(1) False by simp
      show ?thesis
      proof (cases "1075 \<le> eb")
        case True
        then have "integer_relative_exceeds delta baseline t \<longleftrightarrow> baseline * (?m * 2 ^ (eb - 1075)) < delta"
          using pos False m relative_shift(1) [OF m(1) d pos(2) b m(2), of "eb - 1075"]
          by (simp add: unfold_rel nat_diff_distrib)
        also have "\<dots> \<longleftrightarrow> baseline * ?m * 2 ^ (eb - 1) < delta * 2 ^ 1074"
          using scale_cancel(2) [of 1074 "eb - 1075" "eb - 1" "baseline * ?m" delta] True by (simp add: mult.assoc del: power_numeral)
        finally show ?thesis unfolding main mag by (simp only: mult.assoc)
      next
        case False
        with \<open>eb \<noteq> 0\<close> have "integer_relative_exceeds delta baseline t \<longleftrightarrow> baseline * ?m < delta * 2 ^ (1075 - eb)"
          using pos m relative_shift(2) [OF m(1) d pos(2) b m(2) pos(1), of "1075 - eb"]
          by (simp add: unfold_rel nat_diff_distrib)
        also have "\<dots> \<longleftrightarrow> baseline * ?m * 2 ^ (eb - 1) < delta * 2 ^ 1074"
          using scale_cancel(1) [of "eb - 1" "1075 - eb" 1074 "baseline * ?m" delta] False \<open>eb \<noteq> 0\<close>
          by (simp add: mult.assoc del: power_numeral)
        finally show ?thesis unfolding main mag by (simp only: mult.assoc)
      qed
    qed
  qed
qed

section \<open>Properties\<close>

text \<open>The exact value of an integer scalar, and of any numeric scalar in the unit of \<open>f_val\<close>.\<close>

definition int_scalar :: "scalar \<Rightarrow> int option" where
  "int_scalar v =
     (case v of
        SInt64 x \<Rightarrow> if is_i64 x then Some x else None
      | SUInt64 x \<Rightarrow> if is_u64 x then Some (int x) else None
      | _ \<Rightarrow> None)"

definition num_scalar :: "scalar \<Rightarrow> int option" where
  "num_scalar v =
     (case v of SFloat64 x \<Rightarrow> if is_finite x then Some (f_val x) else None
      | _ \<Rightarrow> map_option (\<lambda>x. x * int unit_inv) (int_scalar v))"

lemma abs_diff_u64: "int (if a < b then b - a else a - b) = \<bar>int a - int b\<bar>"
  by simp

text \<open>
  C25: The deadband on integers is exact: with a finite non-negative threshold, a change is
  reported exactly when the absolute difference, respectively its ratio to the baseline,
  exceeds the threshold as a mathematical number. Nothing is lost to 64-bit overflow, to
  rounding above \<open>2^53\<close> or to the shifts of the 128-bit comparison.
\<close>

theorem deadband_exact:
  assumes "int_scalar previous = Some a" "int_scalar current = Some b" "scalar_type previous = scalar_type current"
    and "is_finite t" "\<not> f_lt t f_zero"
  shows "deadband_exceeds previous current mode t = Ok (case mode of
      Absolute \<Rightarrow> f_val t < \<bar>a - b\<bar> * int unit_inv
    | Relative \<Rightarrow> \<bar>a\<bar> * f_val t < \<bar>a - b\<bar> * int unit_inv)"
proof (cases previous)
  case (SInt64 x)
  then obtain y where y: "current = SInt64 y" "a = x" "b = y" "is_i64 x" "is_i64 y"
    using assms(1-3) by (cases current) (auto simp: int_scalar_def split: if_splits)
  have ab: "\<bar>x - y\<bar> \<le> 2 ^ 64" "\<bar>x\<bar> \<le> 2 ^ 64" using y by (auto simp: is_i64_def)
  have d: "i64_delta x y \<le> 2 ^ 64" "i64_abs x \<le> 2 ^ 64" "int (i64_delta x y) = \<bar>x - y\<bar>" "int (i64_abs x) = \<bar>x\<bar>"
    using ab by (simp_all add: i64_delta_def i64_abs_def nat_le_iff)
  have d': "i64_delta x y < 2 ^ 128" using d(1) by simp
  from integer_threshold_exact [OF assms(4,5) d'] integer_relative_exact [OF assms(4,5) d(1,2)] show ?thesis
    unfolding SInt64 y(1-3) deadband_exceeds_def d(3,4) integer_abs_exceeds_i64_def
    using assms(4,5) by (simp add: SInt64 split: deadband_mode.splits del: power_numeral of_nat_power)
next
  case (SUInt64 x)
  then obtain y where y: "current = SUInt64 y" "a = int x" "b = int y" "is_u64 x" "is_u64 y"
    using assms(1-3) by (cases current) (auto simp: int_scalar_def split: if_splits)
  define delta where "delta = (if x < y then y - x else x - y)"
  have d: "delta \<le> 2 ^ 64" "x \<le> 2 ^ 64" "delta < 2 ^ 128" using y by (auto simp: delta_def is_u64_def)
  have di: "int delta = \<bar>int x - int y\<bar>" unfolding delta_def by (rule abs_diff_u64)
  have "deadband_exceeds previous current mode t =
      Ok (case mode of Absolute \<Rightarrow> integer_threshold_exceeds delta t | Relative \<Rightarrow> integer_relative_exceeds delta x t)"
    using assms(4,5) by (simp add: SUInt64 y(1) deadband_exceeds_def delta_def Let_def split: deadband_mode.splits)
  then show ?thesis
    using integer_threshold_exact [OF assms(4,5) d(3)] integer_relative_exact [OF assms(4,5) d(1,2)]
    unfolding y(2,3) di by (simp split: deadband_mode.splits del: power_numeral of_nat_power)
qed (use assms(1) in \<open>auto simp: int_scalar_def\<close>)

theorem deadband_exact_witness:
  "int_scalar (SInt64 9007199254740993) = Some 9007199254740993 \<and> int_scalar (SInt64 9007199254740992) = Some 9007199254740992 \<and>
   is_finite f_one \<and> \<not> f_lt f_one f_zero \<and>
   deadband_exceeds (SInt64 9007199254740993) (SInt64 9007199254740992) Absolute f_one =
     Ok (f_val f_one < \<bar>9007199254740993 - 9007199254740992\<bar> * int unit_inv)"
proof -
  have "int_scalar (SInt64 9007199254740993) = Some 9007199254740993" "int_scalar (SInt64 9007199254740992) = Some 9007199254740992"
    "scalar_type (SInt64 9007199254740993) = scalar_type (SInt64 9007199254740992)" "is_finite f_one"
    by (simp_all add: int_scalar_def is_i64_def is_finite_def f_one_def f_low_def)
  moreover have "0 \<le> f_val f_one" by (simp add: f_val_def f_sign_def f_one_def)
  then have "\<not> f_lt f_one f_zero" by (simp add: f_cmp_iff)
  ultimately show ?thesis using deadband_exact [of "SInt64 9007199254740993" 9007199254740993 "SInt64 9007199254740992" 9007199254740992 f_one Absolute]
    by (simp del: power_numeral)
qed

lemma compare_threshold_exact:
  assumes "num_scalar v = Some x" "is_finite t"
  shows "compare_threshold v t = Ok (cmp x (f_val t))"
proof (cases v)
  case (SInt64 i)
  then have "is_i64 i" "x = i * int unit_inv" using assms(1) by (auto simp: num_scalar_def int_scalar_def split: if_splits simp del: power_numeral)
  then show ?thesis using compare_threshold_int [OF assms(2), of i] unfolding SInt64 compare_threshold_def Let_def
    by (simp add: is_i64_def del: power_numeral)
next
  case (SUInt64 i)
  then have "is_u64 i" "x = int i * int unit_inv" using assms(1) by (auto simp: num_scalar_def int_scalar_def split: if_splits simp del: power_numeral)
  then show ?thesis using compare_threshold_int [OF assms(2), of "int i"] unfolding SUInt64 compare_threshold_def Let_def
    by (simp add: is_u64_def del: power_numeral)
next
  case (SFloat64 y)
  then have "is_finite y" "x = f_val y" using assms(1) by (auto simp: num_scalar_def split: if_splits)
  then show ?thesis using SFloat64 assms(2) by (simp add: compare_threshold_def partial_cmp_def finite_not_nan Let_def)
qed (use assms(1) in \<open>auto simp: num_scalar_def int_scalar_def\<close>)

text \<open>
  The hysteresis operator is a Schmitt trigger on exact values: the latch is set from the
  enter threshold on, cleared from the exit threshold on, and keeps its value strictly between
  the two, whatever it was; a row is emitted exactly when the latch changes, the first row as
  configured. Integer inputs are compared with fractional and large thresholds without
  rounding.
\<close>

theorem hysteresis_schmitt:
  assumes "hysteresis_validate h = Ok ()" "num_scalar v = Some x"
    and "previous = None \<and> \<not> active \<or> previous = Some \<lparr>si_values = [SBool active], si_last_seen = seen\<rparr>"
  defines "next \<equiv> (case hy_direction h of
      High \<Rightarrow> if f_val (hy_enter h) \<le> x then True else if x \<le> f_val (hy_exit h) then False else active
    | Low \<Rightarrow> if x \<le> f_val (hy_enter h) then True else if f_val (hy_exit h) \<le> x then False else active)"
  shows "decide_hysteresis h emit_first previous (v # vs) =
    Some (Ok (if previous = None then emit_first else next \<noteq> active, [SBool next]))"
proof -
  have fin: "is_finite (hy_enter h)" "is_finite (hy_exit h)"
    and sep: "case hy_direction h of High \<Rightarrow> f_val (hy_exit h) < f_val (hy_enter h) | Low \<Rightarrow> f_val (hy_enter h) < f_val (hy_exit h)"
    using assms(1) by (auto simp: hysteresis_validate_def Let_def f_cmp_iff split: if_splits hysteresis_direction.splits)
  note ce = compare_threshold_exact [OF assms(2)]
  from assms(3) sep show ?thesis
    unfolding decide_hysteresis_def next_def
    by (cases active; cases "hy_direction h")
      (auto simp: nth_opt_def Let_def ce fin cmp_def split: if_splits)
qed

theorem hysteresis_schmitt_witness:
  "hysteresis_validate \<lparr>hy_direction = High, hy_enter = f_one, hy_exit = f_zero\<rparr> = Ok () \<and>
   num_scalar (SInt64 0) = Some 0 \<and>
   decide_hysteresis \<lparr>hy_direction = High, hy_enter = f_one, hy_exit = f_zero\<rparr> False
     (Some \<lparr>si_values = [SBool True], si_last_seen = 0\<rparr>) [SInt64 0] = Some (Ok (True, [SBool False]))"
proof -
  have v1: "0 < f_val f_one"
    using mag_bits_less_iff [of 0 4607182418800017408] by (simp add: f_val_def f_sign_def f_one_def f_mag_def f_low_def del: mag_bits_less_iff)
  have h: "hysteresis_validate \<lparr>hy_direction = High, hy_enter = f_one, hy_exit = f_zero\<rparr> = Ok ()"
    using v1 by (simp add: hysteresis_validate_def f_cmp_iff is_finite_def is_nan_def) (simp add: f_one_def f_low_def)
  have n: "num_scalar (SInt64 0) = Some 0" by (simp add: num_scalar_def int_scalar_def is_i64_def)
  from hysteresis_schmitt [OF h n, of "Some \<lparr>si_values = [SBool True], si_last_seen = 0\<rparr>" True 0 False "[]"] h n v1
  show ?thesis by simp
qed

end
