(* ===== verification/Op_Effects.thy ===== *)
theory Op_Effects
  imports Row_Batch Keyed_State "HOL-Library.Product_Lexorder"
begin

text \<open>
  Operators that bill their memory: a step runs on the counter store and the operator's state,
  and panics (\<open>None\<close>), fails with an error that keeps what was already changed, or returns a
  value. The combinators are the code's control flow: \<open>?\<close>, scoped leases that are dropped when
  a block ends, and candidate leases that are dropped only when the rest of the function
  fails. The triple \<open>op_ok\<close> is the rule with which the operators' invariants are proved.
\<close>

type_synonym ('s, 'a) eff = "store \<times> 's \<Rightarrow> ((store \<times> 's) \<times> 'a result) option"

definition eret :: "'a \<Rightarrow> ('s, 'a) eff" where
  "eret x = (\<lambda>w. Some (w, Ok x))"

definition elift :: "'a result \<Rightarrow> ('s, 'a) eff" where
  "elift r = (\<lambda>w. Some (w, r))"

definition epanic :: "('s, 'a) eff" where
  "epanic = (\<lambda>w. None)"

definition ebind :: "('s, 'a) eff \<Rightarrow> ('a \<Rightarrow> ('s, 'b) eff) \<Rightarrow> ('s, 'b) eff" where
  "ebind m f = (\<lambda>w. case m w of
      None \<Rightarrow> None
    | Some (w', Inl e) \<Rightarrow> Some (w', Inl e)
    | Some (w', Inr x) \<Rightarrow> f x w')"

definition eget :: "('s, 's) eff" where
  "eget = (\<lambda>w. Some (w, Ok (snd w)))"

definition emodify :: "('s \<Rightarrow> 's) \<Rightarrow> ('s, unit) eff" where
  "emodify f = (\<lambda>(st, s). Some ((st, f s), Ok ()))"

text \<open>A pure check that may itself panic.\<close>

definition echeck :: "'a result option \<Rightarrow> ('s, 'a) eff" where
  "echeck r = (case r of None \<Rightarrow> epanic | Some x \<Rightarrow> elift x)"

definition eacquire :: "credit_kind \<Rightarrow> nat \<Rightarrow> memory_owner \<Rightarrow> ('s, memory_lease) eff" where
  "eacquire k n ow = (\<lambda>(st, s). case acquire k n ow st of
      Inl e \<Rightarrow> Some ((st, s), Inl e)
    | Inr (st', l) \<Rightarrow> Some ((st', s), Ok l))"

definition edrop :: "memory_lease \<Rightarrow> ('s, unit) eff" where
  "edrop l = (\<lambda>(st, s). Some ((fst (drop_lease l st), s), Ok ()))"

definition edrop_opt :: "memory_lease option \<Rightarrow> ('s, unit) eff" where
  "edrop_opt l = (case l of None \<Rightarrow> eret () | Some l \<Rightarrow> edrop l)"

text \<open>A lease bound to a block, and one that the block consumes unless it fails.\<close>

definition escoped :: "memory_lease \<Rightarrow> ('s, 'a) eff \<Rightarrow> ('s, 'a) eff" where
  "escoped l m = (\<lambda>w. case m w of
      None \<Rightarrow> None
    | Some ((st, s), r) \<Rightarrow> Some ((fst (drop_lease l st), s), r))"

definition eguarded :: "memory_lease option \<Rightarrow> ('s, 'a) eff \<Rightarrow> ('s, 'a) eff" where
  "eguarded l m = (\<lambda>w. case m w of
      Some ((st, s), Inl e) \<Rightarrow> Some ((case l of None \<Rightarrow> st | Some l \<Rightarrow> fst (drop_lease l st), s), Inl e)
    | r \<Rightarrow> r)"

definition escratch :: "nat \<Rightarrow> memory_owner \<Rightarrow> ('s, 'a) eff \<Rightarrow> ('s, 'a) eff" where
  "escratch n ow m = ebind (eacquire Reservation n ow) (\<lambda>l. escoped l m)"

text \<open>A builder local to a block; an error drops it with what it was billed.\<close>

definition ewith_builder :: "batch_builder \<Rightarrow> ('s \<times> batch_builder, unit) eff \<Rightarrow> ('s, batch_builder) eff" where
  "ewith_builder b m = (\<lambda>(st, s). case m (st, (s, b)) of
      None \<Rightarrow> None
    | Some ((st', (s', b')), Inl e) \<Rightarrow> Some ((builder_drop b' st', s'), Inl e)
    | Some ((st', (s', b')), Inr _) \<Rightarrow> Some ((st', s'), Ok b'))"

definition epush :: "row \<Rightarrow> ('s \<times> batch_builder, unit) eff" where
  "epush r = (\<lambda>(st, (s, b)). case builder_push r b st of (st', b', res) \<Rightarrow> Some ((st', (s, b')), res))"

definition efinish :: "batch_builder \<Rightarrow> ('s, row_batch) eff" where
  "efinish b = (\<lambda>(st, s). case builder_finish b st of
      Inl e \<Rightarrow> Some ((builder_drop b st, s), Inl e)
    | Inr (st', batch) \<Rightarrow> Some ((st', s), Ok batch))"

text \<open>A step on the first component of a pair.\<close>

definition efirst :: "('s, 'a) eff \<Rightarrow> ('s \<times> 't, 'a) eff" where
  "efirst m = (\<lambda>(st, (s, t)). case m (st, s) of
      None \<Rightarrow> None
    | Some ((st', s'), r) \<Rightarrow> Some ((st', (s', t)), r))"

fun efor :: "('x \<Rightarrow> ('s, unit) eff) \<Rightarrow> 'x list \<Rightarrow> ('s, unit) eff" where
  "efor f [] = eret ()"
| "efor f (x # xs) = ebind (f x) (\<lambda>_. efor f xs)"

section \<open>Total correctness of a step\<close>

text \<open>
  From a state in \<open>P\<close> the step does not panic, and \<open>Q\<close> holds of its result and of the state it
  leaves, also when it fails. The store is not restricted: what a step does to the operator's
  state does not depend on which acquisitions succeed.
\<close>

definition op_ok :: "('s \<Rightarrow> bool) \<Rightarrow> ('s, 'a) eff \<Rightarrow> ('a result \<Rightarrow> 's \<Rightarrow> bool) \<Rightarrow> bool" where
  "op_ok P m Q \<longleftrightarrow> (\<forall>st s. P s \<longrightarrow> (\<exists>st' s' r. m (st, s) = Some ((st', s'), r) \<and> Q r s'))"

lemma op_okI: "(\<And>st s. P s \<Longrightarrow> \<exists>st' s' r. m (st, s) = Some ((st', s'), r) \<and> Q r s') \<Longrightarrow> op_ok P m Q"
  by (simp add: op_ok_def)

lemma op_okE:
  assumes "op_ok P m Q" "P s" obtains st' s' r where "m (st, s) = Some ((st', s'), r)" "Q r s'"
  using assms by (auto simp: op_ok_def) blast

lemma op_ok_run: "op_ok P m Q \<Longrightarrow> P s \<Longrightarrow> m (st, s) = Some ((st', s'), r) \<Longrightarrow> Q r s'"
  unfolding op_ok_def by (metis Pair_inject option.inject)

lemma op_ok_weaken: "op_ok P m Q \<Longrightarrow> (\<And>r s. Q r s \<Longrightarrow> Q' r s) \<Longrightarrow> op_ok P m Q'"
  unfolding op_ok_def by meson

lemma op_ok_pre: "op_ok P m Q \<Longrightarrow> (\<And>s. P' s \<Longrightarrow> P s) \<Longrightarrow> op_ok P' m Q"
  unfolding op_ok_def by meson

lemma op_ok_ret: "(\<And>s. P s \<Longrightarrow> Q (Ok x) s) \<Longrightarrow> op_ok P (eret x) Q"
  by (simp add: op_ok_def eret_def)

lemma op_ok_lift: "(\<And>s. P s \<Longrightarrow> Q r s) \<Longrightarrow> op_ok P (elift r) Q"
  by (simp add: op_ok_def elift_def)

lemma op_ok_modify: "(\<And>s. P s \<Longrightarrow> Q (Ok ()) (f s)) \<Longrightarrow> op_ok P (emodify f) Q"
  by (simp add: op_ok_def emodify_def)

lemma op_ok_get: "(\<And>s. P s \<Longrightarrow> op_ok (\<lambda>s'. s' = s) (f s) Q) \<Longrightarrow> op_ok P (ebind eget f) Q"
  by (auto simp: op_ok_def ebind_def eget_def)

lemma op_ok_bind:
  assumes "op_ok P m R" "\<And>x. op_ok (R (Ok x)) (f x) Q" "\<And>e s. R (Inl e) s \<Longrightarrow> Q (Inl e) s"
  shows "op_ok P (ebind m f) Q"
proof (rule op_okI)
  fix st s assume "P s"
  with assms(1) obtain st1 s1 r where m: "m (st, s) = Some ((st1, s1), r)" "R r s1" by (rule op_okE)
  show "\<exists>st' s' r. ebind m f (st, s) = Some ((st', s'), r) \<and> Q r s'"
  proof (cases r)
    case (Inl e)
    with m assms(3) show ?thesis by (simp add: ebind_def)
  next
    case (Inr x)
    with m assms(2) [of x] have "\<exists>st' s' r. f x (st1, s1) = Some ((st', s'), r) \<and> Q r s'" by (auto simp: op_ok_def)
    with m Inr show ?thesis by (simp add: ebind_def)
  qed
qed

text \<open>Steps on the store alone leave the state.\<close>

definition frame :: "('s, 'a) eff \<Rightarrow> bool" where
  "frame m \<longleftrightarrow> (\<forall>st s. \<exists>st' r. m (st, s) = Some ((st', s), r))"

lemma op_ok_frame: "frame m \<Longrightarrow> op_ok P m (\<lambda>r s. P s)"
  unfolding frame_def op_ok_def by metis

lemma frame_acquire [simp]: "frame (eacquire k n ow)"
  unfolding frame_def eacquire_def by (auto split: sum.splits)

lemma frame_drop [simp]: "frame (edrop l)" "frame (edrop_opt lo)"
  by (simp_all add: frame_def edrop_def edrop_opt_def eret_def split: option.splits)

lemma frame_lift [simp]: "frame (elift r)" "frame (eret x)"
  by (simp_all add: frame_def elift_def eret_def)

lemma frame_check [simp]: "r \<noteq> None \<Longrightarrow> frame (echeck r)"
  by (auto simp: echeck_def)

lemma frame_finish [simp]: "frame (efinish b)"
  unfolding frame_def efinish_def by (auto split: sum.splits)

lemma op_ok_frame_bind:
  "frame m \<Longrightarrow> (\<And>x. op_ok P (f x) Q) \<Longrightarrow> (\<And>e s. P s \<Longrightarrow> Q (Inl e) s) \<Longrightarrow> op_ok P (ebind m f) Q"
  by (rule op_ok_bind [OF op_ok_frame])

lemma op_ok_scoped: "op_ok P m Q \<Longrightarrow> op_ok P (escoped l m) Q"
  unfolding op_ok_def escoped_def by (auto, metis (mono_tags, lifting) old.prod.case option.simps(5))

lemma op_ok_guarded: "op_ok P m Q \<Longrightarrow> op_ok P (eguarded l m) Q"
proof (rule op_okI)
  fix st s assume "op_ok P m Q" "P s"
  then obtain st1 s1 r where "m (st, s) = Some ((st1, s1), r)" "Q r s1" by (rule op_okE)
  then show "\<exists>st' s' r. eguarded l m (st, s) = Some ((st', s'), r) \<and> Q r s'" by (cases r) (simp_all add: eguarded_def)
qed

lemma op_ok_scratch:
  "op_ok P m Q \<Longrightarrow> (\<And>e s. P s \<Longrightarrow> Q (Inl e) s) \<Longrightarrow> op_ok P (escratch n ow m) Q"
  unfolding escratch_def by (intro op_ok_frame_bind frame_acquire op_ok_scoped)

lemma op_ok_check:
  "(\<And>x. r = Some (Inr x) \<Longrightarrow> op_ok P (f x) Q) \<Longrightarrow> (\<And>e s. r = Some (Inl e) \<Longrightarrow> P s \<Longrightarrow> Q (Inl e) s) \<Longrightarrow> r \<noteq> None \<Longrightarrow>
     op_ok P (ebind (echeck r) f) Q"
  by (cases r; cases "the r") (auto simp: echeck_def elift_def ebind_def op_ok_def)

lemma op_ok_lift_bind:
  "(\<And>x. r = Inr x \<Longrightarrow> op_ok P (f x) Q) \<Longrightarrow> (\<And>e s. r = Inl e \<Longrightarrow> P s \<Longrightarrow> Q (Inl e) s) \<Longrightarrow> op_ok P (ebind (elift r) f) Q"
  by (cases r) (auto simp: elift_def ebind_def op_ok_def)

lemma op_ok_first: "op_ok P m Q \<Longrightarrow> op_ok (\<lambda>(s, t). P s) (efirst m) (\<lambda>r (s, t). Q r s)"
  unfolding op_ok_def efirst_def by (auto, metis (mono_tags, lifting) old.prod.case option.simps(5))

lemma op_ok_push: "op_ok (\<lambda>(s, b). P s) (epush r) (\<lambda>res (s, b). P s)"
  unfolding op_ok_def epush_def by (auto split: prod.splits)

lemma op_ok_builder:
  assumes "op_ok (\<lambda>(s, b). P s) m (\<lambda>r (s, b). case r of Inl e \<Rightarrow> E e s | Inr _ \<Rightarrow> R s)"
    "\<And>e s. E e s \<Longrightarrow> Q (Inl e) s" "\<And>b s. R s \<Longrightarrow> Q (Ok b) s"
  shows "op_ok P (ewith_builder b m) Q"
proof (rule op_okI)
  fix st s assume "P s"
  then have "(\<lambda>(s, b). P s) (s, b)" by simp
  with assms(1) obtain st1 sb r where m: "m (st, (s, b)) = Some ((st1, sb), r)"
    "(\<lambda>(s, b). case r of Inl e \<Rightarrow> E e s | Inr _ \<Rightarrow> R s) sb" by (rule op_okE)
  then show "\<exists>st' s' r. ewith_builder b m (st, s) = Some ((st', s'), r) \<and> Q r s'"
    using assms(2,3) by (cases sb; cases r) (auto simp: ewith_builder_def)
qed

lemma op_ok_for:
  assumes "\<And>x. x \<in> set xs \<Longrightarrow> op_ok I (f x) (\<lambda>r s. case r of Inl e \<Rightarrow> E e s | Inr _ \<Rightarrow> I s)"
  shows "op_ok I (efor f xs) (\<lambda>r s. case r of Inl e \<Rightarrow> E e s | Inr _ \<Rightarrow> I s)"
  using assms
proof (induction xs)
  case (Cons x xs)
  have "op_ok I (f x) (\<lambda>r s. case r of Inl e \<Rightarrow> E e s | Inr _ \<Rightarrow> I s)" using Cons.prems by simp
  then show ?case unfolding efor.simps
    by (rule op_ok_bind) (use Cons.IH Cons.prems in auto)
qed (simp add: op_ok_ret)

lemma frame_bind: "frame m \<Longrightarrow> (\<And>x. frame (f x)) \<Longrightarrow> frame (ebind m f)"
proof -
  assume m: "frame m" and f: "\<And>x. frame (f x)"
  have "\<exists>st' r. ebind m f (st, s) = Some ((st', s), r)" for st s
  proof -
    from m obtain st1 r where "m (st, s) = Some ((st1, s), r)" unfolding frame_def by meson
    then show ?thesis using f unfolding frame_def by (cases r) (auto simp: ebind_def)
  qed
  then show ?thesis by (simp add: frame_def)
qed

lemma frame_scoped: "frame m \<Longrightarrow> frame (escoped l m)"
  unfolding frame_def escoped_def by (metis (mono_tags, lifting) old.prod.case option.simps(5))

lemma frame_scratch: "frame m \<Longrightarrow> frame (escratch n ow m)"
  unfolding escratch_def by (intro frame_bind frame_acquire frame_scoped)

lemma frame_built: "frame (ewith_builder b (epush r))"
  unfolding frame_def ewith_builder_def epush_def by (auto split: prod.splits sum.splits)

lemma op_ok_conj: "op_ok P m Q \<Longrightarrow> op_ok P' m Q' \<Longrightarrow> op_ok (\<lambda>s. P s \<and> P' s) m (\<lambda>r s. Q r s \<and> Q' r s)"
  unfolding op_ok_def by (metis Pair_inject option.inject)

lemma acquire_error: "acquire k n ow st = Inl e \<Longrightarrow> 0 < n \<Longrightarrow> e = with_retryable True (new_error ResourceExhausted)"
proof (induction ow)
  case (MemoryOwner i b p)
  then show ?case by (cases p) (auto simp: rbind_Inl_iff split: if_splits)
qed

lemma op_ok_acquire_bind:
  assumes "\<And>l. op_ok P (f l) Q" "\<And>e s. P s \<Longrightarrow> err_code e = ResourceExhausted \<Longrightarrow> Q (Inl e) s" "0 < n"
  shows "op_ok P (ebind (eacquire k n ow) f) Q"
proof (rule op_ok_bind [where R = "\<lambda>r s. P s \<and> (\<forall>e. r = Inl e \<longrightarrow> err_code e = ResourceExhausted)"])
  show "op_ok P (eacquire k n ow) (\<lambda>r s. P s \<and> (\<forall>e. r = Inl e \<longrightarrow> err_code e = ResourceExhausted))"
    using assms(3) by (auto simp: op_ok_def eacquire_def split: sum.splits dest!: acquire_error)
qed (use assms in \<open>auto elim: op_ok_pre\<close>)

lemma ebind_ret [simp]: "ebind (eret x) f = f x"
  by (simp add: ebind_def eret_def)

lemma ebind_assoc: "ebind (ebind m f) g = ebind m (\<lambda>x. ebind (f x) g)"
  by (auto simp: ebind_def fun_eq_iff split: option.splits sum.splits)

lemma ebind_Ok: "ebind m f x = Some (y, Ok v) \<longleftrightarrow> (\<exists>z u. m x = Some (z, Ok u) \<and> f u z = Some (y, Ok v))"
  by (auto simp: ebind_def split: option.splits sum.splits prod.splits)

lemma elift_Ok: "elift r x = Some (z, Ok u) \<longleftrightarrow> z = x \<and> r = Ok u"
  by (auto simp: elift_def)

lemma run_Ok:
  "emodify f (st, s) = Some (z, Ok u) \<longleftrightarrow> z = (st, f s)"
  "eget (st, s) = Some (z, Ok u') \<longleftrightarrow> z = (st, s) \<and> u' = s"
  "eret x y = Some (z, Ok v) \<longleftrightarrow> z = y \<and> v = x"
  "echeck r y = Some (z, Ok v) \<longleftrightarrow> z = y \<and> r = Some (Ok v)"
  "eacquire k n ow (st, s) = Some (z, Ok l) \<longleftrightarrow> (\<exists>st'. z = (st', s) \<and> acquire k n ow st = Ok (st', l))"
  by (auto simp: emodify_def eget_def eret_def echeck_def epanic_def elift_def eacquire_def split: option.splits sum.splits)

lemma scoped_Ok:
  "eguarded l m y = Some (z, Ok v) \<longleftrightarrow> m y = Some (z, Ok v)"
  "escoped k m y = Some (z, Ok v) \<longleftrightarrow> (\<exists>st' s'. m y = Some ((st', s'), Ok v) \<and> z = (fst (drop_lease k st'), s'))"
  "efirst n (st, s, t) = Some (z', Ok v) \<longleftrightarrow> (\<exists>st' s'. n (st, s) = Some ((st', s'), Ok v) \<and> z' = (st', s', t))"
  by (auto simp: eguarded_def escoped_def efirst_def split: option.splits sum.splits prod.splits)

lemma epush_Ok:
  "epush r (st, s, b) = Some (z, Ok u) \<Longrightarrow> \<exists>st' b'. z = (st', s, b') \<and> bb_rows b' = bb_rows b @ [r] \<and> bb_schema b' = bb_schema b \<and> row_conforms (bb_schema b) r"
  by (cases rule: push_cases [of r 0 b st]) (auto simp: epush_def builder_push_def)

lemma efinish_Ok:
  "efinish b (st, s) = Some (z, Ok out) \<Longrightarrow> \<exists>st'. z = (st', s) \<and> rb_rows out = bb_rows b \<and> rb_schema out = bb_schema b"
  by (auto simp: efinish_def builder_finish_def rbind_Inr_iff split: sum.splits)

lemma ewith_builder_Ok:
  "ewith_builder b m (st, s) = Some (z, Ok b') \<longleftrightarrow> (\<exists>st' s' u. m (st, s, b) = Some ((st', s', b'), Ok u) \<and> z = (st', s'))"
  by (auto simp: ewith_builder_def split: option.splits sum.splits prod.splits)

lemma op_ok_table:
  assumes "\<And>l. op_ok P (f l) Q" "\<And>e s. P s \<Longrightarrow> err_code e = ResourceExhausted \<Longrightarrow> Q (Inl e) s" "0 < n"
  shows "op_ok P (ebind (if c then eret None else ebind (eacquire k n ow) (\<lambda>l. eret (Some l))) f) Q"
  using assms by (auto simp: ebind_assoc intro!: op_ok_acquire_bind)

section \<open>Steps whose invariant reads the ledger\<close>

text \<open>
  Keyed state panics when its cached byte total and the owner's retention ledger disagree, so
  its steps need a triple that sees the store. Reservation scratch does not touch the retention
  ledger: a condition that reads only that ledger survives it.
\<close>

definition op_tot :: "(store \<Rightarrow> 's \<Rightarrow> bool) \<Rightarrow> ('s, 'a) eff \<Rightarrow> ('a result \<Rightarrow> store \<Rightarrow> 's \<Rightarrow> bool) \<Rightarrow> bool" where
  "op_tot P m Q \<longleftrightarrow> (\<forall>st s. P st s \<longrightarrow> (\<exists>st' s' r. m (st, s) = Some ((st', s'), r) \<and> Q r st' s'))"

definition reads_retention :: "memory_owner \<Rightarrow> (store \<Rightarrow> 's \<Rightarrow> bool) \<Rightarrow> bool" where
  "reads_retention ow P \<longleftrightarrow> (\<forall>st st' s. retention ow st = retention ow st' \<longrightarrow> P st s \<longrightarrow> P st' s)"

lemma op_totI: "(\<And>st s. P st s \<Longrightarrow> \<exists>st' s' r. m (st, s) = Some ((st', s'), r) \<and> Q r st' s') \<Longrightarrow> op_tot P m Q"
  by (simp add: op_tot_def)

lemma op_totE:
  assumes "op_tot P m Q" "P st s" obtains st' s' r where "m (st, s) = Some ((st', s'), r)" "Q r st' s'"
  using assms by (auto simp: op_tot_def) blast

lemma op_tot_weaken: "op_tot P m Q \<Longrightarrow> (\<And>r st s. Q r st s \<Longrightarrow> Q' r st s) \<Longrightarrow> op_tot P m Q'"
  unfolding op_tot_def by meson

lemma op_tot_pre: "op_tot P m Q \<Longrightarrow> (\<And>st s. P' st s \<Longrightarrow> P st s) \<Longrightarrow> op_tot P' m Q"
  unfolding op_tot_def by meson

lemma op_tot_ret: "(\<And>st s. P st s \<Longrightarrow> Q (Ok x) st s) \<Longrightarrow> op_tot P (eret x) Q"
  by (simp add: op_tot_def eret_def)

lemma op_tot_lift: "(\<And>st s. P st s \<Longrightarrow> Q r st s) \<Longrightarrow> op_tot P (elift r) Q"
  by (simp add: op_tot_def elift_def)

lemma op_tot_modify: "(\<And>st s. P st s \<Longrightarrow> Q (Ok ()) st (f s)) \<Longrightarrow> op_tot P (emodify f) Q"
  by (simp add: op_tot_def emodify_def)

lemma op_tot_get: "(\<And>st0 s0. P st0 s0 \<Longrightarrow> op_tot (\<lambda>st s. st = st0 \<and> s = s0) (f s0) Q) \<Longrightarrow> op_tot P (ebind eget f) Q"
  by (auto simp: op_tot_def ebind_def eget_def)

lemma op_tot_bind:
  assumes "op_tot P m R" "\<And>x. op_tot (R (Ok x)) (f x) Q" "\<And>e st s. R (Inl e) st s \<Longrightarrow> Q (Inl e) st s"
  shows "op_tot P (ebind m f) Q"
proof (rule op_totI)
  fix st s assume "P st s"
  with assms(1) obtain st1 s1 r where m: "m (st, s) = Some ((st1, s1), r)" "R r st1 s1" by (rule op_totE)
  show "\<exists>st' s' r. ebind m f (st, s) = Some ((st', s'), r) \<and> Q r st' s'"
  proof (cases r)
    case (Inl e)
    with m assms(3) show ?thesis by (simp add: ebind_def)
  next
    case (Inr x)
    with m assms(2) [of x] have "\<exists>st' s' r. f x (st1, s1) = Some ((st', s'), r) \<and> Q r st' s'" by (auto simp: op_tot_def)
    with m Inr show ?thesis by (simp add: ebind_def)
  qed
qed

lemma op_tot_lift_bind:
  "(\<And>x. r = Inr x \<Longrightarrow> op_tot P (f x) Q) \<Longrightarrow> (\<And>e st s. r = Inl e \<Longrightarrow> P st s \<Longrightarrow> Q (Inl e) st s) \<Longrightarrow> op_tot P (ebind (elift r) f) Q"
  by (cases r) (auto simp: elift_def ebind_def op_tot_def)

lemma op_tot_for:
  assumes "\<And>x. x \<in> set xs \<Longrightarrow> op_tot I (f x) (\<lambda>r st s. case r of Inl e \<Rightarrow> E e st s | Inr _ \<Rightarrow> I st s)"
  shows "op_tot I (efor f xs) (\<lambda>r st s. case r of Inl e \<Rightarrow> E e st s | Inr _ \<Rightarrow> I st s)"
  using assms
proof (induction xs)
  case (Cons x xs)
  have "op_tot I (f x) (\<lambda>r st s. case r of Inl e \<Rightarrow> E e st s | Inr _ \<Rightarrow> I st s)" using Cons.prems by simp
  then show ?case unfolding efor.simps
    by (rule op_tot_bind) (use Cons.IH Cons.prems in auto)
qed (simp add: op_tot_ret)

lemma reservation_keeps_retention:
  assumes "wf_owner ow" "acquire Reservation n ow st = Ok (st', l)"
  shows "retention ow st' = retention ow st" "retention ow (fst (drop_lease l st2)) = retention ow st2"
proof -
  note sp = acquire_spec [OF assms] and led = acquire_ledger [OF assms]
  have "ledger Retention (st' (owner_id ow)) = ledger Retention (st (owner_id ow))" using led by blast
  then show "retention ow st' = retention ow st" by (simp only: retention_def)
  show "retention ow (fst (drop_lease l st2)) = retention ow st2"
    using sp drop_last_spec [of l st2] assms(1) by (auto simp: retention_def refund_def release_handle_def)
qed

lemma op_tot_acquire:
  assumes "wf_owner ow" "reads_retention ow P" "\<And>e st s. P st s \<Longrightarrow> Q (Inl e) st s"
    "\<And>l. (\<And>st. retention ow (fst (drop_lease l st)) = retention ow st) \<Longrightarrow> op_tot P (f l) Q"
  shows "op_tot P (ebind (eacquire Reservation n ow) f) Q"
proof (rule op_totI)
  fix st s assume P: "P st s"
  show "\<exists>st' s' r. ebind (eacquire Reservation n ow) f (st, s) = Some ((st', s'), r) \<and> Q r st' s'"
  proof (cases "acquire Reservation n ow st")
    case (Inl e)
    with P assms(3) show ?thesis by (simp add: ebind_def eacquire_def)
  next
    case (Inr x)
    obtain st1 l where x: "x = (st1, l)" by fastforce
    note keep = reservation_keeps_retention [OF assms(1) Inr [unfolded x]]
    have "P st1 s" using assms(2) P keep(1) unfolding reads_retention_def by metis
    with assms(4) [of l] keep(2) obtain st' s' r where "f l (st1, s) = Some ((st', s'), r)" "Q r st' s'"
      by (meson op_totE)
    with Inr x show ?thesis by (simp add: ebind_def eacquire_def)
  qed
qed

lemma op_tot_scoped:
  assumes "op_tot P m Q" "\<And>r. reads_retention ow (Q r)" "\<And>st. retention ow (fst (drop_lease l st)) = retention ow st"
  shows "op_tot P (escoped l m) Q"
proof (rule op_totI)
  fix st s assume "P st s"
  with assms(1) obtain st1 s1 r where m: "m (st, s) = Some ((st1, s1), r)" "Q r st1 s1" by (rule op_totE)
  moreover have "Q r (fst (drop_lease l st1)) s1"
    using assms(2) [of r] m(2) assms(3) [of st1] unfolding reads_retention_def by metis
  ultimately show "\<exists>st' s' r. escoped l m (st, s) = Some ((st', s'), r) \<and> Q r st' s'" by (simp add: escoped_def)
qed

lemma op_tot_scratch:
  assumes "wf_owner ow" "reads_retention ow P" "\<And>e st s. P st s \<Longrightarrow> Q (Inl e) st s" "op_tot P m Q" "\<And>r. reads_retention ow (Q r)"
  shows "op_tot P (escratch n ow m) Q"
  unfolding escratch_def using assms by (intro op_tot_acquire op_tot_scoped) auto

end
