(* ===== verification/Iot_Common.thy ===== *)
theory Iot_Common
  imports Op_Effects Iot_Filter Alarm
begin

text \<open>
  What the timed IoT operators share: their counters and freeze frames
  (\<^verbatim>\<open>sparrow-runtime/src/iot.rs\<close>), the ordered index of deadlines beside the keyed entries, and the
  kernel's loop that takes due work one timer at a time (\<^verbatim>\<open>kernel.rs\<close>).
\<close>

section \<open>Counters and frames\<close>

record iot_stats =
  st_input :: nat
  st_emitted :: nat
  st_filtered :: nat
  st_invalid :: nat
  st_expired_keys :: nat
  st_notifications_expired :: nat
  st_notifications_cancelled :: nat
  st_notifications_deferred :: nat

definition iot_stats_default :: iot_stats where
  "iot_stats_default = \<lparr>st_input = 0, st_emitted = 0, st_filtered = 0, st_invalid = 0, st_expired_keys = 0,
     st_notifications_expired = 0, st_notifications_cancelled = 0, st_notifications_deferred = 0\<rparr>"

abbreviation sat_inc :: "nat \<Rightarrow> nat" where
  "sat_inc n \<equiv> sat_u64 (n + 1)"

record iot_entry =
  ie_key :: "scalar list"
  ie_values :: "scalar list"

record iot_freeze =
  fz_operator :: nat
  fz_slot :: nat
  fz_kind :: nat
  fz_entries :: "iot_entry list"

abbreviation iot_slot :: nat where "iot_slot \<equiv> 3"
abbreviation max_freeze_bytes :: nat where "max_freeze_bytes \<equiv> 8388608"
abbreviation max_freeze_entries :: nat where "max_freeze_entries \<equiv> 16384"

definition ensure_frame_bytes :: "nat \<Rightarrow> nat \<Rightarrow> nat \<Rightarrow> unit result" where
  "ensure_frame_bytes start current added =
     (if current + added > u64_max \<or> current + added < start \<or> current + added - start > max_freeze_bytes
      then Err BoundExceeded else Ok ())"

text \<open>Values appended one by one; the frame starts at \<open>start\<close> in \<open>out\<close>.\<close>

fun encode_values :: "nat \<Rightarrow> scalar list \<Rightarrow> bytes \<Rightarrow> bytes result" where
  "encode_values start [] out = Ok out"
| "encode_values start (v # vs) out =
     rbind (encoded_value_len v) (\<lambda>n.
     rbind (ensure_frame_bytes start (length out) n) (\<lambda>_.
     rbind (encode_value v) (\<lambda>b. encode_values start vs (out @ b))))"

definition u16_le :: "nat \<Rightarrow> bytes" where
  "u16_le n = le_bytes 2 (n mod 65536)"

definition encode_entry_parts :: "scalar list \<Rightarrow> scalar list \<Rightarrow> nat \<Rightarrow> bytes \<Rightarrow> bytes result" where
  "encode_entry_parts key vals start out =
     rbind (ensure_frame_bytes start (length out) 2) (\<lambda>_.
     rbind (encode_values start key (out @ u16_le (length key))) (\<lambda>out1.
     rbind (ensure_frame_bytes start (length out1) 2) (\<lambda>_.
       encode_values start vals (out1 @ u16_le (length vals)))))"

definition freeze_header :: "nat \<Rightarrow> nat \<Rightarrow> nat \<Rightarrow> bytes" where
  "freeze_header operator kind n = u32_le operator @ u16_le iot_slot @ [word_of_nat kind] @ u32_le n"

definition value_len_or :: "scalar \<Rightarrow> nat" where
  "value_len_or v = (case encoded_value_len v of Inl _ \<Rightarrow> u64_max div 128 | Inr n \<Rightarrow> n)"

section \<open>The deadline index\<close>

type_synonym timers = "(int \<times> bytes, unit) btmap"

definition first_timer :: "timers \<Rightarrow> (int \<times> bytes) option" where
  "first_timer ts = (case ts of [] \<Rightarrow> None | (tk, _) # _ \<Rightarrow> Some tk)"

text \<open>Replace a key's old deadline by its new one.\<close>

definition retime :: "bytes \<Rightarrow> int option \<Rightarrow> int option \<Rightarrow> timers \<Rightarrow> timers" where
  "retime k old new ts =
     (let ts1 = (case old of None \<Rightarrow> ts | Some t \<Rightarrow> hm_del (t, k) ts)
      in case new of None \<Rightarrow> ts1 | Some t \<Rightarrow> bt_put (t, k) () ts1)"

definition mirrors :: "('e \<Rightarrow> int option) \<Rightarrow> (bytes, 'e) btmap \<Rightarrow> timers \<Rightarrow> bool" where
  "mirrors d es ts \<longleftrightarrow> bt_inv es \<and> bt_inv ts \<and>
     (\<forall>t k. (t, k) \<in> fst ` set ts \<longleftrightarrow> (\<exists>e. map_of es k = Some e \<and> d e = Some t))"

lemma keys_hm_del: "fst ` set (hm_del k m) = fst ` set m - {k}"
  by (auto simp: hm_del_def)

lemma keys_retime: "fst ` set (retime k old new ts) =
   (fst ` set ts - (case old of None \<Rightarrow> {} | Some t \<Rightarrow> {(t, k)})) \<union> (case new of None \<Rightarrow> {} | Some t \<Rightarrow> {(t, k)})"
  by (auto simp: retime_def keys_hm_del keys_bt_put split: option.splits)

lemma bt_inv_retime: "bt_inv ts \<Longrightarrow> bt_inv (retime k old new ts)"
  by (auto simp: retime_def bt_inv_put bt_inv_del split: option.splits)

lemma mirrors_empty [simp]: "mirrors d [] []"
  by (simp add: mirrors_def)

lemma mirrors_put:
  assumes "mirrors d es ts"
  shows "mirrors d (bt_put k e es) (retime k (Option.bind (map_of es k) d) (d e) ts)"
proof -
  note m = assms [unfolded mirrors_def]
  have "(t, k') \<in> fst ` set (retime k (Option.bind (map_of es k) d) (d e) ts) \<longleftrightarrow>
      (\<exists>e'. map_of (bt_put k e es) k' = Some e' \<and> d e' = Some t)" for t k'
  proof (cases "k' = k")
    case True
    have "(t, k) \<in> fst ` set ts \<longleftrightarrow> Option.bind (map_of es k) d = Some t"
      using m by (cases "map_of es k") auto
    with True show ?thesis unfolding keys_retime by (auto split: option.splits)
  next
    case False
    with m show ?thesis unfolding keys_retime by (auto split: option.splits)
  qed
  with m show ?thesis by (simp add: mirrors_def bt_inv_put bt_inv_retime)
qed

lemma mirrors_del:
  assumes "mirrors d es ts"
  shows "mirrors d (hm_del k es) (retime k (Option.bind (map_of es k) d) None ts)"
proof -
  note m = assms [unfolded mirrors_def]
  have "(t, k') \<in> fst ` set (retime k (Option.bind (map_of es k) d) None ts) \<longleftrightarrow>
      (\<exists>e'. map_of (hm_del k es) k' = Some e' \<and> d e' = Some t)" for t k'
  proof (cases "k' = k")
    case True
    have "(t, k) \<in> fst ` set ts \<longleftrightarrow> Option.bind (map_of es k) d = Some t"
      using m by (cases "map_of es k") auto
    with True show ?thesis unfolding keys_retime by (auto split: option.splits)
  next
    case False
    with m show ?thesis unfolding keys_retime by (auto split: option.splits)
  qed
  with m show ?thesis by (simp add: mirrors_def bt_inv_del bt_inv_retime)
qed

lemma mirrors_first:
  assumes "mirrors d es ts" "first_timer ts = Some (t, k)"
  obtains e where "map_of es k = Some e" "d e = Some t"
    and "\<And>k' e' t'. map_of es k' = Some e' \<Longrightarrow> d e' = Some t' \<Longrightarrow> t \<le> t'"
proof -
  from assms(2) obtain u rest where ts: "ts = ((t, k), u) # rest" by (auto simp: first_timer_def split: list.splits)
  note m = assms(1) [unfolded mirrors_def]
  have "(t, k) \<in> fst ` set ts" using ts by simp
  with m have "\<exists>e. map_of es k = Some e \<and> d e = Some t" by blast
  then obtain e where e: "map_of es k = Some e" "d e = Some t" by blast
  moreover have "t \<le> t'" if "map_of es k' = Some e'" "d e' = Some t'" for k' e' t'
  proof -
    from that m have "(t', k') \<in> fst ` set ts" by blast
    moreover have "\<forall>x \<in> fst ` set rest. (t, k) < x" using m ts by (simp add: bt_inv_def)
    ultimately show ?thesis using ts by (auto simp: less_prod_def)
  qed
  ultimately show thesis using that by blast
qed

lemma mirrors_first_None:
  assumes "mirrors d es ts" "first_timer ts = None" "map_of es k = Some e"
  shows "d e = None"
proof (rule ccontr)
  assume "d e \<noteq> None"
  then obtain t where "d e = Some t" by blast
  with assms(1,3) have "(t, k) \<in> fst ` set ts" unfolding mirrors_def by blast
  with assms(2) show False by (auto simp: first_timer_def split: list.splits)
qed

lemma mirrors_next:
  assumes "mirrors d es ts" "\<not> overdue (map_option fst (first_timer ts)) now" "map_of es k = Some e"
  shows "\<not> overdue (d e) now"
proof (cases "first_timer ts")
  case None
  then show ?thesis using mirrors_first_None [OF assms(1) _ assms(3)] by simp
next
  case (Some tk)
  obtain t k0 where tk: "tk = (t, k0)" by force
  with Some have f: "first_timer ts = Some (t, k0)" by simp
  have "t \<le> t'" if "d e = Some t'" for t'
  proof (rule mirrors_first [OF assms(1) f])
    assume least: "\<And>k' e' t'. map_of es k' = Some e' \<Longrightarrow> d e' = Some t' \<Longrightarrow> t \<le> t'"
    show "t \<le> t'" by (rule least [OF assms(3) that])
  qed
  with f assms(2) show ?thesis by (cases "d e") (auto simp: not_le intro: less_le_trans)
qed

section \<open>Comparing tables of entries\<close>

text \<open>Two tables agree up to \<open>f\<close>, which forgets the leases: what a restore has to reach.\<close>

definition restored :: "('e \<Rightarrow> 'x) \<Rightarrow> (bytes, 'e) btmap \<Rightarrow> (bytes, 'e) btmap \<Rightarrow> (bytes, 'e) btmap \<Rightarrow> bool" where
  "restored f acc rest es \<longleftrightarrow> (\<forall>k. map_option f (map_of es k) =
     (case map_of rest k of Some e \<Rightarrow> Some (f e) | None \<Rightarrow> map_option f (map_of acc k)))"

lemma restored_Nil: "restored f acc [] acc"
  by (simp add: restored_def)

lemma restored_step:
  assumes r: "restored f (bt_put k e' acc) rest es" and nk: "map_of rest k = None" and same: "f e' = f e"
  shows "restored f acc ((k, e) # rest) es"
  unfolding restored_def
proof
  fix k'
  show "map_option f (map_of es k') = (case map_of ((k, e) # rest) k' of Some e \<Rightarrow> Some (f e) | None \<Rightarrow> map_option f (map_of acc k'))"
    using r [unfolded restored_def, rule_format, of k'] nk same
    by (cases "k' = k"; cases "map_of rest k'") auto
qed

lemma sorted_maps_eq:
  assumes "bt_inv xs" "bt_inv ys" "map_of xs = map_of ys" shows "xs = ys"
proof -
  have "distinct (map fst xs)" "distinct (map fst ys)" "sorted (map fst xs)" "sorted (map fst ys)"
    using assms(1,2) by (simp_all add: bt_inv_def strict_sorted_iff)
  moreover then have "set xs = set ys" using assms(3) by (metis map_of_eq_Some_iff subrelI subset_antisym)
  moreover have "inj_on fst (set xs \<union> set ys)" using calculation by (simp add: distinct_map)
  ultimately show ?thesis by (intro map_sorted_distinct_set_unique [of fst])
qed

lemma map_of_map_prod: "map_of (map (map_prod id f) xs) k = map_option f (map_of xs k)"
  by (induction xs) auto

lemma restored_same:
  assumes "restored f [] es es'" "bt_inv es" "bt_inv es'"
  shows "map (map_prod id f) es' = map (map_prod id f) es"
proof (rule sorted_maps_eq)
  show "bt_inv (map (map_prod id f) es')" "bt_inv (map (map_prod id f) es)" using assms(2,3) by (simp_all add: bt_inv_def comp_def)
  show "map_of (map (map_prod id f) es') = map_of (map (map_prod id f) es)"
  proof
    fix k
    show "map_of (map (map_prod id f) es') k = map_of (map (map_prod id f) es) k"
      using assms(1) [unfolded restored_def, rule_format, of k] by (simp add: map_of_map_prod split: option.splits)
  qed
qed

lemma mirrors_same:
  assumes "mirrors d xs ts" "mirrors d ys us" "map (map_prod id f) xs = map (map_prod id f) ys" "\<And>e e'. f e = f e' \<Longrightarrow> d e = d e'"
  shows "ts = us"
proof (rule sorted_maps_eq)
  show inv: "bt_inv ts" "bt_inv us" using assms(1,2) by (simp_all add: mirrors_def)
  have s: "map_option f (map_of xs k) = map_option f (map_of ys k)" for k using assms(3) map_of_map_prod [of f xs k] map_of_map_prod [of f ys k] by simp
  have d: "(\<exists>e. map_of xs k = Some e \<and> d e = Some t) \<longleftrightarrow> (\<exists>e. map_of ys k = Some e \<and> d e = Some t)" for k t
    using s [of k] by (cases "map_of xs k"; cases "map_of ys k") (auto dest: assms(4))
  show "map_of ts = map_of us"
  proof
    fix x
    have "x \<in> fst ` set ts \<longleftrightarrow> x \<in> fst ` set us" using assms(1,2) d by (cases x) (simp add: mirrors_def)
    then have "map_of ts x = None \<longleftrightarrow> map_of us x = None" by (simp add: map_of_eq_None_iff)
    then show "map_of ts x = map_of us x" by auto
  qed
qed

section \<open>Draining\<close>

text \<open>
  The kernel's loop: while the next deadline has passed, take one due timer. \<open>None\<close> is a panic or
  the end of the fuel; the locale below shows how much fuel suffices.
\<close>

fun edrain :: "nat \<Rightarrow> ('s \<Rightarrow> int option) \<Rightarrow> (int \<Rightarrow> ('s, row_batch option) eff) \<Rightarrow> int \<Rightarrow> ('s, row_batch list) eff" where
  "edrain 0 nxt due now = ebind eget (\<lambda>s. if overdue (nxt s) now then epanic else eret [])"
| "edrain (Suc n) nxt due now = ebind eget (\<lambda>s.
     if overdue (nxt s) now
     then ebind (due now) (\<lambda>o'. ebind (edrain n nxt due now) (\<lambda>os. eret (case o' of None \<Rightarrow> os | Some b \<Rightarrow> b # os)))
     else eret [])"

locale due_source =
  fixes inv :: "int \<Rightarrow> 's \<Rightarrow> bool"
    and nxt :: "'s \<Rightarrow> int option"
    and due :: "int \<Rightarrow> ('s, row_batch option) eff"
    and load :: "int \<Rightarrow> 's \<Rightarrow> nat"
  assumes due_step: "op_ok (\<lambda>s. inv now s \<and> overdue (nxt s) now \<and> load now s = n) (due now)
      (\<lambda>r s. inv now s \<and> (case r of Inl _ \<Rightarrow> True | Inr _ \<Rightarrow> load now s < n))"
    and load_pos: "inv now s \<Longrightarrow> overdue (nxt s) now \<Longrightarrow> 0 < load now s"
begin

lemma drain_ok:
  "op_ok (\<lambda>s. inv now s \<and> load now s \<le> n) (edrain n nxt due now)
     (\<lambda>r s. inv now s \<and> (case r of Inl _ \<Rightarrow> True | Inr _ \<Rightarrow> \<not> overdue (nxt s) now))"
proof (induction n)
  case 0
  show ?case
    unfolding edrain.simps
  proof (rule op_ok_get)
    fix s assume s: "inv now s \<and> load now s \<le> 0"
    then have "\<not> overdue (nxt s) now" using load_pos [of now s] by auto
    with s show "op_ok (\<lambda>s'. s' = s) (if overdue (nxt s) now then epanic else eret [])
        (\<lambda>r s. inv now s \<and> (case r of Inl _ \<Rightarrow> True | Inr _ \<Rightarrow> \<not> overdue (nxt s) now))"
      by (auto intro: op_ok_ret)
  qed
next
  case (Suc n)
  show ?case
    unfolding edrain.simps
  proof (rule op_ok_get)
    fix s assume s: "inv now s \<and> load now s \<le> Suc n"
    show "op_ok (\<lambda>s'. s' = s) (if overdue (nxt s) now
       then ebind (due now) (\<lambda>o'. ebind (edrain n nxt due now) (\<lambda>os. eret (case o' of None \<Rightarrow> os | Some b \<Rightarrow> b # os)))
       else eret []) (\<lambda>r s. inv now s \<and> (case r of Inl _ \<Rightarrow> True | Inr _ \<Rightarrow> \<not> overdue (nxt s) now))"
    proof (cases "overdue (nxt s) now")
      case True
      have "op_ok (\<lambda>s'. s' = s) (due now) (\<lambda>r s'. inv now s' \<and> (case r of Inl _ \<Rightarrow> True | Inr _ \<Rightarrow> load now s' \<le> n))"
        by (rule op_ok_weaken [OF op_ok_pre [OF due_step [of now "load now s"]]])
          (use s True in \<open>auto split: sum.splits\<close>)
      then have "op_ok (\<lambda>s'. s' = s)
          (ebind (due now) (\<lambda>o'. ebind (edrain n nxt due now) (\<lambda>os. eret (case o' of None \<Rightarrow> os | Some b \<Rightarrow> b # os))))
          (\<lambda>r s. inv now s \<and> (case r of Inl _ \<Rightarrow> True | Inr _ \<Rightarrow> \<not> overdue (nxt s) now))"
      proof (rule op_ok_bind)
        fix o'
        show "op_ok (\<lambda>s'. inv now s' \<and> (case Inr o' of Inl _ \<Rightarrow> True | Inr _ \<Rightarrow> load now s' \<le> n))
            (ebind (edrain n nxt due now) (\<lambda>os. eret (case o' of None \<Rightarrow> os | Some b \<Rightarrow> b # os)))
            (\<lambda>r s. inv now s \<and> (case r of Inl _ \<Rightarrow> True | Inr _ \<Rightarrow> \<not> overdue (nxt s) now))"
          by (rule op_ok_bind [OF op_ok_pre [OF Suc.IH]]) (auto intro: op_ok_ret)
      qed auto
      with True show ?thesis by simp
    next
      case False
      with s show ?thesis by (auto intro: op_ok_ret)
    qed
  qed
qed

lemma drains:
  assumes "inv now s" "load now s \<le> n"
  obtains st' s' r where "edrain n nxt due now (st, s) = Some ((st', s'), r)" "inv now s'"
    and "\<And>outs. r = Ok outs \<Longrightarrow> \<not> overdue (nxt s') now"
proof -
  have "inv now s \<and> load now s \<le> n" using assms by simp
  with drain_ok [of now n] obtain st' s' r where "edrain n nxt due now (st, s) = Some ((st', s'), r)"
    "inv now s' \<and> (case r of Inl _ \<Rightarrow> True | Inr _ \<Rightarrow> \<not> overdue (nxt s') now)" by (rule op_okE)
  then show thesis using that by (cases r) auto
qed

end

end
