(* ===== verification/Timed_Iot.thy ===== *)
theory Timed_Iot
  imports Iot_Common
begin

text \<open>
  The hold-for and debounce operators of \<^verbatim>\<open>sparrow-runtime/src/timed_iot.rs\<close>, driven by ordered
  logical time: keyed rows with an optional deadline, an ordered index of the deadlines, every
  entry billed to the owner. \<open>L\<close> are the sizes the compiler chooses, \<open>rcap\<close> and \<open>ecap\<close> the
  capacities of a row's vector and of an encoded key.
\<close>

section \<open>State\<close>

record timed_entry =
  te_key :: "scalar list"
  te_row :: row
  te_start :: int
  te_deadline :: "int option"
  te_trailing :: bool
  te_lease :: memory_lease

record ('r, 'j) timed_iot =
  ti_operator :: nat
  ti_timing :: "('r, 'j) iot_timing"
  ti_schema :: schema
  ti_owner :: memory_owner
  ti_keys :: "nat list"
  ti_fields :: "nat list"
  ti_invalid :: invalid_value_policy
  ti_max :: nat
  ti_now :: int
  ti_timers :: timers
  ti_entries :: "(bytes, timed_entry) btmap"
  ti_table :: "memory_lease option"
  ti_stats :: iot_stats
  ti_metadata :: memory_lease

definition timed_add :: "int \<Rightarrow> int \<Rightarrow> int result" where
  "timed_add now duration = ok_or CodecViolation (checked_i64 (now + duration))"

text \<open>\<open>None\<close> is the \<open>expect\<close> on a specification without timing.\<close>

definition timed_new :: "nat \<Rightarrow> ('r, 'j) iot_spec \<Rightarrow> schema \<Rightarrow> memory_owner \<Rightarrow> nat list \<Rightarrow> nat list \<Rightarrow> store \<Rightarrow>
    (store \<times> ('r, 'j) timed_iot result) option" where
  "timed_new op sp sc ow keys fidx st =
     (let mx = min (min (min (io_max_keys sp) (max_state_keys (owner_budget ow))) (max_timers (owner_budget ow))) max_freeze_entries
      in if mx = 0 then Some (st, Err ResourceExhausted)
         else case acquire Reservation (2048 + (length keys + length fidx) * 16) ow st of
             Inl e \<Rightarrow> Some (st, Inl e)
           | Inr (st1, l) \<Rightarrow>
               map_option (\<lambda>timing. (st1, Ok
                 \<lparr>ti_operator = op, ti_timing = timing, ti_schema = sc, ti_owner = ow, ti_keys = keys, ti_fields = fidx,
                  ti_invalid = io_invalid sp, ti_max = mx, ti_now = 0, ti_timers = [], ti_entries = [], ti_table = None,
                  ti_stats = iot_stats_default, ti_metadata = l\<rparr>)) (io_timing sp))"

definition timed_set_time :: "int \<Rightarrow> (('r, 'j) timed_iot, unit) eff" where
  "timed_set_time now = ebind eget (\<lambda>s.
     if now < ti_now s \<or> now < 0 then elift (Err CodecViolation) else emodify (\<lambda>s. s\<lparr>ti_now := now\<rparr>))"

definition nonfinite :: "scalar \<Rightarrow> bool" where
  "nonfinite v = (case v of SFloat64 x \<Rightarrow> \<not> is_finite x | _ \<Rightarrow> False)"

definition cell_mismatch :: "scalar \<times> field \<Rightarrow> bool" where
  "cell_mismatch vf = (case vf of (v, f) \<Rightarrow>
     (is_null v \<and> \<not> field_nullable f) \<or> (\<not> is_null v \<and> \<not> matches_type v (field_type f)))"

text \<open>\<open>any\<close> over indexed cells, left to right; an index out of range panics.\<close>

fun any_at :: "(scalar \<Rightarrow> bool) \<Rightarrow> row \<Rightarrow> nat list \<Rightarrow> bool option" where
  "any_at p row [] = Some False"
| "any_at p row (i # is) = (if i < length row then (if p (row ! i) then Some True else any_at p row is) else None)"

definition timed_validate_row :: "('r, 'j) timed_iot \<Rightarrow> row \<Rightarrow> bool result option" where
  "timed_validate_row s row =
     (if length row \<noteq> length (schema_fields (ti_schema s)) then Some (Err CodecViolation)
      else if list_ex cell_mismatch (zip row (schema_fields (ti_schema s))) then Some (Err CodecViolation)
      else case any_at is_null row (ti_keys s) of
          None \<Rightarrow> None
        | Some True \<Rightarrow> Some (Err CodecViolation)
        | Some False \<Rightarrow>
            (case any_at (\<lambda>v. is_null v \<or> nonfinite v) row (ti_fields s) of
               None \<Rightarrow> None
             | Some True \<Rightarrow> Some (case ti_invalid s of PolicyIgnore \<Rightarrow> Ok False | PolicyError \<Rightarrow> Err CodecViolation)
             | Some False \<Rightarrow> Some (if list_ex nonfinite row then Err CodecViolation else Ok True)))"

definition timed_next_deadline :: "('r, 'j) timed_iot \<Rightarrow> int option" where
  "timed_next_deadline s = map_option fst (first_timer (ti_timers s))"

section \<open>Operations\<close>

definition release_empty :: "(('r, 'j) timed_iot, unit) eff" where
  "release_empty = ebind eget (\<lambda>s.
     if ti_entries s = [] then
       ebind (emodify (\<lambda>s. s\<lparr>ti_timers := [], ti_entries := [], ti_table := None\<rparr>)) (\<lambda>_. edrop_opt (ti_table s))
     else eret ())"

definition timed_entry_bytes :: "row_layout \<Rightarrow> (row \<Rightarrow> nat) \<Rightarrow> scalar list \<Rightarrow> row \<Rightarrow> nat \<Rightarrow> nat" where
  "timed_entry_bytes L rcap key row encoded_capacity =
     sat_u64 (sat_u64 (sat_u64 (row_resident_bytes L (rcap row) row + sum_list (map (resident_bytes (layout.truncate L)) key))
       + sat_u64 (encoded_capacity * 2)) + 512)"

text \<open>Removing a key, as \<open>entries.remove\<close> with its index entry.\<close>

definition timed_remove :: "bytes \<Rightarrow> (('r, 'j) timed_iot, unit) eff" where
  "timed_remove k = ebind eget (\<lambda>s.
     ebind (emodify (\<lambda>s. s\<lparr>ti_timers := retime k (Option.bind (map_of (ti_entries s) k) te_deadline) None (ti_timers s),
                           ti_entries := hm_del k (ti_entries s)\<rparr>)) (\<lambda>_.
     ebind (edrop_opt (map_option te_lease (map_of (ti_entries s) k))) (\<lambda>_. release_empty)))"

text \<open>The second half of the loop body: admit, copy, emit, and only then change the state.\<close>

definition timed_store :: "row_layout \<Rightarrow> (row \<Rightarrow> nat) \<Rightarrow> (bytes \<Rightarrow> nat) \<Rightarrow> row \<Rightarrow> scalar list \<Rightarrow> int \<Rightarrow> int option \<Rightarrow> bool \<Rightarrow> bool \<Rightarrow>
    (('r, 'j) timed_iot \<times> batch_builder, unit) eff" where
  "timed_store L rcap ecap row key start deadline trailing emit = ebind eget (\<lambda>(s, b).
     let enc = key_encoding key; previous = map_of (ti_entries s) enc in
     if previous = None \<and> length (ti_entries s) \<ge> ti_max s then elift (Err ResourceExhausted)
     else ebind (if ti_table s = None then ebind (eacquire Retention 8192 (ti_owner s)) (\<lambda>l. eret (Some l)) else eret None) (\<lambda>fresh.
       eguarded fresh
         (ebind (eacquire Retention (timed_entry_bytes L rcap key row (ecap enc)) (ti_owner s)) (\<lambda>lease.
            eguarded (Some lease)
              (ebind (if emit then epush row else eret ()) (\<lambda>_.
                 ebind (emodify (\<lambda>(s, b). (s\<lparr>
                     ti_timers := retime enc (Option.bind previous te_deadline) deadline (ti_timers s),
                     ti_entries := bt_put enc \<lparr>te_key = key, te_row = row, te_start = start, te_deadline = deadline,
                       te_trailing = trailing, te_lease = lease\<rparr> (ti_entries s),
                     ti_table := (if fresh = None then ti_table s else fresh),
                     ti_stats := (if emit then (ti_stats s)\<lparr>st_emitted := sat_inc (st_emitted (ti_stats s))\<rparr>
                                  else (ti_stats s)\<lparr>st_filtered := sat_inc (st_filtered (ti_stats s))\<rparr>)\<rparr>, b))) (\<lambda>_.
                   efirst (edrop_opt (map_option te_lease previous)))))))))"

definition timed_decide :: "row_layout \<Rightarrow> (row \<Rightarrow> nat) \<Rightarrow> (bytes \<Rightarrow> nat) \<Rightarrow> int \<Rightarrow> row \<Rightarrow> ('r, 'j) timed_iot \<Rightarrow>
    (('r, 'j) timed_iot \<times> batch_builder, unit) eff" where
  "timed_decide L rcap ecap now row s =
     (let key = map (\<lambda>i. row ! i) (ti_keys s); enc = key_encoding key; previous = map_of (ti_entries s) enc
      in case ti_timing s of
           TimingHoldFor duration \<Rightarrow>
             (case ti_fields s of
                [] \<Rightarrow> epanic
              | f # _ \<Rightarrow>
                  if scalar_peq (row ! f) (SBool False) then
                    ebind (efirst (timed_remove enc)) (\<lambda>_.
                      efirst (emodify (\<lambda>s. s\<lparr>ti_stats := (ti_stats s)\<lparr>st_filtered := sat_inc (st_filtered (ti_stats s))\<rparr>\<rparr>)))
                  else (case previous of
                      Some e \<Rightarrow> timed_store L rcap ecap row key (te_start e) (te_deadline e) (te_trailing e) False
                    | None \<Rightarrow> ebind (elift (timed_add now duration)) (\<lambda>t.
                        timed_store L rcap ecap row key now (Some t) True False)))
         | TimingDebounce quiet max_wait leading trailing reset_on_repeat \<Rightarrow>
             (let start = (case previous of None \<Rightarrow> now | Some e \<Rightarrow> te_start e);
                  repeated = (case previous of None \<Rightarrow> False
                    | Some e \<Rightarrow> list_all (\<lambda>i. scalar_peq (te_row e ! i) (row ! i)) (ti_fields s))
              in ebind
                   (if repeated \<and> \<not> reset_on_repeat
                    then (case Option.bind previous te_deadline of None \<Rightarrow> epanic | Some t \<Rightarrow> eret t)
                    else elift (rbind (timed_add now quiet) (\<lambda>a. rbind (timed_add start max_wait) (\<lambda>b. Ok (min a b)))))
                   (\<lambda>deadline. timed_store L rcap ecap row key start (Some deadline)
                      (trailing \<and> (\<not> leading \<or> previous \<noteq> None)) (leading \<and> previous = None)))
         | _ \<Rightarrow> elift (Err CodecViolation))"

definition timed_row :: "row_layout \<Rightarrow> (row \<Rightarrow> nat) \<Rightarrow> (bytes \<Rightarrow> nat) \<Rightarrow> int \<Rightarrow> row \<Rightarrow> (('r, 'j) timed_iot \<times> batch_builder, unit) eff" where
  "timed_row L rcap ecap now row =
     ebind (efirst (emodify (\<lambda>s. s\<lparr>ti_stats := (ti_stats s)\<lparr>st_input := sat_inc (st_input (ti_stats s))\<rparr>\<rparr>))) (\<lambda>_.
     ebind eget (\<lambda>(s, b).
     ebind (echeck (timed_validate_row s row)) (\<lambda>valid.
       if \<not> valid then
         efirst (emodify (\<lambda>s. s\<lparr>ti_stats := (ti_stats s)\<lparr>st_invalid := sat_inc (st_invalid (ti_stats s)),
           st_filtered := sat_inc (st_filtered (ti_stats s))\<rparr>\<rparr>))
       else escratch (sat_u64 (sat_u64 (row_resident_bytes L (rcap row) row * 8) + 2048)) (ti_owner s)
              (timed_decide L rcap ecap now row s))))"

definition timed_on_batch :: "row_layout \<Rightarrow> (row \<Rightarrow> nat) \<Rightarrow> (bytes \<Rightarrow> nat) \<Rightarrow> row_batch \<Rightarrow> int \<Rightarrow> (('r, 'j) timed_iot, row_batch option) eff" where
  "timed_on_batch L rcap ecap batch now =
     ebind (timed_set_time now) (\<lambda>_.
     ebind eget (\<lambda>s.
       if overdue (timed_next_deadline s) now then elift (Err CodecViolation)
       else ebind (elift (builder_new (ti_schema s) (ti_owner s) Reservation (max (length (rb_rows batch)) 1)
              (reservation_bytes (owner_budget (ti_owner s))))) (\<lambda>b0.
         ebind (ewith_builder b0 (efor (timed_row L rcap ecap now) (rb_rows batch))) (\<lambda>b.
           if bb_rows b = [] then eret None
           else ebind (efinish b) (\<lambda>out. eret (Some (out\<lparr>rb_origin := rb_origin batch, rb_source := rb_source batch\<rparr>)))))))"

text \<open>What a due timer does to its key once its row has been delivered.\<close>

definition timed_settle :: "int \<Rightarrow> bytes \<Rightarrow> timed_entry \<Rightarrow> ('r, 'j) timed_iot \<Rightarrow> (('r, 'j) timed_iot, unit) eff" where
  "timed_settle t k e s = (case ti_timing s of
      TimingHoldFor _ \<Rightarrow> emodify (\<lambda>s. s\<lparr>ti_timers := hm_del (t, k) (ti_timers s),
        ti_entries := bt_put k (e\<lparr>te_deadline := None, te_trailing := False\<rparr>) (ti_entries s)\<rparr>)
    | _ \<Rightarrow> ebind (emodify (\<lambda>s. s\<lparr>ti_timers := hm_del (t, k) (ti_timers s), ti_entries := hm_del k (ti_entries s)\<rparr>)) (\<lambda>_.
        ebind (edrop (te_lease e)) (\<lambda>_. release_empty)))"

definition timed_take_due :: "row_layout \<Rightarrow> (row \<Rightarrow> nat) \<Rightarrow> int \<Rightarrow> (('r, 'j) timed_iot, row_batch option) eff" where
  "timed_take_due L rcap now =
     ebind (timed_set_time now) (\<lambda>_.
     ebind eget (\<lambda>s.
       case first_timer (ti_timers s) of
         None \<Rightarrow> eret None
       | Some (t, k) \<Rightarrow>
           if \<not> t \<le> now then eret None
           else escratch (sat_u64 (sat_u64 (length k * 2) + 128)) (ti_owner s)
             (case map_of (ti_entries s) k of
                None \<Rightarrow> epanic
              | Some e \<Rightarrow>
                  ebind (if te_trailing e then
                      escratch (sat_u64 (sat_u64 (row_resident_bytes L (rcap (te_row e)) (te_row e) * 2) + 128)) (ti_owner s)
                        (ebind (elift (builder_new (ti_schema s) (ti_owner s) Reservation 1 (reservation_bytes (owner_budget (ti_owner s))))) (\<lambda>b0.
                         ebind (ewith_builder b0 (epush (te_row e))) (\<lambda>b.
                         ebind (efinish b) (\<lambda>out. eret (Some out)))))
                    else eret None) (\<lambda>output.
                  ebind (timed_settle t k e s) (\<lambda>_.
                  ebind (if output = None then eret ()
                     else emodify (\<lambda>s. s\<lparr>ti_stats := (ti_stats s)\<lparr>st_emitted := sat_inc (st_emitted (ti_stats s))\<rparr>\<rparr>)) (\<lambda>_.
                    eret output))))))"

definition timed_cut_entry :: "('r, 'j) iot_timing \<Rightarrow> int \<Rightarrow> timed_entry \<Rightarrow> unit result" where
  "timed_cut_entry timing now e =
     (if te_start e > now \<or> overdue (te_deadline e) now then Err CodecViolation
      else case timing of
          TimingHoldFor duration \<Rightarrow>
            if te_deadline e = None then
              rbind (timed_add (te_start e) duration) (\<lambda>t. if t > now then Err CodecViolation else Ok ())
            else Ok ()
        | _ \<Rightarrow> Ok ())"

definition timed_validate_cut :: "int \<Rightarrow> (('r, 'j) timed_iot, unit) eff" where
  "timed_validate_cut now = ebind eget (\<lambda>s.
     ebind (elift (map_result (timed_cut_entry (ti_timing s) now) (map snd (ti_entries s)))) (\<lambda>_. timed_set_time now))"

definition timed_cleanup :: "(('r, 'j) timed_iot, unit) eff" where
  "timed_cleanup = ebind eget (\<lambda>s.
     ebind (emodify (\<lambda>s. s\<lparr>ti_timers := [], ti_entries := [], ti_table := None\<rparr>)) (\<lambda>_.
     ebind (efor (\<lambda>e. edrop (te_lease e)) (map snd (ti_entries s))) (\<lambda>_. edrop_opt (ti_table s))))"

section \<open>Freeze and restore\<close>

definition timing_state_kind :: "('r \<Rightarrow> nat) \<Rightarrow> ('r, 'j) iot_timing \<Rightarrow> nat" where
  "timing_state_kind resample_kind timing =
     (case timing of TimingHoldFor _ \<Rightarrow> 7 | TimingDebounce _ _ _ _ _ \<Rightarrow> 8 | TimingAlarm _ _ _ _ \<Rightarrow> 11
      | TimingSilence _ _ _ _ \<Rightarrow> 12 | TimingResample r \<Rightarrow> resample_kind r)"

definition timed_values :: "timed_entry \<Rightarrow> scalar list" where
  "timed_values e = [SInt64 (te_start e), SInt64 (case te_deadline e of None \<Rightarrow> -1 | Some t \<Rightarrow> t), SBool (te_trailing e)] @ te_row e"

definition timed_freeze_entries :: "('r, 'j) timed_iot \<Rightarrow> iot_entry list" where
  "timed_freeze_entries s = map (\<lambda>(k, e). \<lparr>ie_key = te_key e, ie_values = timed_values e\<rparr>) (ti_entries s)"

definition timed_estimated_freeze_bytes :: "('r, 'j) timed_iot \<Rightarrow> nat" where
  "timed_estimated_freeze_bytes s =
     foldl (\<lambda>n (k, e). sat_u64 (sat_u64 (n + 24) + sum_list (map value_len_or (te_key e @ te_row e)))) 11 (ti_entries s)"

fun encode_frame :: "nat \<Rightarrow> iot_entry list \<Rightarrow> bytes \<Rightarrow> bytes result" where
  "encode_frame start [] out = Ok out"
| "encode_frame start (e # es) out = rbind (encode_entry_parts (ie_key e) (ie_values e) start out) (encode_frame start es)"

definition timed_encode :: "('r \<Rightarrow> nat) \<Rightarrow> bytes \<Rightarrow> nat \<Rightarrow> (('r, 'j) timed_iot, bytes) eff" where
  "timed_encode resample_kind out mx = ebind eget (\<lambda>s.
     if length (ti_entries s) > mx \<or> timed_estimated_freeze_bytes s > max_freeze_bytes then elift (Err CodecViolation)
     else escratch 4096 (ti_owner s)
       (elift (encode_frame (length out) (timed_freeze_entries s)
          (out @ freeze_header (ti_operator s) (timing_state_kind resample_kind (ti_timing s)) (length (ti_entries s))))))"

definition restore_meta :: "scalar list \<Rightarrow> (int \<times> int option \<times> bool) result" where
  "restore_meta vs =
     (case vs of
        SInt64 start # SInt64 deadline # SBool trailing # _ \<Rightarrow>
          if 0 \<le> start \<and> (deadline = -1 \<or> deadline > start)
          then Ok (start, if deadline \<noteq> -1 then Some deadline else None, trailing) else Err CodecViolation
      | _ \<Rightarrow> Err CodecViolation)"

definition restore_timing_ok :: "('r, 'j) iot_timing \<Rightarrow> nat list \<Rightarrow> row \<Rightarrow> int \<Rightarrow> int option \<Rightarrow> bool \<Rightarrow> bool option" where
  "restore_timing_ok timing fidx row start deadline trailing =
     (case timing of
        TimingHoldFor duration \<Rightarrow>
          (case fidx of
             [] \<Rightarrow> None
           | f # _ \<Rightarrow> Some (scalar_peq (row ! f) (SBool True) \<and> trailing = (deadline \<noteq> None) \<and>
               (case deadline of None \<Rightarrow> True | Some t \<Rightarrow> checked_i64 (start + duration) = Some t)))
      | TimingDebounce quiet max_wait leading enabled _ \<Rightarrow>
          Some (case deadline of
             None \<Rightarrow> False
           | Some t \<Rightarrow>
               (case checked_i64 (start + max_wait) of None \<Rightarrow> False | Some mx \<Rightarrow> t \<le> mx) \<and>
               (trailing \<longrightarrow> enabled) \<and> (leading \<or> trailing) \<and>
               (case checked_i64 (start + quiet) of None \<Rightarrow> False | Some mn \<Rightarrow> mn \<le> t))
      | _ \<Rightarrow> Some False)"

text \<open>The checks on one frozen entry, before anything is allocated for it.\<close>

definition timed_restore_check :: "('r, 'j) timed_iot \<Rightarrow> iot_entry \<Rightarrow> (int \<times> int option \<times> bool \<times> row) result option" where
  "timed_restore_check s fe =
     (case restore_meta (ie_values fe) of
        Inl e \<Rightarrow> Some (Inl e)
      | Inr (start, deadline, trailing) \<Rightarrow>
          (let row = drop 3 (ie_values fe)
           in case timed_validate_row s row of
                None \<Rightarrow> None
              | Some (Inl e) \<Rightarrow> Some (Inl e)
              | Some (Inr valid) \<Rightarrow>
                  if \<not> valid \<or> length (ie_key fe) \<noteq> length (ti_keys s) \<or>
                     list_ex (\<lambda>(v, i). \<not> scalar_peq v (row ! i)) (zip (ie_key fe) (ti_keys s))
                  then Some (Err CodecViolation)
                  else map_option (\<lambda>ok. if ok then Ok (start, deadline, trailing, row) else Err CodecViolation)
                         (restore_timing_ok (ti_timing s) (ti_fields s) row start deadline trailing)))"

fun timed_restore_loop :: "row_layout \<Rightarrow> (row \<Rightarrow> nat) \<Rightarrow> (bytes \<Rightarrow> nat) \<Rightarrow> iot_entry list \<Rightarrow> (bytes, timed_entry) btmap \<Rightarrow> timers \<Rightarrow>
    (('r, 'j) timed_iot, (bytes, timed_entry) btmap \<times> timers) eff" where
  "timed_restore_loop L rcap ecap [] es ts = eret (es, ts)"
| "timed_restore_loop L rcap ecap (fe # fes) es ts = ebind eget (\<lambda>s.
     ebind (echeck (timed_restore_check s fe)) (\<lambda>(start, deadline, trailing, row).
     let enc = key_encoding (ie_key fe) in
     ebind (eacquire Retention (timed_entry_bytes L rcap (ie_key fe) row (ecap enc)) (ti_owner s)) (\<lambda>lease.
       eguarded (Some lease)
         (if map_of es enc \<noteq> None then elift (Err CodecViolation)
          else timed_restore_loop L rcap ecap fes
            (bt_put enc \<lparr>te_key = ie_key fe, te_row = row, te_start = start, te_deadline = deadline, te_trailing = trailing,
               te_lease = lease\<rparr> es)
            (retime enc None deadline ts)))))"

definition timed_restore :: "row_layout \<Rightarrow> (row \<Rightarrow> nat) \<Rightarrow> (bytes \<Rightarrow> nat) \<Rightarrow> ('r \<Rightarrow> nat) \<Rightarrow> nat \<Rightarrow> iot_freeze \<Rightarrow> (('r, 'j) timed_iot, unit) eff" where
  "timed_restore L rcap ecap resample_kind freeze_resident fz = ebind eget (\<lambda>s.
     if fz_operator fz \<noteq> ti_operator s \<or> fz_kind fz \<noteq> timing_state_kind resample_kind (ti_timing s) \<or>
        length (fz_entries fz) > ti_max s
     then elift (Err CodecViolation)
     else escratch (sat_u64 (sat_u64 (freeze_resident * 2) + 1024)) (ti_owner s)
       (ebind (if fz_entries fz = [] then eret None
               else ebind (eacquire Retention 8192 (ti_owner s)) (\<lambda>l. eret (Some l))) (\<lambda>table.
        eguarded table
          (ebind (timed_restore_loop L rcap ecap (fz_entries fz) [] []) (\<lambda>(es, ts).
           ebind (emodify (\<lambda>s. s\<lparr>ti_timers := ts, ti_entries := es, ti_table := table\<rparr>)) (\<lambda>_.
           ebind (efor (\<lambda>e. edrop (te_lease e)) (map snd (ti_entries s))) (\<lambda>_. edrop_opt (ti_table s))))))))"

section \<open>The invariant\<close>

definition timed_cfg :: "('r, 'j) timed_iot \<Rightarrow> bool" where
  "timed_cfg s \<longleftrightarrow> list_all (\<lambda>f. iot_value_type (field_type f)) (schema_fields (ti_schema s)) \<and>
     list_all (\<lambda>i. i < length (schema_fields (ti_schema s))) (ti_keys s @ ti_fields s) \<and>
     (case ti_timing s of
        TimingHoldFor d \<Rightarrow> 0 < d \<and> (\<exists>f. ti_fields s = [f] \<and> field_type (schema_fields (ti_schema s) ! f) = TBool)
      | TimingDebounce quiet max_wait leading trailing _ \<Rightarrow> 0 < quiet \<and> quiet \<le> max_wait \<and> (leading \<or> trailing)
      | _ \<Rightarrow> False)"

definition entry_timing_ok :: "('r, 'j) timed_iot \<Rightarrow> timed_entry \<Rightarrow> bool" where
  "entry_timing_ok s e \<longleftrightarrow>
     (case ti_timing s of
        TimingHoldFor d \<Rightarrow> te_row e ! hd (ti_fields s) = SBool True \<and> te_trailing e = (te_deadline e \<noteq> None) \<and> is_i64 (te_start e + d) \<and>
          (case te_deadline e of None \<Rightarrow> te_start e + d \<le> ti_now s | Some t \<Rightarrow> t = te_start e + d)
      | TimingDebounce quiet max_wait leading trailing _ \<Rightarrow>
          (case te_deadline e of None \<Rightarrow> False
           | Some t \<Rightarrow> te_start e + quiet \<le> t \<and> t \<le> te_start e + max_wait \<and> is_i64 (te_start e + max_wait)) \<and>
          (te_trailing e \<longrightarrow> trailing) \<and> (leading \<or> te_trailing e)
      | _ \<Rightarrow> False)"

definition timed_entry_ok :: "('r, 'j) timed_iot \<Rightarrow> bytes \<Rightarrow> timed_entry \<Rightarrow> bool" where
  "timed_entry_ok s k e \<longleftrightarrow> k = key_encoding (te_key e) \<and> te_key e = map (\<lambda>i. te_row e ! i) (ti_keys s) \<and>
     timed_validate_row s (te_row e) = Some (Ok True) \<and> 0 \<le> te_start e \<and> te_start e \<le> ti_now s \<and> entry_timing_ok s e"

definition timed_inv :: "('r, 'j) timed_iot \<Rightarrow> bool" where
  "timed_inv s \<longleftrightarrow> timed_cfg s \<and> mirrors te_deadline (ti_entries s) (ti_timers s) \<and> length (ti_entries s) \<le> ti_max s \<and>
     (\<forall>k e. map_of (ti_entries s) k = Some e \<longrightarrow> timed_entry_ok s k e)"

lemma any_at_total: "list_all (\<lambda>i. i < length row) is \<Longrightarrow> any_at p row is = Some (list_ex (\<lambda>i. p (row ! i)) is)"
  by (induction "is") auto

lemma validate_row_total:
  assumes "timed_cfg s" shows "\<exists>r. timed_validate_row s row = Some r"
proof (cases "length row = length (schema_fields (ti_schema s))")
  case True
  then have "list_all (\<lambda>i. i < length row) (ti_keys s)" "list_all (\<lambda>i. i < length row) (ti_fields s)"
    using assms by (simp_all add: timed_cfg_def)
  then show ?thesis by (auto simp: timed_validate_row_def any_at_total split: bool.splits)
qed (simp add: timed_validate_row_def)

lemmas timed_congs = iot_timing.case_cong option.case_cong bool.case_cong invalid_value_policy.case_cong

lemma validate_row_frame [simp]:
  "timed_validate_row (s\<lparr>ti_now := a\<rparr>) = timed_validate_row s" "timed_validate_row (s\<lparr>ti_timers := b\<rparr>) = timed_validate_row s"
  "timed_validate_row (s\<lparr>ti_entries := c\<rparr>) = timed_validate_row s" "timed_validate_row (s\<lparr>ti_table := d\<rparr>) = timed_validate_row s"
  "timed_validate_row (s\<lparr>ti_stats := e\<rparr>) = timed_validate_row s" "timed_validate_row (s\<lparr>ti_owner := f\<rparr>) = timed_validate_row s"
  by (simp_all add: fun_eq_iff timed_validate_row_def cong: timed_congs)

lemma entry_ok_frame [simp]:
  "timed_entry_ok (s\<lparr>ti_timers := b\<rparr>) = timed_entry_ok s" "timed_entry_ok (s\<lparr>ti_entries := c\<rparr>) = timed_entry_ok s"
  "timed_entry_ok (s\<lparr>ti_table := d\<rparr>) = timed_entry_ok s" "timed_entry_ok (s\<lparr>ti_stats := e\<rparr>) = timed_entry_ok s"
  "timed_entry_ok (s\<lparr>ti_owner := f\<rparr>) = timed_entry_ok s"
  by (simp_all add: fun_eq_iff timed_entry_ok_def entry_timing_ok_def cong: timed_congs)

lemma timed_cfg_frame [simp]:
  "timed_cfg (s\<lparr>ti_now := a\<rparr>) = timed_cfg s" "timed_cfg (s\<lparr>ti_timers := b\<rparr>) = timed_cfg s"
  "timed_cfg (s\<lparr>ti_entries := c\<rparr>) = timed_cfg s" "timed_cfg (s\<lparr>ti_table := d\<rparr>) = timed_cfg s"
  "timed_cfg (s\<lparr>ti_stats := e\<rparr>) = timed_cfg s" "timed_cfg (s\<lparr>ti_owner := f\<rparr>) = timed_cfg s"
  by (simp_all add: timed_cfg_def cong: timed_congs)

lemma timed_inv_frame [simp]:
  "timed_inv (s\<lparr>ti_table := d\<rparr>) = timed_inv s" "timed_inv (s\<lparr>ti_stats := e\<rparr>) = timed_inv s"
  by (simp_all add: timed_inv_def)

lemma entry_ok_later: "timed_entry_ok s k e \<Longrightarrow> ti_now s \<le> now \<Longrightarrow> timed_entry_ok (s\<lparr>ti_now := now\<rparr>) k e"
  by (auto simp: timed_entry_ok_def entry_timing_ok_def split: iot_timing.splits option.splits)

lemma timed_inv_later: "timed_inv s \<Longrightarrow> ti_now s \<le> now \<Longrightarrow> timed_inv (s\<lparr>ti_now := now\<rparr>)"
  by (auto simp: timed_inv_def intro: entry_ok_later)

lemma timed_inv_put:
  assumes "timed_inv s" "timed_entry_ok s k e" "map_of (ti_entries s) k \<noteq> None \<or> length (ti_entries s) < ti_max s"
  shows "timed_inv (s\<lparr>ti_timers := retime k (Option.bind (map_of (ti_entries s) k) te_deadline) (te_deadline e) (ti_timers s),
    ti_entries := bt_put k e (ti_entries s)\<rparr>)"
proof -
  have m: "mirrors te_deadline (ti_entries s) (ti_timers s)" using assms(1) by (simp add: timed_inv_def)
  have "bt_inv (ti_entries s)" using m by (simp add: mirrors_def)
  then have "length (bt_put k e (ti_entries s)) \<le> ti_max s"
    using assms(1,3) by (auto simp: bt.len_put timed_inv_def)
  with assms(1,2) mirrors_put [OF m, of k e] show ?thesis by (auto simp: timed_inv_def)
qed

lemma timed_inv_del:
  assumes "timed_inv s"
  shows "timed_inv (s\<lparr>ti_timers := retime k (Option.bind (map_of (ti_entries s) k) te_deadline) None (ti_timers s),
    ti_entries := hm_del k (ti_entries s)\<rparr>)"
proof -
  have m: "mirrors te_deadline (ti_entries s) (ti_timers s)" using assms by (simp add: timed_inv_def)
  have "length (hm_del k (ti_entries s)) \<le> length (ti_entries s)" by (simp add: hm_del_def)
  with assms mirrors_del [OF m, of k] show ?thesis
    by (auto simp: timed_inv_def split: if_splits)
qed

section \<open>Every operation keeps it\<close>

text \<open>Between two ticks no deadline is overdue (\<open>c\<close>); while a tick is drained some are.\<close>

definition timed_clear :: "int \<Rightarrow> ('r, 'j) timed_iot \<Rightarrow> bool" where
  "timed_clear now s \<longleftrightarrow> (\<forall>k e. map_of (ti_entries s) k = Some e \<longrightarrow> \<not> overdue (te_deadline e) now)"

lemma timed_clear_frame [simp]:
  "timed_clear now (s\<lparr>ti_now := a\<rparr>) = timed_clear now s" "timed_clear now (s\<lparr>ti_table := d\<rparr>) = timed_clear now s"
  "timed_clear now (s\<lparr>ti_stats := e\<rparr>) = timed_clear now s" "timed_clear now (s\<lparr>ti_timers := f\<rparr>) = timed_clear now s"
  by (simp_all add: timed_clear_def)

lemma timed_clear_put: "timed_clear now s \<Longrightarrow> \<not> overdue (te_deadline e) now \<Longrightarrow> timed_clear now (s\<lparr>ti_timers := ts, ti_entries := bt_put k e (ti_entries s)\<rparr>)"
  by (auto simp: timed_clear_def)

lemma timed_clear_del: "timed_clear now s \<Longrightarrow> timed_clear now (s\<lparr>ti_timers := ts, ti_entries := hm_del k (ti_entries s)\<rparr>)"
  by (auto simp: timed_clear_def split: if_splits)

abbreviation at_time :: "bool \<Rightarrow> int \<Rightarrow> ('r, 'j) timed_iot \<Rightarrow> bool" where
  "at_time c now s \<equiv> timed_inv s \<and> ti_now s = now \<and> (c \<longrightarrow> timed_clear now s)"

lemma release_empty_ok: "op_ok (at_time c now) release_empty (\<lambda>r. at_time c now)"
  unfolding release_empty_def
proof (rule op_ok_get)
  fix s :: "('r, 'j) timed_iot" assume s: "at_time c now s"
  show "op_ok (\<lambda>s'. s' = s) (if ti_entries s = [] then
      ebind (emodify (\<lambda>s. s\<lparr>ti_timers := [], ti_entries := [], ti_table := None\<rparr>)) (\<lambda>_. edrop_opt (ti_table s)) else eret ())
      (\<lambda>r. at_time c now)"
  proof (cases "ti_entries s = []")
    case True
    with s have "at_time c now (s\<lparr>ti_timers := [], ti_entries := [], ti_table := None\<rparr>)" by (simp add: timed_inv_def timed_clear_def)
    then have "op_ok (\<lambda>s'. s' = s) (ebind (emodify (\<lambda>s. s\<lparr>ti_timers := [], ti_entries := [], ti_table := None\<rparr>))
        (\<lambda>_. edrop_opt (ti_table s))) (\<lambda>r. at_time c now)"
      by (intro op_ok_bind [where R = "\<lambda>r. at_time c now"] op_ok_modify op_ok_frame) auto
    with True show ?thesis by simp
  next
    case False
    with s show ?thesis by (auto intro: op_ok_ret)
  qed
qed

lemma timed_remove_ok: "op_ok (at_time c now) (timed_remove k) (\<lambda>r. at_time c now)"
  unfolding timed_remove_def
proof (rule op_ok_get, rule op_ok_bind [where R = "\<lambda>r. at_time c now"])
  fix s :: "('r, 'j) timed_iot" assume s: "at_time c now s"
  show "op_ok (\<lambda>s'. s' = s) (emodify (\<lambda>s. s\<lparr>ti_timers := retime k (Option.bind (map_of (ti_entries s) k) te_deadline) None (ti_timers s),
      ti_entries := hm_del k (ti_entries s)\<rparr>)) (\<lambda>r. at_time c now)"
    using s timed_inv_del timed_clear_del by (intro op_ok_modify) auto
  show "op_ok (at_time c now) (ebind (edrop_opt (map_option te_lease (map_of (ti_entries s) k))) (\<lambda>_. release_empty)) (\<lambda>r. at_time c now)" for x :: unit
    by (intro op_ok_frame_bind release_empty_ok) auto
qed auto

lemma timed_store_ok:
  assumes s: "at_time c now s"
    and e: "\<And>lease. timed_entry_ok s (key_encoding key) \<lparr>te_key = key, te_row = row, te_start = start, te_deadline = deadline,
      te_trailing = trailing, te_lease = lease\<rparr>"
    and clear: "c \<Longrightarrow> \<not> overdue deadline now"
  shows "op_ok (\<lambda>(s', b). s' = s) (timed_store L rcap ecap row key start deadline trailing emit) (\<lambda>r (s', b). at_time c now s')"
  unfolding timed_store_def
proof (rule op_ok_get, clarsimp simp: Let_def split del: if_split)
  fix b0
  let ?enc = "key_encoding key"
  let ?previous = "map_of (ti_entries s) ?enc"
  let ?Q = "\<lambda>r (s', b). at_time c now s'"
  let ?upd = "\<lambda>fresh lease (s :: ('a, 'b) timed_iot). s\<lparr>
      ti_timers := retime ?enc (Option.bind ?previous te_deadline) deadline (ti_timers s),
      ti_entries := bt_put ?enc \<lparr>te_key = key, te_row = row, te_start = start, te_deadline = deadline,
        te_trailing = trailing, te_lease = lease\<rparr> (ti_entries s),
      ti_table := (if fresh = None then ti_table s else fresh),
      ti_stats := (if emit then (ti_stats s)\<lparr>st_emitted := sat_inc (st_emitted (ti_stats s))\<rparr>
         else (ti_stats s)\<lparr>st_filtered := sat_inc (st_filtered (ti_stats s))\<rparr>)\<rparr>"
  show "op_ok (\<lambda>s'. s' = (s, b0))
      (if ?previous = None \<and> ti_max s \<le> length (ti_entries s) then elift (Err ResourceExhausted)
       else ebind (if ti_table s = None then ebind (eacquire Retention 8192 (ti_owner s)) (\<lambda>l. eret (Some l)) else eret None) (\<lambda>fresh.
         eguarded fresh (ebind (eacquire Retention (timed_entry_bytes L rcap key row (ecap ?enc)) (ti_owner s)) (\<lambda>lease.
           eguarded (Some lease) (ebind (if emit then epush row else eret ()) (\<lambda>_.
             ebind (emodify (\<lambda>(s, b). (?upd fresh lease s, b))) (\<lambda>_. efirst (edrop_opt (map_option te_lease ?previous)))))))))
      ?Q"
  proof (cases "?previous = None \<and> ti_max s \<le> length (ti_entries s)")
    case True
    with s show ?thesis by (auto intro: op_ok_lift)
  next
    case False
    then have room: "?previous \<noteq> None \<or> length (ti_entries s) < ti_max s" by auto
    have upd: "at_time c now (?upd fresh lease s)" for fresh lease
      using timed_inv_put [OF _ e room] clear s by (auto intro!: timed_clear_put)
    have inner: "op_ok (\<lambda>(s', b). s' = s) (ebind (if emit then epush row else eret ()) (\<lambda>_.
             ebind (emodify (\<lambda>(s, b). (?upd fresh lease s, b))) (\<lambda>_. efirst (edrop_opt (map_option te_lease ?previous))))) ?Q"
      for fresh lease
    proof (rule op_ok_bind [where R = "\<lambda>r (s', b). s' = s"])
      show "op_ok (\<lambda>(s', b). s' = s) (if emit then epush row else eret ()) (\<lambda>r (s', b). s' = s)"
        by (auto intro: op_ok_push op_ok_ret)
      show "op_ok ((\<lambda>r (s', b). s' = s) (Ok x)) (ebind (emodify (\<lambda>(s, b). (?upd fresh lease s, b)))
          (\<lambda>_. efirst (edrop_opt (map_option te_lease ?previous)))) ?Q" for x :: unit
        using upd by (intro op_ok_bind [where R = ?Q] op_ok_modify op_ok_first op_ok_frame) auto
    qed (use s in auto)
    have "frame (if ti_table s = None then ebind (eacquire Retention 8192 (ti_owner s)) (\<lambda>l. eret (Some l)) else eret None)"
      by (auto simp: frame_def ebind_def eacquire_def eret_def split: sum.splits prod.splits)
    then have "op_ok (\<lambda>(s', b). s' = s) (ebind (if ti_table s = None then ebind (eacquire Retention 8192 (ti_owner s)) (\<lambda>l. eret (Some l)) else eret None) (\<lambda>fresh.
         eguarded fresh (ebind (eacquire Retention (timed_entry_bytes L rcap key row (ecap ?enc)) (ti_owner s)) (\<lambda>lease.
           eguarded (Some lease) (ebind (if emit then epush row else eret ()) (\<lambda>_.
             ebind (emodify (\<lambda>(s, b). (?upd fresh lease s, b))) (\<lambda>_. efirst (edrop_opt (map_option te_lease ?previous)))))))))
      ?Q"
    proof (rule op_ok_frame_bind)
      show "op_ok (\<lambda>(s', b). s' = s) (eguarded fresh (ebind (eacquire Retention (timed_entry_bytes L rcap key row (ecap ?enc)) (ti_owner s)) (\<lambda>lease.
           eguarded (Some lease) (ebind (if emit then epush row else eret ()) (\<lambda>_.
             ebind (emodify (\<lambda>(s, b). (?upd fresh lease s, b))) (\<lambda>_. efirst (edrop_opt (map_option te_lease ?previous))))))))
          ?Q" for fresh
        by (intro op_ok_guarded op_ok_frame_bind frame_acquire inner) (use s in auto)
    qed (use s in auto)
    then show ?thesis unfolding if_not_P [OF False] by (rule op_ok_pre) simp
  qed
qed

lemma validated_condition:
  assumes cfg: "timed_cfg s" "ti_timing s = TimingHoldFor d" and row: "timed_validate_row s row = Some (Ok True)"
  shows "\<exists>f b. ti_fields s = [f] \<and> row ! f = SBool b"
proof -
  from cfg obtain f where f: "ti_fields s = [f]" "field_type (schema_fields (ti_schema s) ! f) = TBool"
    "f < length (schema_fields (ti_schema s))"
    by (auto simp: timed_cfg_def)
  from row have len: "length row = length (schema_fields (ti_schema s))"
    and cells: "\<not> list_ex cell_mismatch (zip row (schema_fields (ti_schema s)))"
    by (auto simp: timed_validate_row_def split: if_splits)
  have nn: "\<not> is_null (row ! f)"
  proof
    assume "is_null (row ! f)"
    then have "any_at (\<lambda>v. is_null v \<or> nonfinite v) row (ti_fields s) = Some True" using f len by simp
    with row show False
      by (auto simp: timed_validate_row_def split: if_splits option.splits bool.splits invalid_value_policy.splits)
  qed
  have "(row ! f, schema_fields (ti_schema s) ! f) \<in> set (zip row (schema_fields (ti_schema s)))"
    using f(3) len by (auto simp: set_zip)
  with cells nn f(2) have "matches_type (row ! f) TBool" by (auto simp: list_ex_iff cell_mismatch_def)
  then have "\<exists>b. row ! f = SBool b" using nn by (cases "row ! f") (auto simp: matches_type_def is_nested_def)
  with f show ?thesis by blast
qed

lemma timed_add_Inr [simp]: "timed_add a b = Inr t \<longleftrightarrow> t = a + b \<and> is_i64 (a + b)"
  by (simp add: timed_add_def)

lemma hold_for_ok:
  assumes s: "at_time c now s" and now: "0 \<le> now" and row: "timed_validate_row s row = Some (Ok True)"
    and timing: "ti_timing s = TimingHoldFor d"
  shows "op_ok (\<lambda>(s', b). s' = s) (timed_decide L rcap ecap now row s) (\<lambda>r (s', b). at_time c now s')"
proof -
  have cfg: "timed_cfg s" using s by (simp add: timed_inv_def)
  from validated_condition [OF cfg timing row] obtain f b where f: "ti_fields s = [f]" "row ! f = SBool b" by blast
  let ?key = "map (\<lambda>i. row ! i) (ti_keys s)"
  let ?previous = "map_of (ti_entries s) (key_encoding ?key)"
  show ?thesis
  proof (cases b)
    case False
    have "op_ok (\<lambda>(s', b). s' = s) (ebind (efirst (timed_remove (key_encoding ?key))) (\<lambda>_.
        efirst (emodify (\<lambda>s. s\<lparr>ti_stats := (ti_stats s)\<lparr>st_filtered := sat_inc (st_filtered (ti_stats s))\<rparr>\<rparr>)))) (\<lambda>r (s', b). at_time c now s')"
    proof (rule op_ok_bind [where R = "\<lambda>r (s', b). at_time c now s'"])
      show "op_ok (\<lambda>(s', b). s' = s) (efirst (timed_remove (key_encoding ?key))) (\<lambda>r (s', b). at_time c now s')"
        by (rule op_ok_pre [OF op_ok_first [OF timed_remove_ok]]) (use s in auto)
      show "op_ok ((\<lambda>r (s', b). at_time c now s') (Ok x)) (efirst (emodify (\<lambda>s. s\<lparr>ti_stats := (ti_stats s)\<lparr>st_filtered := sat_inc (st_filtered (ti_stats s))\<rparr>\<rparr>)))
          (\<lambda>r (s', b). at_time c now s')" for x :: unit
        by (intro op_ok_first op_ok_modify) simp
    qed auto
    with False timing f show ?thesis by (simp add: timed_decide_def Let_def)
  next
    case True
    show ?thesis
    proof (cases ?previous)
      case None
      have "op_ok (\<lambda>(s', b). s' = s) (ebind (elift (timed_add now d)) (\<lambda>t. timed_store L rcap ecap row ?key now (Some t) True False))
          (\<lambda>r (s', b). at_time c now s')"
        using s now row timing f True cfg
        by (intro op_ok_lift_bind timed_store_ok) (auto simp: timed_entry_ok_def entry_timing_ok_def timed_cfg_def)
      with True timing f None show ?thesis by (simp add: timed_decide_def Let_def)
    next
      case (Some e)
      then have e: "timed_entry_ok s (key_encoding ?key) e" using s by (simp add: timed_inv_def)
      have "op_ok (\<lambda>(s', b). s' = s) (timed_store L rcap ecap row ?key (te_start e) (te_deadline e) (te_trailing e) False)
          (\<lambda>r (s', b). at_time c now s')"
        using s row timing f True e Some
        by (intro timed_store_ok) (auto simp: timed_entry_ok_def entry_timing_ok_def timed_clear_def)
      with True timing f Some show ?thesis by (simp add: timed_decide_def Let_def)
    qed
  qed
qed

lemma debounce_ok:
  assumes s: "at_time c now s" and now: "0 \<le> now" and row: "timed_validate_row s row = Some (Ok True)"
    and timing: "ti_timing s = TimingDebounce quiet max_wait leading trailing reset"
  shows "op_ok (\<lambda>(s', b). s' = s) (timed_decide L rcap ecap now row s) (\<lambda>r (s', b). at_time c now s')"
proof -
  have cfg: "0 < quiet" "quiet \<le> max_wait" "leading \<or> trailing" using s timing by (auto simp: timed_inv_def timed_cfg_def)
  let ?key = "map (\<lambda>i. row ! i) (ti_keys s)"
  let ?previous = "map_of (ti_entries s) (key_encoding ?key)"
  define start where "start = (case ?previous of None \<Rightarrow> now | Some e \<Rightarrow> te_start e)"
  have e: "timed_entry_ok s (key_encoding ?key) e" if "?previous = Some e" for e using s that by (simp add: timed_inv_def)
  have st: "0 \<le> start" "start \<le> now"
    by (cases ?previous; use e s now in \<open>simp add: start_def timed_entry_ok_def\<close>)+
  let ?store = "\<lambda>t. timed_store L rcap ecap row ?key start (Some t)
      (trailing \<and> (\<not> leading \<or> ?previous \<noteq> None)) (leading \<and> ?previous = None)"
  have store: "op_ok (\<lambda>(s', b). s' = s) (?store t) (\<lambda>r (s', b). at_time c now s')"
    if "start + quiet \<le> t" "t \<le> start + max_wait" "is_i64 (start + max_wait)" "c \<Longrightarrow> now < t" for t
    using s row timing that st cfg by (intro timed_store_ok) (auto simp: timed_entry_ok_def entry_timing_ok_def)
  have late: "c \<Longrightarrow> now < start + max_wait"
  proof (cases ?previous)
    case None
    then show ?thesis using cfg by (simp add: start_def)
  next
    case (Some e')
    assume c
    with s Some have "\<not> overdue (te_deadline e') now" by (auto simp: timed_clear_def)
    with e [OF Some] timing Some show ?thesis
      by (auto simp: start_def timed_entry_ok_def entry_timing_ok_def split: option.splits)
  qed
  have fresh: "op_ok (\<lambda>(s', b). s' = s)
      (ebind (elift (rbind (timed_add now quiet) (\<lambda>a. rbind (timed_add start max_wait) (\<lambda>b. Ok (min a b))))) ?store) (\<lambda>r (s', b). at_time c now s')"
    using s st cfg late by (intro op_ok_lift_bind store) (auto simp: rbind_Inr_iff)
  have old: "op_ok (\<lambda>(s', b). s' = s)
      (ebind (case Option.bind ?previous te_deadline of None \<Rightarrow> epanic | Some t \<Rightarrow> eret t) ?store) (\<lambda>r (s', b). at_time c now s')"
    if "?previous = Some e'" for e'
  proof -
    from e [OF that] timing obtain t where t: "te_deadline e' = Some t" "te_start e' + quiet \<le> t" "t \<le> te_start e' + max_wait"
        "is_i64 (te_start e' + max_wait)"
      by (auto simp: timed_entry_ok_def entry_timing_ok_def split: option.splits)
    have clear: "now < t" if c
    proof -
      have "\<not> overdue (te_deadline e') now" using s \<open>c\<close> \<open>?previous = Some e'\<close> unfolding timed_clear_def by blast
      with t(1) show ?thesis by simp
    qed
    from t have "op_ok (\<lambda>(s', b). s' = s) (?store t) (\<lambda>r (s', b). at_time c now s')"
      using that clear by (intro store) (simp_all add: start_def)
    with t that show ?thesis by (simp add: ebind_def eret_def)
  qed
  show ?thesis
    using fresh old timing unfolding timed_decide_def Let_def start_def
    by (cases ?previous) auto
qed

lemma timed_row_body:
  assumes s: "at_time c now s" and now: "0 \<le> now"
  shows "op_ok (\<lambda>(s', b). s' = s) (ebind (echeck (timed_validate_row s row)) (\<lambda>valid.
       if \<not> valid then
         efirst (emodify (\<lambda>s. s\<lparr>ti_stats := (ti_stats s)\<lparr>st_invalid := sat_inc (st_invalid (ti_stats s)),
           st_filtered := sat_inc (st_filtered (ti_stats s))\<rparr>\<rparr>))
       else escratch n (ti_owner s) (timed_decide L rcap ecap now row s))) (\<lambda>r (s', b). at_time c now s')"
proof (rule op_ok_check)
  have cfg: "timed_cfg s" using s by (simp add: timed_inv_def)
  show "timed_validate_row s row \<noteq> None" using validate_row_total [OF cfg] by auto
  fix valid assume v: "timed_validate_row s row = Some (Inr valid)"
  show "op_ok (\<lambda>(s', b). s' = s) (if \<not> valid then
         efirst (emodify (\<lambda>s. s\<lparr>ti_stats := (ti_stats s)\<lparr>st_invalid := sat_inc (st_invalid (ti_stats s)),
           st_filtered := sat_inc (st_filtered (ti_stats s))\<rparr>\<rparr>))
       else escratch n (ti_owner s) (timed_decide L rcap ecap now row s)) (\<lambda>r (s', b). at_time c now s')"
  proof (cases valid)
    case True
    with v have row: "timed_validate_row s row = Some (Ok True)" by simp
    have "op_ok (\<lambda>(s', b). s' = s) (timed_decide L rcap ecap now row s) (\<lambda>r (s', b). at_time c now s')"
      using hold_for_ok [OF s now row] debounce_ok [OF s now row] cfg by (cases "ti_timing s") (auto simp: timed_cfg_def)
    with True s show ?thesis by (auto intro!: op_ok_scratch)
  next
    case False
    have "op_ok (\<lambda>(s', b). s' = s) (efirst (emodify (\<lambda>s. s\<lparr>ti_stats := (ti_stats s)\<lparr>st_invalid := sat_inc (st_invalid (ti_stats s)),
           st_filtered := sat_inc (st_filtered (ti_stats s))\<rparr>\<rparr>))) (\<lambda>r (s', b). at_time c now s')"
      using s by (intro op_ok_first op_ok_modify) auto
    with False show ?thesis by simp
  qed
qed (use s in auto)

lemma timed_row_ok:
  assumes "0 \<le> now"
  shows "op_ok (\<lambda>(s, b). at_time c now s) (timed_row L rcap ecap now row) (\<lambda>r (s, b). at_time c now s)"
  unfolding timed_row_def
proof (rule op_ok_bind [where R = "\<lambda>r (s, b). at_time c now s"], goal_cases)
  case 1
  show ?case by (intro op_ok_first op_ok_modify) simp
next
  case (2 x)
  show ?case
  proof (rule op_ok_get, goal_cases)
    case (1 sb)
    obtain s b where sb: "sb = (s, b)" by force
    with 1 have "at_time c now s" by simp
    from timed_row_body [OF this assms] show ?case unfolding sb prod.case by (rule op_ok_pre) simp
  qed
qed auto

lemma set_time_ok:
  "op_ok timed_inv (timed_set_time now) (\<lambda>r s. timed_inv s \<and> (r = Ok () \<longrightarrow> ti_now s = now \<and> 0 \<le> now))"
  unfolding timed_set_time_def
proof (rule op_ok_get)
  fix s :: "('r, 'j) timed_iot" assume "timed_inv s"
  then show "op_ok (\<lambda>s'. s' = s) (if now < ti_now s \<or> now < 0 then elift (Err CodecViolation) else emodify (\<lambda>s. s\<lparr>ti_now := now\<rparr>))
      (\<lambda>r s. timed_inv s \<and> (r = Ok () \<longrightarrow> ti_now s = now \<and> 0 \<le> now))"
    by (auto intro!: op_ok_lift op_ok_modify timed_inv_later)
qed

lemma clear_iff_next: "timed_inv s \<Longrightarrow> \<not> overdue (timed_next_deadline s) now \<Longrightarrow> timed_clear now s"
  by (auto simp: timed_inv_def timed_clear_def timed_next_deadline_def dest: mirrors_next)

lemma next_if_clear:
  assumes "timed_inv s" "timed_clear now s"
  shows "\<not> overdue (timed_next_deadline s) now"
proof (cases "first_timer (ti_timers s)")
  case (Some tk)
  obtain t k where tk: "tk = (t, k)" by force
  from assms(1) have "mirrors te_deadline (ti_entries s) (ti_timers s)" by (simp add: timed_inv_def)
  from this Some [unfolded tk] obtain e where "map_of (ti_entries s) k = Some e" "te_deadline e = Some t"
    by (rule mirrors_first)
  with assms(2) have "\<not> overdue (Some t) now" unfolding timed_clear_def by metis
  with Some tk show ?thesis by (simp add: timed_next_deadline_def)
qed (simp add: timed_next_deadline_def)

lemma timed_on_batch_ok:
  "op_ok timed_inv (timed_on_batch L rcap ecap batch now)
     (\<lambda>r s. timed_inv s \<and> (\<forall>out. r = Ok out \<longrightarrow> ti_now s = now \<and> timed_clear now s))"
  unfolding timed_on_batch_def
proof (rule op_ok_bind [OF set_time_ok], goal_cases)
  case (1 x)
  show ?case
  proof (rule op_ok_get, goal_cases)
    case (1 s)
    then have s: "timed_inv s" "ti_now s = now" "0 \<le> now" by auto
    show ?case
    proof (cases "overdue (timed_next_deadline s) now")
      case True
      with s show ?thesis by (auto intro: op_ok_lift)
    next
      case False
      have loop: "op_ok (\<lambda>(s, b). at_time True now s) (efor (timed_row L rcap ecap now) (rb_rows batch))
          (\<lambda>r sb. case r of Inl e \<Rightarrow> (\<lambda>(s, b). at_time True now s) sb | Inr _ \<Rightarrow> (\<lambda>(s, b). at_time True now s) sb)"
        by (rule op_ok_for, rule op_ok_weaken [OF timed_row_ok [OF s(3)]]) (auto split: sum.splits)
      have built: "op_ok (at_time True now) (ewith_builder b0 (efor (timed_row L rcap ecap now) (rb_rows batch))) (\<lambda>r. at_time True now)" for b0
        by (rule op_ok_builder [where E = "\<lambda>_. at_time True now" and R = "at_time True now"])
          (use loop in \<open>auto simp: case_prod_beta' cong: sum.case_cong\<close>)
      have fin: "op_ok (at_time True now) (if bb_rows b = [] then eret None else ebind (efinish b) (\<lambda>out. eret (Some (f out))))
          (\<lambda>r s. timed_inv s \<and> (\<forall>out. r = Ok out \<longrightarrow> ti_now s = now \<and> timed_clear now s))" for b f
        by (auto intro!: op_ok_ret op_ok_frame_bind)
      have main: "op_ok (at_time True now) (ebind (elift r0) (\<lambda>b0.
          ebind (ewith_builder b0 (efor (timed_row L rcap ecap now) (rb_rows batch))) (\<lambda>b.
            if bb_rows b = [] then eret None else ebind (efinish b) (\<lambda>out. eret (Some (out\<lparr>rb_origin := rb_origin batch, rb_source := rb_source batch\<rparr>))))))
          (\<lambda>r s. timed_inv s \<and> (\<forall>out. r = Ok out \<longrightarrow> ti_now s = now \<and> timed_clear now s))" for r0
        by (intro op_ok_lift_bind op_ok_bind [OF built] fin) auto
      show ?thesis unfolding if_not_P [OF False]
        by (rule op_ok_pre [OF main]) (use s clear_iff_next [OF s(1) False] in simp)
    qed
  qed
qed auto

lemma release_empty_len: "op_ok (\<lambda>s. length (ti_timers s) < n) release_empty (\<lambda>r s. length (ti_timers s) < n)"
  unfolding release_empty_def
proof (rule op_ok_get)
  fix s :: "('r, 'j) timed_iot" assume "length (ti_timers s) < n"
  then show "op_ok (\<lambda>s'. s' = s) (if ti_entries s = [] then
      ebind (emodify (\<lambda>s. s\<lparr>ti_timers := [], ti_entries := [], ti_table := None\<rparr>)) (\<lambda>_. edrop_opt (ti_table s)) else eret ())
      (\<lambda>r s. length (ti_timers s) < n)"
    by (auto intro!: op_ok_ret op_ok_bind [where R = "\<lambda>r s. length (ti_timers s) < n"] op_ok_modify op_ok_frame)
qed

lemma first_timer_del: "first_timer ts = Some tk \<Longrightarrow> length (hm_del tk ts) < length ts"
  by (cases ts) (auto simp: first_timer_def hm_del_def le_imp_less_Suc)

lemma timed_settle_ok:
  assumes s: "timed_inv s" "ti_now s = now" and first: "first_timer (ti_timers s) = Some (t, k)" "t \<le> now"
    and e: "map_of (ti_entries s) k = Some e" "te_deadline e = Some t"
  shows "op_ok (\<lambda>s'. s' = s) (timed_settle t k e s)
    (\<lambda>r s'. at_time False now s' \<and> length (ti_timers s') < length (ti_timers s))"
proof -
  have del: "hm_del (t, k) (ti_timers s) = retime k (Option.bind (map_of (ti_entries s) k) te_deadline) None (ti_timers s)"
    using e by (simp add: retime_def)
  note len = first_timer_del [OF first(1)]
  show ?thesis
  proof (cases "ti_timing s")
    case (TimingHoldFor d)
    have "timed_entry_ok s k e" using s e by (simp add: timed_inv_def)
    then have "timed_entry_ok s k (e\<lparr>te_deadline := None, te_trailing := False\<rparr>)"
      using TimingHoldFor e first(2) s(2) by (simp add: timed_entry_ok_def entry_timing_ok_def)
    from timed_inv_put [OF s(1) this] e have "timed_inv (s\<lparr>ti_timers := hm_del (t, k) (ti_timers s),
        ti_entries := bt_put k (e\<lparr>te_deadline := None, te_trailing := False\<rparr>) (ti_entries s)\<rparr>)"
      unfolding del by simp
    with TimingHoldFor s len show ?thesis by (auto simp: timed_settle_def intro: op_ok_modify)
  next
    case (TimingDebounce quiet mw l tr r)
    have "timed_inv (s\<lparr>ti_timers := hm_del (t, k) (ti_timers s), ti_entries := hm_del k (ti_entries s)\<rparr>)"
      unfolding del by (rule timed_inv_del [OF s(1)])
    with s len have "op_ok (\<lambda>s'. s' = s) (ebind (emodify (\<lambda>s. s\<lparr>ti_timers := hm_del (t, k) (ti_timers s), ti_entries := hm_del k (ti_entries s)\<rparr>))
        (\<lambda>_. ebind (edrop (te_lease e)) (\<lambda>_. release_empty)))
        (\<lambda>r s'. at_time False now s' \<and> length (ti_timers s') < length (ti_timers s))"
      by (intro op_ok_bind [where R = "\<lambda>r s'. at_time False now s' \<and> length (ti_timers s') < length (ti_timers s)"]
          op_ok_modify op_ok_frame_bind op_ok_conj release_empty_ok release_empty_len) auto
    with TimingDebounce show ?thesis by (simp add: timed_settle_def)
  qed (use s(1) in \<open>auto simp: timed_inv_def timed_cfg_def\<close>)
qed

lemma timed_take_due_ok:
  "op_ok (\<lambda>s :: ('r, 'j) timed_iot. timed_inv s \<and> ti_now s \<le> now \<and> 0 \<le> now \<and> overdue (timed_next_deadline s) now \<and> length (ti_timers s) = n)
     (timed_take_due L rcap now)
     (\<lambda>r s. timed_inv s \<and> ti_now s = now \<and> (case r of Inl _ \<Rightarrow> True | Inr _ \<Rightarrow> length (ti_timers s) < n))"
  unfolding timed_take_due_def
proof (rule op_ok_bind [where R = "\<lambda>r s. r = Ok () \<and> at_time False now s \<and> overdue (timed_next_deadline s) now \<and> length (ti_timers s) = n"], goal_cases)
  case 1
  show ?case
    unfolding timed_set_time_def
    by (rule op_ok_get) (auto intro!: op_ok_modify timed_inv_later simp: timed_next_deadline_def)
next
  case (2 x)
  show ?case
  proof (rule op_ok_get, goal_cases)
    case (1 s)
    then have s: "timed_inv s" "ti_now s = now" and n: "length (ti_timers s) = n" and od: "overdue (timed_next_deadline s) now" by auto
    then obtain t k where f: "first_timer (ti_timers s) = Some (t, k)" "t \<le> now"
      by (auto simp: timed_next_deadline_def overdue_def split: option.splits)
    from s(1) have "mirrors te_deadline (ti_entries s) (ti_timers s)" by (simp add: timed_inv_def)
    from this f(1) obtain e where e: "map_of (ti_entries s) k = Some e" "te_deadline e = Some t" by (rule mirrors_first)
    let ?out = "if te_trailing e then
        escratch (sat_u64 (sat_u64 (row_resident_bytes L (rcap (te_row e)) (te_row e) * 2) + 128)) (ti_owner s)
          (ebind (elift (builder_new (ti_schema s) (ti_owner s) Reservation 1 (reservation_bytes (owner_budget (ti_owner s))))) (\<lambda>b0.
           ebind (ewith_builder b0 (epush (te_row e))) (\<lambda>b. ebind (efinish b) (\<lambda>out. eret (Some out)))))
      else eret None"
    have out: "frame ?out" by (auto intro!: frame_scratch frame_bind frame_built)
    let ?R = "\<lambda>r (s' :: ('r, 'j) timed_iot). at_time False now s' \<and> length (ti_timers s') < n"
    have tail: "op_ok (?R r) (ebind (if outp = None then eret ()
           else emodify (\<lambda>s. s\<lparr>ti_stats := (ti_stats s)\<lparr>st_emitted := sat_inc (st_emitted (ti_stats s))\<rparr>\<rparr>)) (\<lambda>_. eret outp)) ?R"
      for outp :: "row_batch option" and r :: "unit result"
      by (auto intro!: op_ok_bind [where R = ?R] op_ok_ret op_ok_modify)
    have "op_ok (\<lambda>s'. s' = s) (escratch (sat_u64 (sat_u64 (length k * 2) + 128)) (ti_owner s)
        (ebind ?out (\<lambda>outp. ebind (timed_settle t k e s) (\<lambda>_.
           ebind (if outp = None then eret ()
             else emodify (\<lambda>s. s\<lparr>ti_stats := (ti_stats s)\<lparr>st_emitted := sat_inc (st_emitted (ti_stats s))\<rparr>\<rparr>)) (\<lambda>_. eret outp)))))
        (\<lambda>r s. timed_inv s \<and> ti_now s = now \<and> (case r of Inl _ \<Rightarrow> True | Inr _ \<Rightarrow> length (ti_timers s) < n))"
    proof (rule op_ok_scratch, rule op_ok_frame_bind [OF out])
      fix outp :: "row_batch option"
      show "op_ok (\<lambda>s'. s' = s) (ebind (timed_settle t k e s) (\<lambda>_. ebind (if outp = None then eret ()
             else emodify (\<lambda>s. s\<lparr>ti_stats := (ti_stats s)\<lparr>st_emitted := sat_inc (st_emitted (ti_stats s))\<rparr>\<rparr>)) (\<lambda>_. eret outp)))
        (\<lambda>r s. timed_inv s \<and> ti_now s = now \<and> (case r of Inl _ \<Rightarrow> True | Inr _ \<Rightarrow> length (ti_timers s) < n))"
      proof (rule op_ok_bind)
        show "op_ok (\<lambda>s'. s' = s) (timed_settle t k e s) ?R" using timed_settle_ok [OF s f e] unfolding n .
        show "op_ok (?R (Ok x)) (ebind (if outp = None then eret ()
             else emodify (\<lambda>s. s\<lparr>ti_stats := (ti_stats s)\<lparr>st_emitted := sat_inc (st_emitted (ti_stats s))\<rparr>\<rparr>)) (\<lambda>_. eret outp))
          (\<lambda>r s. timed_inv s \<and> ti_now s = now \<and> (case r of Inl _ \<Rightarrow> True | Inr _ \<Rightarrow> length (ti_timers s) < n))" for x :: unit
          by (rule op_ok_weaken [OF tail]) (auto split: sum.splits)
      qed auto
    qed (use s in auto)
    with f e show ?case by simp
  qed
qed auto

interpretation timed_due: due_source "\<lambda>now s. timed_inv s \<and> ti_now s \<le> now \<and> 0 \<le> now" timed_next_deadline
  "timed_take_due L rcap" "\<lambda>now s. length (ti_timers s)" for L rcap
proof
  show "op_ok (\<lambda>s. (timed_inv s \<and> ti_now s \<le> now \<and> 0 \<le> now) \<and> overdue (timed_next_deadline s) now \<and> length (ti_timers s) = n)
      (timed_take_due L rcap now)
      (\<lambda>r s. (timed_inv s \<and> ti_now s \<le> now \<and> 0 \<le> now) \<and> (case r of Inl _ \<Rightarrow> True | Inr _ \<Rightarrow> length (ti_timers s) < n))" for now n
  proof (cases "0 \<le> now")
    case True
    show ?thesis by (rule op_ok_weaken [OF op_ok_pre [OF timed_take_due_ok [of now n L rcap]]]) (use True in \<open>auto split: sum.splits\<close>)
  qed (simp add: op_ok_def)
  show "timed_inv s \<and> ti_now s \<le> now \<and> 0 \<le> now \<Longrightarrow> overdue (timed_next_deadline s) now \<Longrightarrow> 0 < length (ti_timers s)"
    for now and s :: "('r, 'j) timed_iot"
    by (auto simp: timed_next_deadline_def first_timer_def)
qed

lemma map_result_unit: "(\<And>x. x \<in> set xs \<Longrightarrow> f x = Ok ()) \<Longrightarrow> map_result f xs = Ok (map (\<lambda>_. ()) xs)"
  by (induction xs) auto

lemma timed_cut_accepts:
  assumes inv: "timed_inv s" and now: "ti_now s \<le> now" "0 \<le> now" and clear: "timed_clear now s"
  shows "timed_validate_cut now (st, s) = Some ((st, s\<lparr>ti_now := now\<rparr>), Ok ())"
proof -
  have "timed_cut_entry (ti_timing s) now e = Ok ()" if "e \<in> set (map snd (ti_entries s))" for e
  proof -
    have bt: "bt_inv (ti_entries s)" using inv by (simp add: timed_inv_def mirrors_def)
    from that obtain k where "(k, e) \<in> set (ti_entries s)" by auto
    then have m: "map_of (ti_entries s) k = Some e" using bt_inv_hm_inv [OF bt] by (simp add: hm_inv_def)
    then have ok: "timed_entry_ok s k e" and nd: "\<not> overdue (te_deadline e) now"
      using inv clear by (auto simp: timed_inv_def timed_clear_def)
    then have "te_start e \<le> now" using now by (simp add: timed_entry_ok_def)
    with ok nd now show ?thesis
      by (auto simp: timed_cut_entry_def timed_entry_ok_def entry_timing_ok_def timed_add_def checked_i64_def
          split: iot_timing.splits option.splits)
  qed
  then have "map_result (timed_cut_entry (ti_timing s) now) (map snd (ti_entries s)) = Ok (map (\<lambda>_. ()) (map snd (ti_entries s)))"
    by (rule map_result_unit)
  with now show ?thesis
    by (simp add: timed_validate_cut_def timed_set_time_def ebind_def eget_def elift_def emodify_def)
qed

section \<open>Restoring what was frozen\<close>

definition strip :: "timed_entry \<Rightarrow> scalar list \<times> row \<times> int \<times> int option \<times> bool" where
  "strip e = (te_key e, te_row e, te_start e, te_deadline e, te_trailing e)"

definition timed_blank :: "memory_owner \<Rightarrow> ('r, 'j) timed_iot \<Rightarrow> ('r, 'j) timed_iot" where
  "timed_blank ow s = s\<lparr>ti_owner := ow, ti_now := 0, ti_timers := [], ti_entries := [], ti_table := None, ti_stats := iot_stats_default\<rparr>"

definition timed_freeze :: "('r \<Rightarrow> nat) \<Rightarrow> ('r, 'j) timed_iot \<Rightarrow> iot_freeze" where
  "timed_freeze resample_kind s = \<lparr>fz_operator = ti_operator s, fz_slot = iot_slot,
     fz_kind = timing_state_kind resample_kind (ti_timing s), fz_entries = timed_freeze_entries s\<rparr>"

lemma validate_row_blank [simp]: "timed_validate_row (timed_blank ow s) = timed_validate_row s"
  by (simp add: timed_blank_def fun_eq_iff timed_validate_row_def cong: timed_congs)

lemma cell_refl:
  assumes "is_null v \<or> matches_type v ty" "iot_value_type ty" "\<not> nonfinite v"
  shows "scalar_peq v v"
proof (cases v)
  case (SFloat64 x)
  with assms(3) show ?thesis by (simp add: nonfinite_def f_cmp_iff finite_not_nan)
next
  case (SDynamic d)
  with assms(1,2) have "d = DNull" by (cases ty) (auto simp: matches_type_def is_null_def is_nested_def)
  then show ?thesis using SDynamic by simp
qed simp_all

lemma key_cells_refl:
  assumes cfg: "timed_cfg s" and row: "timed_validate_row s row = Some (Ok True)" and i: "i \<in> set (ti_keys s)"
  shows "scalar_peq (row ! i) (row ! i)"
proof -
  have i': "i < length (schema_fields (ti_schema s))" "iot_value_type (field_type (schema_fields (ti_schema s) ! i))"
    using cfg i by (auto simp: timed_cfg_def list_all_iff)
  have len: "length row = length (schema_fields (ti_schema s))" and cells: "\<not> list_ex cell_mismatch (zip row (schema_fields (ti_schema s)))"
    using row by (auto simp: timed_validate_row_def split: if_splits)
  have fin: "\<not> list_ex nonfinite row"
    using row by (auto simp: timed_validate_row_def split: if_splits option.splits bool.splits invalid_value_policy.splits)
  have "row ! i \<in> set row" using i' len by simp
  with fin have nf: "\<not> nonfinite (row ! i)" by (auto simp: list_ex_iff)
  have "(row ! i, schema_fields (ti_schema s) ! i) \<in> set (zip row (schema_fields (ti_schema s)))" using i' len by (auto simp: set_zip)
  with cells have m: "is_null (row ! i) \<or> matches_type (row ! i) (field_type (schema_fields (ti_schema s) ! i))"
    by (auto simp: list_ex_iff cell_mismatch_def)
  from cell_refl [OF m i'(2) nf] show ?thesis .
qed

lemma restore_check_frozen:
  assumes inv: "timed_cfg s" and e: "timed_entry_ok s k e"
  shows "timed_restore_check (timed_blank ow s) \<lparr>ie_key = te_key e, ie_values = timed_values e\<rparr> =
    Some (Ok (te_start e, te_deadline e, te_trailing e, te_row e))"
proof -
  have later: "te_start e < t" if "te_deadline e = Some t" for t
    using e inv that by (auto simp: timed_entry_ok_def entry_timing_ok_def timed_cfg_def split: iot_timing.splits)
  have meta: "restore_meta (timed_values e) = Ok (te_start e, te_deadline e, te_trailing e)"
    using e later by (cases "te_deadline e") (force simp: restore_meta_def timed_values_def timed_entry_ok_def)+
  have keys: "length (te_key e) = length (ti_keys s)"
    "\<not> list_ex (\<lambda>(v, i). \<not> scalar_peq v (te_row e ! i)) (zip (te_key e) (ti_keys s))"
    using e key_cells_refl [OF inv, of "te_row e"]
    by (auto simp: timed_entry_ok_def list_ex_iff zip_map1 zip_same_conv_map)
  have timing: "restore_timing_ok (ti_timing s) (ti_fields s) (te_row e) (te_start e) (te_deadline e) (te_trailing e) = Some True"
  proof (cases "ti_timing s")
    case (TimingHoldFor d)
    from e have "timed_validate_row s (te_row e) = Some (Ok True)" by (simp add: timed_entry_ok_def)
    from validated_condition [OF inv TimingHoldFor this] obtain f b where f: "ti_fields s = [f]" by blast
    with e TimingHoldFor show ?thesis
      by (cases "te_deadline e") (auto simp: timed_entry_ok_def entry_timing_ok_def restore_timing_ok_def checked_i64_def)
  next
    case (TimingDebounce quiet mw l tr rs)
    with e obtain t where t: "te_deadline e = Some t" "te_start e + quiet \<le> t" "t \<le> te_start e + mw" "is_i64 (te_start e + mw)"
      "0 \<le> te_start e" "te_trailing e \<longrightarrow> tr" "l \<or> te_trailing e"
      by (auto simp: timed_entry_ok_def entry_timing_ok_def split: option.splits)
    moreover have "is_i64 (te_start e + quiet)"
      using t inv TimingDebounce by (auto simp: is_i64_def timed_cfg_def)
    ultimately show ?thesis using TimingDebounce by (simp add: restore_timing_ok_def checked_i64_def)
  qed (use inv in \<open>auto simp: timed_cfg_def\<close>)
  have row: "drop 3 (timed_values e) = te_row e" by (simp add: timed_values_def)
  have valid: "timed_validate_row s (te_row e) = Some (Ok True)" using e by (simp add: timed_entry_ok_def)
  have blank: "ti_keys (timed_blank ow s) = ti_keys s" "ti_fields (timed_blank ow s) = ti_fields s"
    "ti_timing (timed_blank ow s) = ti_timing s"
    by (simp_all add: timed_blank_def)
  show ?thesis
    using valid keys timing unfolding timed_restore_check_def iot_entry.simps row Let_def meta
    by (simp add: blank)
qed

lemma timed_entry_bytes_pos: "0 < timed_entry_bytes L rcap key row n"
  by (simp add: timed_entry_bytes_def sat_u64_def)

lemma restore_loop_ok:
  assumes cfg: "timed_cfg s" and "\<And>k e. (k, e) \<in> set rest \<Longrightarrow> timed_entry_ok s k e" "distinct (map fst rest)"
    "\<And>k. k \<in> fst ` set rest \<Longrightarrow> map_of es k = None" "mirrors te_deadline es ts"
  shows "op_ok (\<lambda>s'. s' = timed_blank ow s)
    (timed_restore_loop L rcap ecap (map (\<lambda>(k, e). \<lparr>ie_key = te_key e, ie_values = timed_values e\<rparr>) rest) es ts)
    (\<lambda>r s'. s' = timed_blank ow s \<and> (case r of
        Inl e \<Rightarrow> err_code e = ResourceExhausted
      | Inr (es', ts') \<Rightarrow> mirrors te_deadline es' ts' \<and> restored strip es rest es'))"
  using assms(2-)
proof (induction rest arbitrary: es ts)
  case Nil
  then show ?case by (auto intro!: op_ok_ret simp: restored_def)
next
  case (Cons ke rest)
  obtain k e where ke: "ke = (k, e)" by force
  let ?fe = "\<lparr>ie_key = te_key e, ie_values = timed_values e\<rparr>"
  have e: "timed_entry_ok s k e" using Cons.prems(1) ke by simp
  then have k: "k = key_encoding (te_key e)" by (simp add: timed_entry_ok_def)
  have fresh: "map_of es k = None" using Cons.prems(3) ke by simp
  note chk = restore_check_frozen [OF cfg e, of ow]
  let ?new = "\<lambda>lease. \<lparr>te_key = te_key e, te_row = te_row e, te_start = te_start e, te_deadline = te_deadline e,
    te_trailing = te_trailing e, te_lease = lease\<rparr>"
  let ?Q = "\<lambda>acc rest r s'. s' = timed_blank ow s \<and> (case r of Inl e \<Rightarrow> err_code e = ResourceExhausted
      | Inr (es', ts') \<Rightarrow> mirrors te_deadline es' ts' \<and> restored strip acc rest es')"
  have rec: "op_ok (\<lambda>s'. s' = timed_blank ow s) (timed_restore_loop L rcap ecap
      (map (\<lambda>(k, e). \<lparr>ie_key = te_key e, ie_values = timed_values e\<rparr>) rest) (bt_put k (?new lease) es) (retime k None (te_deadline e) ts))
      (?Q es (ke # rest))" for lease
  proof (rule op_ok_weaken [OF Cons.IH])
    have "mirrors te_deadline (bt_put k (?new lease) es) (retime k (Option.bind (map_of es k) te_deadline) (te_deadline (?new lease)) ts)"
      by (rule mirrors_put [OF Cons.prems(4)])
    then show "mirrors te_deadline (bt_put k (?new lease) es) (retime k None (te_deadline e) ts)" using fresh by simp
    show "timed_entry_ok s k' e'" if "(k', e') \<in> set rest" for k' e' using Cons.prems(1) that by simp
    show "distinct (map fst rest)" using Cons.prems(2) by simp
    show "map_of (bt_put k (?new lease) es) k' = None" if "k' \<in> fst ` set rest" for k'
      using Cons.prems(2,3) ke that by auto
    have nk: "map_of rest k = None" using Cons.prems(2) ke by (simp add: map_of_eq_None_iff)
    fix r s' assume "?Q (bt_put k (?new lease) es) rest r s'"
    moreover have "restored strip es (ke # rest) es'" if "restored strip (bt_put k (?new lease) es) rest es'" for es'
      unfolding ke by (rule restored_step [OF that nk]) (simp add: strip_def)
    ultimately show "?Q es (ke # rest) r s'" by (auto split: sum.splits)
  qed
  show ?case
    unfolding ke list.map prod.case timed_restore_loop.simps
  proof (rule op_ok_get, goal_cases)
    case (1 s')
    then have s': "s' = timed_blank ow s" by simp
    show ?case
      unfolding s' chk echeck_def option.case
      by (rule op_ok_lift_bind)
        (auto simp: Let_def k [symmetric] fresh timed_entry_bytes_pos intro!: op_ok_acquire_bind op_ok_guarded rec [unfolded ke])
  qed
qed


lemma stripped_freeze:
  fixes xs ys :: "(bytes, timed_entry) btmap"
  assumes "map (map_prod id strip) xs = map (map_prod id strip) ys"
  shows "map (\<lambda>(k, e). \<lparr>ie_key = te_key e, ie_values = timed_values e\<rparr>) xs = map (\<lambda>(k, e). \<lparr>ie_key = te_key e, ie_values = timed_values e\<rparr>) ys"
proof -
  define g where "g = (\<lambda>(k :: bytes, key, row, start, d, tr). \<lparr>ie_key = key,
    ie_values = [SInt64 start, SInt64 (case d of None \<Rightarrow> -1 | Some t \<Rightarrow> t), SBool tr] @ row\<rparr>)"
  have "map (\<lambda>(k, e). \<lparr>ie_key = te_key e, ie_values = timed_values e\<rparr>) zs = map g (map (map_prod id strip) zs)" for zs
    by (simp add: g_def strip_def timed_values_def split: prod.splits)
  from this [of xs] this [of ys] assms show ?thesis by (simp only:)
qed

lemma strip_deadline: "strip e = strip e' \<Longrightarrow> te_deadline e = te_deadline e'"
  by (simp add: strip_def)

lemma timed_restore_ok:
  assumes inv: "timed_inv s"
  shows "op_ok (\<lambda>s'. s' = timed_blank ow s) (timed_restore L rcap ecap rk resident (timed_freeze rk s))
    (\<lambda>r s'. case r of Inl e \<Rightarrow> s' = timed_blank ow s \<and> err_code e = ResourceExhausted
       | Inr _ \<Rightarrow> timed_freeze rk s' = timed_freeze rk s \<and> ti_timers s' = ti_timers s \<and> timed_inv (s'\<lparr>ti_now := ti_now s\<rparr>))"
    (is "op_ok _ _ ?Q")
proof -
  have m: "mirrors te_deadline (ti_entries s) (ti_timers s)" and cfg: "timed_cfg s" using inv by (simp_all add: timed_inv_def)
  then have bt: "bt_inv (ti_entries s)" by (simp add: mirrors_def)
  then have dist: "distinct (map fst (ti_entries s))" by (simp add: bt_inv_def strict_sorted_iff)
  have ok: "timed_entry_ok s k e" if "(k, e) \<in> set (ti_entries s)" for k e
    using inv that dist by (simp add: timed_inv_def)
  have fin: "?Q (Inr ()) (timed_blank ow s\<lparr>ti_timers := ts, ti_entries := es, ti_table := tb\<rparr>)"
    if es: "mirrors te_deadline es ts" "restored strip [] (ti_entries s) es" for es ts tb
  proof -
    have same: "map (map_prod id strip) es = map (map_prod id strip) (ti_entries s)"
      using restored_same [OF es(2) bt] es(1) by (simp add: mirrors_def)
    have entry: "timed_entry_ok s k e" if "map_of es k = Some e" for k e
    proof -
      have "map_option strip (map_of es k) = map_option strip (map_of (ti_entries s) k)" using same map_of_map_prod by metis
      with that obtain e' where "map_of (ti_entries s) k = Some e'" "strip e' = strip e"
        by (cases "map_of (ti_entries s) k") auto
      moreover then have "timed_entry_ok s k e'" using inv by (simp add: timed_inv_def)
      ultimately show ?thesis by (simp add: timed_entry_ok_def entry_timing_ok_def strip_def cong: timed_congs)
    qed
    have len: "length es = length (ti_entries s)" using same by (metis length_map)
    have at: "timed_blank ow s\<lparr>ti_now := ti_now s, ti_timers := ts, ti_entries := es, ti_table := tb\<rparr> =
        s\<lparr>ti_owner := ow, ti_timers := ts, ti_entries := es, ti_table := tb, ti_stats := iot_stats_default\<rparr>"
      by (simp add: timed_blank_def)
    show ?thesis
      using stripped_freeze [OF same] mirrors_same [OF es(1) m same strip_deadline] es(1) entry len inv
      by (simp add: timed_freeze_def timed_freeze_entries_def at timed_inv_def) (simp add: timed_blank_def)
  qed
  have loop: "op_ok (\<lambda>s'. s' = timed_blank ow s) (timed_restore_loop L rcap ecap (timed_freeze_entries s) [] [])
      (\<lambda>r s'. s' = timed_blank ow s \<and> (case r of Inl e \<Rightarrow> err_code e = ResourceExhausted
        | Inr (es', ts') \<Rightarrow> mirrors te_deadline es' ts' \<and> restored strip [] (ti_entries s) es'))"
    unfolding timed_freeze_entries_def by (rule restore_loop_ok) (use cfg ok dist in \<open>auto simp: mirrors_def\<close>)
  have body: "op_ok (\<lambda>s'. s' = timed_blank ow s) (ebind (timed_restore_loop L rcap ecap (timed_freeze_entries s) [] []) (\<lambda>(es, ts).
      ebind (emodify (\<lambda>s. s\<lparr>ti_timers := ts, ti_entries := es, ti_table := tb\<rparr>)) (\<lambda>_. ebind (efor (\<lambda>e. edrop (te_lease e)) []) (\<lambda>_. edrop_opt None)))) ?Q" for tb
  proof (rule op_ok_bind [OF loop], goal_cases)
    case (1 x)
    then show ?case
      by (cases x) (auto simp: op_ok_def ebind_def emodify_def eret_def edrop_opt_def dest!: fin [of _ _ tb])
  qed auto
  show ?thesis
    unfolding timed_restore_def
  proof (rule op_ok_get, goal_cases)
    case (1 s')
    then have s': "s' = timed_blank ow s" by simp
    have fits: "(fz_operator (timed_freeze rk s) \<noteq> ti_operator (timed_blank ow s) \<or>
        fz_kind (timed_freeze rk s) \<noteq> timing_state_kind rk (ti_timing (timed_blank ow s)) \<or>
        length (timed_freeze_entries s) > ti_max (timed_blank ow s)) = False"
      using inv by (simp add: timed_blank_def timed_freeze_def timed_freeze_entries_def timed_inv_def)
    have sel: "fz_entries (timed_freeze rk s) = timed_freeze_entries s" "map snd (ti_entries (timed_blank ow s)) = []"
      "ti_table (timed_blank ow s) = None"
      by (simp_all add: timed_freeze_def timed_blank_def)
    show ?case
      unfolding s' fits if_False escratch_def sel
      by (intro op_ok_acquire_bind op_ok_scoped op_ok_table op_ok_guarded body) (simp_all add: sat_u64_def)
  qed
qed

section \<open>The operator's promises\<close>

text \<open>C23: A hold-for or debounce operator in a valid state answers every batch, at every time and
  whatever memory is available: it never panics, the state stays valid even when the batch fails
  half way, and after a batch it accepts the checkpoint cut at that time unchanged.\<close>

theorem timed_safe:
  assumes "timed_inv s"
  shows "\<exists>st' s' r. timed_on_batch L rcap ecap batch now (st, s) = Some ((st', s'), r) \<and> timed_inv s' \<and>
    (\<forall>out'. r = Ok out' \<longrightarrow> timed_validate_cut now (st', s') = Some ((st', s'), Ok ()))"
proof -
  obtain st' s' r where run: "timed_on_batch L rcap ecap batch now (st, s) = Some ((st', s'), r)"
    and post: "timed_inv s'" "\<And>out'. r = Ok out' \<Longrightarrow> ti_now s' = now \<and> timed_clear now s'"
    using op_okE [OF timed_on_batch_ok assms] by metis
  have "timed_validate_cut now (st', s') = Some ((st', s'), Ok ())" if r: "r = Ok out'" for out'
  proof -
    have "0 \<le> now"
      using run r by (auto simp: timed_on_batch_def timed_set_time_def ebind_def eget_def elift_def split: if_splits)
    with post r timed_cut_accepts [of s' now st'] show ?thesis by simp
  qed
  with run post(1) show ?thesis by blast
qed

definition demo_row_layout :: row_layout where
  "demo_row_layout = \<lparr>size_of_scalar = 40, size_of_dynamic = 32, size_of_pair = 56, size_of_row = 24\<rparr>"

definition demo_timed :: "(unit, unit) timed_iot" where
  "demo_timed = \<lparr>ti_operator = 7, ti_timing = TimingHoldFor 10,
     ti_schema = \<lparr>schema_id = 1, schema_fields = [Field 1 ''hot'' TBool False, Field 2 ''id'' TInt64 False]\<rparr>,
     ti_owner = demo_owner, ti_keys = [1], ti_fields = [0], ti_invalid = PolicyError, ti_max = 4, ti_now = 5,
     ti_timers = [((15, key_encoding [SInt64 3]), ())],
     ti_entries = [(key_encoding [SInt64 3], \<lparr>te_key = [SInt64 3], te_row = [SBool True, SInt64 3], te_start = 5,
       te_deadline = Some 15, te_trailing = True, te_lease = MemoryLease demo_owner (AllocInner 1 600 Retention 1 None)\<rparr>)],
     ti_table = None, ti_stats = iot_stats_default, ti_metadata = MemoryLease demo_owner (AllocInner 0 2080 Reservation 1 None)\<rparr>"

lemma demo_timed_inv: "timed_inv demo_timed"
  by (simp add: demo_timed_def timed_inv_def timed_cfg_def mirrors_def bt_inv_def timed_entry_ok_def entry_timing_ok_def
      timed_validate_row_def cell_mismatch_def is_null_def matches_type_def nonfinite_def is_i64_def)

theorem timed_safe_witness:
  "\<exists>st' s' r. timed_on_batch demo_row_layout length length
      \<lparr>rb_schema = ti_schema demo_timed, rb_rows = [[SBool True, SInt64 4]], rb_lease = te_lease (snd (hd (ti_entries demo_timed))), rb_origin = origin_missing,
       rb_output = None, rb_source = None\<rparr>
      12 (\<lambda>_. counters_new, demo_timed) = Some ((st', s'), r) \<and> timed_inv s'"
  using timed_safe [OF demo_timed_inv] by blast

text \<open>C27: A tick drains: taking one due timer at a time, the operator runs out of due timers after at
  most as many steps as it has timers, without a panic, and then accepts the cut at that time.\<close>

theorem timed_drain:
  assumes "timed_inv s" "ti_now s \<le> now" "0 \<le> now"
  shows "\<exists>st' s' r. edrain (length (ti_timers s)) timed_next_deadline (timed_take_due L rcap) now (st, s) = Some ((st', s'), r) \<and>
    timed_inv s' \<and> (\<forall>outs. r = Ok outs \<longrightarrow> timed_validate_cut now (st', s') = Some ((st', s'\<lparr>ti_now := now\<rparr>), Ok ()))"
proof -
  have "timed_inv s \<and> ti_now s \<le> now \<and> 0 \<le> now" using assms by simp
  then obtain st' s' r where run: "edrain (length (ti_timers s)) timed_next_deadline (timed_take_due L rcap) now (st, s) = Some ((st', s'), r)"
    and post: "timed_inv s' \<and> ti_now s' \<le> now \<and> 0 \<le> now" "\<And>outs. r = Ok outs \<Longrightarrow> \<not> overdue (timed_next_deadline s') now"
    by (rule timed_due.drains [OF _ order_refl]) blast
  have "timed_validate_cut now (st', s') = Some ((st', s'\<lparr>ti_now := now\<rparr>), Ok ())" if "r = Ok outs" for outs
    using post that clear_iff_next [of s' now] timed_cut_accepts [of s' now st'] by simp
  with run post(1) show ?thesis by blast
qed

theorem timed_drain_witness:
  "\<exists>st' s' r. edrain 1 timed_next_deadline (timed_take_due demo_row_layout length) 20
      (\<lambda>_. counters_new, demo_timed) = Some ((st', s'), r) \<and> timed_inv s'"
proof -
  have "length (ti_timers demo_timed) = 1" "ti_now demo_timed \<le> 20" by (simp_all add: demo_timed_def)
  then show ?thesis using timed_drain [OF demo_timed_inv, of 20] by fastforce
qed

text \<open>C26: Restoring into a fresh operator what a valid one froze gives back an operator that is valid at
  the frozen time, has the same timers and freezes to the same frame; the restore can only fail for
  want of memory, and then leaves the fresh operator untouched.\<close>

theorem timed_restore_roundtrip:
  assumes "timed_inv s"
  shows "\<exists>st' s' r. timed_restore L rcap ecap rk resident (timed_freeze rk s) (st, timed_blank ow s) = Some ((st', s'), r) \<and>
    (case r of Inl e \<Rightarrow> s' = timed_blank ow s \<and> err_code e = ResourceExhausted
     | Inr _ \<Rightarrow> timed_freeze rk s' = timed_freeze rk s \<and> ti_timers s' = ti_timers s \<and> timed_inv (s'\<lparr>ti_now := ti_now s\<rparr>))"
  using op_okE [OF timed_restore_ok [OF assms] refl] by metis

theorem timed_restore_roundtrip_witness:
  "\<exists>st' s' r. timed_restore demo_row_layout length length (\<lambda>_. 0) 100
      (timed_freeze (\<lambda>_. 0) demo_timed) (\<lambda>_. counters_new, timed_blank demo_owner demo_timed) = Some ((st', s'), r)"
  using timed_restore_roundtrip [OF demo_timed_inv] by blast

end
