(* ===== verification/Iot_Spec.thy ===== *)
theory Iot_Spec
  imports Iot_Filter Scalar_Codec
begin

text \<open>
  The specification of the IoT operators and its validation against a schema:
  \<^verbatim>\<open>sparrow-plan/src/resample.rs\<close> and the \<open>IotTimingSpec\<close> and \<open>IotSpec\<close> of
  \<^verbatim>\<open>sparrow-plan/src/stateful.rs\<close>, with the output schemas of the alarm, silence and
  resampling operators and the registered keys of a silence operator. A value of the registry is
  a parsed JSON value; its numbers are integers (of 64 bits, signed or unsigned) or floats.
\<close>

section \<open>Resampling\<close>

datatype resample_mode = ResampleLast | ResampleMean | ResampleInterpolate

fun resample_kind :: "resample_mode \<Rightarrow> nat" where
  "resample_kind ResampleLast = 13"
| "resample_kind ResampleMean = 14"
| "resample_kind ResampleInterpolate = 15"

record resample_spec =
  rs_mode :: resample_mode
  rs_period :: int
  rs_max_wait :: int
  rs_max_gap :: int
  rs_max_emissions :: nat

definition resample_validate :: "resample_spec \<Rightarrow> unit result" where
  "resample_validate r =
     (if rs_period r \<le> 0 \<or> \<not> (1 \<le> rs_max_emissions r \<and> rs_max_emissions r \<le> 4096) then Err InvalidArgument
      else case rs_mode r of
          ResampleInterpolate \<Rightarrow>
            if rs_max_wait r \<le> 0 \<or> rs_max_wait r > rs_period r \<or> rs_max_gap r \<le> 0 then Err InvalidArgument else Ok ()
        | _ \<Rightarrow> if rs_max_wait r \<noteq> 0 \<or> rs_max_gap r \<noteq> 0 then Err InvalidArgument else Ok ())"

text \<open>
  The columns an operator adds: fresh names, fresh ids above the greatest id of the input.
  \<open>code\<close> is the error of the operator; field ids are 16 bits wide, schema ids 32.
\<close>

fun extend_fields :: "error_code \<Rightarrow> schema \<Rightarrow> nat \<Rightarrow> (string \<times> data_type \<times> bool) list \<Rightarrow> field list \<Rightarrow> field list result" where
  "extend_fields code input i [] fs = Ok fs"
| "extend_fields code input i ((name, ty, nullable) # extra) fs =
     (if field_by_name input name \<noteq> None then Err code
      else if i + 1 > 65535 then Err code
      else extend_fields code input (i + 1) extra (fs @ [Field (i + 1) name ty nullable]))"

definition max_field_id :: "schema \<Rightarrow> nat" where
  "max_field_id s = foldr max (map field_id (schema_fields s)) 0"

definition derived_schema :: "error_code \<Rightarrow> schema \<Rightarrow> nat \<Rightarrow> (string \<times> data_type \<times> bool) list \<Rightarrow> field list \<Rightarrow> schema result" where
  "derived_schema code input offset extra fs =
     rbind (extend_fields code input (max_field_id input) extra fs) (\<lambda>all.
       if schema_id input + offset > u32_max then Err code else schema_new (schema_id input + offset) all)"

definition resample_columns :: "(string \<times> data_type \<times> bool) list" where
  "resample_columns =
     [(''sparrow_resample_mode'', TUtf8, False), (''sparrow_resample_time'', TInt64, False),
      (''sparrow_resample_emitted_at'', TInt64, False), (''sparrow_resample_missing'', TBool, False),
      (''sparrow_resample_samples'', TUInt64, False), (''sparrow_resample_generation'', TUtf8, False),
      (''sparrow_resample_operator'', TUInt64, False)]"

definition resample_key_field :: "schema \<Rightarrow> string \<Rightarrow> field result" where
  "resample_key_field input name =
     rbind (ok_or InvalidArgument (field_by_name input name)) (\<lambda>f. if field_nullable f then Err InvalidArgument else Ok f)"

definition resample_value_field :: "resample_spec \<Rightarrow> schema \<Rightarrow> string \<Rightarrow> field result" where
  "resample_value_field r input name =
     rbind (ok_or InvalidArgument (field_by_name input name)) (\<lambda>f.
       Ok (Field (field_id f) (field_name f) (if rs_mode r \<noteq> ResampleLast then TFloat64 else field_type f) True))"

definition resample_output_schema :: "resample_spec \<Rightarrow> string list \<Rightarrow> string list \<Rightarrow> schema \<Rightarrow> schema result" where
  "resample_output_schema r keys vals input =
     (if keys = [] \<or> length keys > 16 \<or> vals = [] \<or> length vals > 16 then Err InvalidArgument
      else rbind (map_result (resample_key_field input) keys) (\<lambda>kf.
           rbind (map_result (resample_value_field r input) vals) (\<lambda>vf.
             derived_schema InvalidArgument input 92 resample_columns (kf @ vf))))"

definition numeric_field :: "field \<Rightarrow> bool" where
  "numeric_field f \<longleftrightarrow> field_type f \<in> {TInt64, TUInt64, TFloat64}"

definition resample_check_value :: "string list \<Rightarrow> schema \<Rightarrow> string \<Rightarrow> unit result" where
  "resample_check_value keys input name =
     rbind (ok_or InvalidArgument (field_by_name input name)) (\<lambda>f.
       if name \<in> set keys then Err InvalidArgument
       else if \<not> numeric_field f then Err InvalidArgument else Ok ())"

definition resample_validate_schema :: "resample_spec \<Rightarrow> string list \<Rightarrow> string list \<Rightarrow> nat \<Rightarrow> schema \<Rightarrow> unit result" where
  "resample_validate_schema r keys vals max_keys input =
     rbind (resample_validate r) (\<lambda>_.
       let reserve = (if rs_mode r = ResampleInterpolate then 1 else 0) in
       if max_keys = 0 \<or> max_keys + reserve > u64_max \<or> max_keys + reserve > rs_max_emissions r then Err InvalidArgument
       else if keys = [] \<or> length keys > 16 \<or> vals = [] \<or> length vals > 16 \<or> length (schema_fields input) > 48 \<or>
          list_ex (\<lambda>f. is_nested (field_type f) \<or> field_type f = TDynamic) (schema_fields input)
       then Err InvalidArgument
       else rbind (map_result (resample_check_value keys input) vals) (\<lambda>_.
            rbind (resample_output_schema r keys vals input) (\<lambda>_. Ok ())))"

section \<open>Timing\<close>

datatype json = JNull | JBool bool | JInt int | JFloat f64 | JString string | JArray "json list" | JObject "(string \<times> json) list"

type_synonym timing_spec = "(resample_spec, json) iot_timing"
type_synonym full_spec = "(resample_spec, json) iot_spec"

definition timing_validate :: "timing_spec \<Rightarrow> unit result" where
  "timing_validate t =
     (case t of
        TimingResample r \<Rightarrow> resample_validate r
      | TimingAlarm act res cool age \<Rightarrow> if 0 \<le> act \<and> 0 \<le> res \<and> 0 \<le> cool \<and> 0 < age then Ok () else Err InvalidArgument
      | TimingHoldFor d \<Rightarrow> if 0 < d then Ok () else Err InvalidArgument
      | TimingDebounce quiet mw leading trailing _ \<Rightarrow>
          if 0 < quiet \<and> quiet \<le> mw \<and> (leading \<or> trailing) then Ok () else Err InvalidArgument
      | TimingSilence d gap _ _ \<Rightarrow>
          if 0 < d \<and> 0 < gap \<and> (case checked_i64 (gap * 2) of None \<Rightarrow> False | Some g \<Rightarrow> g \<le> d) then Ok () else Err InvalidArgument)"

definition is_alarm :: "full_spec \<Rightarrow> bool" where
  "is_alarm sp = (case io_timing sp of Some (TimingAlarm _ _ _ _) \<Rightarrow> True | _ \<Rightarrow> False)"

definition is_silence :: "full_spec \<Rightarrow> bool" where
  "is_silence sp = (case io_timing sp of Some (TimingSilence _ _ _ _) \<Rightarrow> True | _ \<Rightarrow> False)"

section \<open>Output schemas\<close>

definition alarm_columns :: "(string \<times> data_type \<times> bool) list" where
  "alarm_columns =
     [(''sparrow_alarm_event'', TUtf8, False), (''sparrow_alarm_phase'', TUtf8, False),
      (''sparrow_alarm_generation'', TUtf8, False), (''sparrow_alarm_operator'', TUInt64, False),
      (''sparrow_alarm_episode'', TUInt64, False), (''sparrow_alarm_time'', TInt64, False),
      (''sparrow_alarm_notify'', TBool, False)]"

definition silence_event_fields :: "(string \<times> data_type \<times> bool) list" where
  "silence_event_fields =
     [(''sparrow_silence_event'', TUtf8, False), (''sparrow_silence_generation'', TUtf8, False),
      (''sparrow_silence_operator'', TUInt64, False), (''sparrow_silence_episode'', TUInt64, False),
      (''sparrow_silence_time'', TInt64, False), (''sparrow_silence_last_seen'', TInt64, True),
      (''sparrow_silence_never_seen'', TBool, False)]"

definition silence_key_field :: "schema \<Rightarrow> string \<Rightarrow> field result" where
  "silence_key_field input name =
     rbind (ok_or InvalidArgument (field_by_name input name)) (\<lambda>f. if field_nullable f then Err InvalidSchema else Ok f)"

definition silence_output_schema :: "full_spec \<Rightarrow> schema \<Rightarrow> schema result" where
  "silence_output_schema sp input =
     rbind (map_result (silence_key_field input) (io_keys sp)) (\<lambda>kf.
       derived_schema InvalidSchema input 91 silence_event_fields kf)"

definition iot_output_schema :: "full_spec \<Rightarrow> schema \<Rightarrow> schema result" where
  "iot_output_schema sp input =
     (case io_timing sp of
        Some (TimingResample r) \<Rightarrow> resample_output_schema r (io_keys sp) (io_fields sp) input
      | Some (TimingSilence _ _ _ _) \<Rightarrow> silence_output_schema sp input
      | Some (TimingAlarm _ _ _ _) \<Rightarrow> derived_schema InvalidSchema input 90 alarm_columns (schema_fields input)
      | _ \<Rightarrow> Ok input)"

section \<open>Registered silence keys\<close>

fun iot_key_type :: "data_type \<Rightarrow> bool" where
  "iot_key_type TFloat64 = False"
| "iot_key_type ty = iot_value_type ty"

definition json_u8 :: "json \<Rightarrow> nat option" where
  "json_u8 v = (case v of JInt n \<Rightarrow> if 0 \<le> n \<and> n \<le> 255 then Some (nat n) else None | _ \<Rightarrow> None)"

definition silence_key_wire_len :: "json \<Rightarrow> data_type \<Rightarrow> nat result" where
  "silence_key_wire_len v ty =
     (case (ty, v) of
        (TBool, JBool _) \<Rightarrow> Ok 2
      | (TInt64, JInt n) \<Rightarrow> if is_i64 n then Ok 9 else Err TypeMismatch
      | (TTimestampMicrosUTC, JInt n) \<Rightarrow> if is_i64 n then Ok 9 else Err TypeMismatch
      | (TUInt64, JInt n) \<Rightarrow> if 0 \<le> n then Ok 9 else Err TypeMismatch
      | (TUtf8, JString s) \<Rightarrow> Ok (sat_u64 (length s + 5))
      | (TBytes, JArray bs) \<Rightarrow>
          if length bs > 65536 then Err BoundExceeded
          else if list_ex (\<lambda>b. json_u8 b = None) bs then Err TypeMismatch
          else Ok (sat_u64 (length bs + 5))
      | _ \<Rightarrow> Err TypeMismatch)"

definition silence_key_scalar :: "json \<Rightarrow> data_type \<Rightarrow> scalar result" where
  "silence_key_scalar v ty =
     (case (ty, v) of
        (TBool, JBool b) \<Rightarrow> Ok (SBool b)
      | (TInt64, JInt n) \<Rightarrow> if is_i64 n then Ok (SInt64 n) else Err TypeMismatch
      | (TUInt64, JInt n) \<Rightarrow> if 0 \<le> n then Ok (SUInt64 (nat n)) else Err TypeMismatch
      | (TTimestampMicrosUTC, JInt n) \<Rightarrow> if is_i64 n then Ok (STimestampMicrosUTC n) else Err TypeMismatch
      | (TUtf8, JString s) \<Rightarrow> Ok (SUtf8 s)
      | (TBytes, JArray bs) \<Rightarrow>
          rbind (map_result (\<lambda>b. ok_or TypeMismatch (json_u8 b)) bs) (\<lambda>ns. Ok (SBytes (map of_nat ns)))
      | _ \<Rightarrow> Err TypeMismatch)"

text \<open>The projected size of a row is bounded before any of it is copied.\<close>

fun project_row :: "nat \<Rightarrow> (json \<times> data_type) list \<Rightarrow> nat result" where
  "project_row n [] = Ok n"
| "project_row n ((v, ty) # vs) =
     rbind (silence_key_wire_len v ty) (\<lambda>k.
       if n + k > u64_max then Err BoundExceeded
       else if n + k > 65536 then Err BoundExceeded
       else project_row (n + k) vs)"

fun registry_rows :: "data_type list \<Rightarrow> nat \<Rightarrow> bytes set \<Rightarrow> nat \<Rightarrow> json list list \<Rightarrow> scalar list list result" where
  "registry_rows tys arity seen n [] = Ok []"
| "registry_rows tys arity seen n (row # rows) =
     (if length row \<noteq> arity then Err InvalidArgument
      else rbind (project_row n (zip row tys)) (\<lambda>_.
           rbind (map_result (\<lambda>(v, ty). silence_key_scalar v ty) (zip row tys)) (\<lambda>vals.
             let enc = concat (map encode_key vals); n' = n + length enc in
             if n' > u64_max then Err BoundExceeded
             else if n' > 65536 then Err BoundExceeded
             else if enc \<in> seen then Err InvalidArgument
             else rbind (registry_rows tys arity (insert enc seen) n' rows) (\<lambda>rest. Ok (vals # rest)))))"

definition silence_key_type :: "schema \<Rightarrow> string \<Rightarrow> data_type result" where
  "silence_key_type input name =
     rbind (ok_or InvalidArgument (field_by_name input name)) (\<lambda>f.
       if field_nullable f \<or> \<not> iot_key_type (field_type f) then Err InvalidSchema else Ok (field_type f))"

definition silence_registered_keys :: "full_spec \<Rightarrow> schema \<Rightarrow> scalar list list result" where
  "silence_registered_keys sp input =
     (case io_timing sp of
        Some (TimingSilence _ _ registered _) \<Rightarrow>
          if length registered > min (io_max_keys sp) 1024 then Err BoundExceeded
          else rbind (map_result (silence_key_type input) (io_keys sp)) (\<lambda>tys.
               registry_rows tys (length (io_keys sp)) {} 0 registered)
      | _ \<Rightarrow> Err InvalidArgument)"

section \<open>Validation\<close>

definition validate_names :: "string list \<Rightarrow> nat \<Rightarrow> unit result" where
  "validate_names names mx =
     (if names = [] \<or> length names > mx then Err InvalidArgument
      else if list_ex (\<lambda>n. n = []) names \<or> \<not> distinct names then Err InvalidArgument else Ok ())"

definition validate_params :: "full_spec \<Rightarrow> unit result" where
  "validate_params sp =
     rbind (validate_names (io_keys sp) 16) (\<lambda>_.
     rbind (if is_silence sp
            then (if io_fields sp \<noteq> [] then Err InvalidArgument
                  else if io_invalid sp \<noteq> PolicyError then Err InvalidArgument else Ok ())
            else validate_names (io_fields sp) 16) (\<lambda>_.
       if io_ttl sp < 0 then Err InvalidArgument
       else if io_max_keys sp = 0 then Err BoundExceeded
       else rbind (case io_timing sp of
           None \<Rightarrow> Ok ()
         | Some t \<Rightarrow> rbind (timing_validate t) (\<lambda>_.
             if io_ttl sp \<noteq> 0 \<or> io_emit_first sp \<or> io_deadband sp \<noteq> None \<or> io_hysteresis sp \<noteq> None
             then Err InvalidArgument else Ok ())) (\<lambda>_.
       rbind (case io_deadband sp of None \<Rightarrow> Ok () | Some d \<Rightarrow> deadband_validate d) (\<lambda>_.
         case io_hysteresis sp of
           None \<Rightarrow> Ok ()
         | Some h \<Rightarrow> rbind (hysteresis_validate h) (\<lambda>_.
             if io_deadband sp \<noteq> None \<or> io_ttl sp \<noteq> 0 then Err InvalidArgument else Ok ())))))"

definition bool_field :: "schema \<Rightarrow> string \<Rightarrow> bool" where
  "bool_field input name = (case field_by_name input name of None \<Rightarrow> False | Some f \<Rightarrow> field_type f = TBool)"

definition validate_alarm :: "full_spec \<Rightarrow> schema \<Rightarrow> unit result" where
  "validate_alarm sp input =
     (if \<not> is_alarm sp then Ok ()
      else if length (schema_fields input) > 48 \<or> length (io_fields sp) \<noteq> 2 \<or>
         list_ex (\<lambda>n. \<not> bool_field input n) (io_fields sp)
      then Err TypeMismatch
      else rbind (iot_output_schema sp input) (\<lambda>_. Ok ()))"

definition flat_schema :: "nat \<Rightarrow> schema \<Rightarrow> bool" where
  "flat_schema mx input \<longleftrightarrow> length (schema_fields input) \<le> mx \<and> list_all (\<lambda>f. iot_value_type (field_type f)) (schema_fields input)"

definition validate_silence :: "full_spec \<Rightarrow> schema \<Rightarrow> unit result" where
  "validate_silence sp input =
     (if \<not> is_silence sp then Ok ()
      else if \<not> flat_schema 48 input then Err FeatureUnavailable
      else rbind (silence_registered_keys sp input) (\<lambda>_. rbind (iot_output_schema sp input) (\<lambda>_. Ok ())))"

text \<open>\<open>fields[0]\<close> behind the length test does not panic.\<close>

definition validate_timing :: "full_spec \<Rightarrow> schema \<Rightarrow> unit result" where
  "validate_timing sp input =
     (case io_timing sp of
        None \<Rightarrow> Ok ()
      | Some t \<Rightarrow>
          if \<not> flat_schema 60 input then Err FeatureUnavailable
          else case t of
              TimingHoldFor _ \<Rightarrow>
                (case io_fields sp of
                   [name] \<Rightarrow> if bool_field input name then Ok () else Err TypeMismatch
                 | _ \<Rightarrow> Err TypeMismatch)
            | _ \<Rightarrow> Ok ())"

definition validate_key :: "schema \<Rightarrow> string \<Rightarrow> unit result" where
  "validate_key input name =
     rbind (ok_or InvalidArgument (field_by_name input name)) (\<lambda>f.
       if field_nullable f then Err InvalidSchema
       else if \<not> iot_key_type (field_type f) then Err TypeMismatch else Ok ())"

definition validate_value :: "schema \<Rightarrow> string \<Rightarrow> unit result" where
  "validate_value input name =
     rbind (ok_or InvalidArgument (field_by_name input name)) (\<lambda>f.
       if \<not> iot_value_type (field_type f) then Err TypeMismatch else Ok ())"

text \<open>\<open>None\<close> is the panic of an \<open>expect\<close> on a field that is not in the schema.\<close>

definition validate_deadband :: "full_spec \<Rightarrow> schema \<Rightarrow> unit result option" where
  "validate_deadband sp input =
     (case io_deadband sp of
        None \<Rightarrow> Some (Ok ())
      | Some d \<Rightarrow>
          (case io_fields sp of
             [name] \<Rightarrow>
               (case field_by_name input name of
                  None \<Rightarrow> None
                | Some f \<Rightarrow> Some (if \<not> numeric_field f then Err TypeMismatch else deadband_validate d))
           | _ \<Rightarrow> Some (Err InvalidArgument)))"

definition validate_hysteresis :: "full_spec \<Rightarrow> schema \<Rightarrow> unit result option" where
  "validate_hysteresis sp input =
     (case io_hysteresis sp of
        None \<Rightarrow> Some (Ok ())
      | Some _ \<Rightarrow>
          (case io_fields sp of
             [name] \<Rightarrow>
               (case field_by_name input name of
                  None \<Rightarrow> None
                | Some f \<Rightarrow> Some (if \<not> numeric_field f then Err TypeMismatch else Ok ()))
           | _ \<Rightarrow> Some (Err TypeMismatch)))"

definition obind_result :: "'a result option \<Rightarrow> ('a \<Rightarrow> 'b result option) \<Rightarrow> 'b result option" where
  "obind_result r f = (case r of None \<Rightarrow> None | Some (Inl e) \<Rightarrow> Some (Inl e) | Some (Inr x) \<Rightarrow> f x)"

definition iot_validate :: "full_spec \<Rightarrow> schema \<Rightarrow> unit result option" where
  "iot_validate sp input =
     obind_result (Some (validate_params sp)) (\<lambda>_.
     obind_result (Some (case io_timing sp of
         Some (TimingResample r) \<Rightarrow> resample_validate_schema r (io_keys sp) (io_fields sp) (io_max_keys sp) input
       | _ \<Rightarrow> Ok ())) (\<lambda>_.
     obind_result (Some (validate_alarm sp input)) (\<lambda>_.
     obind_result (Some (validate_silence sp input)) (\<lambda>_.
     obind_result (Some (validate_timing sp input)) (\<lambda>_.
     obind_result (Some (map_result (validate_key input) (io_keys sp))) (\<lambda>_.
     obind_result (Some (map_result (validate_value input) (io_fields sp))) (\<lambda>_.
     obind_result (validate_deadband sp input) (\<lambda>_. validate_hysteresis sp input))))))))"

section \<open>Resolving names\<close>

text \<open>\<open>resolve_names\<close> and \<open>validate_iot_types\<close> of \<^verbatim>\<open>iot.rs\<close>.\<close>

fun resolve_names_from :: "schema \<Rightarrow> nat set \<Rightarrow> string list \<Rightarrow> nat list result" where
  "resolve_names_from sc seen [] = Ok []"
| "resolve_names_from sc seen (n # ns) =
     rbind (ok_or InvalidArgument (index_of_name sc n)) (\<lambda>i.
       if i \<in> seen then Err InvalidArgument
       else rbind (resolve_names_from sc (insert i seen) ns) (\<lambda>is. Ok (i # is)))"

definition resolve_names :: "schema \<Rightarrow> string list \<Rightarrow> nat list result" where
  "resolve_names sc names = resolve_names_from sc {} names"

definition check_type :: "error_code \<Rightarrow> (data_type \<Rightarrow> bool) \<Rightarrow> field option \<Rightarrow> unit result" where
  "check_type code p f = rbind (ok_or InvalidArgument f) (\<lambda>f. if p (field_type f) then Ok () else Err code)"

text \<open>\<open>None\<close>: an index beyond the schema.\<close>

definition validate_iot_types :: "full_spec \<Rightarrow> schema \<Rightarrow> nat list \<Rightarrow> unit result option" where
  "validate_iot_types sp input idx =
     obind_result (Some (map_result (\<lambda>n. check_type FeatureUnavailable iot_key_type (field_by_name input n)) (io_keys sp))) (\<lambda>_.
       if list_ex (\<lambda>i. i \<ge> length (schema_fields input)) idx then None
       else obind_result (Some (map_result (\<lambda>i. check_type FeatureUnavailable iot_value_type (Some (schema_fields input ! i))) idx)) (\<lambda>_.
         Some (if io_deadband sp \<noteq> None \<or> io_hysteresis sp \<noteq> None
               then (case idx of
                  [i] \<Rightarrow> if numeric_field (schema_fields input ! i) then Ok () else Err TypeMismatch
                | _ \<Rightarrow> Err InvalidArgument)
               else Ok ())))"

section \<open>What validation gives\<close>

lemma obind_result_simps [simp]:
  "obind_result None f = None" "obind_result (Some (Inl e)) f = Some (Inl e)" "obind_result (Some (Inr x)) f = f x"
  by (simp_all add: obind_result_def)

lemma obind_result_Ok: "obind_result r f = Some (Inr y) \<longleftrightarrow> (\<exists>x. r = Some (Inr x) \<and> f x = Some (Inr y))"
  by (auto simp: obind_result_def split: option.splits sum.splits)

lemma obind_result_total:
  "r \<noteq> None \<Longrightarrow> (\<And>x. r = Some (Inr x) \<Longrightarrow> f x \<noteq> None) \<Longrightarrow> obind_result r f \<noteq> None"
  by (auto simp: obind_result_def split: option.splits sum.splits)

lemma map_result_unit_iff: "map_result f xs = Inr us \<Longrightarrow> x \<in> set xs \<Longrightarrow> \<exists>u. f x = Inr u"
  by (induction xs arbitrary: us) (auto simp: rbind_Inr_iff)

lemma validate_key_Ok: "validate_key sc n = Inr u \<longleftrightarrow>
    (\<exists>f. field_by_name sc n = Some f \<and> \<not> field_nullable f \<and> iot_key_type (field_type f))"
  by (auto simp: validate_key_def rbind_Inr_iff)

lemma validate_value_Ok: "validate_value sc n = Inr u \<longleftrightarrow> (\<exists>f. field_by_name sc n = Some f \<and> iot_value_type (field_type f))"
  by (auto simp: validate_value_def rbind_Inr_iff)

lemma validate_names_Ok: "validate_names ns mx = Inr u \<longleftrightarrow> ns \<noteq> [] \<and> length ns \<le> mx \<and> [] \<notin> set ns \<and> distinct ns"
  by (auto simp: validate_names_def list_ex_iff)

lemma iot_validate_total: "iot_validate sp sc \<noteq> None"
proof -
  have "validate_deadband sp sc \<noteq> None" "validate_hysteresis sp sc \<noteq> None"
    if "map_result (validate_value sc) (io_fields sp) = Inr us" for us
    using map_result_unit_iff [OF that]
    by (auto simp: validate_deadband_def validate_hysteresis_def validate_value_Ok split: option.splits list.splits)
  then show ?thesis
    unfolding iot_validate_def by (intro obind_result_total) auto
qed

lemma validated:
  assumes "iot_validate sp sc = Some (Inr u)"
  shows "\<And>n. n \<in> set (io_keys sp) \<Longrightarrow> \<exists>f. field_by_name sc n = Some f \<and> \<not> field_nullable f \<and> iot_key_type (field_type f)"
    and "\<And>n. n \<in> set (io_fields sp) \<Longrightarrow> \<exists>f. field_by_name sc n = Some f \<and> iot_value_type (field_type f)"
    and "distinct (io_keys sp)" "io_keys sp \<noteq> []" "0 < io_max_keys sp" "0 \<le> io_ttl sp"
    and "validate_params sp = Inr ()" "validate_timing sp sc = Inr ()" "validate_alarm sp sc = Inr ()" "validate_silence sp sc = Inr ()"
  using assms
  by (auto simp: iot_validate_def obind_result_Ok validate_params_def rbind_Inr_iff validate_key_Ok validate_value_Ok validate_names_Ok
      split: if_splits dest!: map_result_unit_iff)

lemma validated_timing:
  assumes "iot_validate sp sc = Some (Inr u)" "io_timing sp = Some t"
  shows "timing_validate t = Inr ()" "flat_schema 60 sc" "io_ttl sp = 0" "io_deadband sp = None" "io_hysteresis sp = None"
  using validated(7,8) [OF assms(1)] assms(2)
  by (auto simp: validate_params_def validate_timing_def rbind_Inr_iff split: if_splits)

lemma field_by_name_index:
  assumes "field_by_name sc n = Some f"
  shows "\<exists>i. index_of_name sc n = Some i \<and> i < length (schema_fields sc) \<and> schema_fields sc ! i = f \<and> field_name f = n"
proof -
  have *: "List.find p xs = Some f \<Longrightarrow> \<exists>i. position p xs = Some i \<and> i < length xs \<and> xs ! i = f \<and> p f" for p xs
    by (induction xs) (auto split: if_splits)
  from * [OF assms [unfolded field_by_name_def]] show ?thesis by (auto simp: index_of_name_def)
qed

lemma index_field:
  assumes "index_of_name sc n = Some i"
  shows "i < length (schema_fields sc)" "field_by_name sc n = Some (schema_fields sc ! i)" "field_name (schema_fields sc ! i) = n"
proof -
  have *: "position p xs = Some i \<Longrightarrow> i < length xs \<and> List.find p xs = Some (xs ! i) \<and> p (xs ! i)" for p and xs :: "field list" and i
    by (induction xs arbitrary: i) (auto split: if_splits)
  from * [OF assms [unfolded index_of_name_def]]
  show "i < length (schema_fields sc)" "field_by_name sc n = Some (schema_fields sc ! i)" "field_name (schema_fields sc ! i) = n"
    by (simp_all add: field_by_name_def)
qed

lemma resolve_names_Ok:
  assumes "resolve_names sc ns = Inr is"
  shows "list_all2 (\<lambda>n i. index_of_name sc n = Some i) ns is"
proof -
  have "resolve_names_from sc seen ns = Inr is \<Longrightarrow> list_all2 (\<lambda>n i. index_of_name sc n = Some i) ns is" for seen
    by (induction ns arbitrary: seen "is") (auto simp: rbind_Inr_iff split: if_splits)
  with assms show ?thesis by (simp add: resolve_names_def)
qed

text \<open>A validated specification resolves: both checks of the operator's constructor pass.\<close>

lemma resolve_names_distinct:
  assumes "\<And>n. n \<in> set ns \<Longrightarrow> field_by_name sc n \<noteq> None" "distinct ns"
  shows "\<exists>is. resolve_names sc ns = Inr is"
proof -
  have "\<exists>is. resolve_names_from sc seen ns = Inr is"
    if "\<And>n. n \<in> set ns \<Longrightarrow> field_by_name sc n \<noteq> None" "distinct ns" "\<And>n i. n \<in> set ns \<Longrightarrow> index_of_name sc n = Some i \<Longrightarrow> i \<notin> seen"
    for seen
    using that
  proof (induction ns arbitrary: seen)
    case (Cons n ns)
    then obtain f where "field_by_name sc n = Some f" by fastforce
    from field_by_name_index [OF this] obtain i where i: "index_of_name sc n = Some i" by blast
    have "\<exists>is. resolve_names_from sc (insert i seen) ns = Inr is"
    proof (rule Cons.IH)
      show "j \<notin> insert i seen" if "m \<in> set ns" "index_of_name sc m = Some j" for m j
        using that Cons.prems(2,3) i index_field(3) [OF i] index_field(3) [OF that(2)] by auto
    qed (use Cons.prems in auto)
    with i Cons.prems(3) [of n i] show ?case by auto
  qed simp
  with assms show ?thesis by (simp add: resolve_names_def)
qed

lemma extend_fields_Ok:
  assumes "extend_fields code sc i extra fs = Inr all"
  shows "\<exists>new. all = fs @ new \<and> map (\<lambda>f. (field_name f, field_type f, field_nullable f)) new = extra"
  using assms
proof (induction code sc i extra fs rule: extend_fields.induct)
  case (2 code input i name ty nullable extra fs)
  then obtain new where "all = (fs @ [Field (i + 1) name ty nullable]) @ new"
      "map (\<lambda>f. (field_name f, field_type f, field_nullable f)) new = extra"
    by (auto split: if_splits)
  then show ?case by (intro exI [of _ "Field (i + 1) name ty nullable # new"]) simp
qed simp

lemma derived_schema_Ok:
  assumes "derived_schema code sc off extra fs = Inr sc'"
  shows "\<exists>new. schema_fields sc' = fs @ new \<and> map (\<lambda>f. (field_name f, field_type f, field_nullable f)) new = extra"
    and "schema_validate sc' = Inr ()" "schema_id sc' = schema_id sc + off"
  using assms extend_fields_Ok
  by (fastforce simp: derived_schema_def schema_new_def Let_def rbind_Inr_iff split: if_splits)+

section \<open>The silence registry\<close>

lemma map_result_json_u8:
  "\<not> list_ex (\<lambda>b. json_u8 b = None) bs \<Longrightarrow> \<exists>ns. map_result (\<lambda>b. ok_or TypeMismatch (json_u8 b)) bs = Inr ns \<and> length ns = length bs"
  by (induction bs) auto

text \<open>The projected length is the length of the key encoding, and a projected value converts.\<close>

lemma wire_len_exact:
  assumes "silence_key_wire_len v ty = Inr n" "n \<le> 65536"
  shows "\<exists>s. silence_key_scalar v ty = Inr s \<and> length (encode_key s) = n \<and> scalar_type s = ty"
  using assms map_result_json_u8
  by (cases ty; cases v)
    (force simp: silence_key_wire_len_def silence_key_scalar_def key_utf8_def key_bytes_def str_bytes_def sat_u64_def split: if_splits)+

lemma project_row_exact:
  assumes "project_row n cells = Inr m" "n \<le> 65536"
  shows "\<exists>vals. map_result (\<lambda>(v, ty). silence_key_scalar v ty) cells = Inr vals \<and> m = n + length (concat (map encode_key vals)) \<and>
    map scalar_type vals = map snd cells \<and> m \<le> 65536"
  using assms
proof (induction cells arbitrary: n)
  case (Cons c cells)
  obtain v ty where c: "c = (v, ty)" by force
  from Cons.prems c obtain k where k: "silence_key_wire_len v ty = Inr k" "n + k \<le> 65536" "project_row (n + k) cells = Inr m"
    by (auto simp: rbind_Inr_iff split: if_splits)
  from wire_len_exact [OF k(1)] k(2) obtain s where s: "silence_key_scalar v ty = Inr s" "length (encode_key s) = k" "scalar_type s = ty" by auto
  from Cons.IH [OF k(3,2)] s c show ?case by auto
qed simp

text \<open>C12: The registry of a silence operator: when it is accepted, every configured row became one key of the
  declared types, no two rows have the same canonical encoding, and all encodings together stay within 64 KiB.
  The bound that is projected before anything is copied is exact, so the checks after the copy never fire.\<close>

theorem registry_exact:
  assumes "registry_rows tys arity seen n rows = Ok keys" "n \<le> 65536" "length tys = arity"
  shows "length keys = length rows \<and> (\<forall>k\<in>set keys. map scalar_type k = tys) \<and>
    distinct (map (\<lambda>k. concat (map encode_key k)) keys) \<and> (\<lambda>k. concat (map encode_key k)) ` set keys \<inter> seen = {} \<and>
    n + sum_list (map (\<lambda>k. length (concat (map encode_key k))) keys) \<le> 65536"
  using assms
proof (induction tys arity seen n rows arbitrary: keys rule: registry_rows.induct)
  case (2 tys arity seen n row rows)
  from "2.prems"(1) obtain m vals keys' where p: "project_row n (zip row tys) = Inr m" "length row = arity"
    "map_result (\<lambda>(v, ty). silence_key_scalar v ty) (zip row tys) = Inr vals"
    and e: "n + length (concat (map encode_key vals)) \<le> 65536" "concat (map encode_key vals) \<notin> seen"
    and r: "registry_rows tys arity (insert (concat (map encode_key vals)) seen) (n + length (concat (map encode_key vals))) rows = Inr keys'"
    and k: "keys = vals # keys'"
    by (auto simp: rbind_Inr_iff Let_def split: if_splits)
  have ty: "map scalar_type vals = tys" using project_row_exact [OF p(1) "2.prems"(2)] p(2,3) "2.prems"(3) by auto
  have "\<not> u64_max < n + length (concat (map encode_key vals))" using e(1) by simp
  from "2.IH" [OF _ p(1,3) refl refl this _ e(2) r e(1) "2.prems"(3)] p(2) e k ty show ?case by auto
qed auto

theorem registry_exact_witness:
  "registry_rows [TInt64] 1 {} 0 [[JInt 5], [JInt 6]] = Ok [[SInt64 5], [SInt64 6]] \<and>
   length [[SInt64 5], [SInt64 6]] = length [[JInt 5], [JInt 6]] \<and>
   distinct (map (\<lambda>k. concat (map encode_key k)) [[SInt64 5], [SInt64 6]])"
proof -
  have ne: "i64_le 6 \<noteq> i64_le 5"
  proof
    assume "i64_le 6 = i64_le 5"
    then have "u64_as_i64 (from_le_bytes (i64_le 6)) = u64_as_i64 (from_le_bytes (i64_le 5))" by simp
    then show False by (simp add: is_i64_def)
  qed
  have r: "registry_rows [TInt64] 1 {} 0 [[JInt 5], [JInt 6]] = Ok [[SInt64 5], [SInt64 6]]"
    using ne by (simp add: silence_key_wire_len_def silence_key_scalar_def is_i64_def Let_def)
  from registry_exact [OF r] r show ?thesis by simp
qed

end
