(* ===== verification/Alarm_Iot.thy ===== *)
theory Alarm_Iot
  imports Timed_Iot Iot_Spec
begin

text \<open>
  The alarm operator of \<^verbatim>\<open>sparrow-runtime/src/alarm_iot.rs\<close>: one alarm machine (theory \<open>Alarm\<close>)
  per key, its last row retained and billed, an ordered index of the next deadlines, and rows
  of the derived output schema for the lifecycle events. Episodes are numbered within a
  generation that must be bound before use and is retired by a cleanup.
\<close>

section \<open>State\<close>

record alarm_entry =
  ae_key :: "scalar list"
  ae_row :: row
  ae_state :: alarm_state
  ae_lease :: memory_lease

record alarm_iot =
  ai_operator :: nat
  ai_policy :: alarm_policy
  ai_input :: schema
  ai_output :: schema
  ai_owner :: memory_owner
  ai_keys :: "nat list"
  ai_fields :: "nat list"
  ai_invalid :: invalid_value_policy
  ai_max :: nat
  ai_now :: int
  ai_generation :: "bytes option"
  ai_retired :: "bytes option"
  ai_timers :: timers
  ai_entries :: "(bytes, alarm_entry) btmap"
  ai_stats :: iot_stats
  ai_metadata :: memory_lease

abbreviation alarm_kind :: nat where "alarm_kind \<equiv> 11"

text \<open>\<open>None\<close> is a panic of the validation; an error after the lease drops the lease.\<close>

definition alarm_iot_new :: "nat \<Rightarrow> full_spec \<Rightarrow> schema \<Rightarrow> memory_owner \<Rightarrow> nat list \<Rightarrow> nat list \<Rightarrow> store \<Rightarrow>
    (store \<times> alarm_iot result) option" where
  "alarm_iot_new op sp sc ow keys fidx st =
     map_option (\<lambda>v. case v of
         Inl e \<Rightarrow> (st, Inl e)
       | Inr _ \<Rightarrow>
          (case io_timing sp of
             Some (TimingAlarm act res cool age) \<Rightarrow>
               (let p = \<lparr>activate_micros = act, resolve_micros = res, cooldown_micros = cool, notification_max_age_micros = age\<rparr>;
                    mx = min (min (min (io_max_keys sp) (max_state_keys (owner_budget ow))) (max_timers (owner_budget ow) div 2)) max_freeze_entries
                in case policy_validate p of
                     Inl e \<Rightarrow> (st, Inl e)
                   | Inr _ \<Rightarrow>
                       if mx = 0 then (st, Err ResourceExhausted)
                       else (case acquire Reservation (8192 + sum_list (map (\<lambda>f. length (field_name f) * 2 + 256) (schema_fields sc))
                              + (length keys + length fidx) * 16) ow st of
                           Inl e \<Rightarrow> (st, Inl e)
                         | Inr (st1, l) \<Rightarrow>
                             (case iot_output_schema sp sc of
                                Inl e \<Rightarrow> (fst (drop_lease l st1), Inl e)
                              | Inr out \<Rightarrow> (st1, Ok
                                  \<lparr>ai_operator = op, ai_policy = p, ai_input = sc, ai_output = out, ai_owner = ow, ai_keys = keys,
                                   ai_fields = fidx, ai_invalid = io_invalid sp, ai_max = mx, ai_now = 0, ai_generation = None,
                                   ai_retired = None, ai_timers = [], ai_entries = [], ai_stats = iot_stats_default, ai_metadata = l\<rparr>))))
           | _ \<Rightarrow> (st, Err CodecViolation))) (iot_validate sp sc)"

section \<open>Generation, time and conditions\<close>

definition bind_generation :: "bytes \<Rightarrow> (alarm_iot, unit) eff" where
  "bind_generation g = ebind eget (\<lambda>s.
     if g = replicate 16 0 \<or> ai_retired s = Some g \<or> (case ai_generation s of None \<Rightarrow> False | Some p \<Rightarrow> p \<noteq> g)
     then elift (Err CodecViolation) else emodify (\<lambda>s. s\<lparr>ai_generation := Some g\<rparr>))"

definition alarm_generation :: "alarm_iot \<Rightarrow> bytes result" where
  "alarm_generation s = ok_or CodecViolation (ai_generation s)"

definition alarm_set_time :: "int \<Rightarrow> (alarm_iot, unit) eff" where
  "alarm_set_time now = ebind eget (\<lambda>s.
     if now < 0 \<or> now < ai_now s then elift (Err CodecViolation) else emodify (\<lambda>s. s\<lparr>ai_now := now\<rparr>))"

text \<open>An index out of range panics. The errors of the cell checks have one code.\<close>

definition alarm_conditions :: "alarm_iot \<Rightarrow> row \<Rightarrow> (bool \<times> bool) option result option" where
  "alarm_conditions s row =
     (if length row \<noteq> length (schema_fields (ai_input s)) then Some (Err CodecViolation)
      else if list_ex (\<lambda>vf. cell_mismatch vf \<or> nonfinite (fst vf)) (zip row (schema_fields (ai_input s))) then Some (Err CodecViolation)
      else case any_at is_null row (ai_keys s) of
          None \<Rightarrow> None
        | Some True \<Rightarrow> Some (Err CodecViolation)
        | Some False \<Rightarrow>
            (case ai_fields s of
               f0 # f1 # _ \<Rightarrow>
                 if f0 < length row \<and> f1 < length row then
                   Some (case (row ! f0, row ! f1) of
                       (SBool enter, SBool clear) \<Rightarrow>
                         if \<not> (enter \<and> clear) then Ok (Some (enter, clear))
                         else if ai_invalid s = PolicyIgnore then Ok None else Err CodecViolation
                     | _ \<Rightarrow> if ai_invalid s = PolicyIgnore then Ok None else Err CodecViolation)
                 else None
             | _ \<Rightarrow> None))"

section \<open>Entries and output rows\<close>

definition alarm_entry_bytes :: "row_layout \<Rightarrow> (row \<Rightarrow> nat) \<Rightarrow> scalar list \<Rightarrow> row \<Rightarrow> nat \<Rightarrow> nat" where
  "alarm_entry_bytes L rcap key row encoded_capacity =
     sat_u64 (sat_u64 (sat_u64 (row_resident_bytes L (rcap row) row + sum_list (map (resident_bytes (layout.truncate L)) key))
       + sat_u64 (encoded_capacity * 3)) + 2048)"

definition alarm_output_row :: "alarm_iot \<Rightarrow> row \<Rightarrow> alarm_event \<Rightarrow> row result" where
  "alarm_output_row s row ev =
     rbind (alarm_generation s) (\<lambda>g.
       Ok (row @ [SUtf8 (event_kind_name (ev_kind ev)), SUtf8 (phase_name (ev_phase ev)), SUtf8 (hex g),
                  SUInt64 (ai_operator s), SUInt64 (ev_episode ev), SInt64 (ev_at ev), SBool (ev_notify ev)]))"

definition sat_if :: "bool \<Rightarrow> nat \<Rightarrow> nat" where
  "sat_if b n = sat_u64 (n + (if b then 1 else 0))"

definition alarm_record :: "alarm_effects \<Rightarrow> iot_stats \<Rightarrow> iot_stats" where
  "alarm_record fx st = st\<lparr>
     st_emitted := sat_if (fx_event fx \<noteq> None) (st_emitted st),
     st_notifications_expired := sat_if (fx_expired fx) (st_notifications_expired st),
     st_notifications_cancelled := sat_if (fx_cancelled fx) (st_notifications_cancelled st),
     st_notifications_deferred := sat_if (case fx_event fx of None \<Rightarrow> False | Some e \<Rightarrow> \<not> ev_notify e) (st_notifications_deferred st)\<rparr>"

definition alarm_iot_next_deadline :: "alarm_iot \<Rightarrow> int option" where
  "alarm_iot_next_deadline s = map_option fst (first_timer (ai_timers s))"

text \<open>The new deadline first, then the old one: an error of either changes nothing.\<close>

definition alarm_replace :: "bytes \<Rightarrow> alarm_entry \<Rightarrow> (alarm_iot, unit) eff" where
  "alarm_replace enc e = ebind eget (\<lambda>s.
     ebind (elift (alarm_next_deadline (ai_policy s) (ae_state e))) (\<lambda>deadline.
     ebind (elift (case map_of (ai_entries s) enc of None \<Rightarrow> Ok None | Some old \<Rightarrow> alarm_next_deadline (ai_policy s) (ae_state old))) (\<lambda>before.
     ebind (emodify (\<lambda>s. s\<lparr>ai_timers := retime enc before deadline (ai_timers s), ai_entries := bt_put enc e (ai_entries s)\<rparr>)) (\<lambda>_.
       edrop_opt (map_option ae_lease (map_of (ai_entries s) enc))))))"

section \<open>Rows and timers\<close>

definition alarm_admit :: "row_layout \<Rightarrow> (row \<Rightarrow> nat) \<Rightarrow> (bytes \<Rightarrow> nat) \<Rightarrow> int \<Rightarrow> row \<Rightarrow> bool \<Rightarrow> bool \<Rightarrow> alarm_iot \<Rightarrow>
    (alarm_iot \<times> batch_builder, unit) eff" where
  "alarm_admit L rcap ecap now row enter clear s =
     (let key = map (\<lambda>i. row ! i) (ai_keys s); enc = key_encoding key; previous = map_option ae_state (map_of (ai_entries s) enc)
      in if previous = None \<and> length (ai_entries s) \<ge> ai_max s then elift (Err ResourceExhausted)
         else
           ebind (elift (rbind (alarm_new now) (\<lambda>fresh. alarm_observe (ai_policy s) now enter clear (case previous of None \<Rightarrow> fresh | Some p \<Rightarrow> p))))
             (\<lambda>(st', fx).
           ebind (eacquire Retention (alarm_entry_bytes L rcap key row (ecap enc)) (ai_owner s)) (\<lambda>lease.
             ebind (eguarded (Some lease)
               (ebind (case fx_event fx of None \<Rightarrow> eret () | Some ev \<Rightarrow> ebind (elift (alarm_output_row s row ev)) epush) (\<lambda>_.
                  efirst (alarm_replace enc \<lparr>ae_key = key, ae_row = row, ae_state = st', ae_lease = lease\<rparr>)))) (\<lambda>_.
             efirst (emodify (\<lambda>s. s\<lparr>ai_stats := (let r = alarm_record fx (ai_stats s) in
               if fx_event fx = None then r\<lparr>st_filtered := sat_inc (st_filtered r)\<rparr> else r)\<rparr>))))))"

definition alarm_row :: "row_layout \<Rightarrow> (row \<Rightarrow> nat) \<Rightarrow> (bytes \<Rightarrow> nat) \<Rightarrow> int \<Rightarrow> row \<Rightarrow> (alarm_iot \<times> batch_builder, unit) eff" where
  "alarm_row L rcap ecap now row =
     ebind (efirst (emodify (\<lambda>s. s\<lparr>ai_stats := (ai_stats s)\<lparr>st_input := sat_inc (st_input (ai_stats s))\<rparr>\<rparr>))) (\<lambda>_.
     ebind eget (\<lambda>(s, b).
     ebind (echeck (alarm_conditions s row)) (\<lambda>conds.
       case conds of
         None \<Rightarrow> efirst (emodify (\<lambda>s. s\<lparr>ai_stats := (ai_stats s)\<lparr>st_invalid := sat_inc (st_invalid (ai_stats s)),
           st_filtered := sat_inc (st_filtered (ai_stats s))\<rparr>\<rparr>))
       | Some (enter, clear) \<Rightarrow>
           escratch (sat_u64 (sat_u64 (row_resident_bytes L (rcap row) row * 8) + 4096)) (ai_owner s)
             (alarm_admit L rcap ecap now row enter clear s))))"

definition alarm_on_batch :: "row_layout \<Rightarrow> (row \<Rightarrow> nat) \<Rightarrow> (bytes \<Rightarrow> nat) \<Rightarrow> row_batch \<Rightarrow> int \<Rightarrow> (alarm_iot, row_batch option) eff" where
  "alarm_on_batch L rcap ecap batch now =
     ebind eget (\<lambda>s0. ebind (elift (alarm_generation s0)) (\<lambda>_.
     ebind (alarm_set_time now) (\<lambda>_.
     ebind eget (\<lambda>s.
       if overdue (alarm_iot_next_deadline s) now then elift (Err CodecViolation)
       else ebind (elift (builder_new (ai_output s) (ai_owner s) Reservation (max (length (rb_rows batch)) 1)
              (reservation_bytes (owner_budget (ai_owner s))))) (\<lambda>b0.
         ebind (ewith_builder b0 (efor (alarm_row L rcap ecap now) (rb_rows batch))) (\<lambda>b.
           if bb_rows b = [] then eret None
           else ebind (efinish b) (\<lambda>out. eret (Some (out\<lparr>rb_origin := rb_origin batch, rb_source := rb_source batch\<rparr>)))))))))"

definition alarm_due_output :: "alarm_iot \<Rightarrow> row \<Rightarrow> alarm_effects \<Rightarrow> (alarm_iot, row_batch option) eff" where
  "alarm_due_output s row fx =
     (case fx_event fx of
        None \<Rightarrow> eret None
      | Some ev \<Rightarrow>
          ebind (elift (builder_new (ai_output s) (ai_owner s) Reservation 1 (reservation_bytes (owner_budget (ai_owner s))))) (\<lambda>b0.
          ebind (elift (alarm_output_row s row ev)) (\<lambda>r.
          ebind (ewith_builder b0 (epush r)) (\<lambda>b. ebind (efinish b) (\<lambda>out. eret (Some out))))))"

definition alarm_take_due :: "row_layout \<Rightarrow> (row \<Rightarrow> nat) \<Rightarrow> int \<Rightarrow> (alarm_iot, row_batch option) eff" where
  "alarm_take_due L rcap now =
     ebind eget (\<lambda>s0. ebind (elift (alarm_generation s0)) (\<lambda>_.
     ebind (alarm_set_time now) (\<lambda>_.
     ebind eget (\<lambda>s.
       case first_timer (ai_timers s) of
         None \<Rightarrow> eret None
       | Some (t, enc) \<Rightarrow>
           if \<not> t \<le> now then eret None
           else ebind (elift (ok_or CodecViolation (map_of (ai_entries s) enc))) (\<lambda>e.
             escratch (sat_u64 (sat_u64 (sat_u64 (row_resident_bytes L (rcap (ae_row e)) (ae_row e) * 4) + sat_u64 (length enc * 4)) + 4096)) (ai_owner s)
               (ebind (elift (alarm_due (ai_policy s) now (ae_state e))) (\<lambda>(st', fx).
                ebind (elift (alarm_next_deadline (ai_policy s) st')) (\<lambda>nxt.
                ebind (alarm_due_output s (ae_row e) fx) (\<lambda>outp.
                ebind (emodify (\<lambda>s. s\<lparr>ai_timers := retime enc (Some t) nxt (ai_timers s),
                    ai_entries := bt_put enc (e\<lparr>ae_state := st'\<rparr>) (ai_entries s), ai_stats := alarm_record fx (ai_stats s)\<rparr>)) (\<lambda>_.
                  eret outp))))))))))"

definition alarm_cut_entry :: "alarm_iot \<Rightarrow> int \<Rightarrow> alarm_entry \<Rightarrow> unit result option" where
  "alarm_cut_entry s now e =
     obind_result (alarm_conditions s (ae_row e)) (\<lambda>conds.
       case conds of
         None \<Rightarrow> Some (Err CodecViolation)
       | Some (enter, clear) \<Rightarrow> Some (alarm_validate (ai_policy s) now enter clear (ae_state e)))"

fun alarm_cut_entries :: "alarm_iot \<Rightarrow> int \<Rightarrow> alarm_entry list \<Rightarrow> unit result option" where
  "alarm_cut_entries s now [] = Some (Ok ())"
| "alarm_cut_entries s now (e # es) = obind_result (alarm_cut_entry s now e) (\<lambda>_. alarm_cut_entries s now es)"

definition alarm_validate_cut :: "int \<Rightarrow> (alarm_iot, unit) eff" where
  "alarm_validate_cut now = ebind eget (\<lambda>s.
     ebind (elift (alarm_generation s)) (\<lambda>_.
     ebind (echeck (alarm_cut_entries s now (map snd (ai_entries s)))) (\<lambda>_. alarm_set_time now)))"

definition alarm_pending_timers :: "alarm_iot \<Rightarrow> nat" where
  "alarm_pending_timers s = sum_list (map (\<lambda>(_, e). (if a_deadline (ae_state e) \<noteq> None then 1 else 0)
     + (if a_notification_since (ae_state e) \<noteq> None then 1 else 0)) (ai_entries s))"

definition alarm_cleanup :: "(alarm_iot, unit) eff" where
  "alarm_cleanup = ebind eget (\<lambda>s.
     ebind (emodify (\<lambda>s. s\<lparr>ai_timers := [], ai_entries := [], ai_generation := None,
       ai_retired := (case ai_generation s of None \<Rightarrow> ai_retired s | Some g \<Rightarrow> Some g)\<rparr>)) (\<lambda>_.
     efor (\<lambda>e. edrop (ae_lease e)) (map snd (ai_entries s))))"

section \<open>Freeze and restore\<close>

definition alarm_prefix :: "alarm_state \<Rightarrow> scalar list" where
  "alarm_prefix st = [SUInt64 (phase_tag (a_phase st)), SInt64 (a_since st),
     SInt64 (case a_deadline st of None \<Rightarrow> -1 | Some t \<Rightarrow> t), SUInt64 (a_episode st), SInt64 (a_not_before st),
     SInt64 (case a_notification_since st of None \<Rightarrow> -1 | Some t \<Rightarrow> t)]"

text \<open>\<open>now\<close> is absent in the operator's restore and present when a checkpoint is inspected.\<close>

definition alarm_metadata :: "scalar list \<Rightarrow> int option \<Rightarrow> alarm_state result" where
  "alarm_metadata vals now =
     (case vals of
        SUInt64 ph # SInt64 since # SInt64 deadline # SUInt64 episode # SInt64 not_before # SInt64 notified # rest \<Rightarrow>
          rbind (phase_from_tag ph) (\<lambda>p.
            let st = \<lparr>a_phase = p, a_since = since, a_deadline = (if deadline \<noteq> -1 then Some deadline else None),
                      a_episode = episode, a_not_before = not_before,
                      a_notification_since = (if notified \<noteq> -1 then Some notified else None)\<rparr>
            in if rest = [] \<or> since < 0 \<or> not_before < 0 \<or> (case a_deadline st of None \<Rightarrow> False | Some t \<Rightarrow> t \<le> since) \<or>
                  (case a_notification_since st of None \<Rightarrow> False | Some t \<Rightarrow> t < 0 \<or> t \<ge> not_before) \<or>
                  (p \<in> {Pending, Recovering}) \<noteq> (a_deadline st \<noteq> None) \<or>
                  (p \<in> {Active, Recovering} \<and> episode = 0) \<or>
                  (a_notification_since st \<noteq> None \<and> p \<notin> {Active, Recovering}) \<or>
                  (case now of None \<Rightarrow> False | Some n \<Rightarrow> since > n \<or> (case a_deadline st of None \<Rightarrow> False | Some t \<Rightarrow> t \<le> n) \<or>
                     (case a_notification_since st of None \<Rightarrow> False | Some t \<Rightarrow> t > n \<or> not_before \<le> n))
               then Err CodecViolation else Ok st)
      | _ \<Rightarrow> Err CodecViolation)"

definition alarm_freeze_entries :: "alarm_iot \<Rightarrow> iot_entry list" where
  "alarm_freeze_entries s = map (\<lambda>(k, e). \<lparr>ie_key = ae_key e, ie_values = alarm_prefix (ae_state e) @ ae_row e\<rparr>) (ai_entries s)"

definition alarm_freeze :: "alarm_iot \<Rightarrow> iot_freeze" where
  "alarm_freeze s = \<lparr>fz_operator = ai_operator s, fz_slot = iot_slot, fz_kind = alarm_kind, fz_entries = alarm_freeze_entries s\<rparr>"

definition alarm_estimated_freeze_bytes :: "alarm_iot \<Rightarrow> nat" where
  "alarm_estimated_freeze_bytes s =
     foldl (\<lambda>n (k, e). sat_u64 (sat_u64 (n + 58) + sum_list (map value_len_or (ae_key e @ ae_row e)))) 11 (ai_entries s)"

definition alarm_encode :: "bytes \<Rightarrow> nat \<Rightarrow> (alarm_iot, bytes) eff" where
  "alarm_encode out mx = ebind eget (\<lambda>s.
     ebind (elift (alarm_generation s)) (\<lambda>_.
     if length (ai_entries s) > mx \<or> alarm_estimated_freeze_bytes s > max_freeze_bytes then elift (Err CodecViolation)
     else escratch 8192 (ai_owner s)
       (elift (encode_frame (length out) (alarm_freeze_entries s)
          (out @ freeze_header (ai_operator s) alarm_kind (length (ai_entries s)))))))"

text \<open>The checks on one frozen entry; the state, the row and its next deadline.\<close>

definition alarm_restore_check :: "alarm_iot \<Rightarrow> iot_entry \<Rightarrow> (alarm_state \<times> row) result option" where
  "alarm_restore_check s fe =
     (case alarm_metadata (ie_values fe) None of
        Inl e \<Rightarrow> Some (Inl e)
      | Inr st \<Rightarrow>
          (let row = drop 6 (ie_values fe)
           in obind_result (alarm_conditions s row) (\<lambda>conds.
                case conds of
                  None \<Rightarrow> Some (Err CodecViolation)
                | Some (enter, clear) \<Rightarrow>
                    Some (rbind (validate_conditions (ai_policy s) enter clear st) (\<lambda>_.
                      if length (ie_key fe) \<noteq> length (ai_keys s) \<or>
                         list_ex (\<lambda>(v, i). \<not> scalar_peq v (row ! i)) (zip (ie_key fe) (ai_keys s))
                      then Err CodecViolation else Ok (st, row))))))"

fun alarm_restore_loop :: "row_layout \<Rightarrow> (row \<Rightarrow> nat) \<Rightarrow> (bytes \<Rightarrow> nat) \<Rightarrow> iot_entry list \<Rightarrow> (bytes, alarm_entry) btmap \<Rightarrow> timers \<Rightarrow>
    (alarm_iot, (bytes, alarm_entry) btmap \<times> timers) eff" where
  "alarm_restore_loop L rcap ecap [] es ts = eret (es, ts)"
| "alarm_restore_loop L rcap ecap (fe # fes) es ts = ebind eget (\<lambda>s.
     ebind (echeck (alarm_restore_check s fe)) (\<lambda>(st, row).
     let enc = key_encoding (ie_key fe) in
     ebind (eacquire Retention (alarm_entry_bytes L rcap (ie_key fe) row (ecap enc)) (ai_owner s)) (\<lambda>lease.
       eguarded (Some lease)
         (ebind (elift (alarm_next_deadline (ai_policy s) st)) (\<lambda>deadline.
            if map_of es enc \<noteq> None then elift (Err CodecViolation)
            else alarm_restore_loop L rcap ecap fes
              (bt_put enc \<lparr>ae_key = ie_key fe, ae_row = row, ae_state = st, ae_lease = lease\<rparr> es) (retime enc None deadline ts))))))"

definition alarm_restore :: "row_layout \<Rightarrow> (row \<Rightarrow> nat) \<Rightarrow> (bytes \<Rightarrow> nat) \<Rightarrow> nat \<Rightarrow> iot_freeze \<Rightarrow> (alarm_iot, unit) eff" where
  "alarm_restore L rcap ecap freeze_resident fz = ebind eget (\<lambda>s.
     ebind (elift (alarm_generation s)) (\<lambda>_.
     if fz_operator fz \<noteq> ai_operator s \<or> fz_kind fz \<noteq> alarm_kind \<or> length (fz_entries fz) > ai_max s then elift (Err CodecViolation)
     else escratch (sat_u64 (sat_u64 (freeze_resident * 3) + 8192)) (ai_owner s)
       (ebind (alarm_restore_loop L rcap ecap (fz_entries fz) [] []) (\<lambda>(es, ts).
        ebind (emodify (\<lambda>s. s\<lparr>ai_timers := ts, ai_entries := es\<rparr>)) (\<lambda>_.
          efor (\<lambda>e. edrop (ae_lease e)) (map snd (ai_entries s)))))))"

section \<open>The invariant\<close>

definition alarm_cfg :: "alarm_iot \<Rightarrow> bool" where
  "alarm_cfg s \<longleftrightarrow> list_all (\<lambda>f. iot_value_type (field_type f)) (schema_fields (ai_input s)) \<and>
     list_all (\<lambda>i. i < length (schema_fields (ai_input s))) (ai_keys s @ ai_fields s) \<and> length (ai_fields s) = 2 \<and>
     policy_validate (ai_policy s) = Ok () \<and>
     (\<exists>new. schema_fields (ai_output s) = schema_fields (ai_input s) @ new \<and>
        map (\<lambda>f. (field_name f, field_type f, field_nullable f)) new = alarm_columns)"

definition alarm_dl :: "alarm_policy \<Rightarrow> alarm_entry \<Rightarrow> int option" where
  "alarm_dl p e = (case alarm_next_deadline p (ae_state e) of Inl _ \<Rightarrow> None | Inr d \<Rightarrow> d)"

definition alarm_entry_ok :: "alarm_iot \<Rightarrow> bytes \<Rightarrow> alarm_entry \<Rightarrow> bool" where
  "alarm_entry_ok s k e \<longleftrightarrow> k = key_encoding (ae_key e) \<and> ae_key e = map (\<lambda>i. ae_row e ! i) (ai_keys s) \<and>
     (\<exists>en cl. alarm_conditions s (ae_row e) = Some (Ok (Some (en, cl))) \<and> alarm_ok (ai_policy s) (ai_now s) en cl (ae_state e))"

definition alarm_inv :: "alarm_iot \<Rightarrow> bool" where
  "alarm_inv s \<longleftrightarrow> alarm_cfg s \<and> mirrors (alarm_dl (ai_policy s)) (ai_entries s) (ai_timers s) \<and> length (ai_entries s) \<le> ai_max s \<and>
     (\<forall>k e. map_of (ai_entries s) k = Some e \<longrightarrow> alarm_entry_ok s k e)"

definition alarm_clear :: "int \<Rightarrow> alarm_iot \<Rightarrow> bool" where
  "alarm_clear now s \<longleftrightarrow> (\<forall>k e. map_of (ai_entries s) k = Some e \<longrightarrow> \<not> overdue (alarm_dl (ai_policy s) e) now)"

lemmas alarm_congs = option.case_cong bool.case_cong list.case_cong

lemma conditions_frame [simp]:
  "alarm_conditions (s\<lparr>ai_now := a\<rparr>) = alarm_conditions s" "alarm_conditions (s\<lparr>ai_timers := b\<rparr>) = alarm_conditions s"
  "alarm_conditions (s\<lparr>ai_entries := c\<rparr>) = alarm_conditions s" "alarm_conditions (s\<lparr>ai_stats := d\<rparr>) = alarm_conditions s"
  "alarm_conditions (s\<lparr>ai_owner := f\<rparr>) = alarm_conditions s" "alarm_conditions (s\<lparr>ai_generation := g\<rparr>) = alarm_conditions s"
  "alarm_conditions (s\<lparr>ai_retired := h\<rparr>) = alarm_conditions s"
  by (simp_all add: fun_eq_iff alarm_conditions_def cong: alarm_congs)

lemma entry_ok_aframe [simp]:
  "alarm_entry_ok (s\<lparr>ai_timers := b\<rparr>) = alarm_entry_ok s" "alarm_entry_ok (s\<lparr>ai_entries := c\<rparr>) = alarm_entry_ok s"
  "alarm_entry_ok (s\<lparr>ai_stats := d\<rparr>) = alarm_entry_ok s" "alarm_entry_ok (s\<lparr>ai_owner := f\<rparr>) = alarm_entry_ok s"
  "alarm_entry_ok (s\<lparr>ai_generation := g\<rparr>) = alarm_entry_ok s" "alarm_entry_ok (s\<lparr>ai_retired := h\<rparr>) = alarm_entry_ok s"
  by (simp_all add: fun_eq_iff alarm_entry_ok_def)

lemma alarm_cfg_frame [simp]:
  "alarm_cfg (s\<lparr>ai_now := a\<rparr>) = alarm_cfg s" "alarm_cfg (s\<lparr>ai_timers := b\<rparr>) = alarm_cfg s"
  "alarm_cfg (s\<lparr>ai_entries := c\<rparr>) = alarm_cfg s" "alarm_cfg (s\<lparr>ai_stats := d\<rparr>) = alarm_cfg s"
  "alarm_cfg (s\<lparr>ai_owner := f\<rparr>) = alarm_cfg s" "alarm_cfg (s\<lparr>ai_generation := g\<rparr>) = alarm_cfg s"
  "alarm_cfg (s\<lparr>ai_retired := h\<rparr>) = alarm_cfg s"
  by (simp_all add: alarm_cfg_def)

lemma alarm_inv_frame [simp]: "alarm_inv (s\<lparr>ai_stats := d\<rparr>) = alarm_inv s" "alarm_clear now (s\<lparr>ai_stats := d\<rparr>) = alarm_clear now s"
  "alarm_clear now (s\<lparr>ai_now := a\<rparr>) = alarm_clear now s"
  by (simp_all add: alarm_inv_def alarm_clear_def)

lemma alarm_ok_later: "alarm_ok p t e c a \<Longrightarrow> t \<le> t' \<Longrightarrow> alarm_ok p t' e c a"
  by (auto simp: alarm_ok_def split: option.splits)

lemma alarm_inv_later: "alarm_inv s \<Longrightarrow> ai_now s \<le> now \<Longrightarrow> alarm_inv (s\<lparr>ai_now := now\<rparr>)"
  unfolding alarm_inv_def alarm_entry_ok_def by (fastforce intro: alarm_ok_later)

lemma alarm_inv_put:
  assumes inv: "alarm_inv s" and e: "alarm_entry_ok s k e" and room: "map_of (ai_entries s) k \<noteq> None \<or> length (ai_entries s) < ai_max s"
  shows "alarm_inv (s\<lparr>ai_timers := retime k (Option.bind (map_of (ai_entries s) k) (alarm_dl (ai_policy s))) (alarm_dl (ai_policy s) e) (ai_timers s),
    ai_entries := bt_put k e (ai_entries s)\<rparr>)"
proof -
  have m: "mirrors (alarm_dl (ai_policy s)) (ai_entries s) (ai_timers s)" using inv by (simp add: alarm_inv_def)
  then have "bt_inv (ai_entries s)" by (simp add: mirrors_def)
  then have "length (bt_put k e (ai_entries s)) \<le> ai_max s"
    using inv room by (auto simp: bt.len_put alarm_inv_def)
  with inv e mirrors_put [OF m, of k e] show ?thesis by (auto simp: alarm_inv_def)
qed

lemma entry_deadline: "alarm_entry_ok s k e \<Longrightarrow> \<exists>d. alarm_next_deadline (ai_policy s) (ae_state e) = Inr d"
  by (auto simp: alarm_entry_ok_def dest: alarm_ok_deadline)

lemma alarm_conditions_total: "alarm_cfg s \<Longrightarrow> alarm_conditions s row \<noteq> None"
proof (cases "length row = length (schema_fields (ai_input s))")
  case True
  assume cfg: "alarm_cfg s"
  with True have "list_all (\<lambda>i. i < length row) (ai_keys s)" by (simp add: alarm_cfg_def)
  moreover from cfg obtain f0 f1 where "ai_fields s = [f0, f1]" "f0 < length row" "f1 < length row"
    using True by (auto simp: alarm_cfg_def numeral_2_eq_2 length_Suc_conv)
  ultimately show ?thesis by (auto simp: alarm_conditions_def any_at_total split: bool.splits)
qed (simp add: alarm_conditions_def)

lemma observe_not_due:
  assumes "alarm_observe p now e c a = Inr (a', fx)" "alarm_next_deadline p a' = Inr d'"
  shows "\<not> overdue d' now"
  using assms(1)
proof (rule alarm_observe_elim, elim disjE conjE)
  assume "policy_validate p = Inr ()" "alarm_activate p now a = Inr (a', fx)"
  then show ?thesis using activate_not_due [OF _ _ assms(2)] by simp
next
  assume "alarm_resolve p now a = Inr (a', fx)"
  then show ?thesis using resolve_not_due [OF _ assms(2)] by simp
qed (use assms(2) in \<open>auto simp: enter_phase_def next_deadline_Inr notification_deadline_Inr split: option.splits\<close>)

section \<open>Every operation keeps it\<close>

abbreviation alarm_at :: "bytes option \<Rightarrow> bool \<Rightarrow> int \<Rightarrow> alarm_iot \<Rightarrow> bool" where
  "alarm_at g c now s \<equiv> alarm_inv s \<and> ai_generation s = g \<and> ai_now s = now \<and> (c \<longrightarrow> alarm_clear now s)"

lemma alarm_replace_ok:
  assumes s: "alarm_at g c now s" and e: "alarm_entry_ok s enc e" and clear: "\<not> overdue (alarm_dl (ai_policy s) e) now"
    and room: "map_of (ai_entries s) enc \<noteq> None \<or> length (ai_entries s) < ai_max s"
  shows "op_ok (\<lambda>s'. s' = s) (alarm_replace enc e) (\<lambda>r. alarm_at g c now)"
proof -
  from entry_deadline [OF e] obtain d where d: "alarm_next_deadline (ai_policy s) (ae_state e) = Inr d" ..
  define old where "old = (case map_of (ai_entries s) enc of None \<Rightarrow> Ok None | Some o' \<Rightarrow> alarm_next_deadline (ai_policy s) (ae_state o'))"
  have old: "old = Inr (Option.bind (map_of (ai_entries s) enc) (alarm_dl (ai_policy s)))"
  proof (cases "map_of (ai_entries s) enc")
    case (Some o')
    then have "alarm_entry_ok s enc o'" using s by (simp add: alarm_inv_def)
    from entry_deadline [OF this] Some show ?thesis by (auto simp: old_def alarm_dl_def)
  qed (simp add: old_def)
  have put: "alarm_at g c now (s\<lparr>ai_timers := retime enc (Option.bind (map_of (ai_entries s) enc) (alarm_dl (ai_policy s))) d (ai_timers s),
      ai_entries := bt_put enc e (ai_entries s)\<rparr>)"
    using alarm_inv_put [OF _ e room] s clear d by (auto simp: alarm_dl_def alarm_clear_def)
  have tail: "op_ok (\<lambda>s'. s' = s) (ebind (emodify (\<lambda>s. s\<lparr>ai_timers := retime enc before d (ai_timers s), ai_entries := bt_put enc e (ai_entries s)\<rparr>))
      (\<lambda>_. edrop_opt l)) (\<lambda>r. alarm_at g c now)"
    if "before = Option.bind (map_of (ai_entries s) enc) (alarm_dl (ai_policy s))" for before l
    using put that by (intro op_ok_bind [where R = "\<lambda>r. alarm_at g c now"] op_ok_modify op_ok_frame) auto
  show ?thesis
    unfolding alarm_replace_def
  proof (rule op_ok_get, goal_cases)
    case (1 s')
    then have s': "s' = s" by simp
    show ?case unfolding s' d old_def [symmetric] old by (intro op_ok_lift_bind) (auto intro!: tail)
  qed
qed

lemma alarm_admit_ok:
  assumes s: "alarm_at g c now s" and conds: "alarm_conditions s row = Some (Ok (Some (en, cl)))"
  shows "op_ok (\<lambda>(s', b). s' = s) (alarm_admit L rcap ecap now row en cl s) (\<lambda>r (s', b). alarm_at g c now s')"
proof -
  define key where "key = map (\<lambda>i. row ! i) (ai_keys s)"
  let ?previous = "map_option ae_state (map_of (ai_entries s) (key_encoding key))"
  let ?Q = "\<lambda>r (s', b). alarm_at g c now s'"
  let ?e = "\<lambda>st' lease. \<lparr>ae_key = key, ae_row = row, ae_state = st', ae_lease = lease\<rparr>"
  have ok: "alarm_entry_ok s (key_encoding key) (?e st' lease) \<and> \<not> overdue (alarm_dl (ai_policy s) (?e st' lease)) now"
    if new: "alarm_new now = Inr fresh" and obs: "alarm_observe (ai_policy s) now en cl (case ?previous of None \<Rightarrow> fresh | Some p \<Rightarrow> p) = Inr (st', fx)"
    for fresh st' fx lease
  proof -
    have "policy_validate (ai_policy s) = Inr ()" "0 \<le> now" using obs by (auto elim: alarm_observe_elim)
    then have "\<exists>en cl. alarm_ok (ai_policy s) now en cl (case ?previous of None \<Rightarrow> fresh | Some p \<Rightarrow> p)"
    proof (cases "map_of (ai_entries s) (key_encoding key)")
      case None
      have "alarm_ok (ai_policy s) now False False fresh"
        using new \<open>policy_validate (ai_policy s) = Inr ()\<close> \<open>0 \<le> now\<close>
        by (auto simp: alarm_new_def alarm_ok_def validate_conditions_Inr expected_deadline_Inr)
      with None show ?thesis by auto
    next
      case (Some e)
      then have "alarm_entry_ok s (key_encoding key) e" using s by (simp add: alarm_inv_def)
      with Some s show ?thesis by (auto simp: alarm_entry_ok_def)
    qed
    with obs have "alarm_ok (ai_policy s) now en cl st'" by (blast intro: alarm_ok_observe)
    moreover then obtain d where d: "alarm_next_deadline (ai_policy s) st' = Inr d" by (blast dest: alarm_ok_deadline)
    ultimately show ?thesis
      using conds s observe_not_due [OF obs d] by (auto simp: alarm_entry_ok_def key_def alarm_dl_def)
  qed
  have rec: "op_ok (\<lambda>(s', b). alarm_at g c now s') (efirst (emodify (\<lambda>s. s\<lparr>ai_stats := f (ai_stats s)\<rparr>))) ?Q" for f
    by (intro op_ok_first op_ok_modify) simp
  have emit: "op_ok (\<lambda>(s', b). s' = s) (case fx_event fx of None \<Rightarrow> eret () | Some ev \<Rightarrow> ebind (elift (alarm_output_row s row ev)) epush) (\<lambda>r (s', b). s' = s)" for fx
    by (auto intro!: op_ok_ret op_ok_lift_bind op_ok_push split: option.splits)
  show ?thesis
  proof (cases "?previous = None \<and> length (ai_entries s) \<ge> ai_max s")
    case True
    then show ?thesis using s by (auto simp: alarm_admit_def key_def [symmetric] Let_def intro!: op_ok_lift)
  next
    case False
    then have room: "map_of (ai_entries s) (key_encoding key) \<noteq> None \<or> length (ai_entries s) < ai_max s" by auto
    have guarded: "op_ok (\<lambda>(s', b). s' = s) (eguarded (Some lease) (ebind (case fx_event fx of None \<Rightarrow> eret () | Some ev \<Rightarrow> ebind (elift (alarm_output_row s row ev)) epush)
        (\<lambda>_. efirst (alarm_replace (key_encoding key) (?e st' lease))))) ?Q"
      if "alarm_entry_ok s (key_encoding key) (?e st' lease) \<and> \<not> overdue (alarm_dl (ai_policy s) (?e st' lease)) now" for st' fx lease
      using s that room by (intro op_ok_guarded op_ok_bind [OF emit] op_ok_first alarm_replace_ok) auto
    have "op_ok (\<lambda>(s', b). s' = s) (ebind (elift (rbind (alarm_new now) (\<lambda>fresh. alarm_observe (ai_policy s) now en cl (case ?previous of None \<Rightarrow> fresh | Some p \<Rightarrow> p))))
        (\<lambda>(st', fx). ebind (eacquire Retention (alarm_entry_bytes L rcap key row (ecap (key_encoding key))) (ai_owner s)) (\<lambda>lease.
          ebind (eguarded (Some lease) (ebind (case fx_event fx of None \<Rightarrow> eret () | Some ev \<Rightarrow> ebind (elift (alarm_output_row s row ev)) epush)
            (\<lambda>_. efirst (alarm_replace (key_encoding key) (?e st' lease))))) (\<lambda>_.
          efirst (emodify (\<lambda>s. s\<lparr>ai_stats := (let r = alarm_record fx (ai_stats s) in
             if fx_event fx = None then r\<lparr>st_filtered := sat_inc (st_filtered r)\<rparr> else r)\<rparr>)))))) ?Q"
    proof (rule op_ok_lift_bind, goal_cases)
      case (1 x)
      obtain st' fx where x: "x = (st', fx)" by force
      with 1 ok have "\<And>lease. alarm_entry_ok s (key_encoding key) (?e st' lease) \<and> \<not> overdue (alarm_dl (ai_policy s) (?e st' lease)) now"
        by (auto simp: rbind_Inr_iff)
      then show ?case unfolding x prod.case
        by (intro op_ok_frame_bind frame_acquire op_ok_bind [OF guarded rec]) (use s in auto)
    qed (use s in auto)
    then show ?thesis unfolding alarm_admit_def Let_def key_def [symmetric] if_not_P [OF False] .
  qed
qed

lemma alarm_row_ok:
  "op_ok (\<lambda>(s, b). alarm_at g c now s) (alarm_row L rcap ecap now row) (\<lambda>r (s, b). alarm_at g c now s)"
  unfolding alarm_row_def
proof (rule op_ok_bind [where R = "\<lambda>r (s, b). alarm_at g c now s"], goal_cases)
  case 1
  show ?case by (intro op_ok_first op_ok_modify) simp
next
  case (2 x)
  show ?case
  proof (rule op_ok_get, goal_cases)
    case (1 sb)
    obtain s b where sb: "sb = (s, b)" by force
    with 1 have s: "alarm_at g c now s" by simp
    then have cfg: "alarm_cfg s" by (simp add: alarm_inv_def)
    let ?Q = "\<lambda>r (s', b). alarm_at g c now s'"
    have inv: "op_ok (\<lambda>(s', b). s' = s) (efirst (emodify (\<lambda>s. s\<lparr>ai_stats := f (ai_stats s)\<rparr>))) ?Q" for f
      using s by (intro op_ok_first op_ok_modify) auto
    have "op_ok (\<lambda>(s', b). s' = s) (ebind (echeck (alarm_conditions s row)) (\<lambda>conds. case conds of
         None \<Rightarrow> efirst (emodify (\<lambda>s. s\<lparr>ai_stats := (ai_stats s)\<lparr>st_invalid := sat_inc (st_invalid (ai_stats s)),
           st_filtered := sat_inc (st_filtered (ai_stats s))\<rparr>\<rparr>))
       | Some (enter, clear) \<Rightarrow> escratch (sat_u64 (sat_u64 (row_resident_bytes L (rcap row) row * 8) + 4096)) (ai_owner s)
             (alarm_admit L rcap ecap now row enter clear s))) ?Q"
    proof (rule op_ok_check, goal_cases)
      case (1 conds)
      show ?case
      proof (cases conds)
        case None
        show ?thesis unfolding None option.case by (rule inv)
      next
        case (Some ec)
        obtain en cl where ec: "ec = (en, cl)" by force
        have "op_ok (\<lambda>(s', b). s' = s) (alarm_admit L rcap ecap now row en cl s) ?Q"
          using 1 Some ec by (intro alarm_admit_ok [OF s]) simp
        then show ?thesis unfolding Some ec option.case prod.case by (rule op_ok_scratch) (use s in auto)
      qed
    qed (use s alarm_conditions_total [OF cfg] in auto)
    then show ?case unfolding sb prod.case by (rule op_ok_pre) simp
  qed
qed auto

lemma alarm_set_time_ok:
  "op_ok (\<lambda>s. alarm_inv s \<and> ai_generation s = g) (alarm_set_time now)
     (\<lambda>r s. alarm_inv s \<and> ai_generation s = g \<and> (r = Ok () \<longrightarrow> ai_now s = now \<and> 0 \<le> now))"
  unfolding alarm_set_time_def
proof (rule op_ok_get)
  fix s assume "alarm_inv s \<and> ai_generation s = g"
  then show "op_ok (\<lambda>s'. s' = s) (if now < 0 \<or> now < ai_now s then elift (Err CodecViolation) else emodify (\<lambda>s. s\<lparr>ai_now := now\<rparr>))
      (\<lambda>r s. alarm_inv s \<and> ai_generation s = g \<and> (r = Ok () \<longrightarrow> ai_now s = now \<and> 0 \<le> now))"
    by (auto intro!: op_ok_lift op_ok_modify alarm_inv_later)
qed

lemma alarm_clear_next: "alarm_inv s \<Longrightarrow> \<not> overdue (alarm_iot_next_deadline s) now \<Longrightarrow> alarm_clear now s"
  by (auto simp: alarm_inv_def alarm_clear_def alarm_iot_next_deadline_def dest: mirrors_next)

lemma op_ok_generation:
  "(\<And>s. P s \<Longrightarrow> op_ok (\<lambda>s'. s' = s) m Q) \<Longrightarrow> (\<And>e s. P s \<Longrightarrow> Q (Inl e) s) \<Longrightarrow>
     op_ok P (ebind eget (\<lambda>s0. ebind (elift (alarm_generation s0)) (\<lambda>_. m))) Q"
  by (intro op_ok_get op_ok_lift_bind) auto

lemma alarm_on_batch_ok:
  "op_ok (\<lambda>s. alarm_inv s \<and> ai_generation s = g) (alarm_on_batch L rcap ecap batch now)
     (\<lambda>r s. alarm_inv s \<and> ai_generation s = g \<and> (\<forall>out. r = Ok out \<longrightarrow> ai_now s = now \<and> 0 \<le> now \<and> alarm_clear now s))" (is "op_ok _ _ ?Q")
  unfolding alarm_on_batch_def
proof (rule op_ok_generation)
  fix s0 assume "alarm_inv s0 \<and> ai_generation s0 = g"
  then have pre: "op_ok (\<lambda>s'. s' = s0) (alarm_set_time now) (\<lambda>r s. alarm_inv s \<and> ai_generation s = g \<and> (r = Ok () \<longrightarrow> ai_now s = now \<and> 0 \<le> now))"
    by (intro op_ok_pre [OF alarm_set_time_ok]) simp
  have loop: "op_ok (\<lambda>(s, b). alarm_at g True now s) (efor (alarm_row L rcap ecap now) (rb_rows batch))
      (\<lambda>r sb. case r of Inl e \<Rightarrow> (\<lambda>(s, b). alarm_at g True now s) sb | Inr _ \<Rightarrow> (\<lambda>(s, b). alarm_at g True now s) sb)"
    by (rule op_ok_for, rule op_ok_weaken [OF alarm_row_ok]) (auto split: sum.splits)
  have built: "op_ok (alarm_at g True now) (ewith_builder b0 (efor (alarm_row L rcap ecap now) (rb_rows batch))) (\<lambda>r. alarm_at g True now)" for b0
    by (rule op_ok_builder [where E = "\<lambda>_. alarm_at g True now" and R = "alarm_at g True now"])
      (use loop in \<open>auto simp: case_prod_beta' cong: sum.case_cong\<close>)
  show "op_ok (\<lambda>s'. s' = s0) (ebind (alarm_set_time now) (\<lambda>_. ebind eget (\<lambda>s.
       if overdue (alarm_iot_next_deadline s) now then elift (Err CodecViolation)
       else ebind (elift (builder_new (ai_output s) (ai_owner s) Reservation (max (length (rb_rows batch)) 1)
              (reservation_bytes (owner_budget (ai_owner s))))) (\<lambda>b0.
         ebind (ewith_builder b0 (efor (alarm_row L rcap ecap now) (rb_rows batch))) (\<lambda>b.
           if bb_rows b = [] then eret None
           else ebind (efinish b) (\<lambda>out. eret (Some (out\<lparr>rb_origin := rb_origin batch, rb_source := rb_source batch\<rparr>)))))))) ?Q"
  proof (rule op_ok_bind [OF pre], goal_cases)
    case (1 x)
    show ?case
    proof (rule op_ok_get, goal_cases)
      case (1 s)
      then have s: "alarm_inv s" "ai_now s = now" "0 \<le> now" "ai_generation s = g" by auto
      have fin: "op_ok (alarm_at g True now) (if bb_rows b = [] then eret None else ebind (efinish b) (\<lambda>out. eret (Some (f out)))) ?Q" for b f
        using s(3) by (auto intro!: op_ok_ret op_ok_frame_bind)
      have main: "op_ok (alarm_at g True now) (ebind (elift r0) (\<lambda>b0.
          ebind (ewith_builder b0 (efor (alarm_row L rcap ecap now) (rb_rows batch))) (\<lambda>b.
            if bb_rows b = [] then eret None else ebind (efinish b) (\<lambda>out. eret (Some (out\<lparr>rb_origin := rb_origin batch, rb_source := rb_source batch\<rparr>)))))) ?Q" for r0
        by (intro op_ok_lift_bind op_ok_bind [OF built] fin) auto
      show ?case
      proof (cases "overdue (alarm_iot_next_deadline s) now")
        case True
        with s show ?thesis by (auto intro: op_ok_lift)
      next
        case False
        show ?thesis unfolding if_not_P [OF False]
          by (rule op_ok_pre [OF main]) (use s alarm_clear_next [OF s(1) False] in simp)
      qed
    qed
  qed auto
qed auto

section \<open>Draining\<close>

lemma bt_sum_put: "bt_inv m \<Longrightarrow> hm_sum f (bt_put k v m) + (case map_of m k of None \<Rightarrow> 0 | Some x \<Rightarrow> f x) = hm_sum f m + f v"
proof (induction m)
  case (Cons kv m)
  have "map_of m k = None" if "k < fst kv"
    using Cons.prems that by (auto simp: bt_inv_def map_of_eq_None_iff)
  with Cons show ?case by (cases kv) (auto simp: hm_sum_def bt_inv_def split: option.splits)
qed (simp add: hm_sum_def)

definition alarm_load :: "alarm_policy \<Rightarrow> int \<Rightarrow> alarm_entry \<Rightarrow> nat" where
  "alarm_load p now e = (if overdue (alarm_dl p e) now then (if a_notification_since (ae_state e) = None then 1 else 2) else 0)"

definition alarm_backlog :: "int \<Rightarrow> alarm_iot \<Rightarrow> nat" where
  "alarm_backlog now s = hm_sum (alarm_load (ai_policy s) now) (ai_entries s)"

lemma alarm_backlog_frame [simp]:
  "alarm_backlog now (s\<lparr>ai_now := a\<rparr>) = alarm_backlog now s" "alarm_backlog now (s\<lparr>ai_stats := b\<rparr>) = alarm_backlog now s"
  "alarm_backlog now (s\<lparr>ai_timers := c\<rparr>) = alarm_backlog now s"
  by (simp_all add: alarm_backlog_def)

lemma alarm_backlog_le: "alarm_backlog now s \<le> 2 * length (ai_entries s)"
proof -
  have "hm_sum f m \<le> 2 * length m" if "\<And>e. f e \<le> 2" for f :: "alarm_entry \<Rightarrow> nat" and m :: "(bytes, alarm_entry) btmap"
  proof (induction m)
    case (Cons kv m)
    with that [of "snd kv"] show ?case by (simp add: hm_sum_def)
  qed (simp add: hm_sum_def)
  then show ?thesis by (simp add: alarm_backlog_def alarm_load_def)
qed

text \<open>One timer call lowers the backlog: its key is no longer due, or its notification is settled.\<close>

lemma due_lowers_load:
  assumes "alarm_due p now (ae_state e) = Inr (st', fx)" "alarm_next_deadline p st' = Inr nxt" "overdue (alarm_dl p e) now"
  shows "alarm_load p now (e\<lparr>ae_state := st'\<rparr>) < alarm_load p now e"
  using due_progress [OF assms(1,2)] assms(2,3) by (auto simp: alarm_load_def alarm_dl_def)

lemma alarm_settled:
  assumes s: "alarm_inv s" "ai_now s = now" and first: "first_timer (ai_timers s) = Some (t, k)" "t \<le> now"
    and e: "map_of (ai_entries s) k = Some e" "alarm_dl (ai_policy s) e = Some t"
    and due: "alarm_due (ai_policy s) now (ae_state e) = Inr (st', fx)" and nxt: "alarm_next_deadline (ai_policy s) st' = Inr nxt"
  shows "alarm_inv (s\<lparr>ai_timers := retime k (Some t) nxt (ai_timers s), ai_entries := bt_put k (e\<lparr>ae_state := st'\<rparr>) (ai_entries s),
      ai_stats := stats\<rparr>)"
    and "alarm_backlog now (s\<lparr>ai_timers := ts, ai_entries := bt_put k (e\<lparr>ae_state := st'\<rparr>) (ai_entries s), ai_stats := stats\<rparr>) < alarm_backlog now s"
proof -
  have ok: "alarm_entry_ok s k e" using s e by (simp add: alarm_inv_def)
  then have ok': "alarm_entry_ok s k (e\<lparr>ae_state := st'\<rparr>)"
    using due s(2) by (auto simp: alarm_entry_ok_def intro: alarm_ok_due)
  from alarm_inv_put [OF s(1) this] e nxt
  show "alarm_inv (s\<lparr>ai_timers := retime k (Some t) nxt (ai_timers s), ai_entries := bt_put k (e\<lparr>ae_state := st'\<rparr>) (ai_entries s),
      ai_stats := stats\<rparr>)"
    by (simp add: alarm_dl_def)
  have "bt_inv (ai_entries s)" using s by (simp add: alarm_inv_def mirrors_def)
  from bt_sum_put [OF this, of "alarm_load (ai_policy s) now" k "e\<lparr>ae_state := st'\<rparr>"] e
    due_lowers_load [OF due nxt] first(2)
  show "alarm_backlog now (s\<lparr>ai_timers := ts, ai_entries := bt_put k (e\<lparr>ae_state := st'\<rparr>) (ai_entries s), ai_stats := stats\<rparr>) < alarm_backlog now s"
    by (simp add: alarm_backlog_def)
qed

lemma frame_due_output: "frame (alarm_due_output s row fx)"
  unfolding alarm_due_output_def by (auto intro!: frame_bind frame_built split: option.splits)

lemma alarm_take_due_ok:
  "op_ok (\<lambda>s. alarm_inv s \<and> ai_generation s = g \<and> ai_now s \<le> now \<and> 0 \<le> now \<and> overdue (alarm_iot_next_deadline s) now \<and>
       alarm_backlog now s = n)
     (alarm_take_due L rcap now)
     (\<lambda>r s. alarm_inv s \<and> ai_generation s = g \<and> ai_now s \<le> now \<and> (case r of Inl _ \<Rightarrow> True | Inr _ \<Rightarrow> alarm_backlog now s < n))" (is "op_ok ?P _ ?Q")
  unfolding alarm_take_due_def
proof (rule op_ok_generation)
  fix s0 assume s0: "?P s0"
  have set: "op_ok (\<lambda>s'. s' = s0) (alarm_set_time now) (\<lambda>r s. r = Ok () \<and> s = s0\<lparr>ai_now := now\<rparr>)"
    unfolding alarm_set_time_def by (rule op_ok_get) (use s0 in \<open>auto intro!: op_ok_modify\<close>)
  define s where "s = s0\<lparr>ai_now := now\<rparr>"
  have s: "alarm_inv s" "ai_now s = now" "overdue (alarm_iot_next_deadline s) now" "alarm_backlog now s = n" "ai_generation s = g"
    using s0 alarm_inv_later by (auto simp: s_def alarm_iot_next_deadline_def)
  then obtain t k where f: "first_timer (ai_timers s) = Some (t, k)" "t \<le> now"
    by (auto simp: alarm_iot_next_deadline_def overdue_def split: option.splits)
  from s(1) have "mirrors (alarm_dl (ai_policy s)) (ai_entries s) (ai_timers s)" by (simp add: alarm_inv_def)
  from this f(1) obtain e where e: "map_of (ai_entries s) k = Some e" "alarm_dl (ai_policy s) e = Some t" by (rule mirrors_first)
  let ?put = "\<lambda>st' nxt fx s. s\<lparr>ai_timers := retime k (Some t) nxt (ai_timers s), ai_entries := bt_put k (e\<lparr>ae_state := st'\<rparr>) (ai_entries s),
      ai_stats := alarm_record fx (ai_stats s)\<rparr>"
  have main: "op_ok (\<lambda>s'. s' = s) (ebind (elift (alarm_due (ai_policy s) now (ae_state e))) (\<lambda>(st', fx).
      ebind (elift (alarm_next_deadline (ai_policy s) st')) (\<lambda>nxt. ebind (alarm_due_output s (ae_row e) fx) (\<lambda>outp.
      ebind (emodify (?put st' nxt fx)) (\<lambda>_. eret outp))))) ?Q"
  proof (rule op_ok_lift_bind, goal_cases)
    case (1 x)
    obtain st' fx where x: "x = (st', fx)" by force
    show ?case unfolding x prod.case
    proof (rule op_ok_lift_bind)
      fix nxt assume nxt: "alarm_next_deadline (ai_policy s) st' = Inr nxt"
      from 1 x have due: "alarm_due (ai_policy s) now (ae_state e) = Inr (st', fx)" by simp
      note st = alarm_settled [OF s(1,2) f e due nxt]
      show "op_ok (\<lambda>s'. s' = s) (ebind (alarm_due_output s (ae_row e) fx) (\<lambda>outp. ebind (emodify (?put st' nxt fx)) (\<lambda>_. eret outp))) ?Q"
        by (intro op_ok_frame_bind frame_due_output op_ok_bind [where R = "\<lambda>r s. alarm_inv s \<and> ai_generation s = g \<and> ai_now s \<le> now \<and> alarm_backlog now s < n"]
            op_ok_modify op_ok_ret) (use s st in auto)
    qed (use s in auto)
  qed (use s in auto)
  show "op_ok (\<lambda>s'. s' = s0) (ebind (alarm_set_time now) (\<lambda>_. ebind eget (\<lambda>s. case first_timer (ai_timers s) of
         None \<Rightarrow> eret None
       | Some (t, enc) \<Rightarrow>
           if \<not> t \<le> now then eret None
           else ebind (elift (ok_or CodecViolation (map_of (ai_entries s) enc))) (\<lambda>e.
             escratch (sat_u64 (sat_u64 (sat_u64 (row_resident_bytes L (rcap (ae_row e)) (ae_row e) * 4) + sat_u64 (length enc * 4)) + 4096)) (ai_owner s)
               (ebind (elift (alarm_due (ai_policy s) now (ae_state e))) (\<lambda>(st', fx).
                ebind (elift (alarm_next_deadline (ai_policy s) st')) (\<lambda>nxt.
                ebind (alarm_due_output s (ae_row e) fx) (\<lambda>outp.
                ebind (emodify (\<lambda>s. s\<lparr>ai_timers := retime enc (Some t) nxt (ai_timers s),
                    ai_entries := bt_put enc (e\<lparr>ae_state := st'\<rparr>) (ai_entries s), ai_stats := alarm_record fx (ai_stats s)\<rparr>)) (\<lambda>_.
                  eret outp))))))))) ?Q"
  proof (rule op_ok_bind [OF set], goal_cases)
    case (1 x)
    show ?case
    proof (rule op_ok_get, goal_cases)
      case (1 s')
      then have s': "s' = s" by (simp add: s_def)
      have run: "op_ok (\<lambda>s'. s' = s) (escratch m (ai_owner s) (ebind (elift (alarm_due (ai_policy s) now (ae_state e))) (\<lambda>(st', fx).
          ebind (elift (alarm_next_deadline (ai_policy s) st')) (\<lambda>nxt. ebind (alarm_due_output s (ae_row e) fx) (\<lambda>outp.
          ebind (emodify (?put st' nxt fx)) (\<lambda>_. eret outp)))))) ?Q" for m
        by (rule op_ok_scratch [OF main]) (use s in auto)
      have c: "(\<not> t \<le> now) = False" using f(2) by simp
      show ?case unfolding s' f(1) option.case prod.case c if_False e(1) ok_or_simps
        by (rule op_ok_lift_bind) (use run in auto)
    qed
  qed auto
qed auto

interpretation alarm_due: due_source "\<lambda>now s. alarm_inv s \<and> ai_generation s = g \<and> ai_now s \<le> now \<and> 0 \<le> now" alarm_iot_next_deadline
  "alarm_take_due L rcap" alarm_backlog for g L rcap
proof
  show "op_ok (\<lambda>s. (alarm_inv s \<and> ai_generation s = g \<and> ai_now s \<le> now \<and> 0 \<le> now) \<and> overdue (alarm_iot_next_deadline s) now \<and> alarm_backlog now s = n)
      (alarm_take_due L rcap now)
      (\<lambda>r s. (alarm_inv s \<and> ai_generation s = g \<and> ai_now s \<le> now \<and> 0 \<le> now) \<and> (case r of Inl _ \<Rightarrow> True | Inr _ \<Rightarrow> alarm_backlog now s < n))" for now n
  proof (cases "0 \<le> now")
    case True
    show ?thesis by (rule op_ok_weaken [OF op_ok_pre [OF alarm_take_due_ok [of g now n L rcap]]]) (use True in \<open>auto split: sum.splits\<close>)
  qed (simp add: op_ok_def)
  show "0 < alarm_backlog now s" if s: "alarm_inv s \<and> ai_generation s = g \<and> ai_now s \<le> now \<and> 0 \<le> now" and od: "overdue (alarm_iot_next_deadline s) now" for now s
  proof -
    from od obtain t k where f: "first_timer (ai_timers s) = Some (t, k)" "t \<le> now"
      by (auto simp: alarm_iot_next_deadline_def overdue_def split: option.splits)
    from s have "mirrors (alarm_dl (ai_policy s)) (ai_entries s) (ai_timers s)" by (simp add: alarm_inv_def)
    from this f(1) obtain e where e: "map_of (ai_entries s) k = Some e" "alarm_dl (ai_policy s) e = Some t" by (rule mirrors_first)
    then have "0 < alarm_load (ai_policy s) now e" using f(2) by (simp add: alarm_load_def)
    also have "\<dots> \<le> alarm_backlog now s" unfolding alarm_backlog_def by (rule hm_sum_mem [OF e(1)])
    finally show ?thesis .
  qed
qed

section \<open>Cuts and restores\<close>

lemma alarm_cut_accepts:
  assumes inv: "alarm_inv s" and now: "ai_now s \<le> now" "0 \<le> now" and clear: "alarm_clear now s" and gen: "ai_generation s \<noteq> None"
  shows "alarm_validate_cut now (st, s) = Some ((st, s\<lparr>ai_now := now\<rparr>), Ok ())"
proof -
  have "alarm_cut_entry s now e = Some (Ok ())" if "e \<in> set (map snd (ai_entries s))" for e
  proof -
    have bt: "bt_inv (ai_entries s)" using inv by (simp add: alarm_inv_def mirrors_def)
    from that obtain k where "(k, e) \<in> set (ai_entries s)" by auto
    then have m: "map_of (ai_entries s) k = Some e" using bt_inv_hm_inv [OF bt] by (simp add: hm_inv_def)
    then have ok: "alarm_entry_ok s k e" and nd: "\<not> overdue (alarm_dl (ai_policy s) e) now"
      using inv clear by (auto simp: alarm_inv_def alarm_clear_def)
    then obtain en cl where c: "alarm_conditions s (ae_row e) = Some (Ok (Some (en, cl)))" and "alarm_ok (ai_policy s) (ai_now s) en cl (ae_state e)"
      by (auto simp: alarm_entry_ok_def)
    then have ok': "alarm_ok (ai_policy s) now en cl (ae_state e)" using now(1) by (blast intro: alarm_ok_later)
    from alarm_ok_deadline [OF this] obtain d where d: "alarm_next_deadline (ai_policy s) (ae_state e) = Inr d" ..
    from alarm_ok_validate [OF ok' d] nd d c show ?thesis by (simp add: alarm_cut_entry_def alarm_dl_def)
  qed
  then have "alarm_cut_entries s now es = Some (Ok ())" if "set es \<subseteq> set (map snd (ai_entries s))" for es
    using that by (induction es) auto
  then have "alarm_cut_entries s now (map snd (ai_entries s)) = Some (Ok ())" by simp
  with now gen show ?thesis
    by (auto simp: alarm_validate_cut_def alarm_set_time_def alarm_generation_def echeck_def ebind_def eget_def elift_def emodify_def)
qed

lemma alarm_key_cells_refl:
  assumes cfg: "alarm_cfg s" and row: "alarm_conditions s row = Some (Ok c)" and i: "i \<in> set (ai_keys s)"
  shows "scalar_peq (row ! i) (row ! i)"
proof -
  have i': "i < length (schema_fields (ai_input s))" "iot_value_type (field_type (schema_fields (ai_input s) ! i))"
    using cfg i by (auto simp: alarm_cfg_def list_all_iff)
  have len: "length row = length (schema_fields (ai_input s))"
    and cells: "\<not> list_ex (\<lambda>vf. cell_mismatch vf \<or> nonfinite (fst vf)) (zip row (schema_fields (ai_input s)))"
    using row by (auto simp: alarm_conditions_def split: if_splits)
  have "(row ! i, schema_fields (ai_input s) ! i) \<in> set (zip row (schema_fields (ai_input s)))" using i' len by (auto simp: set_zip)
  with cells have m: "is_null (row ! i) \<or> matches_type (row ! i) (field_type (schema_fields (ai_input s) ! i))" and nf: "\<not> nonfinite (row ! i)"
    by (auto simp: list_ex_iff cell_mismatch_def)
  from cell_refl [OF m i'(2) nf] show ?thesis .
qed

definition alarm_strip :: "alarm_entry \<Rightarrow> scalar list \<times> row \<times> alarm_state" where
  "alarm_strip e = (ae_key e, ae_row e, ae_state e)"

text \<open>A freshly built operator with a generation bound, ready to be restored into.\<close>

definition alarm_blank :: "memory_owner \<Rightarrow> bytes \<Rightarrow> alarm_iot \<Rightarrow> alarm_iot" where
  "alarm_blank ow g s = s\<lparr>ai_owner := ow, ai_now := 0, ai_generation := Some g, ai_retired := None, ai_timers := [], ai_entries := [],
     ai_stats := iot_stats_default\<rparr>"

lemma blank_sel [simp]:
  "ai_keys (alarm_blank ow g s) = ai_keys s" "ai_policy (alarm_blank ow g s) = ai_policy s" "ai_max (alarm_blank ow g s) = ai_max s"
  "ai_operator (alarm_blank ow g s) = ai_operator s" "ai_entries (alarm_blank ow g s) = []" "alarm_generation (alarm_blank ow g s) = Inr g"
  "alarm_conditions (alarm_blank ow g s) = alarm_conditions s"
  by (simp_all add: alarm_blank_def alarm_generation_def)

lemma alarm_metadata_prefix:
  assumes "validate_conditions p en cl st = Inr ()" "row \<noteq> []"
  shows "alarm_metadata (alarm_prefix st @ row) None = Inr st"
  using assms
  by (cases "a_phase st"; cases "a_deadline st"; cases "a_notification_since st")
    (auto simp: alarm_metadata_def alarm_prefix_def phase_from_tag_def validate_conditions_Inr expected_deadline_Inr Let_def)

lemma alarm_restore_frozen:
  assumes cfg: "alarm_cfg s" and e: "alarm_entry_ok s k e"
  shows "alarm_restore_check (alarm_blank ow g s) \<lparr>ie_key = ae_key e, ie_values = alarm_prefix (ae_state e) @ ae_row e\<rparr> =
    Some (Ok (ae_state e, ae_row e))"
proof -
  from e obtain en cl where c: "alarm_conditions s (ae_row e) = Some (Ok (Some (en, cl)))"
    and v: "validate_conditions (ai_policy s) en cl (ae_state e) = Inr ()" and key: "ae_key e = map (\<lambda>i. ae_row e ! i) (ai_keys s)"
    by (auto simp: alarm_entry_ok_def alarm_ok_def)
  have "0 < length (schema_fields (ai_input s))" using cfg by (cases "ai_fields s") (auto simp: alarm_cfg_def)
  then have ne: "ae_row e \<noteq> []" using c by (auto simp: alarm_conditions_def split: if_splits)
  have d: "drop 6 (alarm_prefix (ae_state e) @ ae_row e) = ae_row e" by (simp add: alarm_prefix_def)
  have peq: "\<not> list_ex (\<lambda>(v, i). \<not> scalar_peq v (ae_row e ! i)) (zip (ae_key e) (ai_keys s))" "length (ae_key e) = length (ai_keys s)"
    using alarm_key_cells_refl [OF cfg c] unfolding key by (auto simp: list_ex_iff zip_map1 zip_same_conv_map)
  show ?thesis
    unfolding alarm_restore_check_def iot_entry.simps alarm_metadata_prefix [OF v ne] sum.case Let_def d
    using c v peq by simp
qed

lemma alarm_entry_bytes_pos: "0 < alarm_entry_bytes L rcap key row n"
  by (simp add: alarm_entry_bytes_def sat_u64_def)

lemma alarm_restore_loop_ok:
  assumes cfg: "alarm_cfg s" and "\<And>k e. (k, e) \<in> set rest \<Longrightarrow> alarm_entry_ok s k e" "distinct (map fst rest)"
    "\<And>k. k \<in> fst ` set rest \<Longrightarrow> map_of es k = None" "mirrors (alarm_dl (ai_policy s)) es ts"
  shows "op_ok (\<lambda>s'. s' = alarm_blank ow g s)
    (alarm_restore_loop L rcap ecap (map (\<lambda>(k, e). \<lparr>ie_key = ae_key e, ie_values = alarm_prefix (ae_state e) @ ae_row e\<rparr>) rest) es ts)
    (\<lambda>r s'. s' = alarm_blank ow g s \<and> (case r of
        Inl e \<Rightarrow> err_code e = ResourceExhausted
      | Inr (es', ts') \<Rightarrow> mirrors (alarm_dl (ai_policy s)) es' ts' \<and> restored alarm_strip es rest es'))"
  using assms(2-)
proof (induction rest arbitrary: es ts)
  case Nil
  then show ?case by (auto intro!: op_ok_ret restored_Nil)
next
  case (Cons ke rest)
  obtain k e where ke: "ke = (k, e)" by force
  have e: "alarm_entry_ok s k e" using Cons.prems(1) ke by simp
  then have k: "k = key_encoding (ae_key e)" by (simp add: alarm_entry_ok_def)
  from entry_deadline [OF e] obtain d where d: "alarm_next_deadline (ai_policy s) (ae_state e) = Inr d" ..
  have fresh: "map_of es k = None" using Cons.prems(3) ke by simp
  note chk = alarm_restore_frozen [OF cfg e, of ow g]
  let ?new = "\<lambda>lease. \<lparr>ae_key = ae_key e, ae_row = ae_row e, ae_state = ae_state e, ae_lease = lease\<rparr>"
  let ?Q = "\<lambda>acc rest r s'. s' = alarm_blank ow g s \<and> (case r of Inl e \<Rightarrow> err_code e = ResourceExhausted
      | Inr (es', ts') \<Rightarrow> mirrors (alarm_dl (ai_policy s)) es' ts' \<and> restored alarm_strip acc rest es')"
  have rec: "op_ok (\<lambda>s'. s' = alarm_blank ow g s) (alarm_restore_loop L rcap ecap
      (map (\<lambda>(k, e). \<lparr>ie_key = ae_key e, ie_values = alarm_prefix (ae_state e) @ ae_row e\<rparr>) rest) (bt_put k (?new lease) es) (retime k None d ts))
      (?Q es (ke # rest))" for lease
  proof (rule op_ok_weaken [OF Cons.IH])
    have "mirrors (alarm_dl (ai_policy s)) (bt_put k (?new lease) es)
        (retime k (Option.bind (map_of es k) (alarm_dl (ai_policy s))) (alarm_dl (ai_policy s) (?new lease)) ts)"
      by (rule mirrors_put [OF Cons.prems(4)])
    then show "mirrors (alarm_dl (ai_policy s)) (bt_put k (?new lease) es) (retime k None d ts)" using fresh d by (simp add: alarm_dl_def)
    show "alarm_entry_ok s k' e'" if "(k', e') \<in> set rest" for k' e' using Cons.prems(1) that by simp
    show "distinct (map fst rest)" using Cons.prems(2) by simp
    show "map_of (bt_put k (?new lease) es) k' = None" if "k' \<in> fst ` set rest" for k'
      using Cons.prems(2,3) ke that by auto
    have nk: "map_of rest k = None" using Cons.prems(2) ke by (simp add: map_of_eq_None_iff)
    fix r s' assume "?Q (bt_put k (?new lease) es) rest r s'"
    moreover have "restored alarm_strip es (ke # rest) es'" if "restored alarm_strip (bt_put k (?new lease) es) rest es'" for es'
      unfolding ke by (rule restored_step [OF that nk]) (simp add: alarm_strip_def)
    ultimately show "?Q es (ke # rest) r s'" by (auto split: sum.splits)
  qed
  show ?case
    unfolding ke list.map prod.case alarm_restore_loop.simps
  proof (rule op_ok_get, goal_cases)
    case (1 s')
    then have s': "s' = alarm_blank ow g s" by simp
    show ?case
      unfolding s' chk echeck_def option.case
      by (rule op_ok_lift_bind)
        (auto simp: Let_def k [symmetric] fresh d alarm_entry_bytes_pos intro!: op_ok_acquire_bind op_ok_guarded op_ok_lift_bind rec [unfolded ke])
  qed
qed

lemma alarm_restore_ok:
  assumes inv: "alarm_inv s"
  shows "op_ok (\<lambda>s'. s' = alarm_blank ow g s) (alarm_restore L rcap ecap resident (alarm_freeze s))
    (\<lambda>r s'. case r of Inl e \<Rightarrow> s' = alarm_blank ow g s \<and> err_code e = ResourceExhausted
       | Inr _ \<Rightarrow> alarm_freeze s' = alarm_freeze s \<and> ai_timers s' = ai_timers s \<and> alarm_inv (s'\<lparr>ai_now := ai_now s\<rparr>))" (is "op_ok _ _ ?Q")
proof -
  have m: "mirrors (alarm_dl (ai_policy s)) (ai_entries s) (ai_timers s)" and cfg: "alarm_cfg s" using inv by (simp_all add: alarm_inv_def)
  then have bt: "bt_inv (ai_entries s)" by (simp add: mirrors_def)
  then have dist: "distinct (map fst (ai_entries s))" by (simp add: bt_inv_def strict_sorted_iff)
  have ok: "alarm_entry_ok s k e" if "(k, e) \<in> set (ai_entries s)" for k e
    using inv that dist by (simp add: alarm_inv_def)
  have fin: "?Q (Inr ()) (alarm_blank ow g s\<lparr>ai_timers := ts, ai_entries := es\<rparr>)"
    if es: "mirrors (alarm_dl (ai_policy s)) es ts" "restored alarm_strip [] (ai_entries s) es" for es ts
  proof -
    have same: "map (map_prod id alarm_strip) es = map (map_prod id alarm_strip) (ai_entries s)"
      using restored_same [OF es(2) bt] es(1) by (simp add: mirrors_def)
    have entry: "alarm_entry_ok s k e" if "map_of es k = Some e" for k e
    proof -
      have "map_option alarm_strip (map_of es k) = map_option alarm_strip (map_of (ai_entries s) k)" using same map_of_map_prod by metis
      with that obtain e' where "map_of (ai_entries s) k = Some e'" "alarm_strip e' = alarm_strip e"
        by (cases "map_of (ai_entries s) k") auto
      moreover then have "alarm_entry_ok s k e'" using inv by (simp add: alarm_inv_def)
      ultimately show ?thesis by (simp add: alarm_entry_ok_def alarm_strip_def)
    qed
    have "map (\<lambda>(k, e). \<lparr>ie_key = ae_key e, ie_values = alarm_prefix (ae_state e) @ ae_row e\<rparr>) zs =
        map ((\<lambda>(k, key, row, st). \<lparr>ie_key = key, ie_values = alarm_prefix st @ row\<rparr>) \<circ> map_prod id alarm_strip) zs" for zs :: "(bytes, alarm_entry) btmap"
      by (simp add: alarm_strip_def split: prod.splits)
    from this [of es] this [of "ai_entries s"] same have frz: "alarm_freeze_entries (s\<lparr>ai_entries := es\<rparr>) = alarm_freeze_entries s"
      by (simp add: alarm_freeze_entries_def flip: map_map)
    have len: "length es = length (ai_entries s)" using same by (metis length_map)
    have "ts = ai_timers s" by (rule mirrors_same [OF es(1) m same]) (simp add: alarm_strip_def alarm_dl_def)
    moreover have at: "alarm_blank ow g s\<lparr>ai_now := ai_now s, ai_timers := ts, ai_entries := es\<rparr> =
        s\<lparr>ai_owner := ow, ai_generation := Some g, ai_retired := None, ai_timers := ts, ai_entries := es, ai_stats := iot_stats_default\<rparr>"
      by (simp add: alarm_blank_def)
    ultimately show ?thesis
      using frz es(1) entry len inv
      by (simp add: alarm_freeze_def alarm_freeze_entries_def at alarm_inv_def) (simp add: alarm_blank_def)
  qed
  have loop: "op_ok (\<lambda>s'. s' = alarm_blank ow g s) (alarm_restore_loop L rcap ecap (alarm_freeze_entries s) [] [])
      (\<lambda>r s'. s' = alarm_blank ow g s \<and> (case r of Inl e \<Rightarrow> err_code e = ResourceExhausted
        | Inr (es', ts') \<Rightarrow> mirrors (alarm_dl (ai_policy s)) es' ts' \<and> restored alarm_strip [] (ai_entries s) es'))"
    unfolding alarm_freeze_entries_def by (rule alarm_restore_loop_ok) (use cfg ok dist in auto)
  have body: "op_ok (\<lambda>s'. s' = alarm_blank ow g s) (ebind (alarm_restore_loop L rcap ecap (alarm_freeze_entries s) [] []) (\<lambda>(es, ts).
      ebind (emodify (\<lambda>s. s\<lparr>ai_timers := ts, ai_entries := es\<rparr>)) (\<lambda>_. efor (\<lambda>e. edrop (ae_lease e)) []))) ?Q"
  proof (rule op_ok_bind [OF loop], goal_cases)
    case (1 x)
    then show ?case
      by (cases x) (auto simp: op_ok_def ebind_def emodify_def eret_def dest!: fin)
  qed auto
  show ?thesis
    unfolding alarm_restore_def
  proof (rule op_ok_get, goal_cases)
    case (1 s')
    then have s': "s' = alarm_blank ow g s" by simp
    have sel: "fz_entries (alarm_freeze s) = alarm_freeze_entries s" "fz_operator (alarm_freeze s) = ai_operator s" "fz_kind (alarm_freeze s) = alarm_kind"
      by (simp_all add: alarm_freeze_def)
    have "length (alarm_freeze_entries s) \<le> ai_max s" using inv by (simp add: alarm_freeze_entries_def alarm_inv_def)
    then show ?case
      unfolding s' sel blank_sel
      by (auto simp: escratch_def sat_u64_def simp del: efor.simps intro!: op_ok_lift_bind op_ok_acquire_bind op_ok_scoped body)
  qed
qed

section \<open>Fresh operators\<close>

lemma resolved_index:
  assumes "resolve_names sc ns = Inr is" "i \<in> set is"
  obtains n where "n \<in> set ns" "i < length (schema_fields sc)" "field_by_name sc n = Some (schema_fields sc ! i)"
proof -
  from assms(2) obtain j where j: "j < length is" "is ! j = i" by (auto simp: in_set_conv_nth)
  with resolve_names_Ok [OF assms(1)] have n: "index_of_name sc (ns ! j) = Some i" "ns ! j \<in> set ns"
    by (auto simp: list_all2_conv_all_nth)
  with index_field [OF n(1)] that show thesis by blast
qed

lemma timed_new_inv:
  assumes v: "iot_validate sp sc = Some (Inr ())" and keys: "resolve_names sc (io_keys sp) = Inr keys"
    and fidx: "resolve_names sc (io_fields sp) = Inr fidx" and new: "timed_new op sp sc ow keys fidx st = Some (st', Inr s)"
    and timing: "io_timing sp = Some t" "(\<exists>d. t = TimingHoldFor d) \<or> (\<exists>q m l tr r. t = TimingDebounce q m l tr r)"
  shows "timed_inv s"
proof -
  have s: "ti_timing s = t" "ti_schema s = sc" "ti_keys s = keys" "ti_fields s = fidx" "ti_entries s = []" "ti_timers s = []"
    using new timing(1) by (auto simp: timed_new_def Let_def split: if_splits sum.splits)
  note vt = validated_timing [OF v timing(1)]
  have idx: "i < length (schema_fields sc)" if "i \<in> set keys \<union> set fidx" for i
    using that keys fidx by (auto elim: resolved_index)
  have hold: "\<exists>f. fidx = [f] \<and> field_type (schema_fields sc ! f) = TBool" if "t = TimingHoldFor d" for d
  proof -
    from validated(8) [OF v] timing(1) that obtain n where n: "io_fields sp = [n]" "bool_field sc n"
      by (auto simp: validate_timing_def split: if_splits list.splits)
    from resolve_names_Ok [OF fidx] n(1) obtain i where i: "fidx = [i]" "index_of_name sc n = Some i"
      by (auto simp: list_all2_Cons1)
    with n(2) index_field(2) [OF i(2)] show ?thesis by (simp add: bool_field_def)
  qed
  have "timed_cfg s"
    unfolding timed_cfg_def s using vt(1,2) idx timing(2) hold
    by (auto simp: timing_validate_def flat_schema_def list_all_iff split: if_splits)
  then show ?thesis by (simp add: timed_inv_def s)
qed

lemma alarm_new_inv:
  assumes v: "iot_validate sp sc = Some (Inr ())" and keys: "resolve_names sc (io_keys sp) = Inr keys"
    and fidx: "resolve_names sc (io_fields sp) = Inr fidx" and new: "alarm_iot_new op sp sc ow keys fidx st = Some (st', Inr s)"
  shows "alarm_inv s"
proof -
  from new v obtain act res cool age out where t: "io_timing sp = Some (TimingAlarm act res cool age)" and out: "iot_output_schema sp sc = Inr out"
    and s: "ai_input s = sc" "ai_output s = out" "ai_keys s = keys" "ai_fields s = fidx" "ai_entries s = []" "ai_timers s = []"
      "policy_validate (ai_policy s) = Inr ()"
    by (auto simp: alarm_iot_new_def Let_def split: if_splits sum.splits option.splits iot_timing.splits)
  note vt = validated_timing [OF v t]
  have two: "length fidx = 2"
    using validated(9) [OF v] t resolve_names_Ok [OF fidx] by (auto simp: validate_alarm_def is_alarm_def list_all2_lengthD split: if_splits)
  have idx: "i < length (schema_fields sc)" if "i \<in> set keys \<union> set fidx" for i
    using that keys fidx by (auto elim: resolved_index)
  have "derived_schema InvalidSchema sc 90 alarm_columns (schema_fields sc) = Inr out" using out t by (simp add: iot_output_schema_def)
  from derived_schema_Ok(1) [OF this] have "alarm_cfg s"
    unfolding alarm_cfg_def s using vt(2) idx two s(7) by (auto simp: flat_schema_def list_all_iff)
  then show ?thesis by (simp add: alarm_inv_def s)
qed

text \<open>An accepted input row extended by the seven lifecycle columns conforms to the derived schema, cell by cell.\<close>

lemma alarm_output_typed:
  assumes "alarm_inv s" "alarm_conditions s row = Some (Ok c)" "alarm_output_row s row ev = Ok out'"
  shows "row_conforms (ai_output s) out'"
proof -
  from assms(1) obtain new where new: "schema_fields (ai_output s) = schema_fields (ai_input s) @ new"
    "map (\<lambda>f. (field_name f, field_type f, field_nullable f)) new = alarm_columns"
    by (auto simp: alarm_inv_def alarm_cfg_def)
  from assms(2) have len: "length row = length (schema_fields (ai_input s))"
    and cells: "\<not> list_ex (\<lambda>vf. cell_mismatch vf \<or> nonfinite (fst vf)) (zip row (schema_fields (ai_input s)))"
    by (auto simp: alarm_conditions_def split: if_splits)
  from len cells have head: "list_all2 (\<lambda>v f. if is_null v then field_nullable f else matches_type v (field_type f)) row (schema_fields (ai_input s))"
    by (auto simp: list_all2_iff list_ex_iff cell_mismatch_def)
  have "\<exists>fs. new = fs \<and> map field_type fs = [TUtf8, TUtf8, TUtf8, TUInt64, TUInt64, TInt64, TBool]"
    using arg_cong [OF new(2), of "map (fst \<circ> snd)"] by (simp add: alarm_columns_def comp_def)
  then have tail: "list_all2 (\<lambda>v f. if is_null v then field_nullable f else matches_type v (field_type f))
      [SUtf8 a, SUtf8 b, SUtf8 d, SUInt64 e, SUInt64 f, SInt64 g, SBool h] new" for a b d e f g h
    by (auto simp: map_eq_Cons_conv is_null_def matches_type_def)
  from assms(3) obtain g where "out' = row @ [SUtf8 (event_kind_name (ev_kind ev)), SUtf8 (phase_name (ev_phase ev)), SUtf8 (hex g),
      SUInt64 (ai_operator s), SUInt64 (ev_episode ev), SInt64 (ev_at ev), SBool (ev_notify ev)]"
    by (auto simp: alarm_output_row_def rbind_Inr_iff)
  with list_all2_appendI [OF head tail] show ?thesis by (simp only: row_conforms_def new(1))
qed

section \<open>The operator's promises\<close>

text \<open>C19: A specification that passes validation starts its operator in a valid state: names that resolve
  against the validated schema give a hold-for, debounce or alarm operator whose invariant holds, and
  the names do resolve.\<close>

theorem validated_spec_starts:
  assumes "iot_validate sp sc = Some (Ok ())" "io_timing sp = Some t" "\<not> is_silence sp"
  shows "\<exists>keys fidx. resolve_names sc (io_keys sp) = Ok keys \<and> resolve_names sc (io_fields sp) = Ok fidx \<and>
    (\<forall>st st' s. timed_new op sp sc ow keys fidx st = Some (st', Ok s) \<longrightarrow>
       (\<exists>d. t = TimingHoldFor d) \<or> (\<exists>q m l tr r. t = TimingDebounce q m l tr r) \<longrightarrow> timed_inv s) \<and>
    (\<forall>st st' a. alarm_iot_new op sp sc ow keys fidx st = Some (st', Ok a) \<longrightarrow> alarm_inv a)"
proof -
  have "distinct (io_fields sp)"
    using validated(7) [OF assms(1)] assms(3) by (auto simp: validate_params_def rbind_Inr_iff validate_names_Ok)
  then obtain fidx where f: "resolve_names sc (io_fields sp) = Inr fidx"
    using resolve_names_distinct [of "io_fields sp" sc] validated(2) [OF assms(1)] by fastforce
  obtain keys where k: "resolve_names sc (io_keys sp) = Inr keys"
    using resolve_names_distinct [of "io_keys sp" sc] validated(1,3) [OF assms(1)] by fastforce
  have "timed_inv s" if "timed_new op sp sc ow keys fidx st = Some (st', Ok s)"
    "(\<exists>d. t = TimingHoldFor d) \<or> (\<exists>q m l tr r. t = TimingDebounce q m l tr r)" for st st' s
    by (rule timed_new_inv [OF assms(1) k f that(1) assms(2) that(2)])
  moreover have "alarm_inv a" if "alarm_iot_new op sp sc ow keys fidx st = Some (st', Ok a)" for st st' a
    by (rule alarm_new_inv [OF assms(1) k f that])
  ultimately show ?thesis using k f by blast
qed

definition demo_alarm_schema :: schema where
  "demo_alarm_schema = \<lparr>schema_id = 1, schema_fields =
     [Field 1 ''id'' TInt64 False, Field 2 ''enter'' TBool False, Field 3 ''clear'' TBool False]\<rparr>"

definition demo_alarm_spec :: full_spec where
  "demo_alarm_spec = \<lparr>io_keys = [''id''], io_fields = [''enter'', ''clear''], io_emit_first = False, io_ttl = 0, io_max_keys = 4,
     io_invalid = PolicyError, io_deadband = None, io_hysteresis = None, io_timing = Some (TimingAlarm 10 5 100 50)\<rparr>"

lemmas spec_eval = iot_validate_def validate_params_def validate_alarm_def validate_silence_def validate_timing_def
  validate_deadband_def validate_hysteresis_def validate_key_def validate_value_def validate_names_def is_alarm_def is_silence_def
  iot_output_schema_def derived_schema_def alarm_columns_def max_field_id_def schema_new_def schema_validate_def
  timing_validate_def flat_schema_def bool_field_def field_by_name_def demo_alarm_spec_def demo_alarm_schema_def

lemma demo_alarm_valid: "iot_validate demo_alarm_spec demo_alarm_schema = Some (Ok ())"
  by (simp add: spec_eval Let_def)

theorem validated_spec_starts_witness:
  "\<exists>keys fidx. resolve_names demo_alarm_schema (io_keys demo_alarm_spec) = Ok keys \<and>
     resolve_names demo_alarm_schema (io_fields demo_alarm_spec) = Ok fidx \<and> keys = [0] \<and> fidx = [1, 2]"
proof -
  have t: "io_timing demo_alarm_spec = Some (TimingAlarm 10 5 100 50)" "\<not> is_silence demo_alarm_spec"
    by (simp_all add: demo_alarm_spec_def is_silence_def)
  from validated_spec_starts [OF demo_alarm_valid t] obtain keys fidx
    where k: "resolve_names demo_alarm_schema (io_keys demo_alarm_spec) = Ok keys" "resolve_names demo_alarm_schema (io_fields demo_alarm_spec) = Ok fidx"
    by blast
  then have "keys = [0]" "fidx = [1, 2]"
    by (auto simp: resolve_names_def index_of_name_def demo_alarm_spec_def demo_alarm_schema_def numeral_2_eq_2)
  with k show ?thesis by blast
qed

text \<open>C18: The alarm operator in a valid state answers every batch, at every time and whatever memory is
  available: it never panics, its state stays valid even when the batch fails half way, and after a
  batch it accepts the checkpoint cut at that time unchanged.\<close>

theorem alarm_iot_safe:
  assumes "alarm_inv s"
  shows "\<exists>st' s' r. alarm_on_batch L rcap ecap batch now (st, s) = Some ((st', s'), r) \<and> alarm_inv s' \<and>
    (\<forall>out'. r = Ok out' \<longrightarrow> alarm_validate_cut now (st', s') = Some ((st', s'), Ok ()))"
proof -
  obtain st' s' r where run: "alarm_on_batch L rcap ecap batch now (st, s) = Some ((st', s'), r)"
    and post: "alarm_inv s'" "ai_generation s' = ai_generation s" "\<And>out'. r = Ok out' \<Longrightarrow> ai_now s' = now \<and> 0 \<le> now \<and> alarm_clear now s'"
    using op_okE [OF alarm_on_batch_ok [of "ai_generation s"], of s] assms by metis
  have "alarm_validate_cut now (st', s') = Some ((st', s'), Ok ())" if r: "r = Ok out'" for out'
  proof -
    have "ai_generation s \<noteq> None"
    proof
      assume "ai_generation s = None"
      with run r show False by (simp add: alarm_on_batch_def alarm_generation_def ebind_def eget_def elift_def)
    qed
    with post r alarm_cut_accepts [of s' now st'] show ?thesis by simp
  qed
  with run post(1) show ?thesis by blast
qed

definition demo_alarm :: alarm_iot where
  "demo_alarm = \<lparr>ai_operator = 9, ai_policy = demo_policy, ai_input = demo_alarm_schema,
     ai_output = \<lparr>schema_id = 91, schema_fields = schema_fields demo_alarm_schema @
       map (\<lambda>(i, n, ty, nl). Field i n ty nl) (zip [4..<11] alarm_columns)\<rparr>,
     ai_owner = demo_owner, ai_keys = [0], ai_fields = [1, 2], ai_invalid = PolicyError, ai_max = 4, ai_now = 3,
     ai_generation = Some (replicate 16 1), ai_retired = None,
     ai_timers = [((13, key_encoding [SInt64 7]), ())],
     ai_entries = [(key_encoding [SInt64 7], \<lparr>ae_key = [SInt64 7], ae_row = [SInt64 7, SBool True, SBool False], ae_state = demo_pending,
       ae_lease = MemoryLease demo_owner (AllocInner 1 3000 Retention 1 None)\<rparr>)],
     ai_stats = iot_stats_default, ai_metadata = MemoryLease demo_owner (AllocInner 0 9000 Reservation 1 None)\<rparr>"

lemma demo_alarm_inv: "alarm_inv demo_alarm"
proof -
  have d: "alarm_next_deadline demo_policy demo_pending = Inr (Some 13)"
    by (simp add: alarm_next_deadline_def notification_deadline_def demo_pending_def)
  have ok: "alarm_ok demo_policy 3 True False demo_pending"
    by (simp add: alarm_ok_def validate_conditions_Inr expected_deadline_Inr demo_policy_def demo_pending_def is_i64_def)
  have cfg: "alarm_cfg demo_alarm"
    by (simp add: alarm_cfg_def demo_alarm_def demo_alarm_schema_def demo_policy_def alarm_columns_def upt_rec)
  have c: "alarm_conditions demo_alarm [SInt64 7, SBool True, SBool False] = Some (Ok (Some (True, False)))"
    by (simp add: alarm_conditions_def demo_alarm_def demo_alarm_schema_def cell_mismatch_def is_null_def matches_type_def nonfinite_def)
  have e: "alarm_entry_ok demo_alarm k e" if "map_of (ai_entries demo_alarm) k = Some e" for k e
  proof -
    from that have "k = key_encoding [SInt64 7]" "ae_key e = [SInt64 7]" "ae_row e = [SInt64 7, SBool True, SBool False]" "ae_state e = demo_pending"
      by (auto simp: demo_alarm_def split: if_splits)
    moreover have "ai_policy demo_alarm = demo_policy" "ai_now demo_alarm = 3" "ai_keys demo_alarm = [0]" by (simp_all add: demo_alarm_def)
    ultimately show ?thesis using ok c unfolding alarm_entry_ok_def by (intro conjI exI [of _ True] exI [of _ False]) simp_all
  qed
  have "mirrors (alarm_dl (ai_policy demo_alarm)) (ai_entries demo_alarm) (ai_timers demo_alarm)"
    by (simp add: demo_alarm_def mirrors_def bt_inv_def alarm_dl_def d)
  with cfg e show ?thesis by (simp add: alarm_inv_def) (simp add: demo_alarm_def)
qed

theorem alarm_iot_safe_witness:
  "\<exists>st' s' r. alarm_on_batch demo_row_layout length length
      \<lparr>rb_schema = demo_alarm_schema, rb_rows = [[SInt64 8, SBool True, SBool False]], rb_lease = ai_metadata demo_alarm, rb_origin = origin_missing,
       rb_output = None, rb_source = None\<rparr>
      12 (\<lambda>_. counters_new, demo_alarm) = Some ((st', s'), r) \<and> alarm_inv s'"
  using alarm_iot_safe [OF demo_alarm_inv] by blast

text \<open>C20: A tick drains the alarm operator: two timer calls per key suffice, whatever is due, and if none
  fails the operator then accepts the cut at that time.\<close>

theorem alarm_iot_drain:
  assumes "alarm_inv s" "ai_now s \<le> now" "0 \<le> now" "ai_generation s \<noteq> None"
  shows "\<exists>st' s' r. edrain (2 * length (ai_entries s)) alarm_iot_next_deadline (alarm_take_due L rcap) now (st, s) = Some ((st', s'), r) \<and>
    alarm_inv s' \<and> (\<forall>outs. r = Ok outs \<longrightarrow> alarm_validate_cut now (st', s') = Some ((st', s'\<lparr>ai_now := now\<rparr>), Ok ()))"
proof -
  have "alarm_inv s \<and> ai_generation s = ai_generation s \<and> ai_now s \<le> now \<and> 0 \<le> now" using assms by simp
  then obtain st' s' r where run: "edrain (2 * length (ai_entries s)) alarm_iot_next_deadline (alarm_take_due L rcap) now (st, s) = Some ((st', s'), r)"
    and post: "alarm_inv s' \<and> ai_generation s' = ai_generation s \<and> ai_now s' \<le> now \<and> 0 \<le> now"
      "\<And>outs. r = Ok outs \<Longrightarrow> \<not> overdue (alarm_iot_next_deadline s') now"
    by (rule alarm_due.drains [OF _ alarm_backlog_le]) blast
  have "alarm_validate_cut now (st', s') = Some ((st', s'\<lparr>ai_now := now\<rparr>), Ok ())" if "r = Ok outs" for outs
    using post that assms(4) alarm_clear_next [of s' now] alarm_cut_accepts [of s' now st'] by simp
  with run post(1) show ?thesis by blast
qed

theorem alarm_iot_drain_witness:
  "\<exists>st' s' r. edrain 2 alarm_iot_next_deadline (alarm_take_due demo_row_layout length) 40 (\<lambda>_. counters_new, demo_alarm) = Some ((st', s'), r) \<and> alarm_inv s'"
proof -
  have "2 * length (ai_entries demo_alarm) = 2" "ai_now demo_alarm \<le> 40" "ai_generation demo_alarm \<noteq> None" by (simp_all add: demo_alarm_def)
  then show ?thesis using alarm_iot_drain [OF demo_alarm_inv, of 40] by fastforce
qed

text \<open>C21: Restoring into a fresh alarm operator what a valid one froze gives back an operator that is valid at
  the frozen time, has the same timers and freezes to the same frame; the restore can only fail for want of
  memory, and then leaves the fresh operator untouched.\<close>

theorem alarm_restore_roundtrip:
  assumes "alarm_inv s"
  shows "\<exists>st' s' r. alarm_restore L rcap ecap resident (alarm_freeze s) (st, alarm_blank ow g s) = Some ((st', s'), r) \<and>
    (case r of Inl e \<Rightarrow> s' = alarm_blank ow g s \<and> err_code e = ResourceExhausted
     | Inr _ \<Rightarrow> alarm_freeze s' = alarm_freeze s \<and> ai_timers s' = ai_timers s \<and> alarm_inv (s'\<lparr>ai_now := ai_now s\<rparr>))"
  using op_okE [OF alarm_restore_ok [OF assms] refl] by metis

theorem alarm_restore_roundtrip_witness:
  "\<exists>st' s' r. alarm_restore demo_row_layout length length 100 (alarm_freeze demo_alarm)
     (\<lambda>_. counters_new, alarm_blank demo_owner (replicate 16 2) demo_alarm) = Some ((st', s'), r)"
  using alarm_restore_roundtrip [OF demo_alarm_inv] by blast

end
