(* ===== verification/Alarm_Rows.thy ===== *)
theory Alarm_Rows
  imports Alarm_Iot
begin

text \<open>
  What the alarm operator of \<^verbatim>\<open>sparrow-runtime/src/alarm_iot.rs\<close> emits: a reference that runs one
  alarm machine per key over the rows of a batch, and the lemma that the operator, with its
  retained rows, leases, timers and batch builder, emits exactly the rows of the reference.
\<close>

section \<open>The reference\<close>

definition alarm_states :: "alarm_iot \<Rightarrow> bytes \<Rightarrow> alarm_state option" where
  "alarm_states s enc = map_option ae_state (map_of (ai_entries s) enc)"

definition row_key :: "alarm_iot \<Rightarrow> row \<Rightarrow> bytes" where
  "row_key s row = key_encoding (map (\<lambda>i. row ! i) (ai_keys s))"

definition event_rows :: "alarm_iot \<Rightarrow> row \<Rightarrow> alarm_effects \<Rightarrow> row list" where
  "event_rows s row fx =
     (case (fx_event fx, ai_generation s) of
        (Some ev, Some g) \<Rightarrow>
          [row @ [SUtf8 (event_kind_name (ev_kind ev)), SUtf8 (phase_name (ev_phase ev)), SUtf8 (hex g),
             SUInt64 (ai_operator s), SUInt64 (ev_episode ev), SInt64 (ev_at ev), SBool (ev_notify ev)]]
      | _ \<Rightarrow> [])"

text \<open>The rows of a batch and the alarm of every key afterwards; rows without conditions are passed over.\<close>

fun expected_rows :: "int \<Rightarrow> alarm_iot \<Rightarrow> row list \<Rightarrow> (bytes \<Rightarrow> alarm_state option) \<Rightarrow> row list \<times> (bytes \<Rightarrow> alarm_state option)" where
  "expected_rows now s [] m = ([], m)"
| "expected_rows now s (row # rows) m =
     (case alarm_conditions s row of
        Some (Inr (Some (enter, clear))) \<Rightarrow>
          (case rbind (alarm_new now) (\<lambda>fresh. alarm_observe (ai_policy s) now enter clear
                  (case m (row_key s row) of None \<Rightarrow> fresh | Some a \<Rightarrow> a)) of
             Inl _ \<Rightarrow> ([], m)
           | Inr (a, fx) \<Rightarrow>
               let (out, m') = expected_rows now s rows (m(row_key s row \<mapsto> a)) in (event_rows s row fx @ out, m'))
      | _ \<Rightarrow> expected_rows now s rows m)"

text \<open>The event of the earliest deadline that has come, on the row its alarm was last seen with.\<close>

definition expected_due :: "int \<Rightarrow> alarm_iot \<Rightarrow> row list \<times> (bytes \<Rightarrow> alarm_state option)" where
  "expected_due now s =
     (case first_timer (ai_timers s) of
        None \<Rightarrow> ([], alarm_states s)
      | Some (t, enc) \<Rightarrow>
          if now < t then ([], alarm_states s)
          else case map_of (ai_entries s) enc of
              None \<Rightarrow> ([], alarm_states s)
            | Some e \<Rightarrow>
                (case alarm_due (ai_policy s) now (ae_state e) of
                   Inl _ \<Rightarrow> ([], alarm_states s)
                 | Inr (a, fx) \<Rightarrow> (event_rows s (ae_row e) fx, (alarm_states s)(enc \<mapsto> a))))"

definition emitted :: "row_batch option \<Rightarrow> row list" where
  "emitted out = (case out of None \<Rightarrow> [] | Some b \<Rightarrow> rb_rows b)"

section \<open>The operator follows it\<close>

text \<open>The same operator up to its clock, timers, entries and counters.\<close>

definition alarm_same :: "alarm_iot \<Rightarrow> alarm_iot \<Rightarrow> bool" where
  "alarm_same s s' \<longleftrightarrow> s' = s\<lparr>ai_now := ai_now s', ai_timers := ai_timers s', ai_entries := ai_entries s', ai_stats := ai_stats s'\<rparr>"

lemma alarm_sameD:
  assumes "alarm_same s s'"
  shows "ai_policy s' = ai_policy s" "ai_keys s' = ai_keys s" "ai_generation s' = ai_generation s" "ai_operator s' = ai_operator s"
    "alarm_conditions s' = alarm_conditions s" "ai_output s' = ai_output s" "ai_owner s' = ai_owner s"
  using arg_cong [OF assms [unfolded alarm_same_def], of ai_policy] arg_cong [OF assms [unfolded alarm_same_def], of ai_keys]
    arg_cong [OF assms [unfolded alarm_same_def], of ai_generation] arg_cong [OF assms [unfolded alarm_same_def], of ai_operator]
    arg_cong [OF assms [unfolded alarm_same_def], of alarm_conditions] arg_cong [OF assms [unfolded alarm_same_def], of ai_output]
    arg_cong [OF assms [unfolded alarm_same_def], of ai_owner]
  by simp_all

lemma alarm_same_refl: "alarm_same s s"
  by (simp add: alarm_same_def)

lemma alarm_same_trans: "alarm_same s s1 \<Longrightarrow> alarm_same s1 s2 \<Longrightarrow> alarm_same s s2"
  unfolding alarm_same_def by (cases s; cases s1; cases s2) simp

lemma alarm_same_update [simp]:
  "alarm_same s (s'\<lparr>ai_now := a\<rparr>) = alarm_same s s'" "alarm_same s (s'\<lparr>ai_timers := b\<rparr>) = alarm_same s s'"
  "alarm_same s (s'\<lparr>ai_entries := c\<rparr>) = alarm_same s s'" "alarm_same s (s'\<lparr>ai_stats := d\<rparr>) = alarm_same s s'"
  unfolding alarm_same_def by (cases s; cases s'; simp)+

lemma expected_same: "alarm_same s s' \<Longrightarrow> expected_rows now s' rows m = expected_rows now s rows m"
  by (induction rows arbitrary: m)
    (simp_all add: alarm_sameD row_key_def event_rows_def cong: option.case_cong sum.case_cong)

lemma states_update [simp]:
  "alarm_states (s\<lparr>ai_now := a\<rparr>) = alarm_states s" "alarm_states (s\<lparr>ai_timers := b\<rparr>) = alarm_states s"
  "alarm_states (s\<lparr>ai_stats := d\<rparr>) = alarm_states s" "alarm_states (s\<lparr>ai_entries := bt_put enc e (ai_entries s')\<rparr>) = (alarm_states s')(enc \<mapsto> ae_state e)"
  by (auto simp: alarm_states_def fun_eq_iff)

lemmas eff_Ok = ebind_Ok elift_Ok run_Ok scoped_Ok ewith_builder_Ok

lemma drop_opt_same: "edrop_opt l (st, s) = Some (z, Ok u) \<Longrightarrow> snd z = s"
  by (auto simp: edrop_opt_def edrop_def eret_def split: option.splits)

lemma replace_exact:
  assumes "alarm_replace enc e (st, s) = Some (z, Ok u)"
  shows "alarm_same s (snd z)" "alarm_states (snd z) = (alarm_states s)(enc \<mapsto> ae_state e)"
proof -
  obtain st1 dl before where "edrop_opt (map_option ae_lease (map_of (ai_entries s) enc))
      (st1, s\<lparr>ai_timers := retime enc before dl (ai_timers s), ai_entries := bt_put enc e (ai_entries s)\<rparr>) = Some (z, Ok u)"
    using assms by (auto simp: alarm_replace_def eff_Ok)
  from drop_opt_same [OF this] show "alarm_same s (snd z)" "alarm_states (snd z) = (alarm_states s)(enc \<mapsto> ae_state e)"
    by (simp_all add: alarm_same_refl)
qed

lemma output_row_event: "fx_event fx = Some ev \<Longrightarrow> alarm_output_row s row ev = Ok r \<Longrightarrow> event_rows s row fx = [r]"
  by (auto simp: alarm_output_row_def alarm_generation_def ok_or_def event_rows_def rbind_Inr_iff split: option.splits)

text \<open>What one row adds to the batch and does to the alarms.\<close>

definition follows :: "row list \<Rightarrow> (bytes \<Rightarrow> alarm_state option) \<Rightarrow> alarm_iot \<times> batch_builder \<Rightarrow> alarm_iot \<times> batch_builder \<Rightarrow> bool" where
  "follows out m c c' \<longleftrightarrow> alarm_same (fst c) (fst c') \<and> alarm_states (fst c') = m \<and>
     bb_rows (snd c') = bb_rows (snd c) @ out \<and> bb_schema (snd c') = bb_schema (snd c)"

lemma admit_exact:
  assumes run: "alarm_admit L rcap ecap now row enter clear s (st, s, b) = Some ((st', c'), Ok u)"
  obtains a fx where "rbind (alarm_new now) (\<lambda>fresh. alarm_observe (ai_policy s) now enter clear
      (case alarm_states s (row_key s row) of None \<Rightarrow> fresh | Some a \<Rightarrow> a)) = Inr (a, fx)"
    "follows (event_rows s row fx) ((alarm_states s)(row_key s row \<mapsto> a)) (s, b) c'"
proof -
  let ?enc = "row_key s row" and ?key = "map (\<lambda>i. row ! i) (ai_keys s)"
  have room: "\<not> (map_option ae_state (map_of (ai_entries s) (key_encoding ?key)) = None \<and> length (ai_entries s) \<ge> ai_max s)"
    using run unfolding alarm_admit_def Let_def by (auto simp: eff_Ok)
  from run obtain a fx st1 lease st2 s2 b2 st3 s3 u2 where
    obs: "rbind (alarm_new now) (\<lambda>fresh. alarm_observe (ai_policy s) now enter clear
      (case alarm_states s ?enc of None \<Rightarrow> fresh | Some a \<Rightarrow> a)) = Inr (a, fx)" and
    ev: "(case fx_event fx of None \<Rightarrow> eret () | Some ev \<Rightarrow> ebind (elift (alarm_output_row s row ev)) epush) (st1, s, b) = Some ((st2, s2, b2), Ok u2)" and
    rep: "alarm_replace ?enc \<lparr>ae_key = ?key, ae_row = row, ae_state = a, ae_lease = lease\<rparr> (st2, s2) = Some ((st3, s3), Ok ())" and
    fin: "\<exists>st. c' = (s3\<lparr>ai_stats := st\<rparr>, b2)"
    unfolding alarm_admit_def Let_def row_key_def alarm_states_def if_not_P [OF room]
    by (auto simp: eff_Ok) blast
  have "s2 = s \<and> bb_rows b2 = bb_rows b @ event_rows s row fx \<and> bb_schema b2 = bb_schema b"
  proof (cases "fx_event fx")
    case None
    then show ?thesis using ev by (simp add: eff_Ok event_rows_def)
  next
    case (Some e)
    then show ?thesis using ev output_row_event [OF Some, of s row] by (auto simp: eff_Ok dest!: epush_Ok)
  qed
  then have "follows (event_rows s row fx) ((alarm_states s)(?enc \<mapsto> a)) (s, b) c'"
    using replace_exact [OF rep] fin by (auto simp: follows_def)
  with obs that show thesis by blast
qed

lemma row_exact:
  assumes run: "alarm_row L rcap ecap now row (st, s, b) = Some ((st', c'), Ok u)"
  obtains out m where "follows out m (s, b) c'"
    "\<And>rows. expected_rows now s (row # rows) (alarm_states s) = (out @ fst (expected_rows now s rows m), snd (expected_rows now s rows m))"
proof -
  define s0 where "s0 = s\<lparr>ai_stats := (ai_stats s)\<lparr>st_input := sat_inc (st_input (ai_stats s))\<rparr>\<rparr>"
  have same: "alarm_same s s0" "alarm_states s0 = alarm_states s" by (simp_all add: s0_def alarm_same_refl)
  note d = alarm_sameD [OF same(1)]
  show thesis
  proof (cases "\<exists>ec. alarm_conditions s row = Some (Ok (Some ec))")
    case False
    have "\<exists>u. alarm_conditions s row = Some (Ok u)" using run by (auto simp: alarm_row_def eff_Ok)
    with False have c: "alarm_conditions s row = Some (Ok None)" by (metis option.exhaust)
    then have "follows [] (alarm_states s) (s, b) c'"
      using run unfolding alarm_row_def by (auto simp: eff_Ok follows_def alarm_same_refl)
    then show thesis by (rule that) (simp add: c)
  next
    case True
    then obtain enter clear where c: "alarm_conditions s row = Some (Ok (Some (enter, clear)))" by auto
    obtain st1 st2 where "alarm_admit L rcap ecap now row enter clear s0 (st1, s0, b) = Some ((st2, c'), Ok u)"
      using run c unfolding alarm_row_def by (auto simp: escratch_def eff_Ok s0_def)
    then show thesis
    proof (rule admit_exact)
      fix a fx
      assume obs: "rbind (alarm_new now) (\<lambda>fresh. alarm_observe (ai_policy s0) now enter clear
          (case alarm_states s0 (row_key s0 row) of None \<Rightarrow> fresh | Some a \<Rightarrow> a)) = Inr (a, fx)"
        and f: "follows (event_rows s0 row fx) ((alarm_states s0)(row_key s0 row \<mapsto> a)) (s0, b) c'"
      have k: "row_key s0 row = row_key s row" "event_rows s0 row fx = event_rows s row fx" by (simp_all add: row_key_def event_rows_def d cong: option.case_cong)
      have "follows (event_rows s row fx) ((alarm_states s)(row_key s row \<mapsto> a)) (s, b) c'"
        using f alarm_same_trans [OF same(1)] by (simp add: follows_def k same(2))
      then show thesis by (rule that) (use obs in \<open>simp add: c k same(2) d(1) case_prod_unfold Let_def\<close>)
    qed
  qed
qed

lemma rows_exact:
  assumes "efor (alarm_row L rcap ecap now) rows (st, s, b) = Some ((st', c'), Ok u)"
  shows "follows (fst (expected_rows now s rows (alarm_states s))) (snd (expected_rows now s rows (alarm_states s))) (s, b) c'"
  using assms
proof (induction rows arbitrary: st s b)
  case Nil
  then show ?case by (auto simp: eff_Ok follows_def alarm_same_refl)
next
  case (Cons row rows)
  from Cons.prems obtain st1 s1 b1 where one: "alarm_row L rcap ecap now row (st, s, b) = Some ((st1, s1, b1), Ok ())"
    and rest: "efor (alarm_row L rcap ecap now) rows (st1, s1, b1) = Some ((st', c'), Ok u)" by (auto simp: eff_Ok)
  from one obtain out m where f: "follows out m (s, b) (s1, b1)"
    and exp: "expected_rows now s (row # rows) (alarm_states s) = (out @ fst (expected_rows now s rows m), snd (expected_rows now s rows m))"
    by (rule row_exact) blast
  have same: "alarm_same s s1" "alarm_states s1 = m" using f by (simp_all add: follows_def)
  show ?case using Cons.IH [OF rest] f alarm_same_trans [OF same(1)] unfolding exp expected_same [OF same(1)] same(2)
    by (simp add: follows_def)
qed

lemma batch_exact:
  assumes run: "alarm_on_batch L rcap ecap batch now (st, s) = Some ((st', s'), Ok out)"
  shows "(emitted out, alarm_states s') = expected_rows now s (rb_rows batch) (alarm_states s)" "out = None \<longleftrightarrow> emitted out = []"
proof -
  let ?s = "s\<lparr>ai_now := now\<rparr>"
  from run obtain b0 st1 s1 b1 where new: "builder_new (ai_output s) (ai_owner s) Reservation (max (length (rb_rows batch)) 1)
        (reservation_bytes (owner_budget (ai_owner s))) = Ok b0"
    and loop: "efor (alarm_row L rcap ecap now) (rb_rows batch) (st, ?s, b0) = Some ((st1, s1, b1), Ok ())"
    and fin: "(if bb_rows b1 = [] then eret None
      else ebind (efinish b1) (\<lambda>out. eret (Some (out\<lparr>rb_origin := rb_origin batch, rb_source := rb_source batch\<rparr>)))) (st1, s1)
        = Some ((st', s'), Ok out)"
    unfolding alarm_on_batch_def alarm_set_time_def by (auto simp: eff_Ok split: if_splits)
  have "bb_rows b0 = []" using new by (auto simp: builder_new_def split: if_splits)
  moreover have "expected_rows now ?s = expected_rows now s" using expected_same [of s ?s now] by (simp add: fun_eq_iff alarm_same_refl)
  ultimately have "bb_rows b1 = fst (expected_rows now s (rb_rows batch) (alarm_states s))"
    "alarm_states s1 = snd (expected_rows now s (rb_rows batch) (alarm_states s))"
    using rows_exact [OF loop] by (simp_all add: follows_def)
  moreover have "s' = s1 \<and> emitted out = bb_rows b1 \<and> (out = None \<longleftrightarrow> emitted out = [])"
    using fin by (auto simp: eff_Ok emitted_def split: if_splits dest!: efinish_Ok)
  ultimately show "(emitted out, alarm_states s') = expected_rows now s (rb_rows batch) (alarm_states s)" "out = None \<longleftrightarrow> emitted out = []"
    by simp_all
qed

lemma due_output_exact:
  assumes "alarm_due_output s row fx (st, s2) = Some (z, Ok out)"
  shows "snd z = s2 \<and> emitted out = event_rows s row fx \<and> (out = None \<longleftrightarrow> emitted out = [])"
proof (cases "fx_event fx")
  case None
  then show ?thesis using assms by (auto simp: alarm_due_output_def eff_Ok emitted_def event_rows_def)
next
  case (Some ev)
  from assms obtain b0 r st1 b1 batch st2 where
    new: "builder_new (ai_output s) (ai_owner s) Reservation 1 (reservation_bytes (owner_budget (ai_owner s))) = Ok b0"
    and r: "alarm_output_row s row ev = Ok r" and push: "epush r (st, s2, b0) = Some ((st1, s2, b1), Ok ())"
    and fin: "efinish b1 (st1, s2) = Some ((st2, s2), Ok batch)" "out = Some batch" "z = (st2, s2)"
    by (auto simp: alarm_due_output_def Some eff_Ok dest: epush_Ok efinish_Ok) (metis efinish_Ok epush_Ok prod.inject)
  have "bb_rows b0 = []" using new by (auto simp: builder_new_def split: if_splits)
  then show ?thesis using epush_Ok [OF push] efinish_Ok [OF fin(1)] fin(2,3) output_row_event [OF Some r] by (auto simp: emitted_def)
qed

lemma due_exact:
  assumes run: "alarm_take_due L rcap now (st, s) = Some ((st', s'), Ok out)"
  shows "(emitted out, alarm_states s') = expected_due now s" "out = None \<longleftrightarrow> emitted out = []"
proof -
  let ?s = "s\<lparr>ai_now := now\<rparr>"
  consider (idle) "out = None" "alarm_states s' = alarm_states s" "case first_timer (ai_timers s) of None \<Rightarrow> True | Some (t, enc) \<Rightarrow> now < t"
    | (due) t enc e a fx st1 st2 s2 where "first_timer (ai_timers s) = Some (t, enc)" "t \<le> now" "map_of (ai_entries s) enc = Some e"
        "alarm_due (ai_policy s) now (ae_state e) = Inr (a, fx)" "alarm_due_output ?s (ae_row e) fx (st1, ?s) = Some ((st2, s2), Ok out)"
        "alarm_states s' = (alarm_states s2)(enc \<mapsto> a)"
    using run unfolding alarm_take_due_def alarm_set_time_def
    by (auto simp: eff_Ok escratch_def ok_or_def split: if_splits option.splits prod.splits)
  then have "(emitted out, alarm_states s') = expected_due now s \<and> (out = None \<longleftrightarrow> emitted out = [])"
  proof cases
    case idle
    then show ?thesis by (auto simp: expected_due_def emitted_def split: option.splits prod.splits)
  next
    case (due t enc e a fx st1 st2 s2)
    have "event_rows ?s (ae_row e) fx = event_rows s (ae_row e) fx" by (simp add: event_rows_def cong: option.case_cong)
    then show ?thesis using due_output_exact [OF due(5)] due(1-4,6) by (simp add: expected_due_def)
  qed
  then show "(emitted out, alarm_states s') = expected_due now s" "out = None \<longleftrightarrow> emitted out = []" by simp_all
qed

lemma event_rows_typed:
  assumes "alarm_inv s" "alarm_conditions s row = Some (Ok c)"
  shows "list_all (row_conforms (ai_output s)) (event_rows s row fx)"
proof (cases "fx_event fx")
  case (Some ev)
  show ?thesis
  proof (cases "ai_generation s")
    case (Some g)
    then obtain r where "alarm_output_row s row ev = Ok r" by (simp add: alarm_output_row_def alarm_generation_def ok_or_def)
    then show ?thesis using alarm_output_typed [OF assms] output_row_event [OF \<open>fx_event fx = Some ev\<close>] by simp
  qed (simp add: event_rows_def Some)
qed (simp add: event_rows_def)

lemma expected_rows_typed: "alarm_inv s \<Longrightarrow> list_all (row_conforms (ai_output s)) (fst (expected_rows now s rows m))"
proof (induction rows arbitrary: m)
  case (Cons row rows)
  note ih = Cons.IH [OF Cons.prems] and ev = event_rows_typed [OF Cons.prems]
  show ?case
  proof (cases "\<exists>ec. alarm_conditions s row = Some (Ok (Some ec))")
    case True
    then obtain enter clear where c: "alarm_conditions s row = Some (Ok (Some (enter, clear)))" by auto
    show ?thesis using ih ev [OF c] by (simp add: c case_prod_unfold Let_def split: sum.split)
  next
    case False
    then have "expected_rows now s (row # rows) m = expected_rows now s rows m" by (auto split: option.splits sum.splits)
    then show ?thesis using ih by simp
  qed
qed simp

section \<open>Properties\<close>

text \<open>
  C22: Every row the alarm operator emits is accounted for. A batch that is accepted returns exactly
  the rows of the reference, one alarm machine per key run over the rows in order: for every row
  whose event calls for it the row itself extended by the seven lifecycle columns, no batch when
  there is no event, and the alarm of every key is afterwards what the reference has. Taking a due
  timer returns exactly the event of the earliest deadline on the row its alarm was last seen
  with. All these rows conform, cell by cell, to the output schema the operator announces.
\<close>

theorem alarm_rows_exact:
  assumes inv: "alarm_inv s"
  shows "(\<forall>st' s' out. alarm_on_batch L rcap ecap batch now (st, s) = Some ((st', s'), Ok out) \<longrightarrow>
      (emitted out, alarm_states s') = expected_rows now s (rb_rows batch) (alarm_states s) \<and>
      (out = None \<longleftrightarrow> emitted out = []) \<and> list_all (row_conforms (ai_output s)) (emitted out)) \<and>
    (\<forall>st' s' out. alarm_take_due L rcap now (st, s) = Some ((st', s'), Ok out) \<longrightarrow>
      (emitted out, alarm_states s') = expected_due now s \<and>
      (out = None \<longleftrightarrow> emitted out = []) \<and> list_all (row_conforms (ai_output s)) (emitted out))"
proof -
  have "list_all (row_conforms (ai_output s)) (fst (expected_due now s))"
  proof (cases "\<exists>t enc e. first_timer (ai_timers s) = Some (t, enc) \<and> map_of (ai_entries s) enc = Some e")
    case True
    then obtain t enc e where e: "first_timer (ai_timers s) = Some (t, enc)" "map_of (ai_entries s) enc = Some e" by blast
    then obtain c where "alarm_conditions s (ae_row e) = Some (Ok c)" using inv by (auto simp: alarm_inv_def alarm_entry_ok_def)
    from event_rows_typed [OF inv this] show ?thesis by (simp add: expected_due_def e split: sum.split)
  next
    case False
    then show ?thesis by (auto simp: expected_due_def split: option.split)
  qed
  moreover note batch_exact [of L rcap ecap batch now st s] due_exact [of L rcap now st s] expected_rows_typed [OF inv, of now "rb_rows batch" "alarm_states s"]
  ultimately show ?thesis by (metis fst_conv)
qed

definition demo_active :: alarm_state where
  "demo_active = \<lparr>a_phase = Active, a_since = 13, a_deadline = None, a_episode = 1, a_not_before = 113, a_notification_since = None\<rparr>"

definition demo_fired :: row where
  "demo_fired = [SInt64 7, SBool True, SBool False] @
     [SUtf8 ''activate'', SUtf8 ''active'', SUtf8 (hex (replicate 16 1)), SUInt64 9, SUInt64 1, SInt64 13, SBool True]"

lemma demo_alarm_event:
  "alarm_due demo_policy 13 demo_pending = Inr (demo_active, \<lparr>fx_event = Some \<lparr>ev_kind = Activate, ev_phase = Active, ev_episode = 1, ev_notify = True, ev_at = 13\<rparr>,
     fx_expired = False, fx_cancelled = False\<rparr>)"
  by (simp add: alarm_eval demo_active_def checked_u64_def ok_or_def)

lemma demo_alarm_due: "expected_due 13 demo_alarm = ([demo_fired], (alarm_states demo_alarm)(key_encoding [SInt64 7] \<mapsto> demo_active))"
  using demo_alarm_event by (simp add: expected_due_def demo_alarm_def first_timer_def event_rows_def demo_fired_def)

text \<open>One small batch: both reservations are granted on a fresh owner.\<close>

lemma room_note_peak [simp]: "room k n ow (note_builder_peak m ow' st) = room k n ow st"
  by (simp add: room_def ensure_headroom_def)

lemma single_push_ok:
  assumes conf: "row_conforms sc r" and small: "row_tracked_bytes r \<le> mx" and room: "room Reservation (row_tracked_bytes r) ow st"
    and b: "builder_new sc ow Reservation 1 mx = Ok b0" and u: "is_u64 (row_tracked_bytes r)"
  shows "\<exists>st' b'. epush r (st, s, b0) = Some ((st', s, b'), Ok ()) \<and> bb_lease b' \<noteq> None"
proof -
  let ?n = "row_tracked_bytes r" and ?st = "note_builder_peak (row_tracked_bytes r) ow st"
  have b0: "bb_schema b0 = sc" "bb_rows b0 = []" "bb_max_rows b0 = 1" "bb_max_bytes b0 = mx" "bb_owner b0 = ow" "bb_kind b0 = Reservation"
    "bb_lease b0 = None" "bb_current b0 = 0" using b by (auto simp: builder_new_def split: if_splits)
  have pos: "0 < ?n" using row_tracked_pos [of r] by simp
  then have max1: "max ?n (Suc 0) = ?n" by simp
  have "room Reservation ?n ow ?st" using room by simp
  then obtain st' l where "acquire Reservation ?n ow ?st = Ok (st', l)"
    using acquire_room [OF pos, of Reservation ow ?st] by (cases "acquire Reservation ?n ow ?st") auto
  then have "epush r (st, s, b0) = Some ((st', s, b0\<lparr>bb_lease := Some l, bb_current := ?n, bb_rows := [r]\<rparr>), Ok ())"
    using conf small u max1 by (simp add: epush_def builder_push_def push_accounted_def row_conforms_check b0 Let_def)
  then show ?thesis by auto
qed

lemma demo_fired_small: "row_tracked_bytes demo_fired \<le> 4096"
  by (simp add: demo_fired_def row_tracked_bytes_def tracked_bytes_def hex_def length_concat sum_list_replicate)

lemma demo_alarm_fires:
  "\<exists>st' s' out. alarm_take_due demo_row_layout length 13 (\<lambda>_. counters_new, demo_alarm) = Some ((st', s'), Ok out)"
proof -
  let ?s = "demo_alarm\<lparr>ai_now := 13\<rparr>" and ?row = "[SInt64 7, SBool True, SBool False]" and ?enc = "key_encoding [SInt64 7]"
    and ?ev = "\<lparr>ev_kind = Activate, ev_phase = Active, ev_episode = 1, ev_notify = True, ev_at = 13\<rparr>"
  let ?n = "sat_u64 (sat_u64 (sat_u64 (row_resident_bytes demo_row_layout (length ?row) ?row * 4) + sat_u64 (length ?enc * 4)) + 4096)"
  have n: "0 < ?n" "?n \<le> 8192"
    by (simp_all add: row_resident_bytes_def demo_row_layout_def key_encoding_def resident_heap_bytes_def sat_u64_def)
  have room: "room Reservation (?n + m) demo_owner (\<lambda>_. counters_new)" if "m \<le> 8192" for m
    using n that by (simp add: room_def ensure_headroom_def demo_owner_def counters_new_def budget_compact_def sat_u64_def)
  then obtain st1 l where acq: "acquire Reservation ?n demo_owner (\<lambda>_. counters_new) = Ok (st1, l)"
    using acquire_room [OF n(1), of Reservation demo_owner "\<lambda>_. counters_new"] room [of 0] by (cases "acquire Reservation ?n demo_owner (\<lambda>_. counters_new)") auto
  have wf: "wf_owner demo_owner" by (simp add: demo_owner_def budget_ok_def budget_compact_def)
  have room1: "room Reservation (row_tracked_bytes demo_fired) demo_owner st1"
    using room_acquired [OF wf acq n(1)] room demo_fired_small by simp
  have out: "alarm_output_row ?s ?row ?ev = Ok demo_fired"
    by (simp add: alarm_output_row_def alarm_generation_def demo_alarm_def demo_fired_def)
  have c: "alarm_conditions demo_alarm ?row = Some (Ok (Some (True, False)))"
    by (simp add: alarm_conditions_def demo_alarm_def demo_alarm_schema_def cell_mismatch_def is_null_def matches_type_def nonfinite_def)
  have conf: "row_conforms (ai_output demo_alarm) demo_fired"
    by (rule alarm_output_typed [OF demo_alarm_inv c, of ?ev]) (use out in \<open>simp add: alarm_output_row_def alarm_generation_def\<close>)
  obtain b0 where b0: "builder_new (ai_output demo_alarm) demo_owner Reservation 1 (reservation_bytes (owner_budget demo_owner)) = Ok b0"
    by (simp add: builder_new_def demo_owner_def budget_compact_def)
  have "row_tracked_bytes demo_fired \<le> reservation_bytes (owner_budget demo_owner)" "is_u64 (row_tracked_bytes demo_fired)"
    using demo_fired_small by (simp_all add: demo_owner_def budget_compact_def is_u64_def)
  from single_push_ok [OF conf this(1) room1 b0 this(2), of ?s] obtain st2 b1 lb where push: "epush demo_fired (st1, ?s, b0) = Some ((st2, ?s, b1), Ok ())"
    and lease: "bb_lease b1 = Some lb" by auto
  have sel: "ai_generation demo_alarm = Some (replicate 16 1)" "ai_now demo_alarm = 3" "ai_timers demo_alarm = [((13, ?enc), ())]"
    "map_of (ai_entries demo_alarm) ?enc = Some \<lparr>ae_key = [SInt64 7], ae_row = ?row, ae_state = demo_pending,
       ae_lease = MemoryLease demo_owner (AllocInner 1 3000 Retention 1 None)\<rparr>" "ai_owner demo_alarm = demo_owner" "ai_policy demo_alarm = demo_policy"
    by (simp_all add: demo_alarm_def)
  have fin: "\<exists>st3 batch. efinish b1 (st2, ?s) = Some ((st3, ?s), Ok batch)"
    by (simp add: efinish_def builder_finish_def lease)
  have nxt: "\<exists>d. alarm_next_deadline demo_policy demo_active = Inr d" by (simp add: alarm_eval demo_active_def)
  have "\<exists>st3 batch. alarm_due_output ?s ?row \<lparr>fx_event = Some ?ev, fx_expired = False, fx_cancelled = False\<rparr> (st1, ?s) = Some ((st3, ?s), Ok (Some batch))"
    using b0 out push fin by (auto simp: alarm_due_output_def ebind_def elift_def eret_def ewith_builder_def sel)
  then show ?thesis using acq nxt
    by (auto simp: alarm_take_due_def alarm_generation_def alarm_set_time_def first_timer_def ok_or_def demo_alarm_event ebind_def eget_def elift_def
        eret_def emodify_def escratch_def eacquire_def escoped_def sel)
qed

theorem alarm_rows_exact_witness:
  "\<exists>st' s' out. alarm_take_due demo_row_layout length 13 (\<lambda>_. counters_new, demo_alarm) = Some ((st', s'), Ok out) \<and>
     emitted out = [demo_fired] \<and> alarm_states s' (key_encoding [SInt64 7]) = Some demo_active \<and> row_conforms (ai_output demo_alarm) demo_fired"
proof -
  obtain st' s' out where run: "alarm_take_due demo_row_layout length 13 (\<lambda>_. counters_new, demo_alarm) = Some ((st', s'), Ok out)"
    using demo_alarm_fires by blast
  with alarm_rows_exact [OF demo_alarm_inv, where L = demo_row_layout and rcap = length and now = 13 and st = "\<lambda>_. counters_new"]
  have "(emitted out, alarm_states s') = expected_due 13 demo_alarm" "list_all (row_conforms (ai_output demo_alarm)) (emitted out)" by blast+
  with run show ?thesis by (auto simp: demo_alarm_due)
qed

end
