(* ===== verification/Op_Batch.thy ===== *)
theory Op_Batch
  imports Op_Effects
begin

text \<open>
  Building an output batch on reservation credit: whatever the builder does, the retention
  ledger stays, and a batch that is returned holds exactly the rows that were pushed.
\<close>

definition transient :: "memory_owner \<Rightarrow> batch_builder \<Rightarrow> bool" where
  "transient ow b \<longleftrightarrow> wf_owner ow \<and> bb_owner b = ow \<and> bb_kind b = Reservation \<and>
     (\<forall>l. bb_lease b = Some l \<longrightarrow> lease_ok l \<and> lease_owner l = ow \<and> alloc_kind (lease_alloc l) = Reservation \<and> alloc_handles (lease_alloc l) = 1)"

lemma retention_ledger: "ledger Retention (st' (owner_id ow)) = ledger Retention (st (owner_id ow)) \<Longrightarrow> retention ow st' = retention ow st"
  by (simp add: retention_def)

lemma reservation_grow:
  assumes l: "lease_ok l" "lease_owner l = ow" "alloc_kind (lease_alloc l) = Reservation" "alloc_handles (lease_alloc l) = 1" and wf: "wf_owner ow"
    and g: "grow_to n l st = Ok (st', l')"
  shows "retention ow st' = retention ow st" "lease_ok l'" "lease_owner l' = ow" "alloc_kind (lease_alloc l') = Reservation" "alloc_handles (lease_alloc l') = 1"
proof -
  have "retention ow st' = retention ow st \<and> lease_ok l' \<and> lease_owner l' = ow \<and> alloc_kind (lease_alloc l') = Reservation \<and> alloc_handles (lease_alloc l') = 1"
  proof (cases "alloc_bytes (lease_alloc l) < n")
    case True
    have wf': "wf_owner (lease_owner l)" using wf l by simp
    from grow_spec [OF l(1) wf' g True] l show ?thesis by (auto simp: retention_def draw_def Let_def)
  next
    case False
    then have "grow_to n l st = Ok (st, l)" by (cases "(n, l, st)" rule: grow_to.cases) simp
    with g l show ?thesis by simp
  qed
  then show "retention ow st' = retention ow st" "lease_ok l'" "lease_owner l' = ow" "alloc_kind (lease_alloc l') = Reservation"
    "alloc_handles (lease_alloc l') = 1" by auto
qed

lemma push_transient:
  assumes t: "transient ow b" and p: "push_accounted r m b st = (st', b', res)"
  shows "transient ow b' \<and> retention ow st' = retention ow st \<and> (res = Ok () \<longrightarrow> bb_rows b' = bb_rows b @ [r])"
proof (cases rule: push_cases [of r m b st])
  case (refused e st1)
  with t p show ?thesis by (auto intro: retention_ledger)
next
  case (accepted nx st1 st2 l)
  have b': "st' = st2" "b' = b\<lparr>bb_lease := Some l, bb_current := nx, bb_rows := bb_rows b @ [r]\<rparr>" using accepted(1) p by auto
  have wf: "wf_owner ow" and ow: "bb_owner b = ow" "bb_kind b = Reservation" using t by (simp_all add: transient_def)
  have st1: "retention ow st1 = retention ow st" unfolding accepted(4) by (rule retention_ledger) simp
  show ?thesis
  proof (cases "bb_lease b")
    case None
    with accepted(5) ow have a: "acquire Reservation (max nx 1) ow st1 = Ok (st2, l)" by simp
    note sp = acquire_spec [OF wf a] and keep = reservation_keeps_retention(1) [OF wf a]
    then show ?thesis using b' wf ow st1 by (simp add: transient_def)
  next
    case (Some l0)
    with accepted(5) have g: "grow_to (max nx 1) l0 st1 = Ok (st2, l)" by simp
    have "lease_ok l0" "lease_owner l0 = ow" "alloc_kind (lease_alloc l0) = Reservation" "alloc_handles (lease_alloc l0) = 1"
      using t Some by (simp_all add: transient_def)
    from reservation_grow [OF this wf g] b' wf ow st1 show ?thesis by (simp add: transient_def)
  qed
qed

lemma transient_drop: "transient ow b \<Longrightarrow> retention ow (builder_drop b st) = retention ow st"
  using drop_last_spec by (auto simp: transient_def builder_drop_def retention_def refund_def release_handle_def split: option.splits)

lemma transient_finish:
  assumes t: "transient ow b" and f: "builder_finish b st = Ok (st', batch)"
  shows "retention ow st' = retention ow st \<and> rb_rows batch = bb_rows b"
proof (cases "bb_lease b")
  case None
  have wf: "wf_owner ow" and ow: "bb_owner b = ow" "bb_kind b = Reservation" using t by (simp_all add: transient_def)
  from f None ow obtain l where "acquire Reservation (max (bb_current b) 1) ow st = Ok (st', l)" "rb_rows batch = bb_rows b"
    by (auto simp: builder_finish_def rbind_Inr_iff)
  then show ?thesis using reservation_keeps_retention(1) [OF wf] by blast
next
  case (Some l)
  with f show ?thesis by (auto simp: builder_finish_def)
qed

lemma transient_new: "builder_new sc ow Reservation mr mb = Ok b \<Longrightarrow> wf_owner ow \<Longrightarrow> transient ow b \<and> bb_rows b = []"
  by (auto simp: builder_new_def transient_def split: if_splits)

text \<open>A push function that bills a row by some minimum.\<close>

lemma push_loop:
  assumes push: "\<And>r st s b. f r (st, (s, b)) = (case push_accounted r (mn r) b st of (st', b', res) \<Rightarrow> Some ((st', (s, b')), res))"
    and t: "transient ow b"
  shows "\<exists>st' b' res. efor f rows (st, (s, b)) = Some ((st', (s, b')), res) \<and> transient ow b' \<and> retention ow st' = retention ow st \<and>
    (res = Ok () \<longrightarrow> bb_rows b' = bb_rows b @ rows)"
  using t
proof (induction rows arbitrary: st b)
  case Nil
  then show ?case by (simp add: eret_def)
next
  case (Cons r rows)
  obtain st1 b1 res where p: "push_accounted r (mn r) b st = (st1, b1, res)" by (metis prod_cases3)
  note pt = push_transient [OF Cons.prems p]
  show ?case
  proof (cases res)
    case (Inl e)
    with p pt show ?thesis by (simp add: ebind_def push)
  next
    case (Inr u)
    from Cons.IH [of b1 st1] pt obtain st' b' res' where
      "efor f rows (st1, (s, b1)) = Some ((st', (s, b')), res')" "transient ow b'" "retention ow st' = retention ow st1"
      "res' = Ok () \<longrightarrow> bb_rows b' = bb_rows b1 @ rows" by blast
    with Inr p pt show ?thesis by (simp add: ebind_def push)
  qed
qed

text \<open>A step that builds a batch of the given rows, or fails.\<close>

definition builds :: "memory_owner \<Rightarrow> row list \<Rightarrow> ('s, row_batch option) eff \<Rightarrow> bool" where
  "builds ow rows m \<longleftrightarrow> (\<forall>st s. \<exists>st' r. m (st, s) = Some ((st', s), r) \<and> retention ow st' = retention ow st \<and>
     (\<forall>ob. r = Ok ob \<longrightarrow> map_option rb_rows ob = (if rows = [] then None else Some rows)))"

lemma builds_batch:
  assumes push: "\<And>r st s b. f r (st, ((s :: 's), b)) = (case push_accounted r (mn r) b st of (st', b', res) \<Rightarrow> Some ((st', (s, b')), res))"
    and wf: "wf_owner ow" and rows: "rows \<noteq> []"
  shows "builds ow rows (ebind (elift (builder_new sc ow Reservation mr mb)) (\<lambda>b.
    ebind (ewith_builder b (efor f rows)) (\<lambda>b1. ebind (efinish b1) (\<lambda>batch. eret (Some batch)))))"
  unfolding builds_def
proof (intro allI)
  fix st and s :: 's
  let ?g = "\<lambda>b. ebind (ewith_builder b (efor f rows)) (\<lambda>b1. ebind (efinish b1) (\<lambda>batch. eret (Some batch)))"
  show "\<exists>st' r. ebind (elift (builder_new sc ow Reservation mr mb)) ?g (st, s) = Some ((st', s), r) \<and> retention ow st' = retention ow st \<and>
     (\<forall>ob. r = Ok ob \<longrightarrow> map_option rb_rows ob = (if rows = [] then None else Some rows))"
  proof (cases "builder_new sc ow Reservation mr mb")
    case (Inl e)
    then show ?thesis by (simp add: ebind_def elift_def)
  next
    case (Inr b)
    note t = transient_new [OF Inr wf]
    from push_loop [where f = f and mn = mn, OF push, of ow b rows st s] t obtain st1 b1 res where
      l: "efor f rows (st, (s, b)) = Some ((st1, (s, b1)), res)" "transient ow b1" "retention ow st1 = retention ow st" "res = Ok () \<longrightarrow> bb_rows b1 = rows" by auto
    show ?thesis
    proof (cases res)
      case (Inl e)
      with Inr l transient_drop [OF l(2), of st1] show ?thesis by (simp add: ebind_def elift_def ewith_builder_def)
    next
      case r: (Inr u)
      show ?thesis
      proof (cases "builder_finish b1 st1")
        case (Inl e)
        with Inr l r transient_drop [OF l(2), of st1] show ?thesis by (simp add: ebind_def elift_def ewith_builder_def efinish_def)
      next
        case f: (Inr x)
        obtain st2 batch where x: "x = (st2, batch)" by fastforce
        from transient_finish [OF l(2) f [unfolded x]] Inr l r f x rows show ?thesis
          by (simp add: ebind_def elift_def ewith_builder_def efinish_def eret_def)
      qed
    qed
  qed
qed

end
