(* ===== verification/Window_Spec.thy ===== *)
theory Window_Spec
  imports Window_Kind Watermark Expr_Eval
begin

text \<open>
  The plan's description of a window aggregation (\<^verbatim>\<open>sparrow-plan/src/stateful.rs\<close>): aggregate calls,
  the window specification with its validation, and the schema of the rows a window emits.
\<close>

section \<open>Aggregate calls\<close>

record agg_call =
  ac_func :: agg_fn
  ac_input :: "expr option"
  ac_alias :: string
  ac_count_star :: bool

definition agg_call_new :: "agg_fn \<Rightarrow> expr option \<Rightarrow> string \<Rightarrow> agg_call" where
  "agg_call_new f e alias = \<lparr>ac_func = f, ac_input = e, ac_alias = alias, ac_count_star = (f = AggCount \<and> e = None)\<rparr>"

definition agg_call_count_star :: "string \<Rightarrow> agg_call" where
  "agg_call_count_star alias = \<lparr>ac_func = AggCount, ac_input = None, ac_alias = alias, ac_count_star = True\<rparr>"

definition agg_input_type :: "schema \<Rightarrow> agg_call \<Rightarrow> data_type result" where
  "agg_input_type sc a =
     (if ac_count_star a then Ok TInt64
      else case ac_input a of None \<Rightarrow> Ok TInt64 | Some e \<Rightarrow> infer_type sc e)"

definition agg_result_type :: "schema \<Rightarrow> agg_call \<Rightarrow> data_type result" where
  "agg_result_type sc a =
     (case ac_func a of
        AggCount \<Rightarrow> Ok TInt64
      | AggFirst \<Rightarrow> agg_input_type sc a
      | AggLast \<Rightarrow> agg_input_type sc a
      | AggAvg \<Rightarrow> Ok TFloat64
      | AggSum \<Rightarrow>
          if ac_count_star a \<or> ac_input a = None then Ok TInt64
          else rbind (infer_type sc (the (ac_input a))) (\<lambda>ty.
            if ty \<in> {TInt64, TUInt64, TFloat64, TNull} then Ok ty else Err TypeMismatch)
      | AggMin \<Rightarrow> agg_input_type sc a
      | AggMax \<Rightarrow> agg_input_type sc a
      | _ \<Rightarrow> rbind (agg_input_type sc a) (\<lambda>ty.
          if ty \<in> {TInt64, TUInt64, TFloat64, TNull} then Ok TFloat64 else Err TypeMismatch))"

section \<open>Window specifications\<close>

record window_spec =
  ws_kind :: window_kind
  ws_keys :: "string list"
  ws_aggs :: "agg_call list"
  ws_event_time_field :: "string option"
  ws_lateness :: int
  ws_max_overlap :: nat
  ws_max_future_skew :: "int option"
  ws_max_buffered_rows :: nat

abbreviation default_max_future_skew :: int where "default_max_future_skew \<equiv> 3600000000"

definition has_extended_aggs :: "window_spec \<Rightarrow> bool" where
  "has_extended_aggs sp = list_ex (\<lambda>a. agg_is_extended (ac_func a)) (ws_aggs sp)"

definition window_spec_new :: "window_kind \<Rightarrow> string list \<Rightarrow> agg_call list \<Rightarrow> window_spec" where
  "window_spec_new k keys aggs =
     \<lparr>ws_kind = k, ws_keys = keys, ws_aggs = aggs, ws_event_time_field = None, ws_lateness = 0,
      ws_max_overlap = default_max_hop_overlap, ws_max_future_skew = None, ws_max_buffered_rows = 1024\<rparr>"

definition with_event_time :: "string \<Rightarrow> int \<Rightarrow> window_spec \<Rightarrow> window_spec" where
  "with_event_time f l sp = sp\<lparr>ws_event_time_field := Some f, ws_lateness := l\<rparr>"

definition ws_binding :: "window_spec \<Rightarrow> event_time_binding option" where
  "ws_binding sp =
     map_option (\<lambda>f. \<lparr>et_field = f, out_of_orderness_micros = 0,
         max_future_skew_micros = Some (case ws_max_future_skew sp of None \<Rightarrow> default_max_future_skew | Some s \<Rightarrow> s)\<rparr>)
       (ws_event_time_field sp)"

definition with_max_future_skew :: "int \<Rightarrow> window_spec \<Rightarrow> window_spec" where
  "with_max_future_skew m sp = sp\<lparr>ws_max_future_skew := Some m\<rparr>"

text \<open>The match on the window kind, its results dropped.\<close>

definition validate_kind :: "window_spec \<Rightarrow> unit result" where
  "validate_kind sp =
     (case ws_kind sp of
        TumblingProcessingTime sz \<Rightarrow> if sz \<le> 0 then Err InvalidArgument else Ok ()
      | Count sz \<Rightarrow> if sz = 0 then Err InvalidArgument else Ok ()
      | TumblingEventTime sz \<Rightarrow> if sz \<le> 0 then Err InvalidArgument else Ok ()
      | HoppingEventTime sz slide \<Rightarrow>
          rbind (window_hopping_et sz slide) (\<lambda>_.
          rbind (check_hop_overlap_bound sz slide (ws_max_overlap sp)) (\<lambda>_. Ok ()))
      | HoppingProcessingTime sz slide \<Rightarrow>
          rbind (window_hopping_et sz slide) (\<lambda>_.
          rbind (check_hop_overlap_bound sz slide (ws_max_overlap sp)) (\<lambda>_. Ok ()))
      | SlidingCount sz step \<Rightarrow>
          rbind (window_sliding_count sz step) (\<lambda>_.
            if sz > ws_max_buffered_rows sp then Err BoundExceeded else Ok ())
      | SlidingProcessingTime sz delay \<Rightarrow> rbind (window_sliding sz delay (uses_event_time (ws_kind sp))) (\<lambda>_. Ok ())
      | SlidingEventTime sz delay \<Rightarrow> rbind (window_sliding sz delay (uses_event_time (ws_kind sp))) (\<lambda>_. Ok ())
      | SessionProcessingTime gap mx \<Rightarrow>
          rbind (window_session gap mx (uses_event_time (ws_kind sp))) (\<lambda>_.
            if ws_lateness sp \<noteq> 0 then Err FeatureUnavailable else Ok ())
      | SessionEventTime gap mx \<Rightarrow>
          rbind (window_session gap mx (uses_event_time (ws_kind sp))) (\<lambda>_.
            if ws_lateness sp \<noteq> 0 then Err FeatureUnavailable else Ok ()))"

definition window_validate :: "window_spec \<Rightarrow> unit result" where
  "window_validate sp =
     (if ws_aggs sp = [] then Err InvalidArgument
      else if list_ex (\<lambda>a. agg_is_extended (ac_func a) \<and> (ac_input a = None \<or> ac_count_star a)) (ws_aggs sp) then Err InvalidArgument
      else if ws_lateness sp < 0 then Err InvalidArgument
      else rbind (validate_kind sp) (\<lambda>_.
        if is_buffered (ws_kind sp) \<and> \<not> (1 \<le> ws_max_buffered_rows sp \<and> ws_max_buffered_rows sp \<le> 16384) then Err BoundExceeded
        else if is_buffered (ws_kind sp) \<and> ws_lateness sp \<noteq> 0 then Err FeatureUnavailable
        else if \<not> uses_event_time (ws_kind sp) \<and> (ws_event_time_field sp \<noteq> None \<or> ws_lateness sp > 0) then Err InvalidArgument
        else if uses_event_time (ws_kind sp) \<and> (case ws_event_time_field sp of None \<Rightarrow> True | Some f \<Rightarrow> f = []) then Err InvalidArgument
        else if is_new_window (ws_kind sp)
          then (case ws_binding sp of None \<Rightarrow> Ok () | Some b \<Rightarrow> binding_validate b)
        else Ok ()))"

section \<open>The emitted schema\<close>

text \<open>Field identifiers are a \<open>u16\<close> counter from 1.\<close>

definition key_field :: "schema \<Rightarrow> string \<Rightarrow> (string \<times> data_type \<times> bool) result" where
  "key_field sc k = rbind (ok_or InvalidArgument (field_by_name sc k)) (\<lambda>f. Ok (field_name f, field_type f, field_nullable f))"

definition agg_field :: "schema \<Rightarrow> agg_call \<Rightarrow> (string \<times> data_type \<times> bool) result" where
  "agg_field sc a = rbind (agg_result_type sc a) (\<lambda>ty. Ok (ac_alias a, ty, True))"

fun number_fields :: "nat \<Rightarrow> (string \<times> data_type \<times> bool) list \<Rightarrow> field list" where
  "number_fields i [] = []"
| "number_fields i ((n, t, nl) # cs) = Field i n t nl # number_fields ((i + 1) mod 65536) cs"

definition check_event_time_field :: "schema \<Rightarrow> window_spec \<Rightarrow> unit result" where
  "check_event_time_field sc sp =
     (if is_new_window (ws_kind sp) \<and> uses_event_time (ws_kind sp)
      then rbind (ok_or InvalidArgument (Option.bind (ws_event_time_field sp) (field_by_name sc))) (\<lambda>f.
        if field_type f \<in> {TInt64, TTimestampMicrosUTC} then Ok () else Err TypeMismatch)
      else Ok ())"

definition window_output_schema :: "schema \<Rightarrow> window_spec \<Rightarrow> schema result" where
  "window_output_schema sc sp =
     rbind (check_event_time_field sc sp) (\<lambda>_.
     rbind (map_result (key_field sc) (ws_keys sp)) (\<lambda>ks.
     rbind (map_result (agg_field sc) (ws_aggs sp)) (\<lambda>as.
       schema_new (min (schema_id sc + 50) u32_max) (number_fields 1
         (ks @ [(if is_count (ws_kind sp) then ''count_start'' else ''window_start'', TInt64, False),
                (if is_count (ws_kind sp) then ''count_end'' else ''window_end'', TInt64, False)] @ as)))))"

section \<open>What validation gives\<close>

lemma validated_window:
  assumes "window_validate sp = Ok ()"
  shows "ws_aggs sp \<noteq> []" "0 \<le> ws_lateness sp" "validate_kind sp = Ok ()"
    "uses_event_time (ws_kind sp) \<longleftrightarrow> ws_event_time_field sp \<noteq> None" "ws_event_time_field sp \<noteq> Some []"
    "\<not> uses_event_time (ws_kind sp) \<Longrightarrow> ws_lateness sp = 0"
  using assms unfolding window_validate_def
  by (auto simp: rbind_Inr_iff split: if_splits option.splits)

lemma number_fields_cols [simp]:
  "map field_name (number_fields i cs) = map fst cs"
  "map field_type (number_fields i cs) = map (fst \<circ> snd) cs"
  "map field_nullable (number_fields i cs) = map (snd \<circ> snd) cs"
  "length (number_fields i cs) = length cs"
  by (induction i cs rule: number_fields.induct) auto

end
