(* ===== verification/Window_Op.thy ===== *)
theory Window_Op
  imports Window_Spec Aggregate Timer_Heap Dedup Op_Effects
begin

text \<open>
  The window operator of \<^verbatim>\<open>sparrow-runtime/src/window.rs\<close>: processing-time, count, event-time
  tumbling and hopping windows over keyed state, the index of closable windows, the timer heap
  and the watermark hub. Steps run in the effect type of \<open>Op_Effects\<close>: a panic is \<open>None\<close>, an
  error keeps what was already changed. Type sizes, the capacities of freshly built keys and the
  expression host are the parameter \<open>W\<close>. Sizes of objects that live at the same time are added
  without wrap-around.
\<close>

section \<open>State\<close>

record window_host =
  wh_layout :: key_layout
  wh_row_layout :: row_layout
  wh_size_of_accumulator :: nat
  wh_expr :: host
  wh_caps :: "scalar list \<Rightarrow> nat \<times> nat"

record window_emission =
  finals :: "row list"
  lates :: "row list"
  pending_close :: "int option"
  future_dropped :: nat

definition no_emission :: window_emission where
  "no_emission = \<lparr>finals = [], lates = [], pending_close = None, future_dropped = 0\<rparr>"

record tumble_entry =
  te_start :: int
  te_end :: int
  te_accs :: "accumulator list"

record count_entry =
  ce_count :: nat
  ce_accs :: "accumulator list"

datatype window_store = is_tumble: TumbleStore "tumble_entry memory_state" | CountStore "count_entry memory_state"

text \<open>
  The scratch vector is empty between calls, so only its capacity is kept; the swap with an
  entry's vector leaves one of at least the same capacity.
\<close>

record window_op =
  w_operator :: nat
  w_spec :: window_spec
  w_group_idx :: "nat list"
  w_event_time_idx :: "nat option"
  w_input :: schema
  w_output :: schema
  w_store :: window_store
  w_timers :: bounded_timers
  w_owner :: memory_owner
  w_hub :: watermark_hub
  w_holdback :: "output_holdback option"
  w_default_input :: nat
  w_external :: bool
  w_index :: time_index
  w_bound_aggs :: "bound_expr option list"
  w_variable_accs :: bool
  w_index_bytes :: nat
  w_scratch_cap :: nat
  w_scratch_lease :: "memory_lease option"
  w_clock_high :: int

definition window_slot :: nat where "window_slot = 1"

definition is_hopping_pt :: "window_kind \<Rightarrow> bool" where
  "is_hopping_pt k = (case k of HoppingProcessingTime _ _ \<Rightarrow> True | _ \<Rightarrow> False)"

definition suffixed_key :: "window_op \<Rightarrow> bool" where
  "suffixed_key w \<longleftrightarrow> uses_event_time (ws_kind (w_spec w)) \<or> is_hopping_pt (ws_kind (w_spec w))"

definition variable_accs :: "window_spec \<Rightarrow> bool" where
  "variable_accs sp = list_ex (\<lambda>a. ac_func a \<in> {AggMin, AggMax, AggFirst, AggLast}) (ws_aggs sp)"

definition scratch_bytes :: "window_host \<Rightarrow> window_spec \<Rightarrow> nat" where
  "scratch_bytes W sp = sat_u64 (sat_u64 (length (ws_aggs sp) * wh_size_of_accumulator W) + 64)"

definition bind_agg :: "schema \<Rightarrow> agg_call \<Rightarrow> bound_expr option result" where
  "bind_agg sc a = (case ac_input a of None \<Rightarrow> Ok None | Some e \<Rightarrow> rbind (bind sc e) (\<lambda>b. Ok (Some b)))"

definition event_time_index :: "schema \<Rightarrow> window_spec \<Rightarrow> nat option result" where
  "event_time_index sc sp =
     (case ws_event_time_field sp of
        None \<Rightarrow> Ok None
      | Some n \<Rightarrow> rbind (ok_or InvalidArgument (index_of_name sc n)) (\<lambda>i. Ok (Some i)))"

definition window_store_new :: "window_spec \<Rightarrow> memory_owner \<Rightarrow> nat \<Rightarrow> nat \<Rightarrow> window_store result" where
  "window_store_new sp ow op mk =
     (case ws_kind sp of
        Count _ \<Rightarrow> rbind (ms_new ow op window_slot mk) (\<lambda>s. Ok (CountStore s))
      | _ \<Rightarrow> rbind (ms_new ow op window_slot mk) (\<lambda>s. Ok (TumbleStore s)))"

definition window_hub_new :: "window_spec \<Rightarrow> watermark_hub result" where
  "window_hub_new sp =
     rbind (case ws_binding sp of None \<Rightarrow> Ok hub_new | Some b \<Rightarrow> with_binding b hub_new) (register 0)"

text \<open>An error after the scratch acquisition drops that lease.\<close>

definition window_new :: "window_host \<Rightarrow> nat \<Rightarrow> window_spec \<Rightarrow> schema \<Rightarrow> memory_owner \<Rightarrow> nat \<Rightarrow> nat \<Rightarrow> (unit, window_op) eff" where
  "window_new W op sp input ow mk mt =
     ebind (elift (window_validate sp)) (\<lambda>_.
     if is_buffered (ws_kind sp) then elift (Err FeatureUnavailable) else
     ebind (elift (resolve_keys input (ws_keys sp))) (\<lambda>idx.
     ebind (elift (event_time_index input sp)) (\<lambda>et.
     ebind (elift (window_output_schema input sp)) (\<lambda>out.
     ebind (elift (map_result (bind_agg input) (ws_aggs sp))) (\<lambda>bound.
     ebind (elift (window_store_new sp ow op mk)) (\<lambda>s.
     ebind (elift (window_hub_new sp)) (\<lambda>hub.
     ebind (elift (if uses_event_time (ws_kind sp) then rbind (holdback_new (ws_lateness sp)) (\<lambda>h. Ok (Some h)) else Ok None)) (\<lambda>hb.
     ebind (if variable_accs sp then ebind (eacquire Reservation (scratch_bytes W sp) ow) (\<lambda>l. eret (Some l)) else eret None) (\<lambda>lease.
     eguarded lease (ebind (elift (timers_new op mt)) (\<lambda>timers.
       eret \<lparr>w_operator = op, w_spec = sp, w_group_idx = idx, w_event_time_idx = et, w_input = input, w_output = out,
         w_store = s, w_timers = timers, w_owner = ow, w_hub = hub, w_holdback = hb, w_default_input = 0,
         w_external = False, w_index = [], w_bound_aggs = bound, w_variable_accs = variable_accs sp, w_index_bytes = 0,
         w_scratch_cap = (if variable_accs sp then length (ws_aggs sp) else 0), w_scratch_lease = lease,
         w_clock_high = 0\<rparr>)))))))))))"

section \<open>Accumulators of an entry\<close>

definition empty_accs :: "window_spec \<Rightarrow> schema \<Rightarrow> accumulator list result" where
  "empty_accs sp input =
     map_result (\<lambda>a. rbind (agg_input_type input a) (\<lambda>ty. acc_new (ac_func a) ty (ac_count_star a))) (ws_aggs sp)"

abbreviation value_layout :: "window_host \<Rightarrow> layout" where
  "value_layout W \<equiv> layout.truncate (wh_layout W)"

definition accs_bytes :: "window_host \<Rightarrow> accumulator list \<Rightarrow> nat" where
  "accs_bytes W accs = sum_list (map (acc_tracked_bytes (value_layout W)) accs)"

definition agg_input :: "host \<Rightarrow> bound_expr option list \<Rightarrow> row \<Rightarrow> nat \<Rightarrow> agg_call \<Rightarrow> scalar result" where
  "agg_input H bound r i c =
     (if ac_count_star c then Ok SNull
      else case (if i < length bound then bound ! i else None) of
          Some e \<Rightarrow> eval_bound H r e
        | None \<Rightarrow> Ok SNull)"

text \<open>Accumulators are updated in place: what an error leaves is what was updated before it.\<close>

fun update_accs_from :: "host \<Rightarrow> bound_expr option list \<Rightarrow> row \<Rightarrow> nat \<Rightarrow> agg_call list \<Rightarrow> accumulator list \<Rightarrow>
    accumulator list \<times> unit result" where
  "update_accs_from H bound r i (c # cs) (a # as) =
     (case agg_input H bound r i c of
        Inl e \<Rightarrow> (a # as, Inl e)
      | Inr v \<Rightarrow>
          (case acc_update v a of
             (a1, Inl e) \<Rightarrow> (a1 # as, Inl e)
           | (a1, Inr _) \<Rightarrow> (case update_accs_from H bound r (Suc i) cs as of (as1, res) \<Rightarrow> (a1 # as1, res))))"
| "update_accs_from H bound r i [] as = (as, Ok ())"
| "update_accs_from H bound r i cs [] = ([], Ok ())"

definition update_accs :: "host \<Rightarrow> window_op \<Rightarrow> row \<Rightarrow> accumulator list \<Rightarrow> accumulator list \<times> unit result" where
  "update_accs H w r accs = update_accs_from H (w_bound_aggs w) r 0 (ws_aggs (w_spec w)) accs"

definition update_accs_metered :: "window_host \<Rightarrow> window_op \<Rightarrow> row \<Rightarrow> accumulator list accounted_update" where
  "update_accs_metered W w r accs lease kb st =
     (if length accs \<noteq> length (ws_aggs (w_spec w)) \<or> w_scratch_cap w < length accs then (st, accs, lease, Err CodecViolation)
      else case update_accs (wh_expr W) w r accs of
          (_, Inl e) \<Rightarrow> (st, accs, lease, Inl e)
        | (cand, Inr _) \<Rightarrow>
            (let n = max (sat_u64 (kb + accs_bytes W cand)) 1
             in case grow_to n lease st of
                  Inl e \<Rightarrow> (st, accs, lease, Inl e)
                | Inr (st1, lease1) \<Rightarrow>
                    (case shrink_to n lease1 st1 of
                       Inl e \<Rightarrow> (st1, cand, lease1, Inl e)
                     | Inr (st2, lease2) \<Rightarrow> (st2, cand, lease2, Ok ()))))"

definition emit_tumble :: "scalar list \<Rightarrow> tumble_entry \<Rightarrow> row" where
  "emit_tumble key e = key @ [SInt64 (te_start e), SInt64 (te_end e)] @ map acc_finish (te_accs e)"

definition emit_count :: "scalar list \<Rightarrow> count_entry \<Rightarrow> row" where
  "emit_count key e = key @ [SInt64 0, SInt64 (u64_as_i64 (ce_count e))] @ map acc_finish (ce_accs e)"

definition group_from_et_key :: "scalar list \<Rightarrow> scalar list" where
  "group_from_et_key key = butlast key"

definition window_key :: "window_host \<Rightarrow> window_op \<Rightarrow> scalar list \<Rightarrow> state_key" where
  "window_key W w key = state_key_new (wh_caps W key) (w_operator w) window_slot key"

definition et_state_key :: "window_host \<Rightarrow> window_op \<Rightarrow> scalar list \<Rightarrow> int \<Rightarrow> state_key" where
  "et_state_key W w grp start = window_key W w (grp @ [SInt64 start])"

text \<open>Indexing a row out of range panics.\<close>

definition group_key :: "row \<Rightarrow> (window_op, scalar list) eff" where
  "group_key r = ebind eget (\<lambda>w.
     if list_ex (\<lambda>i. length r \<le> i) (w_group_idx w) then epanic else eret (map (\<lambda>i. r ! i) (w_group_idx w)))"

section \<open>The store, the index and the timers as steps\<close>

definition tumble_get :: "state_key \<Rightarrow> window_op \<Rightarrow> tumble_entry option" where
  "tumble_get k w = (case w_store w of TumbleStore s \<Rightarrow> ms_get k s | CountStore _ \<Rightarrow> None)"

definition count_get :: "state_key \<Rightarrow> window_op \<Rightarrow> count_entry option" where
  "count_get k w = (case w_store w of CountStore s \<Rightarrow> ms_get k s | TumbleStore _ \<Rightarrow> None)"

definition on_tumble :: "(tumble_entry memory_state \<Rightarrow> store \<Rightarrow> (store \<times> tumble_entry memory_state \<times> 'a result) option) \<Rightarrow> 'a \<Rightarrow>
    (window_op, 'a) eff" where
  "on_tumble f dflt = (\<lambda>(st, w).
     case w_store w of
       TumbleStore s \<Rightarrow> map_option (\<lambda>(st', s', r). ((st', w\<lparr>w_store := TumbleStore s'\<rparr>), r)) (f s st)
     | CountStore _ \<Rightarrow> Some ((st, w), Ok dflt))"

definition on_count :: "(count_entry memory_state \<Rightarrow> store \<Rightarrow> (store \<times> count_entry memory_state \<times> 'a result) option) \<Rightarrow> 'a \<Rightarrow>
    (window_op, 'a) eff" where
  "on_count f dflt = (\<lambda>(st, w).
     case w_store w of
       CountStore s \<Rightarrow> map_option (\<lambda>(st', s', r). ((st', w\<lparr>w_store := CountStore s'\<rparr>), r)) (f s st)
     | TumbleStore _ \<Rightarrow> Some ((st, w), Ok dflt))"

definition tumble_remove :: "state_key \<Rightarrow> (window_op, tumble_entry option) eff" where
  "tumble_remove k = on_tumble (\<lambda>s st. map_option (\<lambda>(st', s', r). (st', s', Ok r)) (ms_remove k s st)) None"

definition window_index_insert :: "window_host \<Rightarrow> state_key \<Rightarrow> int \<Rightarrow> (window_op, unit) eff" where
  "window_index_insert W k window_end = (\<lambda>(st, w).
     map_option (\<lambda>(st', ix, r). ((st', w\<lparr>w_index := fst ix, w_index_bytes := snd ix\<rparr>), r))
       (index_insert (wh_layout W) (w_owner w) window_end k (w_index w, w_index_bytes w) st))"

definition window_index_remove :: "state_key \<Rightarrow> int \<Rightarrow> (window_op, unit) eff" where
  "window_index_remove k window_end = (\<lambda>(st, w).
     map_option (\<lambda>(st', ix). ((st', w\<lparr>w_index := fst ix, w_index_bytes := snd ix\<rparr>), Ok ()))
       (index_remove (w_owner w) window_end k (w_index w, w_index_bytes w) st))"

definition schedule_window :: "int \<Rightarrow> (window_op, unit) eff" where
  "schedule_window window_end = (\<lambda>(st, w).
     case schedule (timer_window (w_operator w) window_end) window_end (w_timers w) of
       Inl e \<Rightarrow> Some ((st, w), Inl e)
     | Inr (t, _) \<Rightarrow> Some ((st, w\<lparr>w_timers := t\<rparr>), Ok ()))"

text \<open>Updating an entry: metered when an accumulator may grow, in place otherwise.\<close>

definition tumble_metered :: "window_host \<Rightarrow> window_op \<Rightarrow> row \<Rightarrow> tumble_entry accounted_update" where
  "tumble_metered W w r e lease kb st =
     (case update_accs_metered W w r (te_accs e) lease kb st of (st1, accs, l, res) \<Rightarrow> (st1, e\<lparr>te_accs := accs\<rparr>, l, res))"

definition in_place :: "state_key \<Rightarrow> ('v \<Rightarrow> 'v \<times> unit result) \<Rightarrow> 'v memory_state \<Rightarrow> store \<Rightarrow> (store \<times> 'v memory_state \<times> unit result) option" where
  "in_place k f s st =
     Some (st, ms_get_mut k (\<lambda>v. fst (f v)) s, case ms_get k s of None \<Rightarrow> Ok () | Some v \<Rightarrow> snd (f v))"

definition tumble_in_place :: "window_host \<Rightarrow> window_op \<Rightarrow> row \<Rightarrow> tumble_entry \<Rightarrow> tumble_entry \<times> unit result" where
  "tumble_in_place W w r e = (case update_accs (wh_expr W) w r (te_accs e) of (accs, res) \<Rightarrow> (e\<lparr>te_accs := accs\<rparr>, res))"

definition update_tumble :: "window_host \<Rightarrow> state_key \<Rightarrow> row \<Rightarrow> (window_op, unit) eff" where
  "update_tumble W k r = ebind eget (\<lambda>w.
     if w_variable_accs w then on_tumble (ms_update_accounted k (tumble_metered W w r)) ()
     else on_tumble (in_place k (tumble_in_place W w r)) ())"

text \<open>A new window: its entry, its index entry and, in processing time, its timer.\<close>

definition open_window :: "window_host \<Rightarrow> bool \<Rightarrow> state_key \<Rightarrow> int \<Rightarrow> int \<Rightarrow> (window_op, unit) eff" where
  "open_window W timed k start window_end = ebind eget (\<lambda>w.
     ebind (elift (empty_accs (w_spec w) (w_input w))) (\<lambda>accs.
     ebind (on_tumble (ms_put (wh_layout W) (clone_key k) \<lparr>te_start = start, te_end = window_end, te_accs = accs\<rparr> (accs_bytes W accs)) ()) (\<lambda>_.
     ebind (window_index_insert W k window_end) (\<lambda>_.
       if timed then schedule_window window_end else eret ()))))"

section \<open>Watermarks\<close>

definition drain_watermark :: "(window_op, window_emission) eff" where
  "drain_watermark = ebind eget (\<lambda>w.
     case w_holdback w of
       None \<Rightarrow> eret no_emission
     | Some h \<Rightarrow>
         (case progress (w_hub w) of
            None \<Rightarrow> eret no_emission
          | Some wm_in \<Rightarrow>
              ebind (elift (on_wm_in wm_in h)) (\<lambda>(h1, proposed).
              ebind (emodify (\<lambda>w. w\<lparr>w_holdback := Some h1\<rparr>)) (\<lambda>_.
                eret (case proposed of None \<Rightarrow> no_emission | Some p \<Rightarrow> no_emission\<lparr>pending_close := Some p\<rparr>)))))"

definition advance_holdback :: "int \<Rightarrow> (window_op, unit) eff" where
  "advance_holdback wm = ebind eget (\<lambda>w.
     case w_holdback w of
       None \<Rightarrow> eret ()
     | Some h \<Rightarrow> ebind (elift (advance_out wm h)) (\<lambda>h1. emodify (\<lambda>w. w\<lparr>w_holdback := Some h1\<rparr>)))"

definition on_hub :: "(watermark_hub \<Rightarrow> (watermark_hub \<times> 'a) result) \<Rightarrow> (window_op, unit) eff" where
  "on_hub f = ebind eget (\<lambda>w. ebind (elift (f (w_hub w))) (\<lambda>(h, _). emodify (\<lambda>w. w\<lparr>w_hub := h\<rparr>)))"

definition window_wm_out :: "window_op \<Rightarrow> int option" where
  "window_wm_out w = Option.bind (w_holdback w) hb_wm_out"

definition window_wm_in :: "window_op \<Rightarrow> int option" where
  "window_wm_in w = Option.bind (w_holdback w) hb_wm_in"

definition window_mark_idle :: "nat \<Rightarrow> (window_op, window_emission) eff" where
  "window_mark_idle i = ebind (on_hub (mark_idle i)) (\<lambda>_. drain_watermark)"

definition window_mark_active :: "nat \<Rightarrow> (window_op, window_emission) eff" where
  "window_mark_active i = ebind (on_hub (mark_active i)) (\<lambda>_. drain_watermark)"

definition observe_watermark :: "nat \<Rightarrow> int \<Rightarrow> (window_op, window_emission) eff" where
  "observe_watermark i wm = ebind (on_hub (set_watermark i wm)) (\<lambda>_. drain_watermark)"

definition register_input :: "nat \<Rightarrow> (window_op, unit) eff" where
  "register_input i = on_hub (\<lambda>h. rbind (register i h) (\<lambda>h1. Ok (h1, ())))"

definition finish_input :: "(window_op, window_emission) eff" where
  "finish_input = ebind eget (\<lambda>w.
     ebind (on_hub (mark_active (w_default_input w))) (\<lambda>_.
     ebind (on_hub (set_watermark (w_default_input w) i64_max)) (\<lambda>_. drain_watermark)))"

definition advance_graph_final :: "window_op \<Rightarrow> window_op" where
  "advance_graph_final w = w\<lparr>w_holdback := map_option (holdback_restore (Some i64_max) (Some i64_max)) (w_holdback w)\<rparr>"

section \<open>Ingesting rows\<close>

definition hopping_now :: "int \<Rightarrow> (window_op, int) eff" where
  "hopping_now now = ebind eget (\<lambda>w.
     if now \<ge> 0 \<and> is_hopping_pt (ws_kind (w_spec w))
     then ebind (emodify (\<lambda>w. w\<lparr>w_clock_high := max (w_clock_high w) now\<rparr>)) (\<lambda>_. eret (max (w_clock_high w) now))
     else eret now)"

definition upsert_et_window :: "window_host \<Rightarrow> scalar list \<Rightarrow> int \<Rightarrow> int \<Rightarrow> row \<Rightarrow> (window_op, unit) eff" where
  "upsert_et_window W grp start window_end r = ebind eget (\<lambda>w.
     let k = et_state_key W w grp start
     in ebind (if is_tumble (w_store w) \<and> tumble_get k w = None
               then open_window W (is_hopping_pt (ws_kind (w_spec w))) k start window_end else eret ()) (\<lambda>_.
          update_tumble W k r))"

definition row_event_time :: "row \<Rightarrow> window_op \<Rightarrow> int result" where
  "row_event_time r w =
     rbind (ok_or InvalidArgument (w_event_time_idx w)) (\<lambda>i.
     rbind (ok_or InvalidArgument (if i < length r then Some (r ! i) else None)) (\<lambda>v.
       ok_or TypeMismatch (as_event_time_micros v)))"

definition too_far_ahead :: "window_op \<Rightarrow> int \<Rightarrow> int \<Rightarrow> bool" where
  "too_far_ahead w ts now =
     (case Option.bind (ws_binding (w_spec w)) max_future_skew_micros of
        None \<Rightarrow> False | Some skew \<Rightarrow> ts > sat_i64 (now + skew))"

definition assign_windows :: "window_spec \<Rightarrow> int \<Rightarrow> int \<Rightarrow> int option \<Rightarrow> (int \<times> int) list result" where
  "assign_windows sp ts sz slide =
     (case slide of
        Some sl \<Rightarrow> assign_hop ts sz sl (ws_max_overlap sp)
      | None \<Rightarrow> rbind (assign_tumble ts sz) (\<lambda>x. Ok [x]))"

text \<open>The windows still open at the output watermark read before the row.\<close>

definition open_at :: "int option \<Rightarrow> int \<times> int \<Rightarrow> bool" where
  "open_at wm x = (case wm of None \<Rightarrow> True | Some out \<Rightarrow> \<not> snd x \<le> out)"

text \<open>The loop over the open windows, then the watermark and the late row.\<close>

definition enter_windows :: "window_host \<Rightarrow> row \<Rightarrow> (int \<times> int) list \<Rightarrow> (window_op, window_emission) eff" where
  "enter_windows W r opened =
     ebind (group_key r) (\<lambda>grp.
     ebind (efor (\<lambda>(start, window_end). upsert_et_window W grp start window_end r) opened) (\<lambda>_.
     ebind drain_watermark (\<lambda>out.
       eret (if opened = [] then out\<lparr>lates := lates out @ [r]\<rparr> else out))))"

definition on_et_row :: "window_host \<Rightarrow> row \<Rightarrow> int \<Rightarrow> int \<Rightarrow> int option \<Rightarrow> (window_op, window_emission) eff" where
  "on_et_row W r now sz slide = ebind eget (\<lambda>w0.
     ebind (elift (row_event_time r w0)) (\<lambda>ts.
     if too_far_ahead w0 ts now then eret (no_emission\<lparr>future_dropped := 1\<rparr>)
     else
       ebind (if w_external w0 then eret () else on_hub (observe_event (w_default_input w0) ts now)) (\<lambda>_.
       ebind (elift (assign_windows (w_spec w0) ts sz slide)) (\<lambda>assigned.
         enter_windows W r (filter (open_at (window_wm_out w0)) assigned)))))"

definition rotate_out :: "state_key \<Rightarrow> (window_op, row list) eff" where
  "rotate_out k =
     ebind (tumble_remove k) (\<lambda>old.
       case old of
         None \<Rightarrow> eret []
       | Some e \<Rightarrow> ebind (window_index_remove k (te_end e)) (\<lambda>_. eret [emit_tumble (sk_key k) e]))"

definition on_tumble_row :: "window_host \<Rightarrow> row \<Rightarrow> int \<Rightarrow> int \<Rightarrow> (window_op, row list) eff" where
  "on_tumble_row W r now sz =
     ebind (elift (assign_tumble now sz)) (\<lambda>(start, window_end).
     ebind (group_key r) (\<lambda>key.
     ebind eget (\<lambda>w0.
       let k = window_key W w0 key
       in ebind (case tumble_get k w0 of
                   Some e \<Rightarrow> if te_end e \<le> now \<and> te_start e \<noteq> start then rotate_out k else eret []
                 | None \<Rightarrow> eret []) (\<lambda>out1.
          ebind eget (\<lambda>w1.
          ebind (if is_tumble (w_store w1) \<and> tumble_get k w1 = None
                 then open_window W True k start window_end else eret ()) (\<lambda>_.
          ebind eget (\<lambda>w2.
          ebind (case tumble_get k w2 of
                   Some e \<Rightarrow> if te_start e \<noteq> start
                     then ebind (rotate_out k) (\<lambda>out. ebind (open_window W True k start window_end) (\<lambda>_. eret out))
                     else eret []
                 | None \<Rightarrow> eret []) (\<lambda>out2.
          ebind (update_tumble W k r) (\<lambda>_. eret (out1 @ out2))))))))))"

text \<open>Count windows: the closure counts the row after the update succeeded.\<close>

definition bump :: "count_entry \<times> unit result \<Rightarrow> count_entry \<times> unit result" where
  "bump x = (case x of (e, Inl err) \<Rightarrow> (e, Inl err) | (e, Inr _) \<Rightarrow> (e\<lparr>ce_count := wadd (ce_count e) 1\<rparr>, Ok ()))"

definition count_in_place :: "window_host \<Rightarrow> window_op \<Rightarrow> row \<Rightarrow> count_entry \<Rightarrow> count_entry \<times> unit result" where
  "count_in_place W w r e = bump (case update_accs (wh_expr W) w r (ce_accs e) of (accs, res) \<Rightarrow> (e\<lparr>ce_accs := accs\<rparr>, res))"

definition count_metered :: "window_host \<Rightarrow> window_op \<Rightarrow> row \<Rightarrow> count_entry accounted_update" where
  "count_metered W w r e lease kb st =
     (case update_accs_metered W w r (ce_accs e) lease kb st of (st1, accs, l, res) \<Rightarrow>
        (case bump (e\<lparr>ce_accs := accs\<rparr>, res) of (e1, res1) \<Rightarrow> (st1, e1, l, res1)))"

definition update_count :: "window_host \<Rightarrow> window_op \<Rightarrow> state_key \<Rightarrow> row \<Rightarrow> (window_op, unit) eff" where
  "update_count W w k r =
     (if w_variable_accs w then on_count (ms_update_accounted k (count_metered W w r)) ()
      else on_count (in_place k (count_in_place W w r)) ())"

definition count_remove :: "state_key \<Rightarrow> (window_op, count_entry option) eff" where
  "count_remove k = on_count (\<lambda>s st. map_option (\<lambda>(st', s', r). (st', s', Ok r)) (ms_remove k s st)) None"

text \<open>Emit the window when it has reached its size.\<close>

definition close_count :: "nat \<Rightarrow> state_key \<Rightarrow> (window_op, row list) eff" where
  "close_count sz k = ebind eget (\<lambda>w.
     if (case count_get k w of None \<Rightarrow> 0 | Some e \<Rightarrow> ce_count e) \<ge> sz
     then ebind (count_remove k) (\<lambda>old. eret (case old of None \<Rightarrow> [] | Some e \<Rightarrow> [emit_count (sk_key k) e]))
     else eret [])"

definition on_count_row :: "window_host \<Rightarrow> row \<Rightarrow> nat \<Rightarrow> (window_op, row list) eff" where
  "on_count_row W r sz =
     ebind (group_key r) (\<lambda>key.
     ebind eget (\<lambda>w.
       let k = window_key W w key
       in ebind (if \<not> is_tumble (w_store w) \<and> count_get k w = None
                 then ebind (elift (empty_accs (w_spec w) (w_input w))) (\<lambda>accs.
                   on_count (ms_put (wh_layout W) (clone_key k) \<lparr>ce_count = 0, ce_accs = accs\<rparr> (accs_bytes W accs)) ())
                 else eret ()) (\<lambda>_.
          ebind (update_count W w k r) (\<lambda>_. close_count sz k))))"

definition scratch_again :: "window_host \<Rightarrow> (window_op, unit) eff" where
  "scratch_again W = ebind eget (\<lambda>w.
     if w_variable_accs w \<and> w_scratch_lease w = None
     then ebind (eacquire Reservation (scratch_bytes W (w_spec w)) (w_owner w)) (\<lambda>l.
       emodify (\<lambda>w. w\<lparr>w_scratch_lease := Some l, w_scratch_cap := length (ws_aggs (w_spec w))\<rparr>))
     else eret ())"

text \<open>The match on the window kind, then the row with the clock and the scratch vector in place.\<close>

definition on_row_kind :: "window_host \<Rightarrow> row \<Rightarrow> int \<Rightarrow> (window_op, window_emission) eff" where
  "on_row_kind W r now = ebind eget (\<lambda>w.
     case ws_kind (w_spec w) of
       TumblingProcessingTime sz \<Rightarrow> ebind (on_tumble_row W r now sz) (\<lambda>rows. eret (no_emission\<lparr>finals := rows\<rparr>))
     | Count sz \<Rightarrow> ebind (on_count_row W r sz) (\<lambda>rows. eret (no_emission\<lparr>finals := rows\<rparr>))
     | TumblingEventTime sz \<Rightarrow> on_et_row W r now sz None
     | HoppingEventTime sz slide \<Rightarrow> on_et_row W r now sz (Some slide)
     | HoppingProcessingTime sz slide \<Rightarrow>
         ebind (group_key r) (\<lambda>grp.
         ebind (elift (assign_hop now sz slide (ws_max_overlap (w_spec w)))) (\<lambda>assigned.
         ebind (efor (\<lambda>(start, window_end). upsert_et_window W grp start window_end r) assigned) (\<lambda>_. eret no_emission)))
     | _ \<Rightarrow> elift (Err FeatureUnavailable))"

definition on_row :: "window_host \<Rightarrow> row \<Rightarrow> int \<Rightarrow> (window_op, window_emission) eff" where
  "on_row W r now0 = ebind (hopping_now now0) (\<lambda>now. ebind (scratch_again W) (\<lambda>_. on_row_kind W r now))"

definition merge_emission :: "window_emission \<Rightarrow> window_emission \<Rightarrow> window_emission" where
  "merge_emission out one =
     \<lparr>finals = finals out @ finals one, lates = lates out @ lates one,
      pending_close = (case pending_close one of
          None \<Rightarrow> pending_close out
        | Some wm \<Rightarrow> Some (case pending_close out of None \<Rightarrow> wm | Some p \<Rightarrow> max p wm)),
      future_dropped = sat_u64 (future_dropped out + future_dropped one)\<rparr>"

fun on_rows :: "window_host \<Rightarrow> int \<Rightarrow> row list \<Rightarrow> window_emission \<Rightarrow> (window_op, window_emission) eff" where
  "on_rows W now [] out = eret out"
| "on_rows W now (r # rs) out = ebind (on_row W r now) (\<lambda>one. on_rows W now rs (merge_emission out one))"

definition on_batch_without_timers :: "window_host \<Rightarrow> row list \<Rightarrow> int \<Rightarrow> (window_op, window_emission) eff" where
  "on_batch_without_timers W rows now = on_rows W now rows no_emission"

section \<open>Closing windows\<close>

text \<open>
  Repeat a step until it has nothing more to do. The fuel is the number of index entries plus
  one: every round of the loops below takes one entry out of the index.
\<close>

fun eloop :: "nat \<Rightarrow> ('s, 'a option) eff \<Rightarrow> ('s, 'a list) eff" where
  "eloop 0 m = epanic"
| "eloop (Suc n) m = ebind m (\<lambda>o'. case o' of None \<Rightarrow> eret [] | Some x \<Rightarrow> ebind (eloop n m) (\<lambda>xs. eret (x # xs)))"

definition next_closed_key :: "int \<Rightarrow> window_op \<Rightarrow> state_key option" where
  "next_closed_key wm w = (case w_index w of ((t, _), k) # _ \<Rightarrow> if t \<le> wm then Some k else None | [] \<Rightarrow> None)"

definition emitted_group :: "window_op \<Rightarrow> state_key \<Rightarrow> scalar list" where
  "emitted_group w k = (if suffixed_key w then group_from_et_key (sk_key k) else sk_key k)"

text \<open>Drop every index entry of a key that has no state.\<close>

fun index_drop_key :: "memory_owner \<Rightarrow> key_id \<Rightarrow> ((int \<times> bytes) \<times> state_key) list \<Rightarrow> nat \<Rightarrow> store \<Rightarrow>
    (store \<times> time_index \<times> nat) option" where
  "index_drop_key ow kid [] tot st = Some (st, [], tot)"
| "index_drop_key ow kid ((i, k) # es) tot st =
     (if key_id k \<noteq> kid then map_option (\<lambda>(st', es', tot'). (st', (i, k) # es', tot')) (index_drop_key ow kid es tot st)
      else case replace_accounted_bytes tot (index_bytes k) 0 ow st of
          (_, None) \<Rightarrow> None
        | (st1, Some tot1) \<Rightarrow> index_drop_key ow kid es tot1 (drop_index k st1))"

definition forget_key :: "state_key \<Rightarrow> (window_op, unit) eff" where
  "forget_key k = (\<lambda>(st, w).
     map_option (\<lambda>(st', es, tot). ((st', w\<lparr>w_index := es, w_index_bytes := tot\<rparr>), Ok ()))
       (index_drop_key (w_owner w) (key_id k) (w_index w) (w_index_bytes w) st))"

fun take_closed_loop :: "nat \<Rightarrow> int \<Rightarrow> (window_op, row option) eff" where
  "take_closed_loop 0 wm = epanic"
| "take_closed_loop (Suc n) wm = ebind eget (\<lambda>w.
     case next_closed_key wm w of
       None \<Rightarrow> eret None
     | Some k \<Rightarrow>
         ebind (tumble_remove k) (\<lambda>old.
           case old of
             Some e \<Rightarrow> ebind (window_index_remove k (te_end e)) (\<lambda>_. eret (Some (emit_tumble (emitted_group w k) e)))
           | None \<Rightarrow> ebind (forget_key k) (\<lambda>_. take_closed_loop n wm)))"

definition take_closed_one :: "int \<Rightarrow> (window_op, row option) eff" where
  "take_closed_one wm = ebind eget (\<lambda>w. take_closed_loop (Suc (length (w_index w))) wm)"

definition peek_closed_bytes :: "window_host \<Rightarrow> int \<Rightarrow> window_op \<Rightarrow> nat option" where
  "peek_closed_bytes W wm w =
     Option.bind (next_closed_key wm w) (\<lambda>k. map_option (\<lambda>e. accs_bytes W (te_accs e) + 32) (tumble_get k w))"

fun take_chunk_loop :: "window_host \<Rightarrow> nat \<Rightarrow> int \<Rightarrow> nat \<Rightarrow> nat \<Rightarrow> row list \<Rightarrow> (window_op, row list) eff" where
  "take_chunk_loop W 0 wm mb bs out = eret out"
| "take_chunk_loop W (Suc n) wm mb bs out = ebind eget (\<lambda>w.
     case peek_closed_bytes W wm w of
       None \<Rightarrow> eret out
     | Some sz \<Rightarrow>
         if out \<noteq> [] \<and> sat_u64 (bs + sz) > mb then eret out
         else ebind (take_closed_one wm) (\<lambda>r.
           case r of
             None \<Rightarrow> eret out
           | Some row \<Rightarrow> take_chunk_loop W n wm mb (sat_u64 (bs + row_tracked_bytes row)) (out @ [row])))"

definition take_closed_chunk :: "window_host \<Rightarrow> int \<Rightarrow> nat \<Rightarrow> nat \<Rightarrow> (window_op, row list) eff" where
  "take_closed_chunk W wm mr mb = take_chunk_loop W (max mr 1) wm mb 0 []"

definition materialize_emission :: "window_host \<Rightarrow> window_emission \<Rightarrow> (window_op, window_emission) eff" where
  "materialize_emission W em =
     (case pending_close em of
        None \<Rightarrow> eret em
      | Some wm \<Rightarrow>
          ebind (take_closed_chunk W wm 4096 1048576) (\<lambda>chunk.
          ebind (advance_holdback wm) (\<lambda>_.
            eret (em\<lparr>pending_close := None, finals := finals em @ chunk\<rparr>))))"

text \<open>The prefix of due windows that fits one output chunk: scratch bytes and number of rows.\<close>

definition closed_bytes :: "window_host \<Rightarrow> window_op \<Rightarrow> state_key \<Rightarrow> tumble_entry \<Rightarrow> nat" where
  "closed_bytes W w k e =
     sat_u64 (sat_u64 (sat_u64 (accs_bytes W (te_accs e) + key_tracked_bytes (wh_layout W) k)
       + sat_u64 (length (schema_fields (w_output w)) * 64)) + 128)"

fun count_closed :: "window_host \<Rightarrow> window_op \<Rightarrow> int \<Rightarrow> nat \<Rightarrow> nat \<Rightarrow> time_index \<Rightarrow> nat \<Rightarrow> nat \<Rightarrow> nat \<Rightarrow> (nat \<times> nat) result" where
  "count_closed W w ct mr mb [] work wire n = Ok (work, n)"
| "count_closed W w ct mr mb (((t, _), k) # es) work wire n =
     (if t > ct \<or> n \<ge> max mr 1 then Ok (work, n)
      else case tumble_get k w of
          None \<Rightarrow> Err Internal
        | Some e \<Rightarrow>
            (let b = closed_bytes W w k e
             in if n > 0 \<and> sat_u64 (wire + b) > mb then Ok (work, n)
                else count_closed W w ct mr mb es (sat_u64 (work + sat_u64 (b * 3))) (sat_u64 (wire + b)) (n + 1)))"

text \<open>Emitted rows are vectors of exactly their length.\<close>

definition finish_rows :: "schema \<Rightarrow> row list \<Rightarrow> memory_owner \<Rightarrow> ('s, row_batch option) eff" where
  "finish_rows sc rows ow =
     (if rows = [] then eret None
      else
        ebind (elift (builder_new sc ow Reservation (max (length rows) 1)
                 (min (cap (owner_budget ow) Reservation) (max (sat_u64 (sum_list (map row_tracked_bytes rows) * 2)) 64)))) (\<lambda>b.
        ebind (ewith_builder b (efor epush rows)) (\<lambda>b1.
        ebind (efinish b1) (\<lambda>batch. eret (Some batch)))))"

definition epush_accounted :: "window_host \<Rightarrow> row \<Rightarrow> ('s \<times> batch_builder, unit) eff" where
  "epush_accounted W r = (\<lambda>(st, (s, b)).
     case push_accounted r (sat_u64 (row_resident_bytes (wh_row_layout W) (length r) r + 64)) b st of (st', b', res) \<Rightarrow> Some ((st', (s, b')), res))"

definition finish_rows_metered :: "window_host \<Rightarrow> schema \<Rightarrow> row list \<Rightarrow> memory_owner \<Rightarrow> ('s, row_batch option) eff" where
  "finish_rows_metered W sc rows ow =
     (if rows = [] then eret None
      else
        ebind (elift (builder_new sc ow Reservation (length rows) (reservation_bytes (owner_budget ow)))) (\<lambda>b.
        ebind (ewith_builder b (efor (epush_accounted W) rows)) (\<lambda>b1.
        ebind (efinish b1) (\<lambda>batch. eret (Some batch)))))"

definition build_metered_batch :: "window_host \<Rightarrow> row list \<Rightarrow> (window_op, row_batch option) eff" where
  "build_metered_batch W rows = ebind eget (\<lambda>w. finish_rows_metered W (w_output w) rows (w_owner w))"

definition build_batch :: "row list \<Rightarrow> (window_op, row_batch option) eff" where
  "build_batch rows = ebind eget (\<lambda>w. finish_rows (w_output w) rows (w_owner w))"

definition build_late_batch :: "row list \<Rightarrow> (window_op, row_batch option) eff" where
  "build_late_batch rows = ebind eget (\<lambda>w. finish_rows (w_input w) rows (w_owner w))"

definition take_closed_batch :: "window_host \<Rightarrow> int \<Rightarrow> nat \<Rightarrow> nat \<Rightarrow> (window_op, row_batch option) eff" where
  "take_closed_batch W cut0 mr mb = ebind eget (\<lambda>w.
     let ct = (if is_hopping_pt (ws_kind (w_spec w)) then max cut0 (w_clock_high w) else cut0)
     in ebind (elift (if is_tumble (w_store w) then count_closed W w ct mr mb (w_index w) 0 0 0 else Ok (0, 0))) (\<lambda>(work, n).
          if n = 0 then eret None
          else escratch (sat_u64 (work + 128)) (w_owner w)
            (ebind (take_closed_chunk W ct n mb) (build_metered_batch W))))"

text \<open>Processing time: the timers say which window ends are due.\<close>

definition first_at :: "int \<Rightarrow> time_index \<Rightarrow> state_key option" where
  "first_at t es = (case dropWhile (\<lambda>(i, _). i < (t, [])) es of ((t', _), k) # _ \<Rightarrow> if t' = t then Some k else None | [] \<Rightarrow> None)"

definition flush_step :: "int \<Rightarrow> (window_op, row list option) eff" where
  "flush_step t = ebind eget (\<lambda>w.
     case first_at t (w_index w) of
       None \<Rightarrow> eret None
     | Some k \<Rightarrow>
         ebind (tumble_remove k) (\<lambda>old.
         ebind (window_index_remove k t) (\<lambda>_.
           eret (Some (case old of None \<Rightarrow> [] | Some e \<Rightarrow> [emit_tumble (emitted_group w k) e])))))"

fun flush_tumble_ends :: "int list \<Rightarrow> (window_op, row list) eff" where
  "flush_tumble_ends [] = eret []"
| "flush_tumble_ends (t # ts) = ebind eget (\<lambda>w.
     ebind (eloop (Suc (length (w_index w))) (flush_step t)) (\<lambda>rs.
     ebind (flush_tumble_ends ts) (\<lambda>rest. eret (concat rs @ rest))))"

definition window_fire_due :: "int \<Rightarrow> (window_op, row list) eff" where
  "window_fire_due now0 =
     ebind (hopping_now now0) (\<lambda>now.
     ebind eget (\<lambda>w.
       if uses_event_time (ws_kind (w_spec w)) then eret []
       else let (t, due) = fire_due now (w_timers w)
            in ebind (emodify (\<lambda>w. w\<lparr>w_timers := t\<rparr>)) (\<lambda>_.
                 if due = [] then eret []
                 else flush_tumble_ends (sort (remdups (map (\<lambda>i. u64_as_i64 (t_namespace i)) due))))))"

text \<open>\<open>begin_due\<close> pops every due timer and reports whether there was one.\<close>

definition begin_due :: "int \<Rightarrow> (window_op, bool) eff" where
  "begin_due now0 =
     ebind (hopping_now now0) (\<lambda>now.
     ebind eget (\<lambda>w.
       if uses_event_time (ws_kind (w_spec w)) then eret False
       else let (t, due) = fire_due now (w_timers w)
            in ebind (emodify (\<lambda>w. w\<lparr>w_timers := t\<rparr>)) (\<lambda>_. eret (due \<noteq> []))))"

definition window_on_batch :: "window_host \<Rightarrow> row list \<Rightarrow> int \<Rightarrow> (window_op, window_emission) eff" where
  "window_on_batch W rows now =
     ebind (window_fire_due now) (\<lambda>due.
     ebind (on_batch_without_timers W rows now) (\<lambda>nxt. eret (nxt\<lparr>finals := due @ finals nxt\<rparr>)))"

section \<open>Lifecycle\<close>

definition drop_store :: "window_store \<Rightarrow> store \<Rightarrow> store \<times> window_store" where
  "drop_store ws st =
     (case ws of
        TumbleStore s \<Rightarrow> (case ms_clear s st of (st1, s1) \<Rightarrow> (st1, TumbleStore s1))
      | CountStore s \<Rightarrow> (case ms_clear s st of (st1, s1) \<Rightarrow> (st1, CountStore s1)))"

definition window_cleanup :: "(window_op, unit) eff" where
  "window_cleanup = (\<lambda>(st, w).
     case drop_store (w_store w) st of (st1, s1) \<Rightarrow>
       let st2 = fold (\<lambda>(_, k) st. drop_index k st) (w_index w) st1;
           st3 = (case w_scratch_lease w of None \<Rightarrow> st2 | Some l \<Rightarrow> fst (drop_lease l st2))
       in Some ((st3, w\<lparr>w_store := s1, w_index := [], w_index_bytes := 0, w_timers := cancel_all (w_timers w),
            w_scratch_cap := 0, w_scratch_lease := None\<rparr>), Ok ()))"

definition window_key_count :: "window_op \<Rightarrow> nat" where
  "window_key_count w = (case w_store w of TumbleStore s \<Rightarrow> ms_len s | CountStore s \<Rightarrow> ms_len s)"

definition window_retention_bytes :: "window_op \<Rightarrow> nat" where
  "window_retention_bytes w =
     sat_u64 ((case w_store w of TumbleStore s \<Rightarrow> ms_retained s | CountStore s \<Rightarrow> ms_retained s) + w_index_bytes w)"

end
