(* ===== verification/Window_Inv.thy ===== *)
theory Window_Inv
  imports Window_Op
begin

text \<open>
  The window operator never breaks its accounts: the invariant of its store, closable-window
  index and timers, and what each step does to the abstract contents.
\<close>

section \<open>Metered updates of keyed state\<close>

definition retained_lease :: "memory_owner \<Rightarrow> memory_lease \<Rightarrow> bool" where
  "retained_lease ow l \<longleftrightarrow> lease_ok l \<and> lease_owner l = ow \<and> alloc_kind (lease_alloc l) = Retention \<and> alloc_handles (lease_alloc l) = 1"

text \<open>A change of a lease and of the store that keeps the ledger in step.\<close>

definition lease_change :: "memory_owner \<Rightarrow> memory_lease \<Rightarrow> store \<Rightarrow> memory_lease \<Rightarrow> store \<Rightarrow> bool" where
  "lease_change ow l st l' st' \<longleftrightarrow> retained_lease ow l' \<and>
     retention ow st' + lease_bytes l = retention ow st + lease_bytes l' \<and> retention ow st' \<le> cap (owner_budget ow) Retention"

lemma lease_change_refl: "retained_lease ow l \<Longrightarrow> retention ow st \<le> cap (owner_budget ow) Retention \<Longrightarrow> lease_change ow l st l st"
  by (simp add: lease_change_def)

lemma lease_change_trans: "lease_change ow l st l1 st1 \<Longrightarrow> lease_change ow l1 st1 l2 st2 \<Longrightarrow> lease_change ow l st l2 st2"
  by (auto simp: lease_change_def)

lemma grow_to_stay: "n \<le> alloc_bytes (lease_alloc l) \<Longrightarrow> grow_to n l st = Ok (st, l)"
  by (cases "(n, l, st)" rule: grow_to.cases) simp

lemma shrink_to_stay: "alloc_bytes (lease_alloc l) \<le> n \<Longrightarrow> shrink_to n l st = Ok (st, l)"
  by (cases "(n, l, st)" rule: shrink_to.cases) simp

lemma grow_change:
  assumes l: "retained_lease ow l" and wf: "wf_owner ow" and g: "grow_to n l st = Ok (st', l')"
    and cap: "retention ow st \<le> cap (owner_budget ow) Retention"
  shows "lease_change ow l st l' st'"
proof (cases "n \<le> alloc_bytes (lease_alloc l)")
  case True
  with g l cap show ?thesis by (simp add: grow_to_stay lease_change_refl)
next
  case False
  then have lt: "alloc_bytes (lease_alloc l) < n" by simp
  have l': "lease_ok l" "wf_owner (lease_owner l)" "alloc_kind (lease_alloc l) = Retention" "lease_owner l = ow"
    using l wf by (simp_all add: retained_lease_def)
  note sp = grow_spec [OF l'(1,2) g lt] and led = grow_ledger [OF l'(1,2) g lt]
  have "fits Retention (n - alloc_bytes (lease_alloc l)) st ow" using sp self_lineage l' by metis
  moreover have "cap (owner_budget ow) Retention < u64_max"
    using wf_owner_budget [OF wf] cap_sum [of "owner_budget ow" Retention] by (simp add: budget_ok_def)
  ultimately have "retention ow st + (n - alloc_bytes (lease_alloc l)) \<le> cap (owner_budget ow) Retention"
    by (auto simp: fits_def sat_u64_def retention_def split: if_splits)
  then show ?thesis using sp led lt l' by (auto simp: lease_change_def retained_lease_def retention_def lease_bytes_def)
qed

lemma shrink_change:
  assumes l: "retained_lease ow l" and wf: "wf_owner ow" and g: "shrink_to n l st = Ok (st', l')"
    and cap: "retention ow st \<le> cap (owner_budget ow) Retention" and le: "lease_bytes l \<le> retention ow st"
  shows "lease_change ow l st l' st'"
proof (cases "alloc_bytes (lease_alloc l) \<le> n")
  case True
  with g l cap show ?thesis by (simp add: shrink_to_stay lease_change_refl)
next
  case False
  then have lt: "n < alloc_bytes (lease_alloc l)" by simp
  have l': "lease_ok l" "wf_owner (lease_owner l)" "alloc_kind (lease_alloc l) = Retention" "lease_owner l = ow"
    using l wf by (simp_all add: retained_lease_def)
  note sp = shrink_spec [OF l'(1,2) g lt]
  have "cap (owner_budget ow) Retention < u64_max"
    using wf_owner_budget [OF wf] cap_sum [of "owner_budget ow" Retention] by (simp add: budget_ok_def)
  with sp le lt cap l' show ?thesis
    by (auto simp: lease_change_def retained_lease_def retention_def lease_bytes_def refund_def wsub_le)
qed

lemma ms_update_accounted_spec:
  assumes inv: "ms_inv extra s st" and e: "map_of (ms_entries s) (key_id k) = Some e"
    and f: "f (e_value e) (e_lease e) (e_key_bytes e) st = (st1, v1, l1, r)"
    and ch: "lease_change (ms_owner s) (e_lease e) st l1 st1"
  shows "\<exists>s'. ms_update_accounted k f s st = Some (st1, s', r) \<and> ms_inv extra s' st1 \<and>
    map_of (ms_entries s') = (map_of (ms_entries s))(key_id k \<mapsto> e\<lparr>e_value := v1, e_lease := l1\<rparr>) \<and>
    ms_owner s' = ms_owner s \<and> ms_operator s' = ms_operator s \<and> ms_slot s' = ms_slot s \<and> ms_max_keys s' = ms_max_keys s"
proof -
  note eok = ms_inv_entry [OF inv e]
  let ?tot = "ms_retained s - lease_bytes (e_lease e) + lease_bytes l1"
  have cover: "ms_retained s + extra \<le> retention (ms_owner s) st" using inv by (simp add: ms_inv_def)
  have ret: "retention (ms_owner s) st1 + lease_bytes (e_lease e) = retention (ms_owner s) st + lease_bytes l1"
    "retention (ms_owner s) st1 \<le> cap (owner_budget (ms_owner s)) Retention" using ch by (simp_all add: lease_change_def)
  have wf: "wf_owner (ms_owner s)" using inv by (simp add: ms_inv_def)
  have "retention (ms_owner s) st1 < u64_max"
    using ret(2) wf_owner_budget [OF wf] cap_sum [of "owner_budget (ms_owner s)" Retention] by (simp add: budget_ok_def)
  then have "?tot \<le> u64_max" using cover ret(1) eok(2) by linarith
  then have rep: "replace_accounted_bytes (ms_retained s) (lease_bytes (e_lease e)) (lease_bytes l1) (ms_owner s) st1 = (st1, Some ?tot)"
    using replace_ok [of "lease_bytes (e_lease e)" "ms_retained s"] eok(2) by simp
  let ?e = "e\<lparr>e_value := v1, e_lease := l1\<rparr>"
  have "entry_ok s (key_id k) ?e" using eok(1) ch by (simp add: entry_ok_def lease_change_def retained_lease_def)
  then have "ms_inv extra (s\<lparr>ms_entries := hm_put (key_id k) ?e (ms_entries s), ms_retained := ?tot\<rparr>) st1"
    using ret e by (intro ms_inv_put [OF inv, of "Some e"]) simp_all
  then show ?thesis using e f rep by (auto simp: ms_update_accounted_def)
qed

lemma ms_put_outcome:
  assumes inv: "ms_inv extra s st"
  obtains st' s' r where "ms_put L k v vb s st = Some (st', s', r)" "ms_inv extra s' st'"
    "ms_owner s' = ms_owner s" "ms_operator s' = ms_operator s" "ms_slot s' = ms_slot s"
    "(\<exists>x. r = Inl x) \<and> st' = st \<and> s' = s \<or>
     r = Ok () \<and> (\<exists>e. map_of (ms_entries s') = (map_of (ms_entries s))(key_id k \<mapsto> e) \<and> e_value e = v)"
proof -
  from ms_put_spec [OF inv, of L k v vb] obtain st' s' r where r: "ms_put L k v vb s st = Some (st', s', r)" "ms_inv extra s' st'"
    "ms_owner s' = ms_owner s" "ms_operator s' = ms_operator s" "ms_slot s' = ms_slot s"
    "case r of Inl e \<Rightarrow> st' = st \<and> s' = s
     | Inr _ \<Rightarrow> sk_operator k = ms_operator s \<and> sk_slot k = ms_slot s \<and>
         (\<exists>e. map_of (ms_entries s') = (map_of (ms_entries s))(key_id k \<mapsto> e) \<and> e_value e = v) \<and>
         retention (ms_owner s) st' + ms_retained s = retention (ms_owner s) st + ms_retained s'" by blast
  have "(\<exists>x. r = Inl x) \<and> st' = st \<and> s' = s \<or>
     r = Ok () \<and> (\<exists>e. map_of (ms_entries s') = (map_of (ms_entries s))(key_id k \<mapsto> e) \<and> e_value e = v)"
    using r(6) by (cases r) simp_all
  with r(1-5) show thesis by (rule that)
qed

lemma ebind_step:
  "m w = Some (w', Inr x) \<Longrightarrow> ebind m f w = f x w'" "m w = Some (w', Inl e) \<Longrightarrow> ebind m f w = Some (w', Inl e)"
  by (simp_all add: ebind_def)

lemma ebind_get [simp]: "ebind eget f (st, s) = f s (st, s)"
  by (simp add: ebind_def eget_def)

lemma ebind_lift [simp]: "ebind (elift (Inr x)) f = f x" "ebind (elift (Inl e)) g = elift (Inl e)"
  by (simp_all add: ebind_def elift_def fun_eq_iff)

lemma run_pure [simp]: "elift r w = Some (w, r)" "eret x v = Some (v, Ok x)"
  by (simp_all add: elift_def eret_def)

lemma ebind_modify [simp]: "ebind (emodify g) f (st, s) = f () (st, g s)"
  by (simp add: ebind_def emodify_def)

section \<open>The invariant\<close>

text \<open>The windows an operator holds, by encoded key, and the counts of a count window.\<close>

definition windows :: "window_op \<Rightarrow> bytes \<Rightarrow> tumble_entry option" where
  "windows w enc = (case w_store w of
     TumbleStore s \<Rightarrow> map_option e_value (map_of (ms_entries s) (w_operator w, window_slot, enc)) | CountStore _ \<Rightarrow> None)"

definition counts :: "window_op \<Rightarrow> bytes \<Rightarrow> count_entry option" where
  "counts w enc = (case w_store w of
     CountStore s \<Rightarrow> map_option e_value (map_of (ms_entries s) (w_operator w, window_slot, enc)) | TumbleStore _ \<Rightarrow> None)"

definition own_key :: "window_op \<Rightarrow> state_key \<Rightarrow> bool" where
  "own_key w k \<longleftrightarrow> sk_operator k = w_operator w \<and> sk_slot k = window_slot \<and> sk_encoded k = key_encoding (sk_key k)"

definition store_ok :: "window_op \<Rightarrow> store \<Rightarrow> bool" where
  "store_ok w st = (case w_store w of
     TumbleStore s \<Rightarrow> index_inv te_end window_slot (w_operator w) (w_owner w) (w_index w, w_index_bytes w) s st
   | CountStore s \<Rightarrow> ms_inv 0 s st \<and> ms_owner s = w_owner w \<and> ms_operator s = w_operator w \<and> ms_slot s = window_slot \<and>
       w_index w = [] \<and> w_index_bytes w = 0)"

text \<open>Every timer is the timer of the window end at which it fires.\<close>

definition timers_ok :: "nat \<Rightarrow> bounded_timers \<Rightarrow> bool" where
  "timers_ok op t \<longleftrightarrow> (timers_inv t \<and> is_u64 (bt_max t) \<and> bt_operator t = op) \<and> (\<forall>i at. pending_at t i = Some at \<longrightarrow> is_i64 at \<and> i = timer_window op at)"

definition window_inv :: "store \<Rightarrow> window_op \<Rightarrow> bool" where
  "window_inv st w \<longleftrightarrow> store_ok w st \<and> timers_ok (w_operator w) (w_timers w) \<and>
     (\<forall>enc e. windows w enc = Some e \<longrightarrow> is_i64 (te_end e)) \<and> list_all (\<lambda>x. own_key w (snd x)) (w_index w) \<and>
     (\<forall>l. w_scratch_lease w = Some l \<longrightarrow> (\<forall>st. retention (w_owner w) (fst (drop_lease l st)) = retention (w_owner w) st))"

text \<open>Every window is indexed; in processing time every window has its timer.\<close>

definition all_indexed :: "window_op \<Rightarrow> bool" where
  "all_indexed w = (case w_store w of
     TumbleStore s \<Rightarrow> index_covers te_end window_slot (w_operator w) (w_index w) s | CountStore _ \<Rightarrow> True)"

definition all_timed :: "window_op \<Rightarrow> bool" where
  "all_timed w \<longleftrightarrow> (\<forall>enc e. windows w enc = Some e \<longrightarrow>
     pending_at (w_timers w) (timer_window (w_operator w) (te_end e)) = Some (te_end e))"

lemma contents_frame [simp]:
  "windows (w\<lparr>w_timers := t\<rparr>) = windows w" "windows (w\<lparr>w_hub := h\<rparr>) = windows w" "windows (w\<lparr>w_holdback := hb\<rparr>) = windows w"
  "windows (w\<lparr>w_index := ix\<rparr>) = windows w" "windows (w\<lparr>w_index_bytes := n\<rparr>) = windows w" "windows (w\<lparr>w_clock_high := c\<rparr>) = windows w"
  "windows (w\<lparr>w_scratch_cap := sc\<rparr>) = windows w" "windows (w\<lparr>w_scratch_lease := sl\<rparr>) = windows w"
  "counts (w\<lparr>w_timers := t\<rparr>) = counts w" "counts (w\<lparr>w_hub := h\<rparr>) = counts w" "counts (w\<lparr>w_holdback := hb\<rparr>) = counts w"
  "counts (w\<lparr>w_index := ix\<rparr>) = counts w" "counts (w\<lparr>w_index_bytes := n\<rparr>) = counts w" "counts (w\<lparr>w_clock_high := c\<rparr>) = counts w"
  "counts (w\<lparr>w_scratch_cap := sc\<rparr>) = counts w" "counts (w\<lparr>w_scratch_lease := sl\<rparr>) = counts w"
  by (simp_all add: windows_def counts_def fun_eq_iff split: window_store.splits)

lemma invariant_frame [simp]:
  "own_key (w\<lparr>w_timers := t\<rparr>) = own_key w" "own_key (w\<lparr>w_hub := h\<rparr>) = own_key w" "own_key (w\<lparr>w_holdback := hb\<rparr>) = own_key w"
  "own_key (w\<lparr>w_clock_high := c\<rparr>) = own_key w" "own_key (w\<lparr>w_scratch_cap := sc\<rparr>) = own_key w" "own_key (w\<lparr>w_scratch_lease := sl\<rparr>) = own_key w"
  "own_key (w\<lparr>w_store := ws\<rparr>) = own_key w" "own_key (w\<lparr>w_index := ix\<rparr>) = own_key w" "own_key (w\<lparr>w_index_bytes := n\<rparr>) = own_key w"
  "store_ok (w\<lparr>w_timers := t\<rparr>) = store_ok w" "store_ok (w\<lparr>w_hub := h\<rparr>) = store_ok w" "store_ok (w\<lparr>w_holdback := hb\<rparr>) = store_ok w"
  "store_ok (w\<lparr>w_clock_high := c\<rparr>) = store_ok w" "store_ok (w\<lparr>w_scratch_cap := sc\<rparr>) = store_ok w"
  "store_ok (w\<lparr>w_scratch_lease := sl\<rparr>) = store_ok w"
  "all_indexed (w\<lparr>w_timers := t\<rparr>) = all_indexed w" "all_indexed (w\<lparr>w_hub := h\<rparr>) = all_indexed w"
  "all_indexed (w\<lparr>w_holdback := hb\<rparr>) = all_indexed w" "all_indexed (w\<lparr>w_clock_high := c\<rparr>) = all_indexed w"
  "all_indexed (w\<lparr>w_scratch_cap := sc\<rparr>) = all_indexed w" "all_indexed (w\<lparr>w_scratch_lease := sl\<rparr>) = all_indexed w"
  by (simp_all add: own_key_def store_ok_def all_indexed_def fun_eq_iff split: window_store.splits)

lemma window_inv_frame [simp]:
  "window_inv st (w\<lparr>w_hub := h\<rparr>) = window_inv st w" "window_inv st (w\<lparr>w_holdback := hb\<rparr>) = window_inv st w"
  "window_inv st (w\<lparr>w_clock_high := c\<rparr>) = window_inv st w" "window_inv st (w\<lparr>w_scratch_cap := sc\<rparr>) = window_inv st w"
  by (simp_all add: window_inv_def)

text \<open>What the steps on the store leave alone.\<close>

definition base :: "window_op \<Rightarrow> window_op" where
  "base w = w\<lparr>w_store := CountStore undefined, w_timers := undefined, w_index := [], w_index_bytes := 0\<rparr>"

lemma base_update [simp]:
  "base (w\<lparr>w_store := s\<rparr>) = base w" "base (w\<lparr>w_timers := t\<rparr>) = base w" "base (w\<lparr>w_index := i\<rparr>) = base w"
  "base (w\<lparr>w_index_bytes := n\<rparr>) = base w"
  by (simp_all add: base_def)

lemma baseD:
  assumes "base w' = base w"
  shows "w_operator w' = w_operator w" "w_spec w' = w_spec w" "w_group_idx w' = w_group_idx w" "w_event_time_idx w' = w_event_time_idx w"
    "w_input w' = w_input w" "w_output w' = w_output w" "w_owner w' = w_owner w" "w_hub w' = w_hub w" "w_holdback w' = w_holdback w"
    "w_default_input w' = w_default_input w" "w_external w' = w_external w" "w_bound_aggs w' = w_bound_aggs w"
    "w_variable_accs w' = w_variable_accs w" "w_scratch_cap w' = w_scratch_cap w" "w_scratch_lease w' = w_scratch_lease w"
    "w_clock_high w' = w_clock_high w"
proof -
  show "w_operator w' = w_operator w" "w_spec w' = w_spec w" "w_group_idx w' = w_group_idx w" "w_event_time_idx w' = w_event_time_idx w"
    "w_input w' = w_input w" "w_output w' = w_output w" "w_owner w' = w_owner w" "w_hub w' = w_hub w" "w_holdback w' = w_holdback w"
    "w_default_input w' = w_default_input w" "w_external w' = w_external w" "w_bound_aggs w' = w_bound_aggs w"
    "w_variable_accs w' = w_variable_accs w" "w_scratch_cap w' = w_scratch_cap w" "w_scratch_lease w' = w_scratch_lease w"
    "w_clock_high w' = w_clock_high w"
    using arg_cong [OF assms, of w_operator] arg_cong [OF assms, of w_spec] arg_cong [OF assms, of w_group_idx]
      arg_cong [OF assms, of w_event_time_idx] arg_cong [OF assms, of w_input] arg_cong [OF assms, of w_output]
      arg_cong [OF assms, of w_owner] arg_cong [OF assms, of w_hub] arg_cong [OF assms, of w_holdback]
      arg_cong [OF assms, of w_default_input] arg_cong [OF assms, of w_external] arg_cong [OF assms, of w_bound_aggs]
      arg_cong [OF assms, of w_variable_accs] arg_cong [OF assms, of w_scratch_cap] arg_cong [OF assms, of w_scratch_lease]
      arg_cong [OF assms, of w_clock_high]
    by (simp_all add: base_def)
qed

text \<open>What no step changes after construction.\<close>

definition cfg :: "window_op \<Rightarrow> window_op" where
  "cfg w = (base w)\<lparr>w_hub := hub_new, w_holdback := None, w_scratch_cap := 0, w_scratch_lease := None, w_clock_high := 0\<rparr>"

lemma cfg_update [simp]:
  "cfg (w\<lparr>w_store := s\<rparr>) = cfg w" "cfg (w\<lparr>w_timers := t\<rparr>) = cfg w" "cfg (w\<lparr>w_index := i\<rparr>) = cfg w"
  "cfg (w\<lparr>w_index_bytes := n\<rparr>) = cfg w" "cfg (w\<lparr>w_hub := h\<rparr>) = cfg w" "cfg (w\<lparr>w_holdback := hb\<rparr>) = cfg w"
  "cfg (w\<lparr>w_scratch_cap := c\<rparr>) = cfg w" "cfg (w\<lparr>w_scratch_lease := l\<rparr>) = cfg w" "cfg (w\<lparr>w_clock_high := m\<rparr>) = cfg w"
  by (simp_all add: cfg_def base_def)

lemma base_cfg: "base w' = base w \<Longrightarrow> cfg w' = cfg w"
  by (simp add: cfg_def)

lemma cfgD:
  assumes "cfg w' = cfg w"
  shows "w_operator w' = w_operator w" "w_spec w' = w_spec w" "w_group_idx w' = w_group_idx w" "w_event_time_idx w' = w_event_time_idx w"
    "w_input w' = w_input w" "w_output w' = w_output w" "w_owner w' = w_owner w"
    "w_default_input w' = w_default_input w" "w_external w' = w_external w" "w_bound_aggs w' = w_bound_aggs w"
    "w_variable_accs w' = w_variable_accs w"
  using arg_cong [OF assms, of w_operator] arg_cong [OF assms, of w_spec] arg_cong [OF assms, of w_group_idx]
    arg_cong [OF assms, of w_event_time_idx] arg_cong [OF assms, of w_input] arg_cong [OF assms, of w_output]
    arg_cong [OF assms, of w_owner] arg_cong [OF assms, of w_default_input] arg_cong [OF assms, of w_external]
    arg_cong [OF assms, of w_bound_aggs] arg_cong [OF assms, of w_variable_accs]
  by (simp_all add: cfg_def base_def)

lemma index_inv_retention:
  "index_inv due slot op ow ix s st \<Longrightarrow> retention ow st' = retention ow st \<Longrightarrow> index_inv due slot op ow ix s st'"
  by (auto simp: index_inv_def ms_inv_def)

lemma window_inv_retention:
  assumes "window_inv st w" "retention (w_owner w) st' = retention (w_owner w) st"
  shows "window_inv st' w"
  using assms index_inv_retention
  by (fastforce simp: window_inv_def store_ok_def ms_inv_def split: window_store.splits)

lemma window_inv_wf: "window_inv st w \<Longrightarrow> wf_owner (w_owner w)"
  by (auto simp: window_inv_def store_ok_def index_inv_def ms_inv_def split: window_store.splits)

text \<open>A step on the tumble store that keeps the index agreeing with it.\<close>

lemma window_inv_tumble:
  assumes inv: "window_inv st w" and ix: "index_inv te_end window_slot (w_operator w) (w_owner w) ix s' st'"
    and names: "list_all (\<lambda>x. own_key w (snd x)) (fst ix)"
    and ends: "\<And>enc e. map_of (ms_entries s') (w_operator w, window_slot, enc) = Some e \<Longrightarrow> is_i64 (te_end (e_value e))"
  shows "window_inv st' (w\<lparr>w_store := TumbleStore s', w_index := fst ix, w_index_bytes := snd ix\<rparr>)"
  using assms by (auto simp: window_inv_def store_ok_def windows_def)

lemma index_names: "window_inv st w \<Longrightarrow> list_all (\<lambda>x. own_key w (snd x)) (w_index w)"
  by (simp add: window_inv_def)

lemma windows_ends:
  assumes "window_inv st w" "w_store w = TumbleStore s" "map_of (ms_entries s) (w_operator w, window_slot, enc) = Some e"
  shows "is_i64 (te_end (e_value e))"
  using assms by (auto simp: window_inv_def windows_def)

section \<open>Opening a window\<close>

lemma own_key_id: "own_key w k \<Longrightarrow> key_id k = (w_operator w, window_slot, sk_encoded k)"
  by (simp add: own_key_def key_id_def)

lemma own_window_key [simp]: "own_key w (window_key W w key)" "own_key w (et_state_key W w grp start)"
  "sk_encoded (window_key W w key) = key_encoding key" "sk_key (window_key W w key) = key"
  by (simp_all add: own_key_def window_key_def et_state_key_def state_key_new_def)

lemma tumble_get_windows: "own_key w k \<Longrightarrow> tumble_get k w = windows w (sk_encoded k)"
  by (auto simp: tumble_get_def windows_def ms_get_def own_key_id split: window_store.splits)

lemma count_get_counts: "own_key w k \<Longrightarrow> count_get k w = counts w (sk_encoded k)"
  by (auto simp: count_get_def counts_def ms_get_def own_key_id split: window_store.splits)

lemma timer_window_inject: "is_i64 a \<Longrightarrow> is_i64 b \<Longrightarrow> timer_window op a = timer_window op b \<longleftrightarrow> a = b"
  by (metis timer_id.ext_inject timer_window_def u64_as_i64_as_u64)

lemma windows_upd: "w_store w = TumbleStore s \<Longrightarrow> w_operator w' = w_operator w \<Longrightarrow> w_store w' = TumbleStore s' \<Longrightarrow>
   map_of (ms_entries s') = (map_of (ms_entries s))((w_operator w, window_slot, enc) := eo) \<Longrightarrow>
   windows w' = (windows w)(enc := map_option e_value eo)"
  by (auto simp: windows_def fun_eq_iff)

lemma schedule_window_ok:
  assumes inv: "window_inv st w" and i: "is_i64 e"
  shows "\<exists>w' r. schedule_window e (st, w) = Some ((st, w'), r) \<and> window_inv st w' \<and> w' = w\<lparr>w_timers := w_timers w'\<rparr> \<and>
    (r = Ok () \<longrightarrow> pending_at (w_timers w') = (pending_at (w_timers w))(timer_window (w_operator w) e \<mapsto> e))"
proof (cases "schedule (timer_window (w_operator w) e) e (w_timers w)")
  case (Inl x)
  then show ?thesis using inv by (auto simp: schedule_window_def)
next
  case (Inr x)
  obtain t g where x: "x = (t, g)" by fastforce
  have "timers_inv (w_timers w) \<and> is_u64 (bt_max (w_timers w))" using inv by (simp add: window_inv_def timers_ok_def)
  from schedule_spec [OF this Inr [unfolded x]] have t: "timers_inv t \<and> is_u64 (bt_max t)"
    "pending_at t = (pending_at (w_timers w))(timer_window (w_operator w) e \<mapsto> e)" by auto
  then have "timers_ok (w_operator w) t"
    using inv i schedule_operator [OF Inr [unfolded x]] by (auto simp: window_inv_def timers_ok_def split: if_splits)
  then have "window_inv st (w\<lparr>w_timers := t\<rparr>)" using inv by (simp add: window_inv_def)
  then show ?thesis using Inr x t by (auto simp: schedule_window_def)
qed

lemma all_timed_put:
  assumes "all_timed w" "\<And>enc e. windows w enc = Some e \<Longrightarrow> is_i64 (te_end e)" "is_i64 (te_end v)"
    "windows w' = (windows w)(enc \<mapsto> v)" "w_operator w' = w_operator w"
    "pending_at (w_timers w') = (pending_at (w_timers w))(timer_window (w_operator w) (te_end v) \<mapsto> te_end v)"
  shows "all_timed w'"
  unfolding all_timed_def
proof (intro allI impI)
  fix enc' e assume e: "windows w' enc' = Some e"
  show "pending_at (w_timers w') (timer_window (w_operator w') (te_end e)) = Some (te_end e)"
  proof (cases "enc' = enc")
    case True
    with e assms show ?thesis by simp
  next
    case False
    with e assms(4) have "windows w enc' = Some e" by simp
    with assms(1,2) have "is_i64 (te_end e)" "pending_at (w_timers w) (timer_window (w_operator w) (te_end e)) = Some (te_end e)"
      by (auto simp: all_timed_def)
    with assms(3,5,6) show ?thesis by (auto simp: timer_window_inject)
  qed
qed

text \<open>The outcome of adding a window: the store as before, or the window added.\<close>

definition opened :: "bool \<Rightarrow> bytes \<Rightarrow> tumble_entry \<Rightarrow> window_op \<Rightarrow> window_op \<Rightarrow> bool" where
  "opened timed enc v w0 w \<longleftrightarrow> windows w = (windows w0)(enc \<mapsto> v) \<and> (all_indexed w0 \<longrightarrow> all_indexed w) \<and>
     (if timed then all_timed w0 \<longrightarrow> all_timed w else w_timers w = w_timers w0)"

lemma put_index_ok:
  assumes inv: "window_inv st w0" and s: "w_store w0 = TumbleStore s" and key: "own_key w0 k"
    and fresh: "windows w0 (sk_encoded k) = None" and v: "is_i64 (te_end v)"
  shows "\<exists>st' w' r. ebind (on_tumble (ms_put (wh_layout W) (clone_key k) v vb) ()) (\<lambda>_. window_index_insert W k (te_end v)) (st, w0)
      = Some ((st', w'), r) \<and> window_inv st' w' \<and> base w' = base w0 \<and> is_tumble (w_store w') \<and> w_timers w' = w_timers w0 \<and>
    (r = Ok () \<longrightarrow> windows w' = (windows w0)(sk_encoded k \<mapsto> v) \<and> (all_indexed w0 \<longrightarrow> all_indexed w'))"
proof -
  let ?ix = "(w_index w0, w_index_bytes w0)" and ?op = "w_operator w0" and ?ow = "w_owner w0" and ?enc = "sk_encoded k"
  have ii: "index_inv te_end window_slot ?op ?ow ?ix s st" using inv s by (simp add: window_inv_def store_ok_def)
  then have ms: "ms_inv (snd ?ix) s st" "ms_owner s = ?ow" "ms_operator s = ?op" "ms_slot s = window_slot" by (simp_all add: index_inv_def)
  have nf: "map_of (ms_entries s) (?op, window_slot, ?enc) = None" using fresh s by (simp add: windows_def)
  obtain st1 s1 r1 where
    put: "ms_put (wh_layout W) (clone_key k) v vb s st = Some (st1, s1, r1)" and
    s1: "ms_inv (snd ?ix) s1 st1" "ms_owner s1 = ?ow" "ms_operator s1 = ?op" "ms_slot s1 = window_slot" and
    post: "(\<exists>x. r1 = Inl x) \<and> st1 = st \<and> s1 = s \<or>
      r1 = Ok () \<and> (\<exists>e. map_of (ms_entries s1) = (map_of (ms_entries s))(key_id (clone_key k) \<mapsto> e) \<and> e_value e = v)"
    by (rule ms_put_outcome [OF ms(1), of "wh_layout W" "clone_key k" v vb]) (use ms in auto)
  show ?thesis
  proof (cases r1)
    case (Inl x)
    then have "w0\<lparr>w_store := TumbleStore s1\<rparr> = w0" using post s by simp
    then have "on_tumble (ms_put (wh_layout W) (clone_key k) v vb) () (st, w0) = Some ((st, w0), Inl x)"
      using put Inl post s by (simp add: on_tumble_def)
    then show ?thesis using inv s by (simp add: ebind_step)
  next
    case (Inr u)
    with post own_key_id [OF key] obtain e where e: "map_of (ms_entries s1) = (map_of (ms_entries s))((?op, window_slot, ?enc) \<mapsto> e)" "e_value e = v"
      by auto
    have ends: "is_i64 (te_end (e_value x))" if "map_of (ms_entries s1) (?op, window_slot, enc') = Some x" for enc' x
      using that e v windows_ends [OF inv s, of enc' x] by (auto simp: e(1) split: if_splits)
    have run: "ebind (on_tumble (ms_put (wh_layout W) (clone_key k) v vb) ()) (\<lambda>_. window_index_insert W k (te_end v)) (st, w0)
        = window_index_insert W k (te_end v) (st1, w0\<lparr>w_store := TumbleStore s1\<rparr>)"
      using put Inr s by (intro ebind_step(1)) (simp add: on_tumble_def)
    have op: "sk_operator k = ?op" "sk_slot k = window_slot" using key by (simp_all add: own_key_def)
    from index_add [OF ii op nf s1(1) e(1) s1(2-4), of "wh_layout W"] show ?thesis
    proof (elim disjE exE conjE)
      fix x assume x: "index_insert (wh_layout W) ?ow (te_end (e_value e)) k ?ix st1 = Some (st1, ?ix, Inl x)"
        "index_inv te_end window_slot ?op ?ow ?ix s1 st1"
      have "window_inv st1 (w0\<lparr>w_store := TumbleStore s1\<rparr>)" using window_inv_tumble [OF inv x(2) _ ends] index_names [OF inv] by simp
      then show ?thesis using x(1) run e(2) by (simp add: window_index_insert_def)
    next
      fix st2 ix2 sk1 assume x: "index_insert (wh_layout W) ?ow (te_end (e_value e)) k ?ix st1 = Some (st2, ix2, Ok ())"
        "index_inv te_end window_slot ?op ?ow ix2 s1 st2" "fst ix2 = bt_put (te_end (e_value e), ?enc) sk1 (fst ?ix)"
        "key_id sk1 = key_id k" "sk_key sk1 = sk_key k"
      let ?w = "w0\<lparr>w_store := TumbleStore s1, w_index := fst ix2, w_index_bytes := snd ix2\<rparr>"
      have "own_key w0 sk1" using x(4,5) key by (simp add: own_key_def key_id_def)
      then have "list_all (\<lambda>x. own_key w0 (snd x)) (fst ix2)"
        using index_names [OF inv] x(3) by (auto simp: list_all_iff dest!: set_bt_put)
      from window_inv_tumble [OF inv x(2) this ends] have "window_inv st2 ?w" .
      moreover have "windows ?w = (windows w0)(?enc \<mapsto> v)" using windows_upd [OF s, of ?w s1 ?enc "Some e"] e by simp
      moreover have "all_indexed w0 \<longrightarrow> all_indexed ?w"
        using index_covers_put [OF _ e(1), of te_end "w_index w0" sk1] x(3) s by (simp add: all_indexed_def)
      ultimately show ?thesis using x(1) run e(2) by (simp add: window_index_insert_def)
    qed
  qed
qed

lemma open_window_ok:
  assumes inv: "window_inv st w0" and tum: "is_tumble (w_store w0)" and key: "own_key w0 k"
    and fresh: "windows w0 (sk_encoded k) = None" and i: "is_i64 window_end"
  shows "\<exists>st' w' r. open_window W timed k start window_end (st, w0) = Some ((st', w'), r) \<and> window_inv st' w' \<and> base w' = base w0 \<and>
    is_tumble (w_store w') \<and> (r = Ok () \<longrightarrow> (\<exists>accs. empty_accs (w_spec w0) (w_input w0) = Ok accs \<and>
      opened timed (sk_encoded k) \<lparr>te_start = start, te_end = window_end, te_accs = accs\<rparr> w0 w'))"
proof (cases "empty_accs (w_spec w0) (w_input w0)")
  case (Inl x)
  then show ?thesis using inv tum by (simp add: open_window_def)
next
  case (Inr accs)
  let ?v = "\<lparr>te_start = start, te_end = window_end, te_accs = accs\<rparr>"
  obtain s where s: "w_store w0 = TumbleStore s" using tum by (cases "w_store w0") auto
  let ?m = "ebind (on_tumble (ms_put (wh_layout W) (clone_key k) ?v (accs_bytes W accs)) ()) (\<lambda>_. window_index_insert W k (te_end ?v))"
  have run: "open_window W timed k start window_end (st, w0) =
      ebind ?m (\<lambda>_. if timed then schedule_window window_end else eret ()) (st, w0)"
    using Inr by (simp add: open_window_def ebind_assoc)
  from put_index_ok [OF inv s key fresh, of ?v W "accs_bytes W accs"] i obtain st1 w1 r1 where
    m: "?m (st, w0) = Some ((st1, w1), r1)" "window_inv st1 w1" "base w1 = base w0" "is_tumble (w_store w1)" "w_timers w1 = w_timers w0"
      "r1 = Ok () \<longrightarrow> windows w1 = (windows w0)(sk_encoded k \<mapsto> ?v) \<and> (all_indexed w0 \<longrightarrow> all_indexed w1)" by auto
  show ?thesis
  proof (cases r1)
    case (Inl x)
    then show ?thesis using m(2-4) unfolding run ebind_step(2) [of ?m, OF m(1) [unfolded Inl]] by simp
  next
    case r1: (Inr u)
    show ?thesis
    proof (cases timed)
      case False
      with m r1 Inr show ?thesis unfolding run ebind_step(1) [of ?m, OF m(1) [unfolded r1]] by (simp add: opened_def)
    next
      case True
      from schedule_window_ok [OF m(2) i] obtain w2 r2 where t:
        "schedule_window window_end (st1, w1) = Some ((st1, w2), r2)" "window_inv st1 w2" "w2 = w1\<lparr>w_timers := w_timers w2\<rparr>"
        "r2 = Ok () \<longrightarrow> pending_at (w_timers w2) = (pending_at (w_timers w1))(timer_window (w_operator w1) window_end \<mapsto> window_end)" by blast
      have wins: "windows w2 = (windows w0)(sk_encoded k \<mapsto> ?v)" "all_indexed w0 \<longrightarrow> all_indexed w2"
        using m(6) r1 arg_cong [OF t(3), of windows] arg_cong [OF t(3), of all_indexed] by simp_all
      have base2: "base w2 = base w0" using arg_cong [OF t(3), of base] m(3) by simp
      have "all_timed w0 \<longrightarrow> all_timed w2" if "r2 = Ok ()"
        using all_timed_put [of w0 ?v w2 "sk_encoded k"] inv i wins that t(4) m(5) baseD(1) [OF m(3)] baseD(1) [OF base2] by (simp add: window_inv_def)
      moreover have "is_tumble (w_store w2)" using m(4) arg_cong [OF t(3), of w_store] by simp
      ultimately show ?thesis using True t(1,2) wins Inr base2 unfolding run ebind_step(1) [of ?m, OF m(1) [unfolded r1]] by (simp add: opened_def)
    qed
  qed
qed

section \<open>Updating and removing a window\<close>

lemma metered_change:
  assumes "update_accs_metered W w r accs l kb st = (st1, accs1, l1, res)" "retained_lease ow l" "wf_owner ow"
    and "retention ow st \<le> cap (owner_budget ow) Retention" "lease_bytes l \<le> retention ow st"
  shows "lease_change ow l st l1 st1" "res = Ok () \<Longrightarrow> update_accs (wh_expr W) w r accs = (accs1, Ok ())"
proof -
  let ?bad = "length accs \<noteq> length (ws_aggs (w_spec w)) \<or> w_scratch_cap w < length accs"
  obtain cand ru where u: "update_accs (wh_expr W) w r accs = (cand, ru)" by fastforce
  let ?n = "max (sat_u64 (kb + accs_bytes W cand)) 1"
  have refl: "lease_change ow l st l st" using assms by (simp add: lease_change_refl)
  consider "st1 = st" "l1 = l" "\<exists>x. res = Inl x"
    | st2 l2 where "grow_to ?n l st = Ok (st2, l2)" "ru = Ok ()" "accs1 = cand"
        "st1 = st2 \<and> l1 = l2 \<and> (\<exists>x. res = Inl x) \<or> shrink_to ?n l2 st2 = Ok (st1, l1) \<and> res = Ok ()"
    using assms(1) u unfolding update_accs_metered_def
    by (cases ?bad; cases ru; cases "grow_to ?n l st") (auto simp: Let_def split: sum.splits prod.splits)
  then have "lease_change ow l st l1 st1 \<and> (res = Ok () \<longrightarrow> update_accs (wh_expr W) w r accs = (accs1, Ok ()))"
  proof cases
    case 1
    with refl show ?thesis by auto
  next
    case 2
    note g = grow_change [OF assms(2,3) 2(1) assms(4)]
    have l2: "retained_lease ow l2" "retention ow st2 \<le> cap (owner_budget ow) Retention" "lease_bytes l2 \<le> retention ow st2"
      using g assms(5) by (auto simp: lease_change_def)
    from 2(4) have "lease_change ow l st l1 st1"
      using g shrink_change [OF l2(1) assms(3) _ l2(2,3)] lease_change_trans [OF g] by auto
    with 2 u show ?thesis by simp
  qed
  then show "lease_change ow l st l1 st1" "res = Ok () \<Longrightarrow> update_accs (wh_expr W) w r accs = (accs1, Ok ())" by auto
qed

lemma index_inv_value:
  assumes ii: "index_inv due slot op ow ix s st" and e: "map_of (ms_entries s) (op, slot, enc) = Some e" "due (e_value e') = due (e_value e)"
    and s': "ms_inv (snd ix) s' st'" "map_of (ms_entries s') = (map_of (ms_entries s))((op, slot, enc) \<mapsto> e')"
      "ms_owner s' = ow" "ms_operator s' = op" "ms_slot s' = slot"
  shows "index_inv due slot op ow ix s' st'" "index_covers due slot op (fst ix) s \<Longrightarrow> index_covers due slot op (fst ix) s'"
proof -
  have "index_points due slot op (fst ix) s'"
    using ii e s'(2) unfolding index_inv_def index_points_def by (metis fun_upd_apply option.inject)
  then show "index_inv due slot op ow ix s' st'" using ii s' by (simp add: index_inv_def)
  show "index_covers due slot op (fst ix) s \<Longrightarrow> index_covers due slot op (fst ix) s'"
    using e s'(2) unfolding index_covers_def by (metis fun_upd_apply option.inject)
qed

text \<open>What an update of one window's accumulators leaves, also when it fails.\<close>

definition revalued :: "bytes \<Rightarrow> tumble_entry \<Rightarrow> accumulator list \<Rightarrow> window_op \<Rightarrow> window_op \<Rightarrow> bool" where
  "revalued enc e accs w0 w \<longleftrightarrow> windows w = (windows w0)(enc \<mapsto> e\<lparr>te_accs := accs\<rparr>) \<and> base w = base w0 \<and>
     w_timers w = w_timers w0 \<and> is_tumble (w_store w) \<and> (all_indexed w0 \<longrightarrow> all_indexed w)"

lemma revalue_ok:
  assumes inv: "window_inv st w0" and s: "w_store w0 = TumbleStore s" and e: "map_of (ms_entries s) (w_operator w0, window_slot, enc) = Some e"
    and s': "ms_inv (w_index_bytes w0) s' st'" "ms_owner s' = ms_owner s" "ms_operator s' = ms_operator s" "ms_slot s' = ms_slot s"
      "map_of (ms_entries s') = (map_of (ms_entries s))((w_operator w0, window_slot, enc) \<mapsto> e')"
    and v: "e_value e' = (e_value e)\<lparr>te_accs := accs\<rparr>"
  shows "window_inv st' (w0\<lparr>w_store := TumbleStore s'\<rparr>) \<and> revalued enc (e_value e) accs w0 (w0\<lparr>w_store := TumbleStore s'\<rparr>)"
proof -
  let ?ix = "(w_index w0, w_index_bytes w0)" and ?w = "w0\<lparr>w_store := TumbleStore s'\<rparr>"
  have ii: "index_inv te_end window_slot (w_operator w0) (w_owner w0) ?ix s st" using inv s by (simp add: window_inv_def store_ok_def)
  then have ms: "ms_owner s = w_owner w0" "ms_operator s = w_operator w0" "ms_slot s = window_slot" by (simp_all add: index_inv_def)
  have due: "te_end (e_value e') = te_end (e_value e)" by (simp add: v)
  note iv = index_inv_value [OF ii e due _ s'(5)] 
  have ii': "index_inv te_end window_slot (w_operator w0) (w_owner w0) ?ix s' st'" using iv(1) s' ms by simp
  have "is_i64 (te_end (e_value x))" if "map_of (ms_entries s') (w_operator w0, window_slot, enc') = Some x" for enc' x
    using that windows_ends [OF inv s, of enc' x] windows_ends [OF inv s e] due by (auto simp: s'(5) split: if_splits)
  then have "window_inv st' ?w" using window_inv_tumble [OF inv ii'] index_names [OF inv] by simp
  moreover have "windows ?w = (windows w0)(enc \<mapsto> (e_value e)\<lparr>te_accs := accs\<rparr>)"
    using windows_upd [OF s, of ?w s' enc "Some e'"] s'(5) v by simp
  moreover have "all_indexed w0 \<longrightarrow> all_indexed ?w" using iv(2) s' ms s by (simp add: all_indexed_def)
  ultimately show ?thesis by (simp add: revalued_def)
qed

lemma update_tumble_ok:
  assumes inv: "window_inv st w0" and key: "own_key w0 k" and w: "windows w0 (sk_encoded k) = Some v"
  shows "\<exists>st' w' res accs. update_tumble W k r (st, w0) = Some ((st', w'), res) \<and> window_inv st' w' \<and>
    revalued (sk_encoded k) v accs w0 w' \<and> (res = Ok () \<longrightarrow> update_accs (wh_expr W) w0 r (te_accs v) = (accs, Ok ()))"
proof -
  obtain s e where s: "w_store w0 = TumbleStore s" and e: "map_of (ms_entries s) (w_operator w0, window_slot, sk_encoded k) = Some e" "e_value e = v"
    using w by (auto simp: windows_def split: window_store.splits)
  have ms: "ms_inv (w_index_bytes w0) s st" using inv s by (simp add: window_inv_def store_ok_def index_inv_def)
  have ek: "map_of (ms_entries s) (key_id k) = Some e" using e own_key_id [OF key] by simp
  show ?thesis
  proof (cases "w_variable_accs w0")
    case True
    obtain st1 accs l1 res where u: "update_accs_metered W w0 r (te_accs v) (e_lease e) (e_key_bytes e) st = (st1, accs, l1, res)"
      by (metis prod_cases4)
    have ow: "retained_lease (ms_owner s) (e_lease e)" "wf_owner (ms_owner s)" "retention (ms_owner s) st \<le> cap (owner_budget (ms_owner s)) Retention"
      "lease_bytes (e_lease e) \<le> retention (ms_owner s) st"
      using ms_inv_entry [OF ms ek] ms by (auto simp: ms_inv_def entry_ok_def retained_lease_def)
    note ch = metered_change [OF u ow]
    have f: "tumble_metered W w0 r (e_value e) (e_lease e) (e_key_bytes e) st = (st1, v\<lparr>te_accs := accs\<rparr>, l1, res)"
      using u e(2) by (simp add: tumble_metered_def)
    from ms_update_accounted_spec [where f = "tumble_metered W w0 r", OF ms ek f ch(1)] obtain s' where
      s': "ms_update_accounted k (tumble_metered W w0 r) s st = Some (st1, s', res)" "ms_inv (w_index_bytes w0) s' st1"
        "map_of (ms_entries s') = (map_of (ms_entries s))(key_id k \<mapsto> e\<lparr>e_value := v\<lparr>te_accs := accs\<rparr>, e_lease := l1\<rparr>)"
        "ms_owner s' = ms_owner s" "ms_operator s' = ms_operator s" "ms_slot s' = ms_slot s" by blast
    have "update_tumble W k r (st, w0) = Some ((st1, w0\<lparr>w_store := TumbleStore s'\<rparr>), res)"
      using True s s'(1) by (simp add: update_tumble_def on_tumble_def)
    with revalue_ok [OF inv s e(1) s'(2,4-6), of "e\<lparr>e_value := v\<lparr>te_accs := accs\<rparr>, e_lease := l1\<rparr>" accs] s'(3) own_key_id [OF key] e(2) ch(2)
    show ?thesis by auto
  next
    case False
    obtain accs res where u: "update_accs (wh_expr W) w0 r (te_accs v) = (accs, res)" by fastforce
    let ?f = "\<lambda>v. fst (tumble_in_place W w0 r v)"
    let ?s = "ms_get_mut k ?f s" and ?e = "e\<lparr>e_value := v\<lparr>te_accs := accs\<rparr>\<rparr>"
    have "?s = s\<lparr>ms_entries := hm_put (key_id k) ?e (ms_entries s)\<rparr>" using ek e(2) u by (simp add: ms_get_mut_def tumble_in_place_def)
    moreover have "ms_get k s = Some v" using ek e(2) by (simp add: ms_get_def)
    then have "update_tumble W k r (st, w0) = Some ((st, w0\<lparr>w_store := TumbleStore ?s\<rparr>), res)"
      using False s u by (simp add: update_tumble_def on_tumble_def in_place_def tumble_in_place_def)
    ultimately show ?thesis
      using revalue_ok [OF inv s e(1), of ?s st ?e accs] ms_get_mut_spec(1) [OF ms, of k ?f] own_key_id [OF key] e(2) u by auto
  qed
qed

text \<open>Taking a window out of the store and the index.\<close>

definition taken :: "bytes \<Rightarrow> tumble_entry \<Rightarrow> window_op \<Rightarrow> window_op \<Rightarrow> bool" where
  "taken enc v w0 w \<longleftrightarrow> windows w = (windows w0)(enc := None) \<and> base w = base w0 \<and> w_timers w = w_timers w0 \<and>
     is_tumble (w_store w) \<and> w_index w = hm_del (te_end v, enc) (w_index w0) \<and> (all_indexed w0 \<longrightarrow> all_indexed w)"

lemma take_window_ok:
  assumes inv: "window_inv st w0" and key: "own_key w0 k" and v: "windows w0 (sk_encoded k) = Some v"
  shows "\<exists>st1 w1 st2 w2. tumble_remove k (st, w0) = Some ((st1, w1), Ok (Some v)) \<and>
    window_index_remove k (te_end v) (st1, w1) = Some ((st2, w2), Ok ()) \<and> window_inv st2 w2 \<and> taken (sk_encoded k) v w0 w2"
proof -
  obtain s where s: "w_store w0 = TumbleStore s" using v by (auto simp: windows_def split: window_store.splits)
  let ?ix = "(w_index w0, w_index_bytes w0)" and ?op = "w_operator w0" and ?enc = "sk_encoded k"
  have ii: "index_inv te_end window_slot ?op (w_owner w0) ?ix s st" using inv s by (simp add: window_inv_def store_ok_def)
  have get: "ms_get k s = Some v" using tumble_get_windows [OF key] v s by (simp add: tumble_get_def)
  from index_take [OF ii _ get] own_key_id [OF key] obtain st1 s1 st2 ix2 where
    r: "ms_remove k s st = Some (st1, s1, Some v)" "index_remove (w_owner w0) (te_end v) k ?ix st1 = Some (st2, ix2)"
      "index_inv te_end window_slot ?op (w_owner w0) ix2 s1 st2" "fst ix2 = hm_del (te_end v, ?enc) (fst ?ix)"
      "map_of (ms_entries s1) = (map_of (ms_entries s))((?op, window_slot, ?enc) := None)" by blast
  let ?w1 = "w0\<lparr>w_store := TumbleStore s1\<rparr>" and ?w2 = "w0\<lparr>w_store := TumbleStore s1, w_index := fst ix2, w_index_bytes := snd ix2\<rparr>"
  have "is_i64 (te_end (e_value x))" if "map_of (ms_entries s1) (?op, window_slot, enc') = Some x" for enc' x
    using that windows_ends [OF inv s, of enc' x] by (auto simp: r(5) split: if_splits)
  moreover have "list_all (\<lambda>x. own_key w0 (snd x)) (fst ix2)"
    using index_names [OF inv] set_hm_del [of "(te_end v, ?enc)" "w_index w0"] r(4) by (auto simp: list_all_iff)
  ultimately have "window_inv st2 ?w2" by (intro window_inv_tumble [OF inv r(3)])
  moreover have "windows ?w2 = (windows w0)(?enc := None)" using windows_upd [OF s, of ?w2 s1 ?enc None] r(5) by simp
  moreover have "all_indexed w0 \<longrightarrow> all_indexed ?w2" using index_covers_remove [OF _ r(5), of te_end "w_index w0" "te_end v"] s r(4) by (simp add: all_indexed_def)
  ultimately have "window_inv st2 ?w2 \<and> taken ?enc v w0 ?w2" using r(4) by (simp add: taken_def)
  moreover have "tumble_remove k (st, w0) = Some ((st1, ?w1), Ok (Some v))" using s r(1) by (simp add: tumble_remove_def on_tumble_def)
  moreover have "window_index_remove k (te_end v) (st1, ?w1) = Some ((st2, ?w2), Ok ())" using r(2) by (simp add: window_index_remove_def)
  ultimately show ?thesis by blast
qed

lemma rotate_out_ok:
  assumes inv: "window_inv st w0" and key: "own_key w0 k" and v: "windows w0 (sk_encoded k) = Some v"
  shows "\<exists>st' w'. rotate_out k (st, w0) = Some ((st', w'), Ok [emit_tumble (sk_key k) v]) \<and> window_inv st' w' \<and> taken (sk_encoded k) v w0 w'"
proof -
  from take_window_ok [OF assms] obtain st1 w1 st2 w2 where r: "tumble_remove k (st, w0) = Some ((st1, w1), Ok (Some v))"
    "window_index_remove k (te_end v) (st1, w1) = Some ((st2, w2), Ok ())" "window_inv st2 w2" "taken (sk_encoded k) v w0 w2" by blast
  then show ?thesis by (simp add: rotate_out_def ebind_def)
qed

section \<open>A row enters its windows\<close>

text \<open>
  The abstract effect of a row on one window: the window is created when the key has none, and
  every accumulator takes the row.
\<close>

definition upsert :: "window_host \<Rightarrow> window_op \<Rightarrow> row \<Rightarrow> scalar list \<Rightarrow> int \<times> int \<Rightarrow> (bytes \<Rightarrow> tumble_entry option) \<Rightarrow>
    (bytes \<Rightarrow> tumble_entry option) result" where
  "upsert W w r grp x A =
     (let enc = key_encoding (grp @ [SInt64 (fst x)])
      in rbind (case A enc of
           Some e \<Rightarrow> Ok e
         | None \<Rightarrow> rbind (empty_accs (w_spec w) (w_input w)) (\<lambda>accs. Ok \<lparr>te_start = fst x, te_end = snd x, te_accs = accs\<rparr>)) (\<lambda>e.
         case update_accs (wh_expr W) w r (te_accs e) of
           (_, Inl err) \<Rightarrow> Inl err
         | (accs, Inr _) \<Rightarrow> Ok (A(enc \<mapsto> e\<lparr>te_accs := accs\<rparr>))))"

fun upserts :: "window_host \<Rightarrow> window_op \<Rightarrow> row \<Rightarrow> scalar list \<Rightarrow> (int \<times> int) list \<Rightarrow> (bytes \<Rightarrow> tumble_entry option) \<Rightarrow>
    (bytes \<Rightarrow> tumble_entry option) result" where
  "upserts W w r grp [] A = Ok A"
| "upserts W w r grp (x # xs) A = rbind (upsert W w r grp x A) (upserts W w r grp xs)"

lemma upsert_cfg:
  assumes "cfg w' = cfg w" shows "upsert W w' = upsert W w"
  by (intro ext) (simp only: upsert_def update_accs_def cfgD(2,5,10) [OF assms])

lemma upserts_cfg: "cfg w' = cfg w \<Longrightarrow> upserts W w' r grp xs A = upserts W w r grp xs A"
  using upsert_cfg [of w' w W] by (induction xs arbitrary: A) (simp_all cong: rbind_cong)

text \<open>What such a step keeps: the accounts always, and completeness of index and timers when it succeeds.\<close>

definition keeps_complete :: "window_op \<Rightarrow> window_op \<Rightarrow> bool" where
  "keeps_complete w0 w \<longleftrightarrow> (all_indexed w0 \<longrightarrow> all_indexed w) \<and>
     (if uses_processing_time_timer (ws_kind (w_spec w0)) then all_timed w0 \<longrightarrow> all_timed w else w_timers w = w_timers w0)"

lemma keeps_complete_refl [simp]: "keeps_complete w w"
  by (simp add: keeps_complete_def)

lemma keeps_complete_trans:
  "keeps_complete w0 w1 \<Longrightarrow> keeps_complete w1 w2 \<Longrightarrow> w_spec w1 = w_spec w0 \<Longrightarrow> keeps_complete w0 w2"
  by (auto simp: keeps_complete_def split: if_splits)

lemma revalued_complete: "revalued enc e accs w0 w \<Longrightarrow> windows w0 enc = Some e \<Longrightarrow> keeps_complete w0 w"
  using baseD(1) [of w w0] by (auto simp: revalued_def keeps_complete_def all_timed_def split: if_splits)

lemma taken_complete: "taken enc e w0 w \<Longrightarrow> keeps_complete w0 w"
  using baseD(1) [of w w0] by (auto simp: taken_def keeps_complete_def all_timed_def split: if_splits)

lemma opened_complete:
  "opened timed enc v w0 w \<Longrightarrow> timed = uses_processing_time_timer (ws_kind (w_spec w0)) \<Longrightarrow> keeps_complete w0 w"
  by (auto simp: opened_def keeps_complete_def)

lemma update_window_ok:
  assumes inv: "window_inv st w0" and key: "own_key w0 k" and w: "windows w0 (sk_encoded k) = Some v"
  obtains st' w' res where "update_tumble W k r (st, w0) = Some ((st', w'), res)" "window_inv st' w'" "base w' = base w0"
    "is_tumble (w_store w')" "keeps_complete w0 w'"
    "res = Ok () \<Longrightarrow> \<exists>accs. update_accs (wh_expr W) w0 r (te_accs v) = (accs, Ok ()) \<and> windows w' = (windows w0)(sk_encoded k \<mapsto> v\<lparr>te_accs := accs\<rparr>)"
proof -
  from update_tumble_ok [OF assms, of W r] obtain st' w' res accs where
    u: "update_tumble W k r (st, w0) = Some ((st', w'), res)" "window_inv st' w'" "revalued (sk_encoded k) v accs w0 w'"
      "res = Ok () \<longrightarrow> update_accs (wh_expr W) w0 r (te_accs v) = (accs, Ok ())" by blast
  note rev = u(3) [unfolded revalued_def]
  show thesis
    by (rule that [OF u(1,2)]) (use rev revalued_complete [OF u(3) w] u(4) in auto)
qed

text \<open>Opening a window and updating it at once.\<close>

lemma open_update_ok:
  assumes inv: "window_inv st w0" and tum: "is_tumble (w_store w0)" and key: "own_key w0 k" and fresh: "windows w0 (sk_encoded k) = None"
    and i: "is_i64 (snd x)" and kind: "timed = uses_processing_time_timer (ws_kind (w_spec w0))"
  obtains (opens) st1 w1 st' w' res accs0 where "open_window W timed k (fst x) (snd x) (st, w0) = Some ((st1, w1), Ok ())"
    "update_tumble W k r (st1, w1) = Some ((st', w'), res)" "windows w1 = (windows w0)(sk_encoded k \<mapsto> \<lparr>te_start = fst x, te_end = snd x, te_accs = accs0\<rparr>)"
    "base w1 = base w0" "is_tumble (w_store w1)"
    "window_inv st' w'" "base w' = base w0" "is_tumble (w_store w')" "keeps_complete w0 w'"
    "res = Ok () \<Longrightarrow> empty_accs (w_spec w0) (w_input w0) = Ok accs0 \<and> (\<exists>accs. update_accs (wh_expr W) w0 r accs0 = (accs, Ok ()) \<and>
       windows w' = (windows w0)(sk_encoded k \<mapsto> \<lparr>te_start = fst x, te_end = snd x, te_accs = accs\<rparr>))"
  | (fails) st' w' e where "open_window W timed k (fst x) (snd x) (st, w0) = Some ((st', w'), Inl e)" "window_inv st' w'" "base w' = base w0" "is_tumble (w_store w')"
proof -
  from open_window_ok [OF inv tum key fresh i, of W timed "fst x"] obtain st1 w1 r1 where
    o: "open_window W timed k (fst x) (snd x) (st, w0) = Some ((st1, w1), r1)" "window_inv st1 w1" "base w1 = base w0" "is_tumble (w_store w1)"
      "r1 = Ok () \<longrightarrow> (\<exists>accs. empty_accs (w_spec w0) (w_input w0) = Ok accs \<and>
        opened timed (sk_encoded k) \<lparr>te_start = fst x, te_end = snd x, te_accs = accs\<rparr> w0 w1)" by blast
  show thesis
  proof (cases r1)
    case (Inl e)
    with o show thesis by (intro fails) simp_all
  next
    case (Inr u)
    with o(5) obtain accs0 where a: "empty_accs (w_spec w0) (w_input w0) = Ok accs0"
      "opened timed (sk_encoded k) \<lparr>te_start = fst x, te_end = snd x, te_accs = accs0\<rparr> w0 w1" by auto
    let ?v = "\<lparr>te_start = fst x, te_end = snd x, te_accs = accs0\<rparr>"
    have own1: "own_key w1 k" using key baseD(1) [OF o(3)] by (simp add: own_key_def)
    have w1: "windows w1 = (windows w0)(sk_encoded k \<mapsto> ?v)" using a(2) by (simp add: opened_def)
    then have v1: "windows w1 (sk_encoded k) = Some ?v" by simp
    from update_window_ok [OF o(2) own1 v1, of W r] obtain st' w' res where u: "update_tumble W k r (st1, w1) = Some ((st', w'), res)"
      "window_inv st' w'" "base w' = base w1" "is_tumble (w_store w')" "keeps_complete w1 w'"
      "res = Ok () \<Longrightarrow> \<exists>accs. update_accs (wh_expr W) w1 r (te_accs ?v) = (accs, Ok ()) \<and> windows w' = (windows w1)(sk_encoded k \<mapsto> ?v\<lparr>te_accs := accs\<rparr>)" by blast
    have upd: "update_accs (wh_expr W) w1 = update_accs (wh_expr W) w0" using baseD [OF o(3)] by (simp add: update_accs_def fun_eq_iff)
    have kc: "keeps_complete w0 w'" using keeps_complete_trans [OF opened_complete [OF a(2) kind] u(5)] baseD(2) [OF o(3)] by simp
    show thesis
    proof (rule opens [OF o(1) [unfolded Inr, simplified] u(1) w1 o(3,4) u(2)])
      show "base w' = base w0" using u(3) o(3) by simp
      show "empty_accs (w_spec w0) (w_input w0) = Ok accs0 \<and> (\<exists>accs. update_accs (wh_expr W) w0 r accs0 = (accs, Ok ()) \<and>
          windows w' = (windows w0)(sk_encoded k \<mapsto> \<lparr>te_start = fst x, te_end = snd x, te_accs = accs\<rparr>))" if "res = Ok ()"
        using u(6) [OF that] a(1) upd w1 by auto
    qed (use u kc in auto)
  qed
qed

lemma upsert_et_window_ok:
  assumes inv: "window_inv st w0" and tum: "is_tumble (w_store w0)" and i: "is_i64 (snd x)"
    and kind: "is_hopping_pt (ws_kind (w_spec w0)) = uses_processing_time_timer (ws_kind (w_spec w0))"
  shows "\<exists>st' w' res. upsert_et_window W grp (fst x) (snd x) r (st, w0) = Some ((st', w'), res) \<and> window_inv st' w' \<and>
    base w' = base w0 \<and> is_tumble (w_store w') \<and>
    (res = Ok () \<longrightarrow> upsert W w0 r grp x (windows w0) = Ok (windows w') \<and> keeps_complete w0 w')"
proof -
  let ?k = "et_state_key W w0 grp (fst x)" and ?enc = "key_encoding (grp @ [SInt64 (fst x)])"
  have enc: "sk_encoded ?k = ?enc" by (simp add: et_state_key_def)
  have get: "tumble_get ?k w0 = windows w0 ?enc" using tumble_get_windows [of w0 ?k] enc by simp
  show ?thesis
  proof (cases "windows w0 ?enc")
    case (Some v)
    have "own_key w0 ?k" "windows w0 (sk_encoded ?k) = Some v" using Some enc by simp_all
    from update_window_ok [OF inv this, of W r] obtain st' w' res where u: "update_tumble W ?k r (st, w0) = Some ((st', w'), res)"
      "window_inv st' w'" "base w' = base w0" "is_tumble (w_store w')" "keeps_complete w0 w'"
      "res = Ok () \<Longrightarrow> \<exists>accs. update_accs (wh_expr W) w0 r (te_accs v) = (accs, Ok ()) \<and> windows w' = (windows w0)(sk_encoded ?k \<mapsto> v\<lparr>te_accs := accs\<rparr>)" by blast
    have "upsert W w0 r grp x (windows w0) = Ok (windows w')" if "res = Ok ()"
      using u(6) [OF that] Some enc by (auto simp: upsert_def)
    with u(1-5) get Some show ?thesis by (simp add: upsert_et_window_def)
  next
    case None
    have "own_key w0 ?k" "windows w0 (sk_encoded ?k) = None" using None enc by simp_all
    note fresh = this
    have run: "upsert_et_window W grp (fst x) (snd x) r (st, w0) =
        ebind (open_window W (is_hopping_pt (ws_kind (w_spec w0))) ?k (fst x) (snd x)) (\<lambda>_. update_tumble W ?k r) (st, w0)"
      using get None tum by (simp add: upsert_et_window_def Let_def)
    show ?thesis
    proof (rule open_update_ok [OF inv tum fresh i kind, of W r])
      fix st1 w1 st' w' res accs0
      assume o: "open_window W (is_hopping_pt (ws_kind (w_spec w0))) ?k (fst x) (snd x) (st, w0) = Some ((st1, w1), Ok ())"
        "update_tumble W ?k r (st1, w1) = Some ((st', w'), res)" "window_inv st' w'" "base w' = base w0" "is_tumble (w_store w')" "keeps_complete w0 w'"
        and eff: "res = Ok () \<Longrightarrow> empty_accs (w_spec w0) (w_input w0) = Ok accs0 \<and> (\<exists>accs. update_accs (wh_expr W) w0 r accs0 = (accs, Ok ()) \<and>
          windows w' = (windows w0)(sk_encoded ?k \<mapsto> \<lparr>te_start = fst x, te_end = snd x, te_accs = accs\<rparr>))"
      have "upsert W w0 r grp x (windows w0) = Ok (windows w')" if "res = Ok ()"
        using eff [OF that] None enc by (auto simp: upsert_def)
      with o show ?thesis by (simp add: run ebind_def)
    next
      fix st' w' e
      assume "open_window W (is_hopping_pt (ws_kind (w_spec w0))) ?k (fst x) (snd x) (st, w0) = Some ((st', w'), Inl e)"
        "window_inv st' w'" "base w' = base w0" "is_tumble (w_store w')"
      then show ?thesis by (simp add: run ebind_def)
    qed
  qed
qed

lemma upsert_loop_ok:
  assumes "window_inv st w0" "is_tumble (w_store w0)" "list_all (\<lambda>x. is_i64 (snd x)) xs"
    and "is_hopping_pt (ws_kind (w_spec w0)) = uses_processing_time_timer (ws_kind (w_spec w0))"
  shows "\<exists>st' w' res. efor (\<lambda>(start, window_end). upsert_et_window W grp start window_end r) xs (st, w0) = Some ((st', w'), res) \<and>
    window_inv st' w' \<and> base w' = base w0 \<and> is_tumble (w_store w') \<and>
    (res = Ok () \<longrightarrow> upserts W w0 r grp xs (windows w0) = Ok (windows w') \<and> keeps_complete w0 w')"
  using assms
proof (induction xs arbitrary: st w0)
  case (Cons x xs)
  obtain a b where x: "x = (a, b)" by fastforce
  have i: "is_i64 (snd x)" "list_all (\<lambda>x. is_i64 (snd x)) xs" using Cons.prems(3) by simp_all
  from upsert_et_window_ok [OF Cons.prems(1,2) i(1) Cons.prems(4), of W grp r] obtain st1 w1 r1 where
    u: "upsert_et_window W grp (fst x) (snd x) r (st, w0) = Some ((st1, w1), r1)" "window_inv st1 w1" "base w1 = base w0" "is_tumble (w_store w1)"
      "r1 = Ok () \<longrightarrow> upsert W w0 r grp x (windows w0) = Ok (windows w1) \<and> keeps_complete w0 w1" by blast
  show ?case
  proof (cases r1)
    case (Inl err)
    with u show ?thesis by (simp add: x ebind_def)
  next
    case (Inr v)
    have sp: "w_spec w1 = w_spec w0" using baseD(2) [OF u(3)] .
    have "is_hopping_pt (ws_kind (w_spec w1)) = uses_processing_time_timer (ws_kind (w_spec w1))" using sp Cons.prems(4) by simp
    from Cons.IH [OF u(2,4) i(2) this] obtain st' w' res where
      l: "efor (\<lambda>(start, window_end). upsert_et_window W grp start window_end r) xs (st1, w1) = Some ((st', w'), res)"
        "window_inv st' w'" "base w' = base w1" "is_tumble (w_store w')"
        "res = Ok () \<longrightarrow> upserts W w1 r grp xs (windows w1) = Ok (windows w') \<and> keeps_complete w1 w'" by blast
    have "upserts W w0 r grp (x # xs) (windows w0) = Ok (windows w') \<and> keeps_complete w0 w'" if "res = Ok ()"
      using l(5) that u(5) Inr keeps_complete_trans [of w0 w1 w'] sp upserts_cfg [OF base_cfg [OF u(3)]] by simp
    with u l Inr show ?thesis by (simp add: x ebind_def)
  qed
qed simp

section \<open>Event-time rows\<close>

lemma hop_loop_ends: "hop_loop ts sz slide mx start out = Ok xs \<Longrightarrow> list_all (\<lambda>x. is_i64 (snd x)) out \<Longrightarrow> list_all (\<lambda>x. is_i64 (snd x)) xs"
proof (induction ts sz slide mx start out rule: hop_loop.induct)
  case (1 ts sz slide mx start out)
  then show ?case unfolding hop_loop.simps [of ts sz slide mx start out]
    by (auto simp: Let_def split: if_splits)
qed

lemma assign_hop_ends: "assign_hop ts sz slide mx = Ok xs \<Longrightarrow> list_all (\<lambda>x. is_i64 (snd x)) xs"
  by (auto simp: assign_hop_def Let_def rbind_Inr_iff dest!: hop_loop_ends split: if_splits)

lemma assign_windows_ends: "assign_windows sp ts sz slide = Ok xs \<Longrightarrow> list_all (\<lambda>x. is_i64 (snd x)) xs"
  by (auto simp: assign_windows_def assign_tumble_def Let_def rbind_Inr_iff dest: assign_hop_ends split: option.splits if_splits)

definition quiet :: "window_emission \<Rightarrow> bool" where
  "quiet em \<longleftrightarrow> finals em = [] \<and> lates em = [] \<and> future_dropped em = 0"

lemma quiet_none [simp]: "quiet no_emission" "quiet (no_emission\<lparr>pending_close := p\<rparr>)"
  by (simp_all add: quiet_def no_emission_def)

lemma drain_watermark_ok:
  "\<exists>hb res. drain_watermark (st, w) = Some ((st, w\<lparr>w_holdback := hb\<rparr>), res) \<and> (\<forall>em. res = Ok em \<longrightarrow> quiet em)"
proof (cases "w_holdback w")
  case None
  then show ?thesis by (auto simp: drain_watermark_def intro!: exI [of _ None] exI [of _ "Ok no_emission"])
next
  case (Some h)
  show ?thesis
  proof (cases "progress (w_hub w)")
    case None
    with Some show ?thesis by (auto simp: drain_watermark_def intro!: exI [of _ "Some h"] exI [of _ "Ok no_emission"])
  next
    case wm: (Some wm)
    show ?thesis
    proof (cases "on_wm_in wm h")
      case (Inl e)
      with Some wm show ?thesis by (auto simp: drain_watermark_def intro!: exI [of _ "Some h"] exI [of _ "Inl e"])
    next
      case (Inr x)
      with Some wm show ?thesis by (cases x) (auto simp: drain_watermark_def split: option.splits intro!: exI)
    qed
  qed
qed

lemma on_hub_ok: "\<exists>h res. on_hub f (st, w) = Some ((st, w\<lparr>w_hub := h\<rparr>), res) \<and> (res = Ok () \<longrightarrow> (\<exists>x. f (w_hub w) = Ok (h, x))) \<and> (\<forall>e. res = Inl e \<longrightarrow> h = w_hub w \<and> f (w_hub w) = Inl e)"
proof (cases "f (w_hub w)")
  case (Inl e)
  then show ?thesis by (auto simp: on_hub_def intro!: exI [of _ "w_hub w"] exI [of _ "Inl e"])
next
  case (Inr x)
  then show ?thesis by (cases x) (auto simp: on_hub_def emodify_def intro!: exI)
qed

definition row_group :: "window_op \<Rightarrow> row \<Rightarrow> scalar list" where
  "row_group w r = map (\<lambda>i. r ! i) (w_group_idx w)"

definition wide_row :: "window_op \<Rightarrow> row \<Rightarrow> bool" where
  "wide_row w r \<longleftrightarrow> list_all (\<lambda>i. i < length r) (w_group_idx w)"

lemma group_key_run: "wide_row w r \<Longrightarrow> group_key r (st, w) = Some ((st, w), Ok (row_group w r))"
  by (auto simp: group_key_def wide_row_def row_group_def list_ex_iff list_all_iff)

text \<open>The effect of one event-time row, when it is accepted.\<close>

definition et_effect :: "window_host \<Rightarrow> row \<Rightarrow> int \<Rightarrow> int \<Rightarrow> int option \<Rightarrow> window_op \<Rightarrow> window_op \<Rightarrow> window_emission \<Rightarrow> bool" where
  "et_effect W r now sz slide w0 w em \<longleftrightarrow> (\<exists>ts. row_event_time r w0 = Ok ts \<and> finals em = [] \<and>
     (if too_far_ahead w0 ts now then windows w = windows w0 \<and> lates em = [] \<and> pending_close em = None \<and> future_dropped em = 1
      else \<exists>assigned. assign_windows (w_spec w0) ts sz slide = Ok assigned \<and> future_dropped em = 0 \<and>
        upserts W w0 r (row_group w0 r) (filter (open_at (window_wm_out w0)) assigned) (windows w0) = Ok (windows w) \<and>
        lates em = (if \<exists>x \<in> set assigned. open_at (window_wm_out w0) x then [] else [r])))"

lemma keeps_complete_cfg: "keeps_complete w0 (w\<lparr>w_holdback := hb\<rparr>) = keeps_complete w0 w" "keeps_complete (w0\<lparr>w_hub := h\<rparr>) w = keeps_complete w0 w"
  "keeps_complete w0 (w\<lparr>w_hub := h\<rparr>) = keeps_complete w0 w"
  by (simp_all add: keeps_complete_def all_timed_def)

lemma enter_windows_ok:
  assumes inv: "window_inv st w0" and tum: "is_tumble (w_store w0)" and wide: "wide_row w0 r"
    and kind: "uses_event_time (ws_kind (w_spec w0))" and ends: "list_all (\<lambda>x. is_i64 (snd x)) xs"
  shows "\<exists>st' w' res. enter_windows W r xs (st, w0) = Some ((st', w'), res) \<and> window_inv st' w' \<and> cfg w' = cfg w0 \<and>
    is_tumble (w_store w') \<and> (\<forall>em. res = Ok em \<longrightarrow> upserts W w0 r (row_group w0 r) xs (windows w0) = Ok (windows w') \<and>
      keeps_complete w0 w' \<and> finals em = [] \<and> future_dropped em = 0 \<and> lates em = (if xs = [] then [r] else []))"
proof -
  let ?loop = "efor (\<lambda>(start, window_end). upsert_et_window W (row_group w0 r) start window_end r) xs"
  have nopt: "is_hopping_pt (ws_kind (w_spec w0)) = uses_processing_time_timer (ws_kind (w_spec w0))"
    using kind by (cases "ws_kind (w_spec w0)") (simp_all add: is_hopping_pt_def uses_processing_time_timer_def uses_event_time_def)
  from upsert_loop_ok [OF inv tum ends nopt, of W "row_group w0 r" r] obtain st2 w2 r2 where
    l: "?loop (st, w0) = Some ((st2, w2), r2)" "window_inv st2 w2" "base w2 = base w0" "is_tumble (w_store w2)"
      "r2 = Ok () \<longrightarrow> upserts W w0 r (row_group w0 r) xs (windows w0) = Ok (windows w2) \<and> keeps_complete w0 w2" by blast
  let ?rest = "\<lambda>_. ebind drain_watermark (\<lambda>out. eret (if xs = [] then out\<lparr>lates := lates out @ [r]\<rparr> else out))"
  have run: "enter_windows W r xs (st, w0) = ebind ?loop ?rest (st, w0)"
    by (simp add: enter_windows_def ebind_step(1) [of "group_key r", OF group_key_run [OF wide]])
  show ?thesis
  proof (cases r2)
    case (Inl e)
    then show ?thesis using l base_cfg [OF l(3)] unfolding run by (simp add: ebind_step(2) [of ?loop])
  next
    case ok: (Inr u2)
    from drain_watermark_ok [of st2 w2] obtain hb res where d: "drain_watermark (st2, w2) = Some ((st2, w2\<lparr>w_holdback := hb\<rparr>), res)"
      "\<forall>em. res = Ok em \<longrightarrow> quiet em" by blast
    have step: "enter_windows W r xs (st, w0) = ?rest () (st2, w2)" using l(1) ok unfolding run by (simp add: ebind_step(1) [of ?loop])
    show ?thesis
    proof (cases res)
      case (Inl e)
      with d(1) l(2-4) base_cfg [OF l(3)] show ?thesis unfolding step by (simp add: ebind_step(2) [of drain_watermark])
    next
      case em: (Inr em)
      with d(2) have "quiet em" by blast
      with d(1) em l ok base_cfg [OF l(3)] show ?thesis
        unfolding step by (simp add: ebind_step(1) [of drain_watermark] keeps_complete_cfg quiet_def)
    qed
  qed
qed

lemma on_et_row_ok:
  assumes inv: "window_inv st w0" and tum: "is_tumble (w_store w0)" and wide: "wide_row w0 r"
    and kind: "uses_event_time (ws_kind (w_spec w0))"
  shows "\<exists>st' w' res. on_et_row W r now sz slide (st, w0) = Some ((st', w'), res) \<and> window_inv st' w' \<and> cfg w' = cfg w0 \<and>
    is_tumble (w_store w') \<and> (\<forall>em. res = Ok em \<longrightarrow> et_effect W r now sz slide w0 w' em \<and> keeps_complete w0 w')"
proof (cases "\<exists>ts. row_event_time r w0 = Ok ts \<and> \<not> too_far_ahead w0 ts now")
  case False
  then show ?thesis using inv tum
    by (cases "row_event_time r w0") (auto simp: on_et_row_def et_effect_def no_emission_def)
next
  case True
  then obtain ts where ts: "row_event_time r w0 = Ok ts" "\<not> too_far_ahead w0 ts now" by blast
  let ?obs = "if w_external w0 then eret () else on_hub (observe_event (w_default_input w0) ts now)"
  obtain h r1 where h: "?obs (st, w0) = Some ((st, w0\<lparr>w_hub := h\<rparr>), r1)"
    using on_hub_ok [of "observe_event (w_default_input w0) ts now" st w0]
    by (cases "w_external w0") (auto intro: that [of "w_hub w0"])
  let ?w1 = "w0\<lparr>w_hub := h\<rparr>" and ?as = "assign_windows (w_spec w0) ts sz slide"
  have run: "on_et_row W r now sz slide (st, w0) = ebind ?obs (\<lambda>_. ebind (elift ?as) (\<lambda>assigned.
      enter_windows W r (filter (open_at (window_wm_out w0)) assigned))) (st, w0)" using ts by (simp add: on_et_row_def)
  show ?thesis
  proof (cases "\<exists>e. r1 = Inl e \<or> ?as = Inl e")
    case True
    then obtain e where "on_et_row W r now sz slide (st, w0) = Some ((st, ?w1), Inl e)"
      using h unfolding run by (cases r1) (auto simp: ebind_step [of ?obs])
    then show ?thesis using inv tum by auto
  next
    case False
    then obtain assigned where as: "r1 = Ok ()" "?as = Ok assigned" by (metis (full_types) sum.exhaust unit.exhaust)
    let ?xs = "filter (open_at (window_wm_out w0)) assigned"
    have ends: "list_all (\<lambda>x. is_i64 (snd x)) ?xs" using assign_windows_ends [OF as(2)] by (auto simp: list_all_iff)
    have run1: "on_et_row W r now sz slide (st, w0) = enter_windows W r ?xs (st, ?w1)"
      using h as unfolding run by (simp add: ebind_step(1) [of ?obs])
    have w1: "window_inv st ?w1" "is_tumble (w_store ?w1)" "wide_row ?w1 r" "uses_event_time (ws_kind (w_spec ?w1))"
      using inv tum wide kind by (simp_all add: wide_row_def)
    have grp: "row_group ?w1 r = row_group w0 r" by (simp add: row_group_def)
    have late: "?xs = [] \<longleftrightarrow> \<not> (\<exists>x \<in> set assigned. open_at (window_wm_out w0) x)" by (auto simp: filter_empty_conv)
    from enter_windows_ok [OF w1 ends, of W] obtain st' w' res where e: "enter_windows W r ?xs (st, ?w1) = Some ((st', w'), res)"
      "window_inv st' w'" "cfg w' = cfg ?w1" "is_tumble (w_store w')"
      "\<forall>em. res = Ok em \<longrightarrow> upserts W ?w1 r (row_group ?w1 r) ?xs (windows ?w1) = Ok (windows w') \<and>
        keeps_complete ?w1 w' \<and> finals em = [] \<and> future_dropped em = 0 \<and> lates em = (if ?xs = [] then [r] else [])" by blast
    have "et_effect W r now sz slide w0 w' em \<and> keeps_complete w0 w'" if "res = Ok em" for em
      using e(5) that ts as late upserts_cfg [of ?w1 w0] by (auto simp: et_effect_def grp keeps_complete_cfg)
    with e show ?thesis unfolding run1 by simp
  qed
qed

section \<open>Processing-time tumbling rows\<close>

text \<open>
  The abstract effect: a window of another start is emitted and replaced, and the row enters the
  window of the current time.
\<close>

definition tumble_effect :: "window_host \<Rightarrow> row \<Rightarrow> int \<times> int \<Rightarrow> window_op \<Rightarrow> window_op \<Rightarrow> row list \<Rightarrow> bool" where
  "tumble_effect W r x w0 w rows \<longleftrightarrow>
     (let enc = key_encoding (row_group w0 r); old = windows w0 enc;
          stale = (case old of Some e \<Rightarrow> te_start e \<noteq> fst x | None \<Rightarrow> False)
      in rows = (if stale then [emit_tumble (row_group w0 r) (the old)] else []) \<and>
         (\<exists>e accs. (if old = None \<or> stale
              then \<exists>accs0. empty_accs (w_spec w0) (w_input w0) = Ok accs0 \<and> e = \<lparr>te_start = fst x, te_end = snd x, te_accs = accs0\<rparr>
              else old = Some e) \<and>
            update_accs (wh_expr W) w0 r (te_accs e) = (accs, Ok ()) \<and> windows w = (windows w0)(enc \<mapsto> e\<lparr>te_accs := accs\<rparr>)))"

text \<open>The four paths of a row: no window yet, the current window, or a window to rotate out first.\<close>

definition tumble_row_result :: "window_host \<Rightarrow> row \<Rightarrow> int \<times> int \<Rightarrow> window_op \<Rightarrow> ((store \<times> window_op) \<times> row list result) option \<Rightarrow> bool" where
  "tumble_row_result W r x w0 out \<longleftrightarrow> (\<exists>st' w' res. out = Some ((st', w'), res) \<and> window_inv st' w' \<and> base w' = base w0 \<and>
     is_tumble (w_store w') \<and> (\<forall>rows. res = Ok rows \<longrightarrow> tumble_effect W r x w0 w' rows \<and> keeps_complete w0 w'))"

lemma tumble_row_resultI:
  "out = Some ((st', w'), case res of Inl e \<Rightarrow> Inl e | Inr _ \<Rightarrow> Ok rows) \<Longrightarrow> window_inv st' w' \<Longrightarrow> base w' = base w0 \<Longrightarrow> is_tumble (w_store w') \<Longrightarrow>
    (res = Ok () \<Longrightarrow> tumble_effect W r x w0 w' rows) \<Longrightarrow> (res = Ok () \<Longrightarrow> keeps_complete w0 w') \<Longrightarrow> tumble_row_result W r x w0 out"
  by (cases res) (auto simp: tumble_row_result_def)

lemma update_accs_base: "base w1 = base w0 \<Longrightarrow> update_accs H w1 = update_accs H w0"
  using baseD [of w1 w0] by (simp add: update_accs_def fun_eq_iff)

lemma row_key_get:
  assumes "w_operator w = w_operator w0"
  shows "tumble_get (window_key W w0 key) w = windows w (key_encoding key)" "own_key w (window_key W w0 key)"
proof -
  show own: "own_key w (window_key W w0 key)" using assms by (simp add: own_key_def window_key_def state_key_new_def)
  show "tumble_get (window_key W w0 key) w = windows w (key_encoding key)" using tumble_get_windows [OF own] by simp
qed

lemma tumble_row_fresh:
  assumes inv: "window_inv st w0" and tum: "is_tumble (w_store w0)" and wide: "wide_row w0 r"
    and kind: "True = uses_processing_time_timer (ws_kind (w_spec w0))" and as: "assign_tumble now sz = Ok x"
    and i: "is_i64 (snd x)" and none: "windows w0 (key_encoding (row_group w0 r)) = None"
  shows "tumble_row_result W r x w0 (on_tumble_row W r now sz (st, w0))"
proof -
  let ?k = "window_key W w0 (row_group w0 r)"
  obtain a b where x: "x = (a, b)" by fastforce
  note get = row_key_get(1) [where key = "row_group w0 r" and ?w0.0 = w0 and W = W]
  have fresh: "windows w0 (sk_encoded ?k) = None" using none by simp
  show ?thesis
  proof (rule open_update_ok [OF inv tum row_key_get(2) [OF refl] fresh i kind, of W r], goal_cases)
    case (1 st1 w1 st' w' res accs0)
    have get1: "tumble_get ?k w1 = Some \<lparr>te_start = a, te_end = b, te_accs = accs0\<rparr>" using 1(3) x get [OF baseD(1) [OF 1(4)]] by simp
    have "on_tumble_row W r now sz (st, w0) = Some ((st', w'), case res of Inl e \<Rightarrow> Inl e | Inr _ \<Rightarrow> Ok [])"
      using as x none tum 1(1,2) get [OF refl] get1 by (cases res) (simp_all add: on_tumble_row_def ebind_def eget_def group_key_run [OF wide] Let_def)
    then show ?case
      by (rule tumble_row_resultI) (use 1 none in \<open>auto simp: tumble_effect_def\<close>)
  next
    case (2 st' w' e)
    have "on_tumble_row W r now sz (st, w0) = Some ((st', w'), Inl e)"
      using as x none tum 2(1) get [OF refl] by (simp add: on_tumble_row_def ebind_def eget_def group_key_run [OF wide] Let_def)
    then show ?case using 2 by (simp add: tumble_row_result_def)
  qed
qed

lemma tumble_row_same:
  assumes inv: "window_inv st w0" and wide: "wide_row w0 r" and as: "assign_tumble now sz = Ok x"
    and v: "windows w0 (key_encoding (row_group w0 r)) = Some v" "te_start v = fst x"
  shows "tumble_row_result W r x w0 (on_tumble_row W r now sz (st, w0))"
proof -
  let ?k = "window_key W w0 (row_group w0 r)"
  obtain a b where x: "x = (a, b)" by fastforce
  have v': "windows w0 (sk_encoded ?k) = Some v" using v by simp
  show ?thesis
  proof (rule update_window_ok [OF inv row_key_get(2) [OF refl] v', of W r], goal_cases)
    case (1 st' w' res)
    have "on_tumble_row W r now sz (st, w0) = Some ((st', w'), case res of Inl e \<Rightarrow> Inl e | Inr _ \<Rightarrow> Ok [])"
      using as x v 1(1) row_key_get(1) [of w0 w0 W "row_group w0 r"]
      by (cases res) (simp_all add: on_tumble_row_def ebind_def eget_def group_key_run [OF wide] Let_def)
    then show ?case
      by (rule tumble_row_resultI) (use 1 v x in \<open>auto simp: tumble_effect_def\<close>)
  qed
qed

lemma tumble_row_rotate:
  assumes inv: "window_inv st w0" and wide: "wide_row w0 r"
    and kind: "True = uses_processing_time_timer (ws_kind (w_spec w0))" and as: "assign_tumble now sz = Ok x"
    and i: "is_i64 (snd x)" and v: "windows w0 (key_encoding (row_group w0 r)) = Some v" "te_start v \<noteq> fst x"
  shows "tumble_row_result W r x w0 (on_tumble_row W r now sz (st, w0))"
proof -
  let ?k = "window_key W w0 (row_group w0 r)" and ?out = "[emit_tumble (row_group w0 r) v]"
  obtain a b where x: "x = (a, b)" by fastforce
  note get = row_key_get(1) [where key = "row_group w0 r" and ?w0.0 = w0 and W = W]
  have v': "windows w0 (sk_encoded ?k) = Some v" using v by simp
  from rotate_out_ok [OF inv row_key_get(2) [OF refl] v'] obtain st1 w1 where
    ro: "rotate_out ?k (st, w0) = Some ((st1, w1), Ok ?out)" "window_inv st1 w1" "taken (key_encoding (row_group w0 r)) v w0 w1" by auto
  have w1: "windows w1 = (windows w0)(key_encoding (row_group w0 r) := None)" "base w1 = base w0" "is_tumble (w_store w1)"
    using ro(3) by (simp_all add: taken_def)
  have fresh: "windows w1 (sk_encoded ?k) = None" "True = uses_processing_time_timer (ws_kind (w_spec w1))" "tumble_get ?k w1 = None"
    using w1 kind baseD(2) [OF w1(2)] get [OF baseD(1) [OF w1(2)]] by simp_all
  show ?thesis
  proof (rule open_update_ok [OF ro(2) w1(3) row_key_get(2) [OF baseD(1) [OF w1(2)]] fresh(1) i fresh(2), of W r], goal_cases)
    case (1 st2 w2 st' w' res accs0)
    have g2: "tumble_get ?k w2 = Some \<lparr>te_start = a, te_end = b, te_accs = accs0\<rparr>"
      using 1(3,4) w1(2) x get [of w2] baseD(1) [of w2 w0] by simp
    have "on_tumble_row W r now sz (st, w0) = Some ((st', w'), case res of Inl e \<Rightarrow> Inl e | Inr _ \<Rightarrow> Ok ?out)"
      using as x v ro(1) 1(1,2) get [OF refl] fresh(3) g2 w1(3)
      by (cases res; cases "te_end v \<le> now") (simp_all add: on_tumble_row_def ebind_def eget_def group_key_run [OF wide] Let_def)
    then show ?case
    proof (rule tumble_row_resultI)
      show "tumble_effect W r x w0 w' ?out" if "res = Ok ()"
        using 1(10) [OF that] v x w1(1) baseD [OF w1(2)] update_accs_base [OF w1(2)] by (auto simp: tumble_effect_def)
      show "keeps_complete w0 w'" using keeps_complete_trans [OF taken_complete [OF ro(3)] 1(9) baseD(2) [OF w1(2)]] .
    qed (use 1 w1 in auto)
  next
    case (2 st' w' e)
    have "on_tumble_row W r now sz (st, w0) = Some ((st', w'), Inl e)"
      using as x v ro(1) 2(1) get [OF refl] fresh(3) w1(3)
      by (cases "te_end v \<le> now") (simp_all add: on_tumble_row_def ebind_def eget_def group_key_run [OF wide] Let_def)
    then show ?case using 2 w1(2) by (simp add: tumble_row_result_def)
  qed
qed

lemma on_tumble_row_ok:
  assumes inv: "window_inv st w0" and tum: "is_tumble (w_store w0)" and wide: "wide_row w0 r"
    and kind: "uses_processing_time_timer (ws_kind (w_spec w0))"
  shows "\<exists>st' w' res. on_tumble_row W r now sz (st, w0) = Some ((st', w'), res) \<and> window_inv st' w' \<and> base w' = base w0 \<and>
    is_tumble (w_store w') \<and> (\<forall>rows. res = Ok rows \<longrightarrow> (\<exists>x. assign_tumble now sz = Ok x \<and> tumble_effect W r x w0 w' rows) \<and> keeps_complete w0 w')"
proof (cases "assign_tumble now sz")
  case (Inl e)
  then show ?thesis using inv tum by (simp add: on_tumble_row_def)
next
  case (Inr x)
  have i: "is_i64 (snd x)" using Inr by (auto simp: assign_tumble_def Let_def split: if_splits)
  have kt: "True = uses_processing_time_timer (ws_kind (w_spec w0))" using kind by simp
  have "tumble_row_result W r x w0 (on_tumble_row W r now sz (st, w0))"
    using tumble_row_fresh [OF inv tum wide kt Inr i] tumble_row_same [OF inv wide Inr] tumble_row_rotate [OF inv wide kt Inr i]
    by (cases "windows w0 (key_encoding (row_group w0 r))") metis+
  then show ?thesis using Inr unfolding tumble_row_result_def by blast
qed

section \<open>Count windows\<close>

definition counted :: "window_op \<Rightarrow> store \<Rightarrow> (bytes \<Rightarrow> count_entry option) \<Rightarrow> window_op \<Rightarrow> bool" where
  "counted w0 st A w \<longleftrightarrow> window_inv st w \<and> base w = base w0 \<and> \<not> is_tumble (w_store w) \<and> counts w = A"

lemma window_inv_count:
  assumes inv: "window_inv st w" and s: "w_store w = CountStore s"
    and s': "ms_inv 0 s' st'" "ms_owner s' = ms_owner s" "ms_operator s' = ms_operator s" "ms_slot s' = ms_slot s"
    and m: "map_of (ms_entries s') = (map_of (ms_entries s))((w_operator w, window_slot, enc) := eo)"
  shows "counted w st' ((counts w)(enc := map_option e_value eo)) (w\<lparr>w_store := CountStore s'\<rparr>)"
  using assms by (auto simp: counted_def window_inv_def store_ok_def windows_def counts_def fun_eq_iff)

lemma count_store:
  assumes "window_inv st w" "w_store w = CountStore s"
  shows "ms_inv 0 s st" "ms_owner s = w_owner w" "ms_operator s = w_operator w" "ms_slot s = window_slot"
  using assms by (simp_all add: window_inv_def store_ok_def)

lemma count_put_ok:
  assumes inv: "window_inv st w0" and cnt: "\<not> is_tumble (w_store w0)" and key: "own_key w0 k"
  shows "\<exists>st' w' r. on_count (ms_put (wh_layout W) (clone_key k) v vb) () (st, w0) = Some ((st', w'), r) \<and>
    ((\<exists>x. r = Inl x) \<and> counted w0 st' (counts w0) w' \<or> r = Ok () \<and> counted w0 st' ((counts w0)(sk_encoded k \<mapsto> v)) w')"
proof -
  obtain s where s: "w_store w0 = CountStore s" using cnt by (cases "w_store w0") auto
  note cs = count_store [OF inv s]
  obtain st' s' r where p: "ms_put (wh_layout W) (clone_key k) v vb s st = Some (st', s', r)" "ms_inv 0 s' st'"
    "ms_owner s' = ms_owner s" "ms_operator s' = ms_operator s" "ms_slot s' = ms_slot s"
    "(\<exists>x. r = Inl x) \<and> st' = st \<and> s' = s \<or>
     r = Ok () \<and> (\<exists>e. map_of (ms_entries s') = (map_of (ms_entries s))(key_id (clone_key k) \<mapsto> e) \<and> e_value e = v)"
    by (rule ms_put_outcome [OF cs(1), of "wh_layout W" "clone_key k" v vb])
  have run: "on_count (ms_put (wh_layout W) (clone_key k) v vb) () (st, w0) = Some ((st', w0\<lparr>w_store := CountStore s'\<rparr>), r)"
    using p(1) s by (simp add: on_count_def)
  from p(6) show ?thesis
  proof
    assume "(\<exists>x. r = Inl x) \<and> st' = st \<and> s' = s"
    moreover have "w0\<lparr>w_store := CountStore s\<rparr> = w0" using s by simp
    ultimately show ?thesis using run inv cnt by (auto simp: counted_def)
  next
    assume "r = Ok () \<and> (\<exists>e. map_of (ms_entries s') = (map_of (ms_entries s))(key_id (clone_key k) \<mapsto> e) \<and> e_value e = v)"
    then obtain e where e: "r = Ok ()" "map_of (ms_entries s') = (map_of (ms_entries s))((w_operator w0, window_slot, sk_encoded k) \<mapsto> e)" "e_value e = v"
      using own_key_id [OF key] by auto
    from window_inv_count [OF inv s p(2-5) e(2)] run e show ?thesis by simp
  qed
qed

lemma count_update_ok:
  assumes inv: "window_inv st w1" and base: "base w1 = base w0" and key: "own_key w1 k" and v: "counts w1 (sk_encoded k) = Some v"
  shows "\<exists>st' w' res v'. update_count W w0 k r (st, w1) = Some ((st', w'), res) \<and>
    counted w1 st' ((counts w1)(sk_encoded k \<mapsto> v')) w' \<and>
    (res = Ok () \<longrightarrow> (\<exists>accs. update_accs (wh_expr W) w0 r (ce_accs v) = (accs, Ok ()) \<and> v' = \<lparr>ce_count = wadd (ce_count v) 1, ce_accs = accs\<rparr>))"
proof -
  obtain s e where s: "w_store w1 = CountStore s" and e: "map_of (ms_entries s) (w_operator w1, window_slot, sk_encoded k) = Some e" "e_value e = v"
    using v by (auto simp: counts_def split: window_store.splits)
  note ms = count_store(1) [OF inv s]
  have ek: "map_of (ms_entries s) (key_id k) = Some e" using e own_key_id [OF key] by simp
  show ?thesis
  proof (cases "w_variable_accs w0")
    case True
    obtain st1 accs l1 res where u: "update_accs_metered W w0 r (ce_accs v) (e_lease e) (e_key_bytes e) st = (st1, accs, l1, res)"
      by (metis prod_cases4)
    have ow: "retained_lease (ms_owner s) (e_lease e)" "wf_owner (ms_owner s)" "retention (ms_owner s) st \<le> cap (owner_budget (ms_owner s)) Retention"
      "lease_bytes (e_lease e) \<le> retention (ms_owner s) st"
      using ms_inv_entry [OF ms ek] ms by (auto simp: ms_inv_def entry_ok_def retained_lease_def)
    note ch = metered_change [OF u ow]
    obtain v' res' where b: "bump (v\<lparr>ce_accs := accs\<rparr>, res) = (v', res')" by fastforce
    have f: "count_metered W w0 r (e_value e) (e_lease e) (e_key_bytes e) st = (st1, v', l1, res')"
      using u e(2) b by (simp add: count_metered_def)
    from ms_update_accounted_spec [where f = "count_metered W w0 r", OF ms ek f ch(1)] obtain s' where
      s': "ms_update_accounted k (count_metered W w0 r) s st = Some (st1, s', res')" "ms_inv 0 s' st1"
        "map_of (ms_entries s') = (map_of (ms_entries s))(key_id k \<mapsto> e\<lparr>e_value := v', e_lease := l1\<rparr>)"
        "ms_owner s' = ms_owner s" "ms_operator s' = ms_operator s" "ms_slot s' = ms_slot s" by blast
    have "update_count W w0 k r (st, w1) = Some ((st1, w1\<lparr>w_store := CountStore s'\<rparr>), res')"
      using True s s'(1) by (simp add: update_count_def on_count_def)
    moreover from window_inv_count [OF inv s s'(2,4-6), of "sk_encoded k" "Some (e\<lparr>e_value := v', e_lease := l1\<rparr>)"] s'(3) own_key_id [OF key]
    have "counted w1 st1 ((counts w1)(sk_encoded k \<mapsto> v')) (w1\<lparr>w_store := CountStore s'\<rparr>)" by simp
    moreover have "res' = Ok () \<longrightarrow> (\<exists>accs. update_accs (wh_expr W) w0 r (ce_accs v) = (accs, Ok ()) \<and> v' = \<lparr>ce_count = wadd (ce_count v) 1, ce_accs = accs\<rparr>)"
      using b ch(2) by (auto simp: bump_def split: sum.splits)
    ultimately show ?thesis by blast
  next
    case False
    obtain v' res where u: "count_in_place W w0 r v = (v', res)" by fastforce
    let ?f = "\<lambda>v. fst (count_in_place W w0 r v)"
    let ?s = "ms_get_mut k ?f s" and ?e = "e\<lparr>e_value := v'\<rparr>"
    have mm: "?s = s\<lparr>ms_entries := hm_put (key_id k) ?e (ms_entries s)\<rparr>" using ek e(2) u by (simp add: ms_get_mut_def)
    have "ms_get k s = Some v" using ek e(2) by (simp add: ms_get_def)
    then have "update_count W w0 k r (st, w1) = Some ((st, w1\<lparr>w_store := CountStore ?s\<rparr>), res)"
      using False s u by (simp add: update_count_def on_count_def in_place_def)
    moreover have "counted w1 st ((counts w1)(sk_encoded k \<mapsto> v')) (w1\<lparr>w_store := CountStore ?s\<rparr>)"
      using window_inv_count [OF inv s, of ?s st "sk_encoded k" "Some ?e"] ms_get_mut_spec(1) [OF ms, of k ?f] own_key_id [OF key] mm by simp
    moreover have "res = Ok () \<longrightarrow> (\<exists>accs. update_accs (wh_expr W) w0 r (ce_accs v) = (accs, Ok ()) \<and> v' = \<lparr>ce_count = wadd (ce_count v) 1, ce_accs = accs\<rparr>)"
      using u by (auto simp: count_in_place_def bump_def split: prod.splits sum.splits)
    ultimately show ?thesis by blast
  qed
qed

lemma count_remove_ok:
  assumes inv: "window_inv st w0" and key: "own_key w0 k" and v: "counts w0 (sk_encoded k) = Some v"
  shows "\<exists>st' w'. count_remove k (st, w0) = Some ((st', w'), Ok (Some v)) \<and>
    counted w0 st' ((counts w0)(sk_encoded k := None)) w'"
proof -
  obtain s e where s: "w_store w0 = CountStore s" and e: "map_of (ms_entries s) (w_operator w0, window_slot, sk_encoded k) = Some e" "e_value e = v"
    using v by (auto simp: counts_def split: window_store.splits)
  note ms = count_store(1) [OF inv s]
  have get: "ms_get k s = Some v" using e own_key_id [OF key] by (simp add: ms_get_def)
  from ms_remove_spec [OF ms, of k] obtain st' s' where r: "ms_remove k s st = Some (st', s', ms_get k s)" "ms_inv 0 s' st'"
    "map_of (ms_entries s') = (map_of (ms_entries s))(key_id k := None)" "ms_owner s' = ms_owner s" "ms_operator s' = ms_operator s"
    "ms_slot s' = ms_slot s" by blast
  from window_inv_count [OF inv s r(2,4-6), of "sk_encoded k" None] r(1,3) get s own_key_id [OF key] show ?thesis by (simp add: count_remove_def on_count_def)
qed

lemma close_count_ok:
  assumes inv: "window_inv st w0" and key: "own_key w0 k" and v: "counts w0 (sk_encoded k) = Some v" and cnt: "\<not> is_tumble (w_store w0)"
  shows "\<exists>st' w' rows. close_count sz k (st, w0) = Some ((st', w'), Ok rows) \<and>
    (if sz \<le> ce_count v then rows = [emit_count (sk_key k) v] \<and> counted w0 st' ((counts w0)(sk_encoded k := None)) w'
     else rows = [] \<and> counted w0 st' (counts w0) w')"
proof (cases "sz \<le> ce_count v")
  case True
  from count_remove_ok [OF inv key v] obtain st' w' where "count_remove k (st, w0) = Some ((st', w'), Ok (Some v))"
    "counted w0 st' ((counts w0)(sk_encoded k := None)) w'" by blast
  with True count_get_counts [OF key] v show ?thesis by (simp add: close_count_def) (simp add: ebind_def)
next
  case False
  with count_get_counts [OF key] v inv cnt show ?thesis by (simp add: close_count_def counted_def)
qed

text \<open>The rest of a row once its window exists.\<close>

definition count_step :: "window_host \<Rightarrow> row \<Rightarrow> nat \<Rightarrow> window_op \<Rightarrow> count_entry \<Rightarrow> (bytes \<Rightarrow> count_entry option) \<Rightarrow> (bytes \<Rightarrow> count_entry option) \<Rightarrow> row list \<Rightarrow> bool" where
  "count_step W r sz w e A B rows \<longleftrightarrow> (\<exists>accs e1. update_accs (wh_expr W) w r (ce_accs e) = (accs, Ok ()) \<and>
     e1 = \<lparr>ce_count = wadd (ce_count e) 1, ce_accs = accs\<rparr> \<and>
     (if sz \<le> ce_count e1 then rows = [emit_count (row_group w r) e1] \<and> B = A(key_encoding (row_group w r) := None)
      else rows = [] \<and> B = A(key_encoding (row_group w r) \<mapsto> e1)))"

lemma count_finish_ok:
  assumes inv: "window_inv st w1" and base: "base w1 = base w0" and v: "counts w1 (key_encoding (row_group w0 r)) = Some v"
    and k: "k = window_key W w0 (row_group w0 r)"
  shows "\<exists>st' w' res. ebind (update_count W w0 k r) (\<lambda>_. close_count sz k) (st, w1) = Some ((st', w'), res) \<and>
    window_inv st' w' \<and> base w' = base w0 \<and> \<not> is_tumble (w_store w') \<and>
    (\<forall>rows. res = Ok rows \<longrightarrow> count_step W r sz w0 v (counts w1) (counts w') rows)"
proof -
  let ?enc = "key_encoding (row_group w0 r)"
  have key: "own_key w k" if "base w = base w0" for w using row_key_get(2) [OF baseD(1) [OF that]] k by simp
  have ek: "sk_encoded k = ?enc" "sk_key k = row_group w0 r" using k by simp_all
  have v': "counts w1 (sk_encoded k) = Some v" using v ek by simp
  from count_update_ok [OF inv base key [OF base] v', of W r] obtain st2 w2 r2 v2 where
    u: "update_count W w0 k r (st, w1) = Some ((st2, w2), r2)" "counted w1 st2 ((counts w1)(?enc \<mapsto> v2)) w2"
      "r2 = Ok () \<longrightarrow> (\<exists>accs. update_accs (wh_expr W) w0 r (ce_accs v) = (accs, Ok ()) \<and> v2 = \<lparr>ce_count = wadd (ce_count v) 1, ce_accs = accs\<rparr>)"
    using ek by auto
  have w2: "window_inv st2 w2" "base w2 = base w0" "\<not> is_tumble (w_store w2)" "counts w2 = (counts w1)(?enc \<mapsto> v2)"
    using u(2) base by (simp_all add: counted_def)
  show ?thesis
  proof (cases r2)
    case (Inl e)
    with u(1) w2 show ?thesis by (simp add: ebind_step(2) [of "update_count W w0 k r"])
  next
    case (Inr x)
    have "counts w2 (sk_encoded k) = Some v2" using w2(4) ek by simp
    from close_count_ok [OF w2(1) key [OF w2(2)] this w2(3), of sz, unfolded ek] obtain st3 w3 rows where
      c: "close_count sz k (st2, w2) = Some ((st3, w3), Ok rows)"
        "if sz \<le> ce_count v2 then rows = [emit_count (row_group w0 r) v2] \<and> counted w2 st3 ((counts w2)(?enc := None)) w3
         else rows = [] \<and> counted w2 st3 (counts w2) w3" by blast
    have w3: "window_inv st3 w3" "base w3 = base w0" "\<not> is_tumble (w_store w3)" using c(2) w2(2) by (auto simp: counted_def split: if_splits)
    have "count_step W r sz w0 v (counts w1) (counts w3) rows"
      using c(2) u(3) Inr w2(4) by (auto simp: count_step_def counted_def split: if_splits)
    then show ?thesis using u(1) Inr c(1) w3 by (simp add: ebind_step(1) [of "update_count W w0 k r"])
  qed
qed

text \<open>The abstract effect of a row on a count window.\<close>

definition count_effect :: "window_host \<Rightarrow> row \<Rightarrow> nat \<Rightarrow> window_op \<Rightarrow> window_op \<Rightarrow> row list \<Rightarrow> bool" where
  "count_effect W r sz w0 w rows \<longleftrightarrow>
     (case counts w0 (key_encoding (row_group w0 r)) of
        None \<Rightarrow> \<exists>accs. empty_accs (w_spec w0) (w_input w0) = Ok accs \<and> count_step W r sz w0 \<lparr>ce_count = 0, ce_accs = accs\<rparr> (counts w0) (counts w) rows
      | Some e \<Rightarrow> count_step W r sz w0 e (counts w0) (counts w) rows)"

lemma count_step_put: "count_step W r sz w e (A(key_encoding (row_group w r) \<mapsto> e')) B rows = count_step W r sz w e A B rows"
  by (simp add: count_step_def)

lemma on_count_row_ok:
  assumes inv: "window_inv st w0" and cnt: "\<not> is_tumble (w_store w0)" and wide: "wide_row w0 r"
  shows "\<exists>st' w' res. on_count_row W r sz (st, w0) = Some ((st', w'), res) \<and> window_inv st' w' \<and> base w' = base w0 \<and>
    \<not> is_tumble (w_store w') \<and> (\<forall>rows. res = Ok rows \<longrightarrow> count_effect W r sz w0 w' rows)"
proof -
  let ?k = "window_key W w0 (row_group w0 r)" and ?enc = "key_encoding (row_group w0 r)"
  let ?new = "\<lambda>accs. on_count (ms_put (wh_layout W) (clone_key ?k) \<lparr>ce_count = 0, ce_accs = accs\<rparr> (accs_bytes W accs)) ()"
  let ?rest = "\<lambda>_. ebind (update_count W w0 ?k r) (\<lambda>_. close_count sz ?k)"
  have get: "count_get ?k w0 = counts w0 ?enc" using count_get_counts [of w0 ?k] by simp
  have run: "on_count_row W r sz (st, w0) = ebind (if counts w0 ?enc = None then ebind (elift (empty_accs (w_spec w0) (w_input w0))) ?new else eret ()) ?rest (st, w0)"
    using cnt get by (simp add: on_count_row_def ebind_step(1) [of "group_key r", OF group_key_run [OF wide]] Let_def)
  show ?thesis
  proof (cases "counts w0 ?enc")
    case (Some v)
    from count_finish_ok [OF inv refl Some refl, of W sz] Some show ?thesis unfolding run by (simp add: count_effect_def)
  next
    case None
    show ?thesis
    proof (cases "empty_accs (w_spec w0) (w_input w0)")
      case (Inl e)
      with None inv cnt show ?thesis unfolding run by simp
    next
      case (Inr accs0)
      let ?v = "\<lparr>ce_count = 0, ce_accs = accs0\<rparr>"
      from count_put_ok [OF inv cnt own_window_key(1), of W W "row_group w0 r" ?v "accs_bytes W accs0"] obtain st1 w1 r1 where
        p: "?new accs0 (st, w0) = Some ((st1, w1), r1)"
          "(\<exists>x. r1 = Inl x) \<and> counted w0 st1 (counts w0) w1 \<or> r1 = Ok () \<and> counted w0 st1 ((counts w0)(?enc \<mapsto> ?v)) w1" by auto
      have run1: "on_count_row W r sz (st, w0) = ebind (?new accs0) ?rest (st, w0)" using None Inr unfolding run by simp
      from p(2) show ?thesis
      proof (elim disjE conjE exE)
        fix x assume "r1 = Inl x" "counted w0 st1 (counts w0) w1"
        then show ?thesis using p(1) unfolding run1 by (simp add: ebind_step(2) [of "?new accs0"] counted_def)
      next
        assume ok: "r1 = Ok ()" "counted w0 st1 ((counts w0)(?enc \<mapsto> ?v)) w1"
        then have w1: "window_inv st1 w1" "base w1 = base w0" "counts w1 ?enc = Some ?v" "counts w1 = (counts w0)(?enc \<mapsto> ?v)" by (simp_all add: counted_def)
        have run2: "on_count_row W r sz (st, w0) = ?rest () (st1, w1)" using p(1) ok(1) unfolding run1 by (simp add: ebind_step(1) [of "?new accs0"])
        from count_finish_ok [OF w1(1-3) refl, of W sz] w1(4) None Inr show ?thesis
          unfolding run2 by (simp add: count_effect_def count_step_put)
      qed
    qed
  qed
qed

end
