(* ===== verification/Window_Close.thy ===== *)
theory Window_Close
  imports Window_Inv
begin

text \<open>
  Every operation of the window operator from any state its invariant allows: rows of every kind,
  closing windows by watermark and by timer, and cleaning up.
\<close>

section \<open>Rows of every kind\<close>

definition kind_ok :: "window_op \<Rightarrow> bool" where
  "kind_ok w \<longleftrightarrow> \<not> is_buffered (ws_kind (w_spec w)) \<and> (is_tumble (w_store w) \<longleftrightarrow> \<not> is_count (ws_kind (w_spec w)))"

definition window_ok :: "store \<Rightarrow> window_op \<Rightarrow> bool" where
  "window_ok st w \<longleftrightarrow> window_inv st w \<and> kind_ok w"

text \<open>A step never panics and keeps the invariant and the configuration.\<close>

definition step_ok :: "store \<Rightarrow> window_op \<Rightarrow> (window_op, 'a) eff \<Rightarrow> (window_op \<Rightarrow> 'a \<Rightarrow> bool) \<Rightarrow> bool" where
  "step_ok st w m Q \<longleftrightarrow> (\<exists>st' w' res. m (st, w) = Some ((st', w'), res) \<and> window_ok st' w' \<and> cfg w' = cfg w \<and> (\<forall>x. res = Ok x \<longrightarrow> Q w' x))"

lemma step_okI:
  "m (st, w) = Some ((st', w'), res) \<Longrightarrow> window_ok st' w' \<Longrightarrow> cfg w' = cfg w \<Longrightarrow> (\<And>x. res = Ok x \<Longrightarrow> Q w' x) \<Longrightarrow> step_ok st w m Q"
  by (auto simp: step_ok_def)

lemma step_okE:
  assumes "step_ok st w m Q"
  obtains st' w' res where "m (st, w) = Some ((st', w'), res)" "window_ok st' w'" "cfg w' = cfg w" "\<And>x. res = Ok x \<Longrightarrow> Q w' x"
  using assms by (auto simp: step_ok_def)

lemma step_ok_ret: "window_ok st w \<Longrightarrow> Q w x \<Longrightarrow> step_ok st w (eret x) Q"
  by (simp add: step_ok_def)

lemma step_ok_err: "window_ok st w \<Longrightarrow> step_ok st w (elift (Inl e)) Q"
  by (simp add: step_ok_def)

lemma step_ok_mono: "step_ok st w m Q \<Longrightarrow> (\<And>w x. Q w x \<Longrightarrow> Q' w x) \<Longrightarrow> step_ok st w m Q'"
  by (auto simp: step_ok_def)

lemma step_ok_bind:
  assumes "step_ok st w0 m Q" "\<And>st1 w1 x. window_ok st1 w1 \<Longrightarrow> cfg w1 = cfg w0 \<Longrightarrow> Q w1 x \<Longrightarrow> step_ok st1 w1 (f x) R"
  shows "step_ok st w0 (ebind m f) R"
proof -
  from assms(1) obtain st1 w1 r where m: "m (st, w0) = Some ((st1, w1), r)" "window_ok st1 w1" "cfg w1 = cfg w0" "\<forall>x. r = Ok x \<longrightarrow> Q w1 x"
    by (auto simp: step_ok_def)
  show ?thesis
  proof (cases r)
    case (Inl e)
    with m show ?thesis by (simp add: ebind_def step_ok_def)
  next
    case (Inr x)
    with m assms(2) [of st1 w1 x] have "step_ok st1 w1 (f x) R" by simp
    with m Inr show ?thesis by (simp add: ebind_step(1) [of m] step_ok_def)
  qed
qed

lemma step_ok_get: "step_ok st w (f w) Q \<Longrightarrow> step_ok st w (ebind eget f) Q"
  by (simp add: step_ok_def)

lemma kind_ok_frame [simp]:
  "kind_ok (w\<lparr>w_timers := t\<rparr>) = kind_ok w" "kind_ok (w\<lparr>w_hub := h\<rparr>) = kind_ok w" "kind_ok (w\<lparr>w_holdback := hb\<rparr>) = kind_ok w"
  "kind_ok (w\<lparr>w_clock_high := c\<rparr>) = kind_ok w" "kind_ok (w\<lparr>w_scratch_cap := sc\<rparr>) = kind_ok w" "kind_ok (w\<lparr>w_scratch_lease := sl\<rparr>) = kind_ok w"
  "kind_ok (w\<lparr>w_index := ix\<rparr>) = kind_ok w" "kind_ok (w\<lparr>w_index_bytes := n\<rparr>) = kind_ok w"
  by (simp_all add: kind_ok_def)

lemma kind_ok_cfg: "kind_ok w0 \<Longrightarrow> cfg w = cfg w0 \<Longrightarrow> is_tumble (w_store w) = is_tumble (w_store w0) \<Longrightarrow> kind_ok w"
  using cfgD(2) [of w w0] by (simp add: kind_ok_def)

lemma kind_tumble:
  assumes "kind_ok w"
  shows "uses_event_time (ws_kind (w_spec w)) \<Longrightarrow> is_tumble (w_store w)"
    "uses_processing_time_timer (ws_kind (w_spec w)) \<Longrightarrow> is_tumble (w_store w)"
  using assms by (auto simp: kind_ok_def is_count_def uses_event_time_def uses_processing_time_timer_def split: window_kind.splits)

lemma keeps_complete_clock [simp]:
  "keeps_complete w0 (w\<lparr>w_clock_high := c\<rparr>) = keeps_complete w0 w" "keeps_complete w0 (w\<lparr>w_scratch_lease := l\<rparr>) = keeps_complete w0 w"
  "keeps_complete w0 (w\<lparr>w_scratch_cap := n\<rparr>) = keeps_complete w0 w"
  by (simp_all add: keeps_complete_def all_timed_def)

lemma hopping_now_ok:
  assumes "window_ok st w"
  shows "step_ok st w (hopping_now now) (\<lambda>w' t. t = (if now \<ge> 0 \<and> is_hopping_pt (ws_kind (w_spec w)) then max (w_clock_high w) now else now) \<and>
    w' = w\<lparr>w_clock_high := w_clock_high w'\<rparr>)"
proof (cases "now \<ge> 0 \<and> is_hopping_pt (ws_kind (w_spec w))")
  case True
  with assms show ?thesis by (auto simp: hopping_now_def step_ok_def window_ok_def)
next
  case False
  with False assms show ?thesis by (auto simp: hopping_now_def step_ok_def window_ok_def)
qed

lemma scratch_again_ok:
  assumes "window_ok st w"
  shows "step_ok st w (scratch_again W) (\<lambda>w' _. w' = w\<lparr>w_scratch_lease := w_scratch_lease w', w_scratch_cap := w_scratch_cap w'\<rparr>)"
proof (cases "w_variable_accs w \<and> w_scratch_lease w = None")
  case False
  with False assms show ?thesis by (auto simp: scratch_again_def step_ok_def)
next
  case True
  have wf: "wf_owner (w_owner w)" using assms window_inv_wf by (auto simp: window_ok_def)
  let ?n = "scratch_bytes W (w_spec w)"
  show ?thesis
  proof (cases "acquire Reservation ?n (w_owner w) st")
    case (Inl e)
    then have "eacquire Reservation ?n (w_owner w) (st, w) = Some ((st, w), Inl e)" by (simp add: eacquire_def)
    with True assms show ?thesis by (simp add: scratch_again_def step_ok_def ebind_step(2) [of "eacquire Reservation ?n (w_owner w)"])
  next
    case (Inr x)
    obtain st1 l where x: "x = (st1, l)" by fastforce
    note keep = reservation_keeps_retention [OF wf Inr [unfolded x]]
    let ?w = "w\<lparr>w_scratch_lease := Some l, w_scratch_cap := length (ws_aggs (w_spec w))\<rparr>"
    have "window_inv st1 w" using window_inv_retention [OF _ keep(1)] assms by (simp add: window_ok_def)
    then have "window_ok st1 ?w" using assms keep(2) by (simp add: window_ok_def window_inv_def)
    moreover have "eacquire Reservation ?n (w_owner w) (st, w) = Some ((st1, w), Ok l)" using Inr x by (simp add: eacquire_def)
    ultimately show ?thesis using True
      by (simp add: scratch_again_def step_ok_def ebind_step(1) [of "eacquire Reservation ?n (w_owner w)"] emodify_def)
  qed
qed

lemma hopping_rows_ok:
  assumes ok: "window_ok st w0" and wide: "wide_row w0 r" and kind: "is_hopping_pt (ws_kind (w_spec w0))"
  shows "step_ok st w0 (ebind (group_key r) (\<lambda>grp. ebind (elift (assign_hop now sz slide mx)) (\<lambda>xs.
      ebind (efor (\<lambda>(start, window_end). upsert_et_window W grp start window_end r) xs) (\<lambda>_. eret no_emission))))
    (\<lambda>w _. keeps_complete w0 w)"
proof (cases "assign_hop now sz slide mx")
  case (Inl e)
  then show ?thesis using ok by (simp add: ebind_step(1) [of "group_key r", OF group_key_run [OF wide]] step_ok_def)
next
  case (Inr xs)
  have k: "is_hopping_pt (ws_kind (w_spec w0)) = uses_processing_time_timer (ws_kind (w_spec w0))" "uses_processing_time_timer (ws_kind (w_spec w0))"
    using kind by (simp_all add: is_hopping_pt_def uses_processing_time_timer_def split: window_kind.splits)
  have tum: "is_tumble (w_store w0)" using kind_tumble(2) k ok by (simp add: window_ok_def)
  let ?loop = "efor (\<lambda>(start, window_end). upsert_et_window W (row_group w0 r) start window_end r) xs"
  have inv: "window_inv st w0" using ok by (simp add: window_ok_def)
  from upsert_loop_ok [OF inv tum assign_hop_ends [OF Inr] k(1), of W "row_group w0 r" r] obtain st' w' res where
    l: "?loop (st, w0) = Some ((st', w'), res)" "window_inv st' w'" "base w' = base w0" "is_tumble (w_store w')" "res = Ok () \<longrightarrow> keeps_complete w0 w'" by blast
  have ok': "window_ok st' w'" using l ok kind_ok_cfg [OF _ base_cfg [OF l(3)]] tum by (simp add: window_ok_def)
  show ?thesis using Inr l ok' base_cfg [OF l(3)]
    by (cases res) (simp_all add: ebind_step(1) [of "group_key r", OF group_key_run [OF wide]] ebind_step [of ?loop] step_ok_def)
qed

lemma on_row_kind_ok:
  assumes ok: "window_ok st w" and wide: "wide_row w r"
  shows "step_ok st w (on_row_kind W r now) (\<lambda>w' _. is_count (ws_kind (w_spec w)) \<or> keeps_complete w w')"
proof -
  have inv: "window_inv st w" and kd: "kind_ok w" using ok by (simp_all add: window_ok_def)
  have et: "step_ok st w (on_et_row W r now sz slide) (\<lambda>w' _. keeps_complete w w')" if k: "uses_event_time (ws_kind (w_spec w))" for sz slide
  proof -
    from on_et_row_ok [OF inv kind_tumble(1) [OF kd k] wide k, of W now sz slide] obtain st' w' res where
      e: "on_et_row W r now sz slide (st, w) = Some ((st', w'), res)" "window_inv st' w'" "cfg w' = cfg w" "is_tumble (w_store w')"
        "\<forall>em. res = Ok em \<longrightarrow> keeps_complete w w'" by blast
    then show ?thesis using kind_ok_cfg [OF kd e(3)] kind_tumble(1) [OF kd k] by (auto simp: window_ok_def step_ok_def)
  qed
  show ?thesis
  proof (cases "ws_kind (w_spec w)")
    case (TumblingProcessingTime sz)
    then have k: "uses_processing_time_timer (ws_kind (w_spec w))" by (simp add: uses_processing_time_timer_def)
    from on_tumble_row_ok [OF inv kind_tumble(2) [OF kd k] wide k, of W now sz] obtain st' w' res where
      e: "on_tumble_row W r now sz (st, w) = Some ((st', w'), res)" "window_inv st' w'" "base w' = base w" "is_tumble (w_store w')"
        "\<forall>rows. res = Ok rows \<longrightarrow> keeps_complete w w'" by blast
    have "window_ok st' w'" using e(2,4) kind_ok_cfg [OF kd base_cfg [OF e(3)]] kind_tumble(2) [OF kd k] by (simp add: window_ok_def)
    then show ?thesis using TumblingProcessingTime e base_cfg [OF e(3)]
      by (cases res) (simp_all add: on_row_kind_def ebind_step [of "on_tumble_row W r now sz"] step_ok_def)
  next
    case (Count sz)
    then have c: "\<not> is_tumble (w_store w)" using kd by (simp add: kind_ok_def is_count_def)
    from on_count_row_ok [OF inv c wide, of W sz] obtain st' w' res where
      e: "on_count_row W r sz (st, w) = Some ((st', w'), res)" "window_inv st' w'" "base w' = base w" "\<not> is_tumble (w_store w')" by blast
    have "window_ok st' w'" using e(2,4) kind_ok_cfg [OF kd base_cfg [OF e(3)]] c by (simp add: window_ok_def)
    then show ?thesis using Count e base_cfg [OF e(3)]
      by (cases res) (simp_all add: on_row_kind_def ebind_step [of "on_count_row W r sz"] step_ok_def is_count_def)
  next
    case (TumblingEventTime sz)
    then show ?thesis using step_ok_mono [OF et] unfolding on_row_kind_def by (intro step_ok_get) (simp add: uses_event_time_def)
  next
    case (HoppingEventTime sz slide)
    then show ?thesis using step_ok_mono [OF et] unfolding on_row_kind_def by (intro step_ok_get) (simp add: uses_event_time_def)
  next
    case (HoppingProcessingTime sz slide)
    then show ?thesis using step_ok_mono [OF hopping_rows_ok [OF ok wide]] unfolding on_row_kind_def by (intro step_ok_get) (simp add: is_hopping_pt_def)
  qed (use kd in \<open>simp_all add: kind_ok_def is_buffered_def\<close>)
qed

lemma on_row_ok:
  assumes ok: "window_ok st w0" and wide: "wide_row w0 r"
  shows "step_ok st w0 (on_row W r now) (\<lambda>w _. is_count (ws_kind (w_spec w0)) \<or> keeps_complete w0 w)"
  unfolding on_row_def
proof (rule step_ok_bind [OF hopping_now_ok [OF ok]], goal_cases)
  case (1 st1 w1 t)
  then obtain c where w1: "w1 = w0\<lparr>w_clock_high := c\<rparr>" by blast
  show ?case
  proof (rule step_ok_bind [OF scratch_again_ok [OF 1(1)]], goal_cases)
    case (1 st2 w2 u)
    then obtain l n where w2: "w2 = w1\<lparr>w_scratch_lease := l, w_scratch_cap := n\<rparr>" by blast
    have wide2: "wide_row w2 r" using wide by (simp add: w1 w2 wide_row_def)
    have kc: "keeps_complete w2 w = keeps_complete w0 w" for w by (simp add: w1 w2 keeps_complete_def all_timed_def)
    have k: "ws_kind (w_spec w2) = ws_kind (w_spec w0)" by (simp add: w1 w2)
    show ?case using on_row_kind_ok [OF 1(1) wide2, of W t] by (simp add: kc k)
  qed
qed

section \<open>Closing by watermark\<close>

text \<open>A step that cannot fail.\<close>

definition returns :: "store \<Rightarrow> window_op \<Rightarrow> (window_op, 'a) eff \<Rightarrow> (window_op \<Rightarrow> 'a \<Rightarrow> bool) \<Rightarrow> bool" where
  "returns st w m Q \<longleftrightarrow> (\<exists>st' w' x. m (st, w) = Some ((st', w'), Ok x) \<and> window_ok st' w' \<and> cfg w' = cfg w \<and> Q w' x)"

lemma returns_step: "returns st w m Q \<Longrightarrow> step_ok st w m Q"
  by (auto simp: returns_def step_ok_def)

lemma returns_ret: "window_ok st w \<Longrightarrow> Q w x \<Longrightarrow> returns st w (eret x) Q"
  by (simp add: returns_def)

lemma returns_get: "returns st w (f w) Q \<Longrightarrow> returns st w (ebind eget f) Q"
  by (simp add: returns_def)

lemma returns_bind:
  assumes "returns st w0 m Q" "\<And>st1 w1 x. window_ok st1 w1 \<Longrightarrow> cfg w1 = cfg w0 \<Longrightarrow> Q w1 x \<Longrightarrow> returns st1 w1 (f x) R"
  shows "returns st w0 (ebind m f) R"
proof -
  from assms(1) obtain st1 w1 x where m: "m (st, w0) = Some ((st1, w1), Ok x)" "window_ok st1 w1" "cfg w1 = cfg w0" "Q w1 x"
    by (auto simp: returns_def)
  from assms(2) [OF m(2-4)] m(1,3) show ?thesis by (simp add: returns_def ebind_step(1) [of m])
qed

lemma returns_mono: "returns st w m Q \<Longrightarrow> (\<And>w x. Q w x \<Longrightarrow> Q' w x) \<Longrightarrow> returns st w m Q'"
  by (auto simp: returns_def)

lemma step_ok_bind_returns:
  assumes "returns st w0 m Q" "\<And>st1 w1 x. window_ok st1 w1 \<Longrightarrow> cfg w1 = cfg w0 \<Longrightarrow> Q w1 x \<Longrightarrow> step_ok st1 w1 (f x) R"
  shows "step_ok st w0 (ebind m f) R"
  by (rule step_ok_bind [OF returns_step [OF assms(1)] assms(2)])

text \<open>The rows of the windows that end by \<open>wm\<close>, in index order.\<close>

definition emission :: "window_op \<Rightarrow> (int \<times> bytes) \<times> state_key \<Rightarrow> row" where
  "emission w x = emit_tumble (emitted_group w (snd x)) (the (windows w (snd (fst x))))"

definition due_rows :: "int \<Rightarrow> window_op \<Rightarrow> row list" where
  "due_rows wm w = map (emission w) (takeWhile (\<lambda>x. fst (fst x) \<le> wm) (w_index w))"

definition closes :: "int \<Rightarrow> window_op \<Rightarrow> window_op \<Rightarrow> bool" where
  "closes wm w w' \<longleftrightarrow> w_timers w' = w_timers w \<and> (all_indexed w \<longrightarrow> all_indexed w') \<and>
     (\<forall>enc. windows w' enc = windows w enc \<or> windows w' enc = None \<and> (\<exists>v. windows w enc = Some v \<and> te_end v \<le> wm))"

lemma closes_refl [simp]: "closes wm w w"
  by (simp add: closes_def)

lemma closes_trans: "closes wm a b \<Longrightarrow> closes wm b c \<Longrightarrow> closes wm a c"
  unfolding closes_def by metis

text \<open>The index loses a prefix of due entries.\<close>

definition front_taken :: "int \<Rightarrow> window_op \<Rightarrow> window_op \<Rightarrow> bool" where
  "front_taken wm w w' \<longleftrightarrow> (\<exists>pre. w_index w = pre @ w_index w' \<and> (\<forall>x \<in> set pre. fst (fst x) \<le> wm))"

lemma front_taken_refl [simp]: "front_taken wm w w"
  by (simp add: front_taken_def)

lemma front_taken_trans: "front_taken wm a b \<Longrightarrow> front_taken wm b c \<Longrightarrow> front_taken wm a c"
  unfolding front_taken_def by (metis append.assoc UnE set_append)

lemma index_entry:
  assumes "window_inv st w" "((t, enc), k) \<in> set (w_index w)"
  obtains v where "windows w enc = Some v" "te_end v = t" "own_key w k" "sk_encoded k = enc"
proof -
  have own: "own_key w k" using index_names [OF assms(1)] assms(2) by (auto simp: list_all_iff)
  obtain s where s: "w_store w = TumbleStore s" using assms by (cases "w_store w") (auto simp: window_inv_def store_ok_def)
  have ii: "index_inv te_end window_slot (w_operator w) (w_owner w) (w_index w, w_index_bytes w) s st"
    using assms(1) s by (simp add: window_inv_def store_ok_def)
  have "(t, enc) \<in> fst ` set (w_index w)" using assms(2) by force
  with ii obtain e where "map_of (ms_entries s) (w_operator w, window_slot, enc) = Some e" "t = te_end (e_value e)"
    by (auto simp: index_inv_def index_points_def)
  moreover have "index_ok window_slot (w_owner w) (w_operator w) ((t, enc), k)" using ii assms(2) by (auto simp: index_inv_def list_all_iff)
  ultimately show thesis using s own by (intro that [of "e_value e"]) (auto simp: windows_def index_ok_def key_id_def)
qed

lemma index_sorted: "window_inv st w \<Longrightarrow> bt_inv (w_index w)"
  by (auto simp: window_inv_def store_ok_def index_inv_def split: window_store.splits)

lemma hm_del_head: "bt_inv ((i, k) # es) \<Longrightarrow> hm_del i ((i, k) # es) = es"
  by (auto simp: bt_inv_def hm_del_def filter_id_conv)

text \<open>Taking the window of an index entry, wherever the entry stands.\<close>

lemma take_indexed:
  assumes ok: "window_ok st w" and x: "((t, enc), k) \<in> set (w_index w)"
  obtains st1 w1 st2 w2 v where "tumble_remove k (st, w) = Some ((st1, w1), Ok (Some v))"
    "window_index_remove k t (st1, w1) = Some ((st2, w2), Ok ())" "window_ok st2 w2" "taken enc v w w2" "windows w enc = Some v" "te_end v = t"
proof -
  have inv: "window_inv st w" using ok by (simp add: window_ok_def)
  obtain v where v: "windows w enc = Some v" "te_end v = t" "own_key w k" "sk_encoded k = enc" by (rule index_entry [OF inv x])
  have vk: "windows w (sk_encoded k) = Some v" using v by simp
  from take_window_ok [OF inv v(3) vk] obtain st1 w1 st2 w2 where
    r: "tumble_remove k (st, w) = Some ((st1, w1), Ok (Some v))" "window_index_remove k (te_end v) (st1, w1) = Some ((st2, w2), Ok ())"
      "window_inv st2 w2" "taken enc v w w2" using v(4) by blast
  have "base w2 = base w" "is_tumble (w_store w2)" "is_tumble (w_store w)" using r(4) v(1) by (auto simp: taken_def windows_def split: window_store.splits)
  then have "window_ok st2 w2" using r(3) ok kind_ok_cfg [OF _ base_cfg] by (auto simp: window_ok_def)
  then show thesis using r(1,2,4) v(1,2) by (intro that [of st1 w1 v st2 w2]) auto
qed

lemma take_closed_head:
  assumes ok: "window_ok st w" and hd: "w_index w = ((t, enc), k) # es" and t: "t \<le> wm"
  obtains st' w' v where "take_closed_one wm (st, w) = Some ((st', w'), Ok (Some (emit_tumble (emitted_group w k) v)))"
    "window_ok st' w'" "taken enc v w w'" "windows w enc = Some v" "te_end v = t" "w_index w' = es"
proof -
  have x: "((t, enc), k) \<in> set (w_index w)" using hd by simp
  obtain st1 w1 st2 w2 v where r: "tumble_remove k (st, w) = Some ((st1, w1), Ok (Some v))"
    "window_index_remove k t (st1, w1) = Some ((st2, w2), Ok ())" "window_ok st2 w2" "taken enc v w w2" "windows w enc = Some v" "te_end v = t"
    by (rule take_indexed [OF ok x])
  have "next_closed_key wm w = Some k" using hd t by (simp add: next_closed_key_def)
  then have run: "take_closed_one wm (st, w) = Some ((st2, w2), Ok (Some (emit_tumble (emitted_group w k) v)))"
    using r(1,2,6) by (simp add: take_closed_one_def ebind_step(1) [of "tumble_remove k"] ebind_step(1) [of "window_index_remove k t"])
  moreover have "w_index w2 = es"
    using r(4,6) hd hm_del_head [of "(t, enc)" k es] index_sorted [of st w] ok by (simp add: taken_def window_ok_def)
  ultimately show thesis by (intro that [OF run r(3-6)])
qed

lemma emission_taken:
  assumes inv: "window_inv st' w'" and tk: "taken enc v w w'" and x: "x \<in> set (w_index w')"
  shows "emission w x = emission w' x"
proof -
  have "base w' = base w" using tk by (simp add: taken_def)
  note b = baseD [OF this]
  obtain t' enc' k' where x': "x = ((t', enc'), k')" by (metis surj_pair)
  from x x' obtain v' where "windows w' enc' = Some v'" using index_entry [OF inv, of t' enc' k'] by metis
  then have "enc' \<noteq> enc" "windows w enc' = Some v'" using tk by (auto simp: taken_def split: if_splits)
  then show ?thesis using tk b x' by (simp add: emission_def taken_def emitted_group_def suffixed_key_def)
qed

lemma due_rows_taken:
  assumes inv: "window_inv st' w'" and tk: "taken enc v w w'" and hd: "w_index w = ((t, enc), k) # w_index w'" and t: "t \<le> wm"
    and v: "windows w enc = Some v"
  shows "due_rows wm w = emit_tumble (emitted_group w k) v # due_rows wm w'"
  using emission_taken [OF inv tk] hd t v by (auto simp: due_rows_def emission_def dest!: set_takeWhileD)

lemma next_closed_cases:
  obtains (none) "next_closed_key wm w = None" "due_rows wm w = []"
  | (due) t enc k es where "next_closed_key wm w = Some k" "w_index w = ((t, enc), k) # es" "t \<le> wm" "due_rows wm w \<noteq> []"
proof (cases "w_index w")
  case Nil
  then show thesis by (intro none) (simp_all add: next_closed_key_def due_rows_def)
next
  case (Cons x es)
  obtain t enc k where x: "x = ((t, enc), k)" by (metis surj_pair)
  show thesis
  proof (cases "t \<le> wm")
    case True
    with Cons x show thesis by (intro due [of k t enc es]) (simp_all add: next_closed_key_def due_rows_def)
  next
    case False
    with Cons x show thesis by (intro none) (simp_all add: next_closed_key_def due_rows_def)
  qed
qed

lemma take_closed_one_ok:
  assumes ok: "window_ok st w"
  shows "returns st w (take_closed_one wm) (\<lambda>w' r. closes wm w w' \<and> front_taken wm w w' \<and>
    (case due_rows wm w of [] \<Rightarrow> r = None \<and> w' = w | row # rows \<Rightarrow> r = Some row \<and> due_rows wm w' = rows \<and> length (w_index w') < length (w_index w)))"
proof (cases rule: next_closed_cases [of wm w])
  case none
  with ok show ?thesis by (simp add: take_closed_one_def returns_def)
next
  case (due t enc k es)
  note hd = due(2,3)
  obtain st' w' v where c: "take_closed_one wm (st, w) = Some ((st', w'), Ok (Some (emit_tumble (emitted_group w k) v)))"
    "window_ok st' w'" "taken enc v w w'" "windows w enc = Some v" "te_end v = t" "w_index w' = es"
    by (rule take_closed_head [OF ok hd])
  have "due_rows wm w = emit_tumble (emitted_group w k) v # due_rows wm w'"
    using due_rows_taken [OF _ c(3) _ hd(2) c(4), of st' k] c(2,6) hd(1) by (simp add: window_ok_def)
  moreover have "closes wm w w'" using c(3-5) hd(2) by (auto simp: closes_def taken_def)
  moreover have "front_taken wm w w'" using c(6) hd by (auto simp: front_taken_def)
  moreover have "cfg w' = cfg w" by (rule base_cfg) (use c(3) in \<open>simp add: taken_def\<close>)
  moreover have "length (w_index w') < length (w_index w)" using c(6) hd(1) by simp
  ultimately show ?thesis using c(1,2) by (simp add: returns_def)
qed

lemma drain_closed_ok:
  assumes "window_ok st w" "length (w_index w) < n"
  shows "returns st w (eloop n (take_closed_one wm)) (\<lambda>w' rows. rows = due_rows wm w \<and> due_rows wm w' = [] \<and> closes wm w w')"
  using assms
proof (induction n arbitrary: st w)
  case (Suc n)
  show ?case unfolding eloop.simps
  proof (rule returns_bind [OF take_closed_one_ok [OF Suc.prems(1)]], goal_cases)
    case (1 st1 w1 r)
    show ?case
    proof (cases "due_rows wm w")
      case Nil
      with 1 show ?thesis by (simp add: returns_ret)
    next
      case (Cons row rows)
      with 1 have w1: "closes wm w w1" "r = Some row" "due_rows wm w1 = rows" "length (w_index w1) < n" using Suc.prems(2) by auto
      have "returns st1 w1 (ebind (eloop n (take_closed_one wm)) (\<lambda>xs. eret (row # xs)))
          (\<lambda>w' xs. xs = due_rows wm w \<and> due_rows wm w' = [] \<and> closes wm w w')"
      proof (rule returns_bind [OF Suc.IH [OF 1(1) w1(4)]], goal_cases)
        case (1 st2 w2 xs)
        then show ?case using w1 Cons closes_trans [OF w1(1), of w2] by (intro returns_ret) auto
      qed
      then show ?thesis using w1(2) by simp
    qed
  qed
qed simp

lemma chunk_loop_ok:
  assumes "window_ok st w"
  shows "returns st w (take_chunk_loop W n wm mb bs out) (\<lambda>w' rows. closes wm w w' \<and> front_taken wm w w' \<and>
    (\<exists>m \<le> n. rows = out @ take m (due_rows wm w) \<and> due_rows wm w' = drop m (due_rows wm w) \<and> (out = [] \<longrightarrow> 0 < n \<longrightarrow> due_rows wm w \<noteq> [] \<longrightarrow> 0 < m)))"
  using assms
proof (induction n arbitrary: st w bs out)
  case 0
  then show ?case by (simp add: returns_def)
next
  case (Suc n)
  show ?case
  proof (cases "due_rows wm w")
    case Nil
    then have "next_closed_key wm w = None" by (cases rule: next_closed_cases [of wm w]) simp_all
    then have p: "peek_closed_bytes W wm w = None" by (simp add: peek_closed_bytes_def)
    show ?thesis unfolding take_chunk_loop.simps
      by (rule returns_get) (use Nil p Suc.prems in \<open>auto simp: returns_def\<close>)
  next
    case (Cons row rows)
    have inv: "window_inv st w" using Suc.prems by (simp add: window_ok_def)
    obtain t enc k es where hd: "w_index w = ((t, enc), k) # es" "t \<le> wm"
      by (cases rule: next_closed_cases [of wm w]) (use Cons in auto)
    obtain v where v: "windows w enc = Some v" "own_key w k" "sk_encoded k = enc" by (rule index_entry [OF inv, of t enc k]) (use hd in simp)
    have peek: "peek_closed_bytes W wm w = Some (accs_bytes W (te_accs v) + 32)"
      using hd v tumble_get_windows [OF v(2)] by (simp add: peek_closed_bytes_def next_closed_key_def)
    let ?stop = "out \<noteq> [] \<and> sat_u64 (bs + (accs_bytes W (te_accs v) + 32)) > mb"
    show ?thesis
    proof (cases ?stop)
      case True
      with peek Suc.prems show ?thesis by (simp add: returns_def) (auto intro: exI [of _ 0])
    next
      case False
      have "returns st w (ebind (take_closed_one wm) (\<lambda>r. case r of None \<Rightarrow> eret out
            | Some row \<Rightarrow> take_chunk_loop W n wm mb (sat_u64 (bs + row_tracked_bytes row)) (out @ [row])))
          (\<lambda>w' rows. closes wm w w' \<and> front_taken wm w w' \<and> (\<exists>m \<le> Suc n. rows = out @ take m (due_rows wm w) \<and> due_rows wm w' = drop m (due_rows wm w) \<and>
            (out = [] \<longrightarrow> 0 < Suc n \<longrightarrow> due_rows wm w \<noteq> [] \<longrightarrow> 0 < m)))"
      proof (rule returns_bind [OF take_closed_one_ok [OF Suc.prems]], goal_cases)
        case (1 st1 w1 r)
        then have w1: "closes wm w w1" "r = Some row" "due_rows wm w1 = rows" "front_taken wm w w1" using Cons by simp_all
        have "returns st1 w1 (take_chunk_loop W n wm mb (sat_u64 (bs + row_tracked_bytes row)) (out @ [row]))
            (\<lambda>w' rows. closes wm w w' \<and> front_taken wm w w' \<and> (\<exists>m \<le> Suc n. rows = out @ take m (due_rows wm w) \<and> due_rows wm w' = drop m (due_rows wm w) \<and>
            (out = [] \<longrightarrow> 0 < Suc n \<longrightarrow> due_rows wm w \<noteq> [] \<longrightarrow> 0 < m)))"
        proof (rule returns_mono [OF Suc.IH [OF 1(1)]], goal_cases)
          case (1 w2 xs)
          then obtain m where "m \<le> n" "xs = (out @ [row]) @ take m rows" "due_rows wm w2 = drop m rows" using w1(3) by auto
          then show ?case using 1 Cons closes_trans [OF w1(1), of w2] front_taken_trans [OF w1(4), of w2] by (auto intro!: exI [of _ "Suc m"])
        qed
        then show ?case using w1(2) by simp
      qed
      then show ?thesis unfolding take_chunk_loop.simps
        by (intro returns_get) (simp only: peek option.case False if_False simp_thms)
    qed
  qed
qed

lemma closed_exactly:
  assumes "window_ok st w" "window_ok st' w'" "closes wm w w'" "due_rows wm w' = []" "all_indexed w"
  shows "windows w' = (\<lambda>enc. case windows w enc of Some v \<Rightarrow> if te_end v \<le> wm then None else Some v | None \<Rightarrow> None)"
proof
  fix enc
  have no: "te_end v > wm" if v: "windows w' enc = Some v" for v
  proof -
    obtain s where s: "w_store w' = TumbleStore s" by (cases "w_store w'") (use v in \<open>simp_all add: windows_def\<close>)
    have "all_indexed w'" using assms(3,5) by (simp add: closes_def)
    then have "(te_end v, enc) \<in> fst ` set (w_index w')" using v s by (auto simp: all_indexed_def index_covers_def windows_def)
    then obtain x es where x: "w_index w' = x # es" "(te_end v, enc) \<in> fst ` set (x # es)" by (cases "w_index w'") auto
    have "bt_inv (x # es)" using index_sorted [of st' w'] assms(2) x(1) by (simp add: window_ok_def)
    then have "fst (fst x) \<le> te_end v" using index_later [of "fst (fst x)" "snd (fst x)" "snd x" es "te_end v" enc] x(2) by simp
    moreover have "\<not> fst (fst x) \<le> wm" using assms(4) x(1) by (auto simp: due_rows_def split: if_splits)
    ultimately show ?thesis by simp
  qed
  show "windows w' enc = (case windows w enc of Some v \<Rightarrow> if te_end v \<le> wm then None else Some v | None \<Rightarrow> None)"
  proof -
    have "windows w' enc = windows w enc \<or> windows w' enc = None \<and> (\<exists>v. windows w enc = Some v \<and> te_end v \<le> wm)"
      using assms(3) unfolding closes_def by blast
    then show ?thesis
    proof
      assume "windows w' enc = windows w enc"
      then show ?thesis using no by (cases "windows w enc") auto
    qed auto
  qed
qed

end
