(* ===== verification/Window_Fire.thy ===== *)
theory Window_Fire
  imports Window_Close
begin

text \<open>
  Processing-time firing: the due timers name the window ends to flush, and flushing them emits
  exactly the rows of the windows that end by the clock, in index order.
\<close>

section \<open>Flushing the windows of one end\<close>

definition at_end :: "int \<Rightarrow> (int \<times> bytes) \<times> state_key \<Rightarrow> bool" where
  "at_end t x \<longleftrightarrow> fst (fst x) = t"

lemma first_at_cases:
  assumes "bt_inv ix"
  obtains (none) "first_at t ix = None" "filter (at_end t) ix = []"
  | (some) us enc k vs where "ix = us @ ((t, enc), k) # vs" "filter (at_end t) us = []" "first_at t ix = Some k"
proof -
  let ?P = "\<lambda>(i, _ :: state_key). i < (t, [] :: bytes)"
  have before: "fst (fst x) < t" if "x \<in> set (takeWhile ?P ix)" for x
    using set_takeWhileD [OF that] by (auto simp: less_prod_def split: prod.splits)
  then have us: "filter (at_end t) (takeWhile ?P ix) = []" by (fastforce simp: at_end_def filter_empty_conv)
  show thesis
  proof (cases "dropWhile ?P ix")
    case Nil
    then have "takeWhile ?P ix = ix" using takeWhile_dropWhile_id [of ?P ix] by simp
    with us have "filter (at_end t) ix = []" by simp
    moreover have "first_at t ix = None" unfolding first_at_def Nil by simp
    ultimately show thesis by (intro none)
  next
    case (Cons x vs)
    obtain t' enc k where x: "x = ((t', enc), k)" by (metis surj_pair)
    have "\<not> ?P x" using hd_dropWhile [of ?P ix] Cons by simp
    then have ge: "t \<le> t'" using x by (auto simp: less_prod_def)
    have split: "ix = takeWhile ?P ix @ x # vs" using takeWhile_dropWhile_id [of ?P ix] Cons by simp
    show thesis
    proof (cases "t' = t")
      case True
      with Cons x us split show thesis by (intro some [of "takeWhile ?P ix" enc k vs]) (simp_all add: first_at_def)
    next
      case False
      have "bt_inv (x # vs)" using assms split by (metis bt_inv_def map_append sorted_wrt_append)
      then have "fst (fst y) \<ge> t'" if "y \<in> set (x # vs)" for y
        using index_later [of t' enc k vs "fst (fst y)" "snd (fst y)"] that x by (auto simp: image_iff)
      then have "filter (at_end t) (x # vs) = []" using False ge unfolding filter_empty_conv at_end_def by fastforce
      with us split have "filter (at_end t) ix = []" by (metis append_Nil filter_append)
      then show thesis using Cons x False by (intro none) (simp_all add: first_at_def)
    qed
  qed
qed

definition keeps_emission :: "window_op \<Rightarrow> window_op \<Rightarrow> bool" where
  "keeps_emission w w' \<longleftrightarrow> set (w_index w') \<subseteq> set (w_index w) \<and> (\<forall>x \<in> set (w_index w'). emission w' x = emission w x)"

lemma keeps_emission_refl [simp]: "keeps_emission w w"
  by (simp add: keeps_emission_def)

lemma keeps_emission_trans: "keeps_emission a b \<Longrightarrow> keeps_emission b c \<Longrightarrow> keeps_emission a c"
  by (auto simp: keeps_emission_def)

lemma hm_del_middle: "bt_inv (us @ (i, k) # vs) \<Longrightarrow> hm_del i (us @ (i, k) # vs) = us @ vs"
proof -
  assume "bt_inv (us @ (i, k) # vs)"
  then have "\<forall>x \<in> set us. fst x < i" "\<forall>x \<in> set vs. i < fst x" by (auto simp: bt_inv_def sorted_wrt_append)
  then have "filter (\<lambda>kv. fst kv \<noteq> i) us = us" "filter (\<lambda>kv. fst kv \<noteq> i) vs = vs" by (auto simp: filter_id_conv)
  then show ?thesis by (simp add: hm_del_def)
qed

definition flushes :: "int \<Rightarrow> window_op \<Rightarrow> window_op \<Rightarrow> row list \<Rightarrow> bool" where
  "flushes t w w' rows \<longleftrightarrow> rows = map (emission w) (filter (at_end t) (w_index w)) \<and>
     w_index w' = filter (\<lambda>x. \<not> at_end t x) (w_index w) \<and> keeps_emission w w'"

lemma flush_step_ok:
  assumes ok: "window_ok st w" and t: "t \<le> now"
  shows "returns st w (flush_step t) (\<lambda>w' r. closes now w w' \<and>
    (case r of None \<Rightarrow> w' = w \<and> filter (at_end t) (w_index w) = []
     | Some rows \<Rightarrow> length (w_index w') < length (w_index w) \<and> keeps_emission w w' \<and>
         (\<forall>w'' rs. flushes t w' w'' rs \<longrightarrow> flushes t w w'' (rows @ rs))))"
proof -
  have sorted: "bt_inv (w_index w)" using ok index_sorted by (auto simp: window_ok_def)
  from sorted show ?thesis
  proof (cases rule: first_at_cases [of "w_index w" t])
    case none
    with ok show ?thesis by (simp add: flush_step_def returns_def)
  next
    case (some us enc k vs)
    have x: "((t, enc), k) \<in> set (w_index w)" using some(1) by simp
    obtain st1 w1 st2 w2 v where r: "tumble_remove k (st, w) = Some ((st1, w1), Ok (Some v))"
      "window_index_remove k t (st1, w1) = Some ((st2, w2), Ok ())" "window_ok st2 w2" "taken enc v w w2" "windows w enc = Some v" "te_end v = t"
      by (rule take_indexed [OF ok x])
    have run: "flush_step t (st, w) = Some ((st2, w2), Ok (Some [emission w ((t, enc), k)]))"
      using some(3) r by (simp add: flush_step_def emission_def ebind_step(1) [of "tumble_remove k"] ebind_step(1) [of "window_index_remove k t"])
    have ix: "w_index w2 = us @ vs" using r(4,6) some(1) sorted hm_del_middle [of us "(t, enc)" k vs] by (simp add: taken_def)
    have keep: "keeps_emission w w2"
      using emission_taken [of st2 w2 enc v w] r(3,4) ix some(1) by (auto simp: keeps_emission_def window_ok_def)
    have cl: "closes now w w2" using r(4-6) t by (auto simp: closes_def taken_def)
    have "flushes t w w'' ([emission w ((t, enc), k)] @ rs)" if "flushes t w2 w'' rs" for w'' rs
      using that ix some(1,2) keep keeps_emission_trans [OF keep, of w'']
      by (auto simp: flushes_def at_end_def keeps_emission_def)
    moreover have "cfg w2 = cfg w" by (rule base_cfg) (use r(4) in \<open>simp add: taken_def\<close>)
    moreover have "length (w_index w2) < length (w_index w)" using ix some(1) by simp
    ultimately show ?thesis using run r(3) cl keep by (simp add: returns_def)
  qed
qed

lemma flush_loop_ok:
  assumes "window_ok st w" "length (w_index w) < n" "t \<le> now"
  shows "returns st w (eloop n (flush_step t)) (\<lambda>w' rs. closes now w w' \<and> flushes t w w' (concat rs))"
  using assms
proof (induction n arbitrary: st w)
  case (Suc n)
  show ?case unfolding eloop.simps
  proof (rule returns_bind [OF flush_step_ok [OF Suc.prems(1,3)]], goal_cases)
    case (1 st1 w1 r)
    show ?case
    proof (cases r)
      case None
      with 1 show ?thesis by (auto simp: flushes_def at_end_def filter_empty_conv filter_id_conv intro!: returns_ret)
    next
      case (Some rows)
      with 1 have w1: "closes now w w1" "length (w_index w1) < n" "\<And>w'' rs. flushes t w1 w'' rs \<Longrightarrow> flushes t w w'' (rows @ rs)"
        using Suc.prems(2) by auto
      have "returns st1 w1 (ebind (eloop n (flush_step t)) (\<lambda>xs. eret (rows # xs))) (\<lambda>w' rs. closes now w w' \<and> flushes t w w' (concat rs))"
      proof (rule returns_bind [OF Suc.IH [OF 1(1) w1(2) Suc.prems(3)]], goal_cases)
        case (1 st2 w2 xs)
        then show ?case using closes_trans [OF w1(1), of w2] w1(3) by (intro returns_ret) auto
      qed
      then show ?thesis using Some by simp
    qed
  qed
qed simp

section \<open>All due ends\<close>

lemma filter_by_key:
  fixes f :: "'a \<Rightarrow> 'b::linorder"
  assumes "sorted (map f xs)" "sorted ts" "distinct ts"
  shows "concat (map (\<lambda>t. filter (\<lambda>x. f x = t) xs) ts) = filter (\<lambda>x. f x \<in> set ts) xs"
  using assms(2,3)
proof (induction ts)
  case (Cons t ts)
  have "filter (\<lambda>x. f x \<in> set (t # ts)) xs = filter (\<lambda>x. f x = t) xs @ filter (\<lambda>x. f x \<in> set ts) xs"
    using assms(1)
  proof (induction xs)
    case (Cons x xs)
    show ?case
    proof (cases "f x = t")
      case True
      then show ?thesis using Cons \<open>distinct (t # ts)\<close> by simp
    next
      case False
      have "filter (\<lambda>y. f y = t) xs = []" if "f x \<in> set ts"
      proof -
        have "t < f x" using that False \<open>sorted (t # ts)\<close> by force
        then show ?thesis using Cons.prems by (fastforce simp: filter_empty_conv)
      qed
      then show ?thesis using False Cons by auto
    qed
  qed simp
  with Cons show ?case by simp
qed simp

lemma flush_tumble_ends_ok:
  assumes "window_ok st w" "distinct ts" "\<forall>t \<in> set ts. t \<le> now"
  shows "returns st w (flush_tumble_ends ts) (\<lambda>w' rows. closes now w w' \<and>
    rows = map (emission w) (concat (map (\<lambda>t. filter (at_end t) (w_index w)) ts)) \<and>
    w_index w' = filter (\<lambda>x. fst (fst x) \<notin> set ts) (w_index w) \<and> keeps_emission w w')"
  using assms
proof (induction ts arbitrary: st w)
  case Nil
  then show ?case unfolding flush_tumble_ends.simps by (intro returns_ret) auto
next
  case (Cons t ts)
  have t: "t \<le> now" using Cons.prems by simp
  show ?case unfolding flush_tumble_ends.simps
  proof (intro returns_get returns_bind [OF flush_loop_ok [OF Cons.prems(1) lessI t]], goal_cases)
    case (1 st1 w1 rs)
    then have w1: "closes now w w1" "flushes t w w1 (concat rs)" by simp_all
    have "returns st1 w1 (flush_tumble_ends ts) (\<lambda>w' rows. closes now w1 w' \<and>
        rows = map (emission w1) (concat (map (\<lambda>t. filter (at_end t) (w_index w1)) ts)) \<and>
        w_index w' = filter (\<lambda>x. fst (fst x) \<notin> set ts) (w_index w1) \<and> keeps_emission w1 w')"
      by (rule Cons.IH) (use 1 Cons.prems in auto)
    then show ?case
    proof (rule returns_bind, goal_cases)
      case (1 st2 w2 rows)
      have "filter (at_end t') (w_index w1) = filter (at_end t') (w_index w)" if "t' \<in> set ts" for t'
        using w1(2) Cons.prems(2) that by (auto simp: flushes_def at_end_def intro!: filter_cong)
      then have same: "map (\<lambda>t. filter (at_end t) (w_index w1)) ts = map (\<lambda>t. filter (at_end t) (w_index w)) ts" by simp
      have "map (emission w1) (concat (map (\<lambda>t. filter (at_end t) (w_index w1)) ts)) =
          map (emission w) (concat (map (\<lambda>t. filter (at_end t) (w_index w1)) ts))"
        using w1(2) by (auto simp: flushes_def keeps_emission_def)
      then have "rows = map (emission w) (concat (map (\<lambda>t. filter (at_end t) (w_index w)) ts))" using 1 unfolding same by simp
      moreover have "w_index w2 = filter (\<lambda>x. fst (fst x) \<notin> set (t # ts)) (w_index w)"
        using 1 w1(2) by (auto simp: flushes_def at_end_def intro!: filter_cong)
      moreover have "closes now w w2" "keeps_emission w w2"
        using closes_trans [OF w1(1)] keeps_emission_trans [of w w1 w2] 1 w1(2) by (auto simp: flushes_def)
      ultimately show ?case using 1(1) w1(2) by (intro returns_ret) (simp_all add: flushes_def)
    qed
  qed
qed


definition due_ends :: "int \<Rightarrow> bounded_timers \<Rightarrow> int list" where
  "due_ends now t = sort (remdups (map (\<lambda>i. u64_as_i64 (t_namespace i)) (snd (fire_due now t))))"

lemma due_ends_spec:
  assumes ok: "timers_ok op t" and f: "fire_due now t = (t', due)"
  shows "sorted (due_ends now t)" "distinct (due_ends now t)"
    "set (due_ends now t) = {at. at \<le> now \<and> pending_at t (timer_window op at) = Some at}"
    "timers_ok op t'" "\<And>i at. pending_at t' i = Some at \<longleftrightarrow> pending_at t i = Some at \<and> now < at"
proof -
  have inv: "timers_inv t" using ok by (simp add: timers_ok_def)
  note fd = fire_due_spec [OF inv f]
  show "sorted (due_ends now t)" "distinct (due_ends now t)" by (simp_all add: due_ends_def)
  have named: "is_i64 at \<and> i = timer_window op at" if "pending_at t i = Some at" for i at using ok that by (auto simp: timers_ok_def)
  then show "set (due_ends now t) = {at. at \<le> now \<and> pending_at t (timer_window op at) = Some at}"
    using fd f by (force simp: due_ends_def timer_window_def image_iff)
  show p: "pending_at t' i = Some at \<longleftrightarrow> pending_at t i = Some at \<and> now < at" for i at using fd by (auto simp: not_le split: if_splits)
  show "timers_ok op t'" unfolding timers_ok_def
  proof (intro conjI allI impI)
    show "timers_inv t'" "is_u64 (bt_max t')" "bt_operator t' = op" using fd fire_due_max [OF f] ok by (simp_all add: timers_ok_def)
    fix i at assume "pending_at t' i = Some at"
    then show "is_i64 at" "i = timer_window op at" using p named by auto
  qed
qed

lemma index_by_end: "bt_inv ix \<Longrightarrow> sorted (map (\<lambda>x. fst (fst x)) ix)"
proof (induction ix)
  case (Cons x ix)
  then show ?case using index_later [of "fst (fst x)" "snd (fst x)" "snd x" ix] by (auto simp: bt_inv_def image_iff) force
qed simp

lemma takeWhile_sorted_le:
  fixes f :: "'a \<Rightarrow> 'b::linorder"
  shows "sorted (map f xs) \<Longrightarrow> takeWhile (\<lambda>x. f x \<le> c) xs = filter (\<lambda>x. f x \<le> c) xs"
proof (induction xs)
  case (Cons x xs)
  have "\<not> f y \<le> c" if "\<not> f x \<le> c" "y \<in> set xs" for y using Cons.prems that by (auto dest: order_trans)
  then have "filter (\<lambda>x. f x \<le> c) xs = []" if "\<not> f x \<le> c" using that by (simp add: filter_empty_conv)
  with Cons show ?case by simp
qed simp

lemma due_rows_none: "(\<And>x. x \<in> set (w_index w) \<Longrightarrow> now < fst (fst x)) \<Longrightarrow> due_rows now w = []"
  by (cases "w_index w") (fastforce simp: due_rows_def)+

lemma returns_inv: "returns st w m Q \<Longrightarrow> returns st w m (\<lambda>w' x. Q w' x \<and> cfg w' = cfg w \<and> (\<exists>st'. window_ok st' w'))"
  by (auto simp: returns_def)

text \<open>What firing at \<open>now\<close> does to an operator whose windows are all indexed and timed.\<close>

definition fires :: "int \<Rightarrow> window_op \<Rightarrow> window_op \<Rightarrow> row list \<Rightarrow> bool" where
  "fires now w w' rows \<longleftrightarrow> all_indexed w \<and> all_timed w \<longrightarrow>
     rows = due_rows now w \<and> all_indexed w' \<and> all_timed w' \<and>
     windows w' = (\<lambda>enc. case windows w enc of Some v \<Rightarrow> if te_end v \<le> now then None else Some v | None \<Rightarrow> None)"

lemma flush_due_ok:
  assumes ok: "window_ok st w" and f: "fire_due now (w_timers w) = (t', due)"
  shows "returns st (w\<lparr>w_timers := t'\<rparr>) (flush_tumble_ends (due_ends now (w_timers w))) (fires now w)"
proof -
  let ?w = "w\<lparr>w_timers := t'\<rparr>" and ?ts = "due_ends now (w_timers w)"
  have inv: "window_inv st w" and kd: "kind_ok w" and tok: "timers_ok (w_operator w) (w_timers w)" using ok by (simp_all add: window_ok_def window_inv_def)
  note d = due_ends_spec [OF tok f]
  have ok': "window_ok st ?w" using inv kd d(4) by (simp add: window_ok_def window_inv_def)
  have le: "\<forall>t \<in> set ?ts. t \<le> now" using d(3) by simp
  show ?thesis
  proof (rule returns_mono [OF returns_inv [OF flush_tumble_ends_ok [OF ok' d(2) le]]], goal_cases)
    case (1 w' rows)
    then have w': "closes now ?w w'" "rows = map (emission ?w) (concat (map (\<lambda>t. filter (at_end t) (w_index w)) ?ts))"
      "w_index w' = filter (\<lambda>x. fst (fst x) \<notin> set ?ts) (w_index w)" "cfg w' = cfg ?w" "\<exists>st'. window_ok st' w'" by auto
    show ?case unfolding fires_def
    proof (intro impI)
      assume all: "all_indexed w \<and> all_timed w"
      have iff: "fst (fst x) \<in> set ?ts \<longleftrightarrow> fst (fst x) \<le> now" if x: "x \<in> set (w_index w)" for x
      proof -
        have x': "((fst (fst x), snd (fst x)), snd x) \<in> set (w_index w)" using x by simp
        obtain v where "windows w (snd (fst x)) = Some v" "te_end v = fst (fst x)" by (rule index_entry [OF inv x'])
        then have "pending_at (w_timers w) (timer_window (w_operator w) (fst (fst x))) = Some (fst (fst x))"
          using all unfolding all_timed_def by metis
        then show ?thesis using d(3) by simp
      qed
      have srt: "sorted (map (\<lambda>x. fst (fst x)) (w_index w))" using index_by_end index_sorted [OF inv] by blast
      have "concat (map (\<lambda>t. filter (at_end t) (w_index w)) ?ts) = filter (\<lambda>x. fst (fst x) \<in> set ?ts) (w_index w)"
        unfolding filter_by_key [OF srt d(1,2), symmetric] by (intro arg_cong [where f = concat] map_cong filter_cong) (simp_all add: at_end_def)
      also have "\<dots> = filter (\<lambda>x. fst (fst x) \<le> now) (w_index w)" using iff by (auto intro: filter_cong)
      also have "\<dots> = takeWhile (\<lambda>x. fst (fst x) \<le> now) (w_index w)"
        by (rule takeWhile_sorted_le [OF srt, symmetric])
      finally have rows: "rows = due_rows now w" using w'(2) by (simp add: due_rows_def emission_def [abs_def] emitted_group_def suffixed_key_def)
      have "due_rows now w' = []" by (rule due_rows_none) (use iff w'(3) in auto)
      then have closed: "windows w' = (\<lambda>enc. case windows w enc of Some v \<Rightarrow> if te_end v \<le> now then None else Some v | None \<Rightarrow> None)"
        using closed_exactly [OF ok' _ w'(1)] w'(5) all by fastforce
      have op: "w_operator w' = w_operator w" "w_timers w' = t'" using cfgD(1) [OF w'(4)] w'(1) by (simp_all add: closes_def)
      have timed: "all_timed w'" unfolding all_timed_def
      proof (intro allI impI)
        fix enc e assume "windows w' enc = Some e"
        then have "windows w enc = Some e" "now < te_end e" using closed by (auto split: option.splits if_splits)
        then show "pending_at (w_timers w') (timer_window (w_operator w') (te_end e)) = Some (te_end e)"
          using all d(5) op by (simp add: all_timed_def)
      qed
      show "rows = due_rows now w \<and> all_indexed w' \<and> all_timed w' \<and>
          windows w' = (\<lambda>enc. case windows w enc of Some v \<Rightarrow> if te_end v \<le> now then None else Some v | None \<Rightarrow> None)"
        using rows closed w'(1) all timed by (simp add: closes_def)
    qed
  qed
qed

definition clock :: "int \<Rightarrow> window_op \<Rightarrow> int" where
  "clock now w = (if now \<ge> 0 \<and> is_hopping_pt (ws_kind (w_spec w)) then max (w_clock_high w) now else now)"

definition ticked :: "int \<Rightarrow> window_op \<Rightarrow> window_op" where
  "ticked now w = (if now \<ge> 0 \<and> is_hopping_pt (ws_kind (w_spec w)) then w\<lparr>w_clock_high := max (w_clock_high w) now\<rparr> else w)"

lemma hopping_now_run: "hopping_now now (st, w) = Some ((st, ticked now w), Ok (clock now w))"
proof (cases "now \<ge> 0 \<and> is_hopping_pt (ws_kind (w_spec w))")
  case True
  show ?thesis unfolding hopping_now_def ebind_get clock_def ticked_def if_P [OF True] ebind_modify by (rule run_pure(2))
next
  case False
  show ?thesis unfolding hopping_now_def ebind_get clock_def ticked_def if_not_P [OF False] by (rule run_pure(2))
qed

lemma hopping_now_bind [simp]: "ebind (hopping_now now) f (st, w) = f (clock now w) (st, ticked now w)"
  by (simp only: ebind_def hopping_now_run option.case sum.case prod.case)

lemma ticked_frame [simp]:
  "windows (ticked now w) = windows w" "all_indexed (ticked now w) = all_indexed w" "w_timers (ticked now w) = w_timers w"
  "w_spec (ticked now w) = w_spec w" "w_operator (ticked now w) = w_operator w" "w_index (ticked now w) = w_index w" "cfg (ticked now w) = cfg w"
  "window_ok st (ticked now w) = window_ok st w" "all_timed (ticked now w) = all_timed w"
  by (simp_all add: ticked_def window_ok_def all_timed_def)

lemma due_rows_ticked [simp]: "due_rows t (ticked now w) = due_rows t w"
  by (simp add: due_rows_def emission_def [abs_def] emitted_group_def suffixed_key_def)

lemma fires_ticked [simp]: "fires t (ticked now w) = fires t w"
  by (simp add: fires_def fun_eq_iff)

lemma hopping_not_event: "uses_event_time k \<Longrightarrow> \<not> is_hopping_pt k"
  by (cases k) (simp_all add: uses_event_time_def is_hopping_pt_def)

lemma window_fire_due_ok:
  assumes ok: "window_ok st w"
  shows "returns st w (window_fire_due now) (\<lambda>w' rows.
    if uses_event_time (ws_kind (w_spec w)) then rows = [] \<and> w' = w else fires (clock now w) w w' rows)"
proof (cases "uses_event_time (ws_kind (w_spec w))")
  case True
  then have "ticked now w = w" using hopping_not_event by (simp add: ticked_def)
  then have "window_fire_due now (st, w) = eret [] (st, w)" using True by (simp add: window_fire_due_def)
  then show ?thesis using True ok by (simp add: returns_def)
next
  case False
  let ?w = "ticked now w" and ?t = "clock now w"
  obtain t' due where f: "fire_due ?t (w_timers ?w) = (t', due)" by fastforce
  have due: "(if due = [] then eret [] else flush_tumble_ends (sort (remdups (map (\<lambda>i. u64_as_i64 (t_namespace i)) due)))) =
      flush_tumble_ends (due_ends ?t (w_timers ?w))" using f by (auto simp: due_ends_def)
  have "window_fire_due now (st, w) = flush_tumble_ends (due_ends ?t (w_timers ?w)) (st, ?w\<lparr>w_timers := t'\<rparr>)"
    using False f due by (simp add: window_fire_due_def)
  moreover have "returns st (?w\<lparr>w_timers := t'\<rparr>) (flush_tumble_ends (due_ends ?t (w_timers ?w))) (fires ?t ?w)"
    using flush_due_ok [OF _ f] ok by simp
  ultimately show ?thesis using False by (simp add: returns_def)
qed

lemma begin_due_ok:
  assumes ok: "window_ok st w"
  shows "returns st w (begin_due now) (\<lambda>w' b. windows w' = windows w \<and> (all_indexed w \<longrightarrow> all_indexed w') \<and>
    (b \<longleftrightarrow> \<not> uses_event_time (ws_kind (w_spec w)) \<and> (\<exists>i at. pending_at (w_timers w) i = Some at \<and> at \<le> clock now w)))"
proof (cases "uses_event_time (ws_kind (w_spec w))")
  case True
  then show ?thesis using ok by (auto simp: returns_def begin_due_def)
next
  case False
  obtain t' due where f: "fire_due (clock now w) (w_timers w) = (t', due)" by fastforce
  have ok1: "window_ok st (ticked now w)" using ok by simp
  have tok: "timers_ok (w_operator w) (w_timers w)" using ok by (simp add: window_ok_def window_inv_def)
  have ok': "window_ok st (ticked now w\<lparr>w_timers := t'\<rparr>)"
    using ok1 due_ends_spec(4) [OF tok f] unfolding window_ok_def window_inv_def by simp
  have "timers_inv (w_timers w)" using tok by (simp add: timers_ok_def)
  then have "set due = {i. \<exists>at. pending_at (w_timers w) i = Some at \<and> at \<le> clock now w}" using fire_due_spec [OF _ f] by blast
  then have "due \<noteq> [] \<longleftrightarrow> (\<exists>i at. pending_at (w_timers w) i = Some at \<and> at \<le> clock now w)"
    unfolding set_empty [symmetric] by auto
  moreover have "begin_due now (st, w) = Some ((st, ticked now w\<lparr>w_timers := t'\<rparr>), Ok (due \<noteq> []))"
    using False f by (simp add: begin_due_def)
  ultimately show ?thesis using False ok' by (simp add: returns_def)
qed

end
