(* ===== verification/Window_Safe.thy ===== *)
theory Window_Safe
  imports Window_Fire Op_Batch
begin

text \<open>
  Every public operation of the window operator keeps its invariant and cannot panic, also when
  it fails; closing in batches takes a prefix of the due rows; cleaning up gives back every
  retained byte.
\<close>

section \<open>Output batches\<close>

lemma window_inv_store: "window_ok st w \<Longrightarrow> retention (w_owner w) st' = retention (w_owner w) st \<Longrightarrow> window_ok st' w"
  using window_inv_retention by (auto simp: window_ok_def)

lemma finish_rows_builds: "wf_owner ow \<Longrightarrow> builds ow rows (finish_rows sc rows ow)"
proof (cases "rows = []")
  case False
  assume "wf_owner ow"
  from builds_batch [where f = epush and mn = "\<lambda>_. 0", OF _ this False] False show ?thesis
    by (simp add: finish_rows_def epush_def builder_push_def)
qed (simp add: finish_rows_def builds_def)

lemma finish_rows_metered_builds: "wf_owner ow \<Longrightarrow> builds ow rows (finish_rows_metered W sc rows ow)"
proof (cases "rows = []")
  case False
  assume "wf_owner ow"
  from builds_batch [where f = "epush_accounted W" and mn = "\<lambda>r. sat_u64 (row_resident_bytes (wh_row_layout W) (length r) r + 64)", OF _ this False] False
  show ?thesis by (simp add: finish_rows_metered_def epush_accounted_def)
qed (simp add: finish_rows_metered_def builds_def)

lemma builds_step:
  assumes ok: "window_ok st w" and b: "builds (w_owner w) rows m"
  shows "step_ok st w m (\<lambda>w' ob. w' = w \<and> map_option rb_rows ob = (if rows = [] then None else Some rows))"
proof -
  from b obtain st' r where "m (st, w) = Some ((st', w), r)" "retention (w_owner w) st' = retention (w_owner w) st"
    "\<forall>ob. r = Ok ob \<longrightarrow> map_option rb_rows ob = (if rows = [] then None else Some rows)" unfolding builds_def by blast
  with window_inv_store [OF ok] show ?thesis by (auto simp: step_ok_def)
qed

lemma owner_wf: "window_ok st w \<Longrightarrow> wf_owner (w_owner w)"
  using window_inv_wf by (auto simp: window_ok_def)

lemma build_metered_batch_ok:
  "window_ok st w \<Longrightarrow> step_ok st w (build_metered_batch W rows) (\<lambda>w' ob. w' = w \<and> map_option rb_rows ob = (if rows = [] then None else Some rows))"
  unfolding build_metered_batch_def by (intro step_ok_get builds_step finish_rows_metered_builds owner_wf)

lemma build_batch_ok:
  "window_ok st w \<Longrightarrow> step_ok st w (build_batch rows) (\<lambda>w' ob. w' = w \<and> map_option rb_rows ob = (if rows = [] then None else Some rows))"
  unfolding build_batch_def by (intro step_ok_get builds_step finish_rows_builds owner_wf)

lemma build_late_batch_ok:
  "window_ok st w \<Longrightarrow> step_ok st w (build_late_batch rows) (\<lambda>w' ob. w' = w \<and> map_option rb_rows ob = (if rows = [] then None else Some rows))"
  unfolding build_late_batch_def by (intro step_ok_get builds_step finish_rows_builds owner_wf)

lemma step_ok_scratch:
  assumes ok: "window_ok st w" and ow: "w_owner w = ow" and m: "\<And>st1. window_ok st1 w \<Longrightarrow> step_ok st1 w m Q"
  shows "step_ok st w (escratch n ow m) Q"
proof (cases "acquire Reservation n ow st")
  case (Inl e)
  then show ?thesis using ok by (simp add: escratch_def eacquire_def ebind_def step_ok_def)
next
  case (Inr x)
  obtain st1 l where x: "x = (st1, l)" by fastforce
  have wf: "wf_owner ow" using owner_wf [OF ok] ow by simp
  note keep = reservation_keeps_retention [OF wf Inr [unfolded x]]
  have "window_ok st1 w" using window_inv_store [OF ok] keep(1) ow by simp
  from m [OF this] obtain st2 w2 r where
    r: "m (st1, w) = Some ((st2, w2), r)" "window_ok st2 w2" "cfg w2 = cfg w" "\<And>x. r = Ok x \<Longrightarrow> Q w2 x" by (auto elim: step_okE)
  have "w_owner w2 = ow" using cfgD(7) [OF r(3)] ow by simp
  then have "window_ok (fst (drop_lease l st2)) w2" using window_inv_store [OF r(2)] keep(2) by simp
  then show ?thesis using Inr x r by (simp add: escratch_def eacquire_def ebind_def escoped_def step_ok_def)
qed

section \<open>Closing in batches\<close>

definition batch_clock :: "int \<Rightarrow> window_op \<Rightarrow> int" where
  "batch_clock cut0 w = (if is_hopping_pt (ws_kind (w_spec w)) then max cut0 (w_clock_high w) else cut0)"

lemma count_closed_ok:
  assumes inv: "window_inv st w" and sub: "set es \<subseteq> set (w_index w)"
  shows "\<exists>work m. count_closed W w ct mr mb es work0 wire n = Ok (work, n + m) \<and> m \<le> length (takeWhile (\<lambda>x. fst (fst x) \<le> ct) es) \<and>
    n + m \<le> max n (max mr 1) \<and> (n = 0 \<longrightarrow> m = 0 \<longrightarrow> takeWhile (\<lambda>x. fst (fst x) \<le> ct) es = [])"
  using sub
proof (induction es arbitrary: work0 wire n)
  case (Cons x es)
  obtain t enc k where x: "x = ((t, enc), k)" by (metis surj_pair)
  have mem: "((t, enc), k) \<in> set (w_index w)" using Cons.prems x by simp
  obtain v where v: "windows w enc = Some v" "own_key w k" "sk_encoded k = enc" by (rule index_entry [OF inv mem])
  have get: "tumble_get k w = Some v" using v tumble_get_windows [OF v(2)] by simp
  let ?b = "closed_bytes W w k v"
  show ?case
  proof (cases "t > ct \<or> n \<ge> max mr 1 \<or> n > 0 \<and> sat_u64 (wire + ?b) > mb")
    case True
    then have "count_closed W w ct mr mb (x # es) work0 wire n = Ok (work0, n)" using get by (auto simp: x Let_def)
    moreover have "n = 0 \<longrightarrow> takeWhile (\<lambda>x. fst (fst x) \<le> ct) (x # es) = []" using True x by auto
    ultimately show ?thesis by - (rule exI [of _ work0], rule exI [of _ 0], simp)
  next
    case False
    then have run: "count_closed W w ct mr mb (x # es) work0 wire n =
        count_closed W w ct mr mb es (sat_u64 (work0 + sat_u64 (?b * 3))) (sat_u64 (wire + ?b)) (n + 1)" using get by (auto simp: x Let_def)
    from Cons.IH [of "sat_u64 (work0 + sat_u64 (?b * 3))" "sat_u64 (wire + ?b)" "n + 1"] Cons.prems obtain work m where
      "count_closed W w ct mr mb es (sat_u64 (work0 + sat_u64 (?b * 3))) (sat_u64 (wire + ?b)) (n + 1) = Ok (work, n + 1 + m)"
      "m \<le> length (takeWhile (\<lambda>x. fst (fst x) \<le> ct) es)" "n + 1 + m \<le> max (n + 1) (max mr 1)" by auto
    then show ?thesis using False unfolding run by - (rule exI [of _ work], rule exI [of _ "Suc m"], auto simp: x)
  qed
qed simp

lemma take_closed_chunk_ok:
  assumes "window_ok st w"
  shows "returns st w (take_closed_chunk W wm mr mb) (\<lambda>w' rows. closes wm w w' \<and> front_taken wm w w' \<and>
    (\<exists>m \<le> max mr 1. rows = take m (due_rows wm w) \<and> due_rows wm w' = drop m (due_rows wm w) \<and> (due_rows wm w \<noteq> [] \<longrightarrow> 0 < m)))"
  unfolding take_closed_chunk_def by (rule returns_mono [OF chunk_loop_ok [OF assms]]) auto

lemma take_closed_batch_ok:
  assumes ok: "window_ok st w"
  shows "step_ok st w (take_closed_batch W cut0 mr mb) (\<lambda>w' ob. closes (batch_clock cut0 w) w w' \<and>
    (case ob of None \<Rightarrow> due_rows (batch_clock cut0 w) w = [] \<and> w' = w
     | Some b \<Rightarrow> \<exists>m \<le> max mr 1. 0 < m \<and> rb_rows b = take m (due_rows (batch_clock cut0 w) w) \<and> rb_rows b \<noteq> [] \<and>
         due_rows (batch_clock cut0 w) w' = drop m (due_rows (batch_clock cut0 w) w)))"
    (is "step_ok st w _ ?Q")
proof -
  let ?ct = "batch_clock cut0 w"
  have inv: "window_inv st w" using ok by (simp add: window_ok_def)
  have ix: "w_index w = []" if "\<not> is_tumble (w_store w)" using inv that by (auto simp: window_inv_def store_ok_def split: window_store.splits)
  from count_closed_ok [OF inv subset_refl, of W ?ct mr mb 0 0 0] obtain work n where
    c: "count_closed W w ?ct mr mb (w_index w) 0 0 0 = Ok (work, n)" "n \<le> max mr 1" "n = 0 \<longrightarrow> due_rows ?ct w = []"
       "n \<le> length (due_rows ?ct w)" by (auto simp: due_rows_def)
  let ?c = "if is_tumble (w_store w) then count_closed W w ?ct mr mb (w_index w) 0 0 0 else Ok (0, 0)"
  obtain work' where c': "?c = Ok (work', n)" using c ix by (cases "is_tumble (w_store w)") (auto simp: due_rows_def)
  have run: "step_ok st w (if n = 0 then eret None else escratch (sat_u64 (work' + 128)) (w_owner w)
      (ebind (take_closed_chunk W ?ct n mb) (build_metered_batch W))) ?Q"
  proof (cases "n = 0")
    case True
    then show ?thesis using c(3) ok by (simp add: step_ok_def)
  next
    case False
    have "step_ok st1 w (ebind (take_closed_chunk W ?ct n mb) (build_metered_batch W)) ?Q" if ok1: "window_ok st1 w" for st1
    proof (rule step_ok_bind_returns [OF take_closed_chunk_ok [OF ok1]], goal_cases)
      case (1 st2 w2 rows)
      then obtain m where m: "m \<le> max n 1" "rows = take m (due_rows ?ct w)" "due_rows ?ct w2 = drop m (due_rows ?ct w)" "due_rows ?ct w \<noteq> [] \<longrightarrow> 0 < m"
        and cl: "closes ?ct w w2" by auto
      have ne: "due_rows ?ct w \<noteq> []" using False c(4) by auto
      then have rows: "rows \<noteq> []" "0 < m" using m(2,4) by auto
      show ?case
        by (rule step_ok_mono [OF build_metered_batch_ok [OF 1(1)]]) (use m rows cl c(2) in \<open>auto split: option.splits if_splits intro!: exI [of _ m]\<close>)
    qed
    then show ?thesis unfolding if_not_P [OF False] by (rule step_ok_scratch [OF ok refl])
  qed
  show ?thesis unfolding take_closed_batch_def
  proof (rule step_ok_get)
    show "step_ok st w (let ct = (if is_hopping_pt (ws_kind (w_spec w)) then max cut0 (w_clock_high w) else cut0)
      in ebind (elift (if is_tumble (w_store w) then count_closed W w ct mr mb (w_index w) 0 0 0 else Ok (0, 0))) (\<lambda>(work, n).
          if n = 0 then eret None
          else escratch (sat_u64 (work + 128)) (w_owner w) (ebind (take_closed_chunk W ct n mb) (build_metered_batch W)))) ?Q"
      unfolding Let_def batch_clock_def [symmetric] c' ebind_lift prod.case by (rule run)
  qed
qed

section \<open>Rows, watermarks and idleness\<close>

text \<open>Steps that touch neither the windows nor the timers.\<close>

definition same_windows :: "window_op \<Rightarrow> window_op \<Rightarrow> bool" where
  "same_windows w w' \<longleftrightarrow> windows w' = windows w \<and> counts w' = counts w \<and> w_timers w' = w_timers w \<and> all_indexed w' = all_indexed w"

lemma same_windows_trans: "same_windows a b \<Longrightarrow> same_windows b c \<Longrightarrow> same_windows a c"
  by (simp add: same_windows_def)

lemma window_ok_frame [simp]:
  "window_ok st (w\<lparr>w_hub := h\<rparr>) = window_ok st w" "window_ok st (w\<lparr>w_holdback := hb\<rparr>) = window_ok st w"
  by (simp_all add: window_ok_def)

lemma drain_step:
  assumes "window_ok st w"
  shows "step_ok st w drain_watermark (\<lambda>w' em. same_windows w w' \<and> quiet em)"
proof -
  obtain hb res where "drain_watermark (st, w) = Some ((st, w\<lparr>w_holdback := hb\<rparr>), res)" "\<forall>em. res = Ok em \<longrightarrow> quiet em"
    using drain_watermark_ok [of st w] by blast
  then show ?thesis using assms by (simp add: step_ok_def same_windows_def)
qed

lemma on_hub_step:
  assumes "window_ok st w"
  shows "step_ok st w (on_hub f) (\<lambda>w' _. same_windows w w')"
proof -
  obtain h res where "on_hub f (st, w) = Some ((st, w\<lparr>w_hub := h\<rparr>), res)" using on_hub_ok [of f st w] by blast
  then show ?thesis using assms by (simp add: step_ok_def same_windows_def)
qed

lemma hub_drain_step:
  assumes "window_ok st w"
  shows "step_ok st w (ebind (on_hub f) (\<lambda>_. drain_watermark)) (\<lambda>w' em. same_windows w w' \<and> quiet em)"
proof (rule step_ok_bind [OF on_hub_step [OF assms]], goal_cases)
  case (1 st1 w1 u)
  then show ?case using same_windows_trans by (auto intro: step_ok_mono [OF drain_step])
qed

lemma mark_steps:
  assumes "window_ok st w"
  shows "step_ok st w (window_mark_idle i) (\<lambda>w' em. same_windows w w' \<and> quiet em)"
    "step_ok st w (window_mark_active i) (\<lambda>w' em. same_windows w w' \<and> quiet em)"
    "step_ok st w (observe_watermark i wm) (\<lambda>w' em. same_windows w w' \<and> quiet em)"
    "step_ok st w (register_input i) (\<lambda>w' _. same_windows w w')"
  using hub_drain_step [OF assms] on_hub_step [OF assms]
  by (simp_all add: window_mark_idle_def window_mark_active_def observe_watermark_def register_input_def)

lemma finish_input_step:
  assumes "window_ok st w"
  shows "step_ok st w finish_input (\<lambda>w' em. same_windows w w' \<and> quiet em)"
  unfolding finish_input_def
proof (rule step_ok_get, rule step_ok_bind [OF on_hub_step [OF assms]], goal_cases)
  case (1 st1 w1 u)
  then show ?case using same_windows_trans by (auto intro: step_ok_mono [OF hub_drain_step])
qed

lemma advance_holdback_step:
  assumes "window_ok st w"
  shows "step_ok st w (advance_holdback wm) (\<lambda>w' _. same_windows w w')"
proof (cases "w_holdback w")
  case None
  then show ?thesis using assms by (simp add: advance_holdback_def step_ok_def same_windows_def)
next
  case (Some h)
  then show ?thesis using assms
    by (cases "advance_out wm h") (simp_all add: advance_holdback_def step_ok_def same_windows_def emodify_def)
qed

lemma on_rows_step:
  assumes "window_ok st w" "list_all (wide_row w) rows"
  shows "step_ok st w (on_rows W now rows out) (\<lambda>w' _. is_count (ws_kind (w_spec w)) \<or> keeps_complete w w')"
  using assms
proof (induction rows arbitrary: st w out)
  case Nil
  then show ?case unfolding on_rows.simps by (intro step_ok_ret) simp_all
next
  case (Cons r rows)
  have wide: "wide_row w r" using Cons.prems by simp
  show ?case unfolding on_rows.simps
  proof (rule step_ok_bind [OF on_row_ok [OF Cons.prems(1) wide]], goal_cases)
    case (1 st1 w1 one)
    note c = cfgD [OF 1(2)]
    have "list_all (wide_row w1) rows" using Cons.prems(2) c(3) by (simp add: wide_row_def list_all_iff)
    from Cons.IH [OF 1(1) this] show ?case
      by (rule step_ok_mono) (use 1(3) c(2) in \<open>auto simp: keeps_complete_def split: if_splits\<close>)
  qed
qed

lemma window_on_batch_step:
  assumes ok: "window_ok st w" and wide: "list_all (wide_row w) rows"
  shows "step_ok st w (window_on_batch W rows now) (\<lambda>_ _. True)"
  unfolding window_on_batch_def
proof (rule step_ok_bind_returns [OF window_fire_due_ok [OF ok]], goal_cases)
  case (1 st1 w1 due)
  have "list_all (wide_row w1) rows" using wide cfgD(3) [OF 1(2)] by (simp add: wide_row_def list_all_iff)
  from on_rows_step [OF 1(1) this] show ?case unfolding on_batch_without_timers_def
    by (rule step_ok_bind) (auto intro: step_ok_ret)
qed

lemma materialize_step:
  assumes ok: "window_ok st w"
  shows "step_ok st w (materialize_emission W em) (\<lambda>_ _. True)"
proof (cases "pending_close em")
  case None
  then show ?thesis using ok by (simp add: materialize_emission_def step_ok_def)
next
  case (Some wm)
  show ?thesis unfolding materialize_emission_def Some option.case
    by (rule step_ok_bind_returns [OF take_closed_chunk_ok [OF ok]], rule step_ok_bind [OF advance_holdback_step]) (auto intro: step_ok_ret)
qed

section \<open>Cleaning up\<close>

lemma drop_indexes:
  assumes "list_all (index_ok slot ow op) es" "wf_owner ow" "hm_sum index_bytes es \<le> retention ow st" "retention ow st \<le> u64_max"
  shows "retention ow (fold (\<lambda>(_, k) st. drop_index k st) es st) + hm_sum index_bytes es = retention ow st"
  using assms
proof (induction es arbitrary: st)
  case (Cons x es)
  have x: "retention ow (drop_index (snd x) st) = retention ow st - index_bytes (snd x)"
    by (rule drop_index_retention) (use Cons.prems in \<open>auto simp: hm_sum_def\<close>)
  have "retention ow (fold (\<lambda>(_, k) st. drop_index k st) es (drop_index (snd x) st)) + hm_sum index_bytes es = retention ow (drop_index (snd x) st)"
    by (rule Cons.IH) (use Cons.prems x in \<open>auto simp: hm_sum_def\<close>)
  then show ?case using Cons.prems x by (cases x) (simp add: hm_sum_def)
qed (simp add: hm_sum_def)

lemma window_inv_bound:
  assumes "window_inv st w"
  shows "retention (w_owner w) st < u64_max"
proof -
  have "wf_owner (w_owner w)" by (rule window_inv_wf [OF assms])
  moreover have "retention (w_owner w) st \<le> cap (owner_budget (w_owner w)) Retention"
    using assms by (auto simp: window_inv_def store_ok_def index_inv_def ms_inv_def split: window_store.splits)
  ultimately show ?thesis using wf_owner_budget cap_sum [of "owner_budget (w_owner w)" Retention] by (fastforce simp: budget_ok_def)
qed

lemma cleared:
  assumes inv: "ms_inv extra s st" and c: "ms_clear s st = (st1, s1)" and es: "list_all (index_ok slot (ms_owner s) op) es" "hm_sum index_bytes es = extra"
    and st3: "retention (ms_owner s) st3 = retention (ms_owner s) (fold (\<lambda>(_, k) st. drop_index k st) es st1)"
  shows "ms_inv 0 s1 st3" "retention (ms_owner s) st3 + ms_retained s + extra = retention (ms_owner s) st"
    "s1 = s\<lparr>ms_entries := [], ms_retained := 0\<rparr>"
proof -
  note cl = ms_clear_spec [OF inv c]
  show s1: "s1 = s\<lparr>ms_entries := [], ms_retained := 0\<rparr>" using c by (simp add: ms_clear_def)
  then have ow: "ms_owner s1 = ms_owner s" by simp
  have b: "wf_owner (ms_owner s)" "extra \<le> retention (ms_owner s) st1" "retention (ms_owner s) st1 \<le> cap (owner_budget (ms_owner s)) Retention"
    "retention (ms_owner s) st1 \<le> u64_max"
    using inv cl ow ms_inv_small [of extra s1 st1] by (auto simp: ms_inv_def)
  have d: "retention (ms_owner s) st3 + extra = retention (ms_owner s) st1"
    using drop_indexes [OF es(1) b(1) _ b(4)] es(2) b(2) st3 by simp
  then show "retention (ms_owner s) st3 + ms_retained s + extra = retention (ms_owner s) st" using cl by simp
  show "ms_inv 0 s1 st3" by (rule ms_inv_extra) (use cl d b ow in auto)
qed

lemma cleanup_ok:
  assumes ok: "window_ok st w"
  obtains st' w' where "window_cleanup (st, w) = Some ((st', w'), Ok ())" "window_ok st' w'" "cfg w' = cfg w"
    "windows w' = Map.empty" "counts w' = Map.empty" "window_key_count w' = 0" "all_indexed w'" "w_scratch_lease w' = None"
    "retention (w_owner w) st' + window_retention_bytes w = retention (w_owner w) st" "window_retention_bytes w' = 0"
proof -
  have inv: "window_inv st w" using ok by (simp add: window_ok_def)
  have small: "retention (w_owner w) st < u64_max" by (rule window_inv_bound [OF inv])
  have lease: "retention (w_owner w) (case w_scratch_lease w of None \<Rightarrow> st2 | Some l \<Rightarrow> fst (drop_lease l st2)) = retention (w_owner w) st2" for st2
    using inv by (auto simp: window_inv_def split: option.splits)
  have tok: "timers_ok (w_operator w) (cancel_all (w_timers w))"
    using inv cancel_all_spec [of "w_timers w"] by (auto simp: window_inv_def timers_ok_def cancel_all_def)
  let ?w = "\<lambda>s. w\<lparr>w_store := s, w_index := [], w_index_bytes := 0, w_timers := cancel_all (w_timers w), w_scratch_cap := 0, w_scratch_lease := None\<rparr>"
  let ?f = "\<lambda>st1. case w_scratch_lease w of None \<Rightarrow> fold (\<lambda>(_, k) st. drop_index k st) (w_index w) st1
    | Some l \<Rightarrow> fst (drop_lease l (fold (\<lambda>(_, k) st. drop_index k st) (w_index w) st1))"
  show thesis
  proof (cases "w_store w")
    case (TumbleStore s)
    obtain st1 s1 where c: "ms_clear s st = (st1, s1)" by fastforce
    have i: "index_inv te_end window_slot (w_operator w) (w_owner w) (w_index w, w_index_bytes w) s st" using inv TumbleStore by (simp add: window_inv_def store_ok_def)
    then have m: "ms_inv (w_index_bytes w) s st" and ow: "ms_owner s = w_owner w" "ms_operator s = w_operator w" "ms_slot s = window_slot"
      and es: "list_all (index_ok window_slot (ms_owner s) (w_operator w)) (w_index w)" "hm_sum index_bytes (w_index w) = w_index_bytes w"
      by (auto simp: index_inv_def)
    note cl = cleared [OF m c es, of "?f st1", unfolded ow(1), OF lease]
    have run: "window_cleanup (st, w) = Some ((?f st1, ?w (TumbleStore s1)), Ok ())" using TumbleStore c by (simp add: window_cleanup_def drop_store_def Let_def)
    have "window_inv (?f st1) (?w (TumbleStore s1))"
      using cl(1,3) ow tok by (simp add: window_inv_def store_ok_def index_inv_def index_points_def windows_def bt_inv_def hm_sum_def)
    then have wok: "window_ok (?f st1) (?w (TumbleStore s1))" using ok TumbleStore by (simp add: window_ok_def kind_ok_def)
    show thesis
      by (rule that [OF run wok]) (use TumbleStore cl small in \<open>simp_all add: windows_def counts_def fun_eq_iff window_key_count_def ms_len_def
        all_indexed_def index_covers_def window_retention_bytes_def sat_u64_def\<close>)
  next
    case (CountStore s)
    obtain st1 s1 where c: "ms_clear s st = (st1, s1)" by fastforce
    have i: "ms_inv 0 s st" "ms_owner s = w_owner w" "ms_operator s = w_operator w" "ms_slot s = window_slot" "w_index w = []" "w_index_bytes w = 0"
      using inv CountStore by (simp_all add: window_inv_def store_ok_def)
    have es: "list_all (index_ok window_slot (ms_owner s) (w_operator w)) (w_index w)" "hm_sum index_bytes (w_index w) = 0" using i(5) by (simp_all add: hm_sum_def)
    note cl = cleared [OF i(1) c es, of "?f st1", unfolded i(2), OF lease]
    have run: "window_cleanup (st, w) = Some ((?f st1, ?w (CountStore s1)), Ok ())" using CountStore c by (simp add: window_cleanup_def drop_store_def Let_def)
    have "window_inv (?f st1) (?w (CountStore s1))" using cl(1,3) i tok by (simp add: window_inv_def store_ok_def windows_def)
    then have wok: "window_ok (?f st1) (?w (CountStore s1))" using ok CountStore by (simp add: window_ok_def kind_ok_def)
    show thesis
      by (rule that [OF run wok]) (use CountStore cl small i(6) in \<open>simp_all add: windows_def counts_def fun_eq_iff window_key_count_def ms_len_def
        all_indexed_def window_retention_bytes_def sat_u64_def\<close>)
  qed
qed

end
