(* ===== verification/Window_Props.thy ===== *)
theory Window_Props
  imports Window_Safe
begin

text \<open>
  The window operator from its constructor on: any sequence of its public operations, and the
  properties of rows, watermarks and timers as statements about the operations themselves.
\<close>

section \<open>A new operator\<close>

lemma resolve_keys_bound:
  "resolve_keys sc ks = Ok idx \<Longrightarrow> list_all (\<lambda>i. i < length (schema_fields sc)) idx"
proof (induction ks arbitrary: idx)
  case (Cons k ks)
  then show ?case by (auto simp: resolve_keys_def rbind_Inr_iff ok_or_def index_of_name_def position_Some_iff split: option.splits)
qed (simp add: resolve_keys_def)

lemma ms_new_ok:
  assumes "ms_new ow op slot mk = Ok s" "wf_owner ow" "retention ow st \<le> cap (owner_budget ow) Retention"
  shows "ms_inv 0 s st" "ms_owner s = ow" "ms_operator s = op" "ms_slot s = slot" "ms_entries s = []"
  using assms by (auto simp: ms_new_def ms_inv_def hm_sum_def hm_inv_def split: if_splits)

lemma timers_new_ok: "timers_new op mt = Ok t \<Longrightarrow> is_u64 mt \<Longrightarrow> timers_ok op t"
  by (auto simp: timers_new_def timers_ok_def timers_inv_def table_ok_def hm_inv_def in_heap_def pending_at_def sat_u64_def split: if_splits)

text \<open>The state a constructor's parts make is in the invariant.\<close>

lemma blank_window:
  assumes wf: "wf_owner ow" and cap: "retention ow st \<le> cap (owner_budget ow) Retention" and mt: "is_u64 mt"
    and s: "window_store_new sp ow op mk = Ok s" and t: "timers_new op mt = Ok t" and kind: "\<not> is_buffered (ws_kind sp)"
    and w: "w_store w = s" "w_timers w = t" "w_owner w = ow" "w_operator w = op" "w_spec w = sp" "w_index w = []" "w_index_bytes w = 0"
    and lease: "\<And>l st. w_scratch_lease w = Some l \<Longrightarrow> retention ow (fst (drop_lease l st)) = retention ow st"
  shows "window_ok st w \<and> all_indexed w \<and> all_timed w \<and> windows w = Map.empty \<and> counts w = Map.empty"
proof -
  have tok: "timers_ok op t" using timers_new_ok t mt by blast
  show ?thesis
  proof (cases "is_count (ws_kind sp)")
    case True
    with s obtain m where m: "ms_new ow op window_slot mk = Ok m" "s = CountStore m"
      using kind by (auto simp: window_store_new_def is_count_def is_buffered_def rbind_Inr_iff split: window_kind.splits)
    note ms = ms_new_ok [OF m(1) wf cap]
    show ?thesis using w m(2) ms tok lease kind True
      by (simp add: window_ok_def kind_ok_def window_inv_def store_ok_def windows_def counts_def fun_eq_iff all_indexed_def all_timed_def)
  next
    case False
    with s obtain m where m: "ms_new ow op window_slot mk = Ok m" "s = TumbleStore m"
      using kind by (auto simp: window_store_new_def is_count_def is_buffered_def rbind_Inr_iff split: window_kind.splits)
    note ms = ms_new_ok [OF m(1) wf cap]
    show ?thesis using w m(2) ms tok lease kind False
      by (simp add: window_ok_def kind_ok_def window_inv_def store_ok_def index_inv_def index_points_def bt_inv_def hm_sum_def windows_def counts_def
          fun_eq_iff all_indexed_def index_covers_def all_timed_def)
  qed
qed

lemma eguarded_Ok: "eguarded l m x = Some (y, Ok v) \<longleftrightarrow> m x = Some (y, Ok v)"
  by (auto simp: eguarded_def split: option.splits sum.splits prod.splits)

lemma window_new_ok:
  assumes wf: "wf_owner ow" and cap: "retention ow st \<le> cap (owner_budget ow) Retention" and mt: "is_u64 mt"
    and new: "window_new W op sp input ow mk mt (st, ()) = Some ((st0, ()), Ok w)"
  shows "window_ok st0 w \<and> all_indexed w \<and> all_timed w \<and> windows w = Map.empty \<and> counts w = Map.empty" "w_spec w = sp" "w_owner w = ow"
    "list_all (\<lambda>i. i < length (schema_fields input)) (w_group_idx w)" "window_validate sp = Ok ()" "w_operator w = op" "w_input w = input"
proof -
  have kind: "\<not> is_buffered (ws_kind sp)" using new by (auto simp: window_new_def ebind_Ok elift_Ok)
  from new kind obtain idx et out bound s hub hb lease z timers where
    n: "window_validate sp = Ok ()" "resolve_keys input (ws_keys sp) = Ok idx" "window_store_new sp ow op mk = Ok s"
      "(if variable_accs sp then ebind (eacquire Reservation (scratch_bytes W sp) ow) (\<lambda>l. eret (Some l)) else eret None) (st, ()) = Some (z, Ok lease)"
      "timers_new op mt = Ok timers" "z = (st0, ())"
    and w: "w = \<lparr>w_operator = op, w_spec = sp, w_group_idx = idx, w_event_time_idx = et, w_input = input, w_output = out,
         w_store = s, w_timers = timers, w_owner = ow, w_hub = hub, w_holdback = hb, w_default_input = 0,
         w_external = False, w_index = [], w_bound_aggs = bound, w_variable_accs = variable_accs sp, w_index_bytes = 0,
         w_scratch_cap = (if variable_accs sp then length (ws_aggs sp) else 0), w_scratch_lease = lease, w_clock_high = 0\<rparr>"
    by (auto simp: window_new_def ebind_Ok elift_Ok eguarded_Ok)
  have st0: "retention ow st0 = retention ow st \<and> (\<forall>l st. lease = Some l \<longrightarrow> retention ow (fst (drop_lease l st)) = retention ow st)"
  proof (cases "variable_accs sp")
    case True
    then obtain l where a: "acquire Reservation (scratch_bytes W sp) ow st = Ok (st0, l)" "lease = Some l"
      using n(4,6) by (auto simp: ebind_Ok eacquire_def split: sum.splits)
    then show ?thesis using reservation_keeps_retention [OF wf a(1)] by simp
  qed (use n(4,6) in simp)
  show "window_ok st0 w \<and> all_indexed w \<and> all_timed w \<and> windows w = Map.empty \<and> counts w = Map.empty"
    by (rule blank_window [OF wf _ mt n(3,5) kind]) (use cap st0 w in simp_all)
  show "list_all (\<lambda>i. i < length (schema_fields input)) (w_group_idx w)" using resolve_keys_bound [OF n(2)] w by simp
  show "w_spec w = sp" "w_owner w = ow" "window_validate sp = Ok ()" "w_operator w = op" "w_input w = input" using w n(1) by simp_all
qed

section \<open>Any sequence of operations\<close>

datatype window_command =
    OnBatch "row list" int
  | OnBatchWithoutTimers "row list" int
  | FireDue int
  | BeginDue int
  | TakeClosedBatch int nat nat
  | TakeClosedChunk int nat nat
  | Materialize window_emission
  | MarkIdle nat
  | MarkActive nat
  | ObserveWatermark nat int
  | RegisterInput nat
  | FinishInput
  | AdvanceHoldback int
  | AdvanceGraphFinal
  | BuildBatch "row list"
  | BuildLateBatch "row list"
  | Cleanup

definition quietly :: "('s, 'a) eff \<Rightarrow> ('s, unit) eff" where
  "quietly m = ebind m (\<lambda>_. eret ())"

fun window_exec :: "window_host \<Rightarrow> window_command \<Rightarrow> (window_op, unit) eff" where
  "window_exec W (OnBatch rows now) = quietly (window_on_batch W rows now)"
| "window_exec W (OnBatchWithoutTimers rows now) = quietly (on_batch_without_timers W rows now)"
| "window_exec W (FireDue now) = quietly (window_fire_due now)"
| "window_exec W (BeginDue now) = quietly (begin_due now)"
| "window_exec W (TakeClosedBatch t mr mb) = quietly (take_closed_batch W t mr mb)"
| "window_exec W (TakeClosedChunk t mr mb) = quietly (take_closed_chunk W t mr mb)"
| "window_exec W (Materialize em) = quietly (materialize_emission W em)"
| "window_exec W (MarkIdle i) = quietly (window_mark_idle i)"
| "window_exec W (MarkActive i) = quietly (window_mark_active i)"
| "window_exec W (ObserveWatermark i wm) = quietly (observe_watermark i wm)"
| "window_exec W (RegisterInput i) = register_input i"
| "window_exec W FinishInput = quietly finish_input"
| "window_exec W (AdvanceHoldback wm) = advance_holdback wm"
| "window_exec W AdvanceGraphFinal = emodify advance_graph_final"
| "window_exec W (BuildBatch rows) = quietly (build_batch rows)"
| "window_exec W (BuildLateBatch rows) = quietly (build_late_batch rows)"
| "window_exec W Cleanup = window_cleanup"

text \<open>Operations follow each other whether they succeed or fail; a panic ends the run.\<close>

fun window_run :: "window_host \<Rightarrow> window_command list \<Rightarrow> store \<times> window_op \<Rightarrow> (store \<times> window_op) option" where
  "window_run W [] x = Some x"
| "window_run W (c # cs) x = (case window_exec W c x of None \<Rightarrow> None | Some (x', _) \<Rightarrow> window_run W cs x')"

text \<open>Batches carry rows of the operator's input schema.\<close>

fun command_fits :: "nat \<Rightarrow> window_command \<Rightarrow> bool" where
  "command_fits n (OnBatch rows _) = list_all (\<lambda>r. length r = n) rows"
| "command_fits n (OnBatchWithoutTimers rows _) = list_all (\<lambda>r. length r = n) rows"
| "command_fits n _ = True"

lemma quietly_step: "step_ok st w m Q \<Longrightarrow> step_ok st w (quietly m) (\<lambda>_ _. True)"
  unfolding quietly_def by (rule step_ok_bind [where Q = Q]) (auto intro: step_ok_ret)

lemma wide_rows:
  assumes "list_all (\<lambda>i. i < n) (w_group_idx w)" "list_all (\<lambda>r. length r = n) rows"
  shows "list_all (wide_row w) rows"
  using assms by (auto simp: list_all_iff wide_row_def)

lemma window_exec_step:
  assumes ok: "window_ok st w" and idx: "list_all (\<lambda>i. i < n) (w_group_idx w)" and fits: "command_fits n c"
  shows "step_ok st w (window_exec W c) (\<lambda>_ _. True)"
proof (cases c)
  case (OnBatch rows now)
  then have "list_all (wide_row w) rows" using wide_rows [OF idx] fits by simp
  then show ?thesis using OnBatch quietly_step [OF window_on_batch_step [OF ok]] by simp
next
  case (OnBatchWithoutTimers rows now)
  then have "list_all (wide_row w) rows" using wide_rows [OF idx] fits by simp
  then show ?thesis using OnBatchWithoutTimers quietly_step [OF on_rows_step [OF ok]] by (simp add: on_batch_without_timers_def)
next
  case (AdvanceHoldback wm)
  then show ?thesis using advance_holdback_step [OF ok] by (auto intro: step_ok_mono)
next
  case AdvanceGraphFinal
  then show ?thesis using ok by (simp add: step_ok_def emodify_def advance_graph_final_def)
next
  case Cleanup
  obtain st' w' where "window_cleanup (st, w) = Some ((st', w'), Ok ())" "window_ok st' w'" "cfg w' = cfg w" by (rule cleanup_ok [OF ok])
  then show ?thesis using Cleanup by (simp add: step_ok_def)
next
  case (RegisterInput i)
  then show ?thesis using mark_steps(4) [OF ok] by (auto intro: step_ok_mono)
next
  case (FireDue now)
  then show ?thesis using quietly_step [OF returns_step [OF window_fire_due_ok [OF ok]]] by simp
next
  case (BeginDue now)
  then show ?thesis using quietly_step [OF returns_step [OF begin_due_ok [OF ok]]] by simp
next
  case (TakeClosedBatch t mr mb)
  then show ?thesis using quietly_step [OF take_closed_batch_ok [OF ok]] by simp
next
  case (TakeClosedChunk t mr mb)
  then show ?thesis using quietly_step [OF returns_step [OF take_closed_chunk_ok [OF ok]]] by simp
next
  case (Materialize em)
  then show ?thesis using quietly_step [OF materialize_step [OF ok]] by simp
next
  case (MarkIdle i)
  then show ?thesis using quietly_step [OF mark_steps(1) [OF ok]] by simp
next
  case (MarkActive i)
  then show ?thesis using quietly_step [OF mark_steps(2) [OF ok]] by simp
next
  case (ObserveWatermark i wm)
  then show ?thesis using quietly_step [OF mark_steps(3) [OF ok]] by simp
next
  case FinishInput
  then show ?thesis using quietly_step [OF finish_input_step [OF ok]] by simp
next
  case (BuildBatch rows)
  then show ?thesis using quietly_step [OF build_batch_ok [OF ok]] by simp
next
  case (BuildLateBatch rows)
  then show ?thesis using quietly_step [OF build_late_batch_ok [OF ok]] by simp
qed

lemma window_run_ok:
  assumes "window_ok st w" "list_all (\<lambda>i. i < n) (w_group_idx w)" "list_all (command_fits n) cs"
  shows "\<exists>st' w'. window_run W cs (st, w) = Some (st', w') \<and> window_ok st' w' \<and> cfg w' = cfg w"
  using assms
proof (induction cs arbitrary: st w)
  case (Cons c cs)
  have fits: "command_fits n c" using Cons.prems by simp
  obtain st1 w1 r where c: "window_exec W c (st, w) = Some ((st1, w1), r)" "window_ok st1 w1" "cfg w1 = cfg w"
    using window_exec_step [OF Cons.prems(1,2) fits, of W] by (auto elim: step_okE)
  have "list_all (\<lambda>i. i < n) (w_group_idx w1)" using Cons.prems(2) cfgD(3) [OF c(3)] by simp
  from Cons.IH [OF c(2) this] Cons.prems(3) c show ?case by auto
qed simp

lemma retained_bound:
  assumes ok: "window_ok st w"
  shows "window_retention_bytes w \<le> retention (w_owner w) st" "retention (w_owner w) st \<le> cap (owner_budget (w_owner w)) Retention"
proof -
  have inv: "window_inv st w" using ok by (simp add: window_ok_def)
  then show "window_retention_bytes w \<le> retention (w_owner w) st" "retention (w_owner w) st \<le> cap (owner_budget (w_owner w)) Retention"
    by (auto simp: window_inv_def store_ok_def index_inv_def ms_inv_def window_retention_bytes_def sat_u64_def split: window_store.splits)
qed

section \<open>Rows, by the kind of window\<close>

lemma on_row_scratch:
  assumes ok: "window_ok st w" and kind: "\<not> is_hopping_pt (ws_kind (w_spec w))"
  obtains (failed) st1 w1 e where "on_row W r now (st, w) = Some ((st1, w1), Inl e)" "window_ok st1 w1"
  | (ready) st1 l n where "window_ok st1 (w\<lparr>w_scratch_lease := l, w_scratch_cap := n\<rparr>)"
    "on_row W r now (st, w) = on_row_kind W r now (st1, w\<lparr>w_scratch_lease := l, w_scratch_cap := n\<rparr>)"
proof -
  have t: "clock now w = now" "ticked now w = w" using kind by (simp_all add: clock_def ticked_def)
  obtain st1 w1 res where a: "scratch_again W (st, w) = Some ((st1, w1), res)" "window_ok st1 w1"
    "\<And>x. res = Ok x \<Longrightarrow> w1 = w\<lparr>w_scratch_lease := w_scratch_lease w1, w_scratch_cap := w_scratch_cap w1\<rparr>"
    using scratch_again_ok [OF ok, of W] by (auto elim: step_okE)
  show thesis
  proof (cases res)
    case (Inl e)
    with a t show thesis by (intro failed [where ?st1.0 = st1 and ?w1.0 = w1 and e = e]) (simp_all add: on_row_def ebind_step(2) [of "scratch_again W"])
  next
    case (Inr u)
    obtain l n where w1: "w1 = w\<lparr>w_scratch_lease := l, w_scratch_cap := n\<rparr>" using a(3) Inr by blast
    show thesis
      by (rule ready [where ?st1.0 = st1 and l = l and n = n]) (use a(1,2) Inr t w1 in \<open>simp_all add: on_row_def ebind_step(1) [of "scratch_again W"]\<close>)
  qed
qed

lemma scratch_frame [simp]:
  "windows (w\<lparr>w_scratch_lease := l, w_scratch_cap := n\<rparr>) = windows w" "counts (w\<lparr>w_scratch_lease := l, w_scratch_cap := n\<rparr>) = counts w"
  "wide_row (w\<lparr>w_scratch_lease := l, w_scratch_cap := n\<rparr>) = wide_row w" "row_group (w\<lparr>w_scratch_lease := l, w_scratch_cap := n\<rparr>) = row_group w"
  by (simp_all add: wide_row_def row_group_def fun_eq_iff)

lemma et_effect_scratch: "et_effect W r now sz slide (w\<lparr>w_scratch_lease := l, w_scratch_cap := n\<rparr>) = et_effect W r now sz slide w"
proof -
  have "upserts W (w\<lparr>w_scratch_lease := l, w_scratch_cap := n\<rparr>) r g xs A = upserts W w r g xs A" for g xs A by (rule upserts_cfg) simp
  then show ?thesis by (simp add: et_effect_def fun_eq_iff row_event_time_def too_far_ahead_def window_wm_out_def)
qed

text \<open>
  C4: An event-time row. From any state of the invariant the row does not panic and keeps the
  invariant. When it succeeds: a row too far in the future is counted and dropped; otherwise it
  updates exactly those of its windows that have not closed at the output watermark, each with
  the aggregates of its group, and it is handed out as late exactly when all its windows have
  closed. No other window changes and nothing is emitted.
\<close>

theorem et_row_exact:
  assumes ok: "window_ok st w" and wide: "wide_row w r"
    and kind: "ws_kind (w_spec w) = (case slide of None \<Rightarrow> TumblingEventTime sz | Some sl \<Rightarrow> HoppingEventTime sz sl)"
  shows "\<exists>st' w' res. on_row W r now (st, w) = Some ((st', w'), res) \<and> window_ok st' w' \<and>
    (\<forall>em. res = Ok em \<longrightarrow> (\<exists>ts. row_event_time r w = Ok ts \<and> finals em = [] \<and>
      (if too_far_ahead w ts now then windows w' = windows w \<and> lates em = [] \<and> pending_close em = None \<and> future_dropped em = 1
       else \<exists>assigned. assign_windows (w_spec w) ts sz slide = Ok assigned \<and> future_dropped em = 0 \<and>
         upserts W w r (row_group w r) (filter (open_at (window_wm_out w)) assigned) (windows w) = Ok (windows w') \<and>
         lates em = (if \<exists>x \<in> set assigned. open_at (window_wm_out w) x then [] else [r]))))"
proof -
  have k: "uses_event_time (ws_kind (w_spec w))" "\<not> is_hopping_pt (ws_kind (w_spec w))"
    using kind by (simp_all add: uses_event_time_def is_hopping_pt_def split: option.splits)
  from ok k(2) show ?thesis
  proof (cases rule: on_row_scratch [of st w W r now])
    case (failed st1 w1 e)
    then show ?thesis by simp
  next
    case (ready st1 l n)
    let ?w = "w\<lparr>w_scratch_lease := l, w_scratch_cap := n\<rparr>"
    have inv: "window_inv st1 ?w" and kd: "kind_ok ?w" using ready(1) by (simp_all add: window_ok_def)
    have tum: "is_tumble (w_store ?w)" using kind_tumble(1) [OF kd] k(1) by simp
    have run: "on_row W r now (st, w) = on_et_row W r now sz slide (st1, ?w)" using ready(2) kind by (simp add: on_row_kind_def split: option.splits)
    from on_et_row_ok [OF inv tum, of r W now sz slide] wide k obtain st' w' res where
      e: "on_et_row W r now sz slide (st1, ?w) = Some ((st', w'), res)" "window_inv st' w'" "cfg w' = cfg ?w" "is_tumble (w_store w')"
        "\<forall>em. res = Ok em \<longrightarrow> et_effect W r now sz slide w w' em" by (auto simp: et_effect_scratch)
    have "window_ok st' w'" using kind_ok_cfg [OF kd e(3)] tum e(2,4) by (simp add: window_ok_def)
    then show ?thesis using run e(1,5) unfolding et_effect_def by metis
  qed
qed

lemma count_effect_scratch: "count_effect W r sz (w\<lparr>w_scratch_lease := l, w_scratch_cap := n\<rparr>) = count_effect W r sz w"
  by (simp add: count_effect_def count_step_def fun_eq_iff update_accs_def cong: option.case_cong)

lemma count_effect_cases:
  assumes "count_effect W r sz w w' rows"
  shows "\<exists>e e1 accs. (case counts w (key_encoding (row_group w r)) of
       None \<Rightarrow> ce_count e = 0 \<and> empty_accs (w_spec w) (w_input w) = Ok (ce_accs e) | Some old \<Rightarrow> e = old) \<and>
     update_accs (wh_expr W) w r (ce_accs e) = (accs, Ok ()) \<and> e1 = \<lparr>ce_count = wadd (ce_count e) 1, ce_accs = accs\<rparr> \<and>
     (if sz \<le> ce_count e1 then rows = [emit_count (row_group w r) e1] \<and> counts w' = (counts w)(key_encoding (row_group w r) := None)
      else rows = [] \<and> counts w' = (counts w)(key_encoding (row_group w r) \<mapsto> e1))"
proof (cases "counts w (key_encoding (row_group w r))")
  case None
  with assms obtain accs0 where a: "empty_accs (w_spec w) (w_input w) = Ok accs0" "count_step W r sz w \<lparr>ce_count = 0, ce_accs = accs0\<rparr> (counts w) (counts w') rows"
    by (auto simp: count_effect_def)
  show ?thesis
    by (rule exI [of _ "\<lparr>ce_count = 0, ce_accs = accs0\<rparr>"]) (use a None in \<open>auto simp: count_step_def\<close>)
next
  case (Some old)
  show ?thesis by (rule exI [of _ old]) (use assms Some in \<open>auto simp: count_effect_def count_step_def\<close>)
qed

text \<open>
  C7: A row of a count window. The row joins the window of its group, a new one when the group
  has none; when that makes the window's count reach the size, the window is emitted and
  removed, and otherwise it stays. No other group's window changes.
\<close>

theorem count_row_exact:
  assumes ok: "window_ok st w" and wide: "wide_row w r" and kind: "ws_kind (w_spec w) = Count sz"
  shows "\<exists>st' w' res. on_row W r now (st, w) = Some ((st', w'), res) \<and> window_ok st' w' \<and>
    (\<forall>em. res = Ok em \<longrightarrow> lates em = [] \<and>
      (\<exists>e e1 accs. (case counts w (key_encoding (row_group w r)) of
           None \<Rightarrow> ce_count e = 0 \<and> empty_accs (w_spec w) (w_input w) = Ok (ce_accs e) | Some old \<Rightarrow> e = old) \<and>
         update_accs (wh_expr W) w r (ce_accs e) = (accs, Ok ()) \<and> e1 = \<lparr>ce_count = wadd (ce_count e) 1, ce_accs = accs\<rparr> \<and>
         (if sz \<le> ce_count e1
          then finals em = [emit_count (row_group w r) e1] \<and> counts w' = (counts w)(key_encoding (row_group w r) := None)
          else finals em = [] \<and> counts w' = (counts w)(key_encoding (row_group w r) \<mapsto> e1))))"
proof -
  have k: "\<not> is_hopping_pt (ws_kind (w_spec w))" using kind by (simp add: is_hopping_pt_def)
  from ok k show ?thesis
  proof (cases rule: on_row_scratch [of st w W r now])
    case (failed st1 w1 e)
    then show ?thesis by simp
  next
    case (ready st1 l n)
    let ?w = "w\<lparr>w_scratch_lease := l, w_scratch_cap := n\<rparr>"
    have inv: "window_inv st1 ?w" and kd: "kind_ok ?w" using ready(1) by (simp_all add: window_ok_def)
    have cnt: "\<not> is_tumble (w_store ?w)" using kd kind by (simp add: kind_ok_def is_count_def)
    from on_count_row_ok [OF inv cnt, of r W sz] wide obtain st' w' res where
      e: "on_count_row W r sz (st1, ?w) = Some ((st', w'), res)" "window_inv st' w'" "base w' = base ?w" "\<not> is_tumble (w_store w')"
        "\<And>rows. res = Ok rows \<Longrightarrow> count_effect W r sz w w' rows" by (auto simp: count_effect_scratch)
    have ok': "window_ok st' w'" using kind_ok_cfg [OF kd base_cfg [OF e(3)]] cnt e(2,4) by (simp add: window_ok_def)
    show ?thesis
    proof (cases res)
      case (Inl x)
      then show ?thesis using ready(2) kind e(1) ok' by (simp add: on_row_kind_def ebind_step(2) [of "on_count_row W r sz"])
    next
      case (Inr rows)
      then have "on_row W r now (st, w) = Some ((st', w'), Ok (no_emission\<lparr>finals := rows\<rparr>))"
        using ready(2) kind e(1) by (simp add: on_row_kind_def ebind_step(1) [of "on_count_row W r sz"])
      moreover from count_effect_cases [OF e(5) [OF Inr]] obtain e0 e1 accs where "case counts w (key_encoding (row_group w r)) of
           None \<Rightarrow> ce_count e0 = 0 \<and> empty_accs (w_spec w) (w_input w) = Ok (ce_accs e0) | Some old \<Rightarrow> e0 = old"
           "update_accs (wh_expr W) w r (ce_accs e0) = (accs, Ok ())" "e1 = \<lparr>ce_count = wadd (ce_count e0) 1, ce_accs = accs\<rparr>"
           "if sz \<le> ce_count e1 then rows = [emit_count (row_group w r) e1] \<and> counts w' = (counts w)(key_encoding (row_group w r) := None)
            else rows = [] \<and> counts w' = (counts w)(key_encoding (row_group w r) \<mapsto> e1)" by blast
      moreover have "lates (no_emission\<lparr>finals := rows\<rparr>) = []" "finals (no_emission\<lparr>finals := rows\<rparr>) = rows" by (simp_all add: no_emission_def)
      ultimately show ?thesis using ok' by (metis Inr_inject)
    qed
  qed
qed

section \<open>Closing, firing and the whole lifetime\<close>

lemma due_entries:
  assumes inv: "window_inv st w" and all: "all_indexed w"
  shows "fst ` set (takeWhile (\<lambda>x. fst (fst x) \<le> wm) (w_index w)) = {(te_end v, enc) |v enc. windows w enc = Some v \<and> te_end v \<le> wm}"
proof -
  have srt: "sorted (map (\<lambda>x. fst (fst x)) (w_index w))" using index_by_end index_sorted [OF inv] by blast
  have tw: "set (takeWhile (\<lambda>x. fst (fst x) \<le> wm) (w_index w)) = {x \<in> set (w_index w). fst (fst x) \<le> wm}"
    using takeWhile_sorted_le [OF srt, of wm] by simp
  have iff: "(t, enc) \<in> fst ` set (w_index w) \<longleftrightarrow> (\<exists>v. windows w enc = Some v \<and> te_end v = t)" for t enc
  proof
    assume "(t, enc) \<in> fst ` set (w_index w)"
    then obtain k where "((t, enc), k) \<in> set (w_index w)" by force
    then show "\<exists>v. windows w enc = Some v \<and> te_end v = t" by (rule index_entry [OF inv]) blast
  next
    assume "\<exists>v. windows w enc = Some v \<and> te_end v = t"
    then show "(t, enc) \<in> fst ` set (w_index w)"
      using all by (cases "w_store w") (auto simp: windows_def all_indexed_def index_covers_def)
  qed
  show ?thesis
  proof (intro set_eqI iffI)
    fix i assume "i \<in> fst ` set (takeWhile (\<lambda>x. fst (fst x) \<le> wm) (w_index w))"
    then have "(fst i, snd i) \<in> fst ` set (w_index w)" "fst i \<le> wm" unfolding tw by force+
    then show "i \<in> {(te_end v, enc) |v enc. windows w enc = Some v \<and> te_end v \<le> wm}" unfolding iff by (cases i) auto
  next
    fix i assume "i \<in> {(te_end v, enc) |v enc. windows w enc = Some v \<and> te_end v \<le> wm}"
    then have "(fst i, snd i) \<in> fst ` set (w_index w)" "fst i \<le> wm" unfolding iff by auto
    then show "i \<in> fst ` set (takeWhile (\<lambda>x. fst (fst x) \<le> wm) (w_index w))" unfolding tw by force
  qed
qed



text \<open>
  C6: Firing in processing time. When every window is indexed and timed, firing at a clock
  reading ends without an error, emits one row for every window that has ended by then and
  only for those, leaves exactly the later windows, and leaves every one of them with its timer.
\<close>

theorem window_fire_exact:
  assumes ok: "window_ok st w" and all: "all_indexed w" "all_timed w" and kind: "uses_processing_time_timer (ws_kind (w_spec w))"
    and now: "w_clock_high w \<le> now" and due: "due = takeWhile (\<lambda>x. fst (fst x) \<le> now) (w_index w)"
  shows "\<exists>st' w'. window_fire_due now (st, w) =
      Some ((st', w'), Ok (map (\<lambda>x. emit_tumble (emitted_group w (snd x)) (the (windows w (snd (fst x))))) due)) \<and>
    window_ok st' w' \<and> all_indexed w' \<and> all_timed w' \<and> sorted (map fst due) \<and> distinct (map fst due) \<and>
    fst ` set due = {(te_end v, enc) |v enc. windows w enc = Some v \<and> te_end v \<le> now} \<and>
    windows w' = (\<lambda>enc. case windows w enc of Some v \<Rightarrow> if te_end v \<le> now then None else Some v | None \<Rightarrow> None)"
proof -
  let ?due = "takeWhile (\<lambda>x. fst (fst x) \<le> now) (w_index w)"
  have inv: "window_inv st w" using ok by (simp add: window_ok_def)
  have et: "\<not> uses_event_time (ws_kind (w_spec w))" using kind by (auto simp: uses_processing_time_timer_def uses_event_time_def split: window_kind.splits)
  have c: "clock now w = now" using now by (auto simp: clock_def)
  from window_fire_due_ok [OF ok, of now] et c obtain st' w' rows where
    f: "window_fire_due now (st, w) = Some ((st', w'), Ok rows)" "window_ok st' w'" "fires now w w' rows" by (auto simp: returns_def)
  have "bt_inv ?due" using index_sorted [OF inv] by (simp add: bt_inv_def sorted_wrt_map)
  then have srt: "sorted (map fst ?due)" "distinct (map fst ?due)" by (auto simp: bt_inv_def strict_sorted_iff)
  have "rows = map (\<lambda>x. emit_tumble (emitted_group w (snd x)) (the (windows w (snd (fst x))))) ?due" "all_indexed w'" "all_timed w'"
    "windows w' = (\<lambda>enc. case windows w enc of Some v \<Rightarrow> if te_end v \<le> now then None else Some v | None \<Rightarrow> None)"
    using f(3) all by (simp_all add: fires_def due_rows_def emission_def [abs_def])
  then show ?thesis using f(1,2) srt due_entries [OF inv all(1), of now] unfolding due by blast
qed

text \<open>
  C8: Batches of closed windows. From any state of the invariant taking a batch does not panic
  and keeps the invariant; when it succeeds, no batch means that nothing is due, and a batch
  holds between one and the requested number of rows, the first of the due rows in order, and
  leaves exactly the others due.
\<close>

theorem take_closed_batch_bound:
  assumes ok: "window_ok st w"
  shows "\<exists>st' w' res. take_closed_batch W t mr mb (st, w) = Some ((st', w'), res) \<and> window_ok st' w' \<and>
    (res = Ok None \<longrightarrow> due_rows (batch_clock t w) w = [] \<and> w' = w) \<and>
    (\<forall>b. res = Ok (Some b) \<longrightarrow> 1 \<le> length (rb_rows b) \<and> length (rb_rows b) \<le> max mr 1 \<and>
       rb_rows b @ due_rows (batch_clock t w) w' = due_rows (batch_clock t w) w)"
proof -
  from take_closed_batch_ok [OF ok, of W t mr mb] obtain st' w' res where
    r: "take_closed_batch W t mr mb (st, w) = Some ((st', w'), res)" "window_ok st' w'"
      "\<And>ob. res = Ok ob \<Longrightarrow> (case ob of None \<Rightarrow> due_rows (batch_clock t w) w = [] \<and> w' = w
        | Some b \<Rightarrow> \<exists>m \<le> max mr 1. 0 < m \<and> rb_rows b = take m (due_rows (batch_clock t w) w) \<and> rb_rows b \<noteq> [] \<and>
            due_rows (batch_clock t w) w' = drop m (due_rows (batch_clock t w) w))"
    by (auto elim!: step_okE)
  have "1 \<le> length (rb_rows b) \<and> length (rb_rows b) \<le> max mr 1 \<and> rb_rows b @ due_rows (batch_clock t w) w' = due_rows (batch_clock t w) w"
    if "res = Ok (Some b)" for b
  proof -
    from r(3) [OF that] obtain m where "m \<le> max mr 1" "rb_rows b = take m (due_rows (batch_clock t w) w)" "rb_rows b \<noteq> []"
      "due_rows (batch_clock t w) w' = drop m (due_rows (batch_clock t w) w)" by auto
    moreover from this have "length (rb_rows b) \<le> m" "0 < length (rb_rows b)" by auto
    ultimately show ?thesis by (simp add: Suc_le_eq)
  qed
  moreover have "res = Ok None \<longrightarrow> due_rows (batch_clock t w) w = [] \<and> w' = w" using r(3) [of None] by simp
  ultimately show ?thesis using r(1,2) by blast
qed

text \<open>
  C1: The lifetime of a window operator. After construction, any sequence of its operations,
  with arbitrary rows of the input's width, clocks, watermarks and failures in between, runs
  without a panic; at every point the bytes the operator says it retains are billed to its
  owner, within the owner's retention budget, and cleaning up empties it and gives exactly
  those bytes back.
\<close>

theorem window_safe:
  assumes wf: "wf_owner ow" and cap: "retention ow st \<le> cap (owner_budget ow) Retention" and mt: "is_u64 mt"
    and new: "window_new W op sp input ow mk mt (st, ()) = Some ((st0, ()), Ok w0)"
    and fits: "list_all (command_fits (length (schema_fields input))) cs"
  shows "\<exists>st1 w1 st2 w2. window_run W cs (st0, w0) = Some (st1, w1) \<and>
    window_retention_bytes w1 \<le> retention ow st1 \<and> retention ow st1 \<le> cap (owner_budget ow) Retention \<and>
    window_cleanup (st1, w1) = Some ((st2, w2), Ok ()) \<and> window_key_count w2 = 0 \<and>
    retention ow st2 + window_retention_bytes w1 = retention ow st1"
proof -
  note n = window_new_ok [OF wf cap mt new]
  have ok0: "window_ok st0 w0" using n(1) by blast
  from window_run_ok [OF ok0 n(4) fits, of W] obtain st1 w1 where r: "window_run W cs (st0, w0) = Some (st1, w1)" "window_ok st1 w1" "cfg w1 = cfg w0" by blast
  have ow: "w_owner w1 = ow" using cfgD(7) [OF r(3)] n(3) by simp
  obtain st2 w2 where c: "window_cleanup (st1, w1) = Some ((st2, w2), Ok ())" "window_key_count w2 = 0"
    "retention (w_owner w1) st2 + window_retention_bytes w1 = retention (w_owner w1) st1" by (rule cleanup_ok [OF r(2)])
  show ?thesis using r(1) c retained_bound [OF r(2)] ow by auto
qed

section \<open>A demo operator\<close>

definition demo_window_host :: window_host where
  "demo_window_host = \<lparr>wh_layout = \<lparr>size_of_scalar = 24, size_of_dynamic = 24, size_of_pair = 40, size_of_state_key = 80\<rparr>,
     wh_row_layout = \<lparr>size_of_scalar = 24, size_of_dynamic = 24, size_of_pair = 40, size_of_row = 24\<rparr>,
     wh_size_of_accumulator = 64, wh_expr = demo_host, wh_caps = (\<lambda>_. (2, 32))\<rparr>"

definition demo_window_schema :: schema where
  "demo_window_schema = \<lparr>schema_id = 1, schema_fields = [Field 1 ''k'' TInt64 False, Field 2 ''ts'' TInt64 False]\<rparr>"

definition demo_window_spec :: "window_kind \<Rightarrow> window_spec" where
  "demo_window_spec k = (let sp = window_spec_new k [''k''] [agg_call_count_star ''n'']
     in if uses_event_time k then with_event_time ''ts'' 5 sp else sp)"

lemmas demo_eval = window_new_def window_validate_def validate_kind_def window_store_new_def window_hub_new_def demo_window_spec_def window_spec_new_def
  agg_call_count_star_def with_event_time_def uses_event_time_def is_buffered_def is_new_window_def resolve_keys_def index_of_name_def
  event_time_index_def window_output_schema_def check_event_time_field_def key_field_def agg_field_def agg_result_type_def agg_input_type_def
  field_by_name_def demo_window_schema_def bind_agg_def ws_binding_def ms_new_def timers_new_def variable_accs_def ok_or_def
  agg_is_extended_def is_count_def schema_new_def Let_def

lemma demo_store: "wf_owner demo_owner" "retention demo_owner (\<lambda>_. counters_new) \<le> cap (owner_budget demo_owner) Retention"
  by (simp_all add: demo_owner_def budget_ok_def budget_compact_def retention_def counters_new_def)

definition demo_built :: "window_kind \<Rightarrow> window_op \<Rightarrow> bool" where
  "demo_built k w \<longleftrightarrow> window_new demo_window_host 7 (demo_window_spec k) demo_window_schema demo_owner 4 4 (\<lambda>_. counters_new, ()) =
     Some ((\<lambda>_. counters_new, ()), Ok w)"

lemma demo_new: "\<exists>w. demo_built (TumblingProcessingTime 10) w" "\<exists>w. demo_built (TumblingEventTime 10) w" "\<exists>w. demo_built (Count 2) w"
  by (simp_all add: demo_built_def demo_eval schema_validate_def register_def hub_new_def hub_with_capacity_def with_binding_def binding_validate_def holdback_new_def eguarded_def)

text \<open>An operator that holds one window of group 1, from 10 to 20, with two rows.\<close>

definition demo_root :: memory_owner where
  "demo_root = MemoryOwner 0 budget_compact None"

definition demo_counters :: store where
  "demo_counters = (\<lambda>_. counters_new\<lparr>c_retention := 900, c_physical := 900, c_live_handles := 2\<rparr>)"

definition demo_key :: "memory_lease option \<Rightarrow> state_key" where
  "demo_key l = \<lparr>sk_operator = 7, sk_slot = 1, sk_key = [SInt64 1], sk_encoded = key_encoding [SInt64 1],
     sk_key_capacity = 1, sk_encoded_capacity = 32, sk_index_lease = l\<rparr>"

definition demo_tumble :: tumble_entry where
  "demo_tumble = \<lparr>te_start = 10, te_end = 20, te_accs = [AccCount 2 0 True]\<rparr>"

definition demo_live :: window_op where
  "demo_live = \<lparr>w_operator = 7, w_spec = demo_window_spec (TumblingProcessingTime 10), w_group_idx = [0], w_event_time_idx = None,
     w_input = demo_window_schema,
     w_output = \<lparr>schema_id = 51, schema_fields = [Field 1 ''k'' TInt64 False, Field 2 ''window_start'' TInt64 False,
       Field 3 ''window_end'' TInt64 False, Field 4 ''n'' TInt64 True]\<rparr>,
     w_store = TumbleStore \<lparr>ms_owner = demo_root, ms_operator = 7, ms_slot = 1, ms_max_keys = 4,
       ms_entries = [((7, 1, key_encoding [SInt64 1]),
         \<lparr>e_key = demo_key None, e_value = demo_tumble, e_key_bytes = 400, e_lease = MemoryLease demo_root (AllocInner 1 500 Retention 1 None)\<rparr>)],
       ms_retained = 500\<rparr>,
     w_timers = \<lparr>bt_operator = 7, bt_max = 4, gens = [(timer_window 7 20, 1)], deadlines = [(timer_window 7 20, 20)],
       theap = [(20, 1, 20)], cancelled = 0\<rparr>, w_owner = demo_root,
     w_hub = hub_new, w_holdback = None, w_default_input = 0, w_external = False,
     w_index = [((20, key_encoding [SInt64 1]), demo_key (Some (MemoryLease demo_root (AllocInner 2 400 Retention 1 None))))],
     w_bound_aggs = [None], w_variable_accs = False, w_index_bytes = 400, w_scratch_cap = 0, w_scratch_lease = None, w_clock_high = 0\<rparr>"

lemma demo_live_windows: "windows demo_live = [key_encoding [SInt64 1] \<mapsto> demo_tumble]"
  by (auto simp: fun_eq_iff windows_def demo_live_def window_slot_def)

lemma demo_live_timers: "timers_ok 7 (w_timers demo_live)"
  by (auto simp: timers_ok_def timers_inv_def table_ok_def hm_inv_def in_heap_def pending_at_def demo_live_def timer_window_def sat_u64_def
      is_i64_def i64_as_u64_def mach_defs split: if_splits)

lemma demo_live_ok: "window_ok demo_counters demo_live" "all_indexed demo_live" "all_timed demo_live"
proof -
  have st: "store_ok demo_live demo_counters"
    by (simp add: store_ok_def demo_live_def index_inv_def bt_inv_def index_ok_def index_points_def ms_inv_def entry_ok_def hm_inv_def hm_sum_def
        demo_key_def key_id_def window_slot_def index_bytes_def lease_bytes_def demo_tumble_def demo_root_def demo_counters_def counters_new_def
        retention_def budget_ok_def budget_compact_def)
  have own: "list_all (\<lambda>x. own_key demo_live (snd x)) (w_index demo_live)" by (simp add: demo_live_def own_key_def demo_key_def window_slot_def)
  have ends: "\<forall>enc e. windows demo_live enc = Some e \<longrightarrow> is_i64 (te_end e)" by (simp add: demo_live_windows demo_tumble_def is_i64_def)
  have f: "w_operator demo_live = 7" "w_scratch_lease demo_live = None" by (simp_all add: demo_live_def)
  have "window_inv demo_counters demo_live" unfolding window_inv_def using st own ends demo_live_timers f by simp
  then show "window_ok demo_counters demo_live"
    by (simp add: window_ok_def kind_ok_def) (simp add: demo_live_def demo_window_spec_def window_spec_new_def is_buffered_def is_count_def uses_event_time_def)
  show "all_indexed demo_live" by (simp add: all_indexed_def index_covers_def demo_live_def demo_tumble_def window_slot_def)
  show "all_timed demo_live" unfolding all_timed_def demo_live_windows by (simp add: demo_live_def pending_at_def demo_tumble_def)
qed

lemma demo_live_index: "takeWhile (\<lambda>x. fst (fst x) \<le> 25) (w_index demo_live) = w_index demo_live" "length (w_index demo_live) = 1"
  "\<not> suffixed_key demo_live"
  by (simp_all add: demo_live_def suffixed_key_def uses_event_time_def is_hopping_pt_def demo_window_spec_def window_spec_new_def)

lemma demo_live_emission:
  "map (\<lambda>x. emit_tumble (emitted_group demo_live (snd x)) (the (windows demo_live (snd (fst x))))) (w_index demo_live) =
     [[SInt64 1, SInt64 10, SInt64 20, SInt64 2]]"
  by (simp add: emitted_group_def demo_live_index demo_live_windows)
    (simp add: demo_live_def demo_key_def demo_tumble_def emit_tumble_def u64_as_i64_def)


theorem window_fire_exact_witness:
  "\<exists>st' w'. window_fire_due 25 (demo_counters, demo_live) = Some ((st', w'), Ok [[SInt64 1, SInt64 10, SInt64 20, SInt64 2]]) \<and>
     windows w' = Map.empty \<and> all_timed w'"
proof -
  have k: "uses_processing_time_timer (ws_kind (w_spec demo_live))" "w_clock_high demo_live \<le> 25"
    by (simp_all add: demo_live_def demo_window_spec_def window_spec_new_def uses_event_time_def uses_processing_time_timer_def)
  from window_fire_exact [OF demo_live_ok k demo_live_index(1) [symmetric]] obtain st' w' where
    f: "window_fire_due 25 (demo_counters, demo_live) = Some ((st', w'), Ok [[SInt64 1, SInt64 10, SInt64 20, SInt64 2]])" "all_timed w'"
    "windows w' = (\<lambda>enc. case windows demo_live enc of Some v \<Rightarrow> if te_end v \<le> 25 then None else Some v | None \<Rightarrow> None)"
    unfolding demo_live_emission by blast
  have "windows w' = Map.empty" unfolding f(3) by (simp add: demo_live_windows demo_tumble_def fun_eq_iff)
  with f(1,2) show ?thesis by blast
qed

theorem take_closed_batch_bound_witness:
  "\<exists>st' w' res. take_closed_batch demo_window_host 25 4 100000 (demo_counters, demo_live) = Some ((st', w'), res) \<and>
     (\<forall>b. res = Ok (Some b) \<longrightarrow> rb_rows b @ due_rows 25 w' = [[SInt64 1, SInt64 10, SInt64 20, SInt64 2]])"
proof -
  have c: "batch_clock 25 demo_live = 25" by (simp add: batch_clock_def demo_live_def demo_window_spec_def window_spec_new_def uses_event_time_def is_hopping_pt_def)
  have d: "due_rows 25 demo_live = [[SInt64 1, SInt64 10, SInt64 20, SInt64 2]]"
    unfolding due_rows_def demo_live_index(1) emission_def [abs_def] by (rule demo_live_emission)
  show ?thesis using take_closed_batch_bound [OF demo_live_ok(1), of demo_window_host 25 4 100000] unfolding c d by blast
qed

lemma demo_row: "demo_built k w \<Longrightarrow> window_ok (\<lambda>_. counters_new) w \<and> wide_row w [SInt64 1, SInt64 3] \<and> w_spec w = demo_window_spec k"
proof -
  assume b: "demo_built k w"
  note n = window_new_ok [OF demo_store _ b [unfolded demo_built_def]]
  have u: "is_u64 4" by (simp add: is_u64_def)
  have "list_all (\<lambda>i. i < 2) (w_group_idx w)" using n(4) [OF u] by (simp add: demo_window_schema_def numeral_2_eq_2)
  then show ?thesis using n(1,2) [OF u] by (auto simp: wide_row_def list_all_iff numeral_2_eq_2)
qed

theorem et_row_exact_witness:
  "\<exists>w st' w' res. demo_built (TumblingEventTime 10) w \<and>
     on_row demo_window_host [SInt64 1, SInt64 3] 5 (\<lambda>_. counters_new, w) = Some ((st', w'), res) \<and> window_ok st' w' \<and>
     (\<forall>em. res = Ok em \<longrightarrow> finals em = [])"
proof -
  obtain w where b: "demo_built (TumblingEventTime 10) w" using demo_new(2) by blast
  have ok: "window_ok (\<lambda>_. counters_new) w" "wide_row w [SInt64 1, SInt64 3]" using demo_row [OF b] by simp_all
  have k: "ws_kind (w_spec w) = (case None of None \<Rightarrow> TumblingEventTime 10 | Some sl \<Rightarrow> HoppingEventTime 10 sl)"
    using demo_row [OF b] by (simp add: demo_window_spec_def window_spec_new_def with_event_time_def Let_def)
  show ?thesis using et_row_exact [OF ok k, of demo_window_host 5] b by blast
qed

theorem count_row_exact_witness:
  "\<exists>w st' w' res. demo_built (Count 2) w \<and>
     on_row demo_window_host [SInt64 1, SInt64 3] 5 (\<lambda>_. counters_new, w) = Some ((st', w'), res) \<and> window_ok st' w' \<and>
     (\<forall>em. res = Ok em \<longrightarrow> lates em = [])"
proof -
  obtain w where b: "demo_built (Count 2) w" using demo_new(3) by blast
  have ok: "window_ok (\<lambda>_. counters_new) w" "wide_row w [SInt64 1, SInt64 3]" using demo_row [OF b] by simp_all
  have k: "ws_kind (w_spec w) = Count 2" using demo_row [OF b] by (simp add: demo_window_spec_def window_spec_new_def uses_event_time_def)
  show ?thesis using count_row_exact [OF ok k, of demo_window_host 5] b by blast
qed

theorem window_safe_witness:
  "\<exists>w0 st1 w1 st2 w2. demo_built (TumblingEventTime 10) w0 \<and>
     window_run demo_window_host [OnBatch [[SInt64 1, SInt64 3]] 5, ObserveWatermark 0 30, TakeClosedBatch 20 4 100000, FireDue 40]
       (\<lambda>_. counters_new, w0) = Some (st1, w1) \<and>
     window_cleanup (st1, w1) = Some ((st2, w2), Ok ()) \<and> retention demo_owner st2 + window_retention_bytes w1 = retention demo_owner st1"
proof -
  let ?cs = "[OnBatch [[SInt64 1, SInt64 3]] 5, ObserveWatermark 0 30, TakeClosedBatch 20 4 100000, FireDue 40]"
  obtain w where b: "demo_built (TumblingEventTime 10) w" using demo_new(2) by blast
  have u: "is_u64 4" by (simp add: is_u64_def)
  have f: "list_all (command_fits (length (schema_fields demo_window_schema))) ?cs" by (simp add: demo_window_schema_def)
  show ?thesis using window_safe [OF demo_store u b [unfolded demo_built_def] f] b by blast
qed

section \<open>A bound that validation and assignment read differently\<close>

text \<open>
  Validation takes an overlap cap of zero as the default cap; assignment takes it as zero. A
  hopping window with that cap is accepted and then every row is refused.
\<close>

theorem zero_overlap_cap:
  assumes "window_validate sp = Ok ()" "ws_kind sp = HoppingEventTime sz sl" "ws_max_overlap sp = 0"
  shows "assign_windows sp ts sz (Some sl) = Err BoundExceeded"
proof -
  have "validate_kind sp = Ok ()" by (rule validated_window(3) [OF assms(1)])
  then obtain n where n: "hop_overlap sz sl = Ok n" using assms(2) by (auto simp: validate_kind_def check_hop_overlap_bound_def rbind_Inr_iff)
  then have "0 < n" by (auto simp: hop_overlap_def Let_def split: if_splits)
  then show ?thesis using n assms(3) by (simp add: assign_windows_def assign_hop_def)
qed

end
