(* ===== verification/Freeze_Codec.thy ===== *)
theory Freeze_Codec
  imports Aggregate
begin

text \<open>
  The frozen state of a window operator and its wire format:
  \<^verbatim>\<open>WindowFreeze\<close> and \<^verbatim>\<open>write_freeze_entry\<close> of \<^verbatim>\<open>sparrow-runtime/src/window.rs\<close>,
  \<^verbatim>\<open>encode_freeze_codec\<close>, \<^verbatim>\<open>FreezeHeader\<close> and \<^verbatim>\<open>decode_freeze_metered_pt\<close> of
  \<^verbatim>\<open>checkpoint.rs\<close>. A decoder returns the value, the bytes it bills and the rest of the
  input. A vector built with \<^verbatim>\<open>with_capacity\<close> has the capacity asked for; the size of a
  frozen entry is the parameter \<open>sz\<close>.
\<close>

section \<open>Data\<close>

record frozen_entry =
  fz_key :: "scalar list"
  fz_start :: int
  fz_end :: int
  fz_count :: nat
  fz_accs :: "accumulator list"

record window_freeze =
  wf_operator :: nat
  wf_slot :: nat
  wf_kind :: u8
  wf_entries :: "frozen_entry list"
  wf_wm_in :: "int option"
  wf_wm_out :: "int option"
  wf_last_effective :: "int option"

definition max_snapshot_bytes :: nat where "max_snapshot_bytes = 8388608"

section \<open>Encoding\<close>

definition u16_le :: "nat \<Rightarrow> bytes" where
  "u16_le x = le_bytes 2 (x mod 65536)"

definition encode_all :: "('a \<Rightarrow> bytes result) \<Rightarrow> 'a list \<Rightarrow> bytes result" where
  "encode_all f xs = rbind (map_result f xs) (\<lambda>bs. Ok (concat bs))"

definition write_freeze_entry :: "acc_codec \<Rightarrow> frozen_entry \<Rightarrow> bytes result" where
  "write_freeze_entry c e =
     rbind (encode_all encode_value (fz_key e)) (\<lambda>ks.
     rbind (encode_all (encode_codec c) (fz_accs e)) (\<lambda>as.
       Ok (u16_le (length (fz_key e)) @ ks @ i64_le (fz_start e) @ i64_le (fz_end e) @ u64_le (fz_count e)
           @ u16_le (length (fz_accs e)) @ as)))"

definition encode_opt_i64 :: "int option \<Rightarrow> bytes" where
  "encode_opt_i64 v = (case v of None \<Rightarrow> [0] | Some x \<Rightarrow> 1 # i64_le x)"

definition freeze_entry_overhead :: nat where "freeze_entry_overhead = 28"

definition estimated_entry_bytes :: "acc_codec \<Rightarrow> frozen_entry \<Rightarrow> nat result" where
  "estimated_entry_bytes c e =
     rbind (map_result encoded_value_len (fz_key e)) (\<lambda>ks.
     rbind (map_result (encoded_len_codec c) (fz_accs e)) (\<lambda>as.
       Ok (sum_list (freeze_entry_overhead # ks @ as))))"

definition estimated_frozen_bytes :: "acc_codec \<Rightarrow> window_freeze \<Rightarrow> nat result" where
  "estimated_frozen_bytes c f =
     rbind (map_result (estimated_entry_bytes c) (wf_entries f)) (\<lambda>ns. Ok (sat_u64 (sum_list ns)))"

definition freeze_header :: "nat \<Rightarrow> nat \<Rightarrow> u8 \<Rightarrow> nat \<Rightarrow> bytes" where
  "freeze_header op slot kind n = u32_le op @ u16_le slot @ [kind] @ u32_le n"

definition encode_freeze_codec :: "acc_codec \<Rightarrow> nat \<Rightarrow> window_freeze \<Rightarrow> bytes result" where
  "encode_freeze_codec c max_entries f =
     (if length (wf_entries f) > max_entries then Err BoundExceeded
      else rbind (estimated_frozen_bytes c f) (\<lambda>n.
        if sat_u64 (n + 256) > max_snapshot_bytes then Err BoundExceeded
        else rbind (encode_all (write_freeze_entry c) (wf_entries f)) (\<lambda>body.
          Ok (freeze_header (wf_operator f) (wf_slot f) (wf_kind f) (length (wf_entries f)) @ body
              @ encode_opt_i64 (wf_wm_in f) @ encode_opt_i64 (wf_wm_out f) @ encode_opt_i64 (wf_last_effective f)))))"

definition encode_freeze :: "nat \<Rightarrow> window_freeze \<Rightarrow> bytes result" where
  "encode_freeze max_entries f = encode_freeze_codec CodecWindow max_entries f"

section \<open>Decoding\<close>

record freeze_head =
  fh_operator :: nat
  fh_slot :: nat
  fh_kind :: u8
  fh_entries :: nat

definition freeze_header_parse :: "bytes \<Rightarrow> freeze_head result" where
  "freeze_header_parse b =
     (if length b < 11 then Err CodecViolation
      else Ok \<lparr>fh_operator = from_le_bytes (take 4 b), fh_slot = from_le_bytes (take 2 (drop 4 b)),
               fh_kind = b ! 6, fh_entries = from_le_bytes (take 4 (drop 7 b))\<rparr>)"

definition decode_opt_i64 :: "bytes \<Rightarrow> (int option \<times> bytes) result" where
  "decode_opt_i64 src =
     (case src of
        [] \<Rightarrow> Err CodecViolation
      | tag # rest \<Rightarrow>
          if tag = 0 then Ok (None, rest)
          else if tag = 1 then
            (if length rest < 8 then Err CodecViolation
             else Ok (Some (u64_as_i64 (from_le_bytes (take 8 rest))), drop 8 rest))
          else Err CodecViolation)"

text \<open>The loops of one entry: in scan mode nothing is collected.\<close>

fun freeze_keys :: "layout \<Rightarrow> bool \<Rightarrow> nat \<Rightarrow> nat \<Rightarrow> bytes \<Rightarrow> (scalar list \<times> nat \<times> bytes) result" where
  "freeze_keys L mat 0 m src = Ok ([], m, src)"
| "freeze_keys L mat (Suc n) m src =
     rbind (if mat then rbind (decode_value src) (\<lambda>(v, rest). Ok ([v], rest))
            else rbind (skip_encoded_value src) (\<lambda>rest. Ok ([], rest))) (\<lambda>(k, rest).
     rbind (freeze_keys L mat n (sat_u64 (m + encoded_scalar_resident L (take (length src - length rest) src))) rest)
       (\<lambda>(ks, m', rest'). Ok (k @ ks, m', rest')))"

fun freeze_accs :: "layout \<Rightarrow> acc_codec \<Rightarrow> bool \<Rightarrow> nat \<Rightarrow> nat \<Rightarrow> bytes \<Rightarrow> (accumulator list \<times> nat \<times> bytes) result" where
  "freeze_accs L c mat 0 m src = Ok ([], m, src)"
| "freeze_accs L c mat (Suc n) m src =
     rbind (if mat then rbind (decode_codec L c src) (\<lambda>(a, rest). Ok ([a], acc_tracked_bytes L a, rest))
            else rbind (skip_encoded_codec L c src) (\<lambda>(k, rest). Ok ([], k, rest))) (\<lambda>(a, k, rest).
     rbind (freeze_accs L c mat n (sat_u64 (m + k)) rest) (\<lambda>(as, m', rest'). Ok (a @ as, m', rest')))"

definition pt_violation :: "(int \<times> bool) option \<Rightarrow> u8 \<Rightarrow> int \<Rightarrow> int \<Rightarrow> nat \<Rightarrow> bool" where
  "pt_violation pt kind start window_end n =
     (case pt of
        None \<Rightarrow> False
      | Some (now, hop) \<Rightarrow> kind \<noteq> 0 \<or> (start < 0 \<and> \<not> hop) \<or> start > now \<or> window_end \<le> now \<or> n \<noteq> 0)"

definition freeze_entry :: "layout \<Rightarrow> acc_codec \<Rightarrow> bool \<Rightarrow> (int \<times> bool) option \<Rightarrow> u8 \<Rightarrow> nat \<Rightarrow> bytes \<Rightarrow>
    (frozen_entry list \<times> nat \<times> bytes) result" where
  "freeze_entry L c mat pt kind m src =
     (if length src < 2 then Err CodecViolation
      else let nk = from_le_bytes (take 2 src) in
        if nk > 64 then Err BoundExceeded
        else rbind (freeze_keys L mat nk (sat_u64 (m + 128)) (drop 2 src)) (\<lambda>(key, m1, s1).
          if length s1 < 26 then Err CodecViolation
          else let start = u64_as_i64 (from_le_bytes (take 8 s1));
                   window_end = u64_as_i64 (from_le_bytes (take 8 (drop 8 s1)));
                   n = from_le_bytes (take 8 (drop 16 s1));
                   na = from_le_bytes (take 2 (drop 24 s1)) in
            if pt_violation pt kind start window_end n then Err CodecViolation
            else if na > 64 then Err BoundExceeded
            else rbind (freeze_accs L c mat na m1 (drop 26 s1)) (\<lambda>(accs, m2, s2).
              Ok (if mat then [\<lparr>fz_key = key, fz_start = start, fz_end = window_end, fz_count = n, fz_accs = accs\<rparr>] else [],
                  m2, s2))))"

fun freeze_entries :: "layout \<Rightarrow> acc_codec \<Rightarrow> bool \<Rightarrow> (int \<times> bool) option \<Rightarrow> u8 \<Rightarrow> nat \<Rightarrow> nat \<Rightarrow> bytes \<Rightarrow>
    (frozen_entry list \<times> nat \<times> bytes) result" where
  "freeze_entries L c mat pt kind 0 m src = Ok ([], m, src)"
| "freeze_entries L c mat pt kind (Suc n) m src =
     rbind (freeze_entry L c mat pt kind m src) (\<lambda>(e, m1, s1).
     rbind (freeze_entries L c mat pt kind n m1 s1) (\<lambda>(es, m2, s2). Ok (e @ es, m2, s2)))"

text \<open>What the vectors of a decoded freeze occupy: they have no spare capacity.\<close>

definition entry_resident :: "layout \<Rightarrow> frozen_entry \<Rightarrow> nat" where
  "entry_resident L e =
     sum_list (map (resident_bytes L) (fz_key e)) + sum_list (map (acc_tracked_bytes L) (fz_accs e)) + 128"

definition freeze_resident :: "layout \<Rightarrow> nat \<Rightarrow> window_freeze \<Rightarrow> nat" where
  "freeze_resident L sz f =
     foldl (\<lambda>n e. sat_u64 (n + entry_resident L e)) (sat_u64 (128 + sat_u64 (length (wf_entries f) * sz))) (wf_entries f)"

definition freeze_trailer :: "layout \<Rightarrow> nat \<Rightarrow> bool \<Rightarrow> (int \<times> bool) option \<Rightarrow> freeze_head \<Rightarrow> frozen_entry list \<Rightarrow> nat \<Rightarrow> bytes \<Rightarrow>
    (window_freeze \<times> nat \<times> bytes) result" where
  "freeze_trailer L sz mat pt h es metered src =
     rbind (decode_opt_i64 src) (\<lambda>(wm_in, s2).
     rbind (decode_opt_i64 s2) (\<lambda>(wm_out, s3).
     rbind (decode_opt_i64 s3) (\<lambda>(eff, s4).
       let f = \<lparr>wf_operator = fh_operator h, wf_slot = fh_slot h, wf_kind = fh_kind h, wf_entries = es,
                wf_wm_in = wm_in, wf_wm_out = wm_out, wf_last_effective = eff\<rparr> in
         if pt \<noteq> None \<and> (wm_in \<noteq> None \<or> wm_out \<noteq> None \<or> eff \<noteq> None) then Err CodecViolation
         else Ok (f, if mat then freeze_resident L sz f else metered, s4))))"

definition decode_freeze_metered_pt :: "layout \<Rightarrow> nat \<Rightarrow> nat \<Rightarrow> bool \<Rightarrow> (int \<times> bool) option \<Rightarrow> acc_codec \<Rightarrow> bytes \<Rightarrow>
    (window_freeze \<times> nat \<times> bytes) result" where
  "decode_freeze_metered_pt L sz max_entries mat pt c src =
     rbind (freeze_header_parse src) (\<lambda>h.
       if fh_entries h > max_entries then Err BoundExceeded
       else if length (drop 11 src) < sat_u64 (fh_entries h * freeze_entry_overhead) then Err CodecViolation
       else rbind (freeze_entries L c mat pt (fh_kind h) (fh_entries h) (sat_u64 (128 + sat_u64 (fh_entries h * sz))) (drop 11 src))
         (\<lambda>(es, metered, s1). freeze_trailer L sz mat pt h es metered s1))"

definition decode_freeze_metered :: "layout \<Rightarrow> nat \<Rightarrow> nat \<Rightarrow> bool \<Rightarrow> int option \<Rightarrow> acc_codec \<Rightarrow> bytes \<Rightarrow>
    (window_freeze \<times> nat \<times> bytes) result" where
  "decode_freeze_metered L sz max_entries mat pt_cut c src =
     decode_freeze_metered_pt L sz max_entries mat (map_option (\<lambda>now. (now, False)) pt_cut) c src"

definition decode_freeze_at_cut :: "layout \<Rightarrow> nat \<Rightarrow> nat \<Rightarrow> bool \<Rightarrow> int option \<Rightarrow> bytes \<Rightarrow> (window_freeze \<times> bytes) result" where
  "decode_freeze_at_cut L sz max_entries mat pt_cut src =
     rbind (decode_freeze_metered L sz max_entries mat pt_cut CodecWindow src) (\<lambda>(f, _, rest). Ok (f, rest))"

definition decode_freeze_mode :: "layout \<Rightarrow> nat \<Rightarrow> nat \<Rightarrow> bool \<Rightarrow> bytes \<Rightarrow> (window_freeze \<times> bytes) result" where
  "decode_freeze_mode L sz max_entries mat src = decode_freeze_at_cut L sz max_entries mat None src"

section \<open>What the encoder writes is read back\<close>

lemma sat_u64_add [simp]:
  "sat_u64 (sat_u64 a + b) = sat_u64 (a + b)" "sat_u64 (a + sat_u64 b) = sat_u64 (a + b)"
  by (simp_all add: sat_u64_def)

lemma u16_le_simps [simp]: "length (u16_le x) = 2" "x < 65536 \<Longrightarrow> from_le_bytes (u16_le x) = x"
  by (simp_all add: u16_le_def from_le_bytes_le_bytes)

definition acc_fits :: "acc_codec \<Rightarrow> accumulator \<Rightarrow> bool" where
  "acc_fits c a \<longleftrightarrow> acc_ok a \<and> (c = CodecWindowExt \<or> (case a of AccExtended _ \<Rightarrow> False | _ \<Rightarrow> True))"

lemma acc_fits_codec:
  assumes "acc_fits c a"
  shows "encode_codec c a = Ok (acc_bytes a)" "encoded_len_codec c a = Ok (length (acc_bytes a))"
    "decode_codec L c (acc_bytes a @ rest) = Ok (a, rest)"
proof -
  have ok: "acc_ok a" using assms by (simp add: acc_fits_def)
  obtain b where b: "encode_codec CodecWindowExt a = Ok b" "encoded_len_codec CodecWindowExt a = Ok (length b)"
      "decode_codec L CodecWindowExt (b @ rest) = Ok (a, rest)"
    using acc_roundtrip [OF ok, of L rest] by blast
  have "acc_bytes a = b" using b(1) by (simp add: acc_bytes_def)
  moreover have "encode_codec c a = encode_codec CodecWindowExt a" "encoded_len_codec c a = encoded_len_codec CodecWindowExt a"
    using assms by (auto simp: acc_fits_def encode_codec_def encoded_len_codec_def split: accumulator.splits)
  moreover have "decode_codec L c (b @ rest) = decode_codec L CodecWindowExt (b @ rest)"
  proof (cases "c = CodecWindowExt")
    case False
    then have "b \<noteq> []" "hd b \<noteq> 8" "hd b \<noteq> 9"
      using assms b(1) by (auto simp: acc_fits_def encode_codec_def rbind_Inr_iff split: accumulator.splits)
    then show ?thesis by (cases b) (simp_all add: decode_codec_def)
  qed simp
  ultimately show "encode_codec c a = Ok (acc_bytes a)" "encoded_len_codec c a = Ok (length (acc_bytes a))"
      "decode_codec L c (acc_bytes a @ rest) = Ok (a, rest)"
    using b by simp_all
qed

definition entry_values_ok :: "acc_codec \<Rightarrow> frozen_entry \<Rightarrow> bool" where
  "entry_values_ok c e \<longleftrightarrow> list_all value_ok (fz_key e) \<and> is_i64 (fz_start e) \<and> is_i64 (fz_end e) \<and>
     is_u64 (fz_count e) \<and> list_all (acc_fits c) (fz_accs e)"

definition entry_fits :: "acc_codec \<Rightarrow> frozen_entry \<Rightarrow> bool" where
  "entry_fits c e \<longleftrightarrow> entry_values_ok c e \<and> length (fz_key e) \<le> 64 \<and> length (fz_accs e) \<le> 64"

definition entry_bytes :: "frozen_entry \<Rightarrow> bytes" where
  "entry_bytes e = u16_le (length (fz_key e)) @ concat (map value_bytes (fz_key e)) @ i64_le (fz_start e) @ i64_le (fz_end e)
     @ u64_le (fz_count e) @ u16_le (length (fz_accs e)) @ concat (map acc_bytes (fz_accs e))"

lemma map_result_list_all:
  "list_all P xs \<Longrightarrow> (\<And>x. P x \<Longrightarrow> f x = Ok (g x)) \<Longrightarrow> map_result f xs = Ok (map g xs)"
  by (induction xs) simp_all

lemma write_freeze_entry_ok:
  assumes "entry_values_ok c e"
  shows "write_freeze_entry c e = Ok (entry_bytes e)" "estimated_entry_bytes c e = Ok (length (entry_bytes e))"
proof -
  have "map_result encode_value (fz_key e) = Ok (map value_bytes (fz_key e))"
      "map_result encoded_value_len (fz_key e) = Ok (map (\<lambda>s. length (value_bytes s)) (fz_key e))"
      "map_result (encode_codec c) (fz_accs e) = Ok (map acc_bytes (fz_accs e))"
      "map_result (encoded_len_codec c) (fz_accs e) = Ok (map (\<lambda>a. length (acc_bytes a)) (fz_accs e))"
    using assms
    by (auto simp: entry_values_ok_def encode_value_ok encoded_value_len_ok acc_fits_codec intro: map_result_list_all)
  then show "write_freeze_entry c e = Ok (entry_bytes e)" "estimated_entry_bytes c e = Ok (length (entry_bytes e))"
    by (simp_all add: write_freeze_entry_def entry_bytes_def encode_all_def estimated_entry_bytes_def
        freeze_entry_overhead_def length_concat comp_def)
qed

lemma freeze_keys_bytes:
  "list_all value_ok ks \<Longrightarrow> \<exists>m'. freeze_keys L True (length ks) m (concat (map value_bytes ks) @ rest) = Ok (ks, m', rest)"
  by (induction ks arbitrary: m) (fastforce simp: decode_value_bytes rbind_Inr_iff)+

lemma freeze_accs_bytes:
  "list_all (acc_fits c) as \<Longrightarrow> \<exists>m'. freeze_accs L c True (length as) m (concat (map acc_bytes as) @ rest) = Ok (as, m', rest)"
  by (induction as arbitrary: m) (fastforce simp: acc_fits_codec rbind_Inr_iff)+

lemma take_drop_parts:
  assumes "length a = 8" "length b = 8" "length c = 8" "length d = 2"
  shows "take 8 (a @ b @ c @ d @ r) = a" "take 8 (drop 8 (a @ b @ c @ d @ r)) = b"
    "take 8 (drop 16 (a @ b @ c @ d @ r)) = c" "take 2 (drop 24 (a @ b @ c @ d @ r)) = d"
    "drop 26 (a @ b @ c @ d @ r) = r" "length (a @ b @ c @ d @ r) \<ge> 26"
  using assms by simp_all

lemma freeze_entry_bytes:
  assumes "entry_fits c e" "\<not> pt_violation pt kind (fz_start e) (fz_end e) (fz_count e)"
  shows "\<exists>m'. freeze_entry L c True pt kind m (entry_bytes e @ rest) = Ok ([e], m', rest)"
proof -
  note fits = assms(1) [unfolded entry_fits_def entry_values_ok_def]
  let ?accs = "concat (map acc_bytes (fz_accs e)) @ rest"
  let ?fixed = "i64_le (fz_start e) @ i64_le (fz_end e) @ u64_le (fz_count e) @ u16_le (length (fz_accs e)) @ ?accs"
  obtain m1 where keys: "freeze_keys L True (length (fz_key e)) (sat_u64 (m + 128)) (concat (map value_bytes (fz_key e)) @ ?fixed)
      = Ok (fz_key e, m1, ?fixed)" using freeze_keys_bytes fits by blast
  obtain m2 where accs: "freeze_accs L c True (length (fz_accs e)) m1 ?accs = Ok (fz_accs e, m2, rest)"
    using freeze_accs_bytes fits by blast
  have nk: "from_le_bytes (u16_le (length (fz_key e))) = length (fz_key e)"
    and na: "from_le_bytes (u16_le (length (fz_accs e))) = length (fz_accs e)" using fits by simp_all
  have "length (u16_le (length (fz_key e))) = 2" by simp
  then show ?thesis using fits assms(2) keys accs nk na
    by (simp add: freeze_entry_def entry_bytes_def take_drop_parts)
qed

lemma freeze_entries_bytes:
  "list_all (entry_fits c) es \<Longrightarrow> list_all (\<lambda>e. \<not> pt_violation pt kind (fz_start e) (fz_end e) (fz_count e)) es \<Longrightarrow>
     \<exists>m'. freeze_entries L c True pt kind (length es) m (concat (map entry_bytes es) @ rest) = Ok (es, m', rest)"
proof (induction es arbitrary: m)
  case (Cons e es)
  obtain m1 where "freeze_entry L c True pt kind m (entry_bytes e @ concat (map entry_bytes es) @ rest)
      = Ok ([e], m1, concat (map entry_bytes es) @ rest)" using Cons.prems freeze_entry_bytes by force
  moreover obtain m2 where "freeze_entries L c True pt kind (length es) m1 (concat (map entry_bytes es) @ rest) = Ok (es, m2, rest)"
    using Cons by force
  ultimately show ?case by simp
qed simp

lemma decode_opt_i64_bytes:
  "pred_option is_i64 v \<Longrightarrow> decode_opt_i64 (encode_opt_i64 v @ rest) = Ok (v, rest)"
  by (cases v) (simp_all add: encode_opt_i64_def decode_opt_i64_def)

definition freeze_fits :: "acc_codec \<Rightarrow> nat \<Rightarrow> window_freeze \<Rightarrow> bool" where
  "freeze_fits c max_entries f \<longleftrightarrow> wf_operator f \<le> u32_max \<and> wf_slot f < 65536 \<and> length (wf_entries f) \<le> max_entries \<and>
     list_all (entry_fits c) (wf_entries f) \<and> sum_list (map (\<lambda>e. length (entry_bytes e)) (wf_entries f)) + 256 \<le> max_snapshot_bytes \<and>
     pred_option is_i64 (wf_wm_in f) \<and> pred_option is_i64 (wf_wm_out f) \<and> pred_option is_i64 (wf_last_effective f)"

definition freeze_bytes :: "window_freeze \<Rightarrow> bytes" where
  "freeze_bytes f = freeze_header (wf_operator f) (wf_slot f) (wf_kind f) (length (wf_entries f)) @ concat (map entry_bytes (wf_entries f))
     @ encode_opt_i64 (wf_wm_in f) @ encode_opt_i64 (wf_wm_out f) @ encode_opt_i64 (wf_last_effective f)"

lemma entry_bytes_min: "length (entry_bytes e) \<ge> freeze_entry_overhead"
  by (simp add: entry_bytes_def freeze_entry_overhead_def)

lemma entries_bytes_min:
  "length (concat (map entry_bytes es)) \<ge> length es * freeze_entry_overhead"
  using entry_bytes_min by (induction es) (auto intro: add_mono)

lemma freeze_fits_length:
  assumes "freeze_fits c mx f"
  shows "length (wf_entries f) \<le> 299593"
  using entries_bytes_min [of "wf_entries f"] assms
  by (simp add: freeze_fits_def freeze_entry_overhead_def max_snapshot_bytes_def length_concat comp_def)

lemma estimated_frozen_fits:
  assumes "freeze_fits c mx f"
  shows "estimated_frozen_bytes c f = Ok (sum_list (map (\<lambda>e. length (entry_bytes e)) (wf_entries f)))"
proof -
  have "map_result (estimated_entry_bytes c) (wf_entries f) = Ok (map (\<lambda>e. length (entry_bytes e)) (wf_entries f))"
    using assms by (auto simp: freeze_fits_def entry_fits_def write_freeze_entry_ok intro: map_result_list_all)
  then show ?thesis using assms
    by (simp add: estimated_frozen_bytes_def freeze_fits_def max_snapshot_bytes_def is_u64_def)
qed

lemma encode_freeze_fits:
  assumes "freeze_fits c mx f"
  shows "encode_freeze_codec c mx f = Ok (freeze_bytes f)"
proof -
  have "map_result (write_freeze_entry c) (wf_entries f) = Ok (map entry_bytes (wf_entries f))"
    using assms by (auto simp: freeze_fits_def entry_fits_def write_freeze_entry_ok intro: map_result_list_all)
  moreover have "sat_u64 (sum_list (map (\<lambda>e. length (entry_bytes e)) (wf_entries f)) + 256) \<le> max_snapshot_bytes"
    using assms by (simp add: freeze_fits_def max_snapshot_bytes_def is_u64_def)
  ultimately show ?thesis using assms estimated_frozen_fits [OF assms]
    by (simp add: encode_freeze_codec_def freeze_bytes_def encode_all_def freeze_fits_def)
qed

lemma length_opt_i64: "length (encode_opt_i64 v) \<le> 9"
  by (cases v) (simp_all add: encode_opt_i64_def)

lemma freeze_bytes_bound:
  assumes "freeze_fits c mx f"
  shows "length (freeze_bytes f) \<le> max_snapshot_bytes"
  using assms length_opt_i64 [of "wf_wm_in f"] length_opt_i64 [of "wf_wm_out f"] length_opt_i64 [of "wf_last_effective f"]
  by (simp add: freeze_bytes_def freeze_header_def freeze_fits_def length_concat comp_def)

lemma length_freeze_header [simp]: "length (freeze_header op slot kind n) = 11"
  by (simp add: freeze_header_def)

lemma freeze_header_parse_bytes:
  assumes "op \<le> u32_max" "slot < 65536" "n \<le> u32_max"
  shows "freeze_header_parse (freeze_header op slot kind n @ rest) = Ok \<lparr>fh_operator = op, fh_slot = slot, fh_kind = kind, fh_entries = n\<rparr>"
  using assms by (simp add: freeze_header_parse_def freeze_header_def nth_append)

lemma decode_freeze_bytes:
  assumes "freeze_fits c mx f"
    and "list_all (\<lambda>e. \<not> pt_violation pt (wf_kind f) (fz_start e) (fz_end e) (fz_count e)) (wf_entries f)"
    and "pt \<noteq> None \<longrightarrow> wf_wm_in f = None \<and> wf_wm_out f = None \<and> wf_last_effective f = None"
  shows "decode_freeze_metered_pt L sz mx True pt c (freeze_bytes f @ rest) = Ok (f, freeze_resident L sz f, rest)"
proof -
  let ?es = "wf_entries f" and ?n = "length (wf_entries f)"
  let ?tail = "encode_opt_i64 (wf_wm_in f) @ encode_opt_i64 (wf_wm_out f) @ encode_opt_i64 (wf_last_effective f) @ rest"
  note fits = assms(1) [unfolded freeze_fits_def]
  have head: "freeze_header_parse (freeze_bytes f @ rest) =
      Ok \<lparr>fh_operator = wf_operator f, fh_slot = wf_slot f, fh_kind = wf_kind f, fh_entries = ?n\<rparr>"
      "drop 11 (freeze_bytes f @ rest) = concat (map entry_bytes ?es) @ ?tail"
    using fits freeze_fits_length [OF assms(1)] by (simp_all add: freeze_bytes_def freeze_header_parse_bytes)
  have room: "\<not> length (concat (map entry_bytes ?es) @ ?tail) < sat_u64 (?n * freeze_entry_overhead)"
    using entries_bytes_min [of ?es] by (auto simp: sat_u64_def)
  obtain m' where es: "freeze_entries L c True pt (wf_kind f) ?n (sat_u64 (128 + sat_u64 (?n * sz))) (concat (map entry_bytes ?es) @ ?tail)
      = Ok (?es, m', ?tail)"
    using freeze_entries_bytes [OF _ assms(2)] fits by blast
  have trailer: "freeze_trailer L sz True pt \<lparr>fh_operator = wf_operator f, fh_slot = wf_slot f, fh_kind = wf_kind f, fh_entries = ?n\<rparr>
      ?es m' ?tail = Ok (f, freeze_resident L sz f, rest)"
    using fits assms(3) by (cases f) (auto simp: freeze_trailer_def decode_opt_i64_bytes Let_def)
  show ?thesis
    unfolding decode_freeze_metered_pt_def head rbind_simps using room es fits by (simp add: trailer)
qed

section \<open>A scan accepts and bills what materialising does\<close>

lemma decode_codec_shorter: "decode_codec L c src = Ok (a, rest) \<Longrightarrow> length rest \<le> length src"
proof (cases src)
  case (Cons tag tl1)
  assume dec: "decode_codec L c src = Ok (a, rest)"
  consider "tag = 1" | "tag = 2" | "tag = 3" | "tag = 4" | "tag = 5" | (opt) "tag = 6 \<or> tag = 7" | (ext) "tag = 8 \<or> tag = 9"
    | "tag \<notin> {1, 2, 3, 4, 5, 6, 7, 8, 9}" by blast
  then show ?thesis
  proof cases
    case opt
    then show ?thesis using dec Cons
      by (auto simp: decode_codec_def decode_opt_scalar_def take_u8_def rbind_Inr_iff dest!: decode_suffix split: if_splits list.splits)
  next
    case ext
    then have "\<exists>e. ext_decode L src = Ok (e, rest)" using dec Cons
      by (auto simp: decode_codec_def rbind_Inr_iff codec1_extended_def split: if_splits)
    then obtain n where "ext_skip L src = Ok (n, rest)" using ext_decode_skip by blast
    then show ?thesis by (auto simp: ext_skip_def rbind_Inr_iff split: list.splits if_splits)
  qed (use dec Cons in \<open>auto simp: decode_codec_def fixed_decoders rbind_Inr_iff split: if_splits\<close>)
qed (simp add: decode_codec_def)

lemma freeze_keys_scan:
  "freeze_keys L False n m src = Ok (k0, m', rest) \<longleftrightarrow> k0 = [] \<and> (\<exists>ks. freeze_keys L True n m src = Ok (ks, m', rest))"
  by (induction n arbitrary: m src k0) (fastforce simp: rbind_Inr_iff skip_iff_decode)+

lemma freeze_keys_meter:
  "freeze_keys L True n m src = Ok (ks, m', rest) \<Longrightarrow> is_u64 m \<Longrightarrow>
     m' = sat_u64 (m + sum_list (map (resident_bytes L) ks)) \<and> length rest \<le> length src"
proof (induction n arbitrary: m src ks)
  case (Suc n)
  then obtain v s1 ks1 where v: "decode_value src = Ok (v, s1)" "ks = v # ks1"
      and tl: "freeze_keys L True n (sat_u64 (m + resident_bytes L v)) s1 = Ok (ks1, m', rest)"
    using decode_resident by (fastforce simp: rbind_Inr_iff)
  from Suc.IH [OF tl] decode_suffix [OF v(1)] v(2) show ?case by (auto simp: add.assoc)
qed simp

lemma freeze_accs_scan:
  "size_of_scalar L + length src + 176 \<le> u64_max \<Longrightarrow>
   freeze_accs L c False n m src = Ok (a0, m', rest) \<longleftrightarrow> a0 = [] \<and> (\<exists>as. freeze_accs L c True n m src = Ok (as, m', rest))"
proof (induction n arbitrary: m src a0)
  case (Suc n)
  have "freeze_accs L c False (Suc n) m src = Ok (a0, m', rest) \<longleftrightarrow>
      (\<exists>a s1. decode_codec L c src = Ok (a, s1) \<and> freeze_accs L c False n (sat_u64 (m + acc_tracked_bytes L a)) s1 = Ok (a0, m', rest))"
    using skip_bills_exactly [OF Suc.prems] by (auto simp: rbind_Inr_iff)
  also have "\<dots> \<longleftrightarrow> a0 = [] \<and> (\<exists>a s1 as. decode_codec L c src = Ok (a, s1) \<and>
      freeze_accs L c True n (sat_u64 (m + acc_tracked_bytes L a)) s1 = Ok (as, m', rest))"
  proof -
    have "freeze_accs L c False n k s1 = Ok (a0, m', rest) \<longleftrightarrow> a0 = [] \<and> (\<exists>as. freeze_accs L c True n k s1 = Ok (as, m', rest))"
      if "decode_codec L c src = Ok (a, s1)" for a s1 k
      using Suc.IH [of s1] Suc.prems decode_codec_shorter [OF that] by simp
    then show ?thesis by blast
  qed
  also have "\<dots> \<longleftrightarrow> a0 = [] \<and> (\<exists>as. freeze_accs L c True (Suc n) m src = Ok (as, m', rest))"
    by (fastforce simp: rbind_Inr_iff)
  finally show ?case .
qed auto

lemma freeze_accs_meter:
  "freeze_accs L c True n m src = Ok (as, m', rest) \<Longrightarrow> is_u64 m \<Longrightarrow>
     m' = sat_u64 (m + sum_list (map (acc_tracked_bytes L) as)) \<and> length rest \<le> length src"
proof (induction n arbitrary: m src as)
  case (Suc n)
  then obtain a s1 as1 where a: "decode_codec L c src = Ok (a, s1)" "as = a # as1"
      and tl: "freeze_accs L c True n (sat_u64 (m + acc_tracked_bytes L a)) s1 = Ok (as1, m', rest)"
    by (fastforce simp: rbind_Inr_iff)
  from Suc.IH [OF tl] decode_codec_shorter [OF a(1)] a(2) show ?case by (auto simp: add.assoc)
qed simp

lemma freeze_entry_scan:
  assumes "size_of_scalar L + length src + 176 \<le> u64_max" "is_u64 m"
  shows "freeze_entry L c False pt kind m src = Ok (e0, m', rest) \<longleftrightarrow>
    e0 = [] \<and> (\<exists>es. freeze_entry L c True pt kind m src = Ok (es, m', rest))"
proof -
  have short: "freeze_accs L c False n k (drop 26 s1) = Ok (a0, m', rest) \<longleftrightarrow>
      a0 = [] \<and> (\<exists>as. freeze_accs L c True n k (drop 26 s1) = Ok (as, m', rest))"
    if "freeze_keys L True nk (sat_u64 (m + 128)) (drop 2 src) = Ok (ks, m1, s1)" for nk ks m1 s1 n k a0
  proof (rule freeze_accs_scan)
    have "length s1 \<le> length (drop 2 src)" using freeze_keys_meter [OF that] by simp
    then have "length (drop 26 s1) \<le> length src" by simp
    with assms(1) show "size_of_scalar L + length (drop 26 s1) + 176 \<le> u64_max" by linarith
  qed
  show ?thesis
    unfolding freeze_entry_def Let_def
    by (auto simp: rbind_Inr_iff freeze_keys_scan short split: if_splits) (metis short)+
qed

lemma freeze_entry_meter:
  assumes "freeze_entry L c True pt kind m src = Ok (es, m', rest)"
  shows "(\<exists>e. es = [e] \<and> m' = sat_u64 (m + entry_resident L e)) \<and> length rest \<le> length src"
proof -
  obtain nk key m1 s1 n accs e where keys: "freeze_keys L True nk (sat_u64 (m + 128)) (drop 2 src) = Ok (key, m1, s1)"
    and accs: "freeze_accs L c True n m1 (drop 26 s1) = Ok (accs, m', rest)"
    and e: "es = [e]" "fz_key e = key" "fz_accs e = accs"
    using assms by (auto simp: freeze_entry_def rbind_Inr_iff Let_def split: if_splits)
  have m1: "m1 = sat_u64 (m + 128 + sum_list (map (resident_bytes L) key))" "length s1 \<le> length (drop 2 src)"
    using freeze_keys_meter [OF keys] by (auto simp: add.assoc)
  have "m' = sat_u64 (m1 + sum_list (map (acc_tracked_bytes L) accs))" "length rest \<le> length (drop 26 s1)"
    using freeze_accs_meter [OF accs] m1(1) by simp_all
  with m1 e show ?thesis by (auto simp: entry_resident_def ac_simps)
qed

lemma freeze_entries_scan:
  "size_of_scalar L + length src + 176 \<le> u64_max \<Longrightarrow> is_u64 m \<Longrightarrow>
   freeze_entries L c False pt kind n m src = Ok (e0, m', rest) \<longleftrightarrow>
     e0 = [] \<and> (\<exists>es. freeze_entries L c True pt kind n m src = Ok (es, m', rest))"
proof (induction n arbitrary: m src e0)
  case (Suc n)
  have "freeze_entries L c False pt kind n k s1 = Ok (es, m', rest) \<longleftrightarrow>
      es = [] \<and> (\<exists>es. freeze_entries L c True pt kind n k s1 = Ok (es, m', rest))"
    if "freeze_entry L c True pt kind m src = Ok (e, k, s1)" for e es k s1
    by (rule Suc.IH) (use Suc.prems freeze_entry_meter [OF that] in auto)
  then show ?case
    by (simp add: rbind_Inr_iff freeze_entry_scan [OF Suc.prems]) (fastforce simp: rbind_Inr_iff)
qed auto

lemma freeze_entries_meter:
  "freeze_entries L c True pt kind n m src = Ok (es, m', rest) \<Longrightarrow>
     m' = foldl (\<lambda>n e. sat_u64 (n + entry_resident L e)) m es \<and> length es = n"
proof (induction n arbitrary: m src es)
  case (Suc n)
  then obtain e k s1 es1 where e: "freeze_entry L c True pt kind m src = Ok (e, k, s1)" "es = e @ es1"
      and tl: "freeze_entries L c True pt kind n k s1 = Ok (es1, m', rest)"
    by (fastforce simp: rbind_Inr_iff)
  from Suc.IH [OF tl] freeze_entry_meter [OF e(1)] e(2) show ?case by auto
qed simp

lemma freeze_trailer_scan:
  assumes "freeze_entries L c True pt (fh_kind h) (fh_entries h) (sat_u64 (128 + sat_u64 (fh_entries h * sz))) src = Ok (es, m, s1)"
  shows "freeze_trailer L sz False pt h [] m s1 =
    rbind (freeze_trailer L sz True pt h es m s1) (\<lambda>(f, n, rest). Ok (f\<lparr>wf_entries := []\<rparr>, n, rest))"
  using freeze_entries_meter [OF assms]
  by (simp add: freeze_trailer_def rbind_def freeze_resident_def Let_def split: sum.splits prod.splits)

section \<open>Properties\<close>

text \<open>The part of the processing-time check that concerns one freeze.\<close>

definition freeze_at_cut :: "(int \<times> bool) option \<Rightarrow> window_freeze \<Rightarrow> bool" where
  "freeze_at_cut pt f \<longleftrightarrow>
     list_all (\<lambda>e. \<not> pt_violation pt (wf_kind f) (fz_start e) (fz_end e) (fz_count e)) (wf_entries f) \<and>
     (pt \<noteq> None \<longrightarrow> wf_wm_in f = None \<and> wf_wm_out f = None \<and> wf_last_effective f = None)"

text \<open>
  C10: A window checkpoint can be read back. A freeze whose values are well formed, whose entries
  have at most 64 key columns and 64 accumulators of the codec and which fits the quota is
  encoded, the encoding fits the snapshot quota, and decoding it followed by anything at a
  processing-time cut it is consistent with gives back exactly the freeze and exactly the rest.
\<close>

theorem freeze_roundtrip:
  assumes "freeze_fits c mx f" "freeze_at_cut pt f"
  shows "\<exists>b. encode_freeze_codec c mx f = Ok b \<and> length b \<le> max_snapshot_bytes \<and>
    decode_freeze_metered_pt L sz mx True pt c (b @ rest) = Ok (f, freeze_resident L sz f, rest)"
proof -
  have "decode_freeze_metered_pt L sz mx True pt c (freeze_bytes f @ rest) = Ok (f, freeze_resident L sz f, rest)"
    using assms decode_freeze_bytes by (simp add: freeze_at_cut_def)
  with encode_freeze_fits [OF assms(1)] freeze_bytes_bound [OF assms(1)] show ?thesis by blast
qed

definition demo_freeze :: window_freeze where
  "demo_freeze = \<lparr>wf_operator = 7, wf_slot = 1, wf_kind = 0,
     wf_entries = [\<lparr>fz_key = [SUtf8 ''a'', SInt64 0], fz_start = 0, fz_end = 10, fz_count = 0, fz_accs = [AccCount 2 2 True]\<rparr>],
     wf_wm_in = None, wf_wm_out = None, wf_last_effective = None\<rparr>"

theorem freeze_roundtrip_witness:
  "\<exists>b. encode_freeze_codec CodecWindow 4 demo_freeze = Ok b \<and> length b \<le> max_snapshot_bytes \<and>
     decode_freeze_metered_pt \<lparr>size_of_scalar = 24, size_of_dynamic = 24, size_of_pair = 40\<rparr> 72 4 True (Some (3, False)) CodecWindow (b @ [9])
       = Ok (demo_freeze, freeze_resident \<lparr>size_of_scalar = 24, size_of_dynamic = 24, size_of_pair = 40\<rparr> 72 demo_freeze, [9])"
  by (rule freeze_roundtrip)
    (simp_all add: demo_freeze_def freeze_fits_def entry_fits_def entry_values_ok_def acc_fits_def freeze_at_cut_def pt_violation_def is_str_def
      str_bytes_def is_i64_def is_u64_def entry_bytes_def max_snapshot_bytes_def value_bytes_def encode_value_def key_utf8_def
      acc_bytes_def encode_codec_def)

text \<open>
  C11: Restore credit is exact. Scanning a frame accepts exactly the inputs that materialising
  accepts, stops at the same byte, reads the same header and watermarks, and reports exactly the
  bytes the materialised state occupies, so the credit reserved after a scan is never exceeded.
\<close>

theorem freeze_scan_exact:
  assumes "size_of_scalar L + length src + 176 \<le> u64_max"
  shows "decode_freeze_metered_pt L sz mx False pt c src = Ok (f0, n, rest) \<longleftrightarrow>
    (\<exists>f. decode_freeze_metered_pt L sz mx True pt c src = Ok (f, n, rest) \<and> f0 = f\<lparr>wf_entries := []\<rparr>)"
proof -
  have scan: "freeze_entries L c False pt kind k (sat_u64 b) (drop 11 src) = Ok (e0, m', s1) \<longleftrightarrow>
      e0 = [] \<and> (\<exists>es. freeze_entries L c True pt kind k (sat_u64 b) (drop 11 src) = Ok (es, m', s1))" for kind k b e0 m' s1
    by (rule freeze_entries_scan) (use assms in auto)
  have run: "decode_freeze_metered_pt L sz mx mat pt c src = Ok x \<longleftrightarrow>
      (\<exists>h es m s1. freeze_header_parse src = Ok h \<and> fh_entries h \<le> mx \<and>
        \<not> length (drop 11 src) < sat_u64 (fh_entries h * freeze_entry_overhead) \<and>
        freeze_entries L c mat pt (fh_kind h) (fh_entries h) (sat_u64 (128 + sat_u64 (fh_entries h * sz))) (drop 11 src) = Ok (es, m, s1) \<and>
        freeze_trailer L sz mat pt h es m s1 = Ok x)" for mat x
    by (auto simp: decode_freeze_metered_pt_def rbind_Inr_iff)
  have "freeze_trailer L sz False pt h [] m s1 = Ok (f0, n, rest) \<longleftrightarrow>
      (\<exists>f. freeze_trailer L sz True pt h es m s1 = Ok (f, n, rest) \<and> f0 = f\<lparr>wf_entries := []\<rparr>)"
    if "freeze_entries L c True pt (fh_kind h) (fh_entries h) (sat_u64 (128 + sat_u64 (fh_entries h * sz))) (drop 11 src) = Ok (es, m, s1)"
    for h es m s1 by (auto simp: freeze_trailer_scan [OF that] rbind_Inr_iff)
  then show ?thesis unfolding run scan by blast
qed

theorem freeze_scan_exact_witness:
  "\<exists>f n. decode_freeze_metered_pt \<lparr>size_of_scalar = 24, size_of_dynamic = 24, size_of_pair = 40\<rparr> 72 4 False None CodecWindow
     (freeze_header 7 2 0 0 @ [0, 0, 0]) = Ok (f\<lparr>wf_entries := []\<rparr>, n, [])"
proof -
  let ?f = "\<lparr>wf_operator = 7, wf_slot = 2, wf_kind = 0, wf_entries = [], wf_wm_in = None, wf_wm_out = None, wf_last_effective = None\<rparr>"
  let ?L = "\<lparr>size_of_scalar = 24, size_of_dynamic = 24, size_of_pair = 40\<rparr>"
  have bytes: "freeze_bytes ?f = freeze_header 7 2 0 0 @ [0, 0, 0]" by (simp add: freeze_bytes_def encode_opt_i64_def)
  have "decode_freeze_metered_pt ?L 72 4 True None CodecWindow (freeze_bytes ?f @ []) = Ok (?f, freeze_resident ?L 72 ?f, [])"
    by (rule decode_freeze_bytes) (simp_all add: freeze_fits_def max_snapshot_bytes_def)
  then have "decode_freeze_metered_pt ?L 72 4 False None CodecWindow (freeze_bytes ?f) = Ok (?f\<lparr>wf_entries := []\<rparr>, freeze_resident ?L 72 ?f, [])"
    by (intro freeze_scan_exact [THEN iffD2]) (auto simp: bytes)
  then show ?thesis unfolding bytes by blast
qed

text \<open>
  The encoder has no bound on the arity of an entry although the decoder refuses more than 64
  accumulators: a window with 65 aggregates is encoded into a frame that cannot be read back.
\<close>

definition wide_freeze :: window_freeze where
  "wide_freeze = \<lparr>wf_operator = 7, wf_slot = 1, wf_kind = 0,
     wf_entries = [\<lparr>fz_key = [], fz_start = 0, fz_end = 10, fz_count = 0, fz_accs = replicate 65 (AccCount 0 0 True)\<rparr>],
     wf_wm_in = None, wf_wm_out = None, wf_last_effective = None\<rparr>"

theorem wide_freeze_unreadable:
  "\<exists>b. encode_freeze_codec CodecWindow 4 wide_freeze = Ok b \<and>
     decode_freeze_metered_pt L sz 4 mat None CodecWindow b = Err BoundExceeded"
proof -
  let ?e = "\<lparr>fz_key = [], fz_start = 0, fz_end = 10, fz_count = 0, fz_accs = replicate 65 (AccCount 0 0 True)\<rparr>"
  have ok: "entry_values_ok CodecWindow ?e"
    by (simp add: entry_values_ok_def list_all_iff acc_fits_def is_i64_def is_u64_def)
  have len: "length (entry_bytes ?e) = 1198"
    by (simp add: entry_bytes_def acc_bytes_def encode_codec_def length_concat sum_list_replicate)
  have enc: "encode_freeze_codec CodecWindow 4 wide_freeze = Ok (freeze_bytes wide_freeze)"
    using write_freeze_entry_ok [OF ok] len
    by (simp add: encode_freeze_codec_def wide_freeze_def estimated_frozen_bytes_def encode_all_def freeze_bytes_def
        max_snapshot_bytes_def is_u64_def)
  have refused: "freeze_entry L CodecWindow mat None 0 m (entry_bytes ?e @ rest) = Err BoundExceeded" for m rest
    by (simp add: freeze_entry_def entry_bytes_def take_drop_parts pt_violation_def)
  have "decode_freeze_metered_pt L sz 4 mat None CodecWindow (freeze_bytes wide_freeze) = Err BoundExceeded"
    using len by (simp add: decode_freeze_metered_pt_def freeze_bytes_def wide_freeze_def freeze_header_parse_bytes refused
        freeze_entry_overhead_def is_u64_def)
  with enc show ?thesis by blast
qed

end
