(* ===== verification/Window_Freeze.thy ===== *)
theory Window_Freeze
  imports Window_Props Freeze_Codec
begin

text \<open>
  Checkpointing the window operator of \<^verbatim>\<open>sparrow-runtime/src/window.rs\<close>: the freeze of its open
  windows, encoding the live state without a copy, the checks a participant makes before a
  restore, and the restore itself.
\<close>

section \<open>Freezing\<close>

definition window_max_state_keys :: "window_op \<Rightarrow> nat" where
  "window_max_state_keys w = (case w_store w of TumbleStore s \<Rightarrow> ms_max_keys s | CountStore s \<Rightarrow> ms_max_keys s)"

definition accumulator_codec :: "window_op \<Rightarrow> acc_codec" where
  "accumulator_codec w = (if has_extended_aggs (w_spec w) then CodecWindowExt else CodecWindow)"

definition freeze_tumble :: "tumble_entry entry \<Rightarrow> frozen_entry" where
  "freeze_tumble e = \<lparr>fz_key = sk_key (e_key e), fz_start = te_start (e_value e), fz_end = te_end (e_value e), fz_count = 0,
     fz_accs = te_accs (e_value e)\<rparr>"

definition freeze_count :: "count_entry entry \<Rightarrow> frozen_entry" where
  "freeze_count e = \<lparr>fz_key = sk_key (e_key e), fz_start = 0, fz_end = 0, fz_count = ce_count (e_value e),
     fz_accs = ce_accs (e_value e)\<rparr>"

definition live_entries :: "window_op \<Rightarrow> frozen_entry list" where
  "live_entries w =
     (case w_store w of
        TumbleStore s \<Rightarrow> map (\<lambda>x. freeze_tumble (snd x)) (ms_entries s)
      | CountStore s \<Rightarrow> map (\<lambda>x. freeze_count (snd x)) (ms_entries s))"

definition frozen_key_bytes :: "frozen_entry \<Rightarrow> bytes" where
  "frozen_key_bytes e = concat (map (\<lambda>s. encode_key s @ [0xff]) (fz_key e))"

definition store_kind :: "window_op \<Rightarrow> u8" where
  "store_kind w = (if is_tumble (w_store w) then 0 else 1)"

definition freeze :: "window_op \<Rightarrow> window_freeze" where
  "freeze w = \<lparr>wf_operator = w_operator w, wf_slot = window_slot, wf_kind = store_kind w,
     wf_entries = sort_key frozen_key_bytes (live_entries w),
     wf_wm_in = window_wm_in w, wf_wm_out = window_wm_out w, wf_last_effective = last_effective (w_hub w)\<rparr>"

definition try_estimated_freeze_bytes :: "window_op \<Rightarrow> nat result" where
  "try_estimated_freeze_bytes w =
     rbind (map_result (estimated_entry_bytes (accumulator_codec w)) (live_entries w)) (\<lambda>ns. Ok (sat_u64 (sum_list ns)))"

definition estimated_freeze_bytes :: "window_op \<Rightarrow> nat" where
  "estimated_freeze_bytes w = (case try_estimated_freeze_bytes w of Inr n \<Rightarrow> n | Inl _ \<Rightarrow> max_snapshot_bytes + 1)"

definition freeze_workspace_bytes :: "window_op \<Rightarrow> nat" where
  "freeze_workspace_bytes w = sat_u64 (sat_u64 (window_key_count w * 16) + 64)"

definition check_freeze_encode_bound :: "window_op \<Rightarrow> nat \<Rightarrow> unit result" where
  "check_freeze_encode_bound w max_entries =
     (if window_key_count w > max_entries then Err BoundExceeded
      else rbind (try_estimated_freeze_bytes w) (\<lambda>n.
        let estimate = sat_u64 (n + 256);
            working = sat_u64 (estimate + freeze_workspace_bytes w);
            b = owner_budget (w_owner w)
        in if estimate > max_snapshot_bytes then Err BoundExceeded
           else if window_retention_bytes w > retention_bytes b \<or> working > reservation_bytes b then Err BoundExceeded
           else Ok ()))"

definition try_freeze :: "window_op \<Rightarrow> window_freeze result" where
  "try_freeze w = rbind (check_freeze_encode_bound w (window_max_state_keys w)) (\<lambda>_. Ok (freeze w))"

text \<open>Encoding by sorted references; a key without an entry panics.\<close>

definition write_live :: "acc_codec \<Rightarrow> ('v entry \<Rightarrow> frozen_entry) \<Rightarrow> 'v memory_state \<Rightarrow> bytes result option" where
  "write_live c frz s =
     (let keys = sort_key sk_encoded (map (\<lambda>x. e_key (snd x)) (ms_entries s));
          found = map (\<lambda>k. map_of (ms_entries s) (key_id k)) keys
      in if list_ex (\<lambda>x. x = None) found then None
         else Some (encode_all (\<lambda>x. write_freeze_entry c (frz (the x))) found))"

definition encode_freeze_into_codec :: "nat \<Rightarrow> acc_codec \<Rightarrow> (window_op, bytes) eff" where
  "encode_freeze_into_codec max_entries c = ebind eget (\<lambda>w.
     ebind (elift (check_freeze_encode_bound w max_entries)) (\<lambda>_.
     escratch (freeze_workspace_bytes w) (w_owner w)
       (ebind (echeck (case w_store w of TumbleStore s \<Rightarrow> write_live c freeze_tumble s | CountStore s \<Rightarrow> write_live c freeze_count s)) (\<lambda>body.
          eret (freeze_header (w_operator w) window_slot (store_kind w) (window_key_count w) @ body @ encode_opt_i64 (window_wm_in w)
            @ encode_opt_i64 (window_wm_out w) @ encode_opt_i64 (last_effective (w_hub w)))))))"

definition encode_freeze_into :: "nat \<Rightarrow> (window_op, bytes) eff" where
  "encode_freeze_into max_entries = ebind eget (\<lambda>w.
     if accumulator_codec w \<noteq> CodecWindow then elift codec1_extended else encode_freeze_into_codec max_entries CodecWindow)"

section \<open>Checks before a restore\<close>

definition window_spans :: "window_kind \<Rightarrow> (int \<times> int) option" where
  "window_spans k =
     (case k of
        TumblingProcessingTime sz \<Rightarrow> Some (sz, sz)
      | TumblingEventTime sz \<Rightarrow> Some (sz, sz)
      | HoppingEventTime sz sl \<Rightarrow> Some (sz, sl)
      | HoppingProcessingTime sz sl \<Rightarrow> Some (sz, sl)
      | _ \<Rightarrow> None)"

definition same_acc_kind :: "accumulator \<Rightarrow> accumulator \<Rightarrow> bool" where
  "same_acc_kind a b =
     (case (a, b) of
        (AccExtended _, AccExtended _) \<Rightarrow> True
      | (AccCount _ _ _, AccCount _ _ _) \<Rightarrow> True
      | (AccSumI64 _ _, AccSumI64 _ _) \<Rightarrow> True
      | (AccSumU64 _ _, AccSumU64 _ _) \<Rightarrow> True
      | (AccSumF64 _ _, AccSumF64 _ _) \<Rightarrow> True
      | (AccAvg _ _ _, AccAvg _ _ _) \<Rightarrow> True
      | (AccMin _, AccMin _) \<Rightarrow> True
      | (AccMax _, AccMax _) \<Rightarrow> True
      | _ \<Rightarrow> False)"

definition restored_extreme :: "schema \<Rightarrow> agg_call \<Rightarrow> scalar option \<Rightarrow> nat result" where
  "restored_extreme input call v =
     (case v of
        None \<Rightarrow> Ok 0
      | Some x \<Rightarrow>
          if is_null x \<or> scalar_is_nan x then Err UnsupportedRestore
          else rbind (agg_input_type input call) (\<lambda>ty. if matches_type x ty then Ok 0 else Err UnsupportedRestore))"

definition restored_acc_rows :: "schema \<Rightarrow> nat option \<Rightarrow> agg_call \<Rightarrow> accumulator \<Rightarrow> nat result" where
  "restored_acc_rows input rows call a =
     (case a of
        AccExtended x \<Rightarrow>
          rbind (agg_input_type input call) (\<lambda>ty.
          rbind (check_restore (ac_func call) ty rows x) (\<lambda>_.
            Ok (case x of ExtMoment _ _ n _ _ \<Rightarrow> n | ExtValue _ _ \<Rightarrow> 0)))
      | AccCount r nn star \<Rightarrow>
          if star \<noteq> ac_count_star call \<or> nn > r \<or> (case rows of Some c \<Rightarrow> r \<noteq> c | None \<Rightarrow> False) then Err UnsupportedRestore
          else Ok r
      | AccSumI64 _ n \<Rightarrow> Ok n
      | AccSumU64 _ n \<Rightarrow> Ok n
      | AccSumF64 _ n \<Rightarrow> Ok n
      | AccAvg _ n _ \<Rightarrow> Ok n
      | AccMin v \<Rightarrow> restored_extreme input call v
      | AccMax v \<Rightarrow> restored_extreme input call v)"

definition validate_restored_acc :: "schema \<Rightarrow> nat option \<Rightarrow> (accumulator \<times> accumulator) \<times> agg_call \<Rightarrow> unit result" where
  "validate_restored_acc input rows x =
     (if \<not> same_acc_kind (fst (fst x)) (snd (fst x)) then Err UnsupportedRestore
      else rbind (restored_acc_rows input rows (snd x) (fst (fst x))) (\<lambda>n.
        case rows of Some c \<Rightarrow> if n > c then Err UnsupportedRestore else Ok () | None \<Rightarrow> Ok ()))"

definition restored_key_ok :: "schema \<Rightarrow> scalar \<times> nat \<Rightarrow> bool" where
  "restored_key_ok input x =
     (let f = schema_fields input ! snd x in matches_type (fst x) (field_type f) \<or> (is_null (fst x) \<and> field_nullable f))"

definition validate_restored_span :: "window_op \<Rightarrow> frozen_entry \<Rightarrow> unit result" where
  "validate_restored_span w e =
     (case ws_kind (w_spec w) of
        Count sz \<Rightarrow> if fz_count e = 0 \<or> fz_count e \<ge> sz then Err UnsupportedRestore else Ok ()
      | k \<Rightarrow>
          (case window_spans k of
             None \<Rightarrow> Err UnsupportedRestore
           | Some (sz, slide) \<Rightarrow>
               if checked_i64 (fz_start e + sz) \<noteq> Some (fz_end e) \<or> fz_start e mod slide \<noteq> 0
                  \<or> (suffixed_key w \<and> (fz_key e = [] \<or> List.last (fz_key e) \<noteq> SInt64 (fz_start e))) then Err UnsupportedRestore
               else if uses_processing_time_timer k \<and> fz_count e \<noteq> 0 then Err UnsupportedRestore
               else Ok ()))"

definition validate_restored_entry :: "window_op \<Rightarrow> accumulator list \<Rightarrow> frozen_entry \<Rightarrow> unit result" where
  "validate_restored_entry w expected e =
     (if length (fz_key e) \<noteq> length (w_group_idx w) + (if suffixed_key w then 1 else 0) \<or> length (fz_accs e) \<noteq> length expected
      then Err UnsupportedRestore
      else if \<not> list_all (restored_key_ok (w_input w)) (zip (fz_key e) (w_group_idx w)) then Err UnsupportedRestore
      else rbind (validate_restored_span w e) (\<lambda>_.
        let rows = (case ws_kind (w_spec w) of Count _ \<Rightarrow> Some (fz_count e) | _ \<Rightarrow> None)
        in rbind (map_result (validate_restored_acc (w_input w) rows) (zip (zip (fz_accs e) expected) (ws_aggs (w_spec w)))) (\<lambda>_. Ok ())))"

definition validate_participant_restore :: "window_op \<Rightarrow> window_freeze \<Rightarrow> unit result" where
  "validate_participant_restore w f =
     (if wf_operator f \<noteq> w_operator w \<or> wf_slot f \<noteq> window_slot
         \<or> wf_kind f \<noteq> (case ws_kind (w_spec w) of Count _ \<Rightarrow> 1 | _ \<Rightarrow> 0) then Err UnsupportedRestore
      else rbind (empty_accs (w_spec w) (w_input w)) (\<lambda>expected.
        rbind (map_result (validate_restored_entry w expected) (wf_entries f)) (\<lambda>_. Ok ())))"

definition validate_processing_cut :: "window_op \<Rightarrow> int \<Rightarrow> unit result" where
  "validate_processing_cut w now =
     (let hop = is_hopping_pt (ws_kind (w_spec w)) in
      if now < 0 \<or> uses_event_time (ws_kind (w_spec w)) then Err UnsupportedRestore
      else if (case w_store w of
          TumbleStore s \<Rightarrow> list_ex (\<lambda>(_, e). (te_start (e_value e) < 0 \<and> \<not> hop) \<or> te_start (e_value e) > now \<or> te_end (e_value e) \<le> now) (ms_entries s)
        | CountStore _ \<Rightarrow> False) then Err UnsupportedRestore
      else if window_wm_in w \<noteq> None \<or> window_wm_out w \<noteq> None \<or> last_effective (w_hub w) \<noteq> None then Err UnsupportedRestore
      else Ok ())"

section \<open>Restoring\<close>

definition restore_scratch_bytes :: "window_host \<Rightarrow> window_freeze \<Rightarrow> nat" where
  "restore_scratch_bytes W f =
     (let sizes = map (\<lambda>e. sat_u64 (sat_u64 (sum_list (map (resident_bytes (value_layout W)) (fz_key e)) + accs_bytes W (fz_accs e)) + 256)) (wf_entries f);
          largest = fold max sizes 0
      in sat_u64 (sat_u64 (sat_u64 (largest * 3) + sat_u64 (length (wf_entries f) * 16)) + 1024))"

definition restore_entry :: "window_host \<Rightarrow> frozen_entry \<Rightarrow> (window_op, unit) eff" where
  "restore_entry W e = ebind eget (\<lambda>w.
     let k = window_key W w (fz_key e) in
     case w_store w of
       TumbleStore s \<Rightarrow>
         if ms_get k s \<noteq> None then elift (Err UnsupportedRestore)
         else on_tumble (ms_put (wh_layout W) k \<lparr>te_start = fz_start e, te_end = fz_end e, te_accs = fz_accs e\<rparr> (accs_bytes W (fz_accs e))) ()
     | CountStore s \<Rightarrow>
         if ms_get k s \<noteq> None then elift (Err UnsupportedRestore)
         else on_count (ms_put (wh_layout W) k \<lparr>ce_count = fz_count e, ce_accs = fz_accs e\<rparr> (accs_bytes W (fz_accs e))) ())"

text \<open>Rebuilding the index does not go through the ledger of replacements.\<close>

definition reindex :: "window_host \<Rightarrow> state_key \<times> int \<Rightarrow> (window_op, unit) eff" where
  "reindex W x = (\<lambda>(st, w).
     let k = fst x; at = (snd x, sk_encoded k) in
     case indexed (wh_layout W) k (w_owner w) st of
       Inl e \<Rightarrow> Some ((st, w), Inl e)
     | Inr (st1, k1) \<Rightarrow>
         Some ((case map_of (w_index w) at of None \<Rightarrow> st1 | Some old \<Rightarrow> drop_index old st1,
                w\<lparr>w_index_bytes := sat_u64 (w_index_bytes w + index_bytes k1), w_index := bt_put at k1 (w_index w)\<rparr>), Ok ()))"

definition rebuild_closed_index :: "window_host \<Rightarrow> (window_op, unit) eff" where
  "rebuild_closed_index W =
     ebind (\<lambda>(st, w). Some ((fold (\<lambda>(_, k) st. drop_index k st) (w_index w) st, w\<lparr>w_index := [], w_index_bytes := 0\<rparr>), Ok ())) (\<lambda>_.
     ebind eget (\<lambda>w.
       case w_store w of
         TumbleStore s \<Rightarrow> efor (reindex W) (map (\<lambda>(_, e). (e_key e, te_end (e_value e))) (ms_entries s))
       | CountStore _ \<Rightarrow> eret ()))"

definition restore_watermarks :: "window_freeze \<Rightarrow> window_op \<Rightarrow> window_op" where
  "restore_watermarks f w =
     w\<lparr>w_holdback := map_option (holdback_restore (wf_wm_in f) (wf_wm_out f)) (w_holdback w),
       w_hub := restore_effective (wf_last_effective f) (w_hub w)\<rparr>"

definition restore_timers :: "(window_op, unit) eff" where
  "restore_timers = ebind eget (\<lambda>w.
     if uses_event_time (ws_kind (w_spec w)) then eret ()
     else case w_store w of
         TumbleStore s \<Rightarrow> efor schedule_window (map (\<lambda>(_, e). te_end (e_value e)) (ms_entries s))
       | CountStore _ \<Rightarrow> eret ())"

definition restore_freeze_inner :: "window_host \<Rightarrow> window_freeze \<Rightarrow> (window_op, unit) eff" where
  "restore_freeze_inner W f = ebind eget (\<lambda>w.
     if wf_operator f \<noteq> w_operator w then elift (Err InvalidArgument)
     else if wf_slot f \<noteq> window_slot then elift (Err InvalidArgument)
     else escratch (restore_scratch_bytes W f) (w_owner w)
       (ebind window_cleanup (\<lambda>_.
        ebind (if wf_kind f = store_kind w then efor (restore_entry W) (wf_entries f) else elift (Err InvalidArgument)) (\<lambda>_.
        ebind (emodify (restore_watermarks f)) (\<lambda>_.
        ebind (rebuild_closed_index W) (\<lambda>_. restore_timers))))))"

definition restore_freeze :: "window_host \<Rightarrow> window_freeze \<Rightarrow> (window_op, unit) eff" where
  "restore_freeze W f = ebind eget (\<lambda>w.
     if is_new_window (ws_kind (w_spec w)) \<or> has_extended_aggs (w_spec w) then elift (Err UnsupportedRestore)
     else restore_freeze_inner W f)"

definition restore_participant_freeze :: "window_host \<Rightarrow> window_freeze \<Rightarrow> (window_op, unit) eff" where
  "restore_participant_freeze W f = ebind eget (\<lambda>w.
     if is_new_window (ws_kind (w_spec w)) \<and> \<not> is_hopping_pt (ws_kind (w_spec w)) then elift (Err UnsupportedRestore)
     else restore_freeze_inner W f)"

section \<open>Encoding the live state writes the freeze\<close>

text \<open>Stored keys are built by \<^verbatim>\<open>StateKey::new\<close>, which caches the encoding of the key.\<close>

definition built :: "state_key \<Rightarrow> bool" where
  "built k \<longleftrightarrow> sk_encoded k = key_encoding (sk_key k)"

definition keys_built :: "window_op \<Rightarrow> bool" where
  "keys_built w = (case w_store w of
     TumbleStore s \<Rightarrow> list_all (\<lambda>x. built (e_key (snd x))) (ms_entries s)
   | CountStore s \<Rightarrow> list_all (\<lambda>x. built (e_key (snd x))) (ms_entries s))"

lemma sort_key_map: "sort_key f (map g xs) = map g (sort_key (\<lambda>x. f (g x)) xs)"
proof (induction xs)
  case (Cons x xs)
  have "insort_key f (g x) (map g ys) = map g (insort_key (\<lambda>x. f (g x)) x ys)" for ys by (induction ys) simp_all
  with Cons show ?case by simp
qed simp

lemma sort_key_cong: "(\<And>x. x \<in> set xs \<Longrightarrow> f x = g x) \<Longrightarrow> sort_key f xs = sort_key g xs"
proof (induction xs)
  case (Cons x xs)
  have "insort_key f x ys = insort_key g x ys" if "\<And>y. y \<in> insert x (set ys) \<Longrightarrow> f y = g y" for ys
    using that by (induction ys) auto
  from this [of "sort_key g xs"] show ?case using Cons by simp
qed simp

lemma write_live_sorted:
  assumes inv: "ms_inv extra s st" and keys: "list_all (\<lambda>x. built (e_key (snd x))) (ms_entries s)"
    and frz: "\<And>e. fz_key (frz e) = sk_key (e_key e)"
  shows "write_live c frz s = Some (encode_all (write_freeze_entry c)
    (sort_key frozen_key_bytes (map (\<lambda>x. frz (snd x)) (ms_entries s))))"
proof -
  let ?es = "sort_key (\<lambda>x. sk_encoded (e_key (snd x))) (ms_entries s)"
  have found: "map_of (ms_entries s) (key_id (e_key (snd x))) = Some (snd x)" if "x \<in> set (ms_entries s)" for x
  proof -
    have "distinct (map fst (ms_entries s))" "fst x = key_id (e_key (snd x))"
      using inv that by (force simp: ms_inv_def hm_inv_def entry_ok_def)+
    with that show ?thesis by (metis map_of_is_SomeI prod.collapse)
  qed
  have "map (\<lambda>k. map_of (ms_entries s) (key_id k)) (sort_key sk_encoded (map (\<lambda>x. e_key (snd x)) (ms_entries s)))
      = map (\<lambda>x. Some (snd x)) ?es" using found by (simp add: sort_key_map)
  moreover have "sort_key frozen_key_bytes (map (\<lambda>x. frz (snd x)) (ms_entries s)) = map (\<lambda>x. frz (snd x)) ?es"
    unfolding sort_key_map using keys
    by (intro arg_cong [of _ _ "map (\<lambda>x. frz (snd x))"] sort_key_cong)
       (auto simp: list_all_iff built_def frozen_key_bytes_def key_encoding_def frz)
  moreover have same: "map_result (\<lambda>x. write_freeze_entry c (frz (the x))) (map (\<lambda>x. Some (snd x)) xs)
      = map_result (write_freeze_entry c) (map (\<lambda>x. frz (snd x)) xs)" for xs
    by (induction xs) simp_all
  moreover have "\<not> list_ex (\<lambda>x. x = None) (map (\<lambda>x. Some (snd x)) ?es)" by (auto simp: list_ex_iff)
  ultimately show ?thesis by (simp only: write_live_def Let_def encode_all_def if_False same)
qed

lemma map_result_iff: "map_result f xs = Ok ys \<longleftrightarrow> (\<forall>x \<in> set xs. \<exists>y. f x = Ok y) \<and> ys = map (\<lambda>x. projr (f x)) xs"
  by (induction xs arbitrary: ys) (auto simp: rbind_Inr_iff)

lemma estimate_sorted:
  assumes "map_result f xs = Ok ns"
  shows "\<exists>ms. map_result f (sort_key g xs) = Ok ms \<and> sum_list ms = (sum_list ns :: nat)"
proof -
  have insort: "sum_list (map h (insort_key g x ys)) = h x + sum_list (map h ys)" for h :: "_ \<Rightarrow> nat" and x ys
    by (induction ys) simp_all
  have "sum_list (map h (sort_key g xs)) = sum_list (map h xs)" for h :: "_ \<Rightarrow> nat"
    by (induction xs) (simp_all add: insort)
  with assms show ?thesis by (auto simp: map_result_iff)
qed

lemma length_live [simp]: "length (live_entries w) = window_key_count w"
  by (simp add: live_entries_def window_key_count_def ms_len_def split: window_store.splits)

lemma write_store:
  assumes inv: "window_inv st w" and keys: "keys_built w"
  shows "(case w_store w of TumbleStore s \<Rightarrow> write_live c freeze_tumble s | CountStore s \<Rightarrow> write_live c freeze_count s)
    = Some (encode_all (write_freeze_entry c) (wf_entries (freeze w)))"
proof (cases "w_store w")
  case (TumbleStore s)
  then have "ms_inv (w_index_bytes w) s st" using inv by (simp add: window_inv_def store_ok_def index_inv_def)
  from write_live_sorted [OF this, of freeze_tumble] show ?thesis
    using TumbleStore keys by (simp add: keys_built_def freeze_def live_entries_def freeze_tumble_def)
next
  case (CountStore s)
  then have "ms_inv 0 s st" using inv by (simp add: window_inv_def store_ok_def)
  from write_live_sorted [OF this, of freeze_count] show ?thesis
    using CountStore keys by (simp add: keys_built_def freeze_def live_entries_def freeze_count_def)
qed

lemma check_bound_freeze:
  assumes "check_freeze_encode_bound w mx = Ok ()" "encode_all (write_freeze_entry (accumulator_codec w)) (wf_entries (freeze w)) = Ok body"
  shows "encode_freeze_codec (accumulator_codec w) mx (freeze w)
    = Ok (freeze_header (w_operator w) window_slot (store_kind w) (window_key_count w) @ body @ encode_opt_i64 (window_wm_in w)
          @ encode_opt_i64 (window_wm_out w) @ encode_opt_i64 (last_effective (w_hub w)))"
proof -
  obtain n ns where n: "map_result (estimated_entry_bytes (accumulator_codec w)) (live_entries w) = Ok ns" "n = sat_u64 (sum_list ns)"
      "sat_u64 (n + 256) \<le> max_snapshot_bytes" "window_key_count w \<le> mx"
    using assms(1) by (auto simp: check_freeze_encode_bound_def try_estimated_freeze_bytes_def rbind_Inr_iff Let_def split: if_splits)
  from estimate_sorted [OF n(1), of frozen_key_bytes] have "estimated_frozen_bytes (accumulator_codec w) (freeze w) = Ok n"
    using n(2) by (auto simp: estimated_frozen_bytes_def freeze_def)
  then show ?thesis using n assms(2) by (simp add: encode_freeze_codec_def freeze_def)
qed

lemma encode_freeze_into_ok:
  assumes inv: "window_inv st w" and keys: "keys_built w"
  shows "\<exists>st' r. encode_freeze_into_codec mx (accumulator_codec w) (st, w) = Some ((st', w), r) \<and>
    retention (w_owner w) st' = retention (w_owner w) st \<and>
    (\<forall>b. r = Ok b \<longrightarrow> encode_freeze_codec (accumulator_codec w) mx (freeze w) = Ok b)"
proof (cases "check_freeze_encode_bound w mx")
  case (Inl e)
  then show ?thesis by (simp add: encode_freeze_into_codec_def)
next
  case (Inr u)
  let ?n = "freeze_workspace_bytes w" and ?c = "accumulator_codec w"
  show ?thesis
  proof (cases "acquire Reservation ?n (w_owner w) st")
    case (Inl e)
    with Inr show ?thesis by (simp add: encode_freeze_into_codec_def escratch_def eacquire_def ebind_def eget_def elift_def)
  next
    case acq: (Inr x)
    obtain st1 l where x: "x = (st1, l)" by fastforce
    note keep = reservation_keeps_retention [OF window_inv_wf [OF inv] acq [unfolded x]]
    have run: "encode_freeze_into_codec mx ?c (st, w) = (case encode_all (write_freeze_entry ?c) (wf_entries (freeze w)) of
        Inl e \<Rightarrow> Some ((fst (drop_lease l st1), w), Inl e)
      | Inr body \<Rightarrow> Some ((fst (drop_lease l st1), w), Ok (freeze_header (w_operator w) window_slot (store_kind w) (window_key_count w)
          @ body @ encode_opt_i64 (window_wm_in w) @ encode_opt_i64 (window_wm_out w) @ encode_opt_i64 (last_effective (w_hub w)))))"
      using Inr acq x
      by (simp add: encode_freeze_into_codec_def write_store [OF inv keys] escratch_def eacquire_def ebind_def eget_def elift_def
          eret_def escoped_def echeck_def
          split: sum.split)
    show ?thesis
      using run keep check_bound_freeze [of w mx] Inr
      by (cases "encode_all (write_freeze_entry ?c) (wf_entries (freeze w))") auto
  qed
qed

section \<open>Restoring a freeze rebuilds the state\<close>

definition frozen_windows :: "frozen_entry list \<Rightarrow> bytes \<Rightarrow> tumble_entry option" where
  "frozen_windows es = map_of (map (\<lambda>e. (key_encoding (fz_key e), \<lparr>te_start = fz_start e, te_end = fz_end e, te_accs = fz_accs e\<rparr>)) es)"

definition frozen_counts :: "frozen_entry list \<Rightarrow> bytes \<Rightarrow> count_entry option" where
  "frozen_counts es = map_of (map (\<lambda>e. (key_encoding (fz_key e), \<lparr>ce_count = fz_count e, ce_accs = fz_accs e\<rparr>)) es)"

text \<open>While entries are put back the index is empty; no entry replaces another.\<close>

definition restored :: "frozen_entry list \<Rightarrow> window_op \<Rightarrow> bool" where
  "restored es w \<longleftrightarrow> w_index w = [] \<and> w_index_bytes w = 0 \<and> keys_built w \<and> distinct (map (\<lambda>e. key_encoding (fz_key e)) es) \<and>
     (if is_tumble (w_store w) then windows w = frozen_windows es else counts w = frozen_counts es)"

lemma keys_built_put:
  assumes "ms_put L k v vb s st = Some (st', s', r)" "list_all (\<lambda>x. built (e_key (snd x))) (ms_entries s)" "built k"
  shows "list_all (\<lambda>x. built (e_key (snd x))) (ms_entries s')"
proof -
  have "built (e_key e)" if "map_of (ms_entries s) i = Some e" for i e
    using that assms(2) by (force simp: list_all_iff dest: map_of_SomeD)
  moreover have "s' = s \<or> (\<exists>x. ms_entries s' = hm_put (key_id k) x (ms_entries s) \<and>
      (e_key x = k \<or> (\<exists>e. map_of (ms_entries s) (key_id k) = Some e \<and> e_key x = e_key e)))"
    using assms(1) unfolding ms_put_def Let_def by (auto split: if_splits option.splits sum.splits prod.splits)
  ultimately have "s' = s \<or> (\<exists>x. ms_entries s' = hm_put (key_id k) x (ms_entries s) \<and> built (e_key x))"
    using assms(3) by metis
  then show ?thesis using assms(2) set_hm_put by (fastforce simp: list_all_iff)
qed

lemma map_of_snoc_fresh: "map_of xs k = None \<Longrightarrow> map_of (xs @ [(k, v)]) = (map_of xs)(k \<mapsto> v)"
  by (auto simp: map_add_def fun_eq_iff split: option.splits)

lemma frozen_snoc:
  "frozen_windows es (key_encoding (fz_key e)) = None \<Longrightarrow>
     frozen_windows (es @ [e]) = (frozen_windows es)(key_encoding (fz_key e) \<mapsto> \<lparr>te_start = fz_start e, te_end = fz_end e, te_accs = fz_accs e\<rparr>)"
  "frozen_counts es (key_encoding (fz_key e)) = None \<Longrightarrow>
     frozen_counts (es @ [e]) = (frozen_counts es)(key_encoding (fz_key e) \<mapsto> \<lparr>ce_count = fz_count e, ce_accs = fz_accs e\<rparr>)"
  unfolding frozen_windows_def frozen_counts_def map_append list.map by (rule map_of_snoc_fresh, assumption)+

lemma frozen_None:
  "frozen_windows es enc = None \<longleftrightarrow> enc \<notin> set (map (\<lambda>e. key_encoding (fz_key e)) es)"
  "frozen_counts es enc = None \<longleftrightarrow> enc \<notin> set (map (\<lambda>e. key_encoding (fz_key e)) es)"
  by (auto simp: frozen_windows_def frozen_counts_def map_of_eq_None_iff image_image)

lemma restore_tumble_entry:
  assumes ok: "window_ok st w" and r: "restored es w" and s: "w_store w = TumbleStore s" and i: "is_i64 (fz_end e)"
  shows "step_ok st w (restore_entry W e) (\<lambda>w' _. restored (es @ [e]) w' \<and> w_timers w' = w_timers w)"
proof -
  have inv: "window_inv st w" using ok by (simp add: window_ok_def)
  let ?k = "window_key W w (fz_key e)" and ?enc = "key_encoding (fz_key e)"
  let ?v = "\<lparr>te_start = fz_start e, te_end = fz_end e, te_accs = fz_accs e\<rparr>"
  have key: "key_id ?k = (w_operator w, window_slot, ?enc)" using own_key_id [of w ?k] by simp
  have ii: "index_inv te_end window_slot (w_operator w) (w_owner w) ([], 0) s st"
    using inv s r by (simp add: window_inv_def store_ok_def restored_def)
  then have ms: "ms_inv 0 s st" "ms_owner s = w_owner w" "ms_operator s = w_operator w" "ms_slot s = window_slot" by (simp_all add: index_inv_def)
  have get: "ms_get ?k s = frozen_windows es ?enc" using r s by (simp add: ms_get_def key restored_def windows_def fun_eq_iff)
  show ?thesis
  proof (cases "frozen_windows es ?enc")
    case (Some x)
    then show ?thesis using ok s get by (simp add: restore_entry_def step_ok_def)
  next
    case None
    obtain st1 s1 r1 where put: "ms_put (wh_layout W) ?k ?v (accs_bytes W (fz_accs e)) s st = Some (st1, s1, r1)" and
      s1: "ms_inv 0 s1 st1" "ms_owner s1 = ms_owner s" "ms_operator s1 = ms_operator s" "ms_slot s1 = ms_slot s" and
      post: "(\<exists>x. r1 = Inl x) \<and> st1 = st \<and> s1 = s \<or>
        r1 = Ok () \<and> (\<exists>x. map_of (ms_entries s1) = (map_of (ms_entries s))(key_id ?k \<mapsto> x) \<and> e_value x = ?v)"
      by (rule ms_put_outcome [OF ms(1)])
    let ?w = "w\<lparr>w_store := TumbleStore s1\<rparr>"
    have run: "restore_entry W e (st, w) = Some ((st1, ?w), r1)"
      using put s get None by (simp add: restore_entry_def on_tumble_def Let_def)
    have same: "w\<lparr>w_store := TumbleStore s\<rparr> = w" using s by simp
    have built: "keys_built ?w"
      using keys_built_put [OF put] r s by (simp add: restored_def keys_built_def built_def window_key_def state_key_new_def)
    from post show ?thesis
    proof (elim disjE conjE exE)
      fix x assume "r1 = Inl x" "st1 = st" "s1 = s"
      then show ?thesis using run ok same by (simp add: step_ok_def)
    next
      fix x assume x: "r1 = Ok ()" "map_of (ms_entries s1) = (map_of (ms_entries s))(key_id ?k \<mapsto> x)" "e_value x = ?v"
      have ends: "is_i64 (te_end (e_value y))" if "map_of (ms_entries s1) (w_operator w, window_slot, enc') = Some y" for enc' y
        using that x i windows_ends [OF inv s, of enc' y] by (auto simp: key split: if_splits)
      have "index_inv te_end window_slot (w_operator w) (w_owner w) ([], 0) s1 st1"
        using s1 ms by (simp add: index_inv_def index_points_def bt_inv_def hm_sum_def)
      from window_inv_tumble [OF inv this _ ends] have "window_inv st1 (?w\<lparr>w_index := [], w_index_bytes := 0\<rparr>)" by simp
      moreover have "?w\<lparr>w_index := [], w_index_bytes := 0\<rparr> = ?w" using r by (cases w) (simp add: restored_def)
      ultimately have inv1: "window_inv st1 ?w" by simp
      have "windows ?w = (windows w)(?enc \<mapsto> ?v)" using windows_upd [OF s, of ?w s1 ?enc "Some x"] x key by simp
      then have "restored (es @ [e]) ?w"
        using r s built None frozen_snoc(1) [OF None] by (simp add: restored_def frozen_None)
      moreover have "window_ok st1 ?w" using inv1 ok s by (simp add: window_ok_def kind_ok_def)
      ultimately show ?thesis using run by (simp add: step_ok_def)
    qed
  qed
qed

lemma restore_count_entry:
  assumes ok: "window_ok st w" and r: "restored es w" and s: "w_store w = CountStore s"
  shows "step_ok st w (restore_entry W e) (\<lambda>w' _. restored (es @ [e]) w' \<and> w_timers w' = w_timers w)"
proof -
  have inv: "window_inv st w" using ok by (simp add: window_ok_def)
  let ?k = "window_key W w (fz_key e)" and ?enc = "key_encoding (fz_key e)"
  let ?v = "\<lparr>ce_count = fz_count e, ce_accs = fz_accs e\<rparr>"
  have key: "key_id ?k = (w_operator w, window_slot, ?enc)" using own_key_id [of w ?k] by simp
  note ms = count_store [OF inv s]
  have get: "ms_get ?k s = frozen_counts es ?enc" using r s by (simp add: ms_get_def key restored_def counts_def fun_eq_iff)
  show ?thesis
  proof (cases "frozen_counts es ?enc")
    case (Some x)
    then show ?thesis using ok s get by (simp add: restore_entry_def step_ok_def)
  next
    case None
    obtain st1 s1 r1 where put: "ms_put (wh_layout W) ?k ?v (accs_bytes W (fz_accs e)) s st = Some (st1, s1, r1)" and
      s1: "ms_inv 0 s1 st1" "ms_owner s1 = ms_owner s" "ms_operator s1 = ms_operator s" "ms_slot s1 = ms_slot s" and
      post: "(\<exists>x. r1 = Inl x) \<and> st1 = st \<and> s1 = s \<or>
        r1 = Ok () \<and> (\<exists>x. map_of (ms_entries s1) = (map_of (ms_entries s))(key_id ?k \<mapsto> x) \<and> e_value x = ?v)"
      by (rule ms_put_outcome [OF ms(1)])
    let ?w = "w\<lparr>w_store := CountStore s1\<rparr>"
    have run: "restore_entry W e (st, w) = Some ((st1, ?w), r1)"
      using put s get None by (simp add: restore_entry_def on_count_def Let_def)
    have same: "w\<lparr>w_store := CountStore s\<rparr> = w" using s by simp
    have built: "keys_built ?w"
      using keys_built_put [OF put] r s by (simp add: restored_def keys_built_def built_def window_key_def state_key_new_def)
    from post show ?thesis
    proof (elim disjE conjE exE)
      fix x assume "r1 = Inl x" "st1 = st" "s1 = s"
      then show ?thesis using run ok same by (simp add: step_ok_def)
    next
      fix x assume x: "r1 = Ok ()" "map_of (ms_entries s1) = (map_of (ms_entries s))(key_id ?k \<mapsto> x)" "e_value x = ?v"
      from window_inv_count [OF inv s s1 x(2) [unfolded key]] have c: "window_inv st1 ?w" "counts ?w = (counts w)(?enc \<mapsto> ?v)"
        using x(3) by (simp_all add: counted_def)
      then have "restored (es @ [e]) ?w"
        using r s built None frozen_snoc(2) [OF None] by (simp add: restored_def frozen_None)
      moreover have "window_ok st1 ?w" using c(1) ok s by (simp add: window_ok_def kind_ok_def)
      ultimately show ?thesis using run x(1) by (simp add: step_ok_def)
    qed
  qed
qed

lemma restore_entries:
  "window_ok st w \<Longrightarrow> restored es0 w \<Longrightarrow> list_all (\<lambda>e. is_i64 (fz_end e)) es \<Longrightarrow>
     step_ok st w (efor (restore_entry W) es) (\<lambda>w' _. restored (es0 @ es) w' \<and> w_timers w' = w_timers w)"
proof (induction es arbitrary: st w es0)
  case Nil
  then show ?case by (simp add: step_ok_def)
next
  case (Cons e es)
  have "step_ok st w (restore_entry W e) (\<lambda>w' _. restored (es0 @ [e]) w' \<and> w_timers w' = w_timers w)"
  proof (cases "w_store w")
    case (TumbleStore s)
    then show ?thesis using restore_tumble_entry [OF Cons.prems(1,2)] Cons.prems(3) by simp
  next
    case (CountStore s)
    then show ?thesis using restore_count_entry [OF Cons.prems(1,2)] by simp
  qed
  then show ?case unfolding efor.simps
  proof (rule step_ok_bind)
    fix st1 w1 assume "window_ok st1 w1" "restored (es0 @ [e]) w1 \<and> w_timers w1 = w_timers w"
    then show "step_ok st1 w1 (efor (restore_entry W) es) (\<lambda>w' _. restored (es0 @ e # es) w' \<and> w_timers w' = w_timers w)"
      using Cons.IH [of st1 w1 "es0 @ [e]"] Cons.prems(3) by simp
  qed
qed

text \<open>The index, rebuilt entry by entry.\<close>

lemma reindex_insert:
  assumes ii: "index_inv due slot (w_operator w) (w_owner w) (w_index w, w_index_bytes w) s st"
    and new: "(t, sk_encoded k) \<notin> fst ` set (w_index w)"
  shows "reindex W (k, t) (st, w) = window_index_insert W k t (st, w)"
proof (cases "indexed (wh_layout W) k (w_owner w) st")
  case (Inl e)
  then show ?thesis by (simp add: reindex_def window_index_insert_def index_insert_def)
next
  case (Inr x)
  obtain st1 k1 where x: "x = (st1, k1)" by fastforce
  note i = index_invD [OF ii]
  note isp = indexed_spec [OF i(1) Inr [unfolded x]]
  have old: "map_of (w_index w) (t, sk_encoded k) = None" using new by (simp add: map_of_eq_None_iff)
  have small: "retention (w_owner w) st1 < u64_max"
    using isp(5) wf_owner_budget [OF i(1)] cap_sum [of "owner_budget (w_owner w)" Retention] by (simp add: budget_ok_def)
  have fit: "w_index_bytes w + index_bytes k1 \<le> u64_max" using isp(4) i(2) small by simp
  have "replace_accounted_bytes (w_index_bytes w) 0 (index_bytes k1) (w_owner w) st1 = (st1, Some (w_index_bytes w + index_bytes k1))"
    using replace_ok [of 0 "w_index_bytes w" "index_bytes k1" "w_owner w" st1] fit by simp
  then show ?thesis using Inr x old fit
    by (simp add: reindex_def window_index_insert_def index_insert_def Let_def is_u64_def)
qed

lemma reindex_ok:
  assumes ok: "window_ok st w" and s: "w_store w = TumbleStore s" and mem: "map_of (ms_entries s) (w_operator w, window_slot, sk_encoded k) = Some e"
    and key: "own_key w k" and new: "(te_end (e_value e), sk_encoded k) \<notin> fst ` set (w_index w)"
  shows "step_ok st w (reindex W (k, te_end (e_value e))) (\<lambda>w' _. \<exists>ix n. w' = w\<lparr>w_index := ix, w_index_bytes := n\<rparr> \<and>
    fst ` set ix = insert (te_end (e_value e), sk_encoded k) (fst ` set (w_index w)))"
proof -
  let ?ix = "(w_index w, w_index_bytes w)" and ?op = "w_operator w" and ?ow = "w_owner w" and ?t = "te_end (e_value e)"
  have inv: "window_inv st w" using ok by (simp add: window_ok_def)
  then have ii: "index_inv te_end window_slot ?op ?ow ?ix s st" using s by (simp add: window_inv_def store_ok_def)
  then have i: "bt_inv (fst ?ix)" "list_all (index_ok window_slot ?ow ?op) (fst ?ix)" "index_points te_end window_slot ?op (fst ?ix) s"
    "hm_sum index_bytes (fst ?ix) = snd ?ix" "ms_inv (snd ?ix) s st" "ms_owner s = ?ow" by (simp_all add: index_inv_def)
  have op: "sk_operator k = ?op" "sk_slot k = window_slot" using key by (simp_all add: own_key_def)
  have new': "(?t, sk_encoded k) \<notin> fst ` set (fst ?ix)" using new by simp
  note run = reindex_insert [OF ii new, of W]
  from index_insert_bytes [OF i(2,4,5,6) op new', of "wh_layout W"] show ?thesis
  proof (elim disjE exE conjE)
    fix x assume "index_insert (wh_layout W) ?ow ?t k ?ix st = Some (st, ?ix, Inl x)"
    then show ?thesis using ok by (simp add: run window_index_insert_def step_ok_def)
  next
    fix st1 ix1 k1
    assume x: "index_insert (wh_layout W) ?ow ?t k ?ix st = Some (st1, ix1, Ok ())" "fst ix1 = bt_put (?t, sk_encoded k) k1 (fst ?ix)"
      "key_id k1 = key_id k" "sk_key k1 = sk_key k" "list_all (index_ok window_slot ?ow ?op) (fst ix1)"
      "hm_sum index_bytes (fst ix1) = snd ix1" "ms_inv (snd ix1) s st1"
    have keys: "fst ` set (fst ix1) = insert (?t, sk_encoded k) (fst ` set (w_index w))" by (simp add: x(2) keys_bt_put)
    have "index_points te_end window_slot ?op (fst ix1) s"
      using i(3) mem unfolding index_points_def keys by auto
    then have "index_inv te_end window_slot ?op ?ow ix1 s st1"
      using x i bt_inv_put [OF i(1)] ii by (simp add: index_inv_def)
    moreover have "own_key w k1" using x(3,4) key by (simp add: own_key_def key_id_def)
    then have "list_all (\<lambda>x. own_key w (snd x)) (fst ix1)"
      using index_names [OF inv] x(2) by (auto simp: list_all_iff dest!: set_bt_put)
    ultimately have "window_inv st1 (w\<lparr>w_store := TumbleStore s, w_index := fst ix1, w_index_bytes := snd ix1\<rparr>)"
      using window_inv_tumble [OF inv] windows_ends [OF inv s] by blast
    moreover have "w\<lparr>w_store := TumbleStore s\<rparr> = w" using s by simp
    ultimately have "window_inv st1 (w\<lparr>w_index := fst ix1, w_index_bytes := snd ix1\<rparr>)" by simp
    then have "window_ok st1 (w\<lparr>w_index := fst ix1, w_index_bytes := snd ix1\<rparr>)" using ok by (simp add: window_ok_def kind_ok_def)
    then show ?thesis using x(1) keys by (auto simp: run window_index_insert_def step_ok_def)
  qed
qed

lemma stored_key:
  assumes inv: "window_inv st w" and s: "w_store w = TumbleStore s" and keys: "keys_built w" and mem: "(i, e) \<in> set (ms_entries s)"
  shows "i = (w_operator w, window_slot, sk_encoded (e_key e))" "own_key w (e_key e)" "map_of (ms_entries s) i = Some e"
proof -
  have ms: "ms_inv (w_index_bytes w) s st" "ms_operator s = w_operator w" "ms_slot s = window_slot"
    using inv s by (simp_all add: window_inv_def store_ok_def index_inv_def)
  have e: "i = key_id (e_key e)" "sk_operator (e_key e) = w_operator w" "sk_slot (e_key e) = window_slot"
    using ms mem by (auto simp: ms_inv_def entry_ok_def)
  then show "i = (w_operator w, window_slot, sk_encoded (e_key e))" by (simp add: key_id_def)
  show "own_key w (e_key e)" using e keys mem s by (auto simp: own_key_def keys_built_def built_def list_all_iff)
  show "map_of (ms_entries s) i = Some e" using ms(1) mem by (simp add: ms_inv_def hm_inv_def)
qed

definition indexed_as :: "(int \<times> bytes) set \<Rightarrow> window_op \<Rightarrow> window_op \<Rightarrow> bool" where
  "indexed_as K w w' \<longleftrightarrow> (\<exists>ix n. w' = w\<lparr>w_index := ix, w_index_bytes := n\<rparr> \<and> fst ` set ix = K)"

definition marks :: "(key_id \<times> tumble_entry entry) list \<Rightarrow> (int \<times> bytes) set" where
  "marks xs = (\<lambda>x. (te_end (e_value (snd x)), sk_encoded (e_key (snd x)))) ` set xs"

lemma marks_simps [simp]: "marks [] = {}" "marks ((i, e) # xs) = insert (te_end (e_value e), sk_encoded (e_key e)) (marks xs)"
  by (simp_all add: marks_def)

lemma indexed_as_refl: "indexed_as (fst ` set (w_index w)) w w"
  unfolding indexed_as_def by (rule exI [of _ "w_index w"], rule exI [of _ "w_index_bytes w"]) simp

lemma indexed_as_trans:
  assumes "indexed_as K w w1" "indexed_as K' w1 w'"
  shows "indexed_as K' w w'"
proof -
  from assms obtain ix n where "w' = w\<lparr>w_index := ix, w_index_bytes := n\<rparr>" "fst ` set ix = K'" by (auto simp: indexed_as_def)
  then show ?thesis unfolding indexed_as_def by blast
qed

lemma indexed_asD:
  assumes "indexed_as K w w'"
  shows "fst ` set (w_index w') = K" "w_store w' = w_store w" "keys_built w' = keys_built w" "w_timers w' = w_timers w"
    "windows w' = windows w" "counts w' = counts w" "w_hub w' = w_hub w" "w_holdback w' = w_holdback w"
  using assms by (auto simp: indexed_as_def keys_built_def)

lemma reindex_all:
  "window_ok st w \<Longrightarrow> w_store w = TumbleStore s \<Longrightarrow> keys_built w \<Longrightarrow> set xs \<subseteq> set (ms_entries s) \<Longrightarrow> distinct (map fst xs) \<Longrightarrow>
   (\<And>x t. x \<in> set xs \<Longrightarrow> (t, sk_encoded (e_key (snd x))) \<notin> fst ` set (w_index w)) \<Longrightarrow>
   step_ok st w (efor (reindex W) (map (\<lambda>(_, e). (e_key e, te_end (e_value e))) xs))
     (\<lambda>w' _. indexed_as (marks xs \<union> fst ` set (w_index w)) w w')"
proof (induction xs arbitrary: st w)
  case Nil
  then show ?case using indexed_as_refl [of w] by (simp add: step_ok_def)
next
  case (Cons x xs)
  obtain i e where x: "x = (i, e)" by fastforce
  have inv: "window_inv st w" using Cons.prems(1) by (simp add: window_ok_def)
  note sk = stored_key [OF inv Cons.prems(2,3), of i e]
  have mem: "(i, e) \<in> set (ms_entries s)" using Cons.prems(4) x by simp
  let ?K = "insert (te_end (e_value e), sk_encoded (e_key e)) (fst ` set (w_index w))"
  have "step_ok st w (reindex W (e_key e, te_end (e_value e))) (\<lambda>w' _. indexed_as ?K w w')"
    unfolding indexed_as_def using sk [OF mem] Cons.prems(6) [of x] x by (intro reindex_ok [OF Cons.prems(1,2)]) auto
  then show ?case unfolding x list.map efor.simps prod.case
  proof (rule step_ok_bind)
    fix st1 w1 assume ok1: "window_ok st1 w1" and w1: "indexed_as ?K w w1"
    note d = indexed_asD [OF w1]
    have fresh: "(t, sk_encoded (e_key (snd y))) \<notin> fst ` set (w_index w1)" if "y \<in> set xs" for y t
    proof -
      obtain j e' where y: "y = (j, e')" by fastforce
      have mem': "(j, e') \<in> set (ms_entries s)" using that y Cons.prems(4) by auto
      have "fst y \<noteq> i" using that Cons.prems(5) x by force
      then have "sk_encoded (e_key e') \<noteq> sk_encoded (e_key e)"
        using sk(1) [OF mem] stored_key(1) [OF inv Cons.prems(2,3) mem'] y by simp
      with d(1) Cons.prems(6) [of y t] that y show ?thesis by simp
    qed
    have "step_ok st1 w1 (efor (reindex W) (map (\<lambda>(_, e). (e_key e, te_end (e_value e))) xs)) (\<lambda>w' _. indexed_as (marks xs \<union> ?K) w1 w')"
      using Cons.IH [OF ok1 _ _ _ _ fresh] Cons.prems(2-5) d(1-3) by simp
    then show "step_ok st1 w1 (efor (reindex W) (map (\<lambda>(_, e). (e_key e, te_end (e_value e))) xs))
        (\<lambda>w' _. indexed_as (marks ((i, e) # xs) \<union> fst ` set (w_index w)) w w')"
      by (rule step_ok_mono) (use indexed_as_trans [OF w1] in simp)
  qed
qed

lemma rebuild_ok:
  assumes ok: "window_ok st w" and keys: "keys_built w" and empty: "w_index w = []" "w_index_bytes w = 0"
  shows "step_ok st w (rebuild_closed_index W) (\<lambda>w' _. (\<exists>K. indexed_as K w w') \<and> all_indexed w')"
proof -
  have same: "w\<lparr>w_index := [], w_index_bytes := 0\<rparr> = w" using empty by (cases w) simp
  have run: "rebuild_closed_index W (st, w) = (case w_store w of
         TumbleStore s \<Rightarrow> efor (reindex W) (map (\<lambda>(_, e). (e_key e, te_end (e_value e))) (ms_entries s))
       | CountStore _ \<Rightarrow> eret ()) (st, w)"
    using empty by (simp add: rebuild_closed_index_def ebind_def eget_def same)
  show ?thesis
  proof (cases "w_store w")
    case (TumbleStore s)
    have inv: "window_inv st w" using ok by (simp add: window_ok_def)
    then have "distinct (map fst (ms_entries s))"
      using TumbleStore by (auto simp: window_inv_def store_ok_def index_inv_def ms_inv_def hm_inv_def)
    then have loop: "step_ok st w (efor (reindex W) (map (\<lambda>(_, e). (e_key e, te_end (e_value e))) (ms_entries s)))
        (\<lambda>w' _. indexed_as (marks (ms_entries s) \<union> fst ` set (w_index w)) w w')"
      using empty by (intro reindex_all [OF ok TumbleStore keys]) simp_all
    have covers: "all_indexed w'" if "indexed_as (marks (ms_entries s) \<union> fst ` set (w_index w)) w w'" for w'
    proof -
      have op: "w_operator w' = w_operator w" using that by (auto simp: indexed_as_def)
      have "(te_end (e_value e), enc) \<in> marks (ms_entries s)" if "map_of (ms_entries s) (w_operator w, window_slot, enc) = Some e" for enc e
        using stored_key(1) [OF inv TumbleStore keys map_of_SomeD [OF that]] map_of_SomeD [OF that] by (force simp: marks_def)
      then show ?thesis using TumbleStore op indexed_asD(1,2) [OF that] by (simp add: all_indexed_def index_covers_def)
    qed
    have "step_ok st w (efor (reindex W) (map (\<lambda>(_, e). (e_key e, te_end (e_value e))) (ms_entries s)))
        (\<lambda>w' _. (\<exists>K. indexed_as K w w') \<and> all_indexed w')"
      by (rule step_ok_mono [OF loop]) (use covers in blast)
    then show ?thesis using run TumbleStore by (simp add: step_ok_def)
  next
    case (CountStore s)
    then show ?thesis using run ok indexed_as_refl [of w] by (auto simp: step_ok_def all_indexed_def)
  qed
qed

text \<open>The timers of restored processing-time windows.\<close>

lemma schedule_all:
  "window_ok st w \<Longrightarrow> list_all is_i64 es \<Longrightarrow>
   step_ok st w (efor schedule_window es) (\<lambda>w' _. (\<exists>t. w' = w\<lparr>w_timers := t\<rparr>) \<and>
     (\<forall>x. is_i64 x \<and> (x \<in> set es \<or> pending_at (w_timers w) (timer_window (w_operator w) x) = Some x) \<longrightarrow>
        pending_at (w_timers w') (timer_window (w_operator w) x) = Some x))"
proof (induction es arbitrary: st w)
  case Nil
  have "\<exists>t. w = w\<lparr>w_timers := t\<rparr>" by (rule exI [of _ "w_timers w"]) simp
  then show ?case using Nil.prems(1) by (simp add: step_ok_def)
next
  case (Cons e es)
  have inv: "window_inv st w" and i: "is_i64 e" using Cons.prems by (simp_all add: window_ok_def)
  obtain w1 r where r: "schedule_window e (st, w) = Some ((st, w1), r)" "window_inv st w1" "w1 = w\<lparr>w_timers := w_timers w1\<rparr>"
    "r = Ok () \<longrightarrow> pending_at (w_timers w1) = (pending_at (w_timers w))(timer_window (w_operator w) e \<mapsto> e)"
    using schedule_window_ok [OF inv i] by blast
  then obtain t where w1: "w1 = w\<lparr>w_timers := t\<rparr>" by blast
  have ok1: "window_ok st w1" using r(2) Cons.prems(1) by (simp add: w1 window_ok_def kind_ok_def)
  show ?case
  proof (cases r)
    case (Inl x)
    then show ?thesis using r(1) ok1 by (simp add: step_ok_def ebind_step w1)
  next
    case (Inr u)
    let ?Q = "\<lambda>w0 es w'. \<forall>x. is_i64 x \<and> (x \<in> set es \<or> pending_at (w_timers w0) (timer_window (w_operator w) x) = Some x) \<longrightarrow>
        pending_at (w_timers w') (timer_window (w_operator w) x) = Some x"
    have "step_ok st w1 (efor schedule_window es) (\<lambda>w' _. (\<exists>t. w' = w1\<lparr>w_timers := t\<rparr>) \<and> ?Q w1 es w')"
      using Cons.IH [OF ok1] Cons.prems(2) by (simp add: w1)
    then obtain st2 w2 r2 where l: "efor schedule_window es (st, w1) = Some ((st2, w2), r2)" "window_ok st2 w2" "cfg w2 = cfg w1"
      "r2 = Ok () \<Longrightarrow> (\<exists>t. w2 = w1\<lparr>w_timers := t\<rparr>) \<and> ?Q w1 es w2" by (rule step_okE) blast
    have run: "efor schedule_window (e # es) (st, w) = Some ((st2, w2), r2)" using r(1) Inr l(1) by (simp add: ebind_step(1) [of "schedule_window e"])
    have q: "?Q w (e # es) w2" if "r2 = Ok ()"
      using l(4) [OF that] r(4) Inr i by (auto simp: timer_window_inject)
    have "\<exists>t. w2 = w\<lparr>w_timers := t\<rparr>" if "r2 = Ok ()" using l(4) [OF that] w1 by auto
    with q show ?thesis by (intro step_okI [where m = "efor schedule_window (e # es)", OF run l(2)]) (simp_all add: l(3) w1)
  qed
qed

lemma restore_timers_ok:
  assumes ok: "window_ok st w" and keys: "keys_built w"
  shows "step_ok st w restore_timers (\<lambda>w' _. (\<exists>t. w' = w\<lparr>w_timers := t\<rparr>) \<and> (\<not> uses_event_time (ws_kind (w_spec w)) \<longrightarrow> all_timed w'))"
proof -
  have refl: "\<exists>t. w = w\<lparr>w_timers := t\<rparr>" by (rule exI [of _ "w_timers w"]) simp
  show ?thesis
  proof (cases "uses_event_time (ws_kind (w_spec w)) \<or> \<not> is_tumble (w_store w)")
    case True
    then have "restore_timers (st, w) = Some ((st, w), Ok ())" by (cases "w_store w") (auto simp: restore_timers_def)
    moreover have "\<not> is_tumble (w_store w) \<Longrightarrow> all_timed w" by (cases "w_store w") (simp_all add: all_timed_def windows_def)
    ultimately show ?thesis using True ok refl by (auto simp: step_ok_def)
  next
    case False
    then obtain s where s: "w_store w = TumbleStore s" by (cases "w_store w") auto
    have inv: "window_inv st w" using ok by (simp add: window_ok_def)
    let ?ends = "map (\<lambda>(_, e). te_end (e_value e)) (ms_entries s)"
    have ends: "list_all is_i64 ?ends"
      using windows_ends [OF inv s] stored_key [OF inv s keys] by (fastforce simp: list_all_iff)
    have run: "restore_timers (st, w) = efor schedule_window ?ends (st, w)" using False s by (simp add: restore_timers_def)
    from schedule_all [OF ok ends] obtain st' w' r where w': "restore_timers (st, w) = Some ((st', w'), r)" "window_ok st' w'" "cfg w' = cfg w"
      "r = Ok () \<Longrightarrow> (\<exists>t. w' = w\<lparr>w_timers := t\<rparr>) \<and>
       (\<forall>x. is_i64 x \<and> (x \<in> set ?ends \<or> pending_at (w_timers w) (timer_window (w_operator w) x) = Some x) \<longrightarrow>
          pending_at (w_timers w') (timer_window (w_operator w) x) = Some x)" unfolding run by (rule step_okE) blast
    have "all_timed w'" if r: "r = Ok ()"
    proof -
      obtain t where t: "w' = w\<lparr>w_timers := t\<rparr>" using w'(4) [OF r] by blast
      have "is_i64 (te_end e) \<and> te_end e \<in> set ?ends" if "windows w enc = Some e" for enc e
      proof -
        from that s obtain x where x: "map_of (ms_entries s) (w_operator w, window_slot, enc) = Some x" "e_value x = e" by (auto simp: windows_def)
        from windows_ends [OF inv s x(1)] map_of_SomeD [OF x(1)] x(2) show ?thesis by force
      qed
      then show ?thesis using w'(4) [OF r] by (auto simp: all_timed_def t)
    qed
    then show ?thesis using w'(4) by (intro step_okI [where m = restore_timers, OF w'(1-3)]) simp
  qed
qed

lemma restored_cleanup: "windows w = Map.empty \<Longrightarrow> counts w = Map.empty \<Longrightarrow> window_key_count w = 0 \<Longrightarrow> w_index w = [] \<Longrightarrow>
   w_index_bytes w = 0 \<Longrightarrow> restored [] w"
  by (auto simp: restored_def frozen_windows_def frozen_counts_def keys_built_def window_key_count_def ms_len_def split: window_store.splits)

definition restored_from :: "window_freeze \<Rightarrow> window_op \<Rightarrow> bool" where
  "restored_from f w \<longleftrightarrow> keys_built w \<and> all_indexed w \<and> (\<not> uses_event_time (ws_kind (w_spec w)) \<longrightarrow> all_timed w) \<and>
     (if is_tumble (w_store w) then windows w = frozen_windows (wf_entries f) else counts w = frozen_counts (wf_entries f)) \<and>
     (w_holdback w \<noteq> None \<longrightarrow> window_wm_in w = wf_wm_in f \<and> window_wm_out w = wf_wm_out f) \<and>
     last_effective (w_hub w) = wf_last_effective f"

lemma restore_tail:
  assumes ok: "window_ok st w" and r: "restored (wf_entries f) w"
  shows "step_ok st w (ebind (emodify (restore_watermarks f)) (\<lambda>_. ebind (rebuild_closed_index W) (\<lambda>_. restore_timers))) (\<lambda>w' _. restored_from f w')"
proof -
  let ?w = "restore_watermarks f w"
  have w: "w_store ?w = w_store w" "w_spec ?w = w_spec w" "keys_built ?w = keys_built w" "windows ?w = windows w" "counts ?w = counts w"
    "w_index ?w = w_index w" "w_index_bytes ?w = w_index_bytes w" "cfg ?w = cfg w"
    by (simp_all add: restore_watermarks_def keys_built_def)
  have ok1: "window_ok st ?w" using ok by (simp add: restore_watermarks_def window_ok_def kind_ok_def)
  have marks: "(w_holdback ?w \<noteq> None \<longrightarrow> window_wm_in ?w = wf_wm_in f \<and> window_wm_out ?w = wf_wm_out f) \<and> last_effective (w_hub ?w) = wf_last_effective f"
    by (auto simp: restore_watermarks_def window_wm_in_def window_wm_out_def holdback_restore_def restore_effective_def)
  have keys: "keys_built ?w" "w_index ?w = []" "w_index_bytes ?w = 0" using r w by (simp_all add: restored_def)
  have "step_ok st ?w (ebind (rebuild_closed_index W) (\<lambda>_. restore_timers)) (\<lambda>w' _. restored_from f w')"
  proof (rule step_ok_bind [OF rebuild_ok [OF ok1 keys]])
    fix st1 w1 assume ok1: "window_ok st1 w1" and c: "cfg w1 = cfg ?w" and "(\<exists>K. indexed_as K ?w w1) \<and> all_indexed w1"
    then obtain K where i: "indexed_as K ?w w1" "all_indexed w1" by blast
    note d = indexed_asD [OF i(1)]
    have "keys_built w1" using d keys by simp
    from restore_timers_ok [OF ok1 this] show "step_ok st1 w1 restore_timers (\<lambda>w' _. restored_from f w')"
    proof (rule step_ok_mono)
      fix w' assume "(\<exists>t. w' = w1\<lparr>w_timers := t\<rparr>) \<and> (\<not> uses_event_time (ws_kind (w_spec w1)) \<longrightarrow> all_timed w')"
      then obtain t where w': "w' = w1\<lparr>w_timers := t\<rparr>" "\<not> uses_event_time (ws_kind (w_spec w1)) \<longrightarrow> all_timed w'" by blast
      have "keys_built w'" using d(3) keys(1) by (simp add: w'(1) keys_built_def)
      then show "restored_from f w'"
        using w'(2) i(2) d marks r w by (simp add: restored_from_def w'(1) restored_def window_wm_in_def window_wm_out_def)
    qed
  qed
  then show ?thesis by (simp add: step_ok_def w(8))
qed

lemma restore_ok:
  assumes ok: "window_ok st w" and i: "list_all (\<lambda>e. is_i64 (fz_end e)) (wf_entries f)"
  shows "step_ok st w (restore_freeze_inner W f) (\<lambda>w' _. restored_from f w')"
  unfolding restore_freeze_inner_def
proof (rule step_ok_get)
  let ?body = "ebind window_cleanup (\<lambda>_.
        ebind (if wf_kind f = store_kind w then efor (restore_entry W) (wf_entries f) else elift (Err InvalidArgument)) (\<lambda>_.
        ebind (emodify (restore_watermarks f)) (\<lambda>_.
        ebind (rebuild_closed_index W) (\<lambda>_. restore_timers))))"
  have body: "step_ok st1 w ?body (\<lambda>w' _. restored_from f w')" if ok1: "window_ok st1 w" for st1
  proof -
    have "step_ok st1 w window_cleanup (\<lambda>w' _. restored [] w')"
    proof -
      obtain st' w' where c: "window_cleanup (st1, w) = Some ((st', w'), Ok ())" "window_ok st' w'" "cfg w' = cfg w"
        "windows w' = Map.empty" "counts w' = Map.empty" "window_key_count w' = 0" by (rule cleanup_ok [OF ok1])
      moreover have "w_index w' = []" "w_index_bytes w' = 0" using c(1) by (auto simp: window_cleanup_def Let_def split: prod.splits)
      ultimately show ?thesis by (auto simp: step_ok_def intro: restored_cleanup)
    qed
    then show ?thesis
    proof (rule step_ok_bind)
      fix st2 w2 assume ok2: "window_ok st2 w2" and r2: "restored [] w2"
      have "step_ok st2 w2 (if wf_kind f = store_kind w then efor (restore_entry W) (wf_entries f) else elift (Err InvalidArgument))
          (\<lambda>w' _. restored (wf_entries f) w' \<and> w_timers w' = w_timers w2)"
        by (cases "wf_kind f = store_kind w") (use restore_entries [OF ok2 r2 i, of W] ok2 in \<open>simp_all add: step_ok_err\<close>)
      then show "step_ok st2 w2 (ebind (if wf_kind f = store_kind w then efor (restore_entry W) (wf_entries f) else elift (Err InvalidArgument)) (\<lambda>_.
        ebind (emodify (restore_watermarks f)) (\<lambda>_. ebind (rebuild_closed_index W) (\<lambda>_. restore_timers)))) (\<lambda>w' _. restored_from f w')"
        by (rule step_ok_bind) (rule restore_tail; simp)
    qed
  qed
  show "step_ok st w (if wf_operator f \<noteq> w_operator w then elift (Err InvalidArgument) else if wf_slot f \<noteq> window_slot then elift (Err InvalidArgument)
     else escratch (restore_scratch_bytes W f) (w_owner w) ?body) (\<lambda>w' _. restored_from f w')"
    by (simp add: step_ok_err ok step_ok_scratch [OF ok refl body])
qed

section \<open>When a restore is refused\<close>

text \<open>A restore of well-formed state stops only for want of credit, of a key slot or of a timer slot.\<close>

definition quota_refusal :: "sparrow_error \<Rightarrow> bool" where
  "quota_refusal e \<longleftrightarrow> (\<exists>k n ow st. acquire k n ow st = Inl e) \<or> e = with_retryable False (new_error ResourceExhausted) \<or>
     (\<exists>i at t. schedule i at t = Inl e)"

definition refuses :: "store \<Rightarrow> window_op \<Rightarrow> (window_op, 'a) eff \<Rightarrow> bool" where
  "refuses st w m \<longleftrightarrow> (\<forall>st' w' e. m (st, w) = Some ((st', w'), Inl e) \<longrightarrow> quota_refusal e)"

lemma refuses_bind:
  assumes "refuses st w m" "step_ok st w m Q"
    and "\<And>st1 w1 x. window_ok st1 w1 \<Longrightarrow> cfg w1 = cfg w \<Longrightarrow> Q w1 x \<Longrightarrow> refuses st1 w1 (f x)"
  shows "refuses st w (ebind m f)"
proof -
  from assms(2) obtain st1 w1 r where m: "m (st, w) = Some ((st1, w1), r)" "window_ok st1 w1" "cfg w1 = cfg w" "\<And>x. r = Ok x \<Longrightarrow> Q w1 x"
    by (rule step_okE) blast
  show ?thesis
  proof (cases r)
    case (Inl e)
    with m assms(1) show ?thesis by (simp add: refuses_def ebind_step)
  next
    case (Inr x)
    with assms(3) [OF m(2,3), of x] m show ?thesis by (simp add: refuses_def ebind_step(1) [of m])
  qed
qed

lemma refuses_efor:
  assumes "\<And>st w x. x \<in> set xs \<Longrightarrow> refuses st w (f x)"
  shows "refuses st w (efor f xs)"
  using assms
proof (induction xs arbitrary: st w)
  case (Cons x xs)
  show ?case
  proof (cases "f x (st, w)")
    case (Some y)
    obtain st1 w1 r where y: "y = ((st1, w1), r)" by (metis surj_pair)
    have "refuses st w (f x)" "refuses st1 w1 (efor f xs)" using Cons by auto
    then show ?thesis using Some y by (cases r) (simp_all add: refuses_def ebind_step ebind_step(1) [of "f x"])
  qed (simp add: refuses_def ebind_def)
qed (simp add: refuses_def)

lemma refuses_quota_steps:
  "refuses st w (reindex W x)" "refuses st w (schedule_window t)" "refuses st w (rebuild_closed_index W)" "refuses st w restore_timers"
proof -
  have ix: "refuses st w (reindex W x)" for st w x
    using acquire_error by (auto simp: refuses_def reindex_def indexed_def quota_refusal_def Let_def rbind_Inl_iff split: sum.splits prod.splits)
  have sc: "refuses st w (schedule_window t)" for st w t
    by (auto simp: refuses_def schedule_window_def quota_refusal_def split: sum.splits prod.splits)
  show "refuses st w (reindex W x)" "refuses st w (schedule_window t)" by (rule ix, rule sc)
  show "refuses st w (rebuild_closed_index W)"
  proof (cases "w_store w")
    case (TumbleStore s)
    then show ?thesis
      using refuses_efor [where f = "reindex W", OF ix] by (simp add: refuses_def rebuild_closed_index_def ebind_def eget_def)
  qed (simp add: refuses_def rebuild_closed_index_def ebind_def eget_def eret_def)
  show "refuses st w restore_timers"
    using refuses_efor [where f = schedule_window, OF sc]
    by (cases "w_store w") (simp_all add: refuses_def restore_timers_def)
qed

lemma refuses_restore_entry:
  assumes r: "restored es w" and fresh: "key_encoding (fz_key e) \<notin> set (map (\<lambda>e. key_encoding (fz_key e)) es)"
    and op: "case w_store w of TumbleStore s \<Rightarrow> ms_operator s = w_operator w \<and> ms_slot s = window_slot
      | CountStore s \<Rightarrow> ms_operator s = w_operator w \<and> ms_slot s = window_slot"
  shows "refuses st w (restore_entry W e)"
proof -
  let ?k = "window_key W w (fz_key e)"
  have key: "key_id ?k = (w_operator w, window_slot, key_encoding (fz_key e))" "sk_operator ?k = w_operator w" "sk_slot ?k = window_slot"
    by (simp_all add: window_key_def state_key_new_def key_id_def)
  have put: "quota_refusal x" if "ms_put (wh_layout W) ?k v vb s st = Some (st', s', Inl x)" "ms_operator s = w_operator w" "ms_slot s = window_slot"
    for v vb s st' s' x
    using ms_put_refusal [OF that(1)] that(2,3) key by (auto simp: refusal_def quota_refusal_def)
  have none: "frozen_windows es (key_encoding (fz_key e)) = None" "frozen_counts es (key_encoding (fz_key e)) = None"
    using fresh by (simp_all add: frozen_None)
  show ?thesis
  proof (cases "w_store w")
    case (TumbleStore s)
    have "ms_get ?k s = None" using r TumbleStore none by (simp add: ms_get_def key restored_def windows_def fun_eq_iff)
    then show ?thesis using TumbleStore op put by (auto simp: refuses_def restore_entry_def on_tumble_def Let_def)
  next
    case (CountStore s)
    have "ms_get ?k s = None" using r CountStore none by (simp add: ms_get_def key restored_def counts_def fun_eq_iff)
    then show ?thesis using CountStore op put by (auto simp: refuses_def restore_entry_def on_count_def Let_def)
  qed
qed

lemma refuses_entries:
  "window_ok st w \<Longrightarrow> restored es0 w \<Longrightarrow> list_all (\<lambda>e. is_i64 (fz_end e)) es \<Longrightarrow> distinct (map (\<lambda>e. key_encoding (fz_key e)) (es0 @ es)) \<Longrightarrow>
     refuses st w (efor (restore_entry W) es)"
proof (induction es arbitrary: st w es0)
  case (Cons e es)
  have op: "case w_store w of TumbleStore s \<Rightarrow> ms_operator s = w_operator w \<and> ms_slot s = window_slot
      | CountStore s \<Rightarrow> ms_operator s = w_operator w \<and> ms_slot s = window_slot"
    using Cons.prems(1) by (auto simp: window_ok_def window_inv_def store_ok_def index_inv_def split: window_store.splits)
  have ref: "refuses st w (restore_entry W e)" by (rule refuses_restore_entry [OF Cons.prems(2) _ op]) (use Cons.prems(4) in auto)
  have "step_ok st w (efor (restore_entry W) [e]) (\<lambda>w' _. restored (es0 @ [e]) w' \<and> w_timers w' = w_timers w)"
    by (rule restore_entries [OF Cons.prems(1,2)]) (use Cons.prems(3) in simp)
  moreover have "efor (restore_entry W) [e] = restore_entry W e"
    by (auto simp: ebind_def eret_def fun_eq_iff split: option.split prod.split sum.split)
  ultimately have ok: "step_ok st w (restore_entry W e) (\<lambda>w' _. restored (es0 @ [e]) w' \<and> w_timers w' = w_timers w)" by simp
  show ?case unfolding efor.simps
    by (rule refuses_bind [OF ref ok]) (rule Cons.IH [of _ _ "es0 @ [e]"]; use Cons.prems in auto)
qed (simp add: refuses_def)

lemma refuses_restore:
  assumes ok: "window_ok st w" and i: "list_all (\<lambda>e. is_i64 (fz_end e)) (wf_entries f)"
    and f: "wf_operator f = w_operator w" "wf_slot f = window_slot" "wf_kind f = store_kind w" "distinct (map (\<lambda>e. key_encoding (fz_key e)) (wf_entries f))"
  shows "refuses st w (restore_freeze_inner W f)"
proof -
  let ?tail = "ebind (emodify (restore_watermarks f)) (\<lambda>_. ebind (rebuild_closed_index W) (\<lambda>_. restore_timers))"
  let ?body = "ebind window_cleanup (\<lambda>_. ebind (efor (restore_entry W) (wf_entries f)) (\<lambda>_. ?tail))"
  have tail: "refuses st1 w1 ?tail" if ok1: "window_ok st1 w1" and r1: "restored (wf_entries f) w1" for st1 w1
  proof -
    let ?w = "restore_watermarks f w1"
    have ok2: "window_ok st1 ?w" "keys_built ?w" "w_index ?w = []" "w_index_bytes ?w = 0"
      using ok1 r1 by (simp_all add: restore_watermarks_def window_ok_def kind_ok_def restored_def keys_built_def)
    have "refuses st1 ?w (ebind (rebuild_closed_index W) (\<lambda>_. restore_timers))"
      by (rule refuses_bind [OF refuses_quota_steps(3) rebuild_ok [OF ok2]]) (rule refuses_quota_steps)
    then show ?thesis by (simp add: refuses_def)
  qed
  have body: "refuses st1 w ?body" if ok1: "window_ok st1 w" for st1
  proof -
    obtain st' w' where c: "window_cleanup (st1, w) = Some ((st', w'), Ok ())" "window_ok st' w'" "cfg w' = cfg w"
      "windows w' = Map.empty" "counts w' = Map.empty" "window_key_count w' = 0" by (rule cleanup_ok [OF ok1])
    moreover have "w_index w' = []" "w_index_bytes w' = 0" using c(1) by (auto simp: window_cleanup_def Let_def split: prod.splits)
    ultimately have r: "restored [] w'" by (simp add: restored_cleanup)
    have "refuses st' w' (efor (restore_entry W) (wf_entries f))" using refuses_entries [OF c(2) r i] f(4) by simp
    from refuses_bind [where f = "\<lambda>_. ?tail", OF this restore_entries [OF c(2) r i]]
    have "refuses st' w' (ebind (efor (restore_entry W) (wf_entries f)) (\<lambda>_. ?tail))" by (simp add: tail)
    then show ?thesis using c(1) by (simp add: refuses_def ebind_step(1) [of window_cleanup])
  qed
  have "refuses st w (escratch (restore_scratch_bytes W f) (w_owner w) ?body)"
  proof (cases "acquire Reservation (restore_scratch_bytes W f) (w_owner w) st")
    case (Inl e)
    then show ?thesis by (auto simp: refuses_def escratch_def eacquire_def ebind_def quota_refusal_def)
  next
    case (Inr x)
    obtain st1 l where x: "x = (st1, l)" by fastforce
    have wf: "wf_owner (w_owner w)" using owner_wf [OF ok] by simp
    have ok1: "window_ok st1 w" using window_inv_store [OF ok] reservation_keeps_retention(1) [OF wf Inr [unfolded x]] by simp
    have "eacquire Reservation (restore_scratch_bytes W f) (w_owner w) (st, w) = Some ((st1, w), Ok l)" by (simp add: eacquire_def Inr x)
    then have "escratch (restore_scratch_bytes W f) (w_owner w) ?body (st, w) = escoped l ?body (st1, w)"
      unfolding escratch_def by (rule ebind_step)
    then show ?thesis using body [OF ok1] by (auto simp: refuses_def escoped_def split: option.splits prod.splits)
  qed
  then show ?thesis using f by (simp add: restore_freeze_inner_def refuses_def)
qed

section \<open>The freeze of an operator holds its state\<close>

lemma map_of_sort:
  assumes "distinct (map (\<lambda>x. fst (g x)) xs)"
  shows "map_of (map g (sort_key h xs)) = map_of (map g xs)"
proof -
  have "distinct (map fst (map g xs))" using assms by (simp add: comp_def)
  moreover have "distinct (map fst (map g (sort_key h xs)))"
    using assms by (simp add: comp_def distinct_map)
  ultimately show ?thesis by (subst map_of_inject_set) simp_all
qed

lemma live_map:
  assumes inv: "ms_inv extra s st" and op: "ms_operator s = op" "ms_slot s = window_slot"
    and keys: "list_all (\<lambda>x. built (e_key (snd x))) (ms_entries s)"
    and frz: "\<And>e. fz_key (frz e) = sk_key (e_key e)" "\<And>e. unfrz (frz e) = e_value e"
  shows "distinct (map (\<lambda>e. key_encoding (fz_key e)) (map (\<lambda>x. frz (snd x)) (ms_entries s)))"
    "map_of (map (\<lambda>e. (key_encoding (fz_key e), unfrz e)) (map (\<lambda>x. frz (snd x)) (ms_entries s))) enc
       = map_option e_value (map_of (ms_entries s) (op, window_slot, enc))"
proof -
  have id: "i = (op, window_slot, key_encoding (sk_key (e_key e)))" if "(i, e) \<in> set (ms_entries s)" for i e
  proof -
    have "entry_ok s i e" "built (e_key e)" using inv keys that by (force simp: ms_inv_def list_all_iff)+
    then show ?thesis using op by (simp add: entry_ok_def key_id_def built_def)
  qed
  have dist: "distinct (map fst (ms_entries s))" using inv by (simp add: ms_inv_def hm_inv_def)
  have "map (\<lambda>x. (op, window_slot, key_encoding (sk_key (e_key (snd x))))) (ms_entries s) = map fst (ms_entries s)"
  proof (rule map_cong [OF refl])
    fix x assume "x \<in> set (ms_entries s)"
    then show "(op, window_slot, key_encoding (sk_key (e_key (snd x)))) = fst x" using id [of "fst x" "snd x"] by simp
  qed
  then have "distinct (map (\<lambda>x. (op, window_slot, key_encoding (sk_key (e_key (snd x))))) (ms_entries s))" using dist by metis
  then show "distinct (map (\<lambda>e. key_encoding (fz_key e)) (map (\<lambda>x. frz (snd x)) (ms_entries s)))"
    by (simp add: distinct_map inj_on_def frz comp_def)
  have "map_of (map (\<lambda>x. (key_encoding (sk_key (e_key (snd x))), e_value (snd x))) xs) enc
      = map_option e_value (map_of xs (op, window_slot, enc))" if "set xs \<subseteq> set (ms_entries s)" for xs
    using that
  proof (induction xs)
    case (Cons x xs)
    obtain i e where "x = (i, e)" by fastforce
    with Cons id [of i e] show ?case by auto
  qed simp
  then show "map_of (map (\<lambda>e. (key_encoding (fz_key e), unfrz e)) (map (\<lambda>x. frz (snd x)) (ms_entries s))) enc
       = map_option e_value (map_of (ms_entries s) (op, window_slot, enc))"
    by (simp add: frz comp_def)
qed

lemma freeze_tumble_state:
  assumes inv: "window_inv st w" and keys: "keys_built w" and s: "w_store w = TumbleStore s"
  shows "distinct (map (\<lambda>e. key_encoding (fz_key e)) (wf_entries (freeze w)))" "frozen_windows (wf_entries (freeze w)) = windows w"
    "list_all (\<lambda>e. is_i64 (fz_end e)) (wf_entries (freeze w))" "counts w = Map.empty"
proof -
  have ms: "ms_inv (w_index_bytes w) s st" "ms_operator s = w_operator w" "ms_slot s = window_slot"
    using inv s by (simp_all add: window_inv_def store_ok_def index_inv_def)
  let ?un = "\<lambda>e. \<lparr>te_start = fz_start e, te_end = fz_end e, te_accs = fz_accs e\<rparr>"
  have live: "live_entries w = map (\<lambda>x. freeze_tumble (snd x)) (ms_entries s)" using s by (simp add: live_entries_def)
  note lm = live_map [OF ms, of freeze_tumble ?un, folded live]
  have kb: "list_all (\<lambda>x. built (e_key (snd x))) (ms_entries s)" using keys s by (simp add: keys_built_def)
  have d: "distinct (map (\<lambda>e. key_encoding (fz_key e)) (live_entries w))" by (rule lm(1) [OF kb]) (simp_all add: freeze_tumble_def)
  then show "distinct (map (\<lambda>e. key_encoding (fz_key e)) (wf_entries (freeze w)))" by (simp add: freeze_def distinct_map)
  have "frozen_windows (wf_entries (freeze w)) = frozen_windows (live_entries w)"
    unfolding frozen_windows_def freeze_def using d by (simp add: map_of_sort)
  also have "\<dots> = windows w"
  proof
    fix enc show "frozen_windows (live_entries w) enc = windows w enc"
      using lm(2) [OF kb, of enc] s by (simp add: frozen_windows_def windows_def freeze_tumble_def)
  qed
  finally show "frozen_windows (wf_entries (freeze w)) = windows w" .
  show "list_all (\<lambda>e. is_i64 (fz_end e)) (wf_entries (freeze w))"
    using windows_ends [OF inv s] stored_key [OF inv s keys] by (fastforce simp: freeze_def live freeze_tumble_def list_all_iff)
  show "counts w = Map.empty" using s by (simp add: counts_def fun_eq_iff)
qed

lemma freeze_count_state:
  assumes inv: "window_inv st w" and keys: "keys_built w" and s: "w_store w = CountStore s"
  shows "distinct (map (\<lambda>e. key_encoding (fz_key e)) (wf_entries (freeze w)))" "frozen_counts (wf_entries (freeze w)) = counts w"
    "list_all (\<lambda>e. is_i64 (fz_end e)) (wf_entries (freeze w))" "windows w = Map.empty"
proof -
  have ms: "ms_inv 0 s st" "ms_operator s = w_operator w" "ms_slot s = window_slot" using count_store [OF inv s] by simp_all
  let ?un = "\<lambda>e. \<lparr>ce_count = fz_count e, ce_accs = fz_accs e\<rparr>"
  have live: "live_entries w = map (\<lambda>x. freeze_count (snd x)) (ms_entries s)" using s by (simp add: live_entries_def)
  note lm = live_map [OF ms, of freeze_count ?un, folded live]
  have kb: "list_all (\<lambda>x. built (e_key (snd x))) (ms_entries s)" using keys s by (simp add: keys_built_def)
  have d: "distinct (map (\<lambda>e. key_encoding (fz_key e)) (live_entries w))" by (rule lm(1) [OF kb]) (simp_all add: freeze_count_def)
  then show "distinct (map (\<lambda>e. key_encoding (fz_key e)) (wf_entries (freeze w)))" by (simp add: freeze_def distinct_map)
  have "frozen_counts (wf_entries (freeze w)) = frozen_counts (live_entries w)"
    unfolding frozen_counts_def freeze_def using d by (simp add: map_of_sort)
  also have "\<dots> = counts w"
  proof
    fix enc show "frozen_counts (live_entries w) enc = counts w enc"
      using lm(2) [OF kb, of enc] s by (simp add: frozen_counts_def counts_def freeze_count_def)
  qed
  finally show "frozen_counts (wf_entries (freeze w)) = counts w" .
  show "list_all (\<lambda>e. is_i64 (fz_end e)) (wf_entries (freeze w))"
    by (auto simp: freeze_def live freeze_count_def list_all_iff is_i64_def)
  show "windows w = Map.empty" using s by (simp add: windows_def fun_eq_iff)
qed

lemma freeze_state:
  assumes inv: "window_inv st w" and keys: "keys_built w"
  shows "distinct (map (\<lambda>e. key_encoding (fz_key e)) (wf_entries (freeze w)))" "list_all (\<lambda>e. is_i64 (fz_end e)) (wf_entries (freeze w))"
    "is_tumble (w_store w) \<Longrightarrow> frozen_windows (wf_entries (freeze w)) = windows w" "is_tumble (w_store w) \<Longrightarrow> counts w = Map.empty"
    "\<not> is_tumble (w_store w) \<Longrightarrow> frozen_counts (wf_entries (freeze w)) = counts w" "\<not> is_tumble (w_store w) \<Longrightarrow> windows w = Map.empty"
  using freeze_tumble_state [OF inv keys] freeze_count_state [OF inv keys] by (cases "w_store w"; simp)+

lemma live_fits:
  assumes check: "check_freeze_encode_bound w mx = Ok ()" and fit: "list_all (entry_fits (accumulator_codec w)) (live_entries w)"
    and op: "w_operator w \<le> u32_max" and wm: "pred_option is_i64 (window_wm_in w)" "pred_option is_i64 (window_wm_out w)"
      "pred_option is_i64 (last_effective (w_hub w))"
  shows "freeze_fits (accumulator_codec w) mx (freeze w)"
proof -
  let ?c = "accumulator_codec w" and ?n = "sum_list (map (\<lambda>e. length (entry_bytes e)) (live_entries w))"
  have est: "map_result (estimated_entry_bytes ?c) (live_entries w) = Ok (map (\<lambda>e. length (entry_bytes e)) (live_entries w))"
    using fit by (auto simp: entry_fits_def write_freeze_entry_ok intro: map_result_list_all)
  then have le: "sat_u64 (?n + 256) \<le> max_snapshot_bytes" "window_key_count w \<le> mx"
    using check by (auto simp: check_freeze_encode_bound_def try_estimated_freeze_bytes_def Let_def split: if_splits)
  then have "?n + 256 \<le> max_snapshot_bytes" by (auto simp: sat_u64_def max_snapshot_bytes_def split: if_splits)
  moreover obtain ms where "map_result (estimated_entry_bytes ?c) (sort_key frozen_key_bytes (live_entries w)) = Ok ms" "sum_list ms = ?n"
    using estimate_sorted [OF est] by blast
  moreover from this fit have "ms = map (\<lambda>e. length (entry_bytes e)) (sort_key frozen_key_bytes (live_entries w))"
    by (auto simp: map_result_iff list_all_iff entry_fits_def write_freeze_entry_ok)
  ultimately have "sum_list (map (\<lambda>e. length (entry_bytes e)) (sort_key frozen_key_bytes (live_entries w))) + 256 \<le> max_snapshot_bytes" by simp
  then show ?thesis using le(2) fit op wm by (simp add: freeze_fits_def freeze_def window_slot_def list_all_iff)
qed

section \<open>Properties\<close>

text \<open>
  C12: Encoding the live window state never panics, leaves the operator and its retention as they
  were, and what it writes is exactly the encoding of the frozen state, although it sorts
  references to the live keys and copies no entry.
\<close>

theorem live_encoding_is_freeze:
  assumes "window_inv st w" "keys_built w"
  shows "\<exists>st' r. encode_freeze_into_codec mx (accumulator_codec w) (st, w) = Some ((st', w), r) \<and>
    retention (w_owner w) st' = retention (w_owner w) st \<and>
    (\<forall>b. r = Ok b \<longrightarrow> encode_freeze_codec (accumulator_codec w) mx (freeze w) = Ok b)"
  by (rule encode_freeze_into_ok [OF assms])

lemma demo_live_frozen:
  "keys_built demo_live" "accumulator_codec demo_live = CodecWindow" "w_operator demo_live \<le> u32_max"
  "window_wm_in demo_live = None" "window_wm_out demo_live = None" "last_effective (w_hub demo_live) = None"
  "live_entries demo_live = [\<lparr>fz_key = [SInt64 1], fz_start = 10, fz_end = 20, fz_count = 0, fz_accs = [AccCount 2 0 True]\<rparr>]"
  by (simp_all add: demo_live_def keys_built_def built_def demo_key_def accumulator_codec_def has_extended_aggs_def demo_window_spec_def
      window_spec_new_def uses_event_time_def agg_call_count_star_def agg_is_extended_def window_wm_in_def window_wm_out_def hub_new_def
      hub_with_capacity_def live_entries_def freeze_tumble_def demo_tumble_def)

lemma demo_live_fits: "list_all (entry_fits CodecWindow) (live_entries demo_live)"
  by (simp add: demo_live_frozen entry_fits_def entry_values_ok_def acc_fits_def is_i64_def is_u64_def)

lemma demo_live_encodes: "\<exists>st1 b. encode_freeze_into_codec 4 CodecWindow (demo_counters, demo_live) = Some ((st1, demo_live), Ok b)"
proof -
  have inv: "window_inv demo_counters demo_live" using demo_live_ok(1) by (simp add: window_ok_def)
  have count: "window_key_count demo_live = 1" "window_retention_bytes demo_live = 900" "w_owner demo_live = demo_root"
    by (simp_all add: demo_live_def window_key_count_def ms_len_def window_retention_bytes_def is_u64_def)
  have est: "try_estimated_freeze_bytes demo_live = Ok 55"
    by (simp add: try_estimated_freeze_bytes_def demo_live_frozen estimated_entry_bytes_def encoded_value_len_def encoded_len_codec_def
        freeze_entry_overhead_def is_u64_def)
  have check: "check_freeze_encode_bound demo_live 4 = Ok ()"
    by (simp add: check_freeze_encode_bound_def est count freeze_workspace_bytes_def max_snapshot_bytes_def demo_root_def budget_compact_def is_u64_def)
  have "\<exists>st1 l. acquire Reservation (freeze_workspace_bytes demo_live) demo_root demo_counters = Ok (st1, l)"
    by (simp add: freeze_workspace_bytes_def count demo_root_def demo_counters_def counters_new_def budget_compact_def is_u64_def)
  then obtain st1 l where acq: "acquire Reservation (freeze_workspace_bytes demo_live) demo_root demo_counters = Ok (st1, l)" by blast
  have body: "\<exists>b. encode_all (write_freeze_entry CodecWindow) (wf_entries (freeze demo_live)) = Ok b"
    using demo_live_fits by (simp add: freeze_def demo_live_frozen encode_all_def entry_fits_def write_freeze_entry_ok)
  show ?thesis
    using acq body check
    by (auto simp: encode_freeze_into_codec_def write_store [OF inv demo_live_frozen(1)] escratch_def eacquire_def ebind_def eget_def elift_def
        eret_def escoped_def echeck_def count)
qed

theorem live_encoding_is_freeze_witness:
  "\<exists>st' r. encode_freeze_into_codec 4 CodecWindow (demo_counters, demo_live) = Some ((st', demo_live), r) \<and>
     (\<forall>b. r = Ok b \<longrightarrow> encode_freeze_codec CodecWindow 4 (freeze demo_live) = Ok b)"
  using live_encoding_is_freeze [of demo_counters demo_live 4] demo_live_ok(1) demo_live_frozen(1,2) by (auto simp: window_ok_def)

end
