(* ===== verification/Window_Restore.thy ===== *)
theory Window_Restore
  imports Window_Freeze
begin

text \<open>
  What a restore of \<^verbatim>\<open>sparrow-runtime/src/window.rs\<close> costs, and the round trip of a window
  checkpoint: the restore goes through exactly when the owner has the credit, the store the key
  slots and the timer queue the places that the frozen entries need.
\<close>

section \<open>What the frozen entries cost\<close>

definition index_charge :: "key_layout \<Rightarrow> state_key \<Rightarrow> nat" where
  "index_charge L k = sat_u64 (sat_u64 (key_tracked_bytes L k + length (sk_encoded k)) + 128)"

definition entry_put_bytes :: "window_host \<Rightarrow> window_op \<Rightarrow> frozen_entry \<Rightarrow> nat" where
  "entry_put_bytes W w e = put_bytes (wh_layout W) (window_key W w (fz_key e)) (accs_bytes W (fz_accs e))"

definition entry_index_bytes :: "window_host \<Rightarrow> window_op \<Rightarrow> frozen_entry \<Rightarrow> nat" where
  "entry_index_bytes W w e = (if is_tumble (w_store w) then index_charge (wh_layout W) (window_key W w (fz_key e)) else 0)"

abbreviation put_sum :: "window_host \<Rightarrow> window_op \<Rightarrow> frozen_entry list \<Rightarrow> nat" where
  "put_sum W w es \<equiv> sum_list (map (entry_put_bytes W w) es)"

abbreviation index_sum :: "window_host \<Rightarrow> window_op \<Rightarrow> frozen_entry list \<Rightarrow> nat" where
  "index_sum W w es \<equiv> sum_list (map (entry_index_bytes W w) es)"

text \<open>
  The whole bill, read off the source: scratch space first, then the old state is dropped, every
  entry takes a key slot and retention for itself and, in a window store, for its index key, and
  in processing time every distinct window end takes a timer.
\<close>

definition restore_fits :: "window_host \<Rightarrow> window_freeze \<Rightarrow> store \<Rightarrow> window_op \<Rightarrow> bool" where
  "restore_fits W f st w =
     (case acquire Reservation (restore_scratch_bytes W f) (w_owner w) st of
        Inl _ \<Rightarrow> False
      | Inr (st1, _) \<Rightarrow>
          (case window_cleanup (st1, w) of
             None \<Rightarrow> False
           | Some ((st2, _), _) \<Rightarrow>
               length (wf_entries f) \<le> window_max_state_keys w \<and>
               room Retention (put_sum W w (wf_entries f) + index_sum W w (wf_entries f)) (w_owner w) st2 \<and>
               (is_tumble (w_store w) \<and> \<not> uses_event_time (ws_kind (w_spec w)) \<longrightarrow>
                  length (remdups (map fz_end (wf_entries f))) \<le> bt_max (w_timers w))))"

section \<open>The entries\<close>

definition store_charge :: "window_host \<Rightarrow> window_op \<Rightarrow> nat" where
  "store_charge W w = (case w_store w of
     TumbleStore s \<Rightarrow> hm_sum (\<lambda>e. index_charge (wh_layout W) (e_key e)) (ms_entries s) | CountStore _ \<Rightarrow> 0)"

lemma charge_operator:
  assumes "w_operator w' = w_operator w"
  shows "entry_put_bytes W w' = entry_put_bytes W w"
    "is_tumble (w_store w') = is_tumble (w_store w) \<Longrightarrow> entry_index_bytes W w' = entry_index_bytes W w"
  using assms by (simp_all add: entry_put_bytes_def entry_index_bytes_def window_key_def fun_eq_iff)

definition put_back :: "window_host \<Rightarrow> frozen_entry list \<Rightarrow> store \<times> window_op \<Rightarrow> store \<times> window_op \<Rightarrow> bool" where
  "put_back W es c c' \<longleftrightarrow> (let w = snd c; w' = snd c' in
     window_key_count w' = window_key_count w + length es \<and> window_max_state_keys w' = window_max_state_keys w \<and>
     is_tumble (w_store w') = is_tumble (w_store w) \<and> store_charge W w' = store_charge W w + index_sum W w es \<and>
     (\<forall>m. room Retention m (w_owner w) (fst c') = room Retention (put_sum W w es + m) (w_owner w) (fst c)))"

lemma restore_entry_room:
  assumes ok: "window_ok st w" and r: "restored es w" and fresh: "key_encoding (fz_key e) \<notin> set (map (\<lambda>e. key_encoding (fz_key e)) es)"
    and run: "restore_entry W e (st, w) = Some ((st', w'), res)"
  shows "res = Ok () \<longleftrightarrow> window_key_count w < window_max_state_keys w \<and> room Retention (entry_put_bytes W w e) (w_owner w) st"
    "res = Ok () \<Longrightarrow> put_back W [e] (st, w) (st', w')"
proof -
  have inv: "window_inv st w" using ok by (simp add: window_ok_def)
  let ?k = "window_key W w (fz_key e)"
  have key: "key_id ?k = (w_operator w, window_slot, key_encoding (fz_key e))" "sk_operator ?k = w_operator w" "sk_slot ?k = window_slot"
    by (simp_all add: window_key_def state_key_new_def key_id_def)
  have none: "frozen_windows es (key_encoding (fz_key e)) = None" "frozen_counts es (key_encoding (fz_key e)) = None"
    using fresh by (simp_all add: frozen_None)
  have "(res = Ok () \<longleftrightarrow> window_key_count w < window_max_state_keys w \<and> room Retention (entry_put_bytes W w e) (w_owner w) st) \<and>
    (res = Ok () \<longrightarrow> put_back W [e] (st, w) (st', w'))"
  proof (cases "w_store w")
    case (TumbleStore s)
    have ms: "ms_inv (w_index_bytes w) s st" "ms_owner s = w_owner w" "ms_operator s = w_operator w" "ms_slot s = window_slot"
      using inv TumbleStore by (simp_all add: window_inv_def store_ok_def index_inv_def)
    have get: "ms_get ?k s = None" using r TumbleStore none by (simp add: ms_get_def key restored_def windows_def fun_eq_iff)
    let ?v = "\<lparr>te_start = fz_start e, te_end = fz_end e, te_accs = fz_accs e\<rparr>"
    obtain s' where put: "ms_put (wh_layout W) ?k ?v (accs_bytes W (fz_accs e)) s st = Some (st', s', res)" and w': "w' = w\<lparr>w_store := TumbleStore s'\<rparr>"
      using run TumbleStore get by (auto simp: restore_entry_def on_tumble_def Let_def split: option.splits)
    note new = ms_put_new [OF ms(1) get _ _ put, unfolded ms key, OF refl refl]
    show ?thesis
      using new(1) new(2) [where f = "index_charge (wh_layout W)"] TumbleStore
      by (auto simp: put_back_def w' window_key_count_def window_max_state_keys_def store_charge_def entry_put_bytes_def entry_index_bytes_def)
  next
    case (CountStore s)
    note ms = count_store [OF inv CountStore]
    have get: "ms_get ?k s = None" using r CountStore none by (simp add: ms_get_def key restored_def counts_def fun_eq_iff)
    let ?v = "\<lparr>ce_count = fz_count e, ce_accs = fz_accs e\<rparr>"
    obtain s' where put: "ms_put (wh_layout W) ?k ?v (accs_bytes W (fz_accs e)) s st = Some (st', s', res)" and w': "w' = w\<lparr>w_store := CountStore s'\<rparr>"
      using run CountStore get by (auto simp: restore_entry_def on_count_def Let_def split: option.splits)
    note new = ms_put_new [OF ms(1) get _ _ put, unfolded ms key, OF refl refl]
    show ?thesis
      using new(1) new(2) [where f = "\<lambda>_. 0"] CountStore
      by (auto simp: put_back_def w' window_key_count_def window_max_state_keys_def store_charge_def entry_put_bytes_def entry_index_bytes_def)
  qed
  then show "res = Ok () \<longleftrightarrow> window_key_count w < window_max_state_keys w \<and> room Retention (entry_put_bytes W w e) (w_owner w) st"
    "res = Ok () \<Longrightarrow> put_back W [e] (st, w) (st', w')" by blast+
qed

lemma put_back_cons:
  assumes "put_back W [e] (st, w) (st1, w1)" "put_back W es (st1, w1) (st', w')" "cfg w1 = cfg w"
  shows "put_back W (e # es) (st, w) (st', w')"
proof -
  note c = cfgD [OF assms(3)]
  have "is_tumble (w_store w1) = is_tumble (w_store w)" using assms(1) by (simp add: put_back_def Let_def)
  note same = charge_operator [OF c(1), where W = W]
  show ?thesis using assms same \<open>is_tumble (w_store w1) = is_tumble (w_store w)\<close> c
    by (simp add: put_back_def Let_def add.assoc)
qed

lemma key_count_le:
  assumes "window_ok st w"
  shows "window_key_count w \<le> window_max_state_keys w"
  using assms by (cases "w_store w")
    (auto simp: window_ok_def window_inv_def store_ok_def index_inv_def ms_inv_def window_key_count_def window_max_state_keys_def ms_len_def)

lemma room_add: "room k (n + m) ow st \<Longrightarrow> room k n ow st"
  by (auto simp: room_def ensure_headroom_def list_all_iff sat_u64_def not_less split: if_splits)

lemma restore_entries_room:
  assumes "window_ok st w" "restored es0 w" "list_all (\<lambda>e. is_i64 (fz_end e)) es" "distinct (map (\<lambda>e. key_encoding (fz_key e)) (es0 @ es))"
    and "efor (restore_entry W) es (st, w) = Some ((st', w'), res)"
  shows "(res = Ok () \<longleftrightarrow> window_key_count w + length es \<le> window_max_state_keys w \<and> room Retention (put_sum W w es) (w_owner w) st) \<and>
    (res = Ok () \<longrightarrow> put_back W es (st, w) (st', w'))"
  using assms
proof (induction es arbitrary: st w es0)
  case Nil
  then show ?case using key_count_le [OF Nil.prems(1)] by (simp add: put_back_def eret_def)
next
  case (Cons e es)
  have "step_ok st w (efor (restore_entry W) [e]) (\<lambda>w' _. restored (es0 @ [e]) w' \<and> w_timers w' = w_timers w)"
    by (rule restore_entries [OF Cons.prems(1,2)]) (use Cons.prems(3) in simp)
  moreover have "efor (restore_entry W) [e] = restore_entry W e"
    by (auto simp: ebind_def eret_def fun_eq_iff split: option.split prod.split sum.split)
  ultimately obtain st1 w1 r1 where one: "restore_entry W e (st, w) = Some ((st1, w1), r1)" "window_ok st1 w1" "cfg w1 = cfg w"
    "r1 = Ok () \<Longrightarrow> restored (es0 @ [e]) w1" by (auto elim: step_okE)
  have fresh: "key_encoding (fz_key e) \<notin> set (map (\<lambda>e. key_encoding (fz_key e)) es0)" using Cons.prems(4) by auto
  note room1 = restore_entry_room [OF Cons.prems(1,2) fresh one(1)] and c = cfgD [OF one(3)]
  show ?case
  proof (cases r1)
    case (Inl x)
    then have "res = Inl x" using Cons.prems(5) one(1) by (simp add: ebind_step)
    then show ?thesis using room1(1) Inl room_add [of Retention "entry_put_bytes W w e"] by auto
  next
    case (Inr u)
    then have r1: "r1 = Ok ()" by simp
    note pb = room1(2) [OF r1]
    have rest: "efor (restore_entry W) es (st1, w1) = Some ((st', w'), res)" using Cons.prems(5) one(1) Inr by (simp add: ebind_step(1) [of "restore_entry W e"])
    have ih: "(res = Ok () \<longleftrightarrow> window_key_count w1 + length es \<le> window_max_state_keys w1 \<and> room Retention (put_sum W w1 es) (w_owner w1) st1) \<and>
      (res = Ok () \<longrightarrow> put_back W es (st1, w1) (st', w'))"
      by (rule Cons.IH [OF one(2) one(4) [OF r1] _ _ rest]) (use Cons.prems(3,4) in simp_all)
    have "room Retention (put_sum W w1 es) (w_owner w1) st1 = room Retention (put_sum W w (e # es)) (w_owner w) st"
      using pb charge_operator(1) [OF c(1), of W] c(7) by (simp add: put_back_def Let_def)
    with ih pb put_back_cons [OF pb _ one(3)] show ?thesis by (auto simp: put_back_def Let_def)
  qed
qed

section \<open>The index and the timers\<close>

lemma sat_u64_pos: "0 < n \<Longrightarrow> 0 < sat_u64 n"
  by (simp add: sat_u64_def)

lemma reindex_room:
  assumes "wf_owner (w_owner w)" "distinct (map (\<lambda>(k, t). (t, sk_encoded k)) xs)"
    and "\<forall>x \<in> set xs. (snd x, sk_encoded (fst x)) \<notin> fst ` set (w_index w)"
    and "efor (reindex W) xs (st, w) = Some ((st', w'), res)"
  shows "res = Ok () \<longleftrightarrow> room Retention (sum_list (map (\<lambda>x. index_charge (wh_layout W) (fst x)) xs)) (w_owner w) st"
  using assms
proof (induction xs arbitrary: st w)
  case Nil
  then show ?case by (simp add: eret_def)
next
  case (Cons x xs)
  obtain k t where x: "x = (k, t)" by fastforce
  let ?n = "index_charge (wh_layout W) k"
  have pos: "0 < ?n" unfolding index_charge_def by (rule sat_u64_pos) simp
  note granted = acquire_room [OF pos, of Retention "w_owner w" st]
  have none: "map_of (w_index w) (t, sk_encoded k) = None" using Cons.prems(3) x by (simp add: map_of_eq_None_iff)
  show ?case
  proof (cases "acquire Retention ?n (w_owner w) st")
    case (Inl e)
    then have "reindex W x (st, w) = Some ((st, w), Inl e)" by (simp add: x reindex_def indexed_def index_charge_def Let_def)
    then have "res = Inl e" using Cons.prems(4) by (simp add: ebind_step)
    then show ?thesis using granted Inl x room_add [of Retention ?n] by auto
  next
    case (Inr y)
    obtain st1 l where y: "y = (st1, l)" by fastforce
    let ?k = "(clone_key k)\<lparr>sk_index_lease := Some l\<rparr>"
    let ?w = "w\<lparr>w_index_bytes := sat_u64 (w_index_bytes w + index_bytes ?k), w_index := bt_put (t, sk_encoded k) ?k (w_index w)\<rparr>"
    have run: "reindex W x (st, w) = Some ((st1, ?w), Ok ())"
      using Inr y none by (simp add: x reindex_def indexed_def index_charge_def Let_def)
    have rest: "efor (reindex W) xs (st1, ?w) = Some ((st', w'), res)" using Cons.prems(4) run by (simp add: ebind_step(1) [of "reindex W x"])
    have new: "\<forall>y \<in> set xs. (snd y, sk_encoded (fst y)) \<notin> fst ` set (w_index ?w)"
    proof
      fix y assume y: "y \<in> set xs"
      have "(t, sk_encoded k) \<notin> (\<lambda>y. (snd y, sk_encoded (fst y))) ` set xs" using Cons.prems(2) by (simp add: x case_prod_unfold)
      moreover have "(snd y, sk_encoded (fst y)) \<in> (\<lambda>y. (snd y, sk_encoded (fst y))) ` set xs" using y by (rule imageI)
      ultimately have "(snd y, sk_encoded (fst y)) \<noteq> (t, sk_encoded k)" by (elim contrapos_nn) simp
      then show "(snd y, sk_encoded (fst y)) \<notin> fst ` set (w_index ?w)" using Cons.prems(3) y by (simp add: keys_bt_put)
    qed
    have "res = Ok () \<longleftrightarrow> room Retention (sum_list (map (\<lambda>x. index_charge (wh_layout W) (fst x)) xs)) (w_owner ?w) st1"
      by (rule Cons.IH [OF _ _ new rest]) (use Cons.prems(1,2) x in auto)
    then show ?thesis using room_acquired [OF Cons.prems(1) Inr [unfolded y] pos] x by simp
  qed
qed

lemma rebuild_room:
  assumes ok: "window_ok st w" and keys: "keys_built w" and empty: "w_index w = []" "w_index_bytes w = 0"
    and run: "rebuild_closed_index W (st, w) = Some ((st', w'), res)"
  shows "res = Ok () \<longleftrightarrow> room Retention (store_charge W w) (w_owner w) st"
proof (cases "w_store w")
  case (TumbleStore s)
  have same: "w\<lparr>w_index := [], w_index_bytes := 0\<rparr> = w" using empty by (cases w) simp
  let ?xs = "map (\<lambda>(_, e). (e_key e, te_end (e_value e))) (ms_entries s)"
  have loop: "efor (reindex W) ?xs (st, w) = Some ((st', w'), res)"
    using run empty TumbleStore by (simp add: rebuild_closed_index_def ebind_def eget_def same)
  have inv: "window_inv st w" using ok by (simp add: window_ok_def)
  have d: "distinct (map fst (ms_entries s))" using inv TumbleStore by (auto simp: window_inv_def store_ok_def index_inv_def ms_inv_def hm_inv_def)
  have "inj_on (\<lambda>x. (te_end (e_value (snd x)), sk_encoded (e_key (snd x)))) (set (ms_entries s))"
  proof (rule inj_onI)
    fix x y assume xy: "x \<in> set (ms_entries s)" "y \<in> set (ms_entries s)"
      "(te_end (e_value (snd x)), sk_encoded (e_key (snd x))) = (te_end (e_value (snd y)), sk_encoded (e_key (snd y)))"
    then have "fst x = fst y"
      using stored_key(1) [OF inv TumbleStore keys, of "fst x" "snd x"] stored_key(1) [OF inv TumbleStore keys, of "fst y" "snd y"] by simp
    with d xy(1,2) show "x = y" by (simp add: distinct_map inj_on_def)
  qed
  then have "distinct (map (\<lambda>(k, t). (t, sk_encoded k)) ?xs)"
    using d by (simp add: distinct_map comp_def case_prod_unfold)
  from reindex_room [OF _ this _ loop] have "res = Ok () \<longleftrightarrow> room Retention (sum_list (map (\<lambda>x. index_charge (wh_layout W) (fst x)) ?xs)) (w_owner w) st"
    using owner_wf [OF ok] empty by simp
  moreover have "sum_list (map (\<lambda>x. index_charge (wh_layout W) (fst x)) ?xs) = store_charge W w"
    using TumbleStore by (simp add: store_charge_def hm_sum_def comp_def case_prod_unfold)
  ultimately show ?thesis by simp
next
  case (CountStore s)
  then show ?thesis using run by (simp add: rebuild_closed_index_def ebind_def eget_def eret_def store_charge_def)
qed

text \<open>Timers: the queue is empty, so the places taken are the distinct window ends.\<close>

lemma schedule_window_room:
  assumes inv: "window_inv st w" and i: "is_i64 e" and run: "schedule_window e (st, w) = Some ((st', w'), res)"
  shows "res = Ok () \<longleftrightarrow> card (insert (timer_window (w_operator w) e) (dom (pending_at (w_timers w)))) \<le> bt_max (w_timers w)"
    "res = Ok () \<Longrightarrow> st' = st \<and> (\<exists>t. w' = w\<lparr>w_timers := t\<rparr>) \<and> bt_max (w_timers w') = bt_max (w_timers w) \<and>
       dom (pending_at (w_timers w')) = insert (timer_window (w_operator w) e) (dom (pending_at (w_timers w)))"
proof -
  let ?t = "w_timers w" and ?i = "timer_window (w_operator w) e"
  have t: "timers_inv ?t" "is_u64 (bt_max ?t)" "bt_operator ?t = w_operator w" using inv by (simp_all add: window_inv_def timers_ok_def)
  then have tab: "hm_inv (gens ?t)" "dom (map_of (gens ?t)) = dom (pending_at ?t)" "length (gens ?t) \<le> bt_max ?t"
    by (simp_all add: timers_inv_def table_ok_def pending_at_def)
  have card: "card (dom (pending_at ?t)) = length (gens ?t)"
    using tab(1) by (simp add: hm_inv_def dom_map_of_conv_image_fst distinct_card flip: tab(2) set_map)
  have op: "t_operator ?i = bt_operator ?t" using t(3) by (simp add: timer_window_def)
  have fin: "finite (dom (pending_at ?t))" by (simp add: finite_dom_map_of flip: tab(2))
  have free: "(map_of (gens ?t) ?i \<noteq> None \<or> length (gens ?t) < bt_max ?t) \<longleftrightarrow> card (insert ?i (dom (pending_at ?t))) \<le> bt_max ?t"
    using tab(2,3) card fin by (cases "?i \<in> dom (pending_at ?t)") (auto simp: insert_absorb domIff)
  show iff: "res = Ok () \<longleftrightarrow> card (insert ?i (dom (pending_at ?t))) \<le> bt_max ?t"
  proof (cases "map_of (gens ?t) ?i \<noteq> None \<or> length (gens ?t) < bt_max ?t")
    case True
    then show ?thesis using schedule_ok [OF t(1,2) op True, of e] run free by (auto simp: schedule_window_def)
  next
    case False
    then have "schedule ?i e ?t = Inl (with_retryable False (new_error ResourceExhausted))" using op by (auto simp: schedule_def)
    then show ?thesis using False free run by (auto simp: schedule_window_def)
  qed
  assume "res = Ok ()"
  with iff free have "map_of (gens ?t) ?i \<noteq> None \<or> length (gens ?t) < bt_max ?t" by simp
  from schedule_ok [OF t(1,2) op this, of e] obtain t' g where "schedule ?i e ?t = Ok (t', g)" "pending_at t' = (pending_at ?t)(?i \<mapsto> e)"
    "bt_max t' = bt_max ?t" by blast
  then show "st' = st \<and> (\<exists>t. w' = w\<lparr>w_timers := t\<rparr>) \<and> bt_max (w_timers w') = bt_max ?t \<and>
       dom (pending_at (w_timers w')) = insert ?i (dom (pending_at ?t))"
    using run by (auto simp: schedule_window_def)
qed

lemma schedule_all_room:
  assumes "window_inv st w" "list_all is_i64 es" "efor schedule_window es (st, w) = Some ((st', w'), res)"
  shows "res = Ok () \<longleftrightarrow> card (timer_window (w_operator w) ` set es \<union> dom (pending_at (w_timers w))) \<le> bt_max (w_timers w)"
  using assms
proof (induction es arbitrary: st w)
  case Nil
  have "length (gens (w_timers w)) \<le> bt_max (w_timers w)" "hm_inv (gens (w_timers w))" "dom (map_of (gens (w_timers w))) = dom (pending_at (w_timers w))"
    using Nil.prems(1) by (simp_all add: window_inv_def timers_ok_def timers_inv_def table_ok_def pending_at_def)
  then have "card (dom (pending_at (w_timers w))) \<le> bt_max (w_timers w)"
    using card_length [of "map fst (gens (w_timers w))"] by (metis dom_map_of_conv_image_fst le_trans length_map set_map)
  then show ?case using Nil.prems(3) by (simp add: eret_def)
next
  case (Cons e es)
  have i: "is_i64 e" using Cons.prems(2) by simp
  obtain w1 r where one: "schedule_window e (st, w) = Some ((st, w1), r)" "window_inv st w1"
    using schedule_window_ok [OF Cons.prems(1) i] by blast
  note room1 = schedule_window_room [OF Cons.prems(1) i one(1)]
  let ?D = "dom (pending_at (w_timers w))" and ?ids = "timer_window (w_operator w) ` set (e # es) \<union> dom (pending_at (w_timers w))"
  have fin: "finite ?ids" by (simp add: pending_at_def finite_dom_map_of)
  show ?case
  proof (cases r)
    case (Inl x)
    then have "res = Inl x" using Cons.prems(3) one(1) by (simp add: ebind_step)
    moreover have "card (insert (timer_window (w_operator w) e) ?D) \<le> card ?ids" using fin by (intro card_mono) auto
    ultimately show ?thesis using room1(1) Inl by simp
  next
    case (Inr u)
    then have "r = Ok ()" by simp
    from room1(2) [OF this] obtain t where w1: "w1 = w\<lparr>w_timers := t\<rparr>" "bt_max (w_timers w1) = bt_max (w_timers w)"
      "dom (pending_at (w_timers w1)) = insert (timer_window (w_operator w) e) ?D" by blast
    have rest: "efor schedule_window es (st, w1) = Some ((st', w'), res)"
      using Cons.prems(3) one(1) Inr by (simp add: ebind_step(1) [of "schedule_window e"])
    have op: "w_operator w1 = w_operator w" by (simp add: w1(1))
    show ?thesis using Cons.IH [OF one(2) _ rest] Cons.prems(2) by (simp add: op w1(2,3))
  qed
qed

lemma restore_timers_room:
  assumes ok: "window_ok st w" and keys: "keys_built w" and none: "pending_at (w_timers w) = Map.empty"
    and run: "restore_timers (st, w) = Some ((st', w'), res)"
  shows "res = Ok () \<longleftrightarrow> (is_tumble (w_store w) \<and> \<not> uses_event_time (ws_kind (w_spec w)) \<longrightarrow> card (te_end ` ran (windows w)) \<le> bt_max (w_timers w))"
proof (cases "uses_event_time (ws_kind (w_spec w)) \<or> \<not> is_tumble (w_store w)")
  case True
  then have "restore_timers (st, w) = Some ((st, w), Ok ())" by (cases "w_store w") (auto simp: restore_timers_def)
  then show ?thesis using True run by auto
next
  case False
  then obtain s where s: "w_store w = TumbleStore s" by (cases "w_store w") auto
  have inv: "window_inv st w" using ok by (simp add: window_ok_def)
  let ?ends = "map (\<lambda>(_, e). te_end (e_value e)) (ms_entries s)"
  have stored: "map_of (ms_entries s) (w_operator w, window_slot, sk_encoded (e_key e)) = Some e" if "(i, e) \<in> set (ms_entries s)" for i e
    using stored_key [OF inv s keys that] by simp
  have ends: "list_all is_i64 ?ends" using windows_ends [OF inv s stored] by (fastforce simp: list_all_iff)
  have "te_end (e_value e) \<in> te_end ` ran (windows w)" if "(i, e) \<in> set (ms_entries s)" for i e
    using stored [OF that] s by (intro imageI ranI [of _ "sk_encoded (e_key e)"]) (simp add: windows_def)
  moreover have "te_end v \<in> set ?ends" if "windows w enc = Some v" for enc v
    using that s by (force simp: windows_def dest: map_of_SomeD)
  ultimately have same: "set ?ends = te_end ` ran (windows w)" by (auto simp: ran_def)
  have "inj_on (timer_window (w_operator w)) (set ?ends)"
    by (rule inj_onI, subst (asm) timer_window_inject) (use ends in \<open>simp_all only: list_all_iff\<close>)
  then have "card (timer_window (w_operator w) ` set ?ends) = card (set ?ends)" by (rule card_image)
  moreover have "efor schedule_window ?ends (st, w) = Some ((st', w'), res)" using run False s by (simp add: restore_timers_def)
  ultimately show ?thesis using schedule_all_room [OF inv ends] False by (simp add: none flip: same)
qed

section \<open>The whole restore\<close>

lemma frozen_ends:
  assumes "distinct (map (\<lambda>e. key_encoding (fz_key e)) es)"
  shows "te_end ` ran (frozen_windows es) = set (map fz_end es)"
  unfolding frozen_windows_def using assms by (subst ran_distinct) (auto simp: comp_def image_iff)

lemma restore_tail_room:
  assumes ok: "window_ok st w" and r: "restored (wf_entries f) w" and none: "pending_at (w_timers w) = Map.empty"
    and run: "ebind (emodify (restore_watermarks f)) (\<lambda>_. ebind (rebuild_closed_index W) (\<lambda>_. restore_timers)) (st, w) = Some ((st', w'), res)"
  shows "res = Ok () \<longleftrightarrow> room Retention (store_charge W w) (w_owner w) st \<and>
    (is_tumble (w_store w) \<and> \<not> uses_event_time (ws_kind (w_spec w)) \<longrightarrow> length (remdups (map fz_end (wf_entries f))) \<le> bt_max (w_timers w))"
proof -
  let ?w = "restore_watermarks f w"
  have w: "w_store ?w = w_store w" "w_spec ?w = w_spec w" "w_owner ?w = w_owner w" "w_timers ?w = w_timers w" "windows ?w = windows w"
    "store_charge W ?w = store_charge W w"
    by (simp_all add: restore_watermarks_def store_charge_def)
  have ok1: "window_ok st ?w" "keys_built ?w" "w_index ?w = []" "w_index_bytes ?w = 0"
    using ok r by (simp_all add: restore_watermarks_def window_ok_def kind_ok_def restored_def keys_built_def)
  from rebuild_ok [OF ok1] obtain st1 w1 r1 where one: "rebuild_closed_index W (st, ?w) = Some ((st1, w1), r1)" "window_ok st1 w1"
    "cfg w1 = cfg ?w" "r1 = Ok () \<Longrightarrow> \<exists>K. indexed_as K ?w w1" by (rule step_okE) blast
  note room1 = rebuild_room [OF ok1 one(1), unfolded w]
  have go: "ebind (rebuild_closed_index W) (\<lambda>_. restore_timers) (st, ?w) = Some ((st', w'), res)" using run by simp
  show ?thesis
  proof (cases r1)
    case (Inl x)
    then have "res = Inl x" using go one(1) by (simp add: ebind_step)
    then show ?thesis using room1 Inl by simp
  next
    case (Inr u)
    then have r1: "r1 = Ok ()" by simp
    from one(4) [OF r1] obtain K where K: "indexed_as K ?w w1" ..
    note d = indexed_asD [OF K, unfolded w]
    have last: "restore_timers (st1, w1) = Some ((st', w'), res)" using go one(1) Inr by (simp add: ebind_step(1) [of "rebuild_closed_index W"])
    have keys: "keys_built w1" using d ok1(2) by simp
    have spec: "w_spec w1 = w_spec w" using cfgD(2) [OF one(3)] w by simp
    have none1: "pending_at (w_timers w1) = Map.empty" using d none by simp
    note room2 = restore_timers_room [OF one(2) keys none1 last]
    have "te_end ` ran (windows w1) = set (map fz_end (wf_entries f))" if "is_tumble (w_store w)"
      using d r that frozen_ends [of "wf_entries f"] by (simp add: restored_def)
    then show ?thesis using room1 room2 r1 d spec by (auto simp: length_remdups_card_conv)
  qed
qed

lemma restore_body_room:
  assumes ok: "window_ok st w" and clean: "window_cleanup (st, w) = Some ((st1, w1), Ok ())"
    and i: "list_all (\<lambda>e. is_i64 (fz_end e)) (wf_entries f)" and d: "distinct (map (\<lambda>e. key_encoding (fz_key e)) (wf_entries f))"
    and run: "ebind (efor (restore_entry W) (wf_entries f)) (\<lambda>_.
       ebind (emodify (restore_watermarks f)) (\<lambda>_. ebind (rebuild_closed_index W) (\<lambda>_. restore_timers))) (st1, w1) = Some ((st', w'), res)"
  shows "res = Ok () \<longleftrightarrow> length (wf_entries f) \<le> window_max_state_keys w \<and>
    room Retention (put_sum W w (wf_entries f) + index_sum W w (wf_entries f)) (w_owner w) st1 \<and>
    (is_tumble (w_store w) \<and> \<not> uses_event_time (ws_kind (w_spec w)) \<longrightarrow> length (remdups (map fz_end (wf_entries f))) \<le> bt_max (w_timers w))"
proof -
  let ?es = "wf_entries f"
  from cleanup_ok [OF ok] clean have c: "window_ok st1 w1" "cfg w1 = cfg w" "windows w1 = Map.empty" "counts w1 = Map.empty" "window_key_count w1 = 0"
    by (metis Pair_inject option.inject)+
  have shape: "w_index w1 = []" "w_index_bytes w1 = 0" "w_timers w1 = cancel_all (w_timers w)" "is_tumble (w_store w1) = is_tumble (w_store w)"
    "window_max_state_keys w1 = window_max_state_keys w"
    using clean by (auto simp: window_cleanup_def drop_store_def Let_def window_max_state_keys_def ms_clear_def split: prod.splits window_store.splits)
  have r: "restored [] w1" using c shape by (simp add: restored_cleanup)
  have zero: "store_charge W w1 = 0"
    using c(5) by (auto simp: store_charge_def window_key_count_def ms_len_def hm_sum_def split: window_store.splits)
  have timers: "pending_at (w_timers w1) = Map.empty" "bt_max (w_timers w1) = bt_max (w_timers w)"
    by (simp_all add: shape cancel_all_def pending_at_def)
  note c1 = cfgD [OF c(2)] and same = charge_operator [OF cfgD(1) [OF c(2)], of W]
  from restore_entries [OF c(1) r i, of W] obtain st2 w2 r2 where two: "efor (restore_entry W) ?es (st1, w1) = Some ((st2, w2), r2)" "window_ok st2 w2"
    "cfg w2 = cfg w1" "r2 = Ok () \<Longrightarrow> restored ?es w2 \<and> w_timers w2 = w_timers w1" by (auto elim: step_okE)
  have room1: "(r2 = Ok () \<longleftrightarrow> length ?es \<le> window_max_state_keys w \<and> room Retention (put_sum W w ?es) (w_owner w) st1) \<and>
    (r2 = Ok () \<longrightarrow> put_back W ?es (st1, w1) (st2, w2))"
    using restore_entries_room [OF c(1) r i _ two(1)] d c(5) c1 same(1) shape(5) by simp
  show ?thesis
  proof (cases r2)
    case (Inl x)
    then have "res = Inl x" using run two(1) by (simp add: ebind_step)
    then show ?thesis using room1 Inl room_add [of Retention "put_sum W w ?es"] by auto
  next
    case (Inr u)
    then have r2: "r2 = Ok ()" by simp
    have tail: "ebind (emodify (restore_watermarks f)) (\<lambda>_. ebind (rebuild_closed_index W) (\<lambda>_. restore_timers)) (st2, w2) = Some ((st', w'), res)"
      using run two(1) Inr by (simp add: ebind_step(1) [of "efor (restore_entry W) ?es"])
    have pb: "put_back W ?es (st1, w1) (st2, w2)" using room1 r2 by blast
    note c2 = cfgD [OF two(3)] and e = two(4) [OF r2]
    have none2: "pending_at (w_timers w2) = Map.empty" using e timers by simp
    have "store_charge W w2 = index_sum W w ?es" "room Retention m (w_owner w2) st2 = room Retention (put_sum W w ?es + m) (w_owner w) st1"
      "is_tumble (w_store w2) = is_tumble (w_store w)" for m
      using pb zero same shape(4) c1 c2 by (simp_all add: put_back_def Let_def)
    then show ?thesis
      using restore_tail_room [OF two(2) _ none2 tail] e room1 r2 timers c1 c2 by simp
  qed
qed

lemma restore_room:
  assumes ok: "window_ok st w" and i: "list_all (\<lambda>e. is_i64 (fz_end e)) (wf_entries f)"
    and f: "wf_operator f = w_operator w" "wf_slot f = window_slot" "wf_kind f = store_kind w" "distinct (map (\<lambda>e. key_encoding (fz_key e)) (wf_entries f))"
    and run: "restore_freeze_inner W f (st, w) = Some ((st', w'), res)"
  shows "res = Ok () \<longleftrightarrow> restore_fits W f st w"
proof -
  let ?body = "ebind window_cleanup (\<lambda>_. ebind (efor (restore_entry W) (wf_entries f)) (\<lambda>_.
    ebind (emodify (restore_watermarks f)) (\<lambda>_. ebind (rebuild_closed_index W) (\<lambda>_. restore_timers))))"
  have go: "escratch (restore_scratch_bytes W f) (w_owner w) ?body (st, w) = Some ((st', w'), res)" using run f by (simp add: restore_freeze_inner_def)
  show ?thesis
  proof (cases "acquire Reservation (restore_scratch_bytes W f) (w_owner w) st")
    case (Inl e)
    then show ?thesis using go by (auto simp: escratch_def eacquire_def ebind_def restore_fits_def)
  next
    case (Inr x)
    obtain st1 l where x: "x = (st1, l)" by fastforce
    have ok1: "window_ok st1 w" using window_inv_store [OF ok] reservation_keeps_retention(1) [OF owner_wf [OF ok] Inr [unfolded x]] by simp
    have "eacquire Reservation (restore_scratch_bytes W f) (w_owner w) (st, w) = Some ((st1, w), Ok l)" by (simp add: eacquire_def Inr x)
    then have "escratch (restore_scratch_bytes W f) (w_owner w) ?body (st, w) = escoped l ?body (st1, w)"
      unfolding escratch_def by (rule ebind_step)
    then obtain st3 w3 where body: "?body (st1, w) = Some ((st3, w3), res)" using go by (auto simp: escoped_def split: option.splits)
    obtain st2 w2 where c: "window_cleanup (st1, w) = Some ((st2, w2), Ok ())" by (rule cleanup_ok [OF ok1])
    with body have "ebind (efor (restore_entry W) (wf_entries f)) (\<lambda>_.
      ebind (emodify (restore_watermarks f)) (\<lambda>_. ebind (rebuild_closed_index W) (\<lambda>_. restore_timers))) (st2, w2) = Some ((st3, w3), res)"
      by (simp add: ebind_step(1) [of window_cleanup])
    from restore_body_room [OF ok1 c i f(4) this] show ?thesis by (simp add: restore_fits_def Inr x c)
  qed
qed

lemma live_decodes:
  assumes inv: "window_inv st w" and keys: "keys_built w" and w: "list_all (entry_fits (accumulator_codec w)) (live_entries w)" "w_operator w \<le> u32_max"
      "pred_option is_i64 (window_wm_in w)" "pred_option is_i64 (window_wm_out w)" "pred_option is_i64 (last_effective (w_hub w))"
    and enc: "encode_freeze_into_codec mx (accumulator_codec w) (st, w) = Some ((st1, w), Ok b)"
  shows "decode_freeze_metered_pt L sz mx True None (accumulator_codec w) b = Ok (freeze w, freeze_resident L sz (freeze w), [])"
proof -
  have check: "check_freeze_encode_bound w mx = Ok ()"
    using enc by (cases "check_freeze_encode_bound w mx") (simp_all add: encode_freeze_into_codec_def)
  have fits: "freeze_fits (accumulator_codec w) mx (freeze w)" by (rule live_fits [OF check w])
  have "encode_freeze_codec (accumulator_codec w) mx (freeze w) = Ok b" using encode_freeze_into_ok [OF inv keys, of mx] enc by auto
  then have "b = freeze_bytes (freeze w)" using encode_freeze_fits [OF fits] by simp
  then show ?thesis using decode_freeze_bytes [OF fits, of None L sz "[]"] by (simp add: pt_violation_def list_all_iff)
qed

section \<open>Properties\<close>

text \<open>
  C9: A window checkpoint restores the state it was taken from. Take an operator whose stored keys
  were built by \<^verbatim>\<open>StateKey::new\<close> and whose entries have at most 64 key columns and 64 accumulators,
  the bounds of the decoder. What its live encoding writes decodes to its freeze. Restoring that
  freeze into an operator of the same configuration, whatever state it is in, never panics, keeps
  the invariant and the ledger, and succeeds exactly when the owner and its ancestors have the
  scratch space and, with the old state dropped, the retention for every entry and its index key,
  the store has a key slot per entry and the timer queue a place per distinct window end;
  otherwise it stops with a quota error. After a success the operator has exactly the windows and
  counts of the original, every window is indexed, in processing time every window has its timer,
  the last effective watermark is the original's, and so are the input and output watermarks of
  an operator that keeps them (one with an output holdback).
\<close>

theorem window_checkpoint_roundtrip:
  assumes w: "window_ok st w" "keys_built w" "list_all (entry_fits (accumulator_codec w)) (live_entries w)" "w_operator w \<le> u32_max"
      "pred_option is_i64 (window_wm_in w)" "pred_option is_i64 (window_wm_out w)" "pred_option is_i64 (last_effective (w_hub w))"
    and enc: "encode_freeze_into_codec mx (accumulator_codec w) (st, w) = Some ((st1, w), Ok b)"
    and w2: "window_ok st2 w2" "cfg w2 = cfg w"
  shows "\<exists>f n. decode_freeze_metered_pt L sz mx True None (accumulator_codec w) b = Ok (f, n, []) \<and>
    (\<exists>st3 w3 r. restore_freeze_inner W f (st2, w2) = Some ((st3, w3), r) \<and> window_ok st3 w3 \<and> cfg w3 = cfg w \<and>
      (case r of
         Inl e \<Rightarrow> \<not> restore_fits W f st2 w2 \<and> quota_refusal e
       | Inr _ \<Rightarrow> restore_fits W f st2 w2 \<and> windows w3 = windows w \<and> counts w3 = counts w \<and> all_indexed w3 \<and>
           (\<not> uses_event_time (ws_kind (w_spec w)) \<longrightarrow> all_timed w3) \<and> last_effective (w_hub w3) = last_effective (w_hub w) \<and>
           (w_holdback w3 \<noteq> None \<longrightarrow> window_wm_in w3 = window_wm_in w \<and> window_wm_out w3 = window_wm_out w)))"
proof -
  let ?c = "accumulator_codec w" and ?f = "freeze w"
  have inv: "window_inv st w" using w(1) by (simp add: window_ok_def)
  note dec = live_decodes [OF inv w(2-7) enc]
  note fs = freeze_state [OF inv w(2)] and c2 = cfgD [OF w2(2)]
  have kind: "is_tumble (w_store w2) = is_tumble (w_store w)" using w(1) w2(1) c2 by (simp add: window_ok_def kind_ok_def)
  have f: "wf_operator ?f = w_operator w2" "wf_slot ?f = window_slot" "wf_kind ?f = store_kind w2"
    using c2 kind by (simp_all add: freeze_def store_kind_def)
  obtain st3 w3 r where r: "restore_freeze_inner W ?f (st2, w2) = Some ((st3, w3), r)" "window_ok st3 w3" "cfg w3 = cfg w2"
    "r = Ok () \<Longrightarrow> restored_from ?f w3" using restore_ok [OF w2(1) fs(2), of W] by (rule step_okE) blast
  have ref: "refuses st2 w2 (restore_freeze_inner W ?f)" by (rule refuses_restore [OF w2(1) fs(2) f fs(1)])
  have fit: "r = Ok () \<longleftrightarrow> restore_fits W ?f st2 w2" by (rule restore_room [OF w2(1) fs(2) f fs(1) r(1)])
  note c3 = cfgD [OF r(3)]
  have kind3: "is_tumble (w_store w3) = is_tumble (w_store w)" using w(1) r(2) c2 c3 by (simp add: window_ok_def kind_ok_def)
  have wm: "wf_wm_in ?f = window_wm_in w" "wf_wm_out ?f = window_wm_out w" "wf_last_effective ?f = last_effective (w_hub w)"
    by (simp_all add: freeze_def)
  have other: "is_tumble (w_store w3) \<Longrightarrow> counts w3 = Map.empty" "\<not> is_tumble (w_store w3) \<Longrightarrow> windows w3 = Map.empty"
    by (cases "w_store w3"; simp add: counts_def windows_def fun_eq_iff)+
  have good: "windows w3 = windows w \<and> counts w3 = counts w \<and> all_indexed w3 \<and>
      (\<not> uses_event_time (ws_kind (w_spec w)) \<longrightarrow> all_timed w3) \<and> last_effective (w_hub w3) = last_effective (w_hub w) \<and>
      (w_holdback w3 \<noteq> None \<longrightarrow> window_wm_in w3 = window_wm_in w \<and> window_wm_out w3 = window_wm_out w)" if "r = Ok ()"
    using r(4) [OF that] fs(3-6) kind3 other c2 c3 unfolding restored_from_def wm by (cases "is_tumble (w_store w)") simp_all
  show ?thesis
    using dec r(1-3) ref good fit w2(2) by (cases r) (auto simp: refuses_def)
qed

lemma demo_live_cost:
  "restore_scratch_bytes demo_window_host (freeze demo_live) \<le> 4096" "0 < restore_scratch_bytes demo_window_host (freeze demo_live)"
  "put_sum demo_window_host demo_live (wf_entries (freeze demo_live)) + index_sum demo_window_host demo_live (wf_entries (freeze demo_live)) \<le> 4096"
  by (simp_all add: restore_scratch_bytes_def freeze_def demo_live_frozen demo_window_host_def accs_bytes_def acc_tracked_bytes_def acc_base_bytes_def
      entry_put_bytes_def entry_index_bytes_def put_bytes_def index_charge_def key_tracked_bytes_def window_key_def state_key_new_def
      resident_bytes_def resident_heap_bytes_def sat_u64_def layout.defs key_encoding_def)

lemma demo_live_room: "restore_fits demo_window_host (freeze demo_live) demo_counters demo_live"
proof -
  let ?f = "freeze demo_live" and ?n = "restore_scratch_bytes demo_window_host (freeze demo_live)"
  have d: "w_owner demo_live = demo_root" "window_retention_bytes demo_live = 900" "window_max_state_keys demo_live = 4"
    "bt_max (w_timers demo_live) = 4"
    by (simp_all add: demo_live_def window_retention_bytes_def window_max_state_keys_def is_u64_def)
  have e: "map fz_end (wf_entries ?f) = [20]" "length (wf_entries ?f) = 1" by (simp_all add: freeze_def demo_live_frozen)
  have "room Reservation ?n demo_root demo_counters"
    using demo_live_cost(1,2) by (simp add: room_def ensure_headroom_def demo_root_def demo_counters_def counters_new_def budget_compact_def sat_u64_def)
  then obtain st1 l where acq: "acquire Reservation ?n demo_root demo_counters = Ok (st1, l)"
    using acquire_room [OF demo_live_cost(2), of Reservation demo_root demo_counters] by (cases "acquire Reservation ?n demo_root demo_counters") auto
  have wf: "wf_owner demo_root" using owner_wf [OF demo_live_ok(1)] by (simp add: d)
  have keep: "retention demo_root st1 = 900" using reservation_keeps_retention(1) [OF wf acq] by (simp add: retention_def demo_root_def demo_counters_def)
  have "window_ok st1 demo_live" using window_inv_store [OF demo_live_ok(1)] reservation_keeps_retention(1) [OF wf acq] d by simp
  then obtain st2 w2 where c: "window_cleanup (st1, demo_live) = Some ((st2, w2), Ok ())" "retention demo_root st2 + 900 = retention demo_root st1"
    by (rule cleanup_ok) (simp add: d)
  have "room Retention (put_sum demo_window_host demo_live (wf_entries ?f) + index_sum demo_window_host demo_live (wf_entries ?f)) demo_root st2"
    using demo_live_cost(3) c(2) keep by (simp add: room_def ensure_headroom_def retention_def demo_root_def budget_compact_def sat_u64_def)
  then show ?thesis unfolding restore_fits_def d acq c sum.case prod.case option.case by (simp add: d e)
qed

lemma demo_live_decodes:
  assumes "encode_freeze_into_codec 4 CodecWindow (demo_counters, demo_live) = Some ((st1, demo_live), Ok b)"
  shows "\<exists>n. decode_freeze_metered_pt L sz 4 True None CodecWindow b = Ok (freeze demo_live, n, [])"
proof -
  have wm: "pred_option is_i64 (window_wm_in demo_live)" "pred_option is_i64 (window_wm_out demo_live)"
    "pred_option is_i64 (last_effective (w_hub demo_live))" by (simp_all add: demo_live_frozen)
  have "window_inv demo_counters demo_live" using demo_live_ok(1) by (simp add: window_ok_def)
  note dec = live_decodes [OF this demo_live_frozen(1) _ demo_live_frozen(3) wm, unfolded demo_live_frozen(2), OF demo_live_fits assms]
  then show ?thesis by blast
qed

theorem window_checkpoint_roundtrip_witness:
  "\<exists>st1 b f n st3 w3. encode_freeze_into_codec 4 CodecWindow (demo_counters, demo_live) = Some ((st1, demo_live), Ok b) \<and>
     decode_freeze_metered_pt \<lparr>size_of_scalar = 24, size_of_dynamic = 24, size_of_pair = 40\<rparr> 72 4 True None CodecWindow b = Ok (f, n, []) \<and>
     restore_freeze_inner demo_window_host f (demo_counters, demo_live) = Some ((st3, w3), Ok ()) \<and> windows w3 = windows demo_live"
proof -
  obtain st1 b where enc: "encode_freeze_into_codec 4 CodecWindow (demo_counters, demo_live) = Some ((st1, demo_live), Ok b)"
    using demo_live_encodes by blast
  have wm: "pred_option is_i64 (window_wm_in demo_live)" "pred_option is_i64 (window_wm_out demo_live)"
    "pred_option is_i64 (last_effective (w_hub demo_live))" by (simp_all add: demo_live_frozen)
  let ?L = "\<lparr>size_of_scalar = 24, size_of_dynamic = 24, size_of_pair = 40\<rparr>"
  note rt = window_checkpoint_roundtrip [OF demo_live_ok(1) demo_live_frozen(1) _ demo_live_frozen(3) wm _ demo_live_ok(1) refl,
      unfolded demo_live_frozen(2), OF demo_live_fits enc, of ?L 72 demo_window_host]
  then obtain f n st3 w3 r where x: "decode_freeze_metered_pt ?L 72 4 True None CodecWindow b = Ok (f, n, [])"
    "restore_freeze_inner demo_window_host f (demo_counters, demo_live) = Some ((st3, w3), r)"
    "case r of Inl e \<Rightarrow> \<not> restore_fits demo_window_host f demo_counters demo_live \<and> quota_refusal e
       | Inr _ \<Rightarrow> restore_fits demo_window_host f demo_counters demo_live \<and> windows w3 = windows demo_live \<and> counts w3 = counts demo_live \<and> all_indexed w3 \<and>
       (\<not> uses_event_time (ws_kind (w_spec demo_live)) \<longrightarrow> all_timed w3) \<and> last_effective (w_hub w3) = last_effective (w_hub demo_live) \<and>
       (w_holdback w3 \<noteq> None \<longrightarrow> window_wm_in w3 = window_wm_in demo_live \<and> window_wm_out w3 = window_wm_out demo_live)" by blast
  have "f = freeze demo_live" using demo_live_decodes [OF enc, of ?L 72] x(1) by auto
  then have "r = Ok ()" "windows w3 = windows demo_live" using x(3) demo_live_room by (cases r; simp)+
  with enc x(1,2) show ?thesis by blast
qed

end
