(* ===== verification/Checkpoint_Codec.thy ===== *)
theory Checkpoint_Codec
  imports Freeze_Codec Memory
begin

unbundle bit_operations_syntax

text \<open>
  The bytes of a checkpoint: the checksum, the manifest and the \<^verbatim>\<open>SPV1\<close> snapshot of
  \<^verbatim>\<open>sparrow-runtime/src/checkpoint.rs\<close>, with the source position of \<^verbatim>\<open>sparrow-io/src/replay.rs\<close>
  and the plan layout and state semantics of \<^verbatim>\<open>sparrow-plan\<close> (\<^verbatim>\<open>compat.rs\<close>, \<^verbatim>\<open>canonical.rs\<close>).
\<close>

section \<open>Checksum\<close>

type_synonym u32 = "32 word"

definition crc_poly :: u32 where "crc_poly = 0xedb88320"

definition crc_shift :: "u32 \<Rightarrow> u32" where
  "crc_shift crc = drop_bit 1 crc XOR (crc_poly AND (- (crc AND 1)))"

definition crc32_table :: "u8 \<Rightarrow> u32" where
  "crc32_table i = (crc_shift ^^ 8) (ucast i)"

definition crc_byte :: "u32 \<Rightarrow> u8 \<Rightarrow> u32" where
  "crc_byte crc b = drop_bit 8 crc XOR crc32_table (ucast (crc XOR ucast b))"

definition crc32 :: "bytes \<Rightarrow> u32" where
  "crc32 data = NOT (foldl crc_byte 0xffffffff data)"

definition crc_le :: "u32 \<Rightarrow> bytes" where
  "crc_le c = u32_le (unat c)"

section \<open>Manifest\<close>

record manifest =
  m_checkpoint_id :: nat
  m_n_chunks :: nat
  m_bytes :: nat
  m_checksums :: "u32 list"
  m_codec_version :: nat

definition manifest_magic :: bytes where "manifest_magic = str_bytes ''MAN2''"
definition manifest_version :: nat where "manifest_version = 1"
definition max_manifest_bytes :: nat where "max_manifest_bytes = 262144"
definition max_manifest_chunks :: nat where "max_manifest_chunks = 4096"
definition chunk_size :: nat where "chunk_size = 4096"

definition manifest_encode :: "manifest \<Rightarrow> bytes" where
  "manifest_encode m = manifest_magic @ u16_le (m_codec_version m) @ u64_le (m_checkpoint_id m) @ u32_le (m_n_chunks m)
     @ u64_le (m_bytes m) @ u32_le (length (m_checksums m)) @ concat (map crc_le (m_checksums m))"

fun read_checksums :: "nat \<Rightarrow> bytes \<Rightarrow> u32 list \<times> bytes" where
  "read_checksums 0 s = ([], s)"
| "read_checksums (Suc n) s = (case read_checksums n (drop 4 s) of (cs, rest) \<Rightarrow> (word_of_nat (from_le_bytes (take 4 s)) # cs, rest))"

definition manifest_decode :: "bytes \<Rightarrow> manifest result" where
  "manifest_decode b =
     (if length b < 30 \<or> take 4 b \<noteq> manifest_magic then Err CodecViolation
      else if from_le_bytes (take 2 (drop 4 b)) \<noteq> manifest_version then Err FeatureUnavailable
      else let chk = from_le_bytes (take 8 (drop 6 b));
               n_chunks = from_le_bytes (take 4 (drop 14 b));
               nbytes = from_le_bytes (take 8 (drop 18 b));
               nsum = from_le_bytes (take 4 (drop 26 b));
               s = drop 30 b
           in if n_chunks > max_manifest_chunks \<or> nsum > max_manifest_chunks then Err BoundExceeded
              else if nbytes > max_snapshot_bytes then Err BoundExceeded
              else if nsum \<noteq> n_chunks then Err CodecViolation
              else if length s < nsum * 4 then Err CodecViolation
              else case read_checksums nsum s of (cs, rest) \<Rightarrow>
                if rest \<noteq> [] then Err CodecViolation
                else Ok \<lparr>m_checkpoint_id = chk, m_n_chunks = n_chunks, m_bytes = nbytes, m_checksums = cs,
                         m_codec_version = manifest_version\<rparr>)"

section \<open>Strings and positions\<close>

definition encode_str :: "string \<Rightarrow> bytes" where
  "encode_str s = u32_le (length s) @ str_bytes s"

definition decode_str :: "bytes \<Rightarrow> (string \<times> bytes) result" where
  "decode_str src =
     (if length src < 4 then Err CodecViolation
      else let n = from_le_bytes (take 4 src); s1 = drop 4 src in
        if length s1 < n then Err CodecViolation
        else if \<not> valid_utf8 (take n s1) then Err CodecViolation
        else Ok (bytes_str (take n s1), drop n s1))"

record source_identity =
  si_kind :: string
  si_path :: string
  si_size :: nat
  si_fingerprint :: nat

record source_position =
  sp_offset_bytes :: nat
  sp_record_index :: nat
  sp_identity :: source_identity

definition encode_position :: "source_position \<Rightarrow> bytes" where
  "encode_position p = u64_le (sp_offset_bytes p) @ u64_le (sp_record_index p) @ encode_str (si_kind (sp_identity p))
     @ encode_str (si_path (sp_identity p)) @ u64_le (si_size (sp_identity p)) @ u64_le (si_fingerprint (sp_identity p))"

definition decode_position :: "bytes \<Rightarrow> (source_position \<times> bytes) result" where
  "decode_position src =
     (if length src < 16 then Err CodecViolation
      else rbind (decode_str (drop 16 src)) (\<lambda>(kind, s1).
        rbind (decode_str s1) (\<lambda>(path, s2).
          if length s2 < 16 then Err CodecViolation
          else Ok (\<lparr>sp_offset_bytes = from_le_bytes (take 8 src), sp_record_index = from_le_bytes (take 8 (drop 8 src)),
                    sp_identity = \<lparr>si_kind = kind, si_path = path, si_size = from_le_bytes (take 8 s2),
                                   si_fingerprint = from_le_bytes (take 8 (drop 8 s2))\<rparr>\<rparr>, drop 16 s2))))"

section \<open>State semantics\<close>

record state_semantics =
  ss_window :: bytes
  ss_predicate :: bytes
  ss_input :: bytes
  ss_upstream :: bytes

definition max_state_semantics_bytes :: nat where "max_state_semantics_bytes = 65536"
definition semantics_magic :: bytes where "semantics_magic = str_bytes ''SS02''"

definition ss_parts :: "state_semantics \<Rightarrow> bytes list" where
  "ss_parts s = [ss_window s, ss_predicate s, ss_input s, ss_upstream s]"

definition has_input_schema :: "state_semantics \<Rightarrow> bool" where
  "has_input_schema s \<longleftrightarrow> ss_input s \<noteq> []"

definition writer_raw :: "bytes \<Rightarrow> bytes \<Rightarrow> bytes result" where
  "writer_raw b w = (if sat_u64 (length w + length b) > max_state_semantics_bytes then Err BoundExceeded else Ok (w @ b))"

definition writer_len :: "nat \<Rightarrow> bytes \<Rightarrow> bytes result" where
  "writer_len n w = (if n > max_state_semantics_bytes then Err BoundExceeded else writer_raw (u32_le n) w)"

definition writer_bytes :: "bytes \<Rightarrow> bytes \<Rightarrow> bytes result" where
  "writer_bytes b w = rbind (writer_len (length b) w) (writer_raw b)"

definition ss_check_size :: "state_semantics \<Rightarrow> unit result" where
  "ss_check_size s = (if sum_list (map length (ss_parts s)) + 20 > max_state_semantics_bytes then Err BoundExceeded else Ok ())"

fun write_parts :: "bytes list \<Rightarrow> bytes \<Rightarrow> bytes result" where
  "write_parts [] w = Ok w"
| "write_parts (p # ps) w = rbind (writer_bytes p w) (write_parts ps)"

definition ss_encode :: "state_semantics \<Rightarrow> bytes result" where
  "ss_encode s = rbind (ss_check_size s) (\<lambda>_. rbind (writer_raw semantics_magic []) (write_parts (ss_parts s)))"

definition read_part :: "bytes \<Rightarrow> (bytes \<times> bytes) result" where
  "read_part b =
     (if length b < 4 then Err CodecViolation
      else let n = from_le_bytes (take 4 b); r = drop 4 b in
        if length r < n then Err CodecViolation else Ok (take n r, drop n r))"

definition ss_decode :: "bytes \<Rightarrow> state_semantics result" where
  "ss_decode b =
     (if length b > max_state_semantics_bytes \<or> take 4 b \<noteq> semantics_magic then Err CodecViolation
      else rbind (read_part (drop 4 b)) (\<lambda>(p0, b1).
        rbind (read_part b1) (\<lambda>(p1, b2).
        rbind (read_part b2) (\<lambda>(p2, b3).
        rbind (read_part b3) (\<lambda>(p3, rest).
          if rest \<noteq> [] \<or> p0 = [] \<or> p1 = [] then Err CodecViolation
          else Ok \<lparr>ss_window = p0, ss_predicate = p1, ss_input = p2, ss_upstream = p3\<rparr>)))))"

section \<open>Plan layouts\<close>

record plan_layout =
  pl_operator :: nat
  pl_slot :: nat
  pl_window_kind :: u8
  pl_keys :: "string list"
  pl_aggs :: "string list"
  pl_event_time_field :: "string option"
  pl_lateness_micros :: int
  pl_where_fingerprint :: nat
  pl_table_name :: "string option"
  pl_table_revision :: "nat option"
  pl_window_params_fingerprint :: nat
  pl_semantics :: "state_semantics option"

definition encode_opt_str :: "string option \<Rightarrow> bytes" where
  "encode_opt_str v = (case v of None \<Rightarrow> [0] | Some s \<Rightarrow> 1 # encode_str s)"

definition encode_layout :: "plan_layout \<Rightarrow> bytes result" where
  "encode_layout l =
     rbind (case pl_semantics l of
              Some s \<Rightarrow> if has_input_schema s then ss_encode s else Err UnsupportedRestore
            | None \<Rightarrow> Err UnsupportedRestore) (\<lambda>semantics.
       if length (pl_keys l) > 65535 \<or> length (pl_aggs l) > 65535 then Err BoundExceeded
       else Ok (u32_le (pl_operator l) @ u16_le (pl_slot l) @ [pl_window_kind l]
         @ u16_le (length (pl_keys l)) @ concat (map encode_str (pl_keys l))
         @ u16_le (length (pl_aggs l)) @ concat (map encode_str (pl_aggs l))
         @ encode_opt_str (pl_event_time_field l)
         @ i64_le (pl_lateness_micros l) @ u64_le (pl_where_fingerprint l)
         @ encode_opt_str (pl_table_name l)
         @ encode_opt_i64 (map_option u64_as_i64 (pl_table_revision l))
         @ u64_le (pl_window_params_fingerprint l)
         @ u32_le (length semantics) @ semantics))"

definition decode_opt_str :: "bytes \<Rightarrow> (string option \<times> bytes) result" where
  "decode_opt_str src =
     (case src of
        [] \<Rightarrow> Err CodecViolation
      | tag # rest \<Rightarrow>
          if tag = 0 then Ok (None, rest)
          else if tag = 1 then rbind (decode_str rest) (\<lambda>(s, r). Ok (Some s, r))
          else Err CodecViolation)"

definition decode_params :: "nat \<Rightarrow> bytes \<Rightarrow> (nat \<times> bytes) result" where
  "decode_params version src =
     (if length src \<ge> 8 then Ok (from_le_bytes (take 8 src), drop 8 src)
      else if version = 1 then Ok (0, src)
      else Err CodecViolation)"

definition decode_semantics :: "nat \<Rightarrow> bytes \<Rightarrow> (state_semantics option \<times> bytes) result" where
  "decode_semantics version src =
     (if version \<ge> 2 then
        if length src < 4 then Err CodecViolation
        else let n = from_le_bytes (take 4 src); r = drop 4 src in
          if n > max_state_semantics_bytes \<or> n > length r then Err CodecViolation
          else rbind (ss_decode (take n r)) (\<lambda>s. Ok (Some s, drop n r))
      else Ok (None, src))"

definition decode_layout :: "nat \<Rightarrow> bytes \<Rightarrow> (plan_layout \<times> bytes) result" where
  "decode_layout version src =
     (if length src < 9 then Err CodecViolation
      else rbind (decode_many decode_str (from_le_bytes (take 2 (drop 7 src))) (drop 9 src)) (\<lambda>(keys, s1).
        if length s1 < 2 then Err CodecViolation
        else rbind (decode_many decode_str (from_le_bytes (take 2 s1)) (drop 2 s1)) (\<lambda>(aggs, s2).
        rbind (decode_opt_str s2) (\<lambda>(event_time, s3).
        if length s3 < 16 then Err CodecViolation
        else rbind (decode_opt_str (drop 16 s3)) (\<lambda>(table_name, s4).
        rbind (decode_opt_i64 s4) (\<lambda>(revision, s5).
        rbind (decode_params version s5) (\<lambda>(params, s6).
        rbind (decode_semantics version s6) (\<lambda>(semantics, s7).
          Ok (\<lparr>pl_operator = from_le_bytes (take 4 src), pl_slot = from_le_bytes (take 2 (drop 4 src)), pl_window_kind = src ! 6,
               pl_keys = keys, pl_aggs = aggs, pl_event_time_field = event_time,
               pl_lateness_micros = u64_as_i64 (from_le_bytes (take 8 s3)), pl_where_fingerprint = from_le_bytes (take 8 (drop 8 s3)),
               pl_table_name = table_name, pl_table_revision = map_option i64_as_u64 revision,
               pl_window_params_fingerprint = params, pl_semantics = semantics\<rparr>, s7)))))))))"

section \<open>Snapshots\<close>

record table_bind =
  tb_name :: string
  tb_version :: nat

record checkpoint_snapshot =
  cs_checkpoint_id :: nat
  cs_source :: source_position
  cs_window :: window_freeze
  cs_ingested_rows :: nat
  cs_layout :: plan_layout
  cs_table :: "table_bind option"

definition snapshot_magic :: bytes where "snapshot_magic = str_bytes ''SPV1''"
definition snapshot_version :: nat where "snapshot_version = 2"

definition max_freeze_entries :: nat where "max_freeze_entries = max_state_keys budget_performance"

definition freeze_entry_cap :: "nat \<Rightarrow> nat" where
  "freeze_entry_cap n = (if n = 0 then max_freeze_entries else n)"

definition write_snapshot_prefix :: "nat \<Rightarrow> nat \<Rightarrow> source_position \<Rightarrow> bytes" where
  "write_snapshot_prefix chk rows src =
     snapshot_magic @ u16_le snapshot_version @ u64_le chk @ u64_le rows @ encode_position src"

definition write_snapshot_suffix :: "plan_layout \<Rightarrow> table_bind option \<Rightarrow> bytes result" where
  "write_snapshot_suffix l t =
     rbind (encode_layout l) (\<lambda>b.
       Ok (b @ (case t of None \<Rightarrow> [0] | Some t \<Rightarrow> 1 # encode_str (tb_name t) @ u64_le (tb_version t))))"

definition encode_with_max_state_keys :: "nat \<Rightarrow> checkpoint_snapshot \<Rightarrow> bytes result" where
  "encode_with_max_state_keys n s =
     rbind (encode_freeze (freeze_entry_cap n) (cs_window s)) (\<lambda>body.
     rbind (write_snapshot_suffix (cs_layout s) (cs_table s)) (\<lambda>suffix.
       Ok (write_snapshot_prefix (cs_checkpoint_id s) (cs_ingested_rows s) (cs_source s) @ body @ suffix)))"

definition decode_table :: "nat \<Rightarrow> bytes \<Rightarrow> (table_bind option \<times> bytes) result" where
  "decode_table version src =
     (case src of
        [] \<Rightarrow> if version = 1 then Ok (None, []) else Err CodecViolation
      | tag # r \<Rightarrow>
          if tag = 0 then Ok (None, r)
          else if tag = 1 then
            rbind (decode_str r) (\<lambda>(name, r1).
              if length r1 < 8 then Err CodecViolation
              else Ok (Some \<lparr>tb_name = name, tb_version = from_le_bytes (take 8 r1)\<rparr>, drop 8 r1))
          else Err CodecViolation)"

text \<open>Decoding with an unbilled meter; the resident bytes of the window are the second result.\<close>

definition decode_snapshot :: "layout \<Rightarrow> nat \<Rightarrow> nat \<Rightarrow> bool \<Rightarrow> bytes \<Rightarrow> (checkpoint_snapshot \<times> nat) result" where
  "decode_snapshot L sz n mat src =
     (if length src < 22 \<or> take 4 src \<noteq> snapshot_magic then Err CodecViolation
      else let ver = from_le_bytes (take 2 (drop 4 src)) in
        if ver \<noteq> 1 \<and> ver \<noteq> snapshot_version then Err FeatureUnavailable
        else rbind (decode_position (drop 22 src)) (\<lambda>(source, s1).
        rbind (decode_freeze_metered L sz (freeze_entry_cap n) mat None CodecWindow s1) (\<lambda>(window, resident, s2).
        rbind (decode_layout ver s2) (\<lambda>(l, s3).
          if pl_operator l \<noteq> wf_operator window \<or> pl_slot l \<noteq> wf_slot window then Err CodecViolation
          else rbind (decode_table ver s3) (\<lambda>(table, s4).
            if s4 \<noteq> [] then Err CodecViolation
            else Ok (\<lparr>cs_checkpoint_id = from_le_bytes (take 8 (drop 6 src)), cs_source = source, cs_window = window,
                      cs_ingested_rows = from_le_bytes (take 8 (drop 14 src)), cs_layout = l, cs_table = table\<rparr>, resident))))))"

section \<open>The checksum\<close>

lemma u32_xor_cancel:
  fixes x y z :: u32
  shows "x XOR z = y XOR z \<longleftrightarrow> x = y" "z XOR x = z XOR y \<longleftrightarrow> x = y" "x XOR y = 0 \<longleftrightarrow> x = y"
    "(ucast (a :: u8) :: u32) = ucast b \<longleftrightarrow> a = b"
proof -
  have twice: "(x XOR z) XOR z = x" "z XOR (z XOR x) = x" for x z :: u32
    by (simp add: xor.assoc, simp flip: xor.assoc)
  show "x XOR z = y XOR z \<longleftrightarrow> x = y" using twice(1) by metis
  show "z XOR x = z XOR y \<longleftrightarrow> x = y" using twice(2) by metis
  show "x XOR y = 0 \<longleftrightarrow> x = y" using twice(1) [of x y] by (metis xor.left_neutral xor_self_eq)
  show "(ucast a :: u32) = ucast b \<longleftrightarrow> a = b"
  proof
    assume eq: "(ucast a :: u32) = ucast b"
    show "a = b"
    proof (rule bit_word_eqI)
      fix n assume "n < LENGTH(8)"
      then show "bit a n \<longleftrightarrow> bit b n" using arg_cong [OF eq, of "\<lambda>w. bit w n"] by (simp add: bit_ucast_iff)
    qed
  qed simp
qed

lemma bit_low_mask: "bit (- (crc AND 1) :: u32) n \<longleftrightarrow> n < 32 \<and> bit crc 0"
proof (cases "bit crc 0")
  case True
  then have "crc AND 1 = 1" by (simp add: and_one_eq bit_0 odd_iff_mod_2_eq_one)
  then show ?thesis using True by (simp add: bit_minus_1_iff)
next
  case False
  then have "crc AND 1 = 0" by (simp add: and_one_eq bit_0 even_iff_mod_2_eq_zero)
  then show ?thesis using False by simp
qed

lemma bit_crc_shift: "bit (crc_shift crc) n \<longleftrightarrow> n < 32 \<and> bit crc (Suc n) \<noteq> (bit crc_poly n \<and> bit crc 0)"
  using bit_imp_le_length [of crc "Suc n"]
  by (auto simp: crc_shift_def bit_xor_iff bit_and_iff bit_low_mask bit_drop_bit_eq)

lemma crc_shift_xor: "crc_shift (a XOR b) = crc_shift a XOR crc_shift b"
  by (rule bit_eqI) (auto simp: bit_crc_shift bit_xor_iff)

lemma crc_shift_zero: "crc_shift x = 0 \<Longrightarrow> x = 0"
proof (rule bit_eqI)
  fix n assume z: "crc_shift x = 0"
  have bits: "\<not> bit (crc_shift x) k" for k using z by simp
  have "bit crc_poly 31" by (simp add: crc_poly_def)
  then have low: "\<not> bit x 0" using bits [of 31] bit_imp_le_length [of x 32] by (auto simp: bit_crc_shift)
  then have "\<not> bit x n" using bits [of "n - 1"] bit_imp_le_length [of x n] by (cases n) (auto simp: bit_crc_shift)
  then show "bit x n \<longleftrightarrow> bit 0 n" by simp
qed

lemma crc_shifts_xor: "(crc_shift ^^ k) (a XOR b) = (crc_shift ^^ k) a XOR (crc_shift ^^ k) b"
  by (induction k) (simp_all add: crc_shift_xor)

lemma crc_shifts_inject: "(crc_shift ^^ k) a = (crc_shift ^^ k) b \<longleftrightarrow> a = b"
proof
  have zero: "(crc_shift ^^ k) x = 0 \<Longrightarrow> x = 0" for x k by (induction k) (simp_all add: crc_shift_zero)
  assume "(crc_shift ^^ k) a = (crc_shift ^^ k) b"
  then have "(crc_shift ^^ k) (a XOR b) = 0" by (simp add: crc_shifts_xor)
  then have "a XOR b = 0" by (rule zero)
  then show "a = b" by (simp add: u32_xor_cancel)
qed simp

lemma crc_shifts_high: "(\<And>i. i < k \<Longrightarrow> \<not> bit x i) \<Longrightarrow> (crc_shift ^^ k) x = drop_bit k x"
proof (induction k)
  case (Suc k)
  have "(crc_shift ^^ k) x = drop_bit k x" using Suc by simp
  then have "(crc_shift ^^ Suc k) x = crc_shift (drop_bit k x)" by simp
  also have "\<dots> = drop_bit (Suc k) x"
    using Suc.prems [of k] bit_imp_le_length [of x]
    by (intro bit_eqI) (fastforce simp: bit_crc_shift bit_drop_bit_eq)
  finally show ?case .
qed simp

definition crc_feed :: "u32 \<Rightarrow> u8 \<Rightarrow> u32" where
  "crc_feed crc b = (crc_shift ^^ 8) (crc XOR ucast b)"

lemma crc_byte_feed: "crc_byte crc b = crc_feed crc b"
proof -
  let ?x = "crc XOR ucast b" and ?low = "ucast (ucast (crc XOR ucast b) :: u8) :: u32"
  have high: "(crc_shift ^^ 8) (?x XOR ?low) = drop_bit 8 (?x XOR ?low)"
    by (rule crc_shifts_high) (auto simp: bit_xor_iff bit_ucast_iff)
  have "drop_bit 8 (?x XOR ?low) = drop_bit 8 crc"
    using bit_imp_le_length [of b] by (intro bit_eqI) (fastforce simp: bit_drop_bit_eq bit_xor_iff bit_ucast_iff)
  moreover have "(crc_shift ^^ 8) ?x = (crc_shift ^^ 8) (?x XOR ?low) XOR (crc_shift ^^ 8) ?low"
    unfolding crc_shifts_xor [symmetric] by (simp add: xor.assoc)
  ultimately show ?thesis using high by (simp add: crc_byte_def crc_feed_def crc32_table_def)
qed

lemma crc_feed_inject:
  "crc_feed s a = crc_feed t a \<longleftrightarrow> s = t" "crc_feed s a = crc_feed s b \<longleftrightarrow> a = b"
  by (simp_all add: crc_feed_def crc_shifts_inject u32_xor_cancel)

text \<open>Up to four bytes enter the register as one word.\<close>

fun pack :: "bytes \<Rightarrow> u32" where
  "pack [] = 0"
| "pack (b # bs) = ucast b XOR push_bit 8 (pack bs)"

lemma bit_pack_le: "bit (pack bs) n \<Longrightarrow> n < 8 * length bs"
proof (induction bs arbitrary: n)
  case (Cons b bs)
  show ?case
  proof (cases "n < 8")
    case False
    then have "\<not> bit b n" using bit_imp_le_length [of b n] by auto
    then have "bit (pack bs) (n - 8)" using Cons.prems False by (simp add: bit_xor_iff bit_ucast_iff bit_push_bit_iff)
    then show ?thesis using Cons.IH [of "n - 8"] by simp
  qed simp
qed simp

lemma pack_drop: "length bs \<le> 3 \<Longrightarrow> drop_bit 8 (push_bit 8 (pack bs)) = pack bs"
  using bit_pack_le [of bs] by (intro bit_word_eqI) (fastforce simp: bit_drop_bit_eq bit_push_bit_iff)

lemma crc_feed_pack: "length bs \<le> 4 \<Longrightarrow> foldl crc_feed s bs = (crc_shift ^^ (8 * length bs)) (s XOR pack bs)"
proof (induction bs arbitrary: s)
  case (Cons b bs)
  have "(crc_shift ^^ 8) (push_bit 8 (pack bs)) = pack bs"
    using crc_shifts_high [of 8 "push_bit 8 (pack bs)"] pack_drop [of bs] Cons.prems by (simp add: bit_push_bit_iff)
  then have "crc_feed s b XOR pack bs = (crc_shift ^^ 8) (s XOR pack (b # bs))"
    by (simp add: crc_feed_def crc_shifts_xor xor.assoc)
  moreover have "(crc_shift ^^ (8 * length bs)) ((crc_shift ^^ 8) x) = (crc_shift ^^ (8 * length bs + 8)) x" for x
    by (simp add: funpow_add)
  moreover have "foldl crc_feed (crc_feed s b) bs = (crc_shift ^^ (8 * length bs)) (crc_feed s b XOR pack bs)"
    using Cons.IH [of "crc_feed s b"] Cons.prems by simp
  moreover have "8 * length (b # bs) = 8 * length bs + 8" by simp
  ultimately show ?case by (simp only: foldl_Cons)
qed simp

lemma pack_head: "ucast (pack (b # bs)) = b"
  by (rule bit_word_eqI) (simp add: bit_xor_iff bit_ucast_iff bit_push_bit_iff)

lemma pack_tail: "length bs \<le> 3 \<Longrightarrow> drop_bit 8 (pack (b # bs)) = pack bs"
proof -
  assume "length bs \<le> 3"
  moreover have "drop_bit 8 (ucast b :: u32) = 0"
    using bit_imp_le_length [of b] by (intro bit_word_eqI) (fastforce simp: bit_drop_bit_eq bit_ucast_iff)
  ultimately show ?thesis using pack_drop [of bs] by (simp only: pack.simps drop_bit_xor xor.left_neutral)
qed

lemma pack_inject: "length bs = length cs \<Longrightarrow> length bs \<le> 4 \<Longrightarrow> pack bs = pack cs \<Longrightarrow> bs = cs"
proof (induction bs cs rule: list_induct2)
  case (Cons b bs c cs)
  have "b = c" using arg_cong [OF Cons.prems(2), of "ucast :: u32 \<Rightarrow> u8"] by (simp only: pack_head)
  moreover have "pack bs = pack cs"
    using arg_cong [OF Cons.prems(2), of "drop_bit 8"] pack_tail [of bs b] pack_tail [of cs c] Cons.prems(1) Cons.hyps by simp
  ultimately show ?case using Cons.IH Cons.prems(1) by simp
qed simp

lemma crc_foldl: "foldl crc_byte s xs = foldl crc_feed s xs"
  by (induction xs arbitrary: s) (simp_all add: crc_byte_feed)

lemma crc_feed_foldl_inject: "foldl crc_feed s xs = foldl crc_feed t xs \<longleftrightarrow> s = t"
  by (induction xs arbitrary: s t) (simp_all add: crc_feed_inject)

section \<open>Round trips\<close>

definition manifest_ok :: "manifest \<Rightarrow> bool" where
  "manifest_ok m \<longleftrightarrow> is_u64 (m_checkpoint_id m) \<and> m_n_chunks m = length (m_checksums m) \<and> m_n_chunks m \<le> max_manifest_chunks \<and>
     m_bytes m \<le> max_snapshot_bytes \<and> m_codec_version m = manifest_version"

lemma crc_le_simps [simp]: "length (crc_le c) = 4" "from_le_bytes (crc_le c) = unat c"
  using unsigned_less [where ?'b = 32 and ?'a = nat, of c] by (simp_all add: crc_le_def)

lemma read_checksums_concat: "read_checksums (length cs) (concat (map crc_le cs) @ rest) = (cs, rest)"
  by (induction cs) simp_all

lemma length_checksums [simp]: "length (concat (map crc_le cs)) = 4 * length cs"
  by (induction cs) simp_all

text \<open>
  A manifest with one checksum per chunk and within the bounds is decoded from its encoding, which
  is within the bound under which a reader agrees to load it.
\<close>

lemma manifest_roundtrip:
  assumes "manifest_ok m"
  shows "manifest_decode (manifest_encode m) = Ok m" "length (manifest_encode m) \<le> max_manifest_bytes"
proof -
  let ?cs = "m_checksums m"
  have m: "is_u64 (m_checkpoint_id m)" "m_n_chunks m = length ?cs" "length ?cs \<le> 4096" "m_bytes m \<le> 8388608" "is_u64 (m_bytes m)"
    "m_codec_version m = manifest_version" "manifest_version = 1"
    using assms by (simp_all add: manifest_ok_def max_manifest_chunks_def max_snapshot_bytes_def is_u64_def manifest_version_def)
  have magic: "length manifest_magic = 4" by (simp add: manifest_magic_def)
  have parts: "take 4 (manifest_encode m) = manifest_magic" "take 2 (drop 4 (manifest_encode m)) = u16_le (m_codec_version m)"
    "take 8 (drop 6 (manifest_encode m)) = u64_le (m_checkpoint_id m)" "take 4 (drop 14 (manifest_encode m)) = u32_le (m_n_chunks m)"
    "take 8 (drop 18 (manifest_encode m)) = u64_le (m_bytes m)" "take 4 (drop 26 (manifest_encode m)) = u32_le (length ?cs)"
    "drop 30 (manifest_encode m) = concat (map crc_le ?cs)" "length (manifest_encode m) = 30 + 4 * length ?cs"
    using magic by (simp_all add: manifest_encode_def)
  have "read_checksums (length ?cs) (concat (map crc_le ?cs)) = (?cs, [])" using read_checksums_concat [of ?cs "[]"] by simp
  then show "manifest_decode (manifest_encode m) = Ok m"
    using m by (simp add: manifest_decode_def parts max_manifest_chunks_def max_snapshot_bytes_def Let_def)
  show "length (manifest_encode m) \<le> max_manifest_bytes" using m(3) by (simp add: parts max_manifest_bytes_def)
qed


definition text_ok :: "string \<Rightarrow> bool" where
  "text_ok s \<longleftrightarrow> is_str s \<and> length s \<le> u32_max"

interpretation str_codec: codec encode_str decode_str text_ok
  by unfold_locales (simp add: text_ok_def is_str_def decode_str_def encode_str_def Let_def)

interpretation opt_str_codec: codec encode_opt_str decode_opt_str "pred_option text_ok"
proof
  fix v :: "string option" and rest
  assume "pred_option text_ok v"
  then show "decode_opt_str (encode_opt_str v @ rest) = Ok (v, rest)"
    by (cases v) (simp_all add: encode_opt_str_def decode_opt_str_def str_codec.dec_enc)
qed

definition position_ok :: "source_position \<Rightarrow> bool" where
  "position_ok p \<longleftrightarrow> is_u64 (sp_offset_bytes p) \<and> is_u64 (sp_record_index p) \<and> text_ok (si_kind (sp_identity p)) \<and>
     text_ok (si_path (sp_identity p)) \<and> is_u64 (si_size (sp_identity p)) \<and> is_u64 (si_fingerprint (sp_identity p))"

interpretation position_codec: codec encode_position decode_position position_ok
  by unfold_locales (simp add: position_ok_def decode_position_def encode_position_def str_codec.dec_enc)

definition semantics_ok :: "state_semantics \<Rightarrow> bool" where
  "semantics_ok s \<longleftrightarrow> ss_window s \<noteq> [] \<and> ss_predicate s \<noteq> [] \<and> sum_list (map length (ss_parts s)) + 20 \<le> max_state_semantics_bytes"

definition part_bytes :: "bytes \<Rightarrow> bytes" where
  "part_bytes b = u32_le (length b) @ b"

interpretation part_codec: codec part_bytes read_part "\<lambda>b. length b \<le> u32_max"
  by unfold_locales (simp add: read_part_def part_bytes_def Let_def)

lemma write_parts_ok:
  "length w + sum_list (map length ps) + 4 * length ps \<le> max_state_semantics_bytes \<Longrightarrow> write_parts ps w = Ok (w @ concat (map part_bytes ps))"
proof (induction ps arbitrary: w)
  case (Cons p ps)
  have "writer_bytes p w = Ok (w @ part_bytes p)"
    using Cons.prems by (simp add: writer_bytes_def writer_len_def writer_raw_def part_bytes_def max_state_semantics_bytes_def is_u64_def)
  then show ?case using Cons.IH [of "w @ part_bytes p"] Cons.prems by (simp add: part_bytes_def)
qed simp

definition semantics_bytes :: "state_semantics \<Rightarrow> bytes" where
  "semantics_bytes s = semantics_magic @ concat (map part_bytes (ss_parts s))"

lemma length_semantics_magic [simp]: "length semantics_magic = 4"
  by (simp add: semantics_magic_def)

lemma ss_encode_ok: "semantics_ok s \<Longrightarrow> ss_encode s = Ok (semantics_bytes s)"
  using write_parts_ok [of semantics_magic "ss_parts s"]
  by (simp add: semantics_ok_def ss_encode_def ss_check_size_def writer_raw_def semantics_bytes_def max_state_semantics_bytes_def ss_parts_def is_u64_def)

lemma length_semantics_bytes: "semantics_ok s \<Longrightarrow> length (semantics_bytes s) \<le> 65536"
  by (simp add: semantics_bytes_def semantics_ok_def ss_parts_def part_bytes_def max_state_semantics_bytes_def)

lemma ss_decode_bytes: "semantics_ok s \<Longrightarrow> ss_decode (semantics_bytes s) = Ok s"
proof -
  assume ok: "semantics_ok s"
  then have len: "length p \<le> u32_max" if "p \<in> set (ss_parts s)" for p
    using that by (auto simp: semantics_ok_def ss_parts_def max_state_semantics_bytes_def)
  have "read_part (part_bytes (ss_upstream s)) = Ok (ss_upstream s, [])"
    using part_codec.dec_enc [of "ss_upstream s" "[]"] len by (simp add: ss_parts_def)
  then show ?thesis using ok len length_semantics_bytes [OF ok]
    by (simp add: ss_decode_def semantics_bytes_def semantics_ok_def ss_parts_def part_codec.dec_enc max_state_semantics_bytes_def)
qed

definition layout_ok :: "plan_layout \<Rightarrow> bool" where
  "layout_ok l \<longleftrightarrow> pl_operator l \<le> u32_max \<and> pl_slot l < 65536 \<and>
     length (pl_keys l) \<le> 65535 \<and> list_all text_ok (pl_keys l) \<and> length (pl_aggs l) \<le> 65535 \<and> list_all text_ok (pl_aggs l) \<and>
     pred_option text_ok (pl_event_time_field l) \<and> is_i64 (pl_lateness_micros l) \<and> is_u64 (pl_where_fingerprint l) \<and>
     pred_option text_ok (pl_table_name l) \<and> pred_option is_u64 (pl_table_revision l) \<and> is_u64 (pl_window_params_fingerprint l) \<and>
     (case pl_semantics l of None \<Rightarrow> False | Some s \<Rightarrow> semantics_ok s \<and> has_input_schema s)"

lemma i64_as_u64_as_i64: "is_u64 x \<Longrightarrow> i64_as_u64 (u64_as_i64 x) = x"
  by (auto simp: is_u64_def i64_as_u64_def u64_as_i64_def Let_def nat_mod_distrib zmod_int)

lemma revision_bytes:
  "decode_opt_i64 (encode_opt_i64 (map_option u64_as_i64 v) @ rest) = Ok (map_option u64_as_i64 v, rest)"
  "pred_option is_u64 v \<Longrightarrow> map_option i64_as_u64 (map_option u64_as_i64 v) = v"
  by (cases v; simp add: decode_opt_i64_bytes i64_as_u64_as_i64)+

definition layout_bytes :: "plan_layout \<Rightarrow> bytes" where
  "layout_bytes l = u32_le (pl_operator l) @ u16_le (pl_slot l) @ [pl_window_kind l]
     @ u16_le (length (pl_keys l)) @ concat (map encode_str (pl_keys l))
     @ u16_le (length (pl_aggs l)) @ concat (map encode_str (pl_aggs l)) @ encode_opt_str (pl_event_time_field l)
     @ i64_le (pl_lateness_micros l) @ u64_le (pl_where_fingerprint l) @ encode_opt_str (pl_table_name l)
     @ encode_opt_i64 (map_option u64_as_i64 (pl_table_revision l)) @ u64_le (pl_window_params_fingerprint l)
     @ part_bytes (semantics_bytes (the (pl_semantics l)))"

lemma encode_layout_ok: "layout_ok l \<Longrightarrow> encode_layout l = Ok (layout_bytes l)"
  by (auto simp: layout_ok_def encode_layout_def layout_bytes_def ss_encode_ok part_bytes_def split: option.splits)

lemma decode_semantics_bytes:
  assumes "semantics_ok s"
  shows "decode_semantics 2 (part_bytes (semantics_bytes s) @ rest) = Ok (Some s, rest)"
  using length_semantics_bytes [OF assms] ss_decode_bytes [OF assms]
  by (simp add: decode_semantics_def part_bytes_def max_state_semantics_bytes_def Let_def)

interpretation layout_codec: codec layout_bytes "decode_layout snapshot_version" layout_ok
proof
  fix l rest
  assume ok: "layout_ok l"
  then obtain s where s: "pl_semantics l = Some s" "semantics_ok s" by (auto simp: layout_ok_def split: option.splits)
  have r: "map_option i64_as_u64 (map_option u64_as_i64 (pl_table_revision l)) = pl_table_revision l"
    by (rule revision_bytes(2)) (use ok in \<open>simp add: layout_ok_def\<close>)
  show "decode_layout snapshot_version (layout_bytes l @ rest) = Ok (l, rest)"
    using ok s r
    by (simp add: revision_bytes(1) layout_ok_def layout_bytes_def decode_layout_def snapshot_version_def str_codec.decode_many_concat
        opt_str_codec.dec_enc decode_params_def decode_semantics_bytes nth_append)
qed

definition table_bind_ok :: "table_bind option \<Rightarrow> bool" where
  "table_bind_ok t \<longleftrightarrow> pred_option (\<lambda>t. text_ok (tb_name t) \<and> is_u64 (tb_version t)) t"

definition table_bytes :: "table_bind option \<Rightarrow> bytes" where
  "table_bytes t = (case t of None \<Rightarrow> [0] | Some t \<Rightarrow> 1 # encode_str (tb_name t) @ u64_le (tb_version t))"

interpretation table_codec: codec table_bytes "decode_table snapshot_version" table_bind_ok
proof
  fix t rest
  assume "table_bind_ok t"
  then show "decode_table snapshot_version (table_bytes t @ rest) = Ok (t, rest)"
    by (cases t) (simp_all add: table_bind_ok_def table_bytes_def decode_table_def str_codec.dec_enc)
qed

definition snapshot_ok :: "nat \<Rightarrow> checkpoint_snapshot \<Rightarrow> bool" where
  "snapshot_ok n s \<longleftrightarrow> is_u64 (cs_checkpoint_id s) \<and> is_u64 (cs_ingested_rows s) \<and> position_ok (cs_source s) \<and>
     freeze_fits CodecWindow (freeze_entry_cap n) (cs_window s) \<and> layout_ok (cs_layout s) \<and> table_bind_ok (cs_table s) \<and>
     pl_operator (cs_layout s) = wf_operator (cs_window s) \<and> pl_slot (cs_layout s) = wf_slot (cs_window s)"

definition snapshot_bytes :: "checkpoint_snapshot \<Rightarrow> bytes" where
  "snapshot_bytes s = write_snapshot_prefix (cs_checkpoint_id s) (cs_ingested_rows s) (cs_source s)
     @ freeze_bytes (cs_window s) @ layout_bytes (cs_layout s) @ table_bytes (cs_table s)"

lemma encode_snapshot_ok: "snapshot_ok n s \<Longrightarrow> encode_with_max_state_keys n s = Ok (snapshot_bytes s)"
  by (simp add: snapshot_ok_def encode_with_max_state_keys_def encode_freeze_def encode_freeze_fits write_snapshot_suffix_def
      encode_layout_ok snapshot_bytes_def table_bytes_def)

lemma decode_snapshot_bytes:
  assumes "snapshot_ok n s"
  shows "decode_snapshot L sz n True (snapshot_bytes s) = Ok (s, freeze_resident L sz (cs_window s))"
proof -
  have magic: "length snapshot_magic = 4" by (simp add: snapshot_magic_def)
  have freeze: "decode_freeze_metered L sz (freeze_entry_cap n) True None CodecWindow (freeze_bytes (cs_window s) @ rest)
      = Ok (cs_window s, freeze_resident L sz (cs_window s), rest)" for rest
    using assms by (simp add: decode_freeze_metered_def snapshot_ok_def decode_freeze_bytes pt_violation_def list_all_iff)
  have table: "decode_table snapshot_version (table_bytes (cs_table s)) = Ok (cs_table s, [])"
    using table_codec.dec_enc [of "cs_table s" "[]"] assms by (simp add: snapshot_ok_def)
  have ver: "from_le_bytes (u16_le snapshot_version) = snapshot_version" by (simp add: snapshot_version_def)
  show ?thesis
    using assms magic freeze table ver
    by (simp add: decode_snapshot_def snapshot_bytes_def write_snapshot_prefix_def snapshot_ok_def position_codec.dec_enc
        layout_codec.dec_enc Let_def)
qed

section \<open>Properties\<close>

text \<open>
  C17: The table-driven checksum is the bit-serial CRC-32: one shift of the reflected polynomial
  per message bit, started from all ones and inverted at the end.
\<close>

theorem crc32_bit_serial: "crc32 data = NOT (foldl crc_feed 0xffffffff data)"
  by (simp add: crc32_def crc_foldl)

text \<open>
  The checksum detects every burst: two chunks of one length that differ only within four
  consecutive bytes have different checksums, wherever the bytes are and whatever surrounds them.
\<close>

lemma crc32_detects_bursts:
  assumes "length bs = length cs" "length bs \<le> 4"
  shows "crc32 (xs @ bs @ ys) = crc32 (xs @ cs @ ys) \<longleftrightarrow> bs = cs"
proof -
  have "crc32 (xs @ bs @ ys) = crc32 (xs @ cs @ ys) \<longleftrightarrow>
      foldl crc_feed (foldl crc_feed 0xffffffff xs) bs = foldl crc_feed (foldl crc_feed 0xffffffff xs) cs"
    by (simp add: crc32_def crc_foldl crc_feed_foldl_inject)
  also have "\<dots> \<longleftrightarrow> pack bs = pack cs"
    using assms by (simp add: crc_feed_pack crc_shifts_inject u32_xor_cancel)
  also have "\<dots> \<longleftrightarrow> bs = cs" using pack_inject [OF assms] by blast
  finally show ?thesis .
qed

text \<open>
  C16: A snapshot can be read back. A well-formed snapshot whose window state fits the store's
  key bound and whose layout names the same operator is encoded, and decoding the bytes gives
  back the source position, the window state, the row count, the layout with its state semantics
  and the table binding, and bills exactly the resident size of the window state.
\<close>

theorem snapshot_roundtrip:
  assumes "snapshot_ok n s"
  shows "\<exists>b. encode_with_max_state_keys n s = Ok b \<and>
    decode_snapshot L sz n True b = Ok (s, freeze_resident L sz (cs_window s))"
  using encode_snapshot_ok [OF assms] decode_snapshot_bytes [OF assms] by blast

definition demo_layout :: plan_layout where
  "demo_layout = \<lparr>pl_operator = 7, pl_slot = 1, pl_window_kind = 0, pl_keys = [''a''], pl_aggs = [''count''],
     pl_event_time_field = Some ''ts'', pl_lateness_micros = -5, pl_where_fingerprint = 9, pl_table_name = None,
     pl_table_revision = Some 3, pl_window_params_fingerprint = 4,
     pl_semantics = Some \<lparr>ss_window = [8], ss_predicate = [2], ss_input = [3], ss_upstream = []\<rparr>\<rparr>"

definition demo_snapshot :: checkpoint_snapshot where
  "demo_snapshot = \<lparr>cs_checkpoint_id = 5,
     cs_source = \<lparr>sp_offset_bytes = 64, sp_record_index = 2,
                  sp_identity = \<lparr>si_kind = ''file'', si_path = ''in.csv'', si_size = 128, si_fingerprint = 77\<rparr>\<rparr>,
     cs_window = demo_freeze, cs_ingested_rows = 2, cs_layout = demo_layout,
     cs_table = Some \<lparr>tb_name = ''t'', tb_version = 3\<rparr>\<rparr>"

lemma demo_snapshot_ok: "snapshot_ok 4 demo_snapshot"
proof -
  have "layout_ok demo_layout"
    by (simp add: demo_layout_def layout_ok_def semantics_ok_def has_input_schema_def ss_parts_def max_state_semantics_bytes_def
        text_ok_def is_str_def str_bytes_def is_i64_def is_u64_def)
  moreover have "freeze_fits CodecWindow 4 demo_freeze"
    by (simp add: demo_freeze_def freeze_fits_def entry_fits_def entry_values_ok_def acc_fits_def is_str_def
      str_bytes_def is_i64_def is_u64_def entry_bytes_def max_snapshot_bytes_def value_bytes_def encode_value_def key_utf8_def
      acc_bytes_def encode_codec_def)
  moreover have "position_ok (cs_source demo_snapshot)"
    by (simp add: demo_snapshot_def position_ok_def text_ok_def is_str_def str_bytes_def is_u64_def)
  ultimately show ?thesis
    by (simp add: demo_snapshot_def snapshot_ok_def table_bind_ok_def text_ok_def is_str_def str_bytes_def is_u64_def freeze_entry_cap_def
        demo_layout_def demo_freeze_def)
qed

theorem snapshot_roundtrip_witness:
  "\<exists>b. encode_with_max_state_keys 4 demo_snapshot = Ok b \<and>
     decode_snapshot \<lparr>size_of_scalar = 24, size_of_dynamic = 24, size_of_pair = 40\<rparr> 72 4 True b
       = Ok (demo_snapshot, freeze_resident \<lparr>size_of_scalar = 24, size_of_dynamic = 24, size_of_pair = 40\<rparr> 72 (cs_window demo_snapshot))"
  by (rule snapshot_roundtrip) (rule demo_snapshot_ok)

end
