(* ===== verification/Store_Fs.thy ===== *)
theory Store_Fs
  imports Prelude "HOL-Library.AList"
begin

text \<open>
  The directory a checkpoint store lives in, and what survives a power failure.

  A path is the list of names below the store directory. The visible file system maps paths to
  nodes; beside it the disk keeps, for every path, the set of nodes that may be found there after
  a crash. A change of a directory entry adds a possibility; only \<^verbatim>\<open>fsync\<close> of the directory
  removes the others, and only for files whose data is synced. Every entry is independent of the
  others, so a crash may keep a later rename and lose an earlier one. Every change of the disk
  may be refused by the device, with a partial effect for a write: \<open>dk_left\<close> is the number of changes
  it still accepts, so that all values of it give all points at which an operation can stop.
  Reads of what is there succeed. Symbolic links and special files are one kind of node.
\<close>

section \<open>The disk\<close>

datatype fs_node = File bytes | Dir | Special

type_synonym path = "string list"
type_synonym fs = "(path \<times> fs_node) list"

record disk =
  dk_fs :: fs
  dk_maybe :: "path \<Rightarrow> fs_node option set"
  dk_unsynced :: "path set"
  dk_left :: nat
  dk_torn :: "nat option"
  dk_fault :: error_code

text \<open>An error and whether it forbids falling back to an older generation.\<close>

type_synonym 'a sresult = "(sparrow_error \<times> bool) + 'a"
type_synonym 'a io = "disk \<Rightarrow> 'a sresult \<times> disk"

abbreviation SErr :: "error_code \<Rightarrow> 'a sresult" where
  "SErr c \<equiv> Inl (new_error c, False)"

definition unguarded :: "'a result \<Rightarrow> 'a sresult" where
  "unguarded r = (case r of Inl e \<Rightarrow> Inl (e, False) | Inr x \<Rightarrow> Inr x)"

lemma unguarded_simps [simp]: "unguarded (Inl e) = Inl (e, False)" "unguarded (Inr x) = Inr x"
  by (simp_all add: unguarded_def)

definition iobind :: "'a io \<Rightarrow> ('a \<Rightarrow> 'b io) \<Rightarrow> 'b io" where
  "iobind m f d = (case m d of (Inl e, d') \<Rightarrow> (Inl e, d') | (Inr x, d') \<Rightarrow> f x d')"

definition lift_io :: "'a sresult \<Rightarrow> 'a io" where
  "lift_io r d = (r, d)"

definition reads :: "(fs \<Rightarrow> 'a sresult) \<Rightarrow> 'a io" where
  "reads q d = (q (dk_fs d), d)"

section \<open>Reading\<close>

definition lookup :: "fs \<Rightarrow> path \<Rightarrow> fs_node option" where
  "lookup f p = (if list_all (\<lambda>k. map_of f (take k p) = Some Dir) [0..<length p] then map_of f p else None)"

definition exists_path :: "fs \<Rightarrow> path \<Rightarrow> bool" where
  "exists_path f p \<longleftrightarrow> lookup f p \<noteq> None"

definition read_dir :: "fs \<Rightarrow> path \<Rightarrow> (string \<times> fs_node) list sresult" where
  "read_dir f p =
     (if lookup f p = Some Dir then Inr (map (\<lambda>(q, n). (last q, n)) (filter (\<lambda>(q, n). q \<noteq> [] \<and> butlast q = p) f))
      else SErr Internal)"

definition below :: "path \<Rightarrow> path \<Rightarrow> bool" where
  "below p q \<longleftrightarrow> length p < length q \<and> take (length p) q = p"

section \<open>Changing\<close>

definition put_node :: "path \<Rightarrow> fs_node \<Rightarrow> disk \<Rightarrow> disk" where
  "put_node p n d = d\<lparr>dk_fs := AList.update p n (dk_fs d), dk_maybe := (dk_maybe d)(p := insert (Some n) (dk_maybe d p))\<rparr>"

definition del_node :: "path \<Rightarrow> disk \<Rightarrow> disk" where
  "del_node p d = d\<lparr>dk_fs := AList.delete p (dk_fs d), dk_maybe := (dk_maybe d)(p := insert None (dk_maybe d p))\<rparr>"

definition spend :: "disk \<Rightarrow> disk" where
  "spend d = d\<lparr>dk_left := dk_left d - 1\<rparr>"

definition tear :: "path \<Rightarrow> bytes \<Rightarrow> disk \<Rightarrow> disk" where
  "tear p b d =
     (case dk_torn d of
        None \<Rightarrow> d
      | Some k \<Rightarrow> d\<lparr>dk_fs := AList.update p (File (take k b)) (dk_fs d),
                   dk_maybe := (dk_maybe d)(p := dk_maybe d p \<union> range (\<lambda>x. Some (File x))),
                   dk_unsynced := insert p (dk_unsynced d)\<rparr>)"

definition writable :: "fs \<Rightarrow> path \<Rightarrow> bool" where
  "writable f p \<longleftrightarrow> p \<noteq> [] \<and> lookup f (butlast p) = Some Dir \<and> (case map_of f p of None \<Rightarrow> True | Some (File _) \<Rightarrow> True | _ \<Rightarrow> False)"

definition write_all_sync :: "path \<Rightarrow> bytes \<Rightarrow> unit io" where
  "write_all_sync p b d =
     (if \<not> writable (dk_fs d) p then (SErr Internal, d)
      else if dk_left d = 0 then (SErr (dk_fault d), tear p b d)
      else (Inr (), spend (put_node p (File b) d\<lparr>dk_unsynced := dk_unsynced d - {p}\<rparr>)))"

definition write_all_trunc :: "path \<Rightarrow> bytes \<Rightarrow> unit io" where
  "write_all_trunc p b d =
     (if \<not> writable (dk_fs d) p then (SErr Internal, d)
      else if dk_left d = 0 then (SErr (dk_fault d), tear p b d)
      else (Inr (), spend (tear p b (d\<lparr>dk_torn := Some (length b)\<rparr>)\<lparr>dk_torn := dk_torn d\<rparr>)))"

definition rename :: "path \<Rightarrow> path \<Rightarrow> unit io" where
  "rename a b d =
     (case lookup (dk_fs d) a of
        Some (File x) \<Rightarrow>
          if \<not> writable (dk_fs d) b then (SErr Internal, d)
          else if dk_left d = 0 then (SErr (dk_fault d), d)
          else (Inr (), spend (put_node b (File x) (del_node a d)\<lparr>dk_unsynced :=
                 (if a \<in> dk_unsynced d then insert b (dk_unsynced d) else dk_unsynced d - {b})\<rparr>))
      | _ \<Rightarrow> (SErr Internal, d))"

definition fsync_dir :: "path \<Rightarrow> unit io" where
  "fsync_dir p d =
     (if lookup (dk_fs d) p \<noteq> Some Dir then (SErr Internal, d)
      else if dk_left d = 0 then (SErr (dk_fault d), d)
      else (Inr (), spend (d\<lparr>dk_maybe := \<lambda>q. if q \<noteq> [] \<and> butlast q = p \<and> q \<notin> dk_unsynced d then {map_of (dk_fs d) q} else dk_maybe d q\<rparr>)))"

definition create_dir :: "path \<Rightarrow> unit io" where
  "create_dir p d =
     (if p = [] \<or> lookup (dk_fs d) (butlast p) \<noteq> Some Dir \<or> map_of (dk_fs d) p \<noteq> None then (SErr Internal, d)
      else if dk_left d = 0 then (SErr (dk_fault d), d)
      else (Inr (), spend (put_node p Dir
             (d\<lparr>dk_fs := filter (\<lambda>(q, n). \<not> below p q) (dk_fs d), dk_maybe := \<lambda>q. if below p q then {None} else dk_maybe d q,
                dk_unsynced := {q \<in> dk_unsynced d. q \<noteq> p \<and> \<not> below p q}\<rparr>))))"

definition unlink :: "path \<Rightarrow> unit io" where
  "unlink p d = (if dk_left d = 0 then (SErr (dk_fault d), d) else (Inr (), spend (del_node p d)))"

fun unlink_all :: "path list \<Rightarrow> unit io" where
  "unlink_all [] = lift_io (Inr ())"
| "unlink_all (p # ps) = iobind (unlink p) (\<lambda>_. unlink_all ps)"

text \<open>The tree is removed bottom up; a refused removal leaves the rest of it.\<close>

definition remove_dir_all :: "path \<Rightarrow> unit io" where
  "remove_dir_all p d =
     (if lookup (dk_fs d) p \<noteq> Some Dir then (SErr Internal, d)
      else unlink_all (rev (sort_key length (filter (below p) (map fst (dk_fs d)))) @ [p]) d)"

section \<open>Crashes\<close>

definition crash_image :: "disk \<Rightarrow> fs \<Rightarrow> bool" where
  "crash_image d f \<longleftrightarrow> (\<forall>p. map_of f p \<in> dk_maybe d p)"

text \<open>After a restart what was found is what is durable.\<close>

definition restart :: "fs \<Rightarrow> disk \<Rightarrow> disk" where
  "restart f d = d\<lparr>dk_fs := f, dk_maybe := \<lambda>p. {map_of f p}, dk_unsynced := {}\<rparr>"

definition disk_ok :: "disk \<Rightarrow> bool" where
  "disk_ok d \<longleftrightarrow> (\<forall>p. map_of (dk_fs d) p \<in> dk_maybe d p)"

lemma crash_image_view: "disk_ok d \<Longrightarrow> crash_image d (dk_fs d)"
  by (simp add: disk_ok_def crash_image_def)

lemma restart_ok [simp]: "disk_ok (restart f d)" "dk_fs (restart f d) = f"
  by (simp_all add: disk_ok_def restart_def)

section \<open>What a computation leaves alone\<close>

text \<open>Path \<open>p\<close> durably holds \<open>v\<close>: it is seen, and every crash keeps it.\<close>

definition durable :: "disk \<Rightarrow> path \<Rightarrow> fs_node option \<Rightarrow> bool" where
  "durable d p v \<longleftrightarrow> map_of (dk_fs d) p = v \<and> dk_maybe d p = {v} \<and> p \<notin> dk_unsynced d"

definition holds_on :: "path set \<Rightarrow> (path \<Rightarrow> fs_node option) \<Rightarrow> disk \<Rightarrow> bool" where
  "holds_on P V d \<longleftrightarrow> disk_ok d \<and> (\<forall>p\<in>P. durable d p (V p))"

definition stays :: "path set \<Rightarrow> (path \<Rightarrow> fs_node option) \<Rightarrow> 'a io \<Rightarrow> bool" where
  "stays P V m \<longleftrightarrow> (\<forall>d. holds_on P V d \<longrightarrow> holds_on P V (snd (m d)))"

lemma staysD: "stays P V m \<Longrightarrow> holds_on P V d \<Longrightarrow> m d = (r, d') \<Longrightarrow> holds_on P V d'"
  by (metis stays_def snd_conv)

lemma holds_step: "holds_on P V d \<Longrightarrow> m d = (r, d') \<Longrightarrow> stays P V m \<Longrightarrow> holds_on P V d'"
  by (rule staysD)

lemma stays_lift [intro]: "stays P V (lift_io r)"
  by (simp add: stays_def lift_io_def)

lemma stays_reads [intro]: "stays P V (reads q)"
  by (simp add: stays_def reads_def)

lemma stays_bind [intro]: "stays P V m \<Longrightarrow> (\<And>x. stays P V (f x)) \<Longrightarrow> stays P V (iobind m f)"
  unfolding stays_def iobind_def by (auto split: prod.splits sum.splits)

lemma holds_put: "holds_on P V d \<Longrightarrow> p \<notin> P \<Longrightarrow> holds_on P V (put_node p n d)"
  by (auto simp: holds_on_def durable_def disk_ok_def put_node_def update_conv')

lemma holds_del: "holds_on P V d \<Longrightarrow> p \<notin> P \<Longrightarrow> holds_on P V (del_node p d)"
  by (auto simp: holds_on_def durable_def disk_ok_def del_node_def delete_conv')

lemma holds_tear: "holds_on P V d \<Longrightarrow> p \<notin> P \<Longrightarrow> holds_on P V (tear p b d)"
  by (auto simp: holds_on_def durable_def disk_ok_def tear_def update_conv' split: option.splits)

lemma holds_spend [simp]: "holds_on P V (spend d) = holds_on P V d"
  by (simp add: holds_on_def durable_def disk_ok_def spend_def)

lemma holds_torn [simp]: "holds_on P V (d\<lparr>dk_torn := k\<rparr>) = holds_on P V d"
  by (simp add: holds_on_def durable_def disk_ok_def)

lemma holds_unsynced: "holds_on P V d \<Longrightarrow> U \<inter> P \<subseteq> dk_unsynced d \<Longrightarrow> holds_on P V (d\<lparr>dk_unsynced := U\<rparr>)"
  by (auto simp: holds_on_def durable_def disk_ok_def)

lemma stays_write: "p \<notin> P \<Longrightarrow> stays P V (write_all_sync p b)"
  by (auto simp: stays_def write_all_sync_def put_node_def intro!: holds_put [unfolded put_node_def] holds_tear holds_unsynced)

lemma stays_trunc: "p \<notin> P \<Longrightarrow> stays P V (write_all_trunc p b)"
  by (simp add: stays_def write_all_trunc_def holds_tear)

lemma stays_rename:
  assumes "a \<notin> P" "b \<notin> P"
  shows "stays P V (rename a b)"
  unfolding stays_def rename_def
proof (intro allI impI)
  fix d assume "holds_on P V d"
  then have "holds_on P V (put_node b (File x) (del_node a d)\<lparr>dk_unsynced :=
      (if a \<in> dk_unsynced d then insert b (dk_unsynced d) else dk_unsynced d - {b})\<rparr>)" for x
    using assms by (intro holds_unsynced holds_put holds_del) (auto simp: put_node_def del_node_def)
  with \<open>holds_on P V d\<close> show "holds_on P V (snd (case lookup (dk_fs d) a of
        Some (File x) \<Rightarrow>
          if \<not> writable (dk_fs d) b then (SErr Internal, d)
          else if dk_left d = 0 then (SErr (dk_fault d), d)
          else (Inr (), spend (put_node b (File x) (del_node a d)\<lparr>dk_unsynced :=
                 (if a \<in> dk_unsynced d then insert b (dk_unsynced d) else dk_unsynced d - {b})\<rparr>))
      | _ \<Rightarrow> (SErr Internal, d)))"
    by (auto split: option.splits fs_node.splits)
qed

lemma stays_fsync: "stays P V (fsync_dir p)"
  by (auto simp: stays_def fsync_dir_def holds_on_def durable_def disk_ok_def spend_def)

lemma map_of_filter_key: "map_of (filter (\<lambda>(k, v). Q k) xs) k = (if Q k then map_of xs k else None)"
  by (induction xs) auto

lemma stays_create:
  assumes "p \<notin> P" "\<And>q. q \<in> P \<Longrightarrow> \<not> below p q"
  shows "stays P V (create_dir p)"
proof -
  have "holds_on P V (d\<lparr>dk_fs := filter (\<lambda>(q, n). \<not> below p q) (dk_fs d), dk_maybe := \<lambda>q. if below p q then {None} else dk_maybe d q,
      dk_unsynced := {q \<in> dk_unsynced d. q \<noteq> p \<and> \<not> below p q}\<rparr>)" if "holds_on P V d" for d
    using that assms(2) by (auto simp: holds_on_def durable_def disk_ok_def map_of_filter_key)
  then show ?thesis using assms(1) by (simp add: stays_def create_dir_def holds_put)
qed

lemma stays_unlink: "p \<notin> P \<Longrightarrow> stays P V (unlink p)"
  by (simp add: stays_def unlink_def holds_del)

lemma stays_unlink_all: "set ps \<inter> P = {} \<Longrightarrow> stays P V (unlink_all ps)"
  by (induction ps) (auto intro!: stays_unlink)

lemma stays_remove:
  assumes "p \<notin> P" "\<And>q. q \<in> P \<Longrightarrow> \<not> below p q"
  shows "stays P V (remove_dir_all p)"
proof -
  have "stays P V (unlink_all (rev (sort_key length (filter (below p) (map fst f))) @ [p]))" for f :: fs
    using assms by (intro stays_unlink_all) auto
  then show ?thesis by (simp add: stays_def remove_dir_all_def)
qed

text \<open>A crash of a disk that durably holds \<open>V\<close> on \<open>P\<close> finds \<open>V\<close> there, and so does the process itself.\<close>

lemma holds_on_image: "holds_on P V d \<Longrightarrow> crash_image d f \<Longrightarrow> p \<in> P \<Longrightarrow> map_of f p = V p"
  by (force simp: holds_on_def durable_def crash_image_def)

lemma holds_on_view: "holds_on P V d \<Longrightarrow> p \<in> P \<Longrightarrow> map_of (dk_fs d) p = V p"
  by (simp add: holds_on_def durable_def)


section \<open>What a completed step did\<close>

lemma iobind_Inr: "iobind m f d = (Inr y, d'') \<longleftrightarrow> (\<exists>x d'. m d = (Inr x, d') \<and> f x d' = (Inr y, d''))"
  by (auto simp: iobind_def split: prod.splits sum.splits)

lemma iobind_Inl: "iobind m f d = (Inl e, d'') \<longleftrightarrow> m d = (Inl e, d'') \<or> (\<exists>x d'. m d = (Inr x, d') \<and> f x d' = (Inl e, d''))"
  by (auto simp: iobind_def split: prod.splits sum.splits)

lemma lift_io_iff [simp]: "lift_io r d = (r', d') \<longleftrightarrow> r' = r \<and> d' = d"
  by (auto simp: lift_io_def)

lemma reads_iff [simp]: "reads q d = (r, d') \<longleftrightarrow> r = q (dk_fs d) \<and> d' = d"
  by (auto simp: reads_def)

lemma write_done:
  assumes "write_all_sync p b d = (Inr u, d')"
  shows "map_of (dk_fs d') = (map_of (dk_fs d))(p \<mapsto> File b)" "dk_unsynced d' = dk_unsynced d - {p}"
    "\<And>q. q \<noteq> p \<Longrightarrow> dk_maybe d' q = dk_maybe d q" "dk_maybe d' p = insert (Some (File b)) (dk_maybe d p)"
  using assms by (auto simp: write_all_sync_def put_node_def spend_def update_conv' split: if_splits)

lemma rename_done:
  assumes "rename a b d = (Inr u, d')"
  shows "\<exists>x. map_of (dk_fs d) a = Some (File x) \<and> map_of (dk_fs d') = (map_of (dk_fs d))(a := None, b \<mapsto> File x) \<and>
      dk_maybe d' = (\<lambda>q. if q = b then insert (Some (File x)) (if b = a then insert None (dk_maybe d a) else dk_maybe d b)
                         else if q = a then insert None (dk_maybe d a) else dk_maybe d q)"
    "a \<notin> dk_unsynced d \<Longrightarrow> dk_unsynced d' = dk_unsynced d - {b}"
  using assms
  by (auto simp: rename_def lookup_def put_node_def del_node_def spend_def update_conv' delete_conv' fun_eq_iff
      split: if_splits option.splits fs_node.splits)

lemma fsync_done:
  assumes "fsync_dir p d = (Inr u, d')"
  shows "dk_fs d' = dk_fs d" "dk_unsynced d' = dk_unsynced d"
    "dk_maybe d' q = (if q \<noteq> [] \<and> butlast q = p \<and> q \<notin> dk_unsynced d then {map_of (dk_fs d) q} else dk_maybe d q)"
  using assms by (auto simp: fsync_dir_def spend_def split: if_splits)

lemma create_done:
  assumes "create_dir p d = (Inr u, d')"
  shows "map_of (dk_fs d') = (\<lambda>q. if q = p then Some Dir else if below p q then None else map_of (dk_fs d) q)"
    "dk_unsynced d' = {q \<in> dk_unsynced d. q \<noteq> p \<and> \<not> below p q}"
  using assms
  by (auto simp: create_dir_def put_node_def spend_def update_conv' map_of_filter_key fun_eq_iff split: if_splits)

lemma fsync_durable:
  "fsync_dir p d = (Inr u, d') \<Longrightarrow> q \<noteq> [] \<Longrightarrow> butlast q = p \<Longrightarrow> q \<notin> dk_unsynced d \<Longrightarrow> durable d' q (map_of (dk_fs d) q)"
  by (simp add: durable_def fsync_done)

lemma stays_bind_reads:
  assumes "\<And>d x. holds_on P V d \<Longrightarrow> q (dk_fs d) = Inr x \<Longrightarrow> stays P V (g x)"
  shows "stays P V (iobind (reads q) g)"
  unfolding stays_def
proof (intro allI impI)
  fix d assume d: "holds_on P V d"
  show "holds_on P V (snd (iobind (reads q) g d))"
    using d assms [OF d] by (cases "q (dk_fs d)") (simp_all add: iobind_def reads_def stays_def)
qed

end
