(* ===== verification/Checkpoint_Store.thy ===== *)
theory Checkpoint_Store
  imports Store_Fs Checkpoint_Codec Builtin_Fns
begin

text \<open>
  The checkpoint store of \<^verbatim>\<open>sparrow-runtime/src/checkpoint.rs\<close>: generations of chunk files with a
  manifest, the \<^verbatim>\<open>CURRENT\<close> pointer, publication markers, retention and recovery.

  Paths are relative to the store directory. The participant-aware snapshots of
  \<^verbatim>\<open>pipeline_checkpoint.rs\<close>, the identity of an output target, the writer lock of \<^verbatim>\<open>sparrow-io\<close> and
  the reservation of scratch memory are the parameters of \<open>store_env\<close>; a load that bills a job is the
  load whose reservations are granted.
\<close>

section \<open>Names\<close>

definition pad :: "nat \<Rightarrow> string \<Rightarrow> string" where
  "pad w s = replicate (w - length s) (CHR ''0'') @ s"

definition newline :: string where "newline = [CHR 0x0A]"

definition gen_name :: "nat \<Rightarrow> string" where
  "gen_name gid = ''chk-'' @ pad 8 (show_nat gid)"

definition chunk_name :: "nat \<Rightarrow> string" where
  "chunk_name i = pad 4 (show_nat i) @ ''.bin''"

definition part_name :: "nat \<Rightarrow> string" where
  "part_name i = chunk_name i @ ''.part''"

definition parse_gen_name :: "string \<Rightarrow> nat option" where
  "parse_gen_name s = (if take 4 s = ''chk-'' then parse_u64 (drop 4 s) else None)"

section \<open>Reading the directory\<close>

definition read_bounded :: "path \<Rightarrow> nat \<Rightarrow> fs \<Rightarrow> bytes sresult" where
  "read_bounded p mx f =
     (case lookup f p of
        None \<Rightarrow> SErr Internal
      | Some (File b) \<Rightarrow> if length b > mx then SErr BoundExceeded else Inr b
      | Some _ \<Rightarrow> SErr PolicyDenied)"

primrec walk_list :: "(path \<Rightarrow> nat \<Rightarrow> (nat \<times> nat) sresult) \<Rightarrow> path \<Rightarrow> (string \<times> fs_node) list \<Rightarrow> nat \<Rightarrow> nat \<Rightarrow> (nat \<times> nat) sresult" where
  "walk_list sub p [] tot n = Inr (tot, n)"
| "walk_list sub p (e # es) tot n =
     (if Suc n > 300000 then SErr BoundExceeded
      else case snd e of
        Special \<Rightarrow> SErr PolicyDenied
      | Dir \<Rightarrow> rbind (sub (p @ [fst e]) (Suc n)) (\<lambda>(s, n'). walk_list sub p es (sat_u64 (tot + s)) n')
      | File b \<Rightarrow> walk_list sub p es (sat_u64 (tot + length b)) (Suc n))"

primrec walk :: "fs \<Rightarrow> nat \<Rightarrow> path \<Rightarrow> nat \<Rightarrow> (nat \<times> nat) sresult" where
  "walk f 0 = (\<lambda>p n. SErr BoundExceeded)"
| "walk f (Suc k) = (\<lambda>p n. rbind (read_dir f p) (\<lambda>es. walk_list (walk f k) p es 0 n))"

definition dir_size :: "path \<Rightarrow> fs \<Rightarrow> nat sresult" where
  "dir_size p f = rbind (walk f 9 p 0) (\<lambda>(tot, _). Inr tot)"

fun list_ids :: "nat \<Rightarrow> nat list \<Rightarrow> (string \<times> fs_node) list \<Rightarrow> nat list sresult" where
  "list_ids n ids [] = Inr ids"
| "list_ids n ids ((s, node) # es) =
     (if n \<ge> 1024 then SErr BoundExceeded
      else if \<not> is_str s then list_ids (Suc n) ids es
      else case parse_gen_name s of
        None \<Rightarrow> list_ids (Suc n) ids es
      | Some gid \<Rightarrow>
          if s \<noteq> gen_name gid \<or> node \<noteq> Dir then SErr CodecViolation
          else if length (ids @ [gid]) > 256 then SErr BoundExceeded
          else list_ids (Suc n) (ids @ [gid]) es)"

definition list_generation_ids :: "fs \<Rightarrow> nat list sresult" where
  "list_generation_ids f = rbind (read_dir f []) (list_ids 0 [])"

definition read_current :: "fs \<Rightarrow> nat option sresult" where
  "read_current f =
     (if lookup f [''CURRENT''] = None then Inr None
      else rbind (read_bounded [''CURRENT''] 128 f) (\<lambda>b.
        if \<not> valid_utf8 b then SErr CodecViolation
        else case parse_gen_name (trim (bytes_str b)) of
          None \<Rightarrow> SErr CodecViolation
        | Some gid \<Rightarrow> Inr (Some gid)))"

section \<open>The store\<close>

datatype fault_point = NoFault | DuringChunkWrite | AfterChunkWrite | AfterAck | AfterManifestTmp | AfterManifestRename | CorruptChecksum

record checkpoint_retention =
  rt_generations :: nat
  rt_max_bytes :: nat

definition retention_default :: checkpoint_retention where
  "retention_default = \<lparr>rt_generations = 3, rt_max_bytes = 33554432\<rparr>"

definition retention_validate :: "checkpoint_retention \<Rightarrow> unit sresult" where
  "retention_validate r =
     (if \<not> (1 \<le> rt_generations r \<and> rt_generations r \<le> 128) \<or> \<not> (1048576 \<le> rt_max_bytes r \<and> rt_max_bytes r \<le> 1073741824)
      then SErr InvalidArgument else Inr ())"

record 'i cp_store =
  cp_next_id :: nat
  cp_fault :: fault_point
  cp_max_state_keys :: nat
  cp_locked :: bool
  cp_retention :: checkpoint_retention
  cp_maintenance_error :: "error_code option"
  cp_pinned :: "nat option"
  cp_read_only :: bool
  cp_pipeline_version :: "nat option"
  cp_sink :: "'i option"

record ('p, 'i) store_env =
  se_layout :: layout
  se_entry_size :: nat
  se_pipe_decode :: "nat \<Rightarrow> bool \<Rightarrow> bytes \<Rightarrow> 'p sresult"
  se_pipe_id :: "'p \<Rightarrow> nat"
  se_sink_identity :: "bytes \<Rightarrow> 'i sresult"
  se_scratch :: "unit sresult"
  se_lock :: "unit sresult"

datatype 'p stored_snapshot = Legacy checkpoint_snapshot | Pipeline 'p

definition stored_id :: "('p, 'i) store_env \<Rightarrow> 'p stored_snapshot \<Rightarrow> nat" where
  "stored_id env s = (case s of Legacy l \<Rightarrow> cs_checkpoint_id l | Pipeline p \<Rightarrow> se_pipe_id env p)"

definition version_bytes :: "bytes \<Rightarrow> bytes option" where
  "version_bytes b = (if length b < 6 then None else Some (take 2 (drop 4 b)))"

definition is_pipeline :: "bytes \<Rightarrow> bool" where
  "is_pipeline b \<longleftrightarrow> (case version_bytes b of None \<Rightarrow> False | Some v \<Rightarrow> v ! 1 = 0 \<and> 3 \<le> v ! 0 \<and> v ! 0 \<le> 39)"

text \<open>
  The only \<open>UnsupportedRestore\<close> of the legacy decoder is \<^verbatim>\<open>codec1_extended\<close>, which carries a
  checkpoint guard: no older generation is tried in its place.
\<close>

definition guarded_codec :: "'a result \<Rightarrow> 'a sresult" where
  "guarded_codec r = (case r of Inl e \<Rightarrow> Inl (e, err_code e = UnsupportedRestore) | Inr x \<Rightarrow> Inr x)"

definition stored_decode :: "('p, 'i) store_env \<Rightarrow> nat \<Rightarrow> bool \<Rightarrow> bytes \<Rightarrow> 'p stored_snapshot sresult" where
  "stored_decode env n mat b =
     (if is_pipeline b then rbind (se_pipe_decode env n mat b) (\<lambda>p. Inr (Pipeline p))
      else rbind (guarded_codec (decode_snapshot (se_layout env) (se_entry_size env) n mat b)) (\<lambda>(s, _). Inr (Legacy s)))"

definition stored_legacy :: "'p stored_snapshot \<Rightarrow> checkpoint_snapshot sresult" where
  "stored_legacy s = (case s of Legacy l \<Rightarrow> Inr l | Pipeline _ \<Rightarrow> SErr UnsupportedRestore)"

definition stored_pipeline :: "'p stored_snapshot \<Rightarrow> 'p sresult" where
  "stored_pipeline s = (case s of Pipeline p \<Rightarrow> Inr p | Legacy _ \<Rightarrow> SErr UnsupportedRestore)"

definition nonfallback_error :: "'i cp_store \<Rightarrow> sparrow_error \<times> bool \<Rightarrow> bool" where
  "nonfallback_error st e \<longleftrightarrow> snd e \<or> (cp_sink st \<noteq> None \<and> err_code (fst e) = ResourceExhausted)"

definition sink_mismatch :: "'a sresult" where
  "sink_mismatch = Inl (new_error UnsupportedRestore, True)"

definition check_sink_payload :: "('p, 'i) store_env \<Rightarrow> 'i cp_store \<Rightarrow> bytes \<Rightarrow> unit sresult" where
  "check_sink_payload env st payload =
     (case cp_sink st of
        None \<Rightarrow> Inr ()
      | Some expected \<Rightarrow>
          (case cp_pipeline_version st of
             None \<Rightarrow> sink_mismatch
           | Some version \<Rightarrow>
               if version_bytes payload \<noteq> Some (u16_le version) then sink_mismatch
               else rbind (se_scratch env) (\<lambda>_. rbind (se_sink_identity env payload) (\<lambda>actual.
                 if actual \<noteq> expected then sink_mismatch else Inr ()))))"

section \<open>Loading a generation\<close>

fun load_chunks :: "fs \<Rightarrow> string \<Rightarrow> manifest \<Rightarrow> nat list \<Rightarrow> bytes \<Rightarrow> bytes sresult" where
  "load_chunks f chk m [] payload = Inr payload"
| "load_chunks f chk m (i # is) payload =
     (if exists_path f [chk, part_name i] then SErr CodecViolation
      else rbind (read_bounded [chk, chunk_name i] chunk_size f) (\<lambda>c.
        if length payload + length c > m_bytes m then SErr BoundExceeded
        else if crc32 c \<noteq> (if i < length (m_checksums m) then m_checksums m ! i else 0) then SErr CodecViolation
        else load_chunks f chk m is (payload @ c)))"

definition load_generation :: "('p, 'i) store_env \<Rightarrow> 'i cp_store \<Rightarrow> bool \<Rightarrow> nat \<Rightarrow> fs \<Rightarrow> 'p stored_snapshot sresult" where
  "load_generation env st mat gid f =
     (let chk = gen_name gid in
      case lookup f [chk] of
        None \<Rightarrow> SErr Internal
      | Some n \<Rightarrow>
          if n \<noteq> Dir then SErr PolicyDenied
          else if \<not> exists_path f [chk, ''MANIFEST''] then SErr UnsupportedRestore
          else if \<not> exists_path f [chk, ''ACK''] then SErr UnsupportedRestore
          else rbind (read_bounded [chk, ''MANIFEST''] max_manifest_bytes f) (\<lambda>man_bytes.
            rbind (unguarded (manifest_decode man_bytes)) (\<lambda>m.
              if m_checkpoint_id m \<noteq> gid then SErr CodecViolation
              else if m_bytes m > max_snapshot_bytes then SErr BoundExceeded
              else rbind (load_chunks f chk m [0..<m_n_chunks m] []) (\<lambda>payload.
                if length payload \<noteq> m_bytes m then SErr CodecViolation
                else rbind (check_sink_payload env st payload) (\<lambda>_.
                  rbind (stored_decode env (cp_max_state_keys st) mat payload) (\<lambda>s.
                    if stored_id env s \<noteq> gid then SErr CodecViolation else Inr s))))))"

definition pub_marker :: "nat \<Rightarrow> bytes \<Rightarrow> bytes" where
  "pub_marker gid man = str_bytes (''PUB1 '' @ show_nat gid @ '' '' @ show_nat (unat (crc32 man)) @ newline)"

definition was_published :: "fs \<Rightarrow> nat \<Rightarrow> bool" where
  "was_published f gid =
     (case read_bounded [gen_name gid, ''PUBLISHED''] 128 f of
        Inl _ \<Rightarrow> False
      | Inr marker \<Rightarrow>
          (case read_bounded [gen_name gid, ''MANIFEST''] max_manifest_bytes f of
             Inl _ \<Rightarrow> False
           | Inr man \<Rightarrow> marker = pub_marker gid man))"

fun first_valid :: "('p, 'i) store_env \<Rightarrow> 'i cp_store \<Rightarrow> bool \<Rightarrow> nat option \<Rightarrow> fs \<Rightarrow> nat list \<Rightarrow> 'p stored_snapshot option sresult" where
  "first_valid env st mat skip f [] = Inr None"
| "first_valid env st mat skip f (gid # ids) =
     (if (case skip of None \<Rightarrow> False | Some current \<Rightarrow> gid \<ge> current) then first_valid env st mat skip f ids
      else if \<not> was_published f gid then first_valid env st mat skip f ids
      else case load_generation env st mat gid f of
        Inr s \<Rightarrow> Inr (Some s)
      | Inl e \<Rightarrow> if nonfallback_error st e then Inl e else first_valid env st mat skip f ids)"

definition load_latest_valid_except :: "('p, 'i) store_env \<Rightarrow> 'i cp_store \<Rightarrow> bool \<Rightarrow> nat option \<Rightarrow> fs \<Rightarrow> 'p stored_snapshot option sresult" where
  "load_latest_valid_except env st mat skip f =
     (case list_generation_ids f of
        Inl _ \<Rightarrow> Inr None
      | Inr ids \<Rightarrow> first_valid env st mat skip f (rev (sort ids)))"

section \<open>Recovery\<close>

definition recover_any_committed :: "('p, 'i) store_env \<Rightarrow> 'i cp_store \<Rightarrow> bool \<Rightarrow> fs \<Rightarrow> 'p stored_snapshot option sresult" where
  "recover_any_committed env st mat f =
     (case read_current f of
        Inr (Some gid) \<Rightarrow>
          (case load_generation env st mat gid f of
             Inr s \<Rightarrow> Inr (Some s)
           | Inl e \<Rightarrow>
               if nonfallback_error st e then Inl e
               else rbind (load_latest_valid_except env st mat (Some gid) f) (\<lambda>r.
                 case r of Some s \<Rightarrow> Inr (Some s) | None \<Rightarrow> Inl e))
      | Inr None \<Rightarrow> Inr None
      | Inl e \<Rightarrow>
          rbind (load_latest_valid_except env st mat None f) (\<lambda>r.
            case r of Some s \<Rightarrow> Inr (Some s) | None \<Rightarrow> Inl e))"

definition recover_committed :: "('p, 'i) store_env \<Rightarrow> 'i cp_store \<Rightarrow> fs \<Rightarrow> checkpoint_snapshot option sresult" where
  "recover_committed env st f =
     rbind (recover_any_committed env st True f) (\<lambda>r.
       case r of None \<Rightarrow> Inr None | Some s \<Rightarrow> rbind (stored_legacy s) (\<lambda>l. Inr (Some l)))"

definition recover_required :: "('p, 'i) store_env \<Rightarrow> 'i cp_store \<Rightarrow> fs \<Rightarrow> checkpoint_snapshot sresult" where
  "recover_required env st f =
     rbind (recover_committed env st f) (\<lambda>r. case r of Some s \<Rightarrow> Inr s | None \<Rightarrow> SErr UnsupportedRestore)"

definition recover_pipeline_required :: "('p, 'i) store_env \<Rightarrow> 'i cp_store \<Rightarrow> fs \<Rightarrow> 'p sresult" where
  "recover_pipeline_required env st f =
     rbind (recover_any_committed env st True f) (\<lambda>r. case r of Some s \<Rightarrow> stored_pipeline s | None \<Rightarrow> SErr UnsupportedRestore)"

definition has_committed :: "('p, 'i) store_env \<Rightarrow> 'i cp_store \<Rightarrow> fs \<Rightarrow> bool" where
  "has_committed env st f = (case recover_any_committed env st False f of Inr (Some _) \<Rightarrow> True | _ \<Rightarrow> False)"

definition recover_any_id :: "('p, 'i) store_env \<Rightarrow> 'i cp_store \<Rightarrow> bool \<Rightarrow> nat \<Rightarrow> fs \<Rightarrow> 'p stored_snapshot sresult" where
  "recover_any_id env st mat gid f =
     (if was_published f gid then load_generation env st mat gid f
      else rbind (read_current f) (\<lambda>cur.
        if cur \<noteq> Some gid then SErr UnsupportedRestore else load_generation env st mat gid f))"

definition pin_recovery_point :: "('p, 'i) store_env \<Rightarrow> nat \<Rightarrow> fs \<Rightarrow> 'i cp_store \<Rightarrow> 'i cp_store sresult" where
  "pin_recovery_point env gid f st = rbind (recover_any_id env st False gid f) (\<lambda>_. Inr (st\<lparr>cp_pinned := Some gid\<rparr>))"

section \<open>Retention\<close>

definition record_publication :: "nat \<Rightarrow> unit io" where
  "record_publication gid =
     iobind (reads (read_bounded [gen_name gid, ''MANIFEST''] max_manifest_bytes)) (\<lambda>man.
     iobind (write_all_sync [gen_name gid, ''PUBLISHED.tmp''] (pub_marker gid man)) (\<lambda>_.
     iobind (rename [gen_name gid, ''PUBLISHED.tmp''] [gen_name gid, ''PUBLISHED'']) (\<lambda>_.
       fsync_dir [gen_name gid])))"

definition current_id :: "fs \<Rightarrow> nat option" where
  "current_id f = (case read_current f of Inr r \<Rightarrow> r | Inl _ \<Rightarrow> None)"

fun prune_loop :: "'i cp_store \<Rightarrow> nat option \<Rightarrow> nat \<Rightarrow> nat \<Rightarrow> nat list \<Rightarrow> nat \<Rightarrow> nat \<Rightarrow> bool \<Rightarrow> (nat \<times> bool) io" where
  "prune_loop st protected reserve keep [] cnt used removed = lift_io (Inr (used, removed))"
| "prune_loop st protected reserve keep (gid # ids) cnt used removed =
     (if cnt \<le> keep \<and> sat_u64 (used + reserve) \<le> rt_max_bytes (cp_retention st) then lift_io (Inr (used, removed))
      else iobind (reads (\<lambda>f. Inr (current_id f))) (\<lambda>cur.
        if Some gid = protected \<or> Some gid = cp_pinned st \<or> Some gid = cur
        then prune_loop st protected reserve keep ids cnt used removed
        else iobind (reads (dir_size [gen_name gid])) (\<lambda>sz.
             iobind (remove_dir_all [gen_name gid]) (\<lambda>_.
               prune_loop st protected reserve keep ids (cnt - 1) (used - sz) True))))"

definition prune_order :: "nat list \<Rightarrow> fs \<Rightarrow> nat list" where
  "prune_order ids f = sort (filter (\<lambda>gid. \<not> was_published f gid) ids) @ sort (filter (was_published f) ids)"

definition prune_keep :: "'i cp_store \<Rightarrow> nat \<Rightarrow> nat" where
  "prune_keep st reserve =
     max (rt_generations (cp_retention st)) (if cp_pinned st \<noteq> None then 2 else 1) - (if reserve > 0 then 1 else 0)"

definition prune :: "'i cp_store \<Rightarrow> nat option \<Rightarrow> nat \<Rightarrow> unit io" where
  "prune st protected reserve =
     iobind (reads (\<lambda>f. rbind (list_generation_ids f) (\<lambda>ids. Inr (prune_order ids f)))) (\<lambda>ids.
     iobind (reads (dir_size [])) (\<lambda>used.
     iobind (prune_loop st protected reserve (prune_keep st reserve) ids (length ids) used False) (\<lambda>(used', removed).
     iobind (if removed then fsync_dir [] else lift_io (Inr ())) (\<lambda>_.
       lift_io (if sat_u64 (used' + reserve) > rt_max_bytes (cp_retention st) then SErr ResourceExhausted else Inr ())))))"

section \<open>Opening\<close>

definition next_generation :: "fs \<Rightarrow> nat sresult" where
  "next_generation f =
     rbind (list_generation_ids f) (\<lambda>ids.
       let n = fold max ids 0 + 1 in if is_u64 n then Inr n else SErr BoundExceeded)"

definition open_impl :: "nat \<Rightarrow> bool \<Rightarrow> fs \<Rightarrow> 'i cp_store sresult" where
  "open_impl n create f =
     rbind (next_generation f) (\<lambda>next.
       Inr \<lparr>cp_next_id = next, cp_fault = NoFault, cp_max_state_keys = freeze_entry_cap n, cp_locked = False,
            cp_retention = retention_default, cp_maintenance_error = None, cp_pinned = None, cp_read_only = \<not> create,
            cp_pipeline_version = None, cp_sink = None\<rparr>)"

definition open_exclusive :: "('p, 'i) store_env \<Rightarrow> nat \<Rightarrow> checkpoint_retention \<Rightarrow> fs \<Rightarrow> 'i cp_store sresult" where
  "open_exclusive env n r f =
     rbind (retention_validate r) (\<lambda>_.
     rbind (open_impl n True f) (\<lambda>st.
     rbind (se_lock env) (\<lambda>_.
     rbind (next_generation f) (\<lambda>next.
       Inr (st\<lparr>cp_locked := True, cp_next_id := next, cp_retention := r\<rparr>)))))"

definition classify_file :: "nat \<Rightarrow> path \<Rightarrow> fs \<Rightarrow> unit sresult" where
  "classify_file version p f =
     (if \<not> exists_path f p then Inr ()
      else rbind (read_bounded p chunk_size f) (\<lambda>b.
        if length b < 6 \<or> take 4 b \<noteq> snapshot_magic then SErr UnsupportedRestore
        else if take 2 (drop 4 b) = [1, 0] \<or> take 2 (drop 4 b) = [2, 0] then SErr UnsupportedRestore
        else if take 2 (drop 4 b) \<noteq> u16_le version then SErr UnsupportedRestore
        else Inr ()))"

fun classify_history :: "nat \<Rightarrow> nat list \<Rightarrow> fs \<Rightarrow> unit sresult" where
  "classify_history version [] f = Inr ()"
| "classify_history version (gid # ids) f =
     rbind (classify_file version [gen_name gid, ''0000.bin''] f) (\<lambda>_.
     rbind (classify_file version [gen_name gid, ''0000.bin.part''] f) (\<lambda>_.
       classify_history version ids f))"

definition open_profile_exclusive :: "('p, 'i) store_env \<Rightarrow> nat \<Rightarrow> checkpoint_retention \<Rightarrow> nat \<Rightarrow> fs \<Rightarrow> 'i cp_store sresult" where
  "open_profile_exclusive env n r version f =
     rbind (open_exclusive env n r f) (\<lambda>st.
     rbind (list_generation_ids f) (\<lambda>ids.
     rbind (classify_history version ids f) (\<lambda>_.
       Inr (st\<lparr>cp_pipeline_version := Some version\<rparr>))))"

definition set_max_state_keys :: "nat \<Rightarrow> 'i cp_store \<Rightarrow> 'i cp_store" where
  "set_max_state_keys n st = st\<lparr>cp_max_state_keys := freeze_entry_cap n\<rparr>"

section \<open>The activation marker\<close>

definition generation_marker :: "fs \<Rightarrow> bytes option sresult" where
  "generation_marker f =
     (if \<not> exists_path f [''STATE_GENERATION''] then Inr None
      else rbind (read_bounded [''STATE_GENERATION''] 20 f) (\<lambda>b.
        if length b \<noteq> 20 \<or> take 4 b \<noteq> str_bytes ''SG01'' \<or> drop 4 b = replicate 16 0 then SErr CodecViolation
        else Inr (Some (drop 4 b))))"

definition activate_state_generation :: "('p, 'i) store_env \<Rightarrow> 'i cp_store \<Rightarrow> bytes \<Rightarrow> unit io" where
  "activate_state_generation env st g =
     (if cp_read_only st \<or> g = replicate 16 0 then lift_io (SErr PolicyDenied)
      else iobind (lift_io (if cp_locked st then Inr () else se_lock env)) (\<lambda>_.
        iobind (reads (\<lambda>f. Inr (generation_marker f))) (\<lambda>m.
          if m = Inr (Some g) then lift_io (Inr ())
          else iobind (write_all_sync [''STATE_GENERATION.tmp''] (str_bytes ''SG01'' @ g)) (\<lambda>_.
               iobind (rename [''STATE_GENERATION.tmp''] [''STATE_GENERATION'']) (\<lambda>_.
                 fsync_dir [])))))"

section \<open>Committing\<close>

definition commit_precheck :: "('p, 'i) store_env \<Rightarrow> 'i cp_store \<Rightarrow> bytes \<Rightarrow> fs \<Rightarrow> nat sresult" where
  "commit_precheck env st payload f =
     (if cp_read_only st then SErr PolicyDenied
      else rbind (if cp_locked st then Inr () else se_lock env) (\<lambda>_.
        if (case cp_pipeline_version st of None \<Rightarrow> False | Some v \<Rightarrow> version_bytes payload \<noteq> Some (u16_le v)) then SErr UnsupportedRestore
        else rbind (check_sink_payload env st payload) (\<lambda>_. next_generation f)))"

definition commit_admit :: "('p, 'i) store_env \<Rightarrow> 'i cp_store \<Rightarrow> nat \<Rightarrow> bytes \<Rightarrow> bool \<Rightarrow> fs \<Rightarrow> unit sresult" where
  "commit_admit env st gid payload trusted f =
     (if gid = u64_max \<or> gid < cp_next_id st \<or> exists_path f [gen_name gid] then SErr InvalidArgument
      else if length payload < 14 \<or> from_le_bytes (take 8 (drop 6 payload)) \<noteq> gid then SErr CodecViolation
      else if length payload > max_snapshot_bytes then SErr BoundExceeded
      else if trusted then Inr ()
      else rbind (stored_decode env (cp_max_state_keys st) False payload) (\<lambda>_. Inr ()))"

definition protect_fallback :: "('p, 'i) store_env \<Rightarrow> 'i cp_store \<Rightarrow> nat option \<Rightarrow> sparrow_error \<times> bool \<Rightarrow> nat option io" where
  "protect_fallback env st skip e =
     iobind (reads (load_latest_valid_except env st False skip)) (\<lambda>r.
       lift_io (case r of None \<Rightarrow> Inl e | Some s \<Rightarrow> Inr (Some (stored_id env s))))"

definition protect_current :: "('p, 'i) store_env \<Rightarrow> 'i cp_store \<Rightarrow> nat option io" where
  "protect_current env st =
     iobind (reads (\<lambda>f. Inr (read_current f))) (\<lambda>cur.
       case cur of
         Inr None \<Rightarrow> lift_io (Inr None)
       | Inl e \<Rightarrow> protect_fallback env st None e
       | Inr (Some current) \<Rightarrow>
           iobind (reads (\<lambda>f. Inr (load_generation env st False current f))) (\<lambda>r.
             case r of
               Inr _ \<Rightarrow>
                 iobind (reads (\<lambda>f. Inr (was_published f current))) (\<lambda>pub.
                 iobind (if pub then lift_io (Inr ()) else record_publication current) (\<lambda>_.
                   lift_io (Inr (Some current))))
             | Inl e \<Rightarrow>
                 if nonfallback_error st e then lift_io (Inl e)
                 else protect_fallback env st (Some current) e))"

function chunks :: "nat \<Rightarrow> bytes \<Rightarrow> bytes list" where
  "chunks n [] = []"
| "chunks n (b # bs) = take (Suc n) (b # bs) # chunks n (drop (Suc n) (b # bs))"
  by pat_completeness auto
termination
  by (relation "measure (\<lambda>(n, bs). length bs)") auto

definition cut_fault :: "'i cp_store \<Rightarrow> fault_point \<Rightarrow> unit io" where
  "cut_fault st p = lift_io (if cp_fault st = p then SErr Cancelled else Inr ())"

fun write_chunks :: "'i cp_store \<Rightarrow> string \<Rightarrow> nat \<Rightarrow> bytes list \<Rightarrow> unit io" where
  "write_chunks st chk i [] = lift_io (Inr ())"
| "write_chunks st chk i (c # cs) =
     (if cp_fault st = DuringChunkWrite
      then iobind (write_all_trunc [chk, part_name i] (take (length c div 2) c)) (\<lambda>_. lift_io (SErr ResourceExhausted))
      else iobind (write_all_sync [chk, part_name i] c) (\<lambda>_.
           iobind (rename [chk, part_name i] [chk, chunk_name i]) (\<lambda>_.
             write_chunks st chk (Suc i) cs)))"

definition new_manifest :: "nat \<Rightarrow> bytes \<Rightarrow> manifest" where
  "new_manifest gid payload =
     (let cs = chunks (chunk_size - 1) payload in
      \<lparr>m_checkpoint_id = gid, m_n_chunks = length cs, m_bytes = length payload, m_checksums = map crc32 cs, m_codec_version = manifest_version\<rparr>)"

definition corrupt_manifest :: "'i cp_store \<Rightarrow> manifest \<Rightarrow> manifest" where
  "corrupt_manifest st m =
     (if cp_fault st = CorruptChecksum \<and> m_checksums m \<noteq> []
      then m\<lparr>m_checksums := (hd (m_checksums m) XOR 0xffffffff) # tl (m_checksums m)\<rparr> else m)"

definition write_generation :: "'i cp_store \<Rightarrow> nat \<Rightarrow> bytes \<Rightarrow> unit io" where
  "write_generation st gid payload =
     (let chk = gen_name gid; cs = chunks (chunk_size - 1) payload in
      iobind (create_dir [chk]) (\<lambda>_.
      iobind (fsync_dir []) (\<lambda>_.
      iobind (lift_io (if length cs > max_manifest_chunks then SErr BoundExceeded else Inr ())) (\<lambda>_.
      iobind (write_chunks st chk 0 cs) (\<lambda>_.
      iobind (fsync_dir [chk]) (\<lambda>_.
      iobind (cut_fault st AfterChunkWrite) (\<lambda>_.
      iobind (write_all_sync [chk, ''ACK''] (str_bytes (''ok'' @ newline))) (\<lambda>_.
      iobind (cut_fault st AfterAck) (\<lambda>_.
      iobind (write_all_sync [chk, ''MANIFEST.tmp''] (manifest_encode (corrupt_manifest st (new_manifest gid payload)))) (\<lambda>_.
      iobind (cut_fault st AfterManifestTmp) (\<lambda>_.
      iobind (rename [chk, ''MANIFEST.tmp''] [chk, ''MANIFEST'']) (\<lambda>_.
      iobind (fsync_dir [chk]) (\<lambda>_.
        cut_fault st AfterManifestRename)))))))))))))"

definition publish_current :: "nat \<Rightarrow> unit io" where
  "publish_current gid =
     iobind (write_all_sync [''CURRENT.tmp''] (str_bytes (gen_name gid @ newline))) (\<lambda>_.
     iobind (rename [''CURRENT.tmp''] [''CURRENT'']) (\<lambda>_.
       fsync_dir []))"

definition commit_bytes :: "('p, 'i) store_env \<Rightarrow> 'i cp_store \<Rightarrow> nat \<Rightarrow> bytes \<Rightarrow> bool \<Rightarrow> disk \<Rightarrow> nat sresult \<times> 'i cp_store \<times> disk" where
  "commit_bytes env st gid payload trusted d =
     (case commit_precheck env st payload (dk_fs d) of
        Inl e \<Rightarrow> (Inl e, st, d)
      | Inr disk_next \<Rightarrow>
          let st1 = st\<lparr>cp_next_id := max (cp_next_id st) disk_next\<rparr> in
          (case commit_admit env st1 gid payload trusted (dk_fs d) of
             Inl e \<Rightarrow> (Inl e, st1, d)
           | Inr _ \<Rightarrow>
               (case iobind (protect_current env st1) (\<lambda>p. prune st1 p (length payload + max_manifest_bytes + 4096)) d of
                  (Inl e, d1) \<Rightarrow> (Inl e, st1, d1)
                | (Inr _, d1) \<Rightarrow>
                    let st2 = st1\<lparr>cp_next_id := gid + 1\<rparr> in
                    (case iobind (write_generation st2 gid payload) (\<lambda>_. publish_current gid) d1 of
                       (Inl e, d2) \<Rightarrow> (Inl e, st2, d2)
                     | (Inr _, d2) \<Rightarrow>
                         (case iobind (record_publication gid) (\<lambda>_. prune st2 (Some gid) 0) d2 of
                            (r, d3) \<Rightarrow> (Inr gid, st2\<lparr>cp_maintenance_error :=
                              (case r of Inl e \<Rightarrow> Some (err_code (fst e)) | Inr _ \<Rightarrow> None)\<rparr>, d3))))))"

definition commit :: "('p, 'i) store_env \<Rightarrow> 'i cp_store \<Rightarrow> checkpoint_snapshot \<Rightarrow> disk \<Rightarrow> nat sresult \<times> 'i cp_store \<times> disk" where
  "commit env st s d =
     (case encode_with_max_state_keys (cp_max_state_keys st) s of
        Inl e \<Rightarrow> (Inl (e, False), st, d)
      | Inr payload \<Rightarrow> commit_bytes env st (cs_checkpoint_id s) payload False d)"

definition commit_prepared :: "('p, 'i) store_env \<Rightarrow> 'i cp_store \<Rightarrow> bool \<Rightarrow> nat \<Rightarrow> nat \<Rightarrow> bytes \<Rightarrow> disk \<Rightarrow> nat sresult \<times> 'i cp_store \<times> disk" where
  "commit_prepared env st same_owner entries gid payload d =
     (if cp_sink st \<noteq> None \<and> \<not> same_owner then (SErr UnsupportedRestore, st, d)
      else if entries > cp_max_state_keys st then (SErr BoundExceeded, st, d)
      else commit_bytes env st gid payload True d)"

end
