(* ===== verification/Store_Crash.thy ===== *)
theory Store_Crash
  imports Checkpoint_Store
begin

text \<open>
  Crash safety of the checkpoint store: which directory contents make a generation loadable, that
  an attempt to commit leaves the committed generation loadable wherever it stops, and that a
  completed commit is durable.
\<close>

section \<open>Names\<close>

lemma parse_digits_zeros: "parse_digits 0 (replicate k (CHR ''0'') @ s) = parse_digits 0 s"
  by (induction k) (simp_all add: digit_value_def)

lemma parse_pad: "parse_digits 0 (pad w (show_nat n)) = Some n"
  by (simp add: pad_def parse_digits_zeros parse_digits_show)

lemma pad_inject: "pad w (show_nat m) = pad w (show_nat n) \<longleftrightarrow> m = n"
  by (metis parse_pad option.inject)

lemma gen_name_inject [simp]: "gen_name m = gen_name n \<longleftrightarrow> m = n"
  by (simp add: gen_name_def pad_inject)

lemma chunk_name_inject [simp]: "chunk_name i = chunk_name j \<longleftrightarrow> i = j" "part_name i = part_name j \<longleftrightarrow> i = j"
  by (simp_all add: chunk_name_def part_name_def pad_inject)

lemma last_names: "last (chunk_name i) = CHR ''n''" "last (part_name i) = CHR ''t''"
  by (simp_all add: chunk_name_def part_name_def)

lemma names_differ [simp]:
  "chunk_name i \<noteq> part_name j" "part_name j \<noteq> chunk_name i"
  "chunk_name i \<noteq> ''ACK''" "chunk_name i \<noteq> ''MANIFEST''" "chunk_name i \<noteq> ''MANIFEST.tmp''" "chunk_name i \<noteq> ''PUBLISHED''"
  "chunk_name i \<noteq> ''PUBLISHED.tmp''" "part_name i \<noteq> ''ACK''" "part_name i \<noteq> ''MANIFEST''" "part_name i \<noteq> ''MANIFEST.tmp''"
  "part_name i \<noteq> ''PUBLISHED''" "part_name i \<noteq> ''PUBLISHED.tmp''"
  "''ACK'' \<noteq> chunk_name i" "''MANIFEST'' \<noteq> chunk_name i" "''MANIFEST.tmp'' \<noteq> chunk_name i" "''PUBLISHED'' \<noteq> chunk_name i"
  "''PUBLISHED.tmp'' \<noteq> chunk_name i" "''ACK'' \<noteq> part_name i" "''MANIFEST'' \<noteq> part_name i" "''MANIFEST.tmp'' \<noteq> part_name i"
  "''PUBLISHED'' \<noteq> part_name i" "''PUBLISHED.tmp'' \<noteq> part_name i"
  by (auto dest!: arg_cong [of _ _ last] simp: last_names)

lemma gen_name_differs [simp]:
  "gen_name g \<noteq> ''CURRENT''" "gen_name g \<noteq> ''CURRENT.tmp''" "''CURRENT'' \<noteq> gen_name g" "''CURRENT.tmp'' \<noteq> gen_name g"
  by (simp_all add: gen_name_def)

lemma hd_pad: "hd (pad w (show_nat n)) \<noteq> CHR ''+''"
proof -
  have "hd (pad w (show_nat n)) \<in> set (pad w (show_nat n))" by (rule hd_in_set) (simp add: pad_def)
  then show ?thesis using show_nat_digits [of "hd (pad w (show_nat n))" n] by (auto simp: pad_def split: if_splits)
qed

lemma parse_gen_name_ok: "is_u64 g \<Longrightarrow> parse_gen_name (gen_name g) = Some g"
proof -
  assume g: "is_u64 g"
  obtain c cs where c: "pad 8 (show_nat g) = c # cs" by (cases "pad 8 (show_nat g)") (auto simp: pad_def)
  then have "c \<noteq> CHR ''+''" using hd_pad [of 8 g] by simp
  then show ?thesis using c parse_pad [of 8 g] g
    by (simp add: parse_gen_name_def gen_name_def parse_u64_def parse_unsigned_def checked_u64_def is_u64_def)
qed

text \<open>Generation names are plain ASCII, so trimming the pointer removes just the newline.\<close>

definition plain :: "string \<Rightarrow> bool" where
  "plain s \<longleftrightarrow> list_all (\<lambda>c. (of_char c :: nat) < 128) s"

lemma chars_plain: "plain s \<Longrightarrow> chars s = map (\<lambda>c. [c]) s"
  by (induction s) (simp_all add: plain_def chars.simps(2) utf8_width_def)

lemma plain_utf8: "plain s \<Longrightarrow> valid_utf8 (str_bytes s)"
proof (induction s)
  case (Cons c s)
  have "(word_of_nat (of_char c) :: u8) < 0x80"
    using Cons.prems by (simp add: plain_def word_less_nat_alt unat_word8_of_nat)
  with Cons show ?case by (simp add: str_bytes_def plain_def)
qed (simp add: str_bytes_def)

lemma show_nat_range: "c \<in> set (show_nat n) \<Longrightarrow> 48 \<le> (of_char c :: nat) \<and> (of_char c :: nat) \<le> 57"
proof (induction n rule: show_nat.induct)
  case (1 n)
  have d: "48 \<le> (of_char (digit_char k) :: nat) \<and> (of_char (digit_char k) :: nat) \<le> 57" if "k < 10" for k
    using that by (simp add: digit_char_def)
  from 1 d show ?case by (cases "n < 10") (auto simp: show_nat.simps [of n])
qed

lemma gen_name_chars: "c \<in> set (gen_name g) \<Longrightarrow> 32 < (of_char c :: nat) \<and> (of_char c :: nat) < 128"
  using show_nat_range [of c g] by (auto simp: gen_name_def pad_def split: if_splits)

lemma trim_pointer: "trim (gen_name g @ newline) = gen_name g"
proof -
  have plain: "plain (gen_name g @ newline)" using gen_name_chars by (auto simp: plain_def list_all_iff newline_def)
  have nows: "\<not> is_whitespace [c]" if "c \<in> set (gen_name g)" for c
    using gen_name_chars [OF that] by (simp add: is_whitespace_def)
  have keep: "dropWhile is_whitespace (map (\<lambda>c. [c]) s) = map (\<lambda>c. [c]) s" if "set s \<subseteq> set (gen_name g)" for s
    using that nows by (cases s) auto
  have ne: "gen_name g \<noteq> []" by (simp add: gen_name_def)
  then have "dropWhile is_whitespace (map (\<lambda>c. [c]) (gen_name g @ newline)) = map (\<lambda>c. [c]) (gen_name g @ newline)"
    using nows by (cases "gen_name g") auto
  then show ?thesis using keep [of "rev (gen_name g)"] plain
    by (simp add: trim_def chars_plain newline_def is_whitespace_def flip: rev_map)
qed

definition pointer :: "nat \<Rightarrow> bytes" where
  "pointer g = str_bytes (gen_name g @ newline)"

lemma length_show_nat: "n < 10 ^ Suc k \<Longrightarrow> length (show_nat n) \<le> Suc k"
proof (induction k arbitrary: n)
  case (Suc k)
  then have "n div 10 < 10 ^ Suc k" by (simp add: less_mult_imp_div_less mult.commute)
  with Suc.IH [of "n div 10"] show ?case by (simp add: show_nat.simps [of n])
qed (simp add: show_nat.simps)

lemma length_pointer: "is_u64 g \<Longrightarrow> length (pointer g) \<le> 128"
  using length_show_nat [of g 19] by (simp add: pointer_def gen_name_def pad_def newline_def is_u64_def)

lemma read_pointer:
  assumes "is_u64 g" "map_of f [] = Some Dir" "map_of f [''CURRENT''] = Some (File (pointer g))"
  shows "read_current f = Inr (Some g)"
proof -
  have "plain (gen_name g @ newline)" using gen_name_chars by (auto simp: plain_def list_all_iff newline_def)
  then show ?thesis using assms length_pointer [OF assms(1)] plain_utf8 [of "gen_name g @ newline"] parse_gen_name_ok [OF assms(1)]
    by (simp add: read_current_def read_bounded_def lookup_def trim_pointer pointer_def)
qed

section \<open>A loadable generation\<close>

abbreviation payload_chunks :: "bytes \<Rightarrow> bytes list" where
  "payload_chunks payload \<equiv> chunks (chunk_size - 1) payload"

lemma concat_chunks [simp]: "concat (chunks n b) = b"
  by (induction n b rule: chunks.induct) (simp_all del: take_Suc_Cons drop_Suc_Cons)

lemma chunks_bound: "c \<in> set (chunks n b) \<Longrightarrow> length c \<le> Suc n"
  by (induction n b rule: chunks.induct) (auto simp del: take_Suc_Cons drop_Suc_Cons)

lemma length_chunks: "length (chunks n b) * Suc n \<le> length b + n"
proof (induction n b rule: chunks.induct)
  case (2 n b bs)
  show ?case
  proof (cases "length (b # bs) \<le> Suc n")
    case True
    then show ?thesis by simp
  next
    case False
    then show ?thesis using 2 by simp
  qed
qed simp

definition gen_paths :: "nat \<Rightarrow> bytes \<Rightarrow> path set" where
  "gen_paths g payload = {[], [gen_name g], [gen_name g, ''ACK''], [gen_name g, ''MANIFEST'']}
     \<union> (\<Union>i < length (payload_chunks payload). {[gen_name g, chunk_name i], [gen_name g, part_name i]})"

definition gen_on :: "(path \<Rightarrow> fs_node option) \<Rightarrow> nat \<Rightarrow> bytes \<Rightarrow> bool" where
  "gen_on m g payload \<longleftrightarrow> m [] = Some Dir \<and> m [gen_name g] = Some Dir \<and> m [gen_name g, ''ACK''] \<noteq> None \<and>
     m [gen_name g, ''MANIFEST''] = Some (File (manifest_encode (new_manifest g payload))) \<and>
     (\<forall>i < length (payload_chunks payload). m [gen_name g, part_name i] = None \<and>
        m [gen_name g, chunk_name i] = Some (File (payload_chunks payload ! i)))"

lemma gen_on_cong: "(\<And>p. p \<in> gen_paths g payload \<Longrightarrow> m p = m' p) \<Longrightarrow> gen_on m g payload = gen_on m' g payload"
  by (auto simp: gen_on_def gen_paths_def)

text \<open>What the store's reader asks of the bytes themselves.\<close>

definition loadable :: "('p, 'i) store_env \<Rightarrow> 'i cp_store \<Rightarrow> bool \<Rightarrow> nat \<Rightarrow> bytes \<Rightarrow> 'p stored_snapshot \<Rightarrow> bool" where
  "loadable env st mat g payload s \<longleftrightarrow> is_u64 g \<and> length payload \<le> max_snapshot_bytes \<and> check_sink_payload env st payload = Inr () \<and>
     stored_decode env (cp_max_state_keys st) mat payload = Inr s \<and> stored_id env s = g"

lemma lookup_in_gen: "map_of f [] = Some Dir \<Longrightarrow> map_of f [g] = Some Dir \<Longrightarrow> lookup f [g, n] = map_of f [g, n]"
  by (simp add: lookup_def)

lemma length_concat_take: "k < length cs \<Longrightarrow> length (concat (take k cs)) + length (cs ! k) \<le> length (concat cs)"
proof -
  assume k: "k < length cs"
  have "concat cs = concat (take k cs) @ cs ! k @ concat (drop (Suc k) cs)"
    by (metis append_take_drop_id concat.simps(2) concat_append Cons_nth_drop_Suc k)
  then show ?thesis by (metis length_append le_add1 add.assoc)
qed

lemma load_chunks_ok:
  assumes "map_of f [] = Some Dir" "map_of f [g] = Some Dir"
    and "\<And>i. i < length cs \<Longrightarrow> map_of f [g, part_name i] = None \<and> map_of f [g, chunk_name i] = Some (File (cs ! i))"
    and "\<And>c. c \<in> set cs \<Longrightarrow> length c \<le> chunk_size" "m_checksums m = map crc32 cs" "m_bytes m = length (concat cs)" "k \<le> length cs"
  shows "load_chunks f g m [k..<length cs] (concat (take k cs)) = Inr (concat cs)"
  using assms(7)
proof (induction "length cs - k" arbitrary: k)
  case 0
  then show ?case by simp
next
  case (Suc n)
  then have k: "k < length cs" by simp
  have "load_chunks f g m [Suc k..<length cs] (concat (take (Suc k) cs)) = Inr (concat cs)"
    using Suc.hyps(1) [of "Suc k"] Suc.hyps(2) k by simp
  then show ?case
    using k length_concat_take [OF k] assms(3) [OF k] assms(4) [OF nth_mem [OF k]] assms(5,6)
    by (simp add: upt_conv_Cons exists_path_def lookup_in_gen [OF assms(1,2)] read_bounded_def take_Suc_conv_app_nth)
qed

lemma new_manifest_ok: "is_u64 g \<Longrightarrow> length payload \<le> max_snapshot_bytes \<Longrightarrow> manifest_ok (new_manifest g payload)"
  using length_chunks [of "chunk_size - 1" payload]
  by (simp add: manifest_ok_def new_manifest_def Let_def max_manifest_chunks_def chunk_size_def max_snapshot_bytes_def)

lemma load_generation_ok:
  assumes "gen_on (map_of f) g payload" "loadable env st mat g payload s"
  shows "load_generation env st mat g f = Inr s"
proof -
  let ?m = "new_manifest g payload"
  note on = assms(1) [unfolded gen_on_def] and ld = assms(2) [unfolded loadable_def]
  have look: "lookup f [gen_name g] = Some Dir" "lookup f [gen_name g, n] = map_of f [gen_name g, n]" for n
    using on by (simp_all add: lookup_def)
  have man: "manifest_decode (manifest_encode ?m) = Ok ?m" "length (manifest_encode ?m) \<le> max_manifest_bytes"
    using manifest_roundtrip [OF new_manifest_ok] ld by blast+
  have "load_chunks f (gen_name g) ?m [0..<length (payload_chunks payload)] (concat (take 0 (payload_chunks payload))) = Inr (concat (payload_chunks payload))"
    by (rule load_chunks_ok) (use on chunks_bound [of _ "chunk_size - 1" payload] in \<open>auto simp: new_manifest_def Let_def chunk_size_def\<close>)
  then show ?thesis
    using on ld man look by (simp add: load_generation_def Let_def exists_path_def read_bounded_def new_manifest_def)
qed

section \<open>A committed store\<close>

type_synonym generation = "nat \<times> bytes"

fun store_paths :: "generation option \<Rightarrow> path set" where
  "store_paths None = {[], [''CURRENT'']}"
| "store_paths (Some (g, payload)) = insert [''CURRENT''] (gen_paths g payload)"

fun store_on :: "generation option \<Rightarrow> (path \<Rightarrow> fs_node option) \<Rightarrow> bool" where
  "store_on None m \<longleftrightarrow> m [] = Some Dir \<and> m [''CURRENT''] = None"
| "store_on (Some (g, payload)) m \<longleftrightarrow> gen_on m g payload \<and> m [''CURRENT''] = Some (File (pointer g)) \<and> is_u64 g"

text \<open>
  The directory durably holds generation \<open>c\<close>, with \<^verbatim>\<open>CURRENT\<close> naming it, or has no \<^verbatim>\<open>CURRENT\<close>.
\<close>

definition committed :: "generation option \<Rightarrow> disk \<Rightarrow> bool" where
  "committed c d \<longleftrightarrow> holds_on (store_paths c) (map_of (dk_fs d)) d \<and> store_on c (map_of (dk_fs d))"

lemma store_on_cong: "(\<And>p. p \<in> store_paths c \<Longrightarrow> m p = m' p) \<Longrightarrow> store_on c m \<Longrightarrow> store_on c m'"
proof (cases c)
  case (Some x)
  assume eq: "\<And>p. p \<in> store_paths c \<Longrightarrow> m p = m' p" and on: "store_on c m"
  obtain g payload where x: "x = (g, payload)" by force
  have "gen_on m g payload = gen_on m' g payload" using eq Some x by (intro gen_on_cong) auto
  with eq on Some x show ?thesis by force
qed auto

lemma committed_holds: "holds_on (store_paths c) V d \<Longrightarrow> store_on c V \<Longrightarrow> committed c d"
  unfolding committed_def using store_on_cong [of c V "map_of (dk_fs d)"]
  by (auto simp: holds_on_def durable_def)

lemma committed_stays:
  assumes "committed c d" "\<And>V. store_on c V \<Longrightarrow> stays (store_paths c) V m" "m d = (r, d')"
  shows "committed c d'"
  using assms staysD by (metis committed_def committed_holds)

lemma committed_image: "committed c d \<Longrightarrow> crash_image d f \<Longrightarrow> store_on c (map_of f)"
  unfolding committed_def using store_on_cong holds_on_image by metis

lemma gen_paths_below: "g' \<noteq> g \<Longrightarrow> q \<in> gen_paths g payload \<Longrightarrow> \<not> below [gen_name g'] q \<and> q \<noteq> [gen_name g']"
  by (auto simp: gen_paths_def below_def)

lemma store_paths_below:
  assumes "Some g' \<noteq> map_option fst c" "q \<in> store_paths c"
  shows "\<not> below [gen_name g'] q \<and> q \<noteq> [gen_name g']"
proof (cases c)
  case (Some x)
  obtain g payload where "x = (g, payload)" by force
  with Some assms gen_paths_below [of g' g q payload] show ?thesis by (auto simp: below_def)
qed (use assms in \<open>auto simp: below_def\<close>)

lemma store_on_current:
  "store_on c (map_of f) \<Longrightarrow> read_current f = Inr (map_option fst c)"
  by (cases c rule: store_paths.cases) (auto simp: read_pointer gen_on_def, simp add: read_current_def lookup_def)

lemma holds_current:
  assumes "holds_on (store_paths c) V d" "store_on c V"
  shows "read_current (dk_fs d) = Inr (map_option fst c)"
  using committed_holds [OF assms] store_on_current by (auto simp: committed_def)

lemma stays_prune_loop:
  assumes "store_on c V"
  shows "stays (store_paths c) V (prune_loop st pr rs keep ids cnt used removed)"
proof (induction ids arbitrary: cnt used removed)
  case (Cons i ids)
  have cur: "current_id (dk_fs d) = map_option fst c" if "holds_on (store_paths c) V d" for d
    using holds_current [OF that assms] by (simp add: current_id_def)
  have rm: "stays (store_paths c) V (remove_dir_all [gen_name i])" if "Some i \<noteq> map_option fst c"
    using store_paths_below [OF that] by (intro stays_remove) blast+
  show ?case
    by (auto simp: cur intro!: stays_bind_reads stays_bind rm Cons.IH)
qed auto

lemma stays_prune: "store_on c V \<Longrightarrow> stays (store_paths c) V (prune st pr rs)"
  unfolding prune_def by (auto intro!: stays_bind_reads stays_bind stays_prune_loop stays_fsync split: prod.splits)

lemma marker_paths: "[gen_name i, ''PUBLISHED''] \<notin> store_paths c" "[gen_name i, ''PUBLISHED.tmp''] \<notin> store_paths c"
  by (cases c rule: store_paths.cases; auto simp: gen_paths_def)+

lemma stays_record: "stays (store_paths c) V (record_publication i)"
  unfolding record_publication_def by (intro stays_bind stays_reads stays_write stays_rename stays_fsync marker_paths)

lemma stays_protect: "stays (store_paths c) V (protect_current env st)"
  unfolding protect_current_def protect_fallback_def
  by (auto intro!: stays_bind stays_lift stays_reads stays_record split: option.splits sum.splits)

lemma new_paths:
  assumes "Some g' \<noteq> map_option fst c"
  shows "[gen_name g', n] \<notin> store_paths c" "[gen_name g'] \<notin> store_paths c" "[''CURRENT.tmp''] \<notin> store_paths c"
  using assms by (cases c rule: store_paths.cases; force simp: gen_paths_def)+

lemma stays_write_chunks:
  assumes "\<And>n. [chk, n] \<notin> P"
  shows "stays P V (write_chunks st chk i cs)"
  by (induction cs arbitrary: i) (use assms in \<open>auto intro!: stays_bind stays_trunc stays_write stays_rename\<close>)

lemma stays_write_generation:
  assumes "Some g' \<noteq> map_option fst c"
  shows "stays (store_paths c) V (write_generation st g' payload')"
  unfolding write_generation_def Let_def cut_fault_def
  by (intro stays_bind stays_lift stays_create stays_fsync stays_write_chunks stays_write stays_rename)
    (use new_paths [OF assms] store_paths_below [OF assms] in auto)

section \<open>What a written generation holds\<close>

definition synced_below :: "string \<Rightarrow> disk \<Rightarrow> bool" where
  "synced_below chk d \<longleftrightarrow> (\<forall>n. [chk, n] \<notin> dk_unsynced d)"

lemma synced_write: "synced_below chk d \<Longrightarrow> write_all_sync p b d = (Inr u, d') \<Longrightarrow> synced_below chk d'"
  using write_done(2) [of p b d u d'] by (simp add: synced_below_def)

lemma synced_rename: "synced_below chk d \<Longrightarrow> rename [chk, a] b d = (Inr u, d') \<Longrightarrow> synced_below chk d'"
  using rename_done(2) [of "[chk, a]" b d u d'] by (simp add: synced_below_def)

lemma rename_written:
  assumes "write_all_sync a x d = (Inr u, d1)" "rename a b d1 = (Inr v, d2)" "a \<noteq> b"
  shows "map_of (dk_fs d2) = (map_of (dk_fs d))(a := None, b \<mapsto> File x)"
  using write_done(1) [OF assms(1)] rename_done(1) [OF assms(2)] assms(3) by (auto simp: fun_eq_iff)

lemma write_chunks_done:
  assumes "write_chunks st chk i cs d = (Inr u, d')" "synced_below chk d"
  shows "synced_below chk d' \<and>
    (\<forall>j < length cs. map_of (dk_fs d') [chk, chunk_name (i + j)] = Some (File (cs ! j)) \<and> map_of (dk_fs d') [chk, part_name (i + j)] = None) \<and>
    (\<forall>j < i. map_of (dk_fs d') [chk, chunk_name j] = map_of (dk_fs d) [chk, chunk_name j] \<and>
       map_of (dk_fs d') [chk, part_name j] = map_of (dk_fs d) [chk, part_name j])"
  using assms
proof (induction cs arbitrary: i d)
  case (Cons c cs)
  from Cons.prems(1) obtain d1 d2 where w: "write_all_sync [chk, part_name i] c d = (Inr (), d1)"
    and r: "rename [chk, part_name i] [chk, chunk_name i] d1 = (Inr (), d2)"
    and rest: "write_chunks st chk (Suc i) cs d2 = (Inr u, d')"
    by (auto simp: iobind_Inr split: if_splits)
  have view: "map_of (dk_fs d2) = (map_of (dk_fs d))([chk, part_name i] := None, [chk, chunk_name i] \<mapsto> File c)"
    by (rule rename_written [OF w r]) simp
  have sync: "synced_below chk d2" by (rule synced_rename [OF synced_write [OF Cons.prems(2) w] r])
  note ih = Cons.IH [OF rest sync]
  have here: "map_of (dk_fs d') [chk, chunk_name i] = Some (File c)" "map_of (dk_fs d') [chk, part_name i] = None"
    using ih view by simp_all
  have "map_of (dk_fs d') [chk, chunk_name (i + j)] = Some (File ((c # cs) ! j)) \<and> map_of (dk_fs d') [chk, part_name (i + j)] = None"
    if "j < length (c # cs)" for j
    using that ih here by (cases j) simp_all
  moreover have "map_of (dk_fs d') [chk, chunk_name j] = map_of (dk_fs d) [chk, chunk_name j] \<and>
       map_of (dk_fs d') [chk, part_name j] = map_of (dk_fs d) [chk, part_name j]" if "j < i" for j
    using that ih view by simp
  ultimately show ?case using ih by blast
qed simp

text \<open>Everything below a directory is durable once the directory is synced.\<close>

lemma fsync_gen_durable:
  assumes "fsync_dir [chk] d = (Inr u, d')" "synced_below chk d"
  shows "durable d' [chk, n] (map_of (dk_fs d) [chk, n])"
  by (rule fsync_durable [OF assms(1)]) (use assms(2) in \<open>simp_all add: synced_below_def\<close>)

lemma finish_generation:
  assumes "synced_below chk d" "write_all_sync [chk, ''ACK''] a d = (Inr u1, d1)"
    and "write_all_sync [chk, ''MANIFEST.tmp''] m d1 = (Inr u2, d2)" "rename [chk, ''MANIFEST.tmp''] [chk, ''MANIFEST''] d2 = (Inr u3, d3)"
    and "fsync_dir [chk] d3 = (Inr u4, d4)"
  shows "durable d4 [chk, ''ACK''] (Some (File a))" "durable d4 [chk, ''MANIFEST''] (Some (File m))"
    "n \<notin> {''ACK'', ''MANIFEST'', ''MANIFEST.tmp''} \<Longrightarrow> durable d4 [chk, n] (map_of (dk_fs d) [chk, n])"
proof -
  have sync: "synced_below chk d3"
    by (rule synced_rename [OF synced_write [OF synced_write [OF assms(1,2)] assms(3)] assms(4)])
  have view: "map_of (dk_fs d3) = (map_of (dk_fs d1))([chk, ''MANIFEST.tmp''] := None, [chk, ''MANIFEST''] \<mapsto> File m)"
    by (rule rename_written [OF assms(3,4)]) simp
  note final = fsync_gen_durable [OF assms(5) sync]
  show "durable d4 [chk, ''ACK''] (Some (File a))" "durable d4 [chk, ''MANIFEST''] (Some (File m))"
    "n \<notin> {''ACK'', ''MANIFEST'', ''MANIFEST.tmp''} \<Longrightarrow> durable d4 [chk, n] (map_of (dk_fs d) [chk, n])"
    using final [of "''ACK''"] final [of "''MANIFEST''"] final [of n] write_done(1) [OF assms(2)] by (simp_all add: view)
qed

lemma write_generation_done:
  assumes ran: "write_generation st g payload d = (Inr u, d')" and "cp_fault st \<noteq> CorruptChecksum"
    and "holds_on {[]} (\<lambda>_. Some Dir) d"
  shows "gen_on (map_of (dk_fs d')) g payload \<and> holds_on (gen_paths g payload) (map_of (dk_fs d')) d'"
proof -
  let ?chk = "gen_name g" and ?cs = "payload_chunks payload" and ?man = "manifest_encode (new_manifest g payload)"
  from ran obtain d1 d2 d3 d4 d5 d6 d7 u1 u2 u3 u4 u5 u6 u7 u8 where
    steps: "create_dir [?chk] d = (Inr u1, d1)" "fsync_dir [] d1 = (Inr u2, d2)" "write_chunks st ?chk 0 ?cs d2 = (Inr u3, d3)"
      "fsync_dir [?chk] d3 = (Inr u4, d4)" "write_all_sync [?chk, ''ACK''] (str_bytes (''ok'' @ newline)) d4 = (Inr u5, d5)"
      "write_all_sync [?chk, ''MANIFEST.tmp''] ?man d5 = (Inr u6, d6)" "rename [?chk, ''MANIFEST.tmp''] [?chk, ''MANIFEST''] d6 = (Inr u7, d7)"
      "fsync_dir [?chk] d7 = (Inr u8, d')"
    using assms(2) by (auto simp: write_generation_def Let_def iobind_Inr cut_fault_def corrupt_manifest_def)
  have sync1: "synced_below ?chk d2" "[?chk] \<notin> dk_unsynced d1"
    using create_done(2) [OF steps(1)] fsync_done(2) [OF steps(2)] by (auto simp: synced_below_def below_def)
  have chunks: "synced_below ?chk d3" "i < length ?cs \<Longrightarrow> map_of (dk_fs d3) [?chk, chunk_name i] = Some (File (?cs ! i)) \<and>
      map_of (dk_fs d3) [?chk, part_name i] = None" for i
    using write_chunks_done [OF steps(3) sync1(1)] by auto
  have sync4: "synced_below ?chk d4" using chunks(1) fsync_done(2) [OF steps(4)] by (simp add: synced_below_def)
  note fin = finish_generation [OF sync4 steps(5-8)]
  let ?top = "holds_on {[], [?chk]} (\<lambda>_. Some Dir)"
  have "holds_on {[]} (\<lambda>_. Some Dir) d2"
    using staysD [OF stays_create assms(3) steps(1)] staysD [OF stays_fsync _ steps(2)] by (simp add: below_def)
  moreover have "durable d2 [?chk] (Some Dir)"
    using fsync_durable [OF steps(2) _ _ sync1(2)] create_done(1) [OF steps(1)] by simp
  ultimately have "?top d2" by (simp add: holds_on_def)
  then have "?top d3" using steps(3) by (rule holds_step) (simp add: stays_write_chunks)
  then have "?top d4" using steps(4) by (rule holds_step) (rule stays_fsync)
  then have "?top d5" using steps(5) by (rule holds_step) (simp add: stays_write)
  then have "?top d6" using steps(6) by (rule holds_step) (simp add: stays_write)
  then have "?top d7" using steps(7) by (rule holds_step) (simp add: stays_rename)
  then have top: "?top d'" using steps(8) by (rule holds_step) (rule stays_fsync)
  have chunk_files: "durable d' [?chk, chunk_name i] (Some (File (?cs ! i)))" "durable d' [?chk, part_name i] None" if "i < length ?cs" for i
    using fin(3) [of "chunk_name i"] fin(3) [of "part_name i"] chunks(2) [OF that] fsync_done(1) [OF steps(4)] by simp_all
  have vals: "durable d' p v \<Longrightarrow> map_of (dk_fs d') p = v" for p v by (simp add: durable_def)
  have "gen_on (map_of (dk_fs d')) g payload"
    using top fin(1,2) chunk_files by (auto simp: gen_on_def holds_on_def dest!: vals)
  moreover have "durable d' p (map_of (dk_fs d') p)" if "p \<in> gen_paths g payload" for p
    using that top fin(1,2) chunk_files vals by (fastforce simp: gen_paths_def holds_on_def)
  ultimately show ?thesis using top by (auto simp: holds_on_def)
qed

section \<open>Publication\<close>

text \<open>Whatever the disk may hold after a crash is one of two committed stores, and so is what it shows.\<close>

definition settles :: "generation option \<Rightarrow> generation option \<Rightarrow> disk \<Rightarrow> bool" where
  "settles c c' d \<longleftrightarrow> disk_ok d \<and> (\<forall>f. crash_image d f \<longrightarrow> store_on c (map_of f) \<or> store_on c' (map_of f))"

lemma committed_ok: "committed c d \<Longrightarrow> disk_ok d"
  by (simp add: committed_def holds_on_def)

lemma committed_settles: "committed c d \<Longrightarrow> settles c c' d"
  using committed_ok committed_image by (auto simp: settles_def)

lemma holds_on_Un: "holds_on (P \<union> Q) V d \<longleftrightarrow> holds_on P V d \<and> holds_on Q V d"
  by (auto simp: holds_on_def)

lemma holds_on_mono: "holds_on P V d \<Longrightarrow> Q \<subseteq> P \<Longrightarrow> holds_on Q V d"
  by (auto simp: holds_on_def)

lemma paths_current: "[''CURRENT''] \<in> store_paths c" "[''CURRENT''] \<notin> gen_paths g payload" "[''CURRENT.tmp''] \<notin> gen_paths g payload"
    "[''CURRENT.tmp''] \<notin> store_paths c"
  by (cases c rule: store_paths.cases; simp add: gen_paths_def)+

lemma switch_image:
  assumes "holds_on (store_paths c \<union> gen_paths g payload) V d" "store_on c V" "gen_on V g payload" "is_u64 g"
    and "rename [''CURRENT.tmp''] [''CURRENT''] d = (Inr u, d')" "map_of (dk_fs d) [''CURRENT.tmp''] = Some (File (pointer g))"
    and "crash_image d' f"
  shows "store_on c (map_of f) \<or> store_on (Some (g, payload)) (map_of f)"
proof -
  let ?P = "(store_paths c \<union> gen_paths g payload) - {[''CURRENT'']}"
  have "holds_on ?P V d'"
  proof (rule holds_step)
    show "holds_on ?P V d" using assms(1) by (rule holds_on_mono) blast
    show "stays ?P V (rename [''CURRENT.tmp''] [''CURRENT''])" using paths_current by (intro stays_rename) auto
  qed (rule assms(5))
  then have same: "map_of f p = V p" if "p \<in> ?P" for p using holds_on_image assms(7) that by blast
  have "dk_maybe d' [''CURRENT''] = insert (Some (File (pointer g))) (dk_maybe d [''CURRENT''])"
    using rename_done(1) [OF assms(5)] assms(6) by auto
  moreover have "dk_maybe d [''CURRENT''] = {V [''CURRENT'']}"
    using assms(1) paths_current(1) [of c] by (auto simp: holds_on_def durable_def)
  ultimately consider "map_of f [''CURRENT''] = Some (File (pointer g))" | "map_of f [''CURRENT''] = V [''CURRENT'']"
    using assms(7) by (auto simp: crash_image_def)
  then show ?thesis
  proof cases
    case 1
    have "gen_on (map_of f) g payload"
      using gen_on_cong [of g payload "map_of f" V] same assms(3) paths_current(2) by fastforce
    then show ?thesis using 1 assms(4) by simp
  next
    case 2
    then have "V p = map_of f p" if "p \<in> store_paths c" for p using same [of p] that by (cases "p = [''CURRENT'']") auto
    then show ?thesis using store_on_cong [OF _ assms(2)] by blast
  qed
qed

lemma switch_keeps:
  assumes "holds_on P V d" "rename [''CURRENT.tmp''] [''CURRENT''] d = (r, d')" "[''CURRENT.tmp''] \<notin> P"
  shows "holds_on (P - {[''CURRENT'']}) V d'"
proof (rule holds_step)
  show "holds_on (P - {[''CURRENT'']}) V d" using assms(1) by (rule holds_on_mono) blast
  show "stays (P - {[''CURRENT'']}) V (rename [''CURRENT.tmp''] [''CURRENT''])" using assms(3) by (intro stays_rename) auto
qed (rule assms(2))

lemma switch_commits:
  assumes "holds_on (gen_paths g payload) V d" "gen_on V g payload" "is_u64 g" "[''CURRENT.tmp''] \<notin> dk_unsynced d"
    and "rename [''CURRENT.tmp''] [''CURRENT''] d = (Inr u, d')" "map_of (dk_fs d) [''CURRENT.tmp''] = Some (File (pointer g))"
    and "fsync_dir [] d' = (Inr v, d'')"
  shows "committed (Some (g, payload)) d''"
proof -
  have "holds_on (gen_paths g payload) V d'"
    using switch_keeps [OF assms(1,5)] paths_current(2,3) by (simp add: insert_absorb Diff_insert_absorb)
  then have gen: "holds_on (gen_paths g payload) V d''" using assms(7) stays_fsync by (rule holds_step)
  have "map_of (dk_fs d') [''CURRENT''] = Some (File (pointer g))" "[''CURRENT''] \<notin> dk_unsynced d'"
    using rename_done(1) [OF assms(5)] rename_done(2) [OF assms(5,4)] assms(6) by auto
  then have cur: "durable d'' [''CURRENT''] (Some (File (pointer g)))"
    using fsync_durable [OF assms(7), of "[''CURRENT'']"] by simp
  let ?V = "V([''CURRENT''] := Some (File (pointer g)))"
  have "gen_on ?V g payload = gen_on V g payload" using paths_current(2) [of g payload] by (intro gen_on_cong) auto
  then have "gen_on ?V g payload" using assms(2) by simp
  moreover have "holds_on (store_paths (Some (g, payload))) ?V d''"
    using gen cur paths_current(2) [of g payload] by (auto simp: holds_on_def)
  ultimately show ?thesis using assms(3) by (intro committed_holds [of _ ?V]) simp_all
qed

lemma publish_outcome:
  assumes ran: "publish_current g d = (r, d')" and c: "committed c d" and g: "is_u64 g" "gen_on (map_of (dk_fs d)) g payload"
    and hold: "holds_on (gen_paths g payload) (map_of (dk_fs d)) d"
  shows "case r of Inr _ \<Rightarrow> committed (Some (g, payload)) d' | Inl _ \<Rightarrow> settles c (Some (g, payload)) d'"
proof -
  let ?P = "store_paths c \<union> gen_paths g payload" and ?V = "map_of (dk_fs d)"
  have all: "holds_on ?P ?V d" and on: "store_on c ?V" using c hold by (simp_all add: committed_def holds_on_Un)
  have stay: "stays ?P ?V (write_all_sync [''CURRENT.tmp''] b)" for b using paths_current by (intro stays_write) auto
  obtain r1 d1 where w: "write_all_sync [''CURRENT.tmp''] (pointer g) d = (r1, d1)" by fastforce
  have d1: "holds_on ?P ?V d1" using all w stay by (rule holds_step)
  then have c1: "committed c d1" using on by (auto intro: committed_holds simp: holds_on_Un)
  obtain r2 d2 where m: "rename [''CURRENT.tmp''] [''CURRENT''] d1 = (r2, d2)" by fastforce
  obtain r3 d3 where y: "fsync_dir [] d2 = (r3, d3)" by fastforce
  have stop: "r2 = Inl e \<Longrightarrow> d2 = d1" "r3 = Inl e \<Longrightarrow> d3 = d2" for e
    using m y by (auto simp: rename_def fsync_dir_def split: option.splits fs_node.splits if_splits)
  have ran': "publish_current g d = (case r1 of Inl e \<Rightarrow> (Inl e, d1) | Inr _ \<Rightarrow> case r2 of Inl e \<Rightarrow> (Inl e, d2) | Inr _ \<Rightarrow> (r3, d3))"
    unfolding publish_current_def iobind_def pointer_def [symmetric] w by (cases r1; cases r2) (simp_all add: m y)
  have "settles c (Some (g, payload)) d2 \<and> (\<forall>v. r3 = Inr v \<longrightarrow> committed (Some (g, payload)) d3)" if "r1 = Inr u1" "r2 = Inr u2" for u1 u2
  proof -
    have tmp: "map_of (dk_fs d1) [''CURRENT.tmp''] = Some (File (pointer g))" "[''CURRENT.tmp''] \<notin> dk_unsynced d1"
      using write_done(1,2) [of _ _ d u1 d1] w that(1) by auto
    note m' = m [unfolded that(2)]
    have "disk_ok d2" using switch_keeps [OF d1 m'] paths_current by (auto simp: holds_on_def)
    then have "settles c (Some (g, payload)) d2"
      using switch_image [OF d1 on g(2,1) m' tmp(1)] by (auto simp: settles_def)
    moreover have "committed (Some (g, payload)) d3" if "r3 = Inr v" for v
      using switch_commits [OF _ g(2,1) tmp(2) m' tmp(1)] d1 y that by (simp add: holds_on_Un)
    ultimately show ?thesis by blast
  qed
  then show ?thesis
    using ran' [unfolded ran] stop committed_settles [OF c1] by (cases r1; cases r2; cases r3) auto
qed

section \<open>Outcomes of a commit\<close>

lemma admitted_fresh:
  assumes "committed c d" "commit_admit env st g payload tr (dk_fs d) = Inr u"
  shows "Some g \<noteq> map_option fst c"
  using assms by (cases c rule: store_paths.cases) (auto simp: committed_def gen_on_def commit_admit_def exists_path_def lookup_def split: if_splits)

lemma prepare_keeps:
  assumes "committed c d" "iobind (protect_current env st) (\<lambda>p. prune st p rs) d = (r, d')"
  shows "committed c d'"
  using assms(1) _ assms(2)
  by (rule committed_stays) (intro stays_bind stays_protect stays_prune)

lemma maintain_keeps:
  assumes "committed c d" "iobind (record_publication g) (\<lambda>_. prune st p rs) d = (r, d')"
  shows "committed c d'"
  using assms(1) _ assms(2)
  by (rule committed_stays) (intro stays_bind stays_record stays_prune)

lemma committed_root: "committed c d \<Longrightarrow> holds_on {[]} (\<lambda>_. Some Dir) d"
  by (cases c rule: store_paths.cases) (auto simp: committed_def holds_on_def gen_paths_def gen_on_def)

lemma generation_outcome:
  assumes "committed c d" "Some g \<noteq> map_option fst c" "is_u64 g" "cp_fault st \<noteq> CorruptChecksum"
    and ran: "iobind (write_generation st g payload) (\<lambda>_. publish_current g) d = (r, d')"
  shows "case r of Inr _ \<Rightarrow> committed (Some (g, payload)) d' | Inl _ \<Rightarrow> settles c (Some (g, payload)) d'"
proof -
  obtain r1 d1 where w: "write_generation st g payload d = (r1, d1)" by fastforce
  have c1: "committed c d1" using assms(1) _ w by (rule committed_stays) (rule stays_write_generation [OF assms(2)])
  show ?thesis
  proof (cases r1)
    case (Inl e)
    then show ?thesis using ran w committed_settles [OF c1] by (auto simp: iobind_def)
  next
    case (Inr u)
    then have "publish_current g d1 = (r, d')" using ran w by (simp add: iobind_def)
    then show ?thesis using publish_outcome [OF _ c1 assms(3)] write_generation_done [of st g payload d u d1] w Inr assms(4) committed_root [OF assms(1)]
      by blast
  qed
qed

lemma commit_outcome:
  assumes c: "committed c d" and ran: "commit_bytes env st g payload tr d = (r, st', d')" and "is_u64 g" "cp_fault st \<noteq> CorruptChecksum"
  shows "case r of Inr x \<Rightarrow> x = g \<and> committed (Some (g, payload)) d' | Inl _ \<Rightarrow> settles c (Some (g, payload)) d'"
proof (cases "commit_precheck env st payload (dk_fs d)")
  case (Inl e)
  then have "commit_bytes env st g payload tr d = (Inl e, st, d)" by (simp add: commit_bytes_def)
  then show ?thesis using ran committed_settles [OF c] by auto
next
  case pre: (Inr n)
  define st1 where "st1 = st\<lparr>cp_next_id := max (cp_next_id st) n\<rparr>"
  define st2 where "st2 = st1\<lparr>cp_next_id := g + 1\<rparr>"
  obtain r1 d1 where p: "iobind (protect_current env st1) (\<lambda>p. prune st1 p (length payload + max_manifest_bytes + 4096)) d = (r1, d1)" by fastforce
  obtain r2 d2 where w: "iobind (write_generation st2 g payload) (\<lambda>_. publish_current g) d1 = (r2, d2)" by fastforce
  obtain r3 d3 where m: "iobind (record_publication g) (\<lambda>_. prune st2 (Some g) 0) d2 = (r3, d3)" by fastforce
  note c1 = prepare_keeps [OF c p]
  show ?thesis
  proof (cases "commit_admit env st1 g payload tr (dk_fs d)")
    case (Inl e)
    then have "commit_bytes env st g payload tr d = (Inl e, st1, d)" using pre by (simp add: commit_bytes_def Let_def st1_def)
    then show ?thesis using ran committed_settles [OF c] by auto
  next
    case adm: (Inr u)
    have "case r2 of Inr _ \<Rightarrow> committed (Some (g, payload)) d2 | Inl _ \<Rightarrow> settles c (Some (g, payload)) d2"
      by (rule generation_outcome [OF c1 admitted_fresh [OF c adm] assms(3) _ w]) (simp add: st1_def st2_def assms(4))
    moreover have "(r, st', d') = (case r1 of Inl e \<Rightarrow> (Inl e, st1, d1) | Inr _ \<Rightarrow>
        (case r2 of Inl e \<Rightarrow> (Inl e, st2, d2) | Inr _ \<Rightarrow> (Inr g, st2\<lparr>cp_maintenance_error :=
          (case r3 of Inl e \<Rightarrow> Some (err_code (fst e)) | Inr _ \<Rightarrow> None)\<rparr>, d3)))"
      unfolding ran [symmetric] commit_bytes_def Let_def pre sum.case st1_def [symmetric] st2_def [symmetric] adm p prod.case
      by (cases r1; cases r2) (simp_all only: sum.case prod.case w m)
    ultimately show ?thesis using committed_settles [OF c1] maintain_keeps [OF _ m] by (cases r1; cases r2) auto
  qed
qed

section \<open>Recovery\<close>

lemma recover_store_on:
  assumes "store_on c (map_of f)" "\<And>g payload. c = Some (g, payload) \<Longrightarrow> loadable env st mat g payload (s g payload)"
  shows "recover_any_committed env st mat f = Inr (map_option (\<lambda>(g, payload). s g payload) c)"
proof (cases c)
  case None
  then show ?thesis using store_on_current [OF assms(1)] by (simp add: recover_any_committed_def)
next
  case (Some x)
  obtain g payload where x: "x = (g, payload)" by force
  have "load_generation env st mat g f = Inr (s g payload)"
    using load_generation_ok assms Some x by fastforce
  then show ?thesis using store_on_current [OF assms(1)] Some x by (simp add: recover_any_committed_def)
qed

section \<open>Runs of a store\<close>

lemma list_ids_mono: "list_ids n ids es = Inr out \<Longrightarrow> set ids \<subseteq> set out"
  by (induction n ids es rule: list_ids.induct) (fastforce split: if_splits option.splits)+

lemma list_ids_mem:
  "list_ids n ids es = Inr out \<Longrightarrow> (s, nd) \<in> set es \<Longrightarrow> is_str s \<Longrightarrow> parse_gen_name s = Some g \<Longrightarrow> g \<in> set out"
proof (induction n ids es rule: list_ids.induct)
  case (2 n ids s' nd' es)
  then show ?case using list_ids_mono [of "Suc n" "ids @ [g]" es out]
    by (cases "(s, nd) = (s', nd')") (auto split: if_splits option.splits)
qed simp

lemma listed_generation:
  assumes "list_generation_ids f = Inr ids" "map_of f [gen_name g] = Some Dir" "is_u64 g"
  shows "g \<in> set ids"
proof -
  have "plain (gen_name g)" using gen_name_chars by (auto simp: plain_def list_all_iff)
  then have str: "is_str (gen_name g)" using plain_utf8 by (simp add: is_str_def)
  have "([gen_name g], Dir) \<in> set f" using assms(2) by (rule map_of_SomeD)
  then have "(gen_name g, Dir) \<in> set (map (\<lambda>(q, n). (last q, n)) (filter (\<lambda>(q, n). q \<noteq> [] \<and> butlast q = []) f))"
    by (force simp: image_iff)
  then show ?thesis using assms(1) str parse_gen_name_ok [OF assms(3)] list_ids_mem
    by (auto simp: list_generation_ids_def read_dir_def split: if_splits)
qed

definition gen_id :: "generation option \<Rightarrow> nat" where
  "gen_id c = (case c of None \<Rightarrow> 0 | Some (g, _) \<Rightarrow> g)"

lemma fold_max_ge: "x \<in> set xs \<or> x \<le> (m :: nat) \<Longrightarrow> x \<le> fold max xs m"
  by (induction xs arbitrary: m) (auto simp: le_max_iff_disj)

text \<open>The identifiers of a store only grow.\<close>

lemma committed_id_grows:
  assumes "committed c d" "commit_precheck env st payload (dk_fs d) = Inr n"
    and "commit_admit env (st\<lparr>cp_next_id := max (cp_next_id st) n\<rparr>) g payload tr (dk_fs d) = Inr u"
  shows "gen_id c < g"
proof -
  obtain ids where ids: "list_generation_ids (dk_fs d) = Inr ids" "n = fold max ids 0 + 1"
    using assms(2) by (auto simp: commit_precheck_def next_generation_def rbind_def Let_def split: if_splits sum.splits)
  have "gen_id c \<le> fold max ids 0"
  proof (cases c rule: store_paths.cases)
    case (2 g0 payload0)
    then have "g0 \<in> set ids" using assms(1) by (intro listed_generation [OF ids(1)]) (auto simp: committed_def gen_on_def)
    then show ?thesis using 2 fold_max_ge [of g0 ids 0] by (simp add: gen_id_def)
  qed (simp add: gen_id_def)
  moreover have "n \<le> g" using assms(3) by (auto simp: commit_admit_def split: if_splits)
  ultimately show ?thesis using ids(2) by simp
qed

lemma refused_or_newer:
  assumes "committed c d" "commit_bytes env st g payload tr d = (r, st', d')"
  shows "(\<exists>e. r = Inl e) \<and> d' = d \<or> gen_id c < g"
proof (cases "commit_precheck env st payload (dk_fs d)")
  case (Inl e)
  then have "commit_bytes env st g payload tr d = (Inl e, st, d)" by (simp add: commit_bytes_def)
  then show ?thesis using assms(2) by auto
next
  case pre: (Inr n)
  show ?thesis
  proof (cases "commit_admit env (st\<lparr>cp_next_id := max (cp_next_id st) n\<rparr>) g payload tr (dk_fs d)")
    case (Inl e)
    then have "commit_bytes env st g payload tr d = (Inl e, st\<lparr>cp_next_id := max (cp_next_id st) n\<rparr>, d)"
      using pre by (simp add: commit_bytes_def Let_def)
    then show ?thesis using assms(2) by auto
  next
    case (Inr u)
    then show ?thesis using committed_id_grows [OF assms(1) pre] by blast
  qed
qed

lemma commit_images:
  assumes "committed c d" "commit_bytes env st g payload tr d = (r, st', d')" "is_u64 g" "cp_fault st \<noteq> CorruptChecksum" "crash_image d' f"
  shows "store_on c (map_of f) \<and> (\<exists>e. r = Inl e) \<or> store_on (Some (g, payload)) (map_of f) \<and> gen_id c < g"
  using refused_or_newer [OF assms(1,2)]
proof
  assume "(\<exists>e. r = Inl e) \<and> d' = d"
  then show ?thesis using committed_image [OF assms(1)] assms(5) by blast
next
  assume newer: "gen_id c < g"
  show ?thesis
  proof (cases r)
    case (Inl e)
    then have "settles c (Some (g, payload)) d'" using commit_outcome [OF assms(1-4)] by simp
    then show ?thesis using newer Inl assms(5) by (auto simp: settles_def)
  next
    case (Inr x)
    then have "committed (Some (g, payload)) d'" using commit_outcome [OF assms(1-4)] by simp
    then show ?thesis using newer committed_image assms(5) by blast
  qed
qed

lemma restart_committed: "store_on c (map_of f) \<Longrightarrow> committed c (restart f d)"
  by (simp add: committed_def holds_on_def durable_def) (simp add: restart_def disk_ok_def)

lemma device_committed: "committed c (d\<lparr>dk_left := n, dk_torn := t, dk_fault := e\<rparr>) = committed c d"
  by (simp add: committed_def holds_on_def durable_def disk_ok_def)

text \<open>A commit that fails before it switches \<^verbatim>\<open>CURRENT\<close> leaves the store committed as it was.\<close>

lemma committed_current: "committed c d \<Longrightarrow> map_of (dk_fs d) [''CURRENT''] = map_option (\<lambda>x. File (pointer (fst x))) c"
  by (cases c rule: store_paths.cases) (simp_all add: committed_def)

lemma pointer_inject:
  assumes "is_u64 g" "is_u64 h" "pointer g = pointer h"
  shows "g = h"
proof -
  let ?f = "[([], Dir), ([''CURRENT''], File (pointer g))]"
  have "read_current ?f = Inr (Some g)" by (rule read_pointer [OF assms(1)]) simp_all
  moreover have "read_current ?f = Inr (Some h)" by (rule read_pointer [OF assms(2)]) (simp_all add: assms(3))
  ultimately show ?thesis by (metis Inr_inject option.inject)
qed

lemma publish_unswitched:
  assumes ran: "publish_current g d = (Inl e, d')" and c: "committed c d" and g: "is_u64 g" "Some g \<noteq> map_option fst c"
    and same: "map_of (dk_fs d') [''CURRENT''] = map_of (dk_fs d) [''CURRENT'']"
  shows "committed c d'"
proof -
  obtain r1 d1 where w: "write_all_sync [''CURRENT.tmp''] (pointer g) d = (r1, d1)" by fastforce
  have c1: "committed c d1"
    using c _ w by (rule committed_stays) (rule stays_write, cases c rule: store_paths.cases; simp add: gen_paths_def)
  obtain r2 d2 where m: "rename [''CURRENT.tmp''] [''CURRENT''] d1 = (r2, d2)" by fastforce
  obtain r3 d3 where y: "fsync_dir [] d2 = (r3, d3)" by fastforce
  have stop: "r2 = Inl e \<Longrightarrow> d2 = d1" "r3 = Inl e \<Longrightarrow> d3 = d2" for e
    using m y by (auto simp: rename_def fsync_dir_def split: option.splits fs_node.splits if_splits)
  have ran': "publish_current g d = (case r1 of Inl e \<Rightarrow> (Inl e, d1) | Inr _ \<Rightarrow> case r2 of Inl e \<Rightarrow> (Inl e, d2) | Inr _ \<Rightarrow> (r3, d3))"
    unfolding publish_current_def iobind_def pointer_def [symmetric] w by (cases r1; cases r2) (simp_all add: m y)
  have switched: "map_of (dk_fs d2) [''CURRENT''] = Some (File (pointer g))" if "r1 = Inr u1" "r2 = Inr u2" for u1 u2
    using rename_written [OF w [unfolded that(1)] m [unfolded that(2)]] by simp
  have "map_of (dk_fs d) [''CURRENT''] \<noteq> Some (File (pointer g))"
    using committed_current [OF c] c g pointer_inject [OF g(1)] by (cases c rule: store_paths.cases) (auto simp: committed_def)
  then show ?thesis using ran' [unfolded ran] stop c1 switched same by (cases r1; cases r2; cases r3) auto
qed

lemma commit_unswitched:
  assumes c: "committed c d" and ran: "commit_bytes env st g payload tr d = (Inl e, st', d')" and g: "is_u64 g"
    and same: "map_of (dk_fs d') [''CURRENT''] = map_of (dk_fs d) [''CURRENT'']"
  shows "committed c d'"
proof -
  have refused: ?thesis if "d' = d" using that c by simp
  show ?thesis
  proof (cases "commit_precheck env st payload (dk_fs d)")
    case (Inl x)
    then show ?thesis using ran refused by (simp add: commit_bytes_def)
  next
    case pre: (Inr n)
    define st1 where "st1 = st\<lparr>cp_next_id := max (cp_next_id st) n\<rparr>"
    show ?thesis
    proof (cases "commit_admit env st1 g payload tr (dk_fs d)")
      case (Inl x)
      then show ?thesis using ran refused pre by (simp add: commit_bytes_def Let_def st1_def)
    next
      case adm: (Inr u)
      obtain r1 d1 where p: "iobind (protect_current env st1) (\<lambda>p. prune st1 p (length payload + max_manifest_bytes + 4096)) d = (r1, d1)" by fastforce
      obtain r2 d2 where w: "write_generation (st1\<lparr>cp_next_id := g + 1\<rparr>) g payload d1 = (r2, d2)" by fastforce
      have new: "Some g \<noteq> map_option fst c" by (rule admitted_fresh [OF c adm])
      have c1: "committed c d1" by (rule prepare_keeps [OF c p])
      have c2: "committed c d2" using c1 _ w by (rule committed_stays) (rule stays_write_generation [OF new])
      have "d' = d1 \<or> d' = d2 \<or> publish_current g d2 = (Inl e, d')"
        using ran unfolding commit_bytes_def Let_def pre sum.case st1_def [symmetric] adm p prod.case iobind_def [of "write_generation _ _ _"] w
        by (cases r1; cases r2) (auto split: sum.splits prod.splits)
      then show ?thesis
        using c1 c2 publish_unswitched [OF _ c2 g new] same committed_current [OF c] committed_current [OF c2] by metis
    qed
  qed
qed

text \<open>
  A store lives through commits and power failures. The last argument is the last acknowledged
  checkpoint, 0 at first. Each attempt commits bytes the reader can decode, and the device may
  refuse any later change. A commit is acknowledged, or fails and the process goes on (retries,
  say) as long as it failed before \<^verbatim>\<open>CURRENT\<close> was switched, or is followed by a restart of the
  machine wherever it stopped; the power may also fail between commits. Going on in the same
  process after the last \<^verbatim>\<open>fsync_dir\<close> of a commit failed, behind the switch, is left out: there the
  next commit may prune the generation a crash still brings back.
\<close>

inductive store_run :: "('p, 'i) store_env \<Rightarrow> 'i cp_store \<Rightarrow> disk \<Rightarrow> nat \<Rightarrow> bool" for env reader where
  fresh: "committed None d \<Longrightarrow> store_run env reader d 0"
| device: "store_run env reader d a \<Longrightarrow> store_run env reader (d\<lparr>dk_left := n, dk_torn := t, dk_fault := e\<rparr>) a"
| power: "store_run env reader d a \<Longrightarrow> crash_image d f \<Longrightarrow> store_run env reader (restart f d) a"
| acknowledged: "store_run env reader d a \<Longrightarrow> commit_bytes env st g payload tr d = (Inr x, st', d') \<Longrightarrow> cp_fault st \<noteq> CorruptChecksum \<Longrightarrow>
    loadable env reader True g payload s \<Longrightarrow> store_run env reader d' g"
| retried: "store_run env reader d a \<Longrightarrow> commit_bytes env st g payload tr d = (Inl e, st', d') \<Longrightarrow> is_u64 g \<Longrightarrow>
    map_of (dk_fs d') [''CURRENT''] = map_of (dk_fs d) [''CURRENT''] \<Longrightarrow> store_run env reader d' a"
| crashed: "store_run env reader d a \<Longrightarrow> commit_bytes env st g payload tr d = (Inl e, st', d') \<Longrightarrow> cp_fault st \<noteq> CorruptChecksum \<Longrightarrow>
    loadable env reader True g payload s \<Longrightarrow> crash_image d' f \<Longrightarrow> store_run env reader (restart f d') a"

definition loads :: "('p, 'i) store_env \<Rightarrow> 'i cp_store \<Rightarrow> generation option \<Rightarrow> 'p stored_snapshot option \<Rightarrow> bool" where
  "loads env reader c r \<longleftrightarrow> (case c of None \<Rightarrow> r = None | Some (g, payload) \<Rightarrow> (\<exists>s. r = Some s \<and> loadable env reader True g payload s))"

lemma store_run_committed:
  "store_run env reader d a \<Longrightarrow> \<exists>c r. committed c d \<and> loads env reader c r \<and> a \<le> gen_id c"
proof (induction rule: store_run.induct)
  case (fresh d)
  then show ?case by (intro exI [of _ None]) (simp add: loads_def gen_id_def)
next
  case (device d a n t e)
  then show ?case by (simp add: device_committed)
next
  case (power d a f)
  then show ?case using committed_image restart_committed by blast
next
  case (retried d a st g payload tr e st' d')
  then show ?case using commit_unswitched by blast
next
  case (acknowledged d a st g payload tr x st' d' s)
  then obtain c where "committed c d" by blast
  then have "committed (Some (g, payload)) d'"
    using commit_outcome [of c d env st g payload tr "Inr x" st' d'] acknowledged by (simp add: loadable_def)
  then show ?case using acknowledged.hyps by (intro exI [of _ "Some (g, payload)"] exI [of _ "Some s"]) (simp add: loads_def gen_id_def)
next
  case (crashed d a st g payload tr e st' d' s f)
  then obtain c r where c: "committed c d" "loads env reader c r" "a \<le> gen_id c" by blast
  have "is_u64 g" using crashed.hyps by (simp add: loadable_def)
  with commit_images [OF c(1)] crashed.hyps
  consider "store_on c (map_of f)" | "store_on (Some (g, payload)) (map_of f)" "gen_id c < g" by blast
  then show ?case
  proof cases
    case 1
    then show ?thesis using restart_committed c by blast
  next
    case 2
    have "loads env reader (Some (g, payload)) (Some s)" using crashed.hyps by (simp add: loads_def)
    moreover have "a \<le> gen_id (Some (g, payload))" using c(3) 2(2) by (simp add: gen_id_def)
    ultimately show ?thesis using restart_committed [OF 2(1)] by blast
  qed
qed

lemma loads_recover:
  assumes "store_on c (map_of f)" "loads env reader c r"
  shows "recover_any_committed env reader True f = Inr r"
proof (cases c rule: store_paths.cases)
  case (2 g payload)
  then show ?thesis using recover_store_on [OF assms(1), of env reader True "\<lambda>_ _. the r"] assms(2) by (auto simp: loads_def)
next
  case 1
  then show ?thesis using recover_store_on [OF assms(1), of env reader True undefined] assms(2) by (simp add: loads_def)
qed

section \<open>A commit completes\<close>

definition file_or_none :: "fs_node option \<Rightarrow> bool" where
  "file_or_none n \<longleftrightarrow> n = None \<or> (\<exists>b. n = Some (File b))"

text \<open>The generation directory is there, and files are the only things in it.\<close>

definition open_gen :: "string \<Rightarrow> disk \<Rightarrow> bool" where
  "open_gen chk d \<longleftrightarrow> map_of (dk_fs d) [] = Some Dir \<and> map_of (dk_fs d) [chk] = Some Dir \<and> (\<forall>n. file_or_none (map_of (dk_fs d) [chk, n])) \<and>
     file_or_none (map_of (dk_fs d) [''CURRENT'']) \<and> file_or_none (map_of (dk_fs d) [''CURRENT.tmp''])"

definition completes :: "disk \<Rightarrow> nat \<Rightarrow> (disk \<Rightarrow> bool) \<Rightarrow> unit io \<Rightarrow> bool" where
  "completes d k Q m \<longleftrightarrow> (\<exists>d'. m d = (Inr (), d') \<and> dk_left d' = k \<and> Q d')"

lemma completes_bind: "completes d k Q m \<Longrightarrow> (\<And>d'. dk_left d' = k \<Longrightarrow> Q d' \<Longrightarrow> completes d' k' Q' (f ())) \<Longrightarrow> completes d k' Q' (iobind m f)"
  by (fastforce simp: completes_def iobind_def)

lemma completes_lift: "Q d \<Longrightarrow> k = dk_left d \<Longrightarrow> completes d k Q (lift_io (Inr ()))"
  by (simp add: completes_def lift_io_def)

lemma completes_write:
  "dk_left d = Suc k \<Longrightarrow> writable (dk_fs d) p \<Longrightarrow> completes d k (\<lambda>d'. map_of (dk_fs d') = (map_of (dk_fs d))(p \<mapsto> File b)) (write_all_sync p b)"
  by (simp add: completes_def write_all_sync_def put_node_def spend_def update_conv')

lemma completes_rename:
  "dk_left d = Suc k \<Longrightarrow> lookup (dk_fs d) a = Some (File x) \<Longrightarrow> writable (dk_fs d) b \<Longrightarrow>
     completes d k (\<lambda>d'. map_of (dk_fs d') = (map_of (dk_fs d))(a := None, b \<mapsto> File x)) (rename a b)"
  by (simp add: completes_def rename_def put_node_def del_node_def spend_def update_conv' delete_conv')

lemma completes_fsync:
  "dk_left d = Suc k \<Longrightarrow> lookup (dk_fs d) p = Some Dir \<Longrightarrow> completes d k (\<lambda>d'. dk_fs d' = dk_fs d) (fsync_dir p)"
  by (simp add: completes_def fsync_dir_def spend_def)

lemma completes_mono: "completes d k Q m \<Longrightarrow> (\<And>d'. Q d' \<Longrightarrow> Q' d') \<Longrightarrow> completes d k Q' m"
  by (auto simp: completes_def)

lemma writable_iff: "writable f p \<longleftrightarrow> p \<noteq> [] \<and> lookup f (butlast p) = Some Dir \<and> file_or_none (map_of f p)"
  by (auto simp: writable_def file_or_none_def split: option.splits fs_node.splits)

lemma writable_gen: "open_gen chk d \<Longrightarrow> writable (dk_fs d) [chk, n]"
  by (simp add: open_gen_def writable_iff lookup_def)

lemma completes_gen_write:
  assumes "open_gen chk d" "dk_left d = Suc k" "chk \<noteq> ''CURRENT''" "chk \<noteq> ''CURRENT.tmp''"
  shows "completes d k (\<lambda>d'. open_gen chk d' \<and> map_of (dk_fs d') [chk, n] = Some (File b)) (write_all_sync [chk, n] b)"
  by (rule completes_mono [OF completes_write [OF assms(2) writable_gen [OF assms(1)]]])
    (use assms(1) in \<open>auto simp: open_gen_def file_or_none_def\<close>)

lemma completes_gen_rename:
  assumes "open_gen chk d" "dk_left d = Suc k" "map_of (dk_fs d) [chk, a] = Some (File x)"
  shows "completes d k (open_gen chk) (rename [chk, a] [chk, b])"
proof -
  have "lookup (dk_fs d) [chk, a] = Some (File x)" using assms(1,3) by (simp add: open_gen_def lookup_def)
  from completes_rename [OF assms(2) this writable_gen [OF assms(1)]] show ?thesis
    by (rule completes_mono) (use assms(1) in \<open>auto simp: open_gen_def file_or_none_def\<close>)
qed

lemma completes_gen_fsync:
  assumes "open_gen chk d" "dk_left d = Suc k" "p = [] \<or> p = [chk]"
  shows "completes d k (open_gen chk) (fsync_dir p)"
  by (rule completes_mono [OF completes_fsync [OF assms(2)]]) (use assms(1,3) in \<open>auto simp: open_gen_def lookup_def\<close>)

lemma completes_chunks:
  assumes "cp_fault st = NoFault" "chk \<noteq> ''CURRENT''" "chk \<noteq> ''CURRENT.tmp''"
  shows "open_gen chk d \<Longrightarrow> dk_left d = 2 * length cs + k \<Longrightarrow> completes d k (open_gen chk) (write_chunks st chk i cs)"
proof (induction cs arbitrary: d i)
  case (Cons c cs)
  have left: "dk_left d = Suc (Suc (2 * length cs + k))" using Cons.prems(2) by simp
  have "completes d k (open_gen chk) (iobind (write_all_sync [chk, part_name i] c) (\<lambda>_.
      iobind (rename [chk, part_name i] [chk, chunk_name i]) (\<lambda>_. write_chunks st chk (Suc i) cs)))"
    by (rule completes_bind [OF completes_gen_write [OF Cons.prems(1) left assms(2,3)]],
        rule completes_bind [OF completes_gen_rename], use Cons.IH in auto)
  then show ?case using assms(1) by simp
qed (simp add: completes_lift)

lemma completes_create:
  assumes "dk_left d = Suc k" "map_of (dk_fs d) [] = Some Dir" "map_of (dk_fs d) [chk] = None"
    and "file_or_none (map_of (dk_fs d) [''CURRENT''])" "file_or_none (map_of (dk_fs d) [''CURRENT.tmp''])" "chk \<noteq> ''CURRENT''" "chk \<noteq> ''CURRENT.tmp''"
  shows "completes d k (open_gen chk) (create_dir [chk])"
proof -
  obtain d' where c: "create_dir [chk] d = (Inr (), d')" "dk_left d' = k"
    using assms(1-3) by (simp add: create_dir_def lookup_def spend_def put_node_def)
  have "open_gen chk d'"
    using assms create_done(1) [OF c(1)] by (auto simp: open_gen_def below_def file_or_none_def)
  with c show ?thesis by (auto simp: completes_def)
qed

lemma completes_generation:
  assumes "cp_fault st = NoFault" "length payload \<le> max_snapshot_bytes" "dk_left d = 2 * length (payload_chunks payload) + 7 + k"
    and "map_of (dk_fs d) [] = Some Dir" "map_of (dk_fs d) [gen_name g] = None"
    and "file_or_none (map_of (dk_fs d) [''CURRENT''])" "file_or_none (map_of (dk_fs d) [''CURRENT.tmp''])"
  shows "completes d k (open_gen (gen_name g)) (write_generation st g payload)"
proof -
  let ?chk = "gen_name g" and ?n = "2 * length (payload_chunks payload)" and ?ok = "str_bytes (''ok'' @ newline)"
    and ?man = "manifest_encode (corrupt_manifest st (new_manifest g payload))"
  have few: "length (payload_chunks payload) \<le> max_manifest_chunks"
    using length_chunks [of "chunk_size - 1" payload] assms(2) by (simp add: max_manifest_chunks_def chunk_size_def max_snapshot_bytes_def)
  have fault: "cut_fault st p = lift_io (Inr ())" if "p \<noteq> NoFault" for p using assms(1) that by (auto simp: cut_fault_def)
  have skip: "iobind (lift_io (Inr ())) f = f ()" for f :: "unit \<Rightarrow> unit io" by (auto simp: iobind_def lift_io_def)
  define fin where "fin = iobind (write_all_sync [?chk, ''ACK''] ?ok) (\<lambda>_.
      iobind (write_all_sync [?chk, ''MANIFEST.tmp''] ?man) (\<lambda>_. iobind (rename [?chk, ''MANIFEST.tmp''] [?chk, ''MANIFEST'']) (\<lambda>_.
      iobind (fsync_dir [?chk]) (\<lambda>_. lift_io (Inr ())))))"
  have fin: "completes d' k (open_gen ?chk) fin" if "open_gen ?chk d'" "dk_left d' = Suc (Suc (Suc (Suc k)))" for d'
    unfolding fin_def
    by (rule completes_bind [OF completes_gen_write [OF that]], simp_all, rule completes_bind [OF completes_gen_write], simp_all,
        rule completes_bind [OF completes_gen_rename], simp_all, rule completes_bind [OF completes_gen_fsync], auto intro: completes_lift)
  have "write_generation st g payload = iobind (create_dir [?chk]) (\<lambda>_. iobind (fsync_dir []) (\<lambda>_.
      iobind (write_chunks st ?chk 0 (payload_chunks payload)) (\<lambda>_. iobind (fsync_dir [?chk]) (\<lambda>_. fin))))"
    unfolding write_generation_def Let_def fin_def using few by (simp add: fault skip not_less)
  moreover have "completes d k (open_gen ?chk) \<dots>"
  proof (rule completes_bind)
    show "completes d (Suc (?n + 5 + k)) (open_gen ?chk) (create_dir [?chk])" by (rule completes_create) (use assms in simp_all)
    fix d1 :: disk assume d1: "dk_left d1 = Suc (?n + 5 + k)" "open_gen ?chk d1"
    show "completes d1 k (open_gen ?chk) (iobind (fsync_dir []) (\<lambda>_.
        iobind (write_chunks st ?chk 0 (payload_chunks payload)) (\<lambda>_. iobind (fsync_dir [?chk]) (\<lambda>_. fin))))"
    proof (rule completes_bind)
      show "completes d1 (?n + 5 + k) (open_gen ?chk) (fsync_dir [])" by (rule completes_gen_fsync) (use d1 in simp_all)
      fix d2 :: disk assume d2: "dk_left d2 = ?n + 5 + k" "open_gen ?chk d2"
      have "completes d2 (5 + k) (open_gen ?chk) (write_chunks st ?chk 0 (payload_chunks payload))"
        by (rule completes_chunks) (use d2 assms(1) in simp_all)
      then show "completes d2 k (open_gen ?chk) (iobind (write_chunks st ?chk 0 (payload_chunks payload)) (\<lambda>_. iobind (fsync_dir [?chk]) (\<lambda>_. fin)))"
        by (rule completes_bind) (rule completes_bind [OF completes_gen_fsync [where k = "4 + k"]], auto intro!: fin)
    qed
  qed
  ultimately show ?thesis by (simp only:)
qed

lemma completes_publish:
  assumes "open_gen chk d" "dk_left d = 3 + k"
  shows "completes d k (\<lambda>_. True) (publish_current g)"
proof -
  have w: "completes d (2 + k) (\<lambda>d'. map_of (dk_fs d') = (map_of (dk_fs d))([''CURRENT.tmp''] \<mapsto> File (str_bytes (gen_name g @ newline))))
      (write_all_sync [''CURRENT.tmp''] (str_bytes (gen_name g @ newline)))"
    by (rule completes_write) (use assms in \<open>simp_all add: open_gen_def writable_iff lookup_def\<close>)
  show ?thesis
    unfolding publish_current_def
  proof (rule completes_bind [OF w])
    fix d' :: disk assume d': "dk_left d' = 2 + k" "map_of (dk_fs d') = (map_of (dk_fs d))([''CURRENT.tmp''] \<mapsto> File (str_bytes (gen_name g @ newline)))"
    have r: "completes d' (Suc k) (\<lambda>e. map_of (dk_fs e) = (map_of (dk_fs d'))([''CURRENT.tmp''] := None, [''CURRENT''] \<mapsto> File (str_bytes (gen_name g @ newline))))
        (rename [''CURRENT.tmp''] [''CURRENT''])"
      by (rule completes_rename) (use assms(1) d' in \<open>simp_all add: open_gen_def writable_iff lookup_def\<close>)
    show "completes d' k (\<lambda>_. True) (iobind (rename [''CURRENT.tmp''] [''CURRENT'']) (\<lambda>_. fsync_dir []))"
      by (rule completes_bind [OF r], rule completes_mono [OF completes_fsync])
        (use assms(1) d' in \<open>simp_all add: open_gen_def lookup_def\<close>)
  qed
qed

lemma commit_completes_lemma:
  assumes "commit_precheck env st payload (dk_fs d) = Inr n" "st1 = st\<lparr>cp_next_id := max (cp_next_id st) n\<rparr>"
    and "commit_admit env st1 g payload tr (dk_fs d) = Inr ()" "cp_fault st = NoFault"
    and "iobind (protect_current env st1) (\<lambda>p. prune st1 p (length payload + max_manifest_bytes + 4096)) d = (Inr (), d1)"
    and "2 * length (payload_chunks payload) + 10 \<le> dk_left d1" "map_of (dk_fs d1) [] = Some Dir" "map_of (dk_fs d1) [gen_name g] = None"
    and "file_or_none (map_of (dk_fs d1) [''CURRENT''])" "file_or_none (map_of (dk_fs d1) [''CURRENT.tmp''])"
  shows "\<exists>st' d'. commit_bytes env st g payload tr d = (Inr g, st', d')"
proof -
  define k where "k = dk_left d1 - (2 * length (payload_chunks payload) + 10)"
  define st2 where "st2 = st1\<lparr>cp_next_id := g + 1\<rparr>"
  have len: "length payload \<le> max_snapshot_bytes" using assms(3) by (auto simp: commit_admit_def split: if_splits)
  have "completes d1 (3 + k) (open_gen (gen_name g)) (write_generation st2 g payload)"
    by (rule completes_generation) (use assms len in \<open>simp_all add: k_def st2_def\<close>)
  then have "completes d1 k (\<lambda>_. True) (iobind (write_generation st2 g payload) (\<lambda>_. publish_current g))"
    by (rule completes_bind) (rule completes_publish)
  then obtain d2 where w: "iobind (write_generation st2 g payload) (\<lambda>_. publish_current g) d1 = (Inr (), d2)" by (auto simp: completes_def)
  show ?thesis
    unfolding commit_bytes_def Let_def assms(1) sum.case assms(2) [symmetric] assms(3,5) prod.case st2_def [symmetric] w
    by (simp split: prod.splits)
qed

end
