(* ===== verification/Store_Props.thy ===== *)
theory Store_Props
  imports Store_Crash
begin

text \<open>
  The properties of the checkpoint store: atomic and durable commits, completion, retention that
  spares what recovery needs, and rejection of corrupted chunks, with their instances.
\<close>

section \<open>Retention\<close>

text \<open>A computation that leaves the paths of \<open>Q\<close> as they are shown.\<close>

definition spares :: "path set \<Rightarrow> 'a io \<Rightarrow> bool" where
  "spares Q m \<longleftrightarrow> (\<forall>d. \<forall>q\<in>Q. map_of (dk_fs (snd (m d))) q = map_of (dk_fs d) q)"

lemma spares_lift: "spares Q (lift_io r)" and spares_reads: "spares Q (reads f)"
  by (simp_all add: spares_def lift_io_def reads_def)

lemma spares_bind: "spares Q m \<Longrightarrow> (\<And>x. spares Q (f x)) \<Longrightarrow> spares Q (iobind m f)"
  by (auto simp: spares_def iobind_def split: prod.splits sum.splits) (metis snd_conv)+

lemma spares_fsync: "spares Q (fsync_dir p)"
  by (auto simp: spares_def fsync_dir_def spend_def)

lemma spares_unlink_all: "set ps \<inter> Q = {} \<Longrightarrow> spares Q (unlink_all ps)"
proof (induction ps)
  case (Cons p ps)
  have "spares Q (unlink p)" using Cons.prems by (auto simp: spares_def unlink_def spend_def del_node_def delete_conv')
  then show ?case using Cons by (auto intro!: spares_bind)
qed (simp add: spares_lift)

lemma spares_remove:
  assumes "p \<notin> Q" "\<And>q. q \<in> Q \<Longrightarrow> \<not> below p q"
  shows "spares Q (remove_dir_all p)"
proof -
  have "spares Q (unlink_all (rev (sort_key length (filter (below p) (map fst f))) @ [p]))" for f :: fs
    using assms by (intro spares_unlink_all) auto
  then show ?thesis by (simp add: spares_def remove_dir_all_def)
qed

definition gen_tree :: "nat \<Rightarrow> path set" where
  "gen_tree g = {q. q = [gen_name g] \<or> below [gen_name g] q}"

lemma gen_tree_disjoint: "i \<noteq> g \<Longrightarrow> q \<in> gen_tree g \<Longrightarrow> q \<notin> gen_tree i"
  by (auto simp: gen_tree_def below_def neq_Nil_conv)

definition kept_paths :: "nat \<Rightarrow> path set" where
  "kept_paths g = gen_tree g \<union> {[], [''CURRENT'']}"

lemma spares_other: "i \<noteq> g \<Longrightarrow> spares (kept_paths g) (remove_dir_all [gen_name i])"
  using gen_tree_disjoint [of i g] by (intro spares_remove) (auto simp: kept_paths_def gen_tree_def below_def)

lemma current_id_cong:
  "map_of f [] = map_of f' [] \<Longrightarrow> map_of f [''CURRENT''] = map_of f' [''CURRENT''] \<Longrightarrow> current_id f = current_id f'"
  by (simp add: current_id_def read_current_def read_bounded_def lookup_def)

definition kept :: "'i cp_store \<Rightarrow> nat option \<Rightarrow> fs \<Rightarrow> nat \<Rightarrow> bool" where
  "kept st protected f g \<longleftrightarrow> Some g = protected \<or> Some g = cp_pinned st \<or> Some g = current_id f"

lemma prune_loop_spares:
  assumes "kept st pr (dk_fs d) g" "q \<in> kept_paths g"
  shows "map_of (dk_fs (snd (prune_loop st pr rs keep ids cnt used removed d))) q = map_of (dk_fs d) q"
  using assms(1)
proof (induction ids arbitrary: d cnt used removed)
  case (Cons i ids)
  let ?skip = "Some i = pr \<or> Some i = cp_pinned st \<or> Some i = current_id (dk_fs d)"
  have step: "map_of (dk_fs d') q' = map_of (dk_fs d) q'" if "\<not> ?skip" "remove_dir_all [gen_name i] d = (r, d')" "q' \<in> kept_paths g" for r d' q'
    using spares_other [of i g] Cons.prems that by (auto simp: spares_def kept_def) (metis snd_conv)+
  have next_: "map_of (dk_fs (snd (prune_loop st pr rs keep ids c u True d'))) q = map_of (dk_fs d) q"
    if "\<not> ?skip" "remove_dir_all [gen_name i] d = (Inr (), d')" for d' c u
  proof -
    have "current_id (dk_fs d') = current_id (dk_fs d)"
      using step [OF that] by (intro current_id_cong) (simp_all add: kept_paths_def)
    then have "kept st pr (dk_fs d') g" using Cons.prems by (simp add: kept_def)
    from Cons.IH [OF this] step [OF that assms(2)] show ?thesis by simp
  qed
  show ?case
    using Cons.IH [OF Cons.prems] step [OF _ _ assms(2)] next_
    by (auto simp: iobind_def lift_io_def reads_def split: prod.splits sum.splits)
qed (simp add: lift_io_def)

section \<open>Corruption\<close>

lemma load_chunks_mismatch:
  assumes "map_of f [] = Some Dir" "map_of f [g] = Some Dir" "i < length cs"
    and "\<And>j. j < length cs \<Longrightarrow> map_of f [g, part_name j] = None \<and> map_of f [g, chunk_name j] = Some (File (if j = i then bad else cs ! j))"
    and "\<And>c. c \<in> set cs \<Longrightarrow> length c \<le> chunk_size" "m_checksums m = map crc32 cs" "m_bytes m = length (concat cs)"
    and "length bad = length (cs ! i)" "crc32 bad \<noteq> crc32 (cs ! i)" "k \<le> i"
  shows "load_chunks f g m [k..<length cs] (concat (take k cs)) = SErr CodecViolation"
  using assms(10)
proof (induction "i - k" arbitrary: k)
  case 0
  then have k: "k = i" by simp
  then show ?case
    using assms(3,6-9) assms(4) [OF assms(3)] length_concat_take [OF assms(3)] assms(5) [OF nth_mem [OF assms(3)]]
    by (simp add: upt_conv_Cons exists_path_def lookup_in_gen [OF assms(1,2)] read_bounded_def)
next
  case (Suc n)
  then have k: "k < i" "k < length cs" using assms(3) by simp_all
  have "load_chunks f g m [Suc k..<length cs] (concat (take (Suc k) cs)) = SErr CodecViolation"
    using Suc.hyps(1) [of "Suc k"] Suc.hyps(2) k by simp
  then show ?case
    using k length_concat_take [OF k(2)] assms(4) [OF k(2)] assms(5) [OF nth_mem [OF k(2)]] assms(6,7)
    by (simp add: upt_conv_Cons exists_path_def lookup_in_gen [OF assms(1,2)] read_bounded_def take_Suc_conv_app_nth)
qed

section \<open>Properties\<close>

text \<open>
  C2: A commit is atomic under power failure. Starting from a store whose \<^verbatim>\<open>CURRENT\<close> durably
  names a loadable generation, or from one without \<^verbatim>\<open>CURRENT\<close>, let a commit run to its end or
  stop at any change of the disk, with any of the unsynced changes kept or lost. Recovery from
  what is then on the disk gives the new snapshot or, only if the commit was not acknowledged,
  exactly what it gave before; and so does recovery without a crash.
\<close>

theorem commit_crash_atomic:
  assumes "committed c d" "loads env reader c old" "loadable env reader True g payload new" "cp_fault st \<noteq> CorruptChecksum"
    and "commit_bytes env st g payload trusted d = (r, st', d')" "crash_image d' f \<or> f = dk_fs d'"
  shows "recover_any_committed env reader True f = Inr (Some new) \<or>
    (\<exists>e. r = Inl e) \<and> recover_any_committed env reader True f = Inr old"
proof -
  have u: "is_u64 g" using assms(3) by (simp add: loadable_def)
  have "disk_ok d'" using commit_outcome [OF assms(1,5) u assms(4)] by (cases r) (auto simp: settles_def committed_ok)
  then have "crash_image d' f" using assms(6) crash_image_view by blast
  from commit_images [OF assms(1,5) u assms(4) this] show ?thesis
  proof
    assume "store_on c (map_of f) \<and> (\<exists>e. r = Inl e)"
    then show ?thesis using loads_recover [OF _ assms(2)] by blast
  next
    assume "store_on (Some (g, payload)) (map_of f) \<and> gen_id c < g"
    moreover have "loads env reader (Some (g, payload)) (Some new)" using assms(3) by (simp add: loads_def)
    ultimately show ?thesis using loads_recover by blast
  qed
qed


text \<open>
  C3: No acknowledged checkpoint is ever lost. Through any sequence of commits and power failures, in
  which every commit is acknowledged, or fails before it has switched \<^verbatim>\<open>CURRENT\<close> and is followed by
  further commits of the same process, or stops at any change of the disk and is followed by a
  restart of the machine, recovery succeeds and returns a checkpoint at least as new as the last
  acknowledged one; it returns none only if none was ever acknowledged.
\<close>

theorem acknowledged_never_lost:
  assumes "store_run env reader d a"
  shows "\<exists>r. recover_any_committed env reader True (dk_fs d) = Inr r \<and> a \<le> (case r of None \<Rightarrow> 0 | Some s \<Rightarrow> stored_id env s)"
proof -
  obtain c r where c: "committed c d" "loads env reader c r" "a \<le> gen_id c" using store_run_committed [OF assms] by blast
  have "recover_any_committed env reader True (dk_fs d) = Inr r"
    using loads_recover [OF _ c(2)] c(1) by (simp add: committed_def)
  moreover have "gen_id c = (case r of None \<Rightarrow> 0 | Some s \<Rightarrow> stored_id env s)"
    using c(2) by (cases c) (auto simp: loads_def gen_id_def loadable_def)
  ultimately show ?thesis using c(3) by simp
qed

text \<open>
  C13: A commit completes. When the bytes are admitted, retention has made room, and the device
  accepts two changes for every chunk and ten more, the commit is acknowledged with the
  requested identifier.
\<close>

theorem commit_completes:
  assumes "commit_precheck env st payload (dk_fs d) = Inr n" "st1 = st\<lparr>cp_next_id := max (cp_next_id st) n\<rparr>"
    and "commit_admit env st1 g payload trusted (dk_fs d) = Inr ()" "cp_fault st = NoFault"
    and "iobind (protect_current env st1) (\<lambda>p. prune st1 p (length payload + max_manifest_bytes + 4096)) d = (Inr (), d1)"
    and "2 * length (chunks (chunk_size - 1) payload) + 10 \<le> dk_left d1" "map_of (dk_fs d1) [] = Some Dir" "map_of (dk_fs d1) [gen_name g] = None"
    and "file_or_none (map_of (dk_fs d1) [''CURRENT''])" "file_or_none (map_of (dk_fs d1) [''CURRENT.tmp''])"
  shows "\<exists>st' d'. commit_bytes env st g payload trusted d = (Inr g, st', d')"
  by (rule commit_completes_lemma) (rule assms)+

text \<open>
  C15: Retention spares what recovery needs. Wherever pruning stops, the directory of the protected
  generation, of the pinned one and of the one \<^verbatim>\<open>CURRENT\<close> names are shown exactly as before, and
  \<^verbatim>\<open>CURRENT\<close> still names it.
\<close>

theorem prune_spares:
  assumes "prune st protected reserve d = (r, d')" "Some g \<in> {protected, cp_pinned st, current_id (dk_fs d)}"
    and "q = [gen_name g] \<or> below [gen_name g] q"
  shows "map_of (dk_fs d') q = map_of (dk_fs d) q \<and> current_id (dk_fs d') = current_id (dk_fs d)"
proof -
  have k: "kept st protected (dk_fs d) g" using assms(2) by (auto simp: kept_def)
  have same: "map_of (dk_fs d') p = map_of (dk_fs d) p" if "p \<in> kept_paths g" for p
  proof -
    have sync: "dk_fs (snd (fsync_dir [] e)) = dk_fs e" for e by (simp add: fsync_dir_def spend_def)
    have "map_of (dk_fs (snd (prune st protected reserve d))) p = map_of (dk_fs d) p"
      using prune_loop_spares [OF k that] unfolding prune_def iobind_def reads_def lift_io_def
      by (auto simp: sync split: prod.splits sum.splits) (metis snd_conv sync)+
    then show ?thesis using assms(1) by simp
  qed
  then have "current_id (dk_fs d') = current_id (dk_fs d)" by (intro current_id_cong) (simp_all add: kept_paths_def)
  then show ?thesis using same [of q] assms(3) by (simp add: kept_paths_def gen_tree_def)
qed

text \<open>
  C14: A corrupted chunk is never restored. If in a committed generation up to four consecutive
  bytes of one chunk file are changed, wherever they are and whatever to, loading the generation
  fails with a codec violation.
\<close>

theorem corrupt_chunk_rejected:
  assumes "gen_on (map_of f) g payload" "is_u64 g" "length payload \<le> max_snapshot_bytes" "i < length (chunks (chunk_size - 1) payload)"
    and "chunks (chunk_size - 1) payload ! i = xs @ bs @ ys" "length cs = length bs" "length bs \<le> 4" "cs \<noteq> bs"
  shows "load_generation env st mat g (AList.update [gen_name g, chunk_name i] (File (xs @ cs @ ys)) f) = SErr CodecViolation"
proof -
  let ?f = "AList.update [gen_name g, chunk_name i] (File (xs @ cs @ ys)) f" and ?m = "new_manifest g payload"
  note on = assms(1) [unfolded gen_on_def]
  have look: "lookup ?f [gen_name g] = Some Dir" "lookup ?f [gen_name g, n] = map_of ?f [gen_name g, n]" for n
    using on by (simp_all add: lookup_def update_conv')
  have man: "manifest_decode (manifest_encode ?m) = Ok ?m" "length (manifest_encode ?m) \<le> max_manifest_bytes"
    using manifest_roundtrip [OF new_manifest_ok] assms(2,3) by blast+
  have "load_chunks ?f (gen_name g) ?m [0..<length (payload_chunks payload)] (concat (take 0 (payload_chunks payload))) = SErr CodecViolation"
  proof (rule load_chunks_mismatch [where i = i and bad = "xs @ cs @ ys"])
    show "crc32 (xs @ cs @ ys) \<noteq> crc32 (payload_chunks payload ! i)"
      using crc32_detects_bursts [of cs bs xs ys] assms(5-8) by simp
  qed (use on assms(4-6) chunks_bound [of _ "chunk_size - 1" payload] in \<open>auto simp: new_manifest_def Let_def chunk_size_def update_conv'\<close>)
  then show ?thesis
    using on man look assms(3) by (simp add: load_generation_def Let_def exists_path_def read_bounded_def new_manifest_def update_conv')
qed

section \<open>Instances\<close>

definition demo_env :: "(unit, unit) store_env" where
  "demo_env = \<lparr>se_layout = \<lparr>size_of_scalar = 24, size_of_dynamic = 24, size_of_pair = 40\<rparr>, se_entry_size = 72,
     se_pipe_decode = (\<lambda>_ _ _. SErr FeatureUnavailable), se_pipe_id = (\<lambda>_. 0), se_sink_identity = (\<lambda>_. SErr CodecViolation),
     se_scratch = Inr (), se_lock = Inr ()\<rparr>"

definition demo_cp :: "unit cp_store" where
  "demo_cp = \<lparr>cp_next_id = 2, cp_fault = NoFault, cp_max_state_keys = 4, cp_locked = True, cp_retention = retention_default,
     cp_maintenance_error = None, cp_pinned = None, cp_read_only = False, cp_pipeline_version = None, cp_sink = None\<rparr>"

definition demo_disk :: "fs \<Rightarrow> nat \<Rightarrow> disk" where
  "demo_disk f k = \<lparr>dk_fs = f, dk_maybe = (\<lambda>p. {map_of f p}), dk_unsynced = {}, dk_left = k, dk_torn = Some 3, dk_fault = ResourceExhausted\<rparr>"

abbreviation demo_dir :: fs where
  "demo_dir \<equiv> [([], Dir)]"

lemma demo_committed: "committed None (demo_disk demo_dir k)"
  by (simp add: committed_def holds_on_def durable_def disk_ok_def demo_disk_def)

lemma demo_payload:
  "length (snapshot_bytes demo_snapshot) \<le> 1000" "14 \<le> length (snapshot_bytes demo_snapshot)"
  "take 8 (drop 6 (snapshot_bytes demo_snapshot)) = u64_le 5" "version_bytes (snapshot_bytes demo_snapshot) = Some [2, 0]"
proof -
  have freeze: "length (freeze_bytes demo_freeze) \<le> 200"
    by (simp add: freeze_bytes_def demo_freeze_def entry_bytes_def encode_opt_i64_def value_bytes_def encode_value_def key_utf8_def
        acc_bytes_def encode_codec_def str_bytes_def)
  have layout: "length (layout_bytes demo_layout) \<le> 200"
    by (simp add: layout_bytes_def demo_layout_def encode_str_def encode_opt_str_def encode_opt_i64_def part_bytes_def semantics_bytes_def ss_parts_def)
  have prefix: "length (write_snapshot_prefix 5 2 (cs_source demo_snapshot)) \<le> 200"
    by (simp add: write_snapshot_prefix_def demo_snapshot_def encode_position_def encode_str_def snapshot_magic_def)
  show "length (snapshot_bytes demo_snapshot) \<le> 1000"
    using freeze layout prefix by (simp add: snapshot_bytes_def demo_snapshot_def table_bytes_def encode_str_def)
  show "14 \<le> length (snapshot_bytes demo_snapshot)" "take 8 (drop 6 (snapshot_bytes demo_snapshot)) = u64_le 5"
    by (simp_all add: snapshot_bytes_def demo_snapshot_def write_snapshot_prefix_def snapshot_magic_def)
  show "version_bytes (snapshot_bytes demo_snapshot) = Some [2, 0]"
    by (simp add: version_bytes_def snapshot_bytes_def demo_snapshot_def write_snapshot_prefix_def snapshot_magic_def u16_le_def
        snapshot_version_def numeral_2_eq_2)
qed

lemma demo_loadable: "loadable demo_env demo_cp True 5 (snapshot_bytes demo_snapshot) (Legacy demo_snapshot)"
proof -
  have "cs_checkpoint_id demo_snapshot = 5" by (simp add: demo_snapshot_def)
  then show ?thesis using demo_payload decode_snapshot_bytes [OF demo_snapshot_ok]
    by (simp add: loadable_def is_u64_def max_snapshot_bytes_def check_sink_payload_def demo_cp_def stored_decode_def guarded_codec_def is_pipeline_def
        stored_id_def)
qed

theorem commit_crash_atomic_witness:
  "recover_any_committed demo_env demo_cp True
      (dk_fs (snd (snd (commit_bytes demo_env demo_cp 5 (snapshot_bytes demo_snapshot) False (demo_disk demo_dir 6)))))
    \<in> {Inr (Some (Legacy demo_snapshot)), Inr None}"
proof -
  obtain r st' d' where run: "commit_bytes demo_env demo_cp 5 (snapshot_bytes demo_snapshot) False (demo_disk demo_dir 6) = (r, st', d')"
    by (metis prod_cases3)
  have "loads demo_env demo_cp None None" "cp_fault demo_cp \<noteq> CorruptChecksum" by (simp_all add: loads_def demo_cp_def)
  from commit_crash_atomic [OF demo_committed this(1) demo_loadable this(2) run, of "dk_fs d'"] show ?thesis by (auto simp: run)
qed

lemma demo_commit:
  "commit_precheck demo_env demo_cp (snapshot_bytes demo_snapshot) demo_dir = Inr 1"
  "commit_admit demo_env (demo_cp\<lparr>cp_next_id := max (cp_next_id demo_cp) 1\<rparr>) 5 (snapshot_bytes demo_snapshot) True demo_dir = Inr ()"
  "iobind (protect_current demo_env (demo_cp\<lparr>cp_next_id := max (cp_next_id demo_cp) 1\<rparr>))
     (\<lambda>p. prune (demo_cp\<lparr>cp_next_id := max (cp_next_id demo_cp) 1\<rparr>) p (length (snapshot_bytes demo_snapshot) + max_manifest_bytes + 4096))
     (demo_disk demo_dir 100) = (Inr (), demo_disk demo_dir 100)"
  "2 * length (chunks (chunk_size - 1) (snapshot_bytes demo_snapshot)) + 10 \<le> 100"
proof -
  have dir: "read_dir demo_dir [] = Inr []" by (simp add: read_dir_def lookup_def)
  then have ids: "list_generation_ids demo_dir = Inr []" by (simp add: list_generation_ids_def)
  show "commit_precheck demo_env demo_cp (snapshot_bytes demo_snapshot) demo_dir = Inr 1"
    using ids by (simp add: commit_precheck_def demo_cp_def check_sink_payload_def next_generation_def is_u64_def)
  show "commit_admit demo_env (demo_cp\<lparr>cp_next_id := max (cp_next_id demo_cp) 1\<rparr>) 5 (snapshot_bytes demo_snapshot) True demo_dir = Inr ()"
    using demo_payload by (simp add: commit_admit_def demo_cp_def exists_path_def lookup_def max_snapshot_bytes_def is_u64_def)
  have sz: "dir_size [] demo_dir = Inr 0" using dir by (simp add: dir_size_def numeral_eq_Suc)
  have cur: "read_current demo_dir = Inr None" by (simp add: read_current_def lookup_def)
  have room: "sat_u64 (length (snapshot_bytes demo_snapshot) + max_manifest_bytes + 4096) \<le> 33554432"
    using demo_payload(1) by (simp add: sat_u64_def max_manifest_bytes_def)
  show "iobind (protect_current demo_env (demo_cp\<lparr>cp_next_id := max (cp_next_id demo_cp) 1\<rparr>))
     (\<lambda>p. prune (demo_cp\<lparr>cp_next_id := max (cp_next_id demo_cp) 1\<rparr>) p (length (snapshot_bytes demo_snapshot) + max_manifest_bytes + 4096))
     (demo_disk demo_dir 100) = (Inr (), demo_disk demo_dir 100)"
    using room by (simp add: protect_current_def prune_def iobind_def reads_def lift_io_def demo_disk_def cur ids sz prune_order_def
        demo_cp_def retention_default_def)
  show "2 * length (chunks (chunk_size - 1) (snapshot_bytes demo_snapshot)) + 10 \<le> 100"
    using length_chunks [of "chunk_size - 1" "snapshot_bytes demo_snapshot"] demo_payload(1) by (simp add: chunk_size_def)
qed

lemma demo_sel: "dk_fs (demo_disk f k) = f" "dk_left (demo_disk f k) = k" "cp_fault demo_cp = NoFault"
  by (simp_all add: demo_disk_def demo_cp_def)

theorem commit_completes_witness:
  "\<exists>st' d'. commit_bytes demo_env demo_cp 5 (snapshot_bytes demo_snapshot) True (demo_disk demo_dir 100) = (Inr 5, st', d')"
  by (rule commit_completes [where n = 1 and ?d1.0 = "demo_disk demo_dir 100", OF _ refl])
    (simp_all only: demo_sel demo_commit, simp_all add: file_or_none_def)

text \<open>A fresh directory and one acknowledged commit.\<close>

lemma demo_run: "\<exists>d. store_run demo_env demo_cp d 5"
proof -
  obtain st' d' where ran: "commit_bytes demo_env demo_cp 5 (snapshot_bytes demo_snapshot) True (demo_disk demo_dir 100) = (Inr 5, st', d')"
    using commit_completes_lemma [where n = 1 and ?d1.0 = "demo_disk demo_dir 100", OF _ refl, of demo_env demo_cp "snapshot_bytes demo_snapshot"
        "demo_disk demo_dir 100" 5 True, unfolded demo_sel, OF demo_commit(1,2) refl demo_commit(3,4)]
    by (auto simp: file_or_none_def)
  have "store_run demo_env demo_cp (demo_disk demo_dir 100) 0" by (rule store_run.fresh) (rule demo_committed)
  then have "store_run demo_env demo_cp d' 5"
    using ran _ demo_loadable by (rule store_run.acknowledged) (simp add: demo_sel)
  then show ?thesis by blast
qed

theorem acknowledged_never_lost_witness:
  "\<exists>d r. store_run demo_env demo_cp d 5 \<and> recover_any_committed demo_env demo_cp True (dk_fs d) = Inr r \<and>
     5 \<le> (case r of None \<Rightarrow> 0 | Some s \<Rightarrow> stored_id demo_env s)"
  using demo_run acknowledged_never_lost [of demo_env demo_cp _ 5] by blast

theorem prune_spares_witness:
  "map_of (dk_fs (snd (prune demo_cp (Some 7) 33554432 (demo_disk
      [([], Dir), ([gen_name 6], Dir), ([gen_name 7], Dir), ([gen_name 7, ''ACK''], File [3])] 9)))) [gen_name 7, ''ACK''] = Some (File [3])"
proof -
  let ?d = "demo_disk [([], Dir), ([gen_name 6], Dir), ([gen_name 7], Dir), ([gen_name 7, ''ACK''], File [3])] 9"
  have "prune demo_cp (Some 7) 33554432 ?d = (fst (prune demo_cp (Some 7) 33554432 ?d), snd (prune demo_cp (Some 7) 33554432 ?d))" by simp
  from prune_spares [OF this, of 7 "[gen_name 7, ''ACK'']"] show ?thesis by (simp add: below_def demo_sel)
qed

definition demo_gen :: fs where
  "demo_gen = [([], Dir), ([gen_name 5], Dir), ([gen_name 5, ''ACK''], File [1]),
     ([gen_name 5, ''MANIFEST''], File (manifest_encode (new_manifest 5 [1, 2, 3]))), ([gen_name 5, chunk_name 0], File [1, 2, 3])]"

theorem corrupt_chunk_rejected_witness:
  "load_generation demo_env demo_cp True 5 (AList.update [gen_name 5, chunk_name 0] (File ([1] @ [7, 7] @ [])) demo_gen) = SErr CodecViolation"
proof (rule corrupt_chunk_rejected [where bs = "[2, 3]"])
  show "gen_on (map_of demo_gen) 5 [1, 2, 3]" by (simp add: gen_on_def demo_gen_def chunk_size_def)
  show "0 < length (chunks (chunk_size - 1) [1, 2, 3])" "chunks (chunk_size - 1) [1, 2, 3] ! 0 = [1] @ [2, 3] @ []" by (simp_all add: chunk_size_def)
qed (simp_all add: is_u64_def max_snapshot_bytes_def)

end
