(* ===== verification/Spec2Isabelle.thy ===== *)
theory Spec2Isabelle
  imports Prelude Float64 Scalar_Value Scalar_Codec Window_Kind Containers Watermark Memory Work_Budget Timer_Heap
    Aggregate Keyed_State Dedup Scalar_Ops Collection_Fns Builtin_Fns Expr_Eval Expr_Types
    Row_Batch Alarm Iot_Filter Op_Effects Iot_Common Timed_Iot Iot_Spec Alarm_Iot Alarm_Rows
    Time_Index Op_Batch Window_Spec Window_Op Window_Inv Window_Close Window_Fire Window_Safe Window_Props
    Freeze_Codec Window_Freeze Window_Restore Checkpoint_Codec Store_Fs Checkpoint_Store Store_Crash Store_Props
begin

text \<open>
  \<^bold>\<open>Verification of the Sparrow streaming runtime.\<close>

  Sparrow runs SQL queries over unbounded streams on small machines. A query is compiled to a
  graph of operators; rows reach them in batches through bounded mailboxes, operators keep
  keyed state that is billed to a memory owner, timers and watermarks tell windows when to
  close, and every quantum of work is metered. The development models the data model
  (\<^verbatim>\<open>crates/sparrow-model\<close>) and the stateful core of the runtime
  (\<^verbatim>\<open>crates/sparrow-runtime\<close>) as executable functions.

  \<^bold>\<open>Conventions.\<close> A fallible Rust function returns \<open>sparrow_error + 'a\<close> (\<open>Inl\<close> an error);
  an error keeps its code and its retry hint, message text is left out. Machine integers are
  \<open>int\<close> or \<open>nat\<close> with the width written out: \<open>wadd\<close> and \<open>wsub\<close> wrap modulo \<open>2 ^ 64\<close>,
  \<open>sat_i64\<close> and \<open>sat_u64\<close> saturate, \<open>is_i64\<close> and \<open>is_u64\<close> are the range checks of
  \<open>checked_\<close> arithmetic. Sizes of Rust types that the compiler chooses (\<open>size_of\<close>) are
  fields of a \<open>layout\<close> parameter, and the capacities of growing vectors are arguments. Where a
  function can panic, its result is an \<open>option\<close> and \<open>None\<close> is the panic. Loops are total
  functions: structural recursion, or a \<open>termination\<close> proof by a measure. Two kinds of loops have
  fuel: the kernel's drain of due timers (\<open>edrain\<close>), whose locale shows that the backlog of the
  operator is enough, and the loops that take windows out of an index (\<open>eloop\<close>, \<open>take_closed_loop\<close>).

  \<^bold>\<open>Theories and what they model.\<close>

    \<^item> \<open>Prelude\<close>: \<^verbatim>\<open>error.rs\<close>, results, byte strings, little-endian integers and the shared
      arithmetic lemmas. \<open>Float64\<close>: IEEE binary64 by its bit pattern, with executable
      arithmetic (exact integer arithmetic and one rounding), comparison and conversions.
    \<^item> \<open>Scalar_Value\<close> and \<open>Scalar_Codec\<close>: \<^verbatim>\<open>types.rs\<close> and \<^verbatim>\<open>scalar.rs\<close>: data types and schemas,
      scalars and nested dynamic values, size accounting, the state-key encoding (injective up
      to the canonical form, prefix free) and the durable value encoding (round trip, typed
      results for arbitrary bytes, skipping agrees with decoding).
    \<^item> \<open>Window_Kind\<close>: \<^verbatim>\<open>sparrow-model/src/window.rs\<close>: window kinds, tumbling and hop assignment
      with their saturating arithmetic, aggregate names.
    \<^item> \<open>Containers\<close>: Rust's \<open>HashMap\<close>, \<open>BTreeMap\<close> and \<open>BinaryHeap\<close> behind the locale
      \<open>finite_map\<close>, with one interpretation per representation.
    \<^item> \<open>Watermark\<close>: both \<^verbatim>\<open>watermark.rs\<close> files: the hub over several inputs with idleness, and
      the output holdback. Monotonicity along all runs, the effective minimum, the exact errors.
    \<^item> \<open>Memory\<close>: \<^verbatim>\<open>resource.rs\<close> and \<^verbatim>\<open>memory.rs\<close>: the tree of owners with an explicit store of
      counters, leases as shared allocations with parent leases, and a step relation over which
      the ledgers are shown to equal the live allocations.
    \<^item> \<open>Work_Budget\<close>: \<^verbatim>\<open>budget.rs\<close> as a transition system of threads at their atomic steps, and
      \<^verbatim>\<open>inflight.rs\<close>.
    \<^item> \<open>Timer_Heap\<close>: \<^verbatim>\<open>timer.rs\<close>: a heap with stale entries and compaction that implements the
      deadline table of the locale \<open>timer_table\<close>.
    \<^item> \<open>Aggregate\<close>: \<^verbatim>\<open>aggregate.rs\<close>: accumulators, their results against list specifications,
      and their durable codec, skipped, billed and restored.
    \<^item> \<open>Keyed_State\<close>, \<open>Time_Index\<close> and \<open>Dedup\<close>: \<^verbatim>\<open>state.rs\<close> and \<^verbatim>\<open>dedup.rs\<close>: the bounded map
      billed to an owner, the billed index of its entries by time that deduplication and windows
      share, and the deduplication operator over both.

    \<^item> \<open>Scalar_Ops\<close>, \<open>Collection_Fns\<close>, \<open>Builtin_Fns\<close>, \<open>Expr_Eval\<close> and \<open>Expr_Types\<close>:
      \<^verbatim>\<open>crates/sparrow-expr\<close>: arithmetic, comparison, casts, the scalar and collection functions,
      binding by index, the filter kernel, type and nullability inference with their soundness and
      its exceptions. Base64, SHA-256, the JSON codec, RFC 3339 text, float text and plugin engines
      are third-party code and fields of the \<open>host\<close> parameter.
    \<^item> \<open>Row_Batch\<close>: \<^verbatim>\<open>batch.rs\<close>, \<^verbatim>\<open>output.rs\<close> and the origin span of \<^verbatim>\<open>observation.rs\<close>: rows,
      batches, the billed builder and stable output identities.
    \<^item> \<open>Op_Effects\<close>: the control flow of operators that bill memory (\<open>?\<close>, scoped and guarded
      leases) as combinators on store and state, and a total-correctness triple with its rules.
      \<open>Op_Batch\<close>: building an output batch on reservation credit never touches the retention ledger.
    \<^item> \<open>Iot_Filter\<close> and \<open>Iot_Spec\<close>: the exact comparisons, deadband and hysteresis decisions of
      \<^verbatim>\<open>iot.rs\<close>; the IoT specifications of \<^verbatim>\<open>sparrow-plan\<close> (\<^verbatim>\<open>stateful.rs\<close>, \<^verbatim>\<open>resample.rs\<close>) and
      their validation, output schemas and silence registry.
    \<^item> \<open>Alarm\<close>: the pure alarm machine of \<^verbatim>\<open>alarm.rs\<close> and its refinement of an abstract lifecycle.
    \<^item> \<open>Iot_Common\<close>, \<open>Timed_Iot\<close> and \<open>Alarm_Iot\<close>: the deadline index and the drain loop as the
      locale \<open>due_source\<close>; the hold-for and debounce operators (\<^verbatim>\<open>timed_iot.rs\<close>) and the alarm
      operator (\<^verbatim>\<open>alarm_iot.rs\<close>), each with an invariant that every batch, timer call and restore
      keeps, errors included, draining within a bound, and freeze and restore as inverses.
      \<open>Alarm_Rows\<close>: what the alarm operator emits is what a reference with one alarm machine per
      key emits.
    \<^item> \<open>Window_Spec\<close>: the window specifications of \<^verbatim>\<open>stateful.rs\<close>, their validation and schema.
      \<open>Window_Op\<close>: \<^verbatim>\<open>sparrow-runtime/src/window.rs\<close>: tumbling, hopping and count windows over keyed
      state, the index of closable windows, timers and the watermark hub, every step with its
      billing. \<open>Window_Inv\<close>: the invariant and the abstract effect of a row of each kind on the map
      of windows. \<open>Window_Close\<close>, \<open>Window_Fire\<close> and \<open>Window_Safe\<close>: closing by watermark, firing by
      timer, batches and cleanup. \<open>Window_Props\<close>: the properties, over any sequence of operations
      from construction on. The loops that take windows out of the index run with the number of
      index entries plus one as fuel; each round takes one entry out, and the properties show
      that they end with a result.
    \<^item> \<open>Freeze_Codec\<close> and \<open>Window_Freeze\<close>: the frozen state of a window operator, its wire format and
      the scan that bills it before it is read (\<^verbatim>\<open>checkpoint.rs\<close>); freezing, the live encoding by
      sorted references, the validation of a restored state and the restore (\<^verbatim>\<open>window.rs\<close>).
      \<open>Window_Restore\<close>: what a restore costs, and the round trip of a checkpoint.
    \<^item> \<open>Checkpoint_Codec\<close>: the checksum, the manifest and the snapshot of \<^verbatim>\<open>checkpoint.rs\<close>, with the
      source position and the plan layout they carry. \<open>Store_Fs\<close>: a directory tree whose unsynced
      changes a crash may lose, each on its own, and a device that refuses changes after a chosen
      number of them. \<open>Checkpoint_Store\<close>: opening, committing, publishing, pruning and recovering.
      \<open>Store_Crash\<close> and \<open>Store_Props\<close>: a commit is atomic and durable wherever it stops, completes
      on a working device, and retention and corrupted chunks never hide a committed checkpoint.
      Runs of the store cover commits that are acknowledged, that fail before \<^verbatim>\<open>CURRENT\<close> is switched
      and are retried, that stop anywhere before a restart, and power failures between commits;
      going on in one process after a failed sync behind the switch is outside, because there the
      store can prune the generation a crash brings back.

  \<^bold>\<open>Not modelled.\<close> Connectors, formats, the control plane, the server and the plugin hosts are
  I/O around the core. Diagnostics (message text, \<open>Display\<close>, metrics getters) carry no state.
  The asynchronous wake-up of \<^verbatim>\<open>inflight.rs\<close> is a hint to the executor and is left out. Of the
  window operator the estimate of the working credit of one step is left out. Of the checkpoint
  store the loads that bill a job (the unbilled load is the one whose reservations are granted),
  the inventory for operators and the participant-aware snapshots of \<^verbatim>\<open>pipeline_checkpoint.rs\<close>
  are left out; the decoder of the latter is a parameter of the store.

  \<^bold>\<open>Plan.\<close> Open: the participant-aware snapshots, the silence and resampling operators, barriers,
  mailboxes and the joins; then the SQL front end and the planner.
\<close>

end
